(* ===== verification/Prelude.thy ===== *)
theory Prelude
  imports Main "HOL-Library.Word"
begin

text \<open>
  Shared vocabulary of the development: Rust's \<open>Result\<close> as a sum type with a bind, methods
  on \<open>&mut self\<close> that return a \<open>Result\<close> as functions from a state to an outcome and the
  state they leave behind (also when they fail), \<open>std::collections::HashMap\<close> with a key
  equality of its own as an association list, checked arithmetic at a fixed width, and
  little-endian byte strings.
  Every \<open>usize\<close> of the source is a \<open>nat\<close>; a place where the source checks that a \<open>usize\<close>
  does not overflow keeps that check, against a host word of 64 bits.
\<close>

unbundle bit_operations_syntax

type_synonym byte = "8 word"
type_synonym usize = nat
type_synonym u32 = "32 word"
type_synonym i32 = "32 word"
type_synonym u64 = "64 word"
type_synonym i64 = "64 word"

text \<open>\<open>result_simps\<close> evaluates the two binds; \<open>vm_defs\<close> collects the definitions that the
  component proofs unfold.\<close>

named_theorems result_simps
named_theorems vm_defs

section \<open>Results and stateful methods\<close>

definition rbind :: "'e + 'a \<Rightarrow> ('a \<Rightarrow> 'e + 'b) \<Rightarrow> 'e + 'b" where
  "rbind r f = (case r of Inl e \<Rightarrow> Inl e | Inr x \<Rightarrow> f x)"

definition ok_or :: "'e \<Rightarrow> 'a option \<Rightarrow> 'e + 'a" where
  "ok_or e x = (case x of None \<Rightarrow> Inl e | Some v \<Rightarrow> Inr v)"

definition map_err :: "('e \<Rightarrow> 'f) \<Rightarrow> 'e + 'a \<Rightarrow> 'f + 'a" where
  "map_err g r = (case r of Inl e \<Rightarrow> Inl (g e) | Inr v \<Rightarrow> Inr v)"

definition map_ok :: "('a \<Rightarrow> 'b) \<Rightarrow> 'e + 'a \<Rightarrow> 'e + 'b" where
  "map_ok g r = (case r of Inl e \<Rightarrow> Inl e | Inr v \<Rightarrow> Inr (g v))"

text \<open>Collecting an iterator of results into a result of a vector: the first error wins.\<close>

fun collect :: "('e + 'a) list \<Rightarrow> 'e + 'a list" where
  "collect [] = Inr []"
| "collect (Inl e # rs) = Inl e"
| "collect (Inr x # rs) = map_ok (\<lambda>xs. x # xs) (collect rs)"

type_synonym ('s, 'e, 'a) meth = "'s \<Rightarrow> ('e + 'a) \<times> 's"

definition mret :: "'a \<Rightarrow> ('s, 'e, 'a) meth" where
  "mret x s = (Inr x, s)"

definition merr :: "'e \<Rightarrow> ('s, 'e, 'a) meth" where
  "merr e s = (Inl e, s)"

definition mbind :: "('s, 'e, 'a) meth \<Rightarrow> ('a \<Rightarrow> ('s, 'e, 'b) meth) \<Rightarrow> ('s, 'e, 'b) meth" where
  "mbind m f s = (case m s of (Inl e, t) \<Rightarrow> (Inl e, t) | (Inr x, t) \<Rightarrow> f x t)"

text \<open>A read-only method (\<open>&self\<close>) used from a mutating one, and an infallible update.\<close>

definition mread :: "('s \<Rightarrow> 'e + 'a) \<Rightarrow> ('s, 'e, 'a) meth" where
  "mread f s = (f s, s)"

definition mmodify :: "('s \<Rightarrow> 's) \<Rightarrow> ('s, 'e, unit) meth" where
  "mmodify f s = (Inr (), f s)"

text \<open>\<open>map_err\<close> on the result of a mutating method, and a method of a part of the state.\<close>

definition mmap_err :: "('e \<Rightarrow> 'f) \<Rightarrow> ('s, 'e, 'a) meth \<Rightarrow> ('s, 'f, 'a) meth" where
  "mmap_err g m s = (case m s of (r, t) \<Rightarrow> (map_err g r, t))"

definition mlift :: "('s \<Rightarrow> 'p) \<Rightarrow> ('p \<Rightarrow> 's \<Rightarrow> 's) \<Rightarrow> ('p, 'e, 'a) meth \<Rightarrow> ('s, 'e, 'a) meth" where
  "mlift get put m s = (case m (get s) of (r, p) \<Rightarrow> (r, put p s))"

lemma rbind_simps [simp, result_simps]:
  "rbind (Inl e) f = Inl e" "rbind (Inr x) f = f x"
  by (simp_all add: rbind_def)

lemma ok_or_simps [simp, result_simps]:
  "ok_or e None = Inl e" "ok_or e (Some v) = Inr v"
  by (simp_all add: ok_or_def)

lemma map_err_simps [simp, result_simps]:
  "map_err g (Inl e) = Inl (g e)" "map_err g (Inr v) = Inr v"
  by (simp_all add: map_err_def)

lemma map_ok_simps [simp, result_simps]:
  "map_ok g (Inl e) = Inl e" "map_ok g (Inr v) = Inr (g v)"
  by (simp_all add: map_ok_def)

lemma rbind_Inr_iff: "rbind r f = Inr y \<longleftrightarrow> (\<exists>x. r = Inr x \<and> f x = Inr y)"
  by (cases r) simp_all

lemma rbind_Inl_iff: "rbind r f = Inl e \<longleftrightarrow> r = Inl e \<or> (\<exists>x. r = Inr x \<and> f x = Inl e)"
  by (cases r) simp_all

lemma ok_or_Inr_iff [simp]: "ok_or e x = Inr v \<longleftrightarrow> x = Some v"
  by (cases x) simp_all

lemma map_ok_Inr_iff: "map_ok g r = Inr y \<longleftrightarrow> (\<exists>x. r = Inr x \<and> y = g x)"
  by (cases r) auto

lemma map_err_Inr_iff [simp]: "map_err g r = Inr y \<longleftrightarrow> r = Inr y"
  by (cases r) auto

lemma collect_map_Inr [simp]: "collect (map (\<lambda>x. Inr (f x)) xs) = Inr (map f xs)"
  by (induction xs) simp_all

lemma collect_Inr_length: "collect rs = Inr xs \<Longrightarrow> length xs = length rs"
  by (induction rs arbitrary: xs rule: collect.induct) (auto simp: map_ok_Inr_iff)

lemma mbind_simps [simp, result_simps]:
  "mbind (mret x) f s = f x s"
  "mbind (merr e) f s = (Inl e, s)"
  by (simp_all add: mbind_def mret_def merr_def)

lemma mbind_assoc: "mbind (mbind m f) g = mbind m (\<lambda>x. mbind (f x) g)"
  by (rule ext) (simp add: mbind_def split: prod.splits sum.splits)

lemma mbind_Inr_iff:
  "mbind m f s = (Inr y, u) \<longleftrightarrow> (\<exists>x t. m s = (Inr x, t) \<and> f x t = (Inr y, u))"
  by (auto simp: mbind_def split: prod.splits sum.splits)

lemma mmap_err_Inr_iff: "mmap_err g m s = (Inr x, t) \<longleftrightarrow> m s = (Inr x, t)"
  by (auto simp: mmap_err_def split: prod.splits)

lemma mlift_Inr_iff:
  "mlift get put m s = (Inr x, t) \<longleftrightarrow> (\<exists>p. m (get s) = (Inr x, p) \<and> t = put p s)"
  by (auto simp: mlift_def split: prod.splits)

lemma mread_simps: "f s = Inl e \<Longrightarrow> mread f s = (Inl e, s)" "f s = Inr x \<Longrightarrow> mread f s = (Inr x, s)"
  by (simp_all add: mread_def)

section \<open>Hash maps with a key equality\<close>

text \<open>
  \<open>HashMap::insert\<close> on a key that is already present replaces the value and keeps the stored
  key; \<open>HashMap::get\<close> compares with the key type's \<open>Eq\<close>, here the parameter \<open>eq\<close>.
\<close>

fun hm_get :: "('k \<Rightarrow> 'k \<Rightarrow> bool) \<Rightarrow> ('k \<times> 'v) list \<Rightarrow> 'k \<Rightarrow> 'v option" where
  "hm_get eq [] k = None"
| "hm_get eq ((k', v) # m) k = (if eq k' k then Some v else hm_get eq m k)"

fun hm_insert :: "('k \<Rightarrow> 'k \<Rightarrow> bool) \<Rightarrow> 'k \<Rightarrow> 'v \<Rightarrow> ('k \<times> 'v) list \<Rightarrow> ('k \<times> 'v) list" where
  "hm_insert eq k v [] = [(k, v)]"
| "hm_insert eq k v ((k', v') # m) =
     (if eq k' k then (k', v) # m else (k', v') # hm_insert eq k v m)"

fun hm_remove :: "('k \<Rightarrow> 'k \<Rightarrow> bool) \<Rightarrow> 'k \<Rightarrow> ('k \<times> 'v) list \<Rightarrow> ('k \<times> 'v) list" where
  "hm_remove eq k [] = []"
| "hm_remove eq k ((k', v') # m) = (if eq k' k then m else (k', v') # hm_remove eq k m)"

text \<open>The stored keys are pairwise different with respect to \<open>eq\<close>.\<close>

fun hm_distinct :: "('k \<Rightarrow> 'k \<Rightarrow> bool) \<Rightarrow> ('k \<times> 'v) list \<Rightarrow> bool" where
  "hm_distinct eq [] = True"
| "hm_distinct eq ((k, v) # m) = (hm_get eq m k = None \<and> hm_distinct eq m)"

lemma hm_insert_new: "hm_get eq m k = None \<Longrightarrow> hm_insert eq k v m = m @ [(k, v)]"
  by (induction m) (auto split: if_splits)

lemma hm_get_None_iff: "hm_get eq m k = None \<longleftrightarrow> (\<forall>(k', _)\<in>set m. \<not> eq k' k)"
  by (induction m) (auto split: if_splits)

locale key_eq =
  fixes eq :: "'k \<Rightarrow> 'k \<Rightarrow> bool"
  assumes refl: "eq k k"
    and sym: "eq k l \<Longrightarrow> eq l k"
    and trans: "eq k l \<Longrightarrow> eq l m \<Longrightarrow> eq k m"
begin

lemma eq_cong: "eq k l \<Longrightarrow> eq x k \<longleftrightarrow> eq x l"
  using sym trans by blast

lemma get_cong: "eq k l \<Longrightarrow> hm_get eq m k = hm_get eq m l"
  by (induction m) (auto simp: eq_cong)

lemma get_insert: "hm_get eq (hm_insert eq k v m) l = (if eq k l then Some v else hm_get eq m l)"
proof (induction m)
  case (Cons p m)
  then show ?case by (cases p) (auto intro: trans dest: sym)
qed simp

lemma insert_distinct: "hm_distinct eq m \<Longrightarrow> hm_distinct eq (hm_insert eq k v m)"
proof (induction m)
  case (Cons p m)
  then show ?case by (cases p) (auto simp: get_insert dest: sym)
qed simp

lemma insert_length:
  "length (hm_insert eq k v m) = (if hm_get eq m k = None then Suc (length m) else length m)"
  by (induction m) (auto split: if_splits)

lemma get_remove:
  "hm_distinct eq m \<Longrightarrow>
   hm_get eq (hm_remove eq k m) l = (if eq k l then None else hm_get eq m l)"
proof (induction m)
  case (Cons p m)
  then show ?case by (cases p) (auto simp: get_cong dest: sym trans)
qed simp

lemma get_remove_None: "hm_get eq m l = None \<Longrightarrow> hm_get eq (hm_remove eq k m) l = None"
  by (induction m) (auto split: if_splits)

lemma remove_distinct: "hm_distinct eq m \<Longrightarrow> hm_distinct eq (hm_remove eq k m)"
  by (induction m) (auto simp: get_remove_None)

end

text \<open>Maps whose key equality is the logical one, such as those keyed by handles or names.\<close>

interpretation heq: key_eq "(=)"
  by unfold_locales auto

section \<open>Vectors\<close>

text \<open>\<open>slice::get\<close>, and \<open>Vec::resize\<close> where it grows.\<close>

definition vec_get :: "'a list \<Rightarrow> nat \<Rightarrow> 'a option" where
  "vec_get xs i = (if i < length xs then Some (xs ! i) else None)"

definition resize_to :: "'a \<Rightarrow> 'a list \<Rightarrow> nat \<Rightarrow> 'a list" where
  "resize_to d xs n = take n xs @ replicate (n - length xs) d"

lemma vec_get_simps [simp]:
  "i < length xs \<Longrightarrow> vec_get xs i = Some (xs ! i)"
  "length xs \<le> i \<Longrightarrow> vec_get xs i = None"
  by (simp_all add: vec_get_def)

lemma vec_get_Some_iff: "vec_get xs i = Some x \<longleftrightarrow> i < length xs \<and> xs ! i = x"
  by (auto simp: vec_get_def)

lemma vec_get_None_iff: "vec_get xs i = None \<longleftrightarrow> length xs \<le> i"
  by (auto simp: vec_get_def)

lemma length_resize_to [simp]: "length (resize_to d xs n) = n"
  by (simp add: resize_to_def)

lemma nth_resize_to:
  "i < n \<Longrightarrow> resize_to d xs n ! i = (if i < length xs then xs ! i else d)"
  by (simp add: resize_to_def nth_append)

section \<open>Machine integers\<close>

definition usize_max :: nat where
  "usize_max = 2 ^ 64 - 1"

definition i64_max :: nat where
  "i64_max = 2 ^ 63 - 1"

definition checked_add_usize :: "usize \<Rightarrow> usize \<Rightarrow> usize option" where
  "checked_add_usize a b = (if a + b \<le> usize_max then Some (a + b) else None)"

definition checked_sub_usize :: "usize \<Rightarrow> usize \<Rightarrow> usize option" where
  "checked_sub_usize a b = (if b \<le> a then Some (a - b) else None)"

definition u32_try_from :: "usize \<Rightarrow> u32 option" where
  "u32_try_from n = (if n < 2 ^ 32 then Some (of_nat n) else None)"

text \<open>\<open>i64::try_from(usize)\<close>: the value, where it fits.\<close>

definition i64_try_from_usize :: "usize \<Rightarrow> i64 option" where
  "i64_try_from_usize n = (if n \<le> i64_max then Some (of_nat n) else None)"

text \<open>The signed range at a width, and Rust's checked operations in their signed and unsigned
  instances. Division truncates towards zero.\<close>

definition sint_fits :: "'a::len word itself \<Rightarrow> int \<Rightarrow> bool" where
  "sint_fits t i = (- (2 ^ (LENGTH('a) - 1)) \<le> i \<and> i < 2 ^ (LENGTH('a) - 1))"

definition uint_fits :: "'a::len word itself \<Rightarrow> int \<Rightarrow> bool" where
  "uint_fits t i = (0 \<le> i \<and> i < 2 ^ LENGTH('a))"

definition s_checked :: "(int \<Rightarrow> int \<Rightarrow> int) \<Rightarrow> 'a::len word \<Rightarrow> 'a word \<Rightarrow> 'a word option" where
  "s_checked f a b =
     (let r = f (sint a) (sint b) in if sint_fits TYPE('a word) r then Some (word_of_int r) else None)"

definition u_checked :: "(int \<Rightarrow> int \<Rightarrow> int) \<Rightarrow> 'a::len word \<Rightarrow> 'a word \<Rightarrow> 'a word option" where
  "u_checked f a b =
     (let r = f (uint a) (uint b) in if uint_fits TYPE('a word) r then Some (word_of_int r) else None)"

definition trunc_div :: "int \<Rightarrow> int \<Rightarrow> int" where
  "trunc_div a b = sgn a * sgn b * (\<bar>a\<bar> div \<bar>b\<bar>)"

definition trunc_rem :: "int \<Rightarrow> int \<Rightarrow> int" where
  "trunc_rem a b = sgn a * (\<bar>a\<bar> mod \<bar>b\<bar>)"

lemma sint_fits_sint [simp]: "sint_fits TYPE('a word) (sint (w :: 'a::len word))"
  using sint_greater_eq[of w] sint_less[of w] by (simp add: sint_fits_def)

lemma uint_fits_uint [simp]: "uint_fits TYPE('a word) (uint (w :: 'a::len word))"
  by (simp add: uint_fits_def)

lemma sint_word_of_int_fits:
  "sint_fits TYPE('a::len word) i \<Longrightarrow> sint (word_of_int i :: 'a word) = i"
  by (simp add: sint_fits_def sint_sbintrunc' signed_take_bit_int_eq_self)

lemma uint_word_of_int_fits:
  "uint_fits TYPE('a::len word) i \<Longrightarrow> uint (word_of_int i :: 'a word) = i"
  by (simp add: uint_fits_def unsigned_of_int take_bit_int_eq_self)

lemma s_checked_Some:
  fixes a b :: "'a::len word"
  shows "s_checked f a b = Some c \<longleftrightarrow>
    sint_fits TYPE('a word) (f (sint a) (sint b)) \<and> sint c = f (sint a) (sint b)"
proof
  assume "s_checked f a b = Some c"
  then show "sint_fits TYPE('a word) (f (sint a) (sint b)) \<and> sint c = f (sint a) (sint b)"
    by (auto simp: s_checked_def Let_def sint_word_of_int_fits split: if_splits)
next
  assume r: "sint_fits TYPE('a word) (f (sint a) (sint b)) \<and> sint c = f (sint a) (sint b)"
  then have "word_of_int (f (sint a) (sint b)) = c" by (metis of_int_sint scast_id)
  with r show "s_checked f a b = Some c" by (simp add: s_checked_def Let_def)
qed

lemma u_checked_Some:
  fixes a b :: "'a::len word"
  shows "u_checked f a b = Some c \<longleftrightarrow>
    uint_fits TYPE('a word) (f (uint a) (uint b)) \<and> uint c = f (uint a) (uint b)"
proof
  assume "u_checked f a b = Some c"
  then show "uint_fits TYPE('a word) (f (uint a) (uint b)) \<and> uint c = f (uint a) (uint b)"
    by (auto simp: u_checked_def Let_def uint_word_of_int_fits split: if_splits)
next
  assume r: "uint_fits TYPE('a word) (f (uint a) (uint b)) \<and> uint c = f (uint a) (uint b)"
  then have "word_of_int (f (uint a) (uint b)) = c" by (metis word_of_int_uint)
  with r show "u_checked f a b = Some c" by (simp add: u_checked_def Let_def)
qed

lemma s_checked_None:
  "s_checked f (a :: 'a::len word) b = None \<longleftrightarrow> \<not> sint_fits TYPE('a word) (f (sint a) (sint b))"
  by (auto simp: s_checked_def Let_def)

lemma u_checked_None:
  "u_checked f (a :: 'a::len word) b = None \<longleftrightarrow> \<not> uint_fits TYPE('a word) (f (uint a) (uint b))"
  by (auto simp: u_checked_def Let_def)

lemma u32_try_from_Some: "u32_try_from n = Some w \<longleftrightarrow> unat w = n"
proof
  assume "u32_try_from n = Some w"
  then show "unat w = n"
    by (auto simp: u32_try_from_def unat_of_nat split: if_splits)
next
  assume "unat w = n"
  moreover have "unat w < 2 ^ 32" using unsigned_less[of w] by simp
  ultimately show "u32_try_from n = Some w" by (auto simp: u32_try_from_def)
qed

section \<open>Little-endian byte strings\<close>

text \<open>\<open>to_le_bytes\<close> and \<open>from_le_bytes\<close> at a width of \<open>n\<close> bytes.\<close>

fun le_bytes :: "nat \<Rightarrow> nat \<Rightarrow> byte list" where
  "le_bytes 0 x = []"
| "le_bytes (Suc n) x = of_nat (x mod 256) # le_bytes n (x div 256)"

fun le_value :: "byte list \<Rightarrow> nat" where
  "le_value [] = 0"
| "le_value (b # bs) = unat b + 256 * le_value bs"

lemma length_le_bytes [simp]: "length (le_bytes n x) = n"
  by (induction n arbitrary: x) simp_all

lemma le_value_le_bytes: "x < 256 ^ n \<Longrightarrow> le_value (le_bytes n x) = x"
proof (induction n arbitrary: x)
  case (Suc n)
  have "x div 256 < 256 ^ n" using Suc.prems by (simp add: less_mult_imp_div_less mult.commute)
  with Suc.IH show ?case by (simp add: unat_of_nat)
qed simp

lemma le_value_bound: "le_value bs < 256 ^ length bs"
proof (induction bs)
  case (Cons b bs)
  have "unat b < 256" using unsigned_less[of b] by simp
  moreover have "256 * le_value bs + 256 \<le> 256 * 256 ^ length bs"
    using Cons.IH by (metis Suc_leI add.commute mult_Suc_right mult_le_mono2)
  ultimately show ?case by simp
qed simp

definition u32_to_le :: "u32 \<Rightarrow> byte list" where
  "u32_to_le w = le_bytes 4 (unat w)"

definition u32_from_le :: "byte list \<Rightarrow> u32" where
  "u32_from_le bs = of_nat (le_value bs)"

lemma u32_from_le_to_le [simp]: "u32_from_le (u32_to_le w) = w"
proof -
  have "unat w < 256 ^ 4" using unsigned_less[of w] by simp
  then show ?thesis by (simp add: u32_from_le_def u32_to_le_def le_value_le_bytes del: le_bytes.simps)
qed

lemma length_u32_to_le [simp]: "length (u32_to_le w) = 4"
  by (simp add: u32_to_le_def)

end
