(* ===== verification/Float64.thy ===== *)
theory Float64
  imports Prelude
begin

text \<open>
  The \<open>f64\<close> values of the VM as their 64 bits, with the IEEE 754 operations that the source
  uses, and the wrapper \<open>F64\<close> of \<open>core_types.rs\<close> whose equality compares normalised bits.

  Every finite \<open>f64\<close> is an integer multiple of \<open>2 ^ -1074\<close>; \<open>f64_units\<close> is that integer, so
  exact statements about floating-point values are statements about integers, and every
  rounding operation rounds a ratio of two naturals, counted in units, to the nearest
  representable magnitude with ties to even. A result that is not a number is the constant
  \<open>f64::NAN\<close> (the source never observes the payload of a NaN).
\<close>

type_synonym f64 = "64 word"

section \<open>Fields and exact value\<close>

definition f64_exponent :: "f64 \<Rightarrow> nat" where
  "f64_exponent x = unat (drop_bit 52 x AND 0x7ff)"

definition f64_fraction :: "f64 \<Rightarrow> nat" where
  "f64_fraction x = unat (x AND 0xfffffffffffff)"

definition f64_magnitude :: "f64 \<Rightarrow> nat" where
  "f64_magnitude x = unat x mod 2 ^ 63"

definition f64_sign :: "f64 \<Rightarrow> bool" where
  "f64_sign x = (2 ^ 63 \<le> unat x)"

definition f64_inf_magnitude :: nat where
  "f64_inf_magnitude = 2047 * 2 ^ 52"

definition is_nan :: "f64 \<Rightarrow> bool" where
  "is_nan x = (f64_inf_magnitude < f64_magnitude x)"

definition is_infinite :: "f64 \<Rightarrow> bool" where
  "is_infinite x = (f64_magnitude x = f64_inf_magnitude)"

definition is_finite :: "f64 \<Rightarrow> bool" where
  "is_finite x = (f64_magnitude x < f64_inf_magnitude)"

definition magnitude_units :: "nat \<Rightarrow> nat" where
  "magnitude_units m =
     (if m < 2 ^ 52 then m else (2 ^ 52 + m mod 2 ^ 52) * 2 ^ (m div 2 ^ 52 - 1))"

definition f64_units :: "f64 \<Rightarrow> int" where
  "f64_units x =
     (if f64_sign x then - int (magnitude_units (f64_magnitude x))
      else int (magnitude_units (f64_magnitude x)))"

text \<open>One, in units.\<close>

definition unit_one :: nat where
  "unit_one = 2 ^ 1074"

section \<open>Rounding\<close>

fun bitlen :: "nat \<Rightarrow> nat" where
  "bitlen n = (if n = 0 then 0 else Suc (bitlen (n div 2)))"

declare bitlen.simps [simp del]

definition round_half_even :: "nat \<Rightarrow> nat \<Rightarrow> nat" where
  "round_half_even n d =
     (let q = n div d; r = n mod d
      in if 2 * r < d then q else if d < 2 * r then q + 1 else if even q then q else q + 1)"

definition round_magnitude :: "nat \<Rightarrow> nat \<Rightarrow> nat" where
  "round_magnitude n d =
     (let k = bitlen (n div d) - 53
      in min (k * 2 ^ 52 + round_half_even n (d * 2 ^ k)) f64_inf_magnitude)"

definition f64_make :: "bool \<Rightarrow> nat \<Rightarrow> f64" where
  "f64_make s m = of_nat (if s then 2 ^ 63 + m else m)"

definition f64_NAN :: f64 where
  "f64_NAN = 0x7ff8000000000000"

section \<open>Arithmetic\<close>

definition f64_neg :: "f64 \<Rightarrow> f64" where
  "f64_neg x = x XOR 0x8000000000000000"

definition f64_add :: "f64 \<Rightarrow> f64 \<Rightarrow> f64" where
  "f64_add a b =
     (if is_nan a \<or> is_nan b then f64_NAN
      else if is_infinite a then (if is_infinite b \<and> f64_sign a \<noteq> f64_sign b then f64_NAN else a)
      else if is_infinite b then b
      else let u = f64_units a + f64_units b
           in if u = 0 then f64_make (f64_sign a \<and> f64_sign b) 0
              else f64_make (u < 0) (round_magnitude (nat \<bar>u\<bar>) 1))"

definition f64_sub :: "f64 \<Rightarrow> f64 \<Rightarrow> f64" where
  "f64_sub a b = f64_add a (f64_neg b)"

definition f64_mul :: "f64 \<Rightarrow> f64 \<Rightarrow> f64" where
  "f64_mul a b =
     (let s = (f64_sign a \<noteq> f64_sign b)
      in if is_nan a \<or> is_nan b then f64_NAN
         else if is_infinite a \<or> is_infinite b
              then (if f64_units a = 0 \<or> f64_units b = 0 then f64_NAN
                    else f64_make s f64_inf_magnitude)
         else f64_make s (round_magnitude (nat (\<bar>f64_units a\<bar> * \<bar>f64_units b\<bar>)) unit_one))"

definition f64_div :: "f64 \<Rightarrow> f64 \<Rightarrow> f64" where
  "f64_div a b =
     (let s = (f64_sign a \<noteq> f64_sign b)
      in if is_nan a \<or> is_nan b \<or> (is_infinite a \<and> is_infinite b) then f64_NAN
         else if is_infinite a then f64_make s f64_inf_magnitude
         else if is_infinite b then f64_make s 0
         else if f64_units b = 0
              then (if f64_units a = 0 then f64_NAN else f64_make s f64_inf_magnitude)
         else f64_make s (round_magnitude (nat \<bar>f64_units a\<bar> * unit_one) (nat \<bar>f64_units b\<bar>)))"

definition f64_rem :: "f64 \<Rightarrow> f64 \<Rightarrow> f64" where
  "f64_rem a b =
     (if is_nan a \<or> is_nan b \<or> is_infinite a then f64_NAN
      else if is_infinite b then a
      else if f64_units b = 0 then f64_NAN
      else f64_make (f64_sign a) (round_magnitude (nat (\<bar>f64_units a\<bar> mod \<bar>f64_units b\<bar>)) 1))"

text \<open>Integer to float (\<open>as f64\<close>), \<open>f64::round\<close> (ties away from zero), float to \<open>i64\<close>
  (\<open>as i64\<close>: truncating, saturating, zero on NaN), and \<open>2f64.powi\<close>.\<close>

definition f64_of_int :: "int \<Rightarrow> f64" where
  "f64_of_int i = f64_make (i < 0) (round_magnitude (nat \<bar>i\<bar> * unit_one) 1)"

definition f64_round :: "f64 \<Rightarrow> f64" where
  "f64_round x =
     (if is_finite x
      then f64_make (f64_sign x)
             (round_magnitude ((2 * nat \<bar>f64_units x\<bar> + unit_one) div (2 * unit_one) * unit_one) 1)
      else x)"

definition f64_to_i64 :: "f64 \<Rightarrow> i64" where
  "f64_to_i64 x =
     (if is_nan x then 0
      else let t = (if is_infinite x then 2 ^ 63 else int (nat \<bar>f64_units x\<bar> div unit_one))
           in if f64_sign x then word_of_int (max (- (2 ^ 63)) (- t))
              else word_of_int (min (2 ^ 63 - 1) t))"

definition f64_pow2 :: "nat \<Rightarrow> f64" where
  "f64_pow2 n = f64_make False (min ((n + 1023) * 2 ^ 52) f64_inf_magnitude)"

section \<open>Comparison\<close>

datatype ordering = Less | Equal | Greater

fun reverse :: "ordering \<Rightarrow> ordering" where
  "reverse Less = Greater"
| "reverse Equal = Equal"
| "reverse Greater = Less"

definition cmp :: "'a::linorder \<Rightarrow> 'a \<Rightarrow> ordering" where
  "cmp a b = (if a < b then Less else if a = b then Equal else Greater)"

definition f64_key :: "f64 \<Rightarrow> int" where
  "f64_key x = (if f64_sign x then - int (f64_magnitude x) else int (f64_magnitude x))"

definition f64_partial_cmp :: "f64 \<Rightarrow> f64 \<Rightarrow> ordering option" where
  "f64_partial_cmp a b = (if is_nan a \<or> is_nan b then None else Some (cmp (f64_key a) (f64_key b)))"

definition f64_lt :: "f64 \<Rightarrow> f64 \<Rightarrow> bool" where
  "f64_lt a b = (f64_partial_cmp a b = Some Less)"

definition f64_ge :: "f64 \<Rightarrow> f64 \<Rightarrow> bool" where
  "f64_ge a b = (f64_partial_cmp a b = Some Greater \<or> f64_partial_cmp a b = Some Equal)"

definition f64_eq :: "f64 \<Rightarrow> f64 \<Rightarrow> bool" where
  "f64_eq a b = (f64_partial_cmp a b = Some Equal)"

section \<open>The wrapper F64\<close>

definition to_bits_normalized :: "f64 \<Rightarrow> u64" where
  "to_bits_normalized x = (if is_nan x then f64_NAN else if f64_eq x 0 then 0 else x)"

definition F64_eq :: "f64 \<Rightarrow> f64 \<Rightarrow> bool" where
  "F64_eq x y = (to_bits_normalized x = to_bits_normalized y)"

lemmas f64_defs = f64_exponent_def f64_fraction_def f64_magnitude_def f64_sign_def
  f64_inf_magnitude_def is_nan_def is_infinite_def is_finite_def f64_units_def
  magnitude_units_def f64_key_def f64_partial_cmp_def

section \<open>Facts about the representation\<close>

lemma reverse_reverse [simp]: "reverse (reverse x) = x"
  by (cases x) simp_all

lemma reverse_cmp: "reverse (cmp a b) = cmp b a"
  by (auto simp: cmp_def)

lemma cmp_simps [simp]:
  "cmp a b = Less \<longleftrightarrow> a < b" "cmp a b = Equal \<longleftrightarrow> a = b" "cmp a b = Greater \<longleftrightarrow> b < a"
  by (auto simp: cmp_def)

lemma cmp_mono:
  "(a < b \<longleftrightarrow> c < d) \<Longrightarrow> (a = b \<longleftrightarrow> c = d) \<Longrightarrow> cmp a b = cmp c d"
  by (simp add: cmp_def)

lemma f64_magnitude_bound: "f64_magnitude x < 2 ^ 63"
  by (simp add: f64_magnitude_def)

lemma f64_fraction_alt: "f64_fraction x = f64_magnitude x mod 2 ^ 52"
proof -
  have mask: "(0xfffffffffffff :: f64) = mask 52" by (simp add: mask_eq_exp_minus_1)
  have "f64_fraction x = unat x mod 2 ^ 52"
    unfolding f64_fraction_def mask
    by (simp add: take_bit_eq_mask [symmetric] take_bit_eq_mod unat_mod)
  also have "\<dots> = f64_magnitude x mod 2 ^ 52"
    unfolding f64_magnitude_def by (rule mod_mod_cancel [symmetric]) (simp add: le_imp_power_dvd)
  finally show ?thesis .
qed

lemma f64_exponent_alt: "f64_exponent x = f64_magnitude x div 2 ^ 52"
proof -
  have mask: "(0x7ff :: f64) = mask 11" by (simp add: mask_eq_exp_minus_1)
  have "f64_exponent x = unat x div 2 ^ 52 mod 2 ^ 11"
    unfolding f64_exponent_def mask
    by (simp add: take_bit_eq_mask [symmetric] take_bit_eq_mod drop_bit_eq_div unat_mod unat_div)
  also have "\<dots> = f64_magnitude x div 2 ^ 52"
    using mod_mult2_eq [of "unat x" "2 ^ 52" "2 ^ 11"] by (simp add: f64_magnitude_def)
  finally show ?thesis .
qed

lemma is_nan_0 [simp]: "\<not> is_nan 0"
  by (simp add: f64_defs)

lemma f64_key_0 [simp]: "f64_key 0 = 0"
  by (simp add: f64_defs)

text \<open>The mantissa and the scale of a magnitude, the way the source decomposes it.\<close>

lemma magnitude_units_alt:
  "magnitude_units m =
     (if m div 2 ^ 52 = 0 then m mod 2 ^ 52 else (2 ^ 52 + m mod 2 ^ 52) * 2 ^ (m div 2 ^ 52 - 1))"
  by (simp add: magnitude_units_def div_eq_0_iff)

lemma magnitude_units_less:
  assumes "m < n"
  shows "magnitude_units m < magnitude_units n"
proof -
  define E F where "E = m div 2 ^ 52" and "F = m mod 2 ^ 52"
  define E' F' where "E' = n div 2 ^ 52" and "F' = n mod 2 ^ 52"
  have m: "m = E * 2 ^ 52 + F" and n: "n = E' * 2 ^ 52 + F'"
    by (simp_all add: E_def F_def E'_def F'_def)
  have F: "F < 2 ^ 52" "F' < 2 ^ 52" by (simp_all add: F_def F'_def)
  have EE: "E \<le> E'" using assms unfolding E_def E'_def by (simp add: div_le_mono)
  have um: "magnitude_units m = (if E = 0 then F else (2 ^ 52 + F) * 2 ^ (E - 1))"
    and un: "magnitude_units n = (if E' = 0 then F' else (2 ^ 52 + F') * 2 ^ (E' - 1))"
    by (simp_all add: magnitude_units_alt E_def F_def E'_def F'_def)
  show ?thesis
  proof (cases "E = E'")
    case True
    with assms m n have "F < F'" by simp
    with True show ?thesis by (simp add: um un)
  next
    case False
    with EE have lt: "E < E'" by simp
    have "magnitude_units m < 2 ^ 52 * 2 ^ (E' - 1)"
    proof (cases "E = 0")
      case True
      have "F < 2 ^ 52 * 1" using F(1) by simp
      also have "2 ^ 52 * 1 \<le> (2::nat) ^ 52 * 2 ^ (E' - 1)" by (rule mult_le_mono2) simp
      finally show ?thesis using True by (simp add: um)
    next
      case False
      have "(2 ^ 52 + F) * 2 ^ (E - 1) < (2 ^ 53) * (2::nat) ^ (E - 1)" using F by simp
      also have "\<dots> = 2 ^ 52 * 2 ^ E" using False by (cases E) simp_all
      also have "\<dots> \<le> 2 ^ 52 * 2 ^ (E' - 1)" using lt by (simp add: power_increasing)
      finally show ?thesis using False by (simp add: um)
    qed
    also have "\<dots> \<le> magnitude_units n" using lt by (simp add: un)
    finally show ?thesis .
  qed
qed

lemma magnitude_units_less_iff: "magnitude_units m < magnitude_units n \<longleftrightarrow> m < n"
  by (metis magnitude_units_less linorder_neqE_nat not_less_iff_gr_or_eq)

lemma magnitude_units_eq_iff: "magnitude_units m = magnitude_units n \<longleftrightarrow> m = n"
  by (metis magnitude_units_less linorder_neqE_nat nat_neq_iff)

lemma magnitude_units_0 [simp]: "magnitude_units 0 = 0"
  by (simp add: magnitude_units_def)

lemma magnitude_units_0_iff [simp]: "magnitude_units m = 0 \<longleftrightarrow> m = 0"
  using magnitude_units_eq_iff [of m 0] by simp

lemma magnitude_units_pos [simp]: "0 < magnitude_units m \<longleftrightarrow> 0 < m"
  by (metis magnitude_units_0_iff neq0_conv)

lemma mixed_sign: "- int a < int b \<longleftrightarrow> 0 < a \<or> 0 < b" "int a = - int b \<longleftrightarrow> a = 0 \<and> b = 0"
  by linarith+

text \<open>Comparing keys is comparing exact values.\<close>

lemma cmp_key_units: "cmp (f64_key x) (f64_key y) = cmp (f64_units x) (f64_units y)"
proof (rule cmp_mono)
  show "f64_key x < f64_key y \<longleftrightarrow> f64_units x < f64_units y"
    by (cases "f64_sign x"; cases "f64_sign y")
      (auto simp: f64_key_def f64_units_def magnitude_units_less_iff mixed_sign)
  show "f64_key x = f64_key y \<longleftrightarrow> f64_units x = f64_units y"
    by (cases "f64_sign x"; cases "f64_sign y")
      (auto simp: f64_key_def f64_units_def magnitude_units_eq_iff mixed_sign)
qed

lemma f64_key_sign: "f64_key x < 0 \<longleftrightarrow> f64_units x < 0" "0 \<le> f64_key x \<longleftrightarrow> 0 \<le> f64_units x"
  by (auto simp: f64_key_def f64_units_def not_le)

lemma f64_sign_bit: "f64_sign x \<longleftrightarrow> bit x 63"
proof -
  have "unat x < 2 ^ 64" using unsigned_less [of x] by simp
  then have "unat x div 2 ^ 63 < 2" by simp
  then have "odd (unat x div 2 ^ 63) \<longleftrightarrow> unat x div 2 ^ 63 \<noteq> 0"
    by (cases "unat x div 2 ^ 63" rule: nat.exhaust) (auto simp: less_Suc_eq numeral_2_eq_2)
  moreover have "bit x 63 \<longleftrightarrow> odd (unat x div 2 ^ 63)"
  proof -
    have "bit x 63 \<longleftrightarrow> bit (unat x) 63" by (simp add: bit_unsigned_iff)
    then show ?thesis by (simp only: bit_iff_odd [of "unat x"])
  qed
  ultimately show ?thesis unfolding f64_sign_def div_eq_0_iff by (auto simp: not_less)
qed

lemma f64_magnitude_take_bit: "f64_magnitude x = unat (take_bit 63 x)"
  by (simp only: f64_magnitude_def unsigned_take_bit_eq) (simp only: take_bit_eq_mod)

lemma f64_neg_parts: "f64_magnitude (f64_neg x) = f64_magnitude x" "f64_sign (f64_neg x) = (\<not> f64_sign x)"
proof -
  have "take_bit 63 (0x8000000000000000 :: 64 word) = 0" by simp
  then show "f64_magnitude (f64_neg x) = f64_magnitude x"
    by (simp only: f64_magnitude_take_bit f64_neg_def take_bit_xor xor.right_neutral)
  have "bit (0x8000000000000000 :: 64 word) 63" by simp
  then show "f64_sign (f64_neg x) = (\<not> f64_sign x)"
    by (simp only: f64_sign_bit f64_neg_def bit_xor_iff) simp
qed

end
