(* ===== verification/Values.thy ===== *)
theory Values
  imports Float64
begin

text \<open>
  The value model of \<open>stoffel-vm-types/src/core_types.rs\<close> (share types, share payloads, VM values,
  typed handles) with its hand-written equality, the integer conversions of
  \<open>stoffel-vm/src/value_conversions.rs\<close>, and the error types the runtime threads through its
  results.

  A signed and an unsigned integer of the same width share a word type; the constructor says
  how the word is read (\<open>sint\<close> or \<open>uint\<close>). Strings are their UTF-8 bytes. A closure is the
  content behind its \<open>Arc\<close>. Where the source renders an error or a value into a message
  (\<open>to_string\<close>, \<open>format!("{:?}")\<close>), the model keeps the error or the value itself.
\<close>

section \<open>Share types\<close>

record fixed_point_precision =
  total_bits :: usize
  fractional_bits :: usize

datatype share_type_error =
    SecretIntBitLengthZero
  | FixedPointTotalBitsZero
  | FixedPointFractionalBitsOutOfRange usize usize

definition DEFAULT_SECRET_INT_BITS :: usize where "DEFAULT_SECRET_INT_BITS = 64"
definition BOOLEAN_SECRET_INT_BITS :: usize where "BOOLEAN_SECRET_INT_BITS = 1"
definition DEFAULT_FIXED_POINT_TOTAL_BITS :: usize where "DEFAULT_FIXED_POINT_TOTAL_BITS = 64"
definition DEFAULT_FIXED_POINT_FRACTIONAL_BITS :: usize where
  "DEFAULT_FIXED_POINT_FRACTIONAL_BITS = 16"

lemmas share_consts = DEFAULT_SECRET_INT_BITS_def BOOLEAN_SECRET_INT_BITS_def
  DEFAULT_FIXED_POINT_TOTAL_BITS_def DEFAULT_FIXED_POINT_FRACTIONAL_BITS_def

definition FixedPointPrecision_try_new ::
  "usize \<Rightarrow> usize \<Rightarrow> share_type_error + fixed_point_precision" where
  "FixedPointPrecision_try_new total_b frac =
     (if total_b = 0 then Inl FixedPointTotalBitsZero
      else if total_b \<le> frac then Inl (FixedPointFractionalBitsOutOfRange total_b frac)
      else Inr \<lparr>total_bits = total_b, fractional_bits = frac\<rparr>)"

datatype share_type =
    SecretInt usize
  | SecretUInt usize
  | SecretFixedPoint fixed_point_precision

definition try_secret_int :: "usize \<Rightarrow> share_type_error + share_type" where
  "try_secret_int bit_length =
     (if bit_length = 0 then Inl SecretIntBitLengthZero else Inr (SecretInt bit_length))"

definition try_secret_uint :: "usize \<Rightarrow> share_type_error + share_type" where
  "try_secret_uint bit_length =
     (if bit_length = 0 then Inl SecretIntBitLengthZero else Inr (SecretUInt bit_length))"

definition boolean_type :: share_type where
  "boolean_type = SecretInt BOOLEAN_SECRET_INT_BITS"

definition default_secret_int :: share_type where
  "default_secret_int = SecretInt DEFAULT_SECRET_INT_BITS"

definition try_secret_fixed_point_from_bits ::
  "usize \<Rightarrow> usize \<Rightarrow> share_type_error + share_type" where
  "try_secret_fixed_point_from_bits total_b frac =
     map_ok SecretFixedPoint (FixedPointPrecision_try_new total_b frac)"

definition default_secret_fixed_point :: share_type where
  "default_secret_fixed_point =
     SecretFixedPoint \<lparr>total_bits = DEFAULT_FIXED_POINT_TOTAL_BITS,
                       fractional_bits = DEFAULT_FIXED_POINT_FRACTIONAL_BITS\<rparr>"

text \<open>What the validating constructors establish.\<close>

fun share_type_ok :: "share_type \<Rightarrow> bool" where
  "share_type_ok (SecretInt n) = (0 < n)"
| "share_type_ok (SecretUInt n) = (0 < n)"
| "share_type_ok (SecretFixedPoint p) = (0 < total_bits p \<and> fractional_bits p < total_bits p)"

fun bit_length :: "share_type \<Rightarrow> usize option" where
  "bit_length (SecretInt n) = Some n"
| "bit_length (SecretUInt n) = Some n"
| "bit_length (SecretFixedPoint p) = None"

fun precision :: "share_type \<Rightarrow> fixed_point_precision option" where
  "precision (SecretFixedPoint p) = Some p"
| "precision _ = None"

definition is_boolean :: "share_type \<Rightarrow> bool" where
  "is_boolean t = (case t of SecretInt n \<Rightarrow> n = BOOLEAN_SECRET_INT_BITS | _ \<Rightarrow> False)"

section \<open>Share payloads and clear inputs\<close>

datatype share_data_format = OpaqueFormat | FeldmanFormat

datatype share_data =
    Opaque "byte list"
  | Feldman "byte list" "byte list list"

fun as_bytes :: "share_data \<Rightarrow> byte list" where
  "as_bytes (Opaque b) = b"
| "as_bytes (Feldman d _) = d"

fun commitments :: "share_data \<Rightarrow> byte list list option" where
  "commitments (Opaque _) = None"
| "commitments (Feldman _ c) = Some c"

fun format :: "share_data \<Rightarrow> share_data_format" where
  "format (Opaque _) = OpaqueFormat"
| "format (Feldman _ _) = FeldmanFormat"

definition has_commitments :: "share_data \<Rightarrow> bool" where
  "has_commitments d = (format d = FeldmanFormat)"

datatype clear_share_value =
    Integer i64
  | UnsignedInteger u64
  | FixedPoint f64
  | Boolean bool

record clear_share_input =
  csi_share_type :: share_type
  csi_value :: clear_share_value

section \<open>Values\<close>

datatype (plugins only: code size) val =
    I64 "64 word"
  | I32 "32 word"
  | I16 "16 word"
  | I8 "8 word"
  | U8 "8 word"
  | U16 "16 word"
  | U32 "32 word"
  | U64 "64 word"
  | Float f64
  | Bool bool
  | String string
  | Object usize
  | Array usize
  | Foreign usize
  | Closure string "(string \<times> val) list"
  | Unit
  | Share share_type share_data

type_synonym upvalue = "string \<times> val"

datatype table_ref = ObjectTable usize | ArrayTable usize

fun table_ref_from_value :: "val \<Rightarrow> table_ref option" where
  "table_ref_from_value (Object r) = Some (ObjectTable r)"
| "table_ref_from_value (Array r) = Some (ArrayTable r)"
| "table_ref_from_value _ = None"

fun type_name :: "val \<Rightarrow> string" where
  "type_name (I64 _) = ''int64''"
| "type_name (Float _) = ''float''"
| "type_name (Bool _) = ''boolean''"
| "type_name (String _) = ''string''"
| "type_name (Object _) = ''object''"
| "type_name (Array _) = ''array''"
| "type_name (Foreign _) = ''cffi_function''"
| "type_name (Closure _ _) = ''function''"
| "type_name Unit = ''nil''"
| "type_name (I32 _) = ''int32''"
| "type_name (I16 _) = ''int16''"
| "type_name (I8 _) = ''int8''"
| "type_name (U8 _) = ''uint8''"
| "type_name (U16 _) = ''uint16''"
| "type_name (U32 _) = ''uint32''"
| "type_name (U64 _) = ''uint64''"
| "type_name (Share _ _) = ''share''"

fun into_vm_value :: "clear_share_value \<Rightarrow> val" where
  "into_vm_value (Integer v) = I64 v"
| "into_vm_value (UnsignedInteger v) = U64 v"
| "into_vm_value (FixedPoint v) = Float v"
| "into_vm_value (Boolean v) = Bool v"

text \<open>
  \<open>Value\<close> derives \<open>PartialEq\<close>, so two values are equal when they agree structurally with
  every float compared by \<open>F64::eq\<close>, that is, by its normalised bits. Normalising every float
  of a value gives the same relation.
\<close>

primrec normalize_floats :: "val \<Rightarrow> val" where
  "normalize_floats (I64 x) = I64 x"
| "normalize_floats (I32 x) = I32 x"
| "normalize_floats (I16 x) = I16 x"
| "normalize_floats (I8 x) = I8 x"
| "normalize_floats (U8 x) = U8 x"
| "normalize_floats (U16 x) = U16 x"
| "normalize_floats (U32 x) = U32 x"
| "normalize_floats (U64 x) = U64 x"
| "normalize_floats (Float x) = Float (to_bits_normalized x)"
| "normalize_floats (Bool b) = Bool b"
| "normalize_floats (String s) = String s"
| "normalize_floats (Object r) = Object r"
| "normalize_floats (Array r) = Array r"
| "normalize_floats (Foreign r) = Foreign r"
| "normalize_floats (Closure f us) = Closure f (map (map_prod id normalize_floats) us)"
| "normalize_floats Unit = Unit"
| "normalize_floats (Share t d) = Share t d"

definition value_eq :: "val \<Rightarrow> val \<Rightarrow> bool" where
  "value_eq v w = (normalize_floats v = normalize_floats w)"

interpretation veq: key_eq value_eq
  by unfold_locales (auto simp: value_eq_def)

lemma value_eq_I64 [simp]: "value_eq (I64 a) (I64 b) \<longleftrightarrow> a = b"
  by (simp add: value_eq_def)

lemma value_eq_String [simp]: "value_eq (String a) (String b) \<longleftrightarrow> a = b"
  by (simp add: value_eq_def)

lemma value_eq_Float: "value_eq (Float a) (Float b) \<longleftrightarrow> F64_eq a b"
  by (simp add: value_eq_def F64_eq_def)

lemma value_eq_I64_left: "value_eq (I64 a) v \<longleftrightarrow> v = I64 a"
  by (cases v) (auto simp: value_eq_def)

lemma value_eq_I64_right: "value_eq v (I64 a) \<longleftrightarrow> v = I64 a"
  by (cases v) (auto simp: value_eq_def)

section \<open>Errors\<close>

text \<open>The error enumerations, with the source's variants and payloads. An error that the source
stores as its rendered message is kept as the error value itself. The variants of \<open>VmError\<close> that
wrap errors of parts without a model here (hooks, the client input store, foreign objects, the
identity check of an asynchronous engine) are left out.\<close>

datatype value_conversion_error =
    ExpectedNonNegativeInteger string
  | ExpectedInteger string
  | TooLargeForPlatform string
  | TooLargeForU64 string
  | ExceedsI64Range string
  | ExceedsVmIntegerRange string nat

datatype table_memory_error =
    Backend string
  | ObjectNotFound usize
  | ArrayNotFound usize
  | ExpectedTableValue
  | ExpectedObjectValue
  | ExpectedArrayValue
  | AllocatorOverflow string
  | ArrayIndexDoesNotFitHost i64
  | ArrayLengthOverflow i64
  | VmIntegerRangeExceeded string usize
  | ArrayPushLengthOverflow

datatype mpc_value_error =
    MVTableMemory table_memory_error
  | MVTableMemoryContext string table_memory_error
  | MVValueConversion value_conversion_error
  | MVShareType share_type_error
  | UnsupportedClearShareValue val
  | UnsupportedClearShareConversion share_type val
  | MVShareTypeMismatch string share_type share_type
  | MissingField string string
  | MissingArrayElement string usize
  | UnexpectedValue string string val
  | IndexOutOfBounds string usize usize
  | MVMessage string

datatype reveal_batch_error =
    RevealBackend share_type string
  | CountMismatch share_type usize usize
  | MissingResult usize

datatype activation_error =
    ActFunctionArityMismatch string usize usize
  | ActRegisterOutOfBounds usize usize
  | InstructionPointerOverflow string usize

datatype function_error =
    ParametersExceedRegisters string usize usize
  | LabelOutOfBounds string string usize usize
  | UnknownLabel string string
  | FnRegisterOutOfBounds string usize usize usize
  | RegisterIndexOverflow string usize
  | ResolvedOperandOverflow string string usize

datatype (plugins only: code size) vm_error =
    Message string
  | NoActiveActivationRecord
  | UnexpectedEndOfExecution
  | StackLengthOverflow
  | StackAddressOverflow i32
  | StackAddressOutOfBounds i32
  | RegisterOutOfBounds usize usize
  | PendingRevealWithoutQueuedBatch usize
  | ClearValueInSecretRegister string usize vm_error
  | InvalidShareRevealValue
  | FunctionArityMismatch string usize usize
  | EntryFunctionRequiresUpvalues string "string list"
  | UpvalueNotFound string
  | ClosureUpvalueNotFound string
  | UpvalueReadNotFound string
  | UpvalueWriteNotFound string
  | ExpectedClosure string
  | ForeignFunctionAsClosure string
  | FunctionAlreadyRegistered string
  | MethodAlreadyRegistered string string
  | RegistrationDuplicateFunction string string
  | RegistrationFunctionAlreadyRegistered string string
  | QuotedFunctionNotFound string
  | FunctionNotFound string
  | MethodNotFound string string
  | MethodReceiverTypeMismatch string string string
  | MethodCallRequiresReceiver string
  | CannotExecuteForeignFunction string
  | LocalStorageNotConfigured
  | LocalStorageOperationFailed string string
  | MpcEngineNotConfigured
  | MpcEngineNotReady
  | MpcBackendOperationFailed string string
  | MpcOutputEngineNotConfigured
  | MpcOutputEngineNotReady
  | ShareDataFormatMismatch string share_data_format share_data_format
  | ShareDataBatchFormatMismatch string share_data_format share_data_format usize
  | ClientShareNotFound usize usize
  | ClientShareTypeMismatch usize usize share_type share_type
  | MissingResolvedInstructions string
  | RuntimeInstructionMetadataMismatch string usize usize
  | InstructionOutOfBounds usize
  | JumpTargetOutOfBounds usize usize
  | ConstantOutOfBounds usize
  | InvalidFunctionNameConstant usize
  | Activation activation_error
  | Function function_error
  | TableMemory table_memory_error
  | MpcValue mpc_value_error
  | RevealBatch reveal_batch_error
  | ValueOp value_op_error
  | ForeignFunctionFailed string string
and value_op_error =
    TypeError string
  | ShareTypeMismatch string
  | IntegerOverflow string
  | DivisionByZero
  | ModuloByZero
  | InvalidShiftAmount string i64
  | ShiftOutOfRange string u32
  | Unsupported string
  | CannotCompare val val
  | ValueConversion value_conversion_error
  | Runtime vm_error

section \<open>Integer conversions\<close>

definition nonneg_to_usize :: "int \<Rightarrow> string \<Rightarrow> value_conversion_error + usize" where
  "nonneg_to_usize v name =
     (if nat v \<le> usize_max then Inr (nat v) else Inl (TooLargeForPlatform name))"

definition value_to_usize :: "val \<Rightarrow> string \<Rightarrow> value_conversion_error + usize" where
  "value_to_usize value name =
     (case value of
        I64 v \<Rightarrow> if 0 \<le> sint v then nonneg_to_usize (sint v) name
                 else Inl (ExpectedNonNegativeInteger name)
      | I32 v \<Rightarrow> if 0 \<le> sint v then nonneg_to_usize (sint v) name
                 else Inl (ExpectedNonNegativeInteger name)
      | I16 v \<Rightarrow> if 0 \<le> sint v then nonneg_to_usize (sint v) name
                 else Inl (ExpectedNonNegativeInteger name)
      | I8 v \<Rightarrow> if 0 \<le> sint v then nonneg_to_usize (sint v) name
                 else Inl (ExpectedNonNegativeInteger name)
      | U64 v \<Rightarrow> nonneg_to_usize (uint v) name
      | U32 v \<Rightarrow> nonneg_to_usize (uint v) name
      | U16 v \<Rightarrow> Inr (unat v)
      | U8 v \<Rightarrow> Inr (unat v)
      | _ \<Rightarrow> Inl (ExpectedNonNegativeInteger name))"

definition value_to_u64 :: "val \<Rightarrow> string \<Rightarrow> value_conversion_error + u64" where
  "value_to_u64 value name =
     (case value of
        I64 v \<Rightarrow> if 0 \<le> sint v then Inr v else Inl (ExpectedNonNegativeInteger name)
      | I32 v \<Rightarrow> if 0 \<le> sint v then Inr (scast v) else Inl (ExpectedNonNegativeInteger name)
      | I16 v \<Rightarrow> if 0 \<le> sint v then Inr (scast v) else Inl (ExpectedNonNegativeInteger name)
      | I8 v \<Rightarrow> if 0 \<le> sint v then Inr (scast v) else Inl (ExpectedNonNegativeInteger name)
      | U64 v \<Rightarrow> Inr v
      | U32 v \<Rightarrow> Inr (ucast v)
      | U16 v \<Rightarrow> Inr (ucast v)
      | U8 v \<Rightarrow> Inr (ucast v)
      | _ \<Rightarrow> Inl (ExpectedNonNegativeInteger name))"

definition value_to_i64 :: "val \<Rightarrow> string \<Rightarrow> value_conversion_error + i64" where
  "value_to_i64 value name =
     (case value of
        I64 v \<Rightarrow> Inr v
      | I32 v \<Rightarrow> Inr (scast v)
      | I16 v \<Rightarrow> Inr (scast v)
      | I8 v \<Rightarrow> Inr (scast v)
      | U64 v \<Rightarrow> if uint v < 2 ^ 63 then Inr v else Inl (ExceedsI64Range name)
      | U32 v \<Rightarrow> Inr (ucast v)
      | U16 v \<Rightarrow> Inr (ucast v)
      | U8 v \<Rightarrow> Inr (ucast v)
      | _ \<Rightarrow> Inl (ExpectedInteger name))"

definition usize_to_vm_i64 :: "usize \<Rightarrow> string \<Rightarrow> value_conversion_error + i64" where
  "usize_to_vm_i64 v name =
     (if v \<le> i64_max then Inr (of_nat v) else Inl (ExceedsVmIntegerRange name v))"

definition u64_to_vm_i64 :: "u64 \<Rightarrow> string \<Rightarrow> value_conversion_error + i64" where
  "u64_to_vm_i64 v name =
     (if uint v < 2 ^ 63 then Inr v else Inl (ExceedsVmIntegerRange name (unat v)))"

text \<open>The integer a VM integer value denotes.\<close>

fun int_of_value :: "val \<Rightarrow> int option" where
  "int_of_value (I64 v) = Some (sint v)"
| "int_of_value (I32 v) = Some (sint v)"
| "int_of_value (I16 v) = Some (sint v)"
| "int_of_value (I8 v) = Some (sint v)"
| "int_of_value (U8 v) = Some (uint v)"
| "int_of_value (U16 v) = Some (uint v)"
| "int_of_value (U32 v) = Some (uint v)"
| "int_of_value (U64 v) = Some (uint v)"
| "int_of_value _ = None"

lemma sint_scast_up:
  fixes v :: "'a::len word"
  assumes "LENGTH('a) \<le> LENGTH('b::len)"
  shows "sint (scast v :: 'b word) = sint v"
proof -
  have "sint (scast v :: 'b word) = signed_take_bit (LENGTH('b) - 1) (sint v)"
    by (simp add: sint_sbintrunc' signed_scast_eq)
  also have "\<dots> = sint v"
  proof (rule signed_take_bit_int_eq_self)
    have p: "(2::int) ^ (LENGTH('a) - 1) \<le> 2 ^ (LENGTH('b) - 1)"
      using assms by (simp add: diff_le_mono)
    show "- (2 ^ (LENGTH('b) - 1)) \<le> sint v" using sint_greater_eq [of v] p
      unfolding One_nat_def by linarith
    show "sint v < 2 ^ (LENGTH('b) - 1)" using sint_less [of v] p unfolding One_nat_def by linarith
  qed
  finally show ?thesis .
qed

lemma sint_ucast_up:
  fixes v :: "'a::len word"
  assumes "LENGTH('a) < LENGTH('b::len)"
  shows "sint (ucast v :: 'b word) = uint v"
proof -
  have "uint v < 2 ^ LENGTH('a)" by simp
  also have "(2::int) ^ LENGTH('a) \<le> 2 ^ (LENGTH('b) - 1)" using assms by simp
  finally have b: "uint v < 2 ^ (LENGTH('b) - 1)" .
  have lo: "- (2 ^ (LENGTH('b) - 1)) \<le> uint v"
    by (rule order_trans [of _ 0]) simp_all
  have "(ucast v :: 'b word) = word_of_int (uint v)" by simp
  moreover have "sint (word_of_int (uint v) :: 'b word) = uint v"
    by (rule sint_word_of_int_fits) (use b lo in \<open>simp add: sint_fits_def\<close>)
  ultimately show ?thesis by simp
qed

lemma sint_eq_uint_small: "uint (v :: 64 word) < 2 ^ 63 \<Longrightarrow> sint v = uint v"
proof -
  assume "uint v < 2 ^ 63"
  moreover have "- (2 ^ 63) \<le> uint v" by (rule order_trans [of _ 0]) simp_all
  ultimately have "sint_fits TYPE(64 word) (uint v)" by (simp add: sint_fits_def)
  from sint_word_of_int_fits [OF this] show ?thesis by simp
qed

lemma value_to_i64_Inr:
  "value_to_i64 v name = Inr w \<Longrightarrow> int_of_value v = Some (sint w)"
  by (cases v)
    (auto simp: value_to_i64_def sint_scast_up sint_ucast_up sint_eq_uint_small split: if_splits)

end
