(* ===== verification/Registers.thy ===== *)
theory Registers
  imports Values
begin

text \<open>
  The register banks of \<open>stoffel-vm-types/src/registers.rs\<close>. A frame's registers are two
  vectors, clear and secret, addressed by absolute bytecode indices through a layout. The
  specification is one vector of slots indexed by the absolute register number
  (\<open>register_slots\<close>); the invariant \<open>register_file_ok\<close> says when the two banks represent it.
  A method that hands out \<open>&mut\<close> access is modelled as the write that its callers perform.
\<close>

section \<open>Layout\<close>

definition DEFAULT_SECRET_REGISTER_START :: usize where
  "DEFAULT_SECRET_REGISTER_START = 16"

definition RETURN_REGISTER_INDEX :: usize where
  "RETURN_REGISTER_INDEX = 0"

definition MIN_FRAME_REGISTER_COUNT :: usize where
  "MIN_FRAME_REGISTER_COUNT = RETURN_REGISTER_INDEX + 1"

datatype register_bank = ClearBank | SecretBank

record register_address =
  ra_bank :: register_bank
  ra_index :: usize

datatype register_move_kind = CopyMove | ClearToSecret | SecretToClear

record register_layout =
  secret_start :: usize

definition default_layout :: register_layout where
  "default_layout = \<lparr>secret_start = DEFAULT_SECRET_REGISTER_START\<rparr>"

definition bank :: "register_layout \<Rightarrow> usize \<Rightarrow> register_bank" where
  "bank l r = (if secret_start l \<le> r then SecretBank else ClearBank)"

definition address :: "register_layout \<Rightarrow> usize \<Rightarrow> register_address" where
  "address l r =
     (case bank l r of
        ClearBank \<Rightarrow> \<lparr>ra_bank = ClearBank, ra_index = r\<rparr>
      | SecretBank \<Rightarrow> \<lparr>ra_bank = SecretBank, ra_index = r - secret_start l\<rparr>)"

definition is_clear :: "register_layout \<Rightarrow> usize \<Rightarrow> bool" where
  "is_clear l r = (bank l r = ClearBank)"

definition is_secret :: "register_layout \<Rightarrow> usize \<Rightarrow> bool" where
  "is_secret l r = (bank l r = SecretBank)"

definition move_kind :: "register_layout \<Rightarrow> usize \<Rightarrow> usize \<Rightarrow> register_move_kind" where
  "move_kind l dest src =
     (case (bank l dest, bank l src) of
        (SecretBank, ClearBank) \<Rightarrow> ClearToSecret
      | (ClearBank, SecretBank) \<Rightarrow> SecretToClear
      | _ \<Rightarrow> CopyMove)"

section \<open>Slots and banks\<close>

datatype register_slot = Ready val | PendingReveal

fun as_value :: "register_slot \<Rightarrow> val option" where
  "as_value (Ready v) = Some v"
| "as_value PendingReveal = None"

definition default_slot :: register_slot where
  "default_slot = Ready Unit"

definition default_slots :: "usize \<Rightarrow> register_slot list" where
  "default_slots n = replicate n default_slot"

record register_file =
  rf_layout :: register_layout
  clear_bank :: "register_slot list"
  secret_bank :: "register_slot list"

datatype clear_register_copy_result = CCopied | CNotClearRegister | CRegisterOutOfBounds | CSourcePendingReveal

datatype clear_register_read_result =
    CRead val | RNotClearRegister | RRegisterOutOfBounds | RSourcePendingReveal

datatype secret_register_copy_result =
    SCopied | SNotSecretRegister | SRegisterOutOfBounds | SSourcePendingReveal | SSourceNotSecretValue

definition register_file_new :: "register_layout \<Rightarrow> usize \<Rightarrow> register_file" where
  "register_file_new l n =
     \<lparr>rf_layout = l,
      clear_bank = default_slots (min n (secret_start l)),
      secret_bank = default_slots (n - secret_start l)\<rparr>"

definition from_absolute_values :: "register_layout \<Rightarrow> val list \<Rightarrow> register_file" where
  "from_absolute_values l vs =
     (let clear_len = min (length vs) (secret_start l)
      in \<lparr>rf_layout = l,
          clear_bank = map Ready (take clear_len vs),
          secret_bank = map Ready (drop clear_len vs)\<rparr>)"

definition rf_len :: "register_file \<Rightarrow> usize" where
  "rf_len f =
     (if secret_bank f = [] then length (clear_bank f)
      else secret_start (rf_layout f) + length (secret_bank f))"

definition rf_is_empty :: "register_file \<Rightarrow> bool" where
  "rf_is_empty f = (clear_bank f = [] \<and> secret_bank f = [])"

definition get_slot :: "register_file \<Rightarrow> usize \<Rightarrow> register_slot option" where
  "get_slot f r =
     (let a = address (rf_layout f) r
      in case ra_bank a of
           ClearBank \<Rightarrow> vec_get (clear_bank f) (ra_index a)
         | SecretBank \<Rightarrow> vec_get (secret_bank f) (ra_index a))"

text \<open>Writing through \<open>get_slot_mut\<close>: the slot that was there and the updated file.\<close>

definition set_slot :: "register_file \<Rightarrow> usize \<Rightarrow> register_slot \<Rightarrow> (register_slot \<times> register_file) option" where
  "set_slot f r s =
     (let a = address (rf_layout f) r; i = ra_index a
      in case ra_bank a of
           ClearBank \<Rightarrow>
             map_option (\<lambda>old. (old, f\<lparr>clear_bank := (clear_bank f)[i := s]\<rparr>)) (vec_get (clear_bank f) i)
         | SecretBank \<Rightarrow>
             map_option (\<lambda>old. (old, f\<lparr>secret_bank := (secret_bank f)[i := s]\<rparr>)) (vec_get (secret_bank f) i))"

definition contains :: "register_file \<Rightarrow> usize \<Rightarrow> bool" where
  "contains f r = (get_slot f r \<noteq> None)"

definition rf_get :: "register_file \<Rightarrow> usize \<Rightarrow> val option" where
  "rf_get f r = Option.bind (get_slot f r) as_value"

text \<open>Writing through \<open>get_mut\<close>: only a ready slot hands out a reference.\<close>

definition rf_write_ready :: "register_file \<Rightarrow> usize \<Rightarrow> val \<Rightarrow> register_file option" where
  "rf_write_ready f r v =
     (case rf_get f r of None \<Rightarrow> None | Some _ \<Rightarrow> map_option snd (set_slot f r (Ready v)))"

definition replace_value :: "register_file \<Rightarrow> usize \<Rightarrow> val \<Rightarrow> (register_slot \<times> register_file) option" where
  "replace_value f r v = set_slot f r (Ready v)"

definition set_pending_reveal :: "register_file \<Rightarrow> usize \<Rightarrow> (register_slot \<times> register_file) option" where
  "set_pending_reveal f r = set_slot f r PendingReveal"

definition rf_clear :: "register_file \<Rightarrow> register_file" where
  "rf_clear f = f\<lparr>clear_bank := [], secret_bank := []\<rparr>"

text \<open>Zipping values with \<open>iter_mut\<close>: the values go to the ready slots, in bank order.\<close>

fun write_ready_slots :: "register_slot list \<Rightarrow> val list \<Rightarrow> register_slot list \<times> val list" where
  "write_ready_slots [] vs = ([], vs)"
| "write_ready_slots (PendingReveal # ss) vs = map_prod (\<lambda>ts. PendingReveal # ts) id (write_ready_slots ss vs)"
| "write_ready_slots (Ready w # ss) [] = (Ready w # ss, [])"
| "write_ready_slots (Ready w # ss) (v # vs) = map_prod (\<lambda>ts. Ready v # ts) id (write_ready_slots ss vs)"

definition iter_mut_write :: "register_file \<Rightarrow> val list \<Rightarrow> register_file" where
  "iter_mut_write f vs =
     (let (cs, rest) = write_ready_slots (clear_bank f) vs;
          (ss, _) = write_ready_slots (secret_bank f) rest
      in f\<lparr>clear_bank := cs, secret_bank := ss\<rparr>)"

section \<open>Copies between registers\<close>

text \<open>Cloning a clear value copies it, whichever arm of the match takes it.\<close>

definition clone_clear_register_value :: "val \<Rightarrow> val" where
  "clone_clear_register_value v = v"

fun clone_secret_register_value :: "val \<Rightarrow> val option" where
  "clone_secret_register_value (Share t d) = Some (Share t d)"
| "clone_secret_register_value Unit = Some Unit"
| "clone_secret_register_value _ = None"

definition copy_clear_bank_value ::
  "register_file \<Rightarrow> usize \<Rightarrow> usize \<Rightarrow> clear_register_copy_result \<times> register_file" where
  "copy_clear_bank_value f dest src =
     (if dest = src
      then (if as_value (clear_bank f ! src) \<noteq> None then CCopied else CSourcePendingReveal, f)
      else case as_value (clear_bank f ! src) of
             None \<Rightarrow> (CSourcePendingReveal, f)
           | Some v \<Rightarrow>
               (CCopied, f\<lparr>clear_bank := (clear_bank f)[dest := Ready (clone_clear_register_value v)]\<rparr>))"

definition copy_clear_value ::
  "register_file \<Rightarrow> usize \<Rightarrow> usize \<Rightarrow> clear_register_copy_result \<times> register_file" where
  "copy_clear_value f dest src =
     (if dest < length (clear_bank f) \<and> src < length (clear_bank f)
      then copy_clear_bank_value f dest src
      else if rf_len f \<le> dest \<or> rf_len f \<le> src then (CRegisterOutOfBounds, f)
      else (CNotClearRegister, f))"

definition write_clear_value_from_ref ::
  "register_file \<Rightarrow> usize \<Rightarrow> val \<Rightarrow> clear_register_copy_result \<times> register_file" where
  "write_clear_value_from_ref f dest v =
     (if dest < length (clear_bank f)
      then (CCopied, f\<lparr>clear_bank := (clear_bank f)[dest := Ready (clone_clear_register_value v)]\<rparr>)
      else if rf_len f \<le> dest then (CRegisterOutOfBounds, f)
      else (CNotClearRegister, f))"

definition clone_clear_value :: "register_file \<Rightarrow> usize \<Rightarrow> clear_register_read_result" where
  "clone_clear_value f src =
     (if src < length (clear_bank f)
      then (case as_value (clear_bank f ! src) of
              Some v \<Rightarrow> CRead (clone_clear_register_value v)
            | None \<Rightarrow> RSourcePendingReveal)
      else if rf_len f \<le> src then RRegisterOutOfBounds
      else RNotClearRegister)"

definition copy_secret_bank_value ::
  "register_file \<Rightarrow> usize \<Rightarrow> usize \<Rightarrow> secret_register_copy_result \<times> register_file" where
  "copy_secret_bank_value f dest src =
     (if dest = src
      then (case as_value (secret_bank f ! src) of
              Some v \<Rightarrow>
                (case v of Share _ _ \<Rightarrow> SCopied | Unit \<Rightarrow> SCopied | _ \<Rightarrow> SSourceNotSecretValue)
            | None \<Rightarrow> SSourcePendingReveal, f)
      else case as_value (secret_bank f ! src) of
             None \<Rightarrow> (SSourcePendingReveal, f)
           | Some v \<Rightarrow>
               (case clone_secret_register_value v of
                  None \<Rightarrow> (SSourceNotSecretValue, f)
                | Some w \<Rightarrow> (SCopied, f\<lparr>secret_bank := (secret_bank f)[dest := Ready w]\<rparr>)))"

definition copy_secret_value ::
  "register_file \<Rightarrow> usize \<Rightarrow> usize \<Rightarrow> secret_register_copy_result \<times> register_file" where
  "copy_secret_value f dest src =
     (if rf_len f \<le> dest \<or> rf_len f \<le> src then (SRegisterOutOfBounds, f)
      else if dest < secret_start (rf_layout f) \<or> src < secret_start (rf_layout f)
           then (SNotSecretRegister, f)
      else copy_secret_bank_value f (dest - secret_start (rf_layout f)) (src - secret_start (rf_layout f)))"

section \<open>Specification: one vector of slots\<close>

definition register_slots :: "register_file \<Rightarrow> register_slot list" where
  "register_slots f = clear_bank f @ secret_bank f"

definition register_file_ok :: "register_file \<Rightarrow> bool" where
  "register_file_ok f =
     (length (clear_bank f) \<le> secret_start (rf_layout f) \<and>
      (secret_bank f \<noteq> [] \<longrightarrow> length (clear_bank f) = secret_start (rf_layout f)))"

text \<open>What a secret register may hold when no clear value has leaked into it.\<close>

fun secret_slot_ok :: "register_slot \<Rightarrow> bool" where
  "secret_slot_ok (Ready (Share _ _)) = True"
| "secret_slot_ok (Ready Unit) = True"
| "secret_slot_ok (Ready _) = False"
| "secret_slot_ok PendingReveal = False"

definition secret_bank_ok :: "register_file \<Rightarrow> bool" where
  "secret_bank_ok f = (\<forall>s \<in> set (secret_bank f). secret_slot_ok s)"

lemmas layout_defs = bank_def address_def is_clear_def is_secret_def move_kind_def

lemma is_clear_iff [simp]: "is_clear l r \<longleftrightarrow> r < secret_start l"
  and is_secret_iff [simp]: "is_secret l r \<longleftrightarrow> secret_start l \<le> r"
  by (auto simp: layout_defs)

lemma move_kind_eq:
  "move_kind l d s = SecretToClear \<longleftrightarrow> is_clear l d \<and> is_secret l s"
  "move_kind l d s = ClearToSecret \<longleftrightarrow> is_secret l d \<and> is_clear l s"
  "move_kind l d s = CopyMove \<longleftrightarrow> (is_secret l d \<longleftrightarrow> is_secret l s)"
  by (auto simp: layout_defs)

lemma get_slot_eq:
  "get_slot f r =
     (if r < secret_start (rf_layout f) then vec_get (clear_bank f) r
      else vec_get (secret_bank f) (r - secret_start (rf_layout f)))"
  by (simp add: get_slot_def layout_defs)

lemma set_slot_eq:
  "set_slot f r s =
     (if r < secret_start (rf_layout f)
      then map_option (\<lambda>old. (old, f\<lparr>clear_bank := (clear_bank f)[r := s]\<rparr>)) (vec_get (clear_bank f) r)
      else map_option (\<lambda>old. (old, f\<lparr>secret_bank := (secret_bank f)[r - secret_start (rf_layout f) := s]\<rparr>))
             (vec_get (secret_bank f) (r - secret_start (rf_layout f))))"
  by (simp add: set_slot_def layout_defs Let_def)

lemma rf_len_slots: "register_file_ok f \<Longrightarrow> rf_len f = length (register_slots f)"
  by (auto simp: rf_len_def register_slots_def register_file_ok_def)

lemma get_slot_slots: "register_file_ok f \<Longrightarrow> get_slot f r = vec_get (register_slots f) r"
  by (cases "secret_bank f = []")
    (auto simp: get_slot_eq register_slots_def register_file_ok_def vec_get_def nth_append)

lemma set_slot_slots:
  assumes "register_file_ok f" and "r < rf_len f"
  shows "\<exists>g. set_slot f r s = Some (register_slots f ! r, g) \<and> register_file_ok g \<and>
             rf_layout g = rf_layout f \<and> register_slots g = (register_slots f)[r := s]"
  using assms
  by (cases "secret_bank f = []"; cases "r < secret_start (rf_layout f)")
    (auto simp: set_slot_eq register_slots_def register_file_ok_def rf_len_def nth_append list_update_append)

lemma set_slot_None: "register_file_ok f \<Longrightarrow> set_slot f r s = None \<longleftrightarrow> rf_len f \<le> r"
  by (cases "secret_bank f = []"; cases "r < secret_start (rf_layout f)")
    (auto simp: set_slot_eq register_file_ok_def rf_len_def vec_get_def)

lemma register_file_new_ok: "register_file_ok (register_file_new l n)"
  by (auto simp: register_file_ok_def register_file_new_def default_slots_def)

lemma rf_len_new [simp]: "rf_len (register_file_new l n) = n"
  by (auto simp: rf_len_def register_file_new_def default_slots_def)

lemma register_file_new_slots: "register_slots (register_file_new l n) = replicate n default_slot"
  by (simp add: register_slots_def register_file_new_def default_slots_def replicate_add [symmetric])

section \<open>The interface of a register store\<close>

text \<open>
  What the executor relies on: a partial vector of slots with a read and a write that fails
  exactly outside the vector. The client lemmas are proved once from these laws.
\<close>

locale register_store =
  fixes ok :: "'f \<Rightarrow> bool"
    and slots :: "'f \<Rightarrow> 's list"
    and get :: "'f \<Rightarrow> nat \<Rightarrow> 's option"
    and put :: "'f \<Rightarrow> nat \<Rightarrow> 's \<Rightarrow> ('s \<times> 'f) option"
  assumes get_slots: "ok f \<Longrightarrow> get f r = vec_get (slots f) r"
    and put_in: "ok f \<Longrightarrow> r < length (slots f) \<Longrightarrow>
          \<exists>g. put f r s = Some (slots f ! r, g) \<and> ok g \<and> slots g = (slots f)[r := s]"
    and put_out: "ok f \<Longrightarrow> length (slots f) \<le> r \<Longrightarrow> put f r s = None"
begin

lemma put_Some:
  assumes "ok f" and "put f r s = Some (old, g)"
  shows "r < length (slots f) \<and> old = slots f ! r \<and> ok g \<and> slots g = (slots f)[r := s]"
proof (cases "r < length (slots f)")
  case True
  with put_in [OF assms(1), of r s] assms(2) show ?thesis by auto
next
  case False
  with put_out [OF assms(1), of r s] assms(2) show ?thesis by simp
qed

lemma put_None: "ok f \<Longrightarrow> put f r s = None \<longleftrightarrow> get f r = None"
  using put_in [of f r s] put_out [of f r s] by (cases "r < length (slots f)") (auto simp: get_slots)

lemma get_put:
  assumes "ok f" and "put f r s = Some (old, g)"
  shows "get g q = (if q = r then Some s else get f q)" and "get f r = Some old"
  using put_Some [OF assms] assms(1) by (auto simp: get_slots vec_get_def)

lemma put_put:
  assumes "ok f" and "put f r s = Some (old, g)" and "put g r t = Some (mid, h)"
  shows "mid = s \<and> slots h = (slots f)[r := t]"
  using put_Some [OF assms(1,2)] put_Some [of g r t mid h] assms(3) by auto

end

interpretation rf: register_store register_file_ok register_slots get_slot set_slot
proof unfold_locales
  fix f r s
  assume ok: "register_file_ok f"
  show "get_slot f r = vec_get (register_slots f) r" using ok by (rule get_slot_slots)
  show "r < length (register_slots f) \<Longrightarrow>
      \<exists>g. set_slot f r s = Some (register_slots f ! r, g) \<and> register_file_ok g \<and>
          register_slots g = (register_slots f)[r := s]"
    using set_slot_slots [OF ok, of r s] by (auto simp: rf_len_slots [OF ok])
  show "length (register_slots f) \<le> r \<Longrightarrow> set_slot f r s = None"
    by (simp add: set_slot_None [OF ok] rf_len_slots [OF ok])
qed

lemma set_slot_layout: "set_slot f r s = Some (old, g) \<Longrightarrow> rf_layout g = rf_layout f"
  by (auto simp: set_slot_eq vec_get_def split: if_splits)

lemma set_slot_len: "register_file_ok f \<Longrightarrow> set_slot f r s = Some (old, g) \<Longrightarrow> rf_len g = rf_len f"
  using rf.put_Some [of f r s old g] by (simp add: rf_len_slots)

lemma rf_get_slots: "register_file_ok f \<Longrightarrow> rf_get f r = Option.bind (vec_get (register_slots f) r) as_value"
  by (simp add: rf_get_def get_slot_slots)

lemma clear_bank_nth:
  "register_file_ok f \<Longrightarrow> r < length (clear_bank f) \<Longrightarrow> clear_bank f ! r = register_slots f ! r"
  by (simp add: register_slots_def nth_append)

lemma secret_bank_nth:
  assumes "register_file_ok f" "secret_start (rf_layout f) \<le> r" "r < rf_len f"
  shows "secret_bank f ! (r - secret_start (rf_layout f)) = register_slots f ! r"
    and "r - secret_start (rf_layout f) < length (secret_bank f)"
  using assms by (auto simp: register_slots_def register_file_ok_def rf_len_def nth_append split: if_splits)

lemma secret_bank_update_slots:
  assumes "register_file_ok f" "secret_start (rf_layout f) \<le> r" "r < rf_len f"
  shows "register_slots (f\<lparr>secret_bank := (secret_bank f)[r - secret_start (rf_layout f) := s]\<rparr>) =
         (register_slots f)[r := s]"
  using assms by (auto simp: register_slots_def register_file_ok_def rf_len_def list_update_append split: if_splits)

lemma clear_bank_update_slots:
  "r < length (clear_bank f) \<Longrightarrow>
   register_slots (f\<lparr>clear_bank := (clear_bank f)[r := s]\<rparr>) = (register_slots f)[r := s]"
  by (simp add: register_slots_def list_update_append)

lemma clear_len_iff:
  "register_file_ok f \<Longrightarrow> r < length (clear_bank f) \<longleftrightarrow> r < rf_len f \<and> r < secret_start (rf_layout f)"
  by (auto simp: register_file_ok_def rf_len_def split: if_splits)

section \<open>Properties\<close>

text \<open>C24: the two banks implement one vector of slots indexed by absolute register numbers:
  reading is indexing, the length is the vector's length, and replacing a value fails exactly
  out of range, returns the slot that was there, keeps the representation invariant and
  updates that one position. Clearing the file leaves the empty vector and the layout.\<close>

theorem register_file_refines_slots:
  assumes "register_file_ok f"
  shows "(get_slot f r = vec_get (register_slots f) r) \<and>
   (rf_len f = length (register_slots f)) \<and>
   (replace_value f r v = None \<longleftrightarrow> rf_len f \<le> r) \<and>
   (replace_value f r v = Some (old, g) \<longrightarrow>
     old = register_slots f ! r \<and> register_file_ok g \<and> rf_layout g = rf_layout f \<and>
     register_slots g = (register_slots f)[r := Ready v]) \<and>
   (register_file_ok (rf_clear f) \<and> register_slots (rf_clear f) = [] \<and> rf_layout (rf_clear f) = rf_layout f)"
  using rf.get_slots [OF assms] rf_len_slots [OF assms] set_slot_None [OF assms]
    rf.put_Some [OF assms, of r "Ready v" old g] set_slot_layout [of f r "Ready v" old g]
  by (simp_all add: replace_value_def rf_clear_def register_file_ok_def register_slots_def)

theorem register_file_refines_slots_witness:
  "replace_value (register_file_new \<lparr>secret_start = 2\<rparr> 4) 3 (I64 7) \<noteq> None \<and>
   get_slot (register_file_new \<lparr>secret_start = 2\<rparr> 4) 3 = Some (Ready Unit)"
proof -
  let ?f = "register_file_new \<lparr>secret_start = 2\<rparr> 4"
  note ok = register_file_new_ok [of "\<lparr>secret_start = 2\<rparr>" 4]
  have "get_slot ?f 3 = vec_get (register_slots ?f) 3" by (rule register_file_refines_slots [THEN conjunct1, rule_format, OF ok])
  moreover have "replace_value ?f 3 (I64 7) = None \<longleftrightarrow> rf_len ?f \<le> 3"
    by (rule register_file_refines_slots [THEN conjunct2, THEN conjunct2, THEN conjunct1, rule_format, OF ok])
  ultimately show ?thesis
    by (simp add: register_file_new_slots default_slot_def vec_get_def)
qed

text \<open>copying a secret register succeeds only when both registers lie in the secret bank
  and the source holds a share or unit; then it copies exactly that value, and on every other
  branch the register file is unchanged. The copy never puts a clear value into the secret
  bank.\<close>

theorem copy_secret_value_spec:
  assumes "register_file_ok f"
  shows "(copy_secret_value f d s =
    (if rf_len f \<le> d \<or> rf_len f \<le> s then (SRegisterOutOfBounds, f)
    else if is_clear (rf_layout f) d \<or> is_clear (rf_layout f) s then (SNotSecretRegister, f)
    else case register_slots f ! s of
       PendingReveal \<Rightarrow> (SSourcePendingReveal, f)
     | Ready v \<Rightarrow>
         if secret_slot_ok (Ready v)
         then (SCopied, if d = s then f else snd (the (set_slot f d (Ready v))))
         else (SSourceNotSecretValue, f))) \<and>
   (secret_bank_ok f \<longrightarrow> secret_bank_ok (snd (copy_secret_value f d s)))"
proof (intro conjI impI)
  let ?l = "secret_start (rf_layout f)"
  show "copy_secret_value f d s =
     (if rf_len f \<le> d \<or> rf_len f \<le> s then (SRegisterOutOfBounds, f)
      else if is_clear (rf_layout f) d \<or> is_clear (rf_layout f) s then (SNotSecretRegister, f)
      else case register_slots f ! s of
             PendingReveal \<Rightarrow> (SSourcePendingReveal, f)
           | Ready v \<Rightarrow>
               if secret_slot_ok (Ready v)
               then (SCopied, if d = s then f else snd (the (set_slot f d (Ready v))))
               else (SSourceNotSecretValue, f))"
  proof (cases "rf_len f \<le> d \<or> rf_len f \<le> s \<or> d < ?l \<or> s < ?l")
    case True
    then show ?thesis by (auto simp: copy_secret_value_def)
  next
    case False
    then have r: "?l \<le> d" "d < rf_len f" "?l \<le> s" "s < rf_len f" by auto
    note src = secret_bank_nth [OF assms r(3,4)] and dst = secret_bank_nth [OF assms r(1,2)]
    show ?thesis
    proof (cases "register_slots f ! s")
      case PendingReveal
      then show ?thesis using r src by (simp add: copy_secret_value_def copy_secret_bank_value_def)
    next
      case (Ready v)
      then show ?thesis using r src dst
        by (cases v) (auto simp: copy_secret_value_def copy_secret_bank_value_def set_slot_eq)
    qed
  qed
  show "secret_bank_ok f \<Longrightarrow> secret_bank_ok (snd (copy_secret_value f d s))"
  proof -
    have "clone_secret_register_value v = Some w \<Longrightarrow> secret_slot_ok (Ready w)" for v w
      by (cases v) auto
    then show "secret_bank_ok f \<Longrightarrow> secret_bank_ok (snd (copy_secret_value f d s))"
      by (auto simp: copy_secret_value_def copy_secret_bank_value_def secret_bank_ok_def
            split: option.splits dest!: set_update_subset_insert [THEN subsetD])
  qed
qed

theorem copy_secret_value_spec_witness:
  "fst (copy_secret_value (from_absolute_values \<lparr>secret_start = 1\<rparr>
          [I64 1, Share (SecretInt 64) (Opaque [9]), Unit]) 2 1) = SCopied"
proof -
  let ?f = "from_absolute_values \<lparr>secret_start = 1\<rparr> [I64 1, Share (SecretInt 64) (Opaque [9]), Unit]"
  have ok: "register_file_ok ?f" by (simp add: register_file_ok_def from_absolute_values_def)
  show ?thesis
    using copy_secret_value_spec [THEN conjunct1, rule_format, OF ok, of 2 1]
    by (simp add: from_absolute_values_def register_slots_def rf_len_def)
qed

text \<open>copying between clear registers copies the source value, refuses registers outside
  the frame and registers of the secret bank, refuses a source that still waits for its
  reveal, and changes nothing but the destination.\<close>

theorem copy_clear_value_spec:
  assumes "register_file_ok f"
  shows "(if rf_len f \<le> d \<or> rf_len f \<le> s then copy_clear_value f d s = (CRegisterOutOfBounds, f)
      else if is_secret (rf_layout f) d \<or> is_secret (rf_layout f) s
           then copy_clear_value f d s = (CNotClearRegister, f)
      else case register_slots f ! s of
             PendingReveal \<Rightarrow> copy_clear_value f d s = (CSourcePendingReveal, f)
           | Ready v \<Rightarrow>
               fst (copy_clear_value f d s) = CCopied \<and>
               register_slots (snd (copy_clear_value f d s)) = (register_slots f)[d := Ready v] \<and>
               secret_bank (snd (copy_clear_value f d s)) = secret_bank f)"
proof (cases "d < length (clear_bank f) \<and> s < length (clear_bank f)")
  case True
  then have r: "d < rf_len f" "s < rf_len f" "d < secret_start (rf_layout f)" "s < secret_start (rf_layout f)"
    using clear_len_iff [OF assms] by auto
  have nth: "clear_bank f ! s = register_slots f ! s" using clear_bank_nth [OF assms] True by simp
  show ?thesis
  proof (cases "register_slots f ! s")
    case PendingReveal
    then show ?thesis using True r nth by (simp add: copy_clear_value_def copy_clear_bank_value_def)
  next
    case (Ready v)
    have same: "d = s \<Longrightarrow> (register_slots f)[d := Ready v] = register_slots f"
      using Ready by (metis list_update_id)
    show ?thesis
      using True r nth Ready same clear_bank_update_slots [of d f "Ready v"]
      by (simp add: copy_clear_value_def copy_clear_bank_value_def clone_clear_register_value_def)
  qed
next
  case False
  with clear_len_iff [OF assms, of d] clear_len_iff [OF assms, of s] show ?thesis
    by (auto simp: copy_clear_value_def)
qed

theorem copy_clear_value_spec_witness:
  "fst (copy_clear_value (from_absolute_values \<lparr>secret_start = 4\<rparr> [I64 1, Bool True]) 0 1) = CCopied"
proof -
  let ?f = "from_absolute_values \<lparr>secret_start = 4\<rparr> [I64 1, Bool True]"
  have ok: "register_file_ok ?f" by (simp add: register_file_ok_def from_absolute_values_def)
  show ?thesis
    using copy_clear_value_spec [OF ok, of 0 1]
    by (simp add: from_absolute_values_def register_slots_def rf_len_def)
qed

end
