(* ===== verification/Table_Memory.thy ===== *)
theory Table_Memory
  imports Values
begin

text \<open>
  Arrays, objects and the store that owns them, from \<open>stoffel-vm-types/src/core_types.rs\<close>.
  An array keeps small indices in a dense vector and everything else in a hash map, with a
  cached length; its specification is a list of elements (\<open>array_seq\<close>) together with the
  fields under keys that are not indices (\<open>array_field\<close>). The store hands out typed handles from
  one counter. The contract that the VM relies on, the trait \<open>TableMemory\<close>, is the locale
  \<open>table_memory\<close>, interpreted on the store.
\<close>

section \<open>Arrays\<close>

definition ARRAY_DENSE_INDEX_LIMIT :: usize where
  "ARRAY_DENSE_INDEX_LIMIT = 32"

record arr =
  elements :: "val list"
  extra_fields :: "(val \<times> val) list"
  length_hint :: usize

definition array_new :: arr where
  "array_new = \<lparr>elements = [], extra_fields = [], length_hint = 0\<rparr>"

text \<open>The capacity is only a reservation hint; the contents are those of a new array.\<close>

definition array_with_capacity :: "usize \<Rightarrow> arr" where
  "array_with_capacity capacity = array_new"

definition array_get :: "arr \<Rightarrow> val \<Rightarrow> val option" where
  "array_get a key =
     (case key of
        I64 idx \<Rightarrow>
          if 0 \<le> sint idx
          then let i = nat (sint idx)
               in if i < length_hint a
                  then (if i < length (elements a) then Some (elements a ! i)
                        else hm_get value_eq (extra_fields a) key)
                  else hm_get value_eq (extra_fields a) key
          else hm_get value_eq (extra_fields a) key
      | _ \<Rightarrow> hm_get value_eq (extra_fields a) key)"

text \<open>The write at a numeric index shared by \<open>try_set\<close> and \<open>try_push_values\<close>.\<close>

definition array_store_at :: "usize \<Rightarrow> val \<Rightarrow> arr \<Rightarrow> arr" where
  "array_store_at i v a =
     (let b = a\<lparr>length_hint := max (length_hint a) (i + 1)\<rparr>
      in if i < ARRAY_DENSE_INDEX_LIMIT
         then let es = (if length (elements b) \<le> i then resize_to Unit (elements b) (i + 1) else elements b)
              in b\<lparr>elements := es[i := v]\<rparr>
         else b\<lparr>extra_fields := hm_insert value_eq (I64 (of_nat i)) v (extra_fields b)\<rparr>)"

definition array_try_set :: "val \<Rightarrow> val \<Rightarrow> (arr, table_memory_error, unit) meth" where
  "array_try_set key v a =
     (case key of
        I64 idx \<Rightarrow>
          if 0 \<le> sint idx
          then let i = nat (sint idx)
               in case checked_add_usize i 1 of
                    None \<Rightarrow> (Inl (ArrayLengthOverflow idx), a)
                  | Some new_len \<Rightarrow>
                      (case i64_try_from_usize new_len of
                         None \<Rightarrow> (Inl (VmIntegerRangeExceeded ''Array length'' new_len), a)
                       | Some _ \<Rightarrow> (Inr (), array_store_at i v a))
          else (Inr (), a\<lparr>extra_fields := hm_insert value_eq key v (extra_fields a)\<rparr>)
      | _ \<Rightarrow> (Inr (), a\<lparr>extra_fields := hm_insert value_eq key v (extra_fields a)\<rparr>))"

fun array_push_loop :: "usize \<Rightarrow> usize \<Rightarrow> val list \<Rightarrow> (arr, table_memory_error, usize) meth" where
  "array_push_loop start offset [] a = (Inr (length_hint a), a)"
| "array_push_loop start offset (v # vs) a =
     (case checked_add_usize start offset of
        None \<Rightarrow> (Inl ArrayPushLengthOverflow, a)
      | Some idx \<Rightarrow>
          (case i64_try_from_usize idx of
             None \<Rightarrow> (Inl (VmIntegerRangeExceeded ''Array index'' idx), a)
           | Some idx_i64 \<Rightarrow>
               (case checked_add_usize idx 1 of
                  None \<Rightarrow> (Inl (ArrayLengthOverflow idx_i64), a)
                | Some new_len \<Rightarrow>
                    (case i64_try_from_usize new_len of
                       None \<Rightarrow> (Inl (VmIntegerRangeExceeded ''Array length'' new_len), a)
                     | Some _ \<Rightarrow> array_push_loop start (Suc offset) vs (array_store_at idx v a)))))"

definition array_try_push_values :: "val list \<Rightarrow> (arr, table_memory_error, usize) meth" where
  "array_try_push_values vs a = array_push_loop (length_hint a) 0 vs a"

fun is_length_index_key :: "val \<Rightarrow> usize \<Rightarrow> bool" where
  "is_length_index_key (I64 idx) n = (0 \<le> sint idx \<and> nat (sint idx) < n)"
| "is_length_index_key _ n = False"

fun is_index_key :: "val \<Rightarrow> bool" where
  "is_index_key (I64 idx) = (0 \<le> sint idx)"
| "is_index_key _ = False"

definition array_try_replace_values :: "val list \<Rightarrow> (arr, table_memory_error, usize) meth" where
  "array_try_replace_values vs a =
     (case i64_try_from_usize (length vs) of
        None \<Rightarrow> (Inl (VmIntegerRangeExceeded ''Array length'' (length vs)), a)
      | Some _ \<Rightarrow>
          array_try_push_values vs
            (a\<lparr>elements := [],
               extra_fields :=
                 filter (\<lambda>(k, _). \<not> is_length_index_key k (length_hint a) \<and> \<not> is_index_key k) (extra_fields a),
               length_hint := 0\<rparr>))"

definition array_values :: "arr \<Rightarrow> table_memory_error + val list" where
  "array_values a =
     collect (map (\<lambda>i. case i64_try_from_usize i of
                         None \<Rightarrow> Inl (VmIntegerRangeExceeded ''Array index'' i)
                       | Some w \<Rightarrow> Inr (case array_get a (I64 w) of None \<Rightarrow> Unit | Some v \<Rightarrow> v))
               [0..<length_hint a])"

definition array_try_pop_at :: "usize \<Rightarrow> (arr, table_memory_error, val option) meth" where
  "array_try_pop_at index a =
     (if length_hint a \<le> index then (Inr None, a)
      else mbind (mread array_values)
             (\<lambda>vs. mbind (array_try_replace_values (take index vs @ drop (Suc index) vs))
                      (\<lambda>_. mret (Some (vs ! index)))) a)"

definition array_try_insert_at :: "usize \<Rightarrow> val \<Rightarrow> (arr, table_memory_error, usize) meth" where
  "array_try_insert_at index v =
     mbind (mread array_values)
       (\<lambda>vs. let i = min index (length vs) in array_try_replace_values (take i vs @ v # drop i vs))"

definition array_try_clear :: "(arr, table_memory_error, unit) meth" where
  "array_try_clear = mbind (array_try_replace_values []) (\<lambda>_. mret ())"

definition array_try_reverse :: "(arr, table_memory_error, unit) meth" where
  "array_try_reverse =
     mbind (mread array_values) (\<lambda>vs. mbind (array_try_replace_values (rev vs)) (\<lambda>_. mret ()))"

definition array_length :: "arr \<Rightarrow> usize" where
  "array_length a = length_hint a"

section \<open>The store\<close>

type_synonym obj = "(val \<times> val) list"

record object_store =
  objects :: "(usize \<times> obj) list"
  arrays :: "(usize \<times> arr) list"
  next_id :: usize

definition object_store_new :: object_store where
  "object_store_new = \<lparr>objects = [], arrays = [], next_id = 1\<rparr>"

definition allocate_id :: "(object_store, table_memory_error, usize) meth" where
  "allocate_id m =
     (case checked_add_usize (next_id m) 1 of
        None \<Rightarrow> (Inl (AllocatorOverflow ''ObjectStore''), m)
      | Some n \<Rightarrow> (Inr (next_id m), m\<lparr>next_id := n\<rparr>))"

definition create_object_ref :: "(object_store, table_memory_error, usize) meth" where
  "create_object_ref =
     mbind allocate_id (\<lambda>r. mbind (mmodify (\<lambda>m. m\<lparr>objects := hm_insert (=) r [] (objects m)\<rparr>)) (\<lambda>_. mret r))"

definition create_array_ref :: "(object_store, table_memory_error, usize) meth" where
  "create_array_ref =
     mbind allocate_id (\<lambda>r. mbind (mmodify (\<lambda>m. m\<lparr>arrays := hm_insert (=) r array_new (arrays m)\<rparr>)) (\<lambda>_. mret r))"

definition create_array_ref_with_capacity :: "usize \<Rightarrow> (object_store, table_memory_error, usize) meth" where
  "create_array_ref_with_capacity capacity =
     mbind allocate_id
       (\<lambda>r. mbind (mmodify (\<lambda>m. m\<lparr>arrays := hm_insert (=) r (array_with_capacity capacity) (arrays m)\<rparr>)) (\<lambda>_. mret r))"

definition try_get_table_field :: "object_store \<Rightarrow> table_ref \<Rightarrow> val \<Rightarrow> table_memory_error + val option" where
  "try_get_table_field m t key =
     (case t of
        ObjectTable r \<Rightarrow>
          map_ok (\<lambda>obj. hm_get value_eq obj key) (ok_or (ObjectNotFound r) (hm_get (=) (objects m) r))
      | ArrayTable r \<Rightarrow>
          map_ok (\<lambda>a. array_get a key) (ok_or (ArrayNotFound r) (hm_get (=) (arrays m) r)))"

text \<open>Running an array method in place through \<open>get_array_ref_mut\<close>.\<close>

definition on_array_ref :: "usize \<Rightarrow> (arr, table_memory_error, 'a) meth \<Rightarrow> (object_store, table_memory_error, 'a) meth" where
  "on_array_ref r f m =
     (case hm_get (=) (arrays m) r of
        None \<Rightarrow> (Inl (ArrayNotFound r), m)
      | Some a \<Rightarrow> (case f a of (res, b) \<Rightarrow> (res, m\<lparr>arrays := hm_insert (=) r b (arrays m)\<rparr>)))"

definition set_table_field :: "table_ref \<Rightarrow> val \<Rightarrow> val \<Rightarrow> (object_store, table_memory_error, unit) meth" where
  "set_table_field t key v m =
     (case t of
        ObjectTable r \<Rightarrow>
          (case hm_get (=) (objects m) r of
             None \<Rightarrow> (Inl (ObjectNotFound r), m)
           | Some obj \<Rightarrow> (Inr (), m\<lparr>objects := hm_insert (=) r (hm_insert value_eq key v obj) (objects m)\<rparr>))
      | ArrayTable r \<Rightarrow> on_array_ref r (array_try_set key v) m)"

definition array_ref_len :: "object_store \<Rightarrow> usize \<Rightarrow> table_memory_error + usize" where
  "array_ref_len m r = map_ok array_length (ok_or (ArrayNotFound r) (hm_get (=) (arrays m) r))"

definition object_ref_len :: "object_store \<Rightarrow> usize \<Rightarrow> table_memory_error + usize" where
  "object_ref_len m r = map_ok length (ok_or (ObjectNotFound r) (hm_get (=) (objects m) r))"

definition push_array_ref_values :: "usize \<Rightarrow> val list \<Rightarrow> (object_store, table_memory_error, usize) meth" where
  "push_array_ref_values r vs = on_array_ref r (array_try_push_values vs)"

definition pop_array_ref_value :: "usize \<Rightarrow> usize \<Rightarrow> (object_store, table_memory_error, val option) meth" where
  "pop_array_ref_value r i = on_array_ref r (array_try_pop_at i)"

definition insert_array_ref_value :: "usize \<Rightarrow> usize \<Rightarrow> val \<Rightarrow> (object_store, table_memory_error, usize) meth" where
  "insert_array_ref_value r i v = on_array_ref r (array_try_insert_at i v)"

definition replace_array_ref_values :: "usize \<Rightarrow> val list \<Rightarrow> (object_store, table_memory_error, usize) meth" where
  "replace_array_ref_values r vs = on_array_ref r (array_try_replace_values vs)"

definition clear_array_ref :: "usize \<Rightarrow> (object_store, table_memory_error, unit) meth" where
  "clear_array_ref r = on_array_ref r array_try_clear"

definition reverse_array_ref :: "usize \<Rightarrow> (object_store, table_memory_error, unit) meth" where
  "reverse_array_ref r = on_array_ref r array_try_reverse"

section \<open>Specification of arrays\<close>

text \<open>The elements of an array, unset positions read as unit the way \<open>array_values\<close> reads them.\<close>

definition array_elem :: "arr \<Rightarrow> nat \<Rightarrow> val" where
  "array_elem a i = (case array_get a (I64 (of_nat i)) of None \<Rightarrow> Unit | Some v \<Rightarrow> v)"

definition array_seq :: "arr \<Rightarrow> val list" where
  "array_seq a = map (array_elem a) [0..<length_hint a]"

text \<open>Dense elements lie below both the limit and the length, an index key in the hash map lies
  between them, and the length is a VM integer.\<close>

definition array_ok :: "arr \<Rightarrow> bool" where
  "array_ok a =
     (length (elements a) \<le> min (length_hint a) ARRAY_DENSE_INDEX_LIMIT \<and>
      length_hint a \<le> i64_max \<and>
      hm_distinct value_eq (extra_fields a) \<and>
      (\<forall>(k, _) \<in> set (extra_fields a). \<forall>idx. k = I64 idx \<longrightarrow> 0 \<le> sint idx \<longrightarrow>
         ARRAY_DENSE_INDEX_LIMIT \<le> nat (sint idx) \<and> nat (sint idx) < length_hint a))"

lemma sint_of_nat_i64: "i \<le> i64_max \<Longrightarrow> sint (of_nat i :: 64 word) = int i"
proof -
  assume "i \<le> i64_max"
  then have "sint_fits TYPE(64 word) (int i)" by (simp add: sint_fits_def i64_max_def)
  from sint_word_of_int_fits [OF this] show ?thesis by simp
qed

lemma of_nat_i64_inject:
  "i \<le> i64_max \<Longrightarrow> j \<le> i64_max \<Longrightarrow> (of_nat i :: 64 word) = of_nat j \<longleftrightarrow> i = j"
  by (metis of_nat_eq_iff sint_of_nat_i64)

lemma of_nat_nat_sint: "0 \<le> sint (w :: 64 word) \<Longrightarrow> of_nat (nat (sint w)) = w"
  by (metis of_int_of_nat_eq of_int_sint scast_id int_nat_eq)

lemma nat_sint_le: "0 \<le> sint (w :: 64 word) \<Longrightarrow> nat (sint w) \<le> i64_max"
  using sint_less [of w] by (simp add: i64_max_def nat_le_iff)

lemma hm_get_Some_mem:
  "hm_get eq m k = Some v \<Longrightarrow> \<exists>k'. eq k' k \<and> (k', v) \<in> set m"
  by (induction m) (auto split: if_splits)

lemma hm_insert_mem: "(l, w) \<in> set (hm_insert eq k v m) \<Longrightarrow> l = k \<or> (\<exists>w'. (l, w') \<in> set m)"
proof (induction m)
  case (Cons p m)
  then show ?case by (cases p) (fastforce split: if_splits)
qed simp

lemma hm_get_filter:
  assumes "\<And>k'. eq k' k \<Longrightarrow> P k'"
  shows "hm_get eq (filter (\<lambda>(k, _). P k) m) k = hm_get eq m k"
  using assms by (induction m) auto

lemma hm_get_filter_None: "hm_get eq m k = None \<Longrightarrow> hm_get eq (filter P m) k = None"
  by (induction m) (auto split: if_splits)

lemma hm_distinct_filter: "hm_distinct eq m \<Longrightarrow> hm_distinct eq (filter P m)"
  by (induction m) (auto simp: hm_get_filter_None)

lemma is_index_key_cong: "value_eq k l \<Longrightarrow> is_index_key k \<longleftrightarrow> is_index_key l"
  by (cases k; cases l) (auto simp: value_eq_def)

lemma array_get_field: "\<not> is_index_key k \<Longrightarrow> array_get a k = hm_get value_eq (extra_fields a) k"
  by (cases k) (auto simp: array_get_def)

lemma extra_index_bounds:
  assumes "array_ok a" "hm_get value_eq (extra_fields a) (I64 w) = Some v" "0 \<le> sint w"
  shows "ARRAY_DENSE_INDEX_LIMIT \<le> nat (sint w) \<and> nat (sint w) < length_hint a"
  using hm_get_Some_mem [OF assms(2)] assms(1,3)
  by (fastforce simp: array_ok_def value_eq_I64_right)

lemma array_get_index:
  assumes "array_ok a" "i \<le> i64_max"
  shows "array_get a (I64 (of_nat i)) =
     (if i < length (elements a) then Some (elements a ! i)
      else hm_get value_eq (extra_fields a) (I64 (of_nat i)))"
  using assms by (auto simp: array_get_def sint_of_nat_i64 Let_def array_ok_def)

lemma array_get_beyond:
  assumes "array_ok a" "length_hint a \<le> i" "i \<le> i64_max"
  shows "array_get a (I64 (of_nat i)) = None"
proof -
  have "hm_get value_eq (extra_fields a) (I64 (of_nat i)) = None"
    using extra_index_bounds [OF assms(1), of "of_nat i"] assms(2,3)
    by (cases "hm_get value_eq (extra_fields a) (I64 (of_nat i))") (auto simp: sint_of_nat_i64)
  moreover have "\<not> i < length (elements a)" using assms by (auto simp: array_ok_def)
  ultimately show ?thesis by (simp add: array_get_index [OF assms(1,3)])
qed

lemma length_array_seq [simp]: "length (array_seq a) = length_hint a"
  by (simp add: array_seq_def)

lemma array_seq_nth: "i < length_hint a \<Longrightarrow> array_seq a ! i = array_elem a i"
  by (simp add: array_seq_def)

lemma array_elem_beyond: "array_ok a \<Longrightarrow> length_hint a \<le> i \<Longrightarrow> i \<le> i64_max \<Longrightarrow> array_elem a i = Unit"
  by (simp add: array_elem_def array_get_beyond)

lemma array_ok_new [simp]: "array_ok array_new"
  by (simp add: array_ok_def array_new_def)

lemma array_store_at_ok:
  assumes "array_ok a" "i < i64_max"
  shows "array_ok (array_store_at i v a)"
proof (cases "i < ARRAY_DENSE_INDEX_LIMIT")
  case True
  then show ?thesis using assms
    by (fastforce simp: array_store_at_def array_ok_def Let_def resize_to_def)
next
  case False
  let ?x = "hm_insert value_eq (I64 (of_nat i)) v (extra_fields a)"
  have "ARRAY_DENSE_INDEX_LIMIT \<le> nat (sint idx) \<and> nat (sint idx) < max (length_hint a) (i + 1)"
    if mem: "(I64 idx, w) \<in> set ?x" and pos: "0 \<le> sint idx" for idx w
    using hm_insert_mem [OF mem]
  proof
    assume "I64 idx = I64 (of_nat i)"
    then show ?thesis using False assms(2) by (auto simp: sint_of_nat_i64)
  next
    assume "\<exists>w'. (I64 idx, w') \<in> set (extra_fields a)"
    then show ?thesis using assms(1) pos by (fastforce simp: array_ok_def)
  qed
  then show ?thesis using assms False veq.insert_distinct [of "extra_fields a"]
    by (auto simp: array_store_at_def array_ok_def Let_def)
qed

lemma array_store_at_field:
  assumes "\<not> is_index_key k" "i < i64_max"
  shows "array_get (array_store_at i v a) k = array_get a k"
proof -
  have "\<not> value_eq (I64 (of_nat i)) k"
    using assms by (auto simp: value_eq_I64_left sint_of_nat_i64)
  then show ?thesis using assms(1)
    by (simp add: array_get_field array_store_at_def Let_def veq.get_insert)
qed

lemma array_store_at_elem:
  assumes "array_ok a" "i < i64_max" "j \<le> i64_max"
  shows "array_elem (array_store_at i v a) j = (if j = i then v else array_elem a j)"
proof (cases "i < ARRAY_DENSE_INDEX_LIMIT")
  case True
  have "hm_get value_eq (extra_fields a) (I64 (of_nat j)) = None" if "j < ARRAY_DENSE_INDEX_LIMIT"
    using extra_index_bounds [OF assms(1), of "of_nat j"] assms(3) that
    by (cases "hm_get value_eq (extra_fields a) (I64 (of_nat j))") (auto simp: sint_of_nat_i64)
  then show ?thesis
    using True array_get_index [OF assms(1,3)] array_get_index [OF array_store_at_ok [OF assms(1,2)] assms(3), of v]
    by (auto simp: array_elem_def array_store_at_def Let_def nth_resize_to nth_list_update)
next
  case False
  moreover have "length (elements a) \<le> i" using assms(1) False by (auto simp: array_ok_def)
  ultimately show ?thesis
    using array_get_index [OF assms(1,3)] array_get_index [OF array_store_at_ok [OF assms(1,2)] assms(3), of v]
      assms(2,3)
    by (auto simp: array_elem_def array_store_at_def Let_def veq.get_insert of_nat_i64_inject)
qed

lemma array_store_at_seq:
  assumes "array_ok a" "i < i64_max"
  shows "array_seq (array_store_at i v a) =
         (resize_to Unit (array_seq a) (max (length_hint a) (i + 1)))[i := v]"
proof (rule nth_equalityI)
  have len: "length_hint (array_store_at i v a) = max (length_hint a) (i + 1)"
    by (simp add: array_store_at_def Let_def)
  then show "length (array_seq (array_store_at i v a)) =
        length ((resize_to Unit (array_seq a) (max (length_hint a) (i + 1)))[i := v])" by simp
  fix j assume "j < length (array_seq (array_store_at i v a))"
  then have j: "j < max (length_hint a) (i + 1)" by (simp add: len)
  then have "j \<le> i64_max" using assms by (auto simp: array_ok_def)
  then show "array_seq (array_store_at i v a) ! j =
      (resize_to Unit (array_seq a) (max (length_hint a) (i + 1)))[i := v] ! j"
    using j assms array_elem_beyond [OF assms(1), of j]
    by (auto simp: array_seq_nth len array_store_at_elem nth_list_update nth_resize_to)
qed

lemma array_store_at_append:
  assumes "array_ok a" "length_hint a < i64_max"
  shows "array_seq (array_store_at (length_hint a) v a) = array_seq a @ [v]"
  using array_store_at_seq [OF assms(1), of "length_hint a" v] assms(2)
  by (simp add: resize_to_def list_update_append)

lemma array_store_at_length: "length_hint (array_store_at i v a) = max (length_hint a) (i + 1)"
  by (simp add: array_store_at_def Let_def)

text \<open>\<open>array_became a xs b\<close>: the array \<open>b\<close> represents \<open>xs\<close> and keeps the named fields of \<open>a\<close>.\<close>

definition array_became :: "arr \<Rightarrow> val list \<Rightarrow> arr \<Rightarrow> bool" where
  "array_became a xs b =
     (array_ok b \<and> array_seq b = xs \<and> (\<forall>k. \<not> is_index_key k \<longrightarrow> array_get b k = array_get a k))"

lemma array_became_length: "array_became a xs b \<Longrightarrow> length_hint b = length xs"
  unfolding array_became_def by (metis length_array_seq)

lemma array_push_step:
  assumes "array_ok a" "start + offset = length_hint a" "length_hint a < i64_max"
  shows "array_push_loop start offset (v # vs) a =
         array_push_loop start (Suc offset) vs (array_store_at (length_hint a) v a)"
  using assms by (simp add: checked_add_usize_def i64_try_from_usize_def i64_max_def usize_max_def)

lemma array_push_loop_spec:
  assumes "array_ok a" "start + offset = length_hint a" "length_hint a + length vs \<le> i64_max"
  shows "\<exists>b. array_push_loop start offset vs a = (Inr (length_hint a + length vs), b) \<and>
             array_became a (array_seq a @ vs) b"
  using assms
proof (induction vs arbitrary: a offset)
  case Nil
  then show ?case by (simp add: array_became_def)
next
  case (Cons v vs)
  let ?a = "array_store_at (length_hint a) v a"
  have lim: "length_hint a < i64_max" using Cons.prems by simp
  have ok: "array_ok ?a" using Cons.prems(1) lim by (rule array_store_at_ok)
  have len: "length_hint ?a = Suc (length_hint a)" by (simp add: array_store_at_length)
  obtain b where "array_push_loop start (Suc offset) vs ?a = (Inr (length_hint ?a + length vs), b)"
    and "array_became ?a (array_seq ?a @ vs) b"
    using Cons.IH [OF ok, of "Suc offset"] Cons.prems by (auto simp: len)
  then show ?case
    using array_push_step [OF Cons.prems(1,2) lim] array_store_at_append [OF Cons.prems(1) lim]
      array_store_at_field [OF _ lim]
    by (auto simp: array_became_def len simp del: array_push_loop.simps)
qed

lemma array_push_spec:
  assumes "array_ok a" "length_hint a + length vs \<le> i64_max"
  shows "\<exists>b. array_try_push_values vs a = (Inr (length_hint a + length vs), b) \<and>
             array_became a (array_seq a @ vs) b"
  unfolding array_try_push_values_def using array_push_loop_spec [OF assms(1) _ assms(2), of "length_hint a" 0]
  by simp

lemma array_replace_spec:
  assumes "array_ok a" "length vs \<le> i64_max"
  shows "\<exists>b. array_try_replace_values vs a = (Inr (length vs), b) \<and> array_became a vs b"
proof -
  let ?P = "\<lambda>k. \<not> is_length_index_key k (length_hint a) \<and> \<not> is_index_key k"
  let ?a = "a\<lparr>elements := [], extra_fields := filter (\<lambda>(k, _). ?P k) (extra_fields a), length_hint := 0\<rparr>"
  have idx: "is_length_index_key k n \<Longrightarrow> is_index_key k" for k n
    by (cases k) auto
  have ok: "array_ok ?a"
    using assms(1) by (auto simp: array_ok_def hm_distinct_filter)
  have fields: "array_get ?a k = array_get a k" if "\<not> is_index_key k" for k
    using that idx is_index_key_cong by (auto simp: array_get_field intro!: hm_get_filter)
  have seq: "array_seq ?a = []" by (simp add: array_seq_def)
  obtain b where b: "array_try_push_values vs ?a = (Inr (length vs), b)" "array_became ?a (array_seq ?a @ vs) b"
    using array_push_spec [OF ok, of vs] assms(2) by auto
  have "array_became a vs b" using b(2) fields unfolding array_became_def seq by simp
  moreover have "array_try_replace_values vs a = (Inr (length vs), b)"
    using b(1) assms(2) by (simp add: array_try_replace_values_def i64_try_from_usize_def)
  ultimately show ?thesis by blast
qed

lemma array_values_seq: "array_ok a \<Longrightarrow> array_values a = Inr (array_seq a)"
proof -
  assume ok: "array_ok a"
  have "map (\<lambda>i. case i64_try_from_usize i of
                   None \<Rightarrow> Inl (VmIntegerRangeExceeded ''Array index'' i)
                 | Some w \<Rightarrow> Inr (case array_get a (I64 w) of None \<Rightarrow> Unit | Some v \<Rightarrow> v)) [0..<length_hint a] =
        map (\<lambda>i. Inr (array_elem a i)) [0..<length_hint a]"
    using ok by (auto simp: i64_try_from_usize_def array_elem_def array_ok_def)
  then show ?thesis by (simp only: array_values_def collect_map_Inr array_seq_def)
qed

lemma array_set_index_spec:
  assumes "array_ok a" "0 \<le> sint idx" "nat (sint idx) < i64_max"
  defines "i \<equiv> nat (sint idx)"
  shows "\<exists>b. array_try_set (I64 idx) v a = (Inr (), b) \<and>
             array_became a ((resize_to Unit (array_seq a) (max (length_hint a) (i + 1)))[i := v]) b"
proof -
  have "array_try_set (I64 idx) v a = (Inr (), array_store_at i v a)"
    using assms(2,3) by (simp add: array_try_set_def i_def Let_def checked_add_usize_def usize_max_def
        i64_try_from_usize_def i64_max_def)
  then show ?thesis
    using array_store_at_ok [OF assms(1,3)] array_store_at_seq [OF assms(1,3)]
      array_store_at_field [OF _ assms(3)]
    by (simp add: array_became_def i_def)
qed

lemma array_set_field_spec:
  assumes "array_ok a" "\<not> is_index_key key"
  shows "\<exists>b. array_try_set key v a = (Inr (), b) \<and> array_ok b \<and> array_seq b = array_seq a \<and>
             (\<forall>k. \<not> is_index_key k \<longrightarrow> array_get b k = (if value_eq key k then Some v else array_get a k))"
proof -
  let ?b = "a\<lparr>extra_fields := hm_insert value_eq key v (extra_fields a)\<rparr>"
  have set: "array_try_set key v a = (Inr (), ?b)"
    using assms(2) by (cases key) (auto simp: array_try_set_def)
  have ne: "key \<noteq> I64 idx" if "0 \<le> sint idx" for idx using assms(2) that by auto
  have ok: "array_ok ?b"
    using assms(1) veq.insert_distinct [of "extra_fields a"] ne hm_insert_mem [of "I64 _" _ value_eq key v "extra_fields a"]
    by (fastforce simp: array_ok_def)
  have elem: "array_elem ?b i = array_elem a i" if "i < length_hint a" for i
  proof -
    have i: "i \<le> i64_max" using that assms(1) by (simp add: array_ok_def)
    have "\<not> value_eq key (I64 (of_nat i))"
      using ne [of "of_nat i"] i by (simp add: value_eq_I64_right sint_of_nat_i64)
    then show ?thesis
      by (simp add: array_elem_def array_get_index [OF assms(1) i] array_get_index [OF ok i] veq.get_insert)
  qed
  then have "array_seq ?b = array_seq a" by (simp add: array_seq_def)
  then show ?thesis using set ok by (simp add: array_get_field veq.get_insert)
qed

section \<open>Specification of the store\<close>

text \<open>A field that was never set reads as unit.\<close>

definition or_unit :: "val option \<Rightarrow> val" where
  "or_unit x = (case x of None \<Rightarrow> Unit | Some v \<Rightarrow> v)"

lemma or_unit_simps [simp]: "or_unit None = Unit" "or_unit (Some v) = v"
  by (simp_all add: or_unit_def)

lemma or_unit_array_get: "array_elem a i = or_unit (array_get a (I64 (of_nat i)))"
  by (simp add: array_elem_def or_unit_def)

lemma index_key_cases:
  obtains i where "k = I64 (of_nat i)" "i \<le> i64_max" | "\<not> is_index_key k"
proof (cases "is_index_key k")
  case True
  then obtain w where w: "k = I64 w" "0 \<le> sint w" by (cases k) auto
  have "k = I64 (of_nat (nat (sint w)))" by (simp only: w(1) of_nat_nat_sint [OF w(2)])
  then show ?thesis using that(1) nat_sint_le [OF w(2)] by blast
qed (use that in blast)

lemma array_set_max_index:
  "array_try_set (I64 (of_nat i64_max)) v a =
     (Inl (VmIntegerRangeExceeded ''Array length'' (i64_max + 1)), a)"
  using sint_of_nat_i64 [of i64_max]
  by (simp add: array_try_set_def Let_def checked_add_usize_def usize_max_def i64_try_from_usize_def
      i64_max_def)

lemma array_set_read:
  assumes "array_ok a" "array_try_set key v a = (Inr (), b)"
  shows "array_ok b \<and> or_unit (array_get b k) = (if value_eq key k then v else or_unit (array_get a k))"
proof (cases key rule: index_key_cases)
  case (1 i)
  have i: "i < i64_max" using assms(2) 1 array_set_max_index [of v a] by (cases "i = i64_max") auto
  have b: "b = array_store_at i v a"
    using assms(2) 1 i by (simp add: array_try_set_def sint_of_nat_i64 Let_def checked_add_usize_def usize_max_def
        i64_try_from_usize_def i64_max_def)
  show ?thesis
  proof (cases k rule: index_key_cases)
    case (1 j)
    then show ?thesis using \<open>key = I64 (of_nat i)\<close> i array_store_at_ok [OF assms(1) i] array_store_at_elem [OF assms(1) i, of j v]
      by (auto simp: b of_nat_i64_inject or_unit_array_get)
  next
    case 2
    then have "\<not> value_eq key k" using is_index_key_cong [of key k] \<open>key = I64 (of_nat i)\<close> i
      by (auto simp: sint_of_nat_i64)
    then show ?thesis using 2 array_store_at_ok [OF assms(1) i] array_store_at_field [OF 2 i]
      by (simp add: b)
  qed
next
  case 2
  then obtain b: "array_ok b" and seq: "array_seq b = array_seq a"
    and get: "\<And>k. \<not> is_index_key k \<Longrightarrow> array_get b k = (if value_eq key k then Some v else array_get a k)"
    using array_set_field_spec [OF assms(1), of key v] assms(2) by auto
  have len: "length_hint b = length_hint a" using arg_cong [OF seq, of length] by simp
  show ?thesis
  proof (cases k rule: index_key_cases)
    case (1 j)
    have "array_elem b j = array_elem a j"
      using 1 array_elem_beyond [OF assms(1), of j] array_elem_beyond [OF b, of j]
        array_seq_nth [of j a] array_seq_nth [of j b]
      by (cases "j < length_hint a") (auto simp: len seq)
    moreover have "\<not> value_eq key k" using is_index_key_cong [of key k] 1 2 by (auto simp: sint_of_nat_i64)
    ultimately show ?thesis using 1 b by (simp add: or_unit_array_get)
  qed (use b get in auto)
qed

lemma array_set_total: "fst (array_try_set key v a) = Inr () \<longleftrightarrow> key \<noteq> I64 (of_nat i64_max)"
proof (cases key rule: index_key_cases)
  case (1 i)
  have "fst (array_try_set key v a) = Inr () \<longleftrightarrow> i \<noteq> i64_max"
    using 1 array_set_max_index [of v a]
    by (cases "i = i64_max") (auto simp: array_try_set_def sint_of_nat_i64 Let_def checked_add_usize_def
        usize_max_def i64_try_from_usize_def i64_max_def)
  then show ?thesis using 1 of_nat_i64_inject [of i i64_max] by simp
next
  case 2
  then have "fst (array_try_set key v a) = Inr ()" by (cases key) (auto simp: array_try_set_def)
  moreover have "key \<noteq> I64 (of_nat i64_max)" using 2 sint_of_nat_i64 [of i64_max] by auto
  ultimately show ?thesis by simp
qed

lemma array_set_error: "array_try_set key v a = (Inl e, b) \<Longrightarrow> b = a"
  by (auto simp: array_try_set_def Let_def split: val.splits if_splits option.splits)

fun live :: "object_store \<Rightarrow> table_ref \<Rightarrow> bool" where
  "live m (ObjectTable r) = (hm_get (=) (objects m) r \<noteq> None)"
| "live m (ArrayTable r) = (hm_get (=) (arrays m) r \<noteq> None)"

text \<open>Handles are below the counter, and the stored arrays and objects are well formed.\<close>

definition store_ok :: "object_store \<Rightarrow> bool" where
  "store_ok m =
     (0 < next_id m \<and> next_id m \<le> usize_max \<and>
      hm_distinct (=) (objects m) \<and> hm_distinct (=) (arrays m) \<and>
      (\<forall>(r, obj) \<in> set (objects m). r < next_id m \<and> hm_distinct value_eq obj) \<and>
      (\<forall>(r, a) \<in> set (arrays m). r < next_id m \<and> array_ok a))"

lemma store_ok_object: "store_ok m \<Longrightarrow> hm_get (=) (objects m) r = Some obj \<Longrightarrow> r < next_id m \<and> hm_distinct value_eq obj"
  by (fastforce simp: store_ok_def dest: hm_get_Some_mem)

lemma store_ok_array: "store_ok m \<Longrightarrow> hm_get (=) (arrays m) r = Some a \<Longrightarrow> r < next_id m \<and> array_ok a"
  by (fastforce simp: store_ok_def dest: hm_get_Some_mem)

lemma hm_insert_eq_mem: "p \<in> set (hm_insert (=) k v m) \<Longrightarrow> p = (k, v) \<or> p \<in> set m"
  by (induction m) (auto split: if_splits)

lemma store_ok_put_object:
  assumes "store_ok m" "r < next_id m" "hm_distinct value_eq obj"
  shows "store_ok (m\<lparr>objects := hm_insert (=) r obj (objects m)\<rparr>)"
  using assms heq.insert_distinct [of "objects m" r obj]
  by (auto simp: store_ok_def dest!: hm_insert_eq_mem)

lemma store_ok_put_array:
  assumes "store_ok m" "r < next_id m" "array_ok a"
  shows "store_ok (m\<lparr>arrays := hm_insert (=) r a (arrays m)\<rparr>)"
  using assms heq.insert_distinct [of "arrays m" r a]
  by (auto simp: store_ok_def dest!: hm_insert_eq_mem)

lemma on_array_ref_error_free:
  assumes "store_ok m" "hm_get (=) (arrays m) r = Some a" "f a = (res, b)" "array_ok b"
  shows "on_array_ref r f m = (res, m\<lparr>arrays := hm_insert (=) r b (arrays m)\<rparr>) \<and>
         store_ok (m\<lparr>arrays := hm_insert (=) r b (arrays m)\<rparr>)"
  using assms store_ok_array [OF assms(1,2)] store_ok_put_array [OF assms(1)]
  by (simp add: on_array_ref_def)

lemma set_table_field_ok:
  assumes "store_ok m" "set_table_field t key v m = (Inr (), n)"
  shows "store_ok n \<and> live m t \<and> live n = live m \<and>
         map_ok or_unit (try_get_table_field n t' k) =
           (if t' = t \<and> value_eq key k then Inr v else map_ok or_unit (try_get_table_field m t' k))"
proof (cases t)
  case (ObjectTable r)
  then obtain obj where obj: "hm_get (=) (objects m) r = Some obj"
    and n: "n = m\<lparr>objects := hm_insert (=) r (hm_insert value_eq key v obj) (objects m)\<rparr>"
    using assms(2) by (auto simp: set_table_field_def split: option.splits)
  have "store_ok n" unfolding n
    using store_ok_object [OF assms(1) obj] by (intro store_ok_put_object [OF assms(1)] veq.insert_distinct) auto
  moreover have "live n x = live m x" for x
    by (cases x) (auto simp: n obj heq.get_insert)
  ultimately show ?thesis using ObjectTable obj
    by (cases t') (auto simp: n try_get_table_field_def heq.get_insert veq.get_insert)
next
  case (ArrayTable r)
  then obtain a b where a: "hm_get (=) (arrays m) r = Some a" "array_try_set key v a = (Inr (), b)"
    and n: "n = m\<lparr>arrays := hm_insert (=) r b (arrays m)\<rparr>"
    using assms(2) by (auto simp: set_table_field_def on_array_ref_def split: option.splits prod.splits)
  have ok: "array_ok a" using store_ok_array [OF assms(1) a(1)] by simp
  have "store_ok n" unfolding n using store_ok_array [OF assms(1) a(1)] array_set_read [OF ok a(2)]
    by (intro store_ok_put_array [OF assms(1)]) auto
  moreover have "live n x = live m x" for x
    by (cases x) (auto simp: n a heq.get_insert)
  ultimately show ?thesis using ArrayTable a(1) array_set_read [OF ok a(2), of k]
    by (cases t') (auto simp: n try_get_table_field_def heq.get_insert)
qed

lemma set_table_field_error:
  assumes "store_ok m" "set_table_field t key v m = (Inl e, n)"
  shows "live m t \<Longrightarrow> (\<exists>r. t = ArrayTable r) \<and> key = I64 (of_nat i64_max)"
    and "try_get_table_field n = try_get_table_field m"
proof -
  show "(\<exists>r. t = ArrayTable r) \<and> key = I64 (of_nat i64_max)" if lv: "live m t"
  proof (cases t)
    case (ObjectTable r)
    then show ?thesis using assms(2) lv by (auto simp: set_table_field_def)
  next
    case (ArrayTable r)
    then obtain a where a: "hm_get (=) (arrays m) r = Some a" using lv by auto
    then have "fst (array_try_set key v a) = Inl e"
      using assms(2) ArrayTable by (auto simp: set_table_field_def on_array_ref_def split: prod.splits)
    then show ?thesis using ArrayTable array_set_total [of key v a] by simp
  qed
  show "try_get_table_field n = try_get_table_field m"
  proof (cases "\<exists>r a. t = ArrayTable r \<and> hm_get (=) (arrays m) r = Some a")
    case True
    then obtain r a where r: "t = ArrayTable r" "hm_get (=) (arrays m) r = Some a" by blast
    then have "n = m\<lparr>arrays := hm_insert (=) r a (arrays m)\<rparr>"
      using assms(2) array_set_error by (fastforce simp: set_table_field_def on_array_ref_def split: prod.splits)
    then show ?thesis using r by (intro ext) (auto simp: try_get_table_field_def heq.get_insert split: table_ref.splits)
  next
    case False
    then show ?thesis using assms(2)
      by (auto simp: set_table_field_def on_array_ref_def split: table_ref.splits option.splits)
  qed
qed

lemma create_object_ref_ok:
  assumes "store_ok m" "create_object_ref m = (Inr r, n)"
  shows "store_ok n \<and> \<not> live m (ObjectTable r) \<and> live n t = (t = ObjectTable r \<or> live m t) \<and>
         try_get_table_field n t k = (if t = ObjectTable r then Inr None else try_get_table_field m t k)"
proof -
  have n: "r = next_id m" "next_id m + 1 \<le> usize_max"
      "n = m\<lparr>next_id := Suc (next_id m), objects := hm_insert (=) r [] (objects m)\<rparr>"
    using assms(2)
    by (auto simp: create_object_ref_def mbind_def allocate_id_def mmodify_def mret_def checked_add_usize_def
        split: if_splits)
  have fresh: "hm_get (=) (objects m) r = None"
    using store_ok_object [OF assms(1), of r] by (cases "hm_get (=) (objects m) r") (auto simp: n)
  have "store_ok (m\<lparr>next_id := Suc (next_id m)\<rparr>)" using assms(1) n by (auto simp: store_ok_def)
  from store_ok_put_object [OF this, of r "[]"] have "store_ok n" using n by simp
  then show ?thesis using fresh by (cases t) (auto simp: n try_get_table_field_def heq.get_insert)
qed

lemma create_array_ref_ok:
  assumes "store_ok m" "create_array_ref m = (Inr r, n)"
  shows "store_ok n \<and> \<not> live m (ArrayTable r) \<and> live n t = (t = ArrayTable r \<or> live m t) \<and>
         try_get_table_field n t k = (if t = ArrayTable r then Inr None else try_get_table_field m t k)"
proof -
  have n: "r = next_id m" "next_id m + 1 \<le> usize_max"
      "n = m\<lparr>next_id := Suc (next_id m), arrays := hm_insert (=) r array_new (arrays m)\<rparr>"
    using assms(2)
    by (auto simp: create_array_ref_def mbind_def allocate_id_def mmodify_def mret_def checked_add_usize_def
        split: if_splits)
  have fresh: "hm_get (=) (arrays m) r = None"
    using store_ok_array [OF assms(1), of r] by (cases "hm_get (=) (arrays m) r") (auto simp: n)
  have "store_ok (m\<lparr>next_id := Suc (next_id m)\<rparr>)" using assms(1) n by (auto simp: store_ok_def)
  from store_ok_put_array [OF this, of r array_new] have "store_ok n" using n by simp
  moreover have "array_get array_new k = None" by (simp add: array_get_def array_new_def split: val.splits)
  ultimately show ?thesis using fresh by (cases t) (auto simp: n try_get_table_field_def heq.get_insert)
qed

section \<open>The table-memory interface\<close>

text \<open>
  The contract of the trait \<open>TableMemory\<close> as the VM uses it: reads see the last successful
  write of an equal key to the same table, other tables are not affected, and a created table
  was not live before. Both kinds of creation share the laws, so the interface has one
  creation operation and is interpreted for each kind.
\<close>

locale table_memory =
  fixes ok :: "'s \<Rightarrow> bool"
    and live :: "'s \<Rightarrow> 't \<Rightarrow> bool"
    and read :: "'s \<Rightarrow> 't \<Rightarrow> 'v \<Rightarrow> 'e + 'v"
    and key_equal :: "'v \<Rightarrow> 'v \<Rightarrow> bool"
    and nil :: "'v"
    and put :: "'t \<Rightarrow> 'v \<Rightarrow> 'v \<Rightarrow> ('s, 'e, unit) meth"
    and create :: "('s, 'e, 'r) meth"
    and ref :: "'r \<Rightarrow> 't"
  assumes write_ok: "ok m \<Longrightarrow> put t k v m = (Inr (), n) \<Longrightarrow>
      ok n \<and> live m t \<and> live n = live m \<and>
      read n t' k' = (if t' = t \<and> key_equal k k' then Inr v else read m t' k')"
    and write_error: "ok m \<Longrightarrow> put t k v m = (Inl e, n) \<Longrightarrow> read n t' k' = read m t' k'"
    and create_ok: "ok m \<Longrightarrow> create m = (Inr r, n) \<Longrightarrow>
      ok n \<and> \<not> live m (ref r) \<and> live n t = (t = ref r \<or> live m t) \<and>
      read n t k' = (if t = ref r then Inr nil else read m t k')"
begin

fun write_all :: "'t \<Rightarrow> ('v \<times> 'v) list \<Rightarrow> ('s, 'e, unit) meth" where
  "write_all t [] = mret ()"
| "write_all t ((k, v) # kvs) = mbind (put t k v) (\<lambda>_. write_all t kvs)"

fun last_written :: "'v \<Rightarrow> ('v \<times> 'v) list \<Rightarrow> 'v option" where
  "last_written q [] = None"
| "last_written q ((k, v) # kvs) =
     (case last_written q kvs of None \<Rightarrow> (if key_equal k q then Some v else None) | Some w \<Rightarrow> Some w)"

lemma write_all_ok:
  "ok m \<Longrightarrow> write_all t kvs m = (Inr (), n) \<Longrightarrow>
   ok n \<and> live n = live m \<and>
   read n t' q = (case last_written q kvs of Some v \<Rightarrow> if t' = t then Inr v else read m t' q | None \<Rightarrow> read m t' q)"
proof (induction kvs arbitrary: m)
  case Nil
  then show ?case by (simp add: mret_def)
next
  case (Cons p kvs)
  obtain k v where p: "p = (k, v)" by (cases p)
  then obtain l where l: "put t k v m = (Inr (), l)" "write_all t kvs l = (Inr (), n)"
    using Cons.prems(2) by (auto simp: mbind_Inr_iff)
  note w = write_ok [OF Cons.prems(1) l(1), of t' q]
  with Cons.IH [OF _ l(2)] show ?case by (auto simp: p split: option.splits)
qed

lemma create_then_write_all:
  assumes "ok m" "create m = (Inr r, l)" "write_all (ref r) kvs l = (Inr (), n)"
  shows "ok n" "\<not> live m (ref r)" "live n (ref r)"
    and "read n (ref r) q = (case last_written q kvs of Some v \<Rightarrow> Inr v | None \<Rightarrow> Inr nil)"
    and "t' \<noteq> ref r \<Longrightarrow> read n t' q = read m t' q"
  using create_ok [OF assms(1,2), of _ q] write_all_ok [OF _ assms(3), of _ q]
  by (auto split: option.splits)

end

abbreviation read_field :: "object_store \<Rightarrow> table_ref \<Rightarrow> val \<Rightarrow> table_memory_error + val" where
  "read_field m t k \<equiv> map_ok or_unit (try_get_table_field m t k)"

interpretation obj: table_memory store_ok live read_field value_eq Unit set_table_field create_object_ref ObjectTable
proof unfold_locales
  fix m n t t' k k' v r e
  assume ok: "store_ok m"
  show "set_table_field t k v m = (Inr (), n) \<Longrightarrow> store_ok n \<and> live m t \<and> live n = live m \<and>
      read_field n t' k' = (if t' = t \<and> value_eq k k' then Inr v else read_field m t' k')"
    using set_table_field_ok [OF ok] by blast
  show "set_table_field t k v m = (Inl e, n) \<Longrightarrow> read_field n t' k' = read_field m t' k'"
    using set_table_field_error(2) [OF ok] by simp
  show "create_object_ref m = (Inr r, n) \<Longrightarrow> store_ok n \<and> \<not> live m (ObjectTable r) \<and>
      live n t = (t = ObjectTable r \<or> live m t) \<and>
      read_field n t k' = (if t = ObjectTable r then Inr Unit else read_field m t k')"
    using create_object_ref_ok [OF ok, of r n t k'] by simp
qed

interpretation arr: table_memory store_ok live read_field value_eq Unit set_table_field create_array_ref ArrayTable
proof unfold_locales
  fix m n t t' k k' v r e
  assume ok: "store_ok m"
  show "set_table_field t k v m = (Inr (), n) \<Longrightarrow> store_ok n \<and> live m t \<and> live n = live m \<and>
      read_field n t' k' = (if t' = t \<and> value_eq k k' then Inr v else read_field m t' k')"
    using set_table_field_ok [OF ok] by blast
  show "set_table_field t k v m = (Inl e, n) \<Longrightarrow> read_field n t' k' = read_field m t' k'"
    using set_table_field_error(2) [OF ok] by simp
  show "create_array_ref m = (Inr r, n) \<Longrightarrow> store_ok n \<and> \<not> live m (ArrayTable r) \<and>
      live n t = (t = ArrayTable r \<or> live m t) \<and>
      read_field n t k' = (if t = ArrayTable r then Inr Unit else read_field m t k')"
    using create_array_ref_ok [OF ok, of r n t k'] by simp
qed

section \<open>Properties\<close>

lemma array_pop_at_seq:
  assumes "array_ok a" "i < length_hint a"
  shows "\<exists>b. array_try_pop_at i a = (Inr (Some (array_seq a ! i)), b) \<and>
             array_became a (take i (array_seq a) @ drop (Suc i) (array_seq a)) b"
proof -
  let ?vs = "take i (array_seq a) @ drop (Suc i) (array_seq a)"
  have "length ?vs \<le> i64_max" using assms by (auto simp: array_ok_def)
  from array_replace_spec [OF assms(1) this] obtain b
    where "array_try_replace_values ?vs a = (Inr (length ?vs), b)" "array_became a ?vs b" by blast
  then show ?thesis using assms
    by (auto simp: array_try_pop_at_def mbind_def mread_def mret_def array_values_seq)
qed

lemma array_insert_at_seq:
  fixes index :: usize
  assumes "array_ok a" "length_hint a < i64_max"
  defines "i \<equiv> min index (length_hint a)"
  shows "\<exists>b. array_try_insert_at index v a = (Inr (Suc (length_hint a)), b) \<and>
             array_became a (take i (array_seq a) @ v # drop i (array_seq a)) b"
proof -
  let ?vs = "take i (array_seq a) @ v # drop i (array_seq a)"
  have len: "length ?vs = Suc (length_hint a)" by (simp add: i_def)
  with assms(2) have "length ?vs \<le> i64_max" by linarith
  from array_replace_spec [OF assms(1) this] obtain b
    where "array_try_replace_values ?vs a = (Inr (length ?vs), b)" "array_became a ?vs b" by blast
  then show ?thesis using assms(1) len
    by (auto simp: array_try_insert_at_def mbind_def mread_def array_values_seq i_def Let_def)
qed

lemma array_reverse_seq:
  assumes "array_ok a"
  shows "\<exists>b. array_try_reverse a = (Inr (), b) \<and> array_became a (rev (array_seq a)) b"
proof -
  have "length (rev (array_seq a)) \<le> i64_max" using assms by (simp add: array_ok_def)
  from array_replace_spec [OF assms this] show ?thesis using assms
    by (auto simp: array_try_reverse_def mbind_def mread_def mret_def array_values_seq)
qed

lemma array_clear_seq:
  assumes "array_ok a"
  shows "\<exists>b. array_try_clear a = (Inr (), b) \<and> array_became a [] b"
  using array_replace_spec [OF assms, of "[]"]
  by (auto simp: array_try_clear_def mbind_def mret_def)

text \<open>writing an element of an array is a list update that first pads the list with unit up to
  the index, whichever of the two storages the index falls into; it keeps the named fields and
  the representation invariant. The largest index is refused and leaves the array alone, and
  any other key is a named field that does not touch the elements.\<close>

theorem array_try_set_refines_list_update:
  assumes "array_ok a"
  shows "(0 \<le> sint idx \<longrightarrow> nat (sint idx) < i64_max \<longrightarrow>
     (\<exists>b. array_try_set (I64 idx) v a = (Inr (), b) \<and>
         array_became a ((resize_to Unit (array_seq a) (max (length_hint a) (nat (sint idx) + 1)))
                           [nat (sint idx) := v]) b)) \<and>
   (array_try_set (I64 (of_nat i64_max)) v a =
     (Inl (VmIntegerRangeExceeded ''Array length'' (i64_max + 1)), a)) \<and>
   (\<not> is_index_key key \<longrightarrow>
     (\<exists>b. array_try_set key v a = (Inr (), b) \<and> array_ok b \<and> array_seq b = array_seq a \<and>
         (\<forall>k. \<not> is_index_key k \<longrightarrow>
            array_get b k = (if value_eq key k then Some v else array_get a k))))"
  using array_set_index_spec [OF assms] array_set_max_index array_set_field_spec [OF assms] by auto

theorem array_try_set_refines_list_update_witness:
  "\<exists>b. array_try_set (I64 40) (I64 7) array_new = (Inr (), b) \<and>
       array_became array_new ((replicate 41 Unit)[40 := I64 7]) b"
proof -
  have "array_seq array_new = []" by (simp add: array_seq_def array_new_def)
  then show ?thesis
    using array_try_set_refines_list_update [THEN conjunct1, rule_format, OF array_ok_new, of 40 "I64 7"]
    by (simp add: i64_max_def array_new_def resize_to_def)
qed

text \<open>C28: the bulk operations of an array act on its element list as the list operations they are
  named after: push appends, pop removes one position and returns it (and is a no-op beyond the
  end), insert clamps its position, reverse and clear do what they say. All keep the named
  fields and the representation invariant, for dense and sparse arrays alike.\<close>

theorem array_operations_refine_lists:
  assumes "array_ok a"
  shows "(length_hint a + length vs \<le> i64_max \<longrightarrow>
     (\<exists>b. array_try_push_values vs a = (Inr (length_hint a + length vs), b) \<and>
         array_became a (array_seq a @ vs) b)) \<and>
   (i < length_hint a \<longrightarrow>
     (\<exists>b. array_try_pop_at i a = (Inr (Some (array_seq a ! i)), b) \<and>
         array_became a (take i (array_seq a) @ drop (Suc i) (array_seq a)) b)) \<and>
   (length_hint a \<le> i \<longrightarrow> array_try_pop_at i a = (Inr None, a)) \<and>
   (length_hint a < i64_max \<longrightarrow>
     (\<exists>b. array_try_insert_at i v a = (Inr (Suc (length_hint a)), b) \<and>
         array_became a (take (min i (length_hint a)) (array_seq a) @
                         v # drop (min i (length_hint a)) (array_seq a)) b)) \<and>
   (\<exists>b. array_try_reverse a = (Inr (), b) \<and> array_became a (rev (array_seq a)) b) \<and>
   (\<exists>b. array_try_clear a = (Inr (), b) \<and> array_became a [] b)"
  using array_push_spec [OF assms] array_pop_at_seq [OF assms] array_insert_at_seq [OF assms]
    array_reverse_seq [OF assms] array_clear_seq [OF assms]
  by (auto simp: array_try_pop_at_def)

theorem array_operations_refine_lists_witness:
  "\<exists>b. array_try_push_values [I64 1, Bool True] array_new = (Inr 2, b) \<and>
       array_became array_new [I64 1, Bool True] b"
proof -
  have "array_seq array_new = []" by (simp add: array_seq_def array_new_def)
  then show ?thesis
    using array_operations_refine_lists [THEN conjunct1, rule_format, OF array_ok_new, of "[I64 1, Bool True]"]
    by (simp add: i64_max_def array_new_def flip: numeral_2_eq_2)
qed


lemma store_ok_new: "store_ok object_store_new"
  by (simp add: store_ok_def object_store_new_def usize_max_def)


text \<open>a table created and then filled with any sequence of writes was not live before, reads
  as the last write of each key and as unit elsewhere, and no table that existed before is
  affected.\<close>

theorem created_table_is_isolated:
  assumes "store_ok m" "create_array_ref m = (Inr r, l)" "arr.write_all (ArrayTable r) kvs l = (Inr (), n)"
  shows "(store_ok n) \<and>
   (\<not> live m (ArrayTable r)) \<and>
   (live n (ArrayTable r)) \<and>
   (map_ok or_unit (try_get_table_field n (ArrayTable r) q) =
     (case arr.last_written q kvs of Some v \<Rightarrow> Inr v | None \<Rightarrow> Inr Unit)) \<and>
   (t' \<noteq> ArrayTable r \<longrightarrow>
     map_ok or_unit (try_get_table_field n t' q) = map_ok or_unit (try_get_table_field m t' q))"
  using arr.create_then_write_all [OF assms] by auto

theorem created_table_is_isolated_witness:
  "\<exists>l n. create_array_ref object_store_new = (Inr 1, l) \<and>
         arr.write_all (ArrayTable 1) [(I64 0, I64 3), (I64 0, I64 4)] l = (Inr (), n) \<and>
         map_ok or_unit (try_get_table_field n (ArrayTable 1) (I64 0)) = Inr (I64 4)"
proof -
  let ?l = "\<lparr>objects = [], arrays = [(1, array_new)], next_id = 2\<rparr>"
  let ?n = "\<lparr>objects = [], arrays = [(1, \<lparr>elements = [I64 4], extra_fields = [], length_hint = 1\<rparr>)], next_id = 2\<rparr>"
  have c: "create_array_ref object_store_new = (Inr 1, ?l)"
    by (simp add: create_array_ref_def object_store_new_def mbind_def allocate_id_def mmodify_def mret_def
        checked_add_usize_def usize_max_def)
  moreover have w: "arr.write_all (ArrayTable 1) [(I64 0, I64 3), (I64 0, I64 4)] ?l = (Inr (), ?n)"
    by (simp add: mbind_def mret_def set_table_field_def on_array_ref_def array_try_set_def array_store_at_def
        array_new_def checked_add_usize_def usize_max_def i64_try_from_usize_def i64_max_def resize_to_def
        ARRAY_DENSE_INDEX_LIMIT_def Let_def)
  ultimately show ?thesis
    using created_table_is_isolated [THEN conjunct2, THEN conjunct2, THEN conjunct2, THEN conjunct1, rule_format, OF store_ok_new c w, of "I64 0"] by fastforce
qed

end
