(* ===== verification/Share_Runtime.thy ===== *)
theory Share_Runtime
  imports Values
begin

text \<open>
  The share runtime of \<open>stoffel-vm/src/net/share_runtime\<close>: the checked facade through which the
  VM talks to an MPC engine, with the conversion of clear values into share inputs
  (\<open>mpc_values/clear_share.rs\<close>) and of opened values back into VM values (\<open>net/curve.rs\<close>).

  The engine, a trait object backed by a network protocol, is a parameter: the record
  \<open>mpc_engine\<close> has one field per trait meth the runtime calls, with errors already rendered to
  the reason string that \<open>map_mpc_backend_err\<close> keeps. \<open>feldman_from_bytes\<close> stands for the
  curve-specific decoding of a Feldman share.
\<close>

section \<open>Clear values as share inputs\<close>

definition is_integer_value :: "val \<Rightarrow> bool" where
  "is_integer_value v =
     (case v of I64 _ \<Rightarrow> True | I32 _ \<Rightarrow> True | I16 _ \<Rightarrow> True | I8 _ \<Rightarrow> True
              | U64 _ \<Rightarrow> True | U32 _ \<Rightarrow> True | U16 _ \<Rightarrow> True | U8 _ \<Rightarrow> True | _ \<Rightarrow> False)"

definition infer_clear_share_type :: "val \<Rightarrow> mpc_value_error + share_type" where
  "infer_clear_share_type v =
     (if is_integer_value v then Inr default_secret_int
      else case v of
             Float _ \<Rightarrow> Inr default_secret_fixed_point
           | Bool _ \<Rightarrow> Inr boolean_type
           | _ \<Rightarrow> Inl (UnsupportedClearShareValue v))"

definition canonical_clear_share_value :: "share_type \<Rightarrow> val \<Rightarrow> mpc_value_error + clear_share_value" where
  "canonical_clear_share_value ty v =
     (case ty of
        SecretInt bits \<Rightarrow>
          (case v of
             I64 w \<Rightarrow> Inr (Integer w)
           | Bool b \<Rightarrow> if bits = BOOLEAN_SECRET_INT_BITS then Inr (Boolean b)
                       else Inl (UnsupportedClearShareConversion ty v)
           | _ \<Rightarrow> if is_integer_value v
                  then map_ok Integer (map_err MVValueConversion (value_to_i64 v ''clear integer''))
                  else Inl (UnsupportedClearShareConversion ty v))
      | SecretUInt bits \<Rightarrow>
          if is_integer_value v
          then map_ok UnsignedInteger (map_err MVValueConversion (value_to_u64 v ''clear unsigned integer''))
          else Inl (UnsupportedClearShareConversion ty v)
      | SecretFixedPoint p \<Rightarrow>
          (case v of
             Float f \<Rightarrow> Inr (FixedPoint f)
           | _ \<Rightarrow> if is_integer_value v
                  then map_ok (\<lambda>w. FixedPoint (f64_of_int (sint w)))
                         (map_err MVValueConversion (value_to_i64 v ''clear integer''))
                  else Inl (UnsupportedClearShareConversion ty v)))"

definition clear_share_input :: "val \<Rightarrow> share_type option \<Rightarrow> mpc_value_error + clear_share_input" where
  "clear_share_input v explicit_type =
     rbind (case explicit_type of Some ty \<Rightarrow> Inr ty | None \<Rightarrow> infer_clear_share_type v)
       (\<lambda>ty. rbind (canonical_clear_share_value ty v)
          (\<lambda>cv. Inr \<lparr>csi_share_type = ty, csi_value = cv\<rparr>))"

definition clear_share_value_to_vm_value :: "share_type \<Rightarrow> clear_share_value \<Rightarrow> val" where
  "clear_share_value_to_vm_value ty clear =
     (case (ty, clear) of
        (SecretInt bits, Boolean b) \<Rightarrow>
          if bits = BOOLEAN_SECRET_INT_BITS then Bool b else into_vm_value clear
      | (SecretInt bits, Integer w) \<Rightarrow>
          if bits = 8 then I8 (ucast w) else if bits = 16 then I16 (ucast w)
          else if bits = 32 then I32 (ucast w) else I64 w
      | (SecretUInt bits, UnsignedInteger w) \<Rightarrow>
          if bits = 8 then U8 (ucast w) else if bits = 16 then U16 (ucast w)
          else if bits = 32 then U32 (ucast w) else U64 w
      | (SecretFixedPoint p, FixedPoint f) \<Rightarrow> Float f
      | (_, value) \<Rightarrow> into_vm_value value)"

section \<open>The engine\<close>

record multiplication_ops =
  multiply_share :: "share_type \<Rightarrow> byte list \<Rightarrow> byte list \<Rightarrow> string + share_data"
  divide_fixed_by_constant :: "share_type \<Rightarrow> byte list \<Rightarrow> i64 \<Rightarrow> string + share_data"

record open_in_exp_ops =
  open_share_in_exp :: "share_type \<Rightarrow> byte list \<Rightarrow> byte list \<Rightarrow> string + byte list"

record mpc_engine =
  is_ready :: bool
  engine_input_share :: "clear_share_input \<Rightarrow> string + share_data"
  engine_open_share :: "share_type \<Rightarrow> byte list \<Rightarrow> string + clear_share_value"
  engine_batch_open_shares :: "share_type \<Rightarrow> byte list list \<Rightarrow> string + clear_share_value list"
  engine_multiplication_ops :: "string + multiplication_ops"
  field_open_ops :: "string + (share_type \<Rightarrow> byte list \<Rightarrow> string + byte list)"
  engine_open_in_exp_ops :: "string + open_in_exp_ops"
  add_share_local :: "share_type \<Rightarrow> byte list \<Rightarrow> byte list \<Rightarrow> string + byte list"
  sub_share_local :: "share_type \<Rightarrow> byte list \<Rightarrow> byte list \<Rightarrow> string + byte list"
  neg_share_local :: "share_type \<Rightarrow> byte list \<Rightarrow> string + byte list"
  add_share_scalar_local :: "share_type \<Rightarrow> byte list \<Rightarrow> i64 \<Rightarrow> string + byte list"
  sub_share_scalar_local :: "share_type \<Rightarrow> byte list \<Rightarrow> i64 \<Rightarrow> string + byte list"
  scalar_sub_share_local :: "share_type \<Rightarrow> i64 \<Rightarrow> byte list \<Rightarrow> string + byte list"
  mul_share_scalar_local :: "share_type \<Rightarrow> byte list \<Rightarrow> i64 \<Rightarrow> string + byte list"
  div_share_scalar_local :: "share_type \<Rightarrow> byte list \<Rightarrow> i64 \<Rightarrow> string + byte list"
  mul_share_field_local :: "share_type \<Rightarrow> byte list \<Rightarrow> byte list \<Rightarrow> string + byte list"
  add_share_field_local :: "share_type \<Rightarrow> byte list \<Rightarrow> byte list \<Rightarrow> string + byte list"
  interpolate_shares_local :: "share_type \<Rightarrow> byte list list \<Rightarrow> string + val"
  feldman_from_bytes :: "byte list \<Rightarrow> string + share_data"

definition map_mpc_backend_err :: "string \<Rightarrow> string + 'a \<Rightarrow> vm_error + 'a" where
  "map_mpc_backend_err operation = map_err (MpcBackendOperationFailed operation)"

definition from_configured :: "mpc_engine option \<Rightarrow> vm_error + mpc_engine" where
  "from_configured engine = ok_or MpcEngineNotConfigured engine"

definition ensure_ready :: "mpc_engine \<Rightarrow> vm_error + unit" where
  "ensure_ready e = (if is_ready e then Inr () else Inl MpcEngineNotReady)"

section \<open>Formats\<close>

definition ensure_matching_share_data_format :: "string \<Rightarrow> share_data \<Rightarrow> share_data \<Rightarrow> vm_error + unit" where
  "ensure_matching_share_data_format operation l r =
     (if format l = format r then Inr ()
      else Inl (ShareDataFormatMismatch operation (format l) (format r)))"

fun check_formats :: "string \<Rightarrow> share_data_format \<Rightarrow> usize \<Rightarrow> share_data list \<Rightarrow> vm_error + unit" where
  "check_formats operation expected offset [] = Inr ()"
| "check_formats operation expected offset (s # rest) =
     (if format s \<noteq> expected
      then Inl (ShareDataBatchFormatMismatch operation expected (format s) (offset + 1))
      else check_formats operation expected (Suc offset) rest)"

fun ensure_homogeneous_share_data_format :: "string \<Rightarrow> share_data list \<Rightarrow> vm_error + unit" where
  "ensure_homogeneous_share_data_format operation [] = Inr ()"
| "ensure_homogeneous_share_data_format operation (s # rest) = check_formats operation (format s) 0 rest"

fun preserve_share_data_format :: "mpc_engine \<Rightarrow> share_data \<Rightarrow> byte list \<Rightarrow> vm_error + share_data" where
  "preserve_share_data_format e (Opaque _) bytes = Inr (Opaque bytes)"
| "preserve_share_data_format e (Feldman _ _) bytes =
     map_mpc_backend_err ''preserve_share_data_format'' (feldman_from_bytes e bytes)"

section \<open>Operations on share data\<close>

definition input_share :: "mpc_engine \<Rightarrow> clear_share_input \<Rightarrow> vm_error + share_data" where
  "input_share e clear =
     rbind (ensure_ready e) (\<lambda>_. map_mpc_backend_err ''input_share'' (engine_input_share e clear))"

definition share_clear_value :: "mpc_engine \<Rightarrow> val \<Rightarrow> vm_error + val" where
  "share_clear_value e v =
     rbind (map_err MpcValue (clear_share_input v None))
       (\<lambda>inp. rbind (input_share e inp) (\<lambda>data. Inr (Share (csi_share_type inp) data)))"

definition multiply_share_data :: "mpc_engine \<Rightarrow> share_type \<Rightarrow> share_data \<Rightarrow> share_data \<Rightarrow> vm_error + share_data" where
  "multiply_share_data e ty l r =
     rbind (ensure_ready e)
       (\<lambda>_. rbind (ensure_matching_share_data_format ''multiply_share'' l r)
         (\<lambda>_. rbind (map_mpc_backend_err ''multiplication_ops'' (engine_multiplication_ops e))
           (\<lambda>ops. map_mpc_backend_err ''multiply_share'' (multiply_share ops ty (as_bytes l) (as_bytes r)))))"

definition add_data :: "mpc_engine \<Rightarrow> share_type \<Rightarrow> share_data \<Rightarrow> share_data \<Rightarrow> vm_error + share_data" where
  "add_data e ty l r =
     rbind (ensure_matching_share_data_format ''add_share_local'' l r)
       (\<lambda>_. rbind (map_mpc_backend_err ''add_share_local'' (add_share_local e ty (as_bytes l) (as_bytes r)))
         (preserve_share_data_format e l))"

definition sub_data :: "mpc_engine \<Rightarrow> share_type \<Rightarrow> share_data \<Rightarrow> share_data \<Rightarrow> vm_error + share_data" where
  "sub_data e ty l r =
     rbind (ensure_matching_share_data_format ''sub_share_local'' l r)
       (\<lambda>_. rbind (map_mpc_backend_err ''sub_share_local'' (sub_share_local e ty (as_bytes l) (as_bytes r)))
         (preserve_share_data_format e l))"

definition neg_data :: "mpc_engine \<Rightarrow> share_type \<Rightarrow> share_data \<Rightarrow> vm_error + share_data" where
  "neg_data e ty d =
     rbind (map_mpc_backend_err ''neg_share_local'' (neg_share_local e ty (as_bytes d)))
       (preserve_share_data_format e d)"

definition add_scalar_data :: "mpc_engine \<Rightarrow> share_type \<Rightarrow> share_data \<Rightarrow> i64 \<Rightarrow> vm_error + share_data" where
  "add_scalar_data e ty d k =
     rbind (map_mpc_backend_err ''add_share_scalar_local'' (add_share_scalar_local e ty (as_bytes d) k))
       (preserve_share_data_format e d)"

definition sub_scalar_data :: "mpc_engine \<Rightarrow> share_type \<Rightarrow> share_data \<Rightarrow> i64 \<Rightarrow> vm_error + share_data" where
  "sub_scalar_data e ty d k =
     rbind (map_mpc_backend_err ''sub_share_scalar_local'' (sub_share_scalar_local e ty (as_bytes d) k))
       (preserve_share_data_format e d)"

definition scalar_sub_data :: "mpc_engine \<Rightarrow> share_type \<Rightarrow> i64 \<Rightarrow> share_data \<Rightarrow> vm_error + share_data" where
  "scalar_sub_data e ty k d =
     rbind (map_mpc_backend_err ''scalar_sub_share_local'' (scalar_sub_share_local e ty k (as_bytes d)))
       (preserve_share_data_format e d)"

definition div_scalar_data :: "mpc_engine \<Rightarrow> share_type \<Rightarrow> share_data \<Rightarrow> i64 \<Rightarrow> vm_error + share_data" where
  "div_scalar_data e ty d k =
     rbind (map_mpc_backend_err ''div_share_scalar_local'' (div_share_scalar_local e ty (as_bytes d) k))
       (preserve_share_data_format e d)"

definition div_fixed_by_const_data :: "mpc_engine \<Rightarrow> share_type \<Rightarrow> share_data \<Rightarrow> i64 \<Rightarrow> vm_error + share_data" where
  "div_fixed_by_const_data e ty d divisor_scaled =
     rbind (ensure_ready e)
       (\<lambda>_. rbind (map_mpc_backend_err ''multiplication_ops'' (engine_multiplication_ops e))
         (\<lambda>ops. map_mpc_backend_err ''divide_fixed_by_constant''
                  (divide_fixed_by_constant ops ty (as_bytes d) divisor_scaled)))"

definition mul_scalar_data :: "mpc_engine \<Rightarrow> share_type \<Rightarrow> share_data \<Rightarrow> i64 \<Rightarrow> vm_error + share_data" where
  "mul_scalar_data e ty d k =
     rbind (map_mpc_backend_err ''mul_share_scalar_local'' (mul_share_scalar_local e ty (as_bytes d) k))
       (preserve_share_data_format e d)"

definition mul_field_data :: "mpc_engine \<Rightarrow> share_type \<Rightarrow> share_data \<Rightarrow> byte list \<Rightarrow> vm_error + share_data" where
  "mul_field_data e ty d bytes =
     rbind (map_mpc_backend_err ''mul_share_field_local'' (mul_share_field_local e ty (as_bytes d) bytes))
       (preserve_share_data_format e d)"

definition add_field_data :: "mpc_engine \<Rightarrow> share_type \<Rightarrow> share_data \<Rightarrow> byte list \<Rightarrow> vm_error + share_data" where
  "add_field_data e ty d bytes =
     rbind (map_mpc_backend_err ''add_share_field_local'' (add_share_field_local e ty (as_bytes d) bytes))
       (preserve_share_data_format e d)"

definition interpolate_share_data_local :: "mpc_engine \<Rightarrow> share_type \<Rightarrow> share_data list \<Rightarrow> vm_error + val" where
  "interpolate_share_data_local e ty shares =
     rbind (ensure_ready e)
       (\<lambda>_. rbind (ensure_homogeneous_share_data_format ''interpolate_shares_local'' shares)
         (\<lambda>_. map_mpc_backend_err ''interpolate_shares_local''
                (interpolate_shares_local e ty (map as_bytes shares))))"

section \<open>Openings\<close>

definition open_share_data :: "mpc_engine \<Rightarrow> share_type \<Rightarrow> share_data \<Rightarrow> vm_error + clear_share_value" where
  "open_share_data e ty d =
     rbind (ensure_ready e) (\<lambda>_. map_mpc_backend_err ''open_share'' (engine_open_share e ty (as_bytes d)))"

definition open_share_value :: "mpc_engine \<Rightarrow> val \<Rightarrow> vm_error + val" where
  "open_share_value e v =
     (case v of
        Share ty d \<Rightarrow> map_ok (clear_share_value_to_vm_value ty) (open_share_data e ty d)
      | _ \<Rightarrow> Inl InvalidShareRevealValue)"

definition batch_open_share_data ::
  "mpc_engine \<Rightarrow> share_type \<Rightarrow> share_data list \<Rightarrow> vm_error + clear_share_value list" where
  "batch_open_share_data e ty shares =
     rbind (ensure_ready e)
       (\<lambda>_. rbind (ensure_homogeneous_share_data_format ''batch_open_shares'' shares)
         (\<lambda>_. map_mpc_backend_err ''batch_open_shares'' (engine_batch_open_shares e ty (map as_bytes shares))))"

definition open_share_as_field_data :: "mpc_engine \<Rightarrow> share_type \<Rightarrow> share_data \<Rightarrow> vm_error + byte list" where
  "open_share_as_field_data e ty d =
     rbind (ensure_ready e)
       (\<lambda>_. rbind (map_mpc_backend_err ''field_open_ops'' (field_open_ops e))
         (\<lambda>f. map_mpc_backend_err ''open_share_as_field'' (f ty (as_bytes d))))"

definition open_share_in_exp_data ::
  "mpc_engine \<Rightarrow> share_type \<Rightarrow> share_data \<Rightarrow> byte list \<Rightarrow> vm_error + byte list" where
  "open_share_in_exp_data e ty d gen =
     rbind (ensure_ready e)
       (\<lambda>_. rbind (map_mpc_backend_err ''open_in_exp_ops'' (engine_open_in_exp_ops e))
         (\<lambda>ops. map_mpc_backend_err ''open_share_in_exp'' (open_share_in_exp ops ty (as_bytes d) gen)))"

lemmas share_runtime_defs = ensure_ready_def ensure_matching_share_data_format_def input_share_def
  multiply_share_data_def add_data_def sub_data_def neg_data_def add_scalar_data_def sub_scalar_data_def
  scalar_sub_data_def div_scalar_data_def div_fixed_by_const_data_def mul_scalar_data_def
  open_share_data_def batch_open_share_data_def map_mpc_backend_err_def

section \<open>Properties\<close>

lemma check_formats_Inr:
  "check_formats operation expected offset shares = Inr () \<longleftrightarrow> (\<forall>s \<in> set shares. format s = expected)"
  by (induction shares arbitrary: offset) auto

lemma check_formats_Inl:
  "check_formats operation expected offset shares = Inl e \<longleftrightarrow>
     (\<exists>i < length shares. (\<forall>j < i. format (shares ! j) = expected) \<and> format (shares ! i) \<noteq> expected \<and>
        e = ShareDataBatchFormatMismatch operation expected (format (shares ! i)) (offset + i + 1))"
proof (induction shares arbitrary: offset)
  case (Cons s shares)
  show ?case
  proof (cases "format s = expected")
    case True
    then show ?thesis by (auto simp: Cons.IH Ex_less_Suc2 All_less_Suc2)
  next
    case False
    then show ?thesis by (auto simp: Ex_less_Suc2)
  qed
qed simp

lemma homogeneous_Inr:
  "ensure_homogeneous_share_data_format operation shares = Inr () \<longleftrightarrow>
     (\<forall>s \<in> set shares. format s = format (hd shares))"
  by (cases shares) (auto simp: check_formats_Inr)

lemma homogeneous_Inl:
  "ensure_homogeneous_share_data_format operation shares = Inl e \<longleftrightarrow>
     (\<exists>i < length shares. (\<forall>j < i. format (shares ! j) = format (hd shares)) \<and>
        format (shares ! i) \<noteq> format (hd shares) \<and>
        e = ShareDataBatchFormatMismatch operation (format (hd shares)) (format (shares ! i)) i)"
  by (cases shares) (auto simp: check_formats_Inl Ex_less_Suc2 All_less_Suc2)

text \<open>a batch opening reaches the engine exactly when the engine is ready and all payloads
  have the format of the first one; otherwise it reports that the engine is not ready, or the
  first payload whose format differs, at its position in the batch.\<close>

theorem batch_open_share_data_checks:
  "(\<not> is_ready e \<longrightarrow> batch_open_share_data e ty shares = Inl MpcEngineNotReady) \<and>
   (is_ready e \<longrightarrow> (\<forall>s \<in> set shares. format s = format (hd shares)) \<longrightarrow>
     batch_open_share_data e ty shares =
       map_err (MpcBackendOperationFailed ''batch_open_shares'')
         (engine_batch_open_shares e ty (map as_bytes shares))) \<and>
   (is_ready e \<longrightarrow> i < length shares \<longrightarrow>
     (\<forall>j < i. format (shares ! j) = format (hd shares)) \<longrightarrow>
     format (shares ! i) \<noteq> format (hd shares) \<longrightarrow>
     batch_open_share_data e ty shares =
       Inl (ShareDataBatchFormatMismatch ''batch_open_shares'' (format (hd shares)) (format (shares ! i)) i))"
proof (intro conjI impI)
  show "\<not> is_ready e \<Longrightarrow> batch_open_share_data e ty shares = Inl MpcEngineNotReady"
    by (simp add: batch_open_share_data_def ensure_ready_def)
  show "is_ready e \<Longrightarrow> \<forall>s \<in> set shares. format s = format (hd shares) \<Longrightarrow>
      batch_open_share_data e ty shares =
        map_err (MpcBackendOperationFailed ''batch_open_shares'')
          (engine_batch_open_shares e ty (map as_bytes shares))"
    using homogeneous_Inr [of "''batch_open_shares''" shares]
    by (simp add: batch_open_share_data_def ensure_ready_def map_mpc_backend_err_def)
  assume *: "is_ready e" "i < length shares" "\<forall>j < i. format (shares ! j) = format (hd shares)"
    "format (shares ! i) \<noteq> format (hd shares)"
  then have "ensure_homogeneous_share_data_format ''batch_open_shares'' shares =
      Inl (ShareDataBatchFormatMismatch ''batch_open_shares'' (format (hd shares)) (format (shares ! i)) i)"
    by (subst homogeneous_Inl) blast
  with * show "batch_open_share_data e ty shares =
      Inl (ShareDataBatchFormatMismatch ''batch_open_shares'' (format (hd shares)) (format (shares ! i)) i)"
    by (simp add: batch_open_share_data_def ensure_ready_def)
qed

text \<open>An engine whose shares are the clear bytes, for concrete instances.\<close>

definition open_bytes :: "share_type \<Rightarrow> byte list \<Rightarrow> string + clear_share_value" where
  "open_bytes ty bs = Inr (Integer (of_nat (le_value bs)))"

definition clear_engine :: mpc_engine where
  "clear_engine =
     \<lparr>is_ready = True,
      engine_input_share = (\<lambda>inp. case csi_value inp of
          Integer w \<Rightarrow> Inr (Opaque (le_bytes 8 (unat w)))
        | _ \<Rightarrow> Inl ''unsupported''),
      engine_open_share = open_bytes,
      engine_batch_open_shares = (\<lambda>ty bss. collect (map (open_bytes ty) bss)),
      engine_multiplication_ops = Inr
        \<lparr>multiply_share = (\<lambda>ty a b. Inr (Opaque (le_bytes 8 (unat ((of_nat (le_value a) :: u64) * of_nat (le_value b)))))),
         divide_fixed_by_constant = (\<lambda>ty a k. Inl ''unsupported'')\<rparr>,
      field_open_ops = Inl ''unsupported'',
      engine_open_in_exp_ops = Inl ''unsupported'',
      add_share_local = (\<lambda>ty a b. Inr (le_bytes 8 (unat ((of_nat (le_value a) :: u64) + of_nat (le_value b))))),
      sub_share_local = (\<lambda>ty a b. Inr (le_bytes 8 (unat ((of_nat (le_value a) :: u64) - of_nat (le_value b))))),
      neg_share_local = (\<lambda>ty a. Inr (le_bytes 8 (unat (- (of_nat (le_value a) :: u64))))),
      add_share_scalar_local = (\<lambda>ty a k. Inr (le_bytes 8 (unat (of_nat (le_value a) + k)))),
      sub_share_scalar_local = (\<lambda>ty a k. Inr (le_bytes 8 (unat (of_nat (le_value a) - k)))),
      scalar_sub_share_local = (\<lambda>ty k a. Inr (le_bytes 8 (unat (k - of_nat (le_value a))))),
      mul_share_scalar_local = (\<lambda>ty a k. Inr (le_bytes 8 (unat (of_nat (le_value a) * k)))),
      div_share_scalar_local = (\<lambda>ty a k. Inl ''unsupported''),
      mul_share_field_local = (\<lambda>ty a b. Inl ''unsupported''),
      add_share_field_local = (\<lambda>ty a b. Inl ''unsupported''),
      interpolate_shares_local = (\<lambda>ty bss. Inl ''unsupported''),
      feldman_from_bytes = (\<lambda>bs. Inr (Feldman bs []))\<rparr>"

theorem batch_open_share_data_checks_witness:
  "batch_open_share_data clear_engine (SecretInt 64) [Opaque [1], Opaque [2], Feldman [3] []] =
     Inl (ShareDataBatchFormatMismatch ''batch_open_shares'' OpaqueFormat FeldmanFormat 2)"
  using batch_open_share_data_checks [THEN conjunct2, THEN conjunct2, of clear_engine 2 "[Opaque [1], Opaque [2], Feldman [3] []]" "SecretInt 64"]
  by (simp add: clear_engine_def less_Suc_eq numeral_2_eq_2)

text \<open>The width at which an opened integer is read.\<close>

fun reveal_fits :: "share_type \<Rightarrow> int \<Rightarrow> bool" where
  "reveal_fits (SecretInt n) i = (n \<in> {8, 16, 32} \<longrightarrow> - (2 ^ (n - 1)) \<le> i \<and> i < 2 ^ (n - 1))"
| "reveal_fits (SecretUInt n) i = (n \<in> {8, 16, 32} \<longrightarrow> i < 2 ^ n)"
| "reveal_fits (SecretFixedPoint p) i = False"

lemma sint_ucast_down:
  fixes w :: "64 word"
  assumes "LENGTH('b::len) \<le> 64" "- (2 ^ (LENGTH('b) - 1)) \<le> sint w" "sint w < 2 ^ (LENGTH('b) - 1)"
  shows "sint (ucast w :: 'b word) = sint w"
proof -
  have "(ucast w :: 'b word) = word_of_int (sint w)"
    using assms(1) by (intro bit_word_eqI) (auto simp: bit_simps)
  moreover have "sint (word_of_int (sint w) :: 'b word) = sint w"
    by (rule sint_word_of_int_fits) (use assms in \<open>simp add: sint_fits_def\<close>)
  ultimately show ?thesis by simp
qed

lemma uint_ucast_down:
  fixes w :: "64 word"
  assumes "uint w < 2 ^ LENGTH('b::len)"
  shows "uint (ucast w :: 'b word) = uint w"
  using assms by (simp add: unsigned_ucast_eq take_bit_int_eq_self)

lemma uint_scast_nonneg:
  fixes v :: "'a::len word"
  assumes "LENGTH('a) \<le> 64" "0 \<le> sint v"
  shows "uint (scast v :: 64 word) = sint v"
proof -
  have "sint v < 2 ^ (LENGTH('a) - 1)" using sint_less [of v] by simp
  also have "(2::int) ^ (LENGTH('a) - 1) \<le> 2 ^ 64" using assms(1) by (intro power_increasing) auto
  finally have "sint v < 2 ^ 64" .
  then have "uint (word_of_int (sint v) :: 64 word) = sint v"
    using assms(2) by (intro uint_word_of_int_fits) (simp add: uint_fits_def)
  then show ?thesis by simp
qed

lemma uint_ucast_up:
  fixes v :: "'a::len word"
  assumes "LENGTH('a) \<le> 64"
  shows "uint (ucast v :: 64 word) = uint v"
proof -
  have "uint v < 2 ^ LENGTH('a)" by simp
  also have "(2::int) ^ LENGTH('a) \<le> 2 ^ 64" using assms by (intro power_increasing) auto
  finally show ?thesis by (simp add: unsigned_ucast_eq take_bit_int_eq_self)
qed

lemma uint_sint_nonneg: "0 \<le> sint (v :: 64 word) \<Longrightarrow> uint v = sint v"
  using uint_scast_nonneg [of v] by simp

lemma value_to_u64_Inr: "value_to_u64 v name = Inr w \<Longrightarrow> int_of_value v = Some (uint w)"
  by (cases v) (auto simp: value_to_u64_def uint_scast_nonneg uint_sint_nonneg uint_ucast_up
      split: if_splits)

lemma open_integer_value:
  "reveal_fits (SecretInt n) (sint w) \<Longrightarrow>
   int_of_value (clear_share_value_to_vm_value (SecretInt n) (Integer w)) = Some (sint w)"
  by (auto simp: clear_share_value_to_vm_value_def sint_ucast_down)

lemma open_unsigned_value:
  "reveal_fits (SecretUInt n) (uint w) \<Longrightarrow>
   int_of_value (clear_share_value_to_vm_value (SecretUInt n) (UnsignedInteger w)) = Some (uint w)"
  by (auto simp: clear_share_value_to_vm_value_def uint_ucast_down)

lemma canonical_integer:
  assumes "int_of_value v = Some i"
  shows "canonical_clear_share_value (SecretInt n) v = Inr cv \<Longrightarrow> \<exists>w. cv = Integer w \<and> sint w = i"
    and "canonical_clear_share_value (SecretUInt n) v = Inr cv \<Longrightarrow> \<exists>w. cv = UnsignedInteger w \<and> uint w = i"
proof -
  show "canonical_clear_share_value (SecretInt n) v = Inr cv \<Longrightarrow> \<exists>w. cv = Integer w \<and> sint w = i"
    using assms value_to_i64_Inr [of v "''clear integer''"]
    by (cases v) (auto simp: canonical_clear_share_value_def is_integer_value_def map_ok_Inr_iff)
  show "canonical_clear_share_value (SecretUInt n) v = Inr cv \<Longrightarrow> \<exists>w. cv = UnsignedInteger w \<and> uint w = i"
    using assms value_to_u64_Inr [of v "''clear unsigned integer''"]
    by (auto simp: canonical_clear_share_value_def map_ok_Inr_iff split: if_splits)
qed

text \<open>sharing a clear integer and reading the shared value back gives the same integer,
  whenever it fits the width at which the share type reads it; booleans and floats come back
  unchanged under the types inferred for them.\<close>

theorem clear_share_input_reads_back:
  "(clear_share_input v ty = Inr inp \<longrightarrow> int_of_value v = Some i \<longrightarrow>
     reveal_fits (csi_share_type inp) i \<longrightarrow>
     int_of_value (clear_share_value_to_vm_value (csi_share_type inp) (csi_value inp)) = Some i) \<and>
   (clear_share_input (Bool b) None = Inr inp \<longrightarrow>
     clear_share_value_to_vm_value (csi_share_type inp) (csi_value inp) = Bool b) \<and>
   (clear_share_input (Float f) None = Inr inp \<longrightarrow>
     clear_share_value_to_vm_value (csi_share_type inp) (csi_value inp) = Float f)"
proof (intro conjI impI)
  assume c: "clear_share_input v ty = Inr inp" and i: "int_of_value v = Some i"
    and fits: "reveal_fits (csi_share_type inp) i"
  have cv: "canonical_clear_share_value (csi_share_type inp) v = Inr (csi_value inp)"
    using c by (auto simp: clear_share_input_def rbind_Inr_iff)
  show "int_of_value (clear_share_value_to_vm_value (csi_share_type inp) (csi_value inp)) = Some i"
  proof (cases "csi_share_type inp")
    case (SecretInt n)
    with canonical_integer(1) [OF i] cv fits show ?thesis using open_integer_value by fastforce
  next
    case (SecretUInt n)
    with canonical_integer(2) [OF i] cv fits show ?thesis using open_unsigned_value by fastforce
  qed (use fits in simp)
next
  show "clear_share_input (Bool b) None = Inr inp \<Longrightarrow>
      clear_share_value_to_vm_value (csi_share_type inp) (csi_value inp) = Bool b"
    by (auto simp: clear_share_input_def infer_clear_share_type_def is_integer_value_def boolean_type_def
        canonical_clear_share_value_def clear_share_value_to_vm_value_def share_consts)
  show "clear_share_input (Float f) None = Inr inp \<Longrightarrow>
      clear_share_value_to_vm_value (csi_share_type inp) (csi_value inp) = Float f"
    by (auto simp: clear_share_input_def infer_clear_share_type_def is_integer_value_def
        default_secret_fixed_point_def canonical_clear_share_value_def clear_share_value_to_vm_value_def)
qed

theorem clear_share_input_reads_back_witness:
  "int_of_value (clear_share_value_to_vm_value (SecretInt 8) (Integer 100)) = Some 100"
proof -
  have "clear_share_input (U32 100) (Some (SecretInt 8)) =
      Inr \<lparr>csi_share_type = SecretInt 8, csi_value = Integer 100\<rparr>"
    by (simp add: clear_share_input_def canonical_clear_share_value_def is_integer_value_def value_to_i64_def)
  from clear_share_input_reads_back [THEN conjunct1, rule_format, OF this] show ?thesis by simp
qed

end
