(* ===== verification/Value_Ops.thy ===== *)
theory Value_Ops
  imports Share_Runtime
begin

text \<open>
  The operators of \<open>stoffel-vm/src/runtime_value_ops\<close>: arithmetic, bitwise operations, shifts and
  comparison on VM values. Each operator first tries the clear operands (a function that is
  \<open>None\<close> when the operands are not of a supported clear type), then shares of one type, then a
  share with a public scalar. Integer operations are checked at the width of their operands;
  comparison is across all numeric types.
\<close>

section \<open>Clear arithmetic\<close>

definition checked_integer_result :: "string \<Rightarrow> 'a option \<Rightarrow> value_op_error + 'a" where
  "checked_integer_result operation r = ok_or (IntegerOverflow operation) r"

definition checked_value :: "string \<Rightarrow> 'a option \<Rightarrow> ('a \<Rightarrow> val) \<Rightarrow> value_op_error + val" where
  "checked_value operation r wrap = map_ok wrap (checked_integer_result operation r)"

definition zero_division_error :: "string \<Rightarrow> value_op_error + 'a" where
  "zero_division_error operation = Inl (if operation = ''Modulo'' then ModuloByZero else DivisionByZero)"

definition ensure_nonzero_i64 :: "i64 \<Rightarrow> string \<Rightarrow> value_op_error + unit" where
  "ensure_nonzero_i64 v operation = (if v = 0 then zero_division_error operation else Inr ())"

definition ensure_nonzero_f64 :: "f64 \<Rightarrow> string \<Rightarrow> value_op_error + unit" where
  "ensure_nonzero_f64 v operation = (if f64_eq v 0 then zero_division_error operation else Inr ())"

text \<open>The two macros at signed and unsigned types. Rust's \<open>checked_rem\<close> fails where the
  quotient overflows, although the remainder there is zero.\<close>

definition s_checked_div :: "'a::len word \<Rightarrow> 'a word \<Rightarrow> value_op_error + 'a word" where
  "s_checked_div l r =
     (if r = 0 then Inl DivisionByZero else checked_integer_result ''DIV'' (s_checked trunc_div l r))"

definition u_checked_div :: "'a::len word \<Rightarrow> 'a word \<Rightarrow> value_op_error + 'a word" where
  "u_checked_div l r =
     (if r = 0 then Inl DivisionByZero else checked_integer_result ''DIV'' (u_checked (div) l r))"

definition s_checked_rem :: "'a::len word \<Rightarrow> 'a word \<Rightarrow> value_op_error + 'a word" where
  "s_checked_rem l r =
     (if r = 0 then Inl ModuloByZero
      else checked_integer_result ''MOD''
             (if s_checked trunc_div l r = None then None else s_checked trunc_rem l r))"

definition u_checked_rem :: "'a::len word \<Rightarrow> 'a word \<Rightarrow> value_op_error + 'a word" where
  "u_checked_rem l r =
     (if r = 0 then Inl ModuloByZero else checked_integer_result ''MOD'' (u_checked (mod) l r))"

definition try_clear_add :: "val \<Rightarrow> val \<Rightarrow> (value_op_error + val) option" where
  "try_clear_add l r =
     (case l of
        I64 a \<Rightarrow> (case r of I64 b \<Rightarrow> Some (checked_value ''ADD'' (s_checked (+) a b) I64)
                 | Float b \<Rightarrow> Some (Inr (Float (f64_add (f64_of_int (sint a)) b))) | _ \<Rightarrow> None)
      | I32 a \<Rightarrow> (case r of I32 b \<Rightarrow> Some (checked_value ''ADD'' (s_checked (+) a b) I32) | _ \<Rightarrow> None)
      | I16 a \<Rightarrow> (case r of I16 b \<Rightarrow> Some (checked_value ''ADD'' (s_checked (+) a b) I16) | _ \<Rightarrow> None)
      | I8 a \<Rightarrow> (case r of I8 b \<Rightarrow> Some (checked_value ''ADD'' (s_checked (+) a b) I8) | _ \<Rightarrow> None)
      | U8 a \<Rightarrow> (case r of U8 b \<Rightarrow> Some (checked_value ''ADD'' (u_checked (+) a b) U8) | _ \<Rightarrow> None)
      | U16 a \<Rightarrow> (case r of U16 b \<Rightarrow> Some (checked_value ''ADD'' (u_checked (+) a b) U16) | _ \<Rightarrow> None)
      | U32 a \<Rightarrow> (case r of U32 b \<Rightarrow> Some (checked_value ''ADD'' (u_checked (+) a b) U32) | _ \<Rightarrow> None)
      | U64 a \<Rightarrow> (case r of U64 b \<Rightarrow> Some (checked_value ''ADD'' (u_checked (+) a b) U64) | _ \<Rightarrow> None)
      | Float a \<Rightarrow> (case r of I64 b \<Rightarrow> Some (Inr (Float (f64_add a (f64_of_int (sint b)))))
                 | Float b \<Rightarrow> Some (Inr (Float (f64_add a b))) | _ \<Rightarrow> None)
      | String a \<Rightarrow> (case r of String b \<Rightarrow> Some (Inr (String (a @ b))) | _ \<Rightarrow> None)
      | _ \<Rightarrow> None)"

definition try_clear_sub :: "val \<Rightarrow> val \<Rightarrow> (value_op_error + val) option" where
  "try_clear_sub l r =
     (case l of
        I64 a \<Rightarrow> (case r of I64 b \<Rightarrow> Some (checked_value ''SUB'' (s_checked (-) a b) I64)
                 | Float b \<Rightarrow> Some (Inr (Float (f64_sub (f64_of_int (sint a)) b))) | _ \<Rightarrow> None)
      | I32 a \<Rightarrow> (case r of I32 b \<Rightarrow> Some (checked_value ''SUB'' (s_checked (-) a b) I32) | _ \<Rightarrow> None)
      | I16 a \<Rightarrow> (case r of I16 b \<Rightarrow> Some (checked_value ''SUB'' (s_checked (-) a b) I16) | _ \<Rightarrow> None)
      | I8 a \<Rightarrow> (case r of I8 b \<Rightarrow> Some (checked_value ''SUB'' (s_checked (-) a b) I8) | _ \<Rightarrow> None)
      | U8 a \<Rightarrow> (case r of U8 b \<Rightarrow> Some (checked_value ''SUB'' (u_checked (-) a b) U8) | _ \<Rightarrow> None)
      | U16 a \<Rightarrow> (case r of U16 b \<Rightarrow> Some (checked_value ''SUB'' (u_checked (-) a b) U16) | _ \<Rightarrow> None)
      | U32 a \<Rightarrow> (case r of U32 b \<Rightarrow> Some (checked_value ''SUB'' (u_checked (-) a b) U32) | _ \<Rightarrow> None)
      | U64 a \<Rightarrow> (case r of U64 b \<Rightarrow> Some (checked_value ''SUB'' (u_checked (-) a b) U64) | _ \<Rightarrow> None)
      | Float a \<Rightarrow> (case r of I64 b \<Rightarrow> Some (Inr (Float (f64_sub a (f64_of_int (sint b)))))
                 | Float b \<Rightarrow> Some (Inr (Float (f64_sub a b))) | _ \<Rightarrow> None)
      | _ \<Rightarrow> None)"

definition try_clear_mul :: "val \<Rightarrow> val \<Rightarrow> (value_op_error + val) option" where
  "try_clear_mul l r =
     (case l of
        I64 a \<Rightarrow> (case r of I64 b \<Rightarrow> Some (checked_value ''MUL'' (s_checked (*) a b) I64)
                 | Float b \<Rightarrow> Some (Inr (Float (f64_mul (f64_of_int (sint a)) b))) | _ \<Rightarrow> None)
      | I32 a \<Rightarrow> (case r of I32 b \<Rightarrow> Some (checked_value ''MUL'' (s_checked (*) a b) I32) | _ \<Rightarrow> None)
      | I16 a \<Rightarrow> (case r of I16 b \<Rightarrow> Some (checked_value ''MUL'' (s_checked (*) a b) I16) | _ \<Rightarrow> None)
      | I8 a \<Rightarrow> (case r of I8 b \<Rightarrow> Some (checked_value ''MUL'' (s_checked (*) a b) I8) | _ \<Rightarrow> None)
      | U8 a \<Rightarrow> (case r of U8 b \<Rightarrow> Some (checked_value ''MUL'' (u_checked (*) a b) U8) | _ \<Rightarrow> None)
      | U16 a \<Rightarrow> (case r of U16 b \<Rightarrow> Some (checked_value ''MUL'' (u_checked (*) a b) U16) | _ \<Rightarrow> None)
      | U32 a \<Rightarrow> (case r of U32 b \<Rightarrow> Some (checked_value ''MUL'' (u_checked (*) a b) U32) | _ \<Rightarrow> None)
      | U64 a \<Rightarrow> (case r of U64 b \<Rightarrow> Some (checked_value ''MUL'' (u_checked (*) a b) U64) | _ \<Rightarrow> None)
      | Float a \<Rightarrow> (case r of I64 b \<Rightarrow> Some (Inr (Float (f64_mul a (f64_of_int (sint b)))))
                 | Float b \<Rightarrow> Some (Inr (Float (f64_mul a b))) | _ \<Rightarrow> None)
      | _ \<Rightarrow> None)"

definition try_clear_div :: "val \<Rightarrow> val \<Rightarrow> (value_op_error + val) option" where
  "try_clear_div l r =
     (case l of
        I64 a \<Rightarrow> (case r of I64 b \<Rightarrow> Some (map_ok I64 (s_checked_div a b))
                 | Float b \<Rightarrow> Some (map_ok (\<lambda>_. Float (f64_div (f64_of_int (sint a)) b)) (ensure_nonzero_f64 b ''Division'')) | _ \<Rightarrow> None)
      | I32 a \<Rightarrow> (case r of I32 b \<Rightarrow> Some (map_ok I32 (s_checked_div a b)) | _ \<Rightarrow> None)
      | I16 a \<Rightarrow> (case r of I16 b \<Rightarrow> Some (map_ok I16 (s_checked_div a b)) | _ \<Rightarrow> None)
      | I8 a \<Rightarrow> (case r of I8 b \<Rightarrow> Some (map_ok I8 (s_checked_div a b)) | _ \<Rightarrow> None)
      | U8 a \<Rightarrow> (case r of U8 b \<Rightarrow> Some (map_ok U8 (u_checked_div a b)) | _ \<Rightarrow> None)
      | U16 a \<Rightarrow> (case r of U16 b \<Rightarrow> Some (map_ok U16 (u_checked_div a b)) | _ \<Rightarrow> None)
      | U32 a \<Rightarrow> (case r of U32 b \<Rightarrow> Some (map_ok U32 (u_checked_div a b)) | _ \<Rightarrow> None)
      | U64 a \<Rightarrow> (case r of U64 b \<Rightarrow> Some (map_ok U64 (u_checked_div a b)) | _ \<Rightarrow> None)
      | Float a \<Rightarrow> (case r of I64 b \<Rightarrow> Some (map_ok (\<lambda>_. Float (f64_div a (f64_of_int (sint b)))) (ensure_nonzero_i64 b ''Division''))
                 | Float b \<Rightarrow> Some (map_ok (\<lambda>_. Float (f64_div a b)) (ensure_nonzero_f64 b ''Division'')) | _ \<Rightarrow> None)
      | _ \<Rightarrow> None)"

definition try_clear_modulo :: "val \<Rightarrow> val \<Rightarrow> (value_op_error + val) option" where
  "try_clear_modulo l r =
     (case l of
        I64 a \<Rightarrow> (case r of I64 b \<Rightarrow> Some (map_ok I64 (s_checked_rem a b))
                 | Float b \<Rightarrow> Some (map_ok (\<lambda>_. Float (f64_rem (f64_of_int (sint a)) b)) (ensure_nonzero_f64 b ''Modulo'')) | _ \<Rightarrow> None)
      | I32 a \<Rightarrow> (case r of I32 b \<Rightarrow> Some (map_ok I32 (s_checked_rem a b)) | _ \<Rightarrow> None)
      | I16 a \<Rightarrow> (case r of I16 b \<Rightarrow> Some (map_ok I16 (s_checked_rem a b)) | _ \<Rightarrow> None)
      | I8 a \<Rightarrow> (case r of I8 b \<Rightarrow> Some (map_ok I8 (s_checked_rem a b)) | _ \<Rightarrow> None)
      | U8 a \<Rightarrow> (case r of U8 b \<Rightarrow> Some (map_ok U8 (u_checked_rem a b)) | _ \<Rightarrow> None)
      | U16 a \<Rightarrow> (case r of U16 b \<Rightarrow> Some (map_ok U16 (u_checked_rem a b)) | _ \<Rightarrow> None)
      | U32 a \<Rightarrow> (case r of U32 b \<Rightarrow> Some (map_ok U32 (u_checked_rem a b)) | _ \<Rightarrow> None)
      | U64 a \<Rightarrow> (case r of U64 b \<Rightarrow> Some (map_ok U64 (u_checked_rem a b)) | _ \<Rightarrow> None)
      | Float a \<Rightarrow> (case r of I64 b \<Rightarrow> Some (map_ok (\<lambda>_. Float (f64_rem a (f64_of_int (sint b)))) (ensure_nonzero_i64 b ''Modulo''))
                 | Float b \<Rightarrow> Some (map_ok (\<lambda>_. Float (f64_rem a b)) (ensure_nonzero_f64 b ''Modulo'')) | _ \<Rightarrow> None)
      | _ \<Rightarrow> None)"

section \<open>Clear bitwise operations and shifts\<close>

definition try_clear_bit_and :: "val \<Rightarrow> val \<Rightarrow> (value_op_error + val) option" where
  "try_clear_bit_and l r =
     (case l of
        Bool a \<Rightarrow> (case r of Bool b \<Rightarrow> Some (Inr (Bool (a \<and> b))) | _ \<Rightarrow> None)
      | I64 a \<Rightarrow> (case r of I64 b \<Rightarrow> Some (Inr (I64 (a AND b))) | _ \<Rightarrow> None)
      | I32 a \<Rightarrow> (case r of I32 b \<Rightarrow> Some (Inr (I32 (a AND b))) | _ \<Rightarrow> None)
      | I16 a \<Rightarrow> (case r of I16 b \<Rightarrow> Some (Inr (I16 (a AND b))) | _ \<Rightarrow> None)
      | I8 a \<Rightarrow> (case r of I8 b \<Rightarrow> Some (Inr (I8 (a AND b))) | _ \<Rightarrow> None)
      | U8 a \<Rightarrow> (case r of U8 b \<Rightarrow> Some (Inr (U8 (a AND b))) | _ \<Rightarrow> None)
      | U16 a \<Rightarrow> (case r of U16 b \<Rightarrow> Some (Inr (U16 (a AND b))) | _ \<Rightarrow> None)
      | U32 a \<Rightarrow> (case r of U32 b \<Rightarrow> Some (Inr (U32 (a AND b))) | _ \<Rightarrow> None)
      | U64 a \<Rightarrow> (case r of U64 b \<Rightarrow> Some (Inr (U64 (a AND b))) | _ \<Rightarrow> None)
      | _ \<Rightarrow> None)"

definition try_clear_bit_or :: "val \<Rightarrow> val \<Rightarrow> (value_op_error + val) option" where
  "try_clear_bit_or l r =
     (case l of
        Bool a \<Rightarrow> (case r of Bool b \<Rightarrow> Some (Inr (Bool (a \<or> b))) | _ \<Rightarrow> None)
      | I64 a \<Rightarrow> (case r of I64 b \<Rightarrow> Some (Inr (I64 (a OR b))) | _ \<Rightarrow> None)
      | I32 a \<Rightarrow> (case r of I32 b \<Rightarrow> Some (Inr (I32 (a OR b))) | _ \<Rightarrow> None)
      | I16 a \<Rightarrow> (case r of I16 b \<Rightarrow> Some (Inr (I16 (a OR b))) | _ \<Rightarrow> None)
      | I8 a \<Rightarrow> (case r of I8 b \<Rightarrow> Some (Inr (I8 (a OR b))) | _ \<Rightarrow> None)
      | U8 a \<Rightarrow> (case r of U8 b \<Rightarrow> Some (Inr (U8 (a OR b))) | _ \<Rightarrow> None)
      | U16 a \<Rightarrow> (case r of U16 b \<Rightarrow> Some (Inr (U16 (a OR b))) | _ \<Rightarrow> None)
      | U32 a \<Rightarrow> (case r of U32 b \<Rightarrow> Some (Inr (U32 (a OR b))) | _ \<Rightarrow> None)
      | U64 a \<Rightarrow> (case r of U64 b \<Rightarrow> Some (Inr (U64 (a OR b))) | _ \<Rightarrow> None)
      | _ \<Rightarrow> None)"

definition try_clear_bit_xor :: "val \<Rightarrow> val \<Rightarrow> (value_op_error + val) option" where
  "try_clear_bit_xor l r =
     (case l of
        Bool a \<Rightarrow> (case r of Bool b \<Rightarrow> Some (Inr (Bool (a \<noteq> b))) | _ \<Rightarrow> None)
      | I64 a \<Rightarrow> (case r of I64 b \<Rightarrow> Some (Inr (I64 (a XOR b))) | _ \<Rightarrow> None)
      | I32 a \<Rightarrow> (case r of I32 b \<Rightarrow> Some (Inr (I32 (a XOR b))) | _ \<Rightarrow> None)
      | I16 a \<Rightarrow> (case r of I16 b \<Rightarrow> Some (Inr (I16 (a XOR b))) | _ \<Rightarrow> None)
      | I8 a \<Rightarrow> (case r of I8 b \<Rightarrow> Some (Inr (I8 (a XOR b))) | _ \<Rightarrow> None)
      | U8 a \<Rightarrow> (case r of U8 b \<Rightarrow> Some (Inr (U8 (a XOR b))) | _ \<Rightarrow> None)
      | U16 a \<Rightarrow> (case r of U16 b \<Rightarrow> Some (Inr (U16 (a XOR b))) | _ \<Rightarrow> None)
      | U32 a \<Rightarrow> (case r of U32 b \<Rightarrow> Some (Inr (U32 (a XOR b))) | _ \<Rightarrow> None)
      | U64 a \<Rightarrow> (case r of U64 b \<Rightarrow> Some (Inr (U64 (a XOR b))) | _ \<Rightarrow> None)
      | _ \<Rightarrow> None)"

definition try_clear_bit_not :: "val \<Rightarrow> (value_op_error + val) option" where
  "try_clear_bit_not v =
     (case v of
        I64 a \<Rightarrow> Some (Inr (I64 (NOT a)))
      | I32 a \<Rightarrow> Some (Inr (I32 (NOT a)))
      | I16 a \<Rightarrow> Some (Inr (I16 (NOT a)))
      | I8 a \<Rightarrow> Some (Inr (I8 (NOT a)))
      | U8 a \<Rightarrow> Some (Inr (U8 (NOT a)))
      | U16 a \<Rightarrow> Some (Inr (U16 (NOT a)))
      | U32 a \<Rightarrow> Some (Inr (U32 (NOT a)))
      | U64 a \<Rightarrow> Some (Inr (U64 (NOT a)))
      | Bool b \<Rightarrow> Some (Inr (Bool (\<not> b)))
      | _ \<Rightarrow> None)"

definition checked_shl :: "'a::len word \<Rightarrow> u32 \<Rightarrow> 'a word option" where
  "checked_shl v n = (if unat n < LENGTH('a) then Some (push_bit (unat n) v) else None)"

definition u_checked_shr :: "'a::len word \<Rightarrow> u32 \<Rightarrow> 'a word option" where
  "u_checked_shr v n = (if unat n < LENGTH('a) then Some (drop_bit (unat n) v) else None)"

definition s_checked_shr :: "'a::len word \<Rightarrow> u32 \<Rightarrow> 'a word option" where
  "s_checked_shr v n = (if unat n < LENGTH('a) then Some (signed_drop_bit (unat n) v) else None)"

definition checked_shift_amount :: "string \<Rightarrow> i64 \<Rightarrow> value_op_error + u32" where
  "checked_shift_amount operation amount =
     (if 0 \<le> sint amount \<and> sint amount < 2 ^ 32 then Inr (ucast amount)
      else Inl (InvalidShiftAmount operation amount))"

definition checked_shift ::
  "string \<Rightarrow> 'a \<Rightarrow> i64 \<Rightarrow> ('a \<Rightarrow> u32 \<Rightarrow> 'a option) \<Rightarrow> value_op_error + 'a" where
  "checked_shift operation v amount shift =
     rbind (checked_shift_amount operation amount) (\<lambda>n. ok_or (ShiftOutOfRange operation n) (shift v n))"

definition try_clear_shl :: "val \<Rightarrow> val \<Rightarrow> (value_op_error + val) option" where
  "try_clear_shl l r =
     (case l of
        I64 a \<Rightarrow> (case r of I64 b \<Rightarrow> Some (map_ok I64 (checked_shift ''SHL'' a b checked_shl)) | _ \<Rightarrow> None)
      | I32 a \<Rightarrow> (case r of I32 b \<Rightarrow> Some (map_ok I32 (checked_shift ''SHL'' a (scast b) checked_shl)) | _ \<Rightarrow> None)
      | I16 a \<Rightarrow> (case r of I16 b \<Rightarrow> Some (map_ok I16 (checked_shift ''SHL'' a (scast b) checked_shl)) | _ \<Rightarrow> None)
      | I8 a \<Rightarrow> (case r of I8 b \<Rightarrow> Some (map_ok I8 (checked_shift ''SHL'' a (scast b) checked_shl)) | _ \<Rightarrow> None)
      | U8 a \<Rightarrow> (case r of U8 b \<Rightarrow> Some (map_ok U8 (checked_shift ''SHL'' a (ucast b) checked_shl)) | _ \<Rightarrow> None)
      | U16 a \<Rightarrow> (case r of U16 b \<Rightarrow> Some (map_ok U16 (checked_shift ''SHL'' a (ucast b) checked_shl)) | _ \<Rightarrow> None)
      | U32 a \<Rightarrow> (case r of U32 b \<Rightarrow> Some (map_ok U32 (checked_shift ''SHL'' a (ucast b) checked_shl)) | _ \<Rightarrow> None)
      | U64 a \<Rightarrow> (case r of U64 b \<Rightarrow>
            Some (if uint b < 2 ^ 63 then map_ok U64 (checked_shift ''SHL'' a b checked_shl)
                  else Inl (ShiftOutOfRange ''SHL'' (- 1))) | _ \<Rightarrow> None)
      | _ \<Rightarrow> None)"

definition try_clear_shr :: "val \<Rightarrow> val \<Rightarrow> (value_op_error + val) option" where
  "try_clear_shr l r =
     (case l of
        I64 a \<Rightarrow> (case r of I64 b \<Rightarrow> Some (map_ok I64 (checked_shift ''SHR'' a b s_checked_shr)) | _ \<Rightarrow> None)
      | I32 a \<Rightarrow> (case r of I32 b \<Rightarrow> Some (map_ok I32 (checked_shift ''SHR'' a (scast b) s_checked_shr)) | _ \<Rightarrow> None)
      | I16 a \<Rightarrow> (case r of I16 b \<Rightarrow> Some (map_ok I16 (checked_shift ''SHR'' a (scast b) s_checked_shr)) | _ \<Rightarrow> None)
      | I8 a \<Rightarrow> (case r of I8 b \<Rightarrow> Some (map_ok I8 (checked_shift ''SHR'' a (scast b) s_checked_shr)) | _ \<Rightarrow> None)
      | U8 a \<Rightarrow> (case r of U8 b \<Rightarrow> Some (map_ok U8 (checked_shift ''SHR'' a (ucast b) u_checked_shr)) | _ \<Rightarrow> None)
      | U16 a \<Rightarrow> (case r of U16 b \<Rightarrow> Some (map_ok U16 (checked_shift ''SHR'' a (ucast b) u_checked_shr)) | _ \<Rightarrow> None)
      | U32 a \<Rightarrow> (case r of U32 b \<Rightarrow> Some (map_ok U32 (checked_shift ''SHR'' a (ucast b) u_checked_shr)) | _ \<Rightarrow> None)
      | U64 a \<Rightarrow> (case r of U64 b \<Rightarrow>
            Some (if uint b < 2 ^ 63 then map_ok U64 (checked_shift ''SHR'' a b u_checked_shr)
                  else Inl (ShiftOutOfRange ''SHR'' (- 1))) | _ \<Rightarrow> None)
      | _ \<Rightarrow> None)"

section \<open>Comparison\<close>

datatype numeric_value = NSigned int | NUnsigned int | NFloat f64

definition numeric_value :: "val \<Rightarrow> numeric_value option" where
  "numeric_value v =
     (case v of
        I64 w \<Rightarrow> Some (NSigned (sint w)) | I32 w \<Rightarrow> Some (NSigned (sint w))
      | I16 w \<Rightarrow> Some (NSigned (sint w)) | I8 w \<Rightarrow> Some (NSigned (sint w))
      | U64 w \<Rightarrow> Some (NUnsigned (uint w)) | U32 w \<Rightarrow> Some (NUnsigned (uint w))
      | U16 w \<Rightarrow> Some (NUnsigned (uint w)) | U8 w \<Rightarrow> Some (NUnsigned (uint w))
      | Float f \<Rightarrow> Some (NFloat f) | _ \<Rightarrow> None)"

definition compare_i128_u128 :: "int \<Rightarrow> int \<Rightarrow> ordering" where
  "compare_i128_u128 l r = (if l < 0 then Less else cmp l r)"

text \<open>\<open>u128::checked_shl\<close> only refuses a shift of 128 or more; bits shifted out are lost.\<close>

definition compare_u128_positive_f64 :: "int \<Rightarrow> f64 \<Rightarrow> ordering option" where
  "compare_u128_positive_f64 l x =
     (let exponent_bits = f64_exponent x; fraction = f64_fraction x
      in if exponent_bits = 0 \<and> fraction = 0 then Some (cmp l 0)
         else let mantissa = (if exponent_bits = 0 then fraction else 2 ^ 52 + fraction);
                  exponent = (if exponent_bits = 0 then 1 - 1023 - 52 else int exponent_bits - 1023 - 52)
              in if 0 \<le> exponent
                 then let shift = nat exponent
                      in if 128 \<le> shift then Some Less
                         else Some (cmp l (int (mantissa * 2 ^ shift mod 2 ^ 128)))
                 else let shift = nat (- exponent);
                          floor = (if 64 \<le> shift then 0 else int (mantissa div 2 ^ shift));
                          has_fraction = (if 64 \<le> shift then mantissa \<noteq> 0 else mantissa mod 2 ^ shift \<noteq> 0)
                      in case cmp l floor of
                           Equal \<Rightarrow> Some (if has_fraction then Less else Equal)
                         | ord \<Rightarrow> Some ord)"

definition compare_u128_f64 :: "int \<Rightarrow> f64 \<Rightarrow> ordering option" where
  "compare_u128_f64 l x =
     (if is_nan x then None
      else if is_infinite x then Some (if f64_sign x then Greater else Less)
      else if f64_lt x 0 then Some Greater
      else compare_u128_positive_f64 l x)"

definition compare_i128_f64 :: "int \<Rightarrow> f64 \<Rightarrow> ordering option" where
  "compare_i128_f64 l x =
     (if is_nan x then None
      else if is_infinite x then Some (if f64_sign x then Greater else Less)
      else if 0 \<le> l then compare_u128_f64 l x
      else if f64_ge x 0 then Some Less
      else map_option reverse (compare_u128_positive_f64 \<bar>l\<bar> (f64_neg x)))"

fun compare_numeric :: "numeric_value \<Rightarrow> numeric_value \<Rightarrow> ordering option" where
  "compare_numeric (NSigned a) (NSigned b) = Some (cmp a b)"
| "compare_numeric (NUnsigned a) (NUnsigned b) = Some (cmp a b)"
| "compare_numeric (NSigned a) (NUnsigned b) = Some (compare_i128_u128 a b)"
| "compare_numeric (NUnsigned a) (NSigned b) = Some (reverse (compare_i128_u128 b a))"
| "compare_numeric (NFloat a) (NFloat b) = f64_partial_cmp a b"
| "compare_numeric (NSigned a) (NFloat b) = compare_i128_f64 a b"
| "compare_numeric (NFloat a) (NSigned b) = map_option reverse (compare_i128_f64 b a)"
| "compare_numeric (NUnsigned a) (NFloat b) = compare_u128_f64 a b"
| "compare_numeric (NFloat a) (NUnsigned b) = map_option reverse (compare_u128_f64 b a)"

fun compare_strings :: "string \<Rightarrow> string \<Rightarrow> ordering" where
  "compare_strings [] [] = Equal"
| "compare_strings [] (_ # _) = Less"
| "compare_strings (_ # _) [] = Greater"
| "compare_strings (a # as) (b # bs) =
     (case cmp (of_char a :: nat) (of_char b) of Equal \<Rightarrow> compare_strings as bs | ord \<Rightarrow> ord)"

definition try_clear_compare :: "val \<Rightarrow> val \<Rightarrow> ordering option" where
  "try_clear_compare l r =
     (case (numeric_value l, numeric_value r) of
        (Some a, Some b) \<Rightarrow> compare_numeric a b
      | _ \<Rightarrow>
          (case l of
             String a \<Rightarrow> (case r of String b \<Rightarrow> Some (compare_strings a b) | _ \<Rightarrow> None)
           | Bool a \<Rightarrow> (case r of Bool b \<Rightarrow> Some (cmp (of_bool a :: nat) (of_bool b)) | _ \<Rightarrow> None)
           | _ \<Rightarrow> None))"

fun is_share :: "val \<Rightarrow> bool" where
  "is_share (Share _ _) = True"
| "is_share _ = False"

definition compare :: "val \<Rightarrow> val \<Rightarrow> value_op_error + ordering" where
  "compare l r =
     (case try_clear_compare l r of
        Some ord \<Rightarrow> Inr ord
      | None \<Rightarrow>
          if is_share l \<or> is_share r
          then Inl (Unsupported ''CMP on secret shares is not supported without an MPC comparison protocol'')
          else Inl (CannotCompare l r))"

section \<open>Share operands\<close>

fun share_operand :: "val \<Rightarrow> (share_type \<times> share_data) option" where
  "share_operand (Share ty d) = Some (ty, d)"
| "share_operand _ = None"

definition ensure_same_share_type :: "string \<Rightarrow> share_type \<Rightarrow> share_type \<Rightarrow> value_op_error + unit" where
  "ensure_same_share_type operation l r = (if l = r then Inr () else Inl (ShareTypeMismatch operation))"

definition matching_share_pair ::
  "string \<Rightarrow> val \<Rightarrow> val \<Rightarrow> value_op_error + (share_type \<times> share_data \<times> share_data) option" where
  "matching_share_pair operation l r =
     (case (share_operand l, share_operand r) of
        (Some (lt, ld), Some (rt, rd)) \<Rightarrow>
          rbind (ensure_same_share_type operation lt rt) (\<lambda>_. Inr (Some (lt, ld, rd)))
      | _ \<Rightarrow> Inr None)"

definition integer_scalar :: "val \<Rightarrow> value_op_error + i64 option" where
  "integer_scalar v =
     (if is_integer_value v then map_ok Some (map_err ValueConversion (value_to_i64 v ''share scalar''))
      else Inr None)"

definition share_scalar_operands ::
  "val \<Rightarrow> val \<Rightarrow> value_op_error + (share_type \<times> share_data \<times> i64) option" where
  "share_scalar_operands share scalar =
     (case share_operand share of
        None \<Rightarrow> Inr None
      | Some (ty, d) \<Rightarrow> map_ok (map_option (\<lambda>k. (ty, d, k))) (integer_scalar scalar))"

definition contains_share_operand :: "val \<Rightarrow> val \<Rightarrow> bool" where
  "contains_share_operand l r = (share_operand l \<noteq> None \<or> share_operand r \<noteq> None)"

text \<open>The provider of the share runtime is called once per use and may fail itself.\<close>

type_synonym provider = "value_op_error + mpc_engine"

definition with_runtime :: "provider \<Rightarrow> (mpc_engine \<Rightarrow> vm_error + 'a) \<Rightarrow> value_op_error + 'a" where
  "with_runtime p f = rbind p (\<lambda>e. map_err Runtime (f e))"

definition scale_to_fixed :: "f64 \<Rightarrow> usize \<Rightarrow> i64 option" where
  "scale_to_fixed v frac =
     (if 2 ^ 31 \<le> frac then None
      else let scaled = f64_round (f64_mul v (f64_pow2 frac))
           in if \<not> is_finite scaled \<or> f64_lt scaled (f64_of_int (- (2 ^ 63))) \<or>
                 f64_ge scaled (f64_of_int (2 ^ 63))
              then None else Some (f64_to_i64 scaled))"

definition divisor_as_f64 :: "val \<Rightarrow> f64 option" where
  "divisor_as_f64 v = (case v of Float f \<Rightarrow> Some f | _ \<Rightarrow> map_option f64_of_int (int_of_value v))"

definition fixed_point_divisor_scaled :: "share_type \<Rightarrow> val \<Rightarrow> i64 option" where
  "fixed_point_divisor_scaled ty divisor =
     (case ty of
        SecretFixedPoint p \<Rightarrow>
          Option.bind (divisor_as_f64 divisor) (\<lambda>d. scale_to_fixed d (fractional_bits p))
      | _ \<Rightarrow> None)"

definition mul_share_by_fixed_scalar :: "val \<Rightarrow> val \<Rightarrow> provider \<Rightarrow> value_op_error + val option" where
  "mul_share_by_fixed_scalar share scalar rt =
     (case share of
        Share ty d \<Rightarrow>
          (case scalar of
             Float k \<Rightarrow>
               (case ty of
                  SecretFixedPoint p \<Rightarrow>
                    rbind (with_runtime rt (\<lambda>e. input_share e \<lparr>csi_share_type = ty, csi_value = FixedPoint k\<rparr>))
                      (\<lambda>ks. rbind (with_runtime rt (\<lambda>e. multiply_share_data e ty d ks))
                        (\<lambda>r. Inr (Some (Share ty r))))
                | _ \<Rightarrow>
                    (case scale_to_fixed k DEFAULT_FIXED_POINT_FRACTIONAL_BITS of
                       None \<Rightarrow> Inr None
                     | Some scaled \<Rightarrow>
                         rbind (with_runtime rt (\<lambda>e. mul_scalar_data e ty d scaled))
                           (\<lambda>r. Inr (Some (Share default_secret_fixed_point r)))))
           | _ \<Rightarrow> Inr None)
      | _ \<Rightarrow> Inr None)"

section \<open>Operators\<close>

definition add :: "val \<Rightarrow> val \<Rightarrow> provider \<Rightarrow> value_op_error + val" where
  "add l r rt =
     (case try_clear_add l r of
        Some res \<Rightarrow> res
      | None \<Rightarrow>
          rbind (matching_share_pair ''ADD'' l r) (\<lambda>pair. case pair of
            Some (ty, ld, rd) \<Rightarrow> map_ok (Share ty) (with_runtime rt (\<lambda>e. add_data e ty ld rd))
          | None \<Rightarrow>
              rbind (share_scalar_operands l r) (\<lambda>ops. case ops of
                Some (ty, d, k) \<Rightarrow> map_ok (Share ty) (with_runtime rt (\<lambda>e. add_scalar_data e ty d k))
              | None \<Rightarrow>
                  rbind (share_scalar_operands r l) (\<lambda>ops'. case ops' of
                    Some (ty, d, k) \<Rightarrow> map_ok (Share ty) (with_runtime rt (\<lambda>e. add_scalar_data e ty d k))
                  | None \<Rightarrow> Inl (TypeError ''ADD'')))))"

definition sub :: "val \<Rightarrow> val \<Rightarrow> provider \<Rightarrow> value_op_error + val" where
  "sub l r rt =
     (case try_clear_sub l r of
        Some res \<Rightarrow> res
      | None \<Rightarrow>
          rbind (matching_share_pair ''SUB'' l r) (\<lambda>pair. case pair of
            Some (ty, ld, rd) \<Rightarrow> map_ok (Share ty) (with_runtime rt (\<lambda>e. sub_data e ty ld rd))
          | None \<Rightarrow>
              rbind (share_scalar_operands l r) (\<lambda>ops. case ops of
                Some (ty, d, k) \<Rightarrow> map_ok (Share ty) (with_runtime rt (\<lambda>e. sub_scalar_data e ty d k))
              | None \<Rightarrow>
                  rbind (share_scalar_operands r l) (\<lambda>ops'. case ops' of
                    Some (ty, d, k) \<Rightarrow> map_ok (Share ty) (with_runtime rt (\<lambda>e. scalar_sub_data e ty k d))
                  | None \<Rightarrow> Inl (TypeError ''SUB'')))))"

definition mul :: "val \<Rightarrow> val \<Rightarrow> provider \<Rightarrow> value_op_error + val" where
  "mul l r rt =
     (case try_clear_mul l r of
        Some res \<Rightarrow> res
      | None \<Rightarrow>
          rbind (matching_share_pair ''MUL'' l r) (\<lambda>pair. case pair of
            Some (ty, ld, rd) \<Rightarrow> map_ok (Share ty) (with_runtime rt (\<lambda>e. multiply_share_data e ty ld rd))
          | None \<Rightarrow>
              rbind (mul_share_by_fixed_scalar l r rt) (\<lambda>res. case res of
                Some v \<Rightarrow> Inr v
              | None \<Rightarrow>
                  rbind (mul_share_by_fixed_scalar r l rt) (\<lambda>res'. case res' of
                    Some v \<Rightarrow> Inr v
                  | None \<Rightarrow>
                      rbind (share_scalar_operands l r) (\<lambda>ops. case ops of
                        Some (ty, d, k) \<Rightarrow> map_ok (Share ty) (with_runtime rt (\<lambda>e. mul_scalar_data e ty d k))
                      | None \<Rightarrow>
                          rbind (share_scalar_operands r l) (\<lambda>ops'. case ops' of
                            Some (ty, d, k) \<Rightarrow> map_ok (Share ty) (with_runtime rt (\<lambda>e. mul_scalar_data e ty d k))
                          | None \<Rightarrow> Inl (TypeError ''MUL'')))))))"

definition div_op :: "val \<Rightarrow> val \<Rightarrow> provider \<Rightarrow> value_op_error + val" where
  "div_op l r rt =
     (case try_clear_div l r of
        Some res \<Rightarrow> res
      | None \<Rightarrow>
          rbind (matching_share_pair ''DIV'' l r) (\<lambda>pair. case pair of
            Some _ \<Rightarrow> Inl (Unsupported ''Share/Share division is not supported on secret shares'')
          | None \<Rightarrow>
              (case (case l of Share ty d \<Rightarrow> map_option (\<lambda>k. (ty, d, k)) (fixed_point_divisor_scaled ty r) | _ \<Rightarrow> None) of
                 Some (ty, d, k) \<Rightarrow> map_ok (Share ty) (with_runtime rt (\<lambda>e. div_fixed_by_const_data e ty d k))
               | None \<Rightarrow>
                   rbind (share_scalar_operands l r) (\<lambda>ops. case ops of
                     Some (ty, d, k) \<Rightarrow> map_ok (Share ty) (with_runtime rt (\<lambda>e. div_scalar_data e ty d k))
                   | None \<Rightarrow> Inl (TypeError ''DIV'')))))"

definition modulo :: "val \<Rightarrow> val \<Rightarrow> value_op_error + val" where
  "modulo l r =
     (case try_clear_modulo l r of
        Some res \<Rightarrow> res
      | None \<Rightarrow>
          rbind (matching_share_pair ''MOD'' l r) (\<lambda>pair. case pair of
            Some _ \<Rightarrow> Inl (Unsupported ''Share/Share modulo is not supported on secret shares'')
          | None \<Rightarrow> Inl (TypeError ''MOD'')))"

definition ensure_secret_bool :: "share_type \<Rightarrow> string \<Rightarrow> value_op_error + unit" where
  "ensure_secret_bool ty operation =
     (if ty = boolean_type then Inr ()
      else Inl (Unsupported
        (if operation \<in> {''Bitwise AND'', ''Bitwise OR'', ''Bitwise XOR'', ''Bitwise NOT''}
         then operation @ '' is only supported on secret bool shares''
         else ''Bitwise share operation is only supported on secret bool shares'')))"

definition bool_xor_data ::
  "provider \<Rightarrow> share_type \<Rightarrow> share_data \<Rightarrow> share_data \<Rightarrow> share_data \<Rightarrow> value_op_error + share_data" where
  "bool_xor_data rt ty ld rd product =
     rbind (ensure_secret_bool ty ''Bitwise XOR'') (\<lambda>_.
       with_runtime rt (\<lambda>e.
         rbind (add_data e ty ld rd) (\<lambda>sum.
           rbind (mul_scalar_data e ty product 2) (\<lambda>doubled. sub_data e ty sum doubled))))"

definition bool_or_data ::
  "provider \<Rightarrow> share_type \<Rightarrow> share_data \<Rightarrow> share_data \<Rightarrow> share_data \<Rightarrow> value_op_error + share_data" where
  "bool_or_data rt ty ld rd product =
     rbind (ensure_secret_bool ty ''Bitwise OR'') (\<lambda>_.
       with_runtime rt (\<lambda>e. rbind (add_data e ty ld rd) (\<lambda>sum. sub_data e ty sum product)))"

definition bit_and :: "val \<Rightarrow> val \<Rightarrow> provider \<Rightarrow> value_op_error + val" where
  "bit_and l r rt =
     (case try_clear_bit_and l r of
        Some res \<Rightarrow> res
      | None \<Rightarrow>
          rbind (matching_share_pair ''AND'' l r) (\<lambda>pair. case pair of
            Some (ty, ld, rd) \<Rightarrow>
              rbind (ensure_secret_bool ty ''Bitwise AND'') (\<lambda>_.
                map_ok (Share ty) (with_runtime rt (\<lambda>e. multiply_share_data e ty ld rd)))
          | None \<Rightarrow>
              if contains_share_operand l r
              then Inl (Unsupported ''Bitwise AND is only supported on secret bool shares'')
              else Inl (TypeError ''AND'')))"

definition bit_or :: "val \<Rightarrow> val \<Rightarrow> provider \<Rightarrow> value_op_error + val" where
  "bit_or l r rt =
     (case try_clear_bit_or l r of
        Some res \<Rightarrow> res
      | None \<Rightarrow>
          rbind (matching_share_pair ''OR'' l r) (\<lambda>pair. case pair of
            Some (ty, ld, rd) \<Rightarrow>
              rbind (ensure_secret_bool ty ''Bitwise OR'') (\<lambda>_.
                rbind (with_runtime rt (\<lambda>e. multiply_share_data e ty ld rd)) (\<lambda>product.
                  map_ok (Share ty) (bool_or_data rt ty ld rd product)))
          | None \<Rightarrow>
              if contains_share_operand l r
              then Inl (Unsupported ''Bitwise OR is only supported on secret bool shares'')
              else Inl (TypeError ''OR'')))"

definition bit_xor_op :: "val \<Rightarrow> val \<Rightarrow> provider \<Rightarrow> value_op_error + val" where
  "bit_xor_op l r rt =
     (case try_clear_bit_xor l r of
        Some res \<Rightarrow> res
      | None \<Rightarrow>
          rbind (matching_share_pair ''XOR'' l r) (\<lambda>pair. case pair of
            Some (ty, ld, rd) \<Rightarrow>
              rbind (ensure_secret_bool ty ''Bitwise XOR'') (\<lambda>_.
                rbind (with_runtime rt (\<lambda>e. multiply_share_data e ty ld rd)) (\<lambda>product.
                  map_ok (Share ty) (bool_xor_data rt ty ld rd product)))
          | None \<Rightarrow>
              if contains_share_operand l r
              then Inl (Unsupported ''Bitwise XOR is only supported on secret bool shares'')
              else Inl (TypeError ''XOR'')))"

definition bit_not :: "val \<Rightarrow> provider \<Rightarrow> value_op_error + val" where
  "bit_not v rt =
     (case try_clear_bit_not v of
        Some res \<Rightarrow> res
      | None \<Rightarrow>
          (case v of
             Share ty d \<Rightarrow>
               rbind (ensure_secret_bool ty ''Bitwise NOT'') (\<lambda>_.
                 map_ok (Share ty) (with_runtime rt (\<lambda>e. scalar_sub_data e ty 1 d)))
           | _ \<Rightarrow> Inl (TypeError ''NOT'')))"

definition shl :: "val \<Rightarrow> val \<Rightarrow> value_op_error + val" where
  "shl l r =
     (case try_clear_shl l r of
        Some res \<Rightarrow> res
      | None \<Rightarrow>
          if contains_share_operand l r then Inl (Unsupported ''Left shift is not supported on secret shares'')
          else Inl (TypeError ''SHL''))"

definition shr :: "val \<Rightarrow> val \<Rightarrow> value_op_error + val" where
  "shr l r =
     (case try_clear_shr l r of
        Some res \<Rightarrow> res
      | None \<Rightarrow>
          if contains_share_operand l r then Inl (Unsupported ''Right shift is not supported on secret shares'')
          else Inl (TypeError ''SHR''))"

section \<open>Clear integer arithmetic is exact\<close>

text \<open>The integers of the type of a VM integer value, and the value of that type that denotes an
  integer.\<close>

fun value_fits :: "val \<Rightarrow> int \<Rightarrow> bool" where
  "value_fits (I64 _) i = sint_fits TYPE(64 word) i"
| "value_fits (I32 _) i = sint_fits TYPE(32 word) i"
| "value_fits (I16 _) i = sint_fits TYPE(16 word) i"
| "value_fits (I8 _) i = sint_fits TYPE(8 word) i"
| "value_fits (U8 _) i = uint_fits TYPE(8 word) i"
| "value_fits (U16 _) i = uint_fits TYPE(16 word) i"
| "value_fits (U32 _) i = uint_fits TYPE(32 word) i"
| "value_fits (U64 _) i = uint_fits TYPE(64 word) i"
| "value_fits _ i = False"

fun value_like :: "val \<Rightarrow> int \<Rightarrow> val" where
  "value_like (I64 _) i = I64 (word_of_int i)"
| "value_like (I32 _) i = I32 (word_of_int i)"
| "value_like (I16 _) i = I16 (word_of_int i)"
| "value_like (I8 _) i = I8 (word_of_int i)"
| "value_like (U8 _) i = U8 (word_of_int i)"
| "value_like (U16 _) i = U16 (word_of_int i)"
| "value_like (U32 _) i = U32 (word_of_int i)"
| "value_like (U64 _) i = U64 (word_of_int i)"
| "value_like v i = v"

lemma value_like_int: "value_fits v i \<Longrightarrow> int_of_value (value_like v i) = Some i"
  by (cases v) (simp_all only: value_fits.simps value_like.simps int_of_value.simps
      sint_word_of_int_fits uint_word_of_int_fits)

lemma value_like_type: "type_name (value_like v i) = type_name v"
  by (cases v) simp_all

text \<open>Two integer values of one type, by cases.\<close>

lemma same_int_type_cases:
  assumes "int_of_value l = Some x" "int_of_value r = Some y" "type_name l = type_name r"
  obtains a b where "l = I64 a" "r = I64 b" "x = sint a" "y = sint b"
    | a b where "l = I32 a" "r = I32 b" "x = sint a" "y = sint b"
    | a b where "l = I16 a" "r = I16 b" "x = sint a" "y = sint b"
    | a b where "l = I8 a" "r = I8 b" "x = sint a" "y = sint b"
    | a b where "l = U8 a" "r = U8 b" "x = uint a" "y = uint b"
    | a b where "l = U16 a" "r = U16 b" "x = uint a" "y = uint b"
    | a b where "l = U32 a" "r = U32 b" "x = uint a" "y = uint b"
    | a b where "l = U64 a" "r = U64 b" "x = uint a" "y = uint b"
  using assms by (cases l; cases r) simp_all

lemma trunc_nonneg:
  "0 \<le> a \<Longrightarrow> 0 \<le> b \<Longrightarrow> trunc_div a b = a div b"
  "0 \<le> a \<Longrightarrow> 0 \<le> b \<Longrightarrow> trunc_rem a b = a mod b"
  by (auto simp: trunc_div_def trunc_rem_def sgn_if)

lemma uint_fits_div_mod:
  fixes a b :: "'a::len word"
  shows "uint_fits TYPE('a word) (uint a div uint b)" "uint_fits TYPE('a word) (uint a mod uint b)"
  using uint_fits_uint [of "a div b"] uint_fits_uint [of "a mod b"] by (simp_all add: uint_div uint_mod)

lemma sint_fits_rem: "sint_fits TYPE('a::len word) (trunc_rem (sint (a :: 'a word)) b)"
proof -
  let ?r = "\<bar>sint a\<bar> mod \<bar>b\<bar>"
  have "?r \<le> \<bar>sint a\<bar>" "0 \<le> ?r" by (auto simp: zmod_le_nonneg_dividend mod_int_pos_iff)
  then have "min (sint a) 0 \<le> trunc_rem (sint a) b" "trunc_rem (sint a) b \<le> max (sint a) 0"
    by (auto simp: trunc_rem_def sgn_if)
  moreover have "sint_fits TYPE('a word) (sint a)" by simp
  ultimately show ?thesis by (auto simp: sint_fits_def min_def max_def split: if_splits)
qed

lemma sint_0_iff: "sint (w :: 'a::len word) = 0 \<longleftrightarrow> w = 0"
  by (metis scast_id sint_0 of_int_0 of_int_sint)

lemmas checked_defs = s_checked_def u_checked_def Let_def checked_value_def checked_integer_result_def

lemmas checked_div_defs = s_checked_div_def u_checked_div_def s_checked_rem_def u_checked_rem_def checked_defs

lemma clear_add_integers:
  assumes "int_of_value l = Some x" "int_of_value r = Some y" "type_name l = type_name r"
  shows "try_clear_add l r =
    Some (if value_fits l (x + y) then Inr (value_like l (x + y)) else Inl (IntegerOverflow ''ADD''))"
  by (rule same_int_type_cases [OF assms]) (simp_all add: try_clear_add_def checked_defs del: of_int_add)

lemma clear_sub_integers:
  assumes "int_of_value l = Some x" "int_of_value r = Some y" "type_name l = type_name r"
  shows "try_clear_sub l r =
    Some (if value_fits l (x - y) then Inr (value_like l (x - y)) else Inl (IntegerOverflow ''SUB''))"
  by (rule same_int_type_cases [OF assms]) (simp_all add: try_clear_sub_def checked_defs del: of_int_diff)

lemma clear_mul_integers:
  assumes "int_of_value l = Some x" "int_of_value r = Some y" "type_name l = type_name r"
  shows "try_clear_mul l r =
    Some (if value_fits l (x * y) then Inr (value_like l (x * y)) else Inl (IntegerOverflow ''MUL''))"
  by (rule same_int_type_cases [OF assms]) (simp_all add: try_clear_mul_def checked_defs del: of_int_mult)

lemma clear_div_integers:
  assumes "int_of_value l = Some x" "int_of_value r = Some y" "type_name l = type_name r"
  shows "try_clear_div l r =
    Some (if y = 0 then Inl DivisionByZero
          else if value_fits l (trunc_div x y) then Inr (value_like l (trunc_div x y))
          else Inl (IntegerOverflow ''DIV''))"
  by (rule same_int_type_cases [OF assms])
    (simp_all add: try_clear_div_def checked_div_defs trunc_nonneg sint_0_iff uint_0_iff)

lemma clear_modulo_integers:
  assumes "int_of_value l = Some x" "int_of_value r = Some y" "type_name l = type_name r"
  shows "try_clear_modulo l r =
    Some (if y = 0 then Inl ModuloByZero
          else if value_fits l (trunc_div x y) then Inr (value_like l (trunc_rem x y))
          else Inl (IntegerOverflow ''MOD''))"
  by (rule same_int_type_cases [OF assms])
    (simp_all add: try_clear_modulo_def checked_div_defs trunc_nonneg uint_fits_div_mod sint_fits_rem sint_0_iff uint_0_iff)

text \<open>C29: the clear integer operations are exact at the type of their operands: they return the
  value of that type denoting the mathematical result, with division and remainder truncating
  towards zero, and report an overflow exactly when it does not fit (for the remainder, when
  the quotient does not fit); a zero divisor is reported as such.\<close>

theorem clear_integer_arithmetic_exact:
  assumes "int_of_value l = Some x" "int_of_value r = Some y" "type_name l = type_name r"
  shows "(try_clear_add l r =
     Some (if value_fits l (x + y) then Inr (value_like l (x + y)) else Inl (IntegerOverflow ''ADD''))) \<and>
   (try_clear_sub l r =
     Some (if value_fits l (x - y) then Inr (value_like l (x - y)) else Inl (IntegerOverflow ''SUB''))) \<and>
   (try_clear_mul l r =
     Some (if value_fits l (x * y) then Inr (value_like l (x * y)) else Inl (IntegerOverflow ''MUL''))) \<and>
   (try_clear_div l r =
     Some (if y = 0 then Inl DivisionByZero
           else if value_fits l (trunc_div x y) then Inr (value_like l (trunc_div x y))
           else Inl (IntegerOverflow ''DIV''))) \<and>
   (try_clear_modulo l r =
     Some (if y = 0 then Inl ModuloByZero
           else if value_fits l (trunc_div x y) then Inr (value_like l (trunc_rem x y))
           else Inl (IntegerOverflow ''MOD''))) \<and>
   (value_fits l i \<longrightarrow> int_of_value (value_like l i) = Some i \<and> type_name (value_like l i) = type_name l)"
  using clear_add_integers [OF assms] clear_sub_integers [OF assms] clear_mul_integers [OF assms]
    clear_div_integers [OF assms] clear_modulo_integers [OF assms] value_like_int value_like_type
  by auto

theorem clear_integer_arithmetic_exact_witness:
  "try_clear_div (I8 0x80) (I8 0xff) = Some (Inl (IntegerOverflow ''DIV'')) \<and>
   try_clear_modulo (I8 0x80) (I8 0xff) = Some (Inl (IntegerOverflow ''MOD'')) \<and>
   try_clear_add (U8 250) (U8 5) = Some (Inr (U8 255))"
  using clear_integer_arithmetic_exact [THEN conjunct2, THEN conjunct2, THEN conjunct2, of "I8 0x80" "- 128" "I8 0xff" "- 1"]
    clear_integer_arithmetic_exact [THEN conjunct1, rule_format, of "U8 250" 250 "U8 5" 5]
  by (simp add: trunc_div_def sint_fits_def uint_fits_def)

section \<open>Numeric comparison\<close>

text \<open>The exact value of a number in units of the smallest positive float.\<close>

fun numeric_units :: "numeric_value \<Rightarrow> int" where
  "numeric_units (NSigned i) = i * int unit_one"
| "numeric_units (NUnsigned i) = i * int unit_one"
| "numeric_units (NFloat x) = f64_units x"

fun numeric_nan :: "numeric_value \<Rightarrow> bool" where
  "numeric_nan (NFloat x) = is_nan x"
| "numeric_nan _ = False"

text \<open>Floats of magnitude at least \<open>2^128\<close> and below \<open>2^180\<close>: shifting their mantissa overflows
  the 128-bit word that holds it.\<close>

definition shift_overflows :: "f64 \<Rightarrow> bool" where
  "shift_overflows x = (1151 \<le> f64_exponent x \<and> f64_exponent x < 1203)"

fun mixed_exact :: "numeric_value \<Rightarrow> numeric_value \<Rightarrow> bool" where
  "mixed_exact (NFloat x) (NFloat y) = True"
| "mixed_exact (NFloat x) _ = (\<not> shift_overflows x)"
| "mixed_exact _ (NFloat y) = (\<not> shift_overflows y)"
| "mixed_exact _ _ = True"

lemma cmp_int_of_nat: "cmp (int a) (int b) = cmp a b"
  by (auto simp: cmp_def)

lemma cmp_scale: "0 < (k::nat) \<Longrightarrow> cmp (a * k) (b * k) = cmp a b"
  by (auto simp: cmp_def)

lemma cmp_div_mod:
  assumes "0 < (d::nat)"
  shows "(case cmp n (m div d) of Equal \<Rightarrow> Some (if m mod d \<noteq> 0 then Less else Equal) | ord \<Rightarrow> Some ord) =
         Some (cmp (n * d) m)"
proof -
  consider "n < m div d" | "n = m div d" | "m div d < n" by linarith
  then show ?thesis
  proof cases
    case 1
    then have "Suc n * d \<le> m" using assms by (simp only: less_eq_div_iff_mult_less_eq [symmetric] Suc_le_eq)
    then have "n * d < m" using assms by simp
    then show ?thesis using 1 by (simp add: cmp_def)
  next
    case 2
    define k where "k = m mod d"
    have eq: "m = n * d + k" using 2 by (simp add: k_def)
    have "cmp (n * d) m = (if k \<noteq> 0 then Less else Equal)" unfolding eq by (simp add: cmp_def)
    then show ?thesis using 2 by (simp add: cmp_def k_def)
  next
    case 3
    then have "m < n * d" using assms by (simp add: div_less_iff_less_mult)
    then show ?thesis using 3 by (simp add: cmp_def)
  qed
qed

lemma floor_compare:
  fixes M n s :: nat
  assumes "M < 2 ^ 64"
  shows "(case cmp (int n) (if 64 \<le> s then 0 else int (M div 2 ^ s)) of
            Equal \<Rightarrow> Some (if (if 64 \<le> s then M \<noteq> 0 else M mod 2 ^ s \<noteq> 0) then Less else Equal)
          | ord \<Rightarrow> Some ord) = Some (cmp (n * 2 ^ s) M)"
proof -
  have "M div 2 ^ s = 0 \<and> M mod 2 ^ s = M" if "64 \<le> s"
  proof -
    have "(2::nat) ^ 64 \<le> 2 ^ s" using that by (rule power_increasing) simp
    with assms have "M < 2 ^ s" by linarith
    then show ?thesis by simp
  qed
  then have "(if 64 \<le> s then 0 else int (M div 2 ^ s)) = int (M div 2 ^ s)"
    and "(if 64 \<le> s then M \<noteq> 0 else M mod 2 ^ s \<noteq> 0) = (M mod 2 ^ s \<noteq> 0)" by auto
  then show ?thesis using cmp_div_mod [where d = "2 ^ s" and n = n and m = M] by (simp only: cmp_int_of_nat) simp
qed

lemma cmp_shift: "a + c = b \<Longrightarrow> cmp (n * 2 ^ a) (M :: nat) = cmp (n * 2 ^ b) (M * 2 ^ c)"
  using cmp_scale [of "2 ^ c" "n * 2 ^ a" M] by (auto simp: power_add mult.assoc)

lemma big_float_exceeds:
  fixes n f e :: nat
  assumes "n < 2 ^ 128" "1203 \<le> e"
  shows "n * 2 ^ 1074 < (2 ^ 52 + f) * 2 ^ (e - 1)"
proof -
  have "n * 2 ^ 1074 < 2 ^ 128 * 2 ^ 1074" using assms(1) by simp
  also have "\<dots> \<le> (2::nat) ^ 52 * 2 ^ 1202" by (simp flip: power_add)
  also have "\<dots> \<le> 2 ^ 52 * 2 ^ (e - 1)" using assms(2) by (intro mult_le_mono2 power_increasing) auto
  also have "\<dots> \<le> (2 ^ 52 + f) * 2 ^ (e - 1)" by simp
  finally show ?thesis .
qed

lemma shift_fits:
  fixes f s :: nat
  assumes "f < 2 ^ 52" "s < 76"
  shows "(2 ^ 52 + f) * 2 ^ s mod 2 ^ 128 = (2 ^ 52 + f) * 2 ^ s"
proof (rule mod_less)
  have "(2 ^ 52 + f) * 2 ^ s < 2 ^ 53 * 2 ^ s" using assms(1) by simp
  also have "\<dots> \<le> (2::nat) ^ 53 * 2 ^ 75" using assms(2) by (intro mult_le_mono2 power_increasing) auto
  also have "\<dots> = 2 ^ 128" by simp
  finally show "(2 ^ 52 + f) * 2 ^ s < 2 ^ 128" .
qed

lemma compare_positive_exact:
  assumes "n < 2 ^ 128" "\<not> shift_overflows x"
  shows "compare_u128_positive_f64 (int n) x = Some (cmp (n * unit_one) (magnitude_units (f64_magnitude x)))"
proof -
  define m where "m = f64_magnitude x"
  define e where "e = m div 2 ^ 52"
  define f where "f = m mod 2 ^ 52"
  have ef: "f64_exponent x = e" "f64_fraction x = f"
    by (simp_all add: e_def f_def m_def f64_exponent_alt f64_fraction_alt)
  have f: "f < 2 ^ 52" by (simp add: f_def)
  have u: "magnitude_units m = (if e = 0 then f else (2 ^ 52 + f) * 2 ^ (e - 1))"
    unfolding magnitude_units_alt e_def f_def ..
  have "\<not> (1151 \<le> e \<and> e < 1203)" using assms(2) ef by (simp add: shift_overflows_def)
  then consider "e = 0" "f = 0" | "e = 0" "f \<noteq> 0" | "0 < e" "e < 1075" | "1075 \<le> e" "e < 1151" | "1203 \<le> e"
    by linarith
  then show ?thesis
  proof cases
    case 1
    then show ?thesis
      by (simp add: compare_u128_positive_f64_def ef u flip: m_def) (simp add: cmp_def unit_one_def)
  next
    case 2
    have "f < 2 ^ 64" using f by simp
    from floor_compare [OF this, where n = n and s = 1074] 2 show ?thesis
      by (simp add: compare_u128_positive_f64_def ef u unit_one_def flip: m_def)
  next
    case 3
    have "2 ^ 52 + f < 2 ^ 64" using f by simp
    note fc = floor_compare [OF this, where n = n and s = "1075 - e"]
    have c: "(e = 0 \<and> f = 0) = False" "(e = 0) = False" "(0 \<le> int e - 1023 - 52) = False"
      "nat (- (int e - 1023 - 52)) = 1075 - e" using 3 by auto
    have "compare_u128_positive_f64 (int n) x = Some (cmp (n * 2 ^ (1075 - e)) (2 ^ 52 + f))"
      by (simp only: compare_u128_positive_f64_def ef Let_def c simp_thms if_False fc)
    also have "cmp (n * 2 ^ (1075 - e)) (2 ^ 52 + f) = cmp (n * 2 ^ 1074) ((2 ^ 52 + f) * 2 ^ (e - 1))"
      using 3 by (intro cmp_shift) simp
    finally show ?thesis using 3 by (simp only: u m_def [symmetric] unit_one_def) simp
  next
    case 4
    have s: "nat (int e - 1075) = e - 1075" "\<not> 128 \<le> e - 1075" using 4 by auto
    have "compare_u128_positive_f64 (int n) x = Some (cmp (int n) (int ((2 ^ 52 + f) * 2 ^ (e - 1075) mod 2 ^ 128)))"
      using 4 s by (simp add: compare_u128_positive_f64_def ef Let_def)
    also have "\<dots> = Some (cmp n ((2 ^ 52 + f) * 2 ^ (e - 1075)))"
      using shift_fits [OF f, of "e - 1075"] 4 by (simp add: cmp_int_of_nat del: of_nat_mult of_nat_mod of_nat_power of_nat_add)
    also have "cmp n ((2 ^ 52 + f) * 2 ^ (e - 1075)) = cmp (n * 2 ^ 1074) ((2 ^ 52 + f) * 2 ^ (e - 1075) * 2 ^ 1074)"
      using cmp_shift [of 0 1074 1074 n] by simp
    also have "(2 ^ 52 + f) * 2 ^ (e - 1075) * 2 ^ 1074 = (2 ^ 52 + f) * 2 ^ (e - 1)"
    proof -
      have "e - 1 = (e - 1075) + 1074" using 4 by simp
      then show ?thesis by (simp only: power_add mult.assoc)
    qed
    finally show ?thesis using 4 by (simp only: u m_def [symmetric] unit_one_def) simp
  next
    case 5
    have "compare_u128_positive_f64 (int n) x = Some Less"
      using 5 by (simp add: compare_u128_positive_f64_def ef Let_def)
    moreover have "cmp (n * unit_one) (magnitude_units m) = Less"
      using 5 big_float_exceeds [OF assms(1) 5, of f] by (simp only: u unit_one_def cmp_simps) simp
    ultimately show ?thesis by (simp only: m_def [symmetric])
  qed
qed

lemma f64_cmp_zero:
  "\<not> is_nan x \<Longrightarrow> f64_lt x 0 \<longleftrightarrow> f64_units x < 0"
  "\<not> is_nan x \<Longrightarrow> f64_ge x 0 \<longleftrightarrow> 0 \<le> f64_units x"
  by (auto simp: f64_lt_def f64_ge_def f64_partial_cmp_def f64_key_sign [symmetric])

lemma units_nonneg: "0 \<le> f64_units x \<Longrightarrow> f64_units x = int (magnitude_units (f64_magnitude x))"
  by (auto simp: f64_units_def split: if_splits)

lemma units_neg: "f64_units x < 0 \<Longrightarrow> f64_units x = - int (magnitude_units (f64_magnitude x))"
  by (auto simp: f64_units_def split: if_splits)

lemma infinite_units: "is_infinite x \<Longrightarrow> n < 2 ^ 128 \<Longrightarrow> n * unit_one < magnitude_units (f64_magnitude x)"
  using big_float_exceeds [of n 2047 0]
  by (simp add: is_infinite_def f64_inf_magnitude_def magnitude_units_alt unit_one_def)

lemma int_units: "0 \<le> l \<Longrightarrow> l * int unit_one = int (nat l * unit_one)"
  by simp

lemma compare_u128_f64_exact:
  assumes "0 \<le> l" "l < 2 ^ 128" "\<not> is_nan x" "\<not> shift_overflows x"
  shows "compare_u128_f64 l x = Some (cmp (l * int unit_one) (f64_units x))"
proof -
  have n: "nat l < 2 ^ 128" using assms(1,2) by (simp add: nat_less_iff)
  have nonneg: "0 \<le> l * int unit_one" using assms(1) by simp
  have inf: "f64_sign x \<Longrightarrow> is_infinite x \<Longrightarrow> f64_units x < 0"
    using infinite_units [of x 0] by (simp add: f64_units_def)
  consider "is_infinite x" "f64_sign x" | "is_infinite x" "\<not> f64_sign x" | "\<not> is_infinite x" "f64_units x < 0"
    | "\<not> is_infinite x" "0 \<le> f64_units x" by linarith
  then show ?thesis
  proof cases
    case 1
    then show ?thesis using assms(3) inf nonneg by (simp add: compare_u128_f64_def cmp_def)
  next
    case 2
    have "int (nat l * unit_one) < int (magnitude_units (f64_magnitude x))"
      using infinite_units [OF 2(1) n] by (simp only: of_nat_less_iff)
    then show ?thesis using 2 assms(1,3) by (simp add: compare_u128_f64_def cmp_def f64_units_def)
  next
    case 3
    then show ?thesis using assms(3) nonneg by (simp add: compare_u128_f64_def cmp_def f64_cmp_zero)
  next
    case 4
    have "compare_u128_f64 l x = compare_u128_positive_f64 (int (nat l)) x"
      using 4 assms(1,3) by (simp add: compare_u128_f64_def f64_cmp_zero)
    also have "\<dots> = Some (cmp (int (nat l * unit_one)) (f64_units x))"
      by (simp only: compare_positive_exact [OF n assms(4)] units_nonneg [OF 4(2)] cmp_int_of_nat)
    finally show ?thesis by (simp only: int_units [OF assms(1)])
  qed
qed

lemma shift_overflows_neg: "shift_overflows (f64_neg x) = shift_overflows x"
  by (simp add: shift_overflows_def f64_exponent_alt f64_neg_parts)

lemma compare_i128_f64_exact:
  assumes "\<bar>l\<bar> < 2 ^ 128" "\<not> is_nan x" "\<not> shift_overflows x"
  shows "compare_i128_f64 l x = Some (cmp (l * int unit_one) (f64_units x))"
proof (cases "0 \<le> l")
  case True
  then have "compare_i128_f64 l x = compare_u128_f64 l x"
    by (simp add: compare_i128_f64_def compare_u128_f64_def)
  with True assms compare_u128_f64_exact [of l x] show ?thesis by simp
next
  case False
  have n: "nat \<bar>l\<bar> < 2 ^ 128" using assms(1) by (simp add: nat_less_iff)
  have abs: "l * int unit_one = - int (nat \<bar>l\<bar> * unit_one)" using False by simp
  have neg: "l * int unit_one < 0" using False by (simp add: mult_neg_pos unit_one_def)
  have inf: "is_infinite x \<Longrightarrow> int (nat \<bar>l\<bar> * unit_one) < int (magnitude_units (f64_magnitude x))"
    using infinite_units [OF _ n] by (simp only: of_nat_less_iff)
  consider "is_infinite x" | "\<not> is_infinite x" "0 \<le> f64_units x" | "\<not> is_infinite x" "f64_units x < 0" by linarith
  then show ?thesis
  proof cases
    case 1
    then show ?thesis using assms(2) inf neg unfolding abs
      by (auto simp: compare_i128_f64_def cmp_def f64_units_def)
  next
    case 2
    then show ?thesis using False assms(2) neg by (simp add: compare_i128_f64_def cmp_def f64_cmp_zero)
  next
    case 3
    have "compare_i128_f64 l x = map_option reverse (compare_u128_positive_f64 (int (nat \<bar>l\<bar>)) (f64_neg x))"
      using 3 False assms(2) by (simp add: compare_i128_f64_def f64_cmp_zero)
    also have "\<dots> = Some (cmp (int (magnitude_units (f64_magnitude x))) (int (nat \<bar>l\<bar> * unit_one)))"
      using compare_positive_exact [OF n, of "f64_neg x"] assms(3)
      by (simp add: shift_overflows_neg f64_neg_parts reverse_cmp cmp_int_of_nat del: of_nat_mult)
    also have "cmp (int (magnitude_units (f64_magnitude x))) (int (nat \<bar>l\<bar> * unit_one)) =
        cmp (l * int unit_one) (f64_units x)"
      unfolding abs units_neg [OF 3(2)] by (auto simp: cmp_def)
    finally show ?thesis .
  qed
qed

fun numeric_ok :: "numeric_value \<Rightarrow> bool" where
  "numeric_ok (NSigned i) = (\<bar>i\<bar> < 2 ^ 128)"
| "numeric_ok (NUnsigned i) = (0 \<le> i \<and> i < 2 ^ 128)"
| "numeric_ok (NFloat x) = True"

lemma sint_abs_bound: "LENGTH('a) \<le> 64 \<Longrightarrow> \<bar>sint (w :: 'a::len word)\<bar> < 2 ^ 128"
proof -
  assume "LENGTH('a) \<le> 64"
  then have "(2::int) ^ (LENGTH('a) - 1) \<le> 2 ^ 64" by (intro power_increasing) auto
  moreover have "- (2 ^ (LENGTH('a) - 1)) \<le> sint w" "sint w < 2 ^ (LENGTH('a) - 1)"
    using sint_greater_eq [of w] sint_less [of w] by auto
  ultimately have "\<bar>sint w\<bar> \<le> 2 ^ 64" by linarith
  then show ?thesis by simp
qed

lemma uint_bound: "LENGTH('a) \<le> 64 \<Longrightarrow> uint (w :: 'a::len word) < 2 ^ 128"
proof -
  assume "LENGTH('a) \<le> 64"
  then have "(2::int) ^ LENGTH('a) < 2 ^ 128" by (intro power_strict_increasing) auto
  moreover have "uint w < 2 ^ LENGTH('a)" by simp
  ultimately show ?thesis by linarith
qed

lemma numeric_value_ok: "numeric_value v = Some a \<Longrightarrow> numeric_ok a"
  by (cases v) (auto simp: numeric_value_def intro!: sint_abs_bound [simplified] uint_bound [simplified])

lemma cmp_units_int: "cmp (a * int unit_one) (b * int unit_one) = cmp a b"
  by (auto simp: cmp_def unit_one_def)

lemma compare_numeric_exact:
  assumes "numeric_ok a" "numeric_ok b" "\<not> numeric_nan a" "\<not> numeric_nan b" "mixed_exact a b"
  shows "compare_numeric a b = Some (cmp (numeric_units a) (numeric_units b))"
  using assms
  by (cases a; cases b)
    (auto simp: compare_u128_f64_exact compare_i128_f64_exact reverse_cmp cmp_units_int f64_partial_cmp_def
      cmp_key_units compare_i128_u128_def, auto simp: cmp_def)

text \<open>C30: comparison orders numbers of any two VM types by their exact mathematical values, with
  no rounding of integers to floats, unless an operand is not a number or an integer meets a
  float of magnitude in the range \<open>2^128\<close> to \<open>2^180\<close>.\<close>

theorem try_clear_compare_exact:
  assumes "numeric_value l = Some a" "numeric_value r = Some b"
    and "\<not> numeric_nan a" "\<not> numeric_nan b" "mixed_exact a b"
  shows "try_clear_compare l r = Some (cmp (numeric_units a) (numeric_units b))"
  using assms compare_numeric_exact [OF numeric_value_ok numeric_value_ok]
  by (simp add: try_clear_compare_def)

theorem try_clear_compare_exact_witness:
  "try_clear_compare (I64 9007199254740993) (Float 0x4340000000000000) = Some Greater"
proof -
  have "try_clear_compare (I64 9007199254740993) (Float 0x4340000000000000) =
      Some (cmp (numeric_units (NSigned 9007199254740993)) (numeric_units (NFloat 0x4340000000000000)))"
    by (rule try_clear_compare_exact)
      (simp_all add: numeric_value_def f64_defs shift_overflows_def take_bit_eq_mod)
  also have "\<dots> = Some Greater"
    by (simp add: f64_defs magnitude_units_def unit_one_def cmp_def)
  finally show ?thesis .
qed

lemma wide_float_units:
  assumes "shift_overflows x"
  defines "q \<equiv> (2 ^ 52 + f64_fraction x) * 2 ^ (f64_exponent x - 1075)"
  shows "2 ^ 128 \<le> q" "magnitude_units (f64_magnitude x) = q * unit_one"
    "compare_u128_positive_f64 l x = Some (cmp l (int (q mod 2 ^ 128)))"
proof -
  let ?e = "f64_exponent x"
  have e: "1151 \<le> ?e" "?e < 1203" using assms(1) by (auto simp: shift_overflows_def)
  have "(2::nat) ^ 128 = 2 ^ 52 * 2 ^ 76" by simp
  also have "\<dots> \<le> 2 ^ 52 * 2 ^ (?e - 1075)" using e by (intro mult_le_mono2 power_increasing) auto
  also have "\<dots> \<le> q" by (simp add: q_def)
  finally show "2 ^ 128 \<le> q" .
  have "?e - 1 = (?e - 1075) + 1074" using e by simp
  then have "(2::nat) ^ (?e - 1) = 2 ^ (?e - 1075) * 2 ^ 1074" by (simp only: power_add)
  then show "magnitude_units (f64_magnitude x) = q * unit_one"
    using e by (simp add: magnitude_units_alt f64_exponent_alt f64_fraction_alt q_def unit_one_def mult.assoc)
  have "nat (int ?e - 1075) = ?e - 1075" "\<not> 128 \<le> ?e - 1075" using e by auto
  then show "compare_u128_positive_f64 l x = Some (cmp l (int (q mod 2 ^ 128)))"
    using e by (simp add: compare_u128_positive_f64_def Let_def q_def)
qed

lemma wide_float_plain: "shift_overflows x \<Longrightarrow> \<not> is_nan x \<and> \<not> is_infinite x"
  by (auto simp: shift_overflows_def is_nan_def is_infinite_def f64_inf_magnitude_def f64_exponent_alt)

text \<open>C31: where the exactness of comparisons ends: a positive float \<open>q\<close> of at least \<open>2^128\<close> and below
  \<open>2^180\<close> is greater than every integer of the machine, but an integer that is not negative is compared
  with \<open>q mod 2^128\<close> instead, so every integer from \<open>q mod 2^128\<close> on is ordered wrongly.\<close>

theorem compare_wide_float_wraps:
  assumes "numeric_value l = Some (NUnsigned n) \<or> numeric_value l = Some (NSigned n)" "0 \<le> n"
    and "shift_overflows x" "\<not> f64_sign x"
  shows "\<exists>q::nat. 2 ^ 128 \<le> q \<and> f64_units x = int q * int unit_one \<and> cmp (n * int unit_one) (f64_units x) = Less \<and>
    try_clear_compare l (Float x) = Some (cmp n (int (q mod 2 ^ 128)))"
proof -
  define q where "q = (2 ^ 52 + f64_fraction x) * 2 ^ (f64_exponent x - 1075)"
  note wide = wide_float_units [OF assms(3), folded q_def]
  have u: "f64_units x = int q * int unit_one" using assms(4) wide(2) by (simp add: f64_units_def)
  have n: "n < 2 ^ 128" using numeric_value_ok [of l] assms(1,2) by auto
  then have "n < int q" using wide(1) by (simp flip: of_nat_power)
  then have less: "cmp (n * int unit_one) (f64_units x) = Less" unfolding u cmp_units_int by (simp add: cmp_def)
  have "\<not> f64_units x < 0" unfolding u by (simp add: not_less)
  then have "compare_u128_f64 n x = Some (cmp n (int (q mod 2 ^ 128)))"
    using wide_float_plain [OF assms(3)] wide(3) by (simp add: compare_u128_f64_def f64_cmp_zero)
  then have "try_clear_compare l (Float x) = Some (cmp n (int (q mod 2 ^ 128)))"
    using assms(1,2) wide_float_plain [OF assms(3)]
    by (auto simp: try_clear_compare_def numeric_value_def compare_i128_f64_def)
  then show ?thesis using wide(1) u less by blast
qed

text \<open>One compares as greater than \<open>2^128\<close>.\<close>

theorem compare_wide_float_wraps_witness:
  "\<exists>q::nat. 2 ^ 128 \<le> q \<and> f64_units 0x47f0000000000000 = int q * int unit_one \<and>
     cmp (1 * int unit_one) (f64_units 0x47f0000000000000) = Less \<and>
     try_clear_compare (I64 1) (Float 0x47f0000000000000) = Some (cmp 1 (int (q mod 2 ^ 128)))"
  by (rule compare_wide_float_wraps) (simp_all add: numeric_value_def shift_overflows_def f64_defs)

section \<open>Boolean operations on shares\<close>

text \<open>
  What the runtime relies on from an engine for boolean algebra: it is ready, \<open>den ty bs x\<close> says
  that the bytes are this party's share of the secret \<open>x\<close>, the local operations and the
  multiplication protocol compute on secrets, and payloads keep one format.
\<close>

definition engine_computes ::
  "mpc_engine \<Rightarrow> share_data_format \<Rightarrow> (share_type \<Rightarrow> byte list \<Rightarrow> int \<Rightarrow> bool) \<Rightarrow> bool" where
  "engine_computes e fmt den =
     (is_ready e \<and>
      (\<forall>ty a b x y. den ty a x \<longrightarrow> den ty b y \<longrightarrow>
         (\<exists>c. add_share_local e ty a b = Inr c \<and> den ty c (x + y)) \<and>
         (\<exists>c. sub_share_local e ty a b = Inr c \<and> den ty c (x - y)) \<and>
         (\<exists>ops d. engine_multiplication_ops e = Inr ops \<and> multiply_share ops ty a b = Inr d \<and>
                  format d = fmt \<and> den ty (as_bytes d) (x * y))) \<and>
      (\<forall>ty a x k. den ty a x \<longrightarrow>
         (\<exists>c. mul_share_scalar_local e ty a k = Inr c \<and> den ty c (x * sint k)) \<and>
         (\<exists>c. scalar_sub_share_local e ty k a = Inr c \<and> den ty c (sint k - x))) \<and>
      (\<forall>bs. \<exists>d. feldman_from_bytes e bs = Inr d \<and> as_bytes d = bs \<and> format d = FeldmanFormat))"

lemma preserve_computes:
  assumes "engine_computes e fmt den"
  shows "\<exists>d. preserve_share_data_format e t bs = Inr d \<and> as_bytes d = bs \<and> format d = format t"
proof (cases t)
  case (Feldman b c)
  moreover obtain d where "feldman_from_bytes e bs = Inr d" "as_bytes d = bs" "format d = FeldmanFormat"
    using assms unfolding engine_computes_def by metis
  ultimately show ?thesis by (simp add: map_mpc_backend_err_def)
qed simp

lemma share_data_computes:
  assumes "engine_computes e fmt den" "den ty (as_bytes l) x" "den ty (as_bytes r) y" "format l = format r"
  shows "\<exists>d. add_data e ty l r = Inr d \<and> den ty (as_bytes d) (x + y) \<and> format d = format l"
    and "\<exists>d. sub_data e ty l r = Inr d \<and> den ty (as_bytes d) (x - y) \<and> format d = format l"
    and "\<exists>d. multiply_share_data e ty l r = Inr d \<and> den ty (as_bytes d) (x * y) \<and> format d = fmt"
proof -
  obtain c where c: "add_share_local e ty (as_bytes l) (as_bytes r) = Inr c" "den ty c (x + y)"
    using assms(1-3) unfolding engine_computes_def by metis
  then show "\<exists>d. add_data e ty l r = Inr d \<and> den ty (as_bytes d) (x + y) \<and> format d = format l"
    using preserve_computes [OF assms(1), of l c] assms(4)
    by (auto simp: add_data_def ensure_matching_share_data_format_def map_mpc_backend_err_def)
  obtain c where c: "sub_share_local e ty (as_bytes l) (as_bytes r) = Inr c" "den ty c (x - y)"
    using assms(1-3) unfolding engine_computes_def by metis
  then show "\<exists>d. sub_data e ty l r = Inr d \<and> den ty (as_bytes d) (x - y) \<and> format d = format l"
    using preserve_computes [OF assms(1), of l c] assms(4)
    by (auto simp: sub_data_def ensure_matching_share_data_format_def map_mpc_backend_err_def)
  obtain ops d where "engine_multiplication_ops e = Inr ops"
    "multiply_share ops ty (as_bytes l) (as_bytes r) = Inr d" "format d = fmt" "den ty (as_bytes d) (x * y)"
    using assms(1-3) unfolding engine_computes_def by metis
  moreover have "is_ready e" using assms(1) unfolding engine_computes_def by blast
  ultimately show "\<exists>d. multiply_share_data e ty l r = Inr d \<and> den ty (as_bytes d) (x * y) \<and> format d = fmt"
    using assms(4)
    by (auto simp: multiply_share_data_def ensure_ready_def ensure_matching_share_data_format_def map_mpc_backend_err_def)
qed

lemma scalar_data_computes:
  assumes "engine_computes e fmt den" "den ty (as_bytes l) x"
  shows "\<exists>d. mul_scalar_data e ty l k = Inr d \<and> den ty (as_bytes d) (x * sint k) \<and> format d = format l"
    and "\<exists>d. scalar_sub_data e ty k l = Inr d \<and> den ty (as_bytes d) (sint k - x) \<and> format d = format l"
proof -
  obtain c where "mul_share_scalar_local e ty (as_bytes l) k = Inr c" "den ty c (x * sint k)"
    using assms unfolding engine_computes_def by metis
  then show "\<exists>d. mul_scalar_data e ty l k = Inr d \<and> den ty (as_bytes d) (x * sint k) \<and> format d = format l"
    using preserve_computes [OF assms(1), of l c] by (auto simp: mul_scalar_data_def map_mpc_backend_err_def)
  obtain c where "scalar_sub_share_local e ty k (as_bytes l) = Inr c" "den ty c (sint k - x)"
    using assms unfolding engine_computes_def by metis
  then show "\<exists>d. scalar_sub_data e ty k l = Inr d \<and> den ty (as_bytes d) (sint k - x) \<and> format d = format l"
    using preserve_computes [OF assms(1), of l c] by (auto simp: scalar_sub_data_def map_mpc_backend_err_def)
qed

lemma clear_ops_on_shares:
  "try_clear_bit_and (Share t l) v = None" "try_clear_bit_or (Share t l) v = None"
  "try_clear_bit_xor (Share t l) v = None" "try_clear_bit_not (Share t l) = None"
  by (simp_all add: try_clear_bit_and_def try_clear_bit_or_def try_clear_bit_xor_def try_clear_bit_not_def)

lemmas bool_share_defs = bit_and_def bit_or_def bit_xor_op_def bit_not_def matching_share_pair_def
  ensure_same_share_type_def ensure_secret_bool_def bool_xor_data_def bool_or_data_def with_runtime_def

text \<open>on secret booleans, the bitwise operators compute conjunction, disjunction, exclusive or and
  negation of the secrets, from one multiplication and local linear operations, whenever the
  engine's operations compute on secrets.\<close>

theorem secret_boolean_operators:
  assumes "engine_computes e fmt den" "format l = fmt" "format r = fmt"
    and "den boolean_type (as_bytes l) (of_bool a)" "den boolean_type (as_bytes r) (of_bool b)"
  shows "(\<exists>d. bit_and (Share boolean_type l) (Share boolean_type r) (Inr e) = Inr (Share boolean_type d) \<and>
       den boolean_type (as_bytes d) (of_bool (a \<and> b))) \<and>
   (\<exists>d. bit_or (Share boolean_type l) (Share boolean_type r) (Inr e) = Inr (Share boolean_type d) \<and>
       den boolean_type (as_bytes d) (of_bool (a \<or> b))) \<and>
   (\<exists>d. bit_xor_op (Share boolean_type l) (Share boolean_type r) (Inr e) = Inr (Share boolean_type d) \<and>
       den boolean_type (as_bytes d) (of_bool (a \<noteq> b))) \<and>
   (\<exists>d. bit_not (Share boolean_type l) (Inr e) = Inr (Share boolean_type d) \<and>
       den boolean_type (as_bytes d) (of_bool (\<not> a)))"
proof (intro conjI impI)
  have f: "format l = format r" using assms(2,3) by simp
  obtain p where p: "multiply_share_data e boolean_type l r = Inr p"
      "den boolean_type (as_bytes p) (of_bool a * of_bool b)" "format p = fmt"
    using share_data_computes(3) [OF assms(1,4,5) f] by blast
  obtain s where s: "add_data e boolean_type l r = Inr s"
      "den boolean_type (as_bytes s) (of_bool a + of_bool b)" "format s = fmt"
    using share_data_computes(1) [OF assms(1,4,5) f] assms(2) by auto
  obtain q where q: "mul_scalar_data e boolean_type p 2 = Inr q"
      "den boolean_type (as_bytes q) (of_bool a * of_bool b * 2)" "format q = fmt"
    using scalar_data_computes(1) [OF assms(1) p(2), of 2] p(3) by auto
  show "\<exists>d. bit_and (Share boolean_type l) (Share boolean_type r) (Inr e) = Inr (Share boolean_type d) \<and>
      den boolean_type (as_bytes d) (of_bool (a \<and> b))"
    using p by (auto simp: bool_share_defs clear_ops_on_shares of_bool_conj)
  have "of_bool a + of_bool b - of_bool a * of_bool b = (of_bool (a \<or> b) :: int)" by simp
  then show "\<exists>d. bit_or (Share boolean_type l) (Share boolean_type r) (Inr e) = Inr (Share boolean_type d) \<and>
      den boolean_type (as_bytes d) (of_bool (a \<or> b))"
    using p s share_data_computes(2) [OF assms(1) s(2) p(2)]
    by (auto simp: bool_share_defs clear_ops_on_shares)
  have "of_bool a + of_bool b - of_bool a * of_bool b * 2 = (of_bool (a \<noteq> b) :: int)" by simp
  then show "\<exists>d. bit_xor_op (Share boolean_type l) (Share boolean_type r) (Inr e) = Inr (Share boolean_type d) \<and>
      den boolean_type (as_bytes d) (of_bool (a \<noteq> b))"
    using p s q share_data_computes(2) [OF assms(1) s(2) q(2)]
    by (auto simp: bool_share_defs clear_ops_on_shares)
  show "\<exists>d. bit_not (Share boolean_type l) (Inr e) = Inr (Share boolean_type d) \<and>
      den boolean_type (as_bytes d) (of_bool (\<not> a))"
    using scalar_data_computes(2) [OF assms(1,4), of 1]
    by (auto simp: bool_share_defs clear_ops_on_shares of_bool_not_iff)
qed

definition den_clear :: "share_type \<Rightarrow> byte list \<Rightarrow> int \<Rightarrow> bool" where
  "den_clear ty bs x = ((of_nat (le_value bs) :: u64) = of_int x)"

lemma den_clear_bytes: "den_clear ty (le_bytes 8 (unat (w :: u64))) x \<longleftrightarrow> w = of_int x"
proof -
  have "unat w < 256 ^ 8" using unsigned_less [of w] by simp
  then show ?thesis by (simp add: den_clear_def le_value_le_bytes del: le_bytes.simps)
qed

lemma clear_engine_computes: "engine_computes clear_engine OpaqueFormat den_clear"
  unfolding engine_computes_def clear_engine_def
  by (simp add: den_clear_bytes del: le_bytes.simps) (auto simp: den_clear_def)

theorem secret_boolean_operators_witness:
  "\<exists>d. bit_xor_op (Share boolean_type (Opaque [1])) (Share boolean_type (Opaque [0])) (Inr clear_engine) =
         Inr (Share boolean_type d) \<and> den_clear boolean_type (as_bytes d) 1"
  using secret_boolean_operators [THEN conjunct2, THEN conjunct2, THEN conjunct1, rule_format, OF clear_engine_computes, of "Opaque [1]" "Opaque [0]" True False]
  by (simp add: den_clear_def)

end
