(* ===== verification/Bytecode.thy ===== *)
theory Bytecode
  imports Registers
begin

text \<open>
  The instruction set of \<open>stoffel-vm-types/src/instructions.rs\<close> in its symbolic, resolved and
  input forms (constructors with the prefixes \<open>I\<close>, \<open>R\<close> and \<open>N\<close>), and the functions of
  \<open>stoffel-vm-types/src/functions.rs\<close> with the resolution of symbolic instructions: frame size
  from the referenced registers, register validation, labels to indices, constants and call
  targets to tables.
\<close>

section \<open>Instructions\<close>

datatype (plugins only: code) instruction =
    I_NOP
  | I_LD usize i32
  | I_LDI usize val
  | I_MOV usize usize
  | I_ADD usize usize usize
  | I_SUB usize usize usize
  | I_MUL usize usize usize
  | I_DIV usize usize usize
  | I_MOD usize usize usize
  | I_AND usize usize usize
  | I_OR usize usize usize
  | I_XOR usize usize usize
  | I_NOT usize usize
  | I_SHL usize usize usize
  | I_SHR usize usize usize
  | I_JMP string
  | I_JMPEQ string
  | I_JMPNEQ string
  | I_JMPLT string
  | I_JMPGT string
  | I_CALL string
  | I_RET usize
  | I_PUSHARG usize
  | I_CMP usize usize
  | I_LDS usize usize
  | I_STS usize usize

datatype (plugins only: code) resolved_instruction =
    R_NOP
  | R_LD u32 i32
  | R_LDI u32 u32
  | R_MOV u32 u32
  | R_ADD u32 u32 u32
  | R_SUB u32 u32 u32
  | R_MUL u32 u32 u32
  | R_DIV u32 u32 u32
  | R_MOD u32 u32 u32
  | R_AND u32 u32 u32
  | R_OR u32 u32 u32
  | R_XOR u32 u32 u32
  | R_NOT u32 u32
  | R_SHL u32 u32 u32
  | R_SHR u32 u32 u32
  | R_JMP u32
  | R_JMPEQ u32
  | R_JMPNEQ u32
  | R_JMPLT u32
  | R_JMPGT u32
  | R_CALL u32
  | R_RET u32
  | R_PUSHARG u32
  | R_CMP u32 u32
  | R_LDS u32 u32
  | R_STS u32 u32

datatype (plugins only: code) resolved_instruction_input =
    N_NOP
  | N_LD u32 i32
  | N_LDI u32 val
  | N_MOV u32 u32
  | N_ADD u32 u32 u32
  | N_SUB u32 u32 u32
  | N_MUL u32 u32 u32
  | N_DIV u32 u32 u32
  | N_MOD u32 u32 u32
  | N_AND u32 u32 u32
  | N_OR u32 u32 u32
  | N_XOR u32 u32 u32
  | N_NOT u32 u32
  | N_SHL u32 u32 u32
  | N_SHR u32 u32 u32
  | N_JMP u32
  | N_JMPEQ u32
  | N_JMPNEQ u32
  | N_JMPLT u32
  | N_JMPGT u32
  | N_CALL string
  | N_RET u32
  | N_PUSHARG u32
  | N_CMP u32 u32
  | N_LDS u32 u32
  | N_STS u32 u32

section \<open>Functions\<close>

record vm_function =
  resolved_instructions :: "resolved_instruction list option"
  constant_values :: "val list option"
  call_target_names :: "string list option"
  fn_name :: string
  parameters :: "string list"
  fn_upvalues :: "string list"
  fn_parent :: "string option"
  register_count :: usize
  instructions :: "instruction list"
  labels :: "(string \<times> usize) list"

definition vm_function_new ::
  "string \<Rightarrow> string list \<Rightarrow> string list \<Rightarrow> string option \<Rightarrow> usize \<Rightarrow> instruction list \<Rightarrow>
   (string \<times> usize) list \<Rightarrow> vm_function" where
  "vm_function_new name params ups par regs ins ls =
     \<lparr>resolved_instructions = None, constant_values = None, call_target_names = None, fn_name = name,
      parameters = params, fn_upvalues = ups, fn_parent = par, register_count = regs,
      instructions = ins, labels = ls\<rparr>"

fun max_referenced_register :: "instruction \<Rightarrow> usize option" where
  "max_referenced_register (I_LD r _) = Some r"
| "max_referenced_register (I_LDI r _) = Some r"
| "max_referenced_register (I_RET r) = Some r"
| "max_referenced_register (I_PUSHARG r) = Some r"
| "max_referenced_register (I_LDS r _) = Some r"
| "max_referenced_register (I_STS _ r) = Some r"
| "max_referenced_register (I_MOV a b) = Some (max a b)"
| "max_referenced_register (I_NOT a b) = Some (max a b)"
| "max_referenced_register (I_CMP a b) = Some (max a b)"
| "max_referenced_register (I_ADD a b c) = Some (max (max a b) c)"
| "max_referenced_register (I_SUB a b c) = Some (max (max a b) c)"
| "max_referenced_register (I_MUL a b c) = Some (max (max a b) c)"
| "max_referenced_register (I_DIV a b c) = Some (max (max a b) c)"
| "max_referenced_register (I_MOD a b c) = Some (max (max a b) c)"
| "max_referenced_register (I_AND a b c) = Some (max (max a b) c)"
| "max_referenced_register (I_OR a b c) = Some (max (max a b) c)"
| "max_referenced_register (I_XOR a b c) = Some (max (max a b) c)"
| "max_referenced_register (I_SHL a b c) = Some (max (max a b) c)"
| "max_referenced_register (I_SHR a b c) = Some (max (max a b) c)"
| "max_referenced_register _ = None"

fun max_referenced_resolved_register :: "resolved_instruction \<Rightarrow> usize option" where
  "max_referenced_resolved_register (R_LD r _) = Some (unat r)"
| "max_referenced_resolved_register (R_LDI r _) = Some (unat r)"
| "max_referenced_resolved_register (R_RET r) = Some (unat r)"
| "max_referenced_resolved_register (R_PUSHARG r) = Some (unat r)"
| "max_referenced_resolved_register (R_LDS r _) = Some (unat r)"
| "max_referenced_resolved_register (R_STS _ r) = Some (unat r)"
| "max_referenced_resolved_register (R_MOV a b) = Some (unat (max a b))"
| "max_referenced_resolved_register (R_NOT a b) = Some (unat (max a b))"
| "max_referenced_resolved_register (R_CMP a b) = Some (unat (max a b))"
| "max_referenced_resolved_register (R_ADD a b c) = Some (unat (max (max a b) c))"
| "max_referenced_resolved_register (R_SUB a b c) = Some (unat (max (max a b) c))"
| "max_referenced_resolved_register (R_MUL a b c) = Some (unat (max (max a b) c))"
| "max_referenced_resolved_register (R_DIV a b c) = Some (unat (max (max a b) c))"
| "max_referenced_resolved_register (R_MOD a b c) = Some (unat (max (max a b) c))"
| "max_referenced_resolved_register (R_AND a b c) = Some (unat (max (max a b) c))"
| "max_referenced_resolved_register (R_OR a b c) = Some (unat (max (max a b) c))"
| "max_referenced_resolved_register (R_XOR a b c) = Some (unat (max (max a b) c))"
| "max_referenced_resolved_register (R_SHL a b c) = Some (unat (max (max a b) c))"
| "max_referenced_resolved_register (R_SHR a b c) = Some (unat (max (max a b) c))"
| "max_referenced_resolved_register _ = None"

definition max_plus_one :: "string \<Rightarrow> usize list \<Rightarrow> function_error + usize" where
  "max_plus_one name regs =
     (if regs = [] then Inr 0
      else let m = Max (set regs) in ok_or (RegisterIndexOverflow name m) (checked_add_usize m 1))"

definition referenced_register_count :: "string \<Rightarrow> instruction list \<Rightarrow> function_error + usize" where
  "referenced_register_count name ins = max_plus_one name (List.map_filter max_referenced_register ins)"

definition referenced_resolved_register_count ::
  "string \<Rightarrow> resolved_instruction list \<Rightarrow> function_error + usize" where
  "referenced_resolved_register_count name ins =
     max_plus_one name (List.map_filter max_referenced_resolved_register ins)"

definition try_new_resolved_with_call_targets ::
  "string \<Rightarrow> string list \<Rightarrow> string list \<Rightarrow> string option \<Rightarrow> usize \<Rightarrow> resolved_instruction list \<Rightarrow>
   val list \<Rightarrow> string list \<Rightarrow> function_error + vm_function" where
  "try_new_resolved_with_call_targets name params ups par regs ins cs ns =
     rbind (referenced_resolved_register_count name ins) (\<lambda>referenced.
       let n = max (max (max regs MIN_FRAME_REGISTER_COUNT) (length params)) referenced
       in if n < length params then Inl (ParametersExceedRegisters name (length params) n)
          else Inr \<lparr>resolved_instructions = Some ins, constant_values = Some cs, call_target_names = Some ns,
                    fn_name = name, parameters = params, fn_upvalues = ups, fn_parent = par,
                    register_count = n, instructions = [], labels = []\<rparr>)"

definition take_resolved_parts ::
  "vm_function \<Rightarrow> (resolved_instruction list \<times> val list \<times> string list) option \<times> vm_function" where
  "take_resolved_parts f =
     (case resolved_instructions f of
        None \<Rightarrow> (None, f)
      | Some ins \<Rightarrow>
          (Some (ins, case constant_values f of None \<Rightarrow> [] | Some cs \<Rightarrow> cs,
                 case call_target_names f of None \<Rightarrow> [] | Some ns \<Rightarrow> ns),
           f\<lparr>resolved_instructions := None, constant_values := None, call_target_names := None\<rparr>))"

definition discard_resolved_instructions :: "vm_function \<Rightarrow> vm_function" where
  "discard_resolved_instructions f =
     f\<lparr>resolved_instructions := None, constant_values := None, call_target_names := None\<rparr>"

definition discard_source_instructions :: "vm_function \<Rightarrow> vm_function" where
  "discard_source_instructions f = f\<lparr>instructions := [], labels := []\<rparr>"

definition try_frame_register_count :: "vm_function \<Rightarrow> function_error + usize" where
  "try_frame_register_count f =
     map_ok (\<lambda>referenced. max (max (max (register_count f) MIN_FRAME_REGISTER_COUNT) (length (parameters f))) referenced)
       (referenced_register_count (fn_name f) (instructions f))"

section \<open>Resolution\<close>

definition resolved_operand :: "string \<Rightarrow> string \<Rightarrow> usize \<Rightarrow> function_error + u32" where
  "resolved_operand f operand v = ok_or (ResolvedOperandOverflow f operand v) (u32_try_from v)"

definition validate_register :: "string \<Rightarrow> usize \<Rightarrow> usize \<Rightarrow> usize \<Rightarrow> function_error + unit" where
  "validate_register f i r n = (if r < n then Inr () else Inl (FnRegisterOutOfBounds f i r n))"

fun validate_instruction_registers ::
  "string \<Rightarrow> usize \<Rightarrow> instruction \<Rightarrow> usize \<Rightarrow> function_error + unit" where
  "validate_instruction_registers f i (I_LD r _) n = validate_register f i r n"
| "validate_instruction_registers f i (I_LDI r _) n = validate_register f i r n"
| "validate_instruction_registers f i (I_RET r) n = validate_register f i r n"
| "validate_instruction_registers f i (I_PUSHARG r) n = validate_register f i r n"
| "validate_instruction_registers f i (I_LDS r _) n = validate_register f i r n"
| "validate_instruction_registers f i (I_STS _ r) n = validate_register f i r n"
| "validate_instruction_registers f i (I_MOV a b) n = rbind (validate_register f i a n) (\<lambda>_. validate_register f i b n)"
| "validate_instruction_registers f i (I_NOT a b) n = rbind (validate_register f i a n) (\<lambda>_. validate_register f i b n)"
| "validate_instruction_registers f i (I_CMP a b) n = rbind (validate_register f i a n) (\<lambda>_. validate_register f i b n)"
| "validate_instruction_registers f i (I_ADD a b c) n =
     rbind (validate_register f i a n) (\<lambda>_. rbind (validate_register f i b n) (\<lambda>_. validate_register f i c n))"
| "validate_instruction_registers f i (I_SUB a b c) n =
     rbind (validate_register f i a n) (\<lambda>_. rbind (validate_register f i b n) (\<lambda>_. validate_register f i c n))"
| "validate_instruction_registers f i (I_MUL a b c) n =
     rbind (validate_register f i a n) (\<lambda>_. rbind (validate_register f i b n) (\<lambda>_. validate_register f i c n))"
| "validate_instruction_registers f i (I_DIV a b c) n =
     rbind (validate_register f i a n) (\<lambda>_. rbind (validate_register f i b n) (\<lambda>_. validate_register f i c n))"
| "validate_instruction_registers f i (I_MOD a b c) n =
     rbind (validate_register f i a n) (\<lambda>_. rbind (validate_register f i b n) (\<lambda>_. validate_register f i c n))"
| "validate_instruction_registers f i (I_AND a b c) n =
     rbind (validate_register f i a n) (\<lambda>_. rbind (validate_register f i b n) (\<lambda>_. validate_register f i c n))"
| "validate_instruction_registers f i (I_OR a b c) n =
     rbind (validate_register f i a n) (\<lambda>_. rbind (validate_register f i b n) (\<lambda>_. validate_register f i c n))"
| "validate_instruction_registers f i (I_XOR a b c) n =
     rbind (validate_register f i a n) (\<lambda>_. rbind (validate_register f i b n) (\<lambda>_. validate_register f i c n))"
| "validate_instruction_registers f i (I_SHL a b c) n =
     rbind (validate_register f i a n) (\<lambda>_. rbind (validate_register f i b n) (\<lambda>_. validate_register f i c n))"
| "validate_instruction_registers f i (I_SHR a b c) n =
     rbind (validate_register f i a n) (\<lambda>_. rbind (validate_register f i b n) (\<lambda>_. validate_register f i c n))"
| "validate_instruction_registers f i _ n = Inr ()"

definition resolve_label :: "string \<Rightarrow> (string \<times> usize) list \<Rightarrow> string \<Rightarrow> function_error + usize" where
  "resolve_label f ls l = ok_or (UnknownLabel f l) (hm_get (=) ls l)"

fun check_labels :: "string \<Rightarrow> usize \<Rightarrow> (string \<times> usize) list \<Rightarrow> function_error + unit" where
  "check_labels f n [] = Inr ()"
| "check_labels f n ((l, idx) # ls) =
     (if n < idx then Inl (LabelOutOfBounds f l idx n) else check_labels f n ls)"

fun resolve_instruction ::
  "string \<Rightarrow> (string \<times> usize) list \<Rightarrow> val list \<Rightarrow> string list \<Rightarrow> instruction \<Rightarrow>
   function_error + resolved_instruction \<times> val list \<times> string list" where
  "resolve_instruction f ls cs ns I_NOP = Inr (R_NOP, cs, ns)"
| "resolve_instruction f ls cs ns (I_LD r off) =
     rbind (resolved_operand f ''register'' r) (\<lambda>r. Inr (R_LD r off, cs, ns))"
| "resolve_instruction f ls cs ns (I_LDI r v) =
     rbind (resolved_operand f ''register'' r) (\<lambda>r.
       rbind (resolved_operand f ''constant index'' (length cs)) (\<lambda>k. Inr (R_LDI r k, cs @ [v], ns)))"
| "resolve_instruction f ls cs ns (I_MOV a b) =
     rbind (resolved_operand f ''register'' a) (\<lambda>a. rbind (resolved_operand f ''register'' b) (\<lambda>b. Inr (R_MOV a b, cs, ns)))"
| "resolve_instruction f ls cs ns (I_NOT a b) =
     rbind (resolved_operand f ''register'' a) (\<lambda>a. rbind (resolved_operand f ''register'' b) (\<lambda>b. Inr (R_NOT a b, cs, ns)))"
| "resolve_instruction f ls cs ns (I_CMP a b) =
     rbind (resolved_operand f ''register'' a) (\<lambda>a. rbind (resolved_operand f ''register'' b) (\<lambda>b. Inr (R_CMP a b, cs, ns)))"
| "resolve_instruction f ls cs ns (I_ADD a b c) =
     rbind (resolved_operand f ''register'' a) (\<lambda>a. rbind (resolved_operand f ''register'' b) (\<lambda>b.
       rbind (resolved_operand f ''register'' c) (\<lambda>c. Inr (R_ADD a b c, cs, ns))))"
| "resolve_instruction f ls cs ns (I_SUB a b c) =
     rbind (resolved_operand f ''register'' a) (\<lambda>a. rbind (resolved_operand f ''register'' b) (\<lambda>b.
       rbind (resolved_operand f ''register'' c) (\<lambda>c. Inr (R_SUB a b c, cs, ns))))"
| "resolve_instruction f ls cs ns (I_MUL a b c) =
     rbind (resolved_operand f ''register'' a) (\<lambda>a. rbind (resolved_operand f ''register'' b) (\<lambda>b.
       rbind (resolved_operand f ''register'' c) (\<lambda>c. Inr (R_MUL a b c, cs, ns))))"
| "resolve_instruction f ls cs ns (I_DIV a b c) =
     rbind (resolved_operand f ''register'' a) (\<lambda>a. rbind (resolved_operand f ''register'' b) (\<lambda>b.
       rbind (resolved_operand f ''register'' c) (\<lambda>c. Inr (R_DIV a b c, cs, ns))))"
| "resolve_instruction f ls cs ns (I_MOD a b c) =
     rbind (resolved_operand f ''register'' a) (\<lambda>a. rbind (resolved_operand f ''register'' b) (\<lambda>b.
       rbind (resolved_operand f ''register'' c) (\<lambda>c. Inr (R_MOD a b c, cs, ns))))"
| "resolve_instruction f ls cs ns (I_AND a b c) =
     rbind (resolved_operand f ''register'' a) (\<lambda>a. rbind (resolved_operand f ''register'' b) (\<lambda>b.
       rbind (resolved_operand f ''register'' c) (\<lambda>c. Inr (R_AND a b c, cs, ns))))"
| "resolve_instruction f ls cs ns (I_OR a b c) =
     rbind (resolved_operand f ''register'' a) (\<lambda>a. rbind (resolved_operand f ''register'' b) (\<lambda>b.
       rbind (resolved_operand f ''register'' c) (\<lambda>c. Inr (R_OR a b c, cs, ns))))"
| "resolve_instruction f ls cs ns (I_XOR a b c) =
     rbind (resolved_operand f ''register'' a) (\<lambda>a. rbind (resolved_operand f ''register'' b) (\<lambda>b.
       rbind (resolved_operand f ''register'' c) (\<lambda>c. Inr (R_XOR a b c, cs, ns))))"
| "resolve_instruction f ls cs ns (I_SHL a b c) =
     rbind (resolved_operand f ''register'' a) (\<lambda>a. rbind (resolved_operand f ''register'' b) (\<lambda>b.
       rbind (resolved_operand f ''register'' c) (\<lambda>c. Inr (R_SHL a b c, cs, ns))))"
| "resolve_instruction f ls cs ns (I_SHR a b c) =
     rbind (resolved_operand f ''register'' a) (\<lambda>a. rbind (resolved_operand f ''register'' b) (\<lambda>b.
       rbind (resolved_operand f ''register'' c) (\<lambda>c. Inr (R_SHR a b c, cs, ns))))"
| "resolve_instruction f ls cs ns (I_JMP l) =
     rbind (resolve_label f ls l) (\<lambda>t. rbind (resolved_operand f ''jump target'' t) (\<lambda>t. Inr (R_JMP t, cs, ns)))"
| "resolve_instruction f ls cs ns (I_JMPEQ l) =
     rbind (resolve_label f ls l) (\<lambda>t. rbind (resolved_operand f ''jump target'' t) (\<lambda>t. Inr (R_JMPEQ t, cs, ns)))"
| "resolve_instruction f ls cs ns (I_JMPNEQ l) =
     rbind (resolve_label f ls l) (\<lambda>t. rbind (resolved_operand f ''jump target'' t) (\<lambda>t. Inr (R_JMPNEQ t, cs, ns)))"
| "resolve_instruction f ls cs ns (I_JMPLT l) =
     rbind (resolve_label f ls l) (\<lambda>t. rbind (resolved_operand f ''jump target'' t) (\<lambda>t. Inr (R_JMPLT t, cs, ns)))"
| "resolve_instruction f ls cs ns (I_JMPGT l) =
     rbind (resolve_label f ls l) (\<lambda>t. rbind (resolved_operand f ''jump target'' t) (\<lambda>t. Inr (R_JMPGT t, cs, ns)))"
| "resolve_instruction f ls cs ns (I_CALL g) =
     rbind (resolved_operand f ''call target index'' (length ns)) (\<lambda>k. Inr (R_CALL k, cs, ns @ [g]))"
| "resolve_instruction f ls cs ns (I_RET r) = rbind (resolved_operand f ''register'' r) (\<lambda>r. Inr (R_RET r, cs, ns))"
| "resolve_instruction f ls cs ns (I_PUSHARG r) = rbind (resolved_operand f ''register'' r) (\<lambda>r. Inr (R_PUSHARG r, cs, ns))"
| "resolve_instruction f ls cs ns (I_LDS r s) =
     rbind (resolved_operand f ''register'' r) (\<lambda>r. rbind (resolved_operand f ''spill slot'' s) (\<lambda>s. Inr (R_LDS r s, cs, ns)))"
| "resolve_instruction f ls cs ns (I_STS s r) =
     rbind (resolved_operand f ''spill slot'' s) (\<lambda>s. rbind (resolved_operand f ''register'' r) (\<lambda>r. Inr (R_STS s r, cs, ns)))"

fun resolve_loop ::
  "string \<Rightarrow> (string \<times> usize) list \<Rightarrow> usize \<Rightarrow> usize \<Rightarrow> instruction list \<Rightarrow> val list \<Rightarrow> string list \<Rightarrow>
   function_error + resolved_instruction list \<times> val list \<times> string list" where
  "resolve_loop f ls n idx [] cs ns = Inr ([], cs, ns)"
| "resolve_loop f ls n idx (i # is) cs ns =
     rbind (validate_instruction_registers f idx i n) (\<lambda>_.
       rbind (resolve_instruction f ls cs ns i) (\<lambda>(r, cs', ns').
         rbind (resolve_loop f ls n (Suc idx) is cs' ns') (\<lambda>(rs, cs'', ns'').
           Inr (r # rs, cs'', ns''))))"

text \<open>The frame size is written before the instructions are checked, so a failed resolution
  leaves it behind.\<close>

definition resolve_instructions :: "(vm_function, function_error, unit) meth" where
  "resolve_instructions f =
     (case resolved_instructions f of
        Some _ \<Rightarrow> (Inr (), f)
      | None \<Rightarrow>
          (case try_frame_register_count f of
             Inl e \<Rightarrow> (Inl e, f)
           | Inr n \<Rightarrow>
               let g = f\<lparr>register_count := n\<rparr>
               in if n < length (parameters g)
                  then (Inl (ParametersExceedRegisters (fn_name g) (length (parameters g)) n), g)
                  else case rbind (check_labels (fn_name g) (length (instructions g)) (labels g))
                              (\<lambda>_. resolve_loop (fn_name g) (labels g) n 0 (instructions g) [] []) of
                         Inl e \<Rightarrow> (Inl e, g)
                       | Inr (rs, cs, ns) \<Rightarrow>
                           (Inr (), g\<lparr>resolved_instructions := Some rs, constant_values := Some cs,
                                      call_target_names := Some ns\<rparr>)))"

section \<open>What resolution establishes\<close>

text \<open>A resolved instruction that stands for a symbolic one, with respect to the labels and the two tables.\<close>

fun resolves_to ::
  "(string \<times> usize) list \<Rightarrow> val list \<Rightarrow> string list \<Rightarrow> instruction \<Rightarrow> resolved_instruction \<Rightarrow> bool" where
  "resolves_to ls cs ns I_NOP x = (x = R_NOP)"
| "resolves_to ls cs ns (I_LD r off) x = (\<exists>r'. x = R_LD r' off \<and> unat r' = r)"
| "resolves_to ls cs ns (I_LDI r v) x = (\<exists>r' k. x = R_LDI r' k \<and> unat r' = r \<and> vec_get cs (unat k) = Some v)"
| "resolves_to ls cs ns (I_MOV a b) x = (\<exists>a' b'. x = R_MOV a' b' \<and> unat a' = a \<and> unat b' = b)"
| "resolves_to ls cs ns (I_NOT a b) x = (\<exists>a' b'. x = R_NOT a' b' \<and> unat a' = a \<and> unat b' = b)"
| "resolves_to ls cs ns (I_CMP a b) x = (\<exists>a' b'. x = R_CMP a' b' \<and> unat a' = a \<and> unat b' = b)"
| "resolves_to ls cs ns (I_LDS a b) x = (\<exists>a' b'. x = R_LDS a' b' \<and> unat a' = a \<and> unat b' = b)"
| "resolves_to ls cs ns (I_STS a b) x = (\<exists>a' b'. x = R_STS a' b' \<and> unat a' = a \<and> unat b' = b)"
| "resolves_to ls cs ns (I_ADD a b c) x = (\<exists>a' b' c'. x = R_ADD a' b' c' \<and> unat a' = a \<and> unat b' = b \<and> unat c' = c)"
| "resolves_to ls cs ns (I_SUB a b c) x = (\<exists>a' b' c'. x = R_SUB a' b' c' \<and> unat a' = a \<and> unat b' = b \<and> unat c' = c)"
| "resolves_to ls cs ns (I_MUL a b c) x = (\<exists>a' b' c'. x = R_MUL a' b' c' \<and> unat a' = a \<and> unat b' = b \<and> unat c' = c)"
| "resolves_to ls cs ns (I_DIV a b c) x = (\<exists>a' b' c'. x = R_DIV a' b' c' \<and> unat a' = a \<and> unat b' = b \<and> unat c' = c)"
| "resolves_to ls cs ns (I_MOD a b c) x = (\<exists>a' b' c'. x = R_MOD a' b' c' \<and> unat a' = a \<and> unat b' = b \<and> unat c' = c)"
| "resolves_to ls cs ns (I_AND a b c) x = (\<exists>a' b' c'. x = R_AND a' b' c' \<and> unat a' = a \<and> unat b' = b \<and> unat c' = c)"
| "resolves_to ls cs ns (I_OR a b c) x = (\<exists>a' b' c'. x = R_OR a' b' c' \<and> unat a' = a \<and> unat b' = b \<and> unat c' = c)"
| "resolves_to ls cs ns (I_XOR a b c) x = (\<exists>a' b' c'. x = R_XOR a' b' c' \<and> unat a' = a \<and> unat b' = b \<and> unat c' = c)"
| "resolves_to ls cs ns (I_SHL a b c) x = (\<exists>a' b' c'. x = R_SHL a' b' c' \<and> unat a' = a \<and> unat b' = b \<and> unat c' = c)"
| "resolves_to ls cs ns (I_SHR a b c) x = (\<exists>a' b' c'. x = R_SHR a' b' c' \<and> unat a' = a \<and> unat b' = b \<and> unat c' = c)"
| "resolves_to ls cs ns (I_JMP l) x = (\<exists>t. x = R_JMP t \<and> hm_get (=) ls l = Some (unat t))"
| "resolves_to ls cs ns (I_JMPEQ l) x = (\<exists>t. x = R_JMPEQ t \<and> hm_get (=) ls l = Some (unat t))"
| "resolves_to ls cs ns (I_JMPNEQ l) x = (\<exists>t. x = R_JMPNEQ t \<and> hm_get (=) ls l = Some (unat t))"
| "resolves_to ls cs ns (I_JMPLT l) x = (\<exists>t. x = R_JMPLT t \<and> hm_get (=) ls l = Some (unat t))"
| "resolves_to ls cs ns (I_JMPGT l) x = (\<exists>t. x = R_JMPGT t \<and> hm_get (=) ls l = Some (unat t))"
| "resolves_to ls cs ns (I_CALL g) x = (\<exists>k. x = R_CALL k \<and> vec_get ns (unat k) = Some g)"
| "resolves_to ls cs ns (I_RET r) x = (\<exists>r'. x = R_RET r' \<and> unat r' = r)"
| "resolves_to ls cs ns (I_PUSHARG r) x = (\<exists>r'. x = R_PUSHARG r' \<and> unat r' = r)"

lemma resolved_operand_Inr: "resolved_operand f k v = Inr w \<longleftrightarrow> unat w = v"
  by (simp add: resolved_operand_def u32_try_from_Some)

lemma vec_get_append: "vec_get xs i = Some x \<Longrightarrow> vec_get (xs @ ys) i = Some x"
  by (auto simp: vec_get_def nth_append split: if_splits)

lemma resolves_to_mono:
  "resolves_to ls cs ns i r \<Longrightarrow> resolves_to ls (cs @ cs') (ns @ ns') i r"
  by (cases i) (auto intro: vec_get_append)

lemma resolve_instruction_ok:
  "resolve_instruction f ls cs ns i = Inr (r, cs', ns') \<Longrightarrow>
   resolves_to ls cs' ns' i r \<and> (\<exists>us. cs' = cs @ us) \<and> (\<exists>us. ns' = ns @ us)"
  by (cases i) (auto simp: rbind_Inr_iff resolved_operand_Inr resolve_label_def)

lemma resolve_loop_ok:
  "resolve_loop f ls n idx is cs ns = Inr (rs, cs', ns') \<Longrightarrow>
   list_all2 (resolves_to ls cs' ns') is rs \<and> (\<exists>us. cs' = cs @ us) \<and> (\<exists>us. ns' = ns @ us) \<and>
   (\<forall>i < length is. validate_instruction_registers f (idx + i) (is ! i) n = Inr ())"
proof (induction "is" arbitrary: idx cs ns rs)
  case (Cons i "is")
  then obtain r cs1 ns1 rs' where s: "validate_instruction_registers f idx i n = Inr ()"
      "resolve_instruction f ls cs ns i = Inr (r, cs1, ns1)"
      "resolve_loop f ls n (Suc idx) is cs1 ns1 = Inr (rs', cs', ns')" "rs = r # rs'"
    by (auto simp: rbind_Inr_iff)
  note IH = Cons.IH [OF s(3)] and one = resolve_instruction_ok [OF s(2)]
  obtain us vs where "cs' = cs1 @ us" "ns' = ns1 @ vs" using IH by blast
  then have "resolves_to ls cs' ns' i r" using one resolves_to_mono by blast
  then show ?case using IH one s by (auto simp: All_less_Suc2)
qed simp

lemma check_labels_ok: "check_labels f n ls = Inr () \<Longrightarrow> hm_get (=) ls l = Some i \<Longrightarrow> i \<le> n"
  by (induction ls) (auto split: if_splits)

lemma map_filter_max: "x \<in> set is \<Longrightarrow> g x = Some r \<Longrightarrow> r \<in> set (List.map_filter g is)"
  by (induction "is") (auto simp: List.map_filter_simps split: option.splits)

lemma max_plus_one_bound: "max_plus_one f regs = Inr n \<Longrightarrow> r \<in> set regs \<Longrightarrow> r < n"
  by (auto simp: max_plus_one_def Let_def checked_add_usize_def less_Suc_eq_le split: if_splits)

lemma frame_register_count_bound:
  assumes "try_frame_register_count f = Inr n"
  shows "i \<in> set (instructions f) \<Longrightarrow> max_referenced_register i = Some r \<Longrightarrow> r < n"
    and "MIN_FRAME_REGISTER_COUNT \<le> n" "length (parameters f) \<le> n" "register_count f \<le> n"
proof -
  obtain m where m: "referenced_register_count (fn_name f) (instructions f) = Inr m"
    and n: "n = max (max (max (register_count f) MIN_FRAME_REGISTER_COUNT) (length (parameters f))) m"
    using assms by (auto simp: try_frame_register_count_def map_ok_Inr_iff)
  show "i \<in> set (instructions f) \<Longrightarrow> max_referenced_register i = Some r \<Longrightarrow> r < n"
    using max_plus_one_bound [OF m [unfolded referenced_register_count_def]] map_filter_max n by fastforce
  show "MIN_FRAME_REGISTER_COUNT \<le> n" "length (parameters f) \<le> n" "register_count f \<le> n" by (simp_all add: n)
qed

lemma validate_bounded:
  "(\<And>r. max_referenced_register i = Some r \<Longrightarrow> r < n) \<Longrightarrow> validate_instruction_registers f idx i n = Inr ()"
  by (cases i) (auto simp: validate_register_def)

text \<open>Instructions whose operands fit the compact form: registers and slots of 32 bits and known
  labels.\<close>

fun encodable :: "(string \<times> usize) list \<Rightarrow> instruction \<Rightarrow> bool" where
  "encodable ls (I_JMP l) = (\<exists>t < 2 ^ 32. hm_get (=) ls l = Some t)"
| "encodable ls (I_JMPEQ l) = (\<exists>t < 2 ^ 32. hm_get (=) ls l = Some t)"
| "encodable ls (I_JMPNEQ l) = (\<exists>t < 2 ^ 32. hm_get (=) ls l = Some t)"
| "encodable ls (I_JMPLT l) = (\<exists>t < 2 ^ 32. hm_get (=) ls l = Some t)"
| "encodable ls (I_JMPGT l) = (\<exists>t < 2 ^ 32. hm_get (=) ls l = Some t)"
| "encodable ls (I_LDS r s) = (r < 2 ^ 32 \<and> s < 2 ^ 32)"
| "encodable ls (I_STS s r) = (r < 2 ^ 32 \<and> s < 2 ^ 32)"
| "encodable ls i = (\<forall>r. max_referenced_register i = Some r \<longrightarrow> r < 2 ^ 32)"

lemma resolved_operand_ok: "v < 2 ^ 32 \<Longrightarrow> \<exists>w. resolved_operand f k v = Inr w"
  by (simp add: resolved_operand_def u32_try_from_def)

lemma resolve_instruction_total:
  assumes "encodable ls i" "length cs < 2 ^ 32" "length ns < 2 ^ 32"
  shows "\<exists>r cs' ns'. resolve_instruction f ls cs ns i = Inr (r, cs', ns') \<and>
           length cs' \<le> Suc (length cs) \<and> length ns' \<le> Suc (length ns)"
  using assms
  by (cases i) (auto simp: resolved_operand_def u32_try_from_def resolve_label_def)

lemma resolve_loop_total:
  assumes "\<forall>i \<in> set is. encodable ls i \<and> (\<forall>r. max_referenced_register i = Some r \<longrightarrow> r < n)"
    and "length cs + length is < 2 ^ 32" "length ns + length is < 2 ^ 32"
  shows "\<exists>out. resolve_loop f ls n idx is cs ns = Inr out"
  using assms
proof (induction "is" arbitrary: idx cs ns)
  case (Cons i "is")
  have v: "validate_instruction_registers f idx i n = Inr ()" using Cons.prems(1) by (intro validate_bounded) auto
  obtain r cs' ns' where r: "resolve_instruction f ls cs ns i = Inr (r, cs', ns')"
      "length cs' \<le> Suc (length cs)" "length ns' \<le> Suc (length ns)"
    using resolve_instruction_total [of ls i cs ns f] Cons.prems by auto
  obtain out where "resolve_loop f ls n (Suc idx) is cs' ns' = Inr out"
    using Cons.IH [of cs' ns' "Suc idx"] Cons.prems r by auto
  then show ?case using v r by (cases out) simp
qed simp

lemma resolve_instructions_facts:
  assumes "resolve_instructions f = (Inr (), g)" "resolved_instructions f = None"
  shows "\<exists>rs cs ns.
    g = f\<lparr>register_count := register_count g, resolved_instructions := Some rs, constant_values := Some cs,
          call_target_names := Some ns\<rparr> \<and>
    list_all2 (resolves_to (labels f) cs ns) (instructions f) rs"
    and "hm_get (=) (labels f) l = Some i \<Longrightarrow> i \<le> length (instructions f)"
    and "\<forall>i \<in> set (instructions f). \<forall>r. max_referenced_register i = Some r \<longrightarrow> r < register_count g"
    and "MIN_FRAME_REGISTER_COUNT \<le> register_count g" "length (parameters f) \<le> register_count g"
proof -
  obtain n where n: "try_frame_register_count f = Inr n" using assms
    by (auto simp: resolve_instructions_def split: sum.splits)
  then obtain rs cs ns where c: "check_labels (fn_name f) (length (instructions f)) (labels f) = Inr ()"
    and l: "resolve_loop (fn_name f) (labels f) n 0 (instructions f) [] [] = Inr (rs, cs, ns)"
    and g: "g = f\<lparr>register_count := n, resolved_instructions := Some rs, constant_values := Some cs,
        call_target_names := Some ns\<rparr>"
    using assms by (auto simp: resolve_instructions_def Let_def rbind_Inr_iff split: sum.splits if_splits)
  note facts = resolve_loop_ok [OF l] check_labels_ok [OF c] frame_register_count_bound [OF n]
  have "register_count g = n" by (simp add: g)
  then show "\<exists>rs cs ns. g = f\<lparr>register_count := register_count g, resolved_instructions := Some rs,
        constant_values := Some cs, call_target_names := Some ns\<rparr> \<and>
      list_all2 (resolves_to (labels f) cs ns) (instructions f) rs"
    and "hm_get (=) (labels f) l = Some i \<Longrightarrow> i \<le> length (instructions f)"
    and "\<forall>i \<in> set (instructions f). \<forall>r. max_referenced_register i = Some r \<longrightarrow> r < register_count g"
    and "MIN_FRAME_REGISTER_COUNT \<le> register_count g" "length (parameters f) \<le> register_count g"
    using g facts by auto
qed

section \<open>Properties\<close>

text \<open>C27: a successful resolution produces one resolved instruction per symbolic one that stands for
  it (same operation, same registers, the constant, label target or function name found through
  the tables), a frame that covers every referenced register, the parameters and the return
  register, and leaves the source of the function as it was.\<close>

theorem resolve_instructions_correct:
  assumes "resolve_instructions f = (Inr (), g)" "resolved_instructions f = None"
  shows "(\<exists>rs cs ns.
    g = f\<lparr>register_count := register_count g, resolved_instructions := Some rs, constant_values := Some cs,
    call_target_names := Some ns\<rparr> \<and>
    list_all2 (resolves_to (labels f) cs ns) (instructions f) rs) \<and>
   (hm_get (=) (labels f) l = Some i \<longrightarrow> i \<le> length (instructions f)) \<and>
   (\<forall>i \<in> set (instructions f). \<forall>r. max_referenced_register i = Some r \<longrightarrow> r < register_count g) \<and>
   (MIN_FRAME_REGISTER_COUNT \<le> register_count g) \<and>
   (length (parameters f) \<le> register_count g)"
  using resolve_instructions_facts [OF assms] by auto

text \<open>resolution of an unresolved function succeeds whenever its labels point into the function
  and its instructions fit the compact form; register validation cannot fail, because the
  frame was first extended to the registers the instructions reference.\<close>

theorem resolve_instructions_total:
  assumes "resolved_instructions f = None"
    and "\<forall>(l, i) \<in> set (labels f). i \<le> length (instructions f)"
    and "\<forall>i \<in> set (instructions f). encodable (labels f) i \<and>
           (\<forall>r. max_referenced_register i = Some r \<longrightarrow> r < 2 ^ 32)"
    and "length (instructions f) < 2 ^ 32"
  shows "fst (resolve_instructions f) = Inr ()"
proof -
  let ?regs = "List.map_filter max_referenced_register (instructions f)"
  have regs: "r < 2 ^ 32" if "r \<in> set ?regs" for r
    using that assms(3) by (force simp: List.map_filter_def)
  have "\<exists>m. referenced_register_count (fn_name f) (instructions f) = Inr m"
  proof (cases "?regs = []")
    case False
    define m where "m = Max (set ?regs)"
    have "m < 2 ^ 32" using False regs by (simp add: m_def)
    then show ?thesis using False unfolding m_def [symmetric]
      by (simp add: referenced_register_count_def max_plus_one_def Let_def checked_add_usize_def usize_max_def
          flip: m_def)
  qed (simp add: referenced_register_count_def max_plus_one_def)
  then obtain n where n: "try_frame_register_count f = Inr n" by (auto simp: try_frame_register_count_def)
  have c: "check_labels (fn_name f) (length (instructions f)) ls = Inr ()"
    if "\<forall>(l, i) \<in> set ls. i \<le> length (instructions f)" for ls
    using that by (induction ls) auto
  obtain out where "resolve_loop (fn_name f) (labels f) n 0 (instructions f) [] [] = Inr out"
    using resolve_loop_total [of "instructions f" "labels f" n "[]" "[]"] assms(3,4)
      frame_register_count_bound(1) [OF n] by fastforce
  then show ?thesis using n c [OF assms(2)] assms(1) frame_register_count_bound(3) [OF n]
    by (cases out) (simp add: resolve_instructions_def Let_def)
qed

definition sample_function :: vm_function where
  "sample_function = vm_function_new ''f'' [''x''] [] None 0
     [I_LDI 1 (I64 5), I_ADD 16 0 1, I_JMP ''out'', I_NOP, I_RET 16] [(''out'', 4)]"

theorem resolve_instructions_total_witness: "fst (resolve_instructions sample_function) = Inr ()"
  by (rule resolve_instructions_total) (simp_all add: sample_function_def vm_function_new_def)

theorem resolve_instructions_correct_witness:
  "\<exists>g rs. resolve_instructions sample_function = (Inr (), g) \<and> resolved_instructions g = Some rs \<and>
          length rs = 5 \<and> 16 < register_count g"
proof -
  have "fst (resolve_instructions sample_function) = Inr ()"
    by (simp add: resolve_instructions_def sample_function_def vm_function_new_def try_frame_register_count_def
        referenced_register_count_def max_plus_one_def List.map_filter_def checked_add_usize_def usize_max_def
        MIN_FRAME_REGISTER_COUNT_def RETURN_REGISTER_INDEX_def Let_def validate_register_def resolved_operand_def
        u32_try_from_def resolve_label_def)
  then obtain g where g: "resolve_instructions sample_function = (Inr (), g)"
    by (metis surjective_pairing)
  have "resolved_instructions sample_function = None" by (simp add: sample_function_def vm_function_new_def)
  note correct = resolve_instructions_correct [OF g this]
  obtain rs cs ns where rs: "g = sample_function\<lparr>register_count := register_count g, resolved_instructions := Some rs,
        constant_values := Some cs, call_target_names := Some ns\<rparr>"
      "list_all2 (resolves_to (labels sample_function) cs ns) (instructions sample_function) rs"
    using conjunct1 [OF correct] by blast
  have "resolved_instructions g = Some rs" by (subst rs(1)) simp
  moreover have "length rs = 5" using list_all2_lengthD [OF rs(2)] by (simp add: sample_function_def vm_function_new_def)
  moreover have "16 < register_count g" using conjunct1 [OF conjunct2 [OF conjunct2 [OF correct]]] by (simp add: sample_function_def vm_function_new_def)
  ultimately show ?thesis using g by blast
qed

end
