(* ===== verification/Runtime_Instruction.thy ===== *)
theory Runtime_Instruction
  imports Bytecode
begin

text \<open>
  The execution form of functions, from \<open>stoffel-vm/src/runtime_instruction.rs\<close>: instructions
  packed into thirteen bytes, constants and call targets interned per function, and the three
  ways a function is lowered (from a resolved function, consuming its resolved parts, and from
  a stream of instructions). The one-field structs around a register, a stack offset, a jump
  target, a constant and a call target are the numbers they wrap; decoding is partial where
  the source marks an opcode as unreachable.
\<close>

section \<open>Runtime instructions\<close>

datatype compare_flag = FlagLess | FlagEqual | FlagGreater

fun compare_flag_from_ordering :: "ordering \<Rightarrow> compare_flag" where
  "compare_flag_from_ordering Less = FlagLess"
| "compare_flag_from_ordering Equal = FlagEqual"
| "compare_flag_from_ordering Greater = FlagGreater"

datatype runtime_binary_op = Add | Subtract | Multiply | Divide | Modulo | BitAnd | BitOr | BitXor

datatype runtime_unary_op = BitNot

datatype runtime_shift_op = SLeft | SRight

datatype runtime_jump_condition = Always | JEqual | JNotEqual | JLess | JGreater

fun should_jump :: "runtime_jump_condition \<Rightarrow> compare_flag \<Rightarrow> bool" where
  "should_jump Always flag = True"
| "should_jump JEqual flag = (flag = FlagEqual)"
| "should_jump JNotEqual flag = (flag \<noteq> FlagEqual)"
| "should_jump JLess flag = (flag = FlagLess)"
| "should_jump JGreater flag = (flag = FlagGreater)"

definition runtime_register_try_new :: "usize \<Rightarrow> usize \<Rightarrow> vm_error + u32" where
  "runtime_register_try_new r n =
     (if r < n then ok_or (RegisterOutOfBounds r n) (u32_try_from r) else Inl (RegisterOutOfBounds r n))"

definition return_register :: "usize \<Rightarrow> vm_error + u32" where
  "return_register n = runtime_register_try_new RETURN_REGISTER_INDEX n"

definition stack_offset_resolve_index :: "i32 \<Rightarrow> usize \<Rightarrow> vm_error + usize" where
  "stack_offset_resolve_index off stack_len =
     (if off = 0 then ok_or (StackAddressOutOfBounds off) (checked_sub_usize stack_len 1)
      else if i64_max < stack_len then Inl StackLengthOverflow
      else let sum = int stack_len + sint off
           in if \<not> sint_fits TYPE(64 word) sum \<or> \<not> sint_fits TYPE(64 word) (sum - 1)
              then Inl (StackAddressOverflow off)
              else if sum - 1 < 0 \<or> int stack_len \<le> sum - 1 then Inl (StackAddressOutOfBounds off)
              else Inr (nat (sum - 1)))"

definition jump_target_try_new :: "usize \<Rightarrow> usize \<Rightarrow> vm_error + u32" where
  "jump_target_try_new target n =
     (if target \<le> n then ok_or (JumpTargetOutOfBounds target n) (u32_try_from target)
      else Inl (JumpTargetOutOfBounds target n))"

definition runtime_constant_try_new :: "usize \<Rightarrow> vm_error + u32" where
  "runtime_constant_try_new i = ok_or (ConstantOutOfBounds i) (u32_try_from i)"

definition runtime_call_target_try_new :: "usize \<Rightarrow> vm_error + u32" where
  "runtime_call_target_try_new i = ok_or (ConstantOutOfBounds i) (u32_try_from i)"

datatype runtime_instruction =
    Noop
  | LoadStack u32 i32
  | LoadImmediate u32 u32
  | Move u32 u32
  | Binary runtime_binary_op u32 u32 u32
  | Unary runtime_unary_op u32 u32
  | Shift runtime_shift_op u32 u32 u32
  | Jump runtime_jump_condition u32
  | Call u32
  | Return u32
  | PushArg u32
  | Compare u32 u32
  | SpillLoad u32 usize
  | SpillStore usize u32

section \<open>The packed form\<close>

datatype runtime_opcode =
    OpNoop
  | OpLoadStack
  | OpLoadImmediate
  | OpMove
  | OpAdd
  | OpSubtract
  | OpMultiply
  | OpDivide
  | OpModulo
  | OpBitAnd
  | OpBitOr
  | OpBitXor
  | OpBitNot
  | OpShiftLeft
  | OpShiftRight
  | OpJump
  | OpJumpEqual
  | OpJumpNotEqual
  | OpJumpLess
  | OpJumpGreater
  | OpCall
  | OpReturn
  | OpPushArg
  | OpCompare
  | OpSpillLoad
  | OpSpillStore

fun opcode_u8 :: "runtime_opcode \<Rightarrow> byte" where
  "opcode_u8 OpNoop = 0"
| "opcode_u8 OpLoadStack = 1"
| "opcode_u8 OpLoadImmediate = 2"
| "opcode_u8 OpMove = 3"
| "opcode_u8 OpAdd = 4"
| "opcode_u8 OpSubtract = 5"
| "opcode_u8 OpMultiply = 6"
| "opcode_u8 OpDivide = 7"
| "opcode_u8 OpModulo = 8"
| "opcode_u8 OpBitAnd = 9"
| "opcode_u8 OpBitOr = 10"
| "opcode_u8 OpBitXor = 11"
| "opcode_u8 OpBitNot = 12"
| "opcode_u8 OpShiftLeft = 13"
| "opcode_u8 OpShiftRight = 14"
| "opcode_u8 OpJump = 15"
| "opcode_u8 OpJumpEqual = 16"
| "opcode_u8 OpJumpNotEqual = 17"
| "opcode_u8 OpJumpLess = 18"
| "opcode_u8 OpJumpGreater = 19"
| "opcode_u8 OpCall = 20"
| "opcode_u8 OpReturn = 21"
| "opcode_u8 OpPushArg = 22"
| "opcode_u8 OpCompare = 23"
| "opcode_u8 OpSpillLoad = 24"
| "opcode_u8 OpSpillStore = 25"

text \<open>The opcodes in the order of their numbers.\<close>

definition opcode_from_u8 :: "byte \<Rightarrow> runtime_opcode option" where
  "opcode_from_u8 b = vec_get
     [OpNoop, OpLoadStack, OpLoadImmediate, OpMove, OpAdd,
      OpSubtract, OpMultiply, OpDivide, OpModulo, OpBitAnd,
      OpBitOr, OpBitXor, OpBitNot, OpShiftLeft, OpShiftRight,
      OpJump, OpJumpEqual, OpJumpNotEqual, OpJumpLess, OpJumpGreater,
      OpCall, OpReturn, OpPushArg, OpCompare, OpSpillLoad,
      OpSpillStore] (unat b)"

type_synonym packed = "byte list"

definition packed_new :: "runtime_opcode \<Rightarrow> u32 \<Rightarrow> u32 \<Rightarrow> u32 \<Rightarrow> packed" where
  "packed_new opcode a b c = opcode_u8 opcode # u32_to_le a @ u32_to_le b @ u32_to_le c"

definition packed_operand :: "packed \<Rightarrow> nat \<Rightarrow> u32" where
  "packed_operand p offset = u32_from_le (take 4 (drop offset p))"

fun decode_operands :: "runtime_opcode \<Rightarrow> u32 \<Rightarrow> u32 \<Rightarrow> u32 \<Rightarrow> runtime_instruction" where
  "decode_operands OpNoop a b c = Noop"
| "decode_operands OpLoadStack a b c = LoadStack a b"
| "decode_operands OpLoadImmediate a b c = LoadImmediate a b"
| "decode_operands OpMove a b c = Move a b"
| "decode_operands OpAdd a b c = Binary Add a b c"
| "decode_operands OpSubtract a b c = Binary Subtract a b c"
| "decode_operands OpMultiply a b c = Binary Multiply a b c"
| "decode_operands OpDivide a b c = Binary Divide a b c"
| "decode_operands OpModulo a b c = Binary Modulo a b c"
| "decode_operands OpBitAnd a b c = Binary BitAnd a b c"
| "decode_operands OpBitOr a b c = Binary BitOr a b c"
| "decode_operands OpBitXor a b c = Binary BitXor a b c"
| "decode_operands OpBitNot a b c = Unary BitNot a b"
| "decode_operands OpShiftLeft a b c = Shift SLeft a b c"
| "decode_operands OpShiftRight a b c = Shift SRight a b c"
| "decode_operands OpJump a b c = Jump Always a"
| "decode_operands OpJumpEqual a b c = Jump JEqual a"
| "decode_operands OpJumpNotEqual a b c = Jump JNotEqual a"
| "decode_operands OpJumpLess a b c = Jump JLess a"
| "decode_operands OpJumpGreater a b c = Jump JGreater a"
| "decode_operands OpCall a b c = Call a"
| "decode_operands OpReturn a b c = Return a"
| "decode_operands OpPushArg a b c = PushArg a"
| "decode_operands OpCompare a b c = Compare a b"
| "decode_operands OpSpillLoad a b c = SpillLoad a (unat b)"
| "decode_operands OpSpillStore a b c = SpillStore (unat a) b"

definition decode :: "packed \<Rightarrow> runtime_instruction option" where
  "decode p =
     map_option (\<lambda>opcode. decode_operands opcode (packed_operand p 1) (packed_operand p 5) (packed_operand p 9))
       (opcode_from_u8 (p ! 0))"

section \<open>Interning\<close>

record constant_interner =
  constant_index :: "(val \<times> u32) list"
  constant_table :: "val list"

record call_target_interner =
  call_target_index :: "(string \<times> u32) list"
  call_target_table :: "string list"

record interners =
  constants :: constant_interner
  call_targets :: call_target_interner

definition interners_new :: interners where
  "interners_new =
     \<lparr>constants = \<lparr>constant_index = [], constant_table = []\<rparr>,
      call_targets = \<lparr>call_target_index = [], call_target_table = []\<rparr>\<rparr>"

definition intern_constant :: "val \<Rightarrow> (interners, vm_error, u32) meth" where
  "intern_constant v s =
     (let c = constants s
      in case hm_get value_eq (constant_index c) v of
           Some k \<Rightarrow> (Inr k, s)
         | None \<Rightarrow>
             (case runtime_constant_try_new (length (constant_table c)) of
                Inl e \<Rightarrow> (Inl e, s)
              | Inr k \<Rightarrow>
                  (Inr k, s\<lparr>constants := \<lparr>constant_index = hm_insert value_eq v k (constant_index c),
                                          constant_table = constant_table c @ [v]\<rparr>\<rparr>)))"

definition intern_call_target :: "string \<Rightarrow> (interners, vm_error, u32) meth" where
  "intern_call_target g s =
     (let c = call_targets s
      in case hm_get (=) (call_target_index c) g of
           Some k \<Rightarrow> (Inr k, s)
         | None \<Rightarrow>
             (case runtime_call_target_try_new (length (call_target_table c)) of
                Inl e \<Rightarrow> (Inl e, s)
              | Inr k \<Rightarrow>
                  (Inr k, s\<lparr>call_targets := \<lparr>call_target_index = hm_insert (=) g k (call_target_index c),
                                             call_target_table = call_target_table c @ [g]\<rparr>\<rparr>)))"

section \<open>Lowering\<close>

definition reg :: "usize \<Rightarrow> usize \<Rightarrow> vm_error + u32" where
  "reg rc r = runtime_register_try_new r rc"

definition pack2 :: "runtime_opcode \<Rightarrow> usize \<Rightarrow> u32 \<Rightarrow> u32 \<Rightarrow> vm_error + packed" where
  "pack2 opcode rc a b =
     rbind (reg rc (unat a)) (\<lambda>a. rbind (reg rc (unat b)) (\<lambda>b. Inr (packed_new opcode a b 0)))"

definition pack3 :: "runtime_opcode \<Rightarrow> usize \<Rightarrow> u32 \<Rightarrow> u32 \<Rightarrow> u32 \<Rightarrow> vm_error + packed" where
  "pack3 opcode rc a b c =
     rbind (reg rc (unat a)) (\<lambda>a. rbind (reg rc (unat b)) (\<lambda>b. rbind (reg rc (unat c)) (\<lambda>c.
       Inr (packed_new opcode a b c))))"

fun jump_opcode :: "runtime_jump_condition \<Rightarrow> runtime_opcode" where
  "jump_opcode Always = OpJump"
| "jump_opcode JEqual = OpJumpEqual"
| "jump_opcode JNotEqual = OpJumpNotEqual"
| "jump_opcode JLess = OpJumpLess"
| "jump_opcode JGreater = OpJumpGreater"

definition lower_jump :: "runtime_jump_condition \<Rightarrow> usize \<Rightarrow> usize \<Rightarrow> vm_error + packed" where
  "lower_jump cond target n =
     rbind (jump_target_try_new target n) (\<lambda>t. Inr (packed_new (jump_opcode cond) t 0 0))"

definition get_constant_value :: "val list option \<Rightarrow> usize \<Rightarrow> vm_error + val" where
  "get_constant_value cs i = ok_or (ConstantOutOfBounds i) (Option.bind cs (\<lambda>cs. vec_get cs i))"

definition get_function_name_from_constant :: "val list option \<Rightarrow> usize \<Rightarrow> vm_error + string" where
  "get_function_name_from_constant cs i =
     rbind (get_constant_value cs i)
       (\<lambda>v. case v of String name \<Rightarrow> Inr name | _ \<Rightarrow> Inl (InvalidFunctionNameConstant i))"

definition get_function_name :: "val list option \<Rightarrow> string list option \<Rightarrow> usize \<Rightarrow> vm_error + string" where
  "get_function_name cs ns i =
     (case Option.bind ns (\<lambda>ns. vec_get ns i) of
        Some name \<Rightarrow> Inr name
      | None \<Rightarrow> get_function_name_from_constant cs i)"

fun lower_instruction_input ::
  "resolved_instruction_input \<Rightarrow> usize \<Rightarrow> (interners, vm_error, packed \<times> u32 option) meth" where
  "lower_instruction_input N_NOP n = mret (packed_new OpNoop 0 0 0, None)"
| "lower_instruction_input (N_LD d off) n = mret (packed_new OpLoadStack d off 0, Some d)"
| "lower_instruction_input (N_LDI d v) n =
     mbind (intern_constant v) (\<lambda>k. mret (packed_new OpLoadImmediate d k 0, Some d))"
| "lower_instruction_input (N_MOV d s) n = mret (packed_new OpMove d s 0, Some (max d s))"
| "lower_instruction_input (N_ADD d l r) n = mret (packed_new OpAdd d l r, Some (max (max d l) r))"
| "lower_instruction_input (N_SUB d l r) n = mret (packed_new OpSubtract d l r, Some (max (max d l) r))"
| "lower_instruction_input (N_MUL d l r) n = mret (packed_new OpMultiply d l r, Some (max (max d l) r))"
| "lower_instruction_input (N_DIV d l r) n = mret (packed_new OpDivide d l r, Some (max (max d l) r))"
| "lower_instruction_input (N_MOD d l r) n = mret (packed_new OpModulo d l r, Some (max (max d l) r))"
| "lower_instruction_input (N_AND d l r) n = mret (packed_new OpBitAnd d l r, Some (max (max d l) r))"
| "lower_instruction_input (N_OR d l r) n = mret (packed_new OpBitOr d l r, Some (max (max d l) r))"
| "lower_instruction_input (N_XOR d l r) n = mret (packed_new OpBitXor d l r, Some (max (max d l) r))"
| "lower_instruction_input (N_NOT d s) n = mret (packed_new OpBitNot d s 0, Some (max d s))"
| "lower_instruction_input (N_SHL d l r) n = mret (packed_new OpShiftLeft d l r, Some (max (max d l) r))"
| "lower_instruction_input (N_SHR d l r) n = mret (packed_new OpShiftRight d l r, Some (max (max d l) r))"
| "lower_instruction_input (N_JMP t) n = mbind (mread (\<lambda>_. lower_jump Always (unat t) n)) (\<lambda>p. mret (p, None))"
| "lower_instruction_input (N_JMPEQ t) n = mbind (mread (\<lambda>_. lower_jump JEqual (unat t) n)) (\<lambda>p. mret (p, None))"
| "lower_instruction_input (N_JMPNEQ t) n = mbind (mread (\<lambda>_. lower_jump JNotEqual (unat t) n)) (\<lambda>p. mret (p, None))"
| "lower_instruction_input (N_JMPLT t) n = mbind (mread (\<lambda>_. lower_jump JLess (unat t) n)) (\<lambda>p. mret (p, None))"
| "lower_instruction_input (N_JMPGT t) n = mbind (mread (\<lambda>_. lower_jump JGreater (unat t) n)) (\<lambda>p. mret (p, None))"
| "lower_instruction_input (N_CALL g) n = mbind (intern_call_target g) (\<lambda>t. mret (packed_new OpCall t 0 0, None))"
| "lower_instruction_input (N_RET s) n = mret (packed_new OpReturn s 0 0, Some s)"
| "lower_instruction_input (N_PUSHARG s) n = mret (packed_new OpPushArg s 0 0, Some s)"
| "lower_instruction_input (N_CMP l r) n = mret (packed_new OpCompare l r 0, Some (max l r))"
| "lower_instruction_input (N_LDS d s) n = mret (packed_new OpSpillLoad d s 0, Some d)"
| "lower_instruction_input (N_STS s r) n = mret (packed_new OpSpillStore s r 0, Some r)"

fun lower_instruction_from_parts ::
  "usize \<Rightarrow> val list option \<Rightarrow> string list option \<Rightarrow> resolved_instruction \<Rightarrow> usize \<Rightarrow>
   (interners, vm_error, packed) meth" where
  "lower_instruction_from_parts rc cs ns R_NOP n = mret (packed_new OpNoop 0 0 0)"
| "lower_instruction_from_parts rc cs ns (R_LD d off) n = mread (\<lambda>_. rbind (reg rc (unat d)) (\<lambda>d. Inr (packed_new OpLoadStack d off 0)))"
| "lower_instruction_from_parts rc cs ns (R_LDI d k) n =
     mbind (mread (\<lambda>_. get_constant_value cs (unat k))) (\<lambda>v. mbind (intern_constant v) (\<lambda>c.
       mread (\<lambda>_. rbind (reg rc (unat d)) (\<lambda>d. Inr (packed_new OpLoadImmediate d c 0)))))"
| "lower_instruction_from_parts rc cs ns (R_MOV d s) n = mread (\<lambda>_. pack2 OpMove rc d s)"
| "lower_instruction_from_parts rc cs ns (R_ADD d l r) n = mread (\<lambda>_. pack3 OpAdd rc d l r)"
| "lower_instruction_from_parts rc cs ns (R_SUB d l r) n = mread (\<lambda>_. pack3 OpSubtract rc d l r)"
| "lower_instruction_from_parts rc cs ns (R_MUL d l r) n = mread (\<lambda>_. pack3 OpMultiply rc d l r)"
| "lower_instruction_from_parts rc cs ns (R_DIV d l r) n = mread (\<lambda>_. pack3 OpDivide rc d l r)"
| "lower_instruction_from_parts rc cs ns (R_MOD d l r) n = mread (\<lambda>_. pack3 OpModulo rc d l r)"
| "lower_instruction_from_parts rc cs ns (R_AND d l r) n = mread (\<lambda>_. pack3 OpBitAnd rc d l r)"
| "lower_instruction_from_parts rc cs ns (R_OR d l r) n = mread (\<lambda>_. pack3 OpBitOr rc d l r)"
| "lower_instruction_from_parts rc cs ns (R_XOR d l r) n = mread (\<lambda>_. pack3 OpBitXor rc d l r)"
| "lower_instruction_from_parts rc cs ns (R_NOT d s) n = mread (\<lambda>_. pack2 OpBitNot rc d s)"
| "lower_instruction_from_parts rc cs ns (R_SHL d l r) n = mread (\<lambda>_. pack3 OpShiftLeft rc d l r)"
| "lower_instruction_from_parts rc cs ns (R_SHR d l r) n = mread (\<lambda>_. pack3 OpShiftRight rc d l r)"
| "lower_instruction_from_parts rc cs ns (R_JMP t) n = mread (\<lambda>_. lower_jump Always (unat t) n)"
| "lower_instruction_from_parts rc cs ns (R_JMPEQ t) n = mread (\<lambda>_. lower_jump JEqual (unat t) n)"
| "lower_instruction_from_parts rc cs ns (R_JMPNEQ t) n = mread (\<lambda>_. lower_jump JNotEqual (unat t) n)"
| "lower_instruction_from_parts rc cs ns (R_JMPLT t) n = mread (\<lambda>_. lower_jump JLess (unat t) n)"
| "lower_instruction_from_parts rc cs ns (R_JMPGT t) n = mread (\<lambda>_. lower_jump JGreater (unat t) n)"
| "lower_instruction_from_parts rc cs ns (R_CALL k) n =
     mbind (mread (\<lambda>_. get_function_name cs ns (unat k))) (\<lambda>g. mbind (intern_call_target g) (\<lambda>t.
       mret (packed_new OpCall t 0 0)))"
| "lower_instruction_from_parts rc cs ns (R_RET s) n = mread (\<lambda>_. rbind (reg rc (unat s)) (\<lambda>s. Inr (packed_new OpReturn s 0 0)))"
| "lower_instruction_from_parts rc cs ns (R_PUSHARG s) n = mread (\<lambda>_. rbind (reg rc (unat s)) (\<lambda>s. Inr (packed_new OpPushArg s 0 0)))"
| "lower_instruction_from_parts rc cs ns (R_CMP l r) n =
     mread (\<lambda>_. rbind (reg rc (unat l)) (\<lambda>l. rbind (reg rc (unat r)) (\<lambda>r. Inr (packed_new OpCompare l r 0))))"
| "lower_instruction_from_parts rc cs ns (R_LDS d s) n = mread (\<lambda>_. rbind (reg rc (unat d)) (\<lambda>d. Inr (packed_new OpSpillLoad d s 0)))"
| "lower_instruction_from_parts rc cs ns (R_STS s r) n = mread (\<lambda>_. rbind (reg rc (unat r)) (\<lambda>r. Inr (packed_new OpSpillStore s r 0)))"

section \<open>Runtime functions\<close>

record runtime_function =
  rt_instructions :: "packed list"
  rt_constants :: "val list"
  rt_call_targets :: "string list"

fun lower_all ::
  "usize \<Rightarrow> val list option \<Rightarrow> string list option \<Rightarrow> usize \<Rightarrow> resolved_instruction list \<Rightarrow>
   (interners, vm_error, packed list) meth" where
  "lower_all rc cs ns n [] = mret []"
| "lower_all rc cs ns n (r # rs) =
     mbind (lower_instruction_from_parts rc cs ns r n) (\<lambda>p.
       mbind (lower_all rc cs ns n rs) (\<lambda>ps. mret (p # ps)))"

definition finish_function :: "packed list \<Rightarrow> interners \<Rightarrow> runtime_function" where
  "finish_function ps s =
     \<lparr>rt_instructions = ps, rt_constants = constant_table (constants s),
      rt_call_targets = call_target_table (call_targets s)\<rparr>"

definition from_vm_function :: "vm_function \<Rightarrow> vm_error + runtime_function" where
  "from_vm_function f =
     rbind (ok_or (MissingResolvedInstructions (fn_name f)) (resolved_instructions f)) (\<lambda>rs.
       if instructions f \<noteq> [] \<and> length rs \<noteq> length (instructions f)
       then Inl (RuntimeInstructionMetadataMismatch (fn_name f) (length rs) (length (instructions f)))
       else case lower_all (register_count f) (constant_values f) (call_target_names f) (length rs) rs interners_new of
              (Inl e, _) \<Rightarrow> Inl e
            | (Inr ps, s) \<Rightarrow> Inr (finish_function ps s))"

definition from_vm_function_consuming_resolved :: "(vm_function, vm_error, runtime_function) meth" where
  "from_vm_function_consuming_resolved f =
     (case take_resolved_parts f of
        (None, g) \<Rightarrow> (Inl (MissingResolvedInstructions (fn_name f)), g)
      | (Some (rs, cs, ns), g) \<Rightarrow>
          if instructions f \<noteq> [] \<and> length rs \<noteq> length (instructions f)
          then (Inl (RuntimeInstructionMetadataMismatch (fn_name f) (length rs) (length (instructions f))), g)
          else case lower_all (register_count f) (Some cs) (Some ns) (length rs) rs interners_new of
                 (Inl e, _) \<Rightarrow> (Inl e, g)
               | (Inr ps, s) \<Rightarrow> (Inr (finish_function ps s), g))"

record resolved_function_header =
  header_name :: string
  header_parameters :: "string list"
  header_upvalues :: "string list"
  header_parent :: "string option"
  header_register_count :: usize
  header_instruction_count :: usize

fun max_optional :: "u32 option \<Rightarrow> u32 option \<Rightarrow> u32 option" where
  "max_optional (Some a) (Some b) = Some (max a b)"
| "max_optional (Some a) None = Some a"
| "max_optional None b = b"

text \<open>The loop over the stream, with the number of instructions still expected.\<close>

fun stream_loop ::
  "resolved_function_header \<Rightarrow> nat \<Rightarrow> nat \<Rightarrow> resolved_instruction_input list \<Rightarrow> u32 option \<Rightarrow>
   (interners, vm_error, packed list \<times> u32 option \<times> resolved_instruction_input list) meth" where
  "stream_loop h 0 count stream m = mret ([], m, stream)"
| "stream_loop h (Suc k) count [] m =
     merr (RuntimeInstructionMetadataMismatch (header_name h) count (header_instruction_count h))"
| "stream_loop h (Suc k) count (i # stream) m =
     mbind (lower_instruction_input i (header_instruction_count h)) (\<lambda>(p, r).
       mbind (stream_loop h k (Suc count) stream (max_optional m r)) (\<lambda>(ps, m', rest).
         mret (p # ps, m', rest)))"

definition from_resolved_instruction_input_stream ::
  "resolved_function_header \<Rightarrow> resolved_instruction_input list \<Rightarrow> vm_error + runtime_function \<times> usize" where
  "from_resolved_instruction_input_stream h stream =
     (case stream_loop h (header_instruction_count h) 0 stream
             (Option.bind (checked_sub_usize (length (header_parameters h)) 1) u32_try_from) interners_new of
        (Inl e, _) \<Rightarrow> Inl e
      | (Inr (ps, m, rest), s) \<Rightarrow>
          if rest \<noteq> []
          then Inl (RuntimeInstructionMetadataMismatch (header_name h) (header_instruction_count h + 1)
                      (header_instruction_count h))
          else Inr (finish_function ps s,
                    max (header_register_count h) (case m of None \<Rightarrow> 0 | Some r \<Rightarrow> unat r + 1)))"

definition get_instruction :: "runtime_function \<Rightarrow> usize \<Rightarrow> packed option" where
  "get_instruction rf ip = vec_get (rt_instructions rf) ip"

definition runtime_constant :: "runtime_function \<Rightarrow> u32 \<Rightarrow> vm_error + val" where
  "runtime_constant rf k = ok_or (ConstantOutOfBounds (unat k)) (vec_get (rt_constants rf) (unat k))"

definition runtime_call_target :: "runtime_function \<Rightarrow> u32 \<Rightarrow> vm_error + string" where
  "runtime_call_target rf k = ok_or (ConstantOutOfBounds (unat k)) (vec_get (rt_call_targets rf) (unat k))"

section \<open>Packing and unpacking\<close>

lemma opcode_roundtrip: "opcode_from_u8 (opcode_u8 opcode) = Some opcode"
  by (cases opcode) (simp_all add: opcode_from_u8_def vec_get_def)

lemma packed_operands:
  "packed_operand (packed_new opcode a b c) 1 = a"
  "packed_operand (packed_new opcode a b c) 5 = b"
  "packed_operand (packed_new opcode a b c) 9 = c"
  by (simp_all add: packed_operand_def packed_new_def)

lemma decode_packed: "decode (packed_new opcode a b c) = Some (decode_operands opcode a b c)"
proof -
  have "packed_new opcode a b c ! 0 = opcode_u8 opcode" by (simp add: packed_new_def)
  then show ?thesis by (simp only: decode_def packed_operands opcode_roundtrip option.map)
qed

section \<open>Correctness of lowering\<close>

text \<open>A runtime instruction that implements a symbolic one: operands are the same, constants agree up to the
  equality of values, jump targets and call targets are those of the source.\<close>

fun implements :: "(string \<times> usize) list \<Rightarrow> runtime_function \<Rightarrow> instruction \<Rightarrow> runtime_instruction \<Rightarrow> bool" where
  "implements ls rf I_NOP x = (x = Noop)"
| "implements ls rf (I_LD r off) x = (\<exists>r'. x = LoadStack r' off \<and> unat r' = r)"
| "implements ls rf (I_LDI r v) x =
     (\<exists>r' k w. x = LoadImmediate r' k \<and> unat r' = r \<and> runtime_constant rf k = Inr w \<and> value_eq w v)"
| "implements ls rf (I_MOV a b) x = (\<exists>a' b'. x = Move a' b' \<and> unat a' = a \<and> unat b' = b)"
| "implements ls rf (I_ADD a b c) x =
     (\<exists>a' b' c'. x = Binary Add a' b' c' \<and> unat a' = a \<and> unat b' = b \<and> unat c' = c)"
| "implements ls rf (I_SUB a b c) x =
     (\<exists>a' b' c'. x = Binary Subtract a' b' c' \<and> unat a' = a \<and> unat b' = b \<and> unat c' = c)"
| "implements ls rf (I_MUL a b c) x =
     (\<exists>a' b' c'. x = Binary Multiply a' b' c' \<and> unat a' = a \<and> unat b' = b \<and> unat c' = c)"
| "implements ls rf (I_DIV a b c) x =
     (\<exists>a' b' c'. x = Binary Divide a' b' c' \<and> unat a' = a \<and> unat b' = b \<and> unat c' = c)"
| "implements ls rf (I_MOD a b c) x =
     (\<exists>a' b' c'. x = Binary Modulo a' b' c' \<and> unat a' = a \<and> unat b' = b \<and> unat c' = c)"
| "implements ls rf (I_AND a b c) x =
     (\<exists>a' b' c'. x = Binary BitAnd a' b' c' \<and> unat a' = a \<and> unat b' = b \<and> unat c' = c)"
| "implements ls rf (I_OR a b c) x =
     (\<exists>a' b' c'. x = Binary BitOr a' b' c' \<and> unat a' = a \<and> unat b' = b \<and> unat c' = c)"
| "implements ls rf (I_XOR a b c) x =
     (\<exists>a' b' c'. x = Binary BitXor a' b' c' \<and> unat a' = a \<and> unat b' = b \<and> unat c' = c)"
| "implements ls rf (I_NOT a b) x = (\<exists>a' b'. x = Unary BitNot a' b' \<and> unat a' = a \<and> unat b' = b)"
| "implements ls rf (I_SHL a b c) x =
     (\<exists>a' b' c'. x = Shift SLeft a' b' c' \<and> unat a' = a \<and> unat b' = b \<and> unat c' = c)"
| "implements ls rf (I_SHR a b c) x =
     (\<exists>a' b' c'. x = Shift SRight a' b' c' \<and> unat a' = a \<and> unat b' = b \<and> unat c' = c)"
| "implements ls rf (I_JMP l) x = (\<exists>t. x = Jump Always t \<and> hm_get (=) ls l = Some (unat t))"
| "implements ls rf (I_JMPEQ l) x = (\<exists>t. x = Jump JEqual t \<and> hm_get (=) ls l = Some (unat t))"
| "implements ls rf (I_JMPNEQ l) x = (\<exists>t. x = Jump JNotEqual t \<and> hm_get (=) ls l = Some (unat t))"
| "implements ls rf (I_JMPLT l) x = (\<exists>t. x = Jump JLess t \<and> hm_get (=) ls l = Some (unat t))"
| "implements ls rf (I_JMPGT l) x = (\<exists>t. x = Jump JGreater t \<and> hm_get (=) ls l = Some (unat t))"
| "implements ls rf (I_CALL g) x = (\<exists>t. x = Call t \<and> runtime_call_target rf t = Inr g)"
| "implements ls rf (I_RET r) x = (\<exists>r'. x = Return r' \<and> unat r' = r)"
| "implements ls rf (I_PUSHARG r) x = (\<exists>r'. x = PushArg r' \<and> unat r' = r)"
| "implements ls rf (I_CMP a b) x = (\<exists>a' b'. x = Compare a' b' \<and> unat a' = a \<and> unat b' = b)"
| "implements ls rf (I_LDS a s) x = (\<exists>a'. x = SpillLoad a' s \<and> unat a' = a)"
| "implements ls rf (I_STS s a) x = (\<exists>a'. x = SpillStore s a' \<and> unat a' = a)"

text \<open>The same for a resolved instruction and the tables of the interners.\<close>

fun lowers_to ::
  "val list \<Rightarrow> string list \<Rightarrow> val list \<Rightarrow> string list \<Rightarrow> resolved_instruction \<Rightarrow> runtime_instruction \<Rightarrow> bool" where
  "lowers_to cs ns kvs ts R_NOP x = (x = Noop)"
| "lowers_to cs ns kvs ts (R_LD r off) x = (x = LoadStack r off)"
| "lowers_to cs ns kvs ts (R_LDI r k) x =
     (\<exists>k' v w. x = LoadImmediate r k' \<and> vec_get cs (unat k) = Some v \<and> vec_get kvs (unat k') = Some w \<and> value_eq w v)"
| "lowers_to cs ns kvs ts (R_MOV a b) x = (x = Move a b)"
| "lowers_to cs ns kvs ts (R_ADD a b c) x = (x = Binary Add a b c)"
| "lowers_to cs ns kvs ts (R_SUB a b c) x = (x = Binary Subtract a b c)"
| "lowers_to cs ns kvs ts (R_MUL a b c) x = (x = Binary Multiply a b c)"
| "lowers_to cs ns kvs ts (R_DIV a b c) x = (x = Binary Divide a b c)"
| "lowers_to cs ns kvs ts (R_MOD a b c) x = (x = Binary Modulo a b c)"
| "lowers_to cs ns kvs ts (R_AND a b c) x = (x = Binary BitAnd a b c)"
| "lowers_to cs ns kvs ts (R_OR a b c) x = (x = Binary BitOr a b c)"
| "lowers_to cs ns kvs ts (R_XOR a b c) x = (x = Binary BitXor a b c)"
| "lowers_to cs ns kvs ts (R_NOT a b) x = (x = Unary BitNot a b)"
| "lowers_to cs ns kvs ts (R_SHL a b c) x = (x = Shift SLeft a b c)"
| "lowers_to cs ns kvs ts (R_SHR a b c) x = (x = Shift SRight a b c)"
| "lowers_to cs ns kvs ts (R_JMP t) x = (x = Jump Always t)"
| "lowers_to cs ns kvs ts (R_JMPEQ t) x = (x = Jump JEqual t)"
| "lowers_to cs ns kvs ts (R_JMPNEQ t) x = (x = Jump JNotEqual t)"
| "lowers_to cs ns kvs ts (R_JMPLT t) x = (x = Jump JLess t)"
| "lowers_to cs ns kvs ts (R_JMPGT t) x = (x = Jump JGreater t)"
| "lowers_to cs ns kvs ts (R_CALL k) x =
     (\<exists>t g. x = Call t \<and> get_function_name (Some cs) (Some ns) (unat k) = Inr g \<and> vec_get ts (unat t) = Some g)"
| "lowers_to cs ns kvs ts (R_RET r) x = (x = Return r)"
| "lowers_to cs ns kvs ts (R_PUSHARG r) x = (x = PushArg r)"
| "lowers_to cs ns kvs ts (R_CMP a b) x = (x = Compare a b)"
| "lowers_to cs ns kvs ts (R_LDS a s) x = (x = SpillLoad a (unat s))"
| "lowers_to cs ns kvs ts (R_STS s a) x = (x = SpillStore (unat s) a)"

text \<open>Interners hand out an index at which an equal value is stored, and only append.\<close>

definition interners_ok :: "interners \<Rightarrow> bool" where
  "interners_ok s =
     ((\<forall>v k. hm_get value_eq (constant_index (constants s)) v = Some k \<longrightarrow>
         (\<exists>w. vec_get (constant_table (constants s)) (unat k) = Some w \<and> value_eq w v)) \<and>
      (\<forall>g k. hm_get (=) (call_target_index (call_targets s)) g = Some k \<longrightarrow>
         vec_get (call_target_table (call_targets s)) (unat k) = Some g))"

definition interners_extend :: "interners \<Rightarrow> interners \<Rightarrow> bool" where
  "interners_extend s t =
     ((\<exists>us. constant_table (constants t) = constant_table (constants s) @ us) \<and>
      (\<exists>us. call_target_table (call_targets t) = call_target_table (call_targets s) @ us))"

lemma interners_extend_refl [simp]: "interners_extend s s"
  by (simp add: interners_extend_def)

lemma interners_extend_trans: "interners_extend s t \<Longrightarrow> interners_extend t u \<Longrightarrow> interners_extend s u"
  by (auto simp: interners_extend_def)

lemma interners_ok_new: "interners_ok interners_new"
  by (simp add: interners_ok_def interners_new_def)

lemma try_new_Inr: "runtime_constant_try_new n = Inr k \<longleftrightarrow> unat k = n"
  "runtime_call_target_try_new n = Inr k \<longleftrightarrow> unat k = n"
  by (simp_all add: runtime_constant_try_new_def runtime_call_target_try_new_def u32_try_from_Some)

lemma vec_get_append_new: "vec_get (xs @ [x]) (length xs) = Some x"
  by (simp add: vec_get_def)

lemma intern_constant_ok:
  assumes "interners_ok s" "intern_constant v s = (Inr k, t)"
  shows "interners_ok t \<and> interners_extend s t \<and>
    (\<exists>w. vec_get (constant_table (constants t)) (unat k) = Some w \<and> value_eq w v)"
proof (cases "hm_get value_eq (constant_index (constants s)) v")
  case (Some k')
  then show ?thesis using assms by (auto simp: intern_constant_def interners_ok_def)
next
  case None
  let ?c = "constants s"
  have k: "unat k = length (constant_table ?c)"
    and t: "t = s\<lparr>constants := \<lparr>constant_index = hm_insert value_eq v k (constant_index ?c),
                                constant_table = constant_table ?c @ [v]\<rparr>\<rparr>"
    using assms(2) None by (auto simp: intern_constant_def Let_def try_new_Inr split: sum.splits)
  have v: "vec_get (constant_table ?c @ [v]) (unat k) = Some v" by (simp add: k vec_get_append_new)
  have "\<exists>w'. vec_get (constant_table ?c @ [v]) (unat j) = Some w' \<and> value_eq w' w"
    if "hm_get value_eq (hm_insert value_eq v k (constant_index ?c)) w = Some j" for w j
    using that assms(1) v
    by (fastforce simp: veq.get_insert interners_ok_def intro: vec_get_append split: if_splits)
  then show ?thesis using assms(1) v veq.refl [of v] by (auto simp: t interners_ok_def interners_extend_def)
qed

lemma intern_call_target_ok:
  assumes "interners_ok s" "intern_call_target g s = (Inr k, t)"
  shows "interners_ok t \<and> interners_extend s t \<and> vec_get (call_target_table (call_targets t)) (unat k) = Some g"
proof (cases "hm_get (=) (call_target_index (call_targets s)) g")
  case (Some k')
  then show ?thesis using assms by (auto simp: intern_call_target_def interners_ok_def)
next
  case None
  let ?c = "call_targets s"
  have k: "unat k = length (call_target_table ?c)"
    and t: "t = s\<lparr>call_targets := \<lparr>call_target_index = hm_insert (=) g k (call_target_index ?c),
                                   call_target_table = call_target_table ?c @ [g]\<rparr>\<rparr>"
    using assms(2) None by (auto simp: intern_call_target_def Let_def try_new_Inr split: sum.splits)
  have v: "vec_get (call_target_table ?c @ [g]) (unat k) = Some g" by (simp add: k vec_get_append_new)
  have "vec_get (call_target_table ?c @ [g]) (unat j) = Some h"
    if "hm_get (=) (hm_insert (=) g k (call_target_index ?c)) h = Some j" for h j
    using that assms(1) v
    by (fastforce simp: heq.get_insert interners_ok_def intro: vec_get_append split: if_splits)
  then show ?thesis using assms(1) v by (auto simp: t interners_ok_def interners_extend_def)
qed

lemma unat_inject: "unat (a :: u32) = unat b \<Longrightarrow> a = b"
  by (simp add: word_unat_eq_iff)

lemma reg_Inr: "reg rc (unat a) = Inr b \<longleftrightarrow> unat a < rc \<and> b = a"
  by (auto simp: reg_def runtime_register_try_new_def u32_try_from_Some dest: unat_inject)

lemma pack_Inr:
  "pack2 opcode rc a b = Inr p \<Longrightarrow> p = packed_new opcode a b 0"
  "pack3 opcode rc a b c = Inr p \<Longrightarrow> p = packed_new opcode a b c"
  by (auto simp: pack2_def pack3_def rbind_Inr_iff reg_Inr)

lemma lower_jump_Inr: "lower_jump cond (unat t) n = Inr p \<longleftrightarrow> unat t \<le> n \<and> p = packed_new (jump_opcode cond) t 0 0"
  by (auto simp: lower_jump_def jump_target_try_new_def rbind_Inr_iff u32_try_from_Some dest!: unat_inject)

lemma mread_const: "mread (\<lambda>_. r) s = (Inr x, t) \<longleftrightarrow> r = Inr x \<and> t = s"
  by (auto simp: mread_def)

lemma mret_Inr: "mret y s = (Inr x, t) \<longleftrightarrow> x = y \<and> t = s"
  by (auto simp: mret_def)

lemmas lower_simps = mread_const mret_Inr mbind_Inr_iff decode_packed lower_jump_Inr rbind_Inr_iff reg_Inr

lemma lower_instruction_ok:
  assumes "interners_ok s" "lower_instruction_from_parts rc (Some cs) (Some ns) r n s = (Inr p, t)"
  shows "interners_ok t \<and> interners_extend s t \<and>
    (\<exists>x. decode p = Some x \<and> lowers_to cs ns (constant_table (constants t)) (call_target_table (call_targets t)) r x)"
proof (cases r)
  case (R_LDI d k)
  then obtain v c where *: "vec_get cs (unat k) = Some v" "intern_constant v s = (Inr c, t)"
      "p = packed_new OpLoadImmediate d c 0"
    using assms(2) by (auto simp: lower_simps get_constant_value_def)
  from intern_constant_ok [OF assms(1) *(2)] *(1,3) R_LDI show ?thesis by (auto simp: decode_packed)
next
  case (R_CALL k)
  then obtain g c where *: "get_function_name (Some cs) (Some ns) (unat k) = Inr g"
      "intern_call_target g s = (Inr c, t)" "p = packed_new OpCall c 0 0"
    using assms(2) by (auto simp: lower_simps)
  from intern_call_target_ok [OF assms(1) *(2)] *(1,3) R_CALL show ?thesis by (auto simp: decode_packed)
qed (use assms in \<open>auto simp: lower_simps dest!: pack_Inr\<close>)

lemma lowers_to_mono:
  "lowers_to cs ns kvs ts r x \<Longrightarrow> lowers_to cs ns (kvs @ kvs') (ts @ ts') r x"
  by (cases r) (auto intro: vec_get_append)

lemma lower_all_ok:
  assumes "interners_ok s" "lower_all rc (Some cs) (Some ns) n rs s = (Inr ps, t)"
  shows "interners_ok t \<and> interners_extend s t \<and>
    list_all2 (\<lambda>r p. \<exists>x. decode p = Some x \<and>
        lowers_to cs ns (constant_table (constants t)) (call_target_table (call_targets t)) r x) rs ps"
  using assms
proof (induction rs arbitrary: s ps)
  case (Cons r rs)
  then obtain p ps' u where u: "lower_instruction_from_parts rc (Some cs) (Some ns) r n s = (Inr p, u)"
      "lower_all rc (Some cs) (Some ns) n rs u = (Inr ps', t)" "ps = p # ps'"
    by (auto simp: mbind_Inr_iff mret_Inr)
  note one = lower_instruction_ok [OF Cons.prems(1) u(1)]
  note IH = Cons.IH [OF conjunct1 [OF one] u(2)]
  then obtain us vs where ext: "constant_table (constants t) = constant_table (constants u) @ us"
      "call_target_table (call_targets t) = call_target_table (call_targets u) @ vs"
    by (auto simp: interners_extend_def)
  obtain x where "decode p = Some x"
      "lowers_to cs ns (constant_table (constants t)) (call_target_table (call_targets t)) r x"
    using one lowers_to_mono unfolding ext by blast
  then show ?case using IH one u(3) by (auto intro: interners_extend_trans)
qed (simp add: mret_def)

lemma implements_compose:
  assumes "resolves_to ls cs ns i r" "lowers_to cs ns (rt_constants rf) (rt_call_targets rf) r x"
  shows "implements ls rf i x"
  using assms
  by (cases i) (auto simp: runtime_constant_def runtime_call_target_def get_function_name_def)

lemma from_vm_function_Some:
  assumes "resolved_instructions f = Some rs" "constant_values f = Some cs" "call_target_names f = Some ns"
    and "from_vm_function f = Inr rf"
  obtains ps s where "lower_all (register_count f) (Some cs) (Some ns) (length rs) rs interners_new = (Inr ps, s)"
    "rf = finish_function ps s"
  using assms by (auto simp: from_vm_function_def split: if_splits prod.splits sum.splits)

section \<open>Properties\<close>

text \<open>packing an instruction and decoding it gives back the operation and its three operands, for every
  opcode and all 32-bit operands, in thirteen bytes.\<close>

theorem packed_instruction_roundtrip:
  "decode (packed_new opcode a b c) = Some (decode_operands opcode a b c) \<and> length (packed_new opcode a b c) = 13"
  by (simp add: decode_packed) (simp add: packed_new_def)

lemma lowered_function_implements:
  assumes "resolve_instructions f = (Inr (), g)" "resolved_instructions f = None" "from_vm_function g = Inr rf"
  shows "length (rt_instructions rf) = length (instructions f)"
    and "ip < length (instructions f) \<Longrightarrow>
      \<exists>p x. get_instruction rf ip = Some p \<and> decode p = Some x \<and> implements (labels f) rf (instructions f ! ip) x"
proof -
  obtain rs cs ns where g: "g = f\<lparr>register_count := register_count g, resolved_instructions := Some rs,
        constant_values := Some cs, call_target_names := Some ns\<rparr>"
      "list_all2 (resolves_to (labels f) cs ns) (instructions f) rs"
    using resolve_instructions_facts [OF assms(1,2)] by blast
  have fields: "resolved_instructions g = Some rs" "constant_values g = Some cs" "call_target_names g = Some ns"
    by (subst g(1), simp)+
  obtain ps s where l: "lower_all (register_count g) (Some cs) (Some ns) (length rs) rs interners_new = (Inr ps, s)"
    and rf: "rf = finish_function ps s"
    using from_vm_function_Some [OF fields assms(3)] by blast
  have p: "list_all2 (\<lambda>r p. \<exists>x. decode p = Some x \<and>
      lowers_to cs ns (rt_constants rf) (rt_call_targets rf) r x) rs ps"
    using lower_all_ok [OF interners_ok_new l] by (simp add: rf finish_function_def)
  have ps: "rt_instructions rf = ps" by (simp add: rf finish_function_def)
  show len: "length (rt_instructions rf) = length (instructions f)"
    using list_all2_lengthD [OF g(2)] list_all2_lengthD [OF p] by (simp add: ps)
  assume ip: "ip < length (instructions f)"
  then obtain x where "decode (ps ! ip) = Some x" "lowers_to cs ns (rt_constants rf) (rt_call_targets rf) (rs ! ip) x"
    using list_all2_nthD [OF p, of ip] list_all2_lengthD [OF g(2)] by auto
  with implements_compose list_all2_nthD [OF g(2) ip]
  show "\<exists>p x. get_instruction rf ip = Some p \<and> decode p = Some x \<and> implements (labels f) rf (instructions f ! ip) x"
    using ip len by (auto simp: get_instruction_def ps)
qed

lemma consuming_resolved_eq:
  assumes "resolved_instructions f = Some rs" "constant_values f = Some cs" "call_target_names f = Some ns"
  shows "from_vm_function_consuming_resolved f = (from_vm_function f, discard_resolved_instructions f)"
  using assms
  by (simp add: from_vm_function_consuming_resolved_def from_vm_function_def take_resolved_parts_def
      discard_resolved_instructions_def split: prod.splits sum.splits)

text \<open>C26: the whole pipeline from source to execution form is correct: when a function resolves and then
  lowers, the packed instruction at each position decodes to an instruction that implements the
  symbolic instruction at that position, with the same registers, offsets and slots, the label's
  target, the callee's name, and a constant equal to the source's.\<close>

theorem lowering_implements_source:
  assumes "resolve_instructions f = (Inr (), g)" "resolved_instructions f = None" "from_vm_function g = Inr rf"
  shows "(length (rt_instructions rf) = length (instructions f)) \<and>
   (ip < length (instructions f) \<longrightarrow>
     (\<exists>p x. get_instruction rf ip = Some p \<and> decode p = Some x \<and> implements (labels f) rf (instructions f ! ip) x))"
  using lowered_function_implements [OF assms] by simp

lemma sample_lowers: "\<exists>g rf. resolve_instructions sample_function = (Inr (), g) \<and> from_vm_function g = Inr rf"
  by (simp add: resolve_instructions_def sample_function_def vm_function_new_def try_frame_register_count_def
      referenced_register_count_def max_plus_one_def List.map_filter_def checked_add_usize_def usize_max_def
      MIN_FRAME_REGISTER_COUNT_def RETURN_REGISTER_INDEX_def Let_def validate_register_def resolved_operand_def
      u32_try_from_def resolve_label_def from_vm_function_def mbind_def mread_def mret_def pack3_def reg_def
      runtime_register_try_new_def get_constant_value_def vec_get_def intern_constant_def interners_new_def
      runtime_constant_try_new_def lower_jump_def jump_target_try_new_def)

theorem lowering_implements_source_witness:
  "\<exists>g rf p x. resolve_instructions sample_function = (Inr (), g) \<and> from_vm_function g = Inr rf \<and>
     get_instruction rf 1 = Some p \<and> decode p = Some x \<and>
     implements (labels sample_function) rf (I_ADD 16 0 1) x"
proof -
  obtain g rf where g: "resolve_instructions sample_function = (Inr (), g)" "from_vm_function g = Inr rf"
    using sample_lowers by blast
  have f: "resolved_instructions sample_function = None" "1 < length (instructions sample_function)"
      "instructions sample_function ! 1 = I_ADD 16 0 1"
    by (simp_all add: sample_function_def vm_function_new_def)
  from lowering_implements_source [THEN conjunct2, rule_format, OF g(1) f(1) g(2) f(2)] show ?thesis unfolding f(3) using g by blast
qed

section \<open>Equivalence of the load paths\<close>

text \<open>The stream of instructions that a resolved function stands for.\<close>

fun input_of :: "val list \<Rightarrow> string list \<Rightarrow> resolved_instruction \<Rightarrow> resolved_instruction_input" where
  "input_of cs ns R_NOP = N_NOP"
| "input_of cs ns (R_LD r off) = N_LD r off"
| "input_of cs ns (R_LDI r k) = N_LDI r (cs ! unat k)"
| "input_of cs ns (R_MOV a b) = N_MOV a b"
| "input_of cs ns (R_NOT a b) = N_NOT a b"
| "input_of cs ns (R_CMP a b) = N_CMP a b"
| "input_of cs ns (R_LDS a b) = N_LDS a b"
| "input_of cs ns (R_STS a b) = N_STS a b"
| "input_of cs ns (R_ADD a b c) = N_ADD a b c"
| "input_of cs ns (R_SUB a b c) = N_SUB a b c"
| "input_of cs ns (R_MUL a b c) = N_MUL a b c"
| "input_of cs ns (R_DIV a b c) = N_DIV a b c"
| "input_of cs ns (R_MOD a b c) = N_MOD a b c"
| "input_of cs ns (R_AND a b c) = N_AND a b c"
| "input_of cs ns (R_OR a b c) = N_OR a b c"
| "input_of cs ns (R_XOR a b c) = N_XOR a b c"
| "input_of cs ns (R_SHL a b c) = N_SHL a b c"
| "input_of cs ns (R_SHR a b c) = N_SHR a b c"
| "input_of cs ns (R_JMP t) = N_JMP t"
| "input_of cs ns (R_JMPEQ t) = N_JMPEQ t"
| "input_of cs ns (R_JMPNEQ t) = N_JMPNEQ t"
| "input_of cs ns (R_JMPLT t) = N_JMPLT t"
| "input_of cs ns (R_JMPGT t) = N_JMPGT t"
| "input_of cs ns (R_CALL k) = N_CALL (ns ! unat k)"
| "input_of cs ns (R_RET r) = N_RET r"
| "input_of cs ns (R_PUSHARG r) = N_PUSHARG r"

fun call_index_ok :: "string list \<Rightarrow> resolved_instruction \<Rightarrow> bool" where
  "call_index_ok ns (R_CALL k) = (unat k < length ns)"
| "call_index_ok ns _ = True"

definition register_below :: "usize \<Rightarrow> u32 option \<Rightarrow> bool" where
  "register_below rc m = (\<forall>k. m = Some k \<longrightarrow> unat k < rc)"

lemma max_below: "unat (a :: u32) < rc \<Longrightarrow> unat b < rc \<Longrightarrow> unat (max a b) < rc"
  by (simp add: max_def)

lemma max_optional_below: "register_below rc a \<Longrightarrow> register_below rc b \<Longrightarrow> register_below rc (max_optional a b)"
  by (cases a; cases b) (auto simp: register_below_def max_below)

lemma lower_input_same:
  assumes "lower_instruction_from_parts rc (Some cs) (Some ns) r n s = (Inr p, t)" "call_index_ok ns r"
  shows "\<exists>m. lower_instruction_input (input_of cs ns r) n s = (Inr (p, m), t) \<and> register_below rc m"
  using assms
  by (cases r)
    (auto simp: lower_simps pack2_def pack3_def register_below_def max_below get_constant_value_def
      get_function_name_def vec_get_def split: if_splits)

lemma stream_loop_same:
  assumes "lower_all rc (Some cs) (Some ns) (header_instruction_count h) rs s = (Inr ps, t)"
    and "list_all (call_index_ok ns) rs" "register_below rc m"
  shows "\<exists>m'. stream_loop h (length rs) count (map (input_of cs ns) rs) m s = (Inr (ps, m', []), t) \<and>
    register_below rc m'"
  using assms
proof (induction rs arbitrary: s ps count m)
  case (Cons r rs)
  then obtain p ps' u where u: "lower_instruction_from_parts rc (Some cs) (Some ns) r (header_instruction_count h) s = (Inr p, u)"
      "lower_all rc (Some cs) (Some ns) (header_instruction_count h) rs u = (Inr ps', t)" "ps = p # ps'"
    by (auto simp: mbind_Inr_iff mret_Inr)
  obtain k where k: "lower_instruction_input (input_of cs ns r) (header_instruction_count h) s = (Inr (p, k), u)"
      "register_below rc k"
    using lower_input_same [OF u(1)] Cons.prems(2) by auto
  obtain m' where "stream_loop h (length rs) (Suc count) (map (input_of cs ns) rs) (max_optional m k) u =
      (Inr (ps', m', []), t)" "register_below rc m'"
    using Cons.IH [OF u(2) _ max_optional_below [OF Cons.prems(3) k(2)], of "Suc count"] Cons.prems(2) by auto
  then show ?case using k u(3) by (simp add: mbind_def mret_def)
qed (simp add: mret_def)

text \<open>loading a function as a stream of instructions gives the same execution form as resolving it in
  memory and lowering it, and the same frame size, for every function whose frame covers its
  parameters and referenced registers.\<close>

theorem stream_loading_equivalent:
  assumes "from_vm_function f = Inr rf" "resolved_instructions f = Some rs" "constant_values f = Some cs"
    and "call_target_names f = Some ns" "list_all (call_index_ok ns) rs"
    and "length (parameters f) \<le> register_count f"
    and "header_register_count h = register_count f" "header_parameters h = parameters f"
    and "header_instruction_count h = length rs"
  shows "(from_resolved_instruction_input_stream h (map (input_of cs ns) rs) = Inr (rf, register_count f)) \<and>
   (from_vm_function_consuming_resolved f = (Inr rf, discard_resolved_instructions f))"
proof (intro conjI impI)
  obtain ps s where l: "lower_all (register_count f) (Some cs) (Some ns) (length rs) rs interners_new = (Inr ps, s)"
    and rf: "rf = finish_function ps s"
    using from_vm_function_Some [OF assms(2,3,4,1)] by blast
  let ?m = "Option.bind (checked_sub_usize (length (header_parameters h)) 1) u32_try_from"
  have "register_below (register_count f) ?m"
    using assms(6,8) by (auto simp: register_below_def checked_sub_usize_def u32_try_from_Some split: if_splits)
  then obtain m where m: "stream_loop h (length rs) 0 (map (input_of cs ns) rs) ?m interners_new =
      (Inr (ps, m, []), s)" "register_below (register_count f) m"
    using stream_loop_same [of "register_count f" cs ns h rs interners_new ps s ?m 0] l assms(5,9) by auto
  then show "from_resolved_instruction_input_stream h (map (input_of cs ns) rs) = Inr (rf, register_count f)"
    using assms(7,9) rf
    by (auto simp: from_resolved_instruction_input_stream_def register_below_def max_def split: option.splits)
  show "from_vm_function_consuming_resolved f = (Inr rf, discard_resolved_instructions f)"
    using consuming_resolved_eq [OF assms(2-4)] assms(1) by simp
qed

definition tiny_function :: vm_function where
  "tiny_function = \<lparr>resolved_instructions = Some [R_LDI 0 0, R_RET 0], constant_values = Some [I64 5],
     call_target_names = Some [], fn_name = ''t'', parameters = [], fn_upvalues = [], fn_parent = None,
     register_count = 1, instructions = [], labels = []\<rparr>"

definition tiny_header :: resolved_function_header where
  "tiny_header = \<lparr>header_name = ''t'', header_parameters = [], header_upvalues = [], header_parent = None,
     header_register_count = 1, header_instruction_count = 2\<rparr>"

definition tiny_runtime :: runtime_function where
  "tiny_runtime = \<lparr>rt_instructions = [packed_new OpLoadImmediate 0 0 0, packed_new OpReturn 0 0 0],
     rt_constants = [I64 5], rt_call_targets = []\<rparr>"

lemma tiny_lowers: "from_vm_function tiny_function = Inr tiny_runtime"
  by (simp add: tiny_function_def tiny_runtime_def from_vm_function_def mbind_def mread_def mret_def reg_def
      runtime_register_try_new_def u32_try_from_def get_constant_value_def vec_get_def intern_constant_def
      interners_new_def runtime_constant_try_new_def finish_function_def)

theorem stream_loading_equivalent_witness:
  "from_resolved_instruction_input_stream tiny_header [N_LDI 0 (I64 5), N_RET 0] = Inr (tiny_runtime, 1)"
  using stream_loading_equivalent [THEN conjunct1, rule_format, OF tiny_lowers, of "[R_LDI 0 0, R_RET 0]" "[I64 5]" "[]" tiny_header]
  by (simp add: tiny_function_def tiny_header_def)

text \<open>C32: interning shares by value equality, and by nothing finer: of two constants interned in turn,
  the second gets the slot of the first exactly when the two are equal as values, and the slot of the
  second holds a constant equal to it. Equality of values identifies the two zeros and all NaNs, so a
  function that loads both zeros loads the first one twice, although they differ in their bits.\<close>

theorem interned_constants_shared:
  assumes "interners_ok s" "intern_constant v s = (Inr i, t)" "intern_constant w t = (Inr k, u)"
  shows "(k = i \<longleftrightarrow> value_eq v w) \<and> (\<exists>c. vec_get (constant_table (constants u)) (unat k) = Some c \<and> value_eq c w)"
proof -
  note first = intern_constant_ok [OF assms(1,2)]
  note second = intern_constant_ok [OF first [THEN conjunct1] assms(3)]
  obtain c where c: "vec_get (constant_table (constants t)) (unat i) = Some c" "value_eq c v" using first by blast
  have kept: "vec_get (constant_table (constants u)) (unat i) = Some c"
    using second c(1) by (auto simp: interners_extend_def intro: vec_get_append)
  have "value_eq v w" if "k = i"
    using second kept c(2) that by (auto dest: veq.sym intro: veq.trans)
  moreover have "k = i" if "value_eq v w"
  proof -
    have "hm_get value_eq (constant_index (constants t)) v = Some i"
      using assms(2) veq.refl [of v] by (auto simp: intern_constant_def Let_def veq.get_insert split: option.splits sum.splits)
    then have "hm_get value_eq (constant_index (constants t)) w = Some i" using veq.get_cong [OF that, of "constant_index (constants t)"] by simp
    then show ?thesis using assms(3) by (simp add: intern_constant_def)
  qed
  ultimately show ?thesis using second by blast
qed

theorem interned_constants_shared_witness:
  "\<exists>t k u. intern_constant (Float 0) interners_new = (Inr 0, t) \<and> intern_constant (Float 0x8000000000000000) t = (Inr k, u) \<and>
     k = 0 \<and> constant_table (constants u) = [Float 0] \<and> value_eq (Float 0) (Float 0x8000000000000000)"
proof -
  have eq: "value_eq (Float 0) (Float 0x8000000000000000)"
    by (simp add: value_eq_Float F64_eq_def to_bits_normalized_def f64_defs f64_eq_def f64_partial_cmp_def f64_key_def)
  let ?t = "interners_new\<lparr>constants := \<lparr>constant_index = [(Float 0, 0)], constant_table = [Float 0]\<rparr>\<rparr>"
  have first: "intern_constant (Float 0) interners_new = (Inr 0, ?t)"
    by (simp add: intern_constant_def interners_new_def runtime_constant_try_new_def u32_try_from_def)
  have second: "intern_constant (Float 0x8000000000000000) ?t = (Inr 0, ?t)" using eq by (simp add: intern_constant_def)
  show ?thesis using interned_constants_shared [OF interners_ok_new first second] first second by auto
qed

end
