(* ===== verification/Reveal_Batcher.thy ===== *)
theory Reveal_Batcher
  imports Share_Runtime
begin

text \<open>
  The queue of pending reveals of \<open>stoffel-vm/src/net/reveal_batcher.rs\<close> and the destinations of
  \<open>stoffel-vm/src/reveal_destination.rs\<close>. Secret-to-clear moves are queued so that the engine opens
  many shares at once. The queue keeps a vector in order of arrival with two hash indices; its
  specification is the ordered association list \<open>queued\<close> from destinations to shares.
  A write through an index that the invariant rules out would panic in the source and leaves
  the vector alone here.
\<close>

section \<open>Data\<close>

record reveal_destination =
  frame_depth :: usize
  dest_register :: u32

record queued_reveal =
  destination :: reveal_destination
  queued_type :: share_type
  queued_data :: share_data

record revealed_register =
  revealed_destination :: reveal_destination
  revealed_value :: val

record reveal_batch_index =
  by_destination :: "(reveal_destination \<times> usize) list"
  by_frame :: "(usize \<times> usize) list"

record reveal_batcher =
  pending :: "queued_reveal list"
  batch_index :: "reveal_batch_index option"
  enabled :: bool
  max_pending :: usize

section \<open>Operations\<close>

definition index_new :: reveal_batch_index where
  "index_new = \<lparr>by_destination = [], by_frame = []\<rparr>"

definition index_insert :: "reveal_destination \<Rightarrow> usize \<Rightarrow> reveal_batch_index \<Rightarrow> reveal_batch_index" where
  "index_insert d i ix =
     ix\<lparr>by_destination := hm_insert (=) d i (by_destination ix),
        by_frame := hm_insert (=) (frame_depth d)
          ((case hm_get (=) (by_frame ix) (frame_depth d) of None \<Rightarrow> 0 | Some n \<Rightarrow> n) + 1) (by_frame ix)\<rparr>"

definition decrement_frame_count :: "usize \<Rightarrow> reveal_batch_index \<Rightarrow> reveal_batch_index" where
  "decrement_frame_count fr ix =
     (case hm_get (=) (by_frame ix) fr of
        None \<Rightarrow> ix
      | Some n \<Rightarrow>
          if n - 1 = 0 then ix\<lparr>by_frame := hm_remove (=) fr (by_frame ix)\<rparr>
          else ix\<lparr>by_frame := hm_insert (=) fr (n - 1) (by_frame ix)\<rparr>)"

definition reveal_batcher_new :: reveal_batcher where
  "reveal_batcher_new = \<lparr>pending = [], batch_index = None, enabled = True, max_pending = 1024\<rparr>"

definition has_pending :: "reveal_batcher \<Rightarrow> bool" where
  "has_pending b = (pending b \<noteq> [])"

definition index_or_new :: "reveal_batcher \<Rightarrow> reveal_batch_index" where
  "index_or_new b = (case batch_index b of None \<Rightarrow> index_new | Some ix \<Rightarrow> ix)"

definition queue :: "reveal_destination \<Rightarrow> share_type \<Rightarrow> share_data \<Rightarrow> reveal_batcher \<Rightarrow> reveal_batcher" where
  "queue d ty x b =
     (let q = \<lparr>destination = d, queued_type = ty, queued_data = x\<rparr>
      in case Option.bind (batch_index b) (\<lambda>ix. hm_get (=) (by_destination ix) d) of
           Some i \<Rightarrow> b\<lparr>pending := (pending b)[i := q]\<rparr>
         | None \<Rightarrow>
             b\<lparr>pending := pending b @ [q],
               batch_index := Some (index_insert d (length (pending b)) (index_or_new b))\<rparr>)"

definition has_pending_frame :: "reveal_batcher \<Rightarrow> usize \<Rightarrow> bool" where
  "has_pending_frame b fr =
     (case batch_index b of None \<Rightarrow> False | Some ix \<Rightarrow> hm_get (=) (by_frame ix) fr \<noteq> None)"

definition has_pending_destination :: "reveal_batcher \<Rightarrow> reveal_destination \<Rightarrow> bool" where
  "has_pending_destination b d =
     (case batch_index b of None \<Rightarrow> False | Some ix \<Rightarrow> hm_get (=) (by_destination ix) d \<noteq> None)"

fun index_from :: "usize \<Rightarrow> queued_reveal list \<Rightarrow> reveal_batch_index \<Rightarrow> reveal_batch_index" where
  "index_from i [] ix = ix"
| "index_from i (q # qs) ix = index_from (Suc i) qs (index_insert (destination q) i ix)"

definition rebuild_indices :: "reveal_batcher \<Rightarrow> reveal_batcher" where
  "rebuild_indices b =
     (if pending b = [] then b\<lparr>batch_index := None\<rparr>
      else b\<lparr>batch_index := Some (index_from 0 (pending b) index_new)\<rparr>)"

fun reindex :: "usize \<Rightarrow> queued_reveal list \<Rightarrow> (reveal_destination \<times> usize) list \<Rightarrow> (reveal_destination \<times> usize) list" where
  "reindex i [] m = m"
| "reindex i (q # qs) m = reindex (Suc i) qs (hm_insert (=) (destination q) i m)"

definition reindex_from :: "usize \<Rightarrow> reveal_batcher \<Rightarrow> reveal_batcher" where
  "reindex_from start b =
     (case batch_index b of
        None \<Rightarrow> b
      | Some ix \<Rightarrow>
          b\<lparr>batch_index := Some (ix\<lparr>by_destination := reindex start (drop start (pending b)) (by_destination ix)\<rparr>)\<rparr>)"

definition cancel_destination :: "reveal_destination \<Rightarrow> reveal_batcher \<Rightarrow> reveal_batcher" where
  "cancel_destination d b =
     (if pending b = [] then b
      else case batch_index b of
             None \<Rightarrow> b
           | Some ix \<Rightarrow>
               (case hm_get (=) (by_destination ix) d of
                  None \<Rightarrow> b
                | Some i \<Rightarrow>
                    let removed = pending b ! i;
                        rest = take i (pending b) @ drop (Suc i) (pending b);
                        ix' = decrement_frame_count (frame_depth (destination removed))
                                (ix\<lparr>by_destination := hm_remove (=) d (by_destination ix)\<rparr>)
                    in if rest = [] then b\<lparr>pending := [], batch_index := None\<rparr>
                       else reindex_from i (b\<lparr>pending := rest, batch_index := Some ix'\<rparr>)))"

definition clear_frame :: "usize \<Rightarrow> reveal_batcher \<Rightarrow> reveal_batcher" where
  "clear_frame fr b =
     (if \<not> has_pending_frame b fr then b
      else rebuild_indices (b\<lparr>pending := filter (\<lambda>q. frame_depth (destination q) \<noteq> fr) (pending b)\<rparr>))"

definition clear_frames_at_or_above :: "usize \<Rightarrow> reveal_batcher \<Rightarrow> reveal_batcher" where
  "clear_frames_at_or_above depth b =
     rebuild_indices (b\<lparr>pending := filter (\<lambda>q. frame_depth (destination q) < depth) (pending b)\<rparr>)"

definition clear_all :: "reveal_batcher \<Rightarrow> reveal_batcher" where
  "clear_all b = b\<lparr>pending := [], batch_index := None\<rparr>"

definition should_auto_flush :: "reveal_batcher \<Rightarrow> usize \<Rightarrow> bool" where
  "should_auto_flush b fr =
     (max_pending b \<le>
      (case Option.bind (batch_index b) (\<lambda>ix. hm_get (=) (by_frame ix) fr) of None \<Rightarrow> 0 | Some n \<Rightarrow> n))"

section \<open>Flushing\<close>

type_synonym reveal_group = "(share_type \<times> share_data_format) \<times> usize list"

fun add_to_group :: "share_type \<times> share_data_format \<Rightarrow> usize \<Rightarrow> reveal_group list \<Rightarrow> reveal_group list" where
  "add_to_group key i [] = [(key, [i])]"
| "add_to_group key i ((key', is) # gs) =
     (if key' = key then (key', is @ [i]) # gs else (key', is) # add_to_group key i gs)"

definition group_key :: "queued_reveal \<Rightarrow> share_type \<times> share_data_format" where
  "group_key q = (queued_type q, format (queued_data q))"

definition grouped_indices :: "queued_reveal list \<Rightarrow> usize list \<Rightarrow> reveal_group list" where
  "grouped_indices qs selected = foldl (\<lambda>gs i. add_to_group (group_key (qs ! i)) i gs) [] selected"

fun store_revealed :: "share_type \<Rightarrow> usize list \<Rightarrow> clear_share_value list \<Rightarrow> val option list \<Rightarrow> val option list" where
  "store_revealed ty (i # is) (v # vs) found =
     store_revealed ty is vs (found[i := Some (clear_share_value_to_vm_value ty v)])"
| "store_revealed ty _ _ found = found"

fun open_groups ::
  "mpc_engine \<Rightarrow> queued_reveal list \<Rightarrow> reveal_group list \<Rightarrow> val option list \<Rightarrow>
   reveal_batch_error + val option list" where
  "open_groups e qs [] found = Inr found"
| "open_groups e qs (((ty, fmt), is) # gs) found =
     rbind (map_err (RevealBackend ty)
              (engine_batch_open_shares e ty (map (\<lambda>i. as_bytes (queued_data (qs ! i))) is))) (\<lambda>vs.
       if length vs \<noteq> length is then Inl (CountMismatch ty (length vs) (length is))
       else open_groups e qs gs (store_revealed ty is vs found))"

fun collect_revealed ::
  "queued_reveal list \<Rightarrow> val option list \<Rightarrow> usize list \<Rightarrow> reveal_batch_error + revealed_register list" where
  "collect_revealed qs found [] = Inr []"
| "collect_revealed qs found (i # is) =
     (case found ! i of
        None \<Rightarrow> Inl (MissingResult i)
      | Some v \<Rightarrow>
          map_ok (\<lambda>rs. \<lparr>revealed_destination = destination (qs ! i), revealed_value = v\<rparr> # rs)
            (collect_revealed qs (found[i := None]) is))"

definition selected_indices :: "usize \<Rightarrow> queued_reveal list \<Rightarrow> usize list" where
  "selected_indices fr qs = filter (\<lambda>i. frame_depth (destination (qs ! i)) = fr) [0..<length qs]"

definition flush :: "usize \<Rightarrow> mpc_engine \<Rightarrow> (reveal_batcher, reveal_batch_error, revealed_register list) meth" where
  "flush fr e b =
     (let qs = pending b; selected = selected_indices fr qs
      in if selected = [] then (Inr [], b)
         else case rbind (open_groups e qs (grouped_indices qs selected) (replicate (length qs) None))
                     (\<lambda>found. collect_revealed qs found selected) of
                Inl err \<Rightarrow> (Inl err, b)
              | Inr rs \<Rightarrow> (Inr rs, clear_frame fr b))"

section \<open>Specification: an ordered association list\<close>

definition entry :: "queued_reveal \<Rightarrow> reveal_destination \<times> share_type \<times> share_data" where
  "entry q = (destination q, queued_type q, queued_data q)"

definition queued :: "reveal_batcher \<Rightarrow> (reveal_destination \<times> share_type \<times> share_data) list" where
  "queued b = map entry (pending b)"

definition frame_count :: "queued_reveal list \<Rightarrow> usize \<Rightarrow> nat" where
  "frame_count qs fr = length (filter (\<lambda>q. frame_depth (destination q) = fr) qs)"

text \<open>The indices agree with the vector: destinations are distinct, each is indexed at its position, and each
  frame has its number of entries.\<close>

definition index_ok :: "queued_reveal list \<Rightarrow> reveal_batch_index \<Rightarrow> bool" where
  "index_ok qs ix =
     ((\<forall>d i. hm_get (=) (by_destination ix) d = Some i \<longleftrightarrow> i < length qs \<and> destination (qs ! i) = d) \<and>
      (\<forall>fr. hm_get (=) (by_frame ix) fr = (if frame_count qs fr = 0 then None else Some (frame_count qs fr))) \<and>
      hm_distinct (=) (by_destination ix) \<and> hm_distinct (=) (by_frame ix))"

definition batcher_ok :: "reveal_batcher \<Rightarrow> bool" where
  "batcher_ok b =
     (distinct (map destination (pending b)) \<and>
      (case batch_index b of None \<Rightarrow> pending b = [] | Some ix \<Rightarrow> pending b \<noteq> [] \<and> index_ok (pending b) ix))"

lemma frame_count_simps [simp]:
  "frame_count [] fr = 0"
  "frame_count (q # qs) fr = (if frame_depth (destination q) = fr then Suc (frame_count qs fr) else frame_count qs fr)"
  "frame_count (ps @ qs) fr = frame_count ps fr + frame_count qs fr"
  by (simp_all add: frame_count_def)

lemma frame_count_0: "frame_count qs fr = 0 \<longleftrightarrow> (\<forall>q \<in> set qs. frame_depth (destination q) \<noteq> fr)"
  by (auto simp: frame_count_def filter_empty_conv)

lemma index_ok_insert:
  assumes "index_ok qs ix" "destination q \<notin> destination ` set qs"
  shows "index_ok (qs @ [q]) (index_insert (destination q) (length qs) ix)"
proof -
  have new: "destination (qs ! i) \<noteq> destination q" if "i < length qs" for i
    using assms(2) that by (metis image_eqI nth_mem)
  have "hm_get (=) (by_destination (index_insert (destination q) (length qs) ix)) d = Some i \<longleftrightarrow>
      i < length (qs @ [q]) \<and> destination ((qs @ [q]) ! i) = d" for d i
    using assms(1) new by (auto simp: index_ok_def index_insert_def heq.get_insert nth_append less_Suc_eq)
  moreover have "hm_get (=) (by_frame (index_insert (destination q) (length qs) ix)) fr =
      (if frame_count (qs @ [q]) fr = 0 then None else Some (frame_count (qs @ [q]) fr))" for fr
    using assms(1) by (simp add: index_ok_def index_insert_def heq.get_insert)
  moreover have "hm_distinct (=) (by_destination (index_insert (destination q) (length qs) ix))"
    "hm_distinct (=) (by_frame (index_insert (destination q) (length qs) ix))"
    using assms(1) by (simp_all add: index_ok_def index_insert_def heq.insert_distinct)
  ultimately show ?thesis unfolding index_ok_def by blast
qed

lemma index_ok_new: "index_ok [] index_new"
  by (simp add: index_ok_def index_new_def)

lemma index_ok_from:
  "index_ok ps ix \<Longrightarrow> distinct (map destination (ps @ qs)) \<Longrightarrow> index_ok (ps @ qs) (index_from (length ps) qs ix)"
proof (induction qs arbitrary: ps ix)
  case (Cons q qs)
  have "destination q \<notin> destination ` set ps" using Cons.prems(2) by auto
  from index_ok_insert [OF Cons.prems(1) this] Cons.IH [of "ps @ [q]"] Cons.prems(2) show ?case by simp
qed simp

lemma index_ok_cong:
  assumes "map destination qs = map destination ps"
  shows "index_ok qs ix = index_ok ps ix"
proof -
  have l: "length qs = length ps" using assms by (metis length_map)
  have n: "destination (qs ! i) = destination (ps ! i)" if "i < length ps" for i
    using assms l that by (metis nth_map)
  have "frame_count qs fr = length (filter (\<lambda>d. frame_depth d = fr) (map destination qs))" for qs fr
    by (induction qs) simp_all
  then have "frame_count qs = frame_count ps" by (intro ext) (simp only: assms)
  then show ?thesis using l n by (auto simp: index_ok_def)
qed

lemma rebuild_ok: "distinct (map destination (pending b)) \<Longrightarrow> batcher_ok (rebuild_indices b)"
  using index_ok_from [OF index_ok_new, of "pending b"]
  by (auto simp: rebuild_indices_def batcher_ok_def)

lemma hm_insert_entry:
  "distinct (map destination qs) \<Longrightarrow> i < length qs \<Longrightarrow> destination (qs ! i) = destination q \<Longrightarrow>
   hm_insert (=) (destination q) (queued_type q, queued_data q) (map entry qs) = map entry (qs[i := q])"
proof (induction qs arbitrary: i)
  case (Cons p qs)
  show ?case
  proof (cases i)
    case 0
    then show ?thesis using Cons.prems(3) by (simp add: entry_def)
  next
    case (Suc n)
    have "n < length qs" "destination (qs ! n) = destination q" using Cons.prems Suc by auto
    then have "destination q \<in> destination ` set qs" by (metis image_eqI nth_mem)
    then have "destination p \<noteq> destination q" using Cons.prems(1) by auto
    then show ?thesis using Cons Suc by (simp add: entry_def)
  qed
qed simp

lemma hm_insert_entry_new:
  "destination q \<notin> destination ` set qs \<Longrightarrow>
   hm_insert (=) (destination q) (queued_type q, queued_data q) (map entry qs) = map entry (qs @ [q])"
  by (induction qs) (auto simp: entry_def)

lemma hm_remove_entry:
  "distinct (map destination qs) \<Longrightarrow> i < length qs \<Longrightarrow>
   hm_remove (=) (destination (qs ! i)) (map entry qs) = map entry (take i qs @ drop (Suc i) qs)"
proof (induction qs arbitrary: i)
  case (Cons p qs)
  show ?case
  proof (cases i)
    case 0
    then show ?thesis by (simp add: entry_def)
  next
    case (Suc n)
    have "n < length qs" using Cons.prems Suc by auto
    then have "destination (qs ! n) \<in> destination ` set qs" by (metis image_eqI nth_mem)
    then have "destination p \<noteq> destination (qs ! n)" using Cons.prems(1) by auto
    then show ?thesis using Cons Suc by (simp add: entry_def)
  qed
qed simp

lemma hm_remove_entry_absent:
  "d \<notin> destination ` set qs \<Longrightarrow> hm_remove (=) d (map entry qs) = map entry qs"
  by (induction qs) (auto simp: entry_def)

lemma hm_get_entry: "hm_get (=) (map entry qs) d \<noteq> None \<longleftrightarrow> d \<in> destination ` set qs"
  by (induction qs) (auto simp: entry_def)

lemma indexed_destination:
  assumes "batcher_ok b"
  shows "Option.bind (batch_index b) (\<lambda>ix. hm_get (=) (by_destination ix) d) = Some i \<longleftrightarrow>
           i < length (pending b) \<and> destination (pending b ! i) = d"
    and "Option.bind (batch_index b) (\<lambda>ix. hm_get (=) (by_destination ix) d) = None \<longleftrightarrow>
           d \<notin> destination ` set (pending b)"
proof -
  show 1: "Option.bind (batch_index b) (\<lambda>ix. hm_get (=) (by_destination ix) d) = Some i \<longleftrightarrow>
      i < length (pending b) \<and> destination (pending b ! i) = d" for i
    using assms by (auto simp: batcher_ok_def index_ok_def split: option.splits)
  show "Option.bind (batch_index b) (\<lambda>ix. hm_get (=) (by_destination ix) d) = None \<longleftrightarrow>
      d \<notin> destination ` set (pending b)"
  proof
    assume none: "Option.bind (batch_index b) (\<lambda>ix. hm_get (=) (by_destination ix) d) = None"
    show "d \<notin> destination ` set (pending b)"
    proof
      assume "d \<in> destination ` set (pending b)"
      then obtain i where "i < length (pending b)" "destination (pending b ! i) = d"
        by (auto simp: in_set_conv_nth)
      with 1 [of i] none show False by simp
    qed
  next
    assume new: "d \<notin> destination ` set (pending b)"
    show "Option.bind (batch_index b) (\<lambda>ix. hm_get (=) (by_destination ix) d) = None"
    proof (cases "Option.bind (batch_index b) (\<lambda>ix. hm_get (=) (by_destination ix) d)")
      case (Some i)
      with 1 [of i] have "i < length (pending b)" "destination (pending b ! i) = d" by auto
      with new show ?thesis by (metis image_eqI nth_mem)
    qed
  qed
qed

lemma index_or_new_ok: "batcher_ok b \<Longrightarrow> index_ok (pending b) (index_or_new b)"
  by (auto simp: batcher_ok_def index_or_new_def index_ok_new split: option.splits)

lemma distinct_append_new:
  "distinct (map destination qs) \<Longrightarrow> destination q \<notin> destination ` set qs \<Longrightarrow> distinct (map destination (qs @ [q]))"
  by auto

lemma queue_spec:
  assumes "batcher_ok b"
  shows "batcher_ok (queue d ty x b)" "queued (queue d ty x b) = hm_insert (=) d (ty, x) (queued b)"
proof -
  let ?q = "\<lparr>destination = d, queued_type = ty, queued_data = x\<rparr>"
  have dist: "distinct (map destination (pending b))" using assms by (simp add: batcher_ok_def)
  have "batcher_ok (queue d ty x b) \<and> queued (queue d ty x b) = hm_insert (=) d (ty, x) (queued b)"
  proof (cases "Option.bind (batch_index b) (\<lambda>ix. hm_get (=) (by_destination ix) d)")
    case (Some i)
    then have i: "i < length (pending b)" "destination (pending b ! i) = d"
      using indexed_destination(1) [OF assms] by auto
    have same: "map destination ((pending b)[i := ?q]) = map destination (pending b)"
      using i by (metis list_update_id map_update queued_reveal.select_convs(1))
    have "queue d ty x b = b\<lparr>pending := (pending b)[i := ?q]\<rparr>" using Some by (simp add: queue_def)
    then show ?thesis using assms i hm_insert_entry [OF dist i(1), of ?q] same index_ok_cong [OF same]
      by (auto simp: batcher_ok_def queued_def dist split: option.splits)
  next
    case None
    then have new: "destination ?q \<notin> destination ` set (pending b)" using indexed_destination(2) [OF assms] by simp
    have "queue d ty x b = b\<lparr>pending := pending b @ [?q],
        batch_index := Some (index_insert d (length (pending b)) (index_or_new b))\<rparr>"
      using None by (simp add: queue_def)
    then show ?thesis
      using index_ok_insert [OF index_or_new_ok [OF assms] new] hm_insert_entry_new [OF new]
        distinct_append_new [OF dist new]
      by (simp add: batcher_ok_def queued_def)
  qed
  then show "batcher_ok (queue d ty x b)" "queued (queue d ty x b) = hm_insert (=) d (ty, x) (queued b)" by auto
qed

lemma reindex_get_other: "d \<notin> destination ` set qs \<Longrightarrow> hm_get (=) (reindex i qs m) d = hm_get (=) m d"
  by (induction qs arbitrary: i m) (auto simp: heq.get_insert)

lemma reindex_get:
  "distinct (map destination qs) \<Longrightarrow> k < length qs \<Longrightarrow>
   hm_get (=) (reindex i qs m) (destination (qs ! k)) = Some (i + k)"
proof (induction qs arbitrary: i m k)
  case (Cons q qs)
  have "destination q \<notin> destination ` set qs" using Cons.prems by simp
  then show ?case using Cons.prems Cons.IH [of "k - 1" "Suc i"] reindex_get_other [of "destination q" qs "Suc i"]
    by (cases k) (auto simp: heq.get_insert)
qed simp

lemma reindex_distinct: "hm_distinct (=) m \<Longrightarrow> hm_distinct (=) (reindex i qs m)"
  by (induction qs arbitrary: i m) (simp_all add: heq.insert_distinct)

lemma frame_count_remove:
  assumes "i < length qs"
  shows "frame_count (take i qs @ drop (Suc i) qs) fr =
    frame_count qs fr - (if frame_depth (destination (qs ! i)) = fr then 1 else 0)"
proof -
  have "frame_count qs fr = frame_count (take i qs @ qs ! i # drop (Suc i) qs) fr"
    using assms by (simp only: id_take_nth_drop [symmetric])
  then show ?thesis by simp
qed

lemma decrement_get:
  assumes "hm_distinct (=) (by_frame ix)" "hm_get (=) (by_frame ix) g = Some (Suc n)"
  shows "hm_get (=) (by_frame (decrement_frame_count g ix)) fr =
           (if fr = g then (if n = 0 then None else Some n) else hm_get (=) (by_frame ix) fr)"
    and "hm_distinct (=) (by_frame (decrement_frame_count g ix))"
    and "by_destination (decrement_frame_count g ix) = by_destination ix"
  using assms
  by (auto simp: decrement_frame_count_def heq.get_remove heq.get_insert heq.remove_distinct heq.insert_distinct)

lemma index_ok_remove:
  assumes "index_ok qs ix" "distinct (map destination qs)" "i < length qs"
  defines "rest \<equiv> take i qs @ drop (Suc i) qs"
  defines "ix' \<equiv> decrement_frame_count (frame_depth (destination (qs ! i)))
      (ix\<lparr>by_destination := hm_remove (=) (destination (qs ! i)) (by_destination ix)\<rparr>)"
  shows "index_ok rest (ix'\<lparr>by_destination := reindex i (drop i rest) (by_destination ix')\<rparr>)"
proof -
  let ?d = "destination (qs ! i)" and ?m = "hm_remove (=) (destination (qs ! i)) (by_destination ix)"
  let ?ix = "ix\<lparr>by_destination := ?m\<rparr>"
  have tail: "drop i rest = drop (Suc i) qs" using assms(3) by (simp add: rest_def)
  have len: "length rest = length qs - 1" using assms(3) by (simp add: rest_def)
  have dist: "distinct (map destination (drop (Suc i) qs))" using assms(2) by (metis distinct_drop drop_map)
  have nth: "rest ! j = (if j < i then qs ! j else qs ! Suc j)" if "j < length rest" for j
    using that assms(3) by (auto simp: rest_def nth_append)
  have old: "hm_get (=) (by_destination ix) d = Some j \<longleftrightarrow> j < length qs \<and> destination (qs ! j) = d" for d j
    using assms(1) by (simp add: index_ok_def)
  have inj: "j = k" if "destination (qs ! j) = destination (qs ! k)" "j < length qs" "k < length qs" for j k
    using assms(2) that by (metis distinct_conv_nth length_map nth_map)
  have cnt: "hm_get (=) (by_frame ?ix) (frame_depth ?d) = Some (Suc (frame_count rest (frame_depth ?d)))"
    using assms(1,3) frame_count_remove [OF assms(3), of "frame_depth ?d"] frame_count_0 [of qs "frame_depth ?d"]
    by (auto simp: index_ok_def rest_def)
  have fdist: "hm_distinct (=) (by_frame ?ix)" using assms(1) by (simp add: index_ok_def)
  note dec = decrement_get [OF fdist cnt, folded ix'_def]
  have frames: "hm_get (=) (by_frame ix') fr = (if frame_count rest fr = 0 then None else Some (frame_count rest fr))" for fr
    using dec(1) [of fr] assms(1) frame_count_remove [OF assms(3), of fr] by (auto simp: index_ok_def rest_def)
  have get: "hm_get (=) (reindex i (drop (Suc i) qs) ?m) d = Some j \<longleftrightarrow> j < length rest \<and> destination (rest ! j) = d" for d j
  proof (cases "d \<in> destination ` set (drop (Suc i) qs)")
    case True
    then obtain k where k: "Suc i + k < length qs" "d = destination (qs ! (Suc i + k))"
      by (fastforce simp: in_set_conv_nth less_diff_conv add.commute)
    have "hm_get (=) (reindex i (drop (Suc i) qs) ?m) d = Some (i + k)"
      using reindex_get [OF dist, of k i ?m] k assms(3) by simp
    moreover have "j < length rest \<and> destination (rest ! j) = d \<longleftrightarrow> j = i + k"
    proof
      assume j: "j < length rest \<and> destination (rest ! j) = d"
      then have "destination (qs ! (if j < i then j else Suc j)) = destination (qs ! (Suc i + k))"
        using nth [of j] k(2) by (simp split: if_splits)
      then have "(if j < i then j else Suc j) = Suc i + k" by (rule inj) (use j k len in auto)
      then show "j = i + k" by (simp split: if_splits)
    qed (use k nth [of "i + k"] len assms(3) in auto)
    ultimately show ?thesis by auto
  next
    case False
    then have "hm_get (=) (reindex i (drop (Suc i) qs) ?m) d = (if d = ?d then None else hm_get (=) (by_destination ix) d)"
      using reindex_get_other [of d "drop (Suc i) qs"] heq.get_remove [of "by_destination ix" ?d d] assms(1)
      by (auto simp: index_ok_def)
    moreover have "destination (qs ! Suc j) \<noteq> d" if "i \<le> j" "Suc j < length qs"
    proof -
      have "qs ! Suc j = drop (Suc i) qs ! (j - i)" "j - i < length (drop (Suc i) qs)" using that by auto
      then have "qs ! Suc j \<in> set (drop (Suc i) qs)" by (metis nth_mem)
      then show ?thesis using False by blast
    qed
    moreover have "j < length rest \<and> destination (rest ! j) = d \<longleftrightarrow> d \<noteq> ?d \<and> j < length qs \<and> destination (qs ! j) = d"
    proof
      assume j: "j < length rest \<and> destination (rest ! j) = d"
      then have "j < i" using nth [of j] calculation(2) len by (cases "j < i") (auto simp: less_diff_conv)
      then show "d \<noteq> ?d \<and> j < length qs \<and> destination (qs ! j) = d" using j nth [of j] inj [of j i] assms(3) by auto
    next
      assume j: "d \<noteq> ?d \<and> j < length qs \<and> destination (qs ! j) = d"
      have "j \<noteq> i" using j by auto
      moreover have "\<not> i < j"
      proof
        assume "i < j"
        then have "qs ! j = drop (Suc i) qs ! (j - Suc i)" "j - Suc i < length (drop (Suc i) qs)" using j by auto
        then have "qs ! j \<in> set (drop (Suc i) qs)" by (metis nth_mem)
        then show False using False j by blast
      qed
      ultimately show "j < length rest \<and> destination (rest ! j) = d" using j nth [of j] len assms(3) by auto
    qed
    ultimately show ?thesis using old [of d j] by auto
  qed
  have "hm_distinct (=) (reindex i (drop (Suc i) qs) ?m)"
    using assms(1) by (simp add: index_ok_def reindex_distinct heq.remove_distinct)
  then show ?thesis unfolding index_ok_def tail by (simp add: get frames dec(2,3))
qed

lemma cancel_destination_spec:
  assumes "batcher_ok b"
  shows "batcher_ok (cancel_destination d b)" "queued (cancel_destination d b) = hm_remove (=) d (queued b)"
proof -
  have dist: "distinct (map destination (pending b))" using assms by (simp add: batcher_ok_def)
  have "batcher_ok (cancel_destination d b) \<and> queued (cancel_destination d b) = hm_remove (=) d (queued b)"
  proof (cases "Option.bind (batch_index b) (\<lambda>ix. hm_get (=) (by_destination ix) d)")
    case None
    then have "d \<notin> destination ` set (pending b)" using indexed_destination(2) [OF assms] by blast
    moreover have "cancel_destination d b = b"
      using None by (cases "batch_index b") (simp_all add: cancel_destination_def)
    ultimately show ?thesis using assms by (simp add: queued_def hm_remove_entry_absent)
  next
    case (Some i)
    then obtain ix where ix: "batch_index b = Some ix" "hm_get (=) (by_destination ix) d = Some i"
      by (cases "batch_index b") auto
    have i: "i < length (pending b)" "destination (pending b ! i) = d"
      using Some indexed_destination(1) [OF assms] by auto
    let ?rest = "take i (pending b) @ drop (Suc i) (pending b)"
    have ok: "index_ok (pending b) ix" using assms ix by (simp add: batcher_ok_def)
    have rem: "hm_remove (=) d (queued b) = map entry ?rest"
      using hm_remove_entry [OF dist i(1)] i(2) by (simp add: queued_def)
    have "pending b = take i (pending b) @ pending b ! i # drop (Suc i) (pending b)"
      using i(1) by (rule id_take_nth_drop)
    with dist have "distinct (map destination (take i (pending b) @ pending b ! i # drop (Suc i) (pending b)))"
      by metis
    then have rdist: "distinct (map destination ?rest)" by auto
    show ?thesis
    proof (cases "?rest = []")
      case True
      then show ?thesis using ix i rem by (auto simp: cancel_destination_def Let_def batcher_ok_def queued_def)
    next
      case False
      then show ?thesis
        using ix i rem rdist index_ok_remove [OF ok dist i(1)]
        by (auto simp: cancel_destination_def Let_def batcher_ok_def queued_def reindex_from_def)
    qed
  qed
  then show "batcher_ok (cancel_destination d b)" "queued (cancel_destination d b) = hm_remove (=) d (queued b)"
    by auto
qed

lemma has_pending_frame_iff:
  "batcher_ok b \<Longrightarrow> has_pending_frame b fr \<longleftrightarrow> (\<exists>(d, _) \<in> set (queued b). frame_depth d = fr)"
  by (auto simp: batcher_ok_def has_pending_frame_def index_ok_def frame_count_0 queued_def entry_def
      split: option.splits if_splits)

lemma has_pending_destination_iff:
  "batcher_ok b \<Longrightarrow> has_pending_destination b d \<longleftrightarrow> hm_get (=) (queued b) d \<noteq> None"
  using indexed_destination(2) [of b d] hm_get_entry [of "pending b" d]
  by (cases "batch_index b") (simp_all add: has_pending_destination_def queued_def del: not_None_eq)

lemma filtered_ok:
  assumes "batcher_ok b"
  shows "batcher_ok (rebuild_indices (b\<lparr>pending := filter P (pending b)\<rparr>))"
    and "queued (rebuild_indices (b\<lparr>pending := filter P (pending b)\<rparr>)) = map entry (filter P (pending b))"
proof -
  have "distinct (map destination (filter P (pending b)))"
    using assms by (auto simp: batcher_ok_def distinct_map intro: inj_on_subset)
  then show "batcher_ok (rebuild_indices (b\<lparr>pending := filter P (pending b)\<rparr>))"
    using rebuild_ok [of "b\<lparr>pending := filter P (pending b)\<rparr>"] by simp
  show "queued (rebuild_indices (b\<lparr>pending := filter P (pending b)\<rparr>)) = map entry (filter P (pending b))"
    by (simp add: rebuild_indices_def queued_def)
qed

lemma map_entry_filter: "map entry (filter (\<lambda>q. P (destination q)) qs) = filter (\<lambda>(d, _). P d) (map entry qs)"
  by (induction qs) (auto simp: entry_def)

lemma clear_frame_spec:
  assumes "batcher_ok b"
  shows "batcher_ok (clear_frame fr b)"
    and "queued (clear_frame fr b) = filter (\<lambda>(d, _). frame_depth d \<noteq> fr) (queued b)"
proof -
  show "batcher_ok (clear_frame fr b)" using assms filtered_ok(1) by (simp add: clear_frame_def)
  show "queued (clear_frame fr b) = filter (\<lambda>(d, _). frame_depth d \<noteq> fr) (queued b)"
  proof (cases "has_pending_frame b fr")
    case True
    then show ?thesis using filtered_ok(2) [OF assms] map_entry_filter [of "\<lambda>d. frame_depth d \<noteq> fr"]
      by (simp add: clear_frame_def queued_def)
  next
    case False
    then have "filter (\<lambda>(d, _). frame_depth d \<noteq> fr) (queued b) = queued b"
      using has_pending_frame_iff [OF assms] by (auto intro!: filter_True)
    then show ?thesis using False by (simp add: clear_frame_def)
  qed
qed

lemma clear_frames_at_or_above_spec:
  assumes "batcher_ok b"
  shows "batcher_ok (clear_frames_at_or_above depth b)"
    and "queued (clear_frames_at_or_above depth b) = filter (\<lambda>(d, _). frame_depth d < depth) (queued b)"
  using filtered_ok [OF assms] map_entry_filter [of "\<lambda>d. frame_depth d < depth"]
  by (simp_all add: clear_frames_at_or_above_def queued_def)

lemma should_auto_flush_iff:
  "batcher_ok b \<Longrightarrow>
   should_auto_flush b fr \<longleftrightarrow> max_pending b \<le> length (filter (\<lambda>(d, _). frame_depth d = fr) (queued b))"
  using arg_cong [OF map_entry_filter [of "\<lambda>d. frame_depth d = fr" "pending b"], of length]
  by (auto simp: batcher_ok_def should_auto_flush_def index_ok_def frame_count_def queued_def split: option.splits)

section \<open>Flushing opens each queued share\<close>

text \<open>What a queued share opens to on its own.\<close>

definition opens_to :: "mpc_engine \<Rightarrow> queued_reveal \<Rightarrow> val \<Rightarrow> bool" where
  "opens_to e q v =
     (\<exists>c. engine_open_share e (queued_type q) (as_bytes (queued_data q)) = Inr c \<and>
          v = clear_share_value_to_vm_value (queued_type q) c)"

text \<open>Groups partition the selected positions, and members of a group share its type and format.\<close>

definition groups_ok :: "queued_reveal list \<Rightarrow> usize list \<Rightarrow> reveal_group list \<Rightarrow> bool" where
  "groups_ok qs sel gs =
     ((\<Union>g \<in> set gs. set (snd g)) = set sel \<and> (\<forall>g \<in> set gs. \<forall>i \<in> set (snd g). group_key (qs ! i) = fst g))"

lemma add_to_group_ok:
  assumes "groups_ok qs sel gs"
  shows "groups_ok qs (sel @ [i]) (add_to_group (group_key (qs ! i)) i gs)"
proof -
  have u: "(\<Union>g \<in> set (add_to_group key i gs). set (snd g)) = insert i (\<Union>g \<in> set gs. set (snd g))" for key gs
    by (induction key i gs rule: add_to_group.induct) auto
  have k: "\<forall>g \<in> set (add_to_group (group_key (qs ! i)) i gs). \<forall>i \<in> set (snd g). group_key (qs ! i) = fst g"
    if "\<forall>g \<in> set gs. \<forall>i \<in> set (snd g). group_key (qs ! i) = fst g" for gs
    using that by (induction gs) (fastforce split: if_splits)+
  show ?thesis using assms u [of "group_key (qs ! i)" gs] k [of gs] by (simp add: groups_ok_def)
qed

lemma grouped_indices_ok: "groups_ok qs sel (grouped_indices qs sel)"
proof (induction sel rule: rev_induct)
  case Nil
  then show ?case by (simp add: groups_ok_def grouped_indices_def)
next
  case (snoc i sel)
  then show ?case using add_to_group_ok by (simp add: grouped_indices_def)
qed

lemma store_revealed_nth:
  assumes "length vs = length is" "\<forall>i \<in> set is. i < length found"
    and "\<forall>k < length is. clear_share_value_to_vm_value ty (vs ! k) = f (is ! k)"
  shows "length (store_revealed ty is vs found) = length found \<and>
    (\<forall>j < length found. store_revealed ty is vs found ! j = (if j \<in> set is then Some (f j) else found ! j))"
  using assms
proof (induction "is" arbitrary: vs found)
  case (Cons i "is")
  then obtain v vs' where vs: "vs = v # vs'" by (cases vs) auto
  have v: "clear_share_value_to_vm_value ty v = f i" using Cons.prems(3) vs by force
  have rest: "\<forall>k < length is. clear_share_value_to_vm_value ty (vs' ! k) = f (is ! k)"
    using Cons.prems(3) vs by (auto simp: All_less_Suc2)
  show ?case
    using Cons.IH [of vs' "found[i := Some (f i)]"] Cons.prems vs v rest by (auto simp: nth_list_update)
qed simp

lemma collect_map_cong:
  "(\<And>x. x \<in> set xs \<Longrightarrow> f x = Inr (g x)) \<Longrightarrow> collect (map f xs) = Inr (map g xs)"
  by (induction xs) auto

lemma open_groups_ok:
  assumes batch: "\<And>ty bss. engine_batch_open_shares e ty bss = collect (map (engine_open_share e ty) bss)"
    and "\<forall>g \<in> set gs. \<forall>i \<in> set (snd g). i < length qs \<and> group_key (qs ! i) = fst g \<and> opens_to e (qs ! i) (f i)"
    and "length found = length qs"
  shows "\<exists>found'. open_groups e qs gs found = Inr found' \<and> length found' = length qs \<and>
    (\<forall>j < length qs. found' ! j = (if \<exists>g \<in> set gs. j \<in> set (snd g) then Some (f j) else found ! j))"
  using assms(2,3)
proof (induction gs arbitrary: found)
  case (Cons g gs)
  obtain ty fmt "is" where g: "g = ((ty, fmt), is)" by (metis surj_pair)
  let ?open = "\<lambda>i. engine_open_share e ty (as_bytes (queued_data (qs ! i)))"
  have mem: "i < length qs \<and> queued_type (qs ! i) = ty \<and> opens_to e (qs ! i) (f i)" if "i \<in> set is" for i
    using Cons.prems(1) that by (auto simp: g group_key_def)
  define c where "c i = (SOME c. ?open i = Inr c)" for i
  have c: "?open i = Inr (c i) \<and> clear_share_value_to_vm_value ty (c i) = f i" if i: "i \<in> set is" for i
  proof -
    obtain d where "?open i = Inr d" "f i = clear_share_value_to_vm_value ty d"
      using mem [OF i] by (auto simp: opens_to_def)
    then show ?thesis by (simp add: c_def)
  qed
  have vs: "engine_batch_open_shares e ty (map (\<lambda>i. as_bytes (queued_data (qs ! i))) is) = Inr (map c is)"
    using collect_map_cong [of "is" ?open c] c by (simp add: batch comp_def)
  let ?found = "store_revealed ty is (map c is) found"
  have st: "length ?found = length found" "\<forall>j < length found. ?found ! j = (if j \<in> set is then Some (f j) else found ! j)"
    using store_revealed_nth [of "map c is" "is" found ty f] c mem Cons.prems(2) by auto
  obtain found' where "open_groups e qs gs ?found = Inr found'" "length found' = length qs"
      "\<forall>j < length qs. found' ! j = (if \<exists>g \<in> set gs. j \<in> set (snd g) then Some (f j) else ?found ! j)"
    using Cons.IH [of ?found] Cons.prems st by auto
  then show ?case using vs st Cons.prems(2) by (auto simp: g)
qed simp

lemma collect_revealed_ok:
  assumes "distinct is" "\<forall>i \<in> set is. i < length found \<and> found ! i = Some (f i)"
  shows "collect_revealed qs found is =
    Inr (map (\<lambda>i. \<lparr>revealed_destination = destination (qs ! i), revealed_value = f i\<rparr>) is)"
  using assms
proof (induction "is" arbitrary: found)
  case (Cons i "is")
  have "collect_revealed qs (found[i := None]) is =
      Inr (map (\<lambda>i. \<lparr>revealed_destination = destination (qs ! i), revealed_value = f i\<rparr>) is)"
    by (rule Cons.IH) (use Cons.prems in \<open>auto simp: nth_list_update\<close>)
  then show ?case using Cons.prems by simp
qed simp

lemma selected_filter:
  "map (\<lambda>i. g (qs ! i)) (selected_indices fr qs) = map g (filter (\<lambda>q. frame_depth (destination q) = fr) qs)"
proof -
  have "filter (\<lambda>q. frame_depth (destination q) = fr) (map (nth qs) [0..<length qs]) =
      map (nth qs) (selected_indices fr qs)"
    by (simp add: filter_map selected_indices_def comp_def)
  then show ?thesis by (simp add: map_nth)
qed

lemma flush_spec:
  assumes batch: "\<And>ty bss. engine_batch_open_shares e ty bss = collect (map (engine_open_share e ty) bss)"
    and opens: "\<And>q. q \<in> set (pending b) \<Longrightarrow> frame_depth (destination q) = fr \<Longrightarrow> opens_to e q (f q)"
    and ok: "batcher_ok b"
  shows "flush fr e b =
    (Inr (map (\<lambda>q. \<lparr>revealed_destination = destination q, revealed_value = f q\<rparr>)
            (filter (\<lambda>q. frame_depth (destination q) = fr) (pending b))), clear_frame fr b)"
proof (cases "selected_indices fr (pending b) = []")
  case True
  then have none: "filter (\<lambda>q. frame_depth (destination q) = fr) (pending b) = []"
    using selected_filter [of id "pending b" fr] by simp
  have "\<not> (\<exists>(d, _) \<in> set (queued b). frame_depth d = fr)"
    using none by (auto simp: queued_def entry_def filter_empty_conv)
  then have "clear_frame fr b = b" using has_pending_frame_iff [OF ok] by (simp add: clear_frame_def)
  then show ?thesis using True none by (simp add: flush_def)
next
  case False
  let ?qs = "pending b" and ?sel = "selected_indices fr (pending b)"
  have sel: "i < length ?qs \<and> opens_to e (?qs ! i) (f (?qs ! i))" if "i \<in> set ?sel" for i
    using that opens by (auto simp: selected_indices_def)
  have g: "groups_ok ?qs ?sel (grouped_indices ?qs ?sel)" by (rule grouped_indices_ok)
  obtain found where found: "open_groups e ?qs (grouped_indices ?qs ?sel) (replicate (length ?qs) None) = Inr found"
      "length found = length ?qs"
      "\<forall>j < length ?qs. found ! j = (if \<exists>g \<in> set (grouped_indices ?qs ?sel). j \<in> set (snd g) then Some (f (?qs ! j))
         else replicate (length ?qs) None ! j)"
    using open_groups_ok [OF batch, of "grouped_indices ?qs ?sel" ?qs "\<lambda>i. f (?qs ! i)" "replicate (length ?qs) None"]
      g sel by (fastforce simp: groups_ok_def)
  have "\<forall>i \<in> set ?sel. i < length found \<and> found ! i = Some (f (?qs ! i))"
    using found(2,3) g sel by (auto simp: groups_ok_def)
  then have "collect_revealed ?qs found ?sel =
      Inr (map (\<lambda>i. \<lparr>revealed_destination = destination (?qs ! i), revealed_value = f (?qs ! i)\<rparr>) ?sel)"
    by (intro collect_revealed_ok) (simp_all add: selected_indices_def)
  then show ?thesis using False found(1)
      selected_filter [of "\<lambda>q. \<lparr>revealed_destination = destination q, revealed_value = f q\<rparr>" ?qs fr]
    by (simp add: flush_def Let_def)
qed

section \<open>The interface of a reveal queue\<close>

text \<open>
  What the VM relies on: a map from destinations to shares with insertion, cancellation and
  removal by a predicate on destinations.
\<close>

locale reveal_queue =
  fixes ok :: "'s \<Rightarrow> bool"
    and entries :: "'s \<Rightarrow> ('d \<times> 'x) list"
    and put :: "'d \<Rightarrow> 'x \<Rightarrow> 's \<Rightarrow> 's"
    and cancel :: "'d \<Rightarrow> 's \<Rightarrow> 's"
    and drop_from :: "nat \<Rightarrow> 's \<Rightarrow> 's"
    and depth :: "'d \<Rightarrow> nat"
  assumes put_ok: "ok s \<Longrightarrow> ok (put d x s) \<and> entries (put d x s) = hm_insert (=) d x (entries s)"
    and cancel_ok: "ok s \<Longrightarrow> ok (cancel d s) \<and> entries (cancel d s) = hm_remove (=) d (entries s)"
    and drop_ok: "ok s \<Longrightarrow> ok (drop_from n s) \<and> entries (drop_from n s) = filter (\<lambda>(d, _). depth d < n) (entries s)"
    and entries_distinct: "ok s \<Longrightarrow> hm_distinct (=) (entries s)"
begin

definition waits :: "'s \<Rightarrow> 'd \<Rightarrow> bool" where
  "waits s d = (hm_get (=) (entries s) d \<noteq> None)"

lemma waits_put: "ok s \<Longrightarrow> waits (put d x s) d' \<longleftrightarrow> d' = d \<or> waits s d'"
  using put_ok [of s d x] by (auto simp: waits_def heq.get_insert)

lemma waits_cancel: "ok s \<Longrightarrow> waits (cancel d s) d' \<longleftrightarrow> d' \<noteq> d \<and> waits s d'"
  using cancel_ok [of s d] entries_distinct [of s] by (auto simp: waits_def heq.get_remove)

lemma waits_drop: "ok s \<Longrightarrow> waits (drop_from n s) d \<longleftrightarrow> depth d < n \<and> waits s d"
proof -
  assume "ok s"
  then have "entries (drop_from n s) = filter (\<lambda>(d, _). depth d < n) (entries s)" using drop_ok by blast
  moreover have "hm_get (=) (filter (\<lambda>(d, _). depth d < n) m) d \<noteq> None \<longleftrightarrow> depth d < n \<and> hm_get (=) m d \<noteq> None" for m :: "('d \<times> 'x) list"
    by (induction m) (auto split: if_splits)
  ultimately show ?thesis by (simp add: waits_def)
qed

lemma put_then_cancel: "ok s \<Longrightarrow> \<not> waits (cancel d (put d x s)) d"
  using put_ok [of s d x] by (simp add: waits_cancel)

end

lemma queued_distinct: "batcher_ok b \<Longrightarrow> hm_distinct (=) (queued b)"
proof -
  have "distinct (map destination qs) \<Longrightarrow> hm_distinct (=) (map entry qs)" for qs
  proof (induction qs)
    case (Cons q qs)
    have "hm_get (=) (map entry qs) (destination q) = None"
      using Cons.prems hm_get_entry [of qs "destination q"] by auto
    then show ?case using Cons by (simp add: entry_def [of q])
  qed simp
  then show "batcher_ok b \<Longrightarrow> hm_distinct (=) (queued b)" by (simp add: batcher_ok_def queued_def)
qed

interpretation rb: reveal_queue batcher_ok queued "\<lambda>d (ty, x). queue d ty x" cancel_destination
  clear_frames_at_or_above frame_depth
  by unfold_locales
    (auto simp: queue_spec cancel_destination_spec clear_frames_at_or_above_spec queued_distinct split: prod.splits)

section \<open>Properties\<close>

text \<open>C25: the vector with its two hash indices implements an ordered map from destinations to shares:
  queueing replaces the share of a destination in place or appends it, cancelling removes it,
  clearing drops the entries of a frame or of a frame and its callees, and the three queries
  answer from the map. Every operation keeps the indices consistent with the vector.\<close>

theorem reveal_batcher_refines_ordered_map:
  assumes "batcher_ok b"
  shows "(batcher_ok (queue d ty x b) \<and> queued (queue d ty x b) = hm_insert (=) d (ty, x) (queued b)) \<and>
   (batcher_ok (cancel_destination d b) \<and> queued (cancel_destination d b) = hm_remove (=) d (queued b)) \<and>
   (batcher_ok (clear_frame fr b) \<and>
    queued (clear_frame fr b) = filter (\<lambda>(d, _). frame_depth d \<noteq> fr) (queued b)) \<and>
   (batcher_ok (clear_frames_at_or_above n b) \<and>
    queued (clear_frames_at_or_above n b) = filter (\<lambda>(d, _). frame_depth d < n) (queued b)) \<and>
   (has_pending_frame b fr \<longleftrightarrow> (\<exists>(d, _) \<in> set (queued b). frame_depth d = fr)) \<and>
   (has_pending_destination b d \<longleftrightarrow> hm_get (=) (queued b) d \<noteq> None) \<and>
   (should_auto_flush b fr \<longleftrightarrow> max_pending b \<le> length (filter (\<lambda>(d, _). frame_depth d = fr) (queued b)))"
  using queue_spec [OF assms] cancel_destination_spec [OF assms] clear_frame_spec [OF assms]
    clear_frames_at_or_above_spec [OF assms] has_pending_frame_iff [OF assms]
    has_pending_destination_iff [OF assms] should_auto_flush_iff [OF assms]
  by auto

lemma batcher_ok_new: "batcher_ok reveal_batcher_new"
  by (simp add: batcher_ok_def reveal_batcher_new_def)

theorem reveal_batcher_refines_ordered_map_witness:
  "queued (cancel_destination \<lparr>frame_depth = 0, dest_register = 1\<rparr>
      (queue \<lparr>frame_depth = 0, dest_register = 2\<rparr> (SecretInt 64) (Opaque [2])
         (queue \<lparr>frame_depth = 0, dest_register = 1\<rparr> (SecretInt 64) (Opaque [1]) reveal_batcher_new))) =
   [(\<lparr>frame_depth = 0, dest_register = 2\<rparr>, SecretInt 64, Opaque [2])]"
proof -
  let ?a = "queue \<lparr>frame_depth = 0, dest_register = 1\<rparr> (SecretInt 64) (Opaque [1]) reveal_batcher_new"
  let ?b = "queue \<lparr>frame_depth = 0, dest_register = 2\<rparr> (SecretInt 64) (Opaque [2]) ?a"
  note a = reveal_batcher_refines_ordered_map [THEN conjunct1, rule_format, OF batcher_ok_new, of "\<lparr>frame_depth = 0, dest_register = 1\<rparr>" "SecretInt 64" "Opaque [1]"]
  note b = reveal_batcher_refines_ordered_map [THEN conjunct1, rule_format, OF conjunct1 [OF a], of "\<lparr>frame_depth = 0, dest_register = 2\<rparr>" "SecretInt 64" "Opaque [2]"]
  note c = reveal_batcher_refines_ordered_map [THEN conjunct2, THEN conjunct1, rule_format, OF conjunct1 [OF b], of "\<lparr>frame_depth = 0, dest_register = 1\<rparr>"]
  have "queued reveal_batcher_new = []" by (simp add: queued_def reveal_batcher_new_def)
  with a b c show ?thesis by simp
qed

text \<open>flushing a frame opens every share the frame queued, in queue order, each to the value that
  opening it on its own gives, although shares are grouped by type and format and opened in
  batches; the entries of other frames stay queued. The engine's batch opening is assumed to
  open each share as the single opening does.\<close>

theorem flush_opens_each_share:
  assumes "\<And>ty bss. engine_batch_open_shares e ty bss = collect (map (engine_open_share e ty) bss)"
    and "\<And>q. q \<in> set (pending b) \<Longrightarrow> frame_depth (destination q) = fr \<Longrightarrow> opens_to e q (f q)"
    and "batcher_ok b"
  shows "flush fr e b =
    (Inr (map (\<lambda>q. \<lparr>revealed_destination = destination q, revealed_value = f q\<rparr>)
            (filter (\<lambda>q. frame_depth (destination q) = fr) (pending b))), clear_frame fr b)"
  using assms by (rule flush_spec)

definition sample_batcher :: reveal_batcher where
  "sample_batcher = queue \<lparr>frame_depth = 0, dest_register = 1\<rparr> (SecretInt 64) (Opaque [7]) reveal_batcher_new"

lemma sample_batcher_simps:
  "pending sample_batcher =
     [\<lparr>destination = \<lparr>frame_depth = 0, dest_register = 1\<rparr>, queued_type = SecretInt 64, queued_data = Opaque [7]\<rparr>]"
  "batcher_ok sample_batcher"
  using queue_spec(1) [OF batcher_ok_new] by (simp_all add: sample_batcher_def queue_def reveal_batcher_new_def)

theorem flush_opens_each_share_witness:
  "fst (flush 0 clear_engine sample_batcher) =
     Inr [\<lparr>revealed_destination = \<lparr>frame_depth = 0, dest_register = 1\<rparr>, revealed_value = I64 7\<rparr>]"
proof -
  have "flush 0 clear_engine sample_batcher =
      (Inr (map (\<lambda>q. \<lparr>revealed_destination = destination q, revealed_value = I64 7\<rparr>)
              (filter (\<lambda>q. frame_depth (destination q) = 0) (pending sample_batcher))), clear_frame 0 sample_batcher)"
    by (rule flush_opens_each_share)
      (auto simp: sample_batcher_simps clear_engine_def opens_to_def open_bytes_def clear_share_value_to_vm_value_def)
  then show ?thesis by (simp add: sample_batcher_simps(1))
qed

end
