(* ===== verification/Activation.thy ===== *)
theory Activation
  imports Runtime_Instruction
begin

text \<open>
  Activation records, from \<open>stoffel-vm-types/src/activations.rs\<close>: the registers, the argument
  stack, the spill area, the comparison flag, the instruction pointer, the captured variables
  and the parameter names of one call. A closure is its function name with its captured
  variables; capacity hints have no effect here.
\<close>

section \<open>Frames\<close>

record activation_record =
  ar_function_name :: string
  ar_locals :: "(string \<times> val) list"
  ar_registers :: register_file
  ar_upvalues :: "upvalue list"
  ar_stack :: "val list"
  ar_spill :: "val list"
  ar_compare_flag :: compare_flag
  ar_instruction_pointer :: usize
  ar_closure :: "(string \<times> upvalue list) option"

definition for_function ::
  "string \<Rightarrow> register_layout \<Rightarrow> usize \<Rightarrow> upvalue list \<Rightarrow> (string \<times> upvalue list) option \<Rightarrow> activation_record" where
  "for_function name layout rc ups clo =
     \<lparr>ar_function_name = name, ar_locals = [], ar_registers = register_file_new layout rc, ar_upvalues = ups,
      ar_stack = [], ar_spill = [], ar_compare_flag = FlagEqual, ar_instruction_pointer = 0, ar_closure = clo\<rparr>"

text \<open>The slots that \<open>iter_mut\<close> yields, which bound the zip of parameters, arguments and slots.\<close>

definition ready_slot_count :: "register_file \<Rightarrow> nat" where
  "ready_slot_count f = length (filter (\<lambda>s. as_value s \<noteq> None) (clear_bank f @ secret_bank f))"

fun insert_locals :: "(string \<times> val) list \<Rightarrow> (string \<times> val) list \<Rightarrow> (string \<times> val) list" where
  "insert_locals m [] = m"
| "insert_locals m ((name, v) # nvs) = insert_locals (hm_insert (=) name v m) nvs"

definition bind_owned_parameters ::
  "string list \<Rightarrow> val list \<Rightarrow> activation_record \<Rightarrow> activation_error + activation_record" where
  "bind_owned_parameters params args r =
     (if length params \<noteq> length args
      then Inl (ActFunctionArityMismatch (ar_function_name r) (length params) (length args))
      else if rf_len (ar_registers r) < length params
      then Inl (ActRegisterOutOfBounds (rf_len (ar_registers r)) (rf_len (ar_registers r)))
      else Inr (r\<lparr>ar_registers := iter_mut_write (ar_registers r) args,
                  ar_locals := insert_locals (ar_locals r)
                    (take (ready_slot_count (ar_registers r)) (zip params args))\<rparr>))"

definition copy_stack_value_to_clear_register ::
  "activation_record \<Rightarrow> usize \<Rightarrow> usize \<Rightarrow> (clear_register_copy_result \<times> activation_record) option" where
  "copy_stack_value_to_clear_register r dest i =
     map_option (\<lambda>v. case write_clear_value_from_ref (ar_registers r) dest v of (res, f) \<Rightarrow> (res, r\<lparr>ar_registers := f\<rparr>))
       (vec_get (ar_stack r) i)"

definition spill_store :: "usize \<Rightarrow> val \<Rightarrow> activation_record \<Rightarrow> activation_record" where
  "spill_store slot v r =
     (let sp = if length (ar_spill r) \<le> slot then resize_to Unit (ar_spill r) (slot + 1) else ar_spill r
      in r\<lparr>ar_spill := sp[slot := v]\<rparr>)"

definition spill_load :: "activation_record \<Rightarrow> usize \<Rightarrow> val" where
  "spill_load r slot = (case vec_get (ar_spill r) slot of None \<Rightarrow> Unit | Some v \<Rightarrow> v)"

definition try_advance_instruction_pointer :: "activation_record \<Rightarrow> activation_error + activation_record" where
  "try_advance_instruction_pointer r =
     map_ok (\<lambda>ip. r\<lparr>ar_instruction_pointer := ip\<rparr>)
       (ok_or (InstructionPointerOverflow (ar_function_name r) (ar_instruction_pointer r))
          (checked_add_usize (ar_instruction_pointer r) 1))"

text \<open>After a fetch the pointer is below the number of instructions, so the source's checked increment
  does not overflow.\<close>

definition advance_instruction_pointer_after_fetch :: "activation_record \<Rightarrow> activation_record" where
  "advance_instruction_pointer_after_fetch r = r\<lparr>ar_instruction_pointer := ar_instruction_pointer r + 1\<rparr>"

text \<open>The upvalue that a write goes to is the last one of that name.\<close>

fun set_first_upvalue :: "string \<Rightarrow> val \<Rightarrow> upvalue list \<Rightarrow> upvalue list option" where
  "set_first_upvalue name v [] = None"
| "set_first_upvalue name v ((n, w) # us) =
     (if n = name then Some ((n, v) # us) else map_option (\<lambda>us'. (n, w) # us') (set_first_upvalue name v us))"

definition upvalue_mut_set :: "string \<Rightarrow> val \<Rightarrow> activation_record \<Rightarrow> activation_record option" where
  "upvalue_mut_set name v r =
     map_option (\<lambda>us. r\<lparr>ar_upvalues := rev us\<rparr>) (set_first_upvalue name v (rev (ar_upvalues r)))"

section \<open>Spill slots and parameters\<close>

lemma spill_load_store:
  "spill_load (spill_store slot v r) q = (if q = slot then v else spill_load r q)"
  by (auto simp: spill_load_def spill_store_def Let_def vec_get_def resize_to_def nth_append split: if_splits)

lemma write_ready_all:
  "write_ready_slots (map Ready ws) vs =
     (map Ready (take (length ws) vs @ drop (length vs) ws), drop (length ws) vs)"
proof (induction ws arbitrary: vs)
  case (Cons w ws)
  then show ?case by (cases vs) simp_all
qed simp

lemma write_ready_none: "write_ready_slots ss [] = (ss, [])"
  by (induction ss "[] :: val list" rule: write_ready_slots.induct) simp_all

lemma register_file_new_banks:
  "\<exists>a b. clear_bank (register_file_new l n) = map Ready (replicate a Unit) \<and>
         secret_bank (register_file_new l n) = map Ready (replicate b Unit) \<and> a + b = n \<and>
         a \<le> secret_start l \<and> (b \<noteq> 0 \<longrightarrow> a = secret_start l) \<and> rf_layout (register_file_new l n) = l"
  by (rule exI [of _ "min n (secret_start l)"], rule exI [of _ "n - secret_start l"])
    (auto simp: register_file_new_def default_slots_def default_slot_def min_def)

lemma iter_mut_write_new:
  assumes "length vs \<le> n"
  shows "register_slots (iter_mut_write (register_file_new l n) vs) = map Ready (vs @ replicate (n - length vs) Unit)"
    and "register_file_ok (iter_mut_write (register_file_new l n) vs)"
    and "rf_layout (iter_mut_write (register_file_new l n) vs) = l"
    and "rf_len (iter_mut_write (register_file_new l n) vs) = n"
    and "ready_slot_count (register_file_new l n) = n"
proof -
  obtain a b where ab: "clear_bank (register_file_new l n) = map Ready (replicate a Unit)"
      "secret_bank (register_file_new l n) = map Ready (replicate b Unit)" "a + b = n"
      "a \<le> secret_start l" "b \<noteq> 0 \<longrightarrow> a = secret_start l" "rf_layout (register_file_new l n) = l"
    using register_file_new_banks by blast
  let ?f = "iter_mut_write (register_file_new l n) vs"
  have f: "?f = (register_file_new l n)\<lparr>
      clear_bank := map Ready (take a vs @ replicate (a - length vs) Unit),
      secret_bank := map Ready (take b (drop a vs) @ replicate (b - length (drop a vs)) Unit)\<rparr>"
    unfolding iter_mut_write_def ab(1,2) write_ready_all by simp
  have split: "take a vs @ replicate (a - length vs) Unit @ take b (drop a vs) @ replicate (b - length (drop a vs)) Unit =
      vs @ replicate (n - length vs) Unit"
  proof (cases "a \<le> length vs")
    case True
    then have "take a vs @ take b (drop a vs) = vs" using assms ab(3) take_add [of a b vs] by simp
    then show ?thesis using True ab(3) by (simp flip: append_assoc)
  next
    case False
    then show ?thesis using ab(3) by (simp flip: replicate_add)
  qed
  then show slots: "register_slots ?f = map Ready (vs @ replicate (n - length vs) Unit)"
    by (simp add: f register_slots_def del: map_append add: map_append [symmetric])
  show ok: "register_file_ok ?f"
    using ab(4-6) by (auto simp: f register_file_ok_def min_def)
  show "rf_layout ?f = l" using ab(6) by (simp add: f)
  show "rf_len ?f = n" using rf_len_slots [OF ok] slots assms by simp
  show "ready_slot_count (register_file_new l n) = n"
    using ab(1-3) by (simp add: ready_slot_count_def filter_True)
qed

end
