(* ===== verification/Program.thy ===== *)
theory Program
  imports Activation
begin

text \<open>
  The registry of callable functions, from \<open>stoffel-vm/src/program.rs\<close>: registration resolves and
  lowers a bytecode function once and keeps what a call needs to push a frame. A foreign
  function is registered under its name; what it does is a parameter of the machine. Shared
  pointers are the values they share.
\<close>

section \<open>Data\<close>

record vm_call_target =
  ct_name :: string
  ct_parameters :: "string list"
  ct_upvalues :: "string list"
  ct_frame_register_count :: usize
  ct_runtime :: runtime_function

datatype call_target = VmTarget vm_call_target | ForeignTarget string

datatype function_def = FunctionVM vm_function | FunctionForeign string

fun function_name :: "function_def \<Rightarrow> string" where
  "function_name (FunctionVM f) = fn_name f"
| "function_name (FunctionForeign n) = n"

datatype registered_function =
    RegisteredVm "vm_function option" runtime_function vm_call_target
  | RegisteredForeign string

record program =
  program_functions :: "(string \<times> registered_function) list"
  program_methods :: "((string \<times> string) \<times> string) list"
  method_receivers :: "(string \<times> string list) list"

definition program_new :: program where
  "program_new = \<lparr>program_functions = [], program_methods = [], method_receivers = []\<rparr>"

section \<open>Call targets\<close>

definition target_from_vm_function :: "vm_function \<Rightarrow> runtime_function \<Rightarrow> vm_call_target" where
  "target_from_vm_function f rt =
     \<lparr>ct_name = fn_name f, ct_parameters = parameters f, ct_upvalues = fn_upvalues f,
      ct_frame_register_count = register_count f, ct_runtime = rt\<rparr>"

definition target_from_resolved_header :: "resolved_function_header \<Rightarrow> usize \<Rightarrow> runtime_function \<Rightarrow> vm_call_target" where
  "target_from_resolved_header h rc rt =
     \<lparr>ct_name = header_name h, ct_parameters = header_parameters h, ct_upvalues = header_upvalues h,
      ct_frame_register_count = rc, ct_runtime = rt\<rparr>"

definition instantiate_frame ::
  "vm_call_target \<Rightarrow> register_layout \<Rightarrow> val list \<Rightarrow> upvalue list \<Rightarrow> (string \<times> upvalue list) option \<Rightarrow>
   activation_error + activation_record" where
  "instantiate_frame t layout args ups clo =
     (let r = for_function (ct_name t) layout (ct_frame_register_count t) ups clo
      in if ct_parameters t \<noteq> [] \<or> length args \<noteq> 0 then bind_owned_parameters (ct_parameters t) args r
         else Inr r)"

definition instantiate_empty_frame :: "vm_call_target \<Rightarrow> register_layout \<Rightarrow> activation_record" where
  "instantiate_empty_frame t layout = for_function (ct_name t) layout (ct_frame_register_count t) [] None"

section \<open>Registration\<close>

definition register_vm_function :: "vm_function \<Rightarrow> bool \<Rightarrow> vm_error + registered_function" where
  "register_vm_function f retain =
     (case resolve_instructions f of
        (Inl e, _) \<Rightarrow> Inl (Function e)
      | (Inr _, g) \<Rightarrow>
          if retain
          then map_ok (\<lambda>rt. RegisteredVm (Some (discard_resolved_instructions g)) rt (target_from_vm_function g rt))
                 (from_vm_function g)
          else case from_vm_function_consuming_resolved g of
                 (Inl e, _) \<Rightarrow> Inl e
               | (Inr rt, h) \<Rightarrow> Inr (RegisteredVm None rt (target_from_vm_function h rt)))"

definition try_insert_with_source_retention :: "function_def \<Rightarrow> bool \<Rightarrow> (program, vm_error, unit) meth" where
  "try_insert_with_source_retention fd retain p =
     (let name = function_name fd
      in if hm_get (=) (program_functions p) name \<noteq> None then (Inl (FunctionAlreadyRegistered name), p)
         else case (case fd of FunctionVM f \<Rightarrow> register_vm_function f retain | FunctionForeign n \<Rightarrow> Inr (RegisteredForeign n)) of
                Inl e \<Rightarrow> (Inl e, p)
              | Inr rf \<Rightarrow> (Inr (), p\<lparr>program_functions := hm_insert (=) name rf (program_functions p)\<rparr>))"

definition try_insert :: "function_def \<Rightarrow> (program, vm_error, unit) meth" where
  "try_insert fd = try_insert_with_source_retention fd True"

definition try_insert_without_vm_source :: "function_def \<Rightarrow> (program, vm_error, unit) meth" where
  "try_insert_without_vm_source fd = try_insert_with_source_retention fd False"

definition try_insert_resolved_without_vm_source ::
  "resolved_function_header \<Rightarrow> resolved_instruction_input list \<Rightarrow> (program, vm_error, unit) meth" where
  "try_insert_resolved_without_vm_source h stream p =
     (if hm_get (=) (program_functions p) (header_name h) \<noteq> None then (Inl (FunctionAlreadyRegistered (header_name h)), p)
      else case from_resolved_instruction_input_stream h stream of
             Inl e \<Rightarrow> (Inl e, p)
           | Inr (rt, rc) \<Rightarrow>
               (Inr (), p\<lparr>program_functions := hm_insert (=) (header_name h)
                             (RegisteredVm None rt (target_from_resolved_header h rc rt)) (program_functions p)\<rparr>))"

definition add_receiver :: "string \<Rightarrow> string \<Rightarrow> (string \<times> string list) list \<Rightarrow> (string \<times> string list) list" where
  "add_receiver method_name receiver m =
     hm_insert (=) method_name ((case hm_get (=) m method_name of None \<Rightarrow> [] | Some rs \<Rightarrow> rs) @ [receiver]) m"

definition try_insert_method :: "string \<Rightarrow> string \<Rightarrow> function_def \<Rightarrow> (program, vm_error, unit) meth" where
  "try_insert_method receiver_type method_name fd p =
     (if hm_get (=) (program_methods p) (receiver_type, method_name) \<noteq> None
      then (Inl (MethodAlreadyRegistered receiver_type method_name), p)
      else mbind (if hm_get (=) (program_functions p) (function_name fd) = None then try_insert fd else mret ())
             (\<lambda>_. mmodify (\<lambda>q. q\<lparr>program_methods := hm_insert (=) (receiver_type, method_name) (function_name fd) (program_methods q),
                                method_receivers := add_receiver method_name receiver_type (method_receivers q)\<rparr>)) p)"

fun ensure_names_available :: "program \<Rightarrow> string list \<Rightarrow> string \<Rightarrow> vm_error + unit" where
  "ensure_names_available p [] grp = Inr ()"
| "ensure_names_available p (n # ns) grp =
     (if n \<in> set ns then Inl (RegistrationDuplicateFunction grp n)
      else if hm_get (=) (program_functions p) n \<noteq> None then Inl (RegistrationFunctionAlreadyRegistered grp n)
      else ensure_names_available p ns grp)"

section \<open>Lookup\<close>

definition method_target_name :: "program \<Rightarrow> string \<Rightarrow> string \<Rightarrow> string option" where
  "method_target_name p receiver_type method_name = hm_get (=) (program_methods p) (receiver_type, method_name)"

definition receiver_types_for_method :: "program \<Rightarrow> string \<Rightarrow> string list option" where
  "receiver_types_for_method p method_name = hm_get (=) (method_receivers p) method_name"

definition program_call_target :: "program \<Rightarrow> string \<Rightarrow> vm_error + call_target" where
  "program_call_target p name =
     (case hm_get (=) (program_functions p) name of
        Some (RegisteredVm _ _ t) \<Rightarrow> Inr (VmTarget t)
      | Some (RegisteredForeign n) \<Rightarrow> Inr (ForeignTarget n)
      | None \<Rightarrow> Inl (QuotedFunctionNotFound name))"

definition foreign_function :: "program \<Rightarrow> string \<Rightarrow> vm_error + string option" where
  "foreign_function p name =
     (case hm_get (=) (program_functions p) name of
        Some (RegisteredForeign n) \<Rightarrow> Inr (Some n)
      | Some (RegisteredVm _ _ _) \<Rightarrow> Inr None
      | None \<Rightarrow> Inl (FunctionNotFound name))"

definition program_runtime_function :: "program \<Rightarrow> string \<Rightarrow> vm_error + runtime_function" where
  "program_runtime_function p name =
     (case hm_get (=) (program_functions p) name of
        Some (RegisteredVm _ rt _) \<Rightarrow> Inr rt
      | _ \<Rightarrow> Inl (MissingResolvedInstructions name))"

definition instruction_at :: "program \<Rightarrow> string \<Rightarrow> usize \<Rightarrow> instruction option" where
  "instruction_at p name ip =
     (case hm_get (=) (program_functions p) name of
        Some (RegisteredVm (Some f) _ _) \<Rightarrow> vec_get (instructions f) ip
      | _ \<Rightarrow> None)"

definition vm_call_target_with_foreign_error :: "program \<Rightarrow> string \<Rightarrow> (string \<Rightarrow> vm_error) \<Rightarrow> vm_error + vm_call_target" where
  "vm_call_target_with_foreign_error p name err =
     (case hm_get (=) (program_functions p) name of
        Some (RegisteredVm _ _ t) \<Rightarrow> Inr t
      | Some (RegisteredForeign _) \<Rightarrow> Inl (err name)
      | None \<Rightarrow> Inl (FunctionNotFound name))"

fun discard_source :: "registered_function \<Rightarrow> registered_function" where
  "discard_source (RegisteredVm (Some f) rt t) = RegisteredVm (Some (discard_source_instructions f)) rt t"
| "discard_source rf = rf"

definition discard_vm_source_instructions :: "program \<Rightarrow> program" where
  "discard_vm_source_instructions p = p\<lparr>program_functions := map (map_prod id discard_source) (program_functions p)\<rparr>"

section \<open>Properties\<close>

lemma resolved_function_fields:
  assumes "resolve_instructions f = (Inr (), g)" "resolved_instructions f = None"
  obtains rs cs ns where "resolved_instructions g = Some rs" "constant_values g = Some cs" "call_target_names g = Some ns"
    "fn_name g = fn_name f" "parameters g = parameters f" "fn_upvalues g = fn_upvalues f"
proof -
  obtain rs cs ns where eq: "g = f\<lparr>register_count := register_count g, resolved_instructions := Some rs,
      constant_values := Some cs, call_target_names := Some ns\<rparr>"
    using resolve_instructions_facts [OF assms] by blast
  have "resolved_instructions g = Some rs" "constant_values g = Some cs" "call_target_names g = Some ns"
      "fn_name g = fn_name f" "parameters g = parameters f" "fn_upvalues g = fn_upvalues f"
    by (subst eq, simp)+
  then show ?thesis by (rule that)
qed

lemma register_vm_function_Inr:
  assumes "register_vm_function f retain = Inr rf" "resolved_instructions f = None"
  shows "\<exists>src t g. rf = RegisteredVm src (ct_runtime t) t \<and> resolve_instructions f = (Inr (), g) \<and>
           from_vm_function g = Inr (ct_runtime t) \<and> t = target_from_vm_function g (ct_runtime t)"
proof -
  obtain g where g: "resolve_instructions f = (Inr (), g)"
    using assms(1) by (cases "resolve_instructions f"; cases "fst (resolve_instructions f)") (auto simp: register_vm_function_def)
  obtain rs cs ns where parts: "resolved_instructions g = Some rs" "constant_values g = Some cs" "call_target_names g = Some ns"
    by (rule resolved_function_fields [OF g assms(2)])
  have same: "target_from_vm_function (discard_resolved_instructions g) = target_from_vm_function g"
    by (rule ext) (simp add: target_from_vm_function_def discard_resolved_instructions_def)
  obtain rt where rt: "from_vm_function g = Inr rt" and rf: "\<exists>src. rf = RegisteredVm src rt (target_from_vm_function g rt)"
    using assms(1) by (cases "from_vm_function g")
      (auto simp: register_vm_function_def g consuming_resolved_eq [OF parts] same split: if_splits)
  moreover have "ct_runtime (target_from_vm_function g rt) = rt" by (simp add: target_from_vm_function_def)
  ultimately show ?thesis using g by metis
qed

lemma insert_call_target:
  assumes "try_insert_with_source_retention (FunctionVM f) retain p = (Inr (), q)"
  shows "\<exists>rf. register_vm_function f retain = Inr rf \<and>
           program_functions q = hm_insert (=) (fn_name f) rf (program_functions p)"
  using assms by (auto simp: try_insert_with_source_retention_def Let_def split: if_splits sum.splits)

text \<open>C33: a registered function is found under its name with the parameters and captured variables of
  its source, a frame that has its parameters and a return register, and a runtime form whose
  every packed instruction decodes to one that implements the source instruction at that index,
  whether or not the source is retained; lookups of other names do not change.\<close>

theorem registered_function_implements_source:
  assumes "try_insert_with_source_retention (FunctionVM f) retain p = (Inr (), q)" "resolved_instructions f = None"
  shows "\<exists>t. program_call_target q (fn_name f) = Inr (VmTarget t) \<and>
    program_runtime_function q (fn_name f) = Inr (ct_runtime t) \<and>
    ct_name t = fn_name f \<and> ct_parameters t = parameters f \<and> ct_upvalues t = fn_upvalues f \<and>
    max MIN_FRAME_REGISTER_COUNT (length (parameters f)) \<le> ct_frame_register_count t \<and>
    length (rt_instructions (ct_runtime t)) = length (instructions f) \<and>
    (\<forall>ip < length (instructions f). \<exists>pk x. get_instruction (ct_runtime t) ip = Some pk \<and> decode pk = Some x \<and>
       implements (labels f) (ct_runtime t) (instructions f ! ip) x) \<and>
    (\<forall>name. name \<noteq> fn_name f \<longrightarrow> program_call_target q name = program_call_target p name)"
proof -
  obtain rf where rf: "register_vm_function f retain = Inr rf"
      "program_functions q = hm_insert (=) (fn_name f) rf (program_functions p)"
    using insert_call_target [OF assms(1)] by blast
  obtain src t g where t: "rf = RegisteredVm src (ct_runtime t) t" "resolve_instructions f = (Inr (), g)"
      "from_vm_function g = Inr (ct_runtime t)" "t = target_from_vm_function g (ct_runtime t)"
    using register_vm_function_Inr [OF rf(1) assms(2)] by blast
  have g: "fn_name g = fn_name f" "parameters g = parameters f" "fn_upvalues g = fn_upvalues f"
    by (rule resolved_function_fields [OF t(2) assms(2)]; simp)+
  have ct: "ct_name t = fn_name f" "ct_parameters t = parameters f" "ct_upvalues t = fn_upvalues f"
      "ct_frame_register_count t = register_count g"
    by (subst t(4), simp add: target_from_vm_function_def g)+
  have "program_call_target q (fn_name f) = Inr (VmTarget t)"
      "program_runtime_function q (fn_name f) = Inr (ct_runtime t)"
    by (simp_all add: program_call_target_def program_runtime_function_def rf(2) heq.get_insert t(1))
  moreover have "program_call_target q name = program_call_target p name" if "name \<noteq> fn_name f" for name
    using that by (simp add: program_call_target_def rf(2) heq.get_insert)
  ultimately show ?thesis
    using ct lowered_function_implements [OF t(2) assms(2) t(3)] resolve_instructions_facts [OF t(2) assms(2)] by auto
qed

lemma sample_registers:
  "\<exists>q. try_insert_with_source_retention (FunctionVM sample_function) False program_new = (Inr (), q)"
proof -
  obtain g rt where g: "resolve_instructions sample_function = (Inr (), g)" "from_vm_function g = Inr rt"
    using sample_lowers by blast
  have "resolved_instructions sample_function = None" by (simp add: sample_function_def vm_function_new_def)
  from resolved_function_fields [OF g(1) this] obtain rs cs ns where
    "resolved_instructions g = Some rs" "constant_values g = Some cs" "call_target_names g = Some ns" .
  note consuming_resolved_eq [OF this]
  then show ?thesis using g
    by (simp add: try_insert_with_source_retention_def register_vm_function_def program_new_def Let_def)
qed

theorem registered_function_implements_source_witness:
  "\<exists>q t. try_insert_with_source_retention (FunctionVM sample_function) False program_new = (Inr (), q) \<and>
         program_call_target q (fn_name sample_function) = Inr (VmTarget t) \<and>
         length (rt_instructions (ct_runtime t)) = 5"
proof -
  obtain q where q: "try_insert_with_source_retention (FunctionVM sample_function) False program_new = (Inr (), q)"
    using sample_registers by blast
  have f: "resolved_instructions sample_function = None" "length (instructions sample_function) = 5"
    by (simp_all add: sample_function_def vm_function_new_def)
  show ?thesis using registered_function_implements_source [OF q f(1)] q f(2) by auto
qed

text \<open>instantiating a frame for a call checks the number of arguments and the size of the frame,
  and puts the arguments into the first registers, with nothing in the others, in a register
  file of the machine's layout; execution starts at the first instruction with empty stack and
  spill area.\<close>

theorem instantiate_frame_spec:
  "instantiate_frame t layout args ups clo =
     (if length (ct_parameters t) \<noteq> length args
      then Inl (ActFunctionArityMismatch (ct_name t) (length (ct_parameters t)) (length args))
      else if ct_frame_register_count t < length args
      then Inl (ActRegisterOutOfBounds (ct_frame_register_count t) (ct_frame_register_count t))
      else Inr \<lparr>ar_function_name = ct_name t, ar_locals = insert_locals [] (zip (ct_parameters t) args),
                ar_registers = iter_mut_write (register_file_new layout (ct_frame_register_count t)) args,
                ar_upvalues = ups, ar_stack = [], ar_spill = [], ar_compare_flag = FlagEqual,
                ar_instruction_pointer = 0, ar_closure = clo\<rparr>) \<and>
   (length args \<le> n \<longrightarrow>
      register_slots (iter_mut_write (register_file_new layout n) args) = map Ready (args @ replicate (n - length args) Unit) \<and>
      register_file_ok (iter_mut_write (register_file_new layout n) args) \<and>
      rf_layout (iter_mut_write (register_file_new layout n) args) = layout)"
proof -
  have none: "iter_mut_write (register_file_new layout n) [] = register_file_new layout n" for n
    by (simp add: iter_mut_write_def write_ready_none)
  have ready: "length args \<le> m \<Longrightarrow> take (ready_slot_count (register_file_new layout m)) (zip ps args) = zip ps args" for m ps
    using iter_mut_write_new(5) [of args m layout] by simp
  show ?thesis
    using iter_mut_write_new(1-3) [of args n layout]
    by (auto simp: instantiate_frame_def bind_owned_parameters_def for_function_def Let_def none ready)
qed

theorem instantiate_frame_spec_witness:
  "register_slots (iter_mut_write (register_file_new \<lparr>secret_start = 1\<rparr> 3) [I64 1, I64 2]) =
     [Ready (I64 1), Ready (I64 2), Ready Unit]"
  using instantiate_frame_spec [THEN conjunct2, of "[I64 1, I64 2]" 3 "\<lparr>secret_start = 1\<rparr>"] by simp

end
