(* ===== verification/Share_Objects.thy ===== *)
theory Share_Objects
  imports Table_Memory Share_Runtime
begin

text \<open>
  Share objects, from \<open>stoffel-vm/src/mpc_values/share_object.rs\<close> and \<open>fields.rs\<close>: a secret share
  as a table object with a type tag, the share type spelled out in fields, the share itself and
  the party that holds it. Table memory is the object store. Messages that the source renders
  with the debug form of a value keep their fixed part only.
\<close>

section \<open>Fields\<close>

definition F_TYPE :: val where "F_TYPE = String ''__type''"
definition F_SHARE_TYPE :: val where "F_SHARE_TYPE = String ''__share_type''"
definition F_DATA :: val where "F_DATA = String ''__data''"
definition F_PARTY_ID :: val where "F_PARTY_ID = String ''__party_id''"
definition F_BIT_LENGTH :: val where "F_BIT_LENGTH = String ''__bit_length''"
definition F_PRECISION_K :: val where "F_PRECISION_K = String ''__precision_k''"
definition F_PRECISION_F :: val where "F_PRECISION_F = String ''__precision_f''"

lemmas field_defs = F_TYPE_def F_SHARE_TYPE_def F_DATA_def F_PARTY_ID_def F_BIT_LENGTH_def
  F_PRECISION_K_def F_PRECISION_F_def

section \<open>Reading\<close>

definition read_ctx :: "object_store \<Rightarrow> string \<Rightarrow> usize \<Rightarrow> val \<Rightarrow> mpc_value_error + val option" where
  "read_ctx m context r key = map_err (MVTableMemoryContext context) (try_get_table_field m (ObjectTable r) key)"

definition is_share_object_ref :: "object_store \<Rightarrow> usize \<Rightarrow> bool" where
  "is_share_object_ref m r = (try_get_table_field m (ObjectTable r) F_TYPE = Inr (Some (String ''Share'')))"

definition require_type_tag :: "object_store \<Rightarrow> usize \<Rightarrow> mpc_value_error + unit" where
  "require_type_tag m r =
     rbind (read_ctx m ''failed to read Share __type field'' r F_TYPE) (\<lambda>f.
     rbind (ok_or (MVMessage ''Object is not a Share: missing __type field'') f) (\<lambda>v.
       if value_eq v (String ''Share'') then Inr ()
       else Inl (MVMessage ''Object is not a Share: __type'')))"

definition read_usize_or :: "object_store \<Rightarrow> string \<Rightarrow> usize \<Rightarrow> val \<Rightarrow> string \<Rightarrow> usize \<Rightarrow> mpc_value_error + usize" where
  "read_usize_or m context r key name dflt =
     rbind (read_ctx m context r key) (\<lambda>f.
       case f of None \<Rightarrow> Inr dflt | Some v \<Rightarrow> map_err MVValueConversion (value_to_usize v name))"

definition decode_metadata_share_type :: "object_store \<Rightarrow> usize \<Rightarrow> mpc_value_error + share_type" where
  "decode_metadata_share_type m r =
     rbind (read_ctx m ''failed to read Share __share_type field'' r F_SHARE_TYPE) (\<lambda>f.
     rbind (ok_or (MVMessage ''Share object missing __share_type field'') f) (\<lambda>v.
       if v = String ''SecretInt'' then
         rbind (read_usize_or m ''failed to read Share bit length'' r F_BIT_LENGTH ''bit_length'' 64) (\<lambda>n.
           map_err MVShareType (try_secret_int n))
       else if v = String ''SecretUInt'' then
         rbind (read_usize_or m ''failed to read Share bit length'' r F_BIT_LENGTH ''bit_length'' 64) (\<lambda>n.
           map_err MVShareType (try_secret_uint n))
       else if v = String ''SecretFixedPoint'' then
         rbind (read_usize_or m ''failed to read Share precision k'' r F_PRECISION_K ''precision k'' 64) (\<lambda>k.
         rbind (read_usize_or m ''failed to read Share precision f'' r F_PRECISION_F ''precision f'' 16) (\<lambda>f.
           map_err MVShareType (try_secret_fixed_point_from_bits k f)))
       else Inl (MVMessage ''Unknown share type'')))"

definition share_object_data :: "object_store \<Rightarrow> usize \<Rightarrow> mpc_value_error + share_type \<times> share_data" where
  "share_object_data m r =
     rbind (require_type_tag m r) (\<lambda>_.
     rbind (decode_metadata_share_type m r) (\<lambda>metadata_type.
     rbind (read_ctx m ''failed to read Share __data field'' r F_DATA) (\<lambda>f.
     rbind (ok_or (MVMessage ''Share object missing __data field'') f) (\<lambda>v.
       case v of
         Share ty data \<Rightarrow>
           if ty = metadata_type then Inr (ty, data)
           else Inl (MVMessage ''Share metadata type does not match __data type'')
       | _ \<Rightarrow> Inl (MVMessage ''Share __data field is not a Share value'')))))"

definition share_object_party_id :: "object_store \<Rightarrow> usize \<Rightarrow> mpc_value_error + usize" where
  "share_object_party_id m r =
     rbind (require_type_tag m r) (\<lambda>_.
     rbind (read_ctx m ''failed to read Share __party_id field'' r F_PARTY_ID) (\<lambda>f.
     rbind (ok_or (MissingField ''Share object'' ''__party_id'') f) (\<lambda>v.
       map_err MVValueConversion (value_to_usize v ''party_id''))))"

definition extract_share_data :: "object_store \<Rightarrow> val \<Rightarrow> mpc_value_error + share_type \<times> share_data" where
  "extract_share_data m v =
     (case v of
        Share ty data \<Rightarrow> Inr (ty, data)
      | Object r \<Rightarrow> share_object_data m r
      | _ \<Rightarrow> Inl (MVMessage ''Expected Share object or Share value''))"

definition is_share_object :: "object_store \<Rightarrow> val \<Rightarrow> bool" where
  "is_share_object m v = (case v of Object r \<Rightarrow> is_share_object_ref m r | _ \<Rightarrow> False)"

definition extract_matching_share_pair ::
  "object_store \<Rightarrow> val \<Rightarrow> val \<Rightarrow> string \<Rightarrow> mpc_value_error + share_type \<times> share_data \<times> share_data" where
  "extract_matching_share_pair m l r context =
     rbind (extract_share_data m l) (\<lambda>(lt, ld).
     rbind (extract_share_data m r) (\<lambda>(rt, rd).
       if lt \<noteq> rt then Inl (MVShareTypeMismatch context lt rt) else Inr (lt, ld, rd)))"

section \<open>Arrays of shares\<close>

fun extract_share_elements :: "object_store \<Rightarrow> usize \<Rightarrow> string \<Rightarrow> usize list \<Rightarrow> mpc_value_error + (share_type \<times> share_data) list" where
  "extract_share_elements m a context [] = Inr []"
| "extract_share_elements m a context (i # is) =
     rbind (map_err MVValueConversion (usize_to_vm_i64 i ''array index'')) (\<lambda>idx.
     rbind (map_err (MVTableMemoryContext (''failed to read '' @ context @ '' element''))
              (try_get_table_field m (ArrayTable a) (I64 idx))) (\<lambda>f.
     rbind (ok_or (MissingArrayElement context i) f) (\<lambda>v.
       if value_eq v Unit then Inl (MissingArrayElement context i)
       else rbind (extract_share_data m v) (\<lambda>s. map_ok (\<lambda>ss. s # ss) (extract_share_elements m a context is)))))"

definition extract_share_array_ref :: "object_store \<Rightarrow> usize \<Rightarrow> string \<Rightarrow> mpc_value_error + (share_type \<times> share_data) list" where
  "extract_share_array_ref m a context =
     rbind (map_err (MVTableMemoryContext (''failed to read '' @ context @ '' length'')) (array_ref_len m a)) (\<lambda>n.
       extract_share_elements m a context [0..<n])"

definition extract_homogeneous_share_array ::
  "object_store \<Rightarrow> val \<Rightarrow> string \<Rightarrow> mpc_value_error + (share_type \<times> share_data list) option" where
  "extract_homogeneous_share_array m v context =
     (case v of
        Array a \<Rightarrow>
          rbind (extract_share_array_ref m a context) (\<lambda>shares.
            case shares of
              [] \<Rightarrow> Inr None
            | (first_ty, _) # _ \<Rightarrow>
                if list_all (\<lambda>(ty, _). ty = first_ty) shares then Inr (Some (first_ty, map snd shares))
                else Inl (MVMessage ''All shares must have the same type''))
      | _ \<Rightarrow> Inl (UnexpectedValue context ''array of Share values'' v))"

section \<open>Creation\<close>

definition set_ctx :: "string \<Rightarrow> usize \<Rightarrow> val \<Rightarrow> val \<Rightarrow> (object_store, mpc_value_error, unit) meth" where
  "set_ctx context r key v = mmap_err (MVTableMemoryContext context) (set_table_field (ObjectTable r) key v)"

definition set_usize_ctx :: "string \<Rightarrow> usize \<Rightarrow> val \<Rightarrow> usize \<Rightarrow> string \<Rightarrow> (object_store, mpc_value_error, unit) meth" where
  "set_usize_ctx context r key n name =
     mbind (mread (\<lambda>_. map_err MVValueConversion (usize_to_vm_i64 n name))) (\<lambda>w. set_ctx context r key (I64 w))"

fun write_share_type :: "usize \<Rightarrow> share_type \<Rightarrow> (object_store, mpc_value_error, unit) meth" where
  "write_share_type r (SecretInt n) =
     mbind (set_ctx ''failed to set Share type'' r F_SHARE_TYPE (String ''SecretInt''))
       (\<lambda>_. set_usize_ctx ''failed to set Share bit length'' r F_BIT_LENGTH n ''bit_length'')"
| "write_share_type r (SecretUInt n) =
     mbind (set_ctx ''failed to set Share type'' r F_SHARE_TYPE (String ''SecretUInt''))
       (\<lambda>_. set_usize_ctx ''failed to set Share bit length'' r F_BIT_LENGTH n ''bit_length'')"
| "write_share_type r (SecretFixedPoint p) =
     mbind (set_ctx ''failed to set Share type'' r F_SHARE_TYPE (String ''SecretFixedPoint''))
       (\<lambda>_. mbind (set_usize_ctx ''failed to set Share precision k'' r F_PRECISION_K (total_bits p) ''precision k'')
       (\<lambda>_. set_usize_ctx ''failed to set Share precision f'' r F_PRECISION_F (fractional_bits p) ''precision f''))"

definition create_share_object_ref :: "share_type \<Rightarrow> share_data \<Rightarrow> usize \<Rightarrow> (object_store, mpc_value_error, usize) meth" where
  "create_share_object_ref ty data party_id =
     mbind (mmap_err MVTableMemory create_object_ref) (\<lambda>r.
     mbind (set_ctx ''failed to set Share type tag'' r F_TYPE (String ''Share'')) (\<lambda>_.
     mbind (write_share_type r ty) (\<lambda>_.
     mbind (set_ctx ''failed to set Share data'' r F_DATA (Share ty data)) (\<lambda>_.
     mbind (set_usize_ctx ''failed to set Share party ID'' r F_PARTY_ID party_id ''party_id'') (\<lambda>_.
       mret r)))))"

section \<open>Properties\<close>

text \<open>What an object holds after a successful sequence of field writes to it.\<close>

definition object_at :: "object_store \<Rightarrow> usize \<Rightarrow> obj option" where
  "object_at m r = hm_get (=) (objects m) r"

lemma set_ctx_Inr:
  assumes "object_at m r = Some ob"
  shows "set_ctx context r key v m =
    (Inr (), m\<lparr>objects := hm_insert (=) r (hm_insert value_eq key v ob) (objects m)\<rparr>)"
  using assms by (simp add: set_ctx_def mmap_err_def set_table_field_def object_at_def)

lemma object_at_insert [simp]:
  "object_at (m\<lparr>objects := hm_insert (=) r ob (objects m)\<rparr>) q = (if q = r then Some ob else object_at m q)"
  by (simp add: object_at_def heq.get_insert eq_commute)

lemma set_ctx_ok:
  assumes "set_ctx context r key v m = (Inr (), n)" "object_at m r = Some ob"
  shows "object_at n r = Some (hm_insert value_eq key v ob)"
  using assms(1) set_ctx_Inr [OF assms(2)] by auto

lemma set_usize_ctx_ok:
  assumes "set_usize_ctx context r key k name m = (Inr (), n)" "object_at m r = Some ob"
  shows "k \<le> i64_max \<and> object_at n r = Some (hm_insert value_eq key (I64 (of_nat k)) ob)"
  using assms set_ctx_ok
  by (fastforce simp: set_usize_ctx_def mbind_Inr_iff mread_def usize_to_vm_i64_def i64_try_from_usize_def
      split: if_splits)

lemma value_to_usize_of_nat: "k \<le> i64_max \<Longrightarrow> value_to_usize (I64 (of_nat k)) name = Inr k"
  by (simp add: value_to_usize_def nonneg_to_usize_def sint_of_nat_i64 i64_max_def usize_max_def)

lemma try_get_object_at: "object_at m r = Some ob \<Longrightarrow> try_get_table_field m (ObjectTable r) key = Inr (hm_get value_eq ob key)"
  by (simp add: try_get_table_field_def object_at_def)

text \<open>The fields that spell out a share type, as one association list.\<close>

fun share_type_fields :: "share_type \<Rightarrow> (val \<times> val) list" where
  "share_type_fields (SecretInt n) = [(F_SHARE_TYPE, String ''SecretInt''), (F_BIT_LENGTH, I64 (of_nat n))]"
| "share_type_fields (SecretUInt n) = [(F_SHARE_TYPE, String ''SecretUInt''), (F_BIT_LENGTH, I64 (of_nat n))]"
| "share_type_fields (SecretFixedPoint p) =
     [(F_SHARE_TYPE, String ''SecretFixedPoint''), (F_PRECISION_K, I64 (of_nat (total_bits p))),
      (F_PRECISION_F, I64 (of_nat (fractional_bits p)))]"

fun share_type_sizes :: "share_type \<Rightarrow> usize list" where
  "share_type_sizes (SecretInt n) = [n]"
| "share_type_sizes (SecretUInt n) = [n]"
| "share_type_sizes (SecretFixedPoint p) = [total_bits p, fractional_bits p]"

lemma write_share_type_ok:
  assumes "write_share_type r ty m = (Inr (), n)" "object_at m r = Some [(F_TYPE, v)]"
  shows "(\<forall>k \<in> set (share_type_sizes ty). k \<le> i64_max) \<and> object_at n r = Some ((F_TYPE, v) # share_type_fields ty)"
  using assms by (cases ty) (fastforce simp: mbind_Inr_iff field_defs dest: set_ctx_ok set_usize_ctx_ok)+

lemma create_object_at:
  "create_object_ref m = (Inr r, n) \<Longrightarrow> object_at n r = Some []"
  by (auto simp: create_object_ref_def mbind_def allocate_id_def mmodify_def mret_def object_at_def heq.get_insert
      split: option.splits)

lemma create_share_object_at:
  assumes "create_share_object_ref ty d p m = (Inr r, n)"
  shows "(\<forall>k \<in> set (p # share_type_sizes ty). k \<le> i64_max) \<and>
    object_at n r = Some ((F_TYPE, String ''Share'') # share_type_fields ty @
                          [(F_DATA, Share ty d), (F_PARTY_ID, I64 (of_nat p))])"
proof -
  obtain a b c e where s: "create_object_ref m = (Inr r, a)"
      "set_ctx ''failed to set Share type tag'' r F_TYPE (String ''Share'') a = (Inr (), b)"
      "write_share_type r ty b = (Inr (), c)"
      "set_ctx ''failed to set Share data'' r F_DATA (Share ty d) c = (Inr (), e)"
      "set_usize_ctx ''failed to set Share party ID'' r F_PARTY_ID p ''party_id'' e = (Inr (), n)"
    using assms by (auto simp: create_share_object_ref_def mbind_Inr_iff mmap_err_Inr_iff mret_def)
  have "object_at b r = Some [(F_TYPE, String ''Share'')]" using set_ctx_ok [OF s(2) create_object_at [OF s(1)]] by simp
  note c = write_share_type_ok [OF s(3) this]
  then have e: "object_at e r = Some ((F_TYPE, String ''Share'') # share_type_fields ty @ [(F_DATA, Share ty d)])"
    using set_ctx_ok [OF s(4)] by (cases ty) (auto simp: field_defs)
  show ?thesis using set_usize_ctx_ok [OF s(5) e] c by (cases ty) (auto simp: field_defs)
qed

text \<open>A step that changes one object only.\<close>

definition touches_only :: "usize \<Rightarrow> object_store \<Rightarrow> object_store \<Rightarrow> bool" where
  "touches_only r m n \<longleftrightarrow>
     (store_ok m \<longrightarrow> store_ok n \<and> (\<forall>t k. t \<noteq> ObjectTable r \<longrightarrow> read_field n t k = read_field m t k))"

lemma touches_only_trans: "touches_only r l m \<Longrightarrow> touches_only r m n \<Longrightarrow> touches_only r l n"
  by (auto simp: touches_only_def)

lemma touches_only_refl: "touches_only r m m"
  by (simp add: touches_only_def)

lemma set_ctx_touches: "set_ctx context r key v m = (Inr (), n) \<Longrightarrow> touches_only r m n"
  using obj.write_ok [of m "ObjectTable r" key v n]
  by (auto simp: touches_only_def set_ctx_def mmap_err_Inr_iff)

lemma set_usize_ctx_touches: "set_usize_ctx context r key k name m = (Inr (), n) \<Longrightarrow> touches_only r m n"
  by (auto simp: set_usize_ctx_def mbind_Inr_iff mread_def dest: set_ctx_touches)

lemma write_share_type_touches: "write_share_type r ty m = (Inr (), n) \<Longrightarrow> touches_only r m n"
  by (cases ty) (auto simp: mbind_Inr_iff dest!: set_ctx_touches set_usize_ctx_touches intro: touches_only_trans)

lemma create_object_touches: "create_object_ref m = (Inr r, n) \<Longrightarrow> touches_only r m n"
  using obj.create_ok [of m r n] by (auto simp: touches_only_def)

lemma create_share_object_touches:
  "create_share_object_ref ty d p m = (Inr r, n) \<Longrightarrow> touches_only r m n"
  by (auto simp: create_share_object_ref_def mbind_Inr_iff mmap_err_Inr_iff mret_def
      dest!: create_object_touches set_ctx_touches write_share_type_touches set_usize_ctx_touches)
    (meson touches_only_trans)

lemma read_created_share:
  assumes at: "object_at n r = Some ((F_TYPE, String ''Share'') # share_type_fields ty @
                          [(F_DATA, Share ty d), (F_PARTY_ID, I64 (of_nat p))])"
    and sizes: "\<forall>k \<in> set (p # share_type_sizes ty). k \<le> i64_max" and ok: "share_type_ok ty"
  shows "share_object_data n r = Inr (ty, d)" "share_object_party_id n r = Inr p" "is_share_object_ref n r"
proof -
  note read = try_get_object_at [OF at]
  have ty: "decode_metadata_share_type n r = Inr ty"
    using sizes ok
    by (cases ty) (auto simp: decode_metadata_share_type_def read_ctx_def read_usize_or_def read field_defs
        value_to_usize_of_nat try_secret_int_def try_secret_uint_def try_secret_fixed_point_from_bits_def
        FixedPointPrecision_try_new_def)
  have data: "hm_get value_eq (share_type_fields ty @ [(F_DATA, Share ty d), (F_PARTY_ID, I64 (of_nat p))]) F_DATA =
      Some (Share ty d)"
    and party: "hm_get value_eq (share_type_fields ty @ [(F_DATA, Share ty d), (F_PARTY_ID, I64 (of_nat p))]) F_PARTY_ID =
      Some (I64 (of_nat p))"
    by (cases ty; simp add: field_defs)+
  have tag: "require_type_tag n r = Inr ()"
    by (simp add: require_type_tag_def read_ctx_def read F_TYPE_def)
  have other: "\<not> value_eq F_TYPE F_DATA" "\<not> value_eq F_TYPE F_PARTY_ID" by (simp_all add: field_defs)
  show "share_object_data n r = Inr (ty, d)"
    using tag ty data other by (simp add: share_object_data_def read_ctx_def read)
  show "share_object_party_id n r = Inr p"
    using tag party other sizes by (simp add: share_object_party_id_def read_ctx_def read value_to_usize_of_nat)
  show "is_share_object_ref n r" by (simp add: is_share_object_ref_def read F_TYPE_def)
qed

text \<open>a share object that was created reads back as the share it was made from: the type that
  its metadata spells out, the data and the party id; it is recognised as a share object, its
  creation keeps the store well formed, and no other table changes.\<close>

theorem share_object_roundtrip:
  assumes "store_ok m" "share_type_ok ty" "create_share_object_ref ty d p m = (Inr r, n)"
  shows "extract_share_data n (Object r) = Inr (ty, d) \<and> share_object_party_id n r = Inr p \<and>
    is_share_object n (Object r) \<and> store_ok n \<and>
    (\<forall>t k. t \<noteq> ObjectTable r \<longrightarrow> read_field n t k = read_field m t k)"
  using create_share_object_at [OF assms(3)] read_created_share [OF _ _ assms(2)]
    create_share_object_touches [OF assms(3)] assms(1)
  by (auto simp: extract_share_data_def is_share_object_def touches_only_def)

theorem share_object_roundtrip_witness:
  "\<exists>n. create_share_object_ref (SecretInt 8) (Opaque [5]) 3 object_store_new = (Inr 1, n) \<and>
       extract_share_data n (Object 1) = Inr (SecretInt 8, Opaque [5])"
proof -
  obtain n where n: "create_share_object_ref (SecretInt 8) (Opaque [5]) 3 object_store_new = (Inr 1, n)"
    by (simp add: create_share_object_ref_def create_object_ref_def object_store_new_def mbind_def mmap_err_def
        allocate_id_def mmodify_def mret_def checked_add_usize_def usize_max_def set_ctx_def set_usize_ctx_def
        set_table_field_def mread_def usize_to_vm_i64_def i64_try_from_usize_def i64_max_def)
  then show ?thesis using share_object_roundtrip [OF store_ok_new _ n] by simp
qed

end
