(* ===== verification/Frames.thy ===== *)
theory Frames
  imports Program Reveal_Batcher Value_Ops Share_Objects
begin

text \<open>
  The state of the virtual machine and its access to registers, from
  \<open>stoffel-vm/src/vm_state.rs\<close> and, under \<open>vm_state/\<close>, \<open>frame.rs\<close>, \<open>register_access.rs\<close> and the
  reveal part of \<open>mpc_runtime.rs\<close>. The call stack is a vector with the current frame last.
  Table memory is the object store; the client store, foreign objects, output and hooks are
  not part of the state, and the model is the execution without hooks. A move from a secret to
  a clear register queues the share and leaves a placeholder; reading such a register flushes
  the queue of the frame.
\<close>

section \<open>State\<close>

record vm_state =
  vm_program :: program
  last_call_target :: "(string \<times> call_target) option"
  call_stack :: "activation_record list"
  frame_runtime_functions :: "runtime_function option list"
  current_instruction :: "(string \<times> usize) option"
  vm_table_memory :: object_store
  vm_engine :: "mpc_engine option"
  vm_reveals :: reveal_batcher
  vm_register_layout :: register_layout

type_synonym 'a vm = "(vm_state, vm_error, 'a) meth"

definition vm_state_new :: vm_state where
  "vm_state_new =
     \<lparr>vm_program = program_new, last_call_target = None, call_stack = [], frame_runtime_functions = [],
      current_instruction = None, vm_table_memory = object_store_new, vm_engine = None,
      vm_reveals = reveal_batcher_new, vm_register_layout = default_layout\<rparr>"

definition set_engine :: "mpc_engine \<Rightarrow> vm_state \<Rightarrow> vm_state" where
  "set_engine e s = s\<lparr>vm_engine := Some e, vm_reveals := clear_all (vm_reveals s)\<rparr>"

section \<open>Frames\<close>

definition push_activation_frame :: "activation_record \<Rightarrow> runtime_function option \<Rightarrow> vm_state \<Rightarrow> vm_state" where
  "push_activation_frame r rt s =
     s\<lparr>call_stack := call_stack s @ [r], frame_runtime_functions := frame_runtime_functions s @ [rt]\<rparr>"

definition pop_activation_frame :: "vm_state \<Rightarrow> vm_state" where
  "pop_activation_frame s =
     s\<lparr>call_stack := butlast (call_stack s), frame_runtime_functions := butlast (frame_runtime_functions s)\<rparr>"

definition truncate_activation_frames :: "usize \<Rightarrow> vm_state \<Rightarrow> vm_state" where
  "truncate_activation_frames n s =
     s\<lparr>call_stack := take n (call_stack s), frame_runtime_functions := take n (frame_runtime_functions s)\<rparr>"

definition current_frame :: "vm_state \<Rightarrow> vm_error + activation_record" where
  "current_frame s = (if call_stack s = [] then Inl NoActiveActivationRecord else Inr (last (call_stack s)))"

text \<open>Writing through \<open>current_frame_mut\<close>.\<close>

definition put_frame :: "activation_record \<Rightarrow> vm_state \<Rightarrow> vm_state" where
  "put_frame r s = s\<lparr>call_stack := (call_stack s)[length (call_stack s) - 1 := r]\<rparr>"

definition on_frame :: "(activation_record \<Rightarrow> vm_error + 'a \<times> activation_record) \<Rightarrow> 'a vm" where
  "on_frame f s =
     (case current_frame s of
        Inl e \<Rightarrow> (Inl e, s)
      | Inr r \<Rightarrow> (case f r of Inl e \<Rightarrow> (Inl e, s) | Inr (x, r') \<Rightarrow> (Inr x, put_frame r' s)))"

definition current_frame_depth :: "vm_state \<Rightarrow> vm_error + usize" where
  "current_frame_depth s = ok_or NoActiveActivationRecord (checked_sub_usize (length (call_stack s)) 1)"

definition current_register_layout :: "vm_state \<Rightarrow> vm_error + register_layout" where
  "current_register_layout s = map_ok (\<lambda>r. rf_layout (ar_registers r)) (current_frame s)"

definition current_runtime_function :: "runtime_function vm" where
  "current_runtime_function s =
     (case current_frame_depth s of
        Inl e \<Rightarrow> (Inl e, s)
      | Inr d \<Rightarrow>
          (case vec_get (frame_runtime_functions s) d of
             Some (Some rt) \<Rightarrow> (Inr rt, s)
           | slot \<Rightarrow>
               (case rbind (current_frame s) (\<lambda>r. program_runtime_function (vm_program s) (ar_function_name r)) of
                  Inl e \<Rightarrow> (Inl e, s)
                | Inr rt \<Rightarrow>
                    if slot = None then (Inl NoActiveActivationRecord, s)
                    else (Inr rt, s\<lparr>frame_runtime_functions := (frame_runtime_functions s)[d := Some rt]\<rparr>))))"

definition current_return_register :: "vm_state \<Rightarrow> vm_error + u32" where
  "current_return_register s = rbind (current_frame s) (\<lambda>r. return_register (rf_len (ar_registers r)))"

definition sync_current_instruction_to_current_frame :: "vm_state \<Rightarrow> vm_state" where
  "sync_current_instruction_to_current_frame s =
     s\<lparr>current_instruction :=
         (if call_stack s = [] then None
          else let r = last (call_stack s)
               in map_option (\<lambda>ip. (ar_function_name r, ip)) (checked_sub_usize (ar_instruction_pointer r) 1))\<rparr>"

definition unwind_call_stack_to :: "usize \<Rightarrow> vm_state \<Rightarrow> vm_state" where
  "unwind_call_stack_to depth s =
     sync_current_instruction_to_current_frame
       (truncate_activation_frames depth (s\<lparr>vm_reveals := clear_frames_at_or_above depth (vm_reveals s)\<rparr>))"

section \<open>The share runtime\<close>

definition share_runtime :: "vm_state \<Rightarrow> vm_error + mpc_engine" where
  "share_runtime s = from_configured (vm_engine s)"

definition mpc_ensure_ready :: "vm_state \<Rightarrow> vm_error + unit" where
  "mpc_ensure_ready s =
     (case vm_engine s of
        Some e \<Rightarrow> if is_ready e then Inr () else Inl MpcEngineNotReady
      | None \<Rightarrow> Inl MpcEngineNotConfigured)"

definition convert_to_share :: "vm_state \<Rightarrow> val \<Rightarrow> vm_error + val" where
  "convert_to_share s v = rbind (share_runtime s) (\<lambda>e. share_clear_value e v)"

definition reveal_share_immediate :: "vm_state \<Rightarrow> val \<Rightarrow> vm_error + val" where
  "reveal_share_immediate s v = rbind (share_runtime s) (\<lambda>e. open_share_value e v)"

definition vm_extract_share_data :: "vm_state \<Rightarrow> val \<Rightarrow> vm_error + share_type \<times> share_data" where
  "vm_extract_share_data s v = map_err MpcValue (extract_share_data (vm_table_memory s) v)"

definition unwrap_share_value_for_arith :: "vm_state \<Rightarrow> val \<Rightarrow> vm_error + val" where
  "unwrap_share_value_for_arith s v =
     (if is_share_object (vm_table_memory s) v
      then map_ok (\<lambda>(ty, d). Share ty d) (vm_extract_share_data s v)
      else Inr v)"

section \<open>Register writes\<close>

definition ensure_frame_contains_register :: "activation_record \<Rightarrow> u32 \<Rightarrow> vm_error + unit" where
  "ensure_frame_contains_register r x =
     (if unat x < rf_len (ar_registers r) then Inr ()
      else Inl (RegisterOutOfBounds (unat x) (rf_len (ar_registers r))))"

definition prepare_register_write_value_for_layout ::
  "vm_state \<Rightarrow> register_layout \<Rightarrow> usize \<Rightarrow> val \<Rightarrow> vm_error + val" where
  "prepare_register_write_value_for_layout s layout x v =
     (if \<not> is_secret layout x then Inr v
      else case v of
             Share _ _ \<Rightarrow> Inr v
           | Unit \<Rightarrow> Inr v
           | _ \<Rightarrow> map_err (ClearValueInSecretRegister (type_name v) x) (convert_to_share s v))"

definition prepare_register_write_value :: "vm_state \<Rightarrow> u32 \<Rightarrow> val \<Rightarrow> vm_error + val" where
  "prepare_register_write_value s x v =
     rbind (current_register_layout s) (\<lambda>layout. prepare_register_write_value_for_layout s layout (unat x) v)"

definition prepare_register_arguments :: "vm_state \<Rightarrow> val list \<Rightarrow> vm_error + val list" where
  "prepare_register_arguments s args =
     collect (map (\<lambda>(i, v). prepare_register_write_value_for_layout s (vm_register_layout s) i v)
                (enumerate 0 args))"

definition prepare_current_register_write :: "u32 \<Rightarrow> val \<Rightarrow> val vm" where
  "prepare_current_register_write x v =
     mbind (mread (\<lambda>s. rbind (current_frame s) (\<lambda>r. rbind (ensure_frame_contains_register r x) (\<lambda>_.
              prepare_register_write_value_for_layout s (rf_layout (ar_registers r)) (unat x) v)))) (\<lambda>w s.
       if has_pending (vm_reveals s)
       then (case current_frame_depth s of
               Inl e \<Rightarrow> (Inl e, s)
             | Inr d \<Rightarrow>
                 (Inr w, s\<lparr>vm_reveals := cancel_destination \<lparr>frame_depth = d, dest_register = x\<rparr> (vm_reveals s)\<rparr>))
       else (Inr w, s))"

definition replace_current_register_value :: "u32 \<Rightarrow> val \<Rightarrow> register_slot vm" where
  "replace_current_register_value x v =
     on_frame (\<lambda>r. ok_or (RegisterOutOfBounds (unat x) (rf_len (ar_registers r)))
       (map_option (\<lambda>(old, f). (old, r\<lparr>ar_registers := f\<rparr>)) (replace_value (ar_registers r) (unat x) v)))"

text \<open>The general path of a register write, and the write with its fast path for clear registers.\<close>

definition assign_prepared :: "u32 \<Rightarrow> val \<Rightarrow> unit vm" where
  "assign_prepared x v =
     mbind (prepare_current_register_write x v) (\<lambda>w. mbind (replace_current_register_value x w) (\<lambda>_. mret ()))"

definition assign_current_register_without_previous :: "u32 \<Rightarrow> val \<Rightarrow> unit vm" where
  "assign_current_register_without_previous x v s =
     (if has_pending (vm_reveals s) then assign_prepared x v s
      else case rbind (current_frame s) (\<lambda>r. rbind (ensure_frame_contains_register r x) (\<lambda>_. Inr r)) of
             Inl e \<Rightarrow> (Inl e, s)
           | Inr r \<Rightarrow>
               if \<not> is_clear (rf_layout (ar_registers r)) (unat x) then assign_prepared x v s
               else case rf_write_ready (ar_registers r) (unat x) v of
                      Some f \<Rightarrow> (Inr (), put_frame (r\<lparr>ar_registers := f\<rparr>) s)
                    | None \<Rightarrow> mbind (replace_current_register_value x v) (\<lambda>_. mret ()) s)"

definition write_pending_reveal_placeholder :: "u32 \<Rightarrow> unit vm" where
  "write_pending_reveal_placeholder x =
     on_frame (\<lambda>r. ok_or (RegisterOutOfBounds (unat x) (rf_len (ar_registers r)))
       (map_option (\<lambda>(_, f). ((), r\<lparr>ar_registers := f\<rparr>)) (set_pending_reveal (ar_registers r) (unat x))))"

section \<open>Reveals\<close>

definition flush_reveals :: "usize \<Rightarrow> revealed_register list vm" where
  "flush_reveals d s =
     (if \<not> has_pending_frame (vm_reveals s) d then (Inr [], s)
      else case vm_engine s of
             None \<Rightarrow> (Inl MpcEngineNotConfigured, s)
           | Some e \<Rightarrow> (case flush d e (vm_reveals s) of (res, b) \<Rightarrow> (map_err RevealBatch res, s\<lparr>vm_reveals := b\<rparr>)))"

fun assign_all :: "(u32 \<times> val) list \<Rightarrow> unit vm" where
  "assign_all [] = mret ()"
| "assign_all ((x, v) # xvs) = mbind (assign_current_register_without_previous x v) (\<lambda>_. assign_all xvs)"

definition flush_pending_reveals :: "unit vm" where
  "flush_pending_reveals =
     mbind (mread current_frame_depth) (\<lambda>d s.
       if \<not> has_pending_frame (vm_reveals s) d then (Inr (), s)
       else mbind (flush_reveals d) (\<lambda>results.
              mbind (mread (\<lambda>s. collect (map (\<lambda>q. let x = dest_register (revealed_destination q)
                                                   in map_ok (Pair x) (prepare_register_write_value s x (revealed_value q)))
                                           results)))
                assign_all) s)"

definition queue_reveal_to_register :: "val \<Rightarrow> u32 \<Rightarrow> unit vm" where
  "queue_reveal_to_register v dest s =
     (if \<not> enabled (vm_reveals s)
      then mbind (mread (\<lambda>s. reveal_share_immediate s v)) (assign_current_register_without_previous dest) s
      else mbind (mread mpc_ensure_ready) (\<lambda>_. mbind (mread current_frame_depth) (\<lambda>d.
             case v of
               Share ty data \<Rightarrow>
                 mbind (mmodify (\<lambda>s. s\<lparr>vm_reveals := queue \<lparr>frame_depth = d, dest_register = dest\<rparr> ty data (vm_reveals s)\<rparr>))
                   (\<lambda>_ s. if should_auto_flush (vm_reveals s) d then flush_pending_reveals s
                          else write_pending_reveal_placeholder dest s)
             | _ \<Rightarrow> merr InvalidShareRevealValue)) s)"

section \<open>Register reads\<close>

definition register_value_ref :: "activation_record \<Rightarrow> u32 \<Rightarrow> vm_error + val" where
  "register_value_ref r x =
     rbind (ensure_frame_contains_register r x) (\<lambda>_.
       ok_or (PendingRevealWithoutQueuedBatch (unat x)) (rf_get (ar_registers r) (unat x)))"

definition resolved_register_value_ref :: "activation_record \<Rightarrow> u32 \<Rightarrow> vm_error + val" where
  "resolved_register_value_ref r x =
     ok_or (PendingRevealWithoutQueuedBatch (unat x)) (rf_get (ar_registers r) (unat x))"

fun needs_flush :: "reveal_batcher \<Rightarrow> usize \<Rightarrow> activation_record \<Rightarrow> bool \<Rightarrow> u32 list \<Rightarrow> vm_error + bool" where
  "needs_flush b d r acc [] = Inr acc"
| "needs_flush b d r acc (x # xs) =
     rbind (ensure_frame_contains_register r x) (\<lambda>_.
       needs_flush b d r (acc \<or> has_pending_destination b \<lparr>frame_depth = d, dest_register = x\<rparr>) xs)"

fun ensure_all :: "activation_record \<Rightarrow> u32 list \<Rightarrow> vm_error + unit" where
  "ensure_all r [] = Inr ()"
| "ensure_all r (x # xs) = rbind (ensure_frame_contains_register r x) (\<lambda>_. ensure_all r xs)"

definition ensure_registers_resolved :: "u32 list \<Rightarrow> unit vm" where
  "ensure_registers_resolved xs s =
     (case current_frame s of
        Inl e \<Rightarrow> (Inl e, s)
      | Inr r \<Rightarrow>
          if \<not> has_pending (vm_reveals s) then (ensure_all r xs, s)
          else case rbind (current_frame_depth s) (\<lambda>d. needs_flush (vm_reveals s) d r False xs) of
                 Inl e \<Rightarrow> (Inl e, s)
               | Inr b \<Rightarrow> if b then flush_pending_reveals s else (Inr (), s))"

definition current_register_value :: "vm_state \<Rightarrow> u32 \<Rightarrow> vm_error + val" where
  "current_register_value s x = rbind (current_frame s) (\<lambda>r. register_value_ref r x)"

definition resolve_register :: "u32 \<Rightarrow> val vm" where
  "resolve_register x =
     mbind (ensure_registers_resolved [x]) (\<lambda>_.
       mread (\<lambda>s. rbind (current_frame s) (\<lambda>r. resolved_register_value_ref r x)))"

definition resolve_register_pair :: "u32 \<Rightarrow> u32 \<Rightarrow> (val \<times> val) vm" where
  "resolve_register_pair x y =
     mbind (ensure_registers_resolved [x, y]) (\<lambda>_.
       mread (\<lambda>s. rbind (current_frame s) (\<lambda>r. rbind (resolved_register_value_ref r x) (\<lambda>v.
         map_ok (Pair v) (resolved_register_value_ref r y)))))"

definition with_resolved_register :: "u32 \<Rightarrow> (val \<Rightarrow> vm_state \<Rightarrow> vm_error + 'a) \<Rightarrow> 'a vm" where
  "with_resolved_register x f = mbind (resolve_register x) (\<lambda>v. mread (f v))"

definition with_resolved_register_pair :: "u32 \<Rightarrow> u32 \<Rightarrow> (val \<Rightarrow> val \<Rightarrow> vm_state \<Rightarrow> vm_error + 'a) \<Rightarrow> 'a vm" where
  "with_resolved_register_pair x y f = mbind (resolve_register_pair x y) (\<lambda>(v, w). mread (f v w))"

end
