(* ===== verification/Interpreter.thy ===== *)
theory Interpreter
  imports Frames
begin

text \<open>
  The instructions of the machine, from \<open>stoffel-vm/src/vm_state/instructions.rs\<close>, without hooks.
  Most instructions try a fast path for clear registers first, which is taken only when no
  reveal is pending, and otherwise take the general path; the two are separate definitions
  here so that their agreement can be stated.
\<close>

section \<open>Fast paths\<close>

definition first_try :: "bool vm \<Rightarrow> unit vm \<Rightarrow> unit vm" where
  "first_try fast general = mbind fast (\<lambda>completed. if completed then mret () else general)"

definition write_fast_clear_register :: "u32 \<Rightarrow> val \<Rightarrow> unit vm" where
  "write_fast_clear_register dest v =
     on_frame (\<lambda>r. ok_or (RegisterOutOfBounds (unat dest) (rf_len (ar_registers r)))
       (map_option (\<lambda>f. ((), r\<lparr>ar_registers := f\<rparr>)) (rf_write_ready (ar_registers r) (unat dest) v)))"

text \<open>The operands of a fast path, or nothing when a register is not clear.\<close>

definition fast_operands :: "activation_record \<Rightarrow> u32 list \<Rightarrow> u32 list \<Rightarrow> vm_error + val list option" where
  "fast_operands r dests srcs =
     rbind (ensure_all r (dests @ srcs)) (\<lambda>_.
       if list_all (\<lambda>x. is_clear (rf_layout (ar_registers r)) (unat x)) (dests @ srcs)
       then map_ok Some (collect (map (resolved_register_value_ref r) srcs))
       else Inr None)"

definition try_execute_fast_clear_binary_op ::
  "u32 \<Rightarrow> u32 \<Rightarrow> u32 \<Rightarrow> (val \<Rightarrow> val \<Rightarrow> (value_op_error + val) option) \<Rightarrow> bool vm" where
  "try_execute_fast_clear_binary_op dest src1 src2 oper s =
     (if has_pending (vm_reveals s) then (Inr False, s)
      else case rbind (current_frame s) (\<lambda>r. fast_operands r [dest] [src1, src2]) of
             Inl e \<Rightarrow> (Inl e, s)
           | Inr (Some [v, w]) \<Rightarrow>
               (case oper v w of
                  None \<Rightarrow> (Inr False, s)
                | Some (Inl e) \<Rightarrow> (Inl (ValueOp e), s)
                | Some (Inr u) \<Rightarrow> mbind (write_fast_clear_register dest u) (\<lambda>_. mret True) s)
           | Inr _ \<Rightarrow> (Inr False, s))"

definition try_execute_fast_clear_add :: "u32 \<Rightarrow> u32 \<Rightarrow> u32 \<Rightarrow> bool vm" where
  "try_execute_fast_clear_add dest src1 src2 = try_execute_fast_clear_binary_op dest src1 src2 try_clear_add"

definition try_execute_fast_clear_not :: "u32 \<Rightarrow> u32 \<Rightarrow> bool vm" where
  "try_execute_fast_clear_not dest src s =
     (if has_pending (vm_reveals s) then (Inr False, s)
      else case rbind (current_frame s) (\<lambda>r. fast_operands r [dest] [src]) of
             Inl e \<Rightarrow> (Inl e, s)
           | Inr (Some [v]) \<Rightarrow>
               (case try_clear_bit_not v of
                  None \<Rightarrow> (Inr False, s)
                | Some (Inl e) \<Rightarrow> (Inl (ValueOp e), s)
                | Some (Inr u) \<Rightarrow> mbind (write_fast_clear_register dest u) (\<lambda>_. mret True) s)
           | Inr _ \<Rightarrow> (Inr False, s))"

definition try_execute_fast_clear_cmp :: "u32 \<Rightarrow> u32 \<Rightarrow> bool vm" where
  "try_execute_fast_clear_cmp lhs rhs s =
     (if has_pending (vm_reveals s) then (Inr False, s)
      else case rbind (current_frame s) (\<lambda>r. fast_operands r [] [lhs, rhs]) of
             Inl e \<Rightarrow> (Inl e, s)
           | Inr (Some [v, w]) \<Rightarrow>
               (case try_clear_compare v w of
                  None \<Rightarrow> (Inr False, s)
                | Some c \<Rightarrow> on_frame (\<lambda>r. Inr (True, r\<lparr>ar_compare_flag := compare_flag_from_ordering c\<rparr>)) s)
           | Inr _ \<Rightarrow> (Inr False, s))"

text \<open>A stack value is never a pending reveal; the source marks that result as unreachable.\<close>

definition try_execute_fast_clear_ld :: "u32 \<Rightarrow> i32 \<Rightarrow> bool vm" where
  "try_execute_fast_clear_ld dest off s =
     (if has_pending (vm_reveals s) then (Inr False, s)
      else case rbind (current_frame s) (\<lambda>r. map_ok (Pair r) (stack_offset_resolve_index off (length (ar_stack r)))) of
             Inl e \<Rightarrow> (Inl e, s)
           | Inr (r, i) \<Rightarrow>
               (case copy_stack_value_to_clear_register r (unat dest) i of
                  Some (CCopied, r') \<Rightarrow> (Inr True, put_frame r' s)
                | Some (CRegisterOutOfBounds, _) \<Rightarrow>
                    (Inl (RegisterOutOfBounds (unat dest) (rf_len (ar_registers r))), s)
                | Some (_, _) \<Rightarrow> (Inr False, s)
                | None \<Rightarrow> (Inl (StackAddressOutOfBounds off), s)))"

definition out_of_bounds_of_two :: "activation_record \<Rightarrow> u32 \<Rightarrow> u32 \<Rightarrow> vm_error" where
  "out_of_bounds_of_two r dest src =
     (let n = rf_len (ar_registers r) in RegisterOutOfBounds (if n \<le> unat dest then unat dest else unat src) n)"

definition try_execute_fast_clear_copy_mov :: "u32 \<Rightarrow> u32 \<Rightarrow> bool vm" where
  "try_execute_fast_clear_copy_mov dest src s =
     (if has_pending (vm_reveals s) then (Inr False, s)
      else on_frame (\<lambda>r. case copy_clear_value (ar_registers r) (unat dest) (unat src) of
             (CCopied, f) \<Rightarrow> Inr (True, r\<lparr>ar_registers := f\<rparr>)
           | (CNotClearRegister, _) \<Rightarrow> Inr (False, r)
           | (CSourcePendingReveal, _) \<Rightarrow> Inl (PendingRevealWithoutQueuedBatch (unat src))
           | (CRegisterOutOfBounds, _) \<Rightarrow> Inl (out_of_bounds_of_two r dest src)) s)"

definition try_execute_fast_secret_copy_mov :: "u32 \<Rightarrow> u32 \<Rightarrow> bool vm" where
  "try_execute_fast_secret_copy_mov dest src s =
     (if has_pending (vm_reveals s) then (Inr False, s)
      else on_frame (\<lambda>r. case copy_secret_value (ar_registers r) (unat dest) (unat src) of
             (SCopied, f) \<Rightarrow> Inr (True, r\<lparr>ar_registers := f\<rparr>)
           | (SNotSecretRegister, _) \<Rightarrow> Inr (False, r)
           | (SSourceNotSecretValue, _) \<Rightarrow> Inr (False, r)
           | (SSourcePendingReveal, _) \<Rightarrow> Inl (PendingRevealWithoutQueuedBatch (unat src))
           | (SRegisterOutOfBounds, _) \<Rightarrow> Inl (out_of_bounds_of_two r dest src)) s)"

section \<open>Loads, stores and moves\<close>

definition execute_ld_general :: "u32 \<Rightarrow> i32 \<Rightarrow> unit vm" where
  "execute_ld_general dest off =
     mbind (mread (\<lambda>s. rbind (current_frame s) (\<lambda>r. rbind (stack_offset_resolve_index off (length (ar_stack r))) (\<lambda>i.
              ok_or (StackAddressOutOfBounds off) (vec_get (ar_stack r) i)))))
       (assign_current_register_without_previous dest)"

definition execute_ld :: "u32 \<Rightarrow> i32 \<Rightarrow> unit vm" where
  "execute_ld dest off = first_try (try_execute_fast_clear_ld dest off) (execute_ld_general dest off)"

definition execute_ldi :: "u32 \<Rightarrow> val \<Rightarrow> unit vm" where
  "execute_ldi dest v = assign_current_register_without_previous dest v"

definition execute_lds :: "u32 \<Rightarrow> usize \<Rightarrow> unit vm" where
  "execute_lds dest slot =
     on_frame (\<lambda>r. rbind (ensure_frame_contains_register r dest) (\<lambda>_.
       ok_or (RegisterOutOfBounds (unat dest) (rf_len (ar_registers r)))
         (map_option (\<lambda>f. ((), r\<lparr>ar_registers := f\<rparr>))
            (rf_write_ready (ar_registers r) (unat dest) (spill_load r slot)))))"

definition execute_sts :: "usize \<Rightarrow> u32 \<Rightarrow> unit vm" where
  "execute_sts slot src =
     mbind (mread (\<lambda>s. current_register_value s src)) (\<lambda>v. on_frame (\<lambda>r. Inr ((), spill_store slot v r)))"

definition execute_mov_general :: "u32 \<Rightarrow> u32 \<Rightarrow> unit vm" where
  "execute_mov_general dest src =
     mbind (mread (\<lambda>s. map_ok (\<lambda>l. move_kind l (unat dest) (unat src)) (current_register_layout s))) (\<lambda>k.
     mbind (resolve_register src) (\<lambda>v.
       if k = SecretToClear then queue_reveal_to_register v dest
       else mbind (mread (\<lambda>s.
              if k = ClearToSecret
              then (case v of
                      Share _ _ \<Rightarrow> Inr v
                    | Object _ \<Rightarrow> map_ok (\<lambda>(ty, d). Share ty d) (vm_extract_share_data s v)
                    | _ \<Rightarrow> convert_to_share s v)
              else Inr v))
            (assign_current_register_without_previous dest)))"

definition execute_mov :: "u32 \<Rightarrow> u32 \<Rightarrow> unit vm" where
  "execute_mov dest src s =
     (if dest = src \<and> is_clear (vm_register_layout s) (unat dest) \<and> \<not> has_pending (vm_reveals s) then (Inr (), s)
      else first_try (try_execute_fast_clear_copy_mov dest src)
             (\<lambda>s. if is_secret (vm_register_layout s) (unat dest) \<and> is_secret (vm_register_layout s) (unat src)
                  then first_try (try_execute_fast_secret_copy_mov dest src) (execute_mov_general dest src) s
                  else execute_mov_general dest src s) s)"

section \<open>Arithmetic, logic and comparison\<close>

definition runtime_provider :: "vm_state \<Rightarrow> provider" where
  "runtime_provider s = map_err Runtime (share_runtime s)"

text \<open>Operators that accept share objects, and those that act on the register values as they are.\<close>

definition arith_general :: "(val \<Rightarrow> val \<Rightarrow> provider \<Rightarrow> value_op_error + val) \<Rightarrow> u32 \<Rightarrow> u32 \<Rightarrow> u32 \<Rightarrow> unit vm" where
  "arith_general oper dest src1 src2 =
     mbind (with_resolved_register_pair src1 src2 (\<lambda>v w _. Inr (v, w))) (\<lambda>(v, w).
     mbind (mread (\<lambda>s. unwrap_share_value_for_arith s v)) (\<lambda>v'.
     mbind (mread (\<lambda>s. unwrap_share_value_for_arith s w)) (\<lambda>w'.
     mbind (mread (\<lambda>s. map_err ValueOp (oper v' w' (runtime_provider s))))
       (assign_current_register_without_previous dest))))"

definition binary_general :: "(val \<Rightarrow> val \<Rightarrow> provider \<Rightarrow> value_op_error + val) \<Rightarrow> u32 \<Rightarrow> u32 \<Rightarrow> u32 \<Rightarrow> unit vm" where
  "binary_general oper dest src1 src2 =
     mbind (with_resolved_register_pair src1 src2 (\<lambda>v w s. map_err ValueOp (oper v w (runtime_provider s))))
       (assign_current_register_without_previous dest)"

definition execute_add :: "u32 \<Rightarrow> u32 \<Rightarrow> u32 \<Rightarrow> unit vm" where
  "execute_add dest src1 src2 = first_try (try_execute_fast_clear_add dest src1 src2) (arith_general add dest src1 src2)"

definition execute_sub :: "u32 \<Rightarrow> u32 \<Rightarrow> u32 \<Rightarrow> unit vm" where
  "execute_sub dest src1 src2 =
     first_try (try_execute_fast_clear_binary_op dest src1 src2 try_clear_sub) (arith_general sub dest src1 src2)"

definition execute_mul :: "u32 \<Rightarrow> u32 \<Rightarrow> u32 \<Rightarrow> unit vm" where
  "execute_mul dest src1 src2 =
     first_try (try_execute_fast_clear_binary_op dest src1 src2 try_clear_mul) (arith_general mul dest src1 src2)"

definition execute_div :: "u32 \<Rightarrow> u32 \<Rightarrow> u32 \<Rightarrow> unit vm" where
  "execute_div dest src1 src2 =
     first_try (try_execute_fast_clear_binary_op dest src1 src2 try_clear_div) (arith_general div_op dest src1 src2)"

definition execute_mod :: "u32 \<Rightarrow> u32 \<Rightarrow> u32 \<Rightarrow> unit vm" where
  "execute_mod dest src1 src2 =
     first_try (try_execute_fast_clear_binary_op dest src1 src2 try_clear_modulo)
       (binary_general (\<lambda>v w _. modulo v w) dest src1 src2)"

definition execute_and :: "u32 \<Rightarrow> u32 \<Rightarrow> u32 \<Rightarrow> unit vm" where
  "execute_and dest src1 src2 =
     first_try (try_execute_fast_clear_binary_op dest src1 src2 try_clear_bit_and) (binary_general bit_and dest src1 src2)"

definition execute_or :: "u32 \<Rightarrow> u32 \<Rightarrow> u32 \<Rightarrow> unit vm" where
  "execute_or dest src1 src2 =
     first_try (try_execute_fast_clear_binary_op dest src1 src2 try_clear_bit_or) (binary_general bit_or dest src1 src2)"

definition execute_xor :: "u32 \<Rightarrow> u32 \<Rightarrow> u32 \<Rightarrow> unit vm" where
  "execute_xor dest src1 src2 =
     first_try (try_execute_fast_clear_binary_op dest src1 src2 try_clear_bit_xor) (binary_general bit_xor_op dest src1 src2)"

definition execute_shl :: "u32 \<Rightarrow> u32 \<Rightarrow> u32 \<Rightarrow> unit vm" where
  "execute_shl dest src amount =
     first_try (try_execute_fast_clear_binary_op dest src amount try_clear_shl)
       (binary_general (\<lambda>v w _. shl v w) dest src amount)"

definition execute_shr :: "u32 \<Rightarrow> u32 \<Rightarrow> u32 \<Rightarrow> unit vm" where
  "execute_shr dest src amount =
     first_try (try_execute_fast_clear_binary_op dest src amount try_clear_shr)
       (binary_general (\<lambda>v w _. shr v w) dest src amount)"

definition execute_not_general :: "u32 \<Rightarrow> u32 \<Rightarrow> unit vm" where
  "execute_not_general dest src =
     mbind (with_resolved_register src (\<lambda>v s. map_err ValueOp (bit_not v (runtime_provider s))))
       (assign_current_register_without_previous dest)"

definition execute_not :: "u32 \<Rightarrow> u32 \<Rightarrow> unit vm" where
  "execute_not dest src = first_try (try_execute_fast_clear_not dest src) (execute_not_general dest src)"

definition execute_cmp_general :: "u32 \<Rightarrow> u32 \<Rightarrow> unit vm" where
  "execute_cmp_general lhs rhs =
     mbind (with_resolved_register_pair lhs rhs (\<lambda>v w _. map_err ValueOp (compare v w))) (\<lambda>c.
       on_frame (\<lambda>r. Inr ((), r\<lparr>ar_compare_flag := compare_flag_from_ordering c\<rparr>)))"

definition execute_cmp :: "u32 \<Rightarrow> u32 \<Rightarrow> unit vm" where
  "execute_cmp lhs rhs = first_try (try_execute_fast_clear_cmp lhs rhs) (execute_cmp_general lhs rhs)"

fun execute_binary_op :: "runtime_binary_op \<Rightarrow> u32 \<Rightarrow> u32 \<Rightarrow> u32 \<Rightarrow> unit vm" where
  "execute_binary_op Add = execute_add"
| "execute_binary_op Subtract = execute_sub"
| "execute_binary_op Multiply = execute_mul"
| "execute_binary_op Divide = execute_div"
| "execute_binary_op Modulo = execute_mod"
| "execute_binary_op BitAnd = execute_and"
| "execute_binary_op BitOr = execute_or"
| "execute_binary_op BitXor = execute_xor"

fun execute_unary_op :: "runtime_unary_op \<Rightarrow> u32 \<Rightarrow> u32 \<Rightarrow> unit vm" where
  "execute_unary_op BitNot = execute_not"

fun execute_shift_op :: "runtime_shift_op \<Rightarrow> u32 \<Rightarrow> u32 \<Rightarrow> u32 \<Rightarrow> unit vm" where
  "execute_shift_op SLeft = execute_shl"
| "execute_shift_op SRight = execute_shr"

section \<open>Control\<close>

definition execute_jump :: "runtime_jump_condition \<Rightarrow> u32 \<Rightarrow> unit vm" where
  "execute_jump condition target =
     on_frame (\<lambda>r. Inr ((), if should_jump condition (ar_compare_flag r)
                            then r\<lparr>ar_instruction_pointer := unat target\<rparr> else r))"

definition execute_pusharg :: "u32 \<Rightarrow> unit vm" where
  "execute_pusharg x =
     mbind (resolve_register x) (\<lambda>v. on_frame (\<lambda>r. Inr ((), r\<lparr>ar_stack := ar_stack r @ [v]\<rparr>)))"

end
