(* ===== verification/Calls.thy ===== *)
theory Calls
  imports Interpreter
begin

text \<open>
  Calls, returns and the execution loop, from \<open>stoffel-vm/src/vm_state/calls.rs\<close>, \<open>upvalues.rs\<close>
  and \<open>execution.rs\<close>, without hooks. A foreign function runs arbitrary host code over the
  machine; it is the parameter \<open>host\<close>, a method that may fail with the message of its callback.
  A shared closure is its contents: the identity of closures, which updates of captured
  variables go through, is not modelled. The loop that runs until the entry frame returns
  has no bound in the source; here it takes fuel and gives \<open>None\<close> when the fuel is spent.
\<close>

type_synonym host = "string \<Rightarrow> val list \<Rightarrow> (vm_state, string, val) meth"

section \<open>Captured variables\<close>

fun find_upvalue_in :: "string \<Rightarrow> activation_record list \<Rightarrow> val option" where
  "find_upvalue_in name [] = None"
| "find_upvalue_in name (r # rs) =
     (case hm_get (=) (ar_locals r) name of
        Some v \<Rightarrow> Some v
      | None \<Rightarrow> (case map_of (ar_upvalues r) name of Some v \<Rightarrow> Some v | None \<Rightarrow> find_upvalue_in name rs))"

definition find_upvalue :: "vm_state \<Rightarrow> string \<Rightarrow> val option" where
  "find_upvalue s name = find_upvalue_in name (rev (call_stack s))"

definition collect_vm_call_upvalues :: "vm_state \<Rightarrow> string list \<Rightarrow> vm_error + upvalue list" where
  "collect_vm_call_upvalues s names =
     collect (map (\<lambda>n. map_ok (Pair n) (ok_or (UpvalueNotFound n) (find_upvalue s n))) names)"

definition create_closure_value :: "vm_state \<Rightarrow> string \<Rightarrow> string list \<Rightarrow> vm_error + val" where
  "create_closure_value s name upvalue_names =
     map_ok (Closure name)
       (collect (map (\<lambda>n. map_ok (Pair n) (ok_or (ClosureUpvalueNotFound n) (find_upvalue s n))) upvalue_names))"

definition get_upvalue_value :: "vm_state \<Rightarrow> string \<Rightarrow> vm_error + val" where
  "get_upvalue_value s name =
     rbind (current_frame s) (\<lambda>r. ok_or (UpvalueReadNotFound name) (map_of (rev (ar_upvalues r)) name))"

definition update_closure_upvalues :: "unit vm" where
  "update_closure_upvalues =
     on_frame (\<lambda>r. Inr ((), r\<lparr>ar_closure := map_option (\<lambda>(f, _). (f, ar_upvalues r)) (ar_closure r)\<rparr>))"

section \<open>Resolving a call\<close>

fun split_once :: "char \<Rightarrow> string \<Rightarrow> (string \<times> string) option" where
  "split_once c [] = None"
| "split_once c (x # xs) = (if x = c then Some ([], xs) else map_option (map_prod ((#) x) id) (split_once c xs))"

definition cached_call_target :: "string \<Rightarrow> call_target vm" where
  "cached_call_target name s =
     (case last_call_target s of
        Some (cached, t) \<Rightarrow>
          if cached = name then (Inr t, s)
          else (case program_call_target (vm_program s) name of
                  Inl e \<Rightarrow> (Inl e, s)
                | Inr t \<Rightarrow> (Inr t, s\<lparr>last_call_target := Some (name, t)\<rparr>))
      | None \<Rightarrow>
          (case program_call_target (vm_program s) name of
             Inl e \<Rightarrow> (Inl e, s)
           | Inr t \<Rightarrow> (Inr t, s\<lparr>last_call_target := Some (name, t)\<rparr>)))"

definition runtime_type_name :: "vm_state \<Rightarrow> val \<Rightarrow> vm_error + string" where
  "runtime_type_name s v =
     (case v of
        Object r \<Rightarrow>
          map_ok (\<lambda>f. case f of Some (String n) \<Rightarrow> n | _ \<Rightarrow> ''object'')
            (map_err TableMemory (try_get_table_field (vm_table_memory s) (ObjectTable r) (String ''__type'')))
      | Share _ _ \<Rightarrow> Inr ''Share''
      | _ \<Rightarrow> Inr (type_name v))"

definition call_receiver :: "vm_state \<Rightarrow> string \<Rightarrow> vm_error + val" where
  "call_receiver s fname =
     rbind (current_frame s) (\<lambda>r. ok_or (MethodCallRequiresReceiver fname) (vec_get (ar_stack r) 0))"

definition check_receiver :: "vm_state \<Rightarrow> string \<Rightarrow> string \<Rightarrow> string \<Rightarrow> vm_error + unit" where
  "check_receiver s fname receiver_type method_name =
     (if method_target_name (vm_program s) receiver_type method_name = None then Inr ()
      else rbind (call_receiver s fname) (\<lambda>receiver. rbind (runtime_type_name s receiver) (\<lambda>actual.
             if actual \<noteq> receiver_type then Inl (MethodReceiverTypeMismatch method_name receiver_type actual) else Inr ())))"

definition method_call_target :: "vm_state \<Rightarrow> string \<Rightarrow> vm_error \<Rightarrow> vm_error + string \<times> call_target" where
  "method_call_target s fname direct_err =
     (if receiver_types_for_method (vm_program s) fname = None then Inl direct_err
      else rbind (call_receiver s fname) (\<lambda>receiver. rbind (runtime_type_name s receiver) (\<lambda>actual.
             case method_target_name (vm_program s) actual fname of
               None \<Rightarrow> Inl (MethodNotFound fname actual)
             | Some canonical \<Rightarrow> map_ok (Pair canonical) (program_call_target (vm_program s) canonical))))"

definition resolve_call_target :: "string \<Rightarrow> (string \<times> call_target) vm" where
  "resolve_call_target fname s =
     (case split_once CHR ''.'' fname of
        Some (receiver_type, method_name) \<Rightarrow>
          mbind (mread (\<lambda>s. check_receiver s fname receiver_type method_name)) (\<lambda>_.
            mbind (cached_call_target fname) (\<lambda>t. mret (fname, t))) s
      | None \<Rightarrow>
          (case cached_call_target fname s of
             (Inr t, s') \<Rightarrow> (Inr (fname, t), s')
           | (Inl e, s') \<Rightarrow> (method_call_target s' fname e, s')))"

section \<open>Calls of bytecode functions\<close>

definition validate_vm_call_arity :: "vm_call_target \<Rightarrow> usize \<Rightarrow> vm_error + unit" where
  "validate_vm_call_arity t actual =
     (if length (ct_parameters t) \<noteq> actual then Inl (FunctionArityMismatch (ct_name t) (length (ct_parameters t)) actual)
      else Inr ())"

definition prepare_vm_entry_call :: "vm_state \<Rightarrow> vm_call_target \<Rightarrow> val list \<Rightarrow> vm_error + val list" where
  "prepare_vm_entry_call s t args =
     rbind (validate_vm_call_arity t (length args)) (\<lambda>_.
       if ct_upvalues t \<noteq> [] then Inl (EntryFunctionRequiresUpvalues (ct_name t) (ct_upvalues t))
       else prepare_register_arguments s args)"

definition prepare_vm_call :: "vm_state \<Rightarrow> vm_call_target \<Rightarrow> val list \<Rightarrow> vm_error + val list \<times> upvalue list" where
  "prepare_vm_call s t args =
     rbind (validate_vm_call_arity t (length args)) (\<lambda>_.
     rbind (collect_vm_call_upvalues s (ct_upvalues t)) (\<lambda>ups.
       map_ok (\<lambda>prepared. (prepared, ups)) (prepare_register_arguments s args)))"

definition prepare_vm_call_without_args :: "vm_state \<Rightarrow> vm_call_target \<Rightarrow> vm_error + val list \<times> upvalue list" where
  "prepare_vm_call_without_args s t =
     rbind (validate_vm_call_arity t 0) (\<lambda>_. map_ok (Pair []) (collect_vm_call_upvalues s (ct_upvalues t)))"

definition can_move_call_args_directly :: "vm_state \<Rightarrow> vm_call_target \<Rightarrow> usize \<Rightarrow> bool" where
  "can_move_call_args_directly s t n =
     (length (ct_parameters t) = n \<and> n \<le> ct_frame_register_count t \<and>
      list_all (is_clear (vm_register_layout s)) [0..<n])"

definition push_prepared_vm_frame ::
  "vm_call_target \<Rightarrow> val list \<Rightarrow> upvalue list \<Rightarrow> (string \<times> upvalue list) option \<Rightarrow> unit vm" where
  "push_prepared_vm_frame t args ups clo s =
     (case instantiate_frame t (vm_register_layout s) args ups clo of
        Inl e \<Rightarrow> (Inl (Activation e), s)
      | Inr r \<Rightarrow> (Inr (), push_activation_frame r (Some (ct_runtime t)) s))"

definition push_empty_vm_frame_without_hooks :: "vm_call_target \<Rightarrow> unit vm" where
  "push_empty_vm_frame_without_hooks t =
     mmodify (\<lambda>s. push_activation_frame (instantiate_empty_frame t (vm_register_layout s)) (Some (ct_runtime t)) s)"

definition drain_call_args :: "(usize \<times> val list) vm" where
  "drain_call_args =
     mbind (mread (\<lambda>s. Inr (length (call_stack s)))) (\<lambda>checkpoint.
       on_frame (\<lambda>r. Inr ((checkpoint, ar_stack r), r\<lparr>ar_stack := []\<rparr>)))"

definition restore_call_args_after_error :: "usize \<times> val list \<Rightarrow> unit vm" where
  "restore_call_args_after_error args s =
     (if length (call_stack s) = fst args then on_frame (\<lambda>r. Inr ((), r\<lparr>ar_stack := snd args\<rparr>)) s else (Inr (), s))"

text \<open>A method that, on failure, puts the drained arguments back before it gives the error.\<close>

definition restoring_args :: "usize \<times> val list \<Rightarrow> 'a vm \<Rightarrow> 'a vm" where
  "restoring_args args m s =
     (case m s of
        (Inr x, t) \<Rightarrow> (Inr x, t)
      | (Inl e, t) \<Rightarrow> (case restore_call_args_after_error args t of (Inl e', u) \<Rightarrow> (Inl e', u) | (Inr _, u) \<Rightarrow> (Inl e, u)))"

definition call_vm :: "vm_call_target \<Rightarrow> unit vm" where
  "call_vm t =
     mbind (mread (\<lambda>s. map_ok (\<lambda>r. length (ar_stack r)) (current_frame s))) (\<lambda>n s.
       if n = 0
       then if ct_parameters t = [] \<and> ct_upvalues t = [] then push_empty_vm_frame_without_hooks t s
            else mbind (mread (\<lambda>s. prepare_vm_call_without_args s t)) (\<lambda>(args, ups). push_prepared_vm_frame t args ups None) s
       else if can_move_call_args_directly s t n
       then mbind (mread (\<lambda>s. collect_vm_call_upvalues s (ct_upvalues t))) (\<lambda>ups.
              mbind drain_call_args (\<lambda>args. push_prepared_vm_frame t (snd args) ups None)) s
       else mbind (mread (\<lambda>s. rbind (current_frame s) (\<lambda>r. prepare_vm_call s t (ar_stack r)))) (\<lambda>(prepared, ups).
              mbind drain_call_args (\<lambda>args. restoring_args args (push_prepared_vm_frame t prepared ups None))) s)"

definition push_entry_frame :: "string \<Rightarrow> val list \<Rightarrow> (string \<Rightarrow> vm_error) \<Rightarrow> usize vm" where
  "push_entry_frame fname args foreign_error =
     mbind (mread (\<lambda>s. Inr (length (call_stack s)))) (\<lambda>checkpoint.
     mbind (mread (\<lambda>s. vm_call_target_with_foreign_error (vm_program s) fname foreign_error)) (\<lambda>t.
     mbind (mread (\<lambda>s. prepare_vm_entry_call s t args)) (\<lambda>prepared.
     mbind (push_prepared_vm_frame t prepared [] None) (\<lambda>_. mret checkpoint))))"

definition call_closure_value :: "val \<Rightarrow> val list \<Rightarrow> unit vm" where
  "call_closure_value v args =
     (case v of
        Closure f ups \<Rightarrow>
          mbind (mread (\<lambda>s. vm_call_target_with_foreign_error (vm_program s) f ForeignFunctionAsClosure)) (\<lambda>t.
          mbind (mread (\<lambda>s. rbind (validate_vm_call_arity t (length args)) (\<lambda>_. prepare_register_arguments s args))) (\<lambda>prepared.
            push_prepared_vm_frame t prepared ups (Some (f, ups))))
      | _ \<Rightarrow> merr (ExpectedClosure (type_name v)))"

section \<open>Returns and foreign calls\<close>

datatype instruction_outcome = OutcomeContinue | OutcomeReturn val

definition returning_from_entry_frame :: "usize \<Rightarrow> usize \<Rightarrow> bool" where
  "returning_from_entry_frame checkpoint depth = (checked_sub_usize depth checkpoint = Some 1)"

definition return_current_frame :: "val \<Rightarrow> usize \<Rightarrow> instruction_outcome vm" where
  "return_current_frame v checkpoint =
     mbind (mread current_frame_depth) (\<lambda>d.
     mbind (mmodify (\<lambda>s. s\<lparr>vm_reveals := clear_frame d (vm_reveals s)\<rparr>)) (\<lambda>_.
     mbind update_closure_upvalues (\<lambda>_ s.
       if returning_from_entry_frame checkpoint (length (call_stack s))
       then (Inr (OutcomeReturn v), (pop_activation_frame s)\<lparr>current_instruction := None\<rparr>)
       else mbind (mmodify (\<lambda>s. sync_current_instruction_to_current_frame (pop_activation_frame s))) (\<lambda>_.
            mbind (mread current_return_register) (\<lambda>x.
            mbind (assign_current_register_without_previous x v) (\<lambda>_. mret OutcomeContinue))) s)))"

definition call_foreign_function_internal :: "host \<Rightarrow> string \<Rightarrow> val list \<Rightarrow> usize \<Rightarrow> instruction_outcome vm" where
  "call_foreign_function_internal host fname args checkpoint =
     mbind (mmap_err (ForeignFunctionFailed fname) (host fname args)) (\<lambda>result s.
       if checkpoint < length (call_stack s) then (Inr OutcomeContinue, s)
       else if call_stack s = [] then (Inr (OutcomeReturn result), s)
       else mbind (mread current_return_register) (\<lambda>x.
            mbind (assign_current_register_without_previous x result) (\<lambda>_. mret OutcomeContinue)) s)"

definition call_foreign :: "host \<Rightarrow> string \<Rightarrow> instruction_outcome vm" where
  "call_foreign host fname =
     mbind (mread (\<lambda>s. map_ok (\<lambda>r. length (ar_stack r)) (current_frame s))) (\<lambda>n s.
       if n = 0 then call_foreign_function_internal host fname [] (length (call_stack s)) s
       else mbind drain_call_args (\<lambda>args.
              restoring_args args (call_foreign_function_internal host fname (snd args) (fst args))) s)"

definition execute_call :: "host \<Rightarrow> string \<Rightarrow> instruction_outcome vm" where
  "execute_call host fname =
     mbind (resolve_call_target fname) (\<lambda>(_, t).
       case t of
         VmTarget ct \<Rightarrow> mbind (call_vm ct) (\<lambda>_. mret OutcomeContinue)
       | ForeignTarget n \<Rightarrow> call_foreign host n)"

section \<open>Execution\<close>

definition continuing :: "unit vm \<Rightarrow> instruction_outcome vm" where
  "continuing m = mbind m (\<lambda>_. mret OutcomeContinue)"

fun execute_instruction :: "host \<Rightarrow> usize \<Rightarrow> runtime_function \<Rightarrow> runtime_instruction \<Rightarrow> instruction_outcome vm" where
  "execute_instruction host cp rt Noop = mret OutcomeContinue"
| "execute_instruction host cp rt (LoadStack d off) = continuing (execute_ld d off)"
| "execute_instruction host cp rt (LoadImmediate d k) =
     mbind (mread (\<lambda>_. runtime_constant rt k)) (\<lambda>v. continuing (execute_ldi d v))"
| "execute_instruction host cp rt (Move d x) = continuing (execute_mov d x)"
| "execute_instruction host cp rt (Binary bop d x y) = continuing (execute_binary_op bop d x y)"
| "execute_instruction host cp rt (Unary uop d x) = continuing (execute_unary_op uop d x)"
| "execute_instruction host cp rt (Shift sop d x y) = continuing (execute_shift_op sop d x y)"
| "execute_instruction host cp rt (Jump c t) = continuing (execute_jump c t)"
| "execute_instruction host cp rt (Call t) = mbind (mread (\<lambda>_. runtime_call_target rt t)) (execute_call host)"
| "execute_instruction host cp rt (Return x) = mbind (resolve_register x) (\<lambda>v. return_current_frame v cp)"
| "execute_instruction host cp rt (PushArg x) = continuing (execute_pusharg x)"
| "execute_instruction host cp rt (Compare x y) = continuing (execute_cmp x y)"
| "execute_instruction host cp rt (SpillLoad d slot) = continuing (execute_lds d slot)"
| "execute_instruction host cp rt (SpillStore slot x) = continuing (execute_sts slot x)"

definition handle_function_end :: "usize \<Rightarrow> instruction_outcome vm" where
  "handle_function_end cp =
     mbind (mread current_return_register) (\<lambda>x. mbind (resolve_register x) (\<lambda>v. return_current_frame v cp))"

text \<open>One step: fetch, advance and execute, or return from a function whose end was reached. An opcode
  byte that lowering never writes makes the source panic; it is an error here.\<close>

definition fetch_instruction :: "runtime_function \<Rightarrow> packed option vm" where
  "fetch_instruction rt =
     on_frame (\<lambda>r. case get_instruction rt (ar_instruction_pointer r) of
                     None \<Rightarrow> Inr (None, r)
                   | Some p \<Rightarrow> Inr (Some p, advance_instruction_pointer_after_fetch r))"

definition execute_local_step :: "host \<Rightarrow> usize \<Rightarrow> runtime_function \<Rightarrow> instruction_outcome vm" where
  "execute_local_step host cp rt s =
     (if \<not> cp < length (call_stack s) then (Inl UnexpectedEndOfExecution, s)
      else mbind (fetch_instruction rt) (\<lambda>p.
             case p of
               None \<Rightarrow> handle_function_end cp
             | Some bytes \<Rightarrow>
                 (case decode bytes of
                    None \<Rightarrow> merr (Message ''invalid opcode'')
                  | Some i \<Rightarrow> execute_instruction host cp rt i)) s)"

type_synonym runtime_function_cache = "(usize \<times> runtime_function) option"

definition cache_current :: "runtime_function_cache \<Rightarrow> (runtime_function \<times> runtime_function_cache) vm" where
  "cache_current c =
     mbind (mread current_frame_depth) (\<lambda>d.
       case c of
         Some (cached, rt) \<Rightarrow>
           if cached = d then mret (rt, c)
           else mbind current_runtime_function (\<lambda>rt. mret (rt, Some (d, rt)))
       | None \<Rightarrow> mbind current_runtime_function (\<lambda>rt. mret (rt, Some (d, rt))))"

fun run_loop :: "host \<Rightarrow> nat \<Rightarrow> usize \<Rightarrow> runtime_function_cache \<Rightarrow> vm_state \<Rightarrow> (vm_error + val) option \<times> vm_state" where
  "run_loop host 0 cp c s = (None, s)"
| "run_loop host (Suc n) cp c s =
     (case mbind (cache_current c) (\<lambda>(rt, c'). mbind (execute_local_step host cp rt) (\<lambda>out. mret (out, c'))) s of
        (Inl e, t) \<Rightarrow> (Some (Inl e), t)
      | (Inr (OutcomeReturn v, _), t) \<Rightarrow> (Some (Inr v), t)
      | (Inr (OutcomeContinue, c'), t) \<Rightarrow> run_loop host n cp c' t)"

definition execute_until_return_to_depth :: "host \<Rightarrow> nat \<Rightarrow> usize \<Rightarrow> vm_state \<Rightarrow> (vm_error + val) option \<times> vm_state" where
  "execute_until_return_to_depth host n cp s =
     (case run_loop host n cp None s of
        (Some (Inl e), t) \<Rightarrow> (Some (Inl e), unwind_call_stack_to cp t)
      | res \<Rightarrow> res)"

end
