(* ===== verification/Simulation.thy ===== *)
theory Simulation
  imports Calls
begin

text \<open>
  The relation between a machine that batches reveals and the machine that opens each share
  at once, which is the same code with the batcher disabled. A register of the batching
  machine that waits for a reveal corresponds to the value its queued share opens to; all
  other parts of the state are equal. The operations on registers that the instructions are
  made of carry the relation from the immediate machine to the batching one.
\<close>

section \<open>Queued shares\<close>

definition awaited :: "reveal_batcher \<Rightarrow> usize \<Rightarrow> u32 \<Rightarrow> (share_type \<times> share_data) option" where
  "awaited b d x = hm_get (=) (queued b) \<lparr>frame_depth = d, dest_register = x\<rparr>"

lemma hm_get_filter_keys:
  "hm_get (=) (filter (\<lambda>(k, _). P k) m) k = (if P k then hm_get (=) m k else None)"
  by (induction m) auto

lemma awaited_cancel:
  "batcher_ok b \<Longrightarrow> awaited (cancel_destination \<lparr>frame_depth = d, dest_register = x\<rparr> b) d' x' =
     (if d' = d \<and> x' = x then None else awaited b d' x')"
  by (simp add: awaited_def cancel_destination_spec(2) queued_distinct heq.get_remove)

lemma awaited_queue:
  "batcher_ok b \<Longrightarrow> awaited (queue \<lparr>frame_depth = d, dest_register = x\<rparr> ty q b) d' x' =
     (if d' = d \<and> x' = x then Some (ty, q) else awaited b d' x')"
  by (simp add: awaited_def queue_spec(2) heq.get_insert)

lemma awaited_clear_frame:
  "batcher_ok b \<Longrightarrow> awaited (clear_frame d b) d' x = (if d' = d then None else awaited b d' x)"
  by (simp add: awaited_def clear_frame_spec(2) hm_get_filter_keys)

lemma awaited_clear_above:
  "batcher_ok b \<Longrightarrow> awaited (clear_frames_at_or_above n b) d x = (if d < n then awaited b d x else None)"
  by (simp add: awaited_def clear_frames_at_or_above_spec(2) hm_get_filter_keys)

lemma awaited_no_pending [simp]: "pending b = [] \<Longrightarrow> awaited b d x = None"
  by (simp add: awaited_def queued_def)

lemma has_pending_destination_awaited:
  "batcher_ok b \<Longrightarrow> has_pending_destination b \<lparr>frame_depth = d, dest_register = x\<rparr> \<longleftrightarrow> awaited b d x \<noteq> None"
  by (simp add: has_pending_destination_iff awaited_def)

lemma destination_eta [simp]:
  "\<lparr>frame_depth = frame_depth k, dest_register = dest_register k\<rparr> = (k :: reveal_destination)"
  by (cases k) simp

lemma hm_get_Some_set: "hm_get (=) m k = Some v \<Longrightarrow> (k, v) \<in> set m"
  by (induction m) (auto split: if_splits)

lemma hm_get_set: "(k, v) \<in> set m \<Longrightarrow> hm_get (=) m k \<noteq> None"
  by (induction m) auto

lemma has_pending_frame_awaited:
  assumes "batcher_ok b"
  shows "has_pending_frame b d \<longleftrightarrow> (\<exists>x. awaited b d x \<noteq> None)"
  unfolding has_pending_frame_iff [OF assms] awaited_def
proof
  assume "\<exists>(k, _) \<in> set (queued b). frame_depth k = d"
  then obtain k q where kq: "(k, q) \<in> set (queued b)" "frame_depth k = d" by blast
  then show "\<exists>x. hm_get (=) (queued b) \<lparr>frame_depth = d, dest_register = x\<rparr> \<noteq> None"
    using hm_get_set [OF kq(1)] by (intro exI [of _ "dest_register k"]) (use kq(2) in auto)
next
  assume "\<exists>x. hm_get (=) (queued b) \<lparr>frame_depth = d, dest_register = x\<rparr> \<noteq> None"
  then obtain x q where "hm_get (=) (queued b) \<lparr>frame_depth = d, dest_register = x\<rparr> = Some q" by blast
  from hm_get_Some_set [OF this] show "\<exists>(k, _) \<in> set (queued b). frame_depth k = d" by (rule bexI [rotated]) simp
qed

lemma cancel_absent:
  "batcher_ok b \<Longrightarrow> awaited b d x = None \<Longrightarrow> cancel_destination \<lparr>frame_depth = d, dest_register = x\<rparr> b = b"
  using has_pending_destination_awaited [of b d x]
  by (auto simp: cancel_destination_def has_pending_destination_def split: option.splits)

lemma queued_awaited:
  "batcher_ok b \<Longrightarrow> q \<in> set (pending b) \<Longrightarrow>
   awaited b (frame_depth (destination q)) (dest_register (destination q)) = Some (queued_type q, queued_data q)"
proof -
  assume "batcher_ok b" and q: "q \<in> set (pending b)"
  then have dist: "distinct (map destination (pending b))" by (simp add: batcher_ok_def)
  have "q \<in> set qs \<Longrightarrow> distinct (map destination qs) \<Longrightarrow>
      hm_get (=) (map entry qs) (destination q) = Some (queued_type q, queued_data q)" for qs
    by (induction qs) (auto simp: entry_def rev_image_eqI)
  with q dist show ?thesis by (simp add: awaited_def queued_def)
qed

section \<open>The relation\<close>

definition reveals_to :: "mpc_engine option \<Rightarrow> share_type \<times> share_data \<Rightarrow> val \<Rightarrow> bool" where
  "reveals_to eo q v =
     (\<exists>e c. eo = Some e \<and> engine_open_share e (fst q) (as_bytes (snd q)) = Inr c \<and>
            v = clear_share_value_to_vm_value (fst q) c)"

fun slot_sim :: "mpc_engine option \<Rightarrow> (share_type \<times> share_data) option \<Rightarrow> register_slot \<Rightarrow> register_slot \<Rightarrow> bool" where
  "slot_sim eo None sl sl0 = (\<exists>v. sl = Ready v \<and> sl0 = Ready v)"
| "slot_sim eo (Some q) sl sl0 = (\<exists>v. sl = PendingReveal \<and> sl0 = Ready v \<and> reveals_to eo q v)"

text \<open>Registers \<open>f\<close> of the batching machine and \<open>f0\<close> of the immediate one; \<open>a\<close> gives the share each
  register waits for.\<close>

definition awaits_at :: "(u32 \<Rightarrow> (share_type \<times> share_data) option) \<Rightarrow> nat \<Rightarrow> (share_type \<times> share_data) option" where
  "awaits_at a i = (if i < 2 ^ 32 then a (of_nat i) else None)"

definition registers_sim ::
  "mpc_engine option \<Rightarrow> (u32 \<Rightarrow> (share_type \<times> share_data) option) \<Rightarrow> register_file \<Rightarrow> register_file \<Rightarrow> bool" where
  "registers_sim eo a f f0 =
     (register_file_ok f \<and> register_file_ok f0 \<and> rf_layout f0 = rf_layout f \<and> rf_len f0 = rf_len f \<and>
      (\<forall>i < rf_len f. slot_sim eo (awaits_at a i) (register_slots f ! i) (register_slots f0 ! i)) \<and>
      (\<forall>x. a x \<noteq> None \<longrightarrow> unat x < rf_len f \<and> is_clear (rf_layout f) (unat x)))"

definition frame_sim ::
  "mpc_engine option \<Rightarrow> (u32 \<Rightarrow> (share_type \<times> share_data) option) \<Rightarrow> activation_record \<Rightarrow> activation_record \<Rightarrow> bool" where
  "frame_sim eo a r r0 =
     (r0 = r\<lparr>ar_registers := ar_registers r0\<rparr> \<and> registers_sim eo a (ar_registers r) (ar_registers r0))"

definition batch_opens_each :: "mpc_engine \<Rightarrow> bool" where
  "batch_opens_each e = (\<forall>ty bss. engine_batch_open_shares e ty bss = collect (map (engine_open_share e ty) bss))"

definition immediate :: "reveal_batcher \<Rightarrow> bool" where
  "immediate b = (pending b = [] \<and> batch_index b = None \<and> \<not> enabled b)"

definition sim :: "vm_state \<Rightarrow> vm_state \<Rightarrow> bool" where
  "sim s s0 =
     (s0 = s\<lparr>call_stack := call_stack s0, vm_reveals := vm_reveals s0\<rparr> \<and>
      length (call_stack s0) = length (call_stack s) \<and>
      (\<forall>d < length (call_stack s).
         frame_sim (vm_engine s) (awaited (vm_reveals s) d) (call_stack s ! d) (call_stack s0 ! d) \<and>
         rf_layout (ar_registers (call_stack s ! d)) = vm_register_layout s) \<and>
      batcher_ok (vm_reveals s) \<and>
      (\<forall>d x. awaited (vm_reveals s) d x \<noteq> None \<longrightarrow> d < length (call_stack s)) \<and>
      immediate (vm_reveals s0) \<and>
      (\<forall>e. vm_engine s = Some e \<longrightarrow> batch_opens_each e))"

text \<open>A method that succeeds on the immediate machine succeeds on the batching machine with the same
  result, and the machines stay related.\<close>

definition refines :: "(vm_state, 'e, 'a) meth \<Rightarrow> bool" where
  "refines m = (\<forall>s s0 x t0. sim s s0 \<longrightarrow> m s0 = (Inr x, t0) \<longrightarrow> (\<exists>t. m s = (Inr x, t) \<and> sim t t0))"

lemma refinesI: "(\<And>s s0 x t0. sim s s0 \<Longrightarrow> m s0 = (Inr x, t0) \<Longrightarrow> \<exists>t. m s = (Inr x, t) \<and> sim t t0) \<Longrightarrow> refines m"
  by (simp add: refines_def)

lemma refinesD: "refines m \<Longrightarrow> sim s s0 \<Longrightarrow> m s0 = (Inr x, t0) \<Longrightarrow> \<exists>t. m s = (Inr x, t) \<and> sim t t0"
  by (simp add: refines_def)

named_theorems refines_intro

lemma refines_mret [refines_intro]: "refines (mret x)"
  by (simp add: refines_def mret_def)

lemma refines_merr [refines_intro]: "refines (merr e)"
  by (simp add: refines_def merr_def)

lemma refines_mbind [refines_intro]:
  "refines m \<Longrightarrow> (\<And>x. refines (f x)) \<Longrightarrow> refines (mbind m f)"
  unfolding refines_def mbind_Inr_iff by blast

lemma refines_mread:
  "(\<And>s s0 x. sim s s0 \<Longrightarrow> f s0 = Inr x \<Longrightarrow> f s = Inr x) \<Longrightarrow> refines (mread f)"
  by (auto simp: refines_def mread_def)

lemma refines_mmodify:
  "(\<And>s s0. sim s s0 \<Longrightarrow> sim (g s) (g s0)) \<Longrightarrow> refines (mmodify g)"
  by (auto simp: refines_def mmodify_def)

section \<open>Reading the related states\<close>

lemma rest_equal_iff:
  "s0 = s\<lparr>call_stack := call_stack s0, vm_reveals := vm_reveals s0\<rparr> \<longleftrightarrow>
   vm_program s0 = vm_program s \<and> last_call_target s0 = last_call_target s \<and>
   frame_runtime_functions s0 = frame_runtime_functions s \<and> current_instruction s0 = current_instruction s \<and>
   vm_table_memory s0 = vm_table_memory s \<and> vm_engine s0 = vm_engine s \<and>
   vm_register_layout s0 = vm_register_layout s" for s0 s :: vm_state
  by (cases s; cases s0) auto

lemma sim_simps:
  assumes "sim s s0"
  shows "vm_program s0 = vm_program s" "last_call_target s0 = last_call_target s"
    "frame_runtime_functions s0 = frame_runtime_functions s" "current_instruction s0 = current_instruction s"
    "vm_table_memory s0 = vm_table_memory s" "vm_engine s0 = vm_engine s"
    "vm_register_layout s0 = vm_register_layout s" "length (call_stack s0) = length (call_stack s)"
    "call_stack s0 = [] \<longleftrightarrow> call_stack s = []" "current_frame_depth s0 = current_frame_depth s"
proof -
  have l: "length (call_stack s0) = length (call_stack s)" using assms by (simp add: sim_def)
  show "vm_program s0 = vm_program s" "last_call_target s0 = last_call_target s"
    "frame_runtime_functions s0 = frame_runtime_functions s" "current_instruction s0 = current_instruction s"
    "vm_table_memory s0 = vm_table_memory s" "vm_engine s0 = vm_engine s"
    "vm_register_layout s0 = vm_register_layout s"
    using assms by (simp_all add: sim_def rest_equal_iff)
  show "length (call_stack s0) = length (call_stack s)" by (rule l)
  show "call_stack s0 = [] \<longleftrightarrow> call_stack s = []" using l by force
  show "current_frame_depth s0 = current_frame_depth s" by (simp add: current_frame_depth_def l)
qed

lemma sim_reads:
  assumes "sim s s0"
  shows "share_runtime s0 = share_runtime s" "mpc_ensure_ready s0 = mpc_ensure_ready s"
    "convert_to_share s0 v = convert_to_share s v" "reveal_share_immediate s0 v = reveal_share_immediate s v"
    "vm_extract_share_data s0 v = vm_extract_share_data s v"
    "unwrap_share_value_for_arith s0 v = unwrap_share_value_for_arith s v"
    "prepare_register_write_value_for_layout s0 l i v = prepare_register_write_value_for_layout s l i v"
    "runtime_provider s0 = runtime_provider s" "prepare_register_arguments s0 vs = prepare_register_arguments s vs"
proof -
  note e = sim_simps [OF assms]
  show r: "share_runtime s0 = share_runtime s" "mpc_ensure_ready s0 = mpc_ensure_ready s"
    by (simp_all add: share_runtime_def mpc_ensure_ready_def e)
  show c: "convert_to_share s0 v = convert_to_share s v" "reveal_share_immediate s0 v = reveal_share_immediate s v" for v
    by (simp_all add: convert_to_share_def reveal_share_immediate_def r)
  show x: "vm_extract_share_data s0 v = vm_extract_share_data s v" for v
    by (simp add: vm_extract_share_data_def e)
  show "unwrap_share_value_for_arith s0 v = unwrap_share_value_for_arith s v"
    by (simp add: unwrap_share_value_for_arith_def x e)
  show p: "prepare_register_write_value_for_layout s0 l i v = prepare_register_write_value_for_layout s l i v" for l i v
    by (simp add: prepare_register_write_value_for_layout_def c split: val.split)
  show "runtime_provider s0 = runtime_provider s" by (simp add: runtime_provider_def r)
  show "prepare_register_arguments s0 vs = prepare_register_arguments s vs"
    by (simp add: prepare_register_arguments_def p e)
qed

lemma sim_immediate: "sim s s0 \<Longrightarrow> immediate (vm_reveals s0)"
  by (simp add: sim_def)

lemma sim_batcher_ok: "sim s s0 \<Longrightarrow> batcher_ok (vm_reveals s)"
  by (simp add: sim_def)

lemma sim_awaited: "sim s s0 \<Longrightarrow> awaited (vm_reveals s) d x \<noteq> None \<Longrightarrow> d < length (call_stack s)"
  unfolding sim_def by blast

lemma immediate_simps [simp]:
  "immediate b \<Longrightarrow> \<not> has_pending b" "immediate b \<Longrightarrow> \<not> enabled b" "immediate b \<Longrightarrow> awaited b d x = None"
  "immediate b \<Longrightarrow> cancel_destination k b = b" "immediate b \<Longrightarrow> clear_frame n b = b"
  "immediate b \<Longrightarrow> batcher_ok b" "immediate b \<Longrightarrow> \<not> has_pending_frame b n"
  by (auto simp: immediate_def has_pending_def cancel_destination_def clear_frame_def has_pending_frame_def batcher_ok_def)

lemma sim_frames:
  assumes "sim s s0" "d < length (call_stack s)"
  shows "frame_sim (vm_engine s) (awaited (vm_reveals s) d) (call_stack s ! d) (call_stack s0 ! d)"
    and "rf_layout (ar_registers (call_stack s ! d)) = vm_register_layout s"
  using assms by (simp_all add: sim_def)

text \<open>The current frames.\<close>

abbreviation top :: "vm_state \<Rightarrow> nat" where
  "top s \<equiv> length (call_stack s) - 1"

lemma current_frame_sim:
  assumes "sim s s0" "current_frame s0 = Inr r0"
  obtains r where "current_frame s = Inr r" "frame_sim (vm_engine s) (awaited (vm_reveals s) (top s)) r r0"
    "rf_layout (ar_registers r) = vm_register_layout s" "r = call_stack s ! top s" "top s < length (call_stack s)"
    "current_frame_depth s = Inr (top s)"
proof -
  have ne: "call_stack s0 \<noteq> []" "r0 = last (call_stack s0)"
    using assms(2) by (auto simp: current_frame_def split: if_splits)
  then have ne': "call_stack s \<noteq> []" using sim_simps(9) [OF assms(1)] by simp
  then have t: "top s < length (call_stack s)" by simp
  have "r0 = call_stack s0 ! top s" using ne sim_simps(8) [OF assms(1)] by (simp add: last_conv_nth)
  moreover have "current_frame s = Inr (call_stack s ! top s)" using ne' by (simp add: current_frame_def last_conv_nth)
  moreover have "current_frame_depth s = Inr (top s)"
    using ne' by (simp add: current_frame_depth_def checked_sub_usize_def Suc_leI)
  ultimately show thesis using that sim_frames [OF assms(1) t] t by simp
qed

section \<open>Writing registers\<close>

definition with_slot :: "register_file \<Rightarrow> usize \<Rightarrow> register_slot \<Rightarrow> register_file" where
  "with_slot f i sl = (case set_slot f i sl of Some (_, g) \<Rightarrow> g | None \<Rightarrow> f)"

lemma with_slot:
  assumes "register_file_ok f" "i < rf_len f"
  shows "set_slot f i sl = Some (register_slots f ! i, with_slot f i sl)"
    and "register_file_ok (with_slot f i sl)"
    and "rf_layout (with_slot f i sl) = rf_layout f"
    and "rf_len (with_slot f i sl) = rf_len f"
    and "register_slots (with_slot f i sl) = (register_slots f)[i := sl]"
proof -
  obtain g where g: "set_slot f i sl = Some (register_slots f ! i, g)" "register_file_ok g"
      "rf_layout g = rf_layout f" "register_slots g = (register_slots f)[i := sl]"
    using set_slot_slots [OF assms] by blast
  then have [simp]: "with_slot f i sl = g" by (simp add: with_slot_def)
  show "set_slot f i sl = Some (register_slots f ! i, with_slot f i sl)" "register_file_ok (with_slot f i sl)"
    "rf_layout (with_slot f i sl) = rf_layout f" "register_slots (with_slot f i sl) = (register_slots f)[i := sl]"
    using g by simp_all
  show "rf_len (with_slot f i sl) = rf_len f" using g assms by (simp add: rf_len_slots)
qed

lemma put_frame_simps [simp]:
  "length (call_stack (put_frame r s)) = length (call_stack s)" "call_stack (put_frame r s) = [] \<longleftrightarrow> call_stack s = []"
  "vm_reveals (put_frame r s) = vm_reveals s" "vm_engine (put_frame r s) = vm_engine s"
  "vm_register_layout (put_frame r s) = vm_register_layout s" "vm_table_memory (put_frame r s) = vm_table_memory s"
  "call_stack (put_frame r s) = (call_stack s)[top s := r]"
  "put_frame r (put_frame r' s) = put_frame r s"
  "put_frame r (s\<lparr>vm_reveals := b\<rparr>) = (put_frame r s)\<lparr>vm_reveals := b\<rparr>"
  by (simp_all add: put_frame_def)

lemma current_frame_put [simp]: "call_stack s \<noteq> [] \<Longrightarrow> current_frame (put_frame r s) = Inr r"
  by (simp add: current_frame_def last_conv_nth)

lemma current_frame_reveals [simp]: "current_frame (s\<lparr>vm_reveals := b\<rparr>) = current_frame s"
  by (simp add: current_frame_def)

lemma current_frame_depth_top: "current_frame s = Inr r \<Longrightarrow> current_frame_depth s = Inr (top s) \<and> call_stack s \<noteq> []"
  by (auto simp: current_frame_def current_frame_depth_def checked_sub_usize_def Suc_leI split: if_splits)

lemma put_current_frame: "current_frame s = Inr r \<Longrightarrow> put_frame r s = s"
  by (auto simp: put_frame_def current_frame_def last_conv_nth split: if_splits)

text \<open>Every register write, with its fast path, is one update of the frame that cancels the queued reveal
  of that register.\<close>

definition write_register :: "u32 \<Rightarrow> val \<Rightarrow> activation_record \<Rightarrow> vm_state \<Rightarrow> vm_state" where
  "write_register x w r s =
     put_frame (r\<lparr>ar_registers := with_slot (ar_registers r) (unat x) (Ready w)\<rparr>)
       (s\<lparr>vm_reveals := cancel_destination \<lparr>frame_depth = top s, dest_register = x\<rparr> (vm_reveals s)\<rparr>)"

lemma prepare_write_clear:
  "is_clear l i \<Longrightarrow> prepare_register_write_value_for_layout s l i v = Inr v"
  by (simp add: prepare_register_write_value_for_layout_def)

lemma assign_eq:
  assumes r: "current_frame s = Inr r" and ok: "register_file_ok (ar_registers r)"
  shows "assign_current_register_without_previous x v s =
    (case rbind (ensure_frame_contains_register r x) (\<lambda>_.
       prepare_register_write_value_for_layout s (rf_layout (ar_registers r)) (unat x) v) of
       Inl e \<Rightarrow> (Inl e, s)
     | Inr w \<Rightarrow> (Inr (), write_register x w r s))"
proof (cases "unat x < rf_len (ar_registers r)")
  case False
  then show ?thesis
    by (simp add: assign_current_register_without_previous_def assign_prepared_def prepare_current_register_write_def
        ensure_frame_contains_register_def r mbind_def mread_def)
next
  case True
  note slot = with_slot [OF ok True]
  let ?p = "prepare_register_write_value_for_layout s (rf_layout (ar_registers r)) (unat x) v"
  have prepared: "assign_prepared x v s =
      (case ?p of Inl e \<Rightarrow> (Inl e, s) | Inr w \<Rightarrow> (Inr (), write_register x w r s))"
  proof (cases ?p)
    case (Inr w)
    have "has_pending (vm_reveals s) \<Longrightarrow> current_frame_depth s = Inr (top s)"
      using current_frame_depth_top [OF r] by simp
    then show ?thesis using True Inr slot(1) [of "Ready w"]
      by (auto simp: assign_prepared_def prepare_current_register_write_def ensure_frame_contains_register_def r
          mbind_def mread_def replace_current_register_value_def on_frame_def replace_value_def mret_def
          write_register_def has_pending_def cancel_destination_def)
  qed (use True in \<open>simp add: assign_prepared_def prepare_current_register_write_def ensure_frame_contains_register_def
        r mbind_def mread_def\<close>)
  have quick: "\<not> has_pending (vm_reveals s) \<Longrightarrow> is_clear (rf_layout (ar_registers r)) (unat x) \<Longrightarrow>
      assign_current_register_without_previous x v s = (Inr (), write_register x v r s)"
    using True slot(1) [of "Ready v"]
    by (auto simp: assign_current_register_without_previous_def r ensure_frame_contains_register_def rf_write_ready_def
        mbind_def replace_current_register_value_def on_frame_def replace_value_def mret_def
        write_register_def has_pending_def cancel_destination_def split: option.splits)
  show ?thesis
  proof (cases "\<not> has_pending (vm_reveals s) \<and> is_clear (rf_layout (ar_registers r)) (unat x)")
    case c: True
    then show ?thesis using quick True by (simp add: ensure_frame_contains_register_def prepare_write_clear del: is_clear_iff)
  next
    case False
    then have "assign_current_register_without_previous x v s = assign_prepared x v s"
      using True by (auto simp: assign_current_register_without_previous_def r ensure_frame_contains_register_def)
    then show ?thesis using prepared True by (simp add: ensure_frame_contains_register_def)
  qed
qed

lemma registers_sim_ok:
  assumes "registers_sim eo a f f0"
  shows "register_file_ok f" "register_file_ok f0" "rf_layout f0 = rf_layout f" "rf_len f0 = rf_len f"
  using assms by (simp_all add: registers_sim_def)

lemma of_nat_u32: "of_nat i = (x :: u32) \<and> i < 2 ^ 32 \<longleftrightarrow> i = unat x"
  using unsigned_less [of x] by (auto simp: unat_of_nat take_bit_eq_mod)

lemma awaits_at_upd: "awaits_at (a(x := q)) i = (if i = unat x then q else awaits_at a i)"
  using of_nat_u32 [of i x] by (auto simp: awaits_at_def)

lemma awaits_at_unat [simp]: "awaits_at a (unat x) = a x"
  using of_nat_u32 [of "unat x" x] by (simp add: awaits_at_def)

lemma registers_sim_update:
  assumes sim: "registers_sim eo a f f0" and x: "unat x < rf_len f"
    and slot: "slot_sim eo q sl sl0" and clear: "q \<noteq> None \<longrightarrow> is_clear (rf_layout f) (unat x)"
  shows "registers_sim eo (a(x := q)) (with_slot f (unat x) sl) (with_slot f0 (unat x) sl0)"
proof -
  note ok = registers_sim_ok [OF sim]
  note w = with_slot [OF ok(1) x, of sl] and w0 = with_slot [OF ok(2), of "unat x" sl0]
  have "slot_sim eo (awaits_at (a(x := q)) i) (register_slots (with_slot f (unat x) sl) ! i)
      (register_slots (with_slot f0 (unat x) sl0) ! i)" if "i < rf_len f" for i
    using sim that slot w(5) w0(5) x ok by (auto simp: registers_sim_def awaits_at_upd rf_len_slots [symmetric] nth_list_update)
  then show ?thesis using sim w w0 x ok clear by (auto simp: registers_sim_def split: if_splits)
qed

lemma frame_sim_registers:
  "frame_sim eo a r r0 \<Longrightarrow> registers_sim eo a' f f0 \<Longrightarrow>
   frame_sim eo a' (r\<lparr>ar_registers := f\<rparr>) (r0\<lparr>ar_registers := f0\<rparr>)"
  by (cases r, cases r0) (auto simp: frame_sim_def)

lemma sim_update:
  assumes sim: "sim s s0" and ne: "call_stack s \<noteq> []"
    and b: "batcher_ok b" "\<And>d x. d \<noteq> top s \<Longrightarrow> awaited b d x = awaited (vm_reveals s) d x"
    and r: "frame_sim (vm_engine s) (awaited b (top s)) r r0" "rf_layout (ar_registers r) = vm_register_layout s"
  shows "sim (put_frame r (s\<lparr>vm_reveals := b\<rparr>)) (put_frame r0 s0)"
proof -
  let ?t = "put_frame r (s\<lparr>vm_reveals := b\<rparr>)" and ?u = "put_frame r0 s0"
  have "?u = ?t\<lparr>call_stack := call_stack ?u, vm_reveals := vm_reveals ?u\<rparr>"
    unfolding rest_equal_iff using sim_simps [OF sim] by (simp add: put_frame_def)
  moreover have "frame_sim (vm_engine s) (awaited b d) (call_stack ?t ! d) (call_stack ?u ! d) \<and>
      rf_layout (ar_registers (call_stack ?t ! d)) = vm_register_layout s" if "d < length (call_stack s)" for d
  proof (cases "d = top s")
    case True
    then show ?thesis using r ne sim_simps(8) [OF sim] that by (simp del: put_frame_simps(9))
  next
    case False
    then have "awaited b d = awaited (vm_reveals s) d" using b(2) by blast
    then show ?thesis using False sim_frames [OF sim that] sim_simps(8) [OF sim] by (simp del: put_frame_simps(9))
  qed
  moreover have "awaited b d x \<noteq> None \<Longrightarrow> d < length (call_stack s)" for d x
    using sim_awaited [OF sim, of d x] ne b(2) [of d x] by (cases "d = top s") simp_all
  ultimately show ?thesis using sim b(1) by (simp add: sim_def)
qed

lemma refines_assign [refines_intro]: "refines (assign_current_register_without_previous x v)"
proof (rule refinesI)
  fix s s0 u t0
  assume sim: "sim s s0" and run: "assign_current_register_without_previous x v s0 = (Inr u, t0)"
  obtain r0 where r0: "current_frame s0 = Inr r0"
    using run by (cases "current_frame s0")
      (auto simp: assign_current_register_without_previous_def assign_prepared_def prepare_current_register_write_def
        mbind_def mread_def split: if_splits)
  obtain r where r: "current_frame s = Inr r" "frame_sim (vm_engine s) (awaited (vm_reveals s) (top s)) r r0"
      "rf_layout (ar_registers r) = vm_register_layout s"
    using current_frame_sim [OF sim r0] by blast
  have regs: "registers_sim (vm_engine s) (awaited (vm_reveals s) (top s)) (ar_registers r) (ar_registers r0)"
    using r(2) by (simp add: frame_sim_def)
  note ok = registers_sim_ok [OF regs]
  from run obtain w where w: "unat x < rf_len (ar_registers r0)"
      "prepare_register_write_value_for_layout s0 (rf_layout (ar_registers r0)) (unat x) v = Inr w"
      "t0 = write_register x w r0 s0"
    by (auto simp: assign_eq [OF r0 ok(2)] ensure_frame_contains_register_def split: sum.splits if_splits)
  then have t: "assign_current_register_without_previous x v s = (Inr (), write_register x w r s)"
    using ok by (simp add: assign_eq [OF r(1) ok(1)] ensure_frame_contains_register_def sim_reads [OF sim])
  have w0: "write_register x w r0 s0 = put_frame (r0\<lparr>ar_registers := with_slot (ar_registers r0) (unat x) (Ready w)\<rparr>) s0"
    using sim_immediate [OF sim] by (simp add: write_register_def)
  have "sim (write_register x w r s) (write_register x w r0 s0)"
    unfolding w0 unfolding write_register_def
  proof (rule sim_update [OF sim])
    let ?b = "cancel_destination \<lparr>frame_depth = top s, dest_register = x\<rparr> (vm_reveals s)"
    show "call_stack s \<noteq> []" using current_frame_depth_top [OF r(1)] by simp
    show "batcher_ok ?b" using cancel_destination_spec(1) sim_batcher_ok [OF sim] by blast
    show "awaited ?b d y = awaited (vm_reveals s) d y" if "d \<noteq> top s" for d y
      using that sim_batcher_ok [OF sim] by (simp add: awaited_cancel)
    have "awaited ?b (top s) = (awaited (vm_reveals s) (top s))(x := None)"
      using sim_batcher_ok [OF sim] by (auto simp: awaited_cancel)
    then show "frame_sim (vm_engine s) (awaited ?b (top s))
        (r\<lparr>ar_registers := with_slot (ar_registers r) (unat x) (Ready w)\<rparr>)
        (r0\<lparr>ar_registers := with_slot (ar_registers r0) (unat x) (Ready w)\<rparr>)"
      using registers_sim_update [OF regs, of x None "Ready w" "Ready w"] w(1) ok(4)
      by (intro frame_sim_registers [OF r(2)]) simp
    show "rf_layout (ar_registers (r\<lparr>ar_registers := with_slot (ar_registers r) (unat x) (Ready w)\<rparr>)) = vm_register_layout s"
      using r(3) with_slot(3) [OF ok(1)] w(1) ok(4) by simp
  qed
  then show "\<exists>t. assign_current_register_without_previous x v s = (Inr u, t) \<and> sim t t0"
    using t w(3) by simp
qed

text \<open>A change of the current frame that does not look at the registers.\<close>

lemma sim_frame_update:
  assumes "sim s s0" "current_frame s = Inr r" "frame_sim (vm_engine s) (awaited (vm_reveals s) (top s)) r' r0'"
    "rf_layout (ar_registers r') = vm_register_layout s"
  shows "sim (put_frame r' s) (put_frame r0' s0)"
  using sim_update [OF assms(1) _ sim_batcher_ok [OF assms(1)] _ assms(3,4)] current_frame_depth_top [OF assms(2)]
  by simp

lemma refines_on_frame:
  assumes "\<And>r x r' f. g r = Inr (x, r') \<Longrightarrow>
      g (r\<lparr>ar_registers := f\<rparr>) = Inr (x, r'\<lparr>ar_registers := f\<rparr>) \<and> ar_registers r' = ar_registers r"
  shows "refines (on_frame g)"
proof (rule refinesI)
  fix s s0 x t0
  assume sim: "sim s s0" and run: "on_frame g s0 = (Inr x, t0)"
  then obtain r0 r0' where r0: "current_frame s0 = Inr r0" "g r0 = Inr (x, r0')" "t0 = put_frame r0' s0"
    by (auto simp: on_frame_def split: sum.splits)
  obtain r where r: "current_frame s = Inr r" "frame_sim (vm_engine s) (awaited (vm_reveals s) (top s)) r r0"
      "rf_layout (ar_registers r) = vm_register_layout s"
    using current_frame_sim [OF sim r0(1)] by blast
  let ?r = "r0'\<lparr>ar_registers := ar_registers r\<rparr>"
  have "r0 = r\<lparr>ar_registers := ar_registers r0\<rparr>" using r(2) by (simp add: frame_sim_def)
  then have e: "r = r0\<lparr>ar_registers := ar_registers r\<rparr>" by (cases r; cases r0) auto
  have g: "g r = Inr (x, ?r)" using assms [OF r0(2)] by (subst e) simp
  have "frame_sim (vm_engine s) (awaited (vm_reveals s) (top s)) ?r r0'"
    using r(2) assms [OF r0(2)] by (auto simp: frame_sim_def)
  then have "sim (put_frame ?r s) (put_frame r0' s0)" using sim_frame_update [OF sim r(1)] r(3) by simp
  then show "\<exists>t. on_frame g s = (Inr x, t) \<and> sim t t0" using g r(1) r0(3) by (simp add: on_frame_def)
qed

section \<open>Flushing\<close>

lemma slot_sim_value:
  assumes "registers_sim eo a f f0" "i < rf_len f" "register_slots f0 ! i = Ready v"
  shows "awaits_at a i = None \<Longrightarrow> register_slots f ! i = Ready v"
  using assms by (auto simp: registers_sim_def)

lemma assign_all_clear:
  assumes "current_frame s = Inr r" "register_file_ok (ar_registers r)" "batcher_ok (vm_reveals s)"
    and "\<forall>(x, v) \<in> set xvs. unat x < rf_len (ar_registers r) \<and> is_clear (rf_layout (ar_registers r)) (unat x) \<and>
           awaited (vm_reveals s) (top s) x = None"
  shows "assign_all xvs s =
    (Inr (), put_frame (r\<lparr>ar_registers := foldl (\<lambda>f (x, v). with_slot f (unat x) (Ready v)) (ar_registers r) xvs\<rparr>) s)"
  using assms
proof (induction xvs arbitrary: s r)
  case Nil
  then show ?case by (simp add: mret_def put_current_frame)
next
  case (Cons xv xvs)
  obtain x v where xv: "xv = (x, v)" by (cases xv)
  let ?r = "r\<lparr>ar_registers := with_slot (ar_registers r) (unat x) (Ready v)\<rparr>"
  have x: "unat x < rf_len (ar_registers r)" "is_clear (rf_layout (ar_registers r)) (unat x)"
      "awaited (vm_reveals s) (top s) x = None" using Cons.prems(4) xv by auto
  note w = with_slot [OF Cons.prems(2) x(1), of "Ready v"]
  have ne: "call_stack s \<noteq> []" using current_frame_depth_top [OF Cons.prems(1)] by simp
  have step: "assign_current_register_without_previous x v s = (Inr (), put_frame ?r s)"
    using x cancel_absent [OF Cons.prems(3) x(3)]
    by (simp add: assign_eq [OF Cons.prems(1,2)] ensure_frame_contains_register_def prepare_write_clear write_register_def
        del: is_clear_iff)
  have "assign_all xvs (put_frame ?r s) =
      (Inr (), put_frame (?r\<lparr>ar_registers := foldl (\<lambda>f (x, v). with_slot f (unat x) (Ready v)) (ar_registers ?r) xvs\<rparr>)
         (put_frame ?r s))"
    by (rule Cons.IH) (use Cons.prems(3,4) w ne xv in auto)
  then show ?case by (simp add: xv mbind_def step)
qed

lemma foldl_with_slot:
  fixes xvs :: "(u32 \<times> val) list"
  assumes "register_file_ok f" "\<forall>(x, v) \<in> set xvs. unat x < rf_len f" "distinct (map fst xvs)"
  defines "g \<equiv> foldl (\<lambda>f (x, v). with_slot f (unat x) (Ready v)) f xvs"
  shows "register_file_ok g \<and> rf_layout g = rf_layout f \<and> rf_len g = rf_len f \<and>
    (\<forall>i < rf_len f. register_slots g ! i =
       (case map_of xvs (of_nat i) of Some v \<Rightarrow> if i < 2 ^ 32 then Ready v else register_slots f ! i
        | None \<Rightarrow> register_slots f ! i))"
  using assms(1-3) unfolding g_def
proof (induction xvs arbitrary: f)
  case (Cons xv xvs)
  obtain x v where xv: "xv = (x, v)" by (cases xv)
  have x: "unat x < rf_len f" using Cons.prems(2) xv by auto
  note w = with_slot [OF Cons.prems(1) x, of "Ready v"]
  let ?g = "foldl (\<lambda>f (x, v). with_slot f (unat x) (Ready v)) (with_slot f (unat x) (Ready v)) xvs"
  have ih: "register_file_ok ?g \<and> rf_layout ?g = rf_layout f \<and> rf_len ?g = rf_len f \<and>
      (\<forall>i < rf_len f. register_slots ?g ! i =
         (case map_of xvs (of_nat i) of Some u \<Rightarrow> if i < 2 ^ 32 then Ready u else (register_slots f)[unat x := Ready v] ! i
          | None \<Rightarrow> (register_slots f)[unat x := Ready v] ! i))"
    using Cons.IH [of "with_slot f (unat x) (Ready v)"] Cons.prems w(2-4) xv unfolding w(5) [symmetric] by simp
  have fresh: "map_of xvs x = None" using Cons.prems(3) xv by (simp add: map_of_eq_None_iff)
  have "(register_slots f)[unat x := Ready v] ! i =
      (if of_nat i = x \<and> i < 2 ^ 32 then Ready v else register_slots f ! i)" if "i < rf_len f" for i
  proof -
    have "of_nat i = x \<and> i < 2 ^ 32 \<longleftrightarrow> i = unat x" by (rule of_nat_u32)
    then show ?thesis using that Cons.prems(1) by (auto simp: rf_len_slots nth_list_update)
  qed
  then show ?case using ih fresh xv by (auto split: option.splits)
qed simp

definition frame_entries :: "reveal_batcher \<Rightarrow> usize \<Rightarrow> queued_reveal list" where
  "frame_entries b d = filter (\<lambda>q. frame_depth (destination q) = d) (pending b)"

definition entry_register :: "queued_reveal \<Rightarrow> u32" where
  "entry_register q = dest_register (destination q)"

lemma awaited_members: "awaited b d x \<noteq> None \<longleftrightarrow> x \<in> entry_register ` set (frame_entries b d)"
  unfolding awaited_def queued_def hm_get_entry
  by (auto simp: frame_entries_def entry_register_def image_iff) (metis reveal_destination.select_convs)

lemma entry_registers_distinct:
  assumes "batcher_ok b"
  shows "distinct (map entry_register (frame_entries b d))"
proof -
  have "inj_on destination (set (pending b))" "distinct (pending b)"
    using assms by (auto simp: batcher_ok_def distinct_map)
  moreover have "inj_on entry_register (set (frame_entries b d))"
    using \<open>inj_on destination (set (pending b))\<close>
    by (auto simp: inj_on_def frame_entries_def entry_register_def intro: reveal_destination.equality)
  ultimately show ?thesis by (simp add: distinct_map frame_entries_def)
qed

definition slot_value :: "register_file \<Rightarrow> u32 \<Rightarrow> val" where
  "slot_value f x = (case register_slots f ! unat x of Ready v \<Rightarrow> v | PendingReveal \<Rightarrow> Unit)"

text \<open>What a flush needs of the registers: whatever a register that awaits a share holds, the immediate machine
  has the opened value there.\<close>

definition registers_cover ::
  "mpc_engine option \<Rightarrow> (u32 \<Rightarrow> (share_type \<times> share_data) option) \<Rightarrow> register_file \<Rightarrow> register_file \<Rightarrow> bool" where
  "registers_cover eo a f f0 =
     (register_file_ok f \<and> register_file_ok f0 \<and> rf_layout f0 = rf_layout f \<and> rf_len f0 = rf_len f \<and>
      (\<forall>i < rf_len f. awaits_at a i = None \<longrightarrow> slot_sim eo None (register_slots f ! i) (register_slots f0 ! i)) \<and>
      (\<forall>x q. a x = Some q \<longrightarrow> unat x < rf_len f \<and> is_clear (rf_layout f) (unat x) \<and>
         register_slots f0 ! unat x = Ready (slot_value f0 x) \<and> reveals_to eo q (slot_value f0 x)))"

lemma registers_sim_cover:
  assumes "registers_sim eo a f f0"
  shows "registers_cover eo a f f0"
proof -
  have "register_slots f0 ! unat x = Ready (slot_value f0 x) \<and> reveals_to eo q (slot_value f0 x)" if "a x = Some q" for x q
  proof -
    have "unat x < rf_len f" using assms that by (auto simp: registers_sim_def)
    then have "slot_sim eo (awaits_at a (unat x)) (register_slots f ! unat x) (register_slots f0 ! unat x)"
      using assms unfolding registers_sim_def by blast
    then show ?thesis using that by (auto simp: slot_value_def)
  qed
  moreover have "awaits_at a i = None \<longrightarrow> slot_sim eo None (register_slots f ! i) (register_slots f0 ! i)" if "i < rf_len f" for i
    using assms that unfolding registers_sim_def by metis
  ultimately show ?thesis using assms by (simp add: registers_sim_def registers_cover_def)
qed

lemma registers_cover_awaited:
  assumes "registers_cover eo a f f0" "a x = Some q"
  shows "register_slots f0 ! unat x = Ready (slot_value f0 x)" "reveals_to eo q (slot_value f0 x)"
    "unat x < rf_len f" "is_clear (rf_layout f) (unat x)"
  using assms unfolding registers_cover_def by blast+

lemma registers_cover_flushed:
  assumes sim: "registers_cover eo (awaited b d) f f0" and ok: "batcher_ok b"
  defines "g \<equiv> foldl (\<lambda>f (x, v). with_slot f (unat x) (Ready v)) f
      (map (\<lambda>q. (entry_register q, slot_value f0 (entry_register q))) (frame_entries b d))"
  shows "registers_sim eo (\<lambda>_. None) g f0 \<and> rf_layout g = rf_layout f"
proof -
  let ?xvs = "map (\<lambda>q. (entry_register q, slot_value f0 (entry_register q))) (frame_entries b d)"
  have rok: "register_file_ok f" "register_file_ok f0" "rf_layout f0 = rf_layout f" "rf_len f0 = rf_len f"
    using sim by (simp_all add: registers_cover_def)
  have mem: "x \<in> entry_register ` set (frame_entries b d) \<longleftrightarrow> awaited b d x \<noteq> None" for x
    using awaited_members by blast
  have len: "unat x < rf_len f" if "x \<in> entry_register ` set (frame_entries b d)" for x
    using that registers_cover_awaited(3) [OF sim, of x] mem [of x] by blast
  have xvs: "?xvs = map (\<lambda>x. (x, slot_value f0 x)) (map entry_register (frame_entries b d))" by simp
  have mo: "map_of ?xvs x = (if awaited b d x = None then None else Some (slot_value f0 x))" for x
    unfolding xvs map_of_map_restrict using mem [of x] by (simp add: restrict_map_def)
  have g: "register_file_ok g \<and> rf_layout g = rf_layout f \<and> rf_len g = rf_len f \<and>
    (\<forall>i < rf_len f. register_slots g ! i =
       (case map_of ?xvs (of_nat i) of Some v \<Rightarrow> if i < 2 ^ 32 then Ready v else register_slots f ! i
        | None \<Rightarrow> register_slots f ! i))"
    unfolding g_def
  proof (rule foldl_with_slot [OF rok(1)])
    show "\<forall>(x, v) \<in> set ?xvs. unat x < rf_len f"
      using len by auto
    show "distinct (map fst ?xvs)" using entry_registers_distinct [OF ok] by (simp add: comp_def)
  qed
  have "slot_sim eo None (register_slots g ! i) (register_slots f0 ! i)" if i: "i < rf_len f" for i
  proof (cases "awaits_at (awaited b d) i")
    case None
    have "slot_sim eo None (register_slots f ! i) (register_slots f0 ! i)"
      using sim i None unfolding registers_cover_def by blast
    moreover have "register_slots g ! i = register_slots f ! i"
      using g i None by (auto simp: awaits_at_def mo split: if_splits)
    ultimately show ?thesis by simp
  next
    case (Some q)
    then have x: "i < 2 ^ 32" "awaited b d (of_nat i) = Some q" by (auto simp: awaits_at_def split: if_splits)
    have "i = unat (of_nat i :: u32)" using x(1) of_nat_u32 [of i "of_nat i"] by simp
    then show ?thesis using registers_cover_awaited(1) [OF sim x(2)] g i x by (simp add: mo)
  qed
  then show ?thesis using g rok by (simp add: registers_sim_def awaits_at_def)
qed

lemma flush_pending_reveals_eq:
  assumes r: "current_frame s = Inr r"
    and regs: "registers_cover (vm_engine s) (awaited (vm_reveals s) (top s)) (ar_registers r) f0"
    and ok: "batcher_ok (vm_reveals s)" and law: "\<And>e. vm_engine s = Some e \<Longrightarrow> batch_opens_each e"
  shows "\<exists>g. flush_pending_reveals s =
      (Inr (), put_frame (r\<lparr>ar_registers := g\<rparr>) (s\<lparr>vm_reveals := clear_frame (top s) (vm_reveals s)\<rparr>)) \<and>
    registers_sim (vm_engine s) (\<lambda>_. None) g f0 \<and> rf_layout g = rf_layout (ar_registers r)"
proof -
  let ?b = "vm_reveals s" and ?d = "top s" and ?eo = "vm_engine s" and ?es = "frame_entries (vm_reveals s) (top s)"
  have d: "current_frame_depth s = Inr ?d" using current_frame_depth_top [OF r] by simp
  let ?s = "s\<lparr>vm_reveals := clear_frame ?d ?b\<rparr>"
  let ?V = "\<lambda>q. slot_value f0 (entry_register q)"
  let ?xvs = "map (\<lambda>q. (entry_register q, ?V q)) ?es"
  let ?g = "foldl (\<lambda>f (x, v). with_slot f (unat x) (Ready v)) (ar_registers r) ?xvs"
  have "flush_pending_reveals s = (Inr (), put_frame (r\<lparr>ar_registers := ?g\<rparr>) ?s)"
  proof (cases "has_pending_frame ?b ?d")
    case False
    then have none: "awaited ?b ?d x = None" for x using has_pending_frame_awaited [OF ok, of ?d] by blast
    have "x \<notin> entry_register ` set ?es" for x using awaited_members [of ?b ?d x] none [of x] by argo
    then have "?es = []" by fastforce
    moreover have "flush_pending_reveals s = (Inr (), s)"
      using False by (simp add: flush_pending_reveals_def mbind_def mread_def d)
    moreover have "clear_frame ?d ?b = ?b" using False by (simp add: clear_frame_def)
    ultimately show ?thesis using put_current_frame [OF r] by simp
  next
    case True
    then obtain y p where y: "awaited ?b ?d y = Some p" using has_pending_frame_awaited [OF ok] by blast
    obtain e where e: "?eo = Some e" using registers_cover_awaited(2) [OF regs y] by (auto simp: reveals_to_def)
    have batch: "engine_batch_open_shares e ty bss = collect (map (engine_open_share e ty) bss)" for ty bss
      using law [OF e] by (simp add: batch_opens_each_def)
    have entry: "awaited ?b ?d (entry_register q) = Some (queued_type q, queued_data q)" if "q \<in> set ?es" for q
      using queued_awaited [OF ok, of q] that by (auto simp: frame_entries_def entry_register_def)
    have opens: "opens_to e q (?V q)" if "q \<in> set (pending ?b)" "frame_depth (destination q) = ?d" for q
    proof -
      have "q \<in> set ?es" using that by (simp add: frame_entries_def)
      from registers_cover_awaited(2) [OF regs entry [OF this]] show ?thesis
        by (auto simp: reveals_to_def opens_to_def e)
    qed
    have fl: "flush_reveals ?d s =
        (Inr (map (\<lambda>q. \<lparr>revealed_destination = destination q, revealed_value = ?V q\<rparr>) ?es), ?s)"
      using flush_spec [OF batch opens ok] True by (simp add: flush_reveals_def e frame_entries_def)
    have "map_ok (Pair (entry_register q)) (prepare_register_write_value ?s (entry_register q) (?V q)) =
        Inr (entry_register q, ?V q)" if "q \<in> set ?es" for q
      using registers_cover_awaited(4) [OF regs entry [OF that]] r
      by (simp add: prepare_register_write_value_def current_register_layout_def prepare_write_clear del: is_clear_iff)
    then have prep: "collect (map (\<lambda>q. map_ok (Pair (entry_register q))
        (prepare_register_write_value ?s (entry_register q) (?V q))) ?es) = Inr ?xvs"
      by (intro collect_map_cong)
    have "assign_all ?xvs ?s = (Inr (), put_frame (r\<lparr>ar_registers := ?g\<rparr>) ?s)"
    proof (rule assign_all_clear)
      show "current_frame ?s = Inr r" using r by simp
      show "register_file_ok (ar_registers r)" using regs by (simp add: registers_cover_def)
      show "batcher_ok (vm_reveals ?s)" using clear_frame_spec(1) [OF ok] by simp
      show "\<forall>(x, v) \<in> set ?xvs. unat x < rf_len (ar_registers r) \<and> is_clear (rf_layout (ar_registers r)) (unat x) \<and>
          awaited (vm_reveals ?s) (top ?s) x = None"
        using registers_cover_awaited(3,4) [OF regs entry] ok by (auto simp: awaited_clear_frame)
    qed
    then show ?thesis using True d fl prep
      by (simp add: flush_pending_reveals_def mbind_def mread_def comp_def entry_register_def Let_def)
  qed
  then show ?thesis using registers_cover_flushed [OF regs ok] by blast
qed

text \<open>A flush that starts from the registers before the newest placeholder is written, or from related
  machines, leads to related machines.\<close>

lemma flush_cover_sim:
  assumes sim: "sim (put_frame r' s) s0" and r: "current_frame s = Inr r"
    and r0: "current_frame s0 = Inr r0" and rest: "r' = r\<lparr>ar_registers := ar_registers r'\<rparr>"
    and lay: "rf_layout (ar_registers r) = vm_register_layout s"
    and regs: "registers_cover (vm_engine s) (awaited (vm_reveals s) (top s)) (ar_registers r) (ar_registers r0)"
  shows "\<exists>t. flush_pending_reveals s = (Inr (), t) \<and> sim t s0 \<and> (\<forall>x. awaited (vm_reveals t) (top t) x = None)"
proof -
  let ?b = "vm_reveals s" and ?d = "top s"
  have ok: "batcher_ok ?b" using sim_batcher_ok [OF sim] by simp
  have ne: "call_stack s \<noteq> []" using current_frame_depth_top [OF r] by simp
  have law: "vm_engine s = Some e \<Longrightarrow> batch_opens_each e" for e using sim by (simp add: sim_def)
  obtain g where g: "flush_pending_reveals s =
      (Inr (), put_frame (r\<lparr>ar_registers := g\<rparr>) (s\<lparr>vm_reveals := clear_frame ?d ?b\<rparr>))"
      "registers_sim (vm_engine s) (\<lambda>_. None) g (ar_registers r0)" "rf_layout g = rf_layout (ar_registers r)"
    using flush_pending_reveals_eq [OF r regs ok law] by blast
  let ?t = "put_frame (r\<lparr>ar_registers := g\<rparr>) (s\<lparr>vm_reveals := clear_frame ?d ?b\<rparr>)"
  have none: "awaited (clear_frame ?d ?b) ?d = (\<lambda>_. None)" using ok by (auto simp: awaited_clear_frame)
  have "frame_sim (vm_engine s) (awaited ?b ?d) r' r0"
    using current_frame_sim [OF sim r0] ne by (metis current_frame_put put_frame_simps(1,3,4) sum.inject(2))
  then have f: "frame_sim (vm_engine s) (\<lambda>_. None) (r'\<lparr>ar_registers := g\<rparr>) (r0\<lparr>ar_registers := ar_registers r0\<rparr>)"
    using frame_sim_registers g(2) by blast
  have "r'\<lparr>ar_registers := g\<rparr> = r\<lparr>ar_registers := g\<rparr>" by (subst rest) simp
  then have "sim (put_frame (r\<lparr>ar_registers := g\<rparr>) ((put_frame r' s)\<lparr>vm_reveals := clear_frame ?d ?b\<rparr>)) (put_frame r0 s0)"
    by (intro sim_update [OF sim]) (use f ne none ok g(3) lay clear_frame_spec(1) [OF ok] in \<open>auto simp: awaited_clear_frame\<close>)
  then have "sim ?t s0" using put_current_frame [OF r0] by simp
  then show ?thesis using g(1) none by auto
qed

lemma flush_sim:
  assumes sim: "sim s s0" and r0: "current_frame s0 = Inr r0"
  shows "\<exists>t. flush_pending_reveals s = (Inr (), t) \<and> sim t s0 \<and> (\<forall>x. awaited (vm_reveals t) (top t) x = None)"
proof -
  obtain r where r: "current_frame s = Inr r" "frame_sim (vm_engine s) (awaited (vm_reveals s) (top s)) r r0"
      "rf_layout (ar_registers r) = vm_register_layout s"
    using current_frame_sim [OF sim r0] by blast
  show ?thesis
    using flush_cover_sim [of r s s0 r r0] sim r r0 put_current_frame [OF r(1)]
      registers_sim_cover [of "vm_engine s" "awaited (vm_reveals s) (top s)" "ar_registers r" "ar_registers r0"]
    by (simp add: frame_sim_def)
qed

section \<open>Reading and revealing registers\<close>

lemma ensure_all_iff: "ensure_all r xs = Inr () \<longleftrightarrow> (\<forall>x \<in> set xs. unat x < rf_len (ar_registers r))"
  by (induction xs) (auto simp: ensure_frame_contains_register_def)

lemma needs_flush_eq:
  "\<forall>x \<in> set xs. unat x < rf_len (ar_registers r) \<Longrightarrow>
   needs_flush b d r acc xs = Inr (acc \<or> (\<exists>x \<in> set xs. has_pending_destination b \<lparr>frame_depth = d, dest_register = x\<rparr>))"
  by (induction xs arbitrary: acc) (auto simp: ensure_frame_contains_register_def)

lemma ensure_resolved_calm:
  assumes "\<not> has_pending (vm_reveals s)" "current_frame s = Inr r"
  shows "ensure_registers_resolved xs s = (ensure_all r xs, s)"
  using assms by (simp add: ensure_registers_resolved_def)

lemma ensure_resolved_sim:
  assumes sim: "sim s s0" and r0: "current_frame s0 = Inr r0" and xs: "\<forall>x \<in> set xs. unat x < rf_len (ar_registers r0)"
  shows "\<exists>t. ensure_registers_resolved xs s = (Inr (), t) \<and> sim t s0 \<and>
    (\<forall>x \<in> set xs. awaited (vm_reveals t) (top t) x = None)"
proof -
  obtain r where r: "current_frame s = Inr r" "frame_sim (vm_engine s) (awaited (vm_reveals s) (top s)) r r0"
      "current_frame_depth s = Inr (top s)"
    using current_frame_sim [OF sim r0] by blast
  have len: "\<forall>x \<in> set xs. unat x < rf_len (ar_registers r)"
    using xs r(2) by (simp add: frame_sim_def registers_sim_def)
  note ok = sim_batcher_ok [OF sim]
  show ?thesis
  proof (cases "has_pending (vm_reveals s)")
    case False
    then have "pending (vm_reveals s) = []" by (simp add: has_pending_def)
    then show ?thesis
      using ensure_resolved_calm [OF False r(1)] ensure_all_iff [of r xs] len sim by auto
  next
    case True
    let ?w = "\<exists>x \<in> set xs. has_pending_destination (vm_reveals s) \<lparr>frame_depth = top s, dest_register = x\<rparr>"
    have e: "ensure_registers_resolved xs s = (if ?w then flush_pending_reveals s else (Inr (), s))"
      using True r(1,3) needs_flush_eq [OF len] by (simp add: ensure_registers_resolved_def)
    show ?thesis
    proof (cases ?w)
      case True
      then show ?thesis using e flush_sim [OF sim r0] by auto
    next
      case False
      then have "\<forall>x \<in> set xs. awaited (vm_reveals s) (top s) x = None"
        using has_pending_destination_awaited [OF ok] by blast
      then show ?thesis using False e sim by auto
    qed
  qed
qed

lemma rf_get_iff: "register_file_ok f \<Longrightarrow> rf_get f i = Some v \<longleftrightarrow> i < rf_len f \<and> register_slots f ! i = Ready v"
  by (auto simp: rf_get_slots vec_get_def rf_len_slots bind_eq_Some_conv elim: as_value.elims)

lemma resolved_value_sim:
  assumes "sim t s0" "current_frame s0 = Inr r0" "awaited (vm_reveals t) (top t) x = None"
    "resolved_register_value_ref r0 x = Inr v"
  shows "rbind (current_frame t) (\<lambda>r. resolved_register_value_ref r x) = Inr v"
proof -
  obtain r where r: "current_frame t = Inr r" "frame_sim (vm_engine t) (awaited (vm_reveals t) (top t)) r r0"
    using current_frame_sim [OF assms(1,2)] by blast
  then have regs: "registers_sim (vm_engine t) (awaited (vm_reveals t) (top t)) (ar_registers r) (ar_registers r0)"
    by (simp add: frame_sim_def)
  note ok = registers_sim_ok [OF regs]
  have x: "unat x < rf_len (ar_registers r)" "register_slots (ar_registers r0) ! unat x = Ready v"
    using assms(4) ok by (auto simp: resolved_register_value_ref_def rf_get_iff)
  then have "register_slots (ar_registers r) ! unat x = Ready v"
    using slot_sim_value [OF regs x] assms(3) by simp
  then show ?thesis using r(1) x(1) ok(1) by (simp add: resolved_register_value_ref_def rf_get_iff)
qed

lemma immediate_current:
  assumes "ensure_registers_resolved xs s0 = (Inr (), t)" "\<not> has_pending (vm_reveals s0)"
  obtains r0 where "current_frame s0 = Inr r0" "t = s0" "\<forall>x \<in> set xs. unat x < rf_len (ar_registers r0)"
  using assms ensure_all_iff by (auto simp: ensure_registers_resolved_def split: sum.splits)

lemma refines_resolve_register [refines_intro]: "refines (resolve_register x)"
proof (rule refinesI)
  fix s s0 v t0
  assume sim: "sim s s0" and run: "resolve_register x s0 = (Inr v, t0)"
  then obtain t1 where t1: "ensure_registers_resolved [x] s0 = (Inr (), t1)"
      "rbind (current_frame t1) (\<lambda>r. resolved_register_value_ref r x) = Inr v" "t0 = t1"
    by (auto simp: resolve_register_def mbind_Inr_iff mread_def)
  obtain r0 where r0: "current_frame s0 = Inr r0" "t1 = s0" "\<forall>x \<in> set [x]. unat x < rf_len (ar_registers r0)"
    using immediate_current [OF t1(1)] sim_immediate [OF sim] by auto
  obtain t where t: "ensure_registers_resolved [x] s = (Inr (), t)" "sim t s0" "awaited (vm_reveals t) (top t) x = None"
    using ensure_resolved_sim [OF sim r0(1,3)] by auto
  then have "rbind (current_frame t) (\<lambda>r. resolved_register_value_ref r x) = Inr v"
    using resolved_value_sim [OF t(2) r0(1) t(3)] t1(2) r0 by simp
  then show "\<exists>t. resolve_register x s = (Inr v, t) \<and> sim t t0"
    using t(1,2) t1(3) r0(2) by (auto simp: resolve_register_def mbind_Inr_iff mread_def)
qed

lemma refines_resolve_register_pair [refines_intro]: "refines (resolve_register_pair x y)"
proof (rule refinesI)
  fix s s0 vw t0
  assume sim: "sim s s0" and run: "resolve_register_pair x y s0 = (Inr vw, t0)"
  obtain v w where vw: "vw = (v, w)" by (cases vw)
  obtain t1 where t1: "ensure_registers_resolved [x, y] s0 = (Inr (), t1)"
      "rbind (current_frame t1) (\<lambda>r. resolved_register_value_ref r x) = Inr v"
      "rbind (current_frame t1) (\<lambda>r. resolved_register_value_ref r y) = Inr w" "t0 = t1"
    using run vw by (auto simp: resolve_register_pair_def mbind_Inr_iff mread_def rbind_Inr_iff map_ok_Inr_iff)
  obtain r0 where r0: "current_frame s0 = Inr r0" "t1 = s0" "\<forall>x \<in> set [x, y]. unat x < rf_len (ar_registers r0)"
    using immediate_current [OF t1(1)] sim_immediate [OF sim] by auto
  obtain t where t: "ensure_registers_resolved [x, y] s = (Inr (), t)" "sim t s0"
      "awaited (vm_reveals t) (top t) x = None" "awaited (vm_reveals t) (top t) y = None"
    using ensure_resolved_sim [OF sim r0(1,3)] by auto
  have "rbind (current_frame t) (\<lambda>r. resolved_register_value_ref r x) = Inr v"
    "rbind (current_frame t) (\<lambda>r. resolved_register_value_ref r y) = Inr w"
    using resolved_value_sim [OF t(2) r0(1) t(3)] resolved_value_sim [OF t(2) r0(1) t(4)] t1(2,3) r0 by simp_all
  then show "\<exists>t. resolve_register_pair x y s = (Inr vw, t) \<and> sim t t0"
    using t(1,2) t1(4) r0(2) vw
    by (auto simp: resolve_register_pair_def mbind_Inr_iff mread_def rbind_Inr_iff)
qed

text \<open>Queueing a reveal corresponds to opening the share at once: the placeholder stands for the opened value,
  also when the queue is full and is flushed before the placeholder is written.\<close>

lemma reveals_to_open:
  assumes "reveal_share_immediate s v = Inr w"
  obtains ty q e where "v = Share ty q" "vm_engine s = Some e" "is_ready e" "reveals_to (vm_engine s) (ty, q) w"
proof -
  obtain e where e: "vm_engine s = Some e" "open_share_value e v = Inr w"
    using assms by (auto simp: reveal_share_immediate_def share_runtime_def from_configured_def rbind_Inr_iff)
  then obtain ty q where v: "v = Share ty q" by (auto simp: open_share_value_def split: val.splits)
  obtain c where c: "is_ready e" "engine_open_share e ty (as_bytes q) = Inr c" "w = clear_share_value_to_vm_value ty c"
    using e(2) v by (auto simp: open_share_value_def open_share_data_def map_ok_Inr_iff rbind_Inr_iff ensure_ready_def
        map_mpc_backend_err_def split: if_splits)
  then show thesis using that [OF v e(1)] e(1) by (auto simp: reveals_to_def)
qed

lemma queue_reveal_sim:
  assumes sim: "sim s s0" and r: "current_frame s = Inr r" and r0: "current_frame s0 = Inr r0"
    and clear: "is_clear (vm_register_layout s) (unat x)" and x: "unat x < rf_len (ar_registers r)"
    and opens: "reveals_to (vm_engine s) (ty, q) w" and e: "vm_engine s = Some e" "is_ready e" and en: "enabled (vm_reveals s)"
  shows "\<exists>t. queue_reveal_to_register (Share ty q) x s = (Inr (), t) \<and> sim t (write_register x w r0 s0)"
proof -
  let ?b = "queue \<lparr>frame_depth = top s, dest_register = x\<rparr> ty q (vm_reveals s)"
  let ?s = "s\<lparr>vm_reveals := ?b\<rparr>" and ?a = "(awaited (vm_reveals s) (top s))(x := Some (ty, q))"
  let ?r = "r\<lparr>ar_registers := with_slot (ar_registers r) (unat x) PendingReveal\<rparr>"
  let ?q = "r0\<lparr>ar_registers := with_slot (ar_registers r0) (unat x) (Ready w)\<rparr>"
  obtain r' where r': "r = r'" "frame_sim (vm_engine s) (awaited (vm_reveals s) (top s)) r' r0"
      "rf_layout (ar_registers r') = vm_register_layout s" "current_frame_depth s = Inr (top s)"
    using current_frame_sim [OF sim r0] r by auto
  note fs = r'(2) [folded r'(1)] and lay = r'(3) [folded r'(1)] and ok = sim_batcher_ok [OF sim]
  have ne: "call_stack s \<noteq> []" using current_frame_depth_top [OF r] by simp
  have regs: "registers_sim (vm_engine s) (awaited (vm_reveals s) (top s)) (ar_registers r) (ar_registers r0)"
    using fs by (simp add: frame_sim_def)
  note rok = registers_sim_ok [OF regs] and slot = with_slot [OF registers_sim_ok(1) [OF regs] x, of PendingReveal]
  have a: "awaited ?b (top s) = ?a" using ok by (auto simp: awaited_queue)
  have regs': "registers_sim (vm_engine s) ?a (ar_registers ?r) (ar_registers ?q)"
    using registers_sim_update [OF regs x, of "Some (ty, q)" PendingReveal "Ready w"] opens clear lay by simp
  have w0: "write_register x w r0 s0 = put_frame ?q s0"
    using sim_immediate [OF sim] by (simp add: write_register_def)
  have sim2: "sim (put_frame ?r ?s) (put_frame ?q s0)"
  proof (rule sim_update [OF sim ne queue_spec(1) [OF ok]])
    show "awaited ?b d y = awaited (vm_reveals s) d y" if "d \<noteq> top s" for d y using that ok by (simp add: awaited_queue)
    show "frame_sim (vm_engine s) (awaited ?b (top s)) ?r ?q"
      using frame_sim_registers [OF fs regs'] a by simp
    show "rf_layout (ar_registers ?r) = vm_register_layout s" using slot(3) lay by simp
  qed
  have "registers_cover (vm_engine s) ?a (ar_registers r) (ar_registers ?q)"
  proof -
    have "slot_sim (vm_engine s) None (register_slots (ar_registers r) ! i) (register_slots (ar_registers ?q) ! i)"
      if "i < rf_len (ar_registers r)" "awaits_at ?a i = None" for i
      using that registers_sim_cover [OF regs] with_slot(5) [OF rok(2), of "unat x" "Ready w"] x rok(4)
      by (auto simp: registers_cover_def awaits_at_upd split: if_splits)
    then show ?thesis using registers_sim_cover [OF regs'] slot rok by (simp add: registers_cover_def)
  qed
  then have flush: "\<exists>t. flush_pending_reveals ?s = (Inr (), t) \<and> sim t (put_frame ?q s0)"
    using flush_cover_sim [OF sim2, of r ?q] r lay a r0 current_frame_depth_top [OF r0] by auto
  have place: "write_pending_reveal_placeholder x ?s = (Inr (), put_frame ?r ?s)"
    using r slot(1) by (simp add: write_pending_reveal_placeholder_def on_frame_def set_pending_reveal_def del: put_frame_simps(9))
  have "queue_reveal_to_register (Share ty q) x s =
      (if should_auto_flush ?b (top s) then flush_pending_reveals ?s else write_pending_reveal_placeholder x ?s)"
    using en e r'(4) by (simp add: queue_reveal_to_register_def mbind_def mread_def mpc_ensure_ready_def mmodify_def)
  then show ?thesis using flush place sim2 w0 by auto
qed

lemma queue_reveal_refines:
  assumes sim: "sim s s0" and run: "queue_reveal_to_register v x s0 = (Inr u, t0)"
    and clear: "is_clear (vm_register_layout s) (unat x)"
  shows "\<exists>t. queue_reveal_to_register v x s = (Inr u, t) \<and> sim t t0"
proof (cases "enabled (vm_reveals s)")
  case False
  have "refines (mbind (mread (\<lambda>s. reveal_share_immediate s v)) (assign_current_register_without_previous x))"
    by (intro refines_intro refines_mread) (simp add: sim_reads)
  then show ?thesis
    using refinesD [OF _ sim] run False sim_immediate [OF sim] by (simp add: queue_reveal_to_register_def)
next
  case True
  from run obtain w where w: "reveal_share_immediate s0 v = Inr w"
      "assign_current_register_without_previous x w s0 = (Inr u, t0)"
    using sim_immediate [OF sim] by (auto simp: queue_reveal_to_register_def mbind_Inr_iff mread_def)
  obtain r0 where r0: "current_frame s0 = Inr r0"
    using w(2) by (cases "current_frame s0")
      (auto simp: assign_current_register_without_previous_def assign_prepared_def prepare_current_register_write_def
        mbind_def mread_def split: if_splits)
  obtain r where r: "current_frame s = Inr r" "frame_sim (vm_engine s) (awaited (vm_reveals s) (top s)) r r0"
      "rf_layout (ar_registers r) = vm_register_layout s"
    using current_frame_sim [OF sim r0] by blast
  note ok = registers_sim_ok [OF conjunct2 [OF r(2) [unfolded frame_sim_def]]]
  have x: "unat x < rf_len (ar_registers r)" "t0 = write_register x w r0 s0"
    using w(2) ok clear r(3)
    by (auto simp: assign_eq [OF r0 ok(2)] ensure_frame_contains_register_def prepare_write_clear
        simp del: is_clear_iff split: if_splits)
  have "reveal_share_immediate s v = Inr w" using w(1) sim_reads(4) [OF sim] by simp
  then obtain ty q e where "v = Share ty q" "vm_engine s = Some e" "is_ready e" "reveals_to (vm_engine s) (ty, q) w"
    by (rule reveals_to_open)
  then show ?thesis using queue_reveal_sim [OF sim r(1) r0 clear x(1) _ _ _ True] x(2) by simp
qed

end
