(* ===== verification/Fast_Paths.thy ===== *)
theory Fast_Paths
  imports Simulation
begin

text \<open>
  The fast paths of the instructions agree with the general paths. They are taken only when no
  reveal is queued; on such a machine, whose registers then hold no placeholder, an
  instruction succeeds with its fast path exactly when the general path does, and leaves the
  same state. The binary operators share one contract, stated as a locale: what the clear
  operator computes is what the operator on values computes.
\<close>

section \<open>Machines without queued reveals\<close>

definition frame_ready :: "register_layout \<Rightarrow> activation_record \<Rightarrow> bool" where
  "frame_ready l r =
     (register_file_ok (ar_registers r) \<and> rf_layout (ar_registers r) = l \<and>
      PendingReveal \<notin> set (register_slots (ar_registers r)))"

text \<open>The well-formedness that the fast paths rely on.\<close>

definition machine_ok :: "vm_state \<Rightarrow> bool" where
  "machine_ok s = (\<not> has_pending (vm_reveals s) \<longrightarrow> (\<forall>r \<in> set (call_stack s). frame_ready (vm_register_layout s) r))"

lemma calm_frame:
  assumes "machine_ok s" "\<not> has_pending (vm_reveals s)" "current_frame s = Inr r"
  shows "frame_ready (vm_register_layout s) r" "register_file_ok (ar_registers r)"
    "rf_layout (ar_registers r) = vm_register_layout s"
    "unat x < rf_len (ar_registers r) \<Longrightarrow> rf_get (ar_registers r) (unat x) = Some (slot_value (ar_registers r) x)"
proof -
  have "r \<in> set (call_stack s)" using assms(3) by (auto simp: current_frame_def split: if_splits)
  then show fr: "frame_ready (vm_register_layout s) r" using assms(1,2) by (auto simp: machine_ok_def)
  then show ok: "register_file_ok (ar_registers r)" "rf_layout (ar_registers r) = vm_register_layout s"
    by (simp_all add: frame_ready_def)
  assume x: "unat x < rf_len (ar_registers r)"
  then have "register_slots (ar_registers r) ! unat x \<noteq> PendingReveal"
    using fr by (metis frame_ready_def nth_mem rf_len_slots)
  then show "rf_get (ar_registers r) (unat x) = Some (slot_value (ar_registers r) x)"
    using x ok(1) by (simp add: rf_get_iff slot_value_def split: register_slot.split)
qed

lemma calm_assign:
  assumes "machine_ok s" "\<not> has_pending (vm_reveals s)" "current_frame s = Inr r"
  shows "assign_current_register_without_previous x v s = (Inr (), t) \<longleftrightarrow>
    unat x < rf_len (ar_registers r) \<and>
    (\<exists>w. prepare_register_write_value_for_layout s (vm_register_layout s) (unat x) v = Inr w \<and>
         t = put_frame (r\<lparr>ar_registers := with_slot (ar_registers r) (unat x) (Ready w)\<rparr>) s)"
proof -
  have "write_register x w r s = put_frame (r\<lparr>ar_registers := with_slot (ar_registers r) (unat x) (Ready w)\<rparr>) s" for w
    using assms(2) by (simp add: write_register_def has_pending_def cancel_destination_def)
  then show ?thesis
    by (auto simp: assign_eq [OF assms(3) calm_frame(2) [OF assms]] calm_frame(3) [OF assms] ensure_frame_contains_register_def
        split: sum.splits)
qed

lemma calm_write:
  assumes "machine_ok s" "\<not> has_pending (vm_reveals s)" "current_frame s = Inr r" "unat x < rf_len (ar_registers r)"
  shows "write_fast_clear_register x v s =
    (Inr (), put_frame (r\<lparr>ar_registers := with_slot (ar_registers r) (unat x) (Ready v)\<rparr>) s)"
  using calm_frame(4) [OF assms] with_slot(1) [OF calm_frame(2) [OF assms(1-3)] assms(4), of "Ready v"] assms(3)
  by (simp add: write_fast_clear_register_def on_frame_def rf_write_ready_def)

lemma calm_resolve_pair:
  assumes "machine_ok s" "\<not> has_pending (vm_reveals s)" "current_frame s = Inr r"
  shows "resolve_register_pair x y s = (Inr p, t) \<longleftrightarrow>
    unat x < rf_len (ar_registers r) \<and> unat y < rf_len (ar_registers r) \<and>
    p = (slot_value (ar_registers r) x, slot_value (ar_registers r) y) \<and> t = s"
  using calm_frame(4) [OF assms, of x] calm_frame(4) [OF assms, of y] ensure_all_iff [of r "[x, y]"]
    ensure_resolved_calm [OF assms(2,3), of "[x, y]"]
  by (auto simp: resolve_register_pair_def mbind_Inr_iff mread_def assms(3) resolved_register_value_ref_def)

lemma calm_resolve:
  assumes "machine_ok s" "\<not> has_pending (vm_reveals s)" "current_frame s = Inr r"
  shows "resolve_register x s = (Inr v, t) \<longleftrightarrow>
    unat x < rf_len (ar_registers r) \<and> v = slot_value (ar_registers r) x \<and> t = s"
  using calm_frame(4) [OF assms, of x] ensure_all_iff [of r "[x]"] ensure_resolved_calm [OF assms(2,3), of "[x]"]
  by (auto simp: resolve_register_def mbind_Inr_iff mread_def assms(3) resolved_register_value_ref_def)

lemma no_frame_resolve:
  "call_stack s = [] \<Longrightarrow> resolve_register_pair x y s = (Inl NoActiveActivationRecord, s)"
  "call_stack s = [] \<Longrightarrow> resolve_register x s = (Inl NoActiveActivationRecord, s)"
  by (simp_all add: resolve_register_pair_def resolve_register_def ensure_registers_resolved_def current_frame_def mbind_def)

lemma fast_operands_calm:
  assumes "machine_ok s" "\<not> has_pending (vm_reveals s)" "current_frame s = Inr r"
  shows "fast_operands r ds xs =
    (case ensure_all r (ds @ xs) of
       Inl e \<Rightarrow> Inl e
     | Inr _ \<Rightarrow> if list_all (\<lambda>x. is_clear (vm_register_layout s) (unat x)) (ds @ xs)
                then Inr (Some (map (slot_value (ar_registers r)) xs)) else Inr None)"
proof (cases "ensure_all r (ds @ xs)")
  case (Inr u)
  then have "\<forall>x \<in> set xs. unat x < rf_len (ar_registers r)" using ensure_all_iff [of r "ds @ xs"] by (cases u) simp
  then have "collect (map (resolved_register_value_ref r) xs) = Inr (map (slot_value (ar_registers r)) xs)"
    using calm_frame(4) [OF assms] by (intro collect_map_cong) (simp add: resolved_register_value_ref_def)
  then show ?thesis using Inr calm_frame(3) [OF assms] by (simp add: fast_operands_def)
qed (simp add: fast_operands_def)

section \<open>Binary operators\<close>

locale clear_operator =
  fixes fast :: "val \<Rightarrow> val \<Rightarrow> (value_op_error + val) option"
    and full :: "val \<Rightarrow> val \<Rightarrow> provider \<Rightarrow> value_op_error + val"
  assumes fast_full: "fast v w = Some z \<Longrightarrow> full v w rt = z"
begin

lemma fast_path_value:
  assumes ok: "machine_ok s" "\<not> has_pending (vm_reveals s)"
    and gen: "\<And>t. gen s = (Inr (), t) \<Longrightarrow> \<exists>r. current_frame s = Inr r \<and>
        unat dest < rf_len (ar_registers r) \<and> unat x < rf_len (ar_registers r) \<and> unat y < rf_len (ar_registers r)"
    and val: "\<And>r z t. current_frame s = Inr r \<Longrightarrow> unat dest < rf_len (ar_registers r) \<Longrightarrow>
        unat x < rf_len (ar_registers r) \<Longrightarrow> unat y < rf_len (ar_registers r) \<Longrightarrow>
        is_clear (vm_register_layout s) (unat dest) \<Longrightarrow>
        fast (slot_value (ar_registers r) x) (slot_value (ar_registers r) y) = Some z \<Longrightarrow>
        gen s = (Inr (), t) \<longleftrightarrow> (\<exists>w. z = Inr w \<and>
          t = put_frame (r\<lparr>ar_registers := with_slot (ar_registers r) (unat dest) (Ready w)\<rparr>) s)"
  shows "first_try (try_execute_fast_clear_binary_op dest x y fast) gen s = (Inr (), t) \<longleftrightarrow> gen s = (Inr (), t)"
proof (cases "current_frame s")
  case (Inl e)
  have "try_execute_fast_clear_binary_op dest x y fast s = (Inl e, s)"
    using ok(2) Inl by (simp add: try_execute_fast_clear_binary_op_def)
  then show ?thesis using gen Inl by (auto simp: first_try_def mbind_def)
next
  case (Inr r)
  show ?thesis
  proof (cases "ensure_all r [dest, x, y]")
    case (Inl e)
    have "try_execute_fast_clear_binary_op dest x y fast s = (Inl e, s)"
      using ok(2) Inl Inr fast_operands_calm [OF ok Inr, of "[dest]" "[x, y]"]
      by (simp add: try_execute_fast_clear_binary_op_def del: ensure_all.simps)
    moreover have "gen s \<noteq> (Inr (), t)"
      using gen [of t] Inr Inl ensure_all_iff [of r "[dest, x, y]"] by (auto simp del: ensure_all.simps)
    ultimately show ?thesis by (simp add: first_try_def mbind_def)
  next
    case (Inr u)
    note r = \<open>current_frame s = Inr r\<close>
    have len: "unat dest < rf_len (ar_registers r)" "unat x < rf_len (ar_registers r)" "unat y < rf_len (ar_registers r)"
      using Inr ensure_all_iff [of r "[dest, x, y]"] by (auto simp del: ensure_all.simps)
    let ?fast = "fast (slot_value (ar_registers r) x) (slot_value (ar_registers r) y)"
    let ?clear = "list_all (\<lambda>x. is_clear (vm_register_layout s) (unat x)) [dest, x, y]"
    have f: "try_execute_fast_clear_binary_op dest x y fast s =
        (if \<not> ?clear then (Inr False, s)
         else case ?fast of None \<Rightarrow> (Inr False, s) | Some (Inl e) \<Rightarrow> (Inl (ValueOp e), s)
              | Some (Inr z) \<Rightarrow> (Inr True, put_frame (r\<lparr>ar_registers := with_slot (ar_registers r) (unat dest) (Ready z)\<rparr>) s))"
      using ok(2) Inr r fast_operands_calm [OF ok r, of "[dest]" "[x, y]"] calm_write [OF ok r len(1)]
      by (auto simp: try_execute_fast_clear_binary_op_def mbind_def mret_def simp del: ensure_all.simps
          split: option.splits sum.splits)
    show ?thesis
    proof (cases "?clear \<and> ?fast \<noteq> None")
      case True
      then obtain z where z: "?fast = Some z" by blast
      have d: "is_clear (vm_register_layout s) (unat dest)" using True by simp
      show ?thesis using f True z val [OF r len d z, of t]
        by (cases z) (auto simp: first_try_def mbind_def mret_def)
    next
      case False
      then show ?thesis using f by (auto simp: first_try_def mbind_def)
    qed
  qed
qed

lemma binary_fast_agrees:
  assumes "machine_ok s"
  shows "first_try (try_execute_fast_clear_binary_op dest x y fast) (binary_general full dest x y) s = (Inr (), t) \<longleftrightarrow>
    binary_general full dest x y s = (Inr (), t)"
proof (cases "has_pending (vm_reveals s)")
  case True
  then show ?thesis by (simp add: first_try_def mbind_def try_execute_fast_clear_binary_op_def)
next
  case calm: False
  show ?thesis
  proof (rule fast_path_value [OF assms calm])
    fix t assume run: "binary_general full dest x y s = (Inr (), t)"
    then have "call_stack s \<noteq> []"
      by (auto simp: binary_general_def with_resolved_register_pair_def mbind_Inr_iff no_frame_resolve)
    then obtain r where r: "current_frame s = Inr r" by (simp add: current_frame_def)
    then show "\<exists>r. current_frame s = Inr r \<and> unat dest < rf_len (ar_registers r) \<and>
        unat x < rf_len (ar_registers r) \<and> unat y < rf_len (ar_registers r)"
      using run calm_resolve_pair [OF assms calm r] calm_assign [OF assms calm r]
      by (auto simp: binary_general_def with_resolved_register_pair_def mbind_Inr_iff mread_def)
  next
    fix r z t
    assume r: "current_frame s = Inr r" and *: "unat dest < rf_len (ar_registers r)" "unat x < rf_len (ar_registers r)"
      "unat y < rf_len (ar_registers r)" "is_clear (vm_register_layout s) (unat dest)"
      "fast (slot_value (ar_registers r) x) (slot_value (ar_registers r) y) = Some z"
    show "binary_general full dest x y s = (Inr (), t) \<longleftrightarrow> (\<exists>w. z = Inr w \<and>
        t = put_frame (r\<lparr>ar_registers := with_slot (ar_registers r) (unat dest) (Ready w)\<rparr>) s)"
      using * calm_resolve_pair [OF assms calm r] calm_assign [OF assms calm r] fast_full [OF *(5)]
      by (auto simp: binary_general_def with_resolved_register_pair_def mbind_Inr_iff mread_def prepare_write_clear
          simp del: is_clear_iff)
  qed
qed

end

text \<open>The arithmetic operators first unwrap share objects, which the clear operators never accept.\<close>

locale clear_arithmetic = clear_operator fast full
  for fast :: "val \<Rightarrow> val \<Rightarrow> (value_op_error + val) option"
    and full :: "val \<Rightarrow> val \<Rightarrow> provider \<Rightarrow> value_op_error + val" +
  assumes fast_not_object: "fast v w \<noteq> None \<Longrightarrow> v \<noteq> Object k \<and> w \<noteq> Object k"
begin

lemma fast_unwrap:
  assumes "fast v w = Some z"
  shows "unwrap_share_value_for_arith s v = Inr v" "unwrap_share_value_for_arith s w = Inr w"
proof -
  have "v \<noteq> Object k \<and> w \<noteq> Object k" for k using fast_not_object [of v w k] assms by simp
  then show "unwrap_share_value_for_arith s v = Inr v" "unwrap_share_value_for_arith s w = Inr w"
    by (auto simp: unwrap_share_value_for_arith_def is_share_object_def split: val.split)
qed

lemma arith_fast_agrees:
  assumes "machine_ok s"
  shows "first_try (try_execute_fast_clear_binary_op dest x y fast) (arith_general full dest x y) s = (Inr (), t) \<longleftrightarrow>
    arith_general full dest x y s = (Inr (), t)"
proof (cases "has_pending (vm_reveals s)")
  case True
  then show ?thesis by (simp add: first_try_def mbind_def try_execute_fast_clear_binary_op_def)
next
  case calm: False
  show ?thesis
  proof (rule fast_path_value [OF assms calm])
    fix t assume run: "arith_general full dest x y s = (Inr (), t)"
    then have "call_stack s \<noteq> []"
      by (auto simp: arith_general_def with_resolved_register_pair_def mbind_Inr_iff no_frame_resolve)
    then obtain r where r: "current_frame s = Inr r" by (simp add: current_frame_def)
    then show "\<exists>r. current_frame s = Inr r \<and> unat dest < rf_len (ar_registers r) \<and>
        unat x < rf_len (ar_registers r) \<and> unat y < rf_len (ar_registers r)"
      using run calm_resolve_pair [OF assms calm r] calm_assign [OF assms calm r]
      by (auto simp: arith_general_def with_resolved_register_pair_def mbind_Inr_iff mread_def)
  next
    fix r z t
    assume r: "current_frame s = Inr r" and *: "unat dest < rf_len (ar_registers r)" "unat x < rf_len (ar_registers r)"
      "unat y < rf_len (ar_registers r)" "is_clear (vm_register_layout s) (unat dest)"
      "fast (slot_value (ar_registers r) x) (slot_value (ar_registers r) y) = Some z"
    show "arith_general full dest x y s = (Inr (), t) \<longleftrightarrow> (\<exists>w. z = Inr w \<and>
        t = put_frame (r\<lparr>ar_registers := with_slot (ar_registers r) (unat dest) (Ready w)\<rparr>) s)"
      using * calm_resolve_pair [OF assms calm r] calm_assign [OF assms calm r] fast_full [OF *(5)] fast_unwrap [OF *(5)]
      by (auto simp: arith_general_def with_resolved_register_pair_def mbind_Inr_iff mread_def prepare_write_clear
          simp del: is_clear_iff)
  qed
qed

end

interpretation add_op: clear_arithmetic try_clear_add add
  by unfold_locales (auto simp: add_def try_clear_add_def split: val.splits)

interpretation sub_op: clear_arithmetic try_clear_sub sub
  by unfold_locales (auto simp: sub_def try_clear_sub_def split: val.splits)

interpretation mul_op: clear_arithmetic try_clear_mul mul
  by unfold_locales (auto simp: mul_def try_clear_mul_def split: val.splits)

interpretation div_op: clear_arithmetic try_clear_div div_op
  by unfold_locales (auto simp: div_op_def try_clear_div_def split: val.splits)

interpretation mod_op: clear_operator try_clear_modulo "\<lambda>v w _. modulo v w"
  by unfold_locales (simp add: modulo_def)

interpretation and_op: clear_operator try_clear_bit_and bit_and
  by unfold_locales (simp add: bit_and_def)

interpretation or_op: clear_operator try_clear_bit_or bit_or
  by unfold_locales (simp add: bit_or_def)

interpretation xor_op: clear_operator try_clear_bit_xor bit_xor_op
  by unfold_locales (simp add: bit_xor_op_def)

interpretation shl_op: clear_operator try_clear_shl "\<lambda>v w _. shl v w"
  by unfold_locales (simp add: shl_def)

interpretation shr_op: clear_operator try_clear_shr "\<lambda>v w _. shr v w"
  by unfold_locales (simp add: shr_def)

text \<open>The general path of each operator.\<close>

fun binary_op_general :: "runtime_binary_op \<Rightarrow> u32 \<Rightarrow> u32 \<Rightarrow> u32 \<Rightarrow> unit vm" where
  "binary_op_general Add = arith_general add"
| "binary_op_general Subtract = arith_general sub"
| "binary_op_general Multiply = arith_general mul"
| "binary_op_general Divide = arith_general div_op"
| "binary_op_general Modulo = binary_general (\<lambda>v w _. modulo v w)"
| "binary_op_general BitAnd = binary_general bit_and"
| "binary_op_general BitOr = binary_general bit_or"
| "binary_op_general BitXor = binary_general bit_xor_op"

fun shift_op_general :: "runtime_shift_op \<Rightarrow> u32 \<Rightarrow> u32 \<Rightarrow> u32 \<Rightarrow> unit vm" where
  "shift_op_general SLeft = binary_general (\<lambda>v w _. shl v w)"
| "shift_op_general SRight = binary_general (\<lambda>v w _. shr v w)"

lemma binary_op_agrees:
  "machine_ok s \<Longrightarrow> execute_binary_op bop d x y s = (Inr (), t) \<longleftrightarrow> binary_op_general bop d x y s = (Inr (), t)"
  by (cases bop)
    (simp_all add: execute_add_def execute_sub_def execute_mul_def execute_div_def execute_mod_def execute_and_def
      execute_or_def execute_xor_def try_execute_fast_clear_add_def add_op.arith_fast_agrees sub_op.arith_fast_agrees
      mul_op.arith_fast_agrees div_op.arith_fast_agrees mod_op.binary_fast_agrees and_op.binary_fast_agrees
      or_op.binary_fast_agrees xor_op.binary_fast_agrees)

lemma shift_op_agrees:
  "machine_ok s \<Longrightarrow> execute_shift_op sop d x y s = (Inr (), t) \<longleftrightarrow> shift_op_general sop d x y s = (Inr (), t)"
  by (cases sop)
    (simp_all add: execute_shl_def execute_shr_def shl_op.binary_fast_agrees shr_op.binary_fast_agrees)

section \<open>Negation, comparison and loads\<close>

lemma not_agrees:
  assumes ok: "machine_ok s"
  shows "execute_not d x s = (Inr (), t) \<longleftrightarrow> execute_not_general d x s = (Inr (), t)"
proof (cases "has_pending (vm_reveals s) \<or> call_stack s = []")
  case True
  then show ?thesis
    by (auto simp: execute_not_def execute_not_general_def first_try_def mbind_def try_execute_fast_clear_not_def
        current_frame_def with_resolved_register_def no_frame_resolve)
next
  case False
  then obtain r where r: "current_frame s = Inr r" and calm: "\<not> has_pending (vm_reveals s)"
    by (auto simp: current_frame_def)
  let ?f = "ar_registers r"
  have fast: "try_clear_bit_not v = Some z \<Longrightarrow> bit_not v rt = z" for v z rt by (simp add: bit_not_def)
  note calms = calm_resolve [OF ok calm r] calm_assign [OF ok calm r] fast_operands_calm [OF ok calm r, of "[d]" "[x]"]
    ensure_all_iff [of r "[d, x]"]
  show ?thesis
  proof (cases "ensure_all r [d, x]")
    case (Inl e)
    then show ?thesis using calms r calm
      by (auto simp: execute_not_def execute_not_general_def first_try_def mbind_def mread_def try_execute_fast_clear_not_def
          with_resolved_register_def mbind_Inr_iff simp del: ensure_all.simps split: prod.splits sum.splits)
  next
    case (Inr u)
    then have len: "unat d < rf_len ?f" "unat x < rf_len ?f" using calms(4) by (auto simp del: ensure_all.simps)
    have run: "resolve_register x s = (Inr (slot_value ?f x), s)" using calms(1) len by blast
    let ?clear = "list_all (\<lambda>x. is_clear (vm_register_layout s) (unat x)) [d, x]"
    have f: "try_execute_fast_clear_not d x s =
        (if \<not> ?clear then (Inr False, s)
         else case try_clear_bit_not (slot_value ?f x) of None \<Rightarrow> (Inr False, s) | Some (Inl e) \<Rightarrow> (Inl (ValueOp e), s)
              | Some (Inr z) \<Rightarrow> (Inr True, put_frame (r\<lparr>ar_registers := with_slot ?f (unat d) (Ready z)\<rparr>) s))"
      using calm Inr r calms(3) calm_write [OF ok calm r len(1)]
      by (auto simp: try_execute_fast_clear_not_def mbind_def mret_def simp del: ensure_all.simps
          split: option.splits sum.splits)
    show ?thesis
    proof (cases "?clear \<and> try_clear_bit_not (slot_value ?f x) \<noteq> None")
      case True
      then obtain z where z: "try_clear_bit_not (slot_value ?f x) = Some z" by blast
      have g: "execute_not_general d x s = (Inr (), t) \<longleftrightarrow>
          (\<exists>w. z = Inr w \<and> assign_current_register_without_previous d w s = (Inr (), t))"
        using run fast [OF z] by (auto simp: execute_not_general_def with_resolved_register_def mbind_Inr_iff mread_def)
      show ?thesis unfolding g calms(2) using f True z len
        by (cases z) (auto simp: execute_not_def first_try_def mbind_def mret_def prepare_register_write_value_for_layout_def)
    next
      case False
      then show ?thesis using f by (auto simp: execute_not_def first_try_def mbind_def)
    qed
  qed
qed

lemma cmp_agrees:
  assumes ok: "machine_ok s"
  shows "execute_cmp x y s = (Inr (), t) \<longleftrightarrow> execute_cmp_general x y s = (Inr (), t)"
proof (cases "has_pending (vm_reveals s) \<or> call_stack s = []")
  case True
  then show ?thesis
    by (auto simp: execute_cmp_def execute_cmp_general_def first_try_def mbind_def try_execute_fast_clear_cmp_def
        current_frame_def with_resolved_register_pair_def no_frame_resolve)
next
  case False
  then obtain r where r: "current_frame s = Inr r" and calm: "\<not> has_pending (vm_reveals s)"
    by (auto simp: current_frame_def)
  let ?f = "ar_registers r"
  note pair = calm_resolve_pair [OF ok calm r, of x y] and ops = fast_operands_calm [OF ok calm r, of "[]" "[x, y]"]
    and all = ensure_all_iff [of r "[x, y]"]
  show ?thesis
  proof (cases "ensure_all r [x, y]")
    case (Inl e)
    then show ?thesis using pair ops all r calm
      by (auto simp: execute_cmp_def execute_cmp_general_def first_try_def mbind_def mread_def try_execute_fast_clear_cmp_def
          with_resolved_register_pair_def mbind_Inr_iff simp del: ensure_all.simps split: prod.splits sum.splits)
  next
    case (Inr u)
    then have "resolve_register_pair x y s = (Inr (slot_value ?f x, slot_value ?f y), s)"
      using pair all by (auto simp del: ensure_all.simps)
    then show ?thesis using calm Inr r ops
      by (auto simp: execute_cmp_def execute_cmp_general_def first_try_def mbind_def mread_def mret_def on_frame_def
          try_execute_fast_clear_cmp_def with_resolved_register_pair_def compare_def
          simp del: ensure_all.simps split: option.splits)
  qed
qed

lemma with_slot_clear:
  assumes "register_file_ok f" "i < length (clear_bank f)"
  shows "with_slot f i sl = f\<lparr>clear_bank := (clear_bank f)[i := sl]\<rparr>"
  using assms clear_len_iff [OF assms(1), of i] by (simp add: with_slot_def set_slot_eq)

lemma ld_agrees:
  assumes ok: "machine_ok s"
  shows "execute_ld d off s = (Inr (), t) \<longleftrightarrow> execute_ld_general d off s = (Inr (), t)"
proof (cases "has_pending (vm_reveals s) \<or> call_stack s = []")
  case True
  then show ?thesis
    by (auto simp: execute_ld_def execute_ld_general_def first_try_def mbind_def mread_def try_execute_fast_clear_ld_def
        current_frame_def)
next
  case False
  then obtain r where r: "current_frame s = Inr r" and calm: "\<not> has_pending (vm_reveals s)"
    by (auto simp: current_frame_def)
  let ?f = "ar_registers r"
  note fok = calm_frame(2) [OF ok calm r] and lay = calm_frame(3) [OF ok calm r] and asg = calm_assign [OF ok calm r]
  show ?thesis
  proof (cases "stack_offset_resolve_index off (length (ar_stack r))")
    case (Inl e)
    then show ?thesis using r calm
      by (simp add: execute_ld_def execute_ld_general_def first_try_def mbind_def mread_def try_execute_fast_clear_ld_def)
  next
    case (Inr i)
    show ?thesis
    proof (cases "vec_get (ar_stack r) i")
      case None
      then show ?thesis using r calm Inr
        by (simp add: execute_ld_def execute_ld_general_def first_try_def mbind_def mread_def
            try_execute_fast_clear_ld_def copy_stack_value_to_clear_register_def)
    next
      case (Some v)
      have g: "execute_ld_general d off s = assign_current_register_without_previous d v s"
        using r Inr Some by (simp add: execute_ld_general_def mbind_def mread_def)
      show ?thesis
        using r calm Inr Some asg [of d v t] fok lay clear_len_iff [OF fok, of "unat d"] with_slot_clear [OF fok, of "unat d"]
        unfolding execute_ld_def g
        by (auto simp: first_try_def mbind_def mret_def try_execute_fast_clear_ld_def g
            copy_stack_value_to_clear_register_def write_clear_value_from_ref_def clone_clear_register_value_def
            prepare_register_write_value_for_layout_def)
    qed
  qed
qed

section \<open>Moves\<close>

lemma banks_of_slots:
  assumes "register_file_ok f"
  shows "clear_bank f = take (secret_start (rf_layout f)) (register_slots f)"
    "secret_bank f = drop (secret_start (rf_layout f)) (register_slots f)"
  using assms by (cases "secret_bank f = []"; simp add: register_file_ok_def register_slots_def)+

lemma register_file_eqI:
  assumes "register_file_ok f" "register_file_ok g" "rf_layout f = rf_layout g" "register_slots f = register_slots g"
  shows "f = g"
  using banks_of_slots [OF assms(1)] banks_of_slots [OF assms(2)] assms(3,4)
  by (intro register_file.equality) simp_all

lemma with_slot_same:
  assumes "register_file_ok f" "i < rf_len f" "register_slots f ! i = sl"
  shows "with_slot f i sl = f"
  using with_slot [OF assms(1,2), of sl] assms by (intro register_file_eqI) auto

lemma copy_clear_eq:
  assumes "register_file_ok f" "d < rf_len f" "x < rf_len f" "register_slots f ! x = Ready v"
  shows "copy_clear_value f d x =
    (if is_clear (rf_layout f) d \<and> is_clear (rf_layout f) x then (CCopied, with_slot f d (Ready v)) else (CNotClearRegister, f))"
  using assms clear_len_iff [OF assms(1), of d] clear_len_iff [OF assms(1), of x] clear_bank_nth [OF assms(1), of x]
    with_slot_clear [OF assms(1), of d] with_slot_same [OF assms(1,3,4)]
  by (auto simp: copy_clear_value_def copy_clear_bank_value_def clone_clear_register_value_def)

lemma with_slot_secret:
  assumes "register_file_ok f" "i < rf_len f" "is_secret (rf_layout f) i"
  shows "with_slot f i sl = f\<lparr>secret_bank := (secret_bank f)[i - secret_start (rf_layout f) := sl]\<rparr>"
  using assms secret_bank_nth(2) [OF assms(1) _ assms(2)] by (simp add: with_slot_def set_slot_eq)

lemma copy_secret_eq:
  assumes "register_file_ok f" "d < rf_len f" "x < rf_len f" "is_secret (rf_layout f) d" "is_secret (rf_layout f) x"
    "register_slots f ! x = Ready v"
  shows "copy_secret_value f d x =
    (if secret_slot_ok (Ready v) then (SCopied, with_slot f d (Ready v)) else (SSourceNotSecretValue, f))"
proof (cases "d = x")
  case True
  then show ?thesis
    using assms secret_bank_nth [OF assms(1) _ assms(3)] with_slot_same [OF assms(1,3,6)]
    by (cases v) (auto simp: copy_secret_value_def copy_secret_bank_value_def)
next
  case False
  then have "d - secret_start (rf_layout f) \<noteq> x - secret_start (rf_layout f)" using assms(4,5) by simp
  then show ?thesis
    using assms secret_bank_nth [OF assms(1) _ assms(3)] with_slot_secret [OF assms(1,2,4)]
    by (cases v) (auto simp: copy_secret_value_def copy_secret_bank_value_def)
qed

lemma mov_agrees:
  assumes ok: "machine_ok s" and same: "d = x \<Longrightarrow> \<exists>r. current_frame s = Inr r \<and> unat d < rf_len (ar_registers r)"
  shows "execute_mov d x s = (Inr (), t) \<longleftrightarrow> execute_mov_general d x s = (Inr (), t)"
proof (cases "has_pending (vm_reveals s) \<or> call_stack s = []")
  case True
  then show ?thesis using same
    by (auto simp: execute_mov_def execute_mov_general_def first_try_def mbind_def mread_def
        try_execute_fast_clear_copy_mov_def try_execute_fast_secret_copy_mov_def on_frame_def current_frame_def
        current_register_layout_def)
next
  case False
  then obtain r where r: "current_frame s = Inr r" and calm: "\<not> has_pending (vm_reveals s)"
    by (auto simp: current_frame_def)
  let ?f = "ar_registers r" and ?l = "vm_register_layout s"
  note fok = calm_frame(2) [OF ok calm r] and lay = calm_frame(3) [OF ok calm r] and asg = calm_assign [OF ok calm r]
  let ?k = "move_kind ?l (unat d) (unat x)"
  have kind: "map_ok (\<lambda>l. move_kind l (unat d) (unat x)) (current_register_layout s) = Inr ?k"
    using r lay by (simp add: current_register_layout_def)
  have gen: "unat d < rf_len ?f \<and> unat x < rf_len ?f" if run: "execute_mov_general d x s = (Inr (), t)"
  proof (cases "?k = SecretToClear")
    case True
    have "unat x < rf_len ?f"
      using run calm_resolve [OF ok calm r] by (auto simp: execute_mov_general_def mbind_Inr_iff mread_def)
    then show ?thesis using True by (simp add: move_kind_eq)
  next
    case False
    then show ?thesis using run kind calm_resolve [OF ok calm r] asg
      by (auto simp: execute_mov_general_def mbind_Inr_iff mread_def)
  qed
  show ?thesis
  proof (cases "unat d < rf_len ?f \<and> unat x < rf_len ?f")
    case False
    then have "d \<noteq> x" using same r by auto
    moreover have "copy_clear_value ?f (unat d) (unat x) = (CRegisterOutOfBounds, ?f)"
      using False clear_len_iff [OF fok, of "unat d"] clear_len_iff [OF fok, of "unat x"]
      by (simp add: copy_clear_value_def not_less) (meson leD)
    ultimately have "execute_mov d x s \<noteq> (Inr (), t)" using calm r
      by (simp add: execute_mov_def first_try_def mbind_def try_execute_fast_clear_copy_mov_def on_frame_def)
    then show ?thesis using gen False by blast
  next
    case True
    let ?v = "slot_value ?f x" and ?t = "\<lambda>w. put_frame (r\<lparr>ar_registers := with_slot ?f (unat d) (Ready w)\<rparr>) s"
    have res: "resolve_register x s = (Inr ?v, s)" using calm_resolve [OF ok calm r] True by blast
    have slot: "register_slots ?f ! unat x = Ready ?v" using calm_frame(4) [OF ok calm r] True rf_get_iff [OF fok] by simp
    note copies = copy_clear_eq [OF fok conjunct1 [OF True] conjunct2 [OF True] slot]
    have copy: "execute_mov_general d x s = (Inr (), t) \<longleftrightarrow>
        (\<exists>w. prepare_register_write_value_for_layout s ?l (unat d) ?v = Inr w \<and> t = ?t w)" if "?k = CopyMove"
      using that kind res asg True by (simp add: execute_mov_general_def mbind_def mread_def)
    show ?thesis
    proof (cases "is_clear ?l (unat d) \<and> is_clear ?l (unat x)")
      case clear: True
      have k: "?k = CopyMove" using clear by (simp add: move_kind_eq)
      have id: "d = x \<Longrightarrow> ?t ?v = s" using with_slot_same [OF fok _ slot] True put_current_frame [OF r] by simp
      show ?thesis using copy [OF k] clear copies calm r lay id
        by (auto simp: execute_mov_def first_try_def mbind_def mret_def try_execute_fast_clear_copy_mov_def on_frame_def
            prepare_register_write_value_for_layout_def)
    next
      case mixed: False
      have mov: "execute_mov d x s =
          (if is_secret ?l (unat d) \<and> is_secret ?l (unat x)
           then first_try (try_execute_fast_secret_copy_mov d x) (execute_mov_general d x) s else execute_mov_general d x s)"
        using mixed copies calm r lay put_current_frame [OF r]
        by (auto simp: execute_mov_def first_try_def mbind_def try_execute_fast_clear_copy_mov_def on_frame_def)
      show ?thesis
      proof (cases "is_secret ?l (unat d) \<and> is_secret ?l (unat x)")
        case secret: True
        have k: "?k = CopyMove" using secret by (simp add: move_kind_eq)
        have "copy_secret_value ?f (unat d) (unat x) =
            (if secret_slot_ok (Ready ?v) then (SCopied, with_slot ?f (unat d) (Ready ?v)) else (SSourceNotSecretValue, ?f))"
          using copy_secret_eq [OF fok _ _ _ _ slot] True secret lay by simp
        moreover have "secret_slot_ok (Ready ?v) \<Longrightarrow> prepare_register_write_value_for_layout s ?l (unat d) ?v = Inr ?v"
          by (cases ?v) (simp_all add: prepare_register_write_value_for_layout_def)
        moreover have "try_execute_fast_secret_copy_mov d x s =
            (if secret_slot_ok (Ready ?v) then (Inr True, ?t ?v) else (Inr False, s))"
          using calm r put_current_frame [OF r] calculation(1) by (simp add: try_execute_fast_secret_copy_mov_def on_frame_def)
        ultimately show ?thesis unfolding mov using secret copy [OF k]
          by (cases "secret_slot_ok (Ready ?v)") (auto simp: first_try_def mbind_def mret_def)
      next
        case False
        then show ?thesis using mov by auto
      qed
    qed
  qed
qed

section \<open>Properties\<close>

text \<open>C3: on a machine whose frames are well formed, every instruction with a fast path succeeds exactly when
  its general path does, with the same resulting state; for a move of a register to itself the
  register has to exist, because the shortcut for it does not look.\<close>

theorem fast_paths_agree:
  assumes "machine_ok s"
  shows "(execute_binary_op bop d x y s = (Inr (), t) \<longleftrightarrow> binary_op_general bop d x y s = (Inr (), t)) \<and>
    (execute_shift_op sop d x y s = (Inr (), t) \<longleftrightarrow> shift_op_general sop d x y s = (Inr (), t)) \<and>
    (execute_not d x s = (Inr (), t) \<longleftrightarrow> execute_not_general d x s = (Inr (), t)) \<and>
    (execute_cmp x y s = (Inr (), t) \<longleftrightarrow> execute_cmp_general x y s = (Inr (), t)) \<and>
    (execute_ld d off s = (Inr (), t) \<longleftrightarrow> execute_ld_general d off s = (Inr (), t)) \<and>
    ((d = x \<longrightarrow> (\<exists>r. current_frame s = Inr r \<and> unat d < rf_len (ar_registers r))) \<longrightarrow>
     (execute_mov d x s = (Inr (), t) \<longleftrightarrow> execute_mov_general d x s = (Inr (), t)))"
  using binary_op_agrees [OF assms, of bop d x y t] shift_op_agrees [OF assms, of sop d x y t] not_agrees [OF assms, of d x t]
    cmp_agrees [OF assms, of x y t] ld_agrees [OF assms, of d off t] mov_agrees [OF assms, of d x t] by simp

definition sample_frame :: activation_record where
  "sample_frame =
     (for_function ''main'' \<lparr>secret_start = 4\<rparr> 6 [] None)\<lparr>ar_registers :=
        from_absolute_values \<lparr>secret_start = 4\<rparr>
          [I64 2, I64 3, Unit, Unit, Share (SecretInt 64) (Opaque [7]), Unit]\<rparr>"

definition sample_machine :: vm_state where
  "sample_machine =
     push_activation_frame sample_frame None
       (vm_state_new\<lparr>vm_engine := Some clear_engine, vm_register_layout := \<lparr>secret_start = 4\<rparr>\<rparr>)"

lemmas sample_simps = sample_machine_def push_activation_frame_def vm_state_new_def sample_frame_def for_function_def
  from_absolute_values_def register_file_new_def reveal_batcher_new_def

lemma sample_machine_ok: "machine_ok sample_machine"
  by (simp add: machine_ok_def frame_ready_def sample_simps register_file_ok_def register_slots_def)

theorem fast_paths_agree_witness:
  "execute_binary_op Add 2 0 1 sample_machine =
     (Inr (), put_frame (sample_frame\<lparr>ar_registers :=
        from_absolute_values \<lparr>secret_start = 4\<rparr>
          [I64 2, I64 3, I64 5, Unit, Share (SecretInt 64) (Opaque [7]), Unit]\<rparr>) sample_machine)"
proof -
  have "binary_op_general Add 2 0 1 sample_machine =
     (Inr (), put_frame (sample_frame\<lparr>ar_registers :=
        from_absolute_values \<lparr>secret_start = 4\<rparr>
          [I64 2, I64 3, I64 5, Unit, Share (SecretInt 64) (Opaque [7]), Unit]\<rparr>) sample_machine)"
    by (simp add: arith_general_def mbind_def with_resolved_register_pair_def resolve_register_pair_def mread_def mret_def
        ensure_registers_resolved_def current_frame_def sample_simps has_pending_def ensure_frame_contains_register_def
        rf_len_def resolved_register_value_ref_def rf_get_def get_slot_eq unwrap_share_value_for_arith_def is_share_object_def
        add_def try_clear_add_def checked_value_def checked_integer_result_def s_checked_def sint_fits_def
        assign_current_register_without_previous_def rf_write_ready_def set_slot_eq put_frame_def)
  then show ?thesis using fast_paths_agree [THEN conjunct1, OF sample_machine_ok, of Add 2 0 1] by blast
qed

end
