(* ===== verification/Transparency.thy ===== *)
theory Transparency
  imports Fast_Paths
begin

text \<open>
  Batching reveals is transparent: when the machine that opens every share at once runs to a
  result, the batching machine runs to the same result. Every instruction, call and return
  carries the relation of the two machines, and so does the execution loop. Foreign functions
  are assumed to carry it as well. The spill instructions read and write registers without
  flushing, so they are covered where the register they touch awaits no share.
\<close>

section \<open>Instructions\<close>

lemma sim_machine_ok:
  assumes "sim s s0"
  shows "machine_ok s" "machine_ok s0"
proof -
  have ready: "frame_ready (vm_register_layout s) (call_stack s ! d) \<and> frame_ready (vm_register_layout s) (call_stack s0 ! d)"
    if d: "d < length (call_stack s)" and none: "\<And>x. awaited (vm_reveals s) d x = None" for d
  proof -
    have f: "registers_sim (vm_engine s) (awaited (vm_reveals s) d) (ar_registers (call_stack s ! d)) (ar_registers (call_stack s0 ! d))"
      "rf_layout (ar_registers (call_stack s ! d)) = vm_register_layout s"
      using sim_frames [OF assms d] by (simp_all add: frame_sim_def)
    then have "awaits_at (awaited (vm_reveals s) d) i = None" for i using none by (simp add: awaits_at_def)
    then show ?thesis using f
      by (auto simp: frame_ready_def registers_sim_def in_set_conv_nth rf_len_slots)
  qed
  show "machine_ok s"
    using ready by (auto simp: machine_ok_def in_set_conv_nth has_pending_def)
  have "frame_ready (vm_register_layout s) (call_stack s0 ! d)" if d: "d < length (call_stack s)" for d
  proof -
    have f: "registers_sim (vm_engine s) (awaited (vm_reveals s) d) (ar_registers (call_stack s ! d)) (ar_registers (call_stack s0 ! d))"
      "rf_layout (ar_registers (call_stack s ! d)) = vm_register_layout s"
      using sim_frames [OF assms d] by (simp_all add: frame_sim_def)
    have "register_slots (ar_registers (call_stack s0 ! d)) ! i \<noteq> PendingReveal"
      if "i < rf_len (ar_registers (call_stack s ! d))" for i
      using f(1) that by (cases "awaits_at (awaited (vm_reveals s) d) i") (auto simp: registers_sim_def)
    then show ?thesis using f by (auto simp: frame_ready_def registers_sim_def in_set_conv_nth rf_len_slots [symmetric])
  qed
  then show "machine_ok s0"
    using sim_simps(7,8) [OF assms] by (auto simp: machine_ok_def in_set_conv_nth)
qed

lemma refines_fast:
  assumes "\<And>s t. machine_ok s \<Longrightarrow> m s = (Inr (), t) \<longleftrightarrow> g s = (Inr (), t)" "refines g"
  shows "refines m"
proof (rule refinesI)
  fix s s0 x t0
  assume sim: "sim s s0" and run: "m s0 = (Inr x, t0)"
  then have "g s0 = (Inr x, t0)" using assms(1) sim_machine_ok(2) [OF sim] by simp
  then obtain t where "g s = (Inr x, t)" "sim t t0" using refinesD [OF assms(2) sim] by blast
  then show "\<exists>t. m s = (Inr x, t) \<and> sim t t0" using assms(1) sim_machine_ok(1) [OF sim] by auto
qed

lemma refines_if:
  "(\<And>s s0. sim s s0 \<Longrightarrow> P s0 = P s) \<Longrightarrow> refines m \<Longrightarrow> refines n \<Longrightarrow> refines (\<lambda>s. if P s then m s else n s)"
  by (simp add: refines_def)

lemma refines_prod: "(\<And>x y. refines (f x y)) \<Longrightarrow> refines (case p of (x, y) \<Rightarrow> f x y)"
  by (cases p) simp

lemma refines_with_resolved [refines_intro]:
  "(\<And>v s s0 x. sim s s0 \<Longrightarrow> f v s0 = Inr x \<Longrightarrow> f v s = Inr x) \<Longrightarrow> refines (with_resolved_register x f)"
  unfolding with_resolved_register_def by (intro refines_intro refines_mread)

lemma refines_with_resolved_pair [refines_intro]:
  "(\<And>v w s s0 x. sim s s0 \<Longrightarrow> f v w s0 = Inr x \<Longrightarrow> f v w s = Inr x) \<Longrightarrow> refines (with_resolved_register_pair x y f)"
  unfolding with_resolved_register_pair_def by (intro refines_intro refines_mread refines_prod)

lemma refines_arith: "refines (arith_general oper d x y)"
  unfolding arith_general_def
  by (intro refines_intro refines_prod refines_mread) (simp_all add: sim_reads)

lemma refines_binary: "refines (binary_general oper d x y)"
  unfolding binary_general_def by (intro refines_intro) (simp add: sim_reads)

lemma refines_binary_op: "refines (execute_binary_op bop d x y)"
proof (rule refines_fast [OF binary_op_agrees])
  show "refines (binary_op_general bop d x y)" by (cases bop) (simp_all add: refines_arith refines_binary)
qed

lemma refines_shift_op: "refines (execute_shift_op sop d x y)"
proof (rule refines_fast [OF shift_op_agrees])
  show "refines (shift_op_general sop d x y)" by (cases sop) (simp_all add: refines_binary)
qed

lemma refines_unary_op: "refines (execute_unary_op uop d x)"
proof -
  have "refines (execute_not_general d x)"
    unfolding execute_not_general_def by (intro refines_intro) (simp add: sim_reads)
  then show ?thesis by (cases uop) (simp add: refines_fast [OF not_agrees])
qed

lemma refines_cmp: "refines (execute_cmp x y)"
proof (rule refines_fast [OF cmp_agrees])
  show "refines (execute_cmp_general x y)"
    unfolding execute_cmp_general_def by (intro refines_intro refines_on_frame) auto
qed

text \<open>Reads of the current frame that do not look at its registers.\<close>

lemma frame_read_sim:
  assumes "sim s s0" "\<And>r f. g (r\<lparr>ar_registers := f\<rparr>) = g r"
  shows "rbind (current_frame s0) g = rbind (current_frame s) g"
proof (cases "current_frame s0")
  case (Inl e)
  then have "call_stack s = []" "e = NoActiveActivationRecord"
    using sim_simps(9) [OF assms(1)] by (auto simp: current_frame_def split: if_splits)
  then show ?thesis using Inl by (simp add: current_frame_def)
next
  case (Inr r0)
  obtain r where "current_frame s = Inr r" "frame_sim (vm_engine s) (awaited (vm_reveals s) (top s)) r r0"
    using current_frame_sim [OF assms(1) Inr] by blast
  then show ?thesis using Inr assms(2) [of "ar_registers r0" r] by (simp add: frame_sim_def)
qed

lemma refines_frame_read:
  "(\<And>r f. g (r\<lparr>ar_registers := f\<rparr>) = g r) \<Longrightarrow> refines (mread (\<lambda>s. rbind (current_frame s) g))"
  by (rule refines_mread) (simp add: frame_read_sim)

lemma refines_ld: "refines (execute_ld d off)"
proof (rule refines_fast [OF ld_agrees])
  show "refines (execute_ld_general d off)"
    unfolding execute_ld_general_def
    by (intro refines_intro refines_frame_read) simp
qed

lemma refines_jump: "refines (execute_jump c t)"
  unfolding execute_jump_def by (rule refines_on_frame) auto

lemma refines_pusharg: "refines (execute_pusharg x)"
  unfolding execute_pusharg_def by (intro refines_intro refines_on_frame) auto

lemma refines_mov_general: "refines (execute_mov_general d x)"
proof (rule refinesI)
  fix s s0 u t0
  assume sim: "sim s s0" and run: "execute_mov_general d x s0 = (Inr u, t0)"
  obtain r0 where r0: "current_frame s0 = Inr r0"
    using run by (cases "current_frame s0")
      (auto simp: execute_mov_general_def mbind_Inr_iff mread_def current_register_layout_def)
  obtain r where r: "current_frame s = Inr r" "frame_sim (vm_engine s) (awaited (vm_reveals s) (top s)) r r0"
      "rf_layout (ar_registers r) = vm_register_layout s"
    using current_frame_sim [OF sim r0] by blast
  let ?k = "move_kind (vm_register_layout s) (unat d) (unat x)"
  have lay: "current_register_layout s = Inr (vm_register_layout s)" "current_register_layout s0 = Inr (vm_register_layout s)"
    using r r0 by (simp_all add: current_register_layout_def frame_sim_def registers_sim_def)
  from run obtain v t1 where v: "resolve_register x s0 = (Inr v, t1)"
      "(if ?k = SecretToClear then queue_reveal_to_register v d
        else mbind (mread (\<lambda>s. if ?k = ClearToSecret
              then (case v of Share _ _ \<Rightarrow> Inr v
                    | Object _ \<Rightarrow> map_ok (\<lambda>(ty, d). Share ty d) (vm_extract_share_data s v) | _ \<Rightarrow> convert_to_share s v)
              else Inr v)) (assign_current_register_without_previous d)) t1 = (Inr u, t0)"
    by (auto simp: execute_mov_general_def mbind_Inr_iff mread_def lay)
  obtain t where t: "resolve_register x s = (Inr v, t)" "sim t t1"
    using refinesD [OF refines_resolve_register sim v(1)] by blast
  have "vm_register_layout t1 = vm_register_layout s0"
    using v(1) sim_immediate [OF sim] by (auto simp: resolve_register_def mbind_Inr_iff mread_def ensure_registers_resolved_def
        split: sum.splits if_splits)
  then have tl: "vm_register_layout t = vm_register_layout s" using sim_simps(7) [OF t(2)] sim_simps(7) [OF sim] by simp
  have "\<exists>t'. (if ?k = SecretToClear then queue_reveal_to_register v d
        else mbind (mread (\<lambda>s. if ?k = ClearToSecret
              then (case v of Share _ _ \<Rightarrow> Inr v
                    | Object _ \<Rightarrow> map_ok (\<lambda>(ty, d). Share ty d) (vm_extract_share_data s v) | _ \<Rightarrow> convert_to_share s v)
              else Inr v)) (assign_current_register_without_previous d)) t = (Inr u, t') \<and> sim t' t0"
  proof (cases "?k = SecretToClear")
    case True
    then show ?thesis using queue_reveal_refines [OF t(2), of v d u t0] v(2) tl by (simp add: move_kind_eq)
  next
    case False
    have "refines (mbind (mread (\<lambda>s. if ?k = ClearToSecret
              then (case v of Share _ _ \<Rightarrow> Inr v
                    | Object _ \<Rightarrow> map_ok (\<lambda>(ty, d). Share ty d) (vm_extract_share_data s v) | _ \<Rightarrow> convert_to_share s v)
              else Inr v)) (assign_current_register_without_previous d))"
      by (intro refines_intro refines_mread) (cases v; simp add: sim_reads split: if_splits)
    then show ?thesis using refinesD [OF _ t(2)] v(2) False by simp
  qed
  then show "\<exists>t. execute_mov_general d x s = (Inr u, t) \<and> sim t t0"
    using t(1) lay by (auto simp: execute_mov_general_def mbind_Inr_iff mread_def)
qed

text \<open>The conditions under which an instruction does not see the difference: a spill touches no register
  that awaits a share, and a move of a register to itself names a register of the frame.\<close>

fun step_regular :: "vm_state \<Rightarrow> runtime_instruction \<Rightarrow> bool" where
  "step_regular s (SpillLoad d slot) = (\<not> has_pending_destination (vm_reveals s) \<lparr>frame_depth = top s, dest_register = d\<rparr>)"
| "step_regular s (SpillStore slot x) = (\<not> has_pending_destination (vm_reveals s) \<lparr>frame_depth = top s, dest_register = x\<rparr>)"
| "step_regular s (Move d x) =
     (d = x \<longrightarrow> (case current_frame s of Inl _ \<Rightarrow> False | Inr r \<Rightarrow> unat d < rf_len (ar_registers r)))"
| "step_regular s _ = True"

lemma mov_sim:
  assumes sim: "sim s s0" and run: "execute_mov d x s0 = (Inr u, t0)" and reg: "step_regular s (Move d x)"
  shows "\<exists>t. execute_mov d x s = (Inr u, t) \<and> sim t t0"
proof -
  have same: "\<exists>r. current_frame s = Inr r \<and> unat d < rf_len (ar_registers r)" if "d = x"
    using reg that by (auto split: sum.splits)
  moreover have "\<exists>r. current_frame s0 = Inr r \<and> unat d < rf_len (ar_registers r)" if "d = x"
  proof -
    have "call_stack s0 \<noteq> []" using same [OF that] sim_simps(9) [OF sim] by (auto simp: current_frame_def split: if_splits)
    then obtain r0 where r0: "current_frame s0 = Inr r0" by (simp add: current_frame_def)
    then show ?thesis using current_frame_sim [OF sim r0] same [OF that]
      by (metis frame_sim_def registers_sim_ok(4) sum.inject(2))
  qed
  ultimately show ?thesis
    using mov_agrees [OF sim_machine_ok(1) [OF sim], of d x] mov_agrees [OF sim_machine_ok(2) [OF sim], of d x]
      refinesD [OF refines_mov_general sim] run by (cases u) (metis (full_types))
qed

lemma lds_sim:
  assumes sim: "sim s s0" and run: "execute_lds d slot s0 = (Inr u, t0)" and reg: "step_regular s (SpillLoad d slot)"
  shows "\<exists>t. execute_lds d slot s = (Inr u, t) \<and> sim t t0"
proof -
  obtain r0 f0 where r0: "current_frame s0 = Inr r0" "unat d < rf_len (ar_registers r0)"
      "rf_write_ready (ar_registers r0) (unat d) (spill_load r0 slot) = Some f0"
      "t0 = put_frame (r0\<lparr>ar_registers := f0\<rparr>) s0"
    using run by (auto simp: execute_lds_def on_frame_def ensure_frame_contains_register_def split: sum.splits if_splits)
  obtain r where r: "current_frame s = Inr r" "frame_sim (vm_engine s) (awaited (vm_reveals s) (top s)) r r0"
      "rf_layout (ar_registers r) = vm_register_layout s"
    using current_frame_sim [OF sim r0(1)] by blast
  then have regs: "registers_sim (vm_engine s) (awaited (vm_reveals s) (top s)) (ar_registers r) (ar_registers r0)"
    by (simp add: frame_sim_def)
  note ok = registers_sim_ok [OF regs]
  let ?v = "spill_load r0 slot"
  have len: "unat d < rf_len (ar_registers r)" using r0(2) ok(4) by simp
  have none: "awaited (vm_reveals s) (top s) d = None"
    using reg unfolding step_regular.simps has_pending_destination_awaited [OF sim_batcher_ok [OF sim]] by blast
  have f0: "f0 = with_slot (ar_registers r0) (unat d) (Ready ?v)"
    using r0(3) with_slot(1) [OF ok(2) r0(2), of "Ready ?v"] by (auto simp: rf_write_ready_def split: option.splits)
  obtain v where v: "register_slots (ar_registers r0) ! unat d = Ready v"
    using r0(2,3) ok(2) rf_get_iff by (auto simp: rf_write_ready_def split: option.splits)
  have get: "rf_get (ar_registers r) (unat d) = Some v"
    using slot_sim_value [OF regs len v] none rf_get_iff [OF ok(1)] len by simp
  have sp: "spill_load r slot = ?v"
  proof -
    have "r0 = r\<lparr>ar_registers := ar_registers r0\<rparr>" using r(2) by (simp add: frame_sim_def)
    then have "ar_spill r0 = ar_spill r" by (cases r; cases r0) simp
    then show ?thesis by (simp add: spill_load_def)
  qed
  let ?g = "with_slot (ar_registers r) (unat d) (Ready ?v)"
  have "execute_lds d slot s = (Inr (), put_frame (r\<lparr>ar_registers := ?g\<rparr>) s)"
    using r(1) len get sp with_slot(1) [OF ok(1) len, of "Ready ?v"]
    by (simp add: execute_lds_def on_frame_def ensure_frame_contains_register_def rf_write_ready_def)
  moreover have "(awaited (vm_reveals s) (top s))(d := None) = awaited (vm_reveals s) (top s)" using none by auto
  then have "sim (put_frame (r\<lparr>ar_registers := ?g\<rparr>) s) t0"
    unfolding r0(4) f0
    using registers_sim_update [OF regs len, of None "Ready ?v" "Ready ?v"] r(3) with_slot(3) [OF ok(1) len]
    by (intro sim_frame_update [OF sim r(1)] frame_sim_registers [OF r(2)]) simp_all
  ultimately show ?thesis by simp
qed

lemma sts_sim:
  assumes sim: "sim s s0" and run: "execute_sts slot x s0 = (Inr u, t0)" and reg: "step_regular s (SpillStore slot x)"
  shows "\<exists>t. execute_sts slot x s = (Inr u, t) \<and> sim t t0"
proof -
  from run obtain v r0 where v: "current_frame s0 = Inr r0" "register_value_ref r0 x = Inr v"
      "on_frame (\<lambda>r. Inr ((), spill_store slot v r)) s0 = (Inr u, t0)"
    by (auto simp: execute_sts_def mbind_Inr_iff mread_def current_register_value_def rbind_Inr_iff)
  have none: "awaited (vm_reveals s) (top s) x = None"
    using reg unfolding step_regular.simps has_pending_destination_awaited [OF sim_batcher_ok [OF sim]] by blast
  have len: "unat x < rf_len (ar_registers r0)" "resolved_register_value_ref r0 x = Inr v"
    using v(2) by (auto simp: register_value_ref_def resolved_register_value_ref_def ensure_frame_contains_register_def split: if_splits)
  obtain r where r: "current_frame s = Inr r" "frame_sim (vm_engine s) (awaited (vm_reveals s) (top s)) r r0"
    using current_frame_sim [OF sim v(1)] by blast
  have "resolved_register_value_ref r x = Inr v" using resolved_value_sim [OF sim v(1) none len(2)] r(1) by simp
  then have "current_register_value s x = Inr v"
    using r len(1) by (simp add: current_register_value_def register_value_ref_def resolved_register_value_ref_def
        ensure_frame_contains_register_def frame_sim_def registers_sim_def)
  moreover have store: "refines (on_frame (\<lambda>r. Inr ((), spill_store slot v r)) :: unit vm)"
    by (rule refines_on_frame) (auto simp: spill_store_def Let_def)
  ultimately show ?thesis using refinesD [OF store sim v(3)] by (simp add: execute_sts_def mbind_def mread_def)
qed

section \<open>Calls and returns\<close>

lemma sim_fields:
  assumes "sim s s0"
  shows "sim (s\<lparr>last_call_target := c\<rparr>) (s0\<lparr>last_call_target := c\<rparr>)"
    "sim (s\<lparr>current_instruction := ci\<rparr>) (s0\<lparr>current_instruction := ci\<rparr>)"
    "sim (s\<lparr>frame_runtime_functions := fs\<rparr>) (s0\<lparr>frame_runtime_functions := fs\<rparr>)"
  using assms unfolding sim_def rest_equal_iff by simp_all

lemma sim_push:
  assumes sim: "sim s s0" and r: "frame_ready (vm_register_layout s) r"
  shows "sim (push_activation_frame r rt s) (push_activation_frame r rt s0)"
proof -
  note e = sim_simps [OF sim]
  have "frame_sim (vm_engine s) (awaited (vm_reveals s) (length (call_stack s))) r r"
  proof -
    have none: "awaited (vm_reveals s) (length (call_stack s)) x = None" for x
      using sim_awaited [OF sim, of "length (call_stack s)" x] by blast
    have "slot_sim (vm_engine s) None (register_slots (ar_registers r) ! i) (register_slots (ar_registers r) ! i)"
      if "i < rf_len (ar_registers r)" for i
    proof (cases "register_slots (ar_registers r) ! i")
      case PendingReveal
      then show ?thesis using r that by (metis frame_ready_def nth_mem rf_len_slots)
    qed simp
    then show ?thesis using r none by (simp add: frame_sim_def registers_sim_def frame_ready_def awaits_at_def)
  qed
  then have "frame_sim (vm_engine s) (awaited (vm_reveals s) d) ((call_stack s @ [r]) ! d) ((call_stack s0 @ [r]) ! d) \<and>
      rf_layout (ar_registers ((call_stack s @ [r]) ! d)) = vm_register_layout s" if "d < Suc (length (call_stack s))" for d
    using sim_frames [OF sim, of d] that e(8) r by (cases "d = length (call_stack s)") (auto simp: nth_append frame_ready_def)
  moreover have "awaited (vm_reveals s) d x \<noteq> None \<Longrightarrow> d < Suc (length (call_stack s))" for d x
    using sim_awaited [OF sim, of d x] by simp
  ultimately show ?thesis
    using sim e unfolding sim_def rest_equal_iff push_activation_frame_def by simp
qed

lemma frame_ready_new: "frame_ready l (for_function name l n ups clo)"
  by (auto simp: frame_ready_def for_function_def register_file_new_ok register_file_new_slots default_slot_def)
    (simp add: register_file_new_def)

lemma instantiate_frame_ready:
  assumes "instantiate_frame t l args ups clo = Inr r"
  shows "frame_ready l r"
proof (cases "ct_parameters t \<noteq> [] \<or> length args \<noteq> 0")
  case True
  then have *: "length (ct_parameters t) = length args" "length args \<le> ct_frame_register_count t"
      "ar_registers r = iter_mut_write (register_file_new l (ct_frame_register_count t)) args"
    using assms by (auto simp: instantiate_frame_def bind_owned_parameters_def for_function_def Let_def split: if_splits)
  then show ?thesis using iter_mut_write_new [OF *(2), of l] by (auto simp: frame_ready_def)
next
  case False
  then show ?thesis using assms by (auto simp: instantiate_frame_def Let_def frame_ready_new)
qed

lemma refines_push_prepared: "refines (push_prepared_vm_frame t args ups clo)"
proof (rule refinesI)
  fix s s0 x t0
  assume sim: "sim s s0" and run: "push_prepared_vm_frame t args ups clo s0 = (Inr x, t0)"
  then obtain r where "instantiate_frame t (vm_register_layout s) args ups clo = Inr r"
      "t0 = push_activation_frame r (Some (ct_runtime t)) s0"
    using sim_simps(7) [OF sim] by (auto simp: push_prepared_vm_frame_def split: sum.splits)
  then show "\<exists>t'. push_prepared_vm_frame t args ups clo s = (Inr x, t') \<and> sim t' t0"
    using sim_push [OF sim instantiate_frame_ready] by (simp add: push_prepared_vm_frame_def)
qed

lemma refines_push_empty: "refines (push_empty_vm_frame_without_hooks t)"
  unfolding push_empty_vm_frame_without_hooks_def
  by (rule refines_mmodify) (simp add: sim_simps(7) sim_push instantiate_empty_frame_def frame_ready_new)

lemma pop_put_frame [simp]: "pop_activation_frame (put_frame r s) = pop_activation_frame s"
  by (simp add: pop_activation_frame_def put_frame_def butlast_list_update)

text \<open>Returning drops the queued reveals of the frame together with the frame.\<close>

lemma sim_pop:
  assumes sim: "sim s s0" and ne: "call_stack s \<noteq> []"
  shows "sim (pop_activation_frame (s\<lparr>vm_reveals := clear_frame (top s) (vm_reveals s)\<rparr>)) (pop_activation_frame s0)"
proof -
  let ?b = "clear_frame (top s) (vm_reveals s)"
  note e = sim_simps [OF sim] and ok = sim_batcher_ok [OF sim]
  have "frame_sim (vm_engine s) (awaited ?b d) (butlast (call_stack s) ! d) (butlast (call_stack s0) ! d) \<and>
      rf_layout (ar_registers (butlast (call_stack s) ! d)) = vm_register_layout s" if d: "d < top s" for d
  proof -
    have "awaited ?b d = awaited (vm_reveals s) d" using d ok by (auto simp: awaited_clear_frame)
    then show ?thesis using sim_frames [OF sim, of d] d e(8) by (simp add: nth_butlast)
  qed
  moreover have "awaited ?b d x \<noteq> None \<Longrightarrow> d < top s" for d x
    using sim_awaited [OF sim, of d x] ok ne by (cases "d = top s") (auto simp: awaited_clear_frame)
  ultimately show ?thesis
    using sim e clear_frame_spec(1) [OF ok] unfolding sim_def rest_equal_iff pop_activation_frame_def by simp
qed

lemma sim_sync: "sim s s0 \<Longrightarrow> sim (sync_current_instruction_to_current_frame s) (sync_current_instruction_to_current_frame s0)"
proof -
  assume sim: "sim s s0"
  let ?g = "\<lambda>r. Inr (ar_function_name r, ar_instruction_pointer r) :: vm_error + string \<times> usize"
  have "rbind (current_frame s0) ?g = rbind (current_frame s) ?g" by (rule frame_read_sim [OF sim]) simp
  then show ?thesis using sim_fields(2) [OF sim] sim_simps(9) [OF sim]
    by (auto simp: sync_current_instruction_to_current_frame_def current_frame_def Let_def)
qed

lemma return_current_frame_eq:
  assumes "call_stack s \<noteq> []"
  defines "p \<equiv> pop_activation_frame (s\<lparr>vm_reveals := clear_frame (top s) (vm_reveals s)\<rparr>)"
  shows "return_current_frame v cp s =
      (if returning_from_entry_frame cp (length (call_stack s))
       then (Inr (OutcomeReturn v), p\<lparr>current_instruction := None\<rparr>)
       else mbind (mread current_return_register) (\<lambda>x.
            mbind (assign_current_register_without_previous x v) (\<lambda>_. mret OutcomeContinue))
          (sync_current_instruction_to_current_frame p))"
proof -
  have d: "current_frame_depth s = Inr (top s)"
    using assms(1) by (simp add: current_frame_depth_def checked_sub_usize_def Suc_leI)
  have c: "current_frame s = Inr (last (call_stack s))" using assms(1) by (simp add: current_frame_def)
  show ?thesis
    by (simp add: return_current_frame_def mbind_def mread_def mmodify_def d update_closure_upvalues_def on_frame_def c p_def
        del: put_frame_simps(9))
qed

lemma refines_return: "refines (return_current_frame v cp)"
proof (rule refinesI)
  fix s s0 x t0
  assume sim: "sim s s0" and run: "return_current_frame v cp s0 = (Inr x, t0)"
  have ne: "call_stack s \<noteq> []" "call_stack s0 \<noteq> []"
    using run sim_simps(9) [OF sim]
    by (auto simp: return_current_frame_def mbind_Inr_iff mread_def current_frame_depth_def checked_sub_usize_def
        split: if_splits)
  let ?p = "\<lambda>s. pop_activation_frame (s\<lparr>vm_reveals := clear_frame (top s) (vm_reveals s)\<rparr>)"
  have pop: "sim (?p s) (?p s0)"
    using sim_pop [OF sim ne(1)] sim_immediate [OF sim] sim_simps(8) [OF sim] by simp
  have "refines (mbind (mread current_return_register) (\<lambda>x.
      mbind (assign_current_register_without_previous x v) (\<lambda>_. mret OutcomeContinue)))"
  proof (intro refines_intro refines_mread)
    fix s s0 x assume sim: "sim s s0" and x: "current_return_register s0 = Inr x"
    then obtain r0 where r0: "current_frame s0 = Inr r0" "return_register (rf_len (ar_registers r0)) = Inr x"
      by (auto simp: current_return_register_def rbind_Inr_iff)
    from current_frame_sim [OF sim r0(1)] show "current_return_register s = Inr x"
      using r0(2) by (metis current_return_register_def frame_sim_def rbind_simps(2) registers_sim_ok(4))
  qed
  then show "\<exists>t. return_current_frame v cp s = (Inr x, t) \<and> sim t t0"
    using run ne refinesD [OF _ sim_sync [OF pop]] sim_fields(2) [OF pop] sim_simps(8) [OF sim]
    by (auto simp: return_current_frame_eq split: if_splits)
qed

lemma find_upvalue_cong:
  "map (\<lambda>r. (ar_locals r, ar_upvalues r)) rs = map (\<lambda>r. (ar_locals r, ar_upvalues r)) qs \<Longrightarrow>
   find_upvalue_in name rs = find_upvalue_in name qs"
proof (induction rs arbitrary: qs)
  case (Cons r rs)
  then obtain q qs' where "qs = q # qs'" by (cases qs) auto
  with Cons show ?case by (auto split: option.split)
qed simp

lemma find_upvalue_sim: "sim s s0 \<Longrightarrow> find_upvalue s0 name = find_upvalue s name"
  unfolding find_upvalue_def
proof (rule find_upvalue_cong)
  assume sim: "sim s s0"
  have "ar_locals (call_stack s0 ! d) = ar_locals (call_stack s ! d) \<and> ar_upvalues (call_stack s0 ! d) = ar_upvalues (call_stack s ! d)"
    if "d < length (call_stack s)" for d
  proof -
    have "call_stack s0 ! d = (call_stack s ! d)\<lparr>ar_registers := ar_registers (call_stack s0 ! d)\<rparr>"
      using sim_frames(1) [OF sim that] by (simp add: frame_sim_def)
    then show ?thesis by (cases "call_stack s ! d"; cases "call_stack s0 ! d") simp
  qed
  then have "map (\<lambda>r. (ar_locals r, ar_upvalues r)) (call_stack s0) = map (\<lambda>r. (ar_locals r, ar_upvalues r)) (call_stack s)"
    using sim_simps(8) [OF sim] by (intro nth_equalityI) auto
  from arg_cong [OF this, of rev]
  show "map (\<lambda>r. (ar_locals r, ar_upvalues r)) (rev (call_stack s0)) = map (\<lambda>r. (ar_locals r, ar_upvalues r)) (rev (call_stack s))"
    by (simp only: rev_map)
qed

lemma call_reads_sim:
  assumes "sim s s0"
  shows "collect_vm_call_upvalues s0 ns = collect_vm_call_upvalues s ns"
    "prepare_vm_call s0 t args = prepare_vm_call s t args"
    "prepare_vm_call_without_args s0 t = prepare_vm_call_without_args s t"
    "can_move_call_args_directly s0 t n = can_move_call_args_directly s t n"
    "call_receiver s0 fname = call_receiver s fname"
    "runtime_type_name s0 v = runtime_type_name s v"
    "check_receiver s0 fname ty m = check_receiver s fname ty m"
    "method_call_target s0 fname e = method_call_target s fname e"
proof -
  note simps = sim_simps [OF assms]
  show c: "collect_vm_call_upvalues s0 ns = collect_vm_call_upvalues s ns" for ns
    by (simp add: collect_vm_call_upvalues_def find_upvalue_sim [OF assms])
  show "prepare_vm_call s0 t args = prepare_vm_call s t args"
    "prepare_vm_call_without_args s0 t = prepare_vm_call_without_args s t"
    "can_move_call_args_directly s0 t n = can_move_call_args_directly s t n"
    by (simp_all add: prepare_vm_call_def prepare_vm_call_without_args_def can_move_call_args_directly_def c simps
        sim_reads [OF assms])
  show r: "call_receiver s0 fname = call_receiver s fname" for fname
    unfolding call_receiver_def by (rule frame_read_sim [OF assms]) simp
  show ty: "runtime_type_name s0 v = runtime_type_name s v" for v
    by (simp add: runtime_type_name_def simps split: val.split)
  show "check_receiver s0 fname ty m = check_receiver s fname ty m"
    "method_call_target s0 fname e = method_call_target s fname e"
    unfolding check_receiver_def method_call_target_def simps(1) r ty by (rule refl)+
qed

lemma cached_call_target_sim:
  assumes "sim s s0"
  obtains res t t0 where "cached_call_target n s = (res, t)" "cached_call_target n s0 = (res, t0)" "sim t t0"
proof (cases "\<exists>b. last_call_target s = Some (n, b)")
  case True
  then obtain b where "last_call_target s = Some (n, b)" by blast
  then show thesis using that [of "Inr b" s s0] assms sim_simps(2) [OF assms] by (simp add: cached_call_target_def)
next
  case False
  note e = sim_simps(1,2) [OF assms]
  have run: "cached_call_target n u = (case program_call_target (vm_program s) n of
      Inl e \<Rightarrow> (Inl e, u) | Inr b \<Rightarrow> (Inr b, u\<lparr>last_call_target := Some (n, b)\<rparr>))" if "u = s \<or> u = s0" for u
    using that False e by (cases "last_call_target s") (auto simp: cached_call_target_def)
  show thesis
  proof (cases "program_call_target (vm_program s) n")
    case (Inl e)
    then show ?thesis using that [of "Inl e" s s0] assms run [of s] run [of s0] by simp
  next
    case (Inr b)
    then show ?thesis using that [OF _ _ sim_fields(1) [OF assms, of "Some (n, b)"], of "Inr b"] run [of s] run [of s0] by simp
  qed
qed

lemma refines_cached_call_target: "refines (cached_call_target n)"
proof (rule refinesI)
  fix s s0 x t0
  assume "sim s s0" "cached_call_target n s0 = (Inr x, t0)"
  then show "\<exists>t. cached_call_target n s = (Inr x, t) \<and> sim t t0"
    using cached_call_target_sim [of s s0 n] by (metis prod.inject)
qed

lemma refines_resolve_call_target: "refines (resolve_call_target n)"
proof (cases "split_once CHR ''.'' n")
  case (Some p)
  obtain ty m where p: "p = (ty, m)" by (cases p)
  have "refines (mbind (mread (\<lambda>s. check_receiver s n ty m)) (\<lambda>_. mbind (cached_call_target n) (\<lambda>t. mret (n, t))))"
    by (intro refines_intro refines_mread refines_cached_call_target) (simp add: call_reads_sim)
  then show ?thesis using Some p by (simp add: resolve_call_target_def [abs_def])
next
  case None
  show ?thesis
  proof (rule refinesI)
    fix s s0 x t0
    assume sim: "sim s s0" and run: "resolve_call_target n s0 = (Inr x, t0)"
    obtain res u u0 where u: "cached_call_target n s = (res, u)" "cached_call_target n s0 = (res, u0)" "sim u u0"
      using cached_call_target_sim [OF sim] .
    then show "\<exists>t. resolve_call_target n s = (Inr x, t) \<and> sim t t0"
      using run None call_reads_sim(8) [OF u(3)] by (cases res) (auto simp: resolve_call_target_def)
  qed
qed

lemma refines_stack_len: "refines (mread (\<lambda>s. map_ok (\<lambda>r. length (ar_stack r)) (current_frame s)))"
proof -
  have "map_ok (\<lambda>r. length (ar_stack r)) (current_frame s) = rbind (current_frame s) (\<lambda>r. Inr (length (ar_stack r)))" for s
    by (cases "current_frame s") simp_all
  then show ?thesis by (simp add: refines_frame_read)
qed

lemma refines_drain: "refines drain_call_args"
  unfolding drain_call_args_def
  by (intro refines_intro refines_mread refines_on_frame) (auto simp: sim_simps(8))

lemma restoring_args_Inr: "restoring_args a m s = (Inr x, t) \<longleftrightarrow> m s = (Inr x, t)"
  by (auto simp: restoring_args_def split: prod.splits sum.splits)

lemma refines_restoring: "refines m \<Longrightarrow> refines (restoring_args a m)"
  by (simp add: refines_def restoring_args_Inr)

lemma refines_call_vm: "refines (call_vm t)"
proof -
  have "refines (\<lambda>s. if n = 0
       then if ct_parameters t = [] \<and> ct_upvalues t = [] then push_empty_vm_frame_without_hooks t s
            else mbind (mread (\<lambda>s. prepare_vm_call_without_args s t)) (\<lambda>(args, ups). push_prepared_vm_frame t args ups None) s
       else if can_move_call_args_directly s t n
       then mbind (mread (\<lambda>s. collect_vm_call_upvalues s (ct_upvalues t))) (\<lambda>ups.
              mbind drain_call_args (\<lambda>args. push_prepared_vm_frame t (snd args) ups None)) s
       else mbind (mread (\<lambda>s. rbind (current_frame s) (\<lambda>r. prepare_vm_call s t (ar_stack r)))) (\<lambda>(prepared, ups).
              mbind drain_call_args (\<lambda>args. restoring_args args (push_prepared_vm_frame t prepared ups None))) s)" for n
  proof (intro refines_if refines_mbind refines_prod refines_push_empty refines_push_prepared refines_drain refines_restoring
      refines_mread)
    fix s s0 x
    assume sim: "sim s s0" and run: "rbind (current_frame s0) (\<lambda>r. prepare_vm_call s0 t (ar_stack r)) = Inr x"
    then have "rbind (current_frame s0) (\<lambda>r. prepare_vm_call s t (ar_stack r)) = Inr x"
      by (simp add: call_reads_sim(2) [OF sim])
    then show "rbind (current_frame s) (\<lambda>r. prepare_vm_call s t (ar_stack r)) = Inr x"
      using frame_read_sim [OF sim, of "\<lambda>r. prepare_vm_call s t (ar_stack r)"] by simp
  qed (simp_all add: call_reads_sim)
  then show ?thesis unfolding call_vm_def by (intro refines_mbind refines_stack_len)
qed

text \<open>The assumption on foreign functions: called on related machines they behave alike.\<close>

definition host_transparent :: "host \<Rightarrow> bool" where
  "host_transparent host = (\<forall>f args. refines (host f args))"

lemma refines_return_register: "refines (mread current_return_register)"
proof (rule refines_mread)
  fix s s0 x assume sim: "sim s s0" and x: "current_return_register s0 = Inr x"
  then obtain r0 where r0: "current_frame s0 = Inr r0" "return_register (rf_len (ar_registers r0)) = Inr x"
    by (auto simp: current_return_register_def rbind_Inr_iff)
  from current_frame_sim [OF sim r0(1)] show "current_return_register s = Inr x"
    using r0(2) by (metis current_return_register_def frame_sim_def rbind_simps(2) registers_sim_ok(4))
qed

lemma refines_foreign_internal: "host_transparent host \<Longrightarrow> refines (call_foreign_function_internal host f args cp)"
proof -
  assume h: "host_transparent host"
  have "refines (mmap_err (ForeignFunctionFailed f) (host f args))"
    using h unfolding host_transparent_def refines_def mmap_err_Inr_iff by blast
  moreover have "refines (\<lambda>s. if cp < length (call_stack s) then (Inr OutcomeContinue, s)
       else if call_stack s = [] then (Inr (OutcomeReturn result), s)
       else mbind (mread current_return_register) (\<lambda>x.
            mbind (assign_current_register_without_previous x result) (\<lambda>_. mret OutcomeContinue)) s)" for result
    using refines_mret [of OutcomeContinue] refines_mret [of "OutcomeReturn result"]
    by (intro refines_if refines_mbind refines_return_register refines_assign refines_mret)
      (simp_all add: sim_simps(8,9) mret_def [abs_def])
  ultimately show ?thesis unfolding call_foreign_function_internal_def by (intro refines_mbind)
qed

lemma refines_call_foreign: "host_transparent host \<Longrightarrow> refines (call_foreign host f)"
proof -
  assume h: "host_transparent host"
  have "refines (\<lambda>s. call_foreign_function_internal host f [] (length (call_stack s)) s)"
  proof (rule refinesI)
    fix s s0 x t0
    assume sim: "sim s s0" and run: "call_foreign_function_internal host f [] (length (call_stack s0)) s0 = (Inr x, t0)"
    then show "\<exists>t. call_foreign_function_internal host f [] (length (call_stack s)) s = (Inr x, t) \<and> sim t t0"
      using refinesD [OF refines_foreign_internal [OF h] sim run] sim_simps(8) [OF sim] by simp
  qed
  then show ?thesis unfolding call_foreign_def
    by (intro refines_mbind refines_stack_len refines_if refines_drain refines_restoring refines_foreign_internal h) simp
qed

lemma refines_execute_call: "host_transparent host \<Longrightarrow> refines (execute_call host f)"
  unfolding execute_call_def
  by (intro refines_mbind refines_resolve_call_target refines_prod)
    (auto split: call_target.split intro: refines_mbind refines_call_vm refines_mret refines_call_foreign)

section \<open>Execution\<close>

lemma refines_continuing: "refines m \<Longrightarrow> refines (continuing m)"
  unfolding continuing_def by (intro refines_mbind refines_mret)

lemma instruction_sim:
  assumes h: "host_transparent host" and sim: "sim s s0" and reg: "step_regular s i"
    and run: "execute_instruction host cp rt i s0 = (Inr out, t0)"
  shows "\<exists>t. execute_instruction host cp rt i s = (Inr out, t) \<and> sim t t0"
proof -
  have refined: "refines m \<Longrightarrow> m s0 = (Inr out, t0) \<Longrightarrow> \<exists>t. m s = (Inr out, t) \<and> sim t t0" for m :: "instruction_outcome vm"
    by (rule refinesD [OF _ sim])
  have cont: "\<exists>t. continuing m s = (Inr out, t) \<and> sim t t0"
    if "\<And>u t0. m s0 = (Inr u, t0) \<Longrightarrow> \<exists>t. m s = (Inr u, t) \<and> sim t t0" "continuing m s0 = (Inr out, t0)" for m
    using that by (fastforce simp: continuing_def mbind_Inr_iff mret_def)
  show ?thesis
  proof (cases i)
    case (Move d x)
    then show ?thesis using cont [of "execute_mov d x"] mov_sim [OF sim] reg run by simp
  next
    case (SpillLoad d slot)
    then show ?thesis using cont [of "execute_lds d slot"] lds_sim [OF sim] reg run by simp
  next
    case (SpillStore slot x)
    then show ?thesis using cont [of "execute_sts slot x"] sts_sim [OF sim] reg run by simp
  next
    case (LoadImmediate d k)
    have "refines (mbind (mread (\<lambda>_. runtime_constant rt k)) (\<lambda>v. continuing (execute_ldi d v)))"
      by (intro refines_mbind refines_mread refines_continuing) (simp_all add: execute_ldi_def refines_assign)
    then show ?thesis using refined run LoadImmediate by simp
  next
    case (Call c)
    have "refines (mbind (mread (\<lambda>_. runtime_call_target rt c)) (execute_call host))"
      by (intro refines_mbind refines_mread refines_execute_call [OF h])
    then show ?thesis using refined run Call by simp
  next
    case (Return x)
    have "refines (mbind (resolve_register x) (\<lambda>v. return_current_frame v cp))"
      by (intro refines_mbind refines_resolve_register refines_return)
    then show ?thesis using refined run Return by simp
  qed (use refined run in \<open>simp_all add: refines_mret refines_continuing refines_ld refines_binary_op refines_unary_op
        refines_shift_op refines_jump refines_pusharg refines_cmp\<close>)
qed

text \<open>The condition of a step, on the instruction that it fetches.\<close>

definition regular_at :: "runtime_function \<Rightarrow> vm_state \<Rightarrow> bool" where
  "regular_at rt s =
     (case current_frame s of
        Inl _ \<Rightarrow> True
      | Inr r \<Rightarrow>
          (case get_instruction rt (ar_instruction_pointer r) of
             None \<Rightarrow> True
           | Some p \<Rightarrow> (case decode p of None \<Rightarrow> True | Some i \<Rightarrow> step_regular s i)))"

lemma refines_fetch: "refines (fetch_instruction rt)"
  unfolding fetch_instruction_def
  by (rule refines_on_frame) (auto simp: advance_instruction_pointer_after_fetch_def split: option.splits)

lemma refines_function_end: "refines (handle_function_end cp)"
  unfolding handle_function_end_def
  by (intro refines_mbind refines_return_register refines_resolve_register refines_return)

lemma step_regular_put:
  "current_frame s = Inr r \<Longrightarrow> ar_registers r' = ar_registers r \<Longrightarrow> step_regular (put_frame r' s) i = step_regular s i"
  using current_frame_depth_top [of s r] by (cases i) simp_all

lemma step_sim:
  assumes h: "host_transparent host" and sim: "sim s s0" and reg: "regular_at rt s"
    and run: "execute_local_step host cp rt s0 = (Inr out, t0)"
  shows "\<exists>t. execute_local_step host cp rt s = (Inr out, t) \<and> sim t t0"
proof -
  from run obtain p u0 where f: "cp < length (call_stack s0)" "fetch_instruction rt s0 = (Inr p, u0)"
      "(case p of None \<Rightarrow> handle_function_end cp
        | Some bytes \<Rightarrow> (case decode bytes of None \<Rightarrow> merr (Message ''invalid opcode'')
                          | Some i \<Rightarrow> execute_instruction host cp rt i)) u0 = (Inr out, t0)"
    by (auto simp: execute_local_step_def mbind_Inr_iff split: if_splits)
  obtain u where u: "fetch_instruction rt s = (Inr p, u)" "sim u u0"
    using refinesD [OF refines_fetch sim f(2)] by blast
  have "\<exists>t. (case p of None \<Rightarrow> handle_function_end cp
        | Some bytes \<Rightarrow> (case decode bytes of None \<Rightarrow> merr (Message ''invalid opcode'')
                          | Some i \<Rightarrow> execute_instruction host cp rt i)) u = (Inr out, t) \<and> sim t t0"
  proof (cases p)
    case None
    then show ?thesis using refinesD [OF refines_function_end u(2)] f(3) by simp
  next
    case (Some bytes)
    then obtain i where i: "decode bytes = Some i" using f(3) by (auto simp: merr_def split: option.splits)
    obtain r where r: "current_frame s = Inr r" "get_instruction rt (ar_instruction_pointer r) = Some bytes"
        "u = put_frame (advance_instruction_pointer_after_fetch r) s"
      using u(1) Some by (auto simp: fetch_instruction_def on_frame_def split: sum.splits option.splits)
    then have "step_regular u i"
      using reg i step_regular_put [OF r(1), of "advance_instruction_pointer_after_fetch r"]
      by (simp add: regular_at_def advance_instruction_pointer_after_fetch_def)
    then show ?thesis using instruction_sim [OF h u(2)] f(3) Some i by simp
  qed
  then show ?thesis using u(1) f(1) sim_simps(8) [OF sim] by (auto simp: execute_local_step_def mbind_def)
qed

lemma refines_current_runtime_function: "refines current_runtime_function"
proof (rule refinesI)
  fix s s0 x t0
  assume sim: "sim s s0" and run: "current_runtime_function s0 = (Inr x, t0)"
  let ?g = "\<lambda>r. program_runtime_function (vm_program s) (ar_function_name r)"
  have "rbind (current_frame s0) ?g = rbind (current_frame s) ?g" by (rule frame_read_sim [OF sim]) simp
  then show "\<exists>t. current_runtime_function s = (Inr x, t) \<and> sim t t0"
    using run sim sim_simps(1,3,10) [OF sim] sim_fields(3) [OF sim]
    by (auto simp: current_runtime_function_def split: sum.splits option.splits if_splits)
qed

lemma refines_cache_current: "refines (cache_current c)"
proof -
  have "refines (mread current_frame_depth)" by (rule refines_mread) (simp add: sim_simps(10))
  then show ?thesis unfolding cache_current_def
    by (intro refines_mbind) (auto split: option.split intro!: refines_mbind refines_mret refines_current_runtime_function)
qed

text \<open>The condition along a run of the batching machine.\<close>

fun run_regular :: "host \<Rightarrow> nat \<Rightarrow> usize \<Rightarrow> runtime_function_cache \<Rightarrow> vm_state \<Rightarrow> bool" where
  "run_regular host 0 cp c s = True"
| "run_regular host (Suc n) cp c s =
     (case cache_current c s of
        (Inl _, _) \<Rightarrow> True
      | (Inr (rt, c'), u) \<Rightarrow>
          regular_at rt u \<and>
          (case execute_local_step host cp rt u of
             (Inr OutcomeContinue, t) \<Rightarrow> run_regular host n cp c' t
           | _ \<Rightarrow> True))"

lemma run_loop_sim:
  assumes h: "host_transparent host"
  shows "sim s s0 \<Longrightarrow> run_regular host n cp c s \<Longrightarrow> run_loop host n cp c s0 = (Some (Inr v), t0) \<Longrightarrow>
    \<exists>t. run_loop host n cp c s = (Some (Inr v), t) \<and> sim t t0"
proof (induction n arbitrary: s s0 c)
  case (Suc n)
  obtain rt c' u0 out w0 where run: "cache_current c s0 = (Inr (rt, c'), u0)" "execute_local_step host cp rt u0 = (Inr out, w0)"
      "(case out of OutcomeReturn v \<Rightarrow> (Some (Inr v), w0) | OutcomeContinue \<Rightarrow> run_loop host n cp c' w0) = (Some (Inr v), t0)"
    using Suc.prems(3) by (auto simp: mbind_def mret_def split: prod.splits sum.splits instruction_outcome.splits)
  obtain u where u: "cache_current c s = (Inr (rt, c'), u)" "sim u u0"
    using refinesD [OF refines_cache_current Suc.prems(1) run(1)] by blast
  have reg: "regular_at rt u" using Suc.prems(2) u(1) by simp
  obtain w where w: "execute_local_step host cp rt u = (Inr out, w)" "sim w w0"
    using step_sim [OF h u(2) reg run(2)] by blast
  show ?case
  proof (cases out)
    case OutcomeContinue
    then have "run_regular host n cp c' w" using Suc.prems(2) u(1) w(1) by simp
    then show ?thesis using Suc.IH [OF w(2)] run(3) u(1) w(1) OutcomeContinue by (simp add: mbind_def mret_def)
  next
    case (OutcomeReturn v')
    then show ?thesis using run(3) u(1) w by (simp add: mbind_def mret_def)
  qed
qed simp

section \<open>Properties\<close>

definition without_batching :: "vm_state \<Rightarrow> vm_state" where
  "without_batching s = s\<lparr>vm_reveals := (vm_reveals s)\<lparr>enabled := False\<rparr>\<rparr>"

lemma sim_without_batching:
  assumes "pending (vm_reveals s) = []" "batch_index (vm_reveals s) = None" "machine_ok s"
    and "\<And>e. vm_engine s = Some e \<Longrightarrow> batch_opens_each e"
  shows "sim s (without_batching s)"
proof -
  have "frame_sim (vm_engine s) (\<lambda>_. None) r r \<and> rf_layout (ar_registers r) = vm_register_layout s" if "r \<in> set (call_stack s)" for r
  proof -
    have fr: "frame_ready (vm_register_layout s) r" using assms(1,3) that by (auto simp: machine_ok_def has_pending_def)
    have "\<exists>v. register_slots (ar_registers r) ! i = Ready v" if "i < rf_len (ar_registers r)" for i
      using fr that by (cases "register_slots (ar_registers r) ! i") (auto simp: frame_ready_def rf_len_slots dest: nth_mem)
    then show ?thesis using fr by (simp add: frame_sim_def registers_sim_def frame_ready_def awaits_at_def)
  qed
  moreover have "awaited (vm_reveals s) d = (\<lambda>_. None)" for d using assms(1) by auto
  ultimately show ?thesis using assms
    by (simp add: sim_def rest_equal_iff without_batching_def immediate_def batcher_ok_def)
qed

text \<open>C2: batching reveals is transparent. Suppose the machine starts with no queued reveals and the engine's
  batch opening opens each share as a single opening does. If the machine that opens every
  share at once returns a value, then the batching machine returns the same value after the
  same number of steps, and the two end in related states: equal in everything but the
  registers that still await a share, and equal altogether once the call stack is empty. The
  run must not spill a register that awaits a share.\<close>

theorem reveal_batching_transparent:
  assumes "host_transparent host" "machine_ok s" "pending (vm_reveals s) = []" "batch_index (vm_reveals s) = None"
    and "\<And>e. vm_engine s = Some e \<Longrightarrow> batch_opens_each e"
    and "run_regular host n cp None s"
    and "execute_until_return_to_depth host n cp (without_batching s) = (Some (Inr v), t0)"
  shows "\<exists>t. execute_until_return_to_depth host n cp s = (Some (Inr v), t) \<and> sim t t0 \<and>
    (call_stack t0 = [] \<longrightarrow> t0 = t\<lparr>vm_reveals := vm_reveals t0\<rparr>)"
proof -
  have "run_loop host n cp None (without_batching s) = (Some (Inr v), t0)"
    using assms(7) by (auto simp: execute_until_return_to_depth_def split: prod.splits option.splits sum.splits)
  then obtain t where t: "run_loop host n cp None s = (Some (Inr v), t)" "sim t t0"
    using run_loop_sim [OF assms(1) sim_without_batching [OF assms(3,4,2,5)] assms(6)] by blast
  have "t0 = t\<lparr>vm_reveals := vm_reveals t0\<rparr>" if "call_stack t0 = []"
    using that sim_simps [OF t(2)] by (cases t; cases t0) simp
  then show ?thesis using t by (auto simp: execute_until_return_to_depth_def)
qed

definition reveal_code :: runtime_function where
  "reveal_code =
     \<lparr>rt_instructions = [packed_new OpMove 1 4 0, packed_new OpReturn 1 0 0], rt_constants = [], rt_call_targets = []\<rparr>"

definition reveal_machine :: vm_state where
  "reveal_machine =
     push_activation_frame sample_frame (Some reveal_code)
       (vm_state_new\<lparr>vm_engine := Some clear_engine, vm_register_layout := \<lparr>secret_start = 4\<rparr>\<rparr>)"

definition quiet_host :: host where
  "quiet_host f args s = (Inr Unit, s)"

lemma quiet_host_transparent: "host_transparent quiet_host"
  by (simp add: host_transparent_def quiet_host_def [abs_def] refines_def)

lemma run_regular_last:
  "(case cache_current c s of (Inr (rt, _), u) \<Rightarrow> regular_at rt u | _ \<Rightarrow> True) \<Longrightarrow> run_regular host (Suc 0) cp c s"
  by (auto split: prod.splits sum.splits instruction_outcome.splits)

lemmas loop_eval = cache_current_def current_frame_depth_def checked_sub_usize_def current_runtime_function_def
  execute_local_step_def fetch_instruction_def get_instruction_def on_frame_def
  advance_instruction_pointer_after_fetch_def decode_packed mbind_def mread_def mret_def mmodify_def continuing_def
  current_frame_def put_frame_def

lemmas register_eval = resolve_register_def ensure_registers_resolved_def has_pending_def ensure_frame_contains_register_def
  rf_len_def resolved_register_value_ref_def rf_get_def get_slot_eq set_slot_eq rf_write_ready_def
  assign_current_register_without_previous_def

lemmas move_eval = execute_mov_def first_try_def try_execute_fast_clear_copy_mov_def copy_clear_value_def
  execute_mov_general_def current_register_layout_def move_kind_def bank_def queue_reveal_to_register_def

lemmas reveal_eval = reveal_share_immediate_def share_runtime_def from_configured_def open_share_value_def
  open_share_data_def ensure_ready_def clear_engine_def open_bytes_def clear_share_value_to_vm_value_def
  map_mpc_backend_err_def mpc_ensure_ready_def queue_def index_new_def index_insert_def index_or_new_def
  should_auto_flush_def write_pending_reveal_placeholder_def set_pending_reveal_def

lemmas return_eval = return_current_frame_def clear_frame_def has_pending_frame_def update_closure_upvalues_def
  returning_from_entry_frame_def pop_activation_frame_def

lemmas reveal_machine_eval = loop_eval register_eval move_eval reveal_eval return_eval sample_simps
  reveal_machine_def reveal_code_def

theorem reveal_batching_transparent_witness:
  "\<exists>t. execute_until_return_to_depth quiet_host (Suc (Suc 0)) 0 reveal_machine = (Some (Inr (I64 7)), t)"
proof -
  let ?run = "execute_until_return_to_depth quiet_host (Suc (Suc 0)) 0 (without_batching reveal_machine)"
  have ok: "machine_ok reveal_machine"
    by (simp add: machine_ok_def frame_ready_def sample_simps register_file_ok_def register_slots_def reveal_machine_def)
  have start: "pending (vm_reveals reveal_machine) = []" "batch_index (vm_reveals reveal_machine) = None"
    by (simp_all add: reveal_machine_def sample_simps)
  have law: "vm_engine reveal_machine = Some e \<Longrightarrow> batch_opens_each e" for e
    by (auto simp: reveal_machine_def sample_simps batch_opens_each_def clear_engine_def)
  have regular: "run_regular quiet_host (Suc (Suc 0)) 0 None reveal_machine"
    by (subst run_regular.simps(2)) (simp add: reveal_machine_eval regular_at_def run_regular_last del: run_regular.simps(2))
  have "fst ?run = Some (Inr (I64 7))"
    by (simp add: reveal_machine_eval execute_until_return_to_depth_def without_batching_def)
  then have "?run = (Some (Inr (I64 7)), snd ?run)" by (metis prod.collapse)
  from reveal_batching_transparent [OF quiet_host_transparent ok start law regular this] show ?thesis by blast
qed

text \<open>C34: the spill instructions do not see a queued reveal: storing a register that awaits a share fails, and
  loading a spill slot into such a register fails as if the register did not exist, although it
  does.\<close>

theorem spill_of_awaiting_register_fails:
  assumes "current_frame s = Inr r" "register_file_ok (ar_registers r)"
    and "get_slot (ar_registers r) (unat x) = Some PendingReveal"
  shows "execute_sts slot x s = (Inl (PendingRevealWithoutQueuedBatch (unat x)), s) \<and>
    execute_lds x slot s = (Inl (RegisterOutOfBounds (unat x) (rf_len (ar_registers r))), s) \<and>
    unat x < rf_len (ar_registers r)"
proof -
  have x: "unat x < rf_len (ar_registers r)" "rf_get (ar_registers r) (unat x) = None"
    using assms(2,3) by (auto simp: get_slot_slots vec_get_Some_iff rf_len_slots rf_get_def)
  then show ?thesis using assms(1)
    by (simp add: execute_sts_def execute_lds_def mbind_def mread_def current_register_value_def register_value_ref_def
        ensure_frame_contains_register_def on_frame_def rf_write_ready_def)
qed

text \<open>Revealing into a clear register and spilling it, as the code generator does for a spilled variable.\<close>

theorem spill_of_awaiting_register_fails_witness:
  "\<exists>t. execute_mov 1 4 sample_machine = (Inr (), t) \<and>
       execute_sts 0 1 t = (Inl (PendingRevealWithoutQueuedBatch 1), t)"
proof -
  let ?f = "\<lparr>rf_layout = \<lparr>secret_start = 4\<rparr>, clear_bank = [Ready (I64 2), PendingReveal, Ready Unit, Ready Unit],
      secret_bank = [Ready (Share (SecretInt 64) (Opaque [7])), Ready Unit]\<rparr>"
  let ?b = "queue \<lparr>frame_depth = 0, dest_register = 1\<rparr> (SecretInt 64) (Opaque [7]) reveal_batcher_new"
  let ?t = "sample_machine\<lparr>call_stack := [sample_frame\<lparr>ar_registers := ?f\<rparr>], vm_reveals := ?b\<rparr>"
  have "execute_mov 1 4 sample_machine = (Inr (), ?t)"
    by (simp add: loop_eval register_eval move_eval reveal_eval sample_simps)
  moreover have "execute_sts 0 1 ?t = (Inl (PendingRevealWithoutQueuedBatch (unat (1 :: u32))), ?t)"
    using spill_of_awaiting_register_fails [of ?t "sample_frame\<lparr>ar_registers := ?f\<rparr>" 1 0]
    by (simp add: current_frame_def register_file_ok_def get_slot_eq)
  ultimately show ?thesis by auto
qed

end
