(* ===== verification/Locality.thy ===== *)
theory Locality
  imports Simulation
begin

text \<open>
  What an instruction other than a jump, call or return can change, whether it succeeds or
  fails: the registers, argument stack, spill area and comparison flag of the current frame,
  and the queued reveals of that frame. Neither the size and layout of its register file, nor
  its instruction pointer, nor any other frame changes.
\<close>

section \<open>Local changes\<close>

definition same_control :: "activation_record \<Rightarrow> activation_record \<Rightarrow> bool" where
  "same_control r r' =
     (ar_function_name r' = ar_function_name r \<and> ar_locals r' = ar_locals r \<and> ar_upvalues r' = ar_upvalues r \<and>
      ar_instruction_pointer r' = ar_instruction_pointer r \<and> ar_closure r' = ar_closure r \<and>
      rf_len (ar_registers r') = rf_len (ar_registers r) \<and> rf_layout (ar_registers r') = rf_layout (ar_registers r))"

definition batch_local :: "usize \<Rightarrow> reveal_batcher \<Rightarrow> reveal_batcher \<Rightarrow> bool" where
  "batch_local d b b' =
     (enabled b' = enabled b \<and> max_pending b' = max_pending b \<and>
      (batcher_ok b \<longrightarrow> batcher_ok b' \<and> (\<forall>d' x. d' \<noteq> d \<longrightarrow> awaited b' d' x = awaited b d' x)))"

definition touches :: "vm_state \<Rightarrow> vm_state \<Rightarrow> bool" where
  "touches s t =
     (t = s\<lparr>call_stack := call_stack t, vm_reveals := vm_reveals t\<rparr> \<and>
      length (call_stack t) = length (call_stack s) \<and> butlast (call_stack t) = butlast (call_stack s) \<and>
      (call_stack s \<noteq> [] \<longrightarrow> same_control (last (call_stack s)) (last (call_stack t))) \<and>
      batch_local (top s) (vm_reveals s) (vm_reveals t))"

definition localized :: "(vm_state, 'e, 'a) meth \<Rightarrow> bool" where
  "localized m = (\<forall>s. touches s (snd (m s)))"

lemma same_control_refl [simp]: "same_control r r"
  by (simp add: same_control_def)

lemma touches_refl [simp]: "touches s s"
  by (simp add: touches_def batch_local_def)

lemma touches_fields:
  assumes "touches s t"
  shows "vm_program t = vm_program s" "last_call_target t = last_call_target s"
    "frame_runtime_functions t = frame_runtime_functions s" "current_instruction t = current_instruction s"
    "vm_table_memory t = vm_table_memory s" "vm_engine t = vm_engine s"
    "vm_register_layout t = vm_register_layout s" "length (call_stack t) = length (call_stack s)"
    "call_stack t = [] \<longleftrightarrow> call_stack s = []" "butlast (call_stack t) = butlast (call_stack s)"
proof -
  show l: "length (call_stack t) = length (call_stack s)" using assms by (simp add: touches_def)
  then show "call_stack t = [] \<longleftrightarrow> call_stack s = []" by force
  show "butlast (call_stack t) = butlast (call_stack s)" using assms by (simp add: touches_def)
qed (use assms in \<open>simp_all add: touches_def rest_equal_iff\<close>)

lemma touches_frame:
  assumes "touches s t" "current_frame s = Inr r"
  obtains r' where "current_frame t = Inr r'" "same_control r r'"
  using assms touches_fields(9) [OF assms(1)] by (auto simp: touches_def current_frame_def split: if_splits)

lemma touches_trans: "touches s t \<Longrightarrow> touches t u \<Longrightarrow> touches s u"
proof -
  assume st: "touches s t" and tu: "touches t u"
  have "same_control (last (call_stack s)) (last (call_stack u))" if "call_stack s \<noteq> []"
    using st tu that touches_fields(9) [OF st] by (simp add: touches_def same_control_def)
  moreover have "batch_local (top s) (vm_reveals s) (vm_reveals u)"
    using st tu touches_fields(8) [OF st] by (simp add: touches_def batch_local_def)
  ultimately show ?thesis
    using touches_fields [OF st] touches_fields [OF tu] by (simp add: touches_def rest_equal_iff)
qed

lemma touches_put:
  assumes "current_frame s = Inr r" "same_control r r'" "batch_local (top s) (vm_reveals s) b"
  shows "touches s (put_frame r' (s\<lparr>vm_reveals := b\<rparr>))" "touches s ((put_frame r' s)\<lparr>vm_reveals := b\<rparr>)"
proof -
  have ne: "call_stack s \<noteq> []" "r = last (call_stack s)" using assms(1) by (auto simp: current_frame_def split: if_splits)
  show "touches s (put_frame r' (s\<lparr>vm_reveals := b\<rparr>))"
    using assms ne by (simp add: touches_def rest_equal_iff butlast_list_update last_list_update) (simp add: put_frame_def)
  then show "touches s ((put_frame r' s)\<lparr>vm_reveals := b\<rparr>)" by simp
qed

lemma touches_put_frame:
  assumes "current_frame s = Inr r" "same_control r r'"
  shows "touches s (put_frame r' s)"
  using touches_put(1) [OF assms, of "vm_reveals s"] by (simp add: batch_local_def)

lemma touches_reveals: "batch_local (top s) (vm_reveals s) b \<Longrightarrow> touches s (s\<lparr>vm_reveals := b\<rparr>)"
  by (simp add: touches_def)

section \<open>Methods with local changes\<close>

named_theorems localized_intro

lemma localizedI: "(\<And>s res t. m s = (res, t) \<Longrightarrow> touches s t) \<Longrightarrow> localized m"
  by (metis localized_def prod.collapse)

lemma localizedD: "localized m \<Longrightarrow> m s = (res, t) \<Longrightarrow> touches s t"
  by (metis localized_def snd_conv)

lemma localized_basic [localized_intro]: "localized (mret x)" "localized (merr e)" "localized (mread f)"
  by (simp_all add: localized_def mret_def merr_def mread_def)

lemma localized_mbind [localized_intro]:
  assumes "localized m" "\<And>x. localized (f x)"
  shows "localized (mbind m f)"
proof (rule localizedI)
  fix s res t
  assume run: "mbind m f s = (res, t)"
  obtain y u where m: "m s = (y, u)" by (cases "m s")
  have "touches s u" by (rule localizedD [OF assms(1) m])
  moreover have "touches u t"
    using run m localizedD [OF assms(2)] by (cases y) (auto simp: mbind_def)
  ultimately show "touches s t" by (rule touches_trans)
qed

lemma localized_if [localized_intro]: "localized m \<Longrightarrow> localized n \<Longrightarrow> localized (\<lambda>s. if P s then m s else n s)"
  by (simp add: localized_def)

lemma localized_prod [localized_intro]: "(\<And>x y. localized (f x y)) \<Longrightarrow> localized (case p of (x, y) \<Rightarrow> f x y)"
  by (cases p) simp

lemma localized_on_frame:
  assumes "\<And>r x r'. g r = Inr (x, r') \<Longrightarrow> same_control r r'"
  shows "localized (on_frame g)"
proof (rule localizedI)
  fix s res t assume "on_frame g s = (res, t)"
  then consider "t = s" | r x r' where "current_frame s = Inr r" "g r = Inr (x, r')" "t = put_frame r' s"
    by (auto simp: on_frame_def split: sum.splits)
  then show "touches s t"
  proof cases
    case 2
    then show ?thesis using touches_put_frame [OF 2(1) assms [OF 2(2)]] by simp
  qed simp
qed

lemma localized_first_try [localized_intro]: "localized m \<Longrightarrow> localized n \<Longrightarrow> localized (first_try m n)"
  unfolding first_try_def by (intro localized_mbind) (simp_all add: localized_basic)

section \<open>Registers\<close>

lemma rf_len_bank_update [simp]:
  "rf_len (f\<lparr>clear_bank := (clear_bank f)[i := sl]\<rparr>) = rf_len f"
  "rf_len (f\<lparr>secret_bank := (secret_bank f)[i := sl]\<rparr>) = rf_len f"
  by (simp_all add: rf_len_def)

lemma set_slot_shape: "set_slot f i sl = Some (old, g) \<Longrightarrow> rf_len g = rf_len f \<and> rf_layout g = rf_layout f"
  by (auto simp: set_slot_eq split: if_splits)

lemma write_ready_shape: "rf_write_ready f i v = Some g \<Longrightarrow> rf_len g = rf_len f \<and> rf_layout g = rf_layout f"
  using set_slot_shape by (auto simp: rf_write_ready_def split: option.splits)

lemma same_control_registers:
  "rf_len f = rf_len (ar_registers r) \<Longrightarrow> rf_layout f = rf_layout (ar_registers r) \<Longrightarrow> same_control r (r\<lparr>ar_registers := f\<rparr>)"
  by (simp add: same_control_def)

lemma same_control_writes [simp]:
  "same_control r (r\<lparr>ar_stack := st\<rparr>)" "same_control r (r\<lparr>ar_compare_flag := fl\<rparr>)" "same_control r (spill_store slot v r)"
  by (simp_all add: same_control_def spill_store_def Let_def)

lemma batcher_enabled:
  "enabled (cancel_destination k b) = enabled b" "enabled (queue k ty q b) = enabled b" "enabled (clear_frame d b) = enabled b"
  "max_pending (cancel_destination k b) = max_pending b" "max_pending (queue k ty q b) = max_pending b"
  "max_pending (clear_frame d b) = max_pending b"
  by (auto simp: cancel_destination_def reindex_from_def queue_def clear_frame_def rebuild_indices_def Let_def split: option.splits)

lemma batch_local_cancel: "batch_local d b (cancel_destination \<lparr>frame_depth = d, dest_register = x\<rparr> b)"
  using cancel_destination_spec(1) [of b] by (auto simp: batch_local_def awaited_cancel batcher_enabled)

lemma batch_local_queue: "batch_local d b (queue \<lparr>frame_depth = d, dest_register = x\<rparr> ty q b)"
  using queue_spec(1) [of b] by (auto simp: batch_local_def awaited_queue batcher_enabled)

lemma batch_local_clear: "batch_local d b (clear_frame d b)"
  using clear_frame_spec(1) [of b] by (auto simp: batch_local_def awaited_clear_frame batcher_enabled)

lemma localized_replace [localized_intro]: "localized (replace_current_register_value x v)"
  unfolding replace_current_register_value_def
  by (intro localized_on_frame) (auto simp: replace_value_def intro!: same_control_registers dest: set_slot_shape)

lemma localized_placeholder [localized_intro]: "localized (write_pending_reveal_placeholder x)"
  unfolding write_pending_reveal_placeholder_def
  by (intro localized_on_frame) (auto simp: set_pending_reveal_def intro!: same_control_registers dest: set_slot_shape)

lemma localized_fast_write [localized_intro]: "localized (write_fast_clear_register x v)"
  unfolding write_fast_clear_register_def
  by (intro localized_on_frame) (auto intro!: same_control_registers dest: write_ready_shape)

lemma localized_prepare_write [localized_intro]: "localized (prepare_current_register_write x v)"
proof -
  have "localized (\<lambda>s. case current_frame_depth s of
      Inl e \<Rightarrow> (Inl e, s)
    | Inr d \<Rightarrow> (Inr w, s\<lparr>vm_reveals := cancel_destination \<lparr>frame_depth = d, dest_register = x\<rparr> (vm_reveals s)\<rparr>))" for w
    by (rule localizedI) (auto simp: current_frame_depth_def checked_sub_usize_def batch_local_cancel intro!: touches_reveals
        split: sum.splits if_splits)
  then show ?thesis
    unfolding prepare_current_register_write_def by (intro localized_intro) (simp_all add: localized_def)
qed

lemma localized_assign [localized_intro]: "localized (assign_current_register_without_previous x v)"
proof (rule localizedI)
  fix s res t
  assume run: "assign_current_register_without_previous x v s = (res, t)"
  have gen: "localized (assign_prepared x v)" "localized (mbind (replace_current_register_value x v) (\<lambda>_. mret ()))"
    unfolding assign_prepared_def by (intro localized_intro)+
  consider "t = s" | "assign_prepared x v s = (res, t)" | "mbind (replace_current_register_value x v) (\<lambda>_. mret ()) s = (res, t)"
    | r f where "current_frame s = Inr r" "rf_write_ready (ar_registers r) (unat x) v = Some f" "t = put_frame (r\<lparr>ar_registers := f\<rparr>) s"
    using run unfolding assign_current_register_without_previous_def
    by (cases "has_pending (vm_reveals s)"; cases "current_frame s")
      (auto simp: ensure_frame_contains_register_def split: if_splits option.splits)
  then show "touches s t"
  proof cases
    case 4
    then show ?thesis using touches_put_frame same_control_registers write_ready_shape by blast
  qed (use gen localizedD in auto)
qed

lemma localized_assign_all [localized_intro]: "localized (assign_all xvs)"
  by (induction xvs rule: assign_all.induct) (simp_all add: localized_intro)

lemma localized_flush_reveals: "current_frame_depth s = Inr d \<Longrightarrow> touches s (snd (flush_reveals d s))"
proof -
  assume d: "current_frame_depth s = Inr d"
  then have "d = top s" by (auto simp: current_frame_depth_def checked_sub_usize_def split: if_splits)
  then show ?thesis
    using batch_local_clear by (auto simp: flush_reveals_def flush_def Let_def intro!: touches_reveals split: option.splits sum.splits)
qed

lemma current_frame_depth_Inr: "current_frame_depth s = Inr d \<longleftrightarrow> call_stack s \<noteq> [] \<and> d = top s"
  by (cases "call_stack s") (auto simp: current_frame_depth_def checked_sub_usize_def)

lemma localized_flush [localized_intro]: "localized flush_pending_reveals"
proof (rule localizedI)
  fix s res t assume run: "flush_pending_reveals s = (res, t)"
  let ?rest = "\<lambda>results. mbind (mread (\<lambda>s. collect (map (\<lambda>q. let x = dest_register (revealed_destination q)
      in map_ok (Pair x) (prepare_register_write_value s x (revealed_value q))) results))) assign_all"
  have rest: "localized (?rest rs)" for rs by (intro localized_intro)
  show "touches s t"
  proof (cases "call_stack s = [] \<or> \<not> has_pending_frame (vm_reveals s) (top s)")
    case True
    then have "t = s"
      using run current_frame_depth_Inr [of s "top s"]
      by (auto simp: flush_pending_reveals_def mbind_def mread_def current_frame_depth_def checked_sub_usize_def)
    then show ?thesis by simp
  next
    case False
    then have d: "current_frame_depth s = Inr (top s)" using current_frame_depth_Inr by blast
    obtain y u where y: "flush_reveals (top s) s = (y, u)" by (cases "flush_reveals (top s) s")
    have "touches s u" using localized_flush_reveals [OF d] y by simp
    moreover have "touches u t"
      using run False d y localizedD [OF rest] by (cases y) (auto simp: flush_pending_reveals_def mbind_def mread_def)
    ultimately show ?thesis by (rule touches_trans)
  qed
qed

lemma localized_ensure [localized_intro]: "localized (ensure_registers_resolved xs)"
proof (rule localizedI)
  fix s res t assume "ensure_registers_resolved xs s = (res, t)"
  then have "t = s \<or> flush_pending_reveals s = (res, t)"
    by (auto simp: ensure_registers_resolved_def split: sum.splits if_splits)
  then show "touches s t" using localizedD [OF localized_flush] by auto
qed

lemma localized_resolve [localized_intro]:
  "localized (resolve_register x)" "localized (resolve_register_pair x y)"
  "localized (with_resolved_register x f)" "localized (with_resolved_register_pair x y g)"
  unfolding resolve_register_def resolve_register_pair_def with_resolved_register_def with_resolved_register_pair_def
  by (intro localized_intro)+

lemma localized_queue_reveal [localized_intro]: "localized (queue_reveal_to_register v x)"
proof (rule localizedI)
  fix s res t assume run: "queue_reveal_to_register v x s = (res, t)"
  have imm: "localized (mbind (mread (\<lambda>s. reveal_share_immediate s v)) (assign_current_register_without_previous x))"
    by (intro localized_intro)
  let ?fin = "\<lambda>d s. if should_auto_flush (vm_reveals s) d then flush_pending_reveals s else write_pending_reveal_placeholder x s"
  have fin: "localized (?fin d)" for d by (intro localized_intro)
  consider "t = s" | "mbind (mread (\<lambda>s. reveal_share_immediate s v)) (assign_current_register_without_previous x) s = (res, t)"
    | ty q where "?fin (top s) (s\<lparr>vm_reveals := queue \<lparr>frame_depth = top s, dest_register = x\<rparr> ty q (vm_reveals s)\<rparr>) = (res, t)"
  proof (cases "enabled (vm_reveals s)")
    case True
    show ?thesis
    proof (cases "current_frame_depth s")
      case (Inl e)
      then show ?thesis using run True that(1)
        by (cases "mpc_ensure_ready s") (auto simp: queue_reveal_to_register_def mbind_def mread_def)
    next
      case (Inr d)
      then have "current_frame_depth s = Inr (top s)" using current_frame_depth_Inr by blast
      then show ?thesis using run True that(1,3)
        by (cases "mpc_ensure_ready s"; cases v)
          (auto simp: queue_reveal_to_register_def mbind_def mread_def mmodify_def merr_def simp del: One_nat_def)
    qed
  qed (use run that(2) in \<open>simp add: queue_reveal_to_register_def\<close>)
  then show "touches s t"
  proof cases
    case 2
    then show ?thesis using localizedD [OF imm] by blast
  next
    case 3
    have "touches s (s\<lparr>vm_reveals := queue \<lparr>frame_depth = top s, dest_register = x\<rparr> ty q (vm_reveals s)\<rparr>)"
      by (intro touches_reveals batch_local_queue)
    then show ?thesis using localizedD [OF fin 3] by (rule touches_trans)
  qed simp
qed

section \<open>Instructions\<close>

lemma localized_fast_binary [localized_intro]: "localized (try_execute_fast_clear_binary_op d x y oper)"
proof (rule localizedI)
  fix s res t assume "try_execute_fast_clear_binary_op d x y oper s = (res, t)"
  then have "t = s \<or> (\<exists>u. mbind (write_fast_clear_register d u) (\<lambda>_. mret True) s = (res, t))"
    by (auto simp: try_execute_fast_clear_binary_op_def split: if_splits sum.splits option.splits list.splits)
  moreover have "localized (mbind (write_fast_clear_register d u) (\<lambda>_. mret True))" for u by (intro localized_intro)
  ultimately show "touches s t" using localizedD by (metis touches_refl)
qed

lemma localized_fast_not [localized_intro]: "localized (try_execute_fast_clear_not d x)"
proof (rule localizedI)
  fix s res t assume "try_execute_fast_clear_not d x s = (res, t)"
  then have "t = s \<or> (\<exists>u. mbind (write_fast_clear_register d u) (\<lambda>_. mret True) s = (res, t))"
    by (auto simp: try_execute_fast_clear_not_def split: if_splits sum.splits option.splits list.splits)
  moreover have "localized (mbind (write_fast_clear_register d u) (\<lambda>_. mret True))" for u by (intro localized_intro)
  ultimately show "touches s t" using localizedD by (metis touches_refl)
qed

lemma localized_flag: "localized (on_frame (\<lambda>r. Inr (x, r\<lparr>ar_compare_flag := c\<rparr>)))"
  by (intro localized_on_frame) auto

lemma localized_fast_cmp [localized_intro]: "localized (try_execute_fast_clear_cmp x y)"
proof (rule localizedI)
  fix s res t assume "try_execute_fast_clear_cmp x y s = (res, t)"
  then have "t = s \<or> (\<exists>c. on_frame (\<lambda>r. Inr (True, r\<lparr>ar_compare_flag := compare_flag_from_ordering c\<rparr>)) s = (res, t))"
    by (auto simp: try_execute_fast_clear_cmp_def split: if_splits sum.splits option.splits list.splits)
  then show "touches s t" using localizedD [OF localized_flag] by auto
qed

lemma fast_ld_outcome:
  assumes run: "try_execute_fast_clear_ld d off s = (res, t)"
  shows "t = s \<or> (\<exists>r i r'. current_frame s = Inr r \<and> copy_stack_value_to_clear_register r (unat d) i = Some (CCopied, r') \<and>
      t = put_frame r' s)"
proof (cases "rbind (current_frame s) (\<lambda>r. map_ok (Pair r) (stack_offset_resolve_index off (length (ar_stack r))))")
  case (Inr ri)
  then obtain r i where r: "current_frame s = Inr r" "ri = (r, i)" by (auto simp: rbind_Inr_iff map_ok_Inr_iff)
  show ?thesis
    using run Inr r
    by (cases "copy_stack_value_to_clear_register r (unat d) i")
      (force simp: try_execute_fast_clear_ld_def split: if_splits clear_register_copy_result.splits prod.splits)+
qed (use run in \<open>simp add: try_execute_fast_clear_ld_def split: if_splits\<close>)

lemma localized_fast_ld [localized_intro]: "localized (try_execute_fast_clear_ld d off)"
proof (rule localizedI)
  fix s res t assume "try_execute_fast_clear_ld d off s = (res, t)"
  note fast_ld_outcome [OF this]
  moreover have "same_control r r'" if "copy_stack_value_to_clear_register r (unat d) i = Some (CCopied, r')" for r i r'
    using that by (auto simp: copy_stack_value_to_clear_register_def write_clear_value_from_ref_def intro!: same_control_registers
        split: if_splits)
  ultimately show "touches s t" using touches_put_frame by auto
qed

lemma localized_fast_mov [localized_intro]:
  "localized (try_execute_fast_clear_copy_mov d x)" "localized (try_execute_fast_secret_copy_mov d x)"
proof -
  have c: "same_control r (r\<lparr>ar_registers := f\<rparr>)" if "copy_clear_value (ar_registers r) a b = (k, f)" for r f a b k
    using that by (auto simp: copy_clear_value_def copy_clear_bank_value_def intro!: same_control_registers split: if_splits option.splits)
  have s: "same_control r (r\<lparr>ar_registers := f\<rparr>)" if "copy_secret_value (ar_registers r) a b = (k, f)" for r f a b k
    using that by (auto simp: copy_secret_value_def copy_secret_bank_value_def intro!: same_control_registers split: if_splits option.splits)
  have g: "localized (on_frame (\<lambda>r. case copy_clear_value (ar_registers r) (unat d) (unat x) of
             (CCopied, f) \<Rightarrow> Inr (True, r\<lparr>ar_registers := f\<rparr>)
           | (CNotClearRegister, _) \<Rightarrow> Inr (False, r)
           | (CSourcePendingReveal, _) \<Rightarrow> Inl (PendingRevealWithoutQueuedBatch (unat x))
           | (CRegisterOutOfBounds, _) \<Rightarrow> Inl (out_of_bounds_of_two r d x)))"
    by (intro localized_on_frame) (auto split: prod.splits clear_register_copy_result.splits dest: c)
  have h: "localized (on_frame (\<lambda>r. case copy_secret_value (ar_registers r) (unat d) (unat x) of
             (SCopied, f) \<Rightarrow> Inr (True, r\<lparr>ar_registers := f\<rparr>)
           | (SNotSecretRegister, _) \<Rightarrow> Inr (False, r)
           | (SSourceNotSecretValue, _) \<Rightarrow> Inr (False, r)
           | (SSourcePendingReveal, _) \<Rightarrow> Inl (PendingRevealWithoutQueuedBatch (unat x))
           | (SRegisterOutOfBounds, _) \<Rightarrow> Inl (out_of_bounds_of_two r d x)))"
    by (intro localized_on_frame) (auto split: prod.splits secret_register_copy_result.splits dest: s)
  show "localized (try_execute_fast_clear_copy_mov d x)" "localized (try_execute_fast_secret_copy_mov d x)"
    using g h by (auto simp: localized_def try_execute_fast_clear_copy_mov_def try_execute_fast_secret_copy_mov_def)
qed

lemma localized_general [localized_intro]:
  "localized (arith_general oper d x y)" "localized (binary_general oper2 d x y)" "localized (execute_not_general d x)"
  "localized (execute_ld_general d off)" "localized (execute_cmp_general x y)" "localized (execute_mov_general d x)"
  unfolding arith_general_def binary_general_def execute_not_general_def execute_ld_general_def execute_cmp_general_def
    execute_mov_general_def
  by (intro localized_intro localized_flag | simp add: localized_intro)+

lemma localized_operators [localized_intro]:
  "localized (execute_binary_op bop d x y)" "localized (execute_shift_op sop d x y)" "localized (execute_unary_op uop d x)"
  "localized (execute_cmp x y)" "localized (execute_ld d off)"
  by (cases bop; cases sop; cases uop;
      simp add: execute_add_def execute_sub_def execute_mul_def execute_div_def execute_mod_def execute_and_def execute_or_def
        execute_xor_def execute_shl_def execute_shr_def execute_not_def execute_cmp_def execute_ld_def
        try_execute_fast_clear_add_def localized_intro)+

lemma localized_mov [localized_intro]: "localized (execute_mov d x)"
proof -
  let ?m = "first_try (try_execute_fast_clear_copy_mov d x)
     (\<lambda>s. if is_secret (vm_register_layout s) (unat d) \<and> is_secret (vm_register_layout s) (unat x)
          then first_try (try_execute_fast_secret_copy_mov d x) (execute_mov_general d x) s
          else execute_mov_general d x s)"
  have "localized ?m" by (intro localized_intro)
  then show ?thesis by (simp add: localized_def execute_mov_def)
qed

lemma localized_frame_only [localized_intro]:
  "localized (execute_ldi d v)" "localized (execute_lds d slot)" "localized (execute_sts slot x)" "localized (execute_pusharg x)"
  unfolding execute_ldi_def execute_lds_def execute_sts_def execute_pusharg_def
  by (intro localized_intro localized_on_frame;
      auto simp: rbind_Inr_iff intro!: same_control_registers dest: write_ready_shape)+

end
