(* ===== verification/Straight_Line.thy ===== *)
theory Straight_Line
  imports Locality Transparency
begin

text \<open>
  Instructions other than jumps, calls and returns change only their own frame, and code whose
  jumps all go forward and which calls nothing ends: each step moves the instruction pointer
  up, and the step at the end of the code returns.
\<close>

section \<open>Steps inside a frame\<close>

fun stays_in_frame :: "runtime_instruction \<Rightarrow> bool" where
  "stays_in_frame (Jump _ _) = False"
| "stays_in_frame (Call _) = False"
| "stays_in_frame (Return _) = False"
| "stays_in_frame _ = True"

lemma localized_continuing [localized_intro]: "localized m \<Longrightarrow> localized (continuing m)"
  unfolding continuing_def by (intro localized_intro)

lemma localized_instruction: "stays_in_frame i \<Longrightarrow> localized (execute_instruction host cp rt i)"
  by (cases i) (simp_all add: localized_intro)

lemma local_outcome:
  "stays_in_frame i \<Longrightarrow> execute_instruction host cp rt i s = (Inr out, t) \<Longrightarrow> out = OutcomeContinue"
  by (cases i) (auto simp: continuing_def mbind_Inr_iff mret_def)

text \<open>Every jump of the code goes forward and there is no call.\<close>

definition forward_code :: "runtime_function \<Rightarrow> bool" where
  "forward_code rt =
     (\<forall>ip < length (rt_instructions rt).
        case decode (rt_instructions rt ! ip) of
          Some (Jump c target) \<Rightarrow> ip < unat target
        | Some (Call _) \<Rightarrow> False
        | _ \<Rightarrow> True)"

lemma get_instruction_Some:
  "get_instruction rt ip = Some p \<longleftrightarrow> ip < length (rt_instructions rt) \<and> p = rt_instructions rt ! ip"
  by (auto simp: get_instruction_def vec_get_def)

lemma jump_run:
  assumes "current_frame s = Inr r"
  shows "\<exists>t r'. execute_instruction host cp rt (Jump c target) s = (Inr OutcomeContinue, t) \<and> length (call_stack t) = length (call_stack s) \<and>
    current_frame t = Inr r' \<and>
    (ar_instruction_pointer r' = unat target \<or> ar_instruction_pointer r' = ar_instruction_pointer r)"
  using assms current_frame_depth_top [OF assms]
  by (simp add: continuing_def execute_jump_def on_frame_def mbind_def mret_def)

lemma return_ends:
  assumes "return_current_frame v cp s = (res, t)" "length (call_stack s) = Suc cp"
  shows "res \<noteq> Inr OutcomeContinue"
proof -
  have ne: "call_stack s \<noteq> []" using assms(2) by auto
  have d: "current_frame_depth s = Inr (top s)" using ne current_frame_depth_Inr by blast
  have "returning_from_entry_frame cp (Suc cp)" by (simp add: returning_from_entry_frame_def checked_sub_usize_def)
  then show ?thesis
    using assms ne d
    by (auto simp: return_current_frame_def mbind_def mread_def mmodify_def update_closure_upvalues_def on_frame_def current_frame_def)
qed

lemma resolve_then_return_ends:
  assumes "mbind (resolve_register x) (\<lambda>v. return_current_frame v cp) s = (res, t)" "length (call_stack s) = Suc cp"
  shows "res \<noteq> Inr OutcomeContinue"
proof -
  obtain y u where y: "resolve_register x s = (y, u)" by (cases "resolve_register x s")
  have "length (call_stack u) = Suc cp" using touches_fields(8) [OF localizedD [OF localized_resolve(1) y]] assms(2) by simp
  then show ?thesis using assms(1) y return_ends by (cases y) (auto simp: mbind_def)
qed

lemma function_end_ends:
  assumes "handle_function_end cp s = (res, t)" "length (call_stack s) = Suc cp"
  shows "res \<noteq> Inr OutcomeContinue"
  using assms resolve_then_return_ends
  by (cases "current_return_register s") (auto simp: handle_function_end_def mbind_def mread_def split: sum.splits)

text \<open>A step of forward code that does not end the run moves the instruction pointer up.\<close>

lemma forward_step:
  assumes code: "forward_code rt" and len: "length (call_stack s) = Suc cp" and r: "current_frame s = Inr r"
    and run: "execute_local_step host cp rt s = (Inr OutcomeContinue, t)"
  shows "ar_instruction_pointer r < length (rt_instructions rt) \<and> length (call_stack t) = Suc cp \<and>
    (\<exists>r'. current_frame t = Inr r' \<and> ar_instruction_pointer r < ar_instruction_pointer r')"
proof -
  let ?ip = "ar_instruction_pointer r"
  let ?r = "advance_instruction_pointer_after_fetch r"
  let ?u = "put_frame ?r s"
  have fin: "handle_function_end cp s \<noteq> (Inr OutcomeContinue, t)" using function_end_ends len by blast
  obtain p where p: "get_instruction rt ?ip = Some p"
    using run r len fin put_current_frame [OF r]
    by (cases "get_instruction rt ?ip") (auto simp: execute_local_step_def mbind_def fetch_instruction_def on_frame_def)
  then have ip: "?ip < length (rt_instructions rt)" "p = rt_instructions rt ! ?ip" by (simp_all add: get_instruction_Some)
  have fetch: "fetch_instruction rt s = (Inr (Some p), ?u)" using r p by (simp add: fetch_instruction_def on_frame_def)
  then obtain i where i: "decode p = Some i" "execute_instruction host cp rt i ?u = (Inr OutcomeContinue, t)"
    using run len by (cases "decode p") (auto simp: execute_local_step_def mbind_def merr_def)
  have u: "current_frame ?u = Inr ?r" "length (call_stack ?u) = Suc cp" using current_frame_depth_top [OF r] len by simp_all
  have adv: "ar_instruction_pointer ?r = Suc ?ip" by (simp add: advance_instruction_pointer_after_fetch_def)
  have code_i: "case i of Jump c target \<Rightarrow> ?ip < unat target | Call _ \<Rightarrow> False | _ \<Rightarrow> True"
    using code ip i(1) by (auto simp: forward_code_def split: runtime_instruction.split)
  show ?thesis
  proof (cases "stays_in_frame i")
    case True
    have tt: "touches ?u t" by (rule localizedD [OF localized_instruction [OF True] i(2)])
    obtain r' where "current_frame t = Inr r'" "same_control ?r r'" using touches_frame [OF tt u(1)] by blast
    then show ?thesis using ip(1) adv touches_fields(8) [OF tt] u(2) by (simp add: same_control_def)
  next
    case False
    then consider c target where "i = Jump c target" | x where "i = Return x" using code_i by (cases i) auto
    then show ?thesis
    proof cases
      case 1
      then show ?thesis using jump_run [OF u(1), of host cp rt c target] i(2) code_i ip(1) adv u(2) by auto
    next
      case 2
      have False using resolve_then_return_ends [OF _ u(2), of x "Inr OutcomeContinue" t] i(2) 2 by simp
      then show ?thesis ..
    qed
  qed
qed

lemma forward_run_ends:
  assumes code: "forward_code rt"
  shows "length (call_stack s) = Suc cp \<Longrightarrow> current_frame s = Inr r \<Longrightarrow>
    length (rt_instructions rt) - ar_instruction_pointer r < n \<Longrightarrow>
    \<exists>res t. run_loop host n cp (Some (cp, rt)) s = (Some res, t)"
proof (induction n arbitrary: s r)
  case (Suc n)
  have d: "current_frame_depth s = Inr cp" using Suc.prems(1) current_frame_depth_Inr [of s cp] by force
  have c: "cache_current (Some (cp, rt)) s = (Inr (rt, Some (cp, rt)), s)" by (simp add: cache_current_def mbind_def mread_def d mret_def)
  obtain out t where out: "execute_local_step host cp rt s = (out, t)" by (cases "execute_local_step host cp rt s")
  show ?case
  proof (cases "out = Inr OutcomeContinue")
    case True
    then obtain r' where "ar_instruction_pointer r < length (rt_instructions rt)" "length (call_stack t) = Suc cp"
        "current_frame t = Inr r'" "ar_instruction_pointer r < ar_instruction_pointer r'"
      using forward_step [OF code Suc.prems(1,2)] out by blast
    then have "\<exists>res u. run_loop host n cp (Some (cp, rt)) t = (Some res, u)" using Suc.IH Suc.prems(3) by simp
    then show ?thesis using c out True by (simp add: mbind_def mret_def)
  next
    case False
    then show ?thesis using c out by (cases out; cases "projr out") (auto simp: mbind_def mret_def)
  qed
qed simp

section \<open>Properties\<close>

text \<open>C14: an instruction that is not a jump, a call or a return changes nothing outside its own frame, also
  when it fails: the other frames, the program, the caches, table memory, the settings of the reveal
  batch and the queued reveals of other frames stay as they are, and in its own frame the instruction
  pointer, the captured variables and the size and layout of the register file do.\<close>

theorem instruction_changes_only_its_frame:
  assumes "stays_in_frame i" "execute_instruction host cp rt i s = (res, t)" "batcher_ok (vm_reveals s)"
    and "current_frame s = Inr r"
  shows "t = s\<lparr>call_stack := call_stack t, vm_reveals := vm_reveals t\<rparr> \<and>
    butlast (call_stack t) = butlast (call_stack s) \<and> length (call_stack t) = length (call_stack s) \<and>
    batcher_ok (vm_reveals t) \<and> enabled (vm_reveals t) = enabled (vm_reveals s) \<and>
    max_pending (vm_reveals t) = max_pending (vm_reveals s) \<and>
    (\<forall>d x. d \<noteq> length (call_stack s) - 1 \<longrightarrow> awaited (vm_reveals t) d x = awaited (vm_reveals s) d x) \<and>
    (\<exists>r'. current_frame t = Inr r' \<and> ar_instruction_pointer r' = ar_instruction_pointer r \<and>
       ar_locals r' = ar_locals r \<and> ar_upvalues r' = ar_upvalues r \<and> ar_function_name r' = ar_function_name r \<and>
       rf_len (ar_registers r') = rf_len (ar_registers r) \<and> rf_layout (ar_registers r') = rf_layout (ar_registers r))"
proof -
  have tt: "touches s t" by (rule localizedD [OF localized_instruction [OF assms(1)] assms(2)])
  obtain r' where "current_frame t = Inr r'" "same_control r r'" using touches_frame [OF tt assms(4)] by blast
  then show ?thesis using tt assms(3) by (simp add: touches_def batch_local_def same_control_def)
qed

text \<open>C6: code whose jumps go forward and which calls nothing returns, with a value or an error, after at most
  one step for each instruction that is left and one more, whatever the engine answers.\<close>

theorem forward_code_terminates:
  assumes "length (call_stack s) = Suc cp" "current_frame s = Inr r"
    and "current_runtime_function s = (Inr rt, s')" "forward_code rt"
  shows "\<exists>res t. execute_until_return_to_depth host (Suc (length (rt_instructions rt) - ar_instruction_pointer r)) cp s = (Some res, t)"
proof -
  let ?n = "length (rt_instructions rt) - ar_instruction_pointer r"
  have d: "current_frame_depth s = Inr cp" using assms(1) current_frame_depth_Inr [of s cp] by force
  have s': "length (call_stack s') = Suc cp" "current_frame s' = Inr r"
    using assms(1-3) by (auto simp: current_runtime_function_def current_frame_def split: sum.splits option.splits if_splits)
  have d': "current_frame_depth s' = Inr cp" using s'(1) current_frame_depth_Inr [of s' cp] by force
  have c: "cache_current None s = (Inr (rt, Some (cp, rt)), s')"
    using assms(3) by (simp add: cache_current_def mbind_def mread_def d mret_def)
  have "run_loop host (Suc ?n) cp None s = run_loop host (Suc ?n) cp (Some (cp, rt)) s'"
    using c by (simp add: cache_current_def mbind_def mread_def mret_def d')
  moreover obtain res t where "run_loop host (Suc ?n) cp (Some (cp, rt)) s' = (Some res, t)"
    using forward_run_ends [OF assms(4) s', of "Suc ?n"] by blast
  ultimately have "run_loop host (Suc ?n) cp None s = (Some res, t)" by simp
  then show ?thesis
    unfolding execute_until_return_to_depth_def by (cases res) (simp_all del: run_loop.simps)
qed

theorem forward_code_terminates_witness:
  "\<exists>res t. execute_until_return_to_depth quiet_host 3 0 reveal_machine = (Some res, t)"
proof -
  have code: "forward_code reveal_code"
    by (auto simp: forward_code_def reveal_code_def decode_packed less_Suc_eq)
  have m: "length (call_stack reveal_machine) = Suc 0" "current_frame reveal_machine = Inr sample_frame"
    "current_runtime_function reveal_machine = (Inr reveal_code, reveal_machine)"
    by (simp_all add: reveal_machine_def sample_simps current_frame_def current_runtime_function_def current_frame_depth_def
        checked_sub_usize_def)
  have "Suc (length (rt_instructions reveal_code) - ar_instruction_pointer sample_frame) = 3"
    by (simp add: reveal_code_def sample_simps)
  then show ?thesis using forward_code_terminates [OF m code, of quiet_host] by simp
qed

text \<open>A move whose queued share replaces nothing but a register of its frame.\<close>

theorem instruction_changes_only_its_frame_witness:
  "butlast (call_stack (snd (execute_instruction quiet_host 0 reveal_code (Move 1 4) reveal_machine))) = [] \<and>
   vm_program (snd (execute_instruction quiet_host 0 reveal_code (Move 1 4) reveal_machine)) = program_new"
proof -
  let ?t = "snd (execute_instruction quiet_host 0 reveal_code (Move 1 4) reveal_machine)"
  obtain res t where run: "execute_instruction quiet_host 0 reveal_code (Move 1 4) reveal_machine = (res, t)" by force
  have m: "current_frame reveal_machine = Inr sample_frame" "batcher_ok (vm_reveals reveal_machine)"
      "butlast (call_stack reveal_machine) = []" "vm_program reveal_machine = program_new"
    by (simp_all add: reveal_machine_def sample_simps current_frame_def batcher_ok_def)
  have "t = reveal_machine\<lparr>call_stack := call_stack t, vm_reveals := vm_reveals t\<rparr> \<and> butlast (call_stack t) = []"
    using instruction_changes_only_its_frame [OF _ run m(2,1)] m(3) by simp
  then have "butlast (call_stack t) = []" "vm_program t = program_new" using m(4) by (auto simp: rest_equal_iff)
  then show ?thesis using run by simp
qed

end
