(* ===== verification/Machine_Invariant.thy ===== *)
theory Machine_Invariant
  imports Locality Transparency
begin

text \<open>
  The invariant of the machine: every frame has a well-formed register file of the machine's
  layout and a slot for its runtime function, and a register holds the placeholder of a reveal
  exactly when the batcher has a share queued for it. Every instruction, call and return that
  succeeds keeps it, whatever the engine answers, and unwinding after a failure keeps it.
\<close>

section \<open>The invariant\<close>

definition frame_ok :: "register_layout \<Rightarrow> (u32 \<Rightarrow> (share_type \<times> share_data) option) \<Rightarrow> register_file \<Rightarrow> bool" where
  "frame_ok l a f =
     (register_file_ok f \<and> rf_layout f = l \<and>
      (\<forall>i < rf_len f. register_slots f ! i = PendingReveal \<longleftrightarrow> awaits_at a i \<noteq> None) \<and>
      (\<forall>x. a x \<noteq> None \<longrightarrow> unat x < rf_len f \<and> is_clear l (unat x)))"

definition vm_ok :: "vm_state \<Rightarrow> bool" where
  "vm_ok s =
     (length (frame_runtime_functions s) = length (call_stack s) \<and> batcher_ok (vm_reveals s) \<and>
      (\<forall>d < length (call_stack s).
         frame_ok (vm_register_layout s) (awaited (vm_reveals s) d) (ar_registers (call_stack s ! d))) \<and>
      (\<forall>d x. awaited (vm_reveals s) d x \<noteq> None \<longrightarrow> d < length (call_stack s)))"

definition keeps :: "(vm_state, 'e, 'a) meth \<Rightarrow> bool" where
  "keeps m = (\<forall>s x t. vm_ok s \<longrightarrow> m s = (Inr x, t) \<longrightarrow> vm_ok t)"

lemma keepsI: "(\<And>s x t. vm_ok s \<Longrightarrow> m s = (Inr x, t) \<Longrightarrow> vm_ok t) \<Longrightarrow> keeps m"
  by (simp add: keeps_def)

lemma keepsD: "keeps m \<Longrightarrow> vm_ok s \<Longrightarrow> m s = (Inr x, t) \<Longrightarrow> vm_ok t"
  by (simp add: keeps_def)

named_theorems keeps_intro

lemma keeps_basic [keeps_intro]: "keeps (mret x)" "keeps (merr e)" "keeps (mread f)"
  by (simp_all add: keeps_def mret_def merr_def mread_def)

lemma keeps_mbind [keeps_intro]: "keeps m \<Longrightarrow> (\<And>x. keeps (f x)) \<Longrightarrow> keeps (mbind m f)"
proof (rule keepsI)
  fix s y u
  assume m: "keeps m" and f: "\<And>x. keeps (f x)" and ok: "vm_ok s" and run: "mbind m f s = (Inr y, u)"
  obtain x t where "m s = (Inr x, t)" "f x t = (Inr y, u)" using run by (auto simp: mbind_Inr_iff)
  then show "vm_ok u" using keepsD [OF m ok] keepsD [OF f] by blast
qed

lemma keeps_if [keeps_intro]: "keeps m \<Longrightarrow> keeps n \<Longrightarrow> keeps (\<lambda>s. if P s then m s else n s)"
  unfolding keeps_def by (metis (full_types))

lemma keeps_prod [keeps_intro]: "(\<And>x y. keeps (f x y)) \<Longrightarrow> keeps (case p of (x, y) \<Rightarrow> f x y)"
  by (cases p) simp

lemma vm_ok_new: "vm_ok vm_state_new"
  by (simp add: vm_ok_def vm_state_new_def batcher_ok_new) (simp add: reveal_batcher_new_def)

lemma vm_ok_fields:
  assumes "vm_ok s"
  shows "vm_ok (s\<lparr>last_call_target := c\<rparr>)" "vm_ok (s\<lparr>current_instruction := ci\<rparr>)"
    "length fs = length (frame_runtime_functions s) \<Longrightarrow> vm_ok (s\<lparr>frame_runtime_functions := fs\<rparr>)"
  using assms by (simp_all add: vm_ok_def)

lemma vm_ok_frame:
  assumes "vm_ok s" "current_frame s = Inr r"
  shows "frame_ok (vm_register_layout s) (awaited (vm_reveals s) (top s)) (ar_registers r)"
    "register_file_ok (ar_registers r)" "rf_layout (ar_registers r) = vm_register_layout s"
    "r = call_stack s ! top s" "top s < length (call_stack s)"
proof -
  have ne: "call_stack s \<noteq> []" "r = last (call_stack s)" using assms(2) by (auto simp: current_frame_def split: if_splits)
  then show r: "r = call_stack s ! top s" "top s < length (call_stack s)" by (simp_all add: last_conv_nth)
  then show f: "frame_ok (vm_register_layout s) (awaited (vm_reveals s) (top s)) (ar_registers r)"
    using assms(1) by (simp add: vm_ok_def)
  show "register_file_ok (ar_registers r)" "rf_layout (ar_registers r) = vm_register_layout s"
    using f by (simp_all add: frame_ok_def)
qed

lemma vm_ok_awaited: "vm_ok s \<Longrightarrow> awaited (vm_reveals s) d x \<noteq> None \<Longrightarrow> d < length (call_stack s)"
  unfolding vm_ok_def by blast

lemma vm_ok_batcher: "vm_ok s \<Longrightarrow> batcher_ok (vm_reveals s)"
  by (simp add: vm_ok_def)

lemma vm_ok_update:
  assumes ok: "vm_ok s" and ne: "call_stack s \<noteq> []"
    and b: "batcher_ok b" "\<And>d x. d \<noteq> top s \<Longrightarrow> awaited b d x = awaited (vm_reveals s) d x"
    and f: "frame_ok (vm_register_layout s) (awaited b (top s)) (ar_registers r)"
  shows "vm_ok (put_frame r (s\<lparr>vm_reveals := b\<rparr>))"
proof -
  have "frame_ok (vm_register_layout s) (awaited b d) (ar_registers ((call_stack s)[top s := r] ! d))"
    if d: "d < length (call_stack s)" for d
  proof (cases "d = top s")
    case False
    then have "awaited b d = awaited (vm_reveals s) d" using b(2) by blast
    then show ?thesis using ok d False by (simp add: vm_ok_def)
  qed (use f d in simp)
  moreover have "awaited b d x \<noteq> None \<Longrightarrow> d < length (call_stack s)" for d x
    using vm_ok_awaited [OF ok, of d x] ne b(2) [of d x] by (cases "d = top s") simp_all
  moreover have "length (frame_runtime_functions s) = length (call_stack s)" using ok by (simp add: vm_ok_def)
  ultimately show ?thesis using b(1) by (simp add: vm_ok_def put_frame_def)
qed

lemma vm_ok_machine_ok: "vm_ok s \<Longrightarrow> machine_ok s"
  unfolding machine_ok_def
proof (intro impI ballI)
  fix r assume ok: "vm_ok s" and calm: "\<not> has_pending (vm_reveals s)" and "r \<in> set (call_stack s)"
  then obtain d where d: "d < length (call_stack s)" "r = call_stack s ! d" by (auto simp: in_set_conv_nth)
  have "awaits_at (awaited (vm_reveals s) d) i = None" for i using calm by (simp add: awaits_at_def has_pending_def)
  then show "frame_ready (vm_register_layout s) r"
    using ok d by (auto simp: vm_ok_def frame_ok_def frame_ready_def in_set_conv_nth rf_len_slots)
qed

section \<open>Registers\<close>

lemma frame_ok_update:
  assumes ok: "frame_ok l a f" and x: "unat x < rf_len f" and sl: "sl = PendingReveal \<longleftrightarrow> q \<noteq> None"
    and clear: "q \<noteq> None \<longrightarrow> is_clear l (unat x)"
  shows "frame_ok l (a(x := q)) (with_slot f (unat x) sl)"
proof -
  have f: "register_file_ok f" using ok by (simp add: frame_ok_def)
  note w = with_slot [OF f x, of sl]
  have "register_slots (with_slot f (unat x) sl) ! i = PendingReveal \<longleftrightarrow> awaits_at (a(x := q)) i \<noteq> None" if "i < rf_len f" for i
    using ok that sl w(5) x f by (simp add: frame_ok_def awaits_at_upd rf_len_slots nth_list_update del: not_None_eq)
  then show ?thesis using ok w x clear by (simp add: frame_ok_def)
qed

lemma keeps_assign [keeps_intro]: "keeps (assign_current_register_without_previous x v)"
proof (rule keepsI)
  fix s u t
  assume ok: "vm_ok s" and run: "assign_current_register_without_previous x v s = (Inr u, t)"
  obtain r where r: "current_frame s = Inr r"
    using run by (cases "current_frame s")
      (auto simp: assign_current_register_without_previous_def assign_prepared_def prepare_current_register_write_def
        mbind_def mread_def split: if_splits)
  note fr = vm_ok_frame [OF ok r] and b = ok [unfolded vm_ok_def, THEN conjunct2, THEN conjunct1]
  obtain w where w: "unat x < rf_len (ar_registers r)" "t = write_register x w r s"
    using run by (auto simp: assign_eq [OF r fr(2)] ensure_frame_contains_register_def split: sum.splits if_splits)
  let ?b = "cancel_destination \<lparr>frame_depth = top s, dest_register = x\<rparr> (vm_reveals s)"
  have "awaited ?b (top s) = (awaited (vm_reveals s) (top s))(x := None)" using b by (auto simp: awaited_cancel)
  then have f: "frame_ok (vm_register_layout s) (awaited ?b (top s)) (with_slot (ar_registers r) (unat x) (Ready w))"
    using frame_ok_update [OF fr(1) w(1), of "Ready w" None] by simp
  show "vm_ok t"
    unfolding w(2) write_register_def
    by (rule vm_ok_update [OF ok]) (use fr(5) f b cancel_destination_spec(1) [OF b] in \<open>auto simp: awaited_cancel\<close>)
qed

lemma keeps_on_frame:
  assumes "\<And>r x r'. g r = Inr (x, r') \<Longrightarrow> ar_registers r' = ar_registers r"
  shows "keeps (on_frame g)"
proof (rule keepsI)
  fix s x t
  assume ok: "vm_ok s" and run: "on_frame g s = (Inr x, t)"
  then obtain r r' where r: "current_frame s = Inr r" "g r = Inr (x, r')" "t = put_frame r' s"
    by (auto simp: on_frame_def split: sum.splits)
  note fr = vm_ok_frame [OF ok r(1)]
  have "vm_ok (put_frame r' (s\<lparr>vm_reveals := vm_reveals s\<rparr>))"
    by (rule vm_ok_update [OF ok]) (use fr assms [OF r(2)] ok in \<open>auto simp: vm_ok_def\<close>)
  then show "vm_ok t" using r(3) by simp
qed

section \<open>Flushing\<close>

lemma collect_revealed_destinations:
  "collect_revealed qs found is = Inr rs \<Longrightarrow> map revealed_destination rs = map (\<lambda>i. destination (qs ! i)) is"
  by (induction "is" arbitrary: found rs) (auto simp: map_ok_Inr_iff split: option.splits)

lemma flush_Inr:
  assumes "flush d e b = (Inr rs, b')" "batcher_ok b"
  shows "map revealed_destination rs = map destination (frame_entries b d)" "b' = clear_frame d b"
proof -
  have none: "selected_indices d (pending b) = [] \<Longrightarrow> clear_frame d b = b"
  proof -
    assume "selected_indices d (pending b) = []"
    then have "frame_entries b d = []" using selected_filter [of id "pending b" d] by (simp add: frame_entries_def)
    then have "\<not> has_pending_frame b d"
      using has_pending_frame_iff [OF assms(2)] by (auto simp: frame_entries_def queued_def entry_def filter_empty_conv)
    then show "clear_frame d b = b" by (simp add: clear_frame_def)
  qed
  show "b' = clear_frame d b"
    using assms(1) none by (auto simp: flush_def Let_def split: if_splits sum.splits)
  have "map revealed_destination rs = map (\<lambda>i. destination (pending b ! i)) (selected_indices d (pending b))"
    using assms(1) by (auto simp: flush_def Let_def rbind_Inr_iff dest: collect_revealed_destinations split: if_splits sum.splits)
  then show "map revealed_destination rs = map destination (frame_entries b d)"
    by (simp add: selected_filter frame_entries_def)
qed

text \<open>A flush is possible from registers in which only awaited registers may hold placeholders.\<close>

definition frame_cover :: "register_layout \<Rightarrow> (u32 \<Rightarrow> (share_type \<times> share_data) option) \<Rightarrow> register_file \<Rightarrow> bool" where
  "frame_cover l a f =
     (register_file_ok f \<and> rf_layout f = l \<and>
      (\<forall>i < rf_len f. register_slots f ! i = PendingReveal \<longrightarrow> awaits_at a i \<noteq> None) \<and>
      (\<forall>x. a x \<noteq> None \<longrightarrow> unat x < rf_len f \<and> is_clear l (unat x)))"

lemma frame_cover_flushed:
  assumes f: "frame_cover l (awaited b d) f" and xs: "map fst xvs = map entry_register (frame_entries b d)" and ok: "batcher_ok b"
  shows "frame_ok l (\<lambda>_. None) (foldl (\<lambda>f (x, v). with_slot f (unat x) (Ready v)) f xvs)"
proof -
  let ?g = "foldl (\<lambda>f (x, v). with_slot f (unat x) (Ready v)) f xvs"
  have mem: "x \<in> set (map fst xvs) \<longleftrightarrow> awaited b d x \<noteq> None" for x using awaited_members [of b d x] xs by simp
  have "\<forall>(x, v) \<in> set xvs. unat x < rf_len f"
  proof (intro ballI, clarify)
    fix x v assume "(x, v) \<in> set xvs"
    then have "x \<in> set (map fst xvs)" by force
    then show "unat x < rf_len f" using mem f unfolding frame_cover_def by blast
  qed
  moreover have "distinct (map fst xvs)" using entry_registers_distinct [OF ok] xs by simp
  ultimately have g: "register_file_ok ?g \<and> rf_layout ?g = rf_layout f \<and> rf_len ?g = rf_len f \<and>
    (\<forall>i < rf_len f. register_slots ?g ! i =
       (case map_of xvs (of_nat i) of Some v \<Rightarrow> if i < 2 ^ 32 then Ready v else register_slots f ! i
        | None \<Rightarrow> register_slots f ! i))"
    using foldl_with_slot f unfolding frame_cover_def by blast
  have "register_slots ?g ! i \<noteq> PendingReveal" if i: "i < rf_len f" for i
  proof (cases "awaits_at (awaited b d) i")
    case None
    then have "register_slots f ! i \<noteq> PendingReveal" using f i unfolding frame_cover_def by blast
    then show ?thesis using g i by (auto split: option.splits)
  next
    case (Some q)
    then have x: "i < 2 ^ 32" "awaited b d (of_nat i) \<noteq> None" by (auto simp: awaits_at_def split: if_splits)
    then have "of_nat i \<in> fst ` set xvs" using mem by simp
    then have "map_of xvs (of_nat i) \<noteq> None" by (simp add: map_of_eq_None_iff)
    then show ?thesis using g i x by auto
  qed
  then show ?thesis using g f by (simp add: frame_ok_def frame_cover_def awaits_at_def)
qed

lemma assign_frame:
  assumes "assign_current_register_without_previous x v s = (Inr u, t)"
  obtains r where "current_frame s = Inr r"
  using assms by (cases "current_frame s")
    (auto simp: assign_current_register_without_previous_def assign_prepared_def prepare_current_register_write_def
      mbind_def mread_def split: if_splits)

lemma assign_all_in_range:
  assumes "assign_all xvs s = (Inr u, t)" "current_frame s = Inr r" "register_file_ok (ar_registers r)"
  shows "\<forall>(x, v) \<in> set xvs. unat x < rf_len (ar_registers r)"
  using assms
proof (induction xvs arbitrary: s r)
  case (Cons xv xvs)
  obtain x v where xv: "xv = (x, v)" by (cases xv)
  obtain s' where s': "assign_current_register_without_previous x v s = (Inr (), s')" "assign_all xvs s' = (Inr u, t)"
    using Cons.prems(1) xv by (auto simp: mbind_Inr_iff)
  obtain w where w: "unat x < rf_len (ar_registers r)" "s' = write_register x w r s"
    using s'(1) by (auto simp: assign_eq [OF Cons.prems(2,3)] ensure_frame_contains_register_def split: sum.splits if_splits)
  note slot = with_slot [OF Cons.prems(3) w(1), of "Ready w"]
  have "current_frame s' = Inr (r\<lparr>ar_registers := with_slot (ar_registers r) (unat x) (Ready w)\<rparr>)"
    using w(2) current_frame_depth_top [OF Cons.prems(2)] by (simp add: write_register_def)
  from Cons.IH [OF s'(2) this] show ?case using slot w(1) xv by simp
qed simp

text \<open>A successful flush writes every queued register of the frame, so all of them exist, and it leaves the
  frame with no placeholder and nothing queued.\<close>

lemma collect_Cons_iff: "collect (r # rs) = Inr ys \<longleftrightarrow> (\<exists>x xs. r = Inr x \<and> collect rs = Inr xs \<and> ys = x # xs)"
  by (cases r) (auto simp: map_ok_Inr_iff)

lemma flush_pending_covered:
  assumes run: "flush_pending_reveals s = (Inr u, t)" and r: "current_frame s = Inr r"
    and f: "register_file_ok (ar_registers r)" "rf_layout (ar_registers r) = vm_register_layout s"
    and pend: "\<And>i. i < rf_len (ar_registers r) \<Longrightarrow> register_slots (ar_registers r) ! i = PendingReveal \<Longrightarrow>
        awaits_at (awaited (vm_reveals s) (top s)) i \<noteq> None"
    and clear: "\<And>x. awaited (vm_reveals s) (top s) x \<noteq> None \<Longrightarrow> is_clear (vm_register_layout s) (unat x)"
    and b: "batcher_ok (vm_reveals s)"
  shows "\<exists>g. t = put_frame (r\<lparr>ar_registers := g\<rparr>) (s\<lparr>vm_reveals := clear_frame (top s) (vm_reveals s)\<rparr>) \<and>
    frame_ok (vm_register_layout s) (\<lambda>_. None) g"
proof (cases "has_pending_frame (vm_reveals s) (top s)")
  case False
  then have none: "awaited (vm_reveals s) (top s) = (\<lambda>_. None)"
    using has_pending_frame_awaited [OF b, of "top s"] by blast
  have "t = s" using run False current_frame_depth_top [OF r] by (simp add: flush_pending_reveals_def mbind_def mread_def)
  moreover have "clear_frame (top s) (vm_reveals s) = vm_reveals s" using False by (simp add: clear_frame_def)
  moreover have "frame_ok (vm_register_layout s) (\<lambda>_. None) (ar_registers r)"
  proof -
    have "awaits_at (awaited (vm_reveals s) (top s)) i = None" for i unfolding none by (simp add: awaits_at_def)
    then show ?thesis using f pend by (auto simp: frame_ok_def awaits_at_def)
  qed
  ultimately show ?thesis using put_current_frame [OF r] by (intro exI [of _ "ar_registers r"]) simp
next
  case True
  let ?d = "top s" and ?b = "vm_reveals s"
  let ?s = "s\<lparr>vm_reveals := clear_frame ?d ?b\<rparr>"
  obtain rs s' where rs: "flush_reveals ?d s = (Inr rs, s')"
    and xvs: "mbind (mread (\<lambda>s. collect (map (\<lambda>q. let x = dest_register (revealed_destination q)
        in map_ok (Pair x) (prepare_register_write_value s x (revealed_value q))) rs))) assign_all s' = (Inr u, t)"
    using run True current_frame_depth_top [OF r] by (auto simp: flush_pending_reveals_def mbind_Inr_iff mread_def)
  have "\<exists>e. flush ?d e ?b = (Inr rs, vm_reveals s') \<and> s' = s\<lparr>vm_reveals := vm_reveals s'\<rparr>"
    using rs True by (auto simp: flush_reveals_def split: option.splits prod.splits)
  then have s': "s' = ?s" and dests: "map revealed_destination rs = map destination (frame_entries ?b ?d)"
    using flush_Inr [OF _ b] by auto
  obtain xvs where c: "collect (map (\<lambda>q. map_ok (Pair (dest_register (revealed_destination q)))
      (prepare_register_write_value ?s (dest_register (revealed_destination q)) (revealed_value q))) rs) = Inr xvs"
      "assign_all xvs ?s = (Inr u, t)"
    using xvs s' by (auto simp: mbind_Inr_iff mread_def Let_def)
  have "collect (map (\<lambda>q. map_ok (Pair (k q)) (m q)) qs) = Inr ys \<Longrightarrow> map fst ys = map k qs"
    for k :: "revealed_register \<Rightarrow> u32" and m :: "revealed_register \<Rightarrow> vm_error + val" and qs ys
    by (induction qs arbitrary: ys) (auto simp: map_ok_Inr_iff collect_Cons_iff)
  then have "map fst xvs = map dest_register (map revealed_destination rs)" using c(1) by (simp add: comp_def)
  then have fst: "map fst xvs = map entry_register (frame_entries ?b ?d)" using dests by (simp add: entry_register_def)
  have r': "current_frame ?s = Inr r" using r by simp
  have mem: "x \<in> set (map fst xvs) \<longleftrightarrow> awaited ?b ?d x \<noteq> None" for x using awaited_members [of ?b ?d x] fst by simp
  have len: "\<forall>(x, v) \<in> set xvs. unat x < rf_len (ar_registers r)" by (rule assign_all_in_range [OF c(2) r' f(1)])
  have cover: "frame_cover (vm_register_layout s) (awaited ?b ?d) (ar_registers r)"
    unfolding frame_cover_def using f pend clear mem len by fastforce
  have "\<forall>(x, v) \<in> set xvs. unat x < rf_len (ar_registers r) \<and> is_clear (rf_layout (ar_registers r)) (unat x) \<and>
      awaited (vm_reveals ?s) (top ?s) x = None"
  proof (intro ballI, clarify)
    fix x v assume "(x, v) \<in> set xvs"
    moreover from this have "x \<in> set (map fst xvs)" by force
    ultimately show "unat x < rf_len (ar_registers r) \<and> is_clear (rf_layout (ar_registers r)) (unat x) \<and>
      awaited (vm_reveals ?s) (top ?s) x = None"
      using len mem clear f(2) b by (auto simp: awaited_clear_frame)
  qed
  from assign_all_clear [OF r' f(1) _ this]
  have "t = put_frame (r\<lparr>ar_registers := foldl (\<lambda>f (x, v). with_slot f (unat x) (Ready v)) (ar_registers r) xvs\<rparr>) ?s"
    using c(2) clear_frame_spec(1) [OF b] by simp
  then show ?thesis using frame_cover_flushed [OF cover fst b] by blast
qed

lemma keeps_flush [keeps_intro]: "keeps flush_pending_reveals"
proof (rule keepsI)
  fix s u t assume ok: "vm_ok s" and run: "flush_pending_reveals s = (Inr u, t)"
  obtain r where r: "current_frame s = Inr r"
    using run by (cases "call_stack s = []")
      (auto simp: flush_pending_reveals_def mbind_Inr_iff mread_def current_frame_depth_def checked_sub_usize_def current_frame_def)
  note fr = vm_ok_frame [OF ok r] and b = vm_ok_batcher [OF ok]
  obtain g where g: "t = put_frame (r\<lparr>ar_registers := g\<rparr>) (s\<lparr>vm_reveals := clear_frame (top s) (vm_reveals s)\<rparr>)"
      "frame_ok (vm_register_layout s) (\<lambda>_. None) g"
    using flush_pending_covered [OF run r fr(2,3) _ _ b] fr(1) unfolding frame_ok_def by blast
  have "awaited (clear_frame (top s) (vm_reveals s)) (top s) = (\<lambda>_. None)" using b by (auto simp: awaited_clear_frame)
  then show "vm_ok t" unfolding g(1)
    by (intro vm_ok_update [OF ok]) (use fr(5) g(2) b clear_frame_spec(1) [OF b] in \<open>auto simp: awaited_clear_frame\<close>)
qed

lemma keeps_ensure_resolved [keeps_intro]: "keeps (ensure_registers_resolved xs)"
proof (rule keepsI)
  fix s u t assume ok: "vm_ok s" and run: "ensure_registers_resolved xs s = (Inr u, t)"
  then have "t = s \<or> flush_pending_reveals s = (Inr u, t)"
    by (auto simp: ensure_registers_resolved_def split: sum.splits if_splits)
  then show "vm_ok t" using ok keepsD [OF keeps_flush ok] by blast
qed

lemma keeps_resolve [keeps_intro]:
  "keeps (resolve_register x)" "keeps (resolve_register_pair x y)"
  "keeps (with_resolved_register x f)" "keeps (with_resolved_register_pair x y g)"
  unfolding resolve_register_def resolve_register_pair_def with_resolved_register_def with_resolved_register_pair_def
  by (intro keeps_intro)+

lemma keeps_queue_reveal:
  assumes ok: "vm_ok s" and run: "queue_reveal_to_register v x s = (Inr u, t)"
    and clear: "is_clear (vm_register_layout s) (unat x)"
  shows "vm_ok t"
proof (cases "enabled (vm_reveals s)")
  case False
  have "keeps (mbind (mread (\<lambda>s. reveal_share_immediate s v)) (assign_current_register_without_previous x))"
    by (intro keeps_intro)
  then show ?thesis using keepsD [OF _ ok] run False by (simp add: queue_reveal_to_register_def)
next
  case True
  obtain ty q where v: "v = Share ty q"
    using run True by (cases v) (auto simp: queue_reveal_to_register_def mbind_Inr_iff mread_def merr_def)
  obtain r where r: "current_frame s = Inr r"
    using run True by (cases "call_stack s = []")
      (auto simp: queue_reveal_to_register_def mbind_Inr_iff mread_def current_frame_depth_def checked_sub_usize_def current_frame_def)
  note fr = vm_ok_frame [OF ok r] and b = vm_ok_batcher [OF ok]
  let ?b = "queue \<lparr>frame_depth = top s, dest_register = x\<rparr> ty q (vm_reveals s)"
  let ?s = "s\<lparr>vm_reveals := ?b\<rparr>" and ?a = "(awaited (vm_reveals s) (top s))(x := Some (ty, q))"
  have a: "awaited ?b (top s) = ?a" using b by (auto simp: awaited_queue)
  have other: "awaited ?b d y = awaited (vm_reveals s) d y" if "d \<noteq> top s" for d y using that b by (simp add: awaited_queue)
  have bok: "batcher_ok ?b" using queue_spec(1) [OF b] by simp
  have ne: "call_stack s \<noteq> []" using current_frame_depth_top [OF r] by simp
  have cases: "(if should_auto_flush ?b (top s) then flush_pending_reveals ?s else write_pending_reveal_placeholder x ?s) = (Inr u, t)"
    using run True v current_frame_depth_top [OF r]
    by (auto simp: queue_reveal_to_register_def mbind_Inr_iff mread_def mmodify_def)
  show ?thesis
  proof (cases "should_auto_flush ?b (top s)")
    case True
    then have run': "flush_pending_reveals ?s = (Inr u, t)" using cases by simp
    have pend: "awaits_at (awaited ?b (top s)) i \<noteq> None"
      if "i < rf_len (ar_registers r)" "register_slots (ar_registers r) ! i = PendingReveal" for i
      using that fr(1) unfolding a awaits_at_upd frame_ok_def by simp
    have cl: "is_clear (vm_register_layout s) (unat y)" if "awaited ?b (top s) y \<noteq> None" for y
    proof (cases "y = x")
      case False
      then have "awaited (vm_reveals s) (top s) y \<noteq> None" using that unfolding a by simp
      then show ?thesis using fr(1) unfolding frame_ok_def by blast
    qed (use clear in simp)
    obtain g where g: "t = put_frame (r\<lparr>ar_registers := g\<rparr>) (?s\<lparr>vm_reveals := clear_frame (top s) ?b\<rparr>)"
        "frame_ok (vm_register_layout s) (\<lambda>_. None) g"
      using flush_pending_covered [OF run', of r] r fr(2,3) pend cl bok by auto
    have "awaited (clear_frame (top s) ?b) (top s) = (\<lambda>_. None)" using bok by (auto simp: awaited_clear_frame)
    then have "vm_ok (put_frame (r\<lparr>ar_registers := g\<rparr>) (s\<lparr>vm_reveals := clear_frame (top s) ?b\<rparr>))"
      by (intro vm_ok_update [OF ok ne]) (use g(2) other clear_frame_spec(1) [OF bok] bok in \<open>auto simp: awaited_clear_frame\<close>)
    then show ?thesis using g(1) by simp
  next
    case False
    then have "write_pending_reveal_placeholder x ?s = (Inr u, t)" using cases by simp
    then obtain sl g where g: "set_slot (ar_registers r) (unat x) PendingReveal = Some (sl, g)"
        "t = put_frame (r\<lparr>ar_registers := g\<rparr>) ?s"
      using r by (cases "set_slot (ar_registers r) (unat x) PendingReveal")
        (auto simp: write_pending_reveal_placeholder_def on_frame_def set_pending_reveal_def)
    have x: "unat x < rf_len (ar_registers r)" using g(1) set_slot_None [OF fr(2), of "unat x" PendingReveal] by simp
    have "g = with_slot (ar_registers r) (unat x) PendingReveal" using g(1) by (simp add: with_slot_def)
    then show ?thesis unfolding g(2)
      using frame_ok_update [OF fr(1) x, of PendingReveal "Some (ty, q)"] clear a
      by (intro vm_ok_update [OF ok ne bok other]) simp_all
  qed
qed

section \<open>Instructions\<close>

lemma keeps_fast:
  assumes "\<And>s t. machine_ok s \<Longrightarrow> m s = (Inr (), t) \<longleftrightarrow> g s = (Inr (), t)" "keeps g"
  shows "keeps m"
proof (rule keepsI)
  fix s x t assume "vm_ok s" "m s = (Inr x, t)"
  then show "vm_ok t" using assms(1) vm_ok_machine_ok keepsD [OF assms(2)] by (cases x) blast
qed

lemma keeps_general:
  "keeps (arith_general oper d x y)" "keeps (binary_general oper d x y)" "keeps (execute_not_general d x)"
  "keeps (execute_cmp_general x y)" "keeps (execute_ld_general d off)"
  unfolding arith_general_def binary_general_def execute_not_general_def execute_cmp_general_def execute_ld_general_def
  by (intro keeps_intro keeps_on_frame; auto)+

lemma keeps_operators:
  "keeps (execute_binary_op bop d x y)" "keeps (execute_shift_op sop d x y)" "keeps (execute_unary_op uop d x)"
  "keeps (execute_cmp x y)" "keeps (execute_ld d off)"
proof -
  have b: "keeps (binary_op_general bop d x y)" by (cases bop) (simp_all add: keeps_general)
  have s: "keeps (shift_op_general sop d x y)" by (cases sop) (simp_all add: keeps_general)
  show "keeps (execute_binary_op bop d x y)" by (rule keeps_fast [OF binary_op_agrees b])
  show "keeps (execute_shift_op sop d x y)" by (rule keeps_fast [OF shift_op_agrees s])
  show "keeps (execute_unary_op uop d x)"
    by (cases uop) (simp add: keeps_fast [OF not_agrees] keeps_general)
  show "keeps (execute_cmp x y)" by (rule keeps_fast [OF cmp_agrees keeps_general(4)])
  show "keeps (execute_ld d off)" by (rule keeps_fast [OF ld_agrees keeps_general(5)])
qed

lemma keeps_frame_only:
  "keeps (execute_jump c n)" "keeps (execute_pusharg x)" "keeps (execute_sts slot x)" "keeps (fetch_instruction rt)"
  "keeps update_closure_upvalues" "keeps drain_call_args"
  unfolding execute_jump_def execute_pusharg_def execute_sts_def fetch_instruction_def update_closure_upvalues_def drain_call_args_def
  by (intro keeps_intro keeps_on_frame;
      auto simp: spill_store_def Let_def advance_instruction_pointer_after_fetch_def split: option.splits)+

lemma keeps_layout:
  assumes "resolve_register x s = (res, t)"
  shows "vm_register_layout t = vm_register_layout s"
  using touches_fields(7) [OF localizedD [OF localized_resolve(1) assms]] .

lemma keeps_mov_general: "keeps (execute_mov_general d x)"
proof (rule keepsI)
  fix s u t assume ok: "vm_ok s" and run: "execute_mov_general d x s = (Inr u, t)"
  obtain r where r: "current_frame s = Inr r"
    using run by (cases "current_frame s") (auto simp: execute_mov_general_def mbind_Inr_iff mread_def current_register_layout_def)
  let ?k = "move_kind (vm_register_layout s) (unat d) (unat x)"
  have lay: "current_register_layout s = Inr (vm_register_layout s)"
    using r vm_ok_frame(3) [OF ok r] by (simp add: current_register_layout_def)
  from run obtain v t1 where v: "resolve_register x s = (Inr v, t1)"
      "(if ?k = SecretToClear then queue_reveal_to_register v d
        else mbind (mread (\<lambda>s. if ?k = ClearToSecret
              then (case v of Share _ _ \<Rightarrow> Inr v
                    | Object _ \<Rightarrow> map_ok (\<lambda>(ty, d). Share ty d) (vm_extract_share_data s v) | _ \<Rightarrow> convert_to_share s v)
              else Inr v)) (assign_current_register_without_previous d)) t1 = (Inr u, t)"
    by (auto simp: execute_mov_general_def mbind_Inr_iff mread_def lay)
  note ok1 = keepsD [OF keeps_resolve(1) ok v(1)]
  show "vm_ok t"
  proof (cases "?k = SecretToClear")
    case True
    then have "is_clear (vm_register_layout t1) (unat d)" using keeps_layout [OF v(1)] by (simp add: move_kind_eq)
    then show ?thesis using keeps_queue_reveal [OF ok1, of v d u t] v(2) True by simp
  next
    case False
    have "keeps (mbind (mread (\<lambda>s. if ?k = ClearToSecret
              then (case v of Share _ _ \<Rightarrow> Inr v
                    | Object _ \<Rightarrow> map_ok (\<lambda>(ty, d). Share ty d) (vm_extract_share_data s v) | _ \<Rightarrow> convert_to_share s v)
              else Inr v)) (assign_current_register_without_previous d))"
      by (intro keeps_intro)
    then show ?thesis using keepsD [OF _ ok1] v(2) False by simp
  qed
qed

lemma keeps_mov: "keeps (execute_mov d x)"
proof (rule keepsI)
  fix s u t assume ok: "vm_ok s" and run: "execute_mov d x s = (Inr u, t)"
  show "vm_ok t"
  proof (cases "d = x \<and> \<not> (\<exists>r. current_frame s = Inr r \<and> unat d < rf_len (ar_registers r))")
    case False
    then have "execute_mov_general d x s = (Inr u, t)"
      using mov_agrees [OF vm_ok_machine_ok [OF ok], of d x t] run by (cases u) auto
    then show ?thesis using keepsD [OF keeps_mov_general ok] by blast
  next
    case True
    then have "t = s \<or> execute_mov_general d x s = (Inr u, t)"
    proof (cases "has_pending (vm_reveals s) \<or> call_stack s = []")
      case True
      then show ?thesis using run
        by (auto simp: execute_mov_def first_try_def mbind_def mread_def try_execute_fast_clear_copy_mov_def
            try_execute_fast_secret_copy_mov_def on_frame_def current_frame_def split: if_splits)
    next
      case False
      then obtain r where r: "current_frame s = Inr r" by (simp add: current_frame_def)
      then have "rf_len (ar_registers r) \<le> unat d" using True by auto
      moreover have "\<not> unat d < length (clear_bank (ar_registers r))"
        using calculation clear_len_iff [OF vm_ok_frame(2) [OF ok r], of "unat d"] by simp
      ultimately show ?thesis using run True False r
        by (auto simp: execute_mov_def first_try_def mbind_def try_execute_fast_clear_copy_mov_def on_frame_def copy_clear_value_def
            split: if_splits)
    qed
    then show ?thesis using ok keepsD [OF keeps_mov_general ok] by blast
  qed
qed

lemma keeps_lds: "keeps (execute_lds d slot)"
proof (rule keepsI)
  fix s u t assume ok: "vm_ok s" and run: "execute_lds d slot s = (Inr u, t)"
  let ?v = "\<lambda>r. spill_load r slot"
  obtain r f where r: "current_frame s = Inr r" "unat d < rf_len (ar_registers r)"
      "rf_write_ready (ar_registers r) (unat d) (?v r) = Some f" "t = put_frame (r\<lparr>ar_registers := f\<rparr>) s"
    using run by (auto simp: execute_lds_def on_frame_def ensure_frame_contains_register_def split: sum.splits if_splits)
  note fr = vm_ok_frame [OF ok r(1)] and b = vm_ok_batcher [OF ok]
  have f: "f = with_slot (ar_registers r) (unat d) (Ready (?v r))"
    using r(3) with_slot(1) [OF fr(2) r(2), of "Ready (?v r)"] by (auto simp: rf_write_ready_def split: option.splits)
  have "register_slots (ar_registers r) ! unat d \<noteq> PendingReveal"
    using r(2,3) fr(2) rf_get_iff [OF fr(2)] by (auto simp: rf_write_ready_def split: option.splits)
  then have "awaited (vm_reveals s) (top s) d = None" using fr(1) r(2) unfolding frame_ok_def by (metis awaits_at_unat)
  then have a: "(awaited (vm_reveals s) (top s))(d := None) = awaited (vm_reveals s) (top s)" by auto
  have "vm_ok (put_frame (r\<lparr>ar_registers := f\<rparr>) (s\<lparr>vm_reveals := vm_reveals s\<rparr>))"
    using frame_ok_update [OF fr(1) r(2), of "Ready (?v r)" None] fr(5) unfolding f a
    by (intro vm_ok_update [OF ok _ b]) auto
  then show "vm_ok t" using r(4) by simp
qed

section \<open>Calls and returns\<close>

lemma vm_ok_push:
  assumes ok: "vm_ok s" and r: "frame_ready (vm_register_layout s) r"
  shows "vm_ok (push_activation_frame r rt s)"
proof -
  let ?n = "length (call_stack s)"
  have none: "awaited (vm_reveals s) ?n x = None" for x using vm_ok_awaited [OF ok, of ?n x] by blast
  have "register_slots (ar_registers r) ! i \<noteq> PendingReveal" if "i < rf_len (ar_registers r)" for i
    using r that by (metis frame_ready_def nth_mem rf_len_slots)
  then have f: "frame_ok (vm_register_layout s) (awaited (vm_reveals s) ?n) (ar_registers r)"
    using r none by (simp add: frame_ok_def frame_ready_def awaits_at_def)
  have "frame_ok (vm_register_layout s) (awaited (vm_reveals s) d) (ar_registers ((call_stack s @ [r]) ! d))" if "d < Suc ?n" for d
    using ok that f by (cases "d = ?n") (simp_all add: nth_append vm_ok_def)
  moreover have "awaited (vm_reveals s) d x \<noteq> None \<Longrightarrow> d < Suc ?n" for d x
    using vm_ok_awaited [OF ok, of d x] by (rule less_SucI)
  ultimately show ?thesis using ok by (simp add: vm_ok_def push_activation_frame_def)
qed

lemma keeps_push [keeps_intro]: "keeps (push_prepared_vm_frame t args ups clo)" "keeps (push_empty_vm_frame_without_hooks t)"
proof -
  show "keeps (push_prepared_vm_frame t args ups clo)"
    by (rule keepsI) (auto simp: push_prepared_vm_frame_def intro!: vm_ok_push dest: instantiate_frame_ready split: sum.splits)
  show "keeps (push_empty_vm_frame_without_hooks t)"
    by (rule keepsI) (auto simp: push_empty_vm_frame_without_hooks_def mmodify_def instantiate_empty_frame_def
        intro!: vm_ok_push frame_ready_new)
qed

text \<open>Dropping the frames from a depth on, with their queued reveals.\<close>

lemma vm_ok_truncate:
  assumes ok: "vm_ok s" and b: "batcher_ok b" "\<And>d x. awaited b d x = (if d < n then awaited (vm_reveals s) d x else None)"
    and n: "n \<le> length (call_stack s)"
  shows "vm_ok (truncate_activation_frames n (s\<lparr>vm_reveals := b\<rparr>))"
proof -
  have "frame_ok (vm_register_layout s) (awaited b d) (ar_registers (take n (call_stack s) ! d))" if "d < n" for d
  proof -
    have "awaited b d = awaited (vm_reveals s) d" using that by (auto simp: b(2))
    then show ?thesis using ok that n by (simp add: vm_ok_def)
  qed
  then show ?thesis using ok b n by (simp add: vm_ok_def truncate_activation_frames_def)
qed

lemma vm_ok_pop:
  assumes ok: "vm_ok s" and ne: "call_stack s \<noteq> []"
  shows "vm_ok (pop_activation_frame (s\<lparr>vm_reveals := clear_frame (top s) (vm_reveals s)\<rparr>))"
proof -
  let ?b = "clear_frame (top s) (vm_reveals s)" and ?s = "s\<lparr>vm_reveals := clear_frame (top s) (vm_reveals s)\<rparr>"
  note b = vm_ok_batcher [OF ok]
  have aw: "awaited ?b d x = (if d < top s then awaited (vm_reveals s) d x else None)" for d x
  proof (cases "d < length (call_stack s)")
    case True
    then show ?thesis using b by (auto simp: awaited_clear_frame)
  next
    case False
    then have "awaited (vm_reveals s) d x = None" using vm_ok_awaited [OF ok, of d x] by blast
    then show ?thesis using b by (simp add: awaited_clear_frame)
  qed
  have "pop_activation_frame ?s = truncate_activation_frames (top s) ?s"
    using ok by (simp add: pop_activation_frame_def truncate_activation_frames_def butlast_conv_take vm_ok_def)
  then show ?thesis using vm_ok_truncate [OF ok clear_frame_spec(1) [OF b] aw] by simp
qed

lemma vm_ok_unwind:
  assumes ok: "vm_ok s" and n: "n \<le> length (call_stack s)"
  shows "vm_ok (unwind_call_stack_to n s)"
proof -
  note b = vm_ok_batcher [OF ok]
  have "vm_ok (truncate_activation_frames n (s\<lparr>vm_reveals := clear_frames_at_or_above n (vm_reveals s)\<rparr>))"
    by (rule vm_ok_truncate [OF ok _ _ n]) (use b clear_frames_at_or_above_spec(1) [OF b] in \<open>simp_all add: awaited_clear_above\<close>)
  then show ?thesis
    unfolding unwind_call_stack_to_def sync_current_instruction_to_current_frame_def by (rule vm_ok_fields(2))
qed

lemma vm_ok_sync: "vm_ok s \<Longrightarrow> vm_ok (sync_current_instruction_to_current_frame s)"
  unfolding sync_current_instruction_to_current_frame_def by (rule vm_ok_fields(2))

lemma keeps_return: "keeps (return_current_frame v cp)"
proof (rule keepsI)
  fix s out t
  assume ok: "vm_ok s" and run: "return_current_frame v cp s = (Inr out, t)"
  have ne: "call_stack s \<noteq> []"
    using run by (auto simp: return_current_frame_def mbind_Inr_iff mread_def current_frame_depth_Inr)
  let ?p = "pop_activation_frame (s\<lparr>vm_reveals := clear_frame (top s) (vm_reveals s)\<rparr>)"
  let ?rest = "mbind (mread current_return_register) (\<lambda>x.
      mbind (assign_current_register_without_previous x v) (\<lambda>_. mret OutcomeContinue))"
  have rest: "keeps ?rest" by (intro keeps_intro)
  have p: "vm_ok ?p" by (rule vm_ok_pop [OF ok ne])
  have "t = ?p\<lparr>current_instruction := None\<rparr> \<or> ?rest (sync_current_instruction_to_current_frame ?p) = (Inr out, t)"
    using run by (auto simp: return_current_frame_eq [OF ne] split: if_splits)
  then show "vm_ok t" using vm_ok_fields(2) [OF p] keepsD [OF rest vm_ok_sync [OF p]] by blast
qed

lemma keeps_cached_call_target [keeps_intro]: "keeps (cached_call_target n)"
  by (rule keepsI) (auto simp: cached_call_target_def vm_ok_fields(1) split: option.splits sum.splits if_splits)

lemma keeps_resolve_call_target [keeps_intro]: "keeps (resolve_call_target n)"
proof (rule keepsI)
  fix s x t
  assume ok: "vm_ok s" and run: "resolve_call_target n s = (Inr x, t)"
  have state: "vm_ok u" if "cached_call_target n s = (res, u)" for res u
    using that ok by (auto simp: cached_call_target_def vm_ok_fields(1) split: option.splits sum.splits if_splits)
  obtain res where "cached_call_target n s = (res, t)"
    using run by (auto simp: resolve_call_target_def mbind_Inr_iff mread_def mret_def split: option.splits prod.splits sum.splits)
  then show "vm_ok t" by (rule state)
qed

lemma keeps_restoring [keeps_intro]: "keeps m \<Longrightarrow> keeps (restoring_args a m)"
  by (simp add: keeps_def restoring_args_Inr)

lemma keeps_call_vm [keeps_intro]: "keeps (call_vm t)"
  unfolding call_vm_def by (intro keeps_intro keeps_frame_only)

definition host_ok :: "host \<Rightarrow> bool" where
  "host_ok host = (\<forall>f args. keeps (host f args))"

lemma keeps_host: "host_ok host \<Longrightarrow> keeps (mmap_err g (host f args))"
  unfolding host_ok_def keeps_def mmap_err_Inr_iff by blast

lemma keeps_foreign:
  assumes "host_ok host"
  shows "keeps (call_foreign_function_internal host f args cp)" "keeps (call_foreign host f)"
proof -
  show i: "keeps (call_foreign_function_internal host f args cp)" for args cp
    unfolding call_foreign_function_internal_def
    by (intro keeps_mbind keeps_host [OF assms] keeps_if keeps_assign) (simp_all add: keeps_def mret_def mread_def)
  have "keeps (\<lambda>s. call_foreign_function_internal host f [] (length (call_stack s)) s)"
    using i unfolding keeps_def by blast
  then show "keeps (call_foreign host f)"
    unfolding call_foreign_def by (intro keeps_intro keeps_frame_only i)
qed

lemma keeps_execute_call: "host_ok host \<Longrightarrow> keeps (execute_call host f)"
  unfolding execute_call_def
  by (intro keeps_intro) (auto split: call_target.split intro: keeps_intro keeps_foreign)

lemma keeps_instruction: "host_ok host \<Longrightarrow> keeps (execute_instruction host cp rt i)"
proof (cases i)
  case (LoadImmediate d k)
  then show ?thesis by (auto simp: continuing_def execute_ldi_def intro!: keeps_intro)
qed (auto simp: continuing_def
      intro!: keeps_intro keeps_mov keeps_operators keeps_frame_only keeps_lds keeps_return keeps_execute_call)

lemma keeps_step: "host_ok host \<Longrightarrow> keeps (execute_local_step host cp rt)"
proof -
  assume h: "host_ok host"
  have f: "keeps (handle_function_end cp)"
    unfolding handle_function_end_def by (intro keeps_intro keeps_return)
  have "keeps (case decode bytes of None \<Rightarrow> merr (Message ''invalid opcode'') | Some i \<Rightarrow> execute_instruction host cp rt i)" for bytes
    by (cases "decode bytes") (simp_all add: keeps_basic keeps_instruction [OF h])
  then have "keeps (case p of None \<Rightarrow> handle_function_end cp
      | Some bytes \<Rightarrow> (case decode bytes of None \<Rightarrow> merr (Message ''invalid opcode'') | Some i \<Rightarrow> execute_instruction host cp rt i))" for p
    using f by (cases p) simp_all
  then have "keeps (mbind (fetch_instruction rt) (\<lambda>p. case p of None \<Rightarrow> handle_function_end cp
      | Some bytes \<Rightarrow> (case decode bytes of None \<Rightarrow> merr (Message ''invalid opcode'') | Some i \<Rightarrow> execute_instruction host cp rt i)))"
    by (intro keeps_mbind keeps_frame_only)
  then show ?thesis by (auto simp: keeps_def execute_local_step_def split: if_splits)
qed

lemma keeps_cache_current: "keeps (cache_current c)"
proof -
  have "keeps current_runtime_function"
    by (rule keepsI) (auto simp: current_runtime_function_def vm_ok_fields(3) split: sum.splits option.splits if_splits)
  then show ?thesis unfolding cache_current_def
    by (intro keeps_intro) (auto split: option.split intro!: keeps_intro)
qed

section \<open>Reading registers\<close>

lemma needs_flush_range: "needs_flush b d r acc xs = Inr z \<Longrightarrow> \<forall>x \<in> set xs. unat x < rf_len (ar_registers r)"
  by (induction xs arbitrary: acc) (auto simp: ensure_frame_contains_register_def split: if_splits)

lemma flush_leaves_nothing:
  assumes ok: "vm_ok s" and run: "flush_pending_reveals s = (Inr u, t)" and r: "current_frame s = Inr r"
  shows "awaited (vm_reveals t) (top t) x = None"
proof -
  note b = vm_ok_batcher [OF ok]
  obtain g where "t = put_frame (r\<lparr>ar_registers := g\<rparr>) (s\<lparr>vm_reveals := clear_frame (top s) (vm_reveals s)\<rparr>)"
    using flush_pending_covered [OF run r] vm_ok_frame [OF ok r] b unfolding frame_ok_def by blast
  then show ?thesis using b by (simp add: awaited_clear_frame)
qed

lemma ensure_resolved_value:
  assumes ok: "vm_ok s" and run: "ensure_registers_resolved xs s = (Inr (), t)" and x: "x \<in> set xs"
  shows "\<exists>r v. current_frame t = Inr r \<and> rf_get (ar_registers r) (unat x) = Some v"
proof -
  have ok': "vm_ok t" by (rule keepsD [OF keeps_ensure_resolved ok run])
  obtain r where r: "current_frame s = Inr r" using run by (auto simp: ensure_registers_resolved_def split: sum.splits)
  have tt: "touches s t" by (rule localizedD [OF localized_ensure run])
  obtain r' where r': "current_frame t = Inr r'" "same_control r r'" using touches_frame [OF tt r] by blast
  note fr = vm_ok_frame [OF ok' r'(1)] and b = vm_ok_batcher [OF ok]
  have d: "current_frame_depth s = Inr (top s)" using current_frame_depth_top [OF r] by simp
  have range: "\<forall>x \<in> set xs. unat x < rf_len (ar_registers r)"
  proof (cases "has_pending (vm_reveals s)")
    case True
    then obtain acc where "needs_flush (vm_reveals s) (top s) r False xs = Inr acc"
      using run r d by (auto simp: ensure_registers_resolved_def split: sum.splits)
    then show ?thesis by (rule needs_flush_range)
  qed (use run r ensure_all_iff in \<open>auto simp: ensure_registers_resolved_def\<close>)
  then have len: "unat x < rf_len (ar_registers r')" using x r'(2) by (simp add: same_control_def)
  have "awaited (vm_reveals t) (top t) x = None"
  proof (cases "flush_pending_reveals s = (Inr (), t)")
    case True
    then show ?thesis by (rule flush_leaves_nothing [OF ok _ r])
  next
    case False
    then have same: "t = s" using run by (auto simp: ensure_registers_resolved_def split: sum.splits if_splits)
    show ?thesis
    proof (cases "has_pending (vm_reveals s)")
      case True
      then have "\<not> has_pending_destination (vm_reveals s) \<lparr>frame_depth = top s, dest_register = x\<rparr>"
        using run r d needs_flush_eq [OF range] x False by (auto simp: ensure_registers_resolved_def split: if_splits)
      then show ?thesis using has_pending_destination_awaited [OF b] same by blast
    qed (use same in \<open>simp add: has_pending_def\<close>)
  qed
  then have "register_slots (ar_registers r') ! unat x \<noteq> PendingReveal"
    using fr(1) len unfolding frame_ok_def by (metis awaits_at_unat)
  then obtain v where "register_slots (ar_registers r') ! unat x = Ready v" by (cases "register_slots (ar_registers r') ! unat x") auto
  then show ?thesis using r'(1) len rf_get_iff [OF fr(2)] by auto
qed

lemma resolved_nothing_queued:
  assumes ok: "vm_ok s" and run: "resolve_register x s = (Inr v, t)"
  shows "awaited (vm_reveals t) (top t) x = None"
proof -
  have e: "ensure_registers_resolved [x] s = (Inr (), t)" "rbind (current_frame t) (\<lambda>r. resolved_register_value_ref r x) = Inr v"
    using run by (auto simp: resolve_register_def mbind_Inr_iff mread_def)
  obtain r where r: "current_frame t = Inr r" "rf_get (ar_registers r) (unat x) = Some v"
    using e(2) by (auto simp: rbind_Inr_iff resolved_register_value_ref_def)
  note ok' = keepsD [OF keeps_resolve(1) ok run]
  have "unat x < rf_len (ar_registers r)" "register_slots (ar_registers r) ! unat x \<noteq> PendingReveal"
    using r(2) rf_get_iff [OF vm_ok_frame(2) [OF ok' r(1)]] by auto
  then show ?thesis using vm_ok_frame(1) [OF ok' r(1)] unfolding frame_ok_def by (metis awaits_at_unat)
qed

section \<open>Reachable states\<close>

text \<open>One turn of the execution loop that does not end it, on the loop's cache and the machine.\<close>

inductive vm_step :: "host \<Rightarrow> usize \<Rightarrow> runtime_function_cache \<times> vm_state \<Rightarrow> runtime_function_cache \<times> vm_state \<Rightarrow> bool"
  for host cp where
  turn: "cache_current c s = (Inr (rt, c'), u) \<Longrightarrow> execute_local_step host cp rt u = (Inr OutcomeContinue, t) \<Longrightarrow>
    vm_step host cp (c, s) (c', t)"

lemma vm_step_ok: "vm_step host cp x y \<Longrightarrow> host_ok host \<Longrightarrow> vm_ok (snd x) \<Longrightarrow> vm_ok (snd y)"
  by (erule vm_step.cases) (auto dest: keepsD [OF keeps_cache_current] keepsD [OF keeps_step])

lemma reachable_ok: "(vm_step host cp)\<^sup>*\<^sup>* x y \<Longrightarrow> host_ok host \<Longrightarrow> vm_ok (snd x) \<Longrightarrow> vm_ok (snd y)"
  by (induction rule: rtranclp_induct) (auto intro: vm_step_ok)

lemma resolve_fails:
  assumes ok: "vm_ok s" and r: "current_frame s = Inr r" and x: "unat x < rf_len (ar_registers r)"
    and run: "resolve_register x s = (Inl e, u)"
  shows "flush_pending_reveals s = (Inl e, u)"
proof -
  obtain y t where y: "ensure_registers_resolved [x] s = (y, t)" by (cases "ensure_registers_resolved [x] s")
  show ?thesis
  proof (cases y)
    case (Inl e')
    have "t = s \<longrightarrow> flush_pending_reveals s = (y, t)" "t \<noteq> s \<longrightarrow> flush_pending_reveals s = (y, t)"
      using y Inl r x current_frame_depth_top [OF r]
      by (auto simp: ensure_registers_resolved_def ensure_frame_contains_register_def split: if_splits)
    then show ?thesis using y Inl run by (auto simp: resolve_register_def mbind_def)
  next
    case (Inr z)
    then show ?thesis using ensure_resolved_value [OF ok, of "[x]" t x] y run
      by (auto simp: resolve_register_def mbind_def mread_def resolved_register_value_ref_def)
  qed
qed

text \<open>C4: every state that the execution loop reaches from a well-formed one is well-formed: each frame has a
  register file of the machine's layout and a slot for its runtime function, the indices of the
  reveal batcher agree with its queue, and a register holds a placeholder exactly when a share
  is queued for it. So reading an existing register never meets a placeholder that nothing
  will fill: it gives a value unless the flush of the frame's queue fails.\<close>

theorem reachable_states_well_formed:
  assumes "host_ok host" "vm_ok s" "(vm_step host cp)\<^sup>*\<^sup>* (c, s) (c', t)"
  shows "vm_ok t \<and>
    (\<forall>r x. current_frame t = Inr r \<longrightarrow> unat x < rf_len (ar_registers r) \<longrightarrow>
       (\<exists>v u. resolve_register x t = (Inr v, u) \<and> vm_ok u) \<or>
       (\<exists>e u. resolve_register x t = (Inl e, u) \<and> flush_pending_reveals t = (Inl e, u)))"
proof -
  have ok: "vm_ok t" using reachable_ok [OF assms(3,1)] assms(2) by simp
  have "(\<exists>v u. resolve_register x t = (Inr v, u) \<and> vm_ok u) \<or>
      (\<exists>e u. resolve_register x t = (Inl e, u) \<and> flush_pending_reveals t = (Inl e, u))"
    if "current_frame t = Inr r" "unat x < rf_len (ar_registers r)" for r x
  proof (cases "resolve_register x t")
    case (Pair y u)
    then show ?thesis using resolve_fails [OF ok that] keepsD [OF keeps_resolve(1) ok] by (cases y) auto
  qed
  then show ?thesis using ok by blast
qed

lemma reveal_machine_vm_ok: "vm_ok reveal_machine"
proof -
  have "frame_ready \<lparr>secret_start = 4\<rparr> sample_frame"
    by (simp add: frame_ready_def sample_simps register_file_ok_def register_slots_def)
  moreover have "vm_ok (vm_state_new\<lparr>vm_engine := Some clear_engine, vm_register_layout := \<lparr>secret_start = 4\<rparr>\<rparr>)"
    using vm_ok_new by (simp add: vm_ok_def vm_state_new_def)
  ultimately show ?thesis unfolding reveal_machine_def by (intro vm_ok_push) (simp_all add: vm_state_new_def)
qed

lemma quiet_host_ok: "host_ok quiet_host"
  by (simp add: host_ok_def quiet_host_def [abs_def] keeps_def)

theorem reachable_states_well_formed_witness:
  "\<exists>t. (vm_step quiet_host 0)\<^sup>*\<^sup>* (None, reveal_machine) (Some (0, reveal_code), t) \<and> vm_ok t \<and>
       (\<exists>r. current_frame t = Inr r \<and> get_slot (ar_registers r) 1 = Some PendingReveal)"
proof -
  let ?t = "snd (execute_local_step quiet_host 0 reveal_code reveal_machine)"
  have c: "cache_current None reveal_machine = (Inr (reveal_code, Some (0, reveal_code)), reveal_machine)"
    by (simp add: reveal_machine_eval)
  have "fst (execute_local_step quiet_host 0 reveal_code reveal_machine) = Inr OutcomeContinue"
    by (simp add: reveal_machine_eval)
  then have "execute_local_step quiet_host 0 reveal_code reveal_machine = (Inr OutcomeContinue, ?t)" by (metis prod.collapse)
  then have step: "(vm_step quiet_host 0)\<^sup>*\<^sup>* (None, reveal_machine) (Some (0, reveal_code), ?t)"
    using vm_step.turn [OF c] by blast
  have "\<exists>r. current_frame ?t = Inr r \<and> get_slot (ar_registers r) 1 = Some PendingReveal"
    by (simp add: reveal_machine_eval)
  then show ?thesis
    using reachable_states_well_formed [OF quiet_host_ok reveal_machine_vm_ok step] step by blast
qed

section \<open>Delivery of queued reveals\<close>

text \<open>When every queued share can be opened, the machine has an immediate counterpart, in whose registers the
  opened values are.\<close>

definition all_openable :: "mpc_engine \<Rightarrow> reveal_batcher \<Rightarrow> bool" where
  "all_openable e b = (\<forall>q \<in> set (pending b). \<exists>c. engine_open_share e (queued_type q) (as_bytes (queued_data q)) = Inr c)"

definition opened :: "mpc_engine \<Rightarrow> share_type \<times> share_data \<Rightarrow> val" where
  "opened e q = clear_share_value_to_vm_value (fst q) (projr (engine_open_share e (fst q) (as_bytes (snd q))))"

definition opened_slot :: "mpc_engine \<Rightarrow> (u32 \<Rightarrow> (share_type \<times> share_data) option) \<Rightarrow> register_file \<Rightarrow> nat \<Rightarrow> val" where
  "opened_slot e a f i =
     (case awaits_at a i of Some q \<Rightarrow> opened e q | None \<Rightarrow> (case register_slots f ! i of Ready v \<Rightarrow> v | PendingReveal \<Rightarrow> Unit))"

definition opened_file :: "mpc_engine \<Rightarrow> (u32 \<Rightarrow> (share_type \<times> share_data) option) \<Rightarrow> register_file \<Rightarrow> register_file" where
  "opened_file e a f = from_absolute_values (rf_layout f) (map (opened_slot e a f) [0..<rf_len f])"

lemma from_absolute_values:
  "register_file_ok (from_absolute_values l vs)" "rf_layout (from_absolute_values l vs) = l"
  "register_slots (from_absolute_values l vs) = map Ready vs"
  by (auto simp: from_absolute_values_def Let_def register_file_ok_def register_slots_def min_def simp flip: map_append)

lemma opened_file_sim:
  assumes f: "frame_ok l a f" and opens: "\<And>x q. a x = Some q \<Longrightarrow> reveals_to (Some e) q (opened e q)"
  shows "registers_sim (Some e) a f (opened_file e a f)"
proof -
  have ok: "register_file_ok f" "rf_layout f = l" using f by (simp_all add: frame_ok_def)
  let ?g = "opened_file e a f"
  have g: "register_file_ok ?g" "rf_layout ?g = rf_layout f" "register_slots ?g = map Ready (map (opened_slot e a f) [0..<rf_len f])"
    unfolding opened_file_def by (simp_all only: from_absolute_values)
  then have len: "rf_len ?g = rf_len f" by (simp add: rf_len_slots)
  have "slot_sim (Some e) (awaits_at a i) (register_slots f ! i) (register_slots ?g ! i)" if i: "i < rf_len f" for i
  proof (cases "awaits_at a i")
    case None
    then have "register_slots f ! i \<noteq> PendingReveal" using f i unfolding frame_ok_def by blast
    then show ?thesis using None i g(3) by (cases "register_slots f ! i") (simp_all add: opened_slot_def)
  next
    case (Some q)
    then have p: "register_slots f ! i = PendingReveal" using f i unfolding frame_ok_def by blast
    have "reveals_to (Some e) q (opened e q)" using opens [of "of_nat i" q] Some by (simp add: awaits_at_def split: if_splits)
    then show ?thesis using Some p i g(3) by (simp add: opened_slot_def)
  qed
  moreover have "unat x < rf_len f \<and> is_clear (rf_layout f) (unat x)" if "a x \<noteq> None" for x
    using f that ok(2) unfolding frame_ok_def by blast
  ultimately show ?thesis using ok(1) g(1,2) len by (simp add: registers_sim_def)
qed

lemma awaited_openable:
  assumes "batcher_ok b" "all_openable e b" "awaited b d x = Some q"
  shows "reveals_to (Some e) q (opened e q)"
proof -
  obtain p where p: "p \<in> set (pending b)" "q = (queued_type p, queued_data p)"
    using hm_get_Some_set [OF assms(3) [unfolded awaited_def]] by (auto simp: queued_def entry_def)
  then show ?thesis using assms(2) by (auto simp: all_openable_def reveals_to_def opened_def)
qed

definition opened_machine :: "mpc_engine \<Rightarrow> vm_state \<Rightarrow> vm_state" where
  "opened_machine e s =
     s\<lparr>call_stack := map (\<lambda>(d, r). r\<lparr>ar_registers := opened_file e (awaited (vm_reveals s) d) (ar_registers r)\<rparr>)
                       (enumerate 0 (call_stack s)),
       vm_reveals := reveal_batcher_new\<lparr>enabled := False\<rparr>\<rparr>"

lemma opened_machine_sim:
  assumes ok: "vm_ok s" and e: "vm_engine s = Some e" "batch_opens_each e" "all_openable e (vm_reveals s)"
  shows "sim s (opened_machine e s)"
proof -
  let ?s = "opened_machine e s"
  have "frame_sim (Some e) (awaited (vm_reveals s) d) (call_stack s ! d) (call_stack ?s ! d) \<and>
      rf_layout (ar_registers (call_stack s ! d)) = vm_register_layout s" if d: "d < length (call_stack s)" for d
  proof -
    have f: "frame_ok (vm_register_layout s) (awaited (vm_reveals s) d) (ar_registers (call_stack s ! d))"
      using ok d by (simp add: vm_ok_def)
    have "registers_sim (Some e) (awaited (vm_reveals s) d) (ar_registers (call_stack s ! d))
        (opened_file e (awaited (vm_reveals s) d) (ar_registers (call_stack s ! d)))"
      by (rule opened_file_sim [OF f awaited_openable [OF vm_ok_batcher [OF ok] e(3)]])
    then show ?thesis using d f by (simp add: frame_sim_def opened_machine_def nth_enumerate_eq frame_ok_def)
  qed
  moreover have "awaited (vm_reveals s) d x \<noteq> None \<Longrightarrow> d < length (call_stack s)" for d x by (rule vm_ok_awaited [OF ok])
  ultimately show ?thesis
    using vm_ok_batcher [OF ok] e(1,2)
    unfolding sim_def rest_equal_iff by (simp add: opened_machine_def immediate_def reveal_batcher_new_def)
qed

lemma immediate_resolve:
  assumes "\<not> has_pending (vm_reveals s)" "current_frame s = Inr r" "register_file_ok (ar_registers r)"
    and "unat x < rf_len (ar_registers r)" "register_slots (ar_registers r) ! unat x = Ready v"
  shows "resolve_register x s = (Inr v, s)"
  using assms ensure_resolved_calm [OF assms(1,2), of "[x]"] ensure_all_iff [of r "[x]"]
  by (simp add: resolve_register_def mbind_def mread_def resolved_register_value_ref_def rf_get_iff)

text \<open>Moving a share to a clear register on a machine that opens shares at once.\<close>

lemma immediate_reveal:
  assumes im: "immediate (vm_reveals s)" and r: "current_frame s = Inr r" "register_file_ok (ar_registers r)"
    and lay: "rf_layout (ar_registers r) = vm_register_layout s"
    and regs: "unat d < rf_len (ar_registers r)" "unat x < rf_len (ar_registers r)"
      "is_clear (vm_register_layout s) (unat d)" "is_secret (vm_register_layout s) (unat x)"
    and v: "register_slots (ar_registers r) ! unat x = Ready v" and w: "reveal_share_immediate s v = Inr w"
  shows "execute_mov_general d x s = (Inr (), write_register d w r s)"
    and "resolve_register d (write_register d w r s) = (Inr w, write_register d w r s)"
proof -
  have k: "map_ok (\<lambda>l. move_kind l (unat d) (unat x)) (current_register_layout s) = Inr SecretToClear"
    using r(1) lay regs(3,4) by (simp add: current_register_layout_def move_kind_eq)
  have res: "resolve_register x s = (Inr v, s)" using immediate_resolve [OF _ r regs(2) v] im by simp
  have "assign_current_register_without_previous d w s = (Inr (), write_register d w r s)"
    using regs(1,3) lay by (simp add: assign_eq [OF r] ensure_frame_contains_register_def prepare_write_clear del: is_clear_iff)
  then show "execute_mov_general d x s = (Inr (), write_register d w r s)"
    using k res w im by (simp add: execute_mov_general_def mbind_def mread_def queue_reveal_to_register_def)
  note slot = with_slot [OF r(2) regs(1), of "Ready w"]
  show "resolve_register d (write_register d w r s) = (Inr w, write_register d w r s)"
    using im slot regs(1) current_frame_depth_top [OF r(1)] rf_len_slots [OF r(2)]
    by (intro immediate_resolve [of _ "r\<lparr>ar_registers := with_slot (ar_registers r) (unat d) (Ready w)\<rparr>"])
      (simp_all add: write_register_def)
qed

text \<open>C5: a queued reveal is delivered. Moving a share from a secret register to a clear one succeeds when the
  engine is ready, and the next read of the clear register gives the value that the engine opens
  the share to, whether the share was queued, flushed with a full batch or opened at once;
  the read flushes the frame, so nothing stays queued for the register.\<close>

theorem queued_reveal_is_delivered:
  assumes "vm_ok s" "vm_engine s = Some e" "is_ready e" "batch_opens_each e" "all_openable e (vm_reveals s)"
    and "current_frame s = Inr r" "unat d < rf_len (ar_registers r)"
    and "is_clear (vm_register_layout s) (unat d)" "is_secret (vm_register_layout s) (unat x)"
    and "get_slot (ar_registers r) (unat x) = Some (Ready (Share ty q))"
    and "engine_open_share e ty (as_bytes q) = Inr c"
  shows "\<exists>t u. execute_mov d x s = (Inr (), t) \<and>
    resolve_register d t = (Inr (clear_share_value_to_vm_value ty c), u) \<and>
    \<not> has_pending_destination (vm_reveals u) \<lparr>frame_depth = length (call_stack u) - 1, dest_register = d\<rparr>"
proof -
  let ?w = "clear_share_value_to_vm_value ty c" and ?s = "opened_machine e s"
  have sim: "sim s ?s" by (rule opened_machine_sim [OF assms(1,2,4,5)])
  have "call_stack ?s \<noteq> []" using current_frame_depth_top [OF assms(6)] sim_simps(9) [OF sim] by simp
  then obtain r0 where r0: "current_frame ?s = Inr r0" by (simp add: current_frame_def)
  obtain regs: "registers_sim (vm_engine s) (awaited (vm_reveals s) (top s)) (ar_registers r) (ar_registers r0)"
    and lay: "rf_layout (ar_registers r) = vm_register_layout s"
    using current_frame_sim [OF sim r0] assms(6) by (metis frame_sim_def sum.inject(2))
  note ok = registers_sim_ok [OF regs]
  have x: "unat x < rf_len (ar_registers r)" "register_slots (ar_registers r) ! unat x = Ready (Share ty q)"
    using assms(10) ok(1) by (auto simp: get_slot_slots vec_get_Some_iff rf_len_slots)
  have "slot_sim (vm_engine s) (awaited (vm_reveals s) (top s) x) (Ready (Share ty q)) (register_slots (ar_registers r0) ! unat x)"
    using regs x unfolding registers_sim_def by (metis awaits_at_unat)
  then have x0: "register_slots (ar_registers r0) ! unat x = Ready (Share ty q)"
    by (cases "awaited (vm_reveals s) (top s) x") auto
  have open0: "reveal_share_immediate ?s (Share ty q) = Inr ?w"
    using assms(2,3,11) by (simp add: sim_simps(6) [OF sim] reveal_share_immediate_def share_runtime_def from_configured_def
        open_share_value_def open_share_data_def ensure_ready_def map_mpc_backend_err_def)
  have l0: "rf_layout (ar_registers r0) = vm_register_layout ?s" "vm_register_layout ?s = vm_register_layout s"
    using ok(3) lay sim_simps(7) [OF sim] by simp_all
  note imm = immediate_reveal [OF sim_immediate [OF sim] r0 ok(2) l0(1) _ _ _ _ x0 open0]
  have m: "execute_mov_general d x ?s = (Inr (), write_register d ?w r0 ?s)"
      "resolve_register d (write_register d ?w r0 ?s) = (Inr ?w, write_register d ?w r0 ?s)"
    using imm [of d] assms(7,8,9) x(1) ok(4) l0(2) by simp_all
  obtain t where t: "execute_mov_general d x s = (Inr (), t)" "sim t (write_register d ?w r0 ?s)"
    using refinesD [OF refines_mov_general sim m(1)] by blast
  obtain u where u: "resolve_register d t = (Inr ?w, u)" using refinesD [OF refines_resolve_register t(2) m(2)] by blast
  have "execute_mov d x s = (Inr (), t)"
    using mov_agrees [OF vm_ok_machine_ok [OF assms(1)], of d x t] t(1) assms(6,7) by blast
  moreover have "vm_ok t" by (rule keepsD [OF keeps_mov_general assms(1) t(1)])
  then have "vm_ok u" "awaited (vm_reveals u) (top u) d = None"
    using keepsD [OF keeps_resolve(1) _ u] resolved_nothing_queued [OF _ u] by blast+
  then have "\<not> has_pending_destination (vm_reveals u) \<lparr>frame_depth = top u, dest_register = d\<rparr>"
    using has_pending_destination_awaited [OF vm_ok_batcher] by blast
  ultimately show ?thesis using u by blast
qed

theorem queued_reveal_is_delivered_witness:
  "\<exists>t u. execute_mov 1 4 reveal_machine = (Inr (), t) \<and> resolve_register 1 t = (Inr (I64 7), u)"
proof -
  let ?c = "projr (engine_open_share clear_engine (SecretInt 64) [7])"
  have e: "vm_engine reveal_machine = Some clear_engine" "is_ready clear_engine" "batch_opens_each clear_engine"
      "all_openable clear_engine (vm_reveals reveal_machine)"
    by (simp_all add: reveal_machine_def sample_simps clear_engine_def batch_opens_each_def all_openable_def)
  have r: "current_frame reveal_machine = Inr sample_frame" "unat (1 :: u32) < rf_len (ar_registers sample_frame)"
      "is_clear (vm_register_layout reveal_machine) (unat (1 :: u32))" "is_secret (vm_register_layout reveal_machine) (unat (4 :: u32))"
      "get_slot (ar_registers sample_frame) (unat (4 :: u32)) = Some (Ready (Share (SecretInt 64) (Opaque [7])))"
    by (simp_all add: reveal_machine_def sample_simps current_frame_def rf_len_def get_slot_eq)
  have c: "engine_open_share clear_engine (SecretInt 64) (as_bytes (Opaque [7])) = Inr ?c"
    "clear_share_value_to_vm_value (SecretInt 64) ?c = I64 7"
    by (simp_all add: clear_engine_def open_bytes_def clear_share_value_to_vm_value_def)
  show ?thesis using queued_reveal_is_delivered [OF reveal_machine_vm_ok e r c(1)] c(2) by auto
qed

end
