(* ===== verification/Register_Typing.thy ===== *)
theory Register_Typing
  imports Locality Transparency
begin

text \<open>
  The typing of registers: a register of the secret bank holds a share or nothing, never a
  clear value. Every instruction keeps it, also when it fails, because every write of a secret
  register goes through a conversion to a share; the one exception is a load from the spill
  area, which writes what was stored there: a share or nothing if a secret register was saved.
\<close>

section \<open>Typed frames\<close>

fun secret_value :: "val \<Rightarrow> bool" where
  "secret_value (Share _ _) = True"
| "secret_value Unit = True"
| "secret_value _ = False"

lemma secret_slot_ok_Ready [simp]: "secret_slot_ok (Ready v) = secret_value v"
  by (cases v) simp_all

definition file_typed :: "register_layout \<Rightarrow> register_file \<Rightarrow> bool" where
  "file_typed l f = (rf_layout f = l \<and> secret_bank_ok f)"

definition vm_typed :: "vm_state \<Rightarrow> bool" where
  "vm_typed s = (\<forall>r \<in> set (call_stack s). file_typed (vm_register_layout s) (ar_registers r))"

definition keeps_types :: "(vm_state, 'e, 'a) meth \<Rightarrow> bool" where
  "keeps_types m = (\<forall>s. vm_typed s \<longrightarrow> vm_typed (snd (m s)))"

named_theorems types_intro

lemma keeps_typesI: "(\<And>s res t. vm_typed s \<Longrightarrow> m s = (res, t) \<Longrightarrow> vm_typed t) \<Longrightarrow> keeps_types m"
  by (metis keeps_types_def prod.collapse)

lemma keeps_typesD: "keeps_types m \<Longrightarrow> vm_typed s \<Longrightarrow> m s = (res, t) \<Longrightarrow> vm_typed t"
  by (metis keeps_types_def snd_conv)

lemma types_basic [types_intro]: "keeps_types (mret x)" "keeps_types (merr e)" "keeps_types (mread f)"
  by (simp_all add: keeps_types_def mret_def merr_def mread_def)

lemma types_mbind [types_intro]:
  assumes "keeps_types m" "\<And>x. keeps_types (f x)"
  shows "keeps_types (mbind m f)"
proof (rule keeps_typesI)
  fix s res t
  assume s: "vm_typed s" and run: "mbind m f s = (res, t)"
  obtain y u where m: "m s = (y, u)" by (cases "m s")
  have "vm_typed u" by (rule keeps_typesD [OF assms(1) s m])
  then show "vm_typed t" using run m keeps_typesD [OF assms(2)] by (cases y) (auto simp: mbind_def)
qed

lemma types_if [types_intro]: "keeps_types m \<Longrightarrow> keeps_types n \<Longrightarrow> keeps_types (\<lambda>s. if P s then m s else n s)"
  unfolding keeps_types_def by (metis (full_types))

lemma types_prod [types_intro]: "(\<And>x y. keeps_types (f x y)) \<Longrightarrow> keeps_types (case p of (x, y) \<Rightarrow> f x y)"
  by (cases p) simp

lemma vm_typed_frame:
  "vm_typed s \<Longrightarrow> current_frame s = Inr r \<Longrightarrow> file_typed (vm_register_layout s) (ar_registers r)"
  by (auto simp: vm_typed_def current_frame_def split: if_splits)

lemma vm_typed_put:
  assumes "vm_typed s" "file_typed (vm_register_layout s) (ar_registers r)"
  shows "vm_typed (put_frame r s)"
  using assms set_update_subset_insert [of "call_stack s" "top s" r] by (auto simp: vm_typed_def)

lemma vm_typed_fields [simp]:
  "vm_typed (s\<lparr>vm_reveals := b\<rparr>) = vm_typed s" "vm_typed (s\<lparr>last_call_target := c\<rparr>) = vm_typed s"
  "vm_typed (s\<lparr>current_instruction := ci\<rparr>) = vm_typed s" "vm_typed (s\<lparr>frame_runtime_functions := fs\<rparr>) = vm_typed s"
  by (simp_all add: vm_typed_def)

lemma types_on_frame:
  assumes "\<And>r x r'. g r = Inr (x, r') \<Longrightarrow> secret_bank_ok (ar_registers r) \<Longrightarrow>
      rf_layout (ar_registers r') = rf_layout (ar_registers r) \<and> secret_bank_ok (ar_registers r')"
  shows "keeps_types (on_frame g)"
proof (rule keeps_typesI)
  fix s res t assume s: "vm_typed s" and "on_frame g s = (res, t)"
  then consider "t = s" | r x r' where "current_frame s = Inr r" "g r = Inr (x, r')" "t = put_frame r' s"
    by (auto simp: on_frame_def split: sum.splits)
  then show "vm_typed t"
  proof cases
    case 2
    then have "file_typed (vm_register_layout s) (ar_registers r')"
      using assms [OF 2(2)] vm_typed_frame [OF s 2(1)] by (simp add: file_typed_def)
    then show ?thesis using vm_typed_put [OF s] 2(3) by simp
  qed (use s in simp)
qed

section \<open>Register writes\<close>

lemma set_slot_typed:
  assumes "set_slot f i sl = Some (old, g)" "secret_bank_ok f" "is_secret (rf_layout f) i \<longrightarrow> secret_slot_ok sl"
  shows "rf_layout g = rf_layout f \<and> secret_bank_ok g"
proof (cases "i < secret_start (rf_layout f)")
  case True
  then show ?thesis using assms by (auto simp: set_slot_eq secret_bank_ok_def)
next
  case False
  then have "g = f\<lparr>secret_bank := (secret_bank f)[i - secret_start (rf_layout f) := sl]\<rparr>" "secret_slot_ok sl"
    using assms(1,3) by (auto simp: set_slot_eq)
  then show ?thesis
    using assms(2) set_update_subset_insert [of "secret_bank f" "i - secret_start (rf_layout f)" sl]
    by (auto simp: secret_bank_ok_def)
qed

lemma prepare_typed:
  "prepare_register_write_value_for_layout s l i v = Inr w \<Longrightarrow> is_secret l i \<Longrightarrow> secret_value w"
  by (cases v) (auto simp: prepare_register_write_value_for_layout_def convert_to_share_def share_clear_value_def rbind_Inr_iff)

lemma write_ready_typed:
  "rf_write_ready f i v = Some g \<Longrightarrow> secret_bank_ok f \<Longrightarrow> is_secret (rf_layout f) i \<longrightarrow> secret_value v \<Longrightarrow>
   rf_layout g = rf_layout f \<and> secret_bank_ok g"
  using set_slot_typed [of f i "Ready v"] by (auto simp: rf_write_ready_def split: option.splits)

lemma replace_typed:
  assumes s: "vm_typed s" and run: "replace_current_register_value x v s = (res, t)"
    and v: "is_secret (vm_register_layout s) (unat x) \<longrightarrow> secret_value v"
  shows "vm_typed t"
proof (cases "current_frame s")
  case (Inr r)
  note f = vm_typed_frame [OF s Inr]
  show ?thesis
  proof (cases "set_slot (ar_registers r) (unat x) (Ready v)")
    case None
    then show ?thesis using run Inr s by (simp add: replace_current_register_value_def on_frame_def replace_value_def)
  next
    case (Some p)
    then have "file_typed (vm_register_layout s) (snd p)"
      using f v set_slot_typed [of "ar_registers r" "unat x" "Ready v" "fst p" "snd p"] by (simp add: file_typed_def)
    then show ?thesis using run Inr s Some vm_typed_put [OF s]
      by (auto simp: replace_current_register_value_def on_frame_def replace_value_def split: prod.splits)
  qed
qed (use run s in \<open>simp add: replace_current_register_value_def on_frame_def\<close>)

lemma types_assign_prepared: "keeps_types (assign_prepared x v)"
proof (rule keeps_typesI)
  fix s res t assume s: "vm_typed s" and run: "assign_prepared x v s = (res, t)"
  obtain y u where y: "prepare_current_register_write x v s = (y, u)" by (cases "prepare_current_register_write x v s")
  have u: "vm_typed u" "vm_register_layout u = vm_register_layout s"
    using y s by (auto simp: prepare_current_register_write_def mbind_def mread_def split: sum.splits if_splits)
  show "vm_typed t"
  proof (cases y)
    case (Inl e)
    then show ?thesis using run y u by (simp add: assign_prepared_def mbind_def)
  next
    case (Inr w)
    obtain r where "current_frame s = Inr r"
        "prepare_register_write_value_for_layout s (rf_layout (ar_registers r)) (unat x) v = Inr w"
      using y Inr by (auto simp: prepare_current_register_write_def mbind_Inr_iff mread_def rbind_Inr_iff split: if_splits sum.splits)
    then have w: "is_secret (vm_register_layout u) (unat x) \<longrightarrow> secret_value w"
      using prepare_typed vm_typed_frame [OF s] u(2) by (auto simp: file_typed_def)
    obtain z t' where z: "replace_current_register_value x w u = (z, t')" by (cases "replace_current_register_value x w u")
    then have "t' = t" using run y Inr by (cases z) (auto simp: assign_prepared_def mbind_def mret_def)
    then show ?thesis using replace_typed [OF u(1) z w] by simp
  qed
qed

lemma types_assign [types_intro]: "keeps_types (assign_current_register_without_previous x v)"
proof (rule keeps_typesI)
  fix s res t assume s: "vm_typed s" and run: "assign_current_register_without_previous x v s = (res, t)"
  consider "t = s" | "assign_prepared x v s = (res, t)"
    | r where "current_frame s = Inr r" "is_clear (rf_layout (ar_registers r)) (unat x)"
        "mbind (replace_current_register_value x v) (\<lambda>_. mret ()) s = (res, t)"
    | r f where "current_frame s = Inr r" "is_clear (rf_layout (ar_registers r)) (unat x)"
        "rf_write_ready (ar_registers r) (unat x) v = Some f" "t = put_frame (r\<lparr>ar_registers := f\<rparr>) s"
    using run unfolding assign_current_register_without_previous_def
    by (cases "has_pending (vm_reveals s)"; cases "current_frame s")
      (auto simp: ensure_frame_contains_register_def split: if_splits option.splits)
  then show "vm_typed t"
  proof cases
    case 2
    then show ?thesis using keeps_typesD [OF types_assign_prepared s] by blast
  next
    case 3
    obtain z t' where z: "replace_current_register_value x v s = (z, t')" by (cases "replace_current_register_value x v s")
    then have "t' = t" using 3(3) by (cases z) (auto simp: mbind_def mret_def)
    then show ?thesis using replace_typed [OF s z] 3(2) vm_typed_frame [OF s 3(1)] by (simp add: file_typed_def)
  next
    case 4
    then show ?thesis using vm_typed_put [OF s] vm_typed_frame [OF s 4(1)] write_ready_typed [OF 4(3)]
      by (simp add: file_typed_def)
  qed (use s in simp)
qed

lemma types_fast_write:
  assumes s: "vm_typed s" and run: "write_fast_clear_register x v s = (res, t)"
    and x: "is_clear (vm_register_layout s) (unat x)"
  shows "vm_typed t"
proof (cases "current_frame s")
  case (Inr r)
  note f = vm_typed_frame [OF s Inr]
  show ?thesis
  proof (cases "rf_write_ready (ar_registers r) (unat x) v")
    case None
    then show ?thesis using run Inr s by (simp add: write_fast_clear_register_def on_frame_def)
  next
    case (Some g)
    then show ?thesis using run Inr s f x vm_typed_put [OF s] write_ready_typed [OF Some]
      by (auto simp: write_fast_clear_register_def on_frame_def file_typed_def)
  qed
qed (use run s in \<open>simp add: write_fast_clear_register_def on_frame_def\<close>)

section \<open>Reveals and reads\<close>

lemma types_assign_all [types_intro]: "keeps_types (assign_all xvs)"
  by (induction xvs rule: assign_all.induct) (simp_all add: types_intro)

lemma types_flush_reveals [types_intro]: "keeps_types (flush_reveals d)"
  by (rule keeps_typesI) (auto simp: flush_reveals_def split: if_splits option.splits prod.splits)

lemma types_flush [types_intro]: "keeps_types flush_pending_reveals"
proof -
  have "keeps_types (\<lambda>s :: vm_state. (Inr (), s) :: (vm_error + unit) \<times> vm_state)" by (simp add: keeps_types_def)
  then show ?thesis unfolding flush_pending_reveals_def by (intro types_intro)
qed

lemma types_ensure [types_intro]: "keeps_types (ensure_registers_resolved xs)"
proof (rule keeps_typesI)
  fix s res t assume s: "vm_typed s" and "ensure_registers_resolved xs s = (res, t)"
  then have "t = s \<or> flush_pending_reveals s = (res, t)"
    by (auto simp: ensure_registers_resolved_def split: sum.splits if_splits)
  then show "vm_typed t" using s keeps_typesD [OF types_flush s] by blast
qed

lemma types_resolve [types_intro]:
  "keeps_types (resolve_register x)" "keeps_types (resolve_register_pair x y)"
  "keeps_types (with_resolved_register x f)" "keeps_types (with_resolved_register_pair x y g)"
  unfolding resolve_register_def resolve_register_pair_def with_resolved_register_def with_resolved_register_pair_def
  by (intro types_intro)+

lemma placeholder_typed:
  assumes s: "vm_typed s" and run: "write_pending_reveal_placeholder x s = (res, t)"
    and x: "is_clear (vm_register_layout s) (unat x)"
  shows "vm_typed t"
proof (cases "current_frame s")
  case (Inr r)
  note f = vm_typed_frame [OF s Inr]
  show ?thesis
  proof (cases "set_slot (ar_registers r) (unat x) PendingReveal")
    case None
    then show ?thesis using run Inr s by (simp add: write_pending_reveal_placeholder_def on_frame_def set_pending_reveal_def)
  next
    case (Some p)
    then have "file_typed (vm_register_layout s) (snd p)"
      using f x set_slot_typed [of "ar_registers r" "unat x" PendingReveal "fst p" "snd p"] by (simp add: file_typed_def)
    then show ?thesis using run Inr s Some vm_typed_put [OF s]
      by (auto simp: write_pending_reveal_placeholder_def on_frame_def set_pending_reveal_def split: prod.splits)
  qed
qed (use run s in \<open>simp add: write_pending_reveal_placeholder_def on_frame_def\<close>)

lemma queue_reveal_typed:
  assumes s: "vm_typed s" and run: "queue_reveal_to_register v x s = (res, t)"
    and x: "is_clear (vm_register_layout s) (unat x)"
  shows "vm_typed t"
proof (cases "enabled (vm_reveals s)")
  case False
  have "keeps_types (mbind (mread (\<lambda>s. reveal_share_immediate s v)) (assign_current_register_without_previous x))"
    by (intro types_intro)
  then show ?thesis using keeps_typesD [OF _ s] run False by (simp add: queue_reveal_to_register_def)
next
  case True
  let ?s = "\<lambda>d ty q. s\<lparr>vm_reveals := queue \<lparr>frame_depth = d, dest_register = x\<rparr> ty q (vm_reveals s)\<rparr>"
  consider "t = s" | d ty q where "flush_pending_reveals (?s d ty q) = (res, t)"
    | d ty q where "write_pending_reveal_placeholder x (?s d ty q) = (res, t)"
  proof (cases "mpc_ensure_ready s")
    case (Inl e)
    then show ?thesis using run True that(1) by (simp add: queue_reveal_to_register_def mbind_def mread_def)
  next
    case ready: (Inr w)
    show ?thesis
    proof (cases "current_frame_depth s")
      case (Inl e)
      then show ?thesis using run True that(1) ready by (simp add: queue_reveal_to_register_def mbind_def mread_def)
    next
      case (Inr d)
      then show ?thesis using run True that ready
        by (cases v) (auto simp: queue_reveal_to_register_def mbind_def mread_def mmodify_def merr_def split: if_splits)
    qed
  qed
  then show ?thesis
  proof cases
    case 2
    then show ?thesis using s keeps_typesD [OF types_flush, of "?s d ty q"] by simp
  next
    case 3
    then show ?thesis using s x placeholder_typed [of "?s d ty q"] by simp
  qed (use s in simp)
qed

section \<open>Instructions\<close>

lemma types_first_try [types_intro]: "keeps_types m \<Longrightarrow> keeps_types n \<Longrightarrow> keeps_types (first_try m n)"
  unfolding first_try_def by (intro types_mbind) (simp_all add: types_basic)

lemma fast_operands_clear:
  "fast_operands r ds xs = Inr (Some vs) \<Longrightarrow> d \<in> set ds \<Longrightarrow> is_clear (rf_layout (ar_registers r)) (unat d)"
  by (auto simp: fast_operands_def rbind_Inr_iff list_all_iff split: if_splits)

lemma fast_write_typed:
  assumes s: "vm_typed s" and run: "mbind (write_fast_clear_register d u) (\<lambda>_. mret True) s = (res, t)"
    and ops: "rbind (current_frame s) (\<lambda>r. fast_operands r [d] xs) = Inr (Some vs)"
  shows "vm_typed t"
proof -
  obtain r where "current_frame s = Inr r" "is_clear (rf_layout (ar_registers r)) (unat d)"
    using ops fast_operands_clear [of _ "[d]"] by (auto simp: rbind_Inr_iff)
  then have "is_clear (vm_register_layout s) (unat d)" using vm_typed_frame [OF s] by (auto simp: file_typed_def)
  moreover obtain z where "write_fast_clear_register d u s = (z, t)"
    using run by (auto simp: mbind_def mret_def split: prod.splits sum.splits)
  ultimately show ?thesis using types_fast_write [OF s] by blast
qed

lemma types_fast_binary [types_intro]: "keeps_types (try_execute_fast_clear_binary_op d x y oper)"
proof (rule keeps_typesI)
  fix s res t assume s: "vm_typed s" and "try_execute_fast_clear_binary_op d x y oper s = (res, t)"
  then have "t = s \<or> (\<exists>u vs. rbind (current_frame s) (\<lambda>r. fast_operands r [d] [x, y]) = Inr (Some vs) \<and>
      mbind (write_fast_clear_register d u) (\<lambda>_. mret True) s = (res, t))"
    by (auto simp: try_execute_fast_clear_binary_op_def split: if_splits sum.splits option.splits list.splits)
  then show "vm_typed t" using s fast_write_typed [OF s] by blast
qed

lemma types_fast_not [types_intro]: "keeps_types (try_execute_fast_clear_not d x)"
proof (rule keeps_typesI)
  fix s res t assume s: "vm_typed s" and "try_execute_fast_clear_not d x s = (res, t)"
  then have "t = s \<or> (\<exists>u vs. rbind (current_frame s) (\<lambda>r. fast_operands r [d] [x]) = Inr (Some vs) \<and>
      mbind (write_fast_clear_register d u) (\<lambda>_. mret True) s = (res, t))"
    by (auto simp: try_execute_fast_clear_not_def split: if_splits sum.splits option.splits list.splits)
  then show "vm_typed t" using s fast_write_typed [OF s] by blast
qed

lemma types_flag: "keeps_types (on_frame (\<lambda>r. Inr (x, r\<lparr>ar_compare_flag := c\<rparr>)))"
  by (intro types_on_frame) auto

lemma types_fast_cmp [types_intro]: "keeps_types (try_execute_fast_clear_cmp x y)"
proof (rule keeps_typesI)
  fix s res t assume s: "vm_typed s" and "try_execute_fast_clear_cmp x y s = (res, t)"
  then have "t = s \<or> (\<exists>c. on_frame (\<lambda>r. Inr (True, r\<lparr>ar_compare_flag := compare_flag_from_ordering c\<rparr>)) s = (res, t))"
    by (auto simp: try_execute_fast_clear_cmp_def split: if_splits sum.splits option.splits list.splits)
  then show "vm_typed t" using s keeps_typesD [OF types_flag s] by (elim disjE exE) simp_all
qed

lemma types_fast_ld [types_intro]: "keeps_types (try_execute_fast_clear_ld d off)"
proof (rule keeps_typesI)
  fix s res t assume s: "vm_typed s" and run: "try_execute_fast_clear_ld d off s = (res, t)"
  have "t = s \<or> (\<exists>r i r'. current_frame s = Inr r \<and> copy_stack_value_to_clear_register r (unat d) i = Some (CCopied, r') \<and>
      t = put_frame r' s)"
    by (rule fast_ld_outcome [OF run])
  moreover have "file_typed l (ar_registers r')"
    if "copy_stack_value_to_clear_register r (unat d) i = Some (CCopied, r')" "file_typed l (ar_registers r)" for l r i r'
    using that by (auto simp: copy_stack_value_to_clear_register_def write_clear_value_from_ref_def file_typed_def secret_bank_ok_def
        split: if_splits)
  ultimately show "vm_typed t" using s vm_typed_put [OF s] vm_typed_frame [OF s] by blast
qed

lemma copy_typed:
  "copy_clear_value f a b = (k, g) \<Longrightarrow> secret_bank_ok f \<Longrightarrow> rf_layout g = rf_layout f \<and> secret_bank_ok g"
  "copy_secret_value f a b = (k', h) \<Longrightarrow> secret_bank_ok f \<Longrightarrow> rf_layout h = rf_layout f \<and> secret_bank_ok h"
proof -
  show "copy_clear_value f a b = (k, g) \<Longrightarrow> secret_bank_ok f \<Longrightarrow> rf_layout g = rf_layout f \<and> secret_bank_ok g"
    by (auto simp: copy_clear_value_def copy_clear_bank_value_def secret_bank_ok_def split: if_splits option.splits)
  have clone: "clone_secret_register_value v = Some w \<Longrightarrow> secret_slot_ok (Ready w)" for v w by (cases v) auto
  have upd: "secret_bank_ok f \<Longrightarrow> secret_slot_ok sl \<Longrightarrow> secret_bank_ok (f\<lparr>secret_bank := (secret_bank f)[i := sl]\<rparr>)" for i sl
    using set_update_subset_insert [of "secret_bank f" i sl] by (auto simp: secret_bank_ok_def)
  assume c: "copy_secret_value f a b = (k', h)" and f: "secret_bank_ok f"
  then have "h = f \<or> (\<exists>i v w. clone_secret_register_value v = Some w \<and> h = f\<lparr>secret_bank := (secret_bank f)[i := Ready w]\<rparr>)"
    by (auto simp: copy_secret_value_def copy_secret_bank_value_def split: if_splits option.splits)
  then show "rf_layout h = rf_layout f \<and> secret_bank_ok h" using f upd clone by auto
qed

lemma types_fast_mov [types_intro]:
  "keeps_types (try_execute_fast_clear_copy_mov d x)" "keeps_types (try_execute_fast_secret_copy_mov d x)"
proof -
  have g: "keeps_types (on_frame (\<lambda>r. case copy_clear_value (ar_registers r) (unat d) (unat x) of
             (CCopied, f) \<Rightarrow> Inr (True, r\<lparr>ar_registers := f\<rparr>)
           | (CNotClearRegister, _) \<Rightarrow> Inr (False, r)
           | (CSourcePendingReveal, _) \<Rightarrow> Inl (PendingRevealWithoutQueuedBatch (unat x))
           | (CRegisterOutOfBounds, _) \<Rightarrow> Inl (out_of_bounds_of_two r d x)))"
    by (intro types_on_frame) (auto split: prod.splits clear_register_copy_result.splits dest: copy_typed)
  have h: "keeps_types (on_frame (\<lambda>r. case copy_secret_value (ar_registers r) (unat d) (unat x) of
             (SCopied, f) \<Rightarrow> Inr (True, r\<lparr>ar_registers := f\<rparr>)
           | (SNotSecretRegister, _) \<Rightarrow> Inr (False, r)
           | (SSourceNotSecretValue, _) \<Rightarrow> Inr (False, r)
           | (SSourcePendingReveal, _) \<Rightarrow> Inl (PendingRevealWithoutQueuedBatch (unat x))
           | (SRegisterOutOfBounds, _) \<Rightarrow> Inl (out_of_bounds_of_two r d x)))"
    by (intro types_on_frame) (auto split: prod.splits secret_register_copy_result.splits dest: copy_typed)
  show "keeps_types (try_execute_fast_clear_copy_mov d x)" "keeps_types (try_execute_fast_secret_copy_mov d x)"
    using g h by (auto simp: keeps_types_def try_execute_fast_clear_copy_mov_def try_execute_fast_secret_copy_mov_def)
qed

lemma types_general [types_intro]:
  "keeps_types (arith_general oper d x y)" "keeps_types (binary_general oper2 d x y)" "keeps_types (execute_not_general d x)"
  "keeps_types (execute_ld_general d off)" "keeps_types (execute_cmp_general x y)"
  unfolding arith_general_def binary_general_def execute_not_general_def execute_ld_general_def execute_cmp_general_def
  by (intro types_intro types_flag | simp add: types_intro)+

lemma types_mov_general [types_intro]: "keeps_types (execute_mov_general d x)"
proof (rule keeps_typesI)
  fix s res t assume s: "vm_typed s" and run: "execute_mov_general d x s = (res, t)"
  show "vm_typed t"
  proof (cases "current_frame s")
    case (Inl e)
    then show ?thesis using run s by (simp add: execute_mov_general_def mbind_def mread_def current_register_layout_def)
  next
    case (Inr r)
    have lay: "current_register_layout s = Inr (vm_register_layout s)"
      using vm_typed_frame [OF s Inr] Inr by (simp add: current_register_layout_def file_typed_def)
    let ?k = "move_kind (vm_register_layout s) (unat d) (unat x)"
    obtain y u where y: "resolve_register x s = (y, u)" by (cases "resolve_register x s")
    have u: "vm_typed u" "vm_register_layout u = vm_register_layout s"
      using keeps_typesD [OF types_resolve(1) s y] touches_fields(7) [OF localizedD [OF localized_resolve(1) y]] .
    show ?thesis
    proof (cases y)
      case (Inl e)
      then show ?thesis using run y u lay by (simp add: execute_mov_general_def mbind_def mread_def)
    next
      case (Inr v)
      let ?assign = "mbind (mread (\<lambda>s. if ?k = ClearToSecret
          then (case v of Share _ _ \<Rightarrow> Inr v
                | Object _ \<Rightarrow> map_ok (\<lambda>(ty, d). Share ty d) (vm_extract_share_data s v) | _ \<Rightarrow> convert_to_share s v)
          else Inr v)) (assign_current_register_without_previous d)"
      have a: "keeps_types ?assign" by (intro types_intro)
      have run': "(if ?k = SecretToClear then queue_reveal_to_register v d else ?assign) u = (res, t)"
        using run y Inr lay by (simp add: execute_mov_general_def mbind_def mread_def)
      show ?thesis
      proof (cases "?k = SecretToClear")
        case True
        then show ?thesis using queue_reveal_typed [OF u(1), of v d res t] run' u(2) by (simp add: move_kind_eq)
      next
        case False
        then show ?thesis using run' keeps_typesD [OF a u(1)] by simp
      qed
    qed
  qed
qed

lemma types_operators [types_intro]:
  "keeps_types (execute_binary_op bop d x y)" "keeps_types (execute_shift_op sop d x y)" "keeps_types (execute_unary_op uop d x)"
  "keeps_types (execute_cmp x y)" "keeps_types (execute_ld d off)"
  by (cases bop; cases sop; cases uop;
      simp add: execute_add_def execute_sub_def execute_mul_def execute_div_def execute_mod_def execute_and_def execute_or_def
        execute_xor_def execute_shl_def execute_shr_def execute_not_def execute_cmp_def execute_ld_def
        try_execute_fast_clear_add_def types_intro)+

lemma types_mov [types_intro]: "keeps_types (execute_mov d x)"
proof -
  let ?m = "first_try (try_execute_fast_clear_copy_mov d x)
     (\<lambda>s. if is_secret (vm_register_layout s) (unat d) \<and> is_secret (vm_register_layout s) (unat x)
          then first_try (try_execute_fast_secret_copy_mov d x) (execute_mov_general d x) s
          else execute_mov_general d x s)"
  have "keeps_types ?m" by (intro types_intro)
  then show ?thesis by (simp add: keeps_types_def execute_mov_def)
qed

lemma types_frame_only [types_intro]:
  "keeps_types (execute_sts slot x)" "keeps_types (execute_pusharg x)" "keeps_types (execute_jump c n)"
  "keeps_types (fetch_instruction rt)" "keeps_types update_closure_upvalues" "keeps_types drain_call_args"
  "keeps_types (restore_call_args_after_error args)"
proof -
  show "keeps_types (restore_call_args_after_error args)"
    unfolding restore_call_args_after_error_def
    by (intro types_if types_on_frame) (auto simp: keeps_types_def)
qed (unfold execute_sts_def execute_pusharg_def execute_jump_def fetch_instruction_def update_closure_upvalues_def drain_call_args_def,
    (intro types_intro types_on_frame;
     auto simp: spill_store_def Let_def advance_instruction_pointer_after_fetch_def split: option.splits)+)

text \<open>What a spill load finds: the value of the slot, if there is a frame.\<close>

definition loads_secret :: "vm_state \<Rightarrow> usize \<Rightarrow> bool" where
  "loads_secret s slot = (case current_frame s of Inl _ \<Rightarrow> True | Inr r \<Rightarrow> secret_value (spill_load r slot))"

lemma put_frame_current: "current_frame s = Inr r \<Longrightarrow> current_frame (put_frame r' s) = Inr r'"
  by (auto simp: current_frame_def put_frame_def last_conv_nth split: if_splits)

lemma write_ready_secret:
  assumes "rf_write_ready f i v = Some g" "is_secret (rf_layout f) i" "secret_bank_ok g"
  shows "secret_value v"
proof -
  let ?k = "i - secret_start (rf_layout f)"
  have g: "?k < length (secret_bank f)" "g = f\<lparr>secret_bank := (secret_bank f)[?k := Ready v]\<rparr>"
    using assms(1,2) by (auto simp: rf_write_ready_def set_slot_eq vec_get_def split: option.splits if_splits)
  then have "Ready v \<in> set (secret_bank g)" by (simp add: set_update_memI)
  then show ?thesis using assms(3) by (auto simp: secret_bank_ok_def)
qed

text \<open>A spill load writes what it finds: it keeps the typing exactly when that is a share or nothing.\<close>

lemma lds_typed:
  assumes s: "vm_typed s" and run: "execute_lds d slot s = (res, t)" and secret: "is_secret (vm_register_layout s) (unat d)"
  shows "loads_secret s slot \<Longrightarrow> vm_typed t" and "res = Inr u \<Longrightarrow> vm_typed t \<Longrightarrow> loads_secret s slot"
proof -
  have "(loads_secret s slot \<longrightarrow> vm_typed t) \<and> (res = Inr u \<longrightarrow> vm_typed t \<longrightarrow> loads_secret s slot)"
  proof (cases "current_frame s")
    case (Inr r)
    note f = vm_typed_frame [OF s Inr]
    show ?thesis
    proof (cases "unat d < rf_len (ar_registers r) \<and> rf_write_ready (ar_registers r) (unat d) (spill_load r slot) \<noteq> None")
      case False
      then show ?thesis using run Inr s
        by (auto simp: execute_lds_def on_frame_def ensure_frame_contains_register_def split: if_splits)
    next
      case True
      then obtain g where g: "rf_write_ready (ar_registers r) (unat d) (spill_load r slot) = Some g" by blast
      have t: "t = put_frame (r\<lparr>ar_registers := g\<rparr>) s"
        using run True g Inr by (auto simp: execute_lds_def on_frame_def ensure_frame_contains_register_def)
      have "vm_typed t" if "loads_secret s slot"
        using write_ready_typed [OF g] f that Inr vm_typed_put [OF s] by (simp add: file_typed_def loads_secret_def t)
      moreover have "loads_secret s slot" if "vm_typed t"
        using write_ready_secret [OF g] f secret vm_typed_frame [OF that, of "r\<lparr>ar_registers := g\<rparr>"] Inr
        by (simp add: file_typed_def loads_secret_def t put_frame_current)
      ultimately show ?thesis by blast
    qed
  qed (use run s in \<open>simp add: execute_lds_def on_frame_def loads_secret_def\<close>)
  then show "loads_secret s slot \<Longrightarrow> vm_typed t" "res = Inr u \<Longrightarrow> vm_typed t \<Longrightarrow> loads_secret s slot" by auto
qed

lemma lds_clear_typed:
  assumes s: "vm_typed s" and run: "execute_lds d slot s = (res, t)" and clear: "\<not> is_secret (vm_register_layout s) (unat d)"
  shows "vm_typed t"
proof -
  have kept: "file_typed (vm_register_layout s) g"
    if "current_frame s = Inr r" "rf_write_ready (ar_registers r) (unat d) v = Some g" for r g v
    using write_ready_typed [OF that(2)] vm_typed_frame [OF s that(1)] clear by (simp add: file_typed_def)
  then show ?thesis using run s vm_typed_put [OF s]
    by (auto simp: execute_lds_def on_frame_def ensure_frame_contains_register_def rbind_def ok_or_def
        split: sum.splits if_splits option.splits)
qed

text \<open>A spill store of a secret register saves a share or nothing.\<close>

lemma sts_saves_secret:
  assumes s: "vm_typed s" and run: "execute_sts slot x s = (Inr u, t)" and secret: "is_secret (vm_register_layout s) (unat x)"
  shows "loads_secret t slot"
proof -
  obtain r v where r: "current_frame s = Inr r" "register_value_ref r x = Inr v" "t = put_frame (spill_store slot v r) s"
    using run by (auto simp: execute_sts_def current_register_value_def mbind_def mread_def on_frame_def rbind_def split: sum.splits)
  have f: "rf_layout (ar_registers r) = vm_register_layout s" "secret_bank_ok (ar_registers r)"
    using vm_typed_frame [OF s r(1)] by (simp_all add: file_typed_def)
  have "get_slot (ar_registers r) (unat x) = Some (Ready v)"
    using r(2) by (auto simp: register_value_ref_def rf_get_def rbind_def ok_or_def bind_eq_Some_conv elim: as_value.elims split: option.splits register_slot.splits sum.splits if_splits)
  then have "Ready v \<in> set (secret_bank (ar_registers r))"
    using secret f(1) by (auto simp: get_slot_eq vec_get_def split: if_splits dest!: sym [of _ "Ready v"])
  then have "secret_value v" using f(2) by (auto simp: secret_bank_ok_def)
  moreover have "spill_load (spill_store slot v r) slot = v"
    by (auto simp: spill_load_def spill_store_def vec_get_def Let_def resize_to_def)
  ultimately show ?thesis by (simp add: loads_secret_def r(3) put_frame_current [OF r(1)])
qed

section \<open>Calls and returns\<close>

definition args_typed :: "register_layout \<Rightarrow> val list \<Rightarrow> bool" where
  "args_typed l vs = (\<forall>i < length vs. is_secret l i \<longrightarrow> secret_value (vs ! i))"

lemma prepared_arguments_typed:
  assumes "prepare_register_arguments s args = Inr ws"
  shows "args_typed (vm_register_layout s) ws"
proof -
  let ?l = "vm_register_layout s"
  have "collect (map (\<lambda>(i, v). prepare_register_write_value_for_layout s ?l i v) (enumerate n vs)) = Inr us \<Longrightarrow>
      j < length us \<Longrightarrow> is_secret ?l (n + j) \<Longrightarrow> secret_value (us ! j)" for n vs us j
  proof (induction vs arbitrary: n us j)
    case (Cons v vs)
    then obtain w ws where w: "prepare_register_write_value_for_layout s ?l n v = Inr w"
        "collect (map (\<lambda>(i, v). prepare_register_write_value_for_layout s ?l i v) (enumerate (Suc n) vs)) = Inr ws" "us = w # ws"
      by (cases "prepare_register_write_value_for_layout s ?l n v") (auto simp: map_ok_Inr_iff)
    show ?case
    proof (cases j)
      case 0
      then show ?thesis using prepare_typed [OF w(1)] Cons.prems(3) w(3) by simp
    next
      case (Suc k)
      then show ?thesis using Cons.IH [OF w(2), of k] Cons.prems(2,3) w(3) by simp
    qed
  qed simp
  then show ?thesis using assms unfolding prepare_register_arguments_def args_typed_def by (metis add_0)
qed

lemma secret_bank_drop:
  "register_file_ok f \<Longrightarrow> secret_bank f = drop (secret_start (rf_layout f)) (register_slots f)"
  by (cases "secret_bank f = []") (auto simp: register_file_ok_def register_slots_def)

lemma instantiate_frame_typed:
  assumes "instantiate_frame t l args ups clo = Inr r" "args_typed l args"
  shows "file_typed l (ar_registers r)"
proof -
  have new: "file_typed l (iter_mut_write (register_file_new l n) vs)" if "length vs \<le> n" "args_typed l vs" for n vs
  proof -
    let ?f = "iter_mut_write (register_file_new l n) vs"
    note w = iter_mut_write_new [OF that(1), of l]
    have "secret_slot_ok (register_slots ?f ! (secret_start l + i))" if "i < length (register_slots ?f) - secret_start l" for i
      using that w(1) \<open>args_typed l vs\<close> by (auto simp: args_typed_def nth_append)
    then have "\<forall>i < length (secret_bank ?f). secret_slot_ok (secret_bank ?f ! i)"
      using secret_bank_drop [OF w(2)] w(3) by simp
    then show ?thesis using w(3) by (auto simp: file_typed_def secret_bank_ok_def in_set_conv_nth)
  qed
  have none: "iter_mut_write (register_file_new l n) [] = register_file_new l n" for n
    by (simp add: iter_mut_write_def write_ready_none)
  show ?thesis
  proof (cases "ct_parameters t \<noteq> [] \<or> length args \<noteq> 0")
    case True
    then have *: "length args \<le> ct_frame_register_count t"
        "ar_registers r = iter_mut_write (register_file_new l (ct_frame_register_count t)) args"
      using assms(1) by (auto simp: instantiate_frame_def bind_owned_parameters_def for_function_def Let_def split: if_splits)
    then show ?thesis using new [OF *(1) assms(2)] by simp
  next
    case False
    then show ?thesis using assms(1) new [of "[]" "ct_frame_register_count t"] none
      by (auto simp: instantiate_frame_def Let_def for_function_def args_typed_def)
  qed
qed

lemma vm_typed_push:
  "vm_typed s \<Longrightarrow> file_typed (vm_register_layout s) (ar_registers r) \<Longrightarrow> vm_typed (push_activation_frame r rt s)"
  by (auto simp: vm_typed_def push_activation_frame_def)

lemma push_prepared_typed:
  "vm_typed s \<Longrightarrow> push_prepared_vm_frame t args ups clo s = (res, u) \<Longrightarrow> args_typed (vm_register_layout s) args \<Longrightarrow> vm_typed u"
  by (auto simp: push_prepared_vm_frame_def dest: instantiate_frame_typed intro: vm_typed_push split: sum.splits)

lemma push_empty_typed: "keeps_types (push_empty_vm_frame_without_hooks t)"
proof (rule keeps_typesI)
  fix s res u assume s: "vm_typed s" and run: "push_empty_vm_frame_without_hooks t s = (res, u)"
  have "file_typed (vm_register_layout s) (ar_registers (instantiate_empty_frame t (vm_register_layout s)))"
    by (auto simp: instantiate_empty_frame_def for_function_def file_typed_def secret_bank_ok_def register_file_new_def
        default_slots_def default_slot_def)
  then show "vm_typed u" using run vm_typed_push [OF s]
    by (auto simp: push_empty_vm_frame_without_hooks_def mmodify_def)
qed

lemma types_restoring: "vm_typed (snd (m s)) \<Longrightarrow> vm_typed (snd (restoring_args a m s))"
proof -
  assume m: "vm_typed (snd (m s))"
  obtain y u where y: "m s = (y, u)" by (cases "m s")
  obtain z w where z: "restore_call_args_after_error a u = (z, w)" by (cases "restore_call_args_after_error a u")
  have "vm_typed w" using keeps_typesD [OF types_frame_only(7) _ z] m y by simp
  then show ?thesis using m y z by (cases y; cases z) (simp_all add: restoring_args_def)
qed

lemma drain_layout: "drain_call_args s = (res, u) \<Longrightarrow> vm_register_layout u = vm_register_layout s"
  by (auto simp: drain_call_args_def mbind_def mread_def on_frame_def split: sum.splits)

text \<open>The call of a bytecode function: the prepared arguments are typed, and arguments are moved unprepared only
  into clear registers.\<close>

lemma drain_push_typed:
  assumes s: "vm_typed s" and a: "\<And>st r. current_frame s = Inr r \<Longrightarrow> st = ar_stack r \<Longrightarrow> args_typed (vm_register_layout s) (args st)"
  shows "vm_typed (snd (mbind drain_call_args (\<lambda>d. restoring_args d (push_prepared_vm_frame t (args (snd d)) ups None)) s))"
    "vm_typed (snd (mbind drain_call_args (\<lambda>d. push_prepared_vm_frame t (args (snd d)) ups None) s))"
proof -
  obtain y u where y: "drain_call_args s = (y, u)" by (cases "drain_call_args s")
  have u: "vm_typed u" by (rule keeps_typesD [OF types_frame_only(6) s y])
  have ok: "vm_typed (snd (push_prepared_vm_frame t (args (snd d)) ups None u))" if d: "y = Inr d" for d
  proof -
    obtain r where r: "current_frame s = Inr r" "snd d = ar_stack r"
      using y d by (cases "current_frame s") (auto simp: drain_call_args_def mbind_def mread_def on_frame_def)
    then have "args_typed (vm_register_layout u) (args (snd d))" using a [OF r] drain_layout [OF y] by simp
    then show ?thesis using push_prepared_typed [OF u] by (cases "push_prepared_vm_frame t (args (snd d)) ups None u") auto
  qed
  have restored: "vm_typed (snd (restoring_args d (push_prepared_vm_frame t (args (snd d)) ups None) u))" if "y = Inr d" for d
    by (rule types_restoring) (rule ok [OF that])
  show "vm_typed (snd (mbind drain_call_args (\<lambda>d. restoring_args d (push_prepared_vm_frame t (args (snd d)) ups None)) s))"
    using y u restored by (cases y) (simp_all add: mbind_def)
  show "vm_typed (snd (mbind drain_call_args (\<lambda>d. push_prepared_vm_frame t (args (snd d)) ups None) s))"
    using y u ok by (cases y) (simp_all add: mbind_def)
qed

lemma types_mread_bind:
  "(\<And>x. f s = Inr x \<Longrightarrow> vm_typed (snd (g x s))) \<Longrightarrow> vm_typed s \<Longrightarrow> vm_typed (snd (mbind (mread f) g s))"
  by (cases "f s") (simp_all add: mbind_def mread_def)

lemma types_call_vm [types_intro]: "keeps_types (call_vm t)"
proof (rule keeps_typesI)
  fix s res u assume s: "vm_typed s" and run: "call_vm t s = (res, u)"
  have "vm_typed (snd (call_vm t s))"
    unfolding call_vm_def
  proof (rule types_mread_bind [OF _ s])
    fix n assume n: "map_ok (\<lambda>r. length (ar_stack r)) (current_frame s) = Inr n"
    have empty: "vm_typed (snd (push_empty_vm_frame_without_hooks t s))" using push_empty_typed s by (simp add: keeps_types_def)
    have no_args: "vm_typed (snd (mbind (mread (\<lambda>s. prepare_vm_call_without_args s t)) (\<lambda>(args, ups). push_prepared_vm_frame t args ups None) s))"
    proof (rule types_mread_bind [OF _ s])
      fix pu assume "prepare_vm_call_without_args s t = Inr pu"
      then have "fst pu = []" by (auto simp: prepare_vm_call_without_args_def rbind_Inr_iff map_ok_Inr_iff)
      then have "vm_typed (snd (push_prepared_vm_frame t (fst pu) (snd pu) None s))"
        using push_prepared_typed [OF s, of t "fst pu" "snd pu" None] by (metis args_typed_def length_0_conv not_less_zero prod.collapse)
      then show "vm_typed (snd ((case pu of (args, ups) \<Rightarrow> push_prepared_vm_frame t args ups None) s))" by (simp add: case_prod_beta)
    qed
    have direct: "vm_typed (snd (mbind (mread (\<lambda>s. collect_vm_call_upvalues s (ct_upvalues t))) (\<lambda>ups.
        mbind drain_call_args (\<lambda>args. push_prepared_vm_frame t (snd args) ups None)) s))" if d: "can_move_call_args_directly s t n"
    proof (rule types_mread_bind [OF _ s], rule drain_push_typed(2) [OF s, where args = "\<lambda>st. st"])
      fix st r assume "current_frame s = Inr r" "st = ar_stack r"
      then show "args_typed (vm_register_layout s) st"
        using d n by (auto simp: can_move_call_args_directly_def args_typed_def list_all_iff)
    qed
    have prepared: "vm_typed (snd (mbind (mread (\<lambda>s. rbind (current_frame s) (\<lambda>r. prepare_vm_call s t (ar_stack r)))) (\<lambda>(prepared, ups).
        mbind drain_call_args (\<lambda>args. restoring_args args (push_prepared_vm_frame t prepared ups None))) s))"
    proof (rule types_mread_bind [OF _ s])
      fix pu assume pu: "rbind (current_frame s) (\<lambda>r. prepare_vm_call s t (ar_stack r)) = Inr pu"
      obtain ps ups where p: "pu = (ps, ups)" by (cases pu)
      have "args_typed (vm_register_layout s) ps"
        using pu p prepared_arguments_typed by (auto simp: rbind_Inr_iff prepare_vm_call_def map_ok_Inr_iff)
      then show "vm_typed (snd ((case pu of (prepared, ups) \<Rightarrow>
          mbind drain_call_args (\<lambda>args. restoring_args args (push_prepared_vm_frame t prepared ups None))) s))"
        using drain_push_typed(1) [OF s, where args = "\<lambda>_. ps"] p by simp
    qed
    show "vm_typed (snd (if n = 0
       then if ct_parameters t = [] \<and> ct_upvalues t = [] then push_empty_vm_frame_without_hooks t s
            else mbind (mread (\<lambda>s. prepare_vm_call_without_args s t)) (\<lambda>(args, ups). push_prepared_vm_frame t args ups None) s
       else if can_move_call_args_directly s t n
       then mbind (mread (\<lambda>s. collect_vm_call_upvalues s (ct_upvalues t))) (\<lambda>ups.
              mbind drain_call_args (\<lambda>args. push_prepared_vm_frame t (snd args) ups None)) s
       else mbind (mread (\<lambda>s. rbind (current_frame s) (\<lambda>r. prepare_vm_call s t (ar_stack r)))) (\<lambda>(prepared, ups).
              mbind drain_call_args (\<lambda>args. restoring_args args (push_prepared_vm_frame t prepared ups None))) s))"
      using empty no_args direct prepared by simp
  qed
  then show "vm_typed u" using run by simp
qed

definition host_typed :: "host \<Rightarrow> bool" where
  "host_typed host = (\<forall>f args. keeps_types (host f args))"

lemma types_return: "keeps_types (return_current_frame v cp)"
proof -
  have p: "vm_typed s \<Longrightarrow> vm_typed (pop_activation_frame s)" for s
    by (auto simp: vm_typed_def pop_activation_frame_def dest: in_set_butlastD)
  have sync: "vm_typed s \<Longrightarrow> vm_typed (sync_current_instruction_to_current_frame s)" for s
    by (simp add: sync_current_instruction_to_current_frame_def)
  have clear: "keeps_types (mmodify (\<lambda>s. s\<lparr>vm_reveals := clear_frame d (vm_reveals s)\<rparr>))" for d
    by (simp add: keeps_types_def mmodify_def)
  have pop: "keeps_types (mmodify (\<lambda>s. sync_current_instruction_to_current_frame (pop_activation_frame s)))"
    using p sync by (simp add: keeps_types_def mmodify_def)
  have fin: "keeps_types (\<lambda>s. (Inr (OutcomeReturn v), (pop_activation_frame s)\<lparr>current_instruction := None\<rparr>))"
    using p by (simp add: keeps_types_def)
  show ?thesis unfolding return_current_frame_def by (intro types_mbind types_if types_basic types_frame_only types_assign clear pop fin)
qed

lemma types_foreign:
  assumes "host_typed host"
  shows "keeps_types (call_foreign_function_internal host f args cp)" "keeps_types (call_foreign host f)"
proof -
  have h: "keeps_types (mmap_err g (host f args))" for g args
  proof (rule keeps_typesI)
    fix s res t assume s: "vm_typed s" and run: "mmap_err g (host f args) s = (res, t)"
    have k: "keeps_types (host f args)" using assms by (simp add: host_typed_def)
    obtain z where "host f args s = (z, t)" using run by (auto simp: mmap_err_def split: prod.splits)
    then show "vm_typed t" by (rule keeps_typesD [OF k s])
  qed
  have id: "keeps_types (\<lambda>s. (Inr x, s))" for x :: instruction_outcome by (simp add: keeps_types_def)
  show i: "keeps_types (call_foreign_function_internal host f args cp)" for args cp
    unfolding call_foreign_function_internal_def
    by (intro types_mbind h types_if id types_basic types_assign)
  have r: "keeps_types (restoring_args a (call_foreign_function_internal host f args cp))" for a args cp
    unfolding keeps_types_def by (intro allI impI types_restoring) (use i in \<open>simp add: keeps_types_def\<close>)
  have "keeps_types (\<lambda>s. call_foreign_function_internal host f [] (length (call_stack s)) s)"
    using i by (simp add: keeps_types_def)
  then show "keeps_types (call_foreign host f)"
    unfolding call_foreign_def by (intro types_mbind types_basic types_if types_frame_only r)
qed

lemma types_resolve_call [types_intro]: "keeps_types (resolve_call_target n)"
proof -
  have c: "keeps_types (cached_call_target n)"
    by (rule keeps_typesI) (auto simp: cached_call_target_def split: option.splits sum.splits if_splits)
  show ?thesis
  proof (rule keeps_typesI)
    fix s res t assume s: "vm_typed s" and run: "resolve_call_target n s = (res, t)"
    obtain y u where y: "cached_call_target n s = (y, u)" by (cases "cached_call_target n s")
    have "t = s \<or> t = u"
      using run y by (cases "split_once CHR ''.'' n"; cases y)
        (auto simp: resolve_call_target_def mbind_def mread_def mret_def split: sum.splits prod.splits)
    then show "vm_typed t" using s keeps_typesD [OF c s y] by blast
  qed
qed

lemma types_execute_call: "host_typed host \<Longrightarrow> keeps_types (execute_call host f)"
  unfolding execute_call_def
  by (intro types_intro) (auto split: call_target.split intro: types_intro types_foreign)

section \<open>Properties\<close>

text \<open>C21: the typing of secret registers. When every frame's secret registers hold shares or nothing,
  they do after any instruction other than a reload into a secret register, whether it succeeds or
  fails, and so do the registers of a frame that a call pushes; foreign functions are assumed to keep
  it. A reload into a secret register restores what its slot holds unconverted: it keeps the typing if
  and, where it succeeds, only if that is a share or nothing; and a save of a secret register puts a
  share or nothing into its slot.\<close>

theorem secret_registers_hold_shares:
  assumes "host_typed host" "vm_typed s" "execute_instruction host cp rt i s = (res, t)"
  shows "((\<forall>d slot. i = SpillLoad d slot \<longrightarrow> \<not> is_secret (vm_register_layout s) (unat d)) \<longrightarrow> vm_typed t) \<and>
    (\<forall>d slot. i = SpillLoad d slot \<longrightarrow> is_secret (vm_register_layout s) (unat d) \<longrightarrow>
       (loads_secret s slot \<longrightarrow> vm_typed t) \<and> (\<not> loads_secret s slot \<longrightarrow> (\<exists>e. res = Inl e) \<or> \<not> vm_typed t)) \<and>
    (\<forall>slot x o'. i = SpillStore slot x \<longrightarrow> is_secret (vm_register_layout s) (unat x) \<longrightarrow> res = Inr o' \<longrightarrow> loads_secret t slot)"
proof (cases "\<exists>d slot. i = SpillLoad d slot")
  case True
  then obtain d slot where i: "i = SpillLoad d slot" by blast
  then obtain z where z: "execute_lds d slot s = (z, t)" "(\<exists>e. res = Inl e) \<or> (\<exists>u. z = Inr u)"
    using assms(3) by (auto simp: continuing_def mbind_def mret_def split: prod.splits sum.splits)
  show ?thesis using lds_typed [OF assms(2) z(1)] lds_clear_typed [OF assms(2) z(1)] z(2) i by auto
next
  case False
  then have k: "keeps_types (execute_instruction host cp rt i)"
    by (cases i) (auto simp: continuing_def execute_ldi_def intro!: types_intro types_return types_execute_call assms(1))
  have "loads_secret t slot" if "i = SpillStore slot x" "is_secret (vm_register_layout s) (unat x)" "res = Inr o'" for slot x o'
    using assms(3) that sts_saves_secret [OF assms(2) _ that(2)]
    by (auto simp: continuing_def mbind_def mret_def split: prod.splits sum.splits)
  then show ?thesis using False keeps_typesD [OF k assms(2,3)] by blast
qed

text \<open>Loading an immediate into a secret register shares it.\<close>

theorem secret_registers_hold_shares_witness:
  "vm_typed (snd (execute_instruction quiet_host 0 \<lparr>rt_instructions = [], rt_constants = [I64 5], rt_call_targets = []\<rparr>
     (LoadImmediate 5 0) reveal_machine))"
proof -
  let ?rt = "\<lparr>rt_instructions = [], rt_constants = [I64 5], rt_call_targets = []\<rparr>"
  have h: "host_typed quiet_host" by (simp add: host_typed_def quiet_host_def [abs_def] keeps_types_def)
  have s: "vm_typed reveal_machine"
    by (simp add: vm_typed_def file_typed_def secret_bank_ok_def reveal_machine_def sample_simps)
  show ?thesis
    using secret_registers_hold_shares [OF h s, of 0 ?rt "LoadImmediate 5 0"]
    by (cases "execute_instruction quiet_host 0 ?rt (LoadImmediate 5 0) reveal_machine") simp
qed

end
