(* ===== verification/Byte_Codec.thy ===== *)
theory Byte_Codec
  imports Bytecode
begin

text \<open>
  Byte-level reading and writing as \<open>stoffel-vm-types/src/compiled_binary.rs\<close> does it: a writer
  appends to a byte string (and has written a prefix when it fails), a reader consumes one. The
  helpers for length-prefixed strings and bounded counts are those of the source; validity of
  UTF-8 is that of \<open>String::from_utf8\<close>.

  \<open>roundtrips w r x\<close> says that what the writer \<open>w\<close> appends is read back by \<open>r\<close> as \<open>x\<close>, whatever
  follows. It composes along sequencing and repetition, so the round trip of a format is an
  application of its introduction rules. The locale \<open>codec\<close> is the contract of a pair of a
  writer and a reader; from it follow the round trip of sequences and that no encoding is a
  proper prefix of another.
\<close>

type_synonym u8 = byte
type_synonym u16 = "16 word"

section \<open>Errors\<close>

text \<open>The messages of \<open>BinaryError::InvalidData\<close> as data: the field named in the message and the
  numbers rendered in it.\<close>

datatype (plugins only: code) invalid_data =
    ExceedsU16 string usize
  | ExceedsU32 string usize
  | ExceedsMaximum string usize usize
  | InvalidUtf8 string
  | UnsupportedValueType val
  | UnknownValueTag u8
  | UnknownOpcode u8
  | UnknownBackendTag u8
  | UnknownCurveTag u8
  | UnknownShareTypeTag u8
  | UnknownFunctionTypeTag u8
  | InvalidShareMetadata string share_type_error
  | ParameterTypeCountMismatch string usize usize
  | InvalidParentFlag u8
  | ZeroBitWidth string
  | MissingConstant string usize usize usize
  | DuplicateFunction string
  | UnknownCompiledLabel string
  | LabelPastEnd string usize usize
  | InvalidFunction function_error
  | InvalidVmFunction vm_error

datatype (plugins only: code) binary_error =
    UnexpectedEof
  | InvalidMagicBytes
  | UnsupportedVersion u16
  | InvalidData invalid_data

type_synonym 'a reader = "(byte list, binary_error, 'a) meth"
type_synonym writer = "(byte list, binary_error, unit) meth"

section \<open>Primitive writers and readers\<close>

definition write_all :: "byte list \<Rightarrow> writer" where
  "write_all bs = mmodify (\<lambda>out. out @ bs)"

text \<open>\<open>Read::read_exact\<close> into a buffer of \<open>n\<close> bytes.\<close>

definition read_exact :: "nat \<Rightarrow> byte list reader" where
  "read_exact n bs = (if n \<le> length bs then (Inr (take n bs), drop n bs) else (Inl UnexpectedEof, []))"

text \<open>\<open>to_le_bytes\<close> and \<open>from_le_bytes\<close> of the integer types.\<close>

definition to_le :: "'a::len word \<Rightarrow> byte list" where
  "to_le w = le_bytes (LENGTH('a) div 8) (unat w)"

definition from_le :: "byte list \<Rightarrow> 'a::len word" where
  "from_le bs = of_nat (le_value bs)"

definition read_word :: "'a::len word reader" where
  "read_word = mbind (read_exact (LENGTH('a) div 8)) (\<lambda>bs. mret (from_le bs))"

definition read_u8 :: "u8 reader" where
  "read_u8 = mbind (read_exact 1) (\<lambda>bs. mret (bs ! 0))"

definition read_u16 :: "u16 reader" where
  "read_u16 = read_word"

definition read_u32 :: "u32 reader" where
  "read_u32 = read_word"

definition read_u64 :: "u64 reader" where
  "read_u64 = read_word"

definition usize_to_u16 :: "usize \<Rightarrow> string \<Rightarrow> binary_error + u16" where
  "usize_to_u16 v field = (if v < 2 ^ 16 then Inr (of_nat v) else Inl (InvalidData (ExceedsU16 field v)))"

definition usize_to_u32 :: "usize \<Rightarrow> string \<Rightarrow> binary_error + u32" where
  "usize_to_u32 v field = ok_or (InvalidData (ExceedsU32 field v)) (u32_try_from v)"

definition write_usize_as_u16 :: "usize \<Rightarrow> string \<Rightarrow> writer" where
  "write_usize_as_u16 v field = mbind (mread (\<lambda>_. usize_to_u16 v field)) (\<lambda>w. write_all (to_le w))"

definition write_usize_as_u32 :: "usize \<Rightarrow> string \<Rightarrow> writer" where
  "write_usize_as_u32 v field = mbind (mread (\<lambda>_. usize_to_u32 v field)) (\<lambda>w. write_all (to_le w))"

text \<open>On a host of 64 bits a \<open>u32\<close> always fits a \<open>usize\<close>.\<close>

definition read_usize_u32 :: "usize reader" where
  "read_usize_u32 = mbind read_u32 (\<lambda>w. mret (unat w))"

definition read_usize_u16 :: "usize reader" where
  "read_usize_u16 = mbind read_u16 (\<lambda>w. mret (unat w))"

definition read_u32_len_bounded :: "string \<Rightarrow> usize \<Rightarrow> usize reader" where
  "read_u32_len_bounded field mx =
     mbind read_u32 (\<lambda>w. if unat w > min mx (2 ^ 32 - 1) then merr (InvalidData (ExceedsMaximum field (unat w) mx))
                        else mret (unat w))"

definition MAX_BINARY_COLLECTION_LEN :: usize where "MAX_BINARY_COLLECTION_LEN = 1000000"
definition MAX_INSTRUCTION_COUNT :: usize where "MAX_INSTRUCTION_COUNT = 8000000"
definition MAX_BINARY_STRING_BYTES :: usize where "MAX_BINARY_STRING_BYTES = 16 * 1024 * 1024"

lemmas binary_limits = MAX_BINARY_COLLECTION_LEN_def MAX_INSTRUCTION_COUNT_def MAX_BINARY_STRING_BYTES_def

definition read_exact_vec :: "usize \<Rightarrow> string \<Rightarrow> byte list reader" where
  "read_exact_vec len field =
     (if len > MAX_BINARY_STRING_BYTES then merr (InvalidData (ExceedsMaximum field len MAX_BINARY_STRING_BYTES))
      else read_exact len)"

section \<open>Strings\<close>

definition str_bytes :: "string \<Rightarrow> byte list" where
  "str_bytes s = map (\<lambda>c. of_nat (of_char c)) s"

definition bytes_str :: "byte list \<Rightarrow> string" where
  "bytes_str bs = map (\<lambda>b. char_of (unat b)) bs"

definition between :: "byte \<Rightarrow> byte \<Rightarrow> byte \<Rightarrow> bool" where
  "between lo hi b = (lo \<le> b \<and> b \<le> hi)"

text \<open>The well-formed byte sequences of the Unicode standard (table 3-7), which
  \<open>String::from_utf8\<close> accepts.\<close>

fun utf8_valid :: "byte list \<Rightarrow> bool" where
  "utf8_valid [] = True"
| "utf8_valid (a # bs) =
     (if a < 0x80 then utf8_valid bs
      else case bs of
        [] \<Rightarrow> False
      | b # bs \<Rightarrow>
          if between 0xC2 0xDF a then between 0x80 0xBF b \<and> utf8_valid bs
          else case bs of
            [] \<Rightarrow> False
          | c # bs \<Rightarrow>
              if between 0xE0 0xEF a
              then (if a = 0xE0 then between 0xA0 0xBF b else if a = 0xED then between 0x80 0x9F b else between 0x80 0xBF b)
                \<and> between 0x80 0xBF c \<and> utf8_valid bs
              else case bs of
                [] \<Rightarrow> False
              | d # bs \<Rightarrow>
                  (if a = 0xF0 then between 0x90 0xBF b else if a = 0xF4 then between 0x80 0x8F b
                   else between 0xF1 0xF3 a \<and> between 0x80 0xBF b)
                  \<and> between 0x80 0xBF c \<and> between 0x80 0xBF d \<and> utf8_valid bs)"

definition from_utf8 :: "string \<Rightarrow> byte list \<Rightarrow> binary_error + string" where
  "from_utf8 invalid_utf8 bs = (if utf8_valid bs then Inr (bytes_str bs) else Inl (InvalidData (InvalidUtf8 invalid_utf8)))"

definition write_len_prefixed_str_u16 :: "string \<Rightarrow> string \<Rightarrow> writer" where
  "write_len_prefixed_str_u16 s field =
     mbind (write_usize_as_u16 (length (str_bytes s)) field) (\<lambda>_. write_all (str_bytes s))"

definition write_len_prefixed_str_u32 :: "string \<Rightarrow> string \<Rightarrow> writer" where
  "write_len_prefixed_str_u32 s field =
     mbind (write_usize_as_u32 (length (str_bytes s)) field) (\<lambda>_. write_all (str_bytes s))"

definition read_len_prefixed_string_u16 :: "string \<Rightarrow> string \<Rightarrow> string reader" where
  "read_len_prefixed_string_u16 field invalid_utf8 =
     mbind read_usize_u16 (\<lambda>len. mbind (read_exact_vec len field) (\<lambda>bs. mread (\<lambda>_. from_utf8 invalid_utf8 bs)))"

definition read_len_prefixed_string_u32 :: "string \<Rightarrow> string \<Rightarrow> string reader" where
  "read_len_prefixed_string_u32 field invalid_utf8 =
     mbind (read_u32_len_bounded field MAX_BINARY_STRING_BYTES) (\<lambda>len.
       mbind (read_exact_vec len field) (\<lambda>bs. mread (\<lambda>_. from_utf8 invalid_utf8 bs)))"

section \<open>Repetition\<close>

text \<open>\<open>for x in xs { write(x)?; }\<close>, and \<open>for _ in 0..n { xs.push(read()?); }\<close>.\<close>

primrec write_each :: "('a \<Rightarrow> writer) \<Rightarrow> 'a list \<Rightarrow> writer" where
  "write_each w [] = mret ()"
| "write_each w (x # xs) = mbind (w x) (\<lambda>_. write_each w xs)"

primrec read_times :: "nat \<Rightarrow> 'a reader \<Rightarrow> 'a list reader" where
  "read_times 0 r = mret []"
| "read_times (Suc n) r = mbind r (\<lambda>x. mbind (read_times n r) (\<lambda>xs. mret (x # xs)))"

section \<open>Round trips\<close>

definition roundtrips :: "writer \<Rightarrow> 'a reader \<Rightarrow> 'a \<Rightarrow> bool" where
  "roundtrips w r x = (\<forall>out out'. w out = (Inr (), out') \<longrightarrow>
     (\<exists>bs. out' = out @ bs \<and> (\<forall>rest. r (bs @ rest) = (Inr x, rest))))"

named_theorems codec_intro

lemma roundtripsI:
  "(\<And>out out'. w out = (Inr (), out') \<Longrightarrow> \<exists>bs. out' = out @ bs \<and> (\<forall>rest. r (bs @ rest) = (Inr x, rest))) \<Longrightarrow>
   roundtrips w r x"
  by (simp add: roundtrips_def)

lemma roundtripsD:
  assumes "roundtrips w r x" "w out = (Inr (), out')"
  shows "\<exists>bs. out' = out @ bs \<and> (\<forall>rest. r (bs @ rest) = (Inr x, rest))"
  using assms unfolding roundtrips_def by blast

lemma roundtrips_ret: "roundtrips (mret ()) (mret x) x"
  by (simp add: roundtrips_def mret_def)

lemma roundtrips_bind:
  assumes "roundtrips w r x" "roundtrips w' (r' x) y"
  shows "roundtrips (mbind w (\<lambda>_. w')) (mbind r r') y"
proof (rule roundtripsI)
  fix out out' assume "mbind w (\<lambda>_. w') out = (Inr (), out')"
  then obtain mid where w: "w out = (Inr (), mid)" and w': "w' mid = (Inr (), out')"
    by (auto simp: mbind_Inr_iff)
  obtain bs where "mid = out @ bs" "\<forall>rest. r (bs @ rest) = (Inr x, rest)"
    using roundtripsD [OF assms(1) w] by blast
  moreover obtain bs' where "out' = mid @ bs'" "\<forall>rest. r' x (bs' @ rest) = (Inr y, rest)"
    using roundtripsD [OF assms(2) w'] by blast
  ultimately show "\<exists>bs. out' = out @ bs \<and> (\<forall>rest. mbind r r' (bs @ rest) = (Inr y, rest))"
    by (intro exI [of _ "bs @ bs'"]) (simp add: mbind_def)
qed

text \<open>A reader that ends by returning a function of what it read.\<close>

lemma roundtrips_map: "roundtrips w r x \<Longrightarrow> roundtrips w (mbind r (\<lambda>y. mret (f y))) (f x)"
  unfolding roundtrips_def by (fastforce simp: mbind_def mret_def)

lemma roundtrips_bind_pure:
  "roundtrips w r x \<Longrightarrow> r' x = mret y \<Longrightarrow> roundtrips w (mbind r r') y"
  unfolding roundtrips_def by (fastforce simp: mbind_def mret_def)

lemma roundtrips_assoc: "roundtrips (mbind w1 (\<lambda>_. mbind w2 w3)) r x \<Longrightarrow> roundtrips (mbind (mbind w1 (\<lambda>_. w2)) w3) r x"
  by (simp add: mbind_assoc)

lemma roundtrips_each:
  "(\<And>x. x \<in> set xs \<Longrightarrow> roundtrips (w x) r (f x)) \<Longrightarrow> length xs = n \<Longrightarrow>
   roundtrips (write_each w xs) (read_times n r) (map f xs)"
proof (induction xs arbitrary: n)
  case (Cons x xs)
  then show ?case by (auto intro!: roundtrips_bind [of "w x" _ "f x"] roundtrips_map [where f = "(#) (f x)"])
qed (simp add: roundtrips_ret)

text \<open>A write that fails proves nothing, so a round trip may use that the write succeeds.\<close>

lemma roundtrips_if_succeeds:
  "(\<And>out out'. w out = (Inr (), out') \<Longrightarrow> roundtrips w r x) \<Longrightarrow> roundtrips w r x"
  unfolding roundtrips_def by blast

section \<open>Round trips of the primitives\<close>

lemma from_le_to_le: "8 dvd LENGTH('a) \<Longrightarrow> from_le (to_le w) = (w :: 'a::len word)"
proof -
  assume "8 dvd LENGTH('a)"
  then have "(256 :: nat) ^ (LENGTH('a) div 8) = 2 ^ LENGTH('a)"
    using power_mult [of "2 :: nat" 8 "LENGTH('a) div 8"] by simp
  then have "unat w < 256 ^ (LENGTH('a) div 8)" using unsigned_less [of w] by simp
  then show ?thesis by (simp add: from_le_def to_le_def le_value_le_bytes)
qed

lemma length_to_le [simp]: "length (to_le (w :: 'a::len word)) = LENGTH('a) div 8"
  by (simp add: to_le_def)

lemma roundtrips_write_all: "length bs = n \<Longrightarrow> roundtrips (write_all bs) (read_exact n) bs"
  by (auto simp: roundtrips_def write_all_def mmodify_def read_exact_def)

lemma roundtrips_word: "8 dvd LENGTH('a) \<Longrightarrow> roundtrips (write_all (to_le w)) read_word (w :: 'a::len word)"
  using roundtrips_map [OF roundtrips_write_all [OF length_to_le [of w]], of "from_le :: _ \<Rightarrow> 'a word"]
  by (simp add: read_word_def from_le_to_le)

lemma roundtrips_u16: "roundtrips (write_all (to_le w)) read_u16 w"
  unfolding read_u16_def by (rule roundtrips_word) simp

lemma roundtrips_u32: "roundtrips (write_all (to_le w)) read_u32 w"
  unfolding read_u32_def by (rule roundtrips_word) simp

lemma roundtrips_u64: "roundtrips (write_all (to_le w)) read_u64 w"
  unfolding read_u64_def by (rule roundtrips_word) simp

lemma roundtrips_u8: "roundtrips (write_all [b]) read_u8 b"
  using roundtrips_map [OF roundtrips_write_all [of "[b]" 1], of "\<lambda>bs. bs ! 0"] by (simp add: read_u8_def)

text \<open>A byte at the end of a header followed by the payload.\<close>

lemma write_all_append: "write_all (a @ b) = mbind (write_all a) (\<lambda>_. write_all b)"
  by (rule ext) (simp add: write_all_def mmodify_def mbind_def)

lemma roundtrips_checked:
  assumes "\<And>w. f = Inr w \<Longrightarrow> roundtrips (g w) r x"
  shows "roundtrips (mbind (mread (\<lambda>_. f)) g) r x"
  using assms by (cases f) (auto simp: roundtrips_def mbind_def mread_def)

lemma roundtrips_usize_u16 [codec_intro]: "roundtrips (write_usize_as_u16 v field) read_usize_u16 v"
  unfolding write_usize_as_u16_def read_usize_u16_def
proof (rule roundtrips_checked)
  fix w assume "usize_to_u16 v field = Inr w"
  then have "unat w = v" by (auto simp: usize_to_u16_def unat_of_nat split: if_splits)
  then show "roundtrips (write_all (to_le w)) (mbind read_u16 (\<lambda>w. mret (unat w))) v"
    using roundtrips_map [OF roundtrips_u16, of w unat] by simp
qed

lemma usize_to_u32_Inr: "usize_to_u32 v field = Inr w \<longleftrightarrow> unat w = v"
  by (simp add: usize_to_u32_def u32_try_from_Some)

lemma roundtrips_usize_u32 [codec_intro]: "roundtrips (write_usize_as_u32 v field) read_usize_u32 v"
  unfolding write_usize_as_u32_def read_usize_u32_def
  by (rule roundtrips_checked) (use roundtrips_map [OF roundtrips_u32, of _ unat] in \<open>auto simp: usize_to_u32_Inr\<close>)

lemma roundtrips_len_bounded:
  assumes "v \<le> mx"
  shows "roundtrips (write_usize_as_u32 v field) (read_u32_len_bounded field' mx) v"
  unfolding write_usize_as_u32_def read_u32_len_bounded_def
proof (rule roundtrips_checked)
  fix w assume "usize_to_u32 v field = Inr w"
  then have w: "unat w = v" by (simp add: usize_to_u32_Inr)
  then have "v \<le> 2 ^ 32 - 1" using unsigned_less [of w, where 'a = nat] by simp
  then show "roundtrips (write_all (to_le w))
     (mbind read_u32 (\<lambda>w. if unat w > min mx (2 ^ 32 - 1) then merr (InvalidData (ExceedsMaximum field' (unat w) mx)) else mret (unat w))) v"
    using assms w by (intro roundtrips_bind_pure [OF roundtrips_u32]) (simp add: min_def)
qed

lemma bytes_str_bytes [simp]: "bytes_str (str_bytes s) = s"
proof -
  have "char_of (unat (of_nat (of_char c) :: byte)) = c" for c
    using nat_of_char_less_256 [of c] by (simp add: unat_of_nat del: of_nat_of_char)
  then show ?thesis by (simp add: bytes_str_def str_bytes_def comp_def)
qed

lemma length_str_bytes [simp]: "length (str_bytes s) = length s"
  by (simp add: str_bytes_def)

lemma roundtrips_bytes:
  assumes "length bs \<le> MAX_BINARY_STRING_BYTES" "utf8_valid bs"
  shows "roundtrips (write_all bs) (mbind (read_exact_vec (length bs) field) (\<lambda>bs. mread (\<lambda>_. from_utf8 u bs))) (bytes_str bs)"
  using assms roundtrips_write_all [of bs "length bs"]
  unfolding read_exact_vec_def roundtrips_def by (fastforce simp: mbind_def mread_def from_utf8_def)

text \<open>A Rust string is valid UTF-8 by its type.\<close>

definition str_ok :: "string \<Rightarrow> bool" where
  "str_ok s = utf8_valid (str_bytes s)"

lemma roundtrips_str_u16 [codec_intro]:
  assumes "str_ok s"
  shows "roundtrips (write_len_prefixed_str_u16 s field) (read_len_prefixed_string_u16 field' u) s"
proof (rule roundtrips_if_succeeds)
  fix out out' assume "write_len_prefixed_str_u16 s field out = (Inr (), out')"
  then have "length s < 2 ^ 16"
    by (auto simp: write_len_prefixed_str_u16_def write_usize_as_u16_def mbind_Inr_iff mread_def usize_to_u16_def split: if_splits)
  then have "length (str_bytes s) \<le> MAX_BINARY_STRING_BYTES" by (simp add: binary_limits)
  then show "roundtrips (write_len_prefixed_str_u16 s field) (read_len_prefixed_string_u16 field' u) s"
    unfolding write_len_prefixed_str_u16_def read_len_prefixed_string_u16_def
    using assms roundtrips_bytes [of "str_bytes s"] by (intro roundtrips_bind [OF roundtrips_usize_u16]) (simp add: str_ok_def)
qed

lemma roundtrips_str_u32 [codec_intro]:
  assumes "str_ok s" "length s \<le> MAX_BINARY_STRING_BYTES"
  shows "roundtrips (write_len_prefixed_str_u32 s field) (read_len_prefixed_string_u32 field' u) s"
  unfolding write_len_prefixed_str_u32_def read_len_prefixed_string_u32_def
  using assms roundtrips_bytes [of "str_bytes s"]
  by (intro roundtrips_bind [OF roundtrips_len_bounded]) (simp_all add: str_ok_def)

section \<open>The contract of a codec\<close>

locale codec =
  fixes put :: "'a \<Rightarrow> writer" and get :: "'a reader" and ok :: "'a \<Rightarrow> bool"
  assumes roundtrip: "ok x \<Longrightarrow> roundtrips (put x) get x"
begin

lemma list_roundtrip: "list_all ok xs \<Longrightarrow> length xs = n \<Longrightarrow> roundtrips (write_each put xs) (read_times n get) xs"
  using roundtrips_each [of xs put get "\<lambda>x. x" n] roundtrip by (simp add: list_all_iff)

text \<open>Two encodings of which one is a prefix of the other encode the same value.\<close>

lemma prefix_free:
  assumes "ok x" "ok y" "put x [] = (Inr (), a)" "put y [] = (Inr (), a @ b)"
  shows "x = y \<and> b = []"
proof -
  obtain bs where "a = bs" "\<forall>rest. get (bs @ rest) = (Inr x, rest)"
    using roundtripsD [OF roundtrip [OF assms(1)] assms(3)] by auto
  moreover obtain cs where "a @ b = cs" "\<forall>rest. get (cs @ rest) = (Inr y, rest)"
    using roundtripsD [OF roundtrip [OF assms(2)] assms(4)] by auto
  ultimately have "(Inr x :: binary_error + 'a, b) = (Inr y, [])" by (metis append_Nil2)
  then show ?thesis by simp
qed

end

interpretation str16: codec "\<lambda>s. write_len_prefixed_str_u16 s field" "read_len_prefixed_string_u16 field' u" str_ok
  for field field' u by unfold_locales (rule roundtrips_str_u16)

end
