(* ===== verification/Binary_Format.thy ===== *)
theory Binary_Format
  imports Byte_Codec
begin

text \<open>
  The compiled binary of \<open>stoffel-vm-types/src/compiled_binary.rs\<close>: its data (constant pool,
  functions with type metadata, the client input/output manifest), \<open>serialize\<close> and
  \<open>deserialize\<close> for every version of the format up to the current one, and their round trip.

  Labels are the entries of a \<open>HashMap\<close> in the order in which it is iterated; the round trip
  holds for every such order. A recursive function type is read with as much fuel as there are
  bytes left: every level reads at least its tag, so an exhausted fuel means an exhausted
  input, and the reader satisfies the recursive equation of the source without fuel
  (\<open>deserialize_function_type_rec\<close>).
\<close>

section \<open>Data\<close>

definition MAGIC_BYTES :: "byte list" where "MAGIC_BYTES = str_bytes ''STFL''"
definition FORMAT_VERSION :: u16 where "FORMAT_VERSION = 9"
definition CLIENT_IO_MANIFEST_FORMAT_VERSION :: u16 where "CLIENT_IO_MANIFEST_FORMAT_VERSION = 2"
definition MPC_BACKEND_MANIFEST_FORMAT_VERSION :: u16 where "MPC_BACKEND_MANIFEST_FORMAT_VERSION = 3"
definition MPC_CURVE_MANIFEST_FORMAT_VERSION :: u16 where "MPC_CURVE_MANIFEST_FORMAT_VERSION = 4"
definition FUNCTION_TYPE_METADATA_FORMAT_VERSION :: u16 where "FUNCTION_TYPE_METADATA_FORMAT_VERSION = 5"
definition PREPROCESSING_DEMAND_MANIFEST_FORMAT_VERSION :: u16 where "PREPROCESSING_DEMAND_MANIFEST_FORMAT_VERSION = 8"

lemmas format_versions = FORMAT_VERSION_def CLIENT_IO_MANIFEST_FORMAT_VERSION_def MPC_BACKEND_MANIFEST_FORMAT_VERSION_def
  MPC_CURVE_MANIFEST_FORMAT_VERSION_def FUNCTION_TYPE_METADATA_FORMAT_VERSION_def
  PREPROCESSING_DEMAND_MANIFEST_FORMAT_VERSION_def

record preprocessing_demand =
  triples :: u64
  randoms :: u64
  prandbits :: u64
  prandints :: u64
  demand_dynamic :: bool

definition saturating_add :: "u64 \<Rightarrow> u64 \<Rightarrow> u64" where
  "saturating_add a b = (if unat a + unat b < 2 ^ 64 then a + b else - 1)"

definition demand_add :: "preprocessing_demand \<Rightarrow> u64 \<Rightarrow> u64 \<Rightarrow> u64 \<Rightarrow> u64 \<Rightarrow> preprocessing_demand" where
  "demand_add d t r b i =
     d\<lparr>triples := saturating_add (triples d) t, randoms := saturating_add (randoms d) r,
       prandbits := saturating_add (prandbits d) b, prandints := saturating_add (prandints d) i\<rparr>"

definition default_demand :: preprocessing_demand where
  "default_demand = \<lparr>triples = 0, randoms = 0, prandbits = 0, prandints = 0, demand_dynamic = False\<rparr>"

record client_io_schema =
  client_slot :: u64
  schema_inputs :: "share_type list"
  schema_outputs :: "share_type list"

datatype mpc_backend = HoneyBadger | Avss

datatype mpc_curve = Bls12_381 | Bn254 | Curve25519 | Ed25519 | Secp256k1 | Secp256r1

record client_io_manifest =
  manifest_backend :: mpc_backend
  manifest_curve :: mpc_curve
  manifest_clients :: "client_io_schema list"
  preprocessing_demand_of :: preprocessing_demand

definition default_manifest :: client_io_manifest where
  "default_manifest = \<lparr>manifest_backend = HoneyBadger, manifest_curve = Bls12_381, manifest_clients = [],
     preprocessing_demand_of = default_demand\<rparr>"

datatype (plugins only: code size) function_type =
    T_Int bool u8
  | T_Float
  | T_Fixed u8
  | T_String
  | T_Bool
  | T_Nil
  | T_Void
  | T_Secret function_type
  | T_List function_type
  | T_Dict function_type function_type
  | T_Object string
  | T_Generic string "function_type list"
  | T_TypeVar string
  | T_Unknown

fun underlying_type :: "function_type \<Rightarrow> function_type" where
  "underlying_type (T_Secret t) = underlying_type t"
| "underlying_type t = t"

definition is_unknown_like :: "function_type \<Rightarrow> bool" where
  "is_unknown_like t = (case underlying_type t of T_Unknown \<Rightarrow> True | T_TypeVar _ \<Rightarrow> True | T_Generic _ _ \<Rightarrow> True | _ \<Rightarrow> False)"

datatype reduced_opcode =
    Op_NOP
  | Op_LD
  | Op_LDI
  | Op_MOV
  | Op_ADD
  | Op_SUB
  | Op_MUL
  | Op_DIV
  | Op_MOD
  | Op_AND
  | Op_OR
  | Op_XOR
  | Op_NOT
  | Op_SHL
  | Op_SHR
  | Op_JMP
  | Op_JMPEQ
  | Op_JMPNEQ
  | Op_JMPLT
  | Op_JMPGT
  | Op_CALL
  | Op_RET
  | Op_PUSHARG
  | Op_CMP
  | Op_LDS
  | Op_STS

fun opcode_byte :: "reduced_opcode \<Rightarrow> u8" where
  "opcode_byte Op_NOP = 0x17"
| "opcode_byte Op_LD = 0x0"
| "opcode_byte Op_LDI = 0x1"
| "opcode_byte Op_MOV = 0x2"
| "opcode_byte Op_ADD = 0x3"
| "opcode_byte Op_SUB = 0x4"
| "opcode_byte Op_MUL = 0x5"
| "opcode_byte Op_DIV = 0x6"
| "opcode_byte Op_MOD = 0x7"
| "opcode_byte Op_AND = 0x8"
| "opcode_byte Op_OR = 0x9"
| "opcode_byte Op_XOR = 0xa"
| "opcode_byte Op_NOT = 0xb"
| "opcode_byte Op_SHL = 0xc"
| "opcode_byte Op_SHR = 0xd"
| "opcode_byte Op_JMP = 0xe"
| "opcode_byte Op_JMPEQ = 0xf"
| "opcode_byte Op_JMPNEQ = 0x10"
| "opcode_byte Op_JMPLT = 0x15"
| "opcode_byte Op_JMPGT = 0x16"
| "opcode_byte Op_CALL = 0x11"
| "opcode_byte Op_RET = 0x12"
| "opcode_byte Op_PUSHARG = 0x13"
| "opcode_byte Op_CMP = 0x14"
| "opcode_byte Op_LDS = 0x18"
| "opcode_byte Op_STS = 0x19"

datatype (plugins only: code) compiled_instruction =
    C_NOP
  | C_LD usize i32
  | C_LDI usize usize
  | C_MOV usize usize
  | C_ADD usize usize usize
  | C_SUB usize usize usize
  | C_MUL usize usize usize
  | C_DIV usize usize usize
  | C_MOD usize usize usize
  | C_AND usize usize usize
  | C_OR usize usize usize
  | C_XOR usize usize usize
  | C_NOT usize usize
  | C_SHL usize usize usize
  | C_SHR usize usize usize
  | C_JMP string
  | C_JMPEQ string
  | C_JMPNEQ string
  | C_JMPLT string
  | C_JMPGT string
  | C_CALL string
  | C_RET usize
  | C_PUSHARG usize
  | C_CMP usize usize
  | C_LDS usize usize
  | C_STS usize usize

record compiled_function =
  cf_name :: string
  cf_register_count :: usize
  cf_parameters :: "string list"
  cf_parameter_types :: "function_type list"
  cf_return_type :: function_type
  cf_upvalues :: "string list"
  cf_parent :: "string option"
  cf_labels :: "(string \<times> usize) list"
  cf_instructions :: "compiled_instruction list"

record compiled_binary =
  bin_version :: u16
  bin_constants :: "val list"
  bin_functions :: "compiled_function list"
  client_io_manifest_of :: client_io_manifest

definition compiled_binary_new :: compiled_binary where
  "compiled_binary_new = \<lparr>bin_version = FORMAT_VERSION, bin_constants = [], bin_functions = [],
     client_io_manifest_of = default_manifest\<rparr>"

definition normalized_parameter_types :: "compiled_function \<Rightarrow> function_type list" where
  "normalized_parameter_types f = resize_to T_Unknown (cf_parameter_types f) (length (cf_parameters f))"

section \<open>Writing\<close>

fun serialize_mpc_backend :: "mpc_backend \<Rightarrow> writer" where
  "serialize_mpc_backend HoneyBadger = write_all [0]"
| "serialize_mpc_backend Avss = write_all [1]"

fun serialize_mpc_curve :: "mpc_curve \<Rightarrow> writer" where
  "serialize_mpc_curve Bls12_381 = write_all [0]"
| "serialize_mpc_curve Bn254 = write_all [1]"
| "serialize_mpc_curve Curve25519 = write_all [2]"
| "serialize_mpc_curve Ed25519 = write_all [3]"
| "serialize_mpc_curve Secp256k1 = write_all [4]"
| "serialize_mpc_curve Secp256r1 = write_all [5]"

fun serialize_share_type :: "share_type \<Rightarrow> writer" where
  "serialize_share_type (SecretInt n) = mbind (write_all [0]) (\<lambda>_. write_usize_as_u32 n ''SecretInt bit length'')"
| "serialize_share_type (SecretUInt n) = mbind (write_all [2]) (\<lambda>_. write_usize_as_u32 n ''SecretUInt bit length'')"
| "serialize_share_type (SecretFixedPoint p) =
     mbind (write_all [1]) (\<lambda>_. mbind (write_usize_as_u32 (total_bits p) ''fixed-point total bits'') (\<lambda>_.
       write_usize_as_u32 (fractional_bits p) ''fixed-point fractional bits''))"

definition serialize_client :: "client_io_schema \<Rightarrow> writer" where
  "serialize_client c =
     mbind (write_all (to_le (client_slot c))) (\<lambda>_.
     mbind (write_usize_as_u32 (length (schema_inputs c)) ''client IO input count'') (\<lambda>_.
     mbind (write_each serialize_share_type (schema_inputs c)) (\<lambda>_.
     mbind (write_usize_as_u32 (length (schema_outputs c)) ''client IO output count'') (\<lambda>_.
       write_each serialize_share_type (schema_outputs c)))))"

definition serialize_demand :: "preprocessing_demand \<Rightarrow> writer" where
  "serialize_demand d =
     mbind (write_all (to_le (triples d))) (\<lambda>_. mbind (write_all (to_le (randoms d))) (\<lambda>_.
     mbind (write_all (to_le (prandbits d))) (\<lambda>_. mbind (write_all (to_le (prandints d))) (\<lambda>_.
       write_all [if demand_dynamic d then 1 else 0]))))"

definition serialize_client_io_manifest :: "client_io_manifest \<Rightarrow> bool \<Rightarrow> bool \<Rightarrow> bool \<Rightarrow> writer" where
  "serialize_client_io_manifest m include_backend include_curve include_demand =
     mbind (if include_backend then serialize_mpc_backend (manifest_backend m) else mret ()) (\<lambda>_.
     mbind (if include_curve then serialize_mpc_curve (manifest_curve m) else mret ()) (\<lambda>_.
     mbind (write_usize_as_u32 (length (manifest_clients m)) ''client IO schema count'') (\<lambda>_.
     mbind (write_each serialize_client (manifest_clients m)) (\<lambda>_.
       if include_demand then serialize_demand (preprocessing_demand_of m) else mret ()))))"

fun serialize_value :: "val \<Rightarrow> writer" where
  "serialize_value Unit = write_all [0]"
| "serialize_value (I64 i) = mbind (write_all [1]) (\<lambda>_. write_all (to_le i))"
| "serialize_value (I32 i) = mbind (write_all [2]) (\<lambda>_. write_all (to_le i))"
| "serialize_value (I16 i) = mbind (write_all [3]) (\<lambda>_. write_all (to_le i))"
| "serialize_value (I8 i) = mbind (write_all [4]) (\<lambda>_. write_all (to_le i))"
| "serialize_value (U8 i) = mbind (write_all [5]) (\<lambda>_. write_all [i])"
| "serialize_value (U16 i) = mbind (write_all [6]) (\<lambda>_. write_all (to_le i))"
| "serialize_value (U32 i) = mbind (write_all [7]) (\<lambda>_. write_all (to_le i))"
| "serialize_value (U64 i) = mbind (write_all [8]) (\<lambda>_. write_all (to_le i))"
| "serialize_value (Float f) = mbind (write_all [9]) (\<lambda>_. write_all (to_le f))"
| "serialize_value (Bool b) = mbind (write_all [10]) (\<lambda>_. write_all [if b then 1 else 0])"
| "serialize_value (String s) = mbind (write_all [11]) (\<lambda>_. write_len_prefixed_str_u32 s ''string length'')"
| "serialize_value v = merr (InvalidData (UnsupportedValueType v))"

lemma write_each_cong [fundef_cong]:
  "xs = ys \<Longrightarrow> (\<And>x. x \<in> set ys \<Longrightarrow> f x = g x) \<Longrightarrow> write_each f xs = write_each g ys"
  by (induction ys arbitrary: xs) auto

fun serialize_function_type :: "function_type \<Rightarrow> writer" where
  "serialize_function_type (T_Int is_signed bits) =
     mbind (write_all [0]) (\<lambda>_. write_all [if is_signed then 1 else 0, bits])"
| "serialize_function_type T_Float = write_all [1]"
| "serialize_function_type (T_Fixed bits) =
     (if bits = 64 then write_all [13] else mbind (write_all [14]) (\<lambda>_. write_all [bits]))"
| "serialize_function_type T_String = write_all [2]"
| "serialize_function_type T_Bool = write_all [3]"
| "serialize_function_type T_Nil = write_all [4]"
| "serialize_function_type T_Void = write_all [5]"
| "serialize_function_type (T_Secret t) = mbind (write_all [6]) (\<lambda>_. serialize_function_type t)"
| "serialize_function_type (T_List t) = mbind (write_all [7]) (\<lambda>_. serialize_function_type t)"
| "serialize_function_type (T_Dict k v) =
     mbind (write_all [8]) (\<lambda>_. mbind (serialize_function_type k) (\<lambda>_. serialize_function_type v))"
| "serialize_function_type (T_Object name) =
     mbind (write_all [9]) (\<lambda>_. write_len_prefixed_str_u16 name ''function type object name length'')"
| "serialize_function_type (T_Generic name params) =
     mbind (write_all [10]) (\<lambda>_. mbind (write_len_prefixed_str_u16 name ''function generic type name length'') (\<lambda>_.
       mbind (write_usize_as_u16 (length params) ''function generic parameter count'') (\<lambda>_.
         write_each serialize_function_type params)))"
| "serialize_function_type (T_TypeVar name) =
     mbind (write_all [11]) (\<lambda>_. write_len_prefixed_str_u16 name ''function type variable name length'')"
| "serialize_function_type T_Unknown = write_all [12]"

definition write_operands :: "(usize \<times> string) list \<Rightarrow> writer" where
  "write_operands = write_each (\<lambda>(v, field). write_usize_as_u32 v field)"

fun serialize_instruction :: "compiled_instruction \<Rightarrow> writer" where
  "serialize_instruction C_NOP =
     write_all [opcode_byte Op_NOP]"
| "serialize_instruction (C_LD a b) =
     mbind (write_all [opcode_byte Op_LD]) (\<lambda>_. mbind (write_usize_as_u32 a ''LD register'') (\<lambda>_. write_all (to_le b)))"
| "serialize_instruction (C_LDI a b) =
     mbind (write_all [opcode_byte Op_LDI]) (\<lambda>_. write_operands [(a, ''LDI register''), (b, ''LDI constant index'')])"
| "serialize_instruction (C_MOV a b) =
     mbind (write_all [opcode_byte Op_MOV]) (\<lambda>_. write_operands [(a, ''MOV target register''), (b, ''MOV source register'')])"
| "serialize_instruction (C_ADD a b c) =
     mbind (write_all [opcode_byte Op_ADD]) (\<lambda>_. write_operands [(a, ''ADD target register''), (b, ''ADD left register''), (c, ''ADD right register'')])"
| "serialize_instruction (C_SUB a b c) =
     mbind (write_all [opcode_byte Op_SUB]) (\<lambda>_. write_operands [(a, ''SUB target register''), (b, ''SUB left register''), (c, ''SUB right register'')])"
| "serialize_instruction (C_MUL a b c) =
     mbind (write_all [opcode_byte Op_MUL]) (\<lambda>_. write_operands [(a, ''MUL target register''), (b, ''MUL left register''), (c, ''MUL right register'')])"
| "serialize_instruction (C_DIV a b c) =
     mbind (write_all [opcode_byte Op_DIV]) (\<lambda>_. write_operands [(a, ''DIV target register''), (b, ''DIV left register''), (c, ''DIV right register'')])"
| "serialize_instruction (C_MOD a b c) =
     mbind (write_all [opcode_byte Op_MOD]) (\<lambda>_. write_operands [(a, ''MOD target register''), (b, ''MOD left register''), (c, ''MOD right register'')])"
| "serialize_instruction (C_AND a b c) =
     mbind (write_all [opcode_byte Op_AND]) (\<lambda>_. write_operands [(a, ''AND target register''), (b, ''AND left register''), (c, ''AND right register'')])"
| "serialize_instruction (C_OR a b c) =
     mbind (write_all [opcode_byte Op_OR]) (\<lambda>_. write_operands [(a, ''OR target register''), (b, ''OR left register''), (c, ''OR right register'')])"
| "serialize_instruction (C_XOR a b c) =
     mbind (write_all [opcode_byte Op_XOR]) (\<lambda>_. write_operands [(a, ''XOR target register''), (b, ''XOR left register''), (c, ''XOR right register'')])"
| "serialize_instruction (C_NOT a b) =
     mbind (write_all [opcode_byte Op_NOT]) (\<lambda>_. write_operands [(a, ''NOT target register''), (b, ''NOT source register'')])"
| "serialize_instruction (C_SHL a b c) =
     mbind (write_all [opcode_byte Op_SHL]) (\<lambda>_. write_operands [(a, ''SHL target register''), (b, ''SHL left register''), (c, ''SHL right register'')])"
| "serialize_instruction (C_SHR a b c) =
     mbind (write_all [opcode_byte Op_SHR]) (\<lambda>_. write_operands [(a, ''SHR target register''), (b, ''SHR left register''), (c, ''SHR right register'')])"
| "serialize_instruction (C_JMP a) =
     mbind (write_all [opcode_byte Op_JMP]) (\<lambda>_. write_len_prefixed_str_u16 a ''JMP label length'')"
| "serialize_instruction (C_JMPEQ a) =
     mbind (write_all [opcode_byte Op_JMPEQ]) (\<lambda>_. write_len_prefixed_str_u16 a ''JMPEQ label length'')"
| "serialize_instruction (C_JMPNEQ a) =
     mbind (write_all [opcode_byte Op_JMPNEQ]) (\<lambda>_. write_len_prefixed_str_u16 a ''JMPNEQ label length'')"
| "serialize_instruction (C_JMPLT a) =
     mbind (write_all [opcode_byte Op_JMPLT]) (\<lambda>_. write_len_prefixed_str_u16 a ''JMPLT label length'')"
| "serialize_instruction (C_JMPGT a) =
     mbind (write_all [opcode_byte Op_JMPGT]) (\<lambda>_. write_len_prefixed_str_u16 a ''JMPGT label length'')"
| "serialize_instruction (C_CALL a) =
     mbind (write_all [opcode_byte Op_CALL]) (\<lambda>_. write_len_prefixed_str_u16 a ''CALL function name length'')"
| "serialize_instruction (C_RET a) =
     mbind (write_all [opcode_byte Op_RET]) (\<lambda>_. write_operands [(a, ''RET register'')])"
| "serialize_instruction (C_PUSHARG a) =
     mbind (write_all [opcode_byte Op_PUSHARG]) (\<lambda>_. write_operands [(a, ''PUSHARG register'')])"
| "serialize_instruction (C_CMP a b) =
     mbind (write_all [opcode_byte Op_CMP]) (\<lambda>_. write_operands [(a, ''CMP left register''), (b, ''CMP right register'')])"
| "serialize_instruction (C_LDS a b) =
     mbind (write_all [opcode_byte Op_LDS]) (\<lambda>_. write_operands [(a, ''LDS register''), (b, ''LDS slot'')])"
| "serialize_instruction (C_STS a b) =
     mbind (write_all [opcode_byte Op_STS]) (\<lambda>_. write_operands [(a, ''STS slot''), (b, ''STS register'')])"

definition serialize_type_metadata :: "u16 \<Rightarrow> compiled_function \<Rightarrow> writer" where
  "serialize_type_metadata version f =
     (if version \<ge> FUNCTION_TYPE_METADATA_FORMAT_VERSION
      then mbind (write_usize_as_u16 (length (normalized_parameter_types f)) ''parameter type count'') (\<lambda>_.
           mbind (write_each serialize_function_type (normalized_parameter_types f)) (\<lambda>_.
             serialize_function_type (cf_return_type f)))
      else mret ())"

definition serialize_parent :: "string option \<Rightarrow> writer" where
  "serialize_parent p =
     (case p of
        Some s \<Rightarrow> mbind (write_all [1]) (\<lambda>_. write_len_prefixed_str_u16 s ''parent function name length'')
      | None \<Rightarrow> write_all [0])"

definition serialize_label :: "string \<times> usize \<Rightarrow> writer" where
  "serialize_label = (\<lambda>(label, offset).
     mbind (write_len_prefixed_str_u16 label ''label name length'') (\<lambda>_. write_usize_as_u32 offset ''label offset''))"

definition serialize_function :: "u16 \<Rightarrow> compiled_function \<Rightarrow> writer" where
  "serialize_function version f =
     mbind (write_len_prefixed_str_u16 (cf_name f) ''function name length'') (\<lambda>_.
     mbind (write_usize_as_u16 (cf_register_count f) ''register count'') (\<lambda>_.
     mbind (write_usize_as_u16 (length (cf_parameters f)) ''parameter count'') (\<lambda>_.
     mbind (write_each (\<lambda>p. write_len_prefixed_str_u16 p ''parameter name length'') (cf_parameters f)) (\<lambda>_.
     mbind (serialize_type_metadata version f) (\<lambda>_.
     mbind (write_usize_as_u16 (length (cf_upvalues f)) ''upvalue count'') (\<lambda>_.
     mbind (write_each (\<lambda>u. write_len_prefixed_str_u16 u ''upvalue name length'') (cf_upvalues f)) (\<lambda>_.
     mbind (serialize_parent (cf_parent f)) (\<lambda>_.
     mbind (write_usize_as_u16 (length (cf_labels f)) ''label count'') (\<lambda>_.
     mbind (write_each serialize_label (cf_labels f)) (\<lambda>_.
     mbind (write_usize_as_u32 (length (cf_instructions f)) ''instruction count'') (\<lambda>_.
       write_each serialize_instruction (cf_instructions f))))))))))))"

definition serialize :: "compiled_binary \<Rightarrow> writer" where
  "serialize b =
     mbind (write_all MAGIC_BYTES) (\<lambda>_.
     mbind (write_all (to_le (bin_version b))) (\<lambda>_.
     mbind (write_usize_as_u32 (length (bin_constants b)) ''constant count'') (\<lambda>_.
     mbind (write_each serialize_value (bin_constants b)) (\<lambda>_.
     mbind (write_usize_as_u32 (length (bin_functions b)) ''function count'') (\<lambda>_.
     mbind (write_each (serialize_function (bin_version b)) (bin_functions b)) (\<lambda>_.
       if bin_version b \<ge> CLIENT_IO_MANIFEST_FORMAT_VERSION
       then serialize_client_io_manifest (client_io_manifest_of b)
              (bin_version b \<ge> MPC_BACKEND_MANIFEST_FORMAT_VERSION)
              (bin_version b \<ge> MPC_CURVE_MANIFEST_FORMAT_VERSION)
              (bin_version b \<ge> PREPROCESSING_DEMAND_MANIFEST_FORMAT_VERSION)
       else mret ()))))))"

section \<open>Reading\<close>

definition deserialize_mpc_backend :: "mpc_backend reader" where
  "deserialize_mpc_backend = mbind read_u8 (\<lambda>tag.
     if tag = 0 then mret HoneyBadger else if tag = 1 then mret Avss
     else merr (InvalidData (UnknownBackendTag tag)))"

definition deserialize_mpc_curve :: "mpc_curve reader" where
  "deserialize_mpc_curve = mbind read_u8 (\<lambda>tag.
     if tag = 0 then mret Bls12_381 else if tag = 1 then mret Bn254 else if tag = 2 then mret Curve25519
     else if tag = 3 then mret Ed25519 else if tag = 4 then mret Secp256k1 else if tag = 5 then mret Secp256r1
     else merr (InvalidData (UnknownCurveTag tag)))"

definition share_metadata :: "string \<Rightarrow> share_type_error + 'a \<Rightarrow> 'a reader" where
  "share_metadata what r = mread (\<lambda>_. map_err (\<lambda>e. InvalidData (InvalidShareMetadata what e)) r)"

definition deserialize_share_type :: "share_type reader" where
  "deserialize_share_type = mbind read_u8 (\<lambda>tag.
     if tag = 0 then mbind read_usize_u32 (\<lambda>n. share_metadata ''SecretInt'' (try_secret_int n))
     else if tag = 2 then mbind read_usize_u32 (\<lambda>n. share_metadata ''SecretUInt'' (try_secret_uint n))
     else if tag = 1 then mbind read_usize_u32 (\<lambda>t. mbind read_usize_u32 (\<lambda>f.
       mbind (share_metadata ''SecretFixedPoint'' (FixedPointPrecision_try_new t f)) (\<lambda>p. mret (SecretFixedPoint p))))
     else merr (InvalidData (UnknownShareTypeTag tag)))"

definition deserialize_client :: "client_io_schema reader" where
  "deserialize_client =
     mbind read_u64 (\<lambda>slot.
     mbind (read_u32_len_bounded ''client IO input count'' MAX_BINARY_COLLECTION_LEN) (\<lambda>n.
     mbind (read_times n deserialize_share_type) (\<lambda>ins.
     mbind (read_u32_len_bounded ''client IO output count'' MAX_BINARY_COLLECTION_LEN) (\<lambda>k.
     mbind (read_times k deserialize_share_type) (\<lambda>outs.
       mret \<lparr>client_slot = slot, schema_inputs = ins, schema_outputs = outs\<rparr>)))))"

definition deserialize_demand :: "preprocessing_demand reader" where
  "deserialize_demand =
     mbind read_u64 (\<lambda>t. mbind read_u64 (\<lambda>r. mbind read_u64 (\<lambda>b. mbind read_u64 (\<lambda>i. mbind read_u8 (\<lambda>d.
       mret \<lparr>triples = t, randoms = r, prandbits = b, prandints = i, demand_dynamic = (d \<noteq> 0)\<rparr>)))))"

definition deserialize_client_io_manifest :: "bool \<Rightarrow> bool \<Rightarrow> bool \<Rightarrow> client_io_manifest reader" where
  "deserialize_client_io_manifest has_backend has_curve has_demand =
     mbind (if has_backend then deserialize_mpc_backend else mret HoneyBadger) (\<lambda>backend.
     mbind (if has_curve then deserialize_mpc_curve else mret Bls12_381) (\<lambda>curve.
     mbind (read_u32_len_bounded ''client IO schema count'' MAX_BINARY_COLLECTION_LEN) (\<lambda>n.
     mbind (read_times n deserialize_client) (\<lambda>clients.
     mbind (if has_demand then deserialize_demand else mret default_demand) (\<lambda>demand.
       mret \<lparr>manifest_backend = backend, manifest_curve = curve, manifest_clients = clients,
             preprocessing_demand_of = demand\<rparr>)))))"

definition deserialize_value :: "val reader" where
  "deserialize_value = mbind read_u8 (\<lambda>tag.
     if tag = 0 then mret Unit
     else if tag = 1 then mbind read_word (\<lambda>w. mret (I64 w))
     else if tag = 2 then mbind read_word (\<lambda>w. mret (I32 w))
     else if tag = 3 then mbind read_word (\<lambda>w. mret (I16 w))
     else if tag = 4 then mbind read_word (\<lambda>w. mret (I8 w))
     else if tag = 5 then mbind read_u8 (\<lambda>w. mret (U8 w))
     else if tag = 6 then mbind read_word (\<lambda>w. mret (U16 w))
     else if tag = 7 then mbind read_word (\<lambda>w. mret (U32 w))
     else if tag = 8 then mbind read_word (\<lambda>w. mret (U64 w))
     else if tag = 9 then mbind read_word (\<lambda>w. mret (Float w))
     else if tag = 10 then mbind read_u8 (\<lambda>b. mret (Bool (b \<noteq> 0)))
     else if tag = 11 then mbind (read_len_prefixed_string_u32 ''string length'' ''Invalid UTF-8 in string'') (\<lambda>s. mret (String s))
     else merr (InvalidData (UnknownValueTag tag)))"

text \<open>The body of \<open>deserialize_function_type\<close>, with its recursive calls as a parameter.\<close>

definition function_type_body :: "function_type reader \<Rightarrow> function_type reader" where
  "function_type_body self = mbind read_u8 (\<lambda>tag.
     if tag = 0 then mbind (read_exact 2) (\<lambda>d.
       if d ! 1 = 0 then merr (InvalidData (ZeroBitWidth ''integer'')) else mret (T_Int (d ! 0 \<noteq> 0) (d ! 1)))
     else if tag = 1 then mret T_Float
     else if tag = 13 then mret (T_Fixed 64)
     else if tag = 2 then mret T_String
     else if tag = 3 then mret T_Bool
     else if tag = 4 then mret T_Nil
     else if tag = 5 then mret T_Void
     else if tag = 6 then mbind self (\<lambda>t. mret (T_Secret t))
     else if tag = 7 then mbind self (\<lambda>t. mret (T_List t))
     else if tag = 8 then mbind self (\<lambda>k. mbind self (\<lambda>v. mret (T_Dict k v)))
     else if tag = 9 then mbind (read_len_prefixed_string_u16 ''function type object name length''
       ''Invalid UTF-8 in function type object name'') (\<lambda>n. mret (T_Object n))
     else if tag = 10 then mbind (read_len_prefixed_string_u16 ''function generic type name length''
       ''Invalid UTF-8 in function generic type name'') (\<lambda>n. mbind read_usize_u16 (\<lambda>k.
         mbind (read_times k self) (\<lambda>ps. mret (T_Generic n ps))))
     else if tag = 11 then mbind (read_len_prefixed_string_u16 ''function type variable name length''
       ''Invalid UTF-8 in function type variable name'') (\<lambda>n. mret (T_TypeVar n))
     else if tag = 12 then mret T_Unknown
     else if tag = 14 then mbind read_u8 (\<lambda>b.
       if b = 0 then merr (InvalidData (ZeroBitWidth ''fixed-point'')) else mret (T_Fixed b))
     else merr (InvalidData (UnknownFunctionTypeTag tag)))"

primrec read_function_type :: "nat \<Rightarrow> function_type reader" where
  "read_function_type 0 = (\<lambda>bs. (Inl UnexpectedEof, []))"
| "read_function_type (Suc n) = function_type_body (read_function_type n)"

definition deserialize_function_type :: "function_type reader" where
  "deserialize_function_type bs = read_function_type (length bs) bs"

definition read_operands1 :: "(usize \<Rightarrow> compiled_instruction) \<Rightarrow> compiled_instruction reader" where
  "read_operands1 c = mbind read_usize_u32 (\<lambda>x. mret (c x))"

definition read_operands2 :: "(usize \<Rightarrow> usize \<Rightarrow> compiled_instruction) \<Rightarrow> compiled_instruction reader" where
  "read_operands2 c = mbind read_usize_u32 (\<lambda>x. mbind read_usize_u32 (\<lambda>y. mret (c x y)))"

definition read_operands3 :: "(usize \<Rightarrow> usize \<Rightarrow> usize \<Rightarrow> compiled_instruction) \<Rightarrow> compiled_instruction reader" where
  "read_operands3 c = mbind read_usize_u32 (\<lambda>x. mbind read_usize_u32 (\<lambda>y. mbind read_usize_u32 (\<lambda>z. mret (c x y z))))"

definition deserialize_instruction :: "compiled_instruction reader" where
  "deserialize_instruction = mbind read_u8 (\<lambda>opcode.
     if opcode = opcode_byte Op_NOP then mret C_NOP
     else if opcode = opcode_byte Op_LD then mbind read_usize_u32 (\<lambda>r. mbind read_word (\<lambda>off. mret (C_LD r off)))
     else if opcode = opcode_byte Op_LDI then read_operands2 C_LDI
     else if opcode = opcode_byte Op_MOV then read_operands2 C_MOV
     else if opcode = opcode_byte Op_ADD then read_operands3 C_ADD
     else if opcode = opcode_byte Op_SUB then read_operands3 C_SUB
     else if opcode = opcode_byte Op_MUL then read_operands3 C_MUL
     else if opcode = opcode_byte Op_DIV then read_operands3 C_DIV
     else if opcode = opcode_byte Op_MOD then read_operands3 C_MOD
     else if opcode = opcode_byte Op_AND then read_operands3 C_AND
     else if opcode = opcode_byte Op_OR then read_operands3 C_OR
     else if opcode = opcode_byte Op_XOR then read_operands3 C_XOR
     else if opcode = opcode_byte Op_NOT then read_operands2 C_NOT
     else if opcode = opcode_byte Op_SHL then read_operands3 C_SHL
     else if opcode = opcode_byte Op_SHR then read_operands3 C_SHR
     else if opcode = opcode_byte Op_JMP then mbind (read_len_prefixed_string_u16 ''JMP label length'' ''Invalid UTF-8 in label'') (\<lambda>l. mret (C_JMP l))
     else if opcode = opcode_byte Op_JMPEQ then mbind (read_len_prefixed_string_u16 ''JMPEQ label length'' ''Invalid UTF-8 in label'') (\<lambda>l. mret (C_JMPEQ l))
     else if opcode = opcode_byte Op_JMPNEQ then mbind (read_len_prefixed_string_u16 ''JMPNEQ label length'' ''Invalid UTF-8 in label'') (\<lambda>l. mret (C_JMPNEQ l))
     else if opcode = opcode_byte Op_JMPLT then mbind (read_len_prefixed_string_u16 ''JMPLT label length'' ''Invalid UTF-8 in label'') (\<lambda>l. mret (C_JMPLT l))
     else if opcode = opcode_byte Op_JMPGT then mbind (read_len_prefixed_string_u16 ''JMPGT label length'' ''Invalid UTF-8 in label'') (\<lambda>l. mret (C_JMPGT l))
     else if opcode = opcode_byte Op_CALL then mbind (read_len_prefixed_string_u16 ''CALL function name length'' ''Invalid UTF-8 in function name'') (\<lambda>f. mret (C_CALL f))
     else if opcode = opcode_byte Op_RET then read_operands1 C_RET
     else if opcode = opcode_byte Op_PUSHARG then read_operands1 C_PUSHARG
     else if opcode = opcode_byte Op_CMP then read_operands2 C_CMP
     else if opcode = opcode_byte Op_LDS then read_operands2 C_LDS
     else if opcode = opcode_byte Op_STS then read_operands2 C_STS
     else merr (InvalidData (UnknownOpcode opcode)))"

definition deserialize_type_metadata :: "u16 \<Rightarrow> string \<Rightarrow> string list \<Rightarrow> (function_type list \<times> function_type) reader" where
  "deserialize_type_metadata version name params =
     (if version \<ge> FUNCTION_TYPE_METADATA_FORMAT_VERSION
      then mbind read_usize_u16 (\<lambda>n.
             if n \<noteq> length params then merr (InvalidData (ParameterTypeCountMismatch name (length params) n))
             else mbind (read_times n deserialize_function_type) (\<lambda>ts.
                  mbind deserialize_function_type (\<lambda>r. mret (ts, r))))
      else mret (replicate (length params) T_Unknown, T_Unknown))"

definition deserialize_parent :: "string option reader" where
  "deserialize_parent = mbind read_u8 (\<lambda>flag.
     if flag = 0 then mret None
     else if flag = 1 then mbind (read_len_prefixed_string_u16 ''parent function name length''
       ''Invalid UTF-8 in parent function name'') (\<lambda>p. mret (Some p))
     else merr (InvalidData (InvalidParentFlag flag)))"

primrec read_labels :: "nat \<Rightarrow> (string \<times> usize) list \<Rightarrow> (string \<times> usize) list reader" where
  "read_labels 0 ls = mret ls"
| "read_labels (Suc n) ls =
     mbind (read_len_prefixed_string_u16 ''label name length'' ''Invalid UTF-8 in label name'') (\<lambda>l.
       mbind read_usize_u32 (\<lambda>offset. read_labels n (hm_insert (=) l offset ls)))"

text \<open>A function record up to its instructions, with their number.\<close>

definition read_function_prefix :: "u16 \<Rightarrow> (compiled_function \<times> usize) reader" where
  "read_function_prefix version =
     mbind (read_len_prefixed_string_u16 ''function name length'' ''Invalid UTF-8 in function name'') (\<lambda>name.
     mbind read_usize_u16 (\<lambda>regs.
     mbind read_usize_u16 (\<lambda>param_count.
     mbind (read_times param_count (read_len_prefixed_string_u16 ''parameter name length'' ''Invalid UTF-8 in parameter name'')) (\<lambda>params.
     mbind (deserialize_type_metadata version name params) (\<lambda>(types, ret).
     mbind read_usize_u16 (\<lambda>upvalue_count.
     mbind (read_times upvalue_count (read_len_prefixed_string_u16 ''upvalue name length'' ''Invalid UTF-8 in upvalue name'')) (\<lambda>ups.
     mbind deserialize_parent (\<lambda>par.
     mbind read_usize_u16 (\<lambda>label_count.
     mbind (read_labels label_count []) (\<lambda>ls.
     mbind (read_u32_len_bounded ''instruction count'' MAX_INSTRUCTION_COUNT) (\<lambda>n.
       mret (\<lparr>cf_name = name, cf_register_count = regs, cf_parameters = params, cf_parameter_types = types,
              cf_return_type = ret, cf_upvalues = ups, cf_parent = par, cf_labels = ls, cf_instructions = []\<rparr>, n))))))))))))"

definition deserialize_function :: "u16 \<Rightarrow> compiled_function reader" where
  "deserialize_function version =
     mbind (read_function_prefix version) (\<lambda>(f, n).
       mbind (read_times n deserialize_instruction) (\<lambda>ins. mret (f\<lparr>cf_instructions := ins\<rparr>)))"

text \<open>The header and the constant pool, and the manifest at the end of the file.\<close>

definition read_preamble :: "(u16 \<times> val list) reader" where
  "read_preamble =
     mbind (read_exact 4) (\<lambda>magic.
     if magic \<noteq> MAGIC_BYTES then merr InvalidMagicBytes
     else mbind read_u16 (\<lambda>version.
       if version > FORMAT_VERSION then merr (UnsupportedVersion version)
       else mbind (read_u32_len_bounded ''constant count'' MAX_BINARY_COLLECTION_LEN) (\<lambda>n.
            mbind (read_times n deserialize_value) (\<lambda>constants. mret (version, constants)))))"

definition read_manifest :: "u16 \<Rightarrow> client_io_manifest reader" where
  "read_manifest version =
     (if version \<ge> CLIENT_IO_MANIFEST_FORMAT_VERSION
      then deserialize_client_io_manifest (version \<ge> MPC_BACKEND_MANIFEST_FORMAT_VERSION)
             (version \<ge> MPC_CURVE_MANIFEST_FORMAT_VERSION) (version \<ge> PREPROCESSING_DEMAND_MANIFEST_FORMAT_VERSION)
      else mret default_manifest)"

definition deserialize :: "compiled_binary reader" where
  "deserialize =
     mbind read_preamble (\<lambda>(version, constants).
     mbind (read_u32_len_bounded ''function count'' MAX_BINARY_COLLECTION_LEN) (\<lambda>n.
     mbind (read_times n (deserialize_function version)) (\<lambda>functions.
     mbind (read_manifest version) (\<lambda>manifest.
       mret \<lparr>bin_version = version, bin_constants = constants, bin_functions = functions,
             client_io_manifest_of = manifest\<rparr>))))"

section \<open>Reading a recursive type\<close>

text \<open>Readers only consume input, and two readers agree on inputs of bounded length when their
  parts do.\<close>

definition shrinks :: "'a reader \<Rightarrow> bool" where
  "shrinks r = (\<forall>bs. length (snd (r bs)) \<le> length bs)"

definition agree_upto :: "nat \<Rightarrow> 'a reader \<Rightarrow> 'a reader \<Rightarrow> bool" where
  "agree_upto k r r' = (\<forall>bs. length bs \<le> k \<longrightarrow> r bs = r' bs)"

lemma shrinks_bind: "shrinks r \<Longrightarrow> (\<And>x. shrinks (f x)) \<Longrightarrow> shrinks (mbind r f)"
  unfolding shrinks_def
proof (intro allI)
  fix bs assume r: "\<forall>bs. length (snd (r bs)) \<le> length bs" and f: "\<And>x. \<forall>bs. length (snd (f x bs)) \<le> length bs"
  obtain y u where y: "r bs = (y, u)" by (cases "r bs")
  then have "length u \<le> length bs" using r by (metis snd_conv)
  then show "length (snd (mbind r f bs)) \<le> length bs"
    using le_trans [OF spec [OF f]] y by (cases y) (auto simp: mbind_def)
qed

lemma shrinks_basic: "shrinks (mret x)" "shrinks (merr e)" "shrinks (mread f)" "shrinks (read_exact n)"
  by (auto simp: shrinks_def mret_def merr_def mread_def read_exact_def)

lemma shrinks_times: "shrinks r \<Longrightarrow> shrinks (read_times n r)"
  by (induction n) (auto intro!: shrinks_bind shrinks_basic)

lemma shrinks_if: "shrinks r \<Longrightarrow> shrinks r' \<Longrightarrow> shrinks (if b then r else r')"
  by simp

lemmas shrinks_intro = shrinks_bind shrinks_basic shrinks_times shrinks_if

lemma shrinks_prims:
  "shrinks read_u8" "shrinks (read_word :: 'a::len word reader)" "shrinks read_usize_u16" "shrinks read_usize_u32"
  "shrinks (read_len_prefixed_string_u16 field u)"
  unfolding read_u8_def read_word_def read_usize_u16_def read_usize_u32_def read_u16_def read_u32_def
    read_len_prefixed_string_u16_def read_exact_vec_def
  by (intro shrinks_intro)+

lemma agree_bind:
  assumes "shrinks r" "agree_upto k r r'" "\<And>x. agree_upto k (f x) (g x)"
  shows "agree_upto k (mbind r f) (mbind r' g)"
  unfolding agree_upto_def
proof (intro allI impI)
  fix bs :: "byte list" assume k: "length bs \<le> k"
  obtain y u where y: "r bs = (y, u)" by (cases "r bs")
  have "length u \<le> k" using assms(1) y k unfolding shrinks_def by (metis snd_conv order_trans)
  moreover have "r' bs = (y, u)" using assms(2) y k by (simp add: agree_upto_def)
  ultimately show "mbind r f bs = mbind r' g bs"
    using assms(3) y by (cases y) (auto simp: mbind_def agree_upto_def)
qed

lemma agree_refl: "agree_upto k r r"
  by (simp add: agree_upto_def)

lemma agree_times: "shrinks r \<Longrightarrow> agree_upto k r r' \<Longrightarrow> agree_upto k (read_times n r) (read_times n r')"
  by (induction n) (auto intro!: agree_bind agree_refl shrinks_times)

lemma agree_if: "agree_upto k r r' \<Longrightarrow> agree_upto k u u' \<Longrightarrow> agree_upto k (if b then r else u) (if b then r' else u')"
  by simp

text \<open>After a tag there is a byte less to read.\<close>

lemma agree_tag:
  assumes "\<And>tag. agree_upto k (f tag) (g tag)"
  shows "agree_upto (Suc k) (mbind read_u8 f) (mbind read_u8 g)"
  using assms by (auto simp: agree_upto_def mbind_def read_u8_def read_exact_def mret_def)

lemma shrinks_body: "shrinks self \<Longrightarrow> shrinks (function_type_body self)"
  unfolding function_type_body_def by (intro shrinks_intro shrinks_prims)

lemma agree_body:
  assumes "shrinks self" "agree_upto k self self'"
  shows "agree_upto (Suc k) (function_type_body self) (function_type_body self')"
  unfolding function_type_body_def
  by (intro agree_tag agree_if agree_bind agree_times agree_refl assms shrinks_prims shrinks_times)

lemma shrinks_read_function_type: "shrinks (read_function_type n)"
proof (induction n)
  case 0
  show ?case by (simp add: shrinks_def)
next
  case (Suc n)
  then show ?case by (simp add: shrinks_body)
qed

lemma read_function_type_fuel: "length bs \<le> n \<Longrightarrow> read_function_type n bs = deserialize_function_type bs"
proof -
  have a: "agree_upto n (read_function_type n) (read_function_type (n + d))" for n d
  proof (induction n)
    case 0
    have "function_type_body r [] = (Inl UnexpectedEof, [])" for r
      by (simp add: function_type_body_def read_u8_def read_exact_def mbind_def)
    then show ?case by (cases d) (simp_all add: agree_upto_def)
  next
    case (Suc n)
    then show ?case using agree_body [OF shrinks_read_function_type] by simp
  qed
  show "length bs \<le> n \<Longrightarrow> read_function_type n bs = deserialize_function_type bs"
    using a [of "length bs" "n - length bs"] by (simp add: agree_upto_def deserialize_function_type_def)
qed

text \<open>The recursive equation of the source.\<close>

lemma deserialize_function_type_rec: "deserialize_function_type = function_type_body deserialize_function_type"
proof
  fix bs :: "byte list"
  have a: "agree_upto (length bs) (read_function_type (length bs)) deserialize_function_type"
    by (simp add: agree_upto_def read_function_type_fuel)
  have "deserialize_function_type bs = read_function_type (Suc (length bs)) bs"
    by (rule read_function_type_fuel [symmetric]) simp
  also have "\<dots> = function_type_body deserialize_function_type bs"
    using agree_body [OF shrinks_read_function_type a] by (simp add: agree_upto_def)
  finally show "deserialize_function_type bs = function_type_body deserialize_function_type bs" .
qed

end
