(* ===== verification/Caches.thy ===== *)
theory Caches
  imports Straight_Line
begin

text \<open>
  The two caches of the executor never change what a program does. The last resolved call
  target is forgotten whenever the program changes, by the registration methods of
  \<open>stoffel-vm/src/vm_state/program_registry.rs\<close>, so it always agrees with the program; and the
  execution loop remembers the code of one frame by its depth, which is safe because every
  step that replaces the frame of a depth first changes the depth.
\<close>

section \<open>Registration on the machine\<close>

definition on_program :: "(program, vm_error, 'a) meth \<Rightarrow> 'a vm" where
  "on_program = mlift vm_program (\<lambda>p s. s\<lparr>vm_program := p\<rparr>)"

definition forget_call_target :: "unit vm" where
  "forget_call_target = mmodify (\<lambda>s. s\<lparr>last_call_target := None\<rparr>)"

definition try_insert_function :: "function_def \<Rightarrow> unit vm" where
  "try_insert_function fd = mbind (on_program (try_insert fd)) (\<lambda>_. forget_call_target)"

definition try_insert_function_without_vm_source :: "function_def \<Rightarrow> unit vm" where
  "try_insert_function_without_vm_source fd =
     mbind (on_program (try_insert_without_vm_source fd)) (\<lambda>_. forget_call_target)"

definition try_insert_resolved_function_without_vm_source ::
  "resolved_function_header \<Rightarrow> resolved_instruction_input list \<Rightarrow> unit vm" where
  "try_insert_resolved_function_without_vm_source h stream =
     mbind (on_program (try_insert_resolved_without_vm_source h stream)) (\<lambda>_. forget_call_target)"

definition vm_try_insert_method :: "string \<Rightarrow> string \<Rightarrow> function_def \<Rightarrow> unit vm" where
  "vm_try_insert_method receiver_type method_name fd =
     mbind (on_program (try_insert_method receiver_type method_name fd)) (\<lambda>_. forget_call_target)"

definition has_function :: "vm_state \<Rightarrow> string \<Rightarrow> bool" where
  "has_function s name = (hm_get (=) (program_functions (vm_program s)) name \<noteq> None)"

definition ensure_function_names_available :: "vm_state \<Rightarrow> string list \<Rightarrow> string \<Rightarrow> vm_error + unit" where
  "ensure_function_names_available s names grp = ensure_names_available (vm_program s) names grp"

definition vm_discard_vm_source_instructions :: "vm_state \<Rightarrow> vm_state" where
  "vm_discard_vm_source_instructions s = s\<lparr>vm_program := discard_vm_source_instructions (vm_program s)\<rparr>"

definition vm_foreign_function :: "vm_state \<Rightarrow> string \<Rightarrow> vm_error + string option" where
  "vm_foreign_function s name = foreign_function (vm_program s) name"

section \<open>The call target cache\<close>

definition target_cache_ok :: "vm_state \<Rightarrow> bool" where
  "target_cache_ok s = (\<forall>n t. last_call_target s = Some (n, t) \<longrightarrow> program_call_target (vm_program s) n = Inr t)"

definition keeps_target :: "(vm_state, 'e, 'a) meth \<Rightarrow> bool" where
  "keeps_target m = (\<forall>s. target_cache_ok s \<longrightarrow> target_cache_ok (snd (m s)))"

lemma keeps_targetD: "keeps_target m \<Longrightarrow> target_cache_ok s \<Longrightarrow> m s = (res, t) \<Longrightarrow> target_cache_ok t"
  by (metis keeps_target_def snd_conv)

lemma failed_registration_keeps_program:
  "try_insert_with_source_retention fd retain p = (Inl e, q) \<Longrightarrow> q = p"
  "try_insert_resolved_without_vm_source h stream p = (Inl e, q) \<Longrightarrow> q = p"
  "try_insert_method ty m fd p = (Inl e, q) \<Longrightarrow> q = p"
proof -
  show retain: "try_insert_with_source_retention fd retain p = (Inl e, q) \<Longrightarrow> q = p" for retain
    by (auto simp: try_insert_with_source_retention_def Let_def split: if_splits sum.splits)
  show "try_insert_resolved_without_vm_source h stream p = (Inl e, q) \<Longrightarrow> q = p"
    by (auto simp: try_insert_resolved_without_vm_source_def split: if_splits sum.splits prod.splits)
  show "try_insert_method ty m fd p = (Inl e, q) \<Longrightarrow> q = p"
    by (auto simp: try_insert_method_def mbind_def mret_def mmodify_def try_insert_def dest: retain
        split: if_splits sum.splits prod.splits)
qed

lemma discard_keeps_targets:
  "program_call_target (discard_vm_source_instructions p) n = program_call_target p n"
proof -
  have "hm_get (=) (map (map_prod id discard_source) m) n = map_option discard_source (hm_get (=) m n)" for m
    by (induction m) auto
  moreover have "(case discard_source f of RegisteredVm _ _ t \<Rightarrow> Inr (VmTarget t) | RegisteredForeign k \<Rightarrow> Inr (ForeignTarget k)) =
      ((case f of RegisteredVm _ _ t \<Rightarrow> Inr (VmTarget t) | RegisteredForeign k \<Rightarrow> Inr (ForeignTarget k)) :: vm_error + call_target)" for f
    by (cases f rule: discard_source.cases) simp_all
  ultimately show ?thesis
    by (simp add: program_call_target_def discard_vm_source_instructions_def split: option.split)
qed

lemma registration_keeps_target:
  assumes "\<And>p e q. m p = (Inl e, q) \<Longrightarrow> q = p"
  shows "keeps_target (mbind (on_program m) (\<lambda>_. forget_call_target))"
proof -
  have "target_cache_ok (snd (mbind (on_program m) (\<lambda>_. forget_call_target) s))" if s: "target_cache_ok s" for s
  proof (cases "m (vm_program s)")
    case (Pair y q)
    then show ?thesis using assms [of "vm_program s" _ q] s
      by (cases y) (auto simp: on_program_def mlift_def mbind_def forget_call_target_def mmodify_def target_cache_ok_def)
  qed
  then show ?thesis by (simp add: keeps_target_def)
qed

lemma cached_call_target_eq:
  assumes "target_cache_ok s"
  shows "fst (cached_call_target n s) = program_call_target (vm_program s) n" "target_cache_ok (snd (cached_call_target n s))"
  using assms by (auto simp: cached_call_target_def target_cache_ok_def split: option.splits sum.splits)

text \<open>C23: the cached call target always agrees with the program: after every registration, whether it succeeds
  or fails, after discarding source code and after every lookup, a lookup through the cache
  gives exactly what a lookup in the program gives.\<close>

theorem call_target_cache_coherent:
  "target_cache_ok vm_state_new \<and>
   (target_cache_ok s \<longrightarrow>
      fst (cached_call_target n s) = program_call_target (vm_program s) n \<and>
      target_cache_ok (snd (cached_call_target n s)) \<and>
      target_cache_ok (snd (try_insert_function fd s)) \<and>
      target_cache_ok (snd (try_insert_function_without_vm_source fd s)) \<and>
      target_cache_ok (snd (try_insert_resolved_function_without_vm_source h stream s)) \<and>
      target_cache_ok (snd (vm_try_insert_method ty m fd s)) \<and>
      target_cache_ok (vm_discard_vm_source_instructions s))"
proof -
  have "keeps_target (try_insert_function fd)" "keeps_target (try_insert_function_without_vm_source fd)"
    "keeps_target (try_insert_resolved_function_without_vm_source h stream)" "keeps_target (vm_try_insert_method ty m fd)"
    unfolding try_insert_function_def try_insert_function_without_vm_source_def
      try_insert_resolved_function_without_vm_source_def vm_try_insert_method_def try_insert_def try_insert_without_vm_source_def
    by (rule registration_keeps_target, erule failed_registration_keeps_program)+
  moreover have "target_cache_ok (vm_discard_vm_source_instructions s)" if "target_cache_ok s"
    using that by (simp add: target_cache_ok_def vm_discard_vm_source_instructions_def discard_keeps_targets)
  moreover have "target_cache_ok vm_state_new" by (simp add: target_cache_ok_def vm_state_new_def)
  ultimately show ?thesis using cached_call_target_eq by (simp add: keeps_target_def)
qed

theorem call_target_cache_coherent_witness:
  "fst (cached_call_target ''f'' (vm_state_new\<lparr>vm_program := program_new\<lparr>program_functions := [(''f'', RegisteredForeign ''f'')]\<rparr>,
     last_call_target := Some (''f'', ForeignTarget ''f'')\<rparr>)) = Inr (ForeignTarget ''f'')"
proof -
  let ?s = "vm_state_new\<lparr>vm_program := program_new\<lparr>program_functions := [(''f'', RegisteredForeign ''f'')]\<rparr>,
     last_call_target := Some (''f'', ForeignTarget ''f'')\<rparr>"
  have s: "target_cache_ok ?s" by (simp add: target_cache_ok_def program_call_target_def)
  have "fst (cached_call_target ''f'' ?s) = program_call_target (vm_program ?s) ''f''"
    using call_target_cache_coherent [THEN conjunct2, rule_format, OF s, of "''f''"] by blast
  then show ?thesis by (simp add: program_call_target_def)
qed

section \<open>The runtime function cache\<close>

text \<open>The execution loop without its cache.\<close>

fun run_loop_uncached :: "host \<Rightarrow> nat \<Rightarrow> usize \<Rightarrow> vm_state \<Rightarrow> (vm_error + val) option \<times> vm_state" where
  "run_loop_uncached host 0 cp s = (None, s)"
| "run_loop_uncached host (Suc n) cp s =
     (case mbind current_runtime_function (execute_local_step host cp) s of
        (Inl e, t) \<Rightarrow> (Some (Inl e), t)
      | (Inr (OutcomeReturn v), t) \<Rightarrow> (Some (Inr v), t)
      | (Inr OutcomeContinue, t) \<Rightarrow> run_loop_uncached host n cp t)"

definition runs_code :: "vm_state \<Rightarrow> runtime_function \<Rightarrow> bool" where
  "runs_code s rt = (vec_get (frame_runtime_functions s) (top s) = Some (Some rt))"

definition cache_ok :: "runtime_function_cache \<Rightarrow> vm_state \<Rightarrow> bool" where
  "cache_ok c s = (\<forall>d rt. c = Some (d, rt) \<longrightarrow> length (call_stack s) = Suc d \<longrightarrow> runs_code s rt)"

text \<open>What is assumed of foreign functions: when the frame that called one is the current frame again, it
  still runs the same code.\<close>

definition host_keeps_code :: "host \<Rightarrow> bool" where
  "host_keeps_code host =
     (\<forall>f args s res t rt. host f args s = (res, t) \<longrightarrow> length (call_stack t) = length (call_stack s) \<longrightarrow>
        runs_code s rt \<longrightarrow> runs_code t rt)"

definition keeps_code :: "(vm_state, 'e, 'a) meth \<Rightarrow> bool" where
  "keeps_code m =
     (\<forall>s x t rt. m s = (Inr x, t) \<longrightarrow> length (call_stack t) = length (call_stack s) \<longrightarrow> runs_code s rt \<longrightarrow> runs_code t rt)"

lemma keeps_codeD:
  "keeps_code m \<Longrightarrow> m s = (Inr x, t) \<Longrightarrow> length (call_stack t) = length (call_stack s) \<Longrightarrow> runs_code s rt \<Longrightarrow> runs_code t rt"
  unfolding keeps_code_def by blast

lemma localized_keeps_code: "localized m \<Longrightarrow> keeps_code m"
  unfolding keeps_code_def runs_code_def using localizedD touches_fields(3,8) by metis

lemma on_frame_code: "on_frame g s = (res, t) \<Longrightarrow> frame_runtime_functions t = frame_runtime_functions s \<and> length (call_stack t) = length (call_stack s)"
  by (auto simp: on_frame_def put_frame_def split: sum.splits)

text \<open>A bytecode call leaves one frame more, a return one less.\<close>

lemma drain_length: "drain_call_args s = (res, t) \<Longrightarrow> length (call_stack t) = length (call_stack s)"
  unfolding drain_call_args_def by (auto simp: mbind_def mread_def dest: on_frame_code)

lemma push_prepared_length:
  "push_prepared_vm_frame t args ups clo s = (Inr x, u) \<Longrightarrow> length (call_stack u) = Suc (length (call_stack s))"
  by (auto simp: push_prepared_vm_frame_def push_activation_frame_def split: sum.splits)

lemma drain_push_length:
  "drain_call_args s = (res, ta) \<Longrightarrow> push_prepared_vm_frame t args ups clo ta = (Inr x, u) \<Longrightarrow>
   length (call_stack u) = Suc (length (call_stack s))"
  using drain_length push_prepared_length by metis

lemma call_vm_length: "call_vm t s = (Inr x, u) \<Longrightarrow> length (call_stack u) = Suc (length (call_stack s))"
  by (auto simp: call_vm_def mbind_Inr_iff mread_def push_empty_vm_frame_without_hooks_def mmodify_def push_activation_frame_def
      restoring_args_Inr dest: drain_push_length push_prepared_length split: if_splits prod.splits)

lemma return_length:
  assumes "return_current_frame v cp s = (Inr x, t)"
  shows "length (call_stack t) < length (call_stack s)"
proof -
  have ne: "call_stack s \<noteq> []"
    using assms by (auto simp: return_current_frame_def mbind_Inr_iff mread_def current_frame_depth_Inr)
  let ?p = "pop_activation_frame (s\<lparr>vm_reveals := clear_frame (top s) (vm_reveals s)\<rparr>)"
  let ?rest = "mbind (mread current_return_register) (\<lambda>x.
      mbind (assign_current_register_without_previous x v) (\<lambda>_. mret OutcomeContinue))"
  have rest: "localized ?rest" by (intro localized_intro)
  have p: "length (call_stack ?p) < length (call_stack s)" using ne by (simp add: pop_activation_frame_def)
  have "t = ?p\<lparr>current_instruction := None\<rparr> \<or> ?rest (sync_current_instruction_to_current_frame ?p) = (Inr x, t)"
    using assms by (auto simp: return_current_frame_eq [OF ne] split: if_splits)
  then show ?thesis
    using p touches_fields(8) [OF localizedD [OF rest]] by (auto simp: sync_current_instruction_to_current_frame_def)
qed

lemma resolve_call_target_frames:
  "resolve_call_target n s = (res, t) \<Longrightarrow> frame_runtime_functions t = frame_runtime_functions s \<and> call_stack t = call_stack s"
proof -
  have c: "cached_call_target n s = (y, u) \<Longrightarrow> frame_runtime_functions u = frame_runtime_functions s \<and> call_stack u = call_stack s" for y u
    by (auto simp: cached_call_target_def split: option.splits sum.splits if_splits)
  assume run: "resolve_call_target n s = (res, t)"
  obtain y u where y: "cached_call_target n s = (y, u)" by (cases "cached_call_target n s")
  have "t = s \<or> t = u"
    using run y by (cases "split_once CHR ''.'' n"; cases y)
      (auto simp: resolve_call_target_def mbind_def mread_def mret_def split: sum.splits prod.splits)
  then show "frame_runtime_functions t = frame_runtime_functions s \<and> call_stack t = call_stack s" using c [OF y] by auto
qed

lemma foreign_code:
  assumes h: "host_keeps_code host" and run: "call_foreign_function_internal host f args cp s = (Inr x, t)"
    and len: "length (call_stack t) = length (call_stack s)" and rt: "runs_code s rt"
  shows "runs_code t rt"
proof -
  let ?assign = "\<lambda>result. mbind (mread current_return_register) (\<lambda>x.
      mbind (assign_current_register_without_previous x result) (\<lambda>_. mret OutcomeContinue))"
  have loc: "localized (?assign result)" for result by (intro localized_intro)
  obtain result u where u: "host f args s = (Inr result, u)" "t = u \<or> ?assign result u = (Inr x, t)"
    using run by (auto simp: call_foreign_function_internal_def mbind_Inr_iff mmap_err_Inr_iff split: if_splits)
  have same: "length (call_stack t) = length (call_stack u) \<and> frame_runtime_functions t = frame_runtime_functions u"
    using u(2) touches_fields(3,8) [OF localizedD [OF loc]] by auto
  then have "runs_code u rt" using h u(1) len rt unfolding host_keeps_code_def by (metis (full_types))
  then show ?thesis using same by (simp add: runs_code_def)
qed

lemma call_code:
  assumes h: "host_keeps_code host" and run: "execute_call host f s = (Inr x, t)"
    and len: "length (call_stack t) = length (call_stack s)" and rt: "runs_code s rt"
  shows "runs_code t rt"
proof -
  obtain n ct u where u: "resolve_call_target f s = (Inr (n, ct), u)"
      "(case ct of VmTarget vt \<Rightarrow> mbind (call_vm vt) (\<lambda>_. mret OutcomeContinue) | ForeignTarget k \<Rightarrow> call_foreign host k) u = (Inr x, t)"
    using run by (auto simp: execute_call_def mbind_Inr_iff)
  have s: "runs_code u rt" "length (call_stack u) = length (call_stack s)"
    using resolve_call_target_frames [OF u(1)] rt by (simp_all add: runs_code_def)
  show ?thesis
  proof (cases ct)
    case (VmTarget vt)
    then have "length (call_stack t) = Suc (length (call_stack u))"
      using u(2) call_vm_length by (auto simp: mbind_Inr_iff mret_def)
    then show ?thesis using len s(2) by simp
  next
    case (ForeignTarget k)
    then have "call_foreign host k u = (Inr x, t)" using u(2) by simp
    then consider "call_foreign_function_internal host k [] (length (call_stack u)) u = (Inr x, t)"
      | a w where "drain_call_args u = (Inr a, w)" "call_foreign_function_internal host k (snd a) (fst a) w = (Inr x, t)"
      by (auto simp: call_foreign_def mbind_Inr_iff mread_def restoring_args_Inr split: if_splits)
    then show ?thesis
    proof cases
      case 1
      then show ?thesis using foreign_code [OF h] len s by simp
    next
      case 2
      have "frame_runtime_functions w = frame_runtime_functions u" "length (call_stack w) = length (call_stack u)"
        using 2(1) by (auto simp: drain_call_args_def mbind_def mread_def dest: on_frame_code)
      then show ?thesis using foreign_code [OF h 2(2)] len s by (simp add: runs_code_def)
    qed
  qed
qed

lemma instruction_code:
  assumes h: "host_keeps_code host" and run: "execute_instruction host cp rt' i s = (Inr x, t)"
    and len: "length (call_stack t) = length (call_stack s)" and rt: "runs_code s rt"
  shows "runs_code t rt"
proof (cases "stays_in_frame i")
  case True
  then show ?thesis using keeps_codeD [OF localized_keeps_code [OF localized_instruction] run len rt] by blast
next
  case False
  then consider c n where "i = Jump c n" | n where "i = Call n" | y where "i = Return y" by (cases i) auto
  then show ?thesis
  proof cases
    case 1
    then show ?thesis using run rt on_frame_code [of _ s "Inr ()" t]
      by (auto simp: continuing_def execute_jump_def mbind_Inr_iff mret_def runs_code_def dest: on_frame_code)
  next
    case 2
    then show ?thesis using run call_code [OF h _ len rt] by (auto simp: mbind_Inr_iff mread_def)
  next
    case 3
    then obtain v u where u: "resolve_register y s = (Inr v, u)" "return_current_frame v cp u = (Inr x, t)"
      using run by (auto simp: mbind_Inr_iff)
    have "length (call_stack u) = length (call_stack s)" using touches_fields(8) [OF localizedD [OF localized_resolve(1) u(1)]] .
    then show ?thesis using return_length [OF u(2)] len by simp
  qed
qed

lemma step_code:
  assumes h: "host_keeps_code host" and run: "execute_local_step host cp rt' s = (Inr x, t)"
    and len: "length (call_stack t) = length (call_stack s)" and rt: "runs_code s rt"
  shows "runs_code t rt"
proof -
  obtain p u where u: "fetch_instruction rt' s = (Inr p, u)"
      "(case p of None \<Rightarrow> handle_function_end cp
        | Some bytes \<Rightarrow> (case decode bytes of None \<Rightarrow> merr (Message ''invalid opcode'')
                          | Some i \<Rightarrow> execute_instruction host cp rt' i)) u = (Inr x, t)"
    using run by (auto simp: execute_local_step_def mbind_Inr_iff split: if_splits)
  have s: "runs_code u rt" "length (call_stack u) = length (call_stack s)"
    using on_frame_code [OF u(1) [unfolded fetch_instruction_def]] rt by (simp_all add: runs_code_def)
  show ?thesis
  proof (cases p)
    case None
    then obtain y w v where w: "resolve_register y u = (Inr v, w)" "return_current_frame v cp w = (Inr x, t)"
      using u(2) by (auto simp: handle_function_end_def mbind_Inr_iff mread_def)
    have "length (call_stack w) = length (call_stack u)" using touches_fields(8) [OF localizedD [OF localized_resolve(1) w(1)]] .
    then show ?thesis using return_length [OF w(2)] len s(2) by simp
  next
    case (Some bytes)
    then obtain i where "execute_instruction host cp rt' i u = (Inr x, t)"
      using u(2) by (cases "decode bytes") (auto simp: merr_def)
    then show ?thesis using instruction_code [OF h] len s by simp
  qed
qed

text \<open>Looking the code of the current frame up, through the cache or not.\<close>

lemma current_runtime_function_code:
  assumes "current_runtime_function s = (Inr rt, u)"
  shows "runs_code u rt" "length (call_stack u) = length (call_stack s)" "call_stack s \<noteq> []"
proof -
  show "length (call_stack u) = length (call_stack s)" "call_stack s \<noteq> []"
    using assms by (auto simp: current_runtime_function_def current_frame_depth_Inr split: sum.splits option.splits if_splits)
  show "runs_code u rt"
    using assms by (auto simp: current_runtime_function_def runs_code_def current_frame_depth_Inr vec_get_def
        split: sum.splits option.splits if_splits)
qed

lemma runs_code_lookup:
  assumes "runs_code s rt" "length (call_stack s) = Suc d"
  shows "current_runtime_function s = (Inr rt, s)"
proof -
  have "current_frame_depth s = Inr d" using assms(2) current_frame_depth_Inr [of s d] by force
  then show ?thesis using assms by (simp add: current_runtime_function_def runs_code_def)
qed

lemma cache_current_eq:
  assumes "cache_ok c s"
  shows "cache_current c s =
    (case current_runtime_function s of (Inl e, u) \<Rightarrow> (Inl e, u) | (Inr rt, u) \<Rightarrow> (Inr (rt, Some (top s, rt)), u))"
proof (cases "call_stack s = []")
  case True
  then have "current_frame_depth s = Inl NoActiveActivationRecord" by (simp add: current_frame_depth_def checked_sub_usize_def)
  then show ?thesis by (simp add: cache_current_def mbind_def mread_def current_runtime_function_def)
next
  case False
  then have d: "current_frame_depth s = Inr (top s)" using current_frame_depth_Inr by blast
  show ?thesis
  proof (cases "\<exists>rt. c = Some (top s, rt)")
    case True
    then obtain rt where c: "c = Some (top s, rt)" by blast
    then have "runs_code s rt" using assms False by (simp add: cache_ok_def)
    then show ?thesis using c d runs_code_lookup [of s rt "top s"] False by (simp add: cache_current_def mbind_def mread_def mret_def)
  next
    case False
    then show ?thesis using d
      by (auto simp: cache_current_def mbind_def mread_def mret_def split: option.split prod.split sum.split)
  qed
qed

lemma run_loop_cache:
  assumes h: "host_keeps_code host"
  shows "cache_ok c s \<Longrightarrow> run_loop host n cp c s = run_loop_uncached host n cp s"
proof (induction n arbitrary: c s)
  case (Suc n)
  obtain y u where y: "current_runtime_function s = (y, u)" by (cases "current_runtime_function s")
  show ?case
  proof (cases y)
    case (Inl e)
    then show ?thesis using cache_current_eq [OF Suc.prems] y by (simp add: mbind_def)
  next
    case (Inr rt)
    then have u: "runs_code u rt" "length (call_stack u) = length (call_stack s)" "call_stack s \<noteq> []"
      using current_runtime_function_code y by simp_all
    obtain z t where z: "execute_local_step host cp rt u = (z, t)" by (cases "execute_local_step host cp rt u")
    have "cache_ok (Some (top s, rt)) t" if "z = Inr OutcomeContinue"
      using step_code [OF h, of cp rt u OutcomeContinue t rt] z that u by (simp add: cache_ok_def)
    then show ?thesis
      using cache_current_eq [OF Suc.prems] y Inr z Suc.IH
      by (cases z; cases "projr z") (auto simp: mbind_def mret_def)
  qed
qed simp

text \<open>C22: remembering the code of the current frame by its depth does not change an execution: the loop with
  the cache gives the same result and state, for every bound on the steps, as the loop that
  looks the code up at every step. Foreign functions are assumed to leave the frame that
  called them running the same code.\<close>

theorem runtime_function_cache_transparent:
  assumes "host_keeps_code host"
  shows "execute_until_return_to_depth host n cp s =
    (case run_loop_uncached host n cp s of
       (Some (Inl e), t) \<Rightarrow> (Some (Inl e), unwind_call_stack_to cp t)
     | res \<Rightarrow> res)"
  using run_loop_cache [OF assms, of None s n cp] by (simp add: execute_until_return_to_depth_def cache_ok_def)

theorem runtime_function_cache_transparent_witness:
  "\<exists>t. execute_until_return_to_depth quiet_host (Suc (Suc 0)) 0 (without_batching reveal_machine) = (Some (Inr (I64 7)), t)"
proof -
  let ?s = "without_batching reveal_machine"
  have h: "host_keeps_code quiet_host" by (simp add: host_keeps_code_def quiet_host_def)
  have "fst (run_loop_uncached quiet_host (Suc (Suc 0)) 0 ?s) = Some (Inr (I64 7))"
    by (simp add: reveal_machine_eval without_batching_def)
  then obtain t where "run_loop_uncached quiet_host (Suc (Suc 0)) 0 ?s = (Some (Inr (I64 7)), t)" by (metis prod.collapse)
  then show ?thesis using runtime_function_cache_transparent [OF h, of "Suc (Suc 0)" 0 ?s] by simp
qed

end
