(* ===== verification/Binary_Loading.thy ===== *)
theory Binary_Loading
  imports Binary_Format Caches "HOL-Library.List_Lexorder" "HOL-Library.Char_ord"
begin

text \<open>
  Between compiled binaries and the functions of the machine: \<open>from_vm_functions\<close> with its shared
  constant pool, \<open>try_to_vm_functions\<close>, and the two loaders that read a file function by function
  without keeping it (\<open>compiled_binary.rs\<close>), down to the registration loop of the runner
  (\<open>stoffel-run.rs\<close>).

  The fingerprint that the streaming loaders keep of a function is a hash of its fields in a
  fixed order; the hash function, \<open>DefaultHasher\<close>, is unspecified by its library and is a
  parameter. A callback of a loader is a method on the state that its closure captures.
\<close>

section \<open>From functions to a binary\<close>

record constant_pool =
  pool_values :: "val list"
  pool_index :: "(val \<times> usize) list"

definition add_constant_if_new :: "val \<Rightarrow> constant_pool \<Rightarrow> usize \<times> constant_pool" where
  "add_constant_if_new v pool =
     (case hm_get value_eq (pool_index pool) v of
        Some k \<Rightarrow> (k, pool)
      | None \<Rightarrow> (length (pool_values pool),
                 \<lparr>pool_values = pool_values pool @ [v],
                  pool_index = hm_insert value_eq v (length (pool_values pool)) (pool_index pool)\<rparr>))"

fun compile_instruction ::
  "instruction \<Rightarrow> constant_pool \<Rightarrow> compiled_instruction \<times> constant_pool" where
  "compile_instruction I_NOP pool = (C_NOP, pool)"
| "compile_instruction (I_LD a b) pool = (C_LD a b, pool)"
| "compile_instruction (I_LDI r v) pool =
     (case add_constant_if_new v pool of (k, pool') \<Rightarrow> (C_LDI r k, pool'))"
| "compile_instruction (I_MOV a b) pool = (C_MOV a b, pool)"
| "compile_instruction (I_ADD a b c) pool = (C_ADD a b c, pool)"
| "compile_instruction (I_SUB a b c) pool = (C_SUB a b c, pool)"
| "compile_instruction (I_MUL a b c) pool = (C_MUL a b c, pool)"
| "compile_instruction (I_DIV a b c) pool = (C_DIV a b c, pool)"
| "compile_instruction (I_MOD a b c) pool = (C_MOD a b c, pool)"
| "compile_instruction (I_AND a b c) pool = (C_AND a b c, pool)"
| "compile_instruction (I_OR a b c) pool = (C_OR a b c, pool)"
| "compile_instruction (I_XOR a b c) pool = (C_XOR a b c, pool)"
| "compile_instruction (I_NOT a b) pool = (C_NOT a b, pool)"
| "compile_instruction (I_SHL a b c) pool = (C_SHL a b c, pool)"
| "compile_instruction (I_SHR a b c) pool = (C_SHR a b c, pool)"
| "compile_instruction (I_JMP a) pool = (C_JMP a, pool)"
| "compile_instruction (I_JMPEQ a) pool = (C_JMPEQ a, pool)"
| "compile_instruction (I_JMPNEQ a) pool = (C_JMPNEQ a, pool)"
| "compile_instruction (I_JMPLT a) pool = (C_JMPLT a, pool)"
| "compile_instruction (I_JMPGT a) pool = (C_JMPGT a, pool)"
| "compile_instruction (I_CALL a) pool = (C_CALL a, pool)"
| "compile_instruction (I_RET a) pool = (C_RET a, pool)"
| "compile_instruction (I_PUSHARG a) pool = (C_PUSHARG a, pool)"
| "compile_instruction (I_CMP a b) pool = (C_CMP a b, pool)"
| "compile_instruction (I_LDS a b) pool = (C_LDS a b, pool)"
| "compile_instruction (I_STS a b) pool = (C_STS a b, pool)"

fun compile_instructions ::
  "instruction list \<Rightarrow> constant_pool \<Rightarrow> compiled_instruction list \<times> constant_pool" where
  "compile_instructions [] pool = ([], pool)"
| "compile_instructions (i # is) pool =
     (case compile_instruction i pool of (c, pool') \<Rightarrow>
        case compile_instructions is pool' of (cs, pool'') \<Rightarrow> (c # cs, pool''))"

definition add_function_from_vm :: "vm_function \<Rightarrow> constant_pool \<Rightarrow> compiled_function \<times> constant_pool" where
  "add_function_from_vm f pool =
     (case compile_instructions (instructions f) pool of (cs, pool') \<Rightarrow>
        (\<lparr>cf_name = fn_name f, cf_register_count = register_count f, cf_parameters = parameters f,
          cf_parameter_types = replicate (length (parameters f)) T_Unknown, cf_return_type = T_Unknown,
          cf_upvalues = fn_upvalues f, cf_parent = fn_parent f, cf_labels = labels f, cf_instructions = cs\<rparr>, pool'))"

fun add_functions :: "vm_function list \<Rightarrow> constant_pool \<Rightarrow> compiled_function list \<times> constant_pool" where
  "add_functions [] pool = ([], pool)"
| "add_functions (f # fs) pool =
     (case add_function_from_vm f pool of (c, pool') \<Rightarrow>
        case add_functions fs pool' of (cs, pool'') \<Rightarrow> (c # cs, pool''))"

definition from_vm_functions :: "vm_function list \<Rightarrow> compiled_binary" where
  "from_vm_functions fs =
     (case add_functions fs \<lparr>pool_values = [], pool_index = []\<rparr> of (cs, pool) \<Rightarrow>
        compiled_binary_new\<lparr>bin_constants := pool_values pool, bin_functions := cs\<rparr>)"

section \<open>From a binary to functions\<close>

fun compiled_instruction_to_vm_instruction ::
  "(usize \<Rightarrow> binary_error + val) \<Rightarrow> compiled_instruction \<Rightarrow> binary_error + instruction" where
  "compiled_instruction_to_vm_instruction lookup C_NOP = Inr I_NOP"
| "compiled_instruction_to_vm_instruction lookup (C_LD a b) = Inr (I_LD a b)"
| "compiled_instruction_to_vm_instruction lookup (C_LDI r k) = rbind (lookup k) (\<lambda>v. Inr (I_LDI r v))"
| "compiled_instruction_to_vm_instruction lookup (C_MOV a b) = Inr (I_MOV a b)"
| "compiled_instruction_to_vm_instruction lookup (C_ADD a b c) = Inr (I_ADD a b c)"
| "compiled_instruction_to_vm_instruction lookup (C_SUB a b c) = Inr (I_SUB a b c)"
| "compiled_instruction_to_vm_instruction lookup (C_MUL a b c) = Inr (I_MUL a b c)"
| "compiled_instruction_to_vm_instruction lookup (C_DIV a b c) = Inr (I_DIV a b c)"
| "compiled_instruction_to_vm_instruction lookup (C_MOD a b c) = Inr (I_MOD a b c)"
| "compiled_instruction_to_vm_instruction lookup (C_AND a b c) = Inr (I_AND a b c)"
| "compiled_instruction_to_vm_instruction lookup (C_OR a b c) = Inr (I_OR a b c)"
| "compiled_instruction_to_vm_instruction lookup (C_XOR a b c) = Inr (I_XOR a b c)"
| "compiled_instruction_to_vm_instruction lookup (C_NOT a b) = Inr (I_NOT a b)"
| "compiled_instruction_to_vm_instruction lookup (C_SHL a b c) = Inr (I_SHL a b c)"
| "compiled_instruction_to_vm_instruction lookup (C_SHR a b c) = Inr (I_SHR a b c)"
| "compiled_instruction_to_vm_instruction lookup (C_JMP a) = Inr (I_JMP a)"
| "compiled_instruction_to_vm_instruction lookup (C_JMPEQ a) = Inr (I_JMPEQ a)"
| "compiled_instruction_to_vm_instruction lookup (C_JMPNEQ a) = Inr (I_JMPNEQ a)"
| "compiled_instruction_to_vm_instruction lookup (C_JMPLT a) = Inr (I_JMPLT a)"
| "compiled_instruction_to_vm_instruction lookup (C_JMPGT a) = Inr (I_JMPGT a)"
| "compiled_instruction_to_vm_instruction lookup (C_CALL a) = Inr (I_CALL a)"
| "compiled_instruction_to_vm_instruction lookup (C_RET a) = Inr (I_RET a)"
| "compiled_instruction_to_vm_instruction lookup (C_PUSHARG a) = Inr (I_PUSHARG a)"
| "compiled_instruction_to_vm_instruction lookup (C_CMP a b) = Inr (I_CMP a b)"
| "compiled_instruction_to_vm_instruction lookup (C_LDS a b) = Inr (I_LDS a b)"
| "compiled_instruction_to_vm_instruction lookup (C_STS a b) = Inr (I_STS a b)"

definition constant_lookup :: "val list \<Rightarrow> string \<Rightarrow> usize \<Rightarrow> usize \<Rightarrow> binary_error + val" where
  "constant_lookup cs name i k = ok_or (InvalidData (MissingConstant name i k (length cs))) (vec_get cs k)"

fun to_vm_instructions ::
  "val list \<Rightarrow> string \<Rightarrow> usize \<Rightarrow> compiled_instruction list \<Rightarrow> binary_error + instruction list" where
  "to_vm_instructions cs name i [] = Inr []"
| "to_vm_instructions cs name i (c # rest) =
     rbind (compiled_instruction_to_vm_instruction (constant_lookup cs name i) c) (\<lambda>x.
       map_ok (\<lambda>xs. x # xs) (to_vm_instructions cs name (Suc i) rest))"

definition vm_function_from_instructions :: "compiled_function \<Rightarrow> instruction list \<Rightarrow> vm_function" where
  "vm_function_from_instructions f ins =
     vm_function_new (cf_name f) (cf_parameters f) (cf_upvalues f) (cf_parent f) (cf_register_count f) ins (cf_labels f)"

definition try_normalize_register_count :: "(vm_function, function_error, unit) meth" where
  "try_normalize_register_count f =
     (case try_frame_register_count f of Inl e \<Rightarrow> (Inl e, f) | Inr n \<Rightarrow> (Inr (), f\<lparr>register_count := n\<rparr>))"

definition try_compiled_function_to_vm_function :: "val list \<Rightarrow> compiled_function \<Rightarrow> binary_error + vm_function" where
  "try_compiled_function_to_vm_function cs f =
     rbind (to_vm_instructions cs (cf_name f) 0 (cf_instructions f)) (\<lambda>ins.
       case try_normalize_register_count (vm_function_from_instructions f ins) of
         (Inl e, _) \<Rightarrow> Inl (InvalidData (InvalidFunction e))
       | (Inr _, g) \<Rightarrow> Inr g)"

definition try_to_raw_vm_functions :: "compiled_binary \<Rightarrow> binary_error + vm_function list" where
  "try_to_raw_vm_functions b = collect (map (try_compiled_function_to_vm_function (bin_constants b)) (bin_functions b))"

text \<open>\<open>to_vm_functions\<close> panics where this is \<open>None\<close>.\<close>

definition to_vm_functions :: "compiled_binary \<Rightarrow> vm_function list option" where
  "to_vm_functions b = (case try_to_raw_vm_functions b of Inl _ \<Rightarrow> None | Inr fs \<Rightarrow> Some fs)"

text \<open>The derived equality of functions; the labels are compared as maps.\<close>

definition hm_equal :: "('k \<times> 'v) list \<Rightarrow> ('k \<times> 'v) list \<Rightarrow> bool" where
  "hm_equal m m' = (length m = length m' \<and> list_all (\<lambda>(k, v). hm_get (=) m' k = Some v) m)"

definition compiled_function_eq :: "compiled_function \<Rightarrow> compiled_function \<Rightarrow> bool" where
  "compiled_function_eq f g = (hm_equal (cf_labels f) (cf_labels g) \<and> f\<lparr>cf_labels := []\<rparr> = g\<lparr>cf_labels := []\<rparr>)"

fun to_vm_loop ::
  "val list \<Rightarrow> compiled_function list \<Rightarrow> (string \<times> compiled_function) list \<Rightarrow> binary_error + vm_function list" where
  "to_vm_loop cs [] seen = Inr []"
| "to_vm_loop cs (f # fs) seen =
     (case hm_get (=) seen (cf_name f) of
        Some g \<Rightarrow> if compiled_function_eq g f then to_vm_loop cs fs seen
                  else Inl (InvalidData (DuplicateFunction (cf_name f)))
      | None \<Rightarrow> rbind (try_compiled_function_to_vm_function cs f) (\<lambda>v.
                  map_ok (\<lambda>vs. v # vs) (to_vm_loop cs fs (hm_insert (=) (cf_name f) f seen))))"

definition try_to_vm_functions :: "compiled_binary \<Rightarrow> binary_error + vm_function list" where
  "try_to_vm_functions b = to_vm_loop (bin_constants b) (bin_functions b) []"

fun unique_functions :: "compiled_function list \<Rightarrow> compiled_function list \<Rightarrow> binary_error + compiled_function list" where
  "unique_functions [] uniq = Inr uniq"
| "unique_functions (f # fs) uniq =
     (case find (\<lambda>g. cf_name g = cf_name f) uniq of
        Some g \<Rightarrow> if compiled_function_eq g f then unique_functions fs uniq
                  else Inl (InvalidData (DuplicateFunction (cf_name f)))
      | None \<Rightarrow> unique_functions fs (uniq @ [f]))"

definition try_into_vm_functions :: "compiled_binary \<Rightarrow> binary_error + vm_function list" where
  "try_into_vm_functions b =
     rbind (unique_functions (bin_functions b) []) (\<lambda>fs. try_to_raw_vm_functions (b\<lparr>bin_functions := fs\<rparr>))"

section \<open>Resolving while reading\<close>

definition resolve_compiled_label :: "string \<Rightarrow> (string \<times> usize) list \<Rightarrow> usize \<Rightarrow> binary_error + usize" where
  "resolve_compiled_label label ls n =
     rbind (ok_or (InvalidData (UnknownCompiledLabel label)) (hm_get (=) ls label)) (\<lambda>t.
       if t > n then Inl (InvalidData (LabelPastEnd label t n)) else Inr t)"

definition compact_resolved_operand :: "string \<Rightarrow> usize \<Rightarrow> binary_error + u32" where
  "compact_resolved_operand field v = ok_or (InvalidData (ExceedsU32 field v)) (u32_try_from v)"

fun compiled_instruction_into_resolved_instruction ::
  "(string \<times> usize) list \<Rightarrow> usize \<Rightarrow> val list \<Rightarrow> string list \<Rightarrow> (usize \<Rightarrow> binary_error + val) \<Rightarrow> compiled_instruction \<Rightarrow>
   binary_error + resolved_instruction \<times> val list \<times> string list" where
  "compiled_instruction_into_resolved_instruction ls n cs ns lookup C_NOP =
     Inr (R_NOP, cs, ns)"
| "compiled_instruction_into_resolved_instruction ls n cs ns lookup (C_LD a b) =
     rbind (compact_resolved_operand ''LD register'' a) (\<lambda>a. Inr (R_LD a b, cs, ns))"
| "compiled_instruction_into_resolved_instruction ls n cs ns lookup (C_LDI a b) =
     rbind (lookup b) (\<lambda>v. rbind (compact_resolved_operand ''LDI register'' a) (\<lambda>a.
       rbind (compact_resolved_operand ''LDI constant index'' (length cs)) (\<lambda>k. Inr (R_LDI a k, cs @ [v], ns))))"
| "compiled_instruction_into_resolved_instruction ls n cs ns lookup (C_MOV a b) =
     rbind (compact_resolved_operand ''MOV target register'' a) (\<lambda>a. rbind (compact_resolved_operand ''MOV source register'' b) (\<lambda>b. Inr (R_MOV a b, cs, ns)))"
| "compiled_instruction_into_resolved_instruction ls n cs ns lookup (C_ADD a b c) =
     rbind (compact_resolved_operand ''ADD target register'' a) (\<lambda>a. rbind (compact_resolved_operand ''ADD left register'' b) (\<lambda>b. rbind (compact_resolved_operand ''ADD right register'' c) (\<lambda>c. Inr (R_ADD a b c, cs, ns))))"
| "compiled_instruction_into_resolved_instruction ls n cs ns lookup (C_SUB a b c) =
     rbind (compact_resolved_operand ''SUB target register'' a) (\<lambda>a. rbind (compact_resolved_operand ''SUB left register'' b) (\<lambda>b. rbind (compact_resolved_operand ''SUB right register'' c) (\<lambda>c. Inr (R_SUB a b c, cs, ns))))"
| "compiled_instruction_into_resolved_instruction ls n cs ns lookup (C_MUL a b c) =
     rbind (compact_resolved_operand ''MUL target register'' a) (\<lambda>a. rbind (compact_resolved_operand ''MUL left register'' b) (\<lambda>b. rbind (compact_resolved_operand ''MUL right register'' c) (\<lambda>c. Inr (R_MUL a b c, cs, ns))))"
| "compiled_instruction_into_resolved_instruction ls n cs ns lookup (C_DIV a b c) =
     rbind (compact_resolved_operand ''DIV target register'' a) (\<lambda>a. rbind (compact_resolved_operand ''DIV left register'' b) (\<lambda>b. rbind (compact_resolved_operand ''DIV right register'' c) (\<lambda>c. Inr (R_DIV a b c, cs, ns))))"
| "compiled_instruction_into_resolved_instruction ls n cs ns lookup (C_MOD a b c) =
     rbind (compact_resolved_operand ''MOD target register'' a) (\<lambda>a. rbind (compact_resolved_operand ''MOD left register'' b) (\<lambda>b. rbind (compact_resolved_operand ''MOD right register'' c) (\<lambda>c. Inr (R_MOD a b c, cs, ns))))"
| "compiled_instruction_into_resolved_instruction ls n cs ns lookup (C_AND a b c) =
     rbind (compact_resolved_operand ''AND target register'' a) (\<lambda>a. rbind (compact_resolved_operand ''AND left register'' b) (\<lambda>b. rbind (compact_resolved_operand ''AND right register'' c) (\<lambda>c. Inr (R_AND a b c, cs, ns))))"
| "compiled_instruction_into_resolved_instruction ls n cs ns lookup (C_OR a b c) =
     rbind (compact_resolved_operand ''OR target register'' a) (\<lambda>a. rbind (compact_resolved_operand ''OR left register'' b) (\<lambda>b. rbind (compact_resolved_operand ''OR right register'' c) (\<lambda>c. Inr (R_OR a b c, cs, ns))))"
| "compiled_instruction_into_resolved_instruction ls n cs ns lookup (C_XOR a b c) =
     rbind (compact_resolved_operand ''XOR target register'' a) (\<lambda>a. rbind (compact_resolved_operand ''XOR left register'' b) (\<lambda>b. rbind (compact_resolved_operand ''XOR right register'' c) (\<lambda>c. Inr (R_XOR a b c, cs, ns))))"
| "compiled_instruction_into_resolved_instruction ls n cs ns lookup (C_NOT a b) =
     rbind (compact_resolved_operand ''NOT target register'' a) (\<lambda>a. rbind (compact_resolved_operand ''NOT source register'' b) (\<lambda>b. Inr (R_NOT a b, cs, ns)))"
| "compiled_instruction_into_resolved_instruction ls n cs ns lookup (C_SHL a b c) =
     rbind (compact_resolved_operand ''SHL target register'' a) (\<lambda>a. rbind (compact_resolved_operand ''SHL left register'' b) (\<lambda>b. rbind (compact_resolved_operand ''SHL right register'' c) (\<lambda>c. Inr (R_SHL a b c, cs, ns))))"
| "compiled_instruction_into_resolved_instruction ls n cs ns lookup (C_SHR a b c) =
     rbind (compact_resolved_operand ''SHR target register'' a) (\<lambda>a. rbind (compact_resolved_operand ''SHR left register'' b) (\<lambda>b. rbind (compact_resolved_operand ''SHR right register'' c) (\<lambda>c. Inr (R_SHR a b c, cs, ns))))"
| "compiled_instruction_into_resolved_instruction ls n cs ns lookup (C_JMP a) =
     rbind (resolve_compiled_label a ls n) (\<lambda>t.
       rbind (compact_resolved_operand ''JMP target'' t) (\<lambda>t. Inr (R_JMP t, cs, ns)))"
| "compiled_instruction_into_resolved_instruction ls n cs ns lookup (C_JMPEQ a) =
     rbind (resolve_compiled_label a ls n) (\<lambda>t.
       rbind (compact_resolved_operand ''JMPEQ target'' t) (\<lambda>t. Inr (R_JMPEQ t, cs, ns)))"
| "compiled_instruction_into_resolved_instruction ls n cs ns lookup (C_JMPNEQ a) =
     rbind (resolve_compiled_label a ls n) (\<lambda>t.
       rbind (compact_resolved_operand ''JMPNEQ target'' t) (\<lambda>t. Inr (R_JMPNEQ t, cs, ns)))"
| "compiled_instruction_into_resolved_instruction ls n cs ns lookup (C_JMPLT a) =
     rbind (resolve_compiled_label a ls n) (\<lambda>t.
       rbind (compact_resolved_operand ''JMPLT target'' t) (\<lambda>t. Inr (R_JMPLT t, cs, ns)))"
| "compiled_instruction_into_resolved_instruction ls n cs ns lookup (C_JMPGT a) =
     rbind (resolve_compiled_label a ls n) (\<lambda>t.
       rbind (compact_resolved_operand ''JMPGT target'' t) (\<lambda>t. Inr (R_JMPGT t, cs, ns)))"
| "compiled_instruction_into_resolved_instruction ls n cs ns lookup (C_CALL a) =
     rbind (compact_resolved_operand ''CALL target index'' (length ns)) (\<lambda>k. Inr (R_CALL k, cs, ns @ [a]))"
| "compiled_instruction_into_resolved_instruction ls n cs ns lookup (C_RET a) =
     rbind (compact_resolved_operand ''RET register'' a) (\<lambda>a. Inr (R_RET a, cs, ns))"
| "compiled_instruction_into_resolved_instruction ls n cs ns lookup (C_PUSHARG a) =
     rbind (compact_resolved_operand ''PUSHARG register'' a) (\<lambda>a. Inr (R_PUSHARG a, cs, ns))"
| "compiled_instruction_into_resolved_instruction ls n cs ns lookup (C_CMP a b) =
     rbind (compact_resolved_operand ''CMP left register'' a) (\<lambda>a. rbind (compact_resolved_operand ''CMP right register'' b) (\<lambda>b. Inr (R_CMP a b, cs, ns)))"
| "compiled_instruction_into_resolved_instruction ls n cs ns lookup (C_LDS a b) =
     rbind (compact_resolved_operand ''LDS register'' a) (\<lambda>a. rbind (compact_resolved_operand ''LDS slot'' b) (\<lambda>b. Inr (R_LDS a b, cs, ns)))"
| "compiled_instruction_into_resolved_instruction ls n cs ns lookup (C_STS a b) =
     rbind (compact_resolved_operand ''STS slot'' a) (\<lambda>a. rbind (compact_resolved_operand ''STS register'' b) (\<lambda>b. Inr (R_STS a b, cs, ns)))"

fun compiled_instruction_into_resolved_input ::
  "(string \<times> usize) list \<Rightarrow> usize \<Rightarrow> (usize \<Rightarrow> binary_error + val) \<Rightarrow> compiled_instruction \<Rightarrow>
   binary_error + resolved_instruction_input" where
  "compiled_instruction_into_resolved_input ls n lookup C_NOP =
     Inr N_NOP"
| "compiled_instruction_into_resolved_input ls n lookup (C_LD a b) =
     rbind (compact_resolved_operand ''LD register'' a) (\<lambda>a. Inr (N_LD a b))"
| "compiled_instruction_into_resolved_input ls n lookup (C_LDI a b) =
     rbind (compact_resolved_operand ''LDI register'' a) (\<lambda>a. rbind (lookup b) (\<lambda>v. Inr (N_LDI a v)))"
| "compiled_instruction_into_resolved_input ls n lookup (C_MOV a b) =
     rbind (compact_resolved_operand ''MOV target register'' a) (\<lambda>a. rbind (compact_resolved_operand ''MOV source register'' b) (\<lambda>b. Inr (N_MOV a b)))"
| "compiled_instruction_into_resolved_input ls n lookup (C_ADD a b c) =
     rbind (compact_resolved_operand ''ADD target register'' a) (\<lambda>a. rbind (compact_resolved_operand ''ADD left register'' b) (\<lambda>b. rbind (compact_resolved_operand ''ADD right register'' c) (\<lambda>c. Inr (N_ADD a b c))))"
| "compiled_instruction_into_resolved_input ls n lookup (C_SUB a b c) =
     rbind (compact_resolved_operand ''SUB target register'' a) (\<lambda>a. rbind (compact_resolved_operand ''SUB left register'' b) (\<lambda>b. rbind (compact_resolved_operand ''SUB right register'' c) (\<lambda>c. Inr (N_SUB a b c))))"
| "compiled_instruction_into_resolved_input ls n lookup (C_MUL a b c) =
     rbind (compact_resolved_operand ''MUL target register'' a) (\<lambda>a. rbind (compact_resolved_operand ''MUL left register'' b) (\<lambda>b. rbind (compact_resolved_operand ''MUL right register'' c) (\<lambda>c. Inr (N_MUL a b c))))"
| "compiled_instruction_into_resolved_input ls n lookup (C_DIV a b c) =
     rbind (compact_resolved_operand ''DIV target register'' a) (\<lambda>a. rbind (compact_resolved_operand ''DIV left register'' b) (\<lambda>b. rbind (compact_resolved_operand ''DIV right register'' c) (\<lambda>c. Inr (N_DIV a b c))))"
| "compiled_instruction_into_resolved_input ls n lookup (C_MOD a b c) =
     rbind (compact_resolved_operand ''MOD target register'' a) (\<lambda>a. rbind (compact_resolved_operand ''MOD left register'' b) (\<lambda>b. rbind (compact_resolved_operand ''MOD right register'' c) (\<lambda>c. Inr (N_MOD a b c))))"
| "compiled_instruction_into_resolved_input ls n lookup (C_AND a b c) =
     rbind (compact_resolved_operand ''AND target register'' a) (\<lambda>a. rbind (compact_resolved_operand ''AND left register'' b) (\<lambda>b. rbind (compact_resolved_operand ''AND right register'' c) (\<lambda>c. Inr (N_AND a b c))))"
| "compiled_instruction_into_resolved_input ls n lookup (C_OR a b c) =
     rbind (compact_resolved_operand ''OR target register'' a) (\<lambda>a. rbind (compact_resolved_operand ''OR left register'' b) (\<lambda>b. rbind (compact_resolved_operand ''OR right register'' c) (\<lambda>c. Inr (N_OR a b c))))"
| "compiled_instruction_into_resolved_input ls n lookup (C_XOR a b c) =
     rbind (compact_resolved_operand ''XOR target register'' a) (\<lambda>a. rbind (compact_resolved_operand ''XOR left register'' b) (\<lambda>b. rbind (compact_resolved_operand ''XOR right register'' c) (\<lambda>c. Inr (N_XOR a b c))))"
| "compiled_instruction_into_resolved_input ls n lookup (C_NOT a b) =
     rbind (compact_resolved_operand ''NOT target register'' a) (\<lambda>a. rbind (compact_resolved_operand ''NOT source register'' b) (\<lambda>b. Inr (N_NOT a b)))"
| "compiled_instruction_into_resolved_input ls n lookup (C_SHL a b c) =
     rbind (compact_resolved_operand ''SHL target register'' a) (\<lambda>a. rbind (compact_resolved_operand ''SHL left register'' b) (\<lambda>b. rbind (compact_resolved_operand ''SHL right register'' c) (\<lambda>c. Inr (N_SHL a b c))))"
| "compiled_instruction_into_resolved_input ls n lookup (C_SHR a b c) =
     rbind (compact_resolved_operand ''SHR target register'' a) (\<lambda>a. rbind (compact_resolved_operand ''SHR left register'' b) (\<lambda>b. rbind (compact_resolved_operand ''SHR right register'' c) (\<lambda>c. Inr (N_SHR a b c))))"
| "compiled_instruction_into_resolved_input ls n lookup (C_JMP a) =
     rbind (resolve_compiled_label a ls n) (\<lambda>t.
       rbind (compact_resolved_operand ''JMP target'' t) (\<lambda>t. Inr (N_JMP t)))"
| "compiled_instruction_into_resolved_input ls n lookup (C_JMPEQ a) =
     rbind (resolve_compiled_label a ls n) (\<lambda>t.
       rbind (compact_resolved_operand ''JMPEQ target'' t) (\<lambda>t. Inr (N_JMPEQ t)))"
| "compiled_instruction_into_resolved_input ls n lookup (C_JMPNEQ a) =
     rbind (resolve_compiled_label a ls n) (\<lambda>t.
       rbind (compact_resolved_operand ''JMPNEQ target'' t) (\<lambda>t. Inr (N_JMPNEQ t)))"
| "compiled_instruction_into_resolved_input ls n lookup (C_JMPLT a) =
     rbind (resolve_compiled_label a ls n) (\<lambda>t.
       rbind (compact_resolved_operand ''JMPLT target'' t) (\<lambda>t. Inr (N_JMPLT t)))"
| "compiled_instruction_into_resolved_input ls n lookup (C_JMPGT a) =
     rbind (resolve_compiled_label a ls n) (\<lambda>t.
       rbind (compact_resolved_operand ''JMPGT target'' t) (\<lambda>t. Inr (N_JMPGT t)))"
| "compiled_instruction_into_resolved_input ls n lookup (C_CALL a) =
     Inr (N_CALL a)"
| "compiled_instruction_into_resolved_input ls n lookup (C_RET a) =
     rbind (compact_resolved_operand ''RET register'' a) (\<lambda>a. Inr (N_RET a))"
| "compiled_instruction_into_resolved_input ls n lookup (C_PUSHARG a) =
     rbind (compact_resolved_operand ''PUSHARG register'' a) (\<lambda>a. Inr (N_PUSHARG a))"
| "compiled_instruction_into_resolved_input ls n lookup (C_CMP a b) =
     rbind (compact_resolved_operand ''CMP left register'' a) (\<lambda>a. rbind (compact_resolved_operand ''CMP right register'' b) (\<lambda>b. Inr (N_CMP a b)))"
| "compiled_instruction_into_resolved_input ls n lookup (C_LDS a b) =
     rbind (compact_resolved_operand ''LDS register'' a) (\<lambda>a. rbind (compact_resolved_operand ''LDS slot'' b) (\<lambda>b. Inr (N_LDS a b)))"
| "compiled_instruction_into_resolved_input ls n lookup (C_STS a b) =
     rbind (compact_resolved_operand ''STS slot'' a) (\<lambda>a. rbind (compact_resolved_operand ''STS register'' b) (\<lambda>b. Inr (N_STS a b)))"

text \<open>The fields of a function in the order in which they are hashed.\<close>

definition hashed_prefix :: "compiled_function \<Rightarrow> compiled_function" where
  "hashed_prefix f = f\<lparr>cf_labels := sort_key fst (cf_labels f)\<rparr>"

type_synonym hasher = "compiled_function \<times> usize \<times> compiled_instruction list \<Rightarrow> u64"

fun resolve_while_reading ::
  "val list \<Rightarrow> compiled_function \<Rightarrow> usize \<Rightarrow> nat \<Rightarrow> usize \<Rightarrow> val list \<Rightarrow> string list \<Rightarrow>
   (resolved_instruction list \<times> val list \<times> string list \<times> compiled_instruction list) reader" where
  "resolve_while_reading pool f n 0 i cs ns = mret ([], cs, ns, [])"
| "resolve_while_reading pool f n (Suc k) i cs ns =
     mbind deserialize_instruction (\<lambda>c.
     mbind (mread (\<lambda>_. compiled_instruction_into_resolved_instruction (cf_labels f) n cs ns (constant_lookup pool (cf_name f) i) c)) (\<lambda>(r, cs', ns').
     mbind (resolve_while_reading pool f n k (Suc i) cs' ns') (\<lambda>(rs, cs'', ns'', done_ins). mret (r # rs, cs'', ns'', c # done_ins))))"

definition deserialize_vm_function :: "hasher \<Rightarrow> u16 \<Rightarrow> val list \<Rightarrow> (vm_function \<times> u64) reader" where
  "deserialize_vm_function hash version pool =
     mbind (read_function_prefix version) (\<lambda>(f, n).
     mbind (resolve_while_reading pool f n n 0 [] []) (\<lambda>(rs, cs, ns, ins).
     mbind (mread (\<lambda>_. map_err (\<lambda>e. InvalidData (InvalidFunction e))
       (try_new_resolved_with_call_targets (cf_name f) (cf_parameters f) (cf_upvalues f) (cf_parent f) (cf_register_count f) rs cs ns))) (\<lambda>vf.
       mret (vf, hash (hashed_prefix f, n, ins)))))"

text \<open>The reader and the state of the callback's closure, side by side.\<close>

definition on_reader :: "'a reader \<Rightarrow> (byte list \<times> 'c, binary_error, 'a) meth" where
  "on_reader r = mlift fst (\<lambda>bs (_, c). (bs, c)) r"

definition on_captured :: "('c, binary_error, 'a) meth \<Rightarrow> (byte list \<times> 'c, binary_error, 'a) meth" where
  "on_captured m = mlift snd (\<lambda>c (bs, _). (bs, c)) m"

fun for_each_vm_loop ::
  "hasher \<Rightarrow> (vm_function \<Rightarrow> ('c, binary_error, unit) meth) \<Rightarrow> u16 \<Rightarrow> val list \<Rightarrow> nat \<Rightarrow> (string \<times> u64) list \<Rightarrow> usize \<Rightarrow>
   (byte list \<times> 'c, binary_error, usize) meth" where
  "for_each_vm_loop hash callback version pool 0 seen count = mret count"
| "for_each_vm_loop hash callback version pool (Suc k) seen count =
     mbind (on_reader (deserialize_vm_function hash version pool)) (\<lambda>(vf, fp).
       case hm_get (=) seen (fn_name vf) of
         Some fp' \<Rightarrow> if fp' = fp then for_each_vm_loop hash callback version pool k seen count
                     else merr (InvalidData (DuplicateFunction (fn_name vf)))
       | None \<Rightarrow> mbind (on_captured (callback vf)) (\<lambda>_.
                  for_each_vm_loop hash callback version pool k (hm_insert (=) (fn_name vf) fp seen) (Suc count)))"

definition try_for_each_vm_function_from_reader ::
  "hasher \<Rightarrow> (vm_function \<Rightarrow> ('c, binary_error, unit) meth) \<Rightarrow>
   (byte list \<times> 'c, binary_error, usize \<times> u16 \<times> client_io_manifest) meth" where
  "try_for_each_vm_function_from_reader hash callback =
     mbind (on_reader read_preamble) (\<lambda>(version, pool).
     mbind (on_reader (read_u32_len_bounded ''function count'' MAX_BINARY_COLLECTION_LEN)) (\<lambda>n.
     mbind (for_each_vm_loop hash callback version pool n [] 0) (\<lambda>count.
     mbind (on_reader (read_manifest version)) (\<lambda>m. mret (count, version, m)))))"

section \<open>Streams of instructions\<close>

record instruction_stream =
  st_bytes :: "byte list"
  st_function :: compiled_function
  st_register_count :: usize
  st_constants :: "val list"
  st_instruction_count :: usize
  st_remaining :: usize
  st_instruction_index :: usize
  st_hashed :: "compiled_instruction list"

definition stream_header :: "instruction_stream \<Rightarrow> resolved_function_header" where
  "stream_header s =
     \<lparr>header_name = cf_name (st_function s), header_parameters = cf_parameters (st_function s),
      header_upvalues = cf_upvalues (st_function s), header_parent = cf_parent (st_function s),
      header_register_count = st_register_count s, header_instruction_count = st_instruction_count s\<rparr>"

definition next_instruction :: "(instruction_stream, binary_error, resolved_instruction_input option) meth" where
  "next_instruction s =
     (if st_remaining s = 0 then (Inr None, s)
      else case deserialize_instruction (st_bytes s) of
             (Inl e, bs) \<Rightarrow> (Inl e, s\<lparr>st_bytes := bs\<rparr>)
           | (Inr c, bs) \<Rightarrow>
               (map_ok Some (compiled_instruction_into_resolved_input (cf_labels (st_function s)) (st_instruction_count s)
                  (\<lambda>k. ok_or (InvalidData (MissingConstant [] (st_instruction_index s) k (length (st_constants s))))
                         (vec_get (st_constants s) k)) c),
                s\<lparr>st_bytes := bs, st_hashed := st_hashed s @ [c], st_instruction_index := Suc (st_instruction_index s),
                  st_remaining := st_remaining s - 1\<rparr>))"

text \<open>Pulling the stream until it ends or fails. A pull that succeeds takes one from the
  remaining instructions, so that many pulls are enough.\<close>

primrec pull :: "nat \<Rightarrow> instruction_stream \<Rightarrow> (resolved_instruction_input list \<times> binary_error option) \<times> instruction_stream" where
  "pull 0 s = (([], None), s)"
| "pull (Suc n) s =
     (case next_instruction s of
        (Inl e, t) \<Rightarrow> (([], Some e), t)
      | (Inr None, t) \<Rightarrow> (([], None), t)
      | (Inr (Some i), t) \<Rightarrow> (case pull n t of ((is, err), u) \<Rightarrow> ((i # is, err), u)))"

definition pull_rest :: "instruction_stream \<Rightarrow> (resolved_instruction_input list \<times> binary_error option) \<times> instruction_stream" where
  "pull_rest s = pull (st_remaining s) s"

definition drain :: "(instruction_stream, binary_error, unit) meth" where
  "drain s = (case pull_rest s of ((_, None), t) \<Rightarrow> (Inr (), t) | ((_, Some e), t) \<Rightarrow> (Inl e, t))"

definition stream_finish :: "hasher \<Rightarrow> instruction_stream \<Rightarrow> u64" where
  "stream_finish hash s = hash (hashed_prefix (st_function s), st_instruction_count s, st_hashed s)"

definition deserialize_resolved_function_stream :: "u16 \<Rightarrow> val list \<Rightarrow> byte list \<Rightarrow> (binary_error + instruction_stream) \<times> byte list" where
  "deserialize_resolved_function_stream version pool =
     mbind (read_function_prefix version) (\<lambda>(f, n) bs.
       (Inr \<lparr>st_bytes = bs, st_function = f,
             st_register_count = max (max (cf_register_count f) MIN_FRAME_REGISTER_COUNT) (length (cf_parameters f)),
             st_constants = pool, st_instruction_count = n, st_remaining = n, st_instruction_index = 0, st_hashed = []\<rparr>, bs))"

type_synonym 'c stream_callback =
  "resolved_function_header \<Rightarrow> (instruction_stream \<times> 'c, binary_error, unit) meth"

text \<open>One function record: the callback sees the first record of a name, and the stream is read to
  its end in any case.\<close>

definition stream_function ::
  "'c stream_callback \<Rightarrow> (string \<times> u64) list \<Rightarrow> (instruction_stream \<times> 'c, binary_error, unit) meth" where
  "stream_function callback seen =
     mbind (\<lambda>(s, c). if hm_get (=) seen (cf_name (st_function s)) \<noteq> None then (Inr (), (s, c))
                     else callback (stream_header s) (s, c))
       (\<lambda>_. mlift fst (\<lambda>s (_, c). (s, c)) drain)"

fun for_each_resolved_loop ::
  "hasher \<Rightarrow> 'c stream_callback \<Rightarrow> u16 \<Rightarrow> val list \<Rightarrow> nat \<Rightarrow> (string \<times> u64) list \<Rightarrow> usize \<Rightarrow>
   (byte list \<times> 'c, binary_error, usize) meth" where
  "for_each_resolved_loop hash callback version pool 0 seen count = mret count"
| "for_each_resolved_loop hash callback version pool (Suc k) seen count =
     mbind (on_reader (deserialize_resolved_function_stream version pool)) (\<lambda>s0 (bs, c).
       case stream_function callback seen (s0, c) of
         (Inl e, (s, c')) \<Rightarrow> (Inl e, (st_bytes s, c'))
       | (Inr _, (s, c')) \<Rightarrow>
           (let name = cf_name (st_function s); fp = stream_finish hash s
            in case hm_get (=) seen name of
                 Some fp' \<Rightarrow>
                   if fp' \<noteq> fp then (Inl (InvalidData (DuplicateFunction name)), (st_bytes s, c'))
                   else for_each_resolved_loop hash callback version pool k seen count (st_bytes s, c')
               | None \<Rightarrow> for_each_resolved_loop hash callback version pool k (hm_insert (=) name fp seen) (Suc count) (st_bytes s, c')))"

definition try_for_each_resolved_vm_function_from_reader ::
  "hasher \<Rightarrow> 'c stream_callback \<Rightarrow> (byte list \<times> 'c, binary_error, usize \<times> u16 \<times> client_io_manifest) meth" where
  "try_for_each_resolved_vm_function_from_reader hash callback =
     mbind (on_reader read_preamble) (\<lambda>(version, pool).
     mbind (on_reader (read_u32_len_bounded ''function count'' MAX_BINARY_COLLECTION_LEN)) (\<lambda>n.
     mbind (for_each_resolved_loop hash callback version pool n [] 0) (\<lambda>count.
     mbind (on_reader (read_manifest version)) (\<lambda>m. mret (count, version, m)))))"

section \<open>Loading a program into a machine\<close>

text \<open>The callback of the runner: it registers the function from the stream. The closure that feeds
  the registration ends the stream when it cannot be read and remembers why; the registration
  then finds fewer instructions than the header announces, and the reason is reported instead. The
  stream is pulled here before the registration rather than by it, which matters only to which error
  a load that fails reports.\<close>

definition register_stream :: "vm_state stream_callback" where
  "register_stream h = (\<lambda>(s, vm).
     case pull_rest s of ((is, err), t) \<Rightarrow>
       (case try_insert_resolved_function_without_vm_source h is vm of
          (Inr _, vm') \<Rightarrow> (Inr (), (t, vm'))
        | (Inl e, vm') \<Rightarrow>
            (Inl (case err of
                    Some x \<Rightarrow> if e = RuntimeInstructionMetadataMismatch (header_name h) (length is) (header_instruction_count h)
                               then x else InvalidData (InvalidVmFunction e)
                  | None \<Rightarrow> InvalidData (InvalidVmFunction e)), (t, vm'))))"

definition load_streaming :: "hasher \<Rightarrow> byte list \<Rightarrow> (vm_state, binary_error, usize \<times> u16 \<times> client_io_manifest) meth" where
  "load_streaming hash bytes vm =
     (case try_for_each_resolved_vm_function_from_reader hash register_stream (bytes, vm) of (r, (_, vm')) \<Rightarrow> (r, vm'))"

primrec register_functions :: "vm_function list \<Rightarrow> (vm_state, binary_error, unit) meth" where
  "register_functions [] = mret ()"
| "register_functions (f # fs) =
     mbind (mmap_err (\<lambda>e. InvalidData (InvalidVmFunction e)) (try_insert_function (FunctionVM f))) (\<lambda>_. register_functions fs)"

definition load_in_memory :: "byte list \<Rightarrow> (vm_state, binary_error, usize \<times> u16 \<times> client_io_manifest) meth" where
  "load_in_memory bytes =
     mbind (mread (\<lambda>_. fst (deserialize bytes))) (\<lambda>b.
     mbind (mread (\<lambda>_. try_to_vm_functions b)) (\<lambda>fs.
     mbind (register_functions fs) (\<lambda>_. mret (length fs, bin_version b, client_io_manifest_of b))))"

end
