(* ===== verification/Load_Equivalence.thy ===== *)
theory Load_Equivalence
  imports Binary_Loading
begin

text \<open>
  The two ways in which the runner loads a compiled program (\<open>stoffel-run.rs\<close>) agree: reading the
  whole binary, converting it to functions and registering them with their source, or streaming
  the file and lowering each function as its instructions are read. The proof goes function by
  function: the stream of a function consists of the inputs that its resolved form stands for,
  and the frame size it computes from the header and the referenced registers is the one that
  resolution computes.
\<close>

section \<open>Inputs of a stream\<close>

lemma compact_operand_unat: "compact_resolved_operand field (unat w) = Inr w"
  by (simp add: compact_resolved_operand_def u32_try_from_Some)

lemma label_resolves:
  "hm_get (=) ls l = Some (unat t) \<Longrightarrow> (\<And>l t. hm_get (=) ls l = Some t \<Longrightarrow> t \<le> n) \<Longrightarrow> resolve_compiled_label l ls n = Inr (unat t)"
  by (auto simp: resolve_compiled_label_def not_less)

lemma input_of_resolved:
  assumes "compiled_instruction_to_vm_instruction (constant_lookup pool name i) c = Inr x" "resolves_to ls cs ns x r"
    and "\<And>l t. hm_get (=) ls l = Some t \<Longrightarrow> t \<le> n"
  shows "compiled_instruction_into_resolved_input ls n (\<lambda>k. ok_or (e k) (vec_get pool k)) c = Inr (input_of cs ns r) \<and> call_index_ok ns r"
proof (cases "\<exists>d k. c = C_LDI d k")
  case True
  then show ?thesis using assms(1,2)
    by (auto simp: rbind_Inr_iff constant_lookup_def compact_operand_unat vec_get_Some_iff)
next
  case False
  have jump: "resolve_compiled_label l ls n = Inr (unat t)" if "hm_get (=) ls l = Some (unat t)" for l and t :: u32
    using that assms(3) by (rule label_resolves)
  show ?thesis using assms(1,2) False
    by (cases c) (auto simp: compact_operand_unat vec_get_Some_iff jump)
qed

text \<open>The inputs that a function yields when it is streamed.\<close>

definition yields :: "val list \<Rightarrow> (string \<times> usize) list \<Rightarrow> usize \<Rightarrow> compiled_instruction \<Rightarrow> resolved_instruction_input \<Rightarrow> bool" where
  "yields pool ls n c x = (\<forall>e. compiled_instruction_into_resolved_input ls n (\<lambda>k. ok_or (e k) (vec_get pool k)) c = Inr x)"

definition streams :: "val list \<Rightarrow> compiled_function \<Rightarrow> resolved_instruction_input list \<Rightarrow> bool" where
  "streams pool f is = list_all2 (yields pool (cf_labels f) (length (cf_instructions f))) (cf_instructions f) is"

lemma next_instruction_yields:
  assumes "st_remaining s = Suc k" "deserialize_instruction (st_bytes s) = (Inr c, bs)"
    and "yields (st_constants s) (cf_labels (st_function s)) (st_instruction_count s) c x"
  shows "next_instruction s = (Inr (Some x), s\<lparr>st_bytes := bs, st_hashed := st_hashed s @ [c],
    st_instruction_index := Suc (st_instruction_index s), st_remaining := k\<rparr>)"
  using assms unfolding next_instruction_def yields_def by simp

lemma pull_yields:
  assumes "read_times k deserialize_instruction (st_bytes s) = (Inr cins, rest)" "st_remaining s = k"
    and "list_all2 (yields (st_constants s) (cf_labels (st_function s)) (st_instruction_count s)) cins is"
  shows "pull k s = ((is, None), s\<lparr>st_bytes := rest, st_hashed := st_hashed s @ cins,
    st_instruction_index := st_instruction_index s + k, st_remaining := 0\<rparr>)"
  using assms
proof (induction k arbitrary: s cins "is")
  case 0
  then show ?case by (simp add: mret_def)
next
  case (Suc k)
  obtain c cins' bs where r: "deserialize_instruction (st_bytes s) = (Inr c, bs)"
      "read_times k deserialize_instruction bs = (Inr cins', rest)" "cins = c # cins'"
    using Suc.prems(1) by (auto simp: mbind_Inr_iff mret_def)
  then obtain x is' where x: "is = x # is'" "yields (st_constants s) (cf_labels (st_function s)) (st_instruction_count s) c x"
      "list_all2 (yields (st_constants s) (cf_labels (st_function s)) (st_instruction_count s)) cins' is'"
    using Suc.prems(3) by (auto simp: list_all2_Cons1)
  let ?t = "s\<lparr>st_bytes := bs, st_hashed := st_hashed s @ [c], st_instruction_index := Suc (st_instruction_index s), st_remaining := k\<rparr>"
  have "pull k ?t = ((is', None), ?t\<lparr>st_bytes := rest, st_hashed := st_hashed ?t @ cins',
      st_instruction_index := st_instruction_index ?t + k, st_remaining := 0\<rparr>)"
    by (rule Suc.IH) (use r x in simp_all)
  then show ?case using next_instruction_yields [OF Suc.prems(2) r(1) x(2)] r x by simp
qed

section \<open>Frame sizes\<close>

definition reach :: "u32 option \<Rightarrow> usize" where
  "reach m = (case m of None \<Rightarrow> 0 | Some r \<Rightarrow> unat r + 1)"

definition span :: "instruction list \<Rightarrow> usize" where
  "span is = foldr (\<lambda>i a. max (case max_referenced_register i of None \<Rightarrow> 0 | Some r \<Rightarrow> Suc r) a) is 0"

lemma unat_max: "unat (max a b :: 'a::len word) = max (unat a) (unat b)"
  by (simp add: max_def word_le_nat_alt)

lemma reach_max: "reach (max_optional a b) = max (reach a) (reach b)"
  by (cases a; cases b) (simp_all add: reach_def unat_max)

lemma referenced_span: "referenced_register_count name is = Inr n \<Longrightarrow> n = span is"
proof -
  let ?regs = "List.map_filter max_referenced_register is"
  have "span is = (if ?regs = [] then 0 else Suc (Max (set ?regs)))"
    by (induction "is") (auto simp: span_def List.map_filter_simps max_def split: option.splits)
  then show "referenced_register_count name is = Inr n \<Longrightarrow> n = span is"
    by (auto simp: referenced_register_count_def max_plus_one_def Let_def checked_add_usize_def split: if_splits)
qed

lemma input_reach:
  assumes "lower_instruction_input (input_of cs ns r) n s = (Inr (p, m), t)" "resolves_to ls cs ns i r"
  shows "reach m = (case max_referenced_register i of None \<Rightarrow> 0 | Some r \<Rightarrow> Suc r)"
  using assms by (cases i) (auto simp: mbind_Inr_iff mret_def mread_def reach_def unat_max)

lemma stream_loop_reach:
  assumes "stream_loop h (length rs) count (map (input_of cs ns) rs) m s = (Inr (ps, m', rest), t)"
    and "list_all2 (resolves_to ls cs ns) is rs"
  shows "reach m' = max (reach m) (span is)"
  using assms(2,1)
proof (induction arbitrary: count m s ps rule: list_all2_induct)
  case Nil
  then show ?case by (simp add: span_def mret_def)
next
  case (Cons i "is" r rs)
  obtain p k u ps' where u: "lower_instruction_input (input_of cs ns r) (header_instruction_count h) s = (Inr (p, k), u)"
      "stream_loop h (length rs) (Suc count) (map (input_of cs ns) rs) (max_optional m k) u = (Inr (ps', m', rest), t)"
    using Cons.prems by (auto simp: mbind_Inr_iff mret_def)
  show ?case using Cons.IH [OF u(2)] input_reach [OF u(1) Cons.hyps(1)] by (simp add: reach_max span_def)
qed

section \<open>One function\<close>

definition header_of :: "compiled_function \<Rightarrow> resolved_function_header" where
  "header_of f =
     \<lparr>header_name = cf_name f, header_parameters = cf_parameters f, header_upvalues = cf_upvalues f, header_parent = cf_parent f,
      header_register_count = max (max (cf_register_count f) MIN_FRAME_REGISTER_COUNT) (length (cf_parameters f)),
      header_instruction_count = length (cf_instructions f)\<rparr>"

fun erase_source :: "registered_function \<Rightarrow> registered_function" where
  "erase_source (RegisteredVm _ rt t) = RegisteredVm None rt t"
| "erase_source (RegisteredForeign n) = RegisteredForeign n"

lemma to_vm_instructions_each:
  "to_vm_instructions pool name i cins = Inr ins \<Longrightarrow>
   list_all2 (\<lambda>c x. \<exists>i. compiled_instruction_to_vm_instruction (constant_lookup pool name i) c = Inr x) cins ins"
  by (induction cins arbitrary: i ins) (auto simp: rbind_Inr_iff map_ok_Inr_iff)

lemma resolve_register_count:
  assumes "resolve_instructions f = (Inr (), g)" "resolved_instructions f = None"
  shows "try_frame_register_count f = Inr (register_count g)"
  using assms by (auto simp: resolve_instructions_def Let_def split: sum.splits if_splits)

lemma frame_span: "try_frame_register_count f = Inr n \<Longrightarrow>
  n = max (max (max (register_count f) MIN_FRAME_REGISTER_COUNT) (length (parameters f))) (span (instructions f))"
  by (auto simp: try_frame_register_count_def map_ok_Inr_iff dest: referenced_span)

lemma parameter_reach:
  assumes "m = Option.bind (checked_sub_usize k 1) u32_try_from"
  shows "reach m \<le> k" "k \<le> rc \<Longrightarrow> register_below rc m"
proof -
  have "unat r = k - 1 \<and> k \<ge> 1" if "m = Some r" for r
    using that by (auto simp: assms checked_sub_usize_def u32_try_from_Some split: if_splits)
  then show "reach m \<le> k" "k \<le> rc \<Longrightarrow> register_below rc m"
    by (cases m; fastforce simp: reach_def register_below_def)+
qed

lemma to_vm_function_Inr:
  assumes "try_compiled_function_to_vm_function pool f = Inr vf"
  shows "\<exists>ins n. to_vm_instructions pool (cf_name f) 0 (cf_instructions f) = Inr ins \<and>
    try_frame_register_count (vm_function_from_instructions f ins) = Inr n \<and>
    vf = (vm_function_from_instructions f ins)\<lparr>register_count := n\<rparr>"
proof -
  obtain ins where ins: "to_vm_instructions pool (cf_name f) 0 (cf_instructions f) = Inr ins"
    using assms by (auto simp: try_compiled_function_to_vm_function_def rbind_Inr_iff)
  obtain n where "try_frame_register_count (vm_function_from_instructions f ins) = Inr n"
    using assms ins by (cases "try_frame_register_count (vm_function_from_instructions f ins)")
      (auto simp: try_compiled_function_to_vm_function_def try_normalize_register_count_def)
  then show ?thesis using assms ins by (auto simp: try_compiled_function_to_vm_function_def try_normalize_register_count_def)
qed

lemma resolved_inputs:
  assumes "to_vm_instructions pool name 0 cins = Inr ins" "list_all2 (resolves_to ls cs ns) ins rs"
    and "\<And>l t. hm_get (=) ls l = Some t \<Longrightarrow> t \<le> n"
  shows "list_all2 (\<lambda>c r. yields pool ls n c (input_of cs ns r) \<and> call_index_ok ns r) cins rs"
proof (rule list_all2_trans [OF _ to_vm_instructions_each [OF assms(1)] assms(2)])
  fix c x r
  assume "\<exists>i. compiled_instruction_to_vm_instruction (constant_lookup pool name i) c = Inr x" and r: "resolves_to ls cs ns x r"
  then obtain i where i: "compiled_instruction_to_vm_instruction (constant_lookup pool name i) c = Inr x" by blast
  show "yields pool ls n c (input_of cs ns r) \<and> call_index_ok ns r"
    using input_of_resolved [OF i r assms(3)] by (simp add: yields_def)
qed

text \<open>Lowering the inputs of a resolved function, with the frame size that follows from them.\<close>

lemma stream_lowers:
  assumes l: "lower_all rc (Some cs) (Some ns) (length rs) rs interners_new = (Inr ps, u)"
    and calls: "list_all (call_index_ok ns) rs" and ins: "list_all2 (resolves_to ls cs ns) ins rs"
    and count: "header_instruction_count h = length rs" "rc = max (header_register_count h) (span ins)"
      "length (header_parameters h) \<le> header_register_count h"
  shows "from_resolved_instruction_input_stream h (map (input_of cs ns) rs) = Inr (finish_function ps u, rc)"
proof -
  let ?m = "Option.bind (checked_sub_usize (length (header_parameters h)) 1) u32_try_from"
  have m: "register_below rc ?m" "reach ?m \<le> header_register_count h"
    using parameter_reach [OF refl, of "length (header_parameters h)"] count by (auto intro: le_trans)
  then obtain m' where m': "stream_loop h (length rs) 0 (map (input_of cs ns) rs) ?m interners_new = (Inr (ps, m', []), u)"
    using stream_loop_same [of rc cs ns h rs interners_new ps u ?m 0] l calls count(1) by auto
  have "reach m' = max (reach ?m) (span ins)" by (rule stream_loop_reach [OF m' ins])
  then have "max (header_register_count h) (reach m') = rc" using m(2) count(2) by simp
  then show ?thesis using m' count(1) by (simp add: from_resolved_instruction_input_stream_def reach_def)
qed

lemma streamed_function:
  assumes vf: "try_compiled_function_to_vm_function pool f = Inr vf" and rf: "register_vm_function vf True = Inr rf"
  shows "fn_name vf = cf_name f \<and> (\<exists>is rt rc. streams pool f is \<and> from_resolved_instruction_input_stream (header_of f) is = Inr (rt, rc) \<and>
    erase_source rf = RegisteredVm None rt (target_from_resolved_header (header_of f) rc rt))"
proof -
  obtain ins n where ins: "to_vm_instructions pool (cf_name f) 0 (cf_instructions f) = Inr ins"
    and n: "try_frame_register_count (vm_function_from_instructions f ins) = Inr n"
    and vf': "vf = (vm_function_from_instructions f ins)\<lparr>register_count := n\<rparr>"
    using to_vm_function_Inr [OF vf] by blast
  have fields: "resolved_instructions vf = None" "instructions vf = ins" "labels vf = cf_labels f" "parameters vf = cf_parameters f"
    "fn_upvalues vf = cf_upvalues f" "fn_name vf = cf_name f" "register_count vf = n"
    by (simp_all add: vf' vm_function_from_instructions_def vm_function_new_def)
  obtain src t g where t: "rf = RegisteredVm src (ct_runtime t) t" "resolve_instructions vf = (Inr (), g)"
      "from_vm_function g = Inr (ct_runtime t)" "t = target_from_vm_function g (ct_runtime t)"
    using register_vm_function_Inr [OF rf fields(1)] by blast
  obtain rs cs ns where g: "g = vf\<lparr>register_count := register_count g, resolved_instructions := Some rs, constant_values := Some cs,
        call_target_names := Some ns\<rparr>" "list_all2 (resolves_to (labels vf) cs ns) (instructions vf) rs"
    using resolve_instructions_facts(1) [OF t(2) fields(1)] by blast
  have gf: "resolved_instructions g = Some rs" "constant_values g = Some cs" "call_target_names g = Some ns"
      "fn_name g = cf_name f" "parameters g = cf_parameters f" "fn_upvalues g = cf_upvalues f"
    by (subst g(1), simp add: fields)+
  have count: "register_count g = max (header_register_count (header_of f)) (span ins)"
    using frame_span [OF resolve_register_count [OF t(2) fields(1)]] frame_span [OF n]
    by (simp add: fields header_of_def vm_function_from_instructions_def vm_function_new_def)
  have bound: "i \<le> length (cf_instructions f)" if "hm_get (=) (cf_labels f) l = Some i" for l i
    using that resolve_instructions_facts(2) [OF t(2) fields(1)] list_all2_lengthD [OF to_vm_instructions_each [OF ins]]
    by (simp add: fields)
  have each: "list_all2 (\<lambda>c r. yields pool (cf_labels f) (length (cf_instructions f)) c (input_of cs ns r) \<and> call_index_ok ns r)
      (cf_instructions f) rs"
    by (rule resolved_inputs [OF ins g(2) [unfolded fields]]) (rule bound)
  have len: "length rs = length (cf_instructions f)" using list_all2_lengthD [OF each] by simp
  have calls: "list_all (call_index_ok ns) rs" using each by (auto simp: list_all2_conv_all_nth list_all_length)
  obtain ps u where l: "lower_all (register_count g) (Some cs) (Some ns) (length rs) rs interners_new = (Inr ps, u)"
    and rt: "ct_runtime t = finish_function ps u"
    using from_vm_function_Some [OF gf(1-3) t(3)] by blast
  have "from_resolved_instruction_input_stream (header_of f) (map (input_of cs ns) rs) = Inr (ct_runtime t, register_count g)"
    using stream_lowers [OF l calls g(2) [unfolded fields] _ count] len rt by (simp add: header_of_def)
  moreover have "streams pool f (map (input_of cs ns) rs)"
    using each by (auto simp: streams_def list_all2_map2 elim: list_all2_mono)
  moreover have "t = target_from_resolved_header (header_of f) (register_count g) (ct_runtime t)"
    by (subst t(4)) (simp add: target_from_vm_function_def target_from_resolved_header_def header_of_def gf)
  ultimately show ?thesis using t(1) fields(6) by (metis erase_source.simps(1))
qed

section \<open>Duplicates\<close>

text \<open>Equal functions have equal fingerprints, whatever the order of their labels.\<close>

definition fingerprint :: "hasher \<Rightarrow> compiled_function \<Rightarrow> u64" where
  "fingerprint hash f = hash (hashed_prefix (f\<lparr>cf_instructions := []\<rparr>), length (cf_instructions f), cf_instructions f)"

lemma hm_get_in_set: "hm_get (=) m k = Some v \<Longrightarrow> (k, v) \<in> set m"
  by (induction m) (auto split: if_splits)

lemma hm_get_None_fst: "hm_get (=) m k = None \<longleftrightarrow> k \<notin> fst ` set m"
  by (induction m) (auto split: if_splits)

lemma hm_distinct_fst: "hm_distinct (=) m \<longleftrightarrow> distinct (map fst m)"
  by (induction m) (force simp: hm_get_None_fst)+

lemma hm_equal_set:
  assumes "hm_equal m m'" "hm_distinct (=) m" "hm_distinct (=) m'"
  shows "set m = set m'"
proof (rule card_subset_eq)
  show "set m \<subseteq> set m'" using assms(1) by (auto simp: hm_equal_def list_all_iff dest!: hm_get_in_set)
  have "distinct m" "distinct m'" using assms(2,3) by (auto simp: hm_distinct_fst distinct_map)
  then show "card (set m) = card (set m')" using assms(1) by (simp add: hm_equal_def distinct_card)
qed simp

lemma hm_equal_sorted:
  assumes "hm_equal m m'" "hm_distinct (=) m" "hm_distinct (=) m'"
  shows "sort_key fst m = sort_key fst (m' :: (string \<times> 'v) list)"
proof (rule map_sorted_distinct_set_unique [where f = fst])
  have s: "set m = set m'" by (rule hm_equal_set [OF assms])
  have "inj_on fst (set m')" using assms(3) by (simp add: hm_distinct_fst distinct_map)
  then show "inj_on fst (set (sort_key fst m) \<union> set (sort_key fst m'))" by (simp add: s)
  show "distinct (map fst (sort_key fst m))" "distinct (map fst (sort_key fst m'))"
    using assms(2,3) by (auto simp: hm_distinct_fst distinct_map)
  show "set (sort_key fst m) = set (sort_key fst m')" by (simp add: s)
qed simp_all

lemma equal_functions:
  assumes "compiled_function_eq g f" "hm_distinct (=) (cf_labels g)" "hm_distinct (=) (cf_labels f)"
  shows "fingerprint hash g = fingerprint hash f" "cf_instructions g = cf_instructions f" "cf_name g = cf_name f"
    "set (cf_labels g) = set (cf_labels f)"
proof -
  have eq: "g\<lparr>cf_labels := []\<rparr> = f\<lparr>cf_labels := []\<rparr>" and l: "hm_equal (cf_labels g) (cf_labels f)"
    using assms(1) by (simp_all add: compiled_function_eq_def)
  show "cf_instructions g = cf_instructions f" "cf_name g = cf_name f"
    using arg_cong [OF eq, of cf_instructions] arg_cong [OF eq, of cf_name] by simp_all
  moreover have "hashed_prefix (g\<lparr>cf_instructions := []\<rparr>) = hashed_prefix (f\<lparr>cf_instructions := []\<rparr>)"
    using eq hm_equal_sorted [OF l assms(2,3)] by (cases g; cases f) (simp add: hashed_prefix_def)
  ultimately show "fingerprint hash g = fingerprint hash f" by (simp add: fingerprint_def)
  show "set (cf_labels g) = set (cf_labels f)" by (rule hm_equal_set [OF l assms(2,3)])
qed

section \<open>Reading the function table\<close>

lemma read_times_length: "read_times n r bs = (Inr xs, rest) \<Longrightarrow> length xs = n"
  by (induction n arbitrary: bs xs) (auto simp: mbind_Inr_iff mret_def)

lemma read_labels_distinct: "read_labels n ls bs = (Inr ls', rest) \<Longrightarrow> hm_distinct (=) ls \<Longrightarrow> hm_distinct (=) ls'"
  by (induction n arbitrary: ls bs) (auto simp: mbind_Inr_iff mret_def dest: heq.insert_distinct)

lemma read_function_prefix_facts:
  "read_function_prefix v bs = (Inr (f, n), rest) \<Longrightarrow> hm_distinct (=) (cf_labels f) \<and> cf_instructions f = []"
  unfolding read_function_prefix_def
  by (auto simp: mbind_Inr_iff mret_def split: prod.splits dest!: read_labels_distinct)

lemma deserialize_function_Inr:
  assumes "deserialize_function v bs = (Inr f, rest)"
  shows "\<exists>f0 mid. read_function_prefix v bs = (Inr (f0, length (cf_instructions f)), mid) \<and>
    read_times (length (cf_instructions f)) deserialize_instruction mid = (Inr (cf_instructions f), rest) \<and>
    f0 = f\<lparr>cf_instructions := []\<rparr> \<and> hm_distinct (=) (cf_labels f)"
proof -
  obtain f0 n mid cins where p: "read_function_prefix v bs = (Inr (f0, n), mid)"
      "read_times n deserialize_instruction mid = (Inr cins, rest)" "f = f0\<lparr>cf_instructions := cins\<rparr>"
    using assms by (auto simp: deserialize_function_def mbind_Inr_iff mret_def)
  have "n = length (cf_instructions f)" using read_times_length [OF p(2)] p(3) by simp
  then show ?thesis using p read_function_prefix_facts [OF p(1)] by (cases f0) auto
qed

definition stream_of :: "val list \<Rightarrow> compiled_function \<Rightarrow> byte list \<Rightarrow> instruction_stream" where
  "stream_of pool f bs =
     \<lparr>st_bytes = bs, st_function = f\<lparr>cf_instructions := []\<rparr>,
      st_register_count = max (max (cf_register_count f) MIN_FRAME_REGISTER_COUNT) (length (cf_parameters f)),
      st_constants = pool, st_instruction_count = length (cf_instructions f), st_remaining = length (cf_instructions f),
      st_instruction_index = 0, st_hashed = []\<rparr>"

definition drained :: "val list \<Rightarrow> compiled_function \<Rightarrow> byte list \<Rightarrow> instruction_stream" where
  "drained pool f rest = (stream_of pool f rest)\<lparr>st_hashed := cf_instructions f,
     st_instruction_index := length (cf_instructions f), st_remaining := 0\<rparr>"

lemma pull_rest_stream:
  assumes "read_times (length (cf_instructions f)) deserialize_instruction mid = (Inr (cf_instructions f), rest)" "streams pool f is"
  shows "pull_rest (stream_of pool f mid) = ((is, None), drained pool f rest)"
  using pull_yields [of "length (cf_instructions f)" "stream_of pool f mid" "cf_instructions f" rest "is"] assms
  by (simp add: pull_rest_def stream_of_def drained_def streams_def)

lemma drain_drained: "drain (drained pool f rest) = (Inr (), drained pool f rest)"
  by (simp add: drain_def pull_rest_def drained_def)

lemma stream_facts:
  "stream_header (stream_of pool f bs) = header_of f" "cf_name (st_function (stream_of pool f bs)) = cf_name f"
  "cf_name (st_function (drained pool f bs)) = cf_name f" "st_bytes (drained pool f bs) = bs"
  "stream_finish hash (drained pool f bs) = fingerprint hash f"
  by (simp_all add: stream_header_def stream_of_def drained_def header_of_def stream_finish_def fingerprint_def)

lemma deserialize_stream:
  assumes "deserialize_function v bs = (Inr f, rest)"
  shows "\<exists>mid. deserialize_resolved_function_stream v pool bs = (Inr (stream_of pool f mid), mid) \<and>
    read_times (length (cf_instructions f)) deserialize_instruction mid = (Inr (cf_instructions f), rest) \<and> hm_distinct (=) (cf_labels f)"
  using deserialize_function_Inr [OF assms]
  by (auto simp: deserialize_resolved_function_stream_def mbind_def stream_of_def)

section \<open>Registration\<close>

definition without_source :: "program \<Rightarrow> program" where
  "without_source p = p\<lparr>program_functions := map (map_prod id erase_source) (program_functions p)\<rparr>"

definition forget_source :: "vm_state \<Rightarrow> vm_state" where
  "forget_source vm = vm\<lparr>vm_program := without_source (vm_program vm)\<rparr>"

lemma hm_get_map: "hm_get (=) (map (map_prod id g) m) k = map_option g (hm_get (=) m k)"
  by (induction m) auto

lemma hm_insert_map: "map (map_prod id g) (hm_insert (=) k v m) = hm_insert (=) k (g v) (map (map_prod id g) m)"
  by (induction m) auto

lemma without_source_lookups:
  "program_call_target (without_source p) name = program_call_target p name"
  "program_runtime_function (without_source p) name = program_runtime_function p name"
  "foreign_function (without_source p) name = foreign_function p name"
proof -
  have "(case erase_source f of RegisteredVm _ rt t \<Rightarrow> g rt t | RegisteredForeign k \<Rightarrow> h k) =
      (case f of RegisteredVm _ rt t \<Rightarrow> g rt t | RegisteredForeign k \<Rightarrow> h k)" for f and g :: "_ \<Rightarrow> _ \<Rightarrow> 'z" and h
    by (cases f) simp_all
  then show "program_call_target (without_source p) name = program_call_target p name"
    "program_runtime_function (without_source p) name = program_runtime_function p name"
    "foreign_function (without_source p) name = foreign_function p name"
    by (auto simp: program_call_target_def program_runtime_function_def foreign_function_def without_source_def hm_get_map
        split: option.splits registered_function.splits)
qed

lemma registration_agrees:
  assumes same: "forget_source vma = forget_source vmb"
    and run: "try_insert_function (FunctionVM vf) vma = (Inr (), vma')"
    and name: "fn_name vf = header_name h"
    and reg: "\<And>rf. register_vm_function vf True = Inr rf \<Longrightarrow> from_resolved_instruction_input_stream h is = Inr (rt, rc) \<and>
      erase_source rf = RegisteredVm None rt (target_from_resolved_header h rc rt)"
  shows "\<exists>vmb'. try_insert_resolved_function_without_vm_source h is vmb = (Inr (), vmb') \<and> forget_source vma' = forget_source vmb'"
proof -
  obtain q where q: "try_insert_with_source_retention (FunctionVM vf) True (vm_program vma) = (Inr (), q)"
    and vma': "vma' = vma\<lparr>vm_program := q, last_call_target := None\<rparr>"
    using run by (auto simp: try_insert_function_def try_insert_def on_program_def forget_call_target_def mbind_Inr_iff mlift_Inr_iff mmodify_def)
  obtain rf where rf: "register_vm_function vf True = Inr rf" "hm_get (=) (program_functions (vm_program vma)) (fn_name vf) = None"
    and q': "q = (vm_program vma)\<lparr>program_functions := hm_insert (=) (fn_name vf) rf (program_functions (vm_program vma))\<rparr>"
    using q by (auto simp: try_insert_with_source_retention_def Let_def split: if_splits sum.splits)
  have progs: "without_source (vm_program vma) = without_source (vm_program vmb)"
    using arg_cong [OF same, of vm_program] by (simp add: forget_source_def)
  have maps: "map (map_prod id erase_source) (program_functions (vm_program vma)) = map (map_prod id erase_source) (program_functions (vm_program vmb))"
    using arg_cong [OF progs, of program_functions] by (simp add: without_source_def)
  have "map_option erase_source (hm_get (=) (program_functions (vm_program vmb)) (fn_name vf)) = None"
    using rf(2) by (simp add: maps flip: hm_get_map) (simp add: hm_get_map flip: maps)
  then have "hm_get (=) (program_functions (vm_program vmb)) (header_name h) = None" using name by simp
  then have run': "try_insert_resolved_function_without_vm_source h is vmb = (Inr (), vmb\<lparr>vm_program := (vm_program vmb)
      \<lparr>program_functions := hm_insert (=) (header_name h) (RegisteredVm None rt (target_from_resolved_header h rc rt)) (program_functions (vm_program vmb))\<rparr>,
      last_call_target := None\<rparr>)" (is "_ = (_, ?vmb)")
    using reg [OF rf(1)] by (simp add: try_insert_resolved_function_without_vm_source_def on_program_def forget_call_target_def
        mbind_def mlift_def mmodify_def try_insert_resolved_without_vm_source_def)
  have "without_source q = without_source (vm_program ?vmb)"
    using progs maps reg [OF rf(1)] name by (cases "vm_program vma"; cases "vm_program vmb") (simp add: q' without_source_def hm_insert_map)
  then have "forget_source vma' = forget_source ?vmb"
    using same by (cases vma; cases vmb) (simp add: vma' forget_source_def)
  then show ?thesis using run' by blast
qed

section \<open>The loop over the functions\<close>

lemma hm_get_distinct: "hm_distinct (=) m \<Longrightarrow> hm_get (=) m k = Some v \<longleftrightarrow> (k, v) \<in> set m"
  by (induction m) (force simp: hm_get_None_fst split: if_splits)+

lemma hm_get_set_eq: "hm_distinct (=) m \<Longrightarrow> hm_distinct (=) m' \<Longrightarrow> set m = set m' \<Longrightarrow> hm_get (=) m k = hm_get (=) m' k"
  by (metis hm_get_distinct not_None_eq)

lemma yields_cong: "(\<And>l. hm_get (=) ls l = hm_get (=) ls' l) \<Longrightarrow> yields pool ls n c x = yields pool ls' n c x"
  unfolding yields_def by (cases c) (simp_all add: resolve_compiled_label_def)

lemma duplicate_streams:
  assumes "compiled_function_eq g f" "hm_distinct (=) (cf_labels g)" "hm_distinct (=) (cf_labels f)" "streams pool g is"
  shows "streams pool f is"
proof -
  have "yields pool (cf_labels g) n = yields pool (cf_labels f) n" for n
    by (intro ext yields_cong hm_get_set_eq [OF assms(2,3) equal_functions(4) [OF assms(1-3)]])
  then show ?thesis using assms(4) equal_functions(2) [OF assms(1-3)] by (simp add: streams_def)
qed

text \<open>What the streaming loader remembers of the functions that the in-memory loader has kept.\<close>

definition seen_agrees :: "hasher \<Rightarrow> val list \<Rightarrow> (string \<times> compiled_function) list \<Rightarrow> (string \<times> u64) list \<Rightarrow> bool" where
  "seen_agrees hash pool seen fps =
     (\<forall>name. hm_get (=) fps name = map_option (fingerprint hash) (hm_get (=) seen name) \<and>
        (\<forall>g. hm_get (=) seen name = Some g \<longrightarrow> hm_distinct (=) (cf_labels g) \<and> (\<exists>is. streams pool g is)))"

lemma seen_agrees_insert:
  assumes "seen_agrees hash pool seen fps" "hm_distinct (=) (cf_labels f)" "streams pool f is"
  shows "seen_agrees hash pool (hm_insert (=) (cf_name f) f seen) (hm_insert (=) (cf_name f) (fingerprint hash f) fps)"
  using assms by (auto simp: seen_agrees_def heq.get_insert)

lemma stream_new:
  assumes "read_times (length (cf_instructions f)) deserialize_instruction mid = (Inr (cf_instructions f), rest)" "streams pool f is"
    and "hm_get (=) fps (cf_name f) = None" "try_insert_resolved_function_without_vm_source (header_of f) is vm = (Inr (), vm')"
  shows "stream_function register_stream fps (stream_of pool f mid, vm) = (Inr (), (drained pool f rest, vm'))"
  using assms pull_rest_stream [OF assms(1,2)]
  by (simp add: stream_function_def mbind_def stream_facts register_stream_def mlift_def drain_drained)

lemma stream_duplicate:
  assumes "read_times (length (cf_instructions f)) deserialize_instruction mid = (Inr (cf_instructions f), rest)" "streams pool f is"
    and "hm_get (=) fps (cf_name f) = Some fp"
  shows "stream_function register_stream fps (stream_of pool f mid, vm) = (Inr (), (drained pool f rest, vm))"
  using assms pull_rest_stream [OF assms(1,2)]
  by (simp add: stream_function_def mbind_def stream_facts mlift_def drain_def)

lemma streaming_loop:
  assumes "read_times n (deserialize_function v) bs = (Inr fs, rest)" "to_vm_loop pool fs seen = Inr vfs"
    and "register_functions vfs vma = (Inr (), vma')" "forget_source vma = forget_source vmb" "seen_agrees hash pool seen fps"
  shows "\<exists>vmb'. for_each_resolved_loop hash register_stream v pool n fps count (bs, vmb) = (Inr (count + length vfs), (rest, vmb')) \<and>
    forget_source vma' = forget_source vmb'"
  using assms
proof (induction n arbitrary: bs fs seen vfs vma vmb fps count)
  case 0
  then show ?case by (auto simp: mret_def)
next
  case (Suc n)
  obtain f fs' bs' where f: "deserialize_function v bs = (Inr f, bs')" "read_times n (deserialize_function v) bs' = (Inr fs', rest)" "fs = f # fs'"
    using Suc.prems(1) by (auto simp: mbind_Inr_iff mret_def)
  obtain mid where mid: "deserialize_resolved_function_stream v pool bs = (Inr (stream_of pool f mid), mid)"
      "read_times (length (cf_instructions f)) deserialize_instruction mid = (Inr (cf_instructions f), bs')" "hm_distinct (=) (cf_labels f)"
    using deserialize_stream [OF f(1)] by blast
  show ?case
  proof (cases "hm_get (=) seen (cf_name f)")
    case (Some g)
    then have eq: "compiled_function_eq g f" and loop: "to_vm_loop pool fs' seen = Inr vfs"
      using Suc.prems(2) f(3) by (auto split: if_splits)
    obtain "is" where g: "hm_distinct (=) (cf_labels g)" "streams pool g is" "hm_get (=) fps (cf_name f) = Some (fingerprint hash g)"
      using Suc.prems(5) Some unfolding seen_agrees_def by (metis option.map(2))
    note dup = stream_duplicate [OF mid(2) duplicate_streams [OF eq g(1) mid(3) g(2)] g(3)]
    obtain vmb' where "for_each_resolved_loop hash register_stream v pool n fps count (bs', vmb) = (Inr (count + length vfs), (rest, vmb'))"
        "forget_source vma' = forget_source vmb'"
      using Suc.IH [OF f(2) loop Suc.prems(3-5)] by blast
    then show ?thesis
      using mid(1) dup g(3) equal_functions(1) [OF eq g(1) mid(3)]
      by (simp add: mbind_def on_reader_def mlift_def Let_def stream_facts)
  next
    case None
    then obtain vf vfs' where vf: "try_compiled_function_to_vm_function pool f = Inr vf"
        "to_vm_loop pool fs' (hm_insert (=) (cf_name f) f seen) = Inr vfs'" "vfs = vf # vfs'"
      using Suc.prems(2) f(3) by (auto simp: rbind_Inr_iff map_ok_Inr_iff)
    obtain vma1 where reg: "try_insert_function (FunctionVM vf) vma = (Inr (), vma1)" "register_functions vfs' vma1 = (Inr (), vma')"
      using Suc.prems(3) vf(3) by (auto simp: mbind_Inr_iff mmap_err_Inr_iff)
    obtain rf where "register_vm_function vf True = Inr rf"
      using reg(1) by (auto simp: try_insert_function_def try_insert_def on_program_def mbind_Inr_iff mlift_Inr_iff dest!: insert_call_target)
    note one = streamed_function [OF vf(1) this]
    then obtain "is" rt rc where st: "streams pool f is" "from_resolved_instruction_input_stream (header_of f) is = Inr (rt, rc)"
        "erase_source rf = RegisteredVm None rt (target_from_resolved_header (header_of f) rc rt)" by blast
    have "fn_name vf = header_name (header_of f)" using one by (simp add: header_of_def)
    then obtain vmb1 where vmb1: "try_insert_resolved_function_without_vm_source (header_of f) is vmb = (Inr (), vmb1)"
        "forget_source vma1 = forget_source vmb1"
      using registration_agrees [OF Suc.prems(4) reg(1), of "header_of f" "is" rt rc] st \<open>register_vm_function vf True = Inr rf\<close> by auto
    have new: "hm_get (=) fps (cf_name f) = None" using Suc.prems(5) None by (simp add: seen_agrees_def)
    obtain vmb' where "for_each_resolved_loop hash register_stream v pool n (hm_insert (=) (cf_name f) (fingerprint hash f) fps) (Suc count) (bs', vmb1) =
        (Inr (Suc count + length vfs'), (rest, vmb'))" "forget_source vma' = forget_source vmb'"
      using Suc.IH [OF f(2) vf(2) reg(2) vmb1(2) seen_agrees_insert [OF Suc.prems(5) mid(3) st(1)]] by blast
    then show ?thesis
      using mid(1) stream_new [OF mid(2) st(1) new vmb1(1)] new vf(3)
      by (simp add: mbind_def on_reader_def mlift_def Let_def stream_facts)
  qed
qed

end
