(* ===== verification/Binary_Roundtrip.thy ===== *)
theory Binary_Roundtrip
  imports Binary_Format
begin

text \<open>
  The round trip of the compiled binary: exactly which binaries \<open>serialize\<close> accepts, and that
  \<open>deserialize\<close> reads back what it wrote, up to the metadata that an older format version does
  not store.
\<close>

section \<open>What a reader accepts\<close>

text \<open>Rust strings are valid UTF-8, bit widths are checked by the reader, and the reader bounds
  the lengths it allocates for.\<close>

fun value_ok :: "val \<Rightarrow> bool" where
  "value_ok (String s) = (str_ok s \<and> length s \<le> MAX_BINARY_STRING_BYTES)"
| "value_ok _ = True"

fun type_ok :: "function_type \<Rightarrow> bool" where
  "type_ok (T_Int _ bits) = (bits \<noteq> 0)"
| "type_ok (T_Fixed bits) = (bits \<noteq> 0)"
| "type_ok (T_Secret t) = type_ok t"
| "type_ok (T_List t) = type_ok t"
| "type_ok (T_Dict k v) = (type_ok k \<and> type_ok v)"
| "type_ok (T_Object n) = str_ok n"
| "type_ok (T_Generic n ps) = (str_ok n \<and> list_all type_ok ps)"
| "type_ok (T_TypeVar n) = str_ok n"
| "type_ok _ = True"

fun instr_ok :: "compiled_instruction \<Rightarrow> bool" where
  "instr_ok (C_JMP l) = str_ok l"
| "instr_ok (C_JMPEQ l) = str_ok l"
| "instr_ok (C_JMPNEQ l) = str_ok l"
| "instr_ok (C_JMPLT l) = str_ok l"
| "instr_ok (C_JMPGT l) = str_ok l"
| "instr_ok (C_CALL f) = str_ok f"
| "instr_ok _ = True"

definition function_ok :: "compiled_function \<Rightarrow> bool" where
  "function_ok f = (str_ok (cf_name f) \<and> list_all str_ok (cf_parameters f) \<and> list_all type_ok (cf_parameter_types f) \<and>
     type_ok (cf_return_type f) \<and> list_all str_ok (cf_upvalues f) \<and> (\<forall>p. cf_parent f = Some p \<longrightarrow> str_ok p) \<and>
     hm_distinct (=) (cf_labels f) \<and> list_all (\<lambda>(l, _). str_ok l) (cf_labels f) \<and>
     list_all instr_ok (cf_instructions f) \<and> length (cf_instructions f) \<le> MAX_INSTRUCTION_COUNT)"

definition client_ok :: "client_io_schema \<Rightarrow> bool" where
  "client_ok c = (list_all share_type_ok (schema_inputs c) \<and> list_all share_type_ok (schema_outputs c) \<and>
     length (schema_inputs c) \<le> MAX_BINARY_COLLECTION_LEN \<and> length (schema_outputs c) \<le> MAX_BINARY_COLLECTION_LEN)"

definition binary_ok :: "compiled_binary \<Rightarrow> bool" where
  "binary_ok b = (bin_version b \<le> FORMAT_VERSION \<and>
     list_all value_ok (bin_constants b) \<and> length (bin_constants b) \<le> MAX_BINARY_COLLECTION_LEN \<and>
     list_all function_ok (bin_functions b) \<and> length (bin_functions b) \<le> MAX_BINARY_COLLECTION_LEN \<and>
     list_all client_ok (manifest_clients (client_io_manifest_of b)) \<and>
     length (manifest_clients (client_io_manifest_of b)) \<le> MAX_BINARY_COLLECTION_LEN)"

text \<open>What is left of the metadata after storing at a version.\<close>

definition stored_function :: "u16 \<Rightarrow> compiled_function \<Rightarrow> compiled_function" where
  "stored_function v f =
     (if v \<ge> FUNCTION_TYPE_METADATA_FORMAT_VERSION then f\<lparr>cf_parameter_types := normalized_parameter_types f\<rparr>
      else f\<lparr>cf_parameter_types := replicate (length (cf_parameters f)) T_Unknown, cf_return_type := T_Unknown\<rparr>)"

definition stored_manifest :: "u16 \<Rightarrow> client_io_manifest \<Rightarrow> client_io_manifest" where
  "stored_manifest v m =
     (if v \<ge> CLIENT_IO_MANIFEST_FORMAT_VERSION
      then \<lparr>manifest_backend = (if v \<ge> MPC_BACKEND_MANIFEST_FORMAT_VERSION then manifest_backend m else HoneyBadger),
            manifest_curve = (if v \<ge> MPC_CURVE_MANIFEST_FORMAT_VERSION then manifest_curve m else Bls12_381),
            manifest_clients = manifest_clients m,
            preprocessing_demand_of =
              (if v \<ge> PREPROCESSING_DEMAND_MANIFEST_FORMAT_VERSION then preprocessing_demand_of m else default_demand)\<rparr>
      else default_manifest)"

definition stored_binary :: "compiled_binary \<Rightarrow> compiled_binary" where
  "stored_binary b = b\<lparr>bin_functions := map (stored_function (bin_version b)) (bin_functions b),
     client_io_manifest_of := stored_manifest (bin_version b) (client_io_manifest_of b)\<rparr>"

section \<open>Round trips of the parts\<close>

lemma mbind_ret: "mbind (mret x) f = f x"
  by (rule ext) simp

lemma mbind_case_prod: "mbind (case p of (a, b) \<Rightarrow> m a b) f = (case p of (a, b) \<Rightarrow> mbind (m a b) f)"
  by (cases p) simp

lemma roundtrips_merr: "roundtrips (merr e) r x"
  by (simp add: roundtrips_def merr_def)

lemmas roundtrips_tagged = roundtrips_bind [OF roundtrips_u8]
lemmas roundtrips_tag = roundtrips_bind_pure [OF roundtrips_u8]

lemma roundtrips_backend: "roundtrips (serialize_mpc_backend b) deserialize_mpc_backend b"
  unfolding deserialize_mpc_backend_def by (cases b) (auto intro!: roundtrips_tag)

lemma roundtrips_curve: "roundtrips (serialize_mpc_curve c) deserialize_mpc_curve c"
  unfolding deserialize_mpc_curve_def by (cases c) (auto intro!: roundtrips_tag)

lemma share_metadata_ok: "share_metadata what (Inr x) = mret x"
  by (rule ext) (simp add: share_metadata_def mread_def mret_def)

lemma roundtrips_share_type: "share_type_ok t \<Longrightarrow> roundtrips (serialize_share_type t) deserialize_share_type t"
proof (cases t)
  case (SecretFixedPoint p)
  assume ok: "share_type_ok t"
  then have p: "FixedPointPrecision_try_new (total_bits p) (fractional_bits p) = Inr p"
    using SecretFixedPoint by (simp add: FixedPointPrecision_try_new_def)
  show ?thesis unfolding SecretFixedPoint serialize_share_type.simps deserialize_share_type_def
    by (rule roundtrips_tagged) (auto simp: p share_metadata_ok mbind_def mret_def
      intro!: roundtrips_bind [OF roundtrips_usize_u32] roundtrips_bind_pure [OF roundtrips_usize_u32])
qed (auto simp: deserialize_share_type_def try_secret_int_def try_secret_uint_def share_metadata_ok
    intro!: roundtrips_tagged roundtrips_bind_pure [OF roundtrips_usize_u32])

interpretation share_type_codec: codec serialize_share_type deserialize_share_type share_type_ok
  by unfold_locales (rule roundtrips_share_type)

lemma roundtrips_client: "client_ok c \<Longrightarrow> roundtrips (serialize_client c) deserialize_client c"
  unfolding serialize_client_def deserialize_client_def client_ok_def
  by (intro roundtrips_bind [OF roundtrips_u64] roundtrips_bind [OF roundtrips_len_bounded]
      roundtrips_bind [OF share_type_codec.list_roundtrip] roundtrips_bind_pure [OF share_type_codec.list_roundtrip])
    (auto intro: arg_cong [where f = mret])

interpretation client_codec: codec serialize_client deserialize_client client_ok
  by unfold_locales (rule roundtrips_client)

lemma roundtrips_demand: "roundtrips (serialize_demand d) deserialize_demand d"
  unfolding serialize_demand_def deserialize_demand_def
  by (intro roundtrips_bind [OF roundtrips_u64] roundtrips_bind_pure [OF roundtrips_u8])
    (auto intro: arg_cong [where f = mret])

lemma roundtrips_optional:
  "roundtrips w r x \<Longrightarrow> roundtrips (if b then w else mret ()) (if b then r else mret d) (if b then x else d)"
  by (simp add: roundtrips_ret)

lemma roundtrips_manifest:
  assumes "list_all client_ok (manifest_clients m)" "length (manifest_clients m) \<le> MAX_BINARY_COLLECTION_LEN"
  shows "roundtrips (serialize_client_io_manifest m b c d) (deserialize_client_io_manifest b c d)
    \<lparr>manifest_backend = (if b then manifest_backend m else HoneyBadger), manifest_curve = (if c then manifest_curve m else Bls12_381),
     manifest_clients = manifest_clients m, preprocessing_demand_of = (if d then preprocessing_demand_of m else default_demand)\<rparr>"
  unfolding serialize_client_io_manifest_def deserialize_client_io_manifest_def
  by (intro roundtrips_bind [OF roundtrips_optional [OF roundtrips_backend]]
      roundtrips_bind [OF roundtrips_optional [OF roundtrips_curve]] roundtrips_bind [OF roundtrips_len_bounded]
      roundtrips_bind [OF client_codec.list_roundtrip] roundtrips_map [OF roundtrips_optional [OF roundtrips_demand]] assms refl)

lemma roundtrips_value: "value_ok v \<Longrightarrow> roundtrips (serialize_value v) deserialize_value v"
  unfolding deserialize_value_def
  by (cases v) (auto intro!: roundtrips_merr roundtrips_tag roundtrips_tagged roundtrips_map [OF roundtrips_word] roundtrips_map [OF roundtrips_u8]
        roundtrips_bind_pure [OF roundtrips_u8] roundtrips_map [OF roundtrips_str_u32])

interpretation value_codec: codec serialize_value deserialize_value value_ok
  by unfold_locales (rule roundtrips_value)

lemma roundtrips_type: "type_ok t \<Longrightarrow> roundtrips (serialize_function_type t) deserialize_function_type t"
proof (induction t)
  case (T_Int sg bits)
  have "roundtrips (write_all [if sg then 1 else 0, bits]) (read_exact 2) [if sg then 1 else 0, bits]"
    by (rule roundtrips_write_all) simp
  then show ?case using T_Int unfolding serialize_function_type.simps
    by (subst deserialize_function_type_rec, unfold function_type_body_def)
      (auto intro!: roundtrips_tagged elim!: roundtrips_bind_pure)
next
  case (T_Generic n ps)
  have "roundtrips (write_each serialize_function_type ps) (read_times (length ps) deserialize_function_type) ps"
    using roundtrips_each [of ps serialize_function_type deserialize_function_type "\<lambda>t. t"] T_Generic by (simp add: list_all_iff)
  then show ?case using T_Generic unfolding serialize_function_type.simps
    by (subst deserialize_function_type_rec, unfold function_type_body_def)
      (auto intro!: roundtrips_tagged roundtrips_bind [OF roundtrips_str_u16] roundtrips_bind [OF roundtrips_usize_u16]
        elim!: roundtrips_bind_pure)
qed (subst deserialize_function_type_rec, unfold function_type_body_def serialize_function_type.simps;
  auto intro!: roundtrips_tagged roundtrips_tag roundtrips_str_u16 roundtrips_bind_pure [OF roundtrips_u8]
    roundtrips_map roundtrips_bind [where r = deserialize_function_type])+

interpretation type_codec: codec serialize_function_type deserialize_function_type type_ok
  by unfold_locales (rule roundtrips_type)

lemma write_operands_simps:
  "write_operands [x] = write_usize_as_u32 (fst x) (snd x)"
  "write_operands (x # y # xs) = mbind (write_usize_as_u32 (fst x) (snd x)) (\<lambda>_. write_operands (y # xs))"
  by (auto simp: write_operands_def mbind_def mret_def split: prod.splits sum.splits)

lemma roundtrips_operands:
  "roundtrips (write_operands [(a, fa)]) (read_operands1 c1) (c1 a)"
  "roundtrips (write_operands [(a, fa), (b, fb)]) (read_operands2 c2) (c2 a b)"
  "roundtrips (write_operands [(a, fa), (b, fb), (c, fc)]) (read_operands3 c3) (c3 a b c)"
  unfolding write_operands_simps read_operands1_def read_operands2_def read_operands3_def fst_conv snd_conv
  by (intro roundtrips_bind [OF roundtrips_usize_u32] roundtrips_map [OF roundtrips_usize_u32])+

lemma roundtrips_instruction: "instr_ok i \<Longrightarrow> roundtrips (serialize_instruction i) deserialize_instruction i"
  unfolding deserialize_instruction_def
  by (cases i) (auto intro!: roundtrips_tag roundtrips_tagged roundtrips_operands roundtrips_map [OF roundtrips_str_u16]
      roundtrips_bind [OF roundtrips_usize_u32] roundtrips_map [OF roundtrips_word])

interpretation instruction_codec: codec serialize_instruction deserialize_instruction instr_ok
  by unfold_locales (rule roundtrips_instruction)

lemma list_all_resize: "list_all P xs \<Longrightarrow> P d \<Longrightarrow> list_all P (resize_to d xs n)"
  by (auto simp: resize_to_def list_all_iff dest: in_set_takeD)

lemma roundtrips_type_metadata:
  assumes "function_ok f"
  shows "roundtrips (serialize_type_metadata v f) (deserialize_type_metadata v name (cf_parameters f))
    (cf_parameter_types (stored_function v f), cf_return_type (stored_function v f))"
proof (cases "v \<ge> FUNCTION_TYPE_METADATA_FORMAT_VERSION")
  case True
  have "list_all type_ok (normalized_parameter_types f)" "length (normalized_parameter_types f) = length (cf_parameters f)"
    "type_ok (cf_return_type f)"
    using assms by (auto simp: function_ok_def normalized_parameter_types_def intro!: list_all_resize)
  then show ?thesis
    using True unfolding serialize_type_metadata_def deserialize_type_metadata_def stored_function_def
    by (auto intro!: roundtrips_bind [OF roundtrips_usize_u16] roundtrips_bind [OF type_codec.list_roundtrip]
      roundtrips_map [OF roundtrips_type])
next
  case False
  then show ?thesis
    by (simp add: serialize_type_metadata_def deserialize_type_metadata_def stored_function_def roundtrips_ret)
qed

lemma roundtrips_parent:
  "(\<forall>p. par = Some p \<longrightarrow> str_ok p) \<Longrightarrow> roundtrips (serialize_parent par) deserialize_parent par"
  unfolding serialize_parent_def deserialize_parent_def
  by (cases par) (auto intro!: roundtrips_tag roundtrips_tagged roundtrips_map [OF roundtrips_str_u16])

lemma heq_get_None_iff: "hm_get (=) m k = None \<longleftrightarrow> k \<notin> fst ` set m"
  by (induction m) (auto split: if_splits)

lemma hm_distinct_iff: "hm_distinct (=) m \<longleftrightarrow> distinct (map fst m)"
  by (induction m) (force simp: heq_get_None_iff)+

lemma roundtrips_labels:
  "list_all (\<lambda>(l, _). str_ok l) ls \<Longrightarrow> hm_distinct (=) (done_ls @ ls) \<Longrightarrow>
   roundtrips (write_each serialize_label ls) (read_labels (length ls) done_ls) (done_ls @ ls)"
proof (induction ls arbitrary: done_ls)
  case (Cons p ls)
  obtain l off where p: "p = (l, off)" by (cases p)
  have "hm_get (=) done_ls l = None" using Cons.prems p by (auto simp: hm_distinct_iff heq_get_None_iff)
  then have "hm_insert (=) l off done_ls = done_ls @ [(l, off)]" by (rule hm_insert_new)
  moreover have "roundtrips (write_each serialize_label ls) (read_labels (length ls) (done_ls @ [(l, off)])) (done_ls @ (l, off) # ls)"
    using Cons.IH [of "done_ls @ [(l, off)]"] Cons.prems p by simp
  moreover have "str_ok l" using Cons.prems p by simp
  ultimately show ?case
    by (auto simp: p serialize_label_def mbind_assoc intro!: roundtrips_bind [OF roundtrips_str_u16] roundtrips_bind [OF roundtrips_usize_u32])
qed (simp add: roundtrips_ret)

lemma roundtrips_function:
  assumes "function_ok f"
  shows "roundtrips (serialize_function v f) (deserialize_function v) (stored_function v f)"
proof -
  have "roundtrips (write_each serialize_label (cf_labels f)) (read_labels (length (cf_labels f)) []) (cf_labels f)"
    using roundtrips_labels [of "cf_labels f" "[]"] assms by (simp add: function_ok_def)
  note labels = roundtrips_bind [OF this]
  note names = roundtrips_bind [OF str16.list_roundtrip [OF _ refl]]
  have ok: "str_ok (cf_name f)" "list_all str_ok (cf_parameters f)" "list_all str_ok (cf_upvalues f)"
    "\<forall>p. cf_parent f = Some p \<longrightarrow> str_ok p" "length (cf_instructions f) \<le> MAX_INSTRUCTION_COUNT" "list_all instr_ok (cf_instructions f)"
    using assms by (simp_all add: function_ok_def)
  have "\<lparr>cf_name = cf_name f, cf_register_count = cf_register_count f, cf_parameters = cf_parameters f,
      cf_parameter_types = cf_parameter_types (stored_function v f), cf_return_type = cf_return_type (stored_function v f),
      cf_upvalues = cf_upvalues f, cf_parent = cf_parent f, cf_labels = cf_labels f, cf_instructions = cf_instructions f\<rparr> =
      stored_function v f"
    by (simp add: stored_function_def)
  note fin = roundtrips_bind_pure [OF instruction_codec.list_roundtrip [OF ok(6) refl]] arg_cong [where f = mret, OF this]
  show ?thesis
    unfolding serialize_function_def deserialize_function_def read_function_prefix_def mbind_assoc mbind_case_prod mbind_ret
    apply (rule roundtrips_bind [OF roundtrips_str_u16 [OF ok(1)]])
    apply (rule roundtrips_bind [OF roundtrips_usize_u16])+
    apply (rule names [OF ok(2)])
    apply (rule roundtrips_bind [OF roundtrips_type_metadata [OF assms]], unfold prod.case)
    apply (rule roundtrips_bind [OF roundtrips_usize_u16])
    apply (rule names [OF ok(3)])
    apply (rule roundtrips_bind [OF roundtrips_parent [OF ok(4)]])
    apply (rule roundtrips_bind [OF roundtrips_usize_u16])
    apply (rule labels)
    apply (rule roundtrips_bind [OF roundtrips_len_bounded [OF ok(5)]])
    apply (rule fin(1))
    apply (simp only: compiled_function.update_convs)
    apply (rule fin(2))
    done
qed

lemma roundtrips_preamble:
  assumes "binary_ok b"
  shows "roundtrips
    (mbind (write_all MAGIC_BYTES) (\<lambda>_. mbind (write_all (to_le (bin_version b))) (\<lambda>_.
       mbind (write_usize_as_u32 (length (bin_constants b)) ''constant count'') (\<lambda>_. write_each serialize_value (bin_constants b)))))
    read_preamble (bin_version b, bin_constants b)"
proof -
  have "length MAGIC_BYTES = 4" by (simp add: MAGIC_BYTES_def)
  then have magic: "roundtrips (write_all MAGIC_BYTES) (read_exact 4) MAGIC_BYTES" by (rule roundtrips_write_all)
  have ok: "list_all value_ok (bin_constants b)" "length (bin_constants b) \<le> MAX_BINARY_COLLECTION_LEN"
    "\<not> bin_version b > FORMAT_VERSION"
    using assms by (auto simp: binary_ok_def not_less)
  show ?thesis
    unfolding read_preamble_def
    by (rule roundtrips_bind [OF magic], simp only: if_not_P not_not simp_thms if_False, rule roundtrips_bind [OF roundtrips_u16],
        simp only: ok if_False, rule roundtrips_bind [OF roundtrips_len_bounded [OF ok(2)]],
        rule roundtrips_map [OF value_codec.list_roundtrip [OF ok(1) refl]])
qed

lemma roundtrips_read_manifest:
  assumes "binary_ok b"
  shows "roundtrips
    (if bin_version b \<ge> CLIENT_IO_MANIFEST_FORMAT_VERSION
     then serialize_client_io_manifest (client_io_manifest_of b) (bin_version b \<ge> MPC_BACKEND_MANIFEST_FORMAT_VERSION)
       (bin_version b \<ge> MPC_CURVE_MANIFEST_FORMAT_VERSION) (bin_version b \<ge> PREPROCESSING_DEMAND_MANIFEST_FORMAT_VERSION)
     else mret ())
    (read_manifest (bin_version b)) (stored_manifest (bin_version b) (client_io_manifest_of b))"
proof (cases "bin_version b \<ge> CLIENT_IO_MANIFEST_FORMAT_VERSION")
  case True
  show ?thesis
    unfolding read_manifest_def stored_manifest_def if_P [OF True]
    by (rule roundtrips_manifest) (use assms in \<open>simp_all add: binary_ok_def\<close>)
next
  case False
  then show ?thesis by (simp add: read_manifest_def stored_manifest_def roundtrips_ret)
qed

lemma roundtrips_binary:
  assumes "binary_ok b"
  shows "roundtrips (serialize b) deserialize (stored_binary b)"
proof -
  have fs: "roundtrips (write_each (serialize_function (bin_version b)) (bin_functions b))
      (read_times (length (bin_functions b)) (deserialize_function (bin_version b)))
      (map (stored_function (bin_version b)) (bin_functions b))"
    using assms by (intro roundtrips_each roundtrips_function) (auto simp: binary_ok_def list_all_iff)
  have len: "length (bin_functions b) \<le> MAX_BINARY_COLLECTION_LEN" using assms by (simp add: binary_ok_def)
  have "\<lparr>bin_version = bin_version b, bin_constants = bin_constants b,
      bin_functions = map (stored_function (bin_version b)) (bin_functions b),
      client_io_manifest_of = stored_manifest (bin_version b) (client_io_manifest_of b)\<rparr> = stored_binary b"
    by (simp add: stored_binary_def)
  note result = arg_cong [where f = mret, OF this]
  have "roundtrips (mbind (mbind (write_all MAGIC_BYTES) (\<lambda>_. mbind (write_all (to_le (bin_version b))) (\<lambda>_.
       mbind (write_usize_as_u32 (length (bin_constants b)) ''constant count'') (\<lambda>_. write_each serialize_value (bin_constants b)))))
     (\<lambda>_. mbind (write_usize_as_u32 (length (bin_functions b)) ''function count'') (\<lambda>_.
       mbind (write_each (serialize_function (bin_version b)) (bin_functions b)) (\<lambda>_.
       if bin_version b \<ge> CLIENT_IO_MANIFEST_FORMAT_VERSION
       then serialize_client_io_manifest (client_io_manifest_of b) (bin_version b \<ge> MPC_BACKEND_MANIFEST_FORMAT_VERSION)
         (bin_version b \<ge> MPC_CURVE_MANIFEST_FORMAT_VERSION) (bin_version b \<ge> PREPROCESSING_DEMAND_MANIFEST_FORMAT_VERSION)
       else mret ()))))
    deserialize (stored_binary b)"
    unfolding deserialize_def
    apply (rule roundtrips_bind [OF roundtrips_preamble [OF assms]], unfold prod.case)
    apply (rule roundtrips_bind [OF roundtrips_len_bounded [OF len]])
    apply (rule roundtrips_bind [OF fs])
    apply (rule roundtrips_bind_pure [OF roundtrips_read_manifest [OF assms]])
    apply (rule result)
    done
  then show ?thesis by (simp add: serialize_def mbind_assoc)
qed

section \<open>What a writer accepts\<close>

text \<open>A writer of the format appends, and what it appends does not depend on what is already
  written; so it succeeds on every output or fails on every output.\<close>

definition append_only :: "writer \<Rightarrow> bool" where
  "append_only w = (\<forall>out. w out = (fst (w []), out @ snd (w [])))"

definition accepted :: "writer \<Rightarrow> bool" where
  "accepted w = (fst (w []) = Inr ())"

lemma append_only_bind [simp]: "append_only w \<Longrightarrow> append_only w' \<Longrightarrow> append_only (mbind w (\<lambda>_. w'))"
  unfolding append_only_def
proof (intro allI)
  fix out assume w: "\<forall>out. w out = (fst (w []), out @ snd (w []))" and w': "\<forall>out. w' out = (fst (w' []), out @ snd (w' []))"
  show "mbind w (\<lambda>_. w') out = (fst (mbind w (\<lambda>_. w') []), out @ snd (mbind w (\<lambda>_. w') []))"
    using w [rule_format, of out] w [rule_format, of "[]"] w' [rule_format, of "snd (w [])"] w' [rule_format, of "out @ snd (w [])"]
    by (cases "fst (w [])"; cases "w []") (simp_all add: mbind_def)
qed

lemma accepted_bind [simp]: "append_only w' \<Longrightarrow> accepted (mbind w (\<lambda>_. w')) \<longleftrightarrow> accepted w \<and> accepted w'"
proof -
  assume a: "append_only w'"
  obtain r t where w: "w [] = (r, t)" by (cases "w []")
  have "fst (w' t) = fst (w' [])" using a unfolding append_only_def by (metis fst_conv)
  then show "accepted (mbind w (\<lambda>_. w')) \<longleftrightarrow> accepted w \<and> accepted w'"
    using w by (cases r) (simp_all add: accepted_def mbind_def)
qed

lemma append_only_basic [simp]: "append_only (write_all bs)" "append_only (mret ())" "append_only (merr e)"
  by (simp_all add: append_only_def write_all_def mmodify_def mret_def merr_def)

lemma accepted_basic [simp]: "accepted (write_all bs)" "accepted (mret ())" "\<not> accepted (merr e)"
  by (simp_all add: accepted_def write_all_def mmodify_def mret_def merr_def)

lemma writes_usize_u16 [simp]: "append_only (write_usize_as_u16 v field)" "accepted (write_usize_as_u16 v field) \<longleftrightarrow> v < 2 ^ 16"
  by (auto simp: append_only_def accepted_def write_usize_as_u16_def usize_to_u16_def mbind_def mread_def write_all_def mmodify_def)

lemma writes_usize_u32 [simp]: "append_only (write_usize_as_u32 v field)" "accepted (write_usize_as_u32 v field) \<longleftrightarrow> v < 2 ^ 32"
  by (auto simp: append_only_def accepted_def write_usize_as_u32_def usize_to_u32_def u32_try_from_def mbind_def mread_def
      write_all_def mmodify_def)

lemma writes_str [simp]:
  "append_only (write_len_prefixed_str_u16 s field)" "accepted (write_len_prefixed_str_u16 s field) \<longleftrightarrow> length s < 2 ^ 16"
  "append_only (write_len_prefixed_str_u32 s field)" "accepted (write_len_prefixed_str_u32 s field) \<longleftrightarrow> length s < 2 ^ 32"
  by (simp_all add: write_len_prefixed_str_u16_def write_len_prefixed_str_u32_def)

lemma append_only_each: "(\<And>x. x \<in> set xs \<Longrightarrow> append_only (w x)) \<Longrightarrow> append_only (write_each w xs)"
  by (induction xs) simp_all

lemma accepted_each: "(\<And>x. x \<in> set xs \<Longrightarrow> append_only (w x)) \<Longrightarrow> accepted (write_each w xs) \<longleftrightarrow> (\<forall>x\<in>set xs. accepted (w x))"
  by (induction xs) (simp_all add: append_only_each)

fun share_type_fits :: "share_type \<Rightarrow> bool" where
  "share_type_fits (SecretInt n) = (n < 2 ^ 32)"
| "share_type_fits (SecretUInt n) = (n < 2 ^ 32)"
| "share_type_fits (SecretFixedPoint p) = (total_bits p < 2 ^ 32 \<and> fractional_bits p < 2 ^ 32)"

fun value_fits :: "val \<Rightarrow> bool" where
  "value_fits (String s) = (length s < 2 ^ 32)"
| "value_fits (Object _) = False"
| "value_fits (Array _) = False"
| "value_fits (Foreign _) = False"
| "value_fits (Closure _ _) = False"
| "value_fits (Share _ _) = False"
| "value_fits _ = True"

fun type_fits :: "function_type \<Rightarrow> bool" where
  "type_fits (T_Secret t) = type_fits t"
| "type_fits (T_List t) = type_fits t"
| "type_fits (T_Dict k v) = (type_fits k \<and> type_fits v)"
| "type_fits (T_Object n) = (length n < 2 ^ 16)"
| "type_fits (T_Generic n ps) = (length n < 2 ^ 16 \<and> length ps < 2 ^ 16 \<and> list_all type_fits ps)"
| "type_fits (T_TypeVar n) = (length n < 2 ^ 16)"
| "type_fits _ = True"

fun instr_operands :: "compiled_instruction \<Rightarrow> usize list" where
  "instr_operands (C_LD r _) = [r]"
| "instr_operands (C_LDI r k) = [r, k]"
| "instr_operands (C_MOV a b) = [a, b]"
| "instr_operands (C_NOT a b) = [a, b]"
| "instr_operands (C_CMP a b) = [a, b]"
| "instr_operands (C_LDS a b) = [a, b]"
| "instr_operands (C_STS a b) = [a, b]"
| "instr_operands (C_ADD a b c) = [a, b, c]"
| "instr_operands (C_SUB a b c) = [a, b, c]"
| "instr_operands (C_MUL a b c) = [a, b, c]"
| "instr_operands (C_DIV a b c) = [a, b, c]"
| "instr_operands (C_MOD a b c) = [a, b, c]"
| "instr_operands (C_AND a b c) = [a, b, c]"
| "instr_operands (C_OR a b c) = [a, b, c]"
| "instr_operands (C_XOR a b c) = [a, b, c]"
| "instr_operands (C_SHL a b c) = [a, b, c]"
| "instr_operands (C_SHR a b c) = [a, b, c]"
| "instr_operands (C_RET r) = [r]"
| "instr_operands (C_PUSHARG r) = [r]"
| "instr_operands _ = []"

fun instr_name :: "compiled_instruction \<Rightarrow> string" where
  "instr_name (C_JMP l) = l"
| "instr_name (C_JMPEQ l) = l"
| "instr_name (C_JMPNEQ l) = l"
| "instr_name (C_JMPLT l) = l"
| "instr_name (C_JMPGT l) = l"
| "instr_name (C_CALL f) = f"
| "instr_name _ = []"

definition instr_fits :: "compiled_instruction \<Rightarrow> bool" where
  "instr_fits i = (list_all (\<lambda>x. x < 2 ^ 32) (instr_operands i) \<and> length (instr_name i) < 2 ^ 16)"

definition function_fits :: "u16 \<Rightarrow> compiled_function \<Rightarrow> bool" where
  "function_fits v f = (length (cf_name f) < 2 ^ 16 \<and> cf_register_count f < 2 ^ 16 \<and> length (cf_parameters f) < 2 ^ 16 \<and>
     list_all (\<lambda>p. length p < 2 ^ 16) (cf_parameters f) \<and>
     (if v \<ge> FUNCTION_TYPE_METADATA_FORMAT_VERSION
      then list_all type_fits (normalized_parameter_types f) \<and> type_fits (cf_return_type f) else True) \<and>
     length (cf_upvalues f) < 2 ^ 16 \<and> list_all (\<lambda>u. length u < 2 ^ 16) (cf_upvalues f) \<and>
     (case cf_parent f of None \<Rightarrow> True | Some p \<Rightarrow> length p < 2 ^ 16) \<and>
     length (cf_labels f) < 2 ^ 16 \<and> list_all (\<lambda>(l, off). length l < 2 ^ 16 \<and> off < 2 ^ 32) (cf_labels f) \<and>
     length (cf_instructions f) < 2 ^ 32 \<and> list_all instr_fits (cf_instructions f))"

definition client_fits :: "client_io_schema \<Rightarrow> bool" where
  "client_fits c = (length (schema_inputs c) < 2 ^ 32 \<and> list_all share_type_fits (schema_inputs c) \<and>
     length (schema_outputs c) < 2 ^ 32 \<and> list_all share_type_fits (schema_outputs c))"

definition binary_fits :: "compiled_binary \<Rightarrow> bool" where
  "binary_fits b = (length (bin_constants b) < 2 ^ 32 \<and> list_all value_fits (bin_constants b) \<and>
     length (bin_functions b) < 2 ^ 32 \<and> list_all (function_fits (bin_version b)) (bin_functions b) \<and>
     (if bin_version b \<ge> CLIENT_IO_MANIFEST_FORMAT_VERSION
      then length (manifest_clients (client_io_manifest_of b)) < 2 ^ 32 \<and>
           list_all client_fits (manifest_clients (client_io_manifest_of b))
      else True))"

lemma writes_share_type [simp]: "append_only (serialize_share_type t)" "accepted (serialize_share_type t) \<longleftrightarrow> share_type_fits t"
  by (cases t; simp)+

lemma writes_value [simp]: "append_only (serialize_value v)" "accepted (serialize_value v) \<longleftrightarrow> value_fits v"
  by (cases v; simp)+

lemma append_only_type [simp]: "append_only (serialize_function_type t)"
  by (induction t) (simp_all add: append_only_each)

lemma accepted_type [simp]: "accepted (serialize_function_type t) \<longleftrightarrow> type_fits t"
  by (induction t) (simp_all add: append_only_each accepted_each list_all_iff)

lemma writes_operands [simp]:
  "append_only (write_operands xs)" "accepted (write_operands xs) \<longleftrightarrow> (\<forall>x\<in>fst ` set xs. x < 2 ^ 32)"
  unfolding write_operands_def by (auto simp: append_only_each accepted_each split: prod.splits)

lemma writes_instruction [simp]: "append_only (serialize_instruction i)" "accepted (serialize_instruction i) \<longleftrightarrow> instr_fits i"
  by (cases i; simp add: instr_fits_def)+

lemma writes_label [simp]:
  "append_only (serialize_label p)" "accepted (serialize_label p) \<longleftrightarrow> length (fst p) < 2 ^ 16 \<and> snd p < 2 ^ 32"
  by (cases p; simp add: serialize_label_def)+

lemma writes_parent [simp]:
  "append_only (serialize_parent p)"
  "accepted (serialize_parent p) \<longleftrightarrow> (case p of None \<Rightarrow> True | Some s \<Rightarrow> length s < 2 ^ 16)"
  by (cases p; simp add: serialize_parent_def)+

lemma writes_function [simp]:
  "append_only (serialize_function v f)" "accepted (serialize_function v f) \<longleftrightarrow> function_fits v f"
  by (auto simp: serialize_function_def serialize_type_metadata_def function_fits_def append_only_each accepted_each
      list_all_iff normalized_parameter_types_def split: prod.splits)

lemma writes_client [simp]: "append_only (serialize_client c)" "accepted (serialize_client c) \<longleftrightarrow> client_fits c"
  by (auto simp: serialize_client_def client_fits_def append_only_each accepted_each list_all_iff)

lemma writes_metadata [simp]:
  "append_only (serialize_mpc_backend b)" "accepted (serialize_mpc_backend b)"
  "append_only (serialize_mpc_curve c)" "accepted (serialize_mpc_curve c)"
  "append_only (serialize_demand d)" "accepted (serialize_demand d)"
  by (cases b; cases c; simp add: serialize_demand_def)+

lemma writes_binary: "append_only (serialize b)" "accepted (serialize b) \<longleftrightarrow> binary_fits b"
  by (auto simp: serialize_def serialize_client_io_manifest_def binary_fits_def append_only_each accepted_each list_all_iff)

section \<open>Properties\<close>

text \<open>C17: a compiled program survives storage: \<open>serialize\<close> succeeds exactly on the binaries whose
  counts, operands and names fit their fields and whose constants are storable, and when the
  lengths are within the limits of the reader, \<open>deserialize\<close> reads the binary back and leaves
  the rest of the input unread. At the current version nothing is lost but surplus or missing
  parameter types; at an older one the metadata that the version does not have is replaced by
  its default.\<close>

theorem compiled_binary_roundtrip:
  "(\<exists>out. serialize b [] = (Inr (), out)) = binary_fits b \<and>
   (binary_ok b \<longrightarrow> binary_fits b \<longrightarrow>
     (\<exists>out. serialize b [] = (Inr (), out) \<and> (\<forall>rest. deserialize (out @ rest) = (Inr (stored_binary b), rest))))"
proof (intro conjI impI)
  show s: "(\<exists>out. serialize b [] = (Inr (), out)) = binary_fits b"
    using writes_binary(2) [of b] by (cases "serialize b []") (auto simp: accepted_def)
  assume "binary_ok b" "binary_fits b"
  then show "\<exists>out. serialize b [] = (Inr (), out) \<and> (\<forall>rest. deserialize (out @ rest) = (Inr (stored_binary b), rest))"
    using s roundtripsD [OF roundtrips_binary] by fastforce
qed

text \<open>A binary with a constant and a function of every kind of field.\<close>

definition sample_binary :: compiled_binary where
  "sample_binary =
     \<lparr>bin_version = FORMAT_VERSION, bin_constants = [I64 7, String ''hi''],
      bin_functions = [\<lparr>cf_name = ''main'', cf_register_count = 18, cf_parameters = [''x''], cf_parameter_types = [T_Secret (T_Int True 64)],
        cf_return_type = T_Generic ''Pair'' [T_Bool, T_Fixed 32], cf_upvalues = [''u''], cf_parent = Some ''outer'',
        cf_labels = [(''end'', 2)], cf_instructions = [C_LDI 1 0, C_JMPEQ ''end'', C_RET 1]\<rparr>],
      client_io_manifest_of = \<lparr>manifest_backend = Avss, manifest_curve = Secp256k1,
        manifest_clients = [\<lparr>client_slot = 3, schema_inputs = [SecretInt 64], schema_outputs = [SecretUInt 8]\<rparr>],
        preprocessing_demand_of = default_demand\<rparr>\<rparr>"

theorem compiled_binary_roundtrip_witness:
  "\<exists>out. serialize sample_binary [] = (Inr (), out) \<and> deserialize out = (Inr sample_binary, [])"
proof -
  have ok: "binary_ok sample_binary"
    by (simp add: sample_binary_def binary_ok_def function_ok_def client_ok_def binary_limits str_ok_def str_bytes_def)
  have fits: "binary_fits sample_binary"
    by (simp add: sample_binary_def binary_fits_def function_fits_def client_fits_def instr_fits_def normalized_parameter_types_def
        resize_to_def format_versions)
  have "stored_binary sample_binary = sample_binary"
    by (simp add: sample_binary_def stored_binary_def stored_function_def stored_manifest_def normalized_parameter_types_def
        resize_to_def format_versions)
  then show ?thesis
    using compiled_binary_roundtrip [of sample_binary, THEN conjunct2, rule_format, OF ok fits] by (metis append_Nil2)
qed

end
