(* ===== verification/Program_Storage.thy ===== *)
theory Program_Storage
  imports Load_Equivalence Binary_Roundtrip
begin

text \<open>
  The whole way of a program: functions to a compiled binary with a shared constant pool, to a
  file, and back to functions that the machine registers.
\<close>

section \<open>The constant pool\<close>

definition pool_ok :: "constant_pool \<Rightarrow> bool" where
  "pool_ok p = (\<forall>v k. hm_get value_eq (pool_index p) v = Some k \<longrightarrow> k < length (pool_values p) \<and> value_eq (pool_values p ! k) v)"

lemma add_constant_facts:
  assumes "pool_ok p" "add_constant_if_new v p = (k, q)"
  shows "pool_ok q \<and> (\<exists>vs. pool_values q = pool_values p @ vs) \<and> k < length (pool_values q) \<and> value_eq (pool_values q ! k) v"
proof (cases "hm_get value_eq (pool_index p) v")
  case None
  then have q: "q = \<lparr>pool_values = pool_values p @ [v], pool_index = hm_insert value_eq v (length (pool_values p)) (pool_index p)\<rparr>"
      "k = length (pool_values p)"
    using assms(2) by (auto simp: add_constant_if_new_def)
  have "pool_ok q"
    using assms(1) by (auto simp: pool_ok_def q veq.get_insert nth_append less_SucI)
  then show ?thesis by (simp add: q veq.refl)
next
  case (Some j)
  then show ?thesis using assms by (auto simp: add_constant_if_new_def pool_ok_def)
qed

text \<open>An instruction read back: the same, with a constant that equals the original one.\<close>

fun same_instruction :: "instruction \<Rightarrow> instruction \<Rightarrow> bool" where
  "same_instruction (I_LDI r v) x = (\<exists>w. x = I_LDI r w \<and> value_eq w v)"
| "same_instruction i x = (x = i)"

definition recovers :: "val list \<Rightarrow> instruction \<Rightarrow> compiled_instruction \<Rightarrow> bool" where
  "recovers vs i c = (\<exists>x. same_instruction i x \<and>
     (\<forall>name k. compiled_instruction_to_vm_instruction (constant_lookup vs name k) c = Inr x))"

lemma recovers_mono: "recovers vs i c \<Longrightarrow> recovers (vs @ ws) i c"
proof -
  assume "recovers vs i c"
  then obtain x where x: "same_instruction i x" "\<And>name k. compiled_instruction_to_vm_instruction (constant_lookup vs name k) c = Inr x"
    by (auto simp: recovers_def)
  have "compiled_instruction_to_vm_instruction (constant_lookup (vs @ ws) name k) c = Inr x" for name k
    using x(2) [of name k] by (cases c) (auto simp: constant_lookup_def rbind_Inr_iff intro: vec_get_append)
  then show ?thesis using x(1) by (auto simp: recovers_def)
qed

lemma compile_instruction_recovers:
  assumes "pool_ok p" "compile_instruction i p = (c, q)"
  shows "pool_ok q \<and> (\<exists>vs. pool_values q = pool_values p @ vs) \<and> recovers (pool_values q) i c"
proof (cases "\<exists>r v. i = I_LDI r v")
  case True
  then obtain r v where i: "i = I_LDI r v" by blast
  obtain k where k: "add_constant_if_new v p = (k, q)" "c = C_LDI r k"
    using assms(2) i by (auto split: prod.splits)
  note facts = add_constant_facts [OF assms(1) k(1)]
  then have "recovers (pool_values q) i c"
    by (auto simp: recovers_def i k(2) constant_lookup_def)
  then show ?thesis using facts by blast
next
  case False
  then have "q = p \<and> recovers (pool_values p) i c"
    using assms(2) by (cases i) (auto simp: recovers_def)
  then show ?thesis using assms(1) by simp
qed

lemma compile_instructions_recover:
  assumes "pool_ok p" "compile_instructions is p = (cs, q)"
  shows "pool_ok q \<and> (\<exists>vs. pool_values q = pool_values p @ vs) \<and> list_all2 (recovers (pool_values q)) is cs"
  using assms
proof (induction "is" arbitrary: p cs)
  case (Cons i "is")
  obtain c p' cs' where s: "compile_instruction i p = (c, p')" "compile_instructions is p' = (cs', q)" "cs = c # cs'"
    using Cons.prems(2) by (auto split: prod.splits)
  note one = compile_instruction_recovers [OF Cons.prems(1) s(1)]
  note rest = Cons.IH [OF conjunct1 [OF one] s(2)]
  obtain vs where "pool_values q = pool_values p' @ vs" using rest by blast
  then have "recovers (pool_values q) i c" using one recovers_mono by metis
  then show ?case using one rest s(3) by auto
qed simp

definition recovers_function :: "val list \<Rightarrow> vm_function \<Rightarrow> compiled_function \<Rightarrow> bool" where
  "recovers_function vs f c =
     (list_all2 (recovers vs) (instructions f) (cf_instructions c) \<and> cf_name c = fn_name f \<and> cf_register_count c = register_count f \<and>
      cf_parameters c = parameters f \<and> cf_upvalues c = fn_upvalues f \<and> cf_parent c = fn_parent f \<and> cf_labels c = labels f \<and>
      cf_parameter_types c = replicate (length (parameters f)) T_Unknown)"

lemma recovers_function_mono: "recovers_function vs f c \<Longrightarrow> recovers_function (vs @ ws) f c"
  by (auto simp: recovers_function_def intro: list_all2_mono recovers_mono)

lemma add_functions_recover:
  assumes "pool_ok p" "add_functions fs p = (cs, q)"
  shows "pool_ok q \<and> (\<exists>vs. pool_values q = pool_values p @ vs) \<and> list_all2 (recovers_function (pool_values q)) fs cs"
  using assms
proof (induction fs arbitrary: p cs)
  case (Cons f fs)
  obtain c p' cs' where s: "add_function_from_vm f p = (c, p')" "add_functions fs p' = (cs', q)" "cs = c # cs'"
    using Cons.prems(2) by (auto split: prod.splits)
  obtain ins where ins: "compile_instructions (instructions f) p = (ins, p')" and c: "c = \<lparr>cf_name = fn_name f, cf_register_count = register_count f,
      cf_parameters = parameters f, cf_parameter_types = replicate (length (parameters f)) T_Unknown, cf_return_type = T_Unknown,
      cf_upvalues = fn_upvalues f, cf_parent = fn_parent f, cf_labels = labels f, cf_instructions = ins\<rparr>"
    using s(1) by (auto simp: add_function_from_vm_def split: prod.splits)
  note one = compile_instructions_recover [OF Cons.prems(1) ins]
  then have f: "recovers_function (pool_values p') f c" by (simp add: recovers_function_def c)
  note rest = Cons.IH [OF conjunct1 [OF one] s(2)]
  obtain vs where "pool_values q = pool_values p' @ vs" using rest by blast
  then have "recovers_function (pool_values q) f c" using f recovers_function_mono by metis
  then show ?case using one rest s(3) by auto
qed simp

section \<open>Reading the functions back\<close>

definition same_function :: "vm_function \<Rightarrow> vm_function \<Rightarrow> bool" where
  "same_function f g = (fn_name g = fn_name f \<and> parameters g = parameters f \<and> fn_upvalues g = fn_upvalues f \<and>
     fn_parent g = fn_parent f \<and> labels g = labels f \<and> resolved_instructions g = None \<and>
     try_frame_register_count f = Inr (register_count g) \<and> list_all2 same_instruction (instructions f) (instructions g))"

lemma same_instruction_register: "same_instruction i x \<Longrightarrow> max_referenced_register x = max_referenced_register i"
  by (cases i) auto

lemma same_referenced:
  "list_all2 same_instruction is xs \<Longrightarrow> referenced_register_count name xs = referenced_register_count name is"
proof -
  assume "list_all2 same_instruction is xs"
  then have "List.map_filter max_referenced_register xs = List.map_filter max_referenced_register is"
    by (induction rule: list_all2_induct) (simp_all add: List.map_filter_simps same_instruction_register split: option.split)
  then show ?thesis by (simp add: referenced_register_count_def)
qed

lemma recovered_instructions:
  "list_all2 (recovers vs) is cs \<Longrightarrow> \<exists>xs. to_vm_instructions vs name k cs = Inr xs \<and> list_all2 same_instruction is xs"
proof (induction arbitrary: k rule: list_all2_induct)
  case (Cons i "is" c cs)
  obtain x where "same_instruction i x" "compiled_instruction_to_vm_instruction (constant_lookup vs name k) c = Inr x"
    using Cons.hyps(1) by (auto simp: recovers_def)
  moreover obtain xs where "to_vm_instructions vs name (Suc k) cs = Inr xs" "list_all2 same_instruction is xs"
    using Cons.IH by blast
  ultimately show ?case by auto
qed simp

lemma recovered_function:
  assumes "recovers_function vs f c" "try_frame_register_count f = Inr n"
  shows "\<exists>g. try_compiled_function_to_vm_function vs c = Inr g \<and> same_function f g"
proof -
  obtain xs where xs: "to_vm_instructions vs (cf_name c) 0 (cf_instructions c) = Inr xs" "list_all2 same_instruction (instructions f) xs"
    using recovered_instructions assms(1) unfolding recovers_function_def by blast
  have "try_frame_register_count (vm_function_from_instructions c xs) = Inr n"
    using assms same_referenced [OF xs(2)]
    by (simp add: try_frame_register_count_def vm_function_from_instructions_def vm_function_new_def recovers_function_def)
  then show ?thesis using xs assms
    by (auto simp: try_compiled_function_to_vm_function_def try_normalize_register_count_def same_function_def
        vm_function_from_instructions_def vm_function_new_def recovers_function_def)
qed

lemma recovered_functions:
  assumes "list_all2 (recovers_function vs) fs cs" "distinct (map fn_name fs)" "\<forall>f\<in>set fs. \<exists>n. try_frame_register_count f = Inr n"
    and "\<forall>f\<in>set fs. hm_get (=) seen (fn_name f) = None"
  shows "\<exists>gs. to_vm_loop vs cs seen = Inr gs \<and> list_all2 same_function fs gs"
  using assms
proof (induction arbitrary: seen rule: list_all2_induct)
  case (Cons f fs c cs)
  obtain g where g: "try_compiled_function_to_vm_function vs c = Inr g" "same_function f g"
    using recovered_function [OF Cons.hyps(1)] Cons.prems(2) by auto
  have n: "cf_name c = fn_name f" using Cons.hyps(1) by (simp add: recovers_function_def)
  obtain gs where "to_vm_loop vs cs (hm_insert (=) (fn_name f) c seen) = Inr gs" "list_all2 same_function fs gs"
    using Cons.IH [of "hm_insert (=) (fn_name f) c seen"] Cons.prems by (force simp: heq.get_insert)
  then show ?case using g n Cons.prems(3) by auto
qed simp

lemma functions_recovered:
  assumes "distinct (map fn_name fs)" "\<forall>f\<in>set fs. \<exists>n. try_frame_register_count f = Inr n"
  shows "\<exists>gs. try_to_vm_functions (from_vm_functions fs) = Inr gs \<and> list_all2 same_function fs gs"
    and "stored_binary (from_vm_functions fs) = from_vm_functions fs"
proof -
  obtain cs q where a: "add_functions fs \<lparr>pool_values = [], pool_index = []\<rparr> = (cs, q)" by fastforce
  have "pool_ok \<lparr>pool_values = [], pool_index = []\<rparr>" by (simp add: pool_ok_def)
  note r = add_functions_recover [OF this a]
  have b: "from_vm_functions fs = compiled_binary_new\<lparr>bin_constants := pool_values q, bin_functions := cs\<rparr>"
    by (simp add: from_vm_functions_def a)
  show "\<exists>gs. try_to_vm_functions (from_vm_functions fs) = Inr gs \<and> list_all2 same_function fs gs"
    using recovered_functions [of "pool_values q" fs cs "[]"] r assms
    by (simp add: b try_to_vm_functions_def)
  have "stored_function FORMAT_VERSION c = c" if c: "c \<in> set cs" for c
  proof -
    obtain k where "k < length cs" "cs ! k = c" using c by (auto simp: in_set_conv_nth)
    then have "recovers_function (pool_values q) (fs ! k) c" using r by (auto simp: list_all2_conv_all_nth)
    then show ?thesis
      by (cases c) (simp add: stored_function_def recovers_function_def normalized_parameter_types_def resize_to_def format_versions)
  qed
  then have "map (stored_function FORMAT_VERSION) cs = cs" by (simp add: map_idI)
  then show "stored_binary (from_vm_functions fs) = from_vm_functions fs"
    by (simp add: b stored_binary_def compiled_binary_new_def stored_manifest_def default_manifest_def format_versions)
qed

section \<open>Properties\<close>

text \<open>C16: saving a program and loading it gives the program back: functions with distinct names become a
  binary with a shared constant pool, whose file reads back as that binary and converts to
  functions with the same names, parameters, captured variables, labels and instructions, each
  constant replaced by an equal one and each register count by the frame size.\<close>

theorem saved_program_loads:
  assumes "distinct (map fn_name fs)" "\<forall>f\<in>set fs. \<exists>n. try_frame_register_count f = Inr n"
    and "binary_ok (from_vm_functions fs)" "binary_fits (from_vm_functions fs)"
  shows "\<exists>out b gs. serialize (from_vm_functions fs) [] = (Inr (), out) \<and> deserialize out = (Inr b, []) \<and>
    try_to_vm_functions b = Inr gs \<and> list_all2 same_function fs gs"
proof -
  have "append_only (serialize (from_vm_functions fs))" "accepted (serialize (from_vm_functions fs))"
    using writes_binary assms(4) by blast+
  then obtain out where out: "serialize (from_vm_functions fs) [] = (Inr (), out)"
    by (cases "serialize (from_vm_functions fs) []") (auto simp: accepted_def)
  then have "\<forall>rest. deserialize (out @ rest) = (Inr (from_vm_functions fs), rest)"
    using roundtripsD [OF roundtrips_binary [OF assms(3)] out] functions_recovered(2) [OF assms(1,2)] by auto
  from spec [OF this, of "[]"] have "deserialize out = (Inr (from_vm_functions fs), [])" by simp
  then show ?thesis using out functions_recovered(1) [OF assms(1,2)] by auto
qed

lemma sample_storable:
  "\<exists>n. try_frame_register_count sample_function = Inr n"
  "binary_ok (from_vm_functions [sample_function])" "binary_fits (from_vm_functions [sample_function])"
proof -
  have b: "from_vm_functions [sample_function] = compiled_binary_new\<lparr>bin_constants := [I64 5], bin_functions :=
      [\<lparr>cf_name = ''f'', cf_register_count = 0, cf_parameters = [''x''], cf_parameter_types = [T_Unknown], cf_return_type = T_Unknown,
        cf_upvalues = [], cf_parent = None, cf_labels = [(''out'', 4)],
        cf_instructions = [C_LDI 1 0, C_ADD 16 0 1, C_JMP ''out'', C_NOP, C_RET 16]\<rparr>]\<rparr>"
    by (simp add: from_vm_functions_def add_function_from_vm_def sample_function_def vm_function_new_def add_constant_if_new_def)
  show "binary_ok (from_vm_functions [sample_function])"
    by (simp add: b compiled_binary_new_def default_manifest_def binary_ok_def function_ok_def binary_limits str_ok_def str_bytes_def)
  show "binary_fits (from_vm_functions [sample_function])"
    by (simp add: b compiled_binary_new_def default_manifest_def binary_fits_def function_fits_def instr_fits_def
        normalized_parameter_types_def resize_to_def)
  show "\<exists>n. try_frame_register_count sample_function = Inr n"
    by (simp add: sample_function_def vm_function_new_def try_frame_register_count_def referenced_register_count_def max_plus_one_def
        List.map_filter_def checked_add_usize_def usize_max_def Let_def)
qed

theorem saved_program_loads_witness:
  "\<exists>out b g. serialize (from_vm_functions [sample_function]) [] = (Inr (), out) \<and> deserialize out = (Inr b, []) \<and>
    try_to_vm_functions b = Inr [g] \<and> same_function sample_function g"
proof -
  have "distinct (map fn_name [sample_function])" "\<forall>f\<in>set [sample_function]. \<exists>n. try_frame_register_count f = Inr n"
    using sample_storable(1) by simp_all
  from saved_program_loads [OF this sample_storable(2,3)]
  show ?thesis by (auto simp: list_all2_Cons1)
qed

text \<open>C15: streaming a program file into the machine gives the program that reading it whole and registering
  its functions gives: whenever the latter succeeds, so does the former, with the same number of
  functions, version and manifest, and the machines differ in nothing but the retained source,
  so every call finds the same target with the same lowered code and frame size. This holds for
  every hash function of the duplicate check.\<close>

theorem streaming_load_agrees:
  assumes "load_in_memory bytes vm = (Inr result, vma)"
  shows "\<exists>vmb. load_streaming hash bytes vm = (Inr result, vmb) \<and> forget_source vma = forget_source vmb \<and>
    (\<forall>name. program_call_target (vm_program vmb) name = program_call_target (vm_program vma) name \<and>
       program_runtime_function (vm_program vmb) name = program_runtime_function (vm_program vma) name)"
proof -
  obtain b fs where b: "fst (deserialize bytes) = Inr b" "try_to_vm_functions b = Inr fs" "register_functions fs vm = (Inr (), vma)"
      "result = (length fs, bin_version b, client_io_manifest_of b)"
    using assms by (auto simp: load_in_memory_def mbind_Inr_iff mread_def mret_def)
  obtain rest where d: "deserialize bytes = (Inr b, rest)" using b(1) by (cases "deserialize bytes") simp
  obtain n bs1 bs2 bs3 where r: "read_preamble bytes = (Inr (bin_version b, bin_constants b), bs1)"
      "read_u32_len_bounded ''function count'' MAX_BINARY_COLLECTION_LEN bs1 = (Inr n, bs2)"
      "read_times n (deserialize_function (bin_version b)) bs2 = (Inr (bin_functions b), bs3)"
      "read_manifest (bin_version b) bs3 = (Inr (client_io_manifest_of b), rest)"
    using d by (auto simp: deserialize_def mbind_Inr_iff mret_def)
  have "seen_agrees hash (bin_constants b) [] []" by (simp add: seen_agrees_def)
  then obtain vmb where vmb: "for_each_resolved_loop hash register_stream (bin_version b) (bin_constants b) n [] 0 (bs2, vm) =
      (Inr (0 + length fs), (bs3, vmb))" "forget_source vma = forget_source vmb"
    using streaming_loop [OF r(3) b(2) [unfolded try_to_vm_functions_def] b(3) refl] by blast
  have "load_streaming hash bytes vm = (Inr result, vmb)"
    using r vmb(1) b(4)
    by (simp add: load_streaming_def try_for_each_resolved_vm_function_from_reader_def mbind_def on_reader_def mlift_def mret_def)
  moreover have "without_source (vm_program vma) = without_source (vm_program vmb)"
    using arg_cong [OF vmb(2), of vm_program] by (simp add: forget_source_def)
  then have "program_call_target (vm_program vmb) name = program_call_target (vm_program vma) name"
      "program_runtime_function (vm_program vmb) name = program_runtime_function (vm_program vma) name" for name
    using without_source_lookups by metis+
  ultimately show ?thesis using vmb(2) by blast
qed

lemma sample_loads:
  "\<exists>out vma. load_in_memory out vm_state_new = (Inr (1, FORMAT_VERSION, default_manifest), vma)"
proof -
  let ?b = "from_vm_functions [sample_function]"
  let ?g = "sample_function\<lparr>register_count := 17\<rparr>"
  have "append_only (serialize ?b)" "accepted (serialize ?b)" using writes_binary sample_storable(3) by blast+
  then obtain out where out: "serialize ?b [] = (Inr (), out)" by (cases "serialize ?b []") (auto simp: accepted_def)
  have "stored_binary ?b = ?b" by (rule functions_recovered(2)) (use sample_storable(1) in simp_all)
  then have "\<forall>rest. deserialize (out @ rest) = (Inr ?b, rest)"
    using roundtripsD [OF roundtrips_binary [OF sample_storable(2)] out] by auto
  from spec [OF this, of "[]"] have d: "deserialize out = (Inr ?b, [])" by simp
  have t: "try_to_vm_functions ?b = Inr [?g]"
    by (simp add: try_to_vm_functions_def from_vm_functions_def add_function_from_vm_def sample_function_def vm_function_new_def
        add_constant_if_new_def compiled_binary_new_def try_compiled_function_to_vm_function_def constant_lookup_def vec_get_def
        try_normalize_register_count_def vm_function_from_instructions_def try_frame_register_count_def referenced_register_count_def
        max_plus_one_def List.map_filter_def checked_add_usize_def usize_max_def Let_def MIN_FRAME_REGISTER_COUNT_def RETURN_REGISTER_INDEX_def)
  have r: "\<exists>rf. register_vm_function ?g True = Inr rf"
    by (simp add: register_vm_function_def resolve_instructions_def sample_function_def vm_function_new_def try_frame_register_count_def
        referenced_register_count_def max_plus_one_def List.map_filter_def checked_add_usize_def usize_max_def
        MIN_FRAME_REGISTER_COUNT_def RETURN_REGISTER_INDEX_def Let_def validate_register_def resolved_operand_def
        u32_try_from_def resolve_label_def from_vm_function_def mbind_def mread_def mret_def pack3_def reg_def
        runtime_register_try_new_def get_constant_value_def vec_get_def intern_constant_def interners_new_def
        runtime_constant_try_new_def lower_jump_def jump_target_try_new_def)
  then obtain rf where "register_vm_function ?g True = Inr rf" by blast
  then have "\<exists>vma. register_functions [?g] vm_state_new = (Inr (), vma)"
    by (simp add: mbind_def mmap_err_def try_insert_function_def try_insert_def on_program_def mlift_def forget_call_target_def mmodify_def
        try_insert_with_source_retention_def vm_state_new_def program_new_def mret_def)
  moreover have "bin_version ?b = FORMAT_VERSION" "client_io_manifest_of ?b = default_manifest"
    by (simp_all add: from_vm_functions_def compiled_binary_new_def split: prod.split)
  ultimately show ?thesis
    using d t by (intro exI [of _ out]) (auto simp: load_in_memory_def mbind_def mread_def mret_def)
qed

theorem streaming_load_agrees_witness:
  "\<exists>out vmb. load_streaming (\<lambda>_. 0) out vm_state_new = (Inr (1, FORMAT_VERSION, default_manifest), vmb)"
proof -
  obtain out vma where "load_in_memory out vm_state_new = (Inr (1, FORMAT_VERSION, default_manifest), vma)"
    using sample_loads by blast
  from streaming_load_agrees [OF this, of "\<lambda>_. 0"] show ?thesis by blast
qed

end
