(* ===== verification/Liveness.thy ===== *)
theory Liveness
  imports Bytecode "HOL-Library.While_Combinator"
begin

text \<open>
  The liveness analysis of the compiler's register allocator
  (\<open>stoffel-lang/src/register_allocator.rs\<close>): the operands of an instruction, the partition of
  a function into basic blocks, the iterative dataflow over the blocks and the backward walk that
  collapses the result to one interval per virtual register.  The bit sets of the code, indexed by
  a dense renumbering of the registers that occur, are sets of register numbers here; the vectors
  indexed by that renumbering are functions of the register number.  The dataflow loop is a
  \<open>while_option\<close>, which is shown to stop.  The analysis is measured against liveness along the
  paths of the control-flow graph.
\<close>

section \<open>Operands\<close>

fun def_reg :: "instruction \<Rightarrow> usize option" where
  "def_reg (I_LD r _) = Some r"
| "def_reg (I_LDI r _) = Some r"
| "def_reg (I_MOV r _) = Some r"
| "def_reg (I_ADD r _ _) = Some r"
| "def_reg (I_SUB r _ _) = Some r"
| "def_reg (I_MUL r _ _) = Some r"
| "def_reg (I_DIV r _ _) = Some r"
| "def_reg (I_MOD r _ _) = Some r"
| "def_reg (I_AND r _ _) = Some r"
| "def_reg (I_OR r _ _) = Some r"
| "def_reg (I_XOR r _ _) = Some r"
| "def_reg (I_NOT r _) = Some r"
| "def_reg (I_SHL r _ _) = Some r"
| "def_reg (I_SHR r _ _) = Some r"
| "def_reg (I_LDS r _) = Some r"
| "def_reg _ = None"

text \<open>The array of two optional operands, in operand order.\<close>

fun use_regs :: "instruction \<Rightarrow> usize option list" where
  "use_regs (I_MOV _ s) = [Some s, None]"
| "use_regs (I_NOT _ s) = [Some s, None]"
| "use_regs (I_RET s) = [Some s, None]"
| "use_regs (I_PUSHARG s) = [Some s, None]"
| "use_regs (I_STS _ s) = [Some s, None]"
| "use_regs (I_ADD _ a b) = [Some a, Some b]"
| "use_regs (I_SUB _ a b) = [Some a, Some b]"
| "use_regs (I_MUL _ a b) = [Some a, Some b]"
| "use_regs (I_DIV _ a b) = [Some a, Some b]"
| "use_regs (I_MOD _ a b) = [Some a, Some b]"
| "use_regs (I_AND _ a b) = [Some a, Some b]"
| "use_regs (I_OR _ a b) = [Some a, Some b]"
| "use_regs (I_XOR _ a b) = [Some a, Some b]"
| "use_regs (I_SHL _ a b) = [Some a, Some b]"
| "use_regs (I_SHR _ a b) = [Some a, Some b]"
| "use_regs (I_CMP a b) = [Some a, Some b]"
| "use_regs _ = [None, None]"

text \<open>The allocating variants of the trait \<open>InstructionRegisterAnalysis\<close>.\<close>

fun defs :: "instruction \<Rightarrow> usize list" where
  "defs (I_LD r _) = [r]"
| "defs (I_LDI r _) = [r]"
| "defs (I_MOV r _) = [r]"
| "defs (I_ADD r _ _) = [r]"
| "defs (I_SUB r _ _) = [r]"
| "defs (I_MUL r _ _) = [r]"
| "defs (I_DIV r _ _) = [r]"
| "defs (I_MOD r _ _) = [r]"
| "defs (I_AND r _ _) = [r]"
| "defs (I_OR r _ _) = [r]"
| "defs (I_XOR r _ _) = [r]"
| "defs (I_NOT r _) = [r]"
| "defs (I_SHL r _ _) = [r]"
| "defs (I_SHR r _ _) = [r]"
| "defs (I_LDS r _) = [r]"
| "defs _ = []"

fun uses :: "instruction \<Rightarrow> usize list" where
  "uses (I_MOV _ s) = [s]"
| "uses (I_NOT _ s) = [s]"
| "uses (I_RET s) = [s]"
| "uses (I_PUSHARG s) = [s]"
| "uses (I_STS _ s) = [s]"
| "uses (I_ADD _ a b) = [a, b]"
| "uses (I_SUB _ a b) = [a, b]"
| "uses (I_MUL _ a b) = [a, b]"
| "uses (I_DIV _ a b) = [a, b]"
| "uses (I_MOD _ a b) = [a, b]"
| "uses (I_AND _ a b) = [a, b]"
| "uses (I_OR _ a b) = [a, b]"
| "uses (I_XOR _ a b) = [a, b]"
| "uses (I_SHL _ a b) = [a, b]"
| "uses (I_SHR _ a b) = [a, b]"
| "uses (I_CMP a b) = [a, b]"
| "uses _ = []"

text \<open>The comments of the source ask the two variants to stay in step.\<close>

fun flatten_options :: "'a option list \<Rightarrow> 'a list" where
  "flatten_options [] = []"
| "flatten_options (None # xs) = flatten_options xs"
| "flatten_options (Some x # xs) = x # flatten_options xs"

lemma use_regs_uses: "flatten_options (use_regs inst) = uses inst"
  by (cases inst) simp_all

lemma def_reg_defs: "set_option (def_reg inst) = set (defs inst)"
  by (cases inst) simp_all

section \<open>Blocks\<close>

record live_interval =
  li_start :: usize
  li_end :: usize

fun ends_block :: "instruction \<Rightarrow> bool" where
  "ends_block (I_JMP _) = True"
| "ends_block (I_JMPEQ _) = True"
| "ends_block (I_JMPNEQ _) = True"
| "ends_block (I_JMPLT _) = True"
| "ends_block (I_JMPGT _) = True"
| "ends_block (I_RET _) = True"
| "ends_block _ = False"

definition block_starts :: "instruction list \<Rightarrow> (string \<times> usize) list \<Rightarrow> usize list" where
  "block_starts instrs lbls =
     (let n = length instrs in
      sort (remdups (0 # filter (\<lambda>idx. idx < n) (map snd lbls)
        @ map Suc (filter (\<lambda>i. ends_block (instrs ! i) \<and> Suc i < n) [0..<n]))))"

definition end_of_block :: "usize list \<Rightarrow> usize \<Rightarrow> usize \<Rightarrow> usize" where
  "end_of_block starts n bi = (if Suc bi < length starts then starts ! Suc bi else n)"

definition inst2block :: "usize list \<Rightarrow> usize \<Rightarrow> usize list" where
  "inst2block starts n =
     fold (\<lambda>bi ids. map (\<lambda>i. if starts ! bi \<le> i \<and> i < end_of_block starts n bi then bi else ids ! i)
                       [0..<n])
       [0..<length starts] (replicate n 0)"

record block_info =
  blk_start :: usize
  blk_end :: usize
  blk_succs :: "usize list"
  use_bits :: "usize set"
  def_bits :: "usize set"

definition label_to_block ::
  "(string \<times> usize) list \<Rightarrow> usize list \<Rightarrow> usize \<Rightarrow> string \<Rightarrow> usize option" where
  "label_to_block lbls ids n lbl =
     (case hm_get (=) lbls lbl of
        None \<Rightarrow> None
      | Some idx \<Rightarrow> if idx < n then Some (ids ! idx) else None)"

definition opt_list :: "'a option \<Rightarrow> 'a list" where
  "opt_list x = (case x of None \<Rightarrow> [] | Some y \<Rightarrow> [y])"

text \<open>\<open>retain\<close> with a set of the values seen: the first occurrence of a value stays.\<close>

definition retain_first :: "'a list \<Rightarrow> 'a list" where
  "retain_first xs = rev (remdups (rev xs))"

definition block_successors ::
  "instruction list \<Rightarrow> (string \<times> usize) list \<Rightarrow> usize list \<Rightarrow> usize list \<Rightarrow> usize \<Rightarrow> usize list" where
  "block_successors instrs lbls starts ids bi =
     (let n = length instrs;
          s = starts ! bi;
          e = end_of_block starts n bi;
          fallthrough = (if Suc bi < length starts then [Suc bi] else []);
          branch = (\<lambda>l. opt_list (label_to_block lbls ids n l)
                        @ (if Suc bi < length starts \<and> starts ! Suc bi < n then [Suc bi] else []))
      in if s = e then []
         else retain_first (case instrs ! (e - 1) of
             I_JMP l \<Rightarrow> opt_list (label_to_block lbls ids n l)
           | I_JMPEQ l \<Rightarrow> branch l
           | I_JMPNEQ l \<Rightarrow> branch l
           | I_JMPLT l \<Rightarrow> branch l
           | I_JMPGT l \<Rightarrow> branch l
           | I_RET _ \<Rightarrow> []
           | _ \<Rightarrow> fallthrough))"

text \<open>The registers a block uses before it defines them, and those it defines.\<close>

definition use_def_instr :: "instruction \<Rightarrow> usize set \<times> usize set \<Rightarrow> usize set \<times> usize set" where
  "use_def_instr inst ud = (case ud of (us, ds) \<Rightarrow>
     (fold (\<lambda>u us. if u \<in> ds then us else insert u us) (flatten_options (use_regs inst)) us,
      case def_reg inst of None \<Rightarrow> ds | Some d \<Rightarrow> insert d ds))"

definition block_use_def :: "instruction list \<Rightarrow> usize \<Rightarrow> usize \<Rightarrow> usize set \<times> usize set" where
  "block_use_def instrs s e = fold (\<lambda>i. use_def_instr (instrs ! i)) [s..<e] ({}, {})"

definition build_blocks :: "instruction list \<Rightarrow> (string \<times> usize) list \<Rightarrow> block_info list" where
  "build_blocks instrs lbls =
     (let n = length instrs;
          starts = block_starts instrs lbls;
          ids = inst2block starts n
      in map (\<lambda>bi. let s = starts ! bi; e = end_of_block starts n bi in
                \<lparr>blk_start = s, blk_end = e,
                 blk_succs = block_successors instrs lbls starts ids bi,
                 use_bits = fst (block_use_def instrs s e),
                 def_bits = snd (block_use_def instrs s e)\<rparr>)
           [0..<length starts])"

section \<open>Dataflow\<close>

type_synonym flow = "usize set list \<times> usize set list \<times> bool"

definition flow_block :: "block_info list \<Rightarrow> usize \<Rightarrow> usize set \<Rightarrow> usize \<Rightarrow> flow \<Rightarrow> flow" where
  "flow_block blocks entry seed bi st = (case st of (ins, outs, changed) \<Rightarrow>
     (let b = blocks ! bi;
          new_out = fold (\<lambda>s acc. acc \<union> ins ! s) (blk_succs b) {};
          changed_out = (outs ! bi \<noteq> new_out);
          v = use_bits b \<union> (new_out - def_bits b) \<union> (if bi = entry then seed else {});
          changed_in = (ins ! bi \<noteq> v)
      in (ins[bi := v], outs[bi := new_out], changed \<or> changed_out \<or> changed_in)))"

definition flow_pass :: "block_info list \<Rightarrow> usize \<Rightarrow> usize set \<Rightarrow> flow \<Rightarrow> flow" where
  "flow_pass blocks entry seed st = (case st of (ins, outs, _) \<Rightarrow>
     fold (flow_block blocks entry seed) (rev [0..<length blocks]) (ins, outs, False))"

definition flow_loop :: "block_info list \<Rightarrow> usize \<Rightarrow> usize set \<Rightarrow> flow option" where
  "flow_loop blocks entry seed =
     while_option (\<lambda>(ins, outs, changed). changed) (flow_pass blocks entry seed)
       ((replicate (length blocks) {})[entry := seed], replicate (length blocks) {}, True)"

section \<open>Intervals\<close>

definition def_first :: "instruction list \<Rightarrow> usize \<Rightarrow> usize option" where
  "def_first instrs = fold (\<lambda>i t. case def_reg (instrs ! i) of
       None \<Rightarrow> t
     | Some d \<Rightarrow> (case t d of None \<Rightarrow> t(d \<mapsto> i) | Some j \<Rightarrow> if i < j then t(d \<mapsto> i) else t))
     [0..<length instrs] (\<lambda>_. None)"

definition def_last :: "instruction list \<Rightarrow> usize \<Rightarrow> usize option" where
  "def_last instrs = fold (\<lambda>i t. case def_reg (instrs ! i) of
       None \<Rightarrow> t
     | Some d \<Rightarrow> (case t d of None \<Rightarrow> t(d \<mapsto> i) | Some j \<Rightarrow> if j < i then t(d \<mapsto> i) else t))
     [0..<length instrs] (\<lambda>_. None)"

definition walk_use :: "usize \<Rightarrow> usize \<Rightarrow> usize set \<times> (usize \<Rightarrow> usize) \<Rightarrow> usize set \<times> (usize \<Rightarrow> usize)" where
  "walk_use i u st = (case st of (present, end_idx) \<Rightarrow>
     if u \<in> present then (present, end_idx)
     else (insert u present, if end_idx u < i then end_idx(u := i) else end_idx))"

definition walk_instr ::
  "instruction list \<Rightarrow> usize \<Rightarrow> usize set \<times> (usize \<Rightarrow> usize) \<Rightarrow> usize set \<times> (usize \<Rightarrow> usize)" where
  "walk_instr instrs i st = (case st of (present, end_idx) \<Rightarrow>
     fold (walk_use i) (flatten_options (use_regs (instrs ! i)))
       (case def_reg (instrs ! i) of None \<Rightarrow> present | Some d \<Rightarrow> present - {d}, end_idx))"

definition walk_block ::
  "instruction list \<Rightarrow> block_info \<Rightarrow> usize set \<Rightarrow> (usize \<Rightarrow> usize) \<Rightarrow> usize \<Rightarrow> usize" where
  "walk_block instrs b live_out end_idx =
     snd (fold (walk_instr instrs) (rev [blk_start b..<blk_end b])
       (live_out, \<lambda>v. if v \<in> live_out \<and> end_idx v < blk_end b then blk_end b else end_idx v))"

definition interval_of ::
  "instruction list \<Rightarrow> (usize \<Rightarrow> usize) \<Rightarrow> usize \<Rightarrow> live_interval" where
  "interval_of instrs end_idx v =
     (let start = (case def_first instrs v of Some i \<Rightarrow> i | None \<Rightarrow> 0);
          e1 = end_idx v;
          e2 = (case def_last instrs v of Some d \<Rightarrow> if e1 < Suc d then Suc d else e1 | None \<Rightarrow> e1);
          e3 = (if e2 \<le> start then Suc start else e2)
      in \<lparr>li_start = start, li_end = e3\<rparr>)"

text \<open>The registers that occur, and the largest of them.\<close>

definition occurring :: "instruction list \<Rightarrow> usize list \<Rightarrow> usize list" where
  "occurring instrs live_in =
     concat (map (\<lambda>inst. flatten_options (use_regs inst) @ opt_list (def_reg inst)) instrs) @ live_in"

definition no_reg :: usize where
  "no_reg = 2 ^ 32 - 1"

text \<open>
  \<open>None\<close> is the panic of the assertion on the register numbers: the loop of the dataflow always
  stops, see \<open>flow_loop_stops\<close>.
\<close>

definition analyze_liveness_cfg_dense ::
  "instruction list \<Rightarrow> (string \<times> usize) list \<Rightarrow> usize list \<Rightarrow> live_interval option list option" where
  "analyze_liveness_cfg_dense instrs lbls live_in =
     (let n = length instrs; vrs = occurring instrs live_in in
      if n = 0 \<or> vrs = [] then Some []
      else let max_vr = fold max vrs 0 in
      if no_reg \<le> max_vr then None
      else let blocks = build_blocks instrs lbls;
               entry = inst2block (block_starts instrs lbls) n ! 0
      in (case flow_loop blocks entry (set live_in) of
            None \<Rightarrow> None
          | Some (_, outs, _) \<Rightarrow>
              let end_idx = fold (\<lambda>bi. walk_block instrs (blocks ! bi) (outs ! bi))
                              [0..<length blocks] (\<lambda>_. 0)
              in Some (map (\<lambda>v. if v \<in> set vrs then Some (interval_of instrs end_idx v) else None)
                         [0..<Suc max_vr])))"

text \<open>For evaluation, the bound on the register numbers is compared in binary.\<close>

lemma analyze_liveness_cfg_dense_code [code]:
  "analyze_liveness_cfg_dense instrs lbls live_in =
     (let n = length instrs; vrs = occurring instrs live_in in
      if n = 0 \<or> vrs = [] then Some []
      else let max_vr = fold max vrs 0 in
      if 4294967295 \<le> int max_vr then None
      else let blocks = build_blocks instrs lbls;
               entry = inst2block (block_starts instrs lbls) n ! 0
      in (case flow_loop blocks entry (set live_in) of
            None \<Rightarrow> None
          | Some (_, outs, _) \<Rightarrow>
              let end_idx = fold (\<lambda>bi. walk_block instrs (blocks ! bi) (outs ! bi))
                              [0..<length blocks] (\<lambda>_. 0)
              in Some (map (\<lambda>v. if v \<in> set vrs then Some (interval_of instrs end_idx v) else None)
                         [0..<Suc max_vr])))"
proof -
  have "no_reg \<le> m \<longleftrightarrow> 4294967295 \<le> int m" for m by (simp add: no_reg_def)
  then show ?thesis by (simp only: analyze_liveness_cfg_dense_def)
qed

section \<open>The dataflow stops at a solution of its equations\<close>

definition succ_union :: "usize set list \<Rightarrow> block_info \<Rightarrow> usize set" where
  "succ_union ins b = (\<Union>s\<in>set (blk_succs b). ins ! s)"

definition flow_in :: "block_info list \<Rightarrow> usize \<Rightarrow> usize set \<Rightarrow> usize \<Rightarrow> usize set \<Rightarrow> usize set" where
  "flow_in blocks entry seed bi out =
     use_bits (blocks ! bi) \<union> (out - def_bits (blocks ! bi)) \<union> (if bi = entry then seed else {})"

lemma fold_union: "fold (\<lambda>s acc. acc \<union> f s) xs A = A \<union> (\<Union>s\<in>set xs. f s)"
  by (induction xs arbitrary: A) auto

lemma flow_block_unfold:
  "flow_block blocks entry seed bi (ins, outs, changed) =
     (let out = succ_union ins (blocks ! bi); v = flow_in blocks entry seed bi out in
      (ins[bi := v], outs[bi := out], changed \<or> outs ! bi \<noteq> out \<or> ins ! bi \<noteq> v))"
  by (simp add: flow_block_def succ_union_def flow_in_def fold_union Let_def)

text \<open>The sizes and the bound on the sets of a function's blocks.\<close>

definition blocks_within :: "usize set \<Rightarrow> usize \<Rightarrow> usize set \<Rightarrow> block_info list \<Rightarrow> bool" where
  "blocks_within U entry seed blocks \<longleftrightarrow> finite U \<and> seed \<subseteq> U \<and> entry < length blocks \<and>
     (\<forall>b\<in>set blocks. use_bits b \<subseteq> U \<and> set (blk_succs b) \<subseteq> {..<length blocks})"

definition below_solution ::
  "usize set \<Rightarrow> block_info list \<Rightarrow> usize \<Rightarrow> usize set \<Rightarrow> usize set list \<Rightarrow> usize set list \<Rightarrow> bool" where
  "below_solution U blocks entry seed ins outs \<longleftrightarrow>
     length ins = length blocks \<and> length outs = length blocks \<and>
     (\<forall>b < length blocks. ins ! b \<subseteq> U \<and> outs ! b \<subseteq> U \<and>
        outs ! b \<subseteq> succ_union ins (blocks ! b) \<and>
        ins ! b \<subseteq> flow_in blocks entry seed b (succ_union ins (blocks ! b)))"

definition solved ::
  "block_info list \<Rightarrow> usize \<Rightarrow> usize set \<Rightarrow> usize set list \<Rightarrow> usize set list \<Rightarrow> usize \<Rightarrow> bool" where
  "solved blocks entry seed ins outs b \<longleftrightarrow>
     outs ! b = succ_union ins (blocks ! b) \<and> ins ! b = flow_in blocks entry seed b (outs ! b)"

definition grows :: "usize set list \<Rightarrow> usize set list \<Rightarrow> bool" where
  "grows xs ys \<longleftrightarrow> list_all2 (\<subseteq>) xs ys"

lemma grows_refl [simp]: "grows xs xs"
  by (simp add: grows_def list_all2_refl)

lemma grows_trans: "grows xs ys \<Longrightarrow> grows ys zs \<Longrightarrow> grows xs zs"
  unfolding grows_def list_all2_conv_all_nth by fastforce

lemma grows_antisym: "grows xs ys \<Longrightarrow> grows ys xs \<Longrightarrow> xs = ys"
  unfolding grows_def by (rule list_all2_antisym) auto

lemma grows_update: "xs ! i \<subseteq> x \<Longrightarrow> grows xs (xs[i := x])"
  unfolding grows_def list_all2_conv_all_nth by (metis length_list_update nth_list_update_eq nth_list_update_neq order_refl)

lemma grows_nth: "grows xs ys \<Longrightarrow> i < length xs \<Longrightarrow> xs ! i \<subseteq> ys ! i"
  by (simp add: grows_def list_all2_nthD)

lemma succ_union_mono:
  "grows ins ins' \<Longrightarrow> set (blk_succs b) \<subseteq> {..<length ins} \<Longrightarrow> succ_union ins b \<subseteq> succ_union ins' b"
  unfolding succ_union_def by (rule UN_mono) (auto dest: grows_nth)

lemma flow_in_mono: "X \<subseteq> Y \<Longrightarrow> flow_in blocks entry seed b X \<subseteq> flow_in blocks entry seed b Y"
  by (auto simp: flow_in_def)

lemma flow_in_within:
  "blocks_within U entry seed blocks \<Longrightarrow> b < length blocks \<Longrightarrow> X \<subseteq> U \<Longrightarrow>
   flow_in blocks entry seed b X \<subseteq> U"
  by (auto simp: flow_in_def blocks_within_def)

lemma succ_union_within:
  assumes "blocks_within U entry seed blocks" "below_solution U blocks entry seed ins outs"
    and "b < length blocks"
  shows "succ_union ins (blocks ! b) \<subseteq> U"
proof -
  have "blocks ! b \<in> set blocks" using assms(3) by simp
  then have "set (blk_succs (blocks ! b)) \<subseteq> {..<length blocks}"
    using assms(1) unfolding blocks_within_def by blast
  then show ?thesis
    using assms(2) unfolding succ_union_def below_solution_def by blast
qed

lemma flow_block_step:
  assumes ok: "blocks_within U entry seed blocks"
    and inv: "below_solution U blocks entry seed ins outs"
    and b: "b < length blocks"
    and step: "flow_block blocks entry seed b (ins, outs, ch) = (ins', outs', ch')"
  shows "below_solution U blocks entry seed ins' outs'" "grows ins ins'" "grows outs outs'"
    and "ch' \<longleftrightarrow> ch \<or> (ins', outs') \<noteq> (ins, outs)"
    and "(ins', outs') = (ins, outs) \<Longrightarrow> solved blocks entry seed ins outs b"
proof -
  define out where "out = succ_union ins (blocks ! b)"
  define v where "v = flow_in blocks entry seed b out"
  have eqs: "ins' = ins[b := v]" "outs' = outs[b := out]" "ch' \<longleftrightarrow> ch \<or> outs ! b \<noteq> out \<or> ins ! b \<noteq> v"
    using step by (auto simp: flow_block_unfold out_def v_def Let_def)
  have len: "length ins = length blocks" "length outs = length blocks"
    and bounds: "\<And>c. c < length blocks \<Longrightarrow> ins ! c \<subseteq> U \<and> outs ! c \<subseteq> U \<and>
        outs ! c \<subseteq> succ_union ins (blocks ! c) \<and>
        ins ! c \<subseteq> flow_in blocks entry seed c (succ_union ins (blocks ! c))"
    using inv by (auto simp: below_solution_def)
  have up: "ins ! b \<subseteq> v" "outs ! b \<subseteq> out"
    using bounds [OF b] by (auto simp: out_def v_def)
  show gi: "grows ins ins'" and "grows outs outs'"
    using up by (auto simp: eqs intro: grows_update)
  have mono: "succ_union ins (blocks ! c) \<subseteq> succ_union ins' (blocks ! c)" if "c < length blocks" for c
    using that ok len by (intro succ_union_mono [OF gi]) (auto simp: blocks_within_def)
  have "out \<subseteq> U"
    unfolding out_def by (rule succ_union_within [OF ok inv b])
  moreover have "v \<subseteq> U"
    unfolding v_def by (rule flow_in_within [OF ok b \<open>out \<subseteq> U\<close>])
  ultimately show "below_solution U blocks entry seed ins' outs'"
    unfolding below_solution_def
  proof (intro conjI allI impI)
    fix c assume c: "c < length blocks"
    show "outs' ! c \<subseteq> succ_union ins' (blocks ! c)"
      using bounds [OF c] mono [OF c] c len by (cases "c = b") (auto simp: eqs(2) out_def)
    show "ins' ! c \<subseteq> flow_in blocks entry seed c (succ_union ins' (blocks ! c))"
      using bounds [OF c] flow_in_mono [OF mono [OF c]] c len
      by (cases "c = b") (fastforce simp: eqs(1) v_def out_def)+
    show "ins' ! c \<subseteq> U" "outs' ! c \<subseteq> U"
      using bounds [OF c] \<open>v \<subseteq> U\<close> \<open>out \<subseteq> U\<close> c len by (cases "c = b"; simp add: eqs)+
  qed (simp_all add: eqs len)
  show "ch' \<longleftrightarrow> ch \<or> (ins', outs') \<noteq> (ins, outs)"
    using b len by (metis eqs list_update_id nth_list_update_eq prod.inject)
  show "solved blocks entry seed ins outs b" if "(ins', outs') = (ins, outs)"
  proof -
    have "out = outs ! b" "v = ins ! b"
      using that b len by (metis eqs nth_list_update_eq prod.inject)+
    then show ?thesis by (simp add: solved_def out_def v_def)
  qed
qed

lemma flow_fold:
  assumes ok: "blocks_within U entry seed blocks"
  shows "below_solution U blocks entry seed ins outs \<Longrightarrow> set bs \<subseteq> {..<length blocks} \<Longrightarrow>
    fold (flow_block blocks entry seed) bs (ins, outs, ch) = (ins', outs', ch') \<Longrightarrow>
    below_solution U blocks entry seed ins' outs' \<and> grows ins ins' \<and> grows outs outs' \<and>
    (ch' \<longleftrightarrow> ch \<or> (ins', outs') \<noteq> (ins, outs)) \<and>
    ((ins', outs') = (ins, outs) \<longrightarrow> (\<forall>b\<in>set bs. solved blocks entry seed ins outs b))"
proof (induction bs arbitrary: ins outs ch)
  case (Cons b bs)
  obtain ins1 outs1 ch1 where step: "flow_block blocks entry seed b (ins, outs, ch) = (ins1, outs1, ch1)"
    by (cases "flow_block blocks entry seed b (ins, outs, ch)")
  have b: "b < length blocks" and bs: "set bs \<subseteq> {..<length blocks}"
    using Cons.prems(2) by auto
  note first = flow_block_step [OF ok Cons.prems(1) b step]
  have "fold (flow_block blocks entry seed) bs (ins1, outs1, ch1) = (ins', outs', ch')"
    using Cons.prems(3) by (simp add: step)
  note rest = Cons.IH [OF first(1) bs this]
  then have gr: "grows ins1 ins'" "grows outs1 outs'"
    and ch': "ch' \<longleftrightarrow> ch1 \<or> (ins', outs') \<noteq> (ins1, outs1)"
    and sol: "(ins', outs') = (ins1, outs1) \<Longrightarrow> \<forall>b\<in>set bs. solved blocks entry seed ins1 outs1 b"
    by blast+
  have grow: "grows ins ins'" "grows outs outs'"
    by (rule grows_trans [OF first(2) gr(1)], rule grows_trans [OF first(3) gr(2)])
  have still: "(ins1, outs1) = (ins, outs)" if "(ins', outs') = (ins, outs)"
    using that first(2,3) gr by (simp add: grows_antisym)
  have "ch' \<longleftrightarrow> ch \<or> (ins', outs') \<noteq> (ins, outs)"
    unfolding ch' first(4) using still by auto
  moreover have "\<forall>b\<in>set (b # bs). solved blocks entry seed ins outs b"
    if "(ins', outs') = (ins, outs)"
    using that still [OF that] first(5) sol by simp
  ultimately show ?case
    using rest grow by blast
qed simp

lemma sum_card_grows:
  assumes "finite U"
  shows "grows xs ys \<Longrightarrow> \<forall>y\<in>set ys. y \<subseteq> U \<Longrightarrow>
    sum_list (map (\<lambda>y. card (U - y)) ys) \<le> sum_list (map (\<lambda>x. card (U - x)) xs) \<and>
    (xs \<noteq> ys \<longrightarrow> sum_list (map (\<lambda>y. card (U - y)) ys) < sum_list (map (\<lambda>x. card (U - x)) xs))"
  unfolding grows_def
proof (induction rule: list_all2_induct)
  case (Cons x xs y ys)
  have "card (U - y) \<le> card (U - x)" and strict: "x \<noteq> y \<Longrightarrow> card (U - y) < card (U - x)"
    using Cons.hyps(1) Cons.prems assms by (auto intro!: card_mono psubset_card_mono)
  with Cons.IH Cons.prems show ?case by (cases "x = y") auto
qed simp

lemma below_solution_start:
  assumes "blocks_within U entry seed blocks"
  shows "below_solution U blocks entry seed ((replicate (length blocks) {})[entry := seed])
    (replicate (length blocks) {})"
  using assms by (auto simp: below_solution_def blocks_within_def flow_in_def nth_list_update)

lemma flow_loop_stops:
  assumes ok: "blocks_within U entry seed blocks"
  obtains ins outs where "flow_loop blocks entry seed = Some (ins, outs, False)"
    and "length ins = length blocks" "length outs = length blocks"
    and "\<forall>b < length blocks. solved blocks entry seed ins outs b"
proof -
  define P where "P = (\<lambda>(ins, outs, ch). below_solution U blocks entry seed ins outs \<and>
    (\<not> ch \<longrightarrow> (\<forall>b < length blocks. solved blocks entry seed ins outs b)))"
  define f where "f = (\<lambda>(ins, outs, ch).
    sum_list (map (\<lambda>x. card (U - x)) ins) + sum_list (map (\<lambda>x. card (U - x)) outs) + of_bool ch)"
  have fin: "finite U" using ok by (simp add: blocks_within_def)
  have step: "P (flow_pass blocks entry seed s) \<and> f (flow_pass blocks entry seed s) < f s"
    if Ps: "P s" and go: "case s of (ins, outs, ch) \<Rightarrow> ch" for s
  proof -
    obtain ins outs where s: "s = (ins, outs, True)" using go by (cases s) auto
    have inv: "below_solution U blocks entry seed ins outs" using Ps by (simp add: s P_def)
    obtain ins' outs' ch' where r: "flow_pass blocks entry seed s = (ins', outs', ch')"
      by (cases "flow_pass blocks entry seed s")
    have "below_solution U blocks entry seed ins' outs' \<and> grows ins ins' \<and> grows outs outs' \<and>
      (ch' \<longleftrightarrow> False \<or> (ins', outs') \<noteq> (ins, outs)) \<and>
      ((ins', outs') = (ins, outs) \<longrightarrow>
        (\<forall>b\<in>set (rev [0..<length blocks]). solved blocks entry seed ins outs b))"
      using r by (intro flow_fold [OF ok inv]) (auto simp: flow_pass_def s)
    then have inv': "below_solution U blocks entry seed ins' outs'"
      and gr: "grows ins ins'" "grows outs outs'"
      and ch: "ch' \<longleftrightarrow> (ins', outs') \<noteq> (ins, outs)"
      and sol: "\<not> ch' \<Longrightarrow> \<forall>b < length blocks. solved blocks entry seed ins' outs' b"
      by auto
    have sub: "\<forall>y\<in>set ins'. y \<subseteq> U" "\<forall>y\<in>set outs'. y \<subseteq> U"
      using inv' by (auto simp: below_solution_def in_set_conv_nth) blast+
    show ?thesis
      unfolding r using sum_card_grows [OF fin gr(1) sub(1)] sum_card_grows [OF fin gr(2) sub(2)] inv' sol ch
      by (cases ch') (auto simp: P_def f_def s)
  qed
  let ?s = "((replicate (length blocks) {})[entry := seed], replicate (length blocks) {}, True)"
  have start: "P ?s" using below_solution_start [OF ok] by (simp add: P_def)
  obtain t where t: "flow_loop blocks entry seed = Some t"
    unfolding flow_loop_def using measure_while_option_Some [of P _ _ f, OF step start] by blast
  have "P t"
    using while_option_rule [of P _ _ ?s t] step start t unfolding flow_loop_def by blast
  moreover have "\<not> (case t of (ins, outs, ch) \<Rightarrow> ch)"
    using t unfolding flow_loop_def by (rule while_option_stop)
  ultimately show thesis
    using t by (cases t) (auto simp: P_def below_solution_def intro: that)
qed

section \<open>The blocks partition the instructions\<close>

definition in_block :: "usize list \<Rightarrow> usize \<Rightarrow> usize \<Rightarrow> usize \<Rightarrow> bool" where
  "in_block starts n bi i \<longleftrightarrow> bi < length starts \<and> starts ! bi \<le> i \<and> i < end_of_block starts n bi"

lemma block_starts_set:
  "set (block_starts instrs lbls) =
     {0} \<union> {idx \<in> set (map snd lbls). idx < length instrs}
     \<union> {Suc i | i. ends_block (instrs ! i) \<and> Suc i < length instrs}"
  by (auto simp: block_starts_def Let_def)

lemma block_starts_sorted:
  "sorted (block_starts instrs lbls)" "distinct (block_starts instrs lbls)"
  by (simp_all add: block_starts_def Let_def)

lemma block_starts_less:
  assumes "j < length (block_starts instrs lbls)" "i < j"
  shows "block_starts instrs lbls ! i < block_starts instrs lbls ! j"
proof -
  have "block_starts instrs lbls ! i \<le> block_starts instrs lbls ! j"
    using assms block_starts_sorted(1) by (simp add: sorted_nth_mono)
  moreover have "block_starts instrs lbls ! i \<noteq> block_starts instrs lbls ! j"
    using assms block_starts_sorted(2) by (auto simp: nth_eq_iff_index_eq)
  ultimately show ?thesis by simp
qed

lemma block_starts_bound:
  "instrs \<noteq> [] \<Longrightarrow> s \<in> set (block_starts instrs lbls) \<Longrightarrow> s < length instrs"
  by (auto simp: block_starts_set)

lemma block_starts_0:
  "block_starts instrs lbls \<noteq> []" "block_starts instrs lbls ! 0 = 0"
proof -
  have mem: "0 \<in> set (block_starts instrs lbls)" by (simp add: block_starts_set)
  then show ne: "block_starts instrs lbls \<noteq> []" by auto
  from mem obtain k where "k < length (block_starts instrs lbls)" "block_starts instrs lbls ! k = 0"
    by (auto simp: in_set_conv_nth)
  then show "block_starts instrs lbls ! 0 = 0"
    using block_starts_less [of k instrs lbls 0] by (cases "k = 0") auto
qed

lemma end_of_block_bounds:
  assumes "instrs \<noteq> []" "bi < length (block_starts instrs lbls)"
  shows "block_starts instrs lbls ! bi < end_of_block (block_starts instrs lbls) (length instrs) bi"
    and "end_of_block (block_starts instrs lbls) (length instrs) bi \<le> length instrs"
  using assms block_starts_less [of "Suc bi" instrs lbls bi]
    block_starts_bound [OF assms(1) nth_mem, of bi lbls] block_starts_bound [OF assms(1) nth_mem, of "Suc bi" lbls]
  by (auto simp: end_of_block_def)

text \<open>No block starts inside another one.\<close>

lemma no_start_inside:
  assumes "s \<in> set (block_starts instrs lbls)"
    and "in_block (block_starts instrs lbls) n bi i" "i < s"
  shows "end_of_block (block_starts instrs lbls) n bi \<le> s"
proof -
  obtain k where k: "k < length (block_starts instrs lbls)" "block_starts instrs lbls ! k = s"
    using assms(1) by (auto simp: in_set_conv_nth)
  have "\<not> k \<le> bi"
    using assms(2,3) k block_starts_less [of bi instrs lbls k] by (cases "k = bi") (auto simp: in_block_def)
  then have "Suc bi \<le> k" by simp
  then show ?thesis
    using k block_starts_less [of k instrs lbls "Suc bi"] by (cases "k = Suc bi") (auto simp: end_of_block_def)
qed

lemma in_block_unique:
  assumes "in_block (block_starts instrs lbls) n bi i" "in_block (block_starts instrs lbls) n bj i"
  shows "bi = bj"
proof (rule ccontr)
  assume "bi \<noteq> bj"
  then consider "bi < bj" | "bj < bi" by linarith
  then show False
  proof cases
    case 1
    then have "end_of_block (block_starts instrs lbls) n bi \<le> block_starts instrs lbls ! bj"
      using assms block_starts_less [of bj instrs lbls "Suc bi"]
      by (cases "bj = Suc bi") (auto simp: in_block_def end_of_block_def)
    with assms show False by (simp add: in_block_def)
  next
    case 2
    then have "end_of_block (block_starts instrs lbls) n bj \<le> block_starts instrs lbls ! bi"
      using assms block_starts_less [of bi instrs lbls "Suc bj"]
      by (cases "bi = Suc bj") (auto simp: in_block_def end_of_block_def)
    with assms show False by (simp add: in_block_def)
  qed
qed

lemma in_block_exists:
  assumes "i < length instrs"
  obtains bi where "in_block (block_starts instrs lbls) (length instrs) bi i"
proof -
  let ?S = "block_starts instrs lbls"
  let ?K = "{k. k < length ?S \<and> ?S ! k \<le> i}"
  have K: "finite ?K" "0 \<in> ?K" using block_starts_0 [of instrs lbls] by auto
  then have mem: "Max ?K \<in> ?K" using Max_in [of ?K] by blast
  have "Suc (Max ?K) \<notin> ?K"
    using Max_ge [OF K(1), of "Suc (Max ?K)"] by linarith
  then have "in_block ?S (length instrs) (Max ?K) i"
    using mem assms by (auto simp: in_block_def end_of_block_def)
  then show thesis by (rule that)
qed

lemma inst2block_nth:
  assumes "in_block (block_starts instrs lbls) n bi i" "i < n"
  shows "inst2block (block_starts instrs lbls) n ! i = bi"
proof -
  let ?S = "block_starts instrs lbls"
  let ?f = "\<lambda>b ids. map (\<lambda>i. if ?S ! b \<le> i \<and> i < end_of_block ?S n b then b else ids ! i) [0..<n]"
  have "fold ?f [0..<m] (replicate n 0) ! i = bi" if "bi < m" "m \<le> length ?S" for m
    using that
  proof (induction m)
    case (Suc m)
    show ?case
    proof (cases "m = bi")
      case True
      then show ?thesis using assms by (simp add: in_block_def)
    next
      case False
      moreover have "\<not> (?S ! m \<le> i \<and> i < end_of_block ?S n m)"
        using False Suc.prems in_block_unique [OF assms(1), of m] by (auto simp: in_block_def)
      ultimately show ?thesis using Suc assms(2) by auto
    qed
  qed simp
  then show ?thesis using assms(1) by (simp add: inst2block_def in_block_def)
qed

section \<open>Liveness along paths\<close>

definition label_target :: "instruction list \<Rightarrow> (string \<times> usize) list \<Rightarrow> string \<Rightarrow> usize list" where
  "label_target instrs lbls l =
     (case hm_get (=) lbls l of None \<Rightarrow> [] | Some idx \<Rightarrow> if idx < length instrs then [idx] else [])"

text \<open>The instructions control can reach from the one at an index.\<close>

definition next_instrs :: "instruction list \<Rightarrow> (string \<times> usize) list \<Rightarrow> usize \<Rightarrow> usize list" where
  "next_instrs instrs lbls i =
     (let following = (if Suc i < length instrs then [Suc i] else []) in
      case instrs ! i of
        I_JMP l \<Rightarrow> label_target instrs lbls l
      | I_JMPEQ l \<Rightarrow> label_target instrs lbls l @ following
      | I_JMPNEQ l \<Rightarrow> label_target instrs lbls l @ following
      | I_JMPLT l \<Rightarrow> label_target instrs lbls l @ following
      | I_JMPGT l \<Rightarrow> label_target instrs lbls l @ following
      | I_RET _ \<Rightarrow> []
      | _ \<Rightarrow> following)"

inductive live_before :: "instruction list \<Rightarrow> (string \<times> usize) list \<Rightarrow> usize \<Rightarrow> usize \<Rightarrow> bool"
  for instrs lbls where
  live_use: "i < length instrs \<Longrightarrow> v \<in> set (uses (instrs ! i)) \<Longrightarrow> live_before instrs lbls i v"
| live_pass: "i < length instrs \<Longrightarrow> def_reg (instrs ! i) \<noteq> Some v \<Longrightarrow>
    j \<in> set (next_instrs instrs lbls i) \<Longrightarrow> live_before instrs lbls j v \<Longrightarrow> live_before instrs lbls i v"

definition live_after :: "instruction list \<Rightarrow> (string \<times> usize) list \<Rightarrow> usize \<Rightarrow> usize \<Rightarrow> bool" where
  "live_after instrs lbls i v \<longleftrightarrow> (\<exists>j\<in>set (next_instrs instrs lbls i). live_before instrs lbls j v)"

lemma live_after_before:
  "live_after instrs lbls i v \<Longrightarrow> i < length instrs \<Longrightarrow> def_reg (instrs ! i) \<noteq> Some v \<Longrightarrow>
   live_before instrs lbls i v"
  by (auto simp: live_after_def intro: live_pass)

lemma next_instrs_bound:
  "j \<in> set (next_instrs instrs lbls i) \<Longrightarrow> j < length instrs"
  by (auto simp: next_instrs_def label_target_def Let_def split: instruction.splits option.splits if_splits)

lemma hm_get_value: "hm_get (=) m k = Some v \<Longrightarrow> v \<in> set (map snd m)"
  by (induction m) (auto split: if_splits)

lemma label_target_start:
  assumes "idx \<in> set (label_target instrs lbls l)"
  obtains bj where "bj < length (block_starts instrs lbls)" "block_starts instrs lbls ! bj = idx"
    and "label_to_block lbls (inst2block (block_starts instrs lbls) (length instrs)) (length instrs) l = Some bj"
proof -
  have idx: "hm_get (=) lbls l = Some idx" "idx < length instrs"
    using assms by (auto simp: label_target_def split: option.splits if_splits)
  then have "idx \<in> set (block_starts instrs lbls)"
    using hm_get_value [OF idx(1)] by (auto simp: block_starts_set)
  then obtain bj where bj: "bj < length (block_starts instrs lbls)" "block_starts instrs lbls ! bj = idx"
    by (auto simp: in_set_conv_nth)
  have "in_block (block_starts instrs lbls) (length instrs) bj idx"
    using bj idx(2) end_of_block_bounds(1) [of instrs bj lbls] by (cases instrs) (auto simp: in_block_def)
  then have "inst2block (block_starts instrs lbls) (length instrs) ! idx = bj"
    by (rule inst2block_nth) (rule idx(2))
  with bj idx show thesis by (intro that) (auto simp: label_to_block_def)
qed

lemma set_retain_first [simp]: "set (retain_first xs) = set xs"
  by (simp add: retain_first_def)

lemma set_opt_list [simp]: "set (opt_list x) = set_option x"
  by (cases x) (simp_all add: opt_list_def)

lemma inner_not_end:
  assumes b: "in_block (block_starts instrs lbls) (length instrs) bi i" and ne: "instrs \<noteq> []"
    and inner: "Suc i < end_of_block (block_starts instrs lbls) (length instrs) bi"
  shows "\<not> ends_block (instrs ! i)"
proof
  assume "ends_block (instrs ! i)"
  moreover have "Suc i < length instrs"
    using inner end_of_block_bounds(2) [OF ne, of bi lbls] b by (auto simp: in_block_def)
  ultimately have "Suc i \<in> set (block_starts instrs lbls)" by (auto simp: block_starts_set)
  from no_start_inside [OF this b] inner show False by simp
qed

lemma next_instrs_inner:
  "\<not> ends_block (instrs ! i) \<Longrightarrow> next_instrs instrs lbls i = (if Suc i < length instrs then [Suc i] else [])"
  by (cases "instrs ! i") (simp_all add: next_instrs_def)

lemma following_start:
  assumes "in_block (block_starts instrs lbls) (length instrs) bi i"
    and "Suc i = end_of_block (block_starts instrs lbls) (length instrs) bi" "Suc i < length instrs"
  shows "Suc bi < length (block_starts instrs lbls)" "block_starts instrs lbls ! Suc bi = Suc i"
  using assms by (auto simp: end_of_block_def split: if_splits)

lemma next_instrs_block:
  assumes b: "in_block (block_starts instrs lbls) (length instrs) bi i"
    and j: "j \<in> set (next_instrs instrs lbls i)" and i: "i < length instrs"
  shows "(j = Suc i \<and> Suc i < end_of_block (block_starts instrs lbls) (length instrs) bi) \<or>
    (Suc i = end_of_block (block_starts instrs lbls) (length instrs) bi \<and>
     (\<exists>bj\<in>set (block_successors instrs lbls (block_starts instrs lbls)
                 (inst2block (block_starts instrs lbls) (length instrs)) bi).
        bj < length (block_starts instrs lbls) \<and> block_starts instrs lbls ! bj = j))"
proof (cases "Suc i < end_of_block (block_starts instrs lbls) (length instrs) bi")
  case True
  then have "\<not> ends_block (instrs ! i)" using b i by (intro inner_not_end) auto
  then show ?thesis using True j by (auto simp: next_instrs_inner split: if_splits)
next
  case False
  let ?S = "block_starts instrs lbls" and ?n = "length instrs"
  let ?B = "block_successors instrs lbls ?S (inst2block ?S ?n) bi"
  have e: "end_of_block ?S ?n bi = Suc i" using False b by (auto simp: in_block_def)
  have s: "?S ! bi \<noteq> Suc i" using b by (auto simp: in_block_def)
  have target: "\<exists>bj\<in>set_option (label_to_block lbls (inst2block ?S ?n) ?n l).
      bj < length ?S \<and> ?S ! bj = j" if "j \<in> set (label_target instrs lbls l)" for l
    using label_target_start [OF that] by fastforce
  have follow: "Suc bi < length ?S \<and> ?S ! Suc bi = j" if "j = Suc i" "Suc i < ?n"
    using following_start [OF b e [symmetric]] that by simp
  have "\<exists>bj\<in>set ?B. bj < length ?S \<and> ?S ! bj = j"
  proof (cases "\<exists>l. j \<in> set (label_target instrs lbls l) \<and>
      set_option (label_to_block lbls (inst2block ?S ?n) ?n l) \<subseteq> set ?B")
    case True
    then show ?thesis using target by blast
  next
    case False
    then have "j = Suc i \<and> Suc i < ?n \<and> Suc bi \<in> set ?B"
      using j e s following_start [OF b e [symmetric]]
      by (cases "instrs ! i")
        (auto simp: next_instrs_def block_successors_def Let_def split: if_splits)
    then show ?thesis using follow by blast
  qed
  then show ?thesis using e by simp
qed

section \<open>What the analysis promises\<close>

text \<open>The registers live before a run of instructions, from those live after it.\<close>

definition transfer_instr :: "instruction \<Rightarrow> usize set \<Rightarrow> usize set" where
  "transfer_instr inst X = set (uses inst) \<union> (X - set_option (def_reg inst))"

definition live_through :: "instruction list \<Rightarrow> usize list \<Rightarrow> usize set \<Rightarrow> usize set" where
  "live_through instrs is X = foldr (\<lambda>i. transfer_instr (instrs ! i)) is X"

lemma live_through_simps [simp]:
  "live_through instrs [] X = X"
  "live_through instrs (i # is) X = transfer_instr (instrs ! i) (live_through instrs is X)"
  by (simp_all add: live_through_def)

lemma fold_guarded_insert:
  "fold (\<lambda>u us. if u \<in> ds then us else insert u us) xs us = us \<union> (set xs - ds)"
  by (induction xs arbitrary: us) auto

lemma use_def_instr_live:
  "use_def_instr inst (us, ds) = (us', ds') \<Longrightarrow> us' \<union> (X - ds') = us \<union> (transfer_instr inst X - ds)"
  by (auto simp: use_def_instr_def transfer_instr_def fold_guarded_insert use_regs_uses
      split: option.splits)

lemma use_def_live:
  "fold (\<lambda>i. use_def_instr (instrs ! i)) is (us, ds) = (us', ds') \<Longrightarrow>
   us' \<union> (X - ds') = us \<union> (live_through instrs is X - ds)"
proof (induction "is" arbitrary: us ds)
  case (Cons i "is")
  obtain us1 ds1 where first: "use_def_instr (instrs ! i) (us, ds) = (us1, ds1)"
    by (cases "use_def_instr (instrs ! i) (us, ds)")
  with Cons.prems have "us' \<union> (X - ds') = us1 \<union> (live_through instrs is X - ds1)"
    by (intro Cons.IH) simp
  with use_def_instr_live [OF first, of "live_through instrs is X"] show ?case by simp
qed simp

lemma block_use_def_live:
  "fst (block_use_def instrs s e) \<union> (X - snd (block_use_def instrs s e)) = live_through instrs [s..<e] X"
  using use_def_live [of instrs "[s..<e]" "{}" "{}" _ _ X]
  by (cases "block_use_def instrs s e") (simp add: block_use_def_def)

text \<open>The backward walk over a block keeps, for every live register, a bound on its end.\<close>

lemma walk_uses:
  assumes "fold (walk_use i) us (p, e) = (p', e')" and "\<forall>v\<in>p. i \<le> e v"
  shows "p' = p \<union> set us" "\<forall>v. e v \<le> e' v" "\<forall>v\<in>p'. i \<le> e' v"
proof -
  have "p' = p \<union> set us \<and> (\<forall>v. e v \<le> e' v) \<and> (\<forall>v\<in>p'. i \<le> e' v)"
    using assms
  proof (induction us arbitrary: p e)
    case (Cons u us)
    obtain p1 e1 where first: "walk_use i u (p, e) = (p1, e1)" by (cases "walk_use i u (p, e)")
    have p1: "p1 = insert u p" "\<forall>v. e v \<le> e1 v" "\<forall>v\<in>p1. i \<le> e1 v"
      using first Cons.prems(2) by (auto simp: walk_use_def split: if_splits)
    have "p' = p1 \<union> set us \<and> (\<forall>v. e1 v \<le> e' v) \<and> (\<forall>v\<in>p'. i \<le> e' v)"
      using Cons.prems(1) first p1(3) by (intro Cons.IH) auto
    with p1 show ?case by (auto intro: order_trans)
  qed simp
  then show "p' = p \<union> set us" "\<forall>v. e v \<le> e' v" "\<forall>v\<in>p'. i \<le> e' v" by auto
qed

lemma walk_instr_step:
  assumes "walk_instr instrs i (p, e) = (p', e')" and "\<forall>v\<in>p. Suc i \<le> e v"
  shows "p' = transfer_instr (instrs ! i) p" "\<forall>v. e v \<le> e' v" "\<forall>v\<in>p'. i \<le> e' v"
proof -
  let ?p = "case def_reg (instrs ! i) of None \<Rightarrow> p | Some d \<Rightarrow> p - {d}"
  have eq: "fold (walk_use i) (uses (instrs ! i)) (?p, e) = (p', e')"
    using assms(1) by (simp add: walk_instr_def use_regs_uses)
  have b: "\<forall>v\<in>?p. i \<le> e v" using assms(2) by (auto split: option.splits)
  show "p' = transfer_instr (instrs ! i) p"
    using walk_uses(1) [OF eq b] by (auto simp: transfer_instr_def split: option.splits)
  show "\<forall>v. e v \<le> e' v" "\<forall>v\<in>p'. i \<le> e' v" using walk_uses(2,3) [OF eq b] by auto
qed

lemma walk_range:
  assumes "s \<le> t" "fold (walk_instr instrs) (rev [s..<t]) (p, e) = (p', e')" "\<forall>v\<in>p. t \<le> e v"
  shows "p' = live_through instrs [s..<t] p \<and> (\<forall>v. e v \<le> e' v) \<and> (\<forall>v\<in>p'. s \<le> e' v) \<and>
    (\<forall>i v. s \<le> i \<longrightarrow> i < t \<longrightarrow> v \<in> live_through instrs [Suc i..<t] p \<longrightarrow> Suc i \<le> e' v)"
  using assms
proof (induction s arbitrary: p' e' rule: inc_induct)
  case (step s)
  obtain p1 e1 where later: "fold (walk_instr instrs) (rev [Suc s..<t]) (p, e) = (p1, e1)"
    by (cases "fold (walk_instr instrs) (rev [Suc s..<t]) (p, e)")
  note ih = step.IH [OF later step.prems(2)]
  have split: "[s..<t] = s # [Suc s..<t]" using step.hyps by (simp add: upt_conv_Cons)
  have first: "walk_instr instrs s (p1, e1) = (p', e')"
    using step.prems(1) later by (simp add: split)
  have "\<forall>v\<in>p1. Suc s \<le> e1 v" using ih by blast
  note w = walk_instr_step [OF first this]
  have p1: "p1 = live_through instrs [Suc s..<t] p" using ih by blast
  have up: "e v \<le> e' v" "e1 v \<le> e' v" for v using ih w(2) order_trans by blast+
  have "Suc i \<le> e' v" if "s \<le> i" "i < t" "v \<in> live_through instrs [Suc i..<t] p" for i v
  proof (cases "i = s")
    case True
    then have "Suc s \<le> e1 v" using ih p1 that(3) by blast
    then show ?thesis using True up(2) [of v] by simp
  next
    case False
    then have "Suc i \<le> e1 v" using ih that by auto
    then show ?thesis using up(2) [of v] by simp
  qed
  then show ?case using w up p1 by (simp add: split)
qed simp

lemma walk_block_bounds:
  assumes "blk_start b \<le> blk_end b"
  shows "e v \<le> walk_block instrs b out e v"
    and "blk_start b \<le> i \<Longrightarrow> i < blk_end b \<Longrightarrow> v \<in> live_through instrs [Suc i..<blk_end b] out \<Longrightarrow>
      Suc i \<le> walk_block instrs b out e v"
proof -
  let ?e = "\<lambda>v. if v \<in> out \<and> e v < blk_end b then blk_end b else e v"
  obtain p' e' where w: "fold (walk_instr instrs) (rev [blk_start b..<blk_end b]) (out, ?e) = (p', e')"
    by (cases "fold (walk_instr instrs) (rev [blk_start b..<blk_end b]) (out, ?e)")
  have "\<forall>v\<in>out. blk_end b \<le> ?e v" by auto
  note range = walk_range [OF assms w this]
  have e': "walk_block instrs b out e = e'" by (simp add: walk_block_def w)
  have "e v \<le> ?e v" by simp
  also have "?e v \<le> e' v" using range by blast
  finally show "e v \<le> walk_block instrs b out e v" by (simp add: e')
  show "Suc i \<le> walk_block instrs b out e v"
    if "blk_start b \<le> i" "i < blk_end b" "v \<in> live_through instrs [Suc i..<blk_end b] out"
    using range that by (simp add: e')
qed

lemma walk_blocks_bounds:
  assumes "\<forall>bi\<in>set bs. blk_start (blocks ! bi) \<le> blk_end (blocks ! bi)"
  shows "e v \<le> fold (\<lambda>bi. walk_block instrs (blocks ! bi) (outs ! bi)) bs e v"
    and "bi \<in> set bs \<Longrightarrow> blk_start (blocks ! bi) \<le> i \<Longrightarrow> i < blk_end (blocks ! bi) \<Longrightarrow>
      v \<in> live_through instrs [Suc i..<blk_end (blocks ! bi)] (outs ! bi) \<Longrightarrow>
      Suc i \<le> fold (\<lambda>bi. walk_block instrs (blocks ! bi) (outs ! bi)) bs e v"
proof -
  have up: "e v \<le> fold (\<lambda>bi. walk_block instrs (blocks ! bi) (outs ! bi)) bs e v"
    if "\<forall>bi\<in>set bs. blk_start (blocks ! bi) \<le> blk_end (blocks ! bi)" for bs e
    using that
  proof (induction bs arbitrary: e)
    case (Cons b bs)
    have "e v \<le> walk_block instrs (blocks ! b) (outs ! b) e v"
      using Cons.prems by (intro walk_block_bounds(1)) simp
    also have "\<dots> \<le> fold (\<lambda>bi. walk_block instrs (blocks ! bi) (outs ! bi)) bs
        (walk_block instrs (blocks ! b) (outs ! b) e) v"
      using Cons.prems by (intro Cons.IH) simp
    finally show ?case by simp
  qed simp
  show "e v \<le> fold (\<lambda>bi. walk_block instrs (blocks ! bi) (outs ! bi)) bs e v"
    by (rule up [OF assms])
  show "Suc i \<le> fold (\<lambda>bi. walk_block instrs (blocks ! bi) (outs ! bi)) bs e v"
    if bi: "bi \<in> set bs" and i: "blk_start (blocks ! bi) \<le> i" "i < blk_end (blocks ! bi)"
      and v: "v \<in> live_through instrs [Suc i..<blk_end (blocks ! bi)] (outs ! bi)"
  proof -
    obtain as cs where bs: "bs = as @ bi # cs" using bi by (meson split_list)
    let ?e = "fold (\<lambda>bi. walk_block instrs (blocks ! bi) (outs ! bi)) as e"
    have "Suc i \<le> walk_block instrs (blocks ! bi) (outs ! bi) ?e v"
      using i v by (intro walk_block_bounds(2)) auto
    also have "\<dots> \<le> fold (\<lambda>bi. walk_block instrs (blocks ! bi) (outs ! bi)) cs
        (walk_block instrs (blocks ! bi) (outs ! bi) ?e) v"
      using assms by (intro up) (simp add: bs)
    finally show ?thesis by (simp add: bs)
  qed
qed

lemma build_blocks_length [simp]:
  "length (build_blocks instrs lbls) = length (block_starts instrs lbls)"
  by (simp add: build_blocks_def Let_def)

lemma build_blocks_nth:
  assumes "bi < length (block_starts instrs lbls)"
  shows "blk_start (build_blocks instrs lbls ! bi) = block_starts instrs lbls ! bi"
    and "blk_end (build_blocks instrs lbls ! bi) =
      end_of_block (block_starts instrs lbls) (length instrs) bi"
    and "blk_succs (build_blocks instrs lbls ! bi) = block_successors instrs lbls
      (block_starts instrs lbls) (inst2block (block_starts instrs lbls) (length instrs)) bi"
    and "use_bits (build_blocks instrs lbls ! bi) \<union> (X - def_bits (build_blocks instrs lbls ! bi)) =
      live_through instrs [block_starts instrs lbls ! bi..<
        end_of_block (block_starts instrs lbls) (length instrs) bi] X"
  using assms by (simp_all add: build_blocks_def Let_def block_use_def_live)

lemma block_use_def_occurring:
  assumes "e \<le> length instrs"
  shows "fst (block_use_def instrs s e) \<subseteq> set (occurring instrs live_in)"
proof -
  have "live_through instrs is {} \<subseteq> (\<Union>i\<in>set is. set (uses (instrs ! i)))" for "is"
    by (induction "is") (auto simp: transfer_instr_def)
  then have "fst (block_use_def instrs s e) \<subseteq> (\<Union>i\<in>{s..<e}. set (uses (instrs ! i)))"
    using block_use_def_live [of instrs s e "{}"] by fastforce
  also have "\<dots> \<subseteq> set (occurring instrs live_in)"
    using assms by (fastforce simp: occurring_def use_regs_uses)
  finally show ?thesis .
qed

lemma label_to_block_bound:
  assumes "label_to_block lbls (inst2block (block_starts instrs lbls) (length instrs)) (length instrs) l = Some bj"
  shows "bj < length (block_starts instrs lbls)"
proof -
  obtain idx where "idx < length instrs"
    "bj = inst2block (block_starts instrs lbls) (length instrs) ! idx"
    using assms by (auto simp: label_to_block_def split: option.splits if_splits)
  moreover obtain bi where "in_block (block_starts instrs lbls) (length instrs) bi idx"
    using in_block_exists [OF \<open>idx < length instrs\<close>] .
  ultimately show ?thesis by (simp add: inst2block_nth) (simp add: in_block_def)
qed

lemma block_successors_bound:
  "set (block_successors instrs lbls (block_starts instrs lbls)
     (inst2block (block_starts instrs lbls) (length instrs)) bi) \<subseteq> {..<length (block_starts instrs lbls)}"
  by (auto simp: block_successors_def Let_def dest: label_to_block_bound
      split: instruction.splits if_splits)

lemma entry_block:
  assumes "instrs \<noteq> []"
  shows "inst2block (block_starts instrs lbls) (length instrs) ! 0 = 0"
  using assms block_starts_0 [of instrs lbls] end_of_block_bounds(1) [OF assms, of 0 lbls]
  by (intro inst2block_nth) (auto simp: in_block_def)

lemma build_blocks_within:
  assumes "instrs \<noteq> []"
  shows "blocks_within (set (occurring instrs live_in))
    (inst2block (block_starts instrs lbls) (length instrs) ! 0) (set live_in) (build_blocks instrs lbls)"
  unfolding blocks_within_def entry_block [OF assms]
proof (intro conjI ballI)
  fix b assume "b \<in> set (build_blocks instrs lbls)"
  then obtain bi where bi: "bi < length (block_starts instrs lbls)" "b = build_blocks instrs lbls ! bi"
    by (auto simp: in_set_conv_nth)
  show "use_bits b \<subseteq> set (occurring instrs live_in)"
    using bi block_use_def_occurring [OF end_of_block_bounds(2) [OF assms bi(1)]]
    by (simp add: build_blocks_def Let_def)
  show "set (blk_succs b) \<subseteq> {..<length (build_blocks instrs lbls)}"
    using bi block_successors_bound by (simp add: build_blocks_nth)
qed (use block_starts_0 [of instrs lbls] in \<open>auto simp: occurring_def\<close>)

text \<open>A solution of the dataflow equations contains what is live along some path.\<close>

lemma flow_edge:
  assumes sol: "\<forall>b < length (build_blocks instrs lbls). solved (build_blocks instrs lbls) entry seed ins outs b"
    and b: "in_block (block_starts instrs lbls) (length instrs) bi i" and i: "i < length instrs"
    and j: "j \<in> set (next_instrs instrs lbls i)"
    and live: "\<And>bj. in_block (block_starts instrs lbls) (length instrs) bj j \<Longrightarrow>
      v \<in> live_through instrs [j..<end_of_block (block_starts instrs lbls) (length instrs) bj] (outs ! bj)"
  shows "v \<in> live_through instrs [Suc i..<end_of_block (block_starts instrs lbls) (length instrs) bi] (outs ! bi)"
  using next_instrs_block [OF b j i]
proof (elim disjE conjE bexE)
  assume "j = Suc i" "Suc i < end_of_block (block_starts instrs lbls) (length instrs) bi"
  then show ?thesis using live [of bi] b by (simp add: in_block_def)
next
  fix bj assume e: "Suc i = end_of_block (block_starts instrs lbls) (length instrs) bi"
    and bj: "bj \<in> set (block_successors instrs lbls (block_starts instrs lbls)
               (inst2block (block_starts instrs lbls) (length instrs)) bi)"
      "bj < length (block_starts instrs lbls)" "block_starts instrs lbls ! bj = j"
  have "in_block (block_starts instrs lbls) (length instrs) bj j"
    using bj end_of_block_bounds(1) [of instrs bj lbls] i by (cases instrs) (auto simp: in_block_def)
  from live [OF this] have "v \<in> ins ! bj"
    using sol bj build_blocks_nth(4) [OF bj(2), of "outs ! bj"] by (auto simp: solved_def flow_in_def)
  then show ?thesis
    using sol b bj(1) by (auto simp: in_block_def solved_def succ_union_def build_blocks_nth(3) e [symmetric])
qed

lemma live_before_flow:
  assumes "live_before instrs lbls i v"
    and sol: "\<forall>b < length (build_blocks instrs lbls). solved (build_blocks instrs lbls) entry seed ins outs b"
    and "in_block (block_starts instrs lbls) (length instrs) bi i"
  shows "v \<in> live_through instrs [i..<end_of_block (block_starts instrs lbls) (length instrs) bi] (outs ! bi)"
  using assms(1,3)
proof (induction arbitrary: bi)
  case (live_use i v)
  then show ?case by (simp add: in_block_def upt_conv_Cons transfer_instr_def)
next
  case (live_pass i v j)
  note flow_edge [OF sol live_pass.prems live_pass.hyps(1,3) live_pass.IH]
  then show ?case
    using live_pass.prems live_pass.hyps(2) by (auto simp: in_block_def upt_conv_Cons transfer_instr_def)
qed

lemma live_after_flow:
  assumes "live_after instrs lbls i v" "i < length instrs"
    and sol: "\<forall>b < length (build_blocks instrs lbls). solved (build_blocks instrs lbls) entry seed ins outs b"
    and b: "in_block (block_starts instrs lbls) (length instrs) bi i"
  shows "v \<in> live_through instrs [Suc i..<end_of_block (block_starts instrs lbls) (length instrs) bi] (outs ! bi)"
proof -
  obtain j where "j \<in> set (next_instrs instrs lbls i)" "live_before instrs lbls j v"
    using assms(1) by (auto simp: live_after_def)
  then show ?thesis by (intro flow_edge [OF sol b assms(2)] live_before_flow [OF _ sol])
qed

text \<open>The first and the last definition of a register.\<close>

lemma def_first_upto:
  fixes instrs m
  defines "t \<equiv> fold (\<lambda>i t. case def_reg (instrs ! i) of
       None \<Rightarrow> t
     | Some d \<Rightarrow> (case t d of None \<Rightarrow> t(d \<mapsto> i) | Some j \<Rightarrow> if i < j then t(d \<mapsto> i) else t))
     [0..<m] (\<lambda>_. None)"
  shows "case t v of
      None \<Rightarrow> \<forall>i < m. def_reg (instrs ! i) \<noteq> Some v
    | Some i \<Rightarrow> i < m \<and> def_reg (instrs ! i) = Some v \<and> (\<forall>j < i. def_reg (instrs ! j) \<noteq> Some v)"
  unfolding t_def
  by (induction m) (auto simp: less_Suc_eq split: option.splits if_splits)

lemma def_last_upto:
  fixes instrs m
  defines "t \<equiv> fold (\<lambda>i t. case def_reg (instrs ! i) of
       None \<Rightarrow> t
     | Some d \<Rightarrow> (case t d of None \<Rightarrow> t(d \<mapsto> i) | Some j \<Rightarrow> if j < i then t(d \<mapsto> i) else t))
     [0..<m] (\<lambda>_. None)"
  shows "case t v of
      None \<Rightarrow> \<forall>i < m. def_reg (instrs ! i) \<noteq> Some v
    | Some i \<Rightarrow> i < m \<and> def_reg (instrs ! i) = Some v \<and> (\<forall>j < m. i < j \<longrightarrow> def_reg (instrs ! j) \<noteq> Some v)"
  unfolding t_def
  by (induction m) (auto simp: less_Suc_eq split: option.splits if_splits)

lemma def_first_None: "def_first instrs v = None \<longleftrightarrow> (\<forall>i < length instrs. def_reg (instrs ! i) \<noteq> Some v)"
  using def_first_upto [where instrs = instrs and m = "length instrs" and v = v]
  by (auto simp: def_first_def split: option.splits)

lemma def_first_Some:
  "def_first instrs v = Some i \<Longrightarrow>
   i < length instrs \<and> def_reg (instrs ! i) = Some v \<and> (\<forall>j < i. def_reg (instrs ! j) \<noteq> Some v)"
  using def_first_upto [where instrs = instrs and m = "length instrs" and v = v]
  by (simp add: def_first_def)

lemma def_last_covers:
  assumes "def_reg (instrs ! i) = Some v" "i < length instrs"
  obtains d where "def_last instrs v = Some d" "i \<le> d"
  using def_last_upto [where instrs = instrs and m = "length instrs" and v = v] assms
  by (fastforce simp: def_last_def not_less split: option.splits)

lemma interval_of_bounds:
  "li_start (interval_of instrs e v) = (case def_first instrs v of Some i \<Rightarrow> i | None \<Rightarrow> 0)"
  "e v \<le> li_end (interval_of instrs e v)"
  "li_start (interval_of instrs e v) < li_end (interval_of instrs e v)"
  "def_last instrs v = Some d \<Longrightarrow> d < li_end (interval_of instrs e v)"
  by (auto simp: interval_of_def Let_def split: option.splits)

lemma fold_max: "fold max xs (0::nat) = Max (insert 0 (set xs))"
  using Max.set_eq_fold [of 0 xs] by simp

lemma fold_max_less: "0 < b \<Longrightarrow> fold max xs 0 < b \<longleftrightarrow> (\<forall>x\<in>set xs. x < (b::nat))"
  by (simp add: fold_max)

lemma fold_max_ge: "x \<in> set xs \<Longrightarrow> x \<le> fold max xs (0::nat)"
  by (simp add: fold_max)

lemma live_before_occurring: "live_before instrs lbls i v \<Longrightarrow> v \<in> set (occurring instrs live_in)"
  by (induction rule: live_before.induct) (auto simp: occurring_def use_regs_uses intro!: bexI [OF _ nth_mem])

lemma def_occurring:
  "i < length instrs \<Longrightarrow> def_reg (instrs ! i) = Some v \<Longrightarrow> v \<in> set (occurring instrs live_in)"
  by (auto simp: occurring_def intro!: bexI [OF _ nth_mem])

definition end_indices :: "instruction list \<Rightarrow> block_info list \<Rightarrow> usize set list \<Rightarrow> usize \<Rightarrow> usize" where
  "end_indices instrs blocks outs =
     fold (\<lambda>bi. walk_block instrs (blocks ! bi) (outs ! bi)) [0..<length blocks] (\<lambda>_. 0)"

lemma analysis_result:
  assumes "instrs \<noteq> []"
  obtains ins outs entry seed where
    "\<forall>b < length (build_blocks instrs lbls). solved (build_blocks instrs lbls) entry seed ins outs b"
    and "analyze_liveness_cfg_dense instrs lbls live_in =
      (let vrs = occurring instrs live_in in
       if vrs = [] then Some [] else if no_reg \<le> fold max vrs 0 then None
       else Some (map (\<lambda>v. if v \<in> set vrs
                           then Some (interval_of instrs (end_indices instrs (build_blocks instrs lbls) outs) v)
                           else None) [0..<Suc (fold max vrs 0)]))"
proof -
  obtain ins outs where
    "flow_loop (build_blocks instrs lbls) (inst2block (block_starts instrs lbls) (length instrs) ! 0) (set live_in)
       = Some (ins, outs, False)"
    and "\<forall>b < length (build_blocks instrs lbls). solved (build_blocks instrs lbls)
       (inst2block (block_starts instrs lbls) (length instrs) ! 0) (set live_in) ins outs b"
    by (rule flow_loop_stops [OF build_blocks_within [OF assms, of live_in lbls]])
  with assms show thesis
    by (intro that) (auto simp: analyze_liveness_cfg_dense_def end_indices_def Let_def)
qed

lemma end_indices_cover:
  assumes "live_after instrs lbls i v" "i < length instrs"
    and sol: "\<forall>b < length (build_blocks instrs lbls). solved (build_blocks instrs lbls) entry seed ins outs b"
  shows "i < end_indices instrs (build_blocks instrs lbls) outs v"
proof -
  obtain bi where b: "in_block (block_starts instrs lbls) (length instrs) bi i"
    using in_block_exists [OF assms(2)] .
  have ne: "instrs \<noteq> []" using assms(2) by auto
  have "Suc i \<le> fold (\<lambda>bi. walk_block instrs (build_blocks instrs lbls ! bi) (outs ! bi))
      [0..<length (build_blocks instrs lbls)] (\<lambda>_. 0) v"
    using b live_after_flow [OF assms(1,2) sol b] end_of_block_bounds(1) [OF ne]
    by (intro walk_blocks_bounds(2) [of _ _ bi])
      (auto simp: in_block_def build_blocks_nth intro: order.strict_implies_order)
  then show ?thesis by (simp add: end_indices_def)
qed

lemma analysis_occurring:
  assumes "analyze_liveness_cfg_dense instrs lbls live_in = Some ivs" "v \<in> set (occurring instrs live_in)"
    and "0 < length instrs"
  shows "\<exists>iv. v < length ivs \<and> ivs ! v = Some iv"
proof -
  obtain ins outs entry seed where
    "analyze_liveness_cfg_dense instrs lbls live_in =
      (let vrs = occurring instrs live_in in
       if vrs = [] then Some [] else if no_reg \<le> fold max vrs 0 then None
       else Some (map (\<lambda>v. if v \<in> set vrs
                           then Some (interval_of instrs (end_indices instrs (build_blocks instrs lbls) outs) v)
                           else None) [0..<Suc (fold max vrs 0)]))"
    using assms(3) by (auto intro: analysis_result [of instrs lbls live_in])
  with assms fold_max_ge [OF assms(2)] show ?thesis
    by (auto simp: Let_def nth_append split: if_splits)
qed

text \<open>C39: The analysis fails only on its assertion about the register numbers; in particular the dataflow
  loop stops on every input.
\<close>

theorem liveness_analysis_stops:
  "analyze_liveness_cfg_dense instrs lbls live_in = None \<longleftrightarrow>
     instrs \<noteq> [] \<and> \<not> list_all (\<lambda>v. v < no_reg) (occurring instrs live_in)"
proof (cases "instrs = []")
  case False
  obtain ins outs entry seed where
    "analyze_liveness_cfg_dense instrs lbls live_in =
      (let vrs = occurring instrs live_in in
       if vrs = [] then Some [] else if no_reg \<le> fold max vrs 0 then None
       else Some (map (\<lambda>v. if v \<in> set vrs
                           then Some (interval_of instrs (end_indices instrs (build_blocks instrs lbls) outs) v)
                           else None) [0..<Suc (fold max vrs 0)]))"
    by (rule analysis_result [OF False, of lbls live_in])
  moreover have "no_reg \<le> fold max vrs 0 \<longleftrightarrow> \<not> (\<forall>v\<in>set vrs. v < no_reg)" for vrs
    using fold_max_less [of no_reg vrs] by (auto simp: no_reg_def not_le [symmetric])
  ultimately show ?thesis
    using False by (auto simp: Let_def list_all_iff)
qed (simp add: analyze_liveness_cfg_dense_def)

text \<open>
  The interval of a register covers each of its definitions and reaches past every instruction
  after which the register is live on some path; it starts at the register's first definition in
  layout order, and at the entry when there is none.
\<close>

theorem intervals_cover_liveness:
  assumes "analyze_liveness_cfg_dense instrs lbls live_in = Some ivs" "i < length instrs"
    and "live_after instrs lbls i v \<or> def_reg (instrs ! i) = Some v"
  shows "\<exists>iv. v < length ivs \<and> ivs ! v = Some iv \<and> i < li_end iv \<and>
    li_start iv = (case def_first instrs v of Some d \<Rightarrow> d | None \<Rightarrow> 0) \<and>
    (def_reg (instrs ! i) = Some v \<longrightarrow> li_start iv \<le> i)"
proof -
  let ?vrs = "occurring instrs live_in"
  obtain ins outs entry seed where
    sol: "\<forall>b < length (build_blocks instrs lbls). solved (build_blocks instrs lbls) entry seed ins outs b"
    and res: "analyze_liveness_cfg_dense instrs lbls live_in =
      (let vrs = occurring instrs live_in in
       if vrs = [] then Some [] else if no_reg \<le> fold max vrs 0 then None
       else Some (map (\<lambda>v. if v \<in> set vrs
                           then Some (interval_of instrs (end_indices instrs (build_blocks instrs lbls) outs) v)
                           else None) [0..<Suc (fold max vrs 0)]))"
    using assms(2) by (auto intro: analysis_result [of instrs lbls live_in])
  have v: "v \<in> set ?vrs"
    using assms(2,3) by (auto simp: live_after_def intro: live_before_occurring def_occurring)
  let ?iv = "interval_of instrs (end_indices instrs (build_blocks instrs lbls) outs) v"
  have "v < length ivs \<and> ivs ! v = Some ?iv"
    using res assms(1) v fold_max_ge [OF v] by (auto simp: Let_def nth_append split: if_splits)
  moreover have "i < li_end ?iv"
    using assms(3)
  proof
    assume "live_after instrs lbls i v"
    from end_indices_cover [OF this assms(2) sol] show ?thesis
      using interval_of_bounds(2) less_le_trans by blast
  next
    assume "def_reg (instrs ! i) = Some v"
    then obtain d where "def_last instrs v = Some d" "i \<le> d"
      using def_last_covers assms(2) by blast
    then show ?thesis
      using interval_of_bounds(4) [of instrs v d] by (auto intro: le_less_trans)
  qed
  moreover have "li_start ?iv \<le> i" if "def_reg (instrs ! i) = Some v"
  proof (cases "def_first instrs v")
    case (Some d)
    then have "\<not> i < d" using that def_first_Some by blast
    with Some show ?thesis by (simp add: interval_of_bounds(1))
  qed (simp add: interval_of_bounds(1))
  ultimately show ?thesis
    by (intro exI [of _ ?iv]) (simp add: interval_of_bounds(1))
qed

end
