(* ===== verification/Linear_Scan.thy ===== *)
theory Linear_Scan
  imports Liveness "HOL-Library.Multiset"
begin

text \<open>
  The linear-scan register allocation of \<open>stoffel-lang/src/register_allocator.rs\<close>: the candidates
  in the order of a counting sort, the expiry of intervals with \<open>swap_remove\<close>, the pools of clear
  and secret registers with the reserve for the scratch registers of spill code, the choice of a
  victim, and the three outcomes.  A set of registers (\<open>BTreeSet\<close>) is a finite set, whose first
  element is its minimum; the precoloured registers (\<open>HashMap\<close>) are an association list.
\<close>

section \<open>Outcomes and pools\<close>

text \<open>\<open>Panicked\<close> stands for the \<open>expect\<close> on the secrecy of a register.\<close>

datatype allocation_error =
    PoolExhausted usize bool
  | NeedsSpilling "usize list"
  | Panicked

definition no_unspillable :: usize where
  "no_unspillable = usize_max"

definition classify :: "usize \<Rightarrow> usize \<Rightarrow> usize \<Rightarrow> bool option" where
  "classify k_clear k_secret r =
     (if 1 \<le> r \<and> r < k_clear then Some False
      else if k_clear \<le> r \<and> r < k_clear + k_secret then Some True
      else None)"

record scan_state =
  free_clear :: "usize set"
  free_secret :: "usize set"
  allocation :: "usize option list"
  spilled :: "usize list"
  active :: "(usize \<times> usize \<times> usize) list"

section \<open>The candidates, in the order of their starts\<close>

definition candidates ::
  "live_interval option list \<Rightarrow> (usize \<times> usize) list \<Rightarrow> (usize \<times> usize \<times> usize) list" where
  "candidates intervals precolored =
     concat (map (\<lambda>v. case intervals ! v of
         None \<Rightarrow> []
       | Some iv \<Rightarrow> if v \<in> fst ` set precolored then [] else [(v, li_start iv, li_end iv)])
       [0..<length intervals])"

definition start_of :: "usize \<times> usize \<times> usize \<Rightarrow> usize" where
  "start_of c = fst (snd c)"

definition count_starts :: "(usize \<times> usize \<times> usize) list \<Rightarrow> nat list \<Rightarrow> nat list" where
  "count_starts cands offsets =
     fold (\<lambda>c off. off[Suc (start_of c) := Suc (off ! Suc (start_of c))]) cands offsets"

definition prefix_sums :: "nat list \<Rightarrow> nat list" where
  "prefix_sums offsets =
     fold (\<lambda>s off. off[s := off ! s + off ! (s - 1)]) [1..<length offsets] offsets"

definition place ::
  "(usize \<times> usize \<times> usize) list \<Rightarrow> nat list \<times> (usize \<times> usize \<times> usize) list \<Rightarrow>
   nat list \<times> (usize \<times> usize \<times> usize) list" where
  "place cands st =
     fold (\<lambda>c (off, order). (off[start_of c := Suc (off ! start_of c)], order[off ! start_of c := c])) cands st"

definition scan_order ::
  "live_interval option list \<Rightarrow> (usize \<times> usize) list \<Rightarrow> (usize \<times> usize \<times> usize) list" where
  "scan_order intervals precolored =
     (let cands = candidates intervals precolored;
          total = length cands;
          max_start = fold max (map start_of cands) 0;
          offsets = prefix_sums (count_starts cands (replicate (max_start + 2) 0))
      in snd (place cands (offsets, replicate total (0, 0, 0))))"

section \<open>The sweep\<close>

definition swap_remove :: "'a list \<Rightarrow> nat \<Rightarrow> 'a list" where
  "swap_remove xs i = (butlast xs)[i := last xs]"

lemma length_swap_remove [simp]: "length (swap_remove xs i) = length xs - 1"
  by (simp add: swap_remove_def)

definition release :: "usize \<Rightarrow> usize \<Rightarrow> usize \<Rightarrow> scan_state \<Rightarrow> scan_state" where
  "release k_clear k_secret reg st =
     (case classify k_clear k_secret reg of
        Some True \<Rightarrow> st\<lparr>free_secret := insert reg (free_secret st)\<rparr>
      | Some False \<Rightarrow> st\<lparr>free_clear := insert reg (free_clear st)\<rparr>
      | None \<Rightarrow> st)"

function expire :: "usize \<Rightarrow> usize \<Rightarrow> usize \<Rightarrow> nat \<Rightarrow> scan_state \<Rightarrow> scan_state" where
  "expire k_clear k_secret start i st =
     (if i < length (active st) then
        (if fst (active st ! i) \<le> start then
           expire k_clear k_secret start i
             (release k_clear k_secret (fst (snd (active st ! i))) st
               \<lparr>active := swap_remove (active st) i\<rparr>)
         else expire k_clear k_secret start (Suc i) st)
      else st)"
  by pat_completeness auto
termination
  by (relation "measure (\<lambda>(_, _, _, i, st). length (active st) - i)") auto

declare expire.simps [simp del]

definition take_lowest :: "bool \<Rightarrow> scan_state \<Rightarrow> usize \<times> scan_state" where
  "take_lowest secret_vr st =
     (if secret_vr then
        (let r = Min (free_secret st) in (r, st\<lparr>free_secret := free_secret st - {r}\<rparr>))
      else
        (let r = Min (free_clear st) in (r, st\<lparr>free_clear := free_clear st - {r}\<rparr>)))"

definition find_victim ::
  "usize \<Rightarrow> usize \<Rightarrow> usize \<Rightarrow> bool \<Rightarrow> (usize \<times> usize \<times> usize) list \<Rightarrow> nat option" where
  "find_victim k_clear k_secret unspillable_start secret_vr act =
     fold (\<lambda>idx victim. case act ! idx of (e, reg, vr) \<Rightarrow>
         if classify k_clear k_secret reg = Some secret_vr \<and> vr < unspillable_start \<and>
            (case victim of None \<Rightarrow> True | Some best \<Rightarrow> fst (act ! best) < e)
         then Some idx else victim)
       [0..<length act] None"

definition assign :: "usize \<Rightarrow> usize \<Rightarrow> usize \<Rightarrow> scan_state \<Rightarrow> scan_state" where
  "assign vr e reg st =
     st\<lparr>allocation := (allocation st)[vr := Some reg], active := active st @ [(e, reg, vr)]\<rparr>"

definition steal :: "nat \<Rightarrow> usize \<Rightarrow> usize \<Rightarrow> scan_state \<Rightarrow> scan_state" where
  "steal idx vr e st = (case active st ! idx of (_, reg, victim) \<Rightarrow>
     st\<lparr>spilled := spilled st @ [victim],
        allocation := ((allocation st)[victim := None])[vr := Some reg],
        active := (active st)[idx := (e, reg, vr)]\<rparr>)"

definition scan_step ::
  "usize \<Rightarrow> usize \<Rightarrow> usize \<Rightarrow> bool list \<Rightarrow> usize \<Rightarrow> usize \<times> usize \<times> usize \<Rightarrow> scan_state \<Rightarrow>
   allocation_error + scan_state" where
  "scan_step k_clear k_secret reserve secrecy unspillable_start cand st0 =
     (case cand of (vr, start, e) \<Rightarrow>
      let st = expire k_clear k_secret start 0 st0 in
      case vec_get secrecy vr of
        None \<Rightarrow> Inl Panicked
      | Some secret_vr \<Rightarrow>
          let is_unspillable = (unspillable_start \<le> vr);
              free_len = (if secret_vr then card (free_secret st) else card (free_clear st));
              can_take = (if is_unspillable then 0 < free_len else reserve < free_len)
          in if can_take then
               (case take_lowest secret_vr st of (reg, st') \<Rightarrow> Inr (assign vr e reg st'))
             else
               let victim = find_victim k_clear k_secret unspillable_start secret_vr (active st)
               in if is_unspillable then
                    (case victim of
                       Some idx \<Rightarrow> Inr (steal idx vr e st)
                     | None \<Rightarrow> Inl (PoolExhausted vr secret_vr))
                  else
                    (case victim of
                       Some idx \<Rightarrow> if e < fst (active st ! idx) then Inr (steal idx vr e st)
                                   else Inr (st\<lparr>spilled := spilled st @ [vr]\<rparr>)
                     | None \<Rightarrow> Inr (st\<lparr>spilled := spilled st @ [vr]\<rparr>)))"

fun scan_loop ::
  "usize \<Rightarrow> usize \<Rightarrow> usize \<Rightarrow> bool list \<Rightarrow> usize \<Rightarrow> (usize \<times> usize \<times> usize) list \<Rightarrow> scan_state \<Rightarrow>
   allocation_error + scan_state" where
  "scan_loop k_clear k_secret reserve secrecy unspillable_start [] st = Inr st"
| "scan_loop k_clear k_secret reserve secrecy unspillable_start (c # cs) st =
     rbind (scan_step k_clear k_secret reserve secrecy unspillable_start c st)
       (scan_loop k_clear k_secret reserve secrecy unspillable_start cs)"

definition initial_allocation ::
  "live_interval option list \<Rightarrow> (usize \<times> usize) list \<Rightarrow> usize option list" where
  "initial_allocation intervals precolored =
     fold (\<lambda>(vr, pr) al. al[vr := Some pr]) precolored
       (replicate (max (length intervals) (fold max (map (\<lambda>(vr, _). Suc vr) precolored) 0)) None)"

definition initial_scan ::
  "live_interval option list \<Rightarrow> usize \<Rightarrow> usize \<Rightarrow> (usize \<times> usize) list \<Rightarrow> scan_state" where
  "initial_scan intervals k_clear k_secret precolored =
     (let reserved = snd ` set precolored in
      \<lparr>free_clear = {1..<k_clear} - reserved,
       free_secret = {k_clear..<k_clear + k_secret} - reserved,
       allocation = initial_allocation intervals precolored,
       spilled = [], active = []\<rparr>)"

definition linear_scan_partition ::
  "live_interval option list \<Rightarrow> usize \<Rightarrow> usize \<Rightarrow> usize \<Rightarrow> bool list \<Rightarrow> (usize \<times> usize) list \<Rightarrow> usize \<Rightarrow>
   allocation_error + usize option list" where
  "linear_scan_partition intervals k_clear k_secret reserve secrecy precolored unspillable_start =
     rbind (scan_loop k_clear k_secret reserve secrecy unspillable_start
              (scan_order intervals precolored) (initial_scan intervals k_clear k_secret precolored))
       (\<lambda>st. if spilled st = [] then Inr (allocation st) else Inl (NeedsSpilling (spilled st)))"

section \<open>The counting sort sorts\<close>

definition starts_below :: "(usize \<times> usize \<times> usize) list \<Rightarrow> nat \<Rightarrow> nat" where
  "starts_below cands s = length (filter (\<lambda>c. start_of c < s) cands)"

definition starts_at :: "(usize \<times> usize \<times> usize) list \<Rightarrow> nat \<Rightarrow> nat" where
  "starts_at cands s = length (filter (\<lambda>c. start_of c = s) cands)"

lemma starts_below_Suc: "starts_below cands (Suc s) = starts_below cands s + starts_at cands s"
  by (induction cands) (auto simp: starts_below_def starts_at_def less_Suc_eq)

lemma count_starts_spec:
  "\<forall>c\<in>set cands. Suc (start_of c) < length off \<Longrightarrow>
   length (count_starts cands off) = length off \<and>
   (\<forall>s. Suc s < length off \<longrightarrow> count_starts cands off ! Suc s = off ! Suc s + starts_at cands s) \<and>
   (off \<noteq> [] \<longrightarrow> count_starts cands off ! 0 = off ! 0)"
proof (induction cands arbitrary: off)
  case (Cons c cands)
  let ?off = "off[Suc (start_of c) := Suc (off ! Suc (start_of c))]"
  have "count_starts (c # cands) off = count_starts cands ?off" by (simp add: count_starts_def)
  with Cons.IH [of ?off] Cons.prems show ?case
    by (auto simp: starts_at_def nth_list_update)
qed (simp add: count_starts_def starts_at_def)

lemma prefix_sums_spec:
  assumes "off ! 0 = 0" "\<forall>s. Suc s < length off \<longrightarrow> off ! Suc s = starts_at cands s"
  shows "length (prefix_sums off) = length off"
    and "s < length off \<Longrightarrow> prefix_sums off ! s = starts_below cands s"
proof -
  let ?P = "\<lambda>m. fold (\<lambda>s off. off[s := off ! s + off ! (s - 1)]) [1..<m] off"
  have inv: "length (?P m) = length off \<and>
      (\<forall>s < length off. ?P m ! s = (if s < m then starts_below cands s else off ! s))"
    if "1 \<le> m" "m \<le> length off" for m
    using that
  proof (induction m rule: nat_induct_at_least)
    case base
    then show ?case using assms(1) by (auto simp: starts_below_def less_Suc_eq)
  next
    case (Suc m)
    have ih: "length (?P m) = length off"
      "\<And>s. s < length off \<Longrightarrow> ?P m ! s = (if s < m then starts_below cands s else off ! s)"
      using Suc by auto
    obtain k where m: "m = Suc k" using Suc.hyps by (cases m) auto
    have step: "?P (Suc m) = (?P m)[m := ?P m ! m + ?P m ! k]" using Suc.hyps by (simp add: m)
    have "?P m ! m + ?P m ! k = starts_below cands m"
      using Suc.prems ih(2) [of m] ih(2) [of k] assms(2) by (simp add: m starts_below_Suc)
    then show ?case
      unfolding step using ih Suc.prems by (auto simp: nth_list_update less_Suc_eq)
  qed
  show "length (prefix_sums off) = length off"
    using inv [of "length off"] by (cases "off = []") (auto simp: prefix_sums_def Suc_le_eq)
  show "prefix_sums off ! s = starts_below cands s" if "s < length off"
    using inv [of "length off"] that by (auto simp: prefix_sums_def)
qed

lemma starts_at_append: "starts_at (xs @ ys) s = starts_at xs s + starts_at ys s"
  by (simp add: starts_at_def)

lemma place_inv:
  assumes "cands = ds @ todo"
    and "\<forall>c\<in>set cands. start_of c < length off"
    and "\<forall>s < length off. off ! s = starts_below cands s + starts_at ds s"
    and "length order = length cands"
    and "\<forall>s r. r < starts_at ds s \<longrightarrow> order ! (starts_below cands s + r) = filter (\<lambda>c. start_of c = s) ds ! r"
  shows "length (snd (place todo (off, order))) = length cands \<and>
    (\<forall>s r. r < starts_at cands s \<longrightarrow>
       snd (place todo (off, order)) ! (starts_below cands s + r) = filter (\<lambda>c. start_of c = s) cands ! r)"
  using assms
proof (induction todo arbitrary: ds off order)
  case Nil
  then show ?case by (simp add: place_def)
next
  case (Cons c todo)
  define k where "k = start_of c"
  define p where "p = off ! k"
  have p: "p = starts_below cands k + starts_at ds k"
    using Cons.prems by (simp add: p_def k_def)
  have at: "starts_at cands k = starts_at ds k + Suc (starts_at todo k)"
    using Cons.prems(1) by (simp add: starts_at_append) (simp add: starts_at_def k_def)
  have disj: "starts_below cands s + r \<noteq> p" if "s \<noteq> k" "r < starts_at ds s" for s r
  proof -
    have "starts_at ds s \<le> starts_at cands s" using Cons.prems(1) by (simp add: starts_at_append)
    then have lo: "starts_below cands s + r < starts_below cands (Suc s)"
      using that(2) by (simp add: starts_below_Suc)
    have mono: "starts_below cands i \<le> starts_below cands j" if "i \<le> j" for i j
      using that by (induction j rule: dec_induct) (auto simp: starts_below_Suc)
    show ?thesis
    proof (cases "s < k")
      case True
      then show ?thesis using lo mono [of "Suc s" k] p by simp
    next
      case False
      then have "starts_below cands (Suc k) \<le> starts_below cands s" using that(1) by (intro mono) simp
      then show ?thesis using p at by (simp add: starts_below_Suc)
    qed
  qed
  have bound: "p < length order"
  proof -
    have "starts_below cands (Suc k) \<le> length cands" by (simp add: starts_below_def)
    then show ?thesis using p at Cons.prems(4) by (simp add: starts_below_Suc)
  qed
  have "place (c # todo) (off, order) = place todo (off[k := Suc p], order[p := c])"
    by (simp add: place_def k_def p_def)
  moreover have "\<forall>s < length (off[k := Suc p]).
      off[k := Suc p] ! s = starts_below cands s + starts_at (ds @ [c]) s"
    using Cons.prems(3) p by (auto simp: nth_list_update starts_at_append) (auto simp: starts_at_def k_def)
  moreover have "\<forall>s r. r < starts_at (ds @ [c]) s \<longrightarrow>
      order[p := c] ! (starts_below cands s + r) = filter (\<lambda>c. start_of c = s) (ds @ [c]) ! r"
  proof (intro allI impI)
    fix s r assume r: "r < starts_at (ds @ [c]) s"
    show "order[p := c] ! (starts_below cands s + r) = filter (\<lambda>c. start_of c = s) (ds @ [c]) ! r"
    proof (cases "s = k \<and> r = starts_at ds k")
      case True
      then show ?thesis using bound p by (simp add: starts_at_def k_def)
    next
      case False
      then have "r < starts_at ds s" using r by (auto simp: starts_at_def k_def split: if_splits)
      moreover from this False have "starts_below cands s + r \<noteq> p"
        using disj [of s r] p by (cases "s = k") auto
      ultimately show ?thesis
        using Cons.prems(5) by (auto simp: starts_at_def nth_append)
    qed
  qed
  ultimately show ?case
    using Cons.IH [of "ds @ [c]" "off[k := Suc p]" "order[p := c]"] Cons.prems(1,2,4) by simp
qed

lemma segments_concat:
  assumes "length order = length cands"
    and "\<forall>s r. r < starts_at cands s \<longrightarrow> order ! (starts_below cands s + r) = filter (\<lambda>c. start_of c = s) cands ! r"
  shows "take (starts_below cands s) order = concat (map (\<lambda>s. filter (\<lambda>c. start_of c = s) cands) [0..<s])"
proof (induction s)
  case 0
  then show ?case by (simp add: starts_below_def)
next
  case (Suc s)
  have "starts_below cands (Suc s) \<le> length order" by (simp add: assms(1) starts_below_def)
  then have "take (starts_at cands s) (drop (starts_below cands s) order) = filter (\<lambda>c. start_of c = s) cands"
    using assms(2) by (intro nth_equalityI) (auto simp: starts_below_Suc starts_at_def)
  then show ?case by (simp add: starts_below_Suc take_add Suc)
qed

lemma segments_sorted:
  assumes "\<forall>c\<in>set cands. start_of c < m"
  shows "concat (map (\<lambda>s. filter (\<lambda>c. start_of c = s) cands) [0..<m]) = sort_key start_of cands"
proof (rule sym, rule properties_for_sort_key)
  let ?B = "\<lambda>m. concat (map (\<lambda>s. filter (\<lambda>c. start_of c = s) cands) [0..<m])"
  have flt: "filter (\<lambda>c. start_of c = k) (?B m) = (if k < m then filter (\<lambda>c. start_of c = k) cands else [])" for k m
    by (induction m) (auto simp: less_Suc_eq filter_empty_conv cong: conj_cong)
  have ms: "filter_mset (\<lambda>c. start_of c < m) (mset cands) = mset (?B m)" for m
  proof (induction m)
    case (Suc m)
    have "filter_mset (\<lambda>c. start_of c < Suc m) (mset cands) =
      filter_mset (\<lambda>c. start_of c < m) (mset cands) + filter_mset (\<lambda>c. start_of c = m) (mset cands)"
      by (induction cands) auto
    then show ?case using Suc by simp
  qed simp
  show "mset (?B m) = mset cands"
    using ms [of m] assms by (metis (mono_tags, lifting) filter_mset_True filter_mset_cong set_mset_mset)
  show "sorted (map start_of (?B m))"
    by (induction m)
      (auto simp: sorted_append less_Suc_eq intro: order.strict_implies_order sorted_map_same)
  show "filter (\<lambda>x. start_of k = start_of x) (?B m) = filter (\<lambda>x. start_of k = start_of x) cands"
    if "k \<in> set (?B m)" for k
    using flt [of "start_of k" m] that by (auto simp: eq_commute [of "start_of k"])
qed

lemma starts_below_all: "\<forall>c\<in>set cands. start_of c < m \<Longrightarrow> starts_below cands m = length cands"
  by (simp add: starts_below_def)

lemma fold_max_bound: "x \<in> set xs \<Longrightarrow> f x \<le> fold max (map f xs) (0::nat)"
  by (rule fold_max_ge) simp

text \<open>The order of the sweep is the stable sort of the candidates by their starts.\<close>

lemma scan_order_sort:
  "scan_order intervals precolored = sort_key start_of (candidates intervals precolored)"
proof -
  define cands where "cands = candidates intervals precolored"
  define m where "m = Suc (fold max (map start_of cands) 0)"
  define off where "off = prefix_sums (count_starts cands (replicate (Suc m) 0))"
  have below: "\<forall>c\<in>set cands. start_of c < m"
    using fold_max_bound [of _ cands start_of] by (auto simp: m_def less_Suc_eq_le)
  have counts: "length (count_starts cands (replicate (Suc m) 0)) = Suc m \<and>
     (\<forall>s. Suc s < Suc m \<longrightarrow> count_starts cands (replicate (Suc m) 0) ! Suc s = starts_at cands s) \<and>
     count_starts cands (replicate (Suc m) 0) ! 0 = 0"
    using count_starts_spec [of cands "replicate (Suc m) 0"] below by auto
  have len: "length off = Suc m"
    using counts by (simp add: off_def prefix_sums_spec(1) [where cands = cands])
  have off: "off ! s = starts_below cands s" if "s < Suc m" for s
    unfolding off_def using counts that by (intro prefix_sums_spec(2)) auto
  let ?order = "snd (place cands (off, replicate (length cands) (0, 0, 0)))"
  have "length ?order = length cands \<and>
    (\<forall>s r. r < starts_at cands s \<longrightarrow>
       ?order ! (starts_below cands s + r) = filter (\<lambda>c. start_of c = s) cands ! r)"
    using below len off
    by (intro place_inv [where ds = "[]"]) (auto simp: starts_at_def less_Suc_eq)
  then have "take (starts_below cands m) ?order =
      concat (map (\<lambda>s. filter (\<lambda>c. start_of c = s) cands) [0..<m])"
    and len': "length ?order = length cands"
    using segments_concat [of ?order cands m] by blast+
  then have "?order = sort_key start_of cands"
    using segments_sorted [OF below] starts_below_all [OF below] by simp
  then show ?thesis
    by (simp add: scan_order_def cands_def off_def m_def Let_def)
qed

lemma candidates_mem:
  "(v, s, e) \<in> set (candidates intervals precolored) \<longleftrightarrow>
     v < length intervals \<and> v \<notin> fst ` set precolored \<and>
     intervals ! v = Some \<lparr>li_start = s, li_end = e\<rparr>"
  by (auto simp: candidates_def split: option.splits) (metis live_interval.surjective old.unit.exhaust)

lemma candidates_vr:
  "v \<in> fst ` set (candidates intervals precolored) \<longleftrightarrow>
     v < length intervals \<and> map_of precolored v = None \<and> intervals ! v \<noteq> None"
proof
  assume "v < length intervals \<and> map_of precolored v = None \<and> intervals ! v \<noteq> None"
  then obtain iv where "v < length intervals" "v \<notin> fst ` set precolored" "intervals ! v = Some iv"
    by (auto simp: map_of_eq_None_iff)
  then have "(v, li_start iv, li_end iv) \<in> set (candidates intervals precolored)"
    by (simp add: candidates_mem)
  then show "v \<in> fst ` set (candidates intervals precolored)" by force
next
  assume "v \<in> fst ` set (candidates intervals precolored)"
  then obtain s e where "(v, s, e) \<in> set (candidates intervals precolored)" by auto
  then show "v < length intervals \<and> map_of precolored v = None \<and> intervals ! v \<noteq> None"
    by (simp add: candidates_mem map_of_eq_None_iff)
qed

lemma candidates_distinct: "distinct (map fst (candidates intervals precolored))"
proof -
  have "distinct (map fst (concat (map (\<lambda>v. case intervals ! v of
         None \<Rightarrow> []
       | Some iv \<Rightarrow> if v \<in> fst ` set precolored then [] else [(v, li_start iv, li_end iv)]) [0..<m]))) \<and>
     fst ` set (concat (map (\<lambda>v. case intervals ! v of
         None \<Rightarrow> []
       | Some iv \<Rightarrow> if v \<in> fst ` set precolored then [] else [(v, li_start iv, li_end iv)]) [0..<m])) \<subseteq> {..<m}"
    for m
    by (induction m) (auto split: option.splits)
  then show ?thesis by (simp add: candidates_def)
qed

section \<open>The invariant of the sweep\<close>

lemma swap_remove_mset:
  assumes "i < length xs"
  shows "add_mset (xs ! i) (mset (swap_remove xs i)) = mset xs"
proof (cases xs rule: rev_cases)
  case (snoc ys y)
  show ?thesis
  proof (cases "i < length ys")
    case True
    then show ?thesis using mset_update [of i ys y]
      by (simp add: snoc swap_remove_def nth_append insert_DiffM add_mset_commute)
  next
    case False
    then show ?thesis using assms by (simp add: snoc swap_remove_def nth_append list_update_beyond)
  qed
qed (use assms in simp)

text \<open>
  The invariant by parts: the vectors grow from the initial allocation \<open>init\<close>, the active list
  holds registers that are assigned and pairwise different, the free registers are of their pool
  and neither reserved nor active, every assigned register is of the pool of its virtual register
  and active unless its interval is over, two intervals with one register do not overlap, and
  what has no register is spilled.  \<open>now\<close> is the start of the interval processed last and \<open>seen\<close>
  the set of the registers processed.
\<close>

definition reg_of :: "usize \<times> usize \<times> usize \<Rightarrow> usize" where
  "reg_of a = fst (snd a)"

definition iv_end :: "live_interval option list \<Rightarrow> usize \<Rightarrow> usize" where
  "iv_end intervals v = li_end (the (intervals ! v))"

definition iv_start :: "live_interval option list \<Rightarrow> usize \<Rightarrow> usize" where
  "iv_start intervals v = li_start (the (intervals ! v))"

definition untouched :: "usize option list \<Rightarrow> usize set \<Rightarrow> usize option list \<Rightarrow> bool" where
  "untouched init seen al \<longleftrightarrow> length al = length init \<and> seen \<subseteq> {..<length init} \<and>
     (\<forall>v < length init. v \<notin> seen \<longrightarrow> al ! v = init ! v)"

definition active_ok ::
  "live_interval option list \<Rightarrow> usize set \<Rightarrow> usize option list \<Rightarrow> (usize \<times> usize \<times> usize) list \<Rightarrow> bool" where
  "active_ok intervals seen al act \<longleftrightarrow> distinct (map reg_of act) \<and>
     (\<forall>e r v. (e, r, v) \<in> set act \<longrightarrow> v \<in> seen \<and> al ! v = Some r \<and> e = iv_end intervals v)"

definition free_ok ::
  "usize \<Rightarrow> usize \<Rightarrow> usize set \<Rightarrow> (usize \<times> usize \<times> usize) list \<Rightarrow> bool \<Rightarrow> usize set \<Rightarrow> bool" where
  "free_ok kc ks reserved act b free \<longleftrightarrow>
     (\<forall>r\<in>free. classify kc ks r = Some b \<and> r \<notin> reserved \<and> r \<notin> reg_of ` set act)"

definition placed_ok ::
  "live_interval option list \<Rightarrow> usize \<Rightarrow> usize \<Rightarrow> bool list \<Rightarrow> usize set \<Rightarrow> usize \<Rightarrow> usize set \<Rightarrow>
   usize option list \<Rightarrow> (usize \<times> usize \<times> usize) list \<Rightarrow> bool" where
  "placed_ok intervals kc ks secrecy reserved now seen al act \<longleftrightarrow>
     (\<forall>v\<in>seen. v < length secrecy \<and> (\<forall>r. al ! v = Some r \<longrightarrow>
        classify kc ks r = Some (secrecy ! v) \<and> r \<notin> reserved \<and>
        (iv_end intervals v \<le> now \<or> (iv_end intervals v, r, v) \<in> set act)))"

definition apart :: "live_interval option list \<Rightarrow> usize set \<Rightarrow> usize option list \<Rightarrow> bool" where
  "apart intervals seen al \<longleftrightarrow>
     (\<forall>v\<in>seen. \<forall>w\<in>seen. \<forall>r. v \<noteq> w \<longrightarrow> al ! v = Some r \<longrightarrow> al ! w = Some r \<longrightarrow>
        iv_end intervals v \<le> iv_start intervals w \<or> iv_end intervals w \<le> iv_start intervals v)"

definition spilled_ok :: "usize \<Rightarrow> usize set \<Rightarrow> usize option list \<Rightarrow> usize list \<Rightarrow> bool" where
  "spilled_ok us seen al sp \<longleftrightarrow>
     (\<forall>v\<in>seen. al ! v = None \<longrightarrow> v \<in> set sp) \<and> (\<forall>v\<in>set sp. v \<in> seen \<and> v < us)"

definition scan_inv ::
  "live_interval option list \<Rightarrow> usize \<Rightarrow> usize \<Rightarrow> bool list \<Rightarrow> usize set \<Rightarrow> usize \<Rightarrow> usize option list \<Rightarrow>
   usize \<Rightarrow> usize set \<Rightarrow> scan_state \<Rightarrow> bool" where
  "scan_inv intervals kc ks secrecy reserved us init now seen st \<longleftrightarrow>
     untouched init seen (allocation st) \<and>
     active_ok intervals seen (allocation st) (active st) \<and>
     free_ok kc ks reserved (active st) True (free_secret st) \<and>
     free_ok kc ks reserved (active st) False (free_clear st) \<and>
     placed_ok intervals kc ks secrecy reserved now seen (allocation st) (active st) \<and>
     apart intervals seen (allocation st) \<and>
     spilled_ok us seen (allocation st) (spilled st)"

lemma release_fields [simp]:
  "allocation (release kc ks r st) = allocation st" "spilled (release kc ks r st) = spilled st"
  "active (release kc ks r st) = active st"
  by (simp_all add: release_def split: option.splits bool.splits)

lemma release_free:
  assumes "classify kc ks r = Some b" "r \<notin> reserved" "r \<notin> reg_of ` set act"
    and "free_ok kc ks reserved act True (free_secret st)" "free_ok kc ks reserved act False (free_clear st)"
  shows "free_ok kc ks reserved act True (free_secret (release kc ks r st))"
    and "free_ok kc ks reserved act False (free_clear (release kc ks r st))"
  using assms by (cases b; simp add: release_def free_ok_def)+

lemma scan_inv_expire_one:
  assumes inv: "scan_inv intervals kc ks secrecy reserved us init start seen st"
    and i: "i < length (active st)" "fst (active st ! i) \<le> start"
  shows "scan_inv intervals kc ks secrecy reserved us init start seen
    (release kc ks (fst (snd (active st ! i))) st\<lparr>active := swap_remove (active st) i\<rparr>)"
proof -
  obtain e r v where a: "active st ! i = (e, r, v)" by (cases "active st ! i")
  let ?act = "swap_remove (active st) i"
  have ms: "mset (active st) = add_mset (e, r, v) (mset ?act)"
    using swap_remove_mset [of i "active st"] i a by simp
  have sets: "set (active st) = insert (e, r, v) (set ?act)"
    using arg_cong [OF ms, of set_mset] by simp
  have act: "active_ok intervals seen (allocation st) (active st)"
    and free: "free_ok kc ks reserved (active st) True (free_secret st)"
      "free_ok kc ks reserved (active st) False (free_clear st)"
    and placed: "placed_ok intervals kc ks secrecy reserved start seen (allocation st) (active st)"
    using inv by (simp_all add: scan_inv_def)
  have "mset (map reg_of (active st)) = mset (r # map reg_of ?act)"
    using arg_cong [OF ms, of "image_mset reg_of"] by (simp add: reg_of_def)
  moreover have "distinct (map reg_of (active st))" using act by (simp add: active_ok_def)
  ultimately have dist: "distinct (r # map reg_of ?act)"
    using mset_eq_imp_distinct_iff by blast
  have v: "v \<in> seen" "allocation st ! v = Some r" "e = iv_end intervals v"
    using act sets by (auto simp: active_ok_def)
  then have cls: "classify kc ks r = Some (secrecy ! v)" "r \<notin> reserved"
    using placed by (auto simp: placed_ok_def)
  have free': "free_ok kc ks reserved ?act True (free_secret st)" "free_ok kc ks reserved ?act False (free_clear st)"
    using free by (auto simp: free_ok_def sets)
  have "r \<notin> reg_of ` set ?act" using dist by simp
  note rel = release_free [OF cls this free']
  have "active_ok intervals seen (allocation st) ?act"
    using act dist by (simp add: active_ok_def sets)
  moreover have "placed_ok intervals kc ks secrecy reserved start seen (allocation st) ?act"
    using placed i(2) a v(3) by (auto simp: placed_ok_def sets)
  ultimately show ?thesis
    using inv rel by (simp add: scan_inv_def a)
qed

lemma scan_inv_expire:
  "scan_inv intervals kc ks secrecy reserved us init start seen st \<Longrightarrow>
   scan_inv intervals kc ks secrecy reserved us init start seen (expire kc ks start i st)"
proof (induction kc ks start i st rule: expire.induct)
  case (1 kc ks start i st)
  show ?case
  proof (cases "i < length (active st) \<and> fst (active st ! i) \<le> start")
    case True
    then show ?thesis
      using 1(1) scan_inv_expire_one [OF 1(3)] by (simp add: expire.simps [of _ _ _ i st])
  next
    case False
    then show ?thesis
      using 1(2,3) by (cases "i < length (active st)") (simp_all add: expire.simps [of _ _ _ i st])
  qed
qed

lemma scan_inv_later:
  "scan_inv intervals kc ks secrecy reserved us init now seen st \<Longrightarrow> now \<le> start \<Longrightarrow>
   scan_inv intervals kc ks secrecy reserved us init start seen st"
  by (auto simp: scan_inv_def placed_ok_def intro: le_trans)

text \<open>
  A register becomes the one of a new interval when no interval that still runs has it: the common
  step of taking a free register and of stealing one.
\<close>

lemma apart_insert:
  assumes "apart intervals seen al" "vr \<notin> seen" "vr < length al"
    and "\<forall>w\<in>seen. al ! w = Some r \<longrightarrow> iv_end intervals w \<le> iv_start intervals vr"
  shows "apart intervals (insert vr seen) (al[vr := Some r])"
  using assms by (auto simp: apart_def nth_list_update)

lemma untouched_insert:
  "untouched init seen al \<Longrightarrow> vr < length init \<Longrightarrow> untouched init (insert vr seen) (al[vr := x])"
  by (auto simp: untouched_def)

lemma spilled_insert:
  assumes "spilled_ok us seen al sp" "vr \<notin> seen"
  shows "vr < length al \<Longrightarrow> spilled_ok us (insert vr seen) (al[vr := Some r]) sp"
    and "vr < us \<Longrightarrow> spilled_ok us (insert vr seen) al (sp @ [vr])"
  using assms by (auto simp: spilled_ok_def nth_list_update)

lemma placed_insert:
  assumes "placed_ok intervals kc ks secrecy reserved now seen al act" "vr \<notin> seen" "vr < length al"
    and "classify kc ks r = Some (secrecy ! vr)" "vr < length secrecy" "r \<notin> reserved"
    and "set act' \<supseteq> set act" "(iv_end intervals vr, r, vr) \<in> set act'"
  shows "placed_ok intervals kc ks secrecy reserved now (insert vr seen) (al[vr := Some r]) act'"
  using assms by (auto simp: placed_ok_def nth_list_update)

lemma not_running:
  assumes "placed_ok intervals kc ks secrecy reserved now seen al act" "r \<notin> reg_of ` set act"
  shows "\<forall>w\<in>seen. al ! w = Some r \<longrightarrow> iv_end intervals w \<le> now"
  using assms by (force simp: placed_ok_def reg_of_def)

lemma scan_inv_assign:
  assumes inv: "scan_inv intervals kc ks secrecy reserved us init (iv_start intervals vr) seen st"
    and vr: "vr \<notin> seen" "vr < length init" "vr < length secrecy"
    and r: "classify kc ks r = Some (secrecy ! vr)" "r \<notin> reserved" "r \<notin> reg_of ` set (active st)"
    and free: "free_secret st' \<subseteq> free_secret st - {r}" "free_clear st' \<subseteq> free_clear st - {r}"
    and same: "allocation st' = allocation st" "spilled st' = spilled st" "active st' = active st"
  shows "scan_inv intervals kc ks secrecy reserved us init (iv_start intervals vr) (insert vr seen)
    (assign vr (iv_end intervals vr) r st')"
proof -
  have len: "vr < length (allocation st)" using inv vr(2) by (simp add: scan_inv_def untouched_def)
  have "active_ok intervals (insert vr seen) ((allocation st)[vr := Some r])
      (active st @ [(iv_end intervals vr, r, vr)])"
    using inv len r(3) vr(1)
    by (fastforce simp: scan_inv_def active_ok_def reg_of_def nth_list_update)
  moreover have "free_ok kc ks reserved (active st @ [(iv_end intervals vr, r, vr)]) True (free_secret st')"
    "free_ok kc ks reserved (active st @ [(iv_end intervals vr, r, vr)]) False (free_clear st')"
    using inv free by (auto simp: scan_inv_def free_ok_def reg_of_def)
  moreover have "placed_ok intervals kc ks secrecy reserved (iv_start intervals vr) (insert vr seen)
      ((allocation st)[vr := Some r]) (active st @ [(iv_end intervals vr, r, vr)])"
    using inv vr len r by (intro placed_insert [of _ _ _ _ _ _ _ _ "active st"]) (auto simp: scan_inv_def)
  moreover have "apart intervals (insert vr seen) ((allocation st)[vr := Some r])"
    using inv vr len not_running [OF _ r(3)] by (intro apart_insert) (auto simp: scan_inv_def)
  ultimately show ?thesis
    using inv vr len untouched_insert spilled_insert(1)
    by (auto simp: scan_inv_def assign_def same)
qed

lemma scan_inv_take:
  assumes inv: "scan_inv intervals kc ks secrecy reserved us init (iv_start intervals vr) seen st"
    and vr: "vr \<notin> seen" "vr < length init" "vr < length secrecy"
    and pos: "0 < (if secrecy ! vr then card (free_secret st) else card (free_clear st))"
    and take: "take_lowest (secrecy ! vr) st = (r, st')"
  shows "scan_inv intervals kc ks secrecy reserved us init (iv_start intervals vr) (insert vr seen)
    (assign vr (iv_end intervals vr) r st')"
proof (cases "secrecy ! vr")
  case True
  then have "free_secret st \<noteq> {}" "finite (free_secret st)" using pos by (auto simp: card_gt_0_iff)
  then have "Min (free_secret st) \<in> free_secret st" by (rule Min_in [rotated])
  then have "r \<in> free_secret st" using take True by (auto simp: take_lowest_def Let_def simp del: Min_in)
  then show ?thesis
    using inv vr take True
    by (intro scan_inv_assign [of _ _ _ _ _ _ _ _ _ st])
      (auto simp: scan_inv_def free_ok_def take_lowest_def Let_def)
next
  case False
  then have "free_clear st \<noteq> {}" "finite (free_clear st)" using pos by (auto simp: card_gt_0_iff)
  then have "Min (free_clear st) \<in> free_clear st" by (rule Min_in [rotated])
  then have "r \<in> free_clear st" using take False by (auto simp: take_lowest_def Let_def simp del: Min_in)
  then show ?thesis
    using inv vr take False
    by (intro scan_inv_assign [of _ _ _ _ _ _ _ _ _ st])
      (auto simp: scan_inv_def free_ok_def take_lowest_def Let_def)
qed

text \<open>The victim is an active, spillable register of the pool that is needed.\<close>

lemma find_victim_Some:
  assumes "find_victim kc ks us b act = Some idx"
  shows "idx < length act" "classify kc ks (reg_of (act ! idx)) = Some b" "snd (snd (act ! idx)) < us"
proof -
  let ?f = "\<lambda>idx victim. case act ! idx of (e, reg, vr) \<Rightarrow>
         if classify kc ks reg = Some b \<and> vr < us \<and>
            (case victim of None \<Rightarrow> True | Some best \<Rightarrow> fst (act ! best) < e)
         then Some idx else victim"
  have "fold ?f [0..<m] None = Some idx \<Longrightarrow> idx < m \<and>
      classify kc ks (reg_of (act ! idx)) = Some b \<and> snd (snd (act ! idx)) < us" for m idx
    by (induction m) (auto simp: reg_of_def split: prod.splits if_splits)
  from this [of "length act"] show "idx < length act"
    "classify kc ks (reg_of (act ! idx)) = Some b" "snd (snd (act ! idx)) < us"
    using assms by (auto simp: find_victim_def)
qed

lemma scan_inv_steal:
  assumes inv: "scan_inv intervals kc ks secrecy reserved us init (iv_start intervals vr) seen st"
    and vr: "vr \<notin> seen" "vr < length init" "vr < length secrecy"
    and victim: "find_victim kc ks us (secrecy ! vr) (active st) = Some idx"
  shows "scan_inv intervals kc ks secrecy reserved us init (iv_start intervals vr) (insert vr seen)
    (steal idx vr (iv_end intervals vr) st)"
proof -
  obtain e r v where a: "active st ! idx = (e, r, v)" by (cases "active st ! idx")
  note vic = find_victim_Some [OF victim]
  let ?al = "(allocation st)[v := None]" and ?act = "(active st)[idx := (iv_end intervals vr, r, vr)]"
  have mem: "(e, r, v) \<in> set (active st)" using vic(1) a by (metis nth_mem)
  have act: "active_ok intervals seen (allocation st) (active st)"
    and placed: "placed_ok intervals kc ks secrecy reserved (iv_start intervals vr) seen (allocation st) (active st)"
    and len: "length (allocation st) = length init" "seen \<subseteq> {..<length init}"
    using inv by (simp_all add: scan_inv_def untouched_def)
  have v: "v \<in> seen" "allocation st ! v = Some r" using act mem by (auto simp: active_ok_def)
  have r: "classify kc ks r = Some (secrecy ! vr)" "r \<notin> reserved" "v < us"
    using vic a v placed by (auto simp: reg_of_def placed_ok_def)
  have vlen: "v < length (allocation st)" using len v(1) by auto
  have neq: "v \<noteq> vr" using v(1) vr(1) by auto
  have only: "w = v" if "(e', r, w) \<in> set (active st)" for e' w
    using act mem that unfolding active_ok_def distinct_map inj_on_def reg_of_def by fastforce
  have unique: "x = (e, r, v)" if "x \<in> set (active st)" "reg_of x = r" for x
    using act mem that unfolding active_ok_def distinct_map inj_on_def by (metis fst_conv reg_of_def snd_conv)
  have regs: "map reg_of ?act = map reg_of (active st)"
    using vic(1) a by (simp add: map_update) (metis fst_conv length_map list_update_id nth_map reg_of_def snd_conv)
  have setact: "set ?act = insert (iv_end intervals vr, r, vr) (set (active st) - {(e, r, v)})"
  proof -
    have "distinct (active st)" using act by (simp add: active_ok_def distinct_map)
    then show ?thesis using set_update_distinct [of "active st" idx] vic(1) a by simp
  qed
  have running: "iv_end intervals w \<le> iv_start intervals vr" if "w \<in> seen" "?al ! w = Some r" for w
  proof -
    have "w \<noteq> v" "allocation st ! w = Some r"
      using that len v(1) by (auto simp: nth_list_update split: if_splits)
    then show ?thesis using placed only that(1) by (auto simp: placed_ok_def)
  qed
  have "untouched init (insert vr seen) (?al[vr := Some r])"
    using inv v(1) vr(2) by (intro untouched_insert) (auto simp: scan_inv_def untouched_def nth_list_update)
  moreover have "active_ok intervals (insert vr seen) (?al[vr := Some r]) ?act"
    unfolding active_ok_def regs setact
  proof (intro conjI allI impI)
    show "distinct (map reg_of (active st))" using act by (simp add: active_ok_def)
    fix e' r' w assume w: "(e', r', w) \<in> insert (iv_end intervals vr, r, vr) (set (active st) - {(e, r, v)})"
    have "r' = r \<and> e' = e" if "(e', r', v) \<in> set (active st)"
      using act that mem v(2) unfolding active_ok_def by (metis option.inject)
    then have "w \<noteq> v \<or> w = vr" using w by auto
    with w act len vr show "w \<in> insert vr seen" "e' = iv_end intervals w" "?al[vr := Some r] ! w = Some r'"
      by (auto simp: active_ok_def nth_list_update)
  qed
  moreover have "free_ok kc ks reserved ?act b F" if "free_ok kc ks reserved (active st) b F" for b F
    using that arg_cong [OF regs, of set] by (simp add: free_ok_def)
  moreover have "placed_ok intervals kc ks secrecy reserved (iv_start intervals vr) (insert vr seen) (?al[vr := Some r]) ?act"
    unfolding placed_ok_def setact using placed vr r len v(1) vlen neq
    by (auto simp: placed_ok_def nth_list_update split: if_splits)
  moreover have "apart intervals (insert vr seen) (?al[vr := Some r])"
    using inv vr len vlen running
    by (intro apart_insert) (auto simp: scan_inv_def apart_def nth_list_update split: if_splits)
  moreover have "spilled_ok us (insert vr seen) (?al[vr := Some r]) (spilled st @ [v])"
    using inv vr(1,2) len v(1) r(3) by (auto simp: scan_inv_def spilled_ok_def nth_list_update split: if_splits)
  ultimately show ?thesis
    using inv by (simp add: scan_inv_def steal_def a)
qed

lemma scan_inv_spill:
  assumes inv: "scan_inv intervals kc ks secrecy reserved us init (iv_start intervals vr) seen st"
    and vr: "vr \<notin> seen" "vr < length init" "vr < length secrecy" "vr < us" "init ! vr = None"
  shows "scan_inv intervals kc ks secrecy reserved us init (iv_start intervals vr) (insert vr seen)
    (st\<lparr>spilled := spilled st @ [vr]\<rparr>)"
proof -
  have none: "allocation st ! vr = None" using inv vr by (simp add: scan_inv_def untouched_def)
  show ?thesis
    using inv vr none spilled_insert(2) [of us seen "allocation st" "spilled st" vr]
    by (auto simp: scan_inv_def untouched_def active_ok_def placed_ok_def apart_def)
qed

lemma scan_step_inv:
  assumes inv: "scan_inv intervals kc ks secrecy reserved us init now seen st"
    and now: "now \<le> iv_start intervals vr"
    and vr: "vr \<notin> seen" "vr < length init" "init ! vr = None"
    and step: "scan_step kc ks reserve secrecy us (vr, iv_start intervals vr, iv_end intervals vr) st = Inr st'"
  shows "scan_inv intervals kc ks secrecy reserved us init (iv_start intervals vr) (insert vr seen) st'"
proof -
  let ?st = "expire kc ks (iv_start intervals vr) 0 st"
  have inv': "scan_inv intervals kc ks secrecy reserved us init (iv_start intervals vr) seen ?st"
    by (rule scan_inv_expire [OF scan_inv_later [OF inv now]])
  have sec: "vr < length secrecy" "vec_get secrecy vr = Some (secrecy ! vr)"
    using step by (auto simp: scan_step_def vec_get_def Let_def split: if_splits)
  define fl where "fl = (if secrecy ! vr then card (free_secret ?st) else card (free_clear ?st))"
  define can where "can = (if us \<le> vr then 0 < fl else reserve < fl)"
  have step': "(if can then (case take_lowest (secrecy ! vr) ?st of (reg, st') \<Rightarrow>
        Inr (assign vr (iv_end intervals vr) reg st'))
      else if us \<le> vr then
        (case find_victim kc ks us (secrecy ! vr) (active ?st) of
           Some idx \<Rightarrow> Inr (steal idx vr (iv_end intervals vr) ?st)
         | None \<Rightarrow> Inl (PoolExhausted vr (secrecy ! vr)))
      else
        (case find_victim kc ks us (secrecy ! vr) (active ?st) of
           Some idx \<Rightarrow> if iv_end intervals vr < fst (active ?st ! idx)
                       then Inr (steal idx vr (iv_end intervals vr) ?st)
                       else Inr (?st\<lparr>spilled := spilled ?st @ [vr]\<rparr>)
         | None \<Rightarrow> Inr (?st\<lparr>spilled := spilled ?st @ [vr]\<rparr>))) = Inr st'"
    using step by (simp only: scan_step_def sec(2) Let_def prod.case option.case can_def fl_def)
  show ?thesis
  proof (cases can)
    case True
    then have "0 < fl" by (auto simp: can_def split: if_splits)
    moreover obtain r st1 where t: "take_lowest (secrecy ! vr) ?st = (r, st1)"
      by (cases "take_lowest (secrecy ! vr) ?st")
    moreover have "st' = assign vr (iv_end intervals vr) r st1" using step' True t by simp
    ultimately show ?thesis
      using scan_inv_take [OF inv' vr(1,2) sec(1) _ t] by (simp add: fl_def)
  next
    case False
    show ?thesis
    proof (cases "find_victim kc ks us (secrecy ! vr) (active ?st)")
      case None
      then show ?thesis
        using step' False scan_inv_spill [OF inv' vr(1,2) sec(1) _ vr(3)] by (auto split: if_splits)
    next
      case (Some idx)
      then show ?thesis
        using step' False scan_inv_steal [OF inv' vr(1,2) sec(1) Some] scan_inv_spill [OF inv' vr(1,2) sec(1) _ vr(3)]
        by (auto split: if_splits)
    qed
  qed
qed

lemma scan_loop_inv:
  assumes "scan_loop kc ks reserve secrecy us cs st = Inr st'"
    and "scan_inv intervals kc ks secrecy reserved us init now seen st"
    and "sorted (map start_of cs)" "\<forall>c\<in>set cs. now \<le> start_of c"
    and "\<forall>(v, s, e)\<in>set cs. s = iv_start intervals v \<and> e = iv_end intervals v \<and> v < length init \<and> init ! v = None"
    and "distinct (map fst cs)" "fst ` set cs \<inter> seen = {}"
  shows "\<exists>now'. scan_inv intervals kc ks secrecy reserved us init now' (seen \<union> fst ` set cs) st'"
  using assms
proof (induction cs arbitrary: st now seen)
  case (Cons c cs)
  obtain v s e where c: "c = (v, s, e)" by (cases c)
  obtain st1 where step: "scan_step kc ks reserve secrecy us c st = Inr st1"
    and rest: "scan_loop kc ks reserve secrecy us cs st1 = Inr st'"
    using Cons.prems(1) by (auto simp: rbind_def split: sum.splits)
  have "scan_inv intervals kc ks secrecy reserved us init (iv_start intervals v) (insert v seen) st1"
    using Cons.prems step by (intro scan_step_inv) (auto simp: c start_of_def)
  moreover have "\<forall>c\<in>set cs. iv_start intervals v \<le> start_of c"
    using Cons.prems(3,5) by (auto simp: c start_of_def)
  moreover have "fst ` set cs \<inter> insert v seen = {}"
    using Cons.prems(6,7) by (auto simp: c)
  ultimately have "\<exists>now'. scan_inv intervals kc ks secrecy reserved us init now' (insert v seen \<union> fst ` set cs) st'"
    using Cons.prems(3,5,6) by (intro Cons.IH [OF rest]) auto
  then show ?case by (simp add: c)
qed auto

section \<open>What the allocator promises\<close>

definition overlap :: "live_interval \<Rightarrow> live_interval \<Rightarrow> bool" where
  "overlap a b \<longleftrightarrow> li_start a < li_end b \<and> li_start b < li_end a"

lemma initial_allocation_spec:
  assumes "distinct (map fst precolored)"
  shows "length intervals \<le> length (initial_allocation intervals precolored)"
    and "v < length (initial_allocation intervals precolored) \<Longrightarrow>
      initial_allocation intervals precolored ! v = map_of precolored v"
    and "v \<in> fst ` set precolored \<Longrightarrow> v < length (initial_allocation intervals precolored)"
proof -
  have upd: "length (fold (\<lambda>(vr, pr) al. al[vr := Some pr]) pre al) = length al \<and>
      (\<forall>v < length al. fold (\<lambda>(vr, pr) al. al[vr := Some pr]) pre al ! v =
         (case map_of pre v of None \<Rightarrow> al ! v | Some p \<Rightarrow> Some p))"
    if "distinct (map fst pre)" for pre al
    using that
  proof (induction pre arbitrary: al)
    case (Cons x pre)
    have "map_of pre (fst x) = None" using Cons.prems by (auto simp: map_of_eq_None_iff)
    with Cons show ?case by (cases x) (auto simp: nth_list_update split: option.splits)
  qed simp
  let ?n = "max (length intervals) (fold max (map (\<lambda>(vr, _). Suc vr) precolored) 0)"
  note u = upd [OF assms, of "replicate ?n None"]
  show "length intervals \<le> length (initial_allocation intervals precolored)"
    using u by (simp add: initial_allocation_def)
  show "initial_allocation intervals precolored ! v = map_of precolored v"
    if "v < length (initial_allocation intervals precolored)"
    using u that by (auto simp: initial_allocation_def split: option.splits)
  show "v < length (initial_allocation intervals precolored)" if v: "v \<in> fst ` set precolored"
  proof -
    obtain p where "(v, p) \<in> set precolored" using v by auto
    then have "Suc v \<le> fold max (map (\<lambda>(vr, _). Suc vr) precolored) 0"
      using fold_max_bound [of "(v, p)" precolored "\<lambda>(vr, _). Suc vr"] by simp
    then show ?thesis using u by (simp add: initial_allocation_def)
  qed
qed

lemma initial_scan_inv:
  "scan_inv intervals kc ks secrecy (snd ` set precolored) us (initial_allocation intervals precolored) 0 {}
     (initial_scan intervals kc ks precolored)"
  by (auto simp: scan_inv_def initial_scan_def untouched_def active_ok_def free_ok_def placed_ok_def
      apart_def spilled_ok_def classify_def Let_def)

lemma linear_scan_inv:
  assumes loop: "scan_loop kc ks reserve secrecy us (scan_order intervals precolored)
      (initial_scan intervals kc ks precolored) = Inr st"
    and dist: "distinct (map fst precolored)"
  shows "\<exists>now. scan_inv intervals kc ks secrecy (snd ` set precolored) us
    (initial_allocation intervals precolored) now (fst ` set (candidates intervals precolored)) st"
proof -
  have ord: "set (scan_order intervals precolored) = set (candidates intervals precolored)"
    "distinct (map fst (scan_order intervals precolored))" "sorted (map start_of (scan_order intervals precolored))"
  proof -
    show "set (scan_order intervals precolored) = set (candidates intervals precolored)"
      by (simp add: scan_order_sort)
    have "mset (map fst (scan_order intervals precolored)) = mset (map fst (candidates intervals precolored))"
      by (simp add: scan_order_sort)
    then show "distinct (map fst (scan_order intervals precolored))"
      using candidates_distinct mset_eq_imp_distinct_iff by metis
  qed (simp add: scan_order_sort)
  have "\<forall>(v, s, e)\<in>set (scan_order intervals precolored). s = iv_start intervals v \<and> e = iv_end intervals v \<and>
      v < length (initial_allocation intervals precolored) \<and> initial_allocation intervals precolored ! v = None"
    using initial_allocation_spec [OF dist, where intervals = intervals]
    by (auto simp: ord candidates_mem iv_start_def iv_end_def map_of_eq_None_iff intro: less_le_trans)
  then show ?thesis
    using scan_loop_inv [OF loop initial_scan_inv ord(3) _ _ ord(2)] by (simp add: ord(1))
qed

lemma scan_step_errors:
  assumes "scan_step kc ks reserve secrecy us (v, s, e) st = Inl err"
  shows "err = Panicked \<and> length secrecy \<le> v \<or>
    (\<exists>b. err = PoolExhausted v b \<and> us \<le> v \<and> v < length secrecy \<and> b = secrecy ! v)"
  using assms by (auto simp: scan_step_def vec_get_def Let_def split: if_splits option.splits prod.splits)

lemma scan_loop_errors:
  "scan_loop kc ks reserve secrecy us cs st = Inl err \<Longrightarrow>
   \<exists>(v, s, e)\<in>set cs. err = Panicked \<and> length secrecy \<le> v \<or>
     (\<exists>b. err = PoolExhausted v b \<and> us \<le> v \<and> v < length secrecy \<and> b = secrecy ! v)"
proof (induction cs arbitrary: st)
  case (Cons c cs)
  obtain v s e where c: "c = (v, s, e)" by (cases c)
  show ?case
  proof (cases "scan_step kc ks reserve secrecy us c st")
    case (Inl err')
    then have "err' = err" using Cons.prems by (simp add: rbind_def)
    with Inl show ?thesis using scan_step_errors [of kc ks reserve secrecy us v s e st err] by (auto simp: c)
  next
    case (Inr st1)
    then have "scan_loop kc ks reserve secrecy us cs st1 = Inl err" using Cons.prems by (simp add: rbind_def)
    from Cons.IH [OF this] show ?thesis by auto
  qed
qed simp

lemma linear_scan_Inr:
  assumes "linear_scan_partition intervals kc ks reserve secrecy precolored us = Inr al"
  obtains st where "scan_loop kc ks reserve secrecy us (scan_order intervals precolored)
      (initial_scan intervals kc ks precolored) = Inr st" "spilled st = []" "allocation st = al"
  using assms by (auto simp: linear_scan_partition_def rbind_def split: sum.splits if_splits)

text \<open>What a complete allocation gives to one interval.\<close>

lemma linear_scan_interval:
  assumes "linear_scan_partition intervals kc ks reserve secrecy precolored us = Inr al"
    and "distinct (map fst precolored)"
    and "v < length intervals" "intervals ! v = Some iv" "map_of precolored v = None"
  shows "\<exists>r. al ! v = Some r \<and> v < length secrecy \<and> classify kc ks r = Some (secrecy ! v) \<and>
    r \<notin> snd ` set precolored \<and>
    (\<forall>w iw. w \<noteq> v \<longrightarrow> w < length intervals \<longrightarrow> intervals ! w = Some iw \<longrightarrow> overlap iv iw \<longrightarrow> al ! w \<noteq> Some r)"
proof -
  obtain st where loop: "scan_loop kc ks reserve secrecy us (scan_order intervals precolored)
      (initial_scan intervals kc ks precolored) = Inr st" and st: "spilled st = []" "allocation st = al"
    by (rule linear_scan_Inr [OF assms(1)])
  obtain now where inv: "scan_inv intervals kc ks secrecy (snd ` set precolored) us
    (initial_allocation intervals precolored) now (fst ` set (candidates intervals precolored)) st"
    using linear_scan_inv [OF loop assms(2)] by blast
  have v: "v \<in> fst ` set (candidates intervals precolored)" using assms(3-5) by (simp add: candidates_vr)
  obtain r where r: "al ! v = Some r"
    using inv v st by (cases "al ! v") (auto simp: scan_inv_def spilled_ok_def)
  have placed: "v < length secrecy" "classify kc ks r = Some (secrecy ! v)" "r \<notin> snd ` set precolored"
    using inv v r st by (auto simp: scan_inv_def placed_ok_def)
  have "al ! w \<noteq> Some r"
    if w: "w \<noteq> v" "w < length intervals" "intervals ! w = Some iw" "overlap iv iw" for w iw
  proof (cases "map_of precolored w")
    case None
    have "w \<in> fst ` set (candidates intervals precolored)" using w(2,3) None by (simp add: candidates_vr)
    then show ?thesis
      using inv v r st w assms(4)
      by (fastforce simp: scan_inv_def apart_def iv_start_def iv_end_def overlap_def)
  next
    case (Some p)
    have "w \<notin> fst ` set (candidates intervals precolored)"
      using Some by (simp add: candidates_vr)
    moreover have "w < length (initial_allocation intervals precolored)"
      using initial_allocation_spec(1) [OF assms(2), of intervals] w(2) by simp
    ultimately have "al ! w = Some p"
      using inv st Some initial_allocation_spec(2) [OF assms(2)] by (auto simp: scan_inv_def untouched_def)
    then show ?thesis using placed(3) map_of_SomeD [OF Some] by force
  qed
  with r placed show ?thesis by blast
qed

lemma linear_scan_precolored:
  assumes "linear_scan_partition intervals kc ks reserve secrecy precolored us = Inr al"
    and "distinct (map fst precolored)" and "map_of precolored v = Some p"
  shows "v < length al" "al ! v = Some p"
proof -
  obtain st where loop: "scan_loop kc ks reserve secrecy us (scan_order intervals precolored)
      (initial_scan intervals kc ks precolored) = Inr st" and st: "spilled st = []" "allocation st = al"
    by (rule linear_scan_Inr [OF assms(1)])
  obtain now where inv: "scan_inv intervals kc ks secrecy (snd ` set precolored) us
    (initial_allocation intervals precolored) now (fst ` set (candidates intervals precolored)) st"
    using linear_scan_inv [OF loop assms(2)] by blast
  have mem: "v \<in> fst ` set precolored" using map_of_SomeD [OF assms(3)] by force
  have "v \<notin> fst ` set (candidates intervals precolored)" using assms(3) by (simp add: candidates_vr)
  moreover have len: "v < length (initial_allocation intervals precolored)"
    by (rule initial_allocation_spec(3) [OF assms(2) mem])
  ultimately show "v < length al" "al ! v = Some p"
    using inv st assms(3) initial_allocation_spec(2) [OF assms(2) len] by (auto simp: scan_inv_def untouched_def)
qed

lemma linear_scan_spilled:
  assumes loop: "scan_loop kc ks reserve secrecy us (scan_order intervals precolored)
      (initial_scan intervals kc ks precolored) = Inr st" and "distinct (map fst precolored)"
  shows "list_all (\<lambda>v. v < us \<and> v < length intervals \<and> intervals ! v \<noteq> None \<and> map_of precolored v = None) (spilled st)"
proof -
  obtain now where "scan_inv intervals kc ks secrecy (snd ` set precolored) us
    (initial_allocation intervals precolored) now (fst ` set (candidates intervals precolored)) st"
    using linear_scan_inv [OF assms] by blast
  then have "\<forall>v\<in>set (spilled st). v < us \<and> v \<in> fst ` set (candidates intervals precolored)"
    by (auto simp: scan_inv_def spilled_ok_def)
  then show ?thesis by (simp add: list_all_iff candidates_vr)
qed

lemma linear_scan_needs_spilling:
  assumes "linear_scan_partition intervals kc ks reserve secrecy precolored us = Inl (NeedsSpilling vs)"
    and "distinct (map fst precolored)"
  shows "list_all (\<lambda>v. v < us \<and> v < length intervals \<and> intervals ! v \<noteq> None \<and> map_of precolored v = None) vs"
proof (cases "scan_loop kc ks reserve secrecy us (scan_order intervals precolored)
      (initial_scan intervals kc ks precolored)")
  case (Inl e)
  then show ?thesis using assms(1) scan_loop_errors [OF Inl] by (auto simp: linear_scan_partition_def rbind_def)
next
  case (Inr st)
  then show ?thesis
    using assms(1) linear_scan_spilled [OF Inr assms(2)]
    by (auto simp: linear_scan_partition_def rbind_def split: if_splits)
qed

text \<open>C37: A complete allocation is sound: the precoloured registers keep their physical ones, every
  other interval has a register of the pool of its secrecy that is not reserved for a precoloured
  one, and two registers whose intervals overlap never share one.\<close>

theorem linear_scan_sound:
  assumes "linear_scan_partition intervals kc ks reserve secrecy precolored us = Inr al"
    and "distinct (map fst precolored)" "distinct (map snd precolored)"
  shows "(\<forall>v p. map_of precolored v = Some p \<longrightarrow> vec_get al v = Some (Some p)) \<and>
    (\<forall>v < length intervals. intervals ! v \<noteq> None \<longrightarrow> map_of precolored v = None \<longrightarrow>
       (\<exists>r. al ! v = Some r \<and> classify kc ks r = Some (secrecy ! v) \<and> r \<notin> snd ` set precolored)) \<and>
    (\<forall>v w iv iw. v < length intervals \<longrightarrow> w < length intervals \<longrightarrow> v \<noteq> w \<longrightarrow>
       intervals ! v = Some iv \<longrightarrow> intervals ! w = Some iw \<longrightarrow> overlap iv iw \<longrightarrow> al ! v \<noteq> al ! w)"
proof (intro conjI allI impI)
  fix v p assume "map_of precolored v = Some p"
  then show "vec_get al v = Some (Some p)"
    using linear_scan_precolored [OF assms(1,2)] by (simp add: vec_get_def)
next
  fix v assume "v < length intervals" "intervals ! v \<noteq> None" "map_of precolored v = None"
  then show "\<exists>r. al ! v = Some r \<and> classify kc ks r = Some (secrecy ! v) \<and> r \<notin> snd ` set precolored"
    using linear_scan_interval [OF assms(1,2), of v] by blast
next
  fix v w iv iw
  assume v: "v < length intervals" "w < length intervals" "v \<noteq> w" "intervals ! v = Some iv" "intervals ! w = Some iw" "overlap iv iw"
  then have ov: "overlap iw iv" by (auto simp: overlap_def)
  consider "map_of precolored v = None" | "map_of precolored w = None"
    | p q where "map_of precolored v = Some p" "map_of precolored w = Some q" by fastforce
  then show "al ! v \<noteq> al ! w"
  proof cases
    case 1
    then show ?thesis using linear_scan_interval [OF assms(1,2) v(1,4)] v by metis
  next
    case 2
    then show ?thesis using linear_scan_interval [OF assms(1,2) v(2,5)] v ov by metis
  next
    case 3
    then have "p \<noteq> q" using assms(3) v(3) unfolding distinct_map inj_on_def by (metis map_of_SomeD prod.inject snd_conv)
    then show ?thesis using linear_scan_precolored [OF assms(1,2)] 3 by simp
  qed
qed

definition sample_intervals :: "live_interval option list" where
  "sample_intervals = [Some \<lparr>li_start = 0, li_end = 2\<rparr>, Some \<lparr>li_start = 0, li_end = 3\<rparr>,
     Some \<lparr>li_start = 1, li_end = 2\<rparr>, None, Some \<lparr>li_start = 2, li_end = 4\<rparr>]"

theorem linear_scan_sound_witness:
  "linear_scan_partition sample_intervals 3 2 0 [False, False, True, False, True] [(0, 0)] 5 =
     Inr [Some 0, Some 1, Some 3, None, Some 3] \<and> (3::usize) \<notin> snd ` set [(0::usize, 0)]"
proof -
  have scan: "linear_scan_partition sample_intervals 3 2 0 [False, False, True, False, True] [(0, 0)] 5 =
     Inr [Some 0, Some 1, Some 3, None, Some 3]" by code_simp
  have v: "2 < length sample_intervals" "sample_intervals ! 2 \<noteq> None" "map_of [(0::usize, 0::usize)] 2 = None"
    by (simp_all add: sample_intervals_def)
  have "\<exists>r. [Some 0, Some 1, Some 3, None, Some (3::usize)] ! 2 = Some r \<and>
      classify 3 2 r = Some ([False, False, True, False, True] ! 2) \<and> r \<notin> snd ` set [(0::usize, 0)]"
    by (rule conjunct1 [OF conjunct2 [OF linear_scan_sound [OF scan]], rule_format, OF _ _ v]) simp_all
  with scan show ?thesis by simp
qed

text \<open>C38: The errors: only spillable registers that have an interval of their own are given out for
  spilling, the exhaustion of a pool concerns an unspillable register, and the panic needs a
  register without an entry in the secrecy table.\<close>

theorem linear_scan_errors:
  assumes "linear_scan_partition intervals kc ks reserve secrecy precolored us = Inl err"
    and "distinct (map fst precolored)"
  shows "case err of
      NeedsSpilling vs \<Rightarrow> vs \<noteq> [] \<and>
        list_all (\<lambda>v. v < us \<and> v < length intervals \<and> intervals ! v \<noteq> None \<and> map_of precolored v = None) vs
    | PoolExhausted v b \<Rightarrow> us \<le> v \<and> v < length intervals \<and> intervals ! v \<noteq> None \<and> v < length secrecy \<and> b = secrecy ! v
    | Panicked \<Rightarrow> length secrecy < length intervals"
proof (cases "scan_loop kc ks reserve secrecy us (scan_order intervals precolored)
      (initial_scan intervals kc ks precolored)")
  case (Inl e)
  then have "e = err" using assms(1) by (simp add: linear_scan_partition_def rbind_def)
  with scan_loop_errors [OF Inl] obtain v s e' where
    mem: "(v, s, e') \<in> set (candidates intervals precolored)" and
    "err = Panicked \<and> length secrecy \<le> v \<or>
     (\<exists>b. err = PoolExhausted v b \<and> us \<le> v \<and> v < length secrecy \<and> b = secrecy ! v)"
    by (auto simp: scan_order_sort)
  then show ?thesis by (auto simp: candidates_mem)
next
  case (Inr st)
  then have err: "err = NeedsSpilling (spilled st)" "spilled st \<noteq> []"
    using assms(1) by (auto simp: linear_scan_partition_def rbind_def split: if_splits)
  then show ?thesis using linear_scan_spilled [OF Inr assms(2)] by simp
qed

theorem linear_scan_errors_witness:
  "linear_scan_partition sample_intervals 2 1 0 [False, False, False, False, True] [(0, 0)] 5 = Inl (NeedsSpilling [1]) \<and>
   map_of [(0::usize, 0::usize)] 1 = None \<and>
   linear_scan_partition sample_intervals 2 1 0 [False, False, False, False, True] [(0, 0)] 1 = Inl (PoolExhausted 2 False)"
proof -
  have scan: "linear_scan_partition sample_intervals 2 1 0 [False, False, False, False, True] [(0, 0)] 5 = Inl (NeedsSpilling [1])"
    "linear_scan_partition sample_intervals 2 1 0 [False, False, False, False, True] [(0, 0)] 1 = Inl (PoolExhausted 2 False)"
    by code_simp+
  show ?thesis using linear_scan_errors [OF scan(1)] scan by simp
qed

section \<open>The bound on spillable registers\<close>

text \<open>Any two bounds above all the registers give the same scan.\<close>

definition active_below :: "usize \<Rightarrow> scan_state \<Rightarrow> bool" where
  "active_below n st \<longleftrightarrow> (\<forall>a\<in>set (active st). snd (snd a) < n)"

lemma swap_remove_set: "i < length xs \<Longrightarrow> set (swap_remove xs i) \<subseteq> set xs"
proof -
  assume "i < length xs"
  then have "xs \<noteq> []" by auto
  then show ?thesis
    using set_update_subset_insert [of "butlast xs" i "last xs"] in_set_butlastD [of _ xs]
    by (fastforce simp: swap_remove_def)
qed

lemma active_below_expire: "active_below n st \<Longrightarrow> active_below n (expire kc ks start i st)"
proof (induction kc ks start i st rule: expire.induct)
  case (1 kc ks start i st)
  have "active_below n (release kc ks r st\<lparr>active := swap_remove (active st) i\<rparr>)" if "i < length (active st)" for r
    using 1(3) swap_remove_set [OF that] by (auto simp: active_below_def)
  then show ?case using 1 by (subst expire.simps) simp
qed

lemma find_victim_cong:
  assumes "\<forall>a\<in>set act. snd (snd a) < us" "\<forall>a\<in>set act. snd (snd a) < us'"
  shows "find_victim kc ks us b act = find_victim kc ks us' b act"
  unfolding find_victim_def
  using assms by (intro fold_cong ext refl) (auto simp: split_def all_set_conv_all_nth)

lemma scan_step_bound:
  assumes st: "active_below n st" and v: "v < n" and us: "n \<le> us" "n \<le> us'"
  shows "scan_step kc ks reserve secrecy us (v, s, e) st = scan_step kc ks reserve secrecy us' (v, s, e) st"
    and "scan_step kc ks reserve secrecy us (v, s, e) st = Inr st' \<Longrightarrow> active_below n st'"
proof -
  let ?st = "expire kc ks s 0 st"
  have act: "active_below n ?st" by (rule active_below_expire [OF st])
  then have victim: "find_victim kc ks us b (active ?st) = find_victim kc ks us' b (active ?st)" for b
    using us by (intro find_victim_cong) (auto simp: active_below_def)
  then show "scan_step kc ks reserve secrecy us (v, s, e) st = scan_step kc ks reserve secrecy us' (v, s, e) st"
  proof -
    have "us \<le> v \<longleftrightarrow> us' \<le> v" using v us by simp
    then show ?thesis by (simp only: scan_step_def prod.case victim Let_def)
  qed
  have take: "active (snd (take_lowest b ?st)) = active ?st" for b by (simp add: take_lowest_def Let_def)
  have assign: "active_below n (assign v e r (snd (take_lowest b ?st)))" for r b
    using act v by (auto simp: active_below_def assign_def take)
  have steal: "active_below n (steal idx v e ?st)" for idx
    using act v set_update_subset_insert [of "active ?st" idx]
    by (fastforce simp: active_below_def steal_def split_def)
  have keep: "active_below n (?st\<lparr>spilled := sp\<rparr>)" for sp using act by (simp add: active_below_def)
  show "active_below n st'" if "scan_step kc ks reserve secrecy us (v, s, e) st = Inr st'"
    using that
    by (auto simp: scan_step_def Let_def split_def assign steal keep split: option.splits if_splits)
qed

lemma scan_loop_bound:
  assumes "\<forall>(v, s, e)\<in>set cs. v < n" "n \<le> us" "n \<le> us'" "active_below n st"
  shows "scan_loop kc ks reserve secrecy us cs st = scan_loop kc ks reserve secrecy us' cs st"
  using assms
proof (induction cs arbitrary: st)
  case (Cons c cs)
  obtain v s e where c: "c = (v, s, e)" by (cases c)
  have v: "v < n" using Cons.prems(1) c by simp
  note step = scan_step_bound [OF Cons.prems(4) v Cons.prems(2,3), of kc ks reserve secrecy s e]
  show ?case
  proof (cases "scan_step kc ks reserve secrecy us c st")
    case (Inr st1)
    then have "active_below n st1" using step(2) c by simp
    with Inr show ?thesis using Cons.IH [of st1] Cons.prems step(1) c by (simp add: rbind_def)
  qed (use step(1) c in \<open>simp add: rbind_def\<close>)
qed simp

lemma linear_scan_bound:
  assumes "length intervals \<le> us" "length intervals \<le> us'"
  shows "linear_scan_partition intervals kc ks reserve secrecy precolored us =
    linear_scan_partition intervals kc ks reserve secrecy precolored us'"
proof -
  have "\<forall>(v, s, e)\<in>set (scan_order intervals precolored). v < length intervals"
    by (auto simp: scan_order_sort candidates_mem)
  from scan_loop_bound [OF this assms] show ?thesis
    by (simp add: linear_scan_partition_def active_below_def initial_scan_def Let_def)
qed

end
