(* ===== verification/Forward_Simulation.thy ===== *)
theory Forward_Simulation
  imports Main
begin

text \<open>
  Deterministic transition systems that stop with a result, and forward simulations between them
  in which one step of the first system is matched by one or more steps of the second.  Two
  systems related in this way stop on the same inputs and with the same results.
\<close>

fun steps :: "('c \<Rightarrow> 'c + 'r) \<Rightarrow> nat \<Rightarrow> 'c \<Rightarrow> 'c + 'r" where
  "steps f 0 c = Inl c"
| "steps f (Suc n) c = (case f c of Inl c' \<Rightarrow> steps f n c' | Inr r \<Rightarrow> Inr r)"

definition stops_with :: "('c \<Rightarrow> 'c + 'r) \<Rightarrow> 'c \<Rightarrow> 'r \<Rightarrow> bool" where
  "stops_with f c r \<longleftrightarrow> (\<exists>n. steps f n c = Inr r)"

text \<open>The executable form, with a bound on the steps.\<close>

definition stops_within :: "nat \<Rightarrow> ('c \<Rightarrow> 'c + 'r) \<Rightarrow> 'c \<Rightarrow> 'r \<Rightarrow> bool" where
  "stops_within n f c r = (case steps f n c of Inl _ \<Rightarrow> False | Inr r' \<Rightarrow> r' = r)"

lemma stops_within_stops: "stops_within n f c r \<Longrightarrow> stops_with f c r"
  by (auto simp: stops_within_def stops_with_def split: sum.splits)

lemma steps_add: "steps f (m + n) c = (case steps f m c of Inl c' \<Rightarrow> steps f n c' | Inr r \<Rightarrow> Inr r)"
  by (induction m arbitrary: c) (auto split: sum.splits)

lemma steps_stopped: "steps f m c = Inr r \<Longrightarrow> m \<le> n \<Longrightarrow> steps f n c = Inr r"
  using steps_add [of f m "n - m" c] by simp

lemma stops_unique: "steps f m c = Inr r \<Longrightarrow> steps f n c = Inr r' \<Longrightarrow> r = r'"
  using steps_stopped [of f m c r "max m n"] steps_stopped [of f n c r' "max m n"] by simp

text \<open>
  The same system under a guard that may stop it with an error at some steps of the run: \<open>blocked k c\<close>
  stands for the guard at the state \<open>c\<close> after \<open>k\<close> steps.
\<close>

fun guarded_steps :: "(nat \<Rightarrow> 'c \<Rightarrow> bool) \<Rightarrow> 'r \<Rightarrow> ('c \<Rightarrow> 'c + 'r) \<Rightarrow> nat \<Rightarrow> nat \<Rightarrow> 'c \<Rightarrow> 'c + 'r" where
  "guarded_steps blocked e f k 0 c = Inl c"
| "guarded_steps blocked e f k (Suc n) c =
     (if blocked k c then Inr e
      else case f c of Inl c' \<Rightarrow> guarded_steps blocked e f (Suc k) n c' | Inr r \<Rightarrow> Inr r)"

definition meets_guard :: "(nat \<Rightarrow> 'c \<Rightarrow> bool) \<Rightarrow> ('c \<Rightarrow> 'c + 'r) \<Rightarrow> nat \<Rightarrow> nat \<Rightarrow> 'c \<Rightarrow> bool" where
  "meets_guard blocked f k n c \<longleftrightarrow> (\<exists>m<n. \<exists>c'. steps f m c = Inl c' \<and> blocked (k + m) c')"

lemma meets_guard_Suc:
  "meets_guard blocked f k (Suc n) c \<longleftrightarrow> blocked k c \<or> (\<exists>c'. f c = Inl c' \<and> meets_guard blocked f (Suc k) n c')"
  unfolding meets_guard_def Ex_less_Suc2 by (cases "f c") simp_all

lemma guarded_steps_cases:
  "guarded_steps blocked e f k n c = (if meets_guard blocked f k n c then Inr e else steps f n c)"
proof (induction n arbitrary: k c)
  case (Suc n)
  then show ?case by (auto simp: meets_guard_Suc split: sum.splits)
qed (simp add: meets_guard_def)

lemma guarded_stops:
  "(\<exists>n. guarded_steps blocked e f 0 n c = Inr r) \<longleftrightarrow>
   (if \<exists>n. meets_guard blocked f 0 n c then r = e else stops_with f c r)"
proof (cases "\<exists>n. meets_guard blocked f 0 n c")
  case True
  then obtain m c' where m: "steps f m c = Inl c'" "blocked m c'" by (auto simp: meets_guard_def)
  have "r = e" if "guarded_steps blocked e f 0 n c = Inr r" for n
  proof (cases "meets_guard blocked f 0 n c")
    case False
    then have stop: "steps f n c = Inr r" using that by (simp add: guarded_steps_cases)
    moreover have "\<not> m < n" using False m by (auto simp: meets_guard_def)
    ultimately show ?thesis using steps_stopped [OF stop, of m] m(1) by simp
  qed (use that in \<open>simp add: guarded_steps_cases\<close>)
  moreover have "\<exists>n. guarded_steps blocked e f 0 n c = Inr e" using True by (auto simp: guarded_steps_cases)
  ultimately show ?thesis using True by auto
qed (auto simp: guarded_steps_cases stops_with_def)

locale forward_simulation =
  fixes step1 :: "'c \<Rightarrow> 'c + 'r" and step2 :: "'d \<Rightarrow> 'd + 'r" and rel :: "'c \<Rightarrow> 'd \<Rightarrow> bool"
  assumes sim_step: "rel c d \<Longrightarrow>
    (case step1 c of
       Inr r \<Rightarrow> \<exists>k. steps step2 (Suc k) d = Inr r
     | Inl c' \<Rightarrow> \<exists>k d'. steps step2 (Suc k) d = Inl d' \<and> rel c' d')"
begin

lemma sim_stop: "rel c d \<Longrightarrow> steps step1 n c = Inr r \<Longrightarrow> \<exists>m. steps step2 m d = Inr r"
proof (induction n arbitrary: c d)
  case (Suc n)
  show ?case
  proof (cases "step1 c")
    case (Inl c')
    then obtain k d' where d': "steps step2 (Suc k) d = Inl d'" "rel c' d'"
      using sim_step [OF Suc.prems(1)] by auto
    obtain m where "steps step2 m d' = Inr r"
      using Suc.IH [OF d'(2)] Suc.prems(2) Inl by auto
    then have "steps step2 (Suc k + m) d = Inr r" using d'(1) by (simp only: steps_add sum.case)
    then show ?thesis by blast
  next
    case (Inr r')
    then obtain k where "steps step2 (Suc k) d = Inr r"
      using sim_step [OF Suc.prems(1)] Suc.prems(2) by auto
    then show ?thesis by blast
  qed
qed simp

lemma sim_run: "rel c d \<Longrightarrow> steps step1 n c = Inl c' \<Longrightarrow> \<exists>m d'. n \<le> m \<and> steps step2 m d = Inl d' \<and> rel c' d'"
proof (induction n arbitrary: c d)
  case 0
  then show ?case by (intro exI [of _ 0]) auto
next
  case (Suc n)
  obtain c1 where c1: "step1 c = Inl c1" "steps step1 n c1 = Inl c'"
    using Suc.prems(2) by (auto split: sum.splits)
  obtain k d1 where d1: "steps step2 (Suc k) d = Inl d1" "rel c1 d1"
    using sim_step [OF Suc.prems(1)] c1(1) by auto
  obtain m d' where m: "n \<le> m" "steps step2 m d1 = Inl d'" "rel c' d'"
    using Suc.IH [OF d1(2) c1(2)] by blast
  have "steps step2 (Suc k + m) d = Inl d'" using d1(1) m(2) by (simp only: steps_add sum.case)
  moreover have "Suc n \<le> Suc k + m" using m(1) by simp
  ultimately show ?case using m(3) by blast
qed

lemma same_stops:
  assumes "rel c d"
  shows "stops_with step1 c r \<longleftrightarrow> stops_with step2 d r"
proof
  assume "stops_with step1 c r"
  then show "stops_with step2 d r" using sim_stop [OF assms] by (auto simp: stops_with_def)
next
  assume "stops_with step2 d r"
  then obtain m where m: "steps step2 m d = Inr r" by (auto simp: stops_with_def)
  show "stops_with step1 c r"
  proof (cases "steps step1 m c")
    case (Inl c')
    then obtain k d' where "m \<le> k" "steps step2 k d = Inl d'" using sim_run [OF assms] by blast
    then show ?thesis using steps_stopped [OF m, of k] by simp
  next
    case (Inr r')
    then obtain k where "steps step2 k d = Inr r'" using sim_stop [OF assms] by blast
    then have "r' = r" using stops_unique m by metis
    with Inr show ?thesis by (auto simp: stops_with_def)
  qed
qed

end

end
