(* ===== verification/Allocation.thy ===== *)
theory Allocation
  imports Linear_Scan Forward_Simulation
begin

text \<open>
  The rewriting of virtual registers to the allocated ones
  (\<open>stoffel-lang/src/register_allocator.rs\<close>) and its correctness.  The code before and after the
  rewriting is run on a register machine whose instructions have an arbitrary effect on the rest
  of the state: the effect sees the operation, the values of its operands and the banks of its
  registers, but not the register numbers.  A call writes register 0, the result register of the
  calling convention; the spill instructions copy between registers and slots, unconverted, as in
  the virtual machine.
\<close>

section \<open>Rewriting\<close>

text \<open>\<open>None\<close> is the panic on a register without an allocation.\<close>

definition remap2 :: "('a \<Rightarrow> 'b \<Rightarrow> 'c) \<Rightarrow> 'a option \<Rightarrow> 'b option \<Rightarrow> 'c option" where
  "remap2 c x y = Option.bind x (\<lambda>x. map_option (c x) y)"

definition remap3 :: "('a \<Rightarrow> 'b \<Rightarrow> 'c \<Rightarrow> 'd) \<Rightarrow> 'a option \<Rightarrow> 'b option \<Rightarrow> 'c option \<Rightarrow> 'd option" where
  "remap3 c x y z = Option.bind x (\<lambda>x. remap2 (c x) y z)"

fun remap_instruction_with :: "(usize \<Rightarrow> usize option) \<Rightarrow> instruction \<Rightarrow> instruction option" where
  "remap_instruction_with m (I_LD d k) = map_option (\<lambda>d. I_LD d k) (m d)"
| "remap_instruction_with m (I_LDI d v) = map_option (\<lambda>d. I_LDI d v) (m d)"
| "remap_instruction_with m (I_MOV d s) = remap2 I_MOV (m d) (m s)"
| "remap_instruction_with m (I_ADD d a b) = remap3 I_ADD (m d) (m a) (m b)"
| "remap_instruction_with m (I_SUB d a b) = remap3 I_SUB (m d) (m a) (m b)"
| "remap_instruction_with m (I_MUL d a b) = remap3 I_MUL (m d) (m a) (m b)"
| "remap_instruction_with m (I_DIV d a b) = remap3 I_DIV (m d) (m a) (m b)"
| "remap_instruction_with m (I_MOD d a b) = remap3 I_MOD (m d) (m a) (m b)"
| "remap_instruction_with m (I_AND d a b) = remap3 I_AND (m d) (m a) (m b)"
| "remap_instruction_with m (I_OR d a b) = remap3 I_OR (m d) (m a) (m b)"
| "remap_instruction_with m (I_XOR d a b) = remap3 I_XOR (m d) (m a) (m b)"
| "remap_instruction_with m (I_SHL d a b) = remap3 I_SHL (m d) (m a) (m b)"
| "remap_instruction_with m (I_SHR d a b) = remap3 I_SHR (m d) (m a) (m b)"
| "remap_instruction_with m (I_NOT d s) = remap2 I_NOT (m d) (m s)"
| "remap_instruction_with m (I_CMP a b) = remap2 I_CMP (m a) (m b)"
| "remap_instruction_with m (I_RET s) = map_option I_RET (m s)"
| "remap_instruction_with m (I_PUSHARG s) = map_option I_PUSHARG (m s)"
| "remap_instruction_with m (I_LDS d k) = map_option (\<lambda>d. I_LDS d k) (m d)"
| "remap_instruction_with m (I_STS k s) = map_option (\<lambda>s. I_STS k s) (m s)"
| "remap_instruction_with m (I_JMP l) = Some (I_JMP l)"
| "remap_instruction_with m (I_JMPEQ l) = Some (I_JMPEQ l)"
| "remap_instruction_with m (I_JMPNEQ l) = Some (I_JMPNEQ l)"
| "remap_instruction_with m (I_JMPLT l) = Some (I_JMPLT l)"
| "remap_instruction_with m (I_JMPGT l) = Some (I_JMPGT l)"
| "remap_instruction_with m (I_CALL l) = Some (I_CALL l)"
| "remap_instruction_with m I_NOP = Some I_NOP"

fun is_call :: "instruction \<Rightarrow> bool" where
  "is_call (I_CALL _) = True"
| "is_call _ = False"

fun result_capture :: "instruction \<Rightarrow> usize option" where
  "result_capture (I_MOV d s) = (if s = 0 then Some d else None)"
| "result_capture _ = None"

fun rewrite_instructions_with ::
  "(usize \<Rightarrow> usize option) \<Rightarrow> bool \<Rightarrow> instruction list \<Rightarrow> instruction list option" where
  "rewrite_instructions_with m last_was_call [] = Some []"
| "rewrite_instructions_with m last_was_call (inst # rest) =
     (case (if last_was_call then result_capture inst else None) of
        Some d \<Rightarrow> Option.bind (m d) (\<lambda>p. map_option ((#) (I_MOV p 0)) (rewrite_instructions_with m False rest))
      | None \<Rightarrow> Option.bind (remap_instruction_with m inst) (\<lambda>inst'.
          map_option ((#) inst') (rewrite_instructions_with m (is_call inst) rest)))"

definition allocated :: "usize option list \<Rightarrow> usize \<Rightarrow> usize option" where
  "allocated al v = Option.bind (vec_get al v) id"

definition rewrite_instructions_dense ::
  "instruction list \<Rightarrow> usize option list \<Rightarrow> instruction list option" where
  "rewrite_instructions_dense instrs al = rewrite_instructions_with (allocated al) False instrs"

text \<open>The total renaming of the operands, and the rewriting as such a renaming.\<close>

fun map_regs :: "(usize \<Rightarrow> usize) \<Rightarrow> instruction \<Rightarrow> instruction" where
  "map_regs f (I_LD d k) = I_LD (f d) k"
| "map_regs f (I_LDI d v) = I_LDI (f d) v"
| "map_regs f (I_MOV d s) = I_MOV (f d) (f s)"
| "map_regs f (I_ADD d a b) = I_ADD (f d) (f a) (f b)"
| "map_regs f (I_SUB d a b) = I_SUB (f d) (f a) (f b)"
| "map_regs f (I_MUL d a b) = I_MUL (f d) (f a) (f b)"
| "map_regs f (I_DIV d a b) = I_DIV (f d) (f a) (f b)"
| "map_regs f (I_MOD d a b) = I_MOD (f d) (f a) (f b)"
| "map_regs f (I_AND d a b) = I_AND (f d) (f a) (f b)"
| "map_regs f (I_OR d a b) = I_OR (f d) (f a) (f b)"
| "map_regs f (I_XOR d a b) = I_XOR (f d) (f a) (f b)"
| "map_regs f (I_SHL d a b) = I_SHL (f d) (f a) (f b)"
| "map_regs f (I_SHR d a b) = I_SHR (f d) (f a) (f b)"
| "map_regs f (I_NOT d s) = I_NOT (f d) (f s)"
| "map_regs f (I_CMP a b) = I_CMP (f a) (f b)"
| "map_regs f (I_RET s) = I_RET (f s)"
| "map_regs f (I_PUSHARG s) = I_PUSHARG (f s)"
| "map_regs f (I_LDS d k) = I_LDS (f d) k"
| "map_regs f (I_STS k s) = I_STS k (f s)"
| "map_regs f i = i"

lemma map_regs_uses [simp]: "uses (map_regs f inst) = map f (uses inst)"
  by (cases inst) simp_all

lemma map_regs_def_reg [simp]: "def_reg (map_regs f inst) = map_option f (def_reg inst)"
  by (cases inst) simp_all

lemma map_regs_comp [simp]: "map_regs f (map_regs g inst) = map_regs (f \<circ> g) inst"
  by (cases inst) simp_all

lemma remap_instruction_with_Some:
  assumes "remap_instruction_with m inst = Some inst'"
  shows "inst' = map_regs (the \<circ> m) inst"
    and "\<forall>v\<in>set (uses inst) \<union> set_option (def_reg inst). m v \<noteq> None"
  using assms
  by (cases inst; auto simp: remap2_def remap3_def bind_eq_Some_conv)+

lemma result_capture_Some: "result_capture inst = Some d \<Longrightarrow> inst = I_MOV d 0"
  by (cases inst) (auto split: if_splits)

lemma rewrite_instructions_with_Some:
  assumes "m 0 = Some 0" "rewrite_instructions_with m b instrs = Some instrs'"
  shows "instrs' = map (map_regs (the \<circ> m)) instrs"
    and "\<forall>inst\<in>set instrs. \<forall>v\<in>set (uses inst) \<union> set_option (def_reg inst). m v \<noteq> None"
proof -
  have "instrs' = map (map_regs (the \<circ> m)) instrs \<and>
    (\<forall>inst\<in>set instrs. \<forall>v\<in>set (uses inst) \<union> set_option (def_reg inst). m v \<noteq> None)"
    using assms
  proof (induction m b instrs arbitrary: instrs' rule: rewrite_instructions_with.induct)
    case (2 m b inst rest)
    show ?case
    proof (cases "if b then result_capture inst else None")
      case None
      then obtain inst' rest' where r: "remap_instruction_with m inst = Some inst'"
        "rewrite_instructions_with m (is_call inst) rest = Some rest'" "instrs' = inst' # rest'"
        using 2(4) by (auto simp: bind_eq_Some_conv)
      then show ?thesis
        using 2(1) [OF None r(1) 2(3) r(2)] remap_instruction_with_Some [of m inst inst'] by (auto simp: comp_def)
    next
      case (Some d)
      then obtain p rest' where p: "m d = Some p"
        "rewrite_instructions_with m False rest = Some rest'" "instrs' = I_MOV p 0 # rest'"
        using 2(4) by (auto simp: bind_eq_Some_conv)
      have "inst = I_MOV d 0" using Some by (auto split: if_splits dest: result_capture_Some)
      then show ?thesis using 2(2) [OF Some p(1) 2(3) p(2)] p 2(3) by auto
    qed
  qed simp
  then show "instrs' = map (map_regs (the \<circ> m)) instrs"
    "\<forall>inst\<in>set instrs. \<forall>v\<in>set (uses inst) \<union> set_option (def_reg inst). m v \<noteq> None" by auto
qed

section \<open>The register machine\<close>

record ('v, 'm) machine =
  pc :: usize
  regs :: "usize \<Rightarrow> 'v"
  slots :: "usize \<Rightarrow> 'v"
  world :: 'm

text \<open>
  A specification of what code on registers does, for any meaning of the instructions. The effect of
  an instruction without its register numbers, on the operands with their banks (\<open>True\<close> for the secret
  one) and the bank of the result: the result, the rest of the state and whether a conditional jump is
  taken, or \<open>None\<close> for an error. A share that is revealed stands for the value it opens to; what the
  batching of reveals adds to that, for the spill instructions, is \<open>vm_run\<close> below.
\<close>

type_synonym ('v, 'm) effect =
  "instruction \<Rightarrow> (bool \<times> 'v) list \<Rightarrow> bool \<Rightarrow> 'm \<Rightarrow> ('v \<times> 'm \<times> bool) option"

datatype ('v, 'm) ending =
    Returned 'v 'm
  | Fell_Off 'v 'm
  | Failed

type_synonym ('v, 'm) outcome = "('v, 'm) machine + ('v, 'm) ending"

definition shape :: "instruction \<Rightarrow> instruction" where
  "shape inst = map_regs (\<lambda>_. 0) inst"

fun jump_label :: "instruction \<Rightarrow> string option" where
  "jump_label (I_JMP l) = Some l"
| "jump_label (I_JMPEQ l) = Some l"
| "jump_label (I_JMPNEQ l) = Some l"
| "jump_label (I_JMPLT l) = Some l"
| "jump_label (I_JMPGT l) = Some l"
| "jump_label _ = None"

fun unconditional :: "instruction \<Rightarrow> bool" where
  "unconditional (I_JMP _) = True"
| "unconditional _ = False"

fun is_return :: "instruction \<Rightarrow> bool" where
  "is_return (I_RET _) = True"
| "is_return _ = False"

definition written_reg :: "instruction \<Rightarrow> usize option" where
  "written_reg inst = (if is_call inst then Some 0 else def_reg inst)"

definition write_result :: "instruction \<Rightarrow> 'v \<Rightarrow> (usize \<Rightarrow> 'v) \<Rightarrow> usize \<Rightarrow> 'v" where
  "write_result inst v rs = (case written_reg inst of None \<Rightarrow> rs | Some d \<Rightarrow> rs(d := v))"

definition transfer_control ::
  "instruction \<Rightarrow> (string \<times> usize) list \<Rightarrow> bool \<Rightarrow> usize \<Rightarrow> usize option" where
  "transfer_control inst lbls taken i =
     (case jump_label inst of
        Some l \<Rightarrow> if unconditional inst \<or> taken then hm_get (=) lbls l else Some (Suc i)
      | None \<Rightarrow> Some (Suc i))"

definition machine_step ::
  "('v, 'm) effect \<Rightarrow> (usize \<Rightarrow> bool) \<Rightarrow> instruction list \<Rightarrow> (string \<times> usize) list \<Rightarrow>
   ('v, 'm) machine \<Rightarrow> ('v, 'm) outcome" where
  "machine_step eff cls instrs lbls s =
     (if length instrs \<le> pc s then Inr (Fell_Off (regs s 0) (world s))
      else let inst = instrs ! pc s in
      case inst of
        I_LDS d k \<Rightarrow> Inl (s\<lparr>pc := Suc (pc s), regs := (regs s)(d := slots s k)\<rparr>)
      | I_STS k r \<Rightarrow> Inl (s\<lparr>pc := Suc (pc s), slots := (slots s)(k := regs s r)\<rparr>)
      | _ \<Rightarrow>
          (case eff (shape inst) (map (\<lambda>r. (cls r, regs s r)) (uses inst))
                    (case written_reg inst of None \<Rightarrow> False | Some d \<Rightarrow> cls d) (world s) of
             None \<Rightarrow> Inr Failed
           | Some (v, m, taken) \<Rightarrow>
               if is_return inst then Inr (Returned v m)
               else (case transfer_control inst lbls taken (pc s) of
                       None \<Rightarrow> Inr Failed
                     | Some i \<Rightarrow> Inl (s\<lparr>pc := i, regs := write_result inst v (regs s), world := m\<rparr>))))"

definition machine_run ::
  "('v, 'm) effect \<Rightarrow> (usize \<Rightarrow> bool) \<Rightarrow> instruction list \<Rightarrow> (string \<times> usize) list \<Rightarrow>
   nat \<Rightarrow> ('v, 'm) machine \<Rightarrow> ('v, 'm) outcome" where
  "machine_run eff cls instrs lbls n s = steps (machine_step eff cls instrs lbls) n s"

text \<open>
  The spill instructions of the virtual machine fail on a register that awaits the opening of a share
  (\<open>execute_sts\<close> and \<open>execute_lds\<close> of \<open>vm_state/instructions.rs\<close>). Which registers do depends on the
  batch of queued reveals: \<open>awaiting k r\<close> stands for register \<open>r\<close> awaiting one after \<open>k\<close> instructions
  of the run, and is arbitrary.
\<close>

fun spill_register :: "instruction \<Rightarrow> usize option" where
  "spill_register (I_LDS d _) = Some d"
| "spill_register (I_STS _ r) = Some r"
| "spill_register _ = None"

definition spill_blocked :: "(usize \<Rightarrow> bool) \<Rightarrow> instruction list \<Rightarrow> ('v, 'm) machine \<Rightarrow> bool" where
  "spill_blocked awaiting instrs s =
     (pc s < length instrs \<and> (case spill_register (instrs ! pc s) of None \<Rightarrow> False | Some r \<Rightarrow> awaiting r))"

definition vm_run ::
  "(nat \<Rightarrow> usize \<Rightarrow> bool) \<Rightarrow> ('v, 'm) effect \<Rightarrow> (usize \<Rightarrow> bool) \<Rightarrow> instruction list \<Rightarrow> (string \<times> usize) list \<Rightarrow>
   nat \<Rightarrow> ('v, 'm) machine \<Rightarrow> ('v, 'm) outcome" where
  "vm_run awaiting eff cls instrs lbls n s =
     guarded_steps (\<lambda>k. spill_blocked (awaiting k) instrs) Failed (machine_step eff cls instrs lbls) 0 n s"

text \<open>A spill instruction meets a register that awaits a share within the first \<open>n\<close> steps.\<close>

definition spill_fails ::
  "(nat \<Rightarrow> usize \<Rightarrow> bool) \<Rightarrow> ('v, 'm) effect \<Rightarrow> (usize \<Rightarrow> bool) \<Rightarrow> instruction list \<Rightarrow> (string \<times> usize) list \<Rightarrow>
   nat \<Rightarrow> ('v, 'm) machine \<Rightarrow> bool" where
  "spill_fails awaiting eff cls instrs lbls n s \<longleftrightarrow>
     (\<exists>k<n. \<exists>t. machine_run eff cls instrs lbls k s = Inl t \<and> spill_blocked (awaiting k) instrs t)"

definition vm_stops_with ::
  "(nat \<Rightarrow> usize \<Rightarrow> bool) \<Rightarrow> ('v, 'm) effect \<Rightarrow> (usize \<Rightarrow> bool) \<Rightarrow> instruction list \<Rightarrow> (string \<times> usize) list \<Rightarrow>
   ('v, 'm) machine \<Rightarrow> ('v, 'm) ending \<Rightarrow> bool" where
  "vm_stops_with awaiting eff cls instrs lbls s r \<longleftrightarrow> (\<exists>n. vm_run awaiting eff cls instrs lbls n s = Inr r)"

lemma meets_spill_fails:
  "meets_guard (\<lambda>k. spill_blocked (awaiting k) instrs) (machine_step eff cls instrs lbls) 0 n s =
   spill_fails awaiting eff cls instrs lbls n s"
  by (simp add: meets_guard_def spill_fails_def machine_run_def)

lemma vm_run_cases:
  "vm_run awaiting eff cls instrs lbls n s =
     (if spill_fails awaiting eff cls instrs lbls n s then Inr Failed else machine_run eff cls instrs lbls n s)"
  by (simp add: vm_run_def guarded_steps_cases meets_spill_fails machine_run_def)

lemma vm_stops_cases:
  "vm_stops_with awaiting eff cls instrs lbls s r \<longleftrightarrow>
     (if \<exists>n. spill_fails awaiting eff cls instrs lbls n s then r = Failed else stops_with (machine_step eff cls instrs lbls) s r)"
  by (simp add: vm_stops_with_def vm_run_def guarded_stops meets_spill_fails)

lemma never_awaiting: "\<not> spill_fails (\<lambda>_ _. False) eff cls instrs lbls n s"
  by (auto simp: spill_fails_def spill_blocked_def split: option.splits)

text \<open>The step of an instruction that is not a spill instruction.\<close>

lemma machine_step_plain:
  assumes "pc t < length is" "is ! pc t = inst" "\<nexists>d k. inst = I_LDS d k \<or> inst = I_STS k d"
  shows "machine_step eff c is lbls t =
    (case eff (shape inst) (map (\<lambda>r. (c r, regs t r)) (uses inst))
          (case written_reg inst of None \<Rightarrow> False | Some d \<Rightarrow> c d) (world t) of
       None \<Rightarrow> Inr Failed
     | Some (v, m, taken) \<Rightarrow>
         if is_return inst then Inr (Returned v m)
         else (case transfer_control inst lbls taken (pc t) of
                 None \<Rightarrow> Inr Failed
               | Some i \<Rightarrow> Inl (t\<lparr>pc := i, regs := write_result inst v (regs t), world := m\<rparr>)))"
  using assms unfolding machine_step_def by (cases inst) (simp_all only: Let_def instruction.case, auto)

section \<open>Assignments that keep live values apart\<close>

text \<open>
  What the rewriting relies on: register 0 stays, a register that is written is not the one of
  another live register (nor of register 0), and the banks of the registers agree.
\<close>

definition valid_assignment ::
  "instruction list \<Rightarrow> (string \<times> usize) list \<Rightarrow> (usize \<Rightarrow> bool) \<Rightarrow> (usize \<Rightarrow> bool) \<Rightarrow> (usize \<Rightarrow> usize) \<Rightarrow> bool" where
  "valid_assignment instrs lbls cls pcls f \<longleftrightarrow> f 0 = 0 \<and> pcls 0 = cls 0 \<and>
     (\<forall>i < length instrs. \<forall>d v. written_reg (instrs ! i) = Some d \<longrightarrow> v \<noteq> d \<longrightarrow>
        live_after instrs lbls i v \<or> v = 0 \<longrightarrow> f v \<noteq> f d) \<and>
     (\<forall>inst\<in>set instrs. \<forall>v\<in>set (uses inst) \<union> set_option (def_reg inst). pcls (f v) = cls v)"

definition agree ::
  "instruction list \<Rightarrow> (string \<times> usize) list \<Rightarrow> (usize \<Rightarrow> usize) \<Rightarrow> ('v, 'm) machine \<Rightarrow> ('v, 'm) machine \<Rightarrow> bool" where
  "agree instrs lbls f s s' \<longleftrightarrow> pc s' = pc s \<and> slots s' = slots s \<and> world s' = world s \<and>
     (\<forall>v. live_before instrs lbls (pc s) v \<or> v = 0 \<longrightarrow> regs s' (f v) = regs s v)"

definition same_outcome ::
  "instruction list \<Rightarrow> (string \<times> usize) list \<Rightarrow> (usize \<Rightarrow> usize) \<Rightarrow> ('v, 'm) outcome \<Rightarrow> ('v, 'm) outcome \<Rightarrow> bool" where
  "same_outcome instrs lbls f o1 o2 =
     (case (o1, o2) of
        (Inl s, Inl s') \<Rightarrow> agree instrs lbls f s s'
      | (Inr r, Inr r') \<Rightarrow> r' = r
      | _ \<Rightarrow> False)"

lemma map_regs_control [simp]:
  "jump_label (map_regs f inst) = jump_label inst" "unconditional (map_regs f inst) = unconditional inst"
  "is_return (map_regs f inst) = is_return inst" "is_call (map_regs f inst) = is_call inst"
  "shape (map_regs f inst) = shape inst"
  by (cases inst; simp add: shape_def comp_def)+

lemma call_def_reg [simp]: "is_call inst \<Longrightarrow> def_reg inst = None"
  by (cases inst) simp_all

lemma written_reg_map: "f 0 = 0 \<Longrightarrow> written_reg (map_regs f inst) = map_option f (written_reg inst)"
  by (simp add: written_reg_def)

lemma transfer_control_next:
  assumes "transfer_control (instrs ! i) lbls taken i = Some j" "j < length instrs" "\<not> is_return (instrs ! i)"
  shows "j \<in> set (next_instrs instrs lbls i)"
  using assms
  by (cases "instrs ! i")
    (auto simp: transfer_control_def next_instrs_def label_target_def split: if_splits)

text \<open>The registers a step writes, and where control goes, keep the agreement.\<close>

lemma agree_after_write:
  assumes va: "valid_assignment instrs lbls cls pcls f" and ag: "agree instrs lbls f s s'"
    and i: "pc s < length instrs" and nxt: "j < length instrs \<Longrightarrow> j \<in> set (next_instrs instrs lbls (pc s))"
  shows "agree instrs lbls f
     (s\<lparr>pc := j, regs := write_result (instrs ! pc s) v (regs s), slots := k, world := m\<rparr>)
     (s'\<lparr>pc := j, regs := write_result (map_regs f (instrs ! pc s)) v (regs s'), slots := k, world := m\<rparr>)"
proof -
  have f0: "f 0 = 0" using va by (simp add: valid_assignment_def)
  have "write_result (map_regs f (instrs ! pc s)) v (regs s') (f w) = write_result (instrs ! pc s) v (regs s) w"
    if w: "live_before instrs lbls j w \<or> w = 0" for w
  proof -
    have "j < length instrs" if "live_before instrs lbls j w" using that by cases auto
    with w nxt have after: "live_after instrs lbls (pc s) w \<or> w = 0" by (auto simp: live_after_def)
    show ?thesis
    proof (cases "written_reg (instrs ! pc s)")
      case None
      then have "live_before instrs lbls (pc s) w \<or> w = 0"
        using after live_after_before [of instrs lbls "pc s" w] i by (auto simp: written_reg_def split: if_splits)
      with None ag show ?thesis by (auto simp: agree_def write_result_def written_reg_map [of f, OF f0])
    next
      case (Some d)
      show ?thesis
      proof (cases "w = d")
        case True
        then show ?thesis using Some by (simp add: write_result_def written_reg_map [of f, OF f0])
      next
        case False
        then have "f w \<noteq> f d" using va Some after i unfolding valid_assignment_def by blast
        moreover have "live_before instrs lbls (pc s) w \<or> w = 0"
          using after live_after_before [of instrs lbls "pc s" w] i Some False
          by (auto simp: written_reg_def split: if_splits)
        ultimately show ?thesis
          using ag False Some by (auto simp: agree_def write_result_def written_reg_map [of f, OF f0])
      qed
    qed
  qed
  then show ?thesis using ag by (simp add: agree_def)
qed

lemma machine_step_agree:
  assumes va: "valid_assignment instrs lbls cls pcls f" and ag: "agree instrs lbls f s s'"
  shows "same_outcome instrs lbls f (machine_step eff cls instrs lbls s)
    (machine_step eff pcls (map (map_regs f) instrs) lbls s')"
proof (cases "pc s < length instrs")
  case False
  then show ?thesis using va ag by (auto simp: machine_step_def agree_def valid_assignment_def same_outcome_def)
next
  case True
  define inst where "inst = instrs ! pc s"
  have f0: "f 0 = 0" "pcls 0 = cls 0" using va by (simp_all add: valid_assignment_def)
  have eqs: "pc s' = pc s" "slots s' = slots s" "world s' = world s" using ag by (simp_all add: agree_def)
  have inst': "map (map_regs f) instrs ! pc s = map_regs f inst" using True by (simp add: inst_def)
  have mem: "inst \<in> set instrs" using True by (simp add: inst_def)
  have operand: "(pcls (f u), regs s' (f u)) = (cls u, regs s u)" if "u \<in> set (uses inst)" for u
  proof -
    have "live_before instrs lbls (pc s) u" using that True by (auto simp: inst_def intro: live_use)
    then show ?thesis using va ag mem that by (auto simp: agree_def valid_assignment_def)
  qed
  then have ops: "map (\<lambda>r. (pcls r, regs s' r)) (uses (map_regs f inst)) = map (\<lambda>r. (cls r, regs s r)) (uses inst)"
    by simp
  have dest: "(case written_reg (map_regs f inst) of None \<Rightarrow> False | Some d \<Rightarrow> pcls d) =
      (case written_reg inst of None \<Rightarrow> False | Some d \<Rightarrow> cls d)"
    using va mem f0 by (auto simp: written_reg_map [of f, OF f0(1)] written_reg_def valid_assignment_def split: option.splits)
  have follow: "\<not> ends_block inst \<Longrightarrow> Suc (pc s) < length instrs \<Longrightarrow> Suc (pc s) \<in> set (next_instrs instrs lbls (pc s))"
    by (simp add: inst_def next_instrs_inner)
  show ?thesis
  proof (cases "\<exists>d k. inst = I_LDS d k \<or> inst = I_STS k d")
    case True
    then obtain d k where "inst = I_LDS d k \<or> inst = I_STS k d" by blast
    then show ?thesis
    proof
      assume lds: "inst = I_LDS d k"
      have "agree instrs lbls f
         (s\<lparr>pc := Suc (pc s), regs := write_result inst (slots s k) (regs s), slots := slots s, world := world s\<rparr>)
         (s'\<lparr>pc := Suc (pc s), regs := write_result (map_regs f inst) (slots s k) (regs s'), slots := slots s, world := world s\<rparr>)"
        unfolding inst_def
        using \<open>pc s < length instrs\<close> follow by (intro agree_after_write [OF va ag]) (auto simp: lds inst_def [symmetric])
      then show ?thesis
        using \<open>pc s < length instrs\<close> inst'
        by (simp add: machine_step_def eqs inst_def [symmetric] lds write_result_def written_reg_def same_outcome_def) (simp add: agree_def eqs)
    next
      assume sts: "inst = I_STS k d"
      have "agree instrs lbls f
         (s\<lparr>pc := Suc (pc s), regs := write_result inst (regs s d) (regs s), slots := (slots s)(k := regs s d), world := world s\<rparr>)
         (s'\<lparr>pc := Suc (pc s), regs := write_result (map_regs f inst) (regs s d) (regs s'), slots := (slots s)(k := regs s d), world := world s\<rparr>)"
        unfolding inst_def
        using \<open>pc s < length instrs\<close> follow by (intro agree_after_write [OF va ag]) (auto simp: sts inst_def [symmetric])
      moreover have "regs s' (f d) = regs s d" using operand [of d] by (simp add: sts)
      ultimately show ?thesis
        using \<open>pc s < length instrs\<close> inst'
        by (simp add: machine_step_def eqs inst_def [symmetric] sts write_result_def written_reg_def same_outcome_def) (simp add: agree_def eqs)
    qed
  next
    case False
    have no': "\<nexists>d k. map_regs f inst = I_LDS d k \<or> map_regs f inst = I_STS k d"
      using False by (cases inst) auto
    have s1: "machine_step eff cls instrs lbls s =
      (case eff (shape inst) (map (\<lambda>r. (cls r, regs s r)) (uses inst))
            (case written_reg inst of None \<Rightarrow> False | Some d \<Rightarrow> cls d) (world s) of
         None \<Rightarrow> Inr Failed
       | Some (v, m, taken) \<Rightarrow>
           if is_return inst then Inr (Returned v m)
           else (case transfer_control inst lbls taken (pc s) of
                   None \<Rightarrow> Inr Failed
                 | Some i \<Rightarrow> Inl (s\<lparr>pc := i, regs := write_result inst v (regs s), world := m\<rparr>)))"
      using True False by (intro machine_step_plain) (simp_all add: inst_def)
    have s2: "machine_step eff pcls (map (map_regs f) instrs) lbls s' =
      (case eff (shape inst) (map (\<lambda>r. (cls r, regs s r)) (uses inst))
            (case written_reg inst of None \<Rightarrow> False | Some d \<Rightarrow> cls d) (world s) of
         None \<Rightarrow> Inr Failed
       | Some (v, m, taken) \<Rightarrow>
           if is_return inst then Inr (Returned v m)
           else (case transfer_control inst lbls taken (pc s) of
                   None \<Rightarrow> Inr Failed
                 | Some i \<Rightarrow> Inl (s'\<lparr>pc := i, regs := write_result (map_regs f inst) v (regs s'), world := m\<rparr>)))"
    proof -
      have tc: "transfer_control (map_regs f inst) lbls taken i = transfer_control inst lbls taken i" for taken i
        by (simp add: transfer_control_def split: option.split)
      have "pc s' < length (map (map_regs f) instrs)" "map (map_regs f) instrs ! pc s' = map_regs f inst"
        using True inst' by (simp_all add: eqs)
      from machine_step_plain [OF this no', of eff pcls lbls] show ?thesis
        by (simp only: ops dest tc map_regs_control eqs)
    qed
    have control: "agree instrs lbls f (s\<lparr>pc := j, regs := write_result inst v (regs s), world := m\<rparr>)
        (s'\<lparr>pc := j, regs := write_result (map_regs f inst) v (regs s'), world := m\<rparr>)"
      if "transfer_control inst lbls taken (pc s) = Some j" "\<not> is_return inst" for v m j taken
    proof -
      have "agree instrs lbls f
         (s\<lparr>pc := j, regs := write_result inst v (regs s), slots := slots s, world := m\<rparr>)
         (s'\<lparr>pc := j, regs := write_result (map_regs f inst) v (regs s'), slots := slots s, world := m\<rparr>)"
        unfolding inst_def using that True
        by (intro agree_after_write [OF va ag]) (auto simp: inst_def intro: transfer_control_next)
      then show ?thesis using eqs by (simp add: agree_def)
    qed
    show ?thesis
      unfolding s1 s2 using control by (auto simp: same_outcome_def split: option.splits prod.splits)
  qed
qed

lemma machine_run_agree:
  assumes va: "valid_assignment instrs lbls cls pcls f"
  shows "agree instrs lbls f s s' \<Longrightarrow>
    same_outcome instrs lbls f (machine_run eff cls instrs lbls n s)
      (machine_run eff pcls (map (map_regs f) instrs) lbls n s')"
proof (induction n arbitrary: s s')
  case (Suc n)
  have "same_outcome instrs lbls f (machine_step eff cls instrs lbls s)
    (machine_step eff pcls (map (map_regs f) instrs) lbls s')"
    by (rule machine_step_agree [OF va Suc.prems])
  then show ?case
  proof (cases "machine_step eff cls instrs lbls s")
    case (Inl t)
    then obtain t' where "machine_step eff pcls (map (map_regs f) instrs) lbls s' = Inl t'" "agree instrs lbls f t t'"
      using \<open>same_outcome instrs lbls f (machine_step eff cls instrs lbls s) _\<close>
      by (auto simp: same_outcome_def split: sum.splits)
    with Inl Suc.IH show ?thesis by (simp add: machine_run_def)
  qed (auto simp: machine_run_def same_outcome_def split: sum.splits)
qed (simp add: machine_run_def same_outcome_def)

section \<open>The allocation of the linear scan is such an assignment\<close>

definition physical :: "usize option list \<Rightarrow> usize \<Rightarrow> usize" where
  "physical al v = the (allocated al v)"

definition virtual_bank :: "bool list \<Rightarrow> usize \<Rightarrow> bool" where
  "virtual_bank secrecy v = (v < length secrecy \<and> secrecy ! v)"

definition physical_bank :: "usize \<Rightarrow> usize \<Rightarrow> bool" where
  "physical_bank k_clear r = (k_clear \<le> r)"

text \<open>
  The precoloured registers: each virtual register once, no physical register twice, register 0
  in place, and the banks as declared.
\<close>

definition precolored_ok :: "usize \<Rightarrow> bool list \<Rightarrow> (usize \<times> usize) list \<Rightarrow> bool" where
  "precolored_ok k_clear secrecy precolored \<longleftrightarrow>
     distinct (map fst precolored) \<and> distinct (map snd precolored) \<and> map_of precolored 0 = Some 0 \<and>
     list_all (\<lambda>(v, p). physical_bank k_clear p = virtual_bank secrecy v) precolored"

text \<open>
  Layout order: where a register that is not precoloured is live, its first definition comes
  earlier in the code.
\<close>

definition defined_before_live ::
  "instruction list \<Rightarrow> (string \<times> usize) list \<Rightarrow> (usize \<times> usize) list \<Rightarrow> bool" where
  "defined_before_live instrs lbls precolored \<longleftrightarrow>
     (\<forall>i v d. live_before instrs lbls i v \<longrightarrow> def_first instrs v = Some d \<longrightarrow> map_of precolored v = None \<longrightarrow> d < i)"

lemma defined_before_live_after:
  assumes "defined_before_live instrs lbls precolored" "live_after instrs lbls i v" "i < length instrs"
    and "def_first instrs v = Some d" "map_of precolored v = None"
  shows "d \<le> i"
proof (cases "def_reg (instrs ! i) = Some v")
  case True
  then have "\<not> i < d" using def_first_Some [OF assms(4)] by blast
  then show ?thesis by simp
next
  case False
  then have "live_before instrs lbls i v" using live_after_before assms(2,3) by blast
  then show ?thesis using assms unfolding defined_before_live_def by (metis less_imp_le)
qed

text \<open>A table of live registers that is closed under control flow certifies the layout order.\<close>

definition live_table :: "instruction list \<Rightarrow> (string \<times> usize) list \<Rightarrow> usize list list \<Rightarrow> bool" where
  "live_table instrs lbls L \<longleftrightarrow>
     list_all (\<lambda>i. list_all (\<lambda>v. v \<in> set (L ! i)) (uses (instrs ! i)) \<and>
       list_all (\<lambda>j. list_all (\<lambda>v. def_reg (instrs ! i) = Some v \<or> v \<in> set (L ! i)) (L ! j)) (next_instrs instrs lbls i))
     [0..<length instrs]"

lemma live_table_sound:
  assumes "live_before instrs lbls i v" "live_table instrs lbls L"
  shows "v \<in> set (L ! i)"
  using assms by (induction rule: live_before.induct) (fastforce simp: live_table_def list_all_iff)+

lemma defined_before_live_table:
  assumes "live_table instrs lbls L"
    and "list_all (\<lambda>i. list_all (\<lambda>v. case def_first instrs v of None \<Rightarrow> True | Some d \<Rightarrow> d < i \<or> map_of precolored v \<noteq> None) (L ! i))
      [0..<length instrs]"
  shows "defined_before_live instrs lbls precolored"
  unfolding defined_before_live_def
proof (intro allI impI)
  fix i v d
  assume live: "live_before instrs lbls i v" and d: "def_first instrs v = Some d" "map_of precolored v = None"
  have "i < length instrs" using live by (cases rule: live_before.cases) auto
  then show "d < i" using live_table_sound [OF live assms(1)] assms(2) d by (fastforce simp: list_all_iff)
qed

lemma distinct_snd_inj:
  "distinct (map snd m) \<Longrightarrow> map_of m v = Some p \<Longrightarrow> map_of m w = Some p \<Longrightarrow> v = w"
  unfolding distinct_map inj_on_def by (metis map_of_SomeD prod.inject snd_conv)

lemma classify_bank: "classify kc ks r = Some b \<Longrightarrow> physical_bank kc r = b"
  by (auto simp: classify_def physical_bank_def split: if_splits)

lemma physical_nth: "v < length al \<Longrightarrow> al ! v = Some r \<Longrightarrow> physical al v = r"
  by (simp add: physical_def allocated_def vec_get_def)

lemma rewritten_operand:
  assumes "allocated al v \<noteq> None"
  shows "v < length al" "al ! v = Some (physical al v)"
  using assms by (auto simp: physical_def allocated_def vec_get_def split: if_splits)

text \<open>The registers of an allocation, by the two kinds of virtual registers.\<close>

lemma physical_precolored:
  assumes "linear_scan_partition ivs kc ks reserve secrecy precolored us = Inr al"
    and "precolored_ok kc secrecy precolored" "map_of precolored v = Some p"
  shows "physical al v = p"
  using linear_scan_precolored [OF assms(1) _ assms(3)] assms(2)
  by (simp add: precolored_ok_def physical_nth)

lemma linear_scan_length:
  assumes "linear_scan_partition ivs kc ks reserve secrecy precolored us = Inr al"
    and "distinct (map fst precolored)"
  shows "length ivs \<le> length al"
proof -
  obtain st where loop: "scan_loop kc ks reserve secrecy us (scan_order ivs precolored)
      (initial_scan ivs kc ks precolored) = Inr st" and st: "allocation st = al"
    by (rule linear_scan_Inr [OF assms(1)])
  then show ?thesis
    using linear_scan_inv [OF loop assms(2)] initial_allocation_spec(1) [OF assms(2), of ivs]
    by (auto simp: scan_inv_def untouched_def)
qed

lemma physical_scanned:
  assumes ls: "linear_scan_partition ivs kc ks reserve secrecy precolored us = Inr al"
    and pre: "precolored_ok kc secrecy precolored"
    and v: "v < length ivs" "ivs ! v = Some iv" "map_of precolored v = None"
  shows "physical_bank kc (physical al v) = virtual_bank secrecy v"
    and "physical al v \<notin> snd ` set precolored"
    and "w \<noteq> v \<Longrightarrow> w < length ivs \<Longrightarrow> ivs ! w = Some iw \<Longrightarrow> overlap iv iw \<Longrightarrow> map_of precolored w = None \<Longrightarrow>
      physical al w \<noteq> physical al v"
proof -
  have dist: "distinct (map fst precolored)" using pre by (simp add: precolored_ok_def)
  note len = linear_scan_length [OF ls dist]
  obtain r where r: "al ! v = Some r" "v < length secrecy" "classify kc ks r = Some (secrecy ! v)"
    "r \<notin> snd ` set precolored"
    "\<forall>w iw. w \<noteq> v \<longrightarrow> w < length ivs \<longrightarrow> ivs ! w = Some iw \<longrightarrow> overlap iv iw \<longrightarrow> al ! w \<noteq> Some r"
    using linear_scan_interval [OF ls dist v] by blast
  have pv: "physical al v = r" using r(1) v(1) len by (simp add: physical_nth)
  show "physical_bank kc (physical al v) = virtual_bank secrecy v" "physical al v \<notin> snd ` set precolored"
    using r pv classify_bank [OF r(3)] by (simp_all add: virtual_bank_def)
  show "physical al w \<noteq> physical al v"
    if w: "w \<noteq> v" "w < length ivs" "ivs ! w = Some iw" "overlap iv iw" "map_of precolored w = None"
  proof -
    obtain r' where "al ! w = Some r'" using linear_scan_interval [OF ls dist w(2,3,5)] by blast
    moreover have "al ! w \<noteq> Some r" using r(5) w by blast
    ultimately show ?thesis using pv len w(2) by (simp add: physical_nth)
  qed
qed

lemma linear_scan_valid:
  assumes ana: "analyze_liveness_cfg_dense instrs lbls live_in = Some ivs"
    and ls: "linear_scan_partition ivs kc ks reserve secrecy precolored us = Inr al"
    and pre: "precolored_ok kc secrecy precolored"
    and first: "defined_before_live instrs lbls precolored"
  shows "valid_assignment instrs lbls (virtual_bank secrecy) (physical_bank kc) (physical al)"
  unfolding valid_assignment_def
proof (intro conjI allI impI ballI)
  have zero: "map_of precolored 0 = Some 0" using pre by (simp add: precolored_ok_def)
  have banks: "physical_bank kc p = virtual_bank secrecy v" if "map_of precolored v = Some p" for v p
    using pre map_of_SomeD [OF that] by (auto simp: precolored_ok_def list_all_iff)
  show p0: "physical al 0 = 0" by (rule physical_precolored [OF ls pre zero])
  show "physical_bank kc 0 = virtual_bank secrecy 0" by (rule banks [OF zero])
  show "physical_bank kc (physical al v) = virtual_bank secrecy v"
    if inst: "inst \<in> set instrs" "v \<in> set (uses inst) \<union> set_option (def_reg inst)" for inst v
  proof (cases "map_of precolored v")
    case None
    have "v \<in> set (occurring instrs live_in)"
      using inst by (auto simp: occurring_def use_regs_uses)
    then obtain iv where "v < length ivs" "ivs ! v = Some iv"
      using analysis_occurring [OF ana] length_pos_if_in_set [OF inst(1)] by blast
    then show ?thesis by (rule physical_scanned(1) [OF ls pre _ _ None])
  next
    case (Some p)
    then show ?thesis using physical_precolored [OF ls pre Some] banks by simp
  qed
  fix i d v
  assume i: "i < length instrs" and d: "written_reg (instrs ! i) = Some d" and neq: "v \<noteq> d"
    and v: "live_after instrs lbls i v \<or> v = 0"
  have def: "def_reg (instrs ! i) = Some d" if "map_of precolored d = None"
    using d zero that by (auto simp: written_reg_def split: if_splits)
  have live: "live_after instrs lbls i v" if "map_of precolored v = None"
    using v zero that by auto
  show "physical al v \<noteq> physical al d"
  proof (cases "map_of precolored v"; cases "map_of precolored d")
    fix p q assume pq: "map_of precolored v = Some p" "map_of precolored d = Some q"
    then have "p \<noteq> q" using pre neq distinct_snd_inj [of precolored v p d] by (auto simp: precolored_ok_def)
    then show ?thesis using pq by (simp add: physical_precolored [OF ls pre])
  next
    fix p assume p: "map_of precolored v = Some p" "map_of precolored d = None"
    obtain iv where "d < length ivs" "ivs ! d = Some iv"
      using intervals_cover_liveness [OF ana i] def [OF p(2)] by blast
    then have "physical al d \<notin> snd ` set precolored" by (rule physical_scanned(2) [OF ls pre _ _ p(2)])
    then show ?thesis using physical_precolored [OF ls pre p(1)] map_of_SomeD [OF p(1)] by force
  next
    fix q assume q: "map_of precolored v = None" "map_of precolored d = Some q"
    obtain iv where "v < length ivs" "ivs ! v = Some iv"
      using intervals_cover_liveness [OF ana i] live [OF q(1)] by blast
    then have "physical al v \<notin> snd ` set precolored" by (rule physical_scanned(2) [OF ls pre _ _ q(1)])
    then show ?thesis using physical_precolored [OF ls pre q(2)] map_of_SomeD [OF q(2)] by force
  next
    assume none: "map_of precolored v = None" "map_of precolored d = None"
    obtain dv where dv: "d < length ivs" "ivs ! d = Some dv" "i < li_end dv" "li_start dv \<le> i"
      using intervals_cover_liveness [OF ana i] def [OF none(2)] by blast
    obtain iv where iv: "v < length ivs" "ivs ! v = Some iv" "i < li_end iv"
      "li_start iv = (case def_first instrs v of Some d \<Rightarrow> d | None \<Rightarrow> 0)"
      using intervals_cover_liveness [OF ana i] live [OF none(1)] by blast
    have "li_start iv \<le> i"
      using defined_before_live_after [OF first live [OF none(1)] i _ none(1)] iv(4) by (auto split: option.splits)
    then have "overlap dv iv" using dv iv by (simp add: overlap_def)
    then show ?thesis by (rule physical_scanned(3) [OF ls pre dv(1,2) none(2) neq iv(1,2) _ none(1)])
  qed
qed

lemma rewritten_renaming:
  assumes scan: "linear_scan_partition ivs kc ks reserve secrecy precolored us = Inr al"
    and rew: "rewrite_instructions_dense instrs al = Some instrs'" and pre: "precolored_ok kc secrecy precolored"
  shows "instrs' = map (map_regs (physical al)) instrs"
proof -
  have "map_of precolored 0 = Some 0" "distinct (map fst precolored)" using pre by (simp_all add: precolored_ok_def)
  from linear_scan_precolored [OF scan this(2,1)] have "allocated al 0 = Some 0"
    by (simp add: allocated_def vec_get_def)
  then have "instrs' = map (map_regs (the \<circ> allocated al)) instrs"
    using rew unfolding rewrite_instructions_dense_def by (rule rewrite_instructions_with_Some(1))
  then show ?thesis by (simp add: physical_def [abs_def] comp_def)
qed

text \<open>C36: The rewritten code simulates the code on virtual registers step by step, for code whose
  registers are live only after their first definition in the layout (loop-carried reads that stand
  before it are excluded; there the allocation is wrong). Unless a spill instruction meets a register
  that awaits a share, on which the virtual machine fails, the two are on every run at the same
  instruction with the same slots and the same rest of the state and agree on the live registers, and
  they return, fail or run off the end together and with the same result.\<close>

theorem register_allocation_correct:
  assumes "analyze_liveness_cfg_dense instrs lbls live_in = Some ivs"
    and "linear_scan_partition ivs kc ks reserve secrecy precolored us = Inr al"
    and "rewrite_instructions_dense instrs al = Some instrs'"
    and "precolored_ok kc secrecy precolored" "defined_before_live instrs lbls precolored"
    and "agree instrs lbls (physical al) s s'"
  shows "if spill_fails awaiting eff (physical_bank kc) instrs' lbls n s'
    then vm_run awaiting eff (physical_bank kc) instrs' lbls n s' = Inr Failed
    else same_outcome instrs lbls (physical al)
      (machine_run eff (virtual_bank secrecy) instrs lbls n s)
      (vm_run awaiting eff (physical_bank kc) instrs' lbls n s')"
  using machine_run_agree [OF linear_scan_valid [OF assms(1,2,4,5)] assms(6)]
  by (simp add: vm_run_cases rewritten_renaming [OF assms(2,3,4)])

text \<open>A loop with a back edge, on an effect that copies its first operand.\<close>

definition sample_body :: "instruction list" where
  "sample_body = [I_LDI 1 (Bool True), I_MOV 2 1, I_ADD 3 2 1, I_CMP 3 1, I_JMPEQ ''l'', I_RET 3]"

definition sample_effect :: "(int, unit) effect" where
  "sample_effect inst args b m = Some (case args of [] \<Rightarrow> 5 | (_, x) # _ \<Rightarrow> x, m, False)"

definition sample_start :: "(int, unit) machine" where
  "sample_start = \<lparr>pc = 0, regs = (\<lambda>_. 0), slots = (\<lambda>_. 0), world = ()\<rparr>"

definition sample_code :: "instruction list" where
  "sample_code = [I_LDI 1 (Bool True), I_MOV 2 1, I_ADD 2 2 1, I_CMP 2 1, I_JMPEQ ''l'', I_RET 2]"

definition sample_ranges :: "live_interval option list" where
  "sample_ranges = [Some \<lparr>li_start = 0, li_end = 1\<rparr>, Some \<lparr>li_start = 0, li_end = 5\<rparr>,
     Some \<lparr>li_start = 1, li_end = 2\<rparr>, Some \<lparr>li_start = 2, li_end = 5\<rparr>]"

lemma sample_defined: "defined_before_live sample_body [(''l'', 1)] [(0, 0)]"
proof (rule defined_before_live_table)
  show "live_table sample_body [(''l'', 1)] [[], [1], [1, 2], [1, 3], [1, 3], [3]]" by code_simp
  show "list_all (\<lambda>i. list_all (\<lambda>v. case def_first sample_body v of None \<Rightarrow> True
      | Some d \<Rightarrow> d < i \<or> map_of [(0::usize, 0::usize)] v \<noteq> None) ([[], [1], [1, 2], [1, 3], [1, 3], [3]] ! i))
      [0..<length sample_body]" by code_simp
qed

lemma sample_precolored: "precolored_ok 16 [False, False, False, False] [(0, 0)]"
  by code_simp

theorem register_allocation_correct_witness:
  "analyze_liveness_cfg_dense sample_body [(''l'', 1)] [0] = Some sample_ranges \<and>
   linear_scan_partition sample_ranges 16 16 0 [False, False, False, False] [(0, 0)] 4 = Inr [Some 0, Some 1, Some 2, Some 2] \<and>
   same_outcome sample_body [(''l'', 1)] (physical [Some 0, Some 1, Some 2, Some 2])
     (machine_run sample_effect (virtual_bank [False, False, False, False]) sample_body [(''l'', 1)] 6 sample_start)
     (vm_run (\<lambda>_ _. False) sample_effect (physical_bank 16) sample_code [(''l'', 1)] 6 sample_start)"
proof -
  have ana: "analyze_liveness_cfg_dense sample_body [(''l'', 1)] [0] = Some sample_ranges" by code_simp
  have scan: "linear_scan_partition sample_ranges 16 16 0 [False, False, False, False] [(0, 0)] 4 =
      Inr [Some 0, Some 1, Some 2, Some 2]" by code_simp
  have rew: "rewrite_instructions_dense sample_body [Some 0, Some 1, Some 2, Some 2] = Some sample_code" by code_simp
  have "agree sample_body [(''l'', 1)] (physical [Some 0, Some 1, Some 2, Some 2]) sample_start sample_start"
    by (simp add: agree_def sample_start_def)
  from register_allocation_correct [OF ana scan rew sample_precolored sample_defined this, of "\<lambda>_ _. False" sample_effect 6] ana scan
  show ?thesis by (simp add: never_awaiting)
qed

end
