(* ===== verification/Spilling.thy ===== *)
theory Spilling
  imports Allocation
begin

text \<open>
  Spill code (\<open>stoffel-lang/src/codegen.rs\<close>): a spilled virtual register gets a slot, each use is
  reloaded into a fresh scratch register before the instruction and each definition is computed
  into a fresh scratch register and stored after it; a small cache of the slots that a scratch
  register still holds saves reloads inside a basic block.  The code with spill code behaves as
  the code without it.
\<close>

section \<open>The cache of reloaded slots\<close>

definition SPILL_SLOT_CACHE_CAPACITY :: nat where
  "SPILL_SLOT_CACHE_CAPACITY = 2"

text \<open>Per bank, the slots with their scratch registers, least recently used first.\<close>

type_synonym slot_cache = "bool \<Rightarrow> (usize \<times> usize) list"

fun remove_slot :: "usize \<Rightarrow> (usize \<times> usize) list \<Rightarrow> (usize \<times> (usize \<times> usize) list) option" where
  "remove_slot k [] = None"
| "remove_slot k ((s, r) # bk) =
     (if s = k then Some (r, bk) else map_option (\<lambda>(x, b). (x, (s, r) # b)) (remove_slot k bk))"

definition cache_lookup :: "bool \<Rightarrow> usize \<Rightarrow> slot_cache \<Rightarrow> (usize \<times> slot_cache) option" where
  "cache_lookup b k cache =
     map_option (\<lambda>(r, bk). (r, cache(b := bk @ [(k, r)]))) (remove_slot k (cache b))"

definition cache_insert :: "bool \<Rightarrow> usize \<Rightarrow> usize \<Rightarrow> slot_cache \<Rightarrow> slot_cache" where
  "cache_insert b k r cache =
     (let bk = (case remove_slot k (cache b) of
                  Some (_, bk) \<Rightarrow> bk
                | None \<Rightarrow> if length (cache b) = SPILL_SLOT_CACHE_CAPACITY then tl (cache b) else cache b)
      in cache(b := bk @ [(k, r)]))"

definition cache_clear :: slot_cache where
  "cache_clear = (\<lambda>_. [])"

section \<open>Lowering\<close>

text \<open>The in-place renaming of an instruction: uses by \<open>g\<close>, the definition by \<open>h\<close>.\<close>

fun remap_operands :: "(usize \<Rightarrow> usize) \<Rightarrow> (usize \<Rightarrow> usize) \<Rightarrow> instruction \<Rightarrow> instruction" where
  "remap_operands g h (I_LD d k) = I_LD (h d) k"
| "remap_operands g h (I_LDI d v) = I_LDI (h d) v"
| "remap_operands g h (I_LDS d k) = I_LDS (h d) k"
| "remap_operands g h (I_MOV d s) = I_MOV (h d) (g s)"
| "remap_operands g h (I_NOT d s) = I_NOT (h d) (g s)"
| "remap_operands g h (I_ADD d a b) = I_ADD (h d) (g a) (g b)"
| "remap_operands g h (I_SUB d a b) = I_SUB (h d) (g a) (g b)"
| "remap_operands g h (I_MUL d a b) = I_MUL (h d) (g a) (g b)"
| "remap_operands g h (I_DIV d a b) = I_DIV (h d) (g a) (g b)"
| "remap_operands g h (I_MOD d a b) = I_MOD (h d) (g a) (g b)"
| "remap_operands g h (I_AND d a b) = I_AND (h d) (g a) (g b)"
| "remap_operands g h (I_OR d a b) = I_OR (h d) (g a) (g b)"
| "remap_operands g h (I_XOR d a b) = I_XOR (h d) (g a) (g b)"
| "remap_operands g h (I_SHL d a b) = I_SHL (h d) (g a) (g b)"
| "remap_operands g h (I_SHR d a b) = I_SHR (h d) (g a) (g b)"
| "remap_operands g h (I_RET s) = I_RET (g s)"
| "remap_operands g h (I_PUSHARG s) = I_PUSHARG (g s)"
| "remap_operands g h (I_STS k s) = I_STS k (g s)"
| "remap_operands g h (I_CMP a b) = I_CMP (g a) (g b)"
| "remap_operands g h i = i"

definition renamed :: "(usize \<times> usize) list \<Rightarrow> usize \<Rightarrow> usize" where
  "renamed mapped v = (case map_of mapped v of Some r \<Rightarrow> r | None \<Rightarrow> v)"

definition remap_instruction_registers_in_place ::
  "(usize \<times> usize) list \<Rightarrow> (usize \<times> usize) option \<Rightarrow> instruction \<Rightarrow> instruction" where
  "remap_instruction_registers_in_place mapped_uses mapped_def inst =
     remap_operands (renamed mapped_uses) (renamed (opt_list mapped_def)) inst"

record lowering =
  next_vr :: usize
  secrecy_map :: "bool list"
  slot_cache :: slot_cache

definition fresh_virtual_register :: "bool \<Rightarrow> lowering \<Rightarrow> usize \<times> lowering" where
  "fresh_virtual_register b st =
     (next_vr st, st\<lparr>next_vr := Suc (next_vr st), secrecy_map := secrecy_map st @ [b]\<rparr>)"

text \<open>The slots of the spilled registers.\<close>

definition assign_slots :: "usize list \<Rightarrow> usize \<Rightarrow> (usize \<Rightarrow> usize option) \<times> usize" where
  "assign_slots spilled_vrs next_slot =
     fold (\<lambda>v (slot_of, next). if slot_of v = None then (slot_of(v \<mapsto> next), Suc next) else (slot_of, next))
       spilled_vrs (\<lambda>_. None, next_slot)"

fun lower_uses ::
  "bool \<Rightarrow> (usize \<Rightarrow> usize option) \<Rightarrow> usize list \<Rightarrow> (usize \<times> usize) list \<Rightarrow> lowering \<Rightarrow>
   (usize \<times> usize) list \<times> instruction list \<times> lowering" where
  "lower_uses en slot_of [] mapped st = (mapped, [], st)"
| "lower_uses en slot_of (u # us) mapped st =
     (case slot_of u of
        None \<Rightarrow> lower_uses en slot_of us mapped st
      | Some k \<Rightarrow>
          if u \<in> fst ` set mapped then lower_uses en slot_of us mapped st
          else let b = virtual_bank (secrecy_map st) u in
            (case (if en then cache_lookup b k (slot_cache st) else None) of
               Some (r, cache) \<Rightarrow> lower_uses en slot_of us (mapped @ [(u, r)]) (st\<lparr>slot_cache := cache\<rparr>)
             | None \<Rightarrow>
                 (case fresh_virtual_register b st of (r, st1) \<Rightarrow>
                    let st2 = (if en then st1\<lparr>slot_cache := cache_insert b k r (slot_cache st1)\<rparr> else st1)
                    in (case lower_uses en slot_of us (mapped @ [(u, r)]) st2 of
                          (mapped', loads, st') \<Rightarrow> (mapped', I_LDS r k # loads, st')))))"

definition lower_def ::
  "(usize \<Rightarrow> usize option) \<Rightarrow> instruction \<Rightarrow> lowering \<Rightarrow> (usize \<times> usize) option \<times> lowering" where
  "lower_def slot_of inst st =
     (case def_reg inst of
        None \<Rightarrow> (None, st)
      | Some d \<Rightarrow>
          (case slot_of d of
             None \<Rightarrow> (None, st)
           | Some k \<Rightarrow> (case fresh_virtual_register (virtual_bank (secrecy_map st) d) st of
                         (r, st') \<Rightarrow> (Some (d, r), st'))))"

definition lower_store ::
  "bool \<Rightarrow> (usize \<Rightarrow> usize option) \<Rightarrow> (usize \<times> usize) option \<Rightarrow> lowering \<Rightarrow> instruction list \<times> lowering" where
  "lower_store en slot_of mapped_def st =
     (case mapped_def of
        None \<Rightarrow> ([], st)
      | Some (d, r) \<Rightarrow>
          ([I_STS (the (slot_of d)) r],
           if en then st\<lparr>slot_cache :=
             cache_insert (virtual_bank (secrecy_map st) d) (the (slot_of d)) r (slot_cache st)\<rparr>
           else st))"

definition clear_if :: "bool \<Rightarrow> lowering \<Rightarrow> lowering" where
  "clear_if c st = (if c then st\<lparr>slot_cache := cache_clear\<rparr> else st)"

definition lower_instruction ::
  "bool \<Rightarrow> usize set \<Rightarrow> (usize \<Rightarrow> usize option) \<Rightarrow> usize \<Rightarrow> instruction \<Rightarrow> lowering \<Rightarrow>
   instruction list \<times> lowering" where
  "lower_instruction en targets slot_of i inst st =
     (case lower_uses en slot_of (flatten_options (use_regs inst)) [] (clear_if (en \<and> i \<in> targets) st) of
        (mapped, loads, st1) \<Rightarrow>
      case lower_def slot_of inst st1 of (mdef, st2) \<Rightarrow>
      case lower_store en slot_of mdef st2 of (stores, st3) \<Rightarrow>
        (loads @ remap_instruction_registers_in_place mapped mdef inst # stores,
         clear_if (en \<and> ends_block inst) st3))"

fun lower_loop ::
  "bool \<Rightarrow> usize set \<Rightarrow> (usize \<Rightarrow> usize option) \<Rightarrow> usize \<Rightarrow> instruction list \<Rightarrow> lowering \<Rightarrow>
   instruction list list \<times> lowering" where
  "lower_loop en targets slot_of i [] st = ([], st)"
| "lower_loop en targets slot_of i (inst # rest) st =
     (case lower_instruction en targets slot_of i inst st of (chunk, st1) \<Rightarrow>
      case lower_loop en targets slot_of (Suc i) rest st1 of (chunks, st2) \<Rightarrow> (chunk # chunks, st2))"

text \<open>The table from old to new indices, with the boundary after the last instruction.\<close>

definition old_to_new :: "instruction list list \<Rightarrow> usize list" where
  "old_to_new chunks = map (\<lambda>i. length (concat (take i chunks))) [0..<Suc (length chunks)]"

definition new_index :: "instruction list list \<Rightarrow> usize \<Rightarrow> usize" where
  "new_index chunks idx =
     (case vec_get (old_to_new chunks) idx of Some j \<Rightarrow> j | None \<Rightarrow> length (concat chunks))"

record lowered =
  lw_code :: "instruction list"
  lw_labels :: "(string \<times> usize) list"
  lw_next_vr :: usize
  lw_secrecy :: "bool list"
  lw_next_slot :: usize

definition lower_spills_into_slots ::
  "instruction list \<Rightarrow> (string \<times> usize) list \<Rightarrow> usize \<Rightarrow> bool list \<Rightarrow> usize list \<Rightarrow> usize \<Rightarrow> bool \<Rightarrow> lowered" where
  "lower_spills_into_slots instrs lbls next secrecy spilled_vrs next_slot en =
     (case assign_slots spilled_vrs next_slot of (slot_of, next_slot') \<Rightarrow>
      case lower_loop en (if en then set (map snd lbls) else {}) slot_of 0 instrs
             \<lparr>next_vr = next, secrecy_map = secrecy, slot_cache = cache_clear\<rparr> of (chunks, st) \<Rightarrow>
        \<lparr>lw_code = concat chunks,
         lw_labels = map (\<lambda>(l, idx). (l, new_index chunks idx)) lbls,
         lw_next_vr = next_vr st, lw_secrecy = secrecy_map st, lw_next_slot = next_slot'\<rparr>)"

section \<open>Steps of renamed instructions\<close>

lemma remap_operands_operands [simp]:
  "uses (remap_operands g h inst) = map g (uses inst)"
  "def_reg (remap_operands g h inst) = map_option h (def_reg inst)"
  by (cases inst; simp)+

lemma remap_operands_control [simp]:
  "jump_label (remap_operands g h inst) = jump_label inst"
  "unconditional (remap_operands g h inst) = unconditional inst"
  "is_return (remap_operands g h inst) = is_return inst"
  "is_call (remap_operands g h inst) = is_call inst"
  "shape (remap_operands g h inst) = shape inst"
  by (cases inst; simp add: shape_def)+

definition stored :: "instruction \<Rightarrow> (usize \<Rightarrow> 'v) \<Rightarrow> (usize \<Rightarrow> 'v) \<Rightarrow> usize \<Rightarrow> 'v" where
  "stored inst rs sl = (case inst of I_STS k r \<Rightarrow> sl(k := rs r) | _ \<Rightarrow> sl)"

definition written_as :: "(usize \<Rightarrow> usize) \<Rightarrow> instruction \<Rightarrow> usize option" where
  "written_as h inst = (if is_call inst then Some 0 else map_option h (def_reg inst))"

definition write_to :: "usize option \<Rightarrow> 'v \<Rightarrow> (usize \<Rightarrow> 'v) \<Rightarrow> usize \<Rightarrow> 'v" where
  "write_to d v rs = (case d of None \<Rightarrow> rs | Some d \<Rightarrow> rs(d := v))"

text \<open>
  What a step does to a machine and to one that runs the renamed instruction elsewhere: the same
  value is written, the same slot is stored, and control goes on or to the same label.
\<close>

definition matching_steps ::
  "instruction \<Rightarrow> (usize \<Rightarrow> usize) \<Rightarrow> (string \<times> usize) list \<Rightarrow> (string \<times> usize) list \<Rightarrow>
   ('v, 'm) machine \<Rightarrow> ('v, 'm) machine \<Rightarrow> ('v, 'm) machine \<Rightarrow> ('v, 'm) machine \<Rightarrow> bool" where
  "matching_steps inst h lbls lbls' s t s' t' \<longleftrightarrow>
     world t' = world s' \<and>
     slots s' = stored inst (regs s) (slots s) \<and> slots t' = stored inst (regs s) (slots t) \<and>
     (\<exists>v. regs s' = write_to (written_reg inst) v (regs s) \<and>
          regs t' = write_to (written_as h inst) v (regs t)) \<and>
     (pc s' = Suc (pc s) \<and> pc t' = Suc (pc t) \<or>
      (\<exists>l. jump_label inst = Some l \<and> hm_get (=) lbls l = Some (pc s') \<and> hm_get (=) lbls' l = Some (pc t')))"

lemma machine_step_spill:
  assumes "pc t < length is"
  shows "is ! pc t = I_LDS d k \<Longrightarrow> machine_step eff c is lbls t =
      Inl (t\<lparr>pc := Suc (pc t), regs := (regs t)(d := slots t k)\<rparr>)"
    and "is ! pc t = I_STS k d \<Longrightarrow> machine_step eff c is lbls t =
      Inl (t\<lparr>pc := Suc (pc t), slots := (slots t)(k := regs t d)\<rparr>)"
  using assms by (simp_all add: machine_step_def)

lemma machine_step_renamed:
  assumes i: "pc s < length instrs" "instrs ! pc s = inst"
    and i': "pc t < length out" "out ! pc t = remap_operands g h inst"
    and ops: "\<forall>u\<in>set (uses inst). cls' (g u) = cls u \<and> regs t (g u) = regs s u"
    and dest: "\<forall>d. def_reg inst = Some d \<longrightarrow> cls' (h d) = cls d" "cls' 0 = cls 0"
    and w: "world t = world s" and sl: "\<forall>d k. inst = I_LDS d k \<longrightarrow> slots t k = slots s k"
    and lb: "\<forall>l. hm_get (=) lbls' l = map_option F (hm_get (=) lbls l)"
  shows "case machine_step eff cls instrs lbls s of
      Inr r \<Rightarrow> machine_step eff cls' out lbls' t = Inr r
    | Inl s' \<Rightarrow> \<exists>t'. machine_step eff cls' out lbls' t = Inl t' \<and> matching_steps inst h lbls lbls' s t s' t'"
proof (cases "\<exists>d k. inst = I_LDS d k \<or> inst = I_STS k d")
  case True
  then obtain d k where "inst = I_LDS d k \<or> inst = I_STS k d" by blast
  then show ?thesis
  proof
    assume lds: "inst = I_LDS d k"
    then have "machine_step eff cls instrs lbls s = Inl (s\<lparr>pc := Suc (pc s), regs := (regs s)(d := slots s k)\<rparr>)"
      "machine_step eff cls' out lbls' t = Inl (t\<lparr>pc := Suc (pc t), regs := (regs t)(h d := slots t k)\<rparr>)"
      using i i' by (simp_all add: machine_step_spill)
    then show ?thesis using lds sl w
      by (auto simp: matching_steps_def stored_def written_reg_def written_as_def write_to_def)
  next
    assume sts: "inst = I_STS k d"
    then have "machine_step eff cls instrs lbls s = Inl (s\<lparr>pc := Suc (pc s), slots := (slots s)(k := regs s d)\<rparr>)"
      "machine_step eff cls' out lbls' t = Inl (t\<lparr>pc := Suc (pc t), slots := (slots t)(k := regs t (g d))\<rparr>)"
      using i i' by (simp_all add: machine_step_spill)
    then show ?thesis using sts ops w
      by (auto simp: matching_steps_def stored_def written_reg_def written_as_def write_to_def)
  qed
next
  case False
  then have no': "\<nexists>d k. remap_operands g h inst = I_LDS d k \<or> remap_operands g h inst = I_STS k d"
    by (cases inst) auto
  have wr: "written_reg (remap_operands g h inst) = written_as h inst"
    by (simp add: written_reg_def written_as_def)
  have args: "map (\<lambda>r. (cls' r, regs t r)) (uses (remap_operands g h inst)) = map (\<lambda>r. (cls r, regs s r)) (uses inst)"
    using ops by simp
  have bank: "(case written_as h inst of None \<Rightarrow> False | Some d \<Rightarrow> cls' d) =
      (case written_reg inst of None \<Rightarrow> False | Some d \<Rightarrow> cls d)"
    using dest by (auto simp: written_as_def written_reg_def split: option.splits)
  note step_s = machine_step_plain [OF i False, of eff cls lbls]
  note step_t = machine_step_plain [OF i' no', of eff cls' lbls', unfolded args wr bank w remap_operands_control]
  show ?thesis
  proof (cases "eff (shape inst) (map (\<lambda>r. (cls r, regs s r)) (uses inst))
      (case written_reg inst of None \<Rightarrow> False | Some d \<Rightarrow> cls d) (world s)")
    case None
    then show ?thesis by (simp add: step_s step_t)
  next
    case (Some res)
    obtain v m taken where res: "res = (v, m, taken)" by (cases res)
    have no_store: "stored inst rs sl = sl" for rs :: "usize \<Rightarrow> 'a" and sl
      using False by (cases inst) (auto simp: stored_def)
    show ?thesis
    proof (cases "is_return inst")
      case True
      then show ?thesis using Some by (simp add: step_s step_t res)
    next
      case noret: False
      have wres: "write_result inst v (regs s) = write_to (written_reg inst) v (regs s)"
        "write_result (remap_operands g h inst) v (regs t) = write_to (written_as h inst) v (regs t)"
        by (simp_all add: write_result_def write_to_def wr)
      show ?thesis
      proof (cases "\<exists>l. jump_label inst = Some l \<and> (unconditional inst \<or> taken)")
        case True
        then obtain l where l: "jump_label inst = Some l" "unconditional inst \<or> taken" by blast
        then show ?thesis
          using Some noret lb wres
          by (cases "hm_get (=) lbls l")
            (auto simp: step_s step_t res transfer_control_def matching_steps_def no_store)
      next
        case False
        then have "transfer_control inst lbls taken (pc s) = Some (Suc (pc s))"
          "transfer_control (remap_operands g h inst) lbls' taken (pc t) = Some (Suc (pc t))"
          by (auto simp: transfer_control_def split: option.splits)
        then show ?thesis
          using Some noret wres by (auto simp: step_s step_t res matching_steps_def no_store)
      qed
    qed
  qed
qed

section \<open>The cache holds what its slots hold\<close>

lemma remove_slot_Some:
  "remove_slot k bk = Some (r, bk') \<Longrightarrow> (k, r) \<in> set bk \<and> set bk' \<subseteq> set bk \<and>
   (distinct (map fst bk) \<longrightarrow> distinct (map fst bk') \<and> k \<notin> fst ` set bk')"
proof (induction bk arbitrary: bk')
  case (Cons e bk)
  obtain s q where e: "e = (s, q)" by (cases e)
  show ?case
  proof (cases "s = k")
    case True
    then show ?thesis using Cons.prems by (auto simp: e)
  next
    case False
    then obtain bk1 where bk1: "remove_slot k bk = Some (r, bk1)" "bk' = (s, q) # bk1"
      using Cons.prems by (auto simp: e)
    then show ?thesis using Cons.IH [OF bk1(1)] False by (auto simp: e)
  qed
qed simp

lemma remove_slot_None: "remove_slot k bk = None \<Longrightarrow> k \<notin> fst ` set bk"
proof (induction bk)
  case (Cons e bk)
  then show ?case by (cases e) (auto simp: image_iff split: if_splits)
qed simp

definition cache_ok ::
  "(usize \<Rightarrow> usize option) \<Rightarrow> usize \<Rightarrow> (usize \<Rightarrow> bool) \<Rightarrow> lowering \<Rightarrow> ('v, 'm) machine \<Rightarrow> bool" where
  "cache_ok slot_of N F st t \<longleftrightarrow>
     (\<forall>b. distinct (map fst (slot_cache st b)) \<and>
        (\<forall>k r. (k, r) \<in> set (slot_cache st b) \<longrightarrow>
           N \<le> r \<and> r < next_vr st \<and> F r = b \<and> regs t r = slots t k \<and>
           (\<exists>u. slot_of u = Some k \<and> F u = b)))"

lemma cache_ok_clear: "slot_cache st = cache_clear \<Longrightarrow> cache_ok slot_of N F st t"
  by (simp add: cache_ok_def cache_clear_def)

lemma cache_ok_later:
  assumes "cache_ok slot_of N F st t" "slot_cache st' = slot_cache st" "next_vr st \<le> next_vr st'"
    and "\<forall>v. N \<le> v \<longrightarrow> v < next_vr st \<longrightarrow> regs t' v = regs t v"
    and "\<forall>u k. slot_of u = Some k \<longrightarrow> slots t' k = slots t k"
  shows "cache_ok slot_of N F st' t'"
  using assms unfolding cache_ok_def by fastforce

lemma cache_lookup_ok:
  assumes "cache_ok slot_of N F st t" "cache_lookup b k (slot_cache st) = Some (r, cache)"
  shows "cache_ok slot_of N F (st\<lparr>slot_cache := cache\<rparr>) t" "(k, r) \<in> set (slot_cache st b)"
proof -
  obtain bk where bk: "remove_slot k (slot_cache st b) = Some (r, bk)"
    "cache = (slot_cache st)(b := bk @ [(k, r)])"
    using assms(2) by (auto simp: cache_lookup_def)
  note rem = remove_slot_Some [OF bk(1)]
  show "(k, r) \<in> set (slot_cache st b)" using rem by blast
  show "cache_ok slot_of N F (st\<lparr>slot_cache := cache\<rparr>) t"
    using assms(1) rem unfolding cache_ok_def by (auto simp: bk(2))
qed

lemma cache_insert_entries:
  assumes "distinct (map fst (cache b))"
  shows "distinct (map fst (cache_insert b k r cache b))"
    and "(k', r') \<in> set (cache_insert b k r cache b') \<Longrightarrow>
      b' = b \<and> k' = k \<and> r' = r \<or> (k', r') \<in> set (cache b') \<and> (b' = b \<longrightarrow> k' \<noteq> k)"
proof -
  define bk where "bk = (case remove_slot k (cache b) of
                  Some (_, bk) \<Rightarrow> bk
                | None \<Rightarrow> if length (cache b) = SPILL_SLOT_CACHE_CAPACITY then tl (cache b) else cache b)"
  have tl: "set (tl (cache b)) \<subseteq> set (cache b)" "distinct (map fst (tl (cache b)))"
    using assms by (cases "cache b"; auto)+
  have bk: "set bk \<subseteq> set (cache b)" "distinct (map fst bk)" "k \<notin> fst ` set bk"
    using assms tl remove_slot_Some [of k "cache b"] remove_slot_None [of k "cache b"]
    by (auto simp: bk_def split: option.splits)
  have ins: "cache_insert b k r cache = cache(b := bk @ [(k, r)])"
    by (simp add: cache_insert_def bk_def Let_def)
  show "distinct (map fst (cache_insert b k r cache b))" using bk by (simp add: ins)
  show "b' = b \<and> k' = k \<and> r' = r \<or> (k', r') \<in> set (cache b') \<and> (b' = b \<longrightarrow> k' \<noteq> k)"
    if "(k', r') \<in> set (cache_insert b k r cache b')"
    using that bk by (force simp: ins split: if_splits)
qed

lemma cache_insert_ok:
  assumes ok: "\<forall>b'. distinct (map fst (slot_cache st b'))"
    and others: "\<forall>b' k' r'. (k', r') \<in> set (slot_cache st b') \<longrightarrow> k' \<noteq> k \<or> b' \<noteq> b \<longrightarrow>
       N \<le> r' \<and> r' < next_vr st \<and> F r' = b' \<and> regs t r' = slots t k' \<and> (\<exists>u. slot_of u = Some k' \<and> F u = b')"
    and new: "N \<le> r" "r < next_vr st" "F r = b" "regs t r = slots t k" "slot_of u = Some k" "F u = b"
  shows "cache_ok slot_of N F (st\<lparr>slot_cache := cache_insert b k r (slot_cache st)\<rparr>) t"
  unfolding cache_ok_def
proof (intro allI conjI impI)
  fix b'
  show "distinct (map fst (slot_cache (st\<lparr>slot_cache := cache_insert b k r (slot_cache st)\<rparr>) b'))"
    using ok cache_insert_entries(1) [of "slot_cache st" b k r]
    by (cases "b' = b") (simp_all add: cache_insert_def Let_def)
  fix k' r' assume "(k', r') \<in> set (slot_cache (st\<lparr>slot_cache := cache_insert b k r (slot_cache st)\<rparr>) b')"
  then have "b' = b \<and> k' = k \<and> r' = r \<or> (k', r') \<in> set (slot_cache st b') \<and> (b' = b \<longrightarrow> k' \<noteq> k)"
    using cache_insert_entries(2) [of "slot_cache st" b k' r' k r b'] ok by simp
  then have "N \<le> r' \<and> r' < next_vr st \<and> F r' = b' \<and> regs t r' = slots t k' \<and> (\<exists>u. slot_of u = Some k' \<and> F u = b')"
    using others new by blast
  then show "N \<le> r'" "F r' = b'" "regs t r' = slots t k'" "\<exists>u. slot_of u = Some k' \<and> F u = b'"
    "r' < next_vr (st\<lparr>slot_cache := cache_insert b k r (slot_cache st)\<rparr>)" by simp_all
qed

section \<open>The code of one instruction\<close>

definition extends :: "'a list \<Rightarrow> 'a list \<Rightarrow> bool" where
  "extends xs ys \<longleftrightarrow> (\<exists>zs. ys = xs @ zs)"

lemma extends_refl [simp]: "extends xs xs"
  by (simp add: extends_def)

lemma extends_trans: "extends xs ys \<Longrightarrow> extends ys zs \<Longrightarrow> extends xs zs"
  by (auto simp: extends_def)

lemma extends_append [simp]: "extends xs (xs @ ys)"
  by (simp add: extends_def)

lemma extends_bank: "extends xs ys \<Longrightarrow> v < length xs \<Longrightarrow> virtual_bank ys v = virtual_bank xs v"
  by (auto simp: extends_def virtual_bank_def nth_append)

lemma extends_last: "extends (xs @ [b]) ys \<Longrightarrow> virtual_bank ys (length xs) = b"
  by (auto simp: extends_def virtual_bank_def nth_append)

definition lowering_wf :: "usize \<Rightarrow> lowering \<Rightarrow> bool" where
  "lowering_wf N st \<longleftrightarrow> length (secrecy_map st) = next_vr st \<and> N \<le> next_vr st"

lemma fresh_wf:
  assumes "fresh_virtual_register b st = (r, st')" "lowering_wf N st"
  shows "r = next_vr st" "next_vr st' = Suc r" "secrecy_map st' = secrecy_map st @ [b]"
    "slot_cache st' = slot_cache st" "lowering_wf N st'" "N \<le> r"
  using assms by (auto simp: fresh_virtual_register_def lowering_wf_def)

lemma lower_uses_ConsE:
  assumes "lower_uses en slot_of (u # us) mapped st = (mapped', loads, st')"
  obtains (skip) "slot_of u = None \<or> u \<in> fst ` set mapped" "lower_uses en slot_of us mapped st = (mapped', loads, st')"
  | (hit) k r cache where "slot_of u = Some k" "u \<notin> fst ` set mapped" "en"
      "cache_lookup (virtual_bank (secrecy_map st) u) k (slot_cache st) = Some (r, cache)"
      "lower_uses en slot_of us (mapped @ [(u, r)]) (st\<lparr>slot_cache := cache\<rparr>) = (mapped', loads, st')"
  | (miss) k r st1 loads1 where "slot_of u = Some k" "u \<notin> fst ` set mapped"
      "fresh_virtual_register (virtual_bank (secrecy_map st) u) st = (r, st1)"
      "lower_uses en slot_of us (mapped @ [(u, r)])
         (if en then st1\<lparr>slot_cache := cache_insert (virtual_bank (secrecy_map st) u) k r (slot_cache st1)\<rparr> else st1)
         = (mapped', loads1, st')" "loads = I_LDS r k # loads1"
proof (cases "slot_of u = None \<or> u \<in> fst ` set mapped")
  case True
  then show thesis using skip assms by (cases "slot_of u") auto
next
  case False
  then obtain k where k: "slot_of u = Some k" "u \<notin> fst ` set mapped" by auto
  define b where "b = virtual_bank (secrecy_map st) u"
  define look where "look = (if en then cache_lookup b k (slot_cache st) else None)"
  obtain r1 st1 where f: "fresh_virtual_register b st = (r1, st1)" by (cases "fresh_virtual_register b st")
  let ?st2 = "if en then st1\<lparr>slot_cache := cache_insert b k r1 (slot_cache st1)\<rparr> else st1"
  have eq: "(case look of
         Some (r, cache) \<Rightarrow> lower_uses en slot_of us (mapped @ [(u, r)]) (st\<lparr>slot_cache := cache\<rparr>)
       | None \<Rightarrow> (case lower_uses en slot_of us (mapped @ [(u, r1)]) ?st2 of
                   (mapped', loads, st') \<Rightarrow> (mapped', I_LDS r1 k # loads, st'))) = (mapped', loads, st')"
    using assms k by (simp only: lower_uses.simps option.case if_False Let_def b_def [symmetric] look_def f prod.case)
  show thesis
  proof (cases look)
    case None
    obtain m1 l1 s1 where l: "lower_uses en slot_of us (mapped @ [(u, r1)]) ?st2 = (m1, l1, s1)"
      by (cases "lower_uses en slot_of us (mapped @ [(u, r1)]) ?st2")
    have "m1 = mapped'" "I_LDS r1 k # l1 = loads" "s1 = st'" using eq None l by simp_all
    with l f show thesis unfolding b_def by (intro miss [OF k, of r1 st1 l1]) simp_all
  next
    case (Some rc)
    obtain r cache where rc: "rc = (r, cache)" by (cases rc)
    show thesis
      using hit [OF k, of r cache] eq Some rc by (auto simp: look_def b_def split: if_splits)
  qed
qed

lemma lower_uses_grows:
  "lower_uses en slot_of us mapped st = (mapped', loads, st') \<Longrightarrow> lowering_wf N st \<Longrightarrow>
   lowering_wf N st' \<and> extends (secrecy_map st) (secrecy_map st') \<and> next_vr st \<le> next_vr st'"
proof (induction us arbitrary: mapped st loads)
  case (Cons u us)
  from Cons.prems(1) show ?case
  proof (cases rule: lower_uses_ConsE)
    case skip
    then show ?thesis using Cons by blast
  next
    case (hit k r cache)
    have "lowering_wf N (st\<lparr>slot_cache := cache\<rparr>)" using Cons.prems(2) by (simp add: lowering_wf_def)
    from Cons.IH [OF hit(5) this] show ?thesis by simp
  next
    case (miss k r st1 loads1)
    note f = fresh_wf [OF miss(3) Cons.prems(2)]
    let ?st2 = "if en then st1\<lparr>slot_cache := cache_insert (virtual_bank (secrecy_map st) u) k r (slot_cache st1)\<rparr> else st1"
    have "lowering_wf N ?st2" using f(5) by (simp add: lowering_wf_def)
    from Cons.IH [OF miss(4) this] have "lowering_wf N st'" "extends (secrecy_map st1) (secrecy_map st')"
      "next_vr st1 \<le> next_vr st'" by (simp_all split: if_splits)
    then show ?thesis using f extends_trans [OF extends_append [of "secrecy_map st"]] by simp
  qed
qed simp

text \<open>Running the reloads of an instruction.\<close>

definition mapped_ok ::
  "(usize \<Rightarrow> usize option) \<Rightarrow> usize \<Rightarrow> (usize \<Rightarrow> bool) \<Rightarrow> lowering \<Rightarrow> ('v, 'm) machine \<Rightarrow> (usize \<times> usize) list \<Rightarrow> bool" where
  "mapped_ok slot_of N F st t mapped \<longleftrightarrow>
     (\<forall>u r. (u, r) \<in> set mapped \<longrightarrow> N \<le> r \<and> r < next_vr st \<and> F r = F u \<and>
        (\<exists>k. slot_of u = Some k \<and> regs t r = slots t k))"

fun code_at :: "instruction list \<Rightarrow> usize \<Rightarrow> instruction list \<Rightarrow> bool" where
  "code_at out i [] = (i \<le> length out)"
| "code_at out i (c # cs) = (i < length out \<and> out ! i = c \<and> code_at out (Suc i) cs)"

lemma code_at_le: "code_at out i cs \<Longrightarrow> i \<le> length out"
  by (cases cs) auto

lemma code_at_append: "code_at out i (xs @ ys) \<longleftrightarrow> code_at out i xs \<and> code_at out (i + length xs) ys"
  by (induction xs arbitrary: i) (auto dest: code_at_le)

lemma code_at_middle: "code_at (as @ xs @ bs) (length as) xs"
proof (induction xs arbitrary: as)
  case (Cons x xs)
  from Cons.IH [of "as @ [x]"] show ?case by (simp add: nth_append)
qed simp

lemma code_at_chunk:
  assumes "i < length chunks"
  shows "code_at (concat chunks) (length (concat (take i chunks))) (chunks ! i)"
proof -
  have "concat chunks = concat (take i chunks) @ chunks ! i @ concat (drop (Suc i) chunks)"
    using assms by (metis append_take_drop_id concat.simps(2) concat_append id_take_nth_drop)
  then show ?thesis by (metis code_at_middle)
qed

lemma lower_uses_run:
  assumes "lower_uses en slot_of us mapped st = (mapped', loads, st')"
    and "lowering_wf N st" "extends (secrecy_map st') final" "F = virtual_bank final" "set us \<subseteq> {..<N}"
    and "cache_ok slot_of N F st t" "mapped_ok slot_of N F st t mapped"
    and "code_at out (pc t) loads"
  shows "\<exists>t'. steps (machine_step eff F out lbls) (length loads) t = Inl t' \<and>
    pc t' = pc t + length loads \<and> slots t' = slots t \<and> world t' = world t \<and>
    (\<forall>v < next_vr st. regs t' v = regs t v) \<and>
    cache_ok slot_of N F st' t' \<and> mapped_ok slot_of N F st' t' mapped' \<and>
    fst ` set mapped \<subseteq> fst ` set mapped' \<and> (\<forall>u\<in>set us. slot_of u \<noteq> None \<longrightarrow> u \<in> fst ` set mapped')"
  using assms
proof (induction us arbitrary: mapped st loads t)
  case Nil
  then show ?case by simp
next
  case (Cons u us)
  have uN: "u < N" "set us \<subseteq> {..<N}" using Cons.prems(5) by auto
  have bank: "virtual_bank (secrecy_map st) u = F u"
  proof -
    have "extends (secrecy_map st) final"
      using lower_uses_grows [OF Cons.prems(1,2)] Cons.prems(3) extends_trans by blast
    moreover have "u < length (secrecy_map st)" using uN Cons.prems(2) by (simp add: lowering_wf_def)
    ultimately show ?thesis using Cons.prems(4) extends_bank by simp
  qed
  from Cons.prems(1) show ?case
  proof (cases rule: lower_uses_ConsE)
    case skip
    from Cons.IH [OF skip(2) Cons.prems(2-4) uN(2) Cons.prems(6-8)]
    obtain t' where t': "steps (machine_step eff F out lbls) (length loads) t = Inl t' \<and>
      pc t' = pc t + length loads \<and> slots t' = slots t \<and> world t' = world t \<and>
      (\<forall>v < next_vr st. regs t' v = regs t v) \<and>
      cache_ok slot_of N F st' t' \<and> mapped_ok slot_of N F st' t' mapped' \<and>
      fst ` set mapped \<subseteq> fst ` set mapped' \<and> (\<forall>u\<in>set us. slot_of u \<noteq> None \<longrightarrow> u \<in> fst ` set mapped')"
      by (elim exE)
    then have sub: "fst ` set mapped \<subseteq> fst ` set mapped'" by (elim conjE)
    have "slot_of u \<noteq> None \<longrightarrow> u \<in> fst ` set mapped'" using skip(1) subsetD [OF sub, of u] by (cases "slot_of u") simp_all
    with t' show ?thesis by (intro exI [of _ t']) simp
  next
    case (hit k r cache)
    note look = cache_lookup_ok [OF Cons.prems(6) hit(4)]
    have entry: "N \<le> r" "r < next_vr st" "F r = F u" "regs t r = slots t k"
      using look(2) Cons.prems(6) by (auto simp: cache_ok_def bank)
    let ?st1 = "st\<lparr>slot_cache := cache\<rparr>"
    have "mapped_ok slot_of N F ?st1 t (mapped @ [(u, r)])"
      using Cons.prems(7) entry hit(1) by (auto simp: mapped_ok_def)
    moreover have "lowering_wf N ?st1" using Cons.prems(2) by (simp add: lowering_wf_def)
    ultimately obtain t' where t': "steps (machine_step eff F out lbls) (length loads) t = Inl t' \<and>
      pc t' = pc t + length loads \<and> slots t' = slots t \<and> world t' = world t \<and>
      (\<forall>v < next_vr ?st1. regs t' v = regs t v) \<and>
      cache_ok slot_of N F st' t' \<and> mapped_ok slot_of N F st' t' mapped' \<and>
      fst ` set (mapped @ [(u, r)]) \<subseteq> fst ` set mapped' \<and> (\<forall>u\<in>set us. slot_of u \<noteq> None \<longrightarrow> u \<in> fst ` set mapped')"
      using Cons.IH [OF hit(5) _ Cons.prems(3,4) uN(2) look(1) _ Cons.prems(8)] by (elim meta_impE exE)
    then show ?thesis by (intro exI [of _ t']) simp
  next
    case (miss k r st1 loads1)
    note f = fresh_wf [OF miss(3) Cons.prems(2)]
    let ?st2 = "if en then st1\<lparr>slot_cache := cache_insert (virtual_bank (secrecy_map st) u) k r (slot_cache st1)\<rparr> else st1"
    let ?t1 = "t\<lparr>pc := Suc (pc t), regs := (regs t)(r := slots t k)\<rparr>"
    have wf2: "lowering_wf N ?st2" using f(5) by (simp add: lowering_wf_def)
    have next2: "next_vr ?st2 = Suc (next_vr st)" "secrecy_map ?st2 = secrecy_map st @ [F u]"
      using f by (simp_all add: bank)
    have Fr: "F r = F u"
    proof -
      have "extends (secrecy_map st @ [F u]) final"
        using lower_uses_grows [OF miss(4) wf2] Cons.prems(3) extends_trans unfolding next2(2) by blast
      from extends_last [OF this] show ?thesis
        using f(1) Cons.prems(2,4) by (simp add: lowering_wf_def)
    qed
    have entries: "N \<le> r' \<and> r' < next_vr st \<and> F r' = b' \<and> regs ?t1 r' = slots ?t1 k' \<and> (\<exists>u. slot_of u = Some k' \<and> F u = b')"
      if "(k', r') \<in> set (slot_cache st b')" for b' k' r'
      using Cons.prems(6) that f(1) unfolding cache_ok_def by (auto simp: Ball_def)
    have dist: "\<forall>b'. distinct (map fst (slot_cache st b'))" using Cons.prems(6) by (simp add: cache_ok_def)
    have cache2: "cache_ok slot_of N F ?st2 ?t1"
    proof (cases en)
      case True
      have "cache_ok slot_of N F (st1\<lparr>slot_cache := cache_insert (F u) k r (slot_cache st1)\<rparr>) ?t1"
        using dist entries f Fr miss(1)
        by (intro cache_insert_ok [where u = u]) (auto intro: less_SucI)
      then show ?thesis using True by (simp add: bank)
    next
      case False
      then show ?thesis using dist entries f unfolding cache_ok_def by (auto intro: less_SucI)
    qed
    have mapped2: "mapped_ok slot_of N F ?st2 ?t1 (mapped @ [(u, r)])"
      using Cons.prems(7) f Fr miss(1) next2 unfolding mapped_ok_def by (auto intro: less_SucI)
    have code: "pc t < length out" "out ! pc t = I_LDS r k" "code_at out (pc ?t1) loads1"
      using Cons.prems(8) miss(5) by simp_all
    have first: "machine_step eff F out lbls t = Inl ?t1" by (rule machine_step_spill(1) [OF code(1,2)])
    from Cons.IH [OF miss(4) wf2 Cons.prems(3,4) uN(2) cache2 mapped2 code(3)]
    obtain t' where t': "steps (machine_step eff F out lbls) (length loads1) ?t1 = Inl t' \<and>
      pc t' = pc ?t1 + length loads1 \<and> slots t' = slots ?t1 \<and> world t' = world ?t1 \<and>
      (\<forall>v < next_vr ?st2. regs t' v = regs ?t1 v) \<and>
      cache_ok slot_of N F st' t' \<and> mapped_ok slot_of N F st' t' mapped' \<and>
      fst ` set (mapped @ [(u, r)]) \<subseteq> fst ` set mapped' \<and>
      (\<forall>u\<in>set us. slot_of u \<noteq> None \<longrightarrow> u \<in> fst ` set mapped')"
      by (elim exE)
    have "steps (machine_step eff F out lbls) (length loads) t = Inl t'"
      using first t' by (simp add: miss(5))
    moreover have "\<forall>v < next_vr st. regs t' v = regs t v"
      using t' f(1) by (simp add: next2)
    ultimately show ?thesis using t' by (intro exI [of _ t']) (simp add: miss(5))
  qed
qed

lemma lower_uses_no_cache:
  "lower_uses False slot_of us mapped st = (mapped', loads, st') \<Longrightarrow> slot_cache st' = slot_cache st"
proof (induction us arbitrary: mapped st loads)
  case (Cons u us)
  from Cons.prems show ?case
  proof (cases rule: lower_uses_ConsE)
    case (miss k r st1 loads1)
    then show ?thesis using Cons.IH [of "mapped @ [(u, r)]" st1 loads1] by (auto simp: fresh_virtual_register_def)
  qed (use Cons.IH in auto)
qed simp

text \<open>The state of the code with spill code, seen from the code without it.\<close>

definition spill_view ::
  "(usize \<Rightarrow> usize option) \<Rightarrow> usize \<Rightarrow> usize \<Rightarrow> ('v, 'm) machine \<Rightarrow> ('v, 'm) machine \<Rightarrow> bool" where
  "spill_view slot_of N K s t \<longleftrightarrow> world t = world s \<and>
     (\<forall>v < N. slot_of v = None \<longrightarrow> regs t v = regs s v) \<and>
     (\<forall>v k. slot_of v = Some k \<longrightarrow> slots t k = regs s v) \<and>
     (\<forall>k < K. slots t k = slots s k)"

definition slots_ok :: "(usize \<Rightarrow> usize option) \<Rightarrow> usize \<Rightarrow> usize \<Rightarrow> bool" where
  "slots_ok slot_of N K \<longleftrightarrow> 0 < N \<and> slot_of 0 = None \<and>
     (\<forall>v k. slot_of v = Some k \<longrightarrow> v < N \<and> K \<le> k \<and> (\<forall>w. slot_of w = Some k \<longrightarrow> w = v))"

fun slot_used :: "instruction \<Rightarrow> usize option" where
  "slot_used (I_LDS _ k) = Some k"
| "slot_used (I_STS k _) = Some k"
| "slot_used _ = None"

definition within :: "usize \<Rightarrow> usize \<Rightarrow> instruction \<Rightarrow> bool" where
  "within N K inst \<longleftrightarrow> (\<forall>v\<in>set (uses inst @ defs inst). v < N) \<and> (case slot_used inst of None \<Rightarrow> True | Some k \<Rightarrow> k < K)"

lemma within_def_reg: "within N K inst \<Longrightarrow> def_reg inst = Some d \<Longrightarrow> d < N"
  using def_reg_defs [of inst] by (auto simp: within_def)

lemma within_uses: "within N K inst \<Longrightarrow> u \<in> set (uses inst) \<Longrightarrow> u < N"
  by (auto simp: within_def)

lemma stored_above:
  assumes "within N K inst" "K \<le> k"
  shows "stored inst rs sl k = sl k"
  using assms by (cases inst) (auto simp: stored_def within_def)

lemma stored_below:
  assumes "sl k = sl' k"
  shows "stored inst rs sl k = stored inst rs sl' k"
  using assms by (cases inst) (auto simp: stored_def)

lemma defining_falls_through:
  "def_reg inst = Some d \<Longrightarrow> jump_label inst = None \<and> \<not> is_call inst \<and> stored inst rs sl = sl"
  by (cases inst) (auto simp: stored_def)

lemma spill_view_unspilled:
  assumes "spill_view slot_of N K s t1" "slots_ok slot_of N K" "within N K inst"
    and "matching_steps inst h lbls lbls' s t1 s' t2"
    and "written_as h inst = written_reg inst" "\<forall>d. written_reg inst = Some d \<longrightarrow> d < N \<and> slot_of d = None"
  shows "spill_view slot_of N K s' t2"
proof -
  obtain v where m: "world t2 = world s'" "slots s' = stored inst (regs s) (slots s)"
    "slots t2 = stored inst (regs s) (slots t1)" "regs s' = write_to (written_reg inst) v (regs s)"
    "regs t2 = write_to (written_reg inst) v (regs t1)"
    using assms(4,5) by (auto simp: matching_steps_def)
  have "regs t2 w = regs s' w" if "w < N" "slot_of w = None" for w
    using assms(1) that by (auto simp: m(4,5) spill_view_def write_to_def split: option.splits)
  moreover have "slots t2 k = regs s' w" if "slot_of w = Some k" for w k
  proof -
    have "written_reg inst \<noteq> Some w" using assms(6) that by auto
    then have "regs s' w = regs s w" by (auto simp: m(4) write_to_def split: option.splits)
    moreover have "K \<le> k" using assms(2) that by (auto simp: slots_ok_def)
    then have "slots t2 k = slots t1 k" unfolding m(3) by (rule stored_above [OF assms(3)])
    ultimately show ?thesis using assms(1) that by (simp add: spill_view_def)
  qed
  moreover have "slots t2 k = slots s' k" if "k < K" for k
    using assms(1) that by (auto simp: m(2,3) spill_view_def intro: stored_below)
  ultimately show ?thesis using m(1) by (simp add: spill_view_def)
qed

lemma spill_view_spilled:
  assumes view: "spill_view slot_of N K s t1" and sok: "slots_ok slot_of N K"
    and def: "def_reg inst = Some d" "slot_of d = Some k" "h d = r" "N \<le> r"
    and step: "matching_steps inst h lbls lbls' s t1 s' t2"
  shows "spill_view slot_of N K s' (t2\<lparr>pc := j, slots := (slots t2)(k := regs t2 r)\<rparr>)"
proof -
  have nc: "\<not> is_call inst" "stored inst (regs s) (slots s) = slots s" "stored inst (regs s) (slots t1) = slots t1"
    using defining_falls_through [OF def(1)] by blast+
  obtain v where m: "world t2 = world s'" "slots s' = slots s" "slots t2 = slots t1"
    "regs s' = (regs s)(d := v)" "regs t2 = (regs t1)(r := v)"
    using step nc def by (auto simp: matching_steps_def written_as_def written_reg_def write_to_def)
  have above: "k' \<noteq> k" if "k' < K" for k'
    using sok def(2) that unfolding slots_ok_def by (metis not_less)
  show ?thesis
    using view sok def unfolding spill_view_def slots_ok_def
    by (auto simp: m dest: above split: if_splits)
qed

lemma lower_def_cases:
  assumes "lower_def slot_of inst st = (mdef, st')"
  obtains (none) "mdef = None" "st' = st" "\<forall>d. def_reg inst = Some d \<longrightarrow> slot_of d = None"
  | (some) d k r where "def_reg inst = Some d" "slot_of d = Some k" "mdef = Some (d, r)"
      "fresh_virtual_register (virtual_bank (secrecy_map st) d) st = (r, st')"
  using assms by (auto simp: lower_def_def split: option.splits prod.splits)

lemma renamed_simps:
  "renamed [] v = v" "renamed (opt_list (Some (d, r))) d = r" "renamed (opt_list None) v = v"
  by (simp_all add: renamed_def opt_list_def)

lemma lower_instructionE:
  assumes "lower_instruction en targets slot_of i inst st = (chunk, st')"
  obtains mapped loads st1 mdef st2 stores st3 where
    "lower_uses en slot_of (uses inst) [] (clear_if (en \<and> i \<in> targets) st) = (mapped, loads, st1)"
    "lower_def slot_of inst st1 = (mdef, st2)" "lower_store en slot_of mdef st2 = (stores, st3)"
    "chunk = loads @ remap_operands (renamed mapped) (renamed (opt_list mdef)) inst # stores"
    "st' = clear_if (en \<and> ends_block inst) st3"
  using assms
  by (auto simp: lower_instruction_def remap_instruction_registers_in_place_def use_regs_uses split: prod.splits)

lemma clear_if_simps [simp]:
  "next_vr (clear_if c st) = next_vr st" "secrecy_map (clear_if c st) = secrecy_map st"
  "lowering_wf N (clear_if c st) = lowering_wf N st"
  by (simp_all add: clear_if_def lowering_wf_def)

lemma cache_ok_clear_if: "cache_ok slot_of N F st t \<Longrightarrow> cache_ok slot_of N F (clear_if c st) t"
  by (auto simp: clear_if_def intro: cache_ok_clear)

lemma lower_instruction_grows:
  assumes "lower_instruction en targets slot_of i inst st = (chunk, st')" "lowering_wf N st"
  shows "lowering_wf N st'" "extends (secrecy_map st) (secrecy_map st')"
    and "\<not> en \<Longrightarrow> slot_cache st = cache_clear \<Longrightarrow> slot_cache st' = cache_clear"
    and "chunk \<noteq> []"
proof -
  have "lowering_wf N st' \<and> extends (secrecy_map st) (secrecy_map st') \<and>
      (\<not> en \<longrightarrow> slot_cache st = cache_clear \<longrightarrow> slot_cache st' = cache_clear) \<and> chunk \<noteq> []"
    using assms(1)
  proof (cases rule: lower_instructionE)
    case (1 mapped loads st1 mdef st2 stores st3)
    have st1: "lowering_wf N st1" "extends (secrecy_map st) (secrecy_map st1)"
      using lower_uses_grows [OF 1(1), of N] assms(2) by simp_all
    have st2: "lowering_wf N st2 \<and> extends (secrecy_map st1) (secrecy_map st2) \<and> slot_cache st2 = slot_cache st1"
      using 1(2)
    proof (cases rule: lower_def_cases)
      case none
      then show ?thesis using st1 by simp
    next
      case (some d k r)
      then show ?thesis using fresh_wf [OF some(4) st1(1)] by simp
    qed
    have st3: "lowering_wf N st3 \<and> secrecy_map st3 = secrecy_map st2 \<and> (\<not> en \<longrightarrow> slot_cache st3 = slot_cache st2)"
      using 1(3) st2 by (auto simp: lower_store_def lowering_wf_def split: option.splits)
    have "slot_cache st1 = slot_cache st" if "\<not> en"
      using lower_uses_no_cache [of slot_of "uses inst" "[]" "clear_if (en \<and> i \<in> targets) st" mapped loads st1] 1(1) that
      by (simp add: clear_if_def)
    then show ?thesis
      using st1 st2 st3 1(4,5) extends_trans by (auto simp: clear_if_def lowering_wf_def)
  qed
  then show "lowering_wf N st'" "extends (secrecy_map st) (secrecy_map st')"
    "\<not> en \<Longrightarrow> slot_cache st = cache_clear \<Longrightarrow> slot_cache st' = cache_clear" "chunk \<noteq> []"
    by auto
qed

lemma lower_instruction_run:
  assumes li: "lower_instruction en targets slot_of i inst st = (chunk, st')"
    and wf: "lowering_wf N st" "extends (secrecy_map st') final" "F = virtual_bank final"
    and off: "\<not> en \<Longrightarrow> slot_cache st = cache_clear"
    and sok: "slots_ok slot_of N K" and within: "within N K inst" and cls: "\<forall>v < N. F v = cls v"
    and s: "pc s < length instrs" "instrs ! pc s = inst"
    and view: "spill_view slot_of N K s t" and cache: "cache_ok slot_of N F (clear_if (en \<and> i \<in> targets) st) t"
    and code: "code_at out (pc t) chunk"
    and lb: "\<forall>l. hm_get (=) lbls' l = map_option G (hm_get (=) lbls l)"
  shows "case machine_step eff cls instrs lbls s of
      Inr r \<Rightarrow> \<exists>k. steps (machine_step eff F out lbls') (Suc k) t = Inr r
    | Inl s' \<Rightarrow> \<exists>k t'. steps (machine_step eff F out lbls') (Suc k) t = Inl t' \<and> spill_view slot_of N K s' t' \<and>
        (pc s' = Suc (pc s) \<and> pc t' = pc t + length chunk \<and> cache_ok slot_of N F st' t' \<or>
         (\<exists>l. jump_label inst = Some l \<and> hm_get (=) lbls l = Some (pc s') \<and> hm_get (=) lbls' l = Some (pc t')))"
  using li
proof (cases rule: lower_instructionE)
  case (1 mapped loads st1 mdef st2 stores st3)
  let ?step = "machine_step eff F out lbls'"
  let ?g = "renamed mapped" and ?h = "renamed (opt_list mdef)"
  have wf1: "lowering_wf N (clear_if (en \<and> i \<in> targets) st)" using wf(1) by simp
  note grow1 = lower_uses_grows [OF 1(1) wf1]
  have grow2: "extends (secrecy_map st1) (secrecy_map st2)" "secrecy_map st' = secrecy_map st2"
    using 1(2,3,5) by (auto simp: lower_def_def lower_store_def fresh_virtual_register_def split: option.splits prod.splits)
  have ext1: "extends (secrecy_map st1) final" using extends_trans [OF grow2(1)] wf(2) grow2(2) by simp
  have uN: "set (uses inst) \<subseteq> {..<N}" using within within_uses by auto
  have codes: "code_at out (pc t) loads"
    "pc t + length loads < length out" "out ! (pc t + length loads) = remap_operands ?g ?h inst"
    "code_at out (Suc (pc t + length loads)) stores"
    using code 1(4) by (simp_all add: code_at_append)
  obtain t1 where t1: "steps ?step (length loads) t = Inl t1" "pc t1 = pc t + length loads" "slots t1 = slots t"
    "world t1 = world t" "\<forall>v < next_vr st. regs t1 v = regs t v" "cache_ok slot_of N F st1 t1"
    "mapped_ok slot_of N F st1 t1 mapped" "\<forall>u\<in>set (uses inst). slot_of u \<noteq> None \<longrightarrow> u \<in> fst ` set mapped"
    using lower_uses_run [OF 1(1) wf1 ext1 wf(3) uN cache _ codes(1), of eff lbls'] by (auto simp: mapped_ok_def)
  have N: "v < next_vr st" if "v < N" for v using wf(1) that by (simp add: lowering_wf_def)
  have view1: "spill_view slot_of N K s t1" using view t1 N by (auto simp: spill_view_def)
  have ops: "\<forall>u\<in>set (uses inst). F (?g u) = cls u \<and> regs t1 (?g u) = regs s u"
  proof
    fix u assume u: "u \<in> set (uses inst)"
    then have "u < N" using uN by auto
    show "F (?g u) = cls u \<and> regs t1 (?g u) = regs s u"
    proof (cases "map_of mapped u")
      case None
      then have "slot_of u = None" using t1(8) u by (auto simp: map_of_eq_None_iff)
      then show ?thesis using None view1 cls \<open>u < N\<close> by (simp add: renamed_def spill_view_def)
    next
      case (Some r)
      then obtain k where "slot_of u = Some k" "regs t1 r = slots t1 k" "F r = F u"
        using t1(7) map_of_SomeD [OF Some] unfolding mapped_ok_def by blast
      then show ?thesis using Some view1 cls \<open>u < N\<close> by (simp add: renamed_def spill_view_def)
    qed
  qed
  have sl: "\<forall>d k. inst = I_LDS d k \<longrightarrow> slots t1 k = slots s k"
    using view1 within by (auto simp: spill_view_def within_def)
  have F0: "F 0 = cls 0" using cls sok by (simp add: slots_ok_def)
  have t1code: "pc t1 < length out" "out ! pc t1 = remap_operands ?g ?h inst" using codes t1(2) by simp_all
  have world1: "world t1 = world s" using view1 by (simp add: spill_view_def)
  note renamed = machine_step_renamed [where g = ?g and h = ?h and cls = cls and cls' = F and F = G and eff = eff,
      OF s t1code ops _ F0 world1 sl lb]
  have one: "steps ?step (Suc (length loads)) t = ?step t1"
    using steps_add [of ?step "length loads" 1 t] t1(1) by (simp split: sum.splits)
  show ?thesis
    using 1(2)
  proof (cases rule: lower_def_cases)
    case none
    have dest: "\<forall>d. def_reg inst = Some d \<longrightarrow> F (?h d) = cls d"
      using within_def_reg [OF within] cls none(1) by (simp add: renamed_simps)
    have stores: "stores = []" "st3 = st2" using 1(3) none(1) by (simp_all add: lower_store_def)
    have was: "written_as ?h inst = written_reg inst"
      by (cases "def_reg inst") (simp_all add: written_as_def written_reg_def none(1) renamed_simps)
    have wN: "\<forall>d. written_reg inst = Some d \<longrightarrow> d < N \<and> slot_of d = None"
      using none(3) within_def_reg [OF within] sok by (auto simp: written_reg_def slots_ok_def split: if_splits)
    show ?thesis
    proof (cases "machine_step eff cls instrs lbls s")
      case (Inr r)
      then show ?thesis using renamed [OF dest] one by (auto intro!: exI [of _ "length loads"])
    next
      case (Inl s')
      then obtain t2 where t2: "?step t1 = Inl t2" "matching_steps inst ?h lbls lbls' s t1 s' t2"
        using renamed [OF dest] by auto
      have view2: "spill_view slot_of N K s' t2"
        by (rule spill_view_unspilled [OF view1 sok within t2(2) was wN])
      have "regs t2 v = regs t1 v" if "N \<le> v" for v
        using t2(2) wN that by (auto simp: matching_steps_def was write_to_def split: option.splits)
      moreover have "slots t2 k = slots t1 k" if "slot_of u = Some k" for u k
      proof -
        have "K \<le> k" using sok that by (auto simp: slots_ok_def)
        moreover have "slots t2 = stored inst (regs s) (slots t1)" using t2(2) by (simp add: matching_steps_def)
        ultimately show ?thesis by (simp add: stored_above [OF within])
      qed
      ultimately have "cache_ok slot_of N F st1 t2"
        by (intro cache_ok_later [OF t1(6)]) auto
      then have "cache_ok slot_of N F st' t2"
        using 1(5) stores none(2) by (simp add: cache_ok_clear_if)
      then show ?thesis
        using Inl one t2 view2 t1(2) 1(4) stores
        by (auto simp: matching_steps_def intro!: exI [of _ "length loads"] exI [of _ t2])
    qed
  next
    case (some d k r)
    have wfst1: "lowering_wf N st1" using grow1 by blast
    note f = fresh_wf [OF some(4) wfst1]
    have dN: "d < N" using within_def_reg [OF within some(1)] .
    have bank: "virtual_bank (secrecy_map st1) d = F d" "virtual_bank (secrecy_map st2) d = F d"
      using dN wfst1 f(5) extends_bank [OF ext1, of d] extends_bank [OF wf(2) [unfolded grow2(2)], of d] wf(3)
      by (auto simp: lowering_wf_def)
    have Fr: "F r = F d"
    proof -
      have "extends (secrecy_map st1 @ [F d]) final" using wf(2) f(3) grow2(2) bank(1) by simp
      from extends_last [OF this] show ?thesis using wfst1 f(1) wf(3) by (simp add: lowering_wf_def)
    qed
    have h: "?h d = r" using some(3) by (simp add: renamed_simps)
    have dest: "\<forall>d'. def_reg inst = Some d' \<longrightarrow> F (?h d') = cls d'"
      using some(1) h Fr cls dN by simp
    have stores: "stores = [I_STS k r]"
      "st3 = (if en then st2\<lparr>slot_cache := cache_insert (F d) k r (slot_cache st2)\<rparr> else st2)"
      using 1(3) some(2,3) bank(2) by (auto simp: lower_store_def)
    note flow = defining_falls_through [OF some(1)]
    show ?thesis
    proof (cases "machine_step eff cls instrs lbls s")
      case (Inr e)
      then show ?thesis using renamed [OF dest] one by (auto intro!: exI [of _ "length loads"])
    next
      case (Inl s')
      then obtain t2 where t2: "?step t1 = Inl t2" "matching_steps inst ?h lbls lbls' s t1 s' t2"
        using renamed [OF dest] by auto
      let ?t3 = "t2\<lparr>pc := Suc (pc t2), slots := (slots t2)(k := regs t2 r)\<rparr>"
      have pcs: "pc s' = Suc (pc s)" "pc t2 = Suc (pc t1)" "jump_label inst = None"
        using t2(2) flow by (auto simp: matching_steps_def)
      have nc: "\<not> is_call inst" "stored inst (regs s) (slots t1) = slots t1"
        using flow by blast+
      have t2s: "slots t2 = slots t1" "\<forall>v. v \<noteq> r \<longrightarrow> regs t2 v = regs t1 v"
        using t2(2) nc some(1) h by (auto simp: matching_steps_def written_as_def write_to_def)
      have view3: "spill_view slot_of N K s' ?t3"
        by (rule spill_view_spilled [OF view1 sok some(1,2) h f(6) t2(2)])
      have "pc t2 < length out" "out ! pc t2 = I_STS k r"
        using codes(4) stores(1) pcs(2) t1(2) by simp_all
      then have two: "?step t2 = Inl ?t3" by (rule machine_step_spill(2))
      have "steps ?step (Suc (length loads) + 1) t = Inl ?t3"
        unfolding steps_add one t2(1) by (simp add: two)
      then have run: "steps ?step (Suc (Suc (length loads))) t = Inl ?t3" by simp
      have "cache_ok slot_of N F st3 ?t3"
      proof (cases en)
        case True
        have "cache_ok slot_of N F (st2\<lparr>slot_cache := cache_insert (F d) k r (slot_cache st2)\<rparr>) ?t3"
        proof (rule cache_insert_ok [where u = d])
          show "\<forall>b'. distinct (map fst (slot_cache st2 b'))"
            using t1(6) f(4) by (simp add: cache_ok_def)
          show "\<forall>b' k' r'. (k', r') \<in> set (slot_cache st2 b') \<longrightarrow> k' \<noteq> k \<or> b' \<noteq> F d \<longrightarrow>
             N \<le> r' \<and> r' < next_vr st2 \<and> F r' = b' \<and> regs ?t3 r' = slots ?t3 k' \<and> (\<exists>u. slot_of u = Some k' \<and> F u = b')"
          proof (intro allI impI)
            fix b' k' r' assume e: "(k', r') \<in> set (slot_cache st2 b')" and ne: "k' \<noteq> k \<or> b' \<noteq> F d"
            then have old: "N \<le> r'" "r' < next_vr st1" "F r' = b'" "regs t1 r' = slots t1 k'"
              and ex: "\<exists>u. slot_of u = Some k' \<and> F u = b'"
              using t1(6) unfolding f(4) cache_ok_def by blast+
            have "k' \<noteq> k"
              using ne ex sok some(2) unfolding slots_ok_def by blast
            then show "N \<le> r' \<and> r' < next_vr st2 \<and> F r' = b' \<and> regs ?t3 r' = slots ?t3 k' \<and>
                (\<exists>u. slot_of u = Some k' \<and> F u = b')"
              using old ex f(1,2) t2s by auto
          qed
        qed (use f Fr some(2) in auto)
        then show ?thesis using True stores(2) by simp
      next
        case False
        then have "slot_cache st1 = cache_clear"
          using lower_uses_no_cache [of slot_of "uses inst" "[]" st mapped loads st1] 1(1) off by (simp add: clear_if_def)
        then show ?thesis using False stores(2) f(4) by (intro cache_ok_clear) simp
      qed
      then have "cache_ok slot_of N F st' ?t3" using 1(5) by (simp add: cache_ok_clear_if)
      moreover have "pc ?t3 = pc t + length chunk" using pcs t1(2) 1(4) stores(1) by simp
      ultimately show ?thesis
        using Inl run view3 pcs by (auto intro!: exI [of _ "Suc (length loads)"] exI [of _ ?t3])
    qed
  qed
qed

section \<open>The lowered code simulates the code\<close>

text \<open>A program with its labels and register banks, and a state of its run.\<close>

type_synonym ('v, 'm) config =
  "instruction list \<times> (string \<times> usize) list \<times> (usize \<Rightarrow> bool) \<times> ('v, 'm) machine"

definition config_step :: "('v, 'm) effect \<Rightarrow> ('v, 'm) config \<Rightarrow> ('v, 'm) config + ('v, 'm) ending" where
  "config_step eff c = (case c of (instrs, lbls, cls, s) \<Rightarrow>
     (case machine_step eff cls instrs lbls s of Inl s' \<Rightarrow> Inl (instrs, lbls, cls, s') | Inr r \<Rightarrow> Inr r))"

lemma config_steps:
  "steps (config_step eff) n (instrs, lbls, cls, s) =
     (case steps (machine_step eff cls instrs lbls) n s of Inl s' \<Rightarrow> Inl (instrs, lbls, cls, s') | Inr r \<Rightarrow> Inr r)"
  by (induction n arbitrary: s) (auto simp: config_step_def split: sum.splits)

lemma config_stops:
  "stops_with (config_step eff) (instrs, lbls, cls, s) r \<longleftrightarrow> stops_with (machine_step eff cls instrs lbls) s r"
proof -
  have "steps (config_step eff) n (instrs, lbls, cls, s) = Inr r \<longleftrightarrow>
      steps (machine_step eff cls instrs lbls) n s = Inr r" for n
    by (simp add: config_steps split: sum.split)
  then show ?thesis by (simp add: stops_with_def)
qed

lemma lower_loop_chunks:
  assumes "lower_loop en targets slot_of i instrs st = (chunks, st')"
  shows "length chunks = length instrs \<and>
    (\<exists>sts. sts 0 = st \<and> sts (length instrs) = st' \<and>
       (\<forall>j < length instrs. lower_instruction en targets slot_of (i + j) (instrs ! j) (sts j) = (chunks ! j, sts (Suc j))))"
  using assms
proof (induction instrs arbitrary: i st chunks)
  case (Cons inst instrs)
  obtain chunk st1 chunks1 where first: "lower_instruction en targets slot_of i inst st = (chunk, st1)"
    and rest: "lower_loop en targets slot_of (Suc i) instrs st1 = (chunks1, st')" and chunks: "chunks = chunk # chunks1"
    using Cons.prems by (auto split: prod.splits)
  obtain sts where sts: "length chunks1 = length instrs" "sts 0 = st1" "sts (length instrs) = st'"
    "\<forall>j < length instrs. lower_instruction en targets slot_of (Suc i + j) (instrs ! j) (sts j) = (chunks1 ! j, sts (Suc j))"
    using Cons.IH [OF rest] by blast
  let ?sts = "\<lambda>j. case j of 0 \<Rightarrow> st | Suc j \<Rightarrow> sts j"
  have "\<forall>j < Suc (length instrs). lower_instruction en targets slot_of (i + j) ((inst # instrs) ! j) (?sts j) =
      (chunks ! j, ?sts (Suc j))"
    using first sts chunks by (auto split: nat.split)
  then show ?case using sts chunks by (intro conjI exI [of _ ?sts]) auto
qed (auto intro: exI [of _ "\<lambda>_. st'"])

definition lowered_from ::
  "instruction list \<Rightarrow> (string \<times> usize) list \<Rightarrow> (usize \<Rightarrow> bool) \<Rightarrow> usize \<Rightarrow> usize \<Rightarrow> (usize \<Rightarrow> usize option) \<Rightarrow>
   bool \<Rightarrow> (nat \<Rightarrow> lowering) \<Rightarrow> instruction list list \<Rightarrow> bool list \<Rightarrow> bool" where
  "lowered_from instrs lbls cls N K slot_of en sts chunks final \<longleftrightarrow>
     length chunks = length instrs \<and> slots_ok slot_of N K \<and> (\<forall>inst\<in>set instrs. within N K inst) \<and>
     (\<forall>v < N. virtual_bank final v = cls v) \<and>
     (\<forall>j < length instrs.
        lower_instruction en (if en then set (map snd lbls) else {}) slot_of j (instrs ! j) (sts j) = (chunks ! j, sts (Suc j))) \<and>
     (\<forall>j \<le> length instrs. lowering_wf N (sts j) \<and> extends (secrecy_map (sts j)) final \<and>
        (\<not> en \<longrightarrow> slot_cache (sts j) = cache_clear))"

definition spill_rel :: "('v, 'm) config \<Rightarrow> ('v, 'm) config \<Rightarrow> bool" where
  "spill_rel c d = (case (c, d) of ((instrs, lbls, cls, s), (out, lbls', F, t)) \<Rightarrow>
     \<exists>N K slot_of en sts chunks final.
       lowered_from instrs lbls cls N K slot_of en sts chunks final \<and>
       out = concat chunks \<and> lbls' = map (\<lambda>(l, idx). (l, new_index chunks idx)) lbls \<and> F = virtual_bank final \<and>
       spill_view slot_of N K s t \<and> pc t = new_index chunks (pc s) \<and>
       (pc s < length instrs \<longrightarrow>
          cache_ok slot_of N F (clear_if (en \<and> pc s \<in> set (map snd lbls)) (sts (pc s))) t))"

lemma new_index_eq:
  "new_index chunks i = (if i < length chunks then length (concat (take i chunks)) else length (concat chunks))"
  by (auto simp: new_index_def old_to_new_def vec_get_def simp del: upt_Suc)

lemma new_index_Suc:
  assumes "i < length chunks"
  shows "new_index chunks (Suc i) = new_index chunks i + length (chunks ! i)"
proof -
  have "concat (take (Suc i) chunks) = concat (take i chunks) @ chunks ! i"
    using assms by (simp add: take_Suc_conv_app_nth)
  then show ?thesis
    using assms by (cases "Suc i = length chunks") (simp_all add: new_index_eq)
qed

lemma hm_get_relabel: "hm_get (=) (map (\<lambda>(l, idx). (l, f idx)) m) k = map_option f (hm_get (=) m k)"
  by (induction m) auto

lemma spill_rel_step:
  assumes "spill_rel c d"
  shows "case config_step eff c of
       Inr r \<Rightarrow> \<exists>k. steps (config_step eff) (Suc k) d = Inr r
     | Inl c' \<Rightarrow> \<exists>k d'. steps (config_step eff) (Suc k) d = Inl d' \<and> spill_rel c' d'"
proof -
  obtain instrs lbls cls s where c: "c = (instrs, lbls, cls, s)" by (cases c)
  obtain out lbls' F t where d: "d = (out, lbls', F, t)" by (cases d)
  obtain N K slot_of en sts chunks final where low: "lowered_from instrs lbls cls N K slot_of en sts chunks final"
    and out: "out = concat chunks" "lbls' = map (\<lambda>(l, idx). (l, new_index chunks idx)) lbls" "F = virtual_bank final"
    and view: "spill_view slot_of N K s t" and pct: "pc t = new_index chunks (pc s)"
    and cache: "pc s < length instrs \<longrightarrow>
          cache_ok slot_of N F (clear_if (en \<and> pc s \<in> set (map snd lbls)) (sts (pc s))) t"
    using assms by (auto simp: c d spill_rel_def)
  have len: "length chunks = length instrs" using low by (simp add: lowered_from_def)
  have sok: "slots_ok slot_of N K" using low by (simp add: lowered_from_def)
  have lb: "\<forall>l. hm_get (=) lbls' l = map_option (new_index chunks) (hm_get (=) lbls l)"
    unfolding out(2) by (simp add: hm_get_relabel)
  let ?T = "if en then set (map snd lbls) else {}"
  have T: "(en \<and> j \<in> ?T) = (en \<and> j \<in> set (map snd lbls))" for j by simp
  show ?thesis
  proof (cases "pc s < length instrs")
    case False
    then have "machine_step eff cls instrs lbls s = Inr (Fell_Off (regs s 0) (world s))"
      "machine_step eff F out lbls' t = Inr (Fell_Off (regs t 0) (world t))"
      using pct len by (auto simp: machine_step_def new_index_eq out(1))
    moreover have "regs t 0 = regs s 0" "world t = world s"
      using view sok by (auto simp: spill_view_def slots_ok_def)
    ultimately show ?thesis by (auto simp: c d config_step_def intro!: exI [of _ 0])
  next
    case True
    let ?inst = "instrs ! pc s"
    have li: "lower_instruction en ?T slot_of (pc s) ?inst (sts (pc s)) = (chunks ! pc s, sts (Suc (pc s)))"
      and wf: "lowering_wf N (sts (pc s))" "extends (secrecy_map (sts (Suc (pc s)))) final"
      and within: "within N K ?inst" and cls: "\<forall>v < N. F v = cls v"
      and off: "\<not> en \<Longrightarrow> slot_cache (sts (pc s)) = cache_clear"
      using low True by (auto simp: lowered_from_def out(3))
    have code: "code_at out (pc t) (chunks ! pc s)"
      using code_at_chunk [of "pc s" chunks] True len by (simp add: pct new_index_eq out(1))
    have cache': "cache_ok slot_of N F (clear_if (en \<and> pc s \<in> ?T) (sts (pc s))) t" using cache True by (simp add: T)
    note run = lower_instruction_run [OF li wf out(3) off sok within cls True refl view cache' code lb, of eff]
    show ?thesis
    proof (cases "machine_step eff cls instrs lbls s")
      case (Inr r)
      then obtain k where "steps (machine_step eff F out lbls') (Suc k) t = Inr r" using run by auto
      then show ?thesis
        using Inr by (auto simp: c d config_step_def config_steps simp del: steps.simps intro!: exI [of _ k])
    next
      case (Inl s')
      then obtain k t' where t': "steps (machine_step eff F out lbls') (Suc k) t = Inl t'"
        "spill_view slot_of N K s' t'"
        and control: "pc s' = Suc (pc s) \<and> pc t' = pc t + length (chunks ! pc s) \<and> cache_ok slot_of N F (sts (Suc (pc s))) t' \<or>
         (\<exists>l. jump_label ?inst = Some l \<and> hm_get (=) lbls l = Some (pc s') \<and> hm_get (=) lbls' l = Some (pc t'))"
        using run by auto
      have pct': "pc t' = new_index chunks (pc s')"
        using control lb pct new_index_Suc [of "pc s" chunks] True len by auto
      have "cache_ok slot_of N F (clear_if (en \<and> pc s' \<in> set (map snd lbls)) (sts (pc s'))) t'"
        if "pc s' < length instrs"
        using control
      proof (elim disjE conjE exE)
        assume "pc s' = Suc (pc s)" "cache_ok slot_of N F (sts (Suc (pc s))) t'"
        then show ?thesis by (simp add: cache_ok_clear_if)
      next
        fix l assume "hm_get (=) lbls l = Some (pc s')"
        then have "pc s' \<in> set (map snd lbls)" by (rule hm_get_value)
        moreover have "\<not> en \<Longrightarrow> slot_cache (sts (pc s')) = cache_clear"
          using low that by (auto simp: lowered_from_def)
        ultimately show ?thesis by (intro cache_ok_clear) (auto simp: clear_if_def)
      qed
      then have "spill_rel (instrs, lbls, cls, s') (out, lbls', F, t')"
        using low out t'(2) pct' unfolding spill_rel_def by blast
      then show ?thesis
        using Inl t'(1) by (auto simp: c d config_step_def config_steps simp del: steps.simps intro!: exI [of _ k])
    qed
  qed
qed

interpretation spill: forward_simulation "config_step eff" "config_step eff" spill_rel for eff
  by unfold_locales (rule spill_rel_step)

section \<open>The slots are fresh\<close>

lemma assign_slots_spec:
  assumes "assign_slots vs k0 = (slot_of, k1)"
  shows "slot_of v \<noteq> None \<longleftrightarrow> v \<in> set vs"
    and "slot_of v = Some k \<Longrightarrow> k0 \<le> k \<and> k < k1 \<and> (\<forall>w. slot_of w = Some k \<longrightarrow> w = v)"
    and "k0 \<le> k1"
proof -
  let ?f = "\<lambda>v (slot_of, next). if slot_of v = None then (slot_of(v \<mapsto> next), Suc next) else (slot_of, next)"
  have "k0 \<le> k1 \<and> (\<forall>v. slot_of v \<noteq> None \<longleftrightarrow> v \<in> set vs \<or> m0 v \<noteq> None) \<and>
      (\<forall>v k. slot_of v = Some k \<longrightarrow> c \<le> k \<and> k < k1 \<and> (\<forall>w. slot_of w = Some k \<longrightarrow> w = v))"
    if "fold ?f vs (m0, k0) = (slot_of, k1)" "c \<le> k0"
      "\<forall>v k. m0 v = Some k \<longrightarrow> c \<le> k \<and> k < k0 \<and> (\<forall>w. m0 w = Some k \<longrightarrow> w = v)" for vs m0 k0 k1 c
    using that
  proof (induction vs arbitrary: m0 k0)
    case (Cons v vs)
    show ?case
    proof (cases "m0 v")
      case None
      have new: "\<forall>w k. (m0(v \<mapsto> k0)) w = Some k \<longrightarrow> c \<le> k \<and> k < Suc k0 \<and> (\<forall>x. (m0(v \<mapsto> k0)) x = Some k \<longrightarrow> x = w)"
      proof (intro allI impI conjI)
        fix w k assume w: "(m0(v \<mapsto> k0)) w = Some k"
        show "c \<le> k" "k < Suc k0" using w Cons.prems(2,3) by (cases "w = v"; auto intro: less_SucI)+
        fix x assume x: "(m0(v \<mapsto> k0)) x = Some k"
        have no: "m0 y \<noteq> Some k0" for y using Cons.prems(3) less_irrefl by metis
        have inj: "m0 w = Some k \<Longrightarrow> m0 x = Some k \<Longrightarrow> x = w" using Cons.prems(3) by metis
        show "x = w" using w x no [of w] no [of x] inj by (simp split: if_splits)
      qed
      have f: "fold ?f vs (m0(v \<mapsto> k0), Suc k0) = (slot_of, k1)" using Cons.prems(1) None by simp
      have c: "c \<le> Suc k0" using Cons.prems(2) by simp
      note ih = Cons.IH [OF f c new]
      then have dom: "slot_of w \<noteq> None \<longleftrightarrow> w \<in> set vs \<or> w = v \<or> m0 w \<noteq> None" for w
        by (cases "w = v") simp_all
      have "Suc k0 \<le> k1"
        "\<forall>v k. slot_of v = Some k \<longrightarrow> c \<le> k \<and> k < k1 \<and> (\<forall>w. slot_of w = Some k \<longrightarrow> w = v)"
        by (rule conjunct1 [OF ih], rule conjunct2 [OF conjunct2 [OF ih]])
      then show ?thesis using dom by (intro conjI) (auto simp del: not_None_eq)
    next
      case (Some k)
      then have "fold ?f vs (m0, k0) = (slot_of, k1)" using Cons.prems(1) by simp
      from Cons.IH [OF this Cons.prems(2,3)] Some show ?thesis by auto
    qed
  qed auto
  from this [of vs "\<lambda>_. None" k0 k1 k0] assms
  show "slot_of v \<noteq> None \<longleftrightarrow> v \<in> set vs"
    "slot_of v = Some k \<Longrightarrow> k0 \<le> k \<and> k < k1 \<and> (\<forall>w. slot_of w = Some k \<longrightarrow> w = v)" "k0 \<le> k1"
    by (auto simp: assign_slots_def)
qed

text \<open>
  What a round of spilling relies on: the numbers of registers and slots in use, and that register
  0 is not spilled.
\<close>

definition spillable_code ::
  "instruction list \<Rightarrow> usize \<Rightarrow> bool list \<Rightarrow> usize list \<Rightarrow> usize \<Rightarrow> bool" where
  "spillable_code instrs next secrecy spilled_vrs next_slot \<longleftrightarrow>
     0 < next \<and> length secrecy = next \<and> list_all (within next next_slot) instrs \<and>
     0 \<notin> set spilled_vrs \<and> list_all (\<lambda>v. v < next) spilled_vrs"

text \<open>The start of a function: both machines at the first instruction, every slot still empty.\<close>

definition fresh_start :: "usize list \<Rightarrow> ('v, 'm) machine \<Rightarrow> ('v, 'm) machine \<Rightarrow> bool" where
  "fresh_start spilled_vrs s t \<longleftrightarrow> pc s = 0 \<and> pc t = 0 \<and> world t = world s \<and> regs t = regs s \<and> slots t = slots s \<and>
     (\<forall>k. \<forall>v\<in>set spilled_vrs. slots s k = regs s v)"

lemma lower_loop_states:
  assumes chunks: "\<forall>j < n. lower_instruction en T slot_of j (instrs ! j) (sts j) = (chunks ! j, sts (Suc j))"
    and wf: "lowering_wf N (sts 0)" and off: "\<not> en \<longrightarrow> slot_cache (sts 0) = cache_clear"
  shows "\<forall>j \<le> n. lowering_wf N (sts j) \<and> extends (secrecy_map (sts j)) (secrecy_map (sts n)) \<and>
      (\<not> en \<longrightarrow> slot_cache (sts j) = cache_clear)"
proof -
  have up: "lowering_wf N (sts j) \<and> (\<not> en \<longrightarrow> slot_cache (sts j) = cache_clear)" if "j \<le> n" for j
    using that
  proof (induction j)
    case (Suc j)
    then show ?case
      using lower_instruction_grows [of en T slot_of j "instrs ! j" "sts j" "chunks ! j" "sts (Suc j)" N] chunks by auto
  qed (use wf off in simp)
  have "extends (secrecy_map (sts j)) (secrecy_map (sts n))" if "j \<le> n" for j
    using that
  proof (induction j rule: inc_induct)
    case (step j)
    then have "extends (secrecy_map (sts j)) (secrecy_map (sts (Suc j)))"
      using lower_instruction_grows(2) [of en T slot_of j "instrs ! j" "sts j" "chunks ! j" "sts (Suc j)" N] chunks up [of j]
      by simp
    then show ?case using step.IH by (rule extends_trans)
  qed simp
  with up show ?thesis by blast
qed

lemma lower_spills_rel:
  assumes code: "spillable_code instrs next secrecy spilled_vrs next_slot"
    and start: "fresh_start spilled_vrs s t"
    and low: "low = lower_spills_into_slots instrs lbls next secrecy spilled_vrs next_slot en"
  shows "spill_rel (instrs, lbls, virtual_bank secrecy, s) (lw_code low, lw_labels low, virtual_bank (lw_secrecy low), t)"
proof -
  obtain slot_of k1 where slots: "assign_slots spilled_vrs next_slot = (slot_of, k1)"
    by (cases "assign_slots spilled_vrs next_slot")
  let ?T = "if en then set (map snd lbls) else {}"
  let ?st = "\<lparr>next_vr = next, secrecy_map = secrecy, slot_cache = cache_clear\<rparr>"
  obtain chunks st' where loop: "lower_loop en ?T slot_of 0 instrs ?st = (chunks, st')"
    by (cases "lower_loop en ?T slot_of 0 instrs ?st")
  obtain sts where len: "length chunks = length instrs" and sts: "sts 0 = ?st" "sts (length instrs) = st'"
    "\<forall>j < length instrs. lower_instruction en ?T slot_of j (instrs ! j) (sts j) = (chunks ! j, sts (Suc j))"
    using lower_loop_chunks [OF loop] by auto
  have fields: "lw_code low = concat chunks" "lw_labels low = map (\<lambda>(l, idx). (l, new_index chunks idx)) lbls"
    "lw_secrecy low = secrecy_map st'"
    by (simp_all add: low lower_spills_into_slots_def slots loop)
  have wf0: "lowering_wf next (sts 0)" using code by (simp add: sts(1) lowering_wf_def spillable_code_def)
  note states = lower_loop_states [OF sts(3) wf0, unfolded sts(2)]
  have all: "\<forall>j \<le> length instrs. lowering_wf next (sts j) \<and> extends (secrecy_map (sts j)) (secrecy_map st') \<and>
      (\<not> en \<longrightarrow> slot_cache (sts j) = cache_clear)"
    using states by (simp add: sts(1))
  then have "extends secrecy (secrecy_map st')" using sts(1) by fastforce
  then have banks: "\<forall>v < next. virtual_bank (secrecy_map st') v = virtual_bank secrecy v"
    using code by (auto simp: spillable_code_def extends_bank)
  note spec = assign_slots_spec [OF slots]
  have sok: "slots_ok slot_of next next_slot"
    using code spec(2) spec(1) unfolding slots_ok_def spillable_code_def list_all_iff by fastforce
  have "lowered_from instrs lbls (virtual_bank secrecy) next next_slot slot_of en sts chunks (secrecy_map st')"
    using len sok banks sts(3) all code by (simp add: lowered_from_def spillable_code_def list_all_iff)
  moreover have "spill_view slot_of next next_slot s t"
    using start spec(1) by (auto simp: spill_view_def fresh_start_def)
  moreover have "pc t = new_index chunks (pc s)"
    using start by (simp add: fresh_start_def new_index_eq)
  moreover have "cache_ok slot_of next (virtual_bank (secrecy_map st')) (clear_if c (sts (pc s))) t" for c
    using start sts(1) by (intro cache_ok_clear_if cache_ok_clear) (simp add: fresh_start_def)
  ultimately show ?thesis
    unfolding spill_rel_def fields by blast
qed

text \<open>C35: Spilling keeps the behaviour of code in which no register awaits a share when it is spilled:
  from the start of a function, the code with spill code, with or without the cache of reloads, returns,
  fails or runs off the end exactly when the code without it does, with the same result and the same
  rest of the state; in particular it does not diverge unless the other one does. The one exception is
  a spill instruction that meets a register awaiting a share: then the code stops with an error, which
  is what the virtual machine does there.
\<close>

theorem spill_lowering_correct:
  assumes "spillable_code instrs next secrecy spilled_vrs next_slot" "fresh_start spilled_vrs s t"
    and "low = lower_spills_into_slots instrs lbls next secrecy spilled_vrs next_slot en"
  shows "vm_stops_with awaiting eff (virtual_bank (lw_secrecy low)) (lw_code low) (lw_labels low) t r \<longleftrightarrow>
    (if \<exists>n. spill_fails awaiting eff (virtual_bank (lw_secrecy low)) (lw_code low) (lw_labels low) n t then r = Failed
     else stops_with (machine_step eff (virtual_bank secrecy) instrs lbls) s r)"
  using spill.same_stops [OF lower_spills_rel [OF assms], of eff r] by (simp add: vm_stops_cases config_stops)

theorem spill_lowering_correct_witness:
  "lw_code (lower_spills_into_slots sample_body [(''l'', 1)] 4 [False, False, False, False] [1] 0 True) =
     [I_LDI 4 (Bool True), I_STS 0 4, I_LDS 5 0, I_MOV 2 5, I_ADD 3 2 5, I_CMP 3 5, I_JMPEQ ''l'', I_RET 3] \<and>
   vm_stops_with (\<lambda>_ _. False) sample_effect
       (virtual_bank (lw_secrecy (lower_spills_into_slots sample_body [(''l'', 1)] 4 [False, False, False, False] [1] 0 True)))
       (lw_code (lower_spills_into_slots sample_body [(''l'', 1)] 4 [False, False, False, False] [1] 0 True))
       (lw_labels (lower_spills_into_slots sample_body [(''l'', 1)] 4 [False, False, False, False] [1] 0 True))
     sample_start (Returned 5 ())"
proof -
  have code: "spillable_code sample_body 4 [False, False, False, False] [1] 0" by code_simp
  have start: "fresh_start [1] sample_start sample_start" by (simp add: fresh_start_def sample_start_def)
  have "stops_within 6 (machine_step sample_effect (virtual_bank [False, False, False, False]) sample_body [(''l'', 1)])
      sample_start (Returned 5 ())" by code_simp
  then have "stops_with (machine_step sample_effect (virtual_bank [False, False, False, False]) sample_body [(''l'', 1)])
      sample_start (Returned 5 ())" by (rule stops_within_stops)
  moreover have "lw_code (lower_spills_into_slots sample_body [(''l'', 1)] 4 [False, False, False, False] [1] 0 True) =
     [I_LDI 4 (Bool True), I_STS 0 4, I_LDS 5 0, I_MOV 2 5, I_ADD 3 2 5, I_CMP 3 5, I_JMPEQ ''l'', I_RET 3]" by code_simp
  ultimately show ?thesis
    using spill_lowering_correct [OF code start refl, where lbls = "[(''l'', 1)]" and en = True and eff = sample_effect and awaiting = "\<lambda>_ _. False"]
    by (simp add: never_awaiting)
qed

end
