(* ===== verification/Spill_Liveness.thy ===== *)
theory Spill_Liveness
  imports Spilling
begin

text \<open>
  Spill code keeps the layout order of definitions: where a register is live in the code with
  spill code, its first definition comes earlier, provided it does in the code without it.  The
  scratch registers of the cache are live only inside the basic block that defines them, which is
  why the cache is cleared at labels and after jumps.
\<close>

section \<open>The parts of the lowered code\<close>

definition cached :: "lowering \<Rightarrow> usize set" where
  "cached st = {r. \<exists>b k. (k, r) \<in> set (slot_cache st b)}"

definition defined_in :: "instruction list \<Rightarrow> usize set" where
  "defined_in code = (\<Union>inst\<in>set code. set_option (def_reg inst))"

lemma defined_in_simps [simp]:
  "defined_in [] = {}" "defined_in (inst # code) = set_option (def_reg inst) \<union> defined_in code"
  "defined_in (xs @ ys) = defined_in xs \<union> defined_in ys"
  by (auto simp: defined_in_def)

lemma cached_clear [simp]: "slot_cache st = cache_clear \<Longrightarrow> cached st = {}"
  by (simp add: cached_def cache_clear_def)

lemma cached_clear_if: "cached (clear_if c st) = (if c then {} else cached st)"
  by (simp add: clear_if_def)

lemma cached_insert: "cached (st\<lparr>slot_cache := cache_insert b k r (slot_cache st)\<rparr>) \<subseteq> insert r (cached st)"
proof -
  have "set (tl (slot_cache st b)) \<subseteq> set (slot_cache st b)" by (cases "slot_cache st b") auto
  then have "set (cache_insert b k r (slot_cache st) b') \<subseteq> insert (k, r) (set (slot_cache st b'))" for b'
    using remove_slot_Some [of k "slot_cache st b"]
    by (auto simp: cache_insert_def Let_def split: option.splits if_splits)
  then show ?thesis by (fastforce simp: cached_def)
qed

lemma cached_lookup:
  assumes "cache_lookup b k (slot_cache st) = Some (r, cache)"
  shows "cached (st\<lparr>slot_cache := cache\<rparr>) \<subseteq> cached st" "r \<in> cached st"
proof -
  obtain bk where bk: "remove_slot k (slot_cache st b) = Some (r, bk)" "cache = (slot_cache st)(b := bk @ [(k, r)])"
    using assms by (auto simp: cache_lookup_def)
  note rem = remove_slot_Some [OF bk(1)]
  then have r: "(k, r) \<in> set (slot_cache st b)" by blast
  then show "r \<in> cached st" by (auto simp: cached_def)
  have "set (cache b') \<subseteq> set (slot_cache st b')" for b' using rem r by (auto simp: bk(2))
  then show "cached (st\<lparr>slot_cache := cache\<rparr>) \<subseteq> cached st" by (auto simp: cached_def)
qed

lemma lower_uses_parts:
  assumes "lower_uses en slot_of us mapped st = (mapped', loads, st')"
  shows "next_vr st \<le> next_vr st' \<and> list_all (\<lambda>inst. \<exists>r k. inst = I_LDS r k \<and> next_vr st \<le> r) loads \<and>
    snd ` set mapped' \<subseteq> snd ` set mapped \<union> cached st \<union> defined_in loads \<and>
    cached st' \<subseteq> cached st \<union> defined_in loads \<and>
    fst ` set mapped \<subseteq> fst ` set mapped' \<and> (\<forall>u\<in>set us. slot_of u \<noteq> None \<longrightarrow> u \<in> fst ` set mapped')"
  using assms
proof (induction us arbitrary: mapped st loads)
  case (Cons u us)
  from Cons.prems show ?case
  proof (cases rule: lower_uses_ConsE)
    case skip
    note ih = Cons.IH [OF skip(2)]
    then have "slot_of u \<noteq> None \<longrightarrow> u \<in> fst ` set mapped'" using skip(1) by (cases "slot_of u") auto
    with ih show ?thesis by simp
  next
    case (hit k r cache)
    note ih = Cons.IH [OF hit(5)]
    show ?thesis using ih cached_lookup [OF hit(4)] by auto
  next
    case (miss k r st1 loads1)
    let ?st2 = "if en then st1\<lparr>slot_cache := cache_insert (virtual_bank (secrecy_map st) u) k r (slot_cache st1)\<rparr> else st1"
    have f: "r = next_vr st" "next_vr st1 = Suc r" "slot_cache st1 = slot_cache st"
      using miss(3) by (auto simp: fresh_virtual_register_def)
    have c2: "cached ?st2 \<subseteq> insert r (cached st)"
      using cached_insert [of "virtual_bank (secrecy_map st) u" k r st1] f(3) by (auto simp: cached_def)
    have n2: "next_vr ?st2 = Suc r" using f by simp
    have def: "defined_in loads = insert r (defined_in loads1)" by (auto simp: miss(5) defined_in_def)
    note ih = Cons.IH [OF miss(4)]
    have "list_all (\<lambda>inst. \<exists>r k. inst = I_LDS r k \<and> next_vr st \<le> r) loads"
      using ih f(1) n2 by (fastforce simp: miss(5) list_all_iff)
    then show ?thesis using ih c2 n2 f(1) def by auto
  qed
qed (simp add: defined_in_def)


definition parts_of_chunk ::
  "(usize \<Rightarrow> usize option) \<Rightarrow> usize \<Rightarrow> instruction \<Rightarrow> usize set \<Rightarrow>
   instruction list \<Rightarrow> instruction \<Rightarrow> instruction list \<Rightarrow> bool" where
  "parts_of_chunk slot_of N inst avail loads main stores \<longleftrightarrow>
     list_all (\<lambda>i. \<exists>r k. i = I_LDS r k \<and> N \<le> r) loads \<and>
     (\<exists>g h. main = remap_operands g h inst \<and>
        (\<forall>u\<in>set (uses inst). slot_of u = None \<and> g u = u \<or> g u \<in> avail \<union> defined_in loads) \<and>
        (\<forall>d. def_reg inst = Some d \<longrightarrow>
           slot_of d = None \<and> h d = d \<and> stores = [] \<or>
           slot_of d \<noteq> None \<and> N \<le> h d \<and> (\<exists>k. stores = [I_STS k (h d)])) \<and>
        (def_reg inst = None \<longrightarrow> stores = []))"

lemma lower_instruction_parts:
  assumes li: "lower_instruction en T slot_of i inst st = (chunk, st')" and N: "N \<le> next_vr st"
  shows "\<exists>loads main stores. chunk = loads @ main # stores \<and>
      parts_of_chunk slot_of N inst (cached (clear_if (en \<and> i \<in> T) st)) loads main stores"
    and "cached st' \<subseteq> (if en \<and> ends_block inst then {} else cached (clear_if (en \<and> i \<in> T) st) \<union> defined_in chunk)"
    and "cached st' \<subseteq> cached st \<union> {N..}"
proof -
  from li have "(\<exists>loads main stores. chunk = loads @ main # stores \<and>
      parts_of_chunk slot_of N inst (cached (clear_if (en \<and> i \<in> T) st)) loads main stores) \<and>
    cached st' \<subseteq> (if en \<and> ends_block inst then {} else cached (clear_if (en \<and> i \<in> T) st) \<union> defined_in chunk) \<and>
    cached st' \<subseteq> cached st \<union> {N..}"
  proof (cases rule: lower_instructionE)
    case (1 mapped loads st1 mdef st2 stores st3)
    let ?st0 = "clear_if (en \<and> i \<in> T) st"
    let ?g = "renamed mapped" and ?h = "renamed (opt_list mdef)"
    note u = lower_uses_parts [OF 1(1)]
    have loads: "list_all (\<lambda>i. \<exists>r k. i = I_LDS r k \<and> N \<le> r) loads"
      using u N by (fastforce simp: list_all_iff)
    have uses: "slot_of v = None \<and> ?g v = v \<or> ?g v \<in> cached ?st0 \<union> defined_in loads" if v: "v \<in> set (uses inst)" for v
    proof (cases "map_of mapped v")
      case None
      then have "v \<notin> fst ` set mapped" by (simp add: map_of_eq_None_iff)
      moreover have "slot_of v \<noteq> None \<longrightarrow> v \<in> fst ` set mapped" using u v by blast
      ultimately show ?thesis using None by (auto simp: renamed_def)
    next
      case (Some r)
      then have "r \<in> snd ` set mapped" using map_of_SomeD [OF Some] by force
      moreover have "snd ` set mapped \<subseteq> cached ?st0 \<union> defined_in loads" using u by simp
      ultimately show ?thesis using Some by (auto simp: renamed_def)
    qed
    have d: "(\<forall>d. def_reg inst = Some d \<longrightarrow>
           slot_of d = None \<and> ?h d = d \<and> stores = [] \<or>
           slot_of d \<noteq> None \<and> N \<le> ?h d \<and> (\<exists>k. stores = [I_STS k (?h d)])) \<and>
        (def_reg inst = None \<longrightarrow> stores = []) \<and>
        cached st3 \<subseteq> cached st1 \<union> defined_in (remap_operands ?g ?h inst # stores) \<and>
        cached st3 \<subseteq> cached st1 \<union> {N..}"
      using 1(2)
    proof (cases rule: lower_def_cases)
      case none
      then show ?thesis using 1(3) by (auto simp: lower_store_def renamed_simps)
    next
      case (some d k r)
      have r: "r = next_vr st1" "slot_cache st2 = slot_cache st1"
        using some(4) by (auto simp: fresh_virtual_register_def)
      then have c: "cached st2 = cached st1" by (simp add: cached_def)
      have "cached st3 \<subseteq> insert r (cached st1)"
        using 1(3) some(3) cached_insert [where st = st2] c by (fastforce simp: lower_store_def split: if_splits)
      moreover have "r \<in> defined_in (remap_operands ?g ?h inst # stores)"
        using some(1,3) by (simp add: defined_in_def renamed_simps)
      moreover have "N \<le> r" using u N r(1) by simp
      ultimately show ?thesis
        using 1(3) some by (auto simp: lower_store_def renamed_simps)
    qed
    have "parts_of_chunk slot_of N inst (cached ?st0) loads (remap_operands ?g ?h inst) stores"
      unfolding parts_of_chunk_def
      by (intro conjI loads exI [of _ ?g] exI [of _ ?h] refl ballI uses) (use d in blast)+
    moreover have "cached st' \<subseteq> (if en \<and> ends_block inst then {} else cached ?st0 \<union> defined_in chunk)"
    proof -
      have "cached st1 \<subseteq> cached ?st0 \<union> defined_in loads" using u by blast
      then have "cached st3 \<subseteq> cached ?st0 \<union> defined_in chunk" using d unfolding 1(4) by (simp del: remap_operands_operands) blast
      then show ?thesis by (simp add: 1(5) cached_clear_if)
    qed
    moreover have "cached st' \<subseteq> cached st \<union> {N..}"
    proof -
      have "defined_in loads \<subseteq> {N..}" using loads by (fastforce simp: defined_in_def list_all_iff)
      moreover have "cached st1 \<subseteq> cached ?st0 \<union> defined_in loads" "cached ?st0 \<subseteq> cached st"
        using u by (blast, simp add: cached_clear_if)
      ultimately have "cached st3 \<subseteq> cached st \<union> {N..}" using d by blast
      then show ?thesis by (simp add: 1(5) cached_clear_if)
    qed
    ultimately show ?thesis using 1(4) by blast
  qed
  then show "\<exists>loads main stores. chunk = loads @ main # stores \<and>
      parts_of_chunk slot_of N inst (cached (clear_if (en \<and> i \<in> T) st)) loads main stores"
    "cached st' \<subseteq> (if en \<and> ends_block inst then {} else cached (clear_if (en \<and> i \<in> T) st) \<union> defined_in chunk)"
    "cached st' \<subseteq> cached st \<union> {N..}"
    by blast+
qed

section \<open>Control flow of the lowered code\<close>

text \<open>
  The lowered code as a sequence of chunks: the chunk of instruction \<open>i\<close> has its instruction at
  offset \<open>ms i\<close>, and the scratch registers \<open>avail i\<close> may be cached at its start.
\<close>

definition chunked ::
  "instruction list \<Rightarrow> (string \<times> usize) list \<Rightarrow> usize \<Rightarrow> (usize \<Rightarrow> usize option) \<Rightarrow>
   instruction list list \<Rightarrow> (usize \<Rightarrow> nat) \<Rightarrow> (usize \<Rightarrow> usize set) \<Rightarrow> bool" where
  "chunked instrs lbls N slot_of chunks ms avail \<longleftrightarrow>
     length chunks = length instrs \<and>
     (\<forall>i < length instrs. ms i < length (chunks ! i) \<and>
        parts_of_chunk slot_of N (instrs ! i) (avail i) (take (ms i) (chunks ! i)) (chunks ! i ! ms i)
          (drop (Suc (ms i)) (chunks ! i)) \<and>
        (\<forall>u\<in>set (uses (instrs ! i)). u < N) \<and> (\<forall>d. def_reg (instrs ! i) = Some d \<longrightarrow> d < N) \<and>
        avail i \<subseteq> {N..} \<inter> defined_in (concat (take i chunks)) \<and>
        (\<forall>l. hm_get (=) lbls l = Some i \<longrightarrow> avail i = {}) \<and>
        (Suc i < length instrs \<longrightarrow> avail (Suc i) \<subseteq> avail i \<union> defined_in (chunks ! i)))"

lemma position_in_chunk:
  assumes "j < length (concat chunks)"
  obtains i p where "i < length chunks" "p < length (chunks ! i)" "j = length (concat (take i chunks)) + p"
  using assms
proof (induction chunks arbitrary: j thesis)
  case (Cons c cs)
  show ?case
  proof (cases "j < length c")
    case True
    then show ?thesis using Cons.prems(1) [of 0 j] by simp
  next
    case False
    then have "j - length c < length (concat cs)" using Cons.prems(2) by simp
    from Cons.IH [OF _ this] obtain i p where "i < length cs" "p < length (cs ! i)" "j - length c = length (concat (take i cs)) + p"
      by blast
    then show ?thesis using False Cons.prems(1) [of "Suc i" p] by simp
  qed
qed simp

lemma nth_in_chunk:
  assumes "i < length chunks" "p < length (chunks ! i)"
  shows "length (concat (take i chunks)) + p < length (concat chunks)"
    and "concat chunks ! (length (concat (take i chunks)) + p) = chunks ! i ! p"
proof -
  have "concat chunks = concat (take i chunks) @ chunks ! i @ concat (drop (Suc i) chunks)"
    using assms(1) by (metis concat.simps(2) concat_append id_take_nth_drop)
  then show "length (concat (take i chunks)) + p < length (concat chunks)"
    "concat chunks ! (length (concat (take i chunks)) + p) = chunks ! i ! p"
    using assms(2) by (simp_all add: nth_append)
qed

lemma next_instrs_control:
  "next_instrs instrs lbls i =
     (case jump_label (instrs ! i) of Some l \<Rightarrow> label_target instrs lbls l | None \<Rightarrow> []) @
     (if unconditional (instrs ! i) \<or> is_return (instrs ! i) \<or> \<not> Suc i < length instrs then [] else [Suc i])"
  by (cases "instrs ! i") (simp_all add: next_instrs_def)

lemma next_lowered:
  assumes ch: "chunked instrs lbls N slot_of chunks ms avail"
    and i: "i < length instrs" "p < length (chunks ! i)"
    and j: "j \<in> set (next_instrs (concat chunks) (map (\<lambda>(l, idx). (l, new_index chunks idx)) lbls)
              (length (concat (take i chunks)) + p))"
  shows "Suc p < length (chunks ! i) \<and> j = length (concat (take i chunks)) + Suc p \<or>
    Suc p = length (chunks ! i) \<and> (\<exists>i'\<in>set (next_instrs instrs lbls i). j = length (concat (take i' chunks)) \<and>
      avail i' \<subseteq> avail i \<union> defined_in (chunks ! i))"
proof -
  have len: "length chunks = length instrs" using ch by (simp add: chunked_def)
  let ?P = "\<lambda>i. length (concat (take i chunks))"
  let ?inst = "chunks ! i ! p" and ?lbls = "map (\<lambda>(l, idx). (l, new_index chunks idx)) lbls"
  have at: "concat chunks ! (?P i + p) = ?inst" using nth_in_chunk(2) [of i chunks p] i len by simp
  have part: "ms i < length (chunks ! i)" "parts_of_chunk slot_of N (instrs ! i) (avail i) (take (ms i) (chunks ! i)) (chunks ! i ! ms i)
          (drop (Suc (ms i)) (chunks ! i))"
    "Suc i < length instrs \<Longrightarrow> avail (Suc i) \<subseteq> avail i \<union> defined_in (chunks ! i)"
    using ch i by (auto simp: chunked_def)
  have pos: "0 < length (chunks ! k)" if "k < length instrs" for k
    using ch that by (auto simp: chunked_def)
  have Psuc: "?P (Suc k) = ?P k + length (chunks ! k)" if "k < length instrs" for k
    using that len by (simp add: take_Suc_conv_app_nth)
  have PL: "?P (length instrs) = length (concat chunks)" using len by simp
  have lt: "?P k < length (concat chunks)" if "k < length instrs" for k
    using nth_in_chunk(1) [of k chunks 0] pos that len by simp
  have plain: "jump_label ?inst = None \<and> \<not> unconditional ?inst \<and> \<not> is_return ?inst" if "p \<noteq> ms i"
  proof (cases "p < ms i")
    case True
    then have "?inst \<in> set (take (ms i) (chunks ! i))" using part(1) by (auto simp: in_set_conv_nth)
    then show ?thesis using part(2) by (auto simp: parts_of_chunk_def list_all_iff)
  next
    case False
    then have "chunks ! i ! p = drop (Suc (ms i)) (chunks ! i) ! (p - Suc (ms i))"
      "p - Suc (ms i) < length (drop (Suc (ms i)) (chunks ! i))"
      using that i(2) by simp_all
    then have "?inst \<in> set (drop (Suc (ms i)) (chunks ! i))" by (simp only: nth_mem)
    then obtain d k where "?inst = I_STS k d"
      using part(2) by (cases "def_reg (instrs ! i)") (auto simp: parts_of_chunk_def)
    then show ?thesis by simp
  qed
  have main: "jump_label ?inst = jump_label (instrs ! i) \<and> unconditional ?inst = unconditional (instrs ! i) \<and>
      is_return ?inst = is_return (instrs ! i)" if "p = ms i"
    using part(2) that by (auto simp: parts_of_chunk_def)
  have control: "jump_label ?inst \<noteq> None \<Longrightarrow> Suc p = length (chunks ! i)"
    "Suc p = length (chunks ! i) \<Longrightarrow> jump_label ?inst = jump_label (instrs ! i) \<and> unconditional ?inst = unconditional (instrs ! i) \<and>
      is_return ?inst = is_return (instrs ! i)"
  proof -
    have falls: "jump_label (instrs ! i) = None \<and> \<not> unconditional (instrs ! i) \<and> \<not> is_return (instrs ! i)"
      if "Suc (ms i) < length (chunks ! i)"
    proof -
      have "drop (Suc (ms i)) (chunks ! i) \<noteq> []" using that by simp
      then obtain d where "def_reg (instrs ! i) = Some d"
        using part(2) by (cases "def_reg (instrs ! i)") (auto simp: parts_of_chunk_def)
      then show ?thesis by (cases "instrs ! i") simp_all
    qed
    have last: "Suc (ms i) = length (chunks ! i) \<or> Suc (ms i) < length (chunks ! i)" using part(1) by auto
    show "Suc p = length (chunks ! i)" if "jump_label ?inst \<noteq> None"
    proof -
      have "p = ms i" using plain that by blast
      then show ?thesis using falls main last that by auto
    qed
    show "jump_label ?inst = jump_label (instrs ! i) \<and> unconditional ?inst = unconditional (instrs ! i) \<and>
      is_return ?inst = is_return (instrs ! i)" if "Suc p = length (chunks ! i)"
    proof (cases "p = ms i")
      case False
      then have "Suc (ms i) < length (chunks ! i)" using last that by linarith
      then show ?thesis using plain False falls by simp
    qed (use main in simp)
  qed
  consider (jump) l idx where "jump_label ?inst = Some l" "hm_get (=) lbls l = Some idx" "j = new_index chunks idx"
      "new_index chunks idx < length (concat chunks)"
    | (fall) "\<not> unconditional ?inst" "\<not> is_return ?inst" "j = Suc (?P i + p)" "Suc (?P i + p) < length (concat chunks)"
  proof -
    have "(\<exists>l. jump_label ?inst = Some l \<and> j \<in> set (label_target (concat chunks) ?lbls l)) \<or>
        \<not> unconditional ?inst \<and> \<not> is_return ?inst \<and> j = Suc (?P i + p) \<and> Suc (?P i + p) < length (concat chunks)"
      using j by (cases "jump_label ?inst") (auto simp: next_instrs_control at split: if_splits)
    then show ?thesis
    proof
      assume "\<exists>l. jump_label ?inst = Some l \<and> j \<in> set (label_target (concat chunks) ?lbls l)"
      then obtain l where l: "jump_label ?inst = Some l" "j \<in> set (label_target (concat chunks) ?lbls l)" by blast
      show ?thesis
      proof (cases "hm_get (=) lbls l")
        case None
        then show ?thesis using l(2) by (simp add: label_target_def hm_get_relabel)
      next
        case (Some idx)
        then show ?thesis using l by (intro that(1) [of l idx]) (auto simp: label_target_def hm_get_relabel split: if_splits)
      qed
    qed (use that(2) in blast)
  qed
  then show ?thesis
  proof cases
    case jump
    then have fin: "Suc p = length (chunks ! i)" using control(1) by simp
    have idx: "idx < length instrs" using jump(4) len by (auto simp: new_index_eq split: if_splits)
    then have "idx \<in> set (next_instrs instrs lbls i)"
      using jump(1,2) control(2) [OF fin] by (simp add: next_instrs_control label_target_def)
    moreover have "avail idx = {}" using ch idx jump(2) by (auto simp: chunked_def)
    moreover have "j = ?P idx" using jump(3) idx len by (simp add: new_index_eq)
    ultimately show ?thesis using fin by blast
  next
    case fall
    show ?thesis
    proof (cases "Suc p < length (chunks ! i)")
      case True
      then show ?thesis using fall by simp
    next
      case False
      then have fin: "Suc p = length (chunks ! i)" using i(2) by simp
      then have "j = ?P (Suc i)" using Psuc [OF i(1)] fall(3) by simp
      moreover have "Suc i < length instrs"
        using fall(3,4) calculation PL i(1) by (metis Suc_lessI less_irrefl)
      ultimately show ?thesis
        using fin part(3) fall(1,2) control(2) [OF fin] by (auto simp: next_instrs_control)
    qed
  qed
qed

section \<open>Liveness of the lowered code\<close>

text \<open>What is live at offset \<open>p\<close> of the chunk of instruction \<open>i\<close>.\<close>

definition live_in_chunk ::
  "instruction list \<Rightarrow> (string \<times> usize) list \<Rightarrow> usize \<Rightarrow> (usize \<Rightarrow> usize option) \<Rightarrow>
   instruction list list \<Rightarrow> (usize \<Rightarrow> nat) \<Rightarrow> (usize \<Rightarrow> usize set) \<Rightarrow> usize \<Rightarrow> nat \<Rightarrow> usize \<Rightarrow> bool" where
  "live_in_chunk instrs lbls N slot_of chunks ms avail i p v \<longleftrightarrow>
     (if v < N then slot_of v = None \<and> (if p \<le> ms i then live_before instrs lbls i v else live_after instrs lbls i v)
      else v \<in> avail i \<union> defined_in (take p (chunks ! i)))"

lemma defined_in_take_Suc:
  "p < length c \<Longrightarrow> defined_in (take (Suc p) c) = defined_in (take p c) \<union> set_option (def_reg (c ! p))"
  by (auto simp: defined_in_def take_Suc_conv_app_nth)

lemma chunk_part:
  assumes ch: "chunked instrs lbls N slot_of chunks ms avail" and i: "i < length instrs" "p < length (chunks ! i)"
  obtains (load) r k where "p < ms i" "chunks ! i ! p = I_LDS r k" "N \<le> r"
  | (main) g h where "p = ms i" "chunks ! i ! p = remap_operands g h (instrs ! i)"
      "\<forall>u\<in>set (uses (instrs ! i)). slot_of u = None \<and> g u = u \<or> g u \<in> avail i \<union> defined_in (take (ms i) (chunks ! i))"
      "\<forall>d. def_reg (instrs ! i) = Some d \<longrightarrow> slot_of d = None \<and> h d = d \<or> slot_of d \<noteq> None \<and> N \<le> h d"
  | (store) r k where "p = Suc (ms i)" "Suc p = length (chunks ! i)" "chunks ! i ! p = I_STS k r"
      "r \<in> defined_in (take p (chunks ! i))" "N \<le> r"
proof -
  have part: "ms i < length (chunks ! i)" "parts_of_chunk slot_of N (instrs ! i) (avail i) (take (ms i) (chunks ! i)) (chunks ! i ! ms i)
          (drop (Suc (ms i)) (chunks ! i))"
    using ch i by (auto simp: chunked_def)
  consider "p < ms i" | "p = ms i" | "p > ms i" by linarith
  then show ?thesis
  proof cases
    case 1
    then have "chunks ! i ! p \<in> set (take (ms i) (chunks ! i))" using part(1) by (auto simp: in_set_conv_nth)
    then obtain r k where "chunks ! i ! p = I_LDS r k" "N \<le> r" using part(2) by (auto simp: parts_of_chunk_def list_all_iff)
    with 1 show ?thesis by (rule load)
  next
    case 2
    obtain g h where gh: "chunks ! i ! ms i = remap_operands g h (instrs ! i)"
      "\<forall>u\<in>set (uses (instrs ! i)). slot_of u = None \<and> g u = u \<or> g u \<in> avail i \<union> defined_in (take (ms i) (chunks ! i))"
      "\<forall>d. def_reg (instrs ! i) = Some d \<longrightarrow> slot_of d = None \<and> h d = d \<and> drop (Suc (ms i)) (chunks ! i) = [] \<or>
           slot_of d \<noteq> None \<and> N \<le> h d \<and> (\<exists>k. drop (Suc (ms i)) (chunks ! i) = [I_STS k (h d)])"
      using part(2) unfolding parts_of_chunk_def by blast
    then show ?thesis by (intro main [of g h]) (use 2 in auto)
  next
    case 3
    then have ne: "drop (Suc (ms i)) (chunks ! i) \<noteq> []" using i(2) by simp
    then obtain g h d k where d: "def_reg (instrs ! i) = Some d" "chunks ! i ! ms i = remap_operands g h (instrs ! i)"
      "N \<le> h d" "drop (Suc (ms i)) (chunks ! i) = [I_STS k (h d)]"
      using part(2) by (cases "def_reg (instrs ! i)") (auto simp: parts_of_chunk_def)
    then have "length (drop (Suc (ms i)) (chunks ! i)) = 1" by simp
    then have last: "p = Suc (ms i)" "Suc p = length (chunks ! i)" using 3 i(2) by auto
    have "chunks ! i ! p = I_STS k (h d)" using d(4) last part(1) by (metis hd_drop_conv_nth i(2) list.sel(1))
    moreover have "h d \<in> defined_in (take p (chunks ! i))"
      using d(1,2) part(1) by (simp add: last(1) defined_in_take_Suc)
    ultimately show ?thesis using store last d(3) by blast
  qed
qed

lemma live_in_chunk_use:
  assumes ch: "chunked instrs lbls N slot_of chunks ms avail" and i: "i < length instrs" "p < length (chunks ! i)"
    and v: "v \<in> set (uses (chunks ! i ! p))"
  shows "live_in_chunk instrs lbls N slot_of chunks ms avail i p v"
  using ch i
proof (cases rule: chunk_part)
  case (main g h)
  then obtain u where u: "u \<in> set (uses (instrs ! i))" "v = g u" using v by auto
  have "u < N" "avail i \<subseteq> {N..}" using ch i(1) u(1) by (auto simp: chunked_def)
  moreover have "defined_in (take p (chunks ! i)) \<subseteq> {N..}"
    using ch i main(1) by (fastforce simp: chunked_def parts_of_chunk_def defined_in_def list_all_iff)
  moreover have "slot_of u = None \<and> g u = u \<or> g u \<in> avail i \<union> defined_in (take p (chunks ! i))"
    using main u by blast
  ultimately show ?thesis
    using main(1) u(2) live_use [OF i(1) u(1)] by (auto simp: live_in_chunk_def)
next
  case (store r k)
  then show ?thesis using v by (simp add: live_in_chunk_def)
qed (use v in simp)

lemma live_in_chunk_pass:
  assumes ch: "chunked instrs lbls N slot_of chunks ms avail" and i: "i < length instrs" "p < length (chunks ! i)"
    and def: "def_reg (chunks ! i ! p) \<noteq> Some v"
    and later: "slot_of v = None \<and> v < N \<and> (if p < ms i then live_before instrs lbls i v else live_after instrs lbls i v) \<or>
      N \<le> v \<and> v \<in> avail i \<union> defined_in (take (Suc p) (chunks ! i))"
  shows "live_in_chunk instrs lbls N slot_of chunks ms avail i p v"
proof (cases "v < N")
  case False
  then show ?thesis using later def i(2) by (auto simp: live_in_chunk_def defined_in_take_Suc)
next
  case True
  show ?thesis
    using ch i
  proof (cases rule: chunk_part)
    case (main g h)
    have "def_reg (instrs ! i) \<noteq> Some v" using def main later True by auto
    then show ?thesis using later True main(1) i(1) live_after_before [of instrs lbls i v] by (auto simp: live_in_chunk_def)
  qed (use later True in \<open>auto simp: live_in_chunk_def\<close>)
qed

lemma live_lowered:
  assumes ch: "chunked instrs lbls N slot_of chunks ms avail"
    and "live_before (concat chunks) (map (\<lambda>(l, idx). (l, new_index chunks idx)) lbls) j v"
    and "i < length instrs" "p < length (chunks ! i)" "j = length (concat (take i chunks)) + p"
  shows "live_in_chunk instrs lbls N slot_of chunks ms avail i p v"
  using assms(2-)
proof (induction arbitrary: i p rule: live_before.induct)
  case (live_use j v)
  have "i < length chunks" using ch live_use.prems by (simp add: chunked_def)
  then have "concat chunks ! j = chunks ! i ! p" using nth_in_chunk(2) live_use.prems by simp
  then show ?case using live_in_chunk_use [OF ch live_use.prems(1,2)] live_use.hyps by simp
next
  case (live_pass j v j')
  have len: "length chunks = length instrs" using ch by (simp add: chunked_def)
  then have at: "concat chunks ! j = chunks ! i ! p" using nth_in_chunk(2) [of i chunks p] live_pass.prems by simp
  show ?case
  proof (rule live_in_chunk_pass [OF ch live_pass.prems(1,2)])
    show "def_reg (chunks ! i ! p) \<noteq> Some v" using live_pass.hyps(2) at by simp
    from next_lowered [OF ch live_pass.prems(1,2)] live_pass.hyps(3) live_pass.prems(3)
    consider (inner) "Suc p < length (chunks ! i)" "j' = length (concat (take i chunks)) + Suc p"
      | (jump) i' where "Suc p = length (chunks ! i)" "i' \<in> set (next_instrs instrs lbls i)"
          "j' = length (concat (take i' chunks)) + 0" "avail i' \<subseteq> avail i \<union> defined_in (chunks ! i)"
      by auto
    then show "slot_of v = None \<and> v < N \<and> (if p < ms i then live_before instrs lbls i v else live_after instrs lbls i v) \<or>
      N \<le> v \<and> v \<in> avail i \<union> defined_in (take (Suc p) (chunks ! i))"
    proof cases
      case inner
      from live_pass.IH [OF live_pass.prems(1) inner] show ?thesis
        by (cases "v < N") (simp_all add: live_in_chunk_def Suc_le_eq)
    next
      case jump
      have i': "i' < length instrs" using next_instrs_bound jump(2) by blast
      then have "0 < length (chunks ! i')" using ch by (auto simp: chunked_def)
      from live_pass.IH [OF i' this jump(3)]
      have live: "live_in_chunk instrs lbls N slot_of chunks ms avail i' 0 v" .
      have "\<not> p < ms i" using ch live_pass.prems(1) jump(1) by (auto simp: chunked_def)
      then show ?thesis
        using live jump(1,2,4) by (cases "v < N") (auto simp: live_in_chunk_def live_after_def defined_in_def)
    qed
  qed
qed

text \<open>The layout order of definitions is kept.\<close>

lemma first_def_lowered:
  assumes ch: "chunked instrs lbls N slot_of chunks ms avail" and v: "v < N" "slot_of v = None"
    and d: "def_first (concat chunks) v = Some d"
  obtains i where "def_first instrs v = Some i" "d \<le> length (concat (take i chunks)) + ms i" "i < length instrs"
proof -
  have len: "length chunks = length instrs" using ch by (simp add: chunked_def)
  note first = def_first_Some [OF d]
  obtain i0 p where p: "i0 < length chunks" "p < length (chunks ! i0)" "d = length (concat (take i0 chunks)) + p"
    using position_in_chunk first by blast
  then have "def_reg (chunks ! i0 ! p) = Some v" using first nth_in_chunk(2) [OF p(1,2)] by simp
  with p(1,2) v(1) have "def_reg (instrs ! i0) = Some v"
    by (cases rule: chunk_part [OF ch p(1) [unfolded len] p(2)]) auto
  then obtain i where i: "def_first instrs v = Some i"
    using def_first_None [of instrs v] p(1) len by (cases "def_first instrs v") auto
  note first_i = def_first_Some [OF i]
  have m: "ms i < length (chunks ! i)" using ch first_i by (auto simp: chunked_def)
  have ic: "i < length chunks" using first_i len by simp
  from m have "def_reg (chunks ! i ! ms i) = Some v"
    using v first_i by (cases rule: chunk_part [OF ch _ m]) auto
  then have "\<not> length (concat (take i chunks)) + ms i < d"
    using first nth_in_chunk [OF ic m] by auto
  then show ?thesis using that i first_i by simp
qed

lemma defined_in_before:
  assumes "def_first code v = Some d" "v \<in> defined_in (take j code)"
  shows "d < j"
proof -
  obtain k where k: "k < length code" "k < j" "def_reg (code ! k) = Some v"
    using assms(2) by (auto simp: defined_in_def in_set_conv_nth)
  then have "\<not> k < d" using def_first_Some [OF assms(1)] by auto
  then show ?thesis using k(2) by simp
qed

lemma chunked_defined_before_live:
  assumes ch: "chunked instrs lbls N slot_of chunks ms avail"
    and first: "defined_before_live instrs lbls precolored"
  shows "defined_before_live (concat chunks) (map (\<lambda>(l, idx). (l, new_index chunks idx)) lbls) precolored"
  unfolding defined_before_live_def
proof (intro allI impI)
  fix j v d
  assume live: "live_before (concat chunks) (map (\<lambda>(l, idx). (l, new_index chunks idx)) lbls) j v"
    and d: "def_first (concat chunks) v = Some d" and pre: "map_of precolored v = None"
  have len: "length chunks = length instrs" using ch by (simp add: chunked_def)
  have "j < length (concat chunks)" using live by (cases rule: live_before.cases) auto
  then obtain i p where ip: "i < length chunks" "p < length (chunks ! i)" "j = length (concat (take i chunks)) + p"
    by (rule position_in_chunk)
  have i: "i < length instrs" using ip len by simp
  from live_lowered [OF ch live i ip(2,3)] have inv: "live_in_chunk instrs lbls N slot_of chunks ms avail i p v" .
  show "d < j"
  proof (cases "v < N")
    case False
    have "avail i \<subseteq> defined_in (concat (take i chunks))" using ch i by (auto simp: chunked_def)
    moreover have "take j (concat chunks) = concat (take i chunks) @ take p (chunks ! i)"
    proof -
      have "concat chunks = concat (take i chunks) @ chunks ! i @ concat (drop (Suc i) chunks)"
        using ip(1) by (metis concat.simps(2) concat_append id_take_nth_drop)
      then show ?thesis using ip(2,3) by simp
    qed
    ultimately have "v \<in> defined_in (take j (concat chunks))"
      using inv False by (auto simp: live_in_chunk_def)
    then show ?thesis by (rule defined_in_before [OF d])
  next
    case True
    then have slot: "slot_of v = None" using inv by (simp add: live_in_chunk_def)
    obtain i0 where i0: "def_first instrs v = Some i0" "d \<le> length (concat (take i0 chunks)) + ms i0" "i0 < length instrs"
      using first_def_lowered [OF ch True slot d] .
    have earlier: "d < length (concat (take i chunks))" if "i0 < i"
    proof -
      have "take (Suc i0) chunks @ take (i - Suc i0) (drop (Suc i0) chunks) = take i chunks"
        using that by (metis Suc_leI le_add_diff_inverse take_add)
      then have "length (concat (take (Suc i0) chunks)) \<le> length (concat (take i chunks))"
        by (metis concat_append length_append le_add1)
      moreover have "length (concat (take (Suc i0) chunks)) = length (concat (take i0 chunks)) + length (chunks ! i0)"
        using i0(3) len by (simp add: take_Suc_conv_app_nth)
      moreover have "ms i0 < length (chunks ! i0)" using ch i0(3) by (simp add: chunked_def)
      ultimately show ?thesis using i0(2) by simp
    qed
    show ?thesis
    proof (cases "p \<le> ms i")
      case le: True
      then have "i0 < i" using inv True first i0(1) pre unfolding live_in_chunk_def defined_before_live_def by auto
      then show ?thesis using earlier ip(3) by simp
    next
      case gt: False
      then have "live_after instrs lbls i v" using inv True by (simp add: live_in_chunk_def)
      from defined_before_live_after [OF first this i i0(1) pre] have "i0 = i \<or> i0 < i" by auto
      then show ?thesis using i0(2) earlier ip(3) gt by auto
    qed
  qed
qed

text \<open>The chunks of the lowering.\<close>

lemma hm_get_target: "hm_get (=) lbls l = Some i \<Longrightarrow> i \<in> set (map snd lbls)"
  by (rule hm_get_value)

lemma lowered_chunked:
  assumes code: "spillable_code instrs N secrecy vs k0"
    and slots: "assign_slots vs k0 = (slot_of, k1)"
    and loop: "lower_loop en (if en then set (map snd lbls) else {}) slot_of 0 instrs
      \<lparr>next_vr = N, secrecy_map = secrecy, slot_cache = cache_clear\<rparr> = (chunks, st')"
  shows "\<exists>ms avail. chunked instrs lbls N slot_of chunks ms avail"
proof -
  let ?T = "if en then set (map snd lbls) else {}"
  let ?st = "\<lparr>next_vr = N, secrecy_map = secrecy, slot_cache = cache_clear\<rparr>"
  obtain sts where len: "length chunks = length instrs" and sts: "sts 0 = ?st"
    "\<forall>j < length instrs. lower_instruction en ?T slot_of j (instrs ! j) (sts j) = (chunks ! j, sts (Suc j))"
    using lower_loop_chunks [OF loop] by auto
  have wf0: "lowering_wf N (sts 0)" using code by (simp add: sts(1) lowering_wf_def spillable_code_def)
  from lower_loop_states [OF sts(2) wf0]
  have states: "\<forall>j \<le> length instrs. N \<le> next_vr (sts j) \<and> (\<not> en \<longrightarrow> slot_cache (sts j) = cache_clear)"
    by (auto simp: sts(1) lowering_wf_def)
  let ?avail = "\<lambda>i. cached (clear_if (en \<and> i \<in> ?T) (sts i))"
  have parts: "\<exists>m. m < length (chunks ! i) \<and> parts_of_chunk slot_of N (instrs ! i) (?avail i)
      (take m (chunks ! i)) (chunks ! i ! m) (drop (Suc m) (chunks ! i))"
    "cached (sts (Suc i)) \<subseteq> ?avail i \<union> defined_in (chunks ! i)" if "i < length instrs" for i
  proof -
    have li: "lower_instruction en ?T slot_of i (instrs ! i) (sts i) = (chunks ! i, sts (Suc i))"
      and N: "N \<le> next_vr (sts i)" using sts(2) states that by auto
    obtain loads main stores where c: "chunks ! i = loads @ main # stores"
      "parts_of_chunk slot_of N (instrs ! i) (?avail i) loads main stores"
      using lower_instruction_parts(1) [OF li N] by blast
    then show "\<exists>m. m < length (chunks ! i) \<and> parts_of_chunk slot_of N (instrs ! i) (?avail i)
      (take m (chunks ! i)) (chunks ! i ! m) (drop (Suc m) (chunks ! i))"
      by (intro exI [of _ "length loads"]) simp
    show "cached (sts (Suc i)) \<subseteq> ?avail i \<union> defined_in (chunks ! i)"
      using lower_instruction_parts(2) [OF li N] by (auto split: if_splits)
  qed
  obtain ms where ms: "\<forall>i < length instrs. ms i < length (chunks ! i) \<and>
      parts_of_chunk slot_of N (instrs ! i) (?avail i) (take (ms i) (chunks ! i)) (chunks ! i ! ms i)
        (drop (Suc (ms i)) (chunks ! i))"
    using parts(1) by metis
  have within: "(\<forall>u\<in>set (uses (instrs ! i)). u < N) \<and> (\<forall>d. def_reg (instrs ! i) = Some d \<longrightarrow> d < N)"
    if "i < length instrs" for i
    using code that within_uses within_def_reg by (fastforce simp: spillable_code_def list_all_length)
  have sub: "?avail i \<subseteq> cached (sts i)" for i by (simp add: cached_clear_if)
  have before: "cached (sts i) \<subseteq> defined_in (concat (take i chunks))" if "i \<le> length instrs" for i
    using that
  proof (induction i)
    case (Suc i)
    then have "cached (sts (Suc i)) \<subseteq> defined_in (concat (take i chunks)) \<union> defined_in (chunks ! i)"
      using parts(2) [of i] sub [of i] by auto
    then show ?case using Suc.prems len by (simp add: take_Suc_conv_app_nth)
  qed (simp add: sts(1))
  have none: "?avail i = {}" if "hm_get (=) lbls l = Some i" "i < length instrs" for i l
    using hm_get_target [OF that(1)] states that(2) by (auto simp: cached_clear_if)
  have next_avail: "?avail (Suc i) \<subseteq> ?avail i \<union> defined_in (chunks ! i)" if "i < length instrs" for i
    using sub [of "Suc i"] parts(2) [OF that] by blast
  have above: "cached (sts i) \<subseteq> {N..}" if "i \<le> length instrs" for i
    using that
  proof (induction i)
    case (Suc i)
    then have li: "lower_instruction en ?T slot_of i (instrs ! i) (sts i) = (chunks ! i, sts (Suc i))"
      and N: "N \<le> next_vr (sts i)" using sts(2) states by auto
    show ?case using lower_instruction_parts(3) [OF li N] Suc by fastforce
  qed (simp add: sts(1))
  have "?avail i \<subseteq> {N..} \<inter> defined_in (concat (take i chunks))" if "i < length instrs" for i
    using sub [of i] above [of i] before [of i] that by (meson Int_subset_iff less_imp_le subset_trans)
  then have "chunked instrs lbls N slot_of chunks ms ?avail"
    unfolding chunked_def using len ms within none next_avail by blast
  then show ?thesis by blast
qed


text \<open>Spill code keeps the layout order of definitions.\<close>

lemma lower_spills_defined_before_live:
  assumes code: "spillable_code instrs N secrecy vs k0" and first: "defined_before_live instrs lbls precolored"
    and low: "low = lower_spills_into_slots instrs lbls N secrecy vs k0 en"
  shows "defined_before_live (lw_code low) (lw_labels low) precolored"
proof -
  obtain slot_of k1 where slots: "assign_slots vs k0 = (slot_of, k1)" by (cases "assign_slots vs k0")
  let ?T = "if en then set (map snd lbls) else {}"
  let ?st = "\<lparr>next_vr = N, secrecy_map = secrecy, slot_cache = cache_clear\<rparr>"
  obtain chunks st' where loop: "lower_loop en ?T slot_of 0 instrs ?st = (chunks, st')"
    by (cases "lower_loop en ?T slot_of 0 instrs ?st")
  have "lw_code low = concat chunks" "lw_labels low = map (\<lambda>(l, idx). (l, new_index chunks idx)) lbls"
    by (simp_all add: low lower_spills_into_slots_def slots loop)
  moreover obtain ms avail where "chunked instrs lbls N slot_of chunks ms avail"
    using lowered_chunked [OF code slots loop] by blast
  ultimately show ?thesis using chunked_defined_before_live [OF _ first] by simp
qed

end
