(* ===== verification/Register_Assignment.thy ===== *)
theory Register_Assignment
  imports Spill_Liveness
begin

text \<open>
  The allocation of the registers of a function (\<open>allocate_registers_with_object_spills\<close> of
  \<open>stoffel-lang/src/codegen.rs\<close>): rounds of liveness analysis, linear scan and spill code until an
  allocation is found, the rewriting, and the removal of the moves that became no-ops.  The code
  that results behaves as the code on virtual registers.
\<close>

section \<open>The rounds\<close>

definition MAX_REGISTERS :: usize where
  "MAX_REGISTERS = DEFAULT_SECRET_REGISTER_START * 2"

definition SPILL_RESERVE :: nat where
  "SPILL_RESERVE = 6"

definition ALLOCATION_ROUNDS :: nat where
  "ALLOCATION_ROUNDS = 64"

datatype compile_failure = InternalError string | CompilerPanic

record allocation_state =
  as_code :: "instruction list"
  as_labels :: "(string \<times> usize) list"
  as_next_vr :: usize
  as_secrecy :: "bool list"
  as_next_slot :: usize
  as_unspillable :: "usize option"
  as_rounds :: nat

text \<open>Virtual register 0 is pinned to the result register unless it is precoloured already.\<close>

definition pin_result_register :: "(usize \<times> usize) list \<Rightarrow> (usize \<times> usize) list" where
  "pin_result_register precolored =
     (case map_of precolored 0 of None \<Rightarrow> precolored @ [(0, 0)] | Some _ \<Rightarrow> precolored)"

definition spill_round :: "bool \<Rightarrow> usize list \<Rightarrow> allocation_state \<Rightarrow> allocation_state" where
  "spill_round cache vs st =
     (let low = lower_spills_into_slots (as_code st) (as_labels st) (as_next_vr st) (as_secrecy st) vs
                  (as_next_slot st) (cache \<and> as_rounds st = 0)
      in \<lparr>as_code = lw_code low, as_labels = lw_labels low, as_next_vr = lw_next_vr low,
          as_secrecy = lw_secrecy low, as_next_slot = lw_next_slot low,
          as_unspillable = (if as_unspillable st = None \<and> as_next_vr st < lw_next_vr low
                            then Some (as_next_vr st) else as_unspillable st),
          as_rounds = Suc (as_rounds st)\<rparr>)"

definition allocation_failed :: "string \<Rightarrow> string \<Rightarrow> compile_failure" where
  "allocation_failed name why = InternalError (''Register allocation failed for '' @ name @ '': '' @ why)"

definition scan_round :: "(usize \<times> usize) list \<Rightarrow> live_interval option list \<Rightarrow> allocation_state \<Rightarrow>
    allocation_error + usize option list" where
  "scan_round precolored ivs st =
     linear_scan_partition ivs DEFAULT_SECRET_REGISTER_START (MAX_REGISTERS - DEFAULT_SECRET_REGISTER_START)
       (case as_unspillable st of None \<Rightarrow> 0 | Some _ \<Rightarrow> SPILL_RESERVE) (as_secrecy st) precolored
       (case as_unspillable st of None \<Rightarrow> no_unspillable | Some v \<Rightarrow> v)"

text \<open>For evaluation, no bound is replaced by one above all the registers.\<close>

lemma scan_round_code [code]:
  "scan_round precolored ivs st =
     linear_scan_partition ivs DEFAULT_SECRET_REGISTER_START (MAX_REGISTERS - DEFAULT_SECRET_REGISTER_START)
       (case as_unspillable st of None \<Rightarrow> 0 | Some _ \<Rightarrow> SPILL_RESERVE) (as_secrecy st) precolored
       (case as_unspillable st of
          None \<Rightarrow> if int (length ivs) \<le> 18446744073709551615 then length ivs else no_unspillable
        | Some v \<Rightarrow> v)"
proof (cases "as_unspillable st = None \<and> int (length ivs) \<le> 18446744073709551615")
  case True
  then have "length ivs \<le> no_unspillable" by (simp add: no_unspillable_def usize_max_def)
  from linear_scan_bound [OF this, of "length ivs"] True show ?thesis by (simp add: scan_round_def)
qed (auto simp: scan_round_def split: option.splits)

fun allocation_loop ::
  "nat \<Rightarrow> (usize \<times> usize) list \<Rightarrow> bool \<Rightarrow> string \<Rightarrow> allocation_state \<Rightarrow>
   compile_failure + usize option list \<times> allocation_state" where
  "allocation_loop 0 precolored cache name st =
     Inl (allocation_failed name ''object spill lowering did not converge'')"
| "allocation_loop (Suc n) precolored cache name st =
     (case analyze_liveness_cfg_dense (as_code st) (as_labels st) (map fst precolored) of
        None \<Rightarrow> Inl CompilerPanic
      | Some ivs \<Rightarrow>
          (case scan_round precolored ivs st of
             Inr al \<Rightarrow> Inr (al, st)
           | Inl (NeedsSpilling vs) \<Rightarrow> allocation_loop n precolored cache name (spill_round cache vs st)
           | Inl (PoolExhausted _ _) \<Rightarrow> Inl (allocation_failed name ''Pool exhausted'')
           | Inl Panicked \<Rightarrow> Inl CompilerPanic))"

definition allocate_registers_with_object_spills ::
  "instruction list \<Rightarrow> (string \<times> usize) list \<Rightarrow> usize \<Rightarrow> bool list \<Rightarrow> (usize \<times> usize) list \<Rightarrow> string \<Rightarrow> bool \<Rightarrow>
   compile_failure + usize option list \<times> allocation_state" where
  "allocate_registers_with_object_spills instrs lbls next secrecy precolored name spill_slot_cache =
     allocation_loop ALLOCATION_ROUNDS (pin_result_register precolored) spill_slot_cache name
       \<lparr>as_code = instrs, as_labels = lbls, as_next_vr = next, as_secrecy = secrecy, as_next_slot = 0,
        as_unspillable = None, as_rounds = 0\<rparr>"

section \<open>Moves that became no-ops\<close>

fun self_mov :: "instruction \<Rightarrow> bool" where
  "self_mov (I_MOV d s) = (d = s)"
| "self_mov _ = False"

definition eliminate_self_movs ::
  "instruction list \<Rightarrow> (string \<times> usize) list \<Rightarrow> instruction list \<times> (string \<times> usize) list" where
  "eliminate_self_movs instrs lbls =
     (let chunks = map (\<lambda>inst. if self_mov inst then [] else [inst]) instrs
      in (concat chunks, map (\<lambda>(l, idx). (l, new_index chunks idx)) lbls))"

text \<open>The code of a function body after constant pinning.\<close>

definition assign_registers ::
  "instruction list \<Rightarrow> (string \<times> usize) list \<Rightarrow> usize \<Rightarrow> bool list \<Rightarrow> (usize \<times> usize) list \<Rightarrow> string \<Rightarrow> bool \<Rightarrow>
   compile_failure + instruction list \<times> (string \<times> usize) list" where
  "assign_registers instrs lbls next secrecy precolored name spill_opt =
     rbind (allocate_registers_with_object_spills instrs lbls next secrecy precolored name spill_opt)
       (\<lambda>(al, st).
          case rewrite_instructions_dense (as_code st) al of
            None \<Rightarrow> Inl CompilerPanic
          | Some code \<Rightarrow> Inr (if spill_opt then eliminate_self_movs code (as_labels st) else (code, as_labels st)))"

section \<open>Removing the no-ops keeps the behaviour\<close>

text \<open>A move between registers of one bank copies its operand.\<close>

definition moves_copy :: "('v, 'm) effect \<Rightarrow> bool" where
  "moves_copy eff \<longleftrightarrow> (\<forall>b x m. \<exists>taken. eff (I_MOV 0 0) [(b, x)] b m = Some (x, m, taken))"

definition kept_chunks :: "instruction list \<Rightarrow> instruction list list" where
  "kept_chunks instrs = map (\<lambda>inst. if self_mov inst then [] else [inst]) instrs"

definition self_mov_sim :: "('v, 'm) effect \<Rightarrow> ('v, 'm) config \<Rightarrow> ('v, 'm) config \<Rightarrow> bool" where
  "self_mov_sim eff c d = (case (c, d) of ((out, lbls', cls', t), (instrs, lbls, cls, s)) \<Rightarrow>
     moves_copy eff \<and> cls' = cls \<and> out = concat (kept_chunks instrs) \<and>
     lbls' = map (\<lambda>(l, idx). (l, new_index (kept_chunks instrs) idx)) lbls \<and>
     t = s\<lparr>pc := new_index (kept_chunks instrs) (pc s)\<rparr>)"

lemma self_mov_step:
  assumes "moves_copy eff" "pc s < length instrs" "self_mov (instrs ! pc s)"
  shows "machine_step eff cls instrs lbls s = Inl (s\<lparr>pc := Suc (pc s)\<rparr>)"
proof -
  obtain r where r: "instrs ! pc s = I_MOV r r" using assms(3) by (cases "instrs ! pc s") auto
  obtain taken where "eff (I_MOV 0 0) [(cls r, regs s r)] (cls r) (world s) = Some (regs s r, world s, taken)"
    using assms(1) unfolding moves_copy_def by blast
  then show ?thesis
    using assms(2) r
    by (simp add: machine_step_def written_reg_def write_result_def transfer_control_def shape_def)
qed

lemma kept_chunks_length [simp]: "length (kept_chunks instrs) = length instrs"
  by (simp add: kept_chunks_def)

lemma kept_chunks_nth: "i < length instrs \<Longrightarrow> kept_chunks instrs ! i = (if self_mov (instrs ! i) then [] else [instrs ! i])"
  by (simp add: kept_chunks_def)

text \<open>From any point, the code runs over no-ops to the next instruction that is kept.\<close>

lemma skip_self_movs:
  assumes mv: "moves_copy eff" and s: "pc s \<le> length instrs"
  shows "\<exists>k j. pc s \<le> j \<and> j \<le> length instrs \<and>
    steps (machine_step eff cls instrs lbls) k s = Inl (s\<lparr>pc := j\<rparr>) \<and>
    new_index (kept_chunks instrs) j = new_index (kept_chunks instrs) (pc s) \<and>
    (j < length instrs \<longrightarrow> \<not> self_mov (instrs ! j))"
  using s
proof (induction "length instrs - pc s" arbitrary: s)
  case 0
  then show ?case by (intro exI [of _ 0] exI [of _ "pc s"]) auto
next
  case (Suc n)
  then have lt: "pc s < length instrs" by simp
  show ?case
  proof (cases "self_mov (instrs ! pc s)")
    case True
    let ?s = "s\<lparr>pc := Suc (pc s)\<rparr>"
    have measure: "n = length instrs - pc ?s" using Suc(2) by simp
    obtain k j where kj: "pc ?s \<le> j" "j \<le> length instrs"
      "steps (machine_step eff cls instrs lbls) k ?s = Inl (?s\<lparr>pc := j\<rparr>)"
      "new_index (kept_chunks instrs) j = new_index (kept_chunks instrs) (pc ?s)"
      "j < length instrs \<longrightarrow> \<not> self_mov (instrs ! j)"
      using Suc(1) [of ?s] measure lt by auto
    have "steps (machine_step eff cls instrs lbls) (Suc k) s = Inl (s\<lparr>pc := j\<rparr>)"
      using self_mov_step [OF mv lt True, of cls lbls] kj(3) by simp
    moreover have "new_index (kept_chunks instrs) (Suc (pc s)) = new_index (kept_chunks instrs) (pc s)"
      using new_index_Suc [of "pc s" "kept_chunks instrs"] lt True by (simp add: kept_chunks_nth)
    ultimately show ?thesis using kj by (intro exI [of _ "Suc k"] exI [of _ j]) auto
  next
    case False
    then show ?thesis using lt by (intro exI [of _ 0] exI [of _ "pc s"]) auto
  qed
qed

lemma remap_operands_id: "remap_operands id id inst = inst"
  by (cases inst) simp_all

lemma self_mov_sim_step:
  assumes "self_mov_sim eff c d"
  shows "case config_step eff c of
       Inr r \<Rightarrow> \<exists>k. steps (config_step eff) (Suc k) d = Inr r
     | Inl c' \<Rightarrow> \<exists>k d'. steps (config_step eff) (Suc k) d = Inl d' \<and> self_mov_sim eff c' d'"
proof -
  obtain instrs lbls cls s where d: "d = (instrs, lbls, cls, s)" by (cases d)
  let ?chunks = "kept_chunks instrs"
  let ?out = "concat ?chunks" and ?lbls' = "map (\<lambda>(l, idx). (l, new_index ?chunks idx)) lbls"
  let ?t = "s\<lparr>pc := new_index ?chunks (pc s)\<rparr>"
  have c: "c = (?out, ?lbls', cls, ?t)" and mv: "moves_copy eff"
    using assms by (cases c; auto simp: d self_mov_sim_def)+
  let ?step = "machine_step eff cls instrs lbls"
  have "\<exists>k j. steps ?step k s = Inl (s\<lparr>pc := j\<rparr>) \<and> new_index ?chunks j = new_index ?chunks (pc s) \<and>
      (j < length instrs \<longrightarrow> \<not> self_mov (instrs ! j))"
  proof (cases "pc s \<le> length instrs")
    case True
    then show ?thesis using skip_self_movs [OF mv True, of cls lbls] by blast
  next
    case False
    then show ?thesis by (intro exI [of _ 0] exI [of _ "pc s"]) auto
  qed
  then obtain k j where run: "steps ?step k s = Inl (s\<lparr>pc := j\<rparr>)"
    and idx: "new_index ?chunks j = new_index ?chunks (pc s)" and keep: "j < length instrs \<Longrightarrow> \<not> self_mov (instrs ! j)"
    by blast
  let ?s = "s\<lparr>pc := j\<rparr>"
  have one: "steps ?step (Suc k) s = ?step ?s"
    using steps_add [of ?step k 1 s] run by (simp split: sum.splits)
  show ?thesis
  proof (cases "j < length instrs")
    case False
    then have "?step ?s = Inr (Fell_Off (regs s 0) (world s))"
      "machine_step eff cls ?out ?lbls' ?t = Inr (Fell_Off (regs s 0) (world s))"
      using idx by (auto simp: machine_step_def new_index_eq split: if_splits)
    then show ?thesis
      using one by (auto simp: c d config_step_def config_steps simp del: steps.simps intro!: exI [of _ k])
  next
    case True
    let ?inst = "instrs ! j"
    have chunk: "?chunks ! j = [?inst]" using True keep by (simp add: kept_chunks_nth)
    have "code_at ?out (new_index ?chunks j) [?inst]"
      using code_at_chunk [of j ?chunks] True by (simp add: new_index_eq chunk)
    then have t: "pc ?t < length ?out" "?out ! pc ?t = ?inst" by (simp_all add: idx)
    have lb: "hm_get (=) ?lbls' l = map_option (new_index ?chunks) (hm_get (=) lbls l)" for l
      by (simp add: hm_get_relabel)
    have lbs: "\<forall>l. hm_get (=) ?lbls' l = map_option (new_index ?chunks) (hm_get (=) lbls l)" by (simp add: lb)
    have same: "t' = s'\<lparr>pc := new_index ?chunks (pc s')\<rparr>" if "matching_steps ?inst id lbls ?lbls' ?s ?t s' t'" for s' t'
    proof -
      have "written_as id ?inst = written_reg ?inst"
        by (simp add: written_as_def written_reg_def option.map_id)
      then have "world t' = world s'" "slots t' = slots s'" "regs t' = regs s'"
        using that by (auto simp: matching_steps_def)
      moreover have "pc t' = new_index ?chunks (pc s')"
        using that lb idx new_index_Suc [of j ?chunks] True by (auto simp: matching_steps_def chunk)
      ultimately show ?thesis by simp
    qed
    have renamed: "case ?step ?s of
        Inr r \<Rightarrow> machine_step eff cls ?out ?lbls' ?t = Inr r
      | Inl s' \<Rightarrow> \<exists>t'. machine_step eff cls ?out ?lbls' ?t = Inl t' \<and> matching_steps ?inst id lbls ?lbls' ?s ?t s' t'"
      using True t by (intro machine_step_renamed [where g = id and F = "new_index ?chunks"])
        (auto simp: remap_operands_id lb)
    show ?thesis
    proof (cases "?step ?s")
      case (Inl s')
      then have "machine_step eff cls ?out ?lbls' ?t = Inl (s'\<lparr>pc := new_index ?chunks (pc s')\<rparr>)"
        using renamed same by auto
      then show ?thesis
        using Inl one mv
        by (auto simp: c d config_step_def config_steps self_mov_sim_def simp del: steps.simps intro!: exI [of _ k])
    next
      case (Inr r)
      then show ?thesis
        using renamed one by (auto simp: c d config_step_def config_steps simp del: steps.simps intro!: exI [of _ k])
    qed
  qed
qed

interpretation self_movs: forward_simulation "config_step eff" "config_step eff" "self_mov_sim eff" for eff
  by unfold_locales (rule self_mov_sim_step)

section \<open>The rounds keep the code well formed\<close>

definition scratch_below :: "lowering \<Rightarrow> bool" where
  "scratch_below st \<longleftrightarrow> (\<forall>b k r. (k, r) \<in> set (slot_cache st b) \<longrightarrow> r < next_vr st)"

lemma scratch_below_insert:
  assumes "scratch_below st" "r < next_vr st"
  shows "scratch_below (st\<lparr>slot_cache := cache_insert b k r (slot_cache st)\<rparr>)"
proof -
  have "set (cache_insert b k r (slot_cache st) b') \<subseteq> insert (k, r) (set (slot_cache st b'))" for b'
  proof -
    have "set (tl (slot_cache st b)) \<subseteq> set (slot_cache st b)" by (cases "slot_cache st b") auto
    then show ?thesis
      using remove_slot_Some [of k "slot_cache st b"]
      by (auto simp: cache_insert_def Let_def split: option.splits if_splits)
  qed
  then show ?thesis using assms unfolding scratch_below_def by fastforce
qed

lemma scratch_below_lookup:
  assumes "scratch_below st" "cache_lookup b k (slot_cache st) = Some (r, cache)"
  shows "scratch_below (st\<lparr>slot_cache := cache\<rparr>)" "r < next_vr st"
proof -
  obtain bk where bk: "remove_slot k (slot_cache st b) = Some (r, bk)" "cache = (slot_cache st)(b := bk @ [(k, r)])"
    using assms(2) by (auto simp: cache_lookup_def)
  note rem = remove_slot_Some [OF bk(1)]
  show "r < next_vr st" using assms(1) rem unfolding scratch_below_def by blast
  then show "scratch_below (st\<lparr>slot_cache := cache\<rparr>)"
    using assms(1) rem by (auto simp: scratch_below_def bk(2))
qed

lemma within_mono: "within N K inst \<Longrightarrow> N \<le> N' \<Longrightarrow> K \<le> K' \<Longrightarrow> within N' K' inst"
  by (auto simp: within_def split: option.splits intro: less_le_trans)

lemma lower_uses_within:
  assumes "lower_uses en slot_of us mapped st = (mapped', loads, st')"
    and "scratch_below st" "\<forall>(u, r)\<in>set mapped. r < next_vr st" "\<forall>u k. slot_of u = Some k \<longrightarrow> k < K"
  shows "next_vr st \<le> next_vr st' \<and> scratch_below st' \<and> (\<forall>(u, r)\<in>set mapped'. r < next_vr st') \<and>
    list_all (within (next_vr st') K) loads"
  using assms
proof (induction us arbitrary: mapped st loads)
  case (Cons u us)
  from Cons.prems(1) show ?case
  proof (cases rule: lower_uses_ConsE)
    case skip
    then show ?thesis using Cons by blast
  next
    case (hit k r cache)
    note look = scratch_below_lookup [OF Cons.prems(2) hit(4)]
    show ?thesis using Cons.IH [OF hit(5) look(1)] look(2) Cons.prems(3,4) by simp
  next
    case (miss k r st1 loads1)
    let ?st2 = "if en then st1\<lparr>slot_cache := cache_insert (virtual_bank (secrecy_map st) u) k r (slot_cache st1)\<rparr> else st1"
    have f: "r = next_vr st" "next_vr st1 = Suc r" "slot_cache st1 = slot_cache st"
      using miss(3) by (auto simp: fresh_virtual_register_def)
    have below1: "scratch_below st1" using Cons.prems(2) f by (auto simp: scratch_below_def intro: less_SucI)
    have "scratch_below ?st2" using scratch_below_insert [OF below1, of r] below1 f by simp
    moreover have "\<forall>(u, r)\<in>set (mapped @ [(u, r)]). r < next_vr ?st2"
      using Cons.prems(3) f by (auto intro: less_SucI)
    ultimately have "next_vr ?st2 \<le> next_vr st' \<and> scratch_below st' \<and> (\<forall>(u, r)\<in>set mapped'. r < next_vr st') \<and>
        list_all (within (next_vr st') K) loads1"
      by (rule Cons.IH [OF miss(4) _ _ Cons.prems(4)])
    moreover have "next_vr ?st2 = Suc r" using f by simp
    moreover have "within n K (I_LDS r k)" if "Suc r \<le> n" for n
      using Cons.prems(4) miss(1) that by (simp add: within_def)
    ultimately show ?thesis using f(1) by (simp add: miss(5))
  qed
qed simp

lemma lower_instruction_within:
  assumes li: "lower_instruction en T slot_of i inst st = (chunk, st')"
    and inst: "within (next_vr st) K inst" and below: "scratch_below st"
    and slots: "\<forall>u k. slot_of u = Some k \<longrightarrow> k < K'" "K \<le> K'"
  shows "next_vr st \<le> next_vr st'" "scratch_below st'" "list_all (within (next_vr st') K') chunk"
proof -
  have "next_vr st \<le> next_vr st' \<and> scratch_below st' \<and> list_all (within (next_vr st') K') chunk"
    using li
  proof (cases rule: lower_instructionE)
    case (1 mapped loads st1 mdef st2 stores st3)
    have b0: "scratch_below (clear_if c st)" for c using below by (auto simp: clear_if_def scratch_below_def cache_clear_def)
    have u: "next_vr st \<le> next_vr st1" "scratch_below st1" "\<forall>(u, r)\<in>set mapped. r < next_vr st1"
      "list_all (within (next_vr st1) K') loads"
      using lower_uses_within [OF 1(1) b0 _ slots(1)] by simp_all
    have d: "next_vr st1 \<le> next_vr st2 \<and> scratch_below st2 \<and> (\<forall>d r. mdef = Some (d, r) \<longrightarrow> r < next_vr st2 \<and> slot_of d \<noteq> None)"
      using 1(2)
    proof (cases rule: lower_def_cases)
      case none
      then show ?thesis using u(2) by simp
    next
      case (some d k r)
      have "scratch_below (st1\<lparr>next_vr := Suc (next_vr st1), secrecy_map := m\<rparr>)" for m
        using u(2) unfolding scratch_below_def by (simp add: less_Suc_eq)
      then show ?thesis using some by (auto simp: fresh_virtual_register_def)
    qed
    have e: "next_vr st3 = next_vr st2 \<and> scratch_below st3 \<and> list_all (within (next_vr st2) K') stores"
      using 1(3) d slots(1) scratch_below_insert [of st2]
      by (auto simp: lower_store_def within_def split: option.splits)
    have "renamed mapped v < next_vr st2" if "v < next_vr st" for v
      using u d that by (force simp: renamed_def split: option.splits dest: map_of_SomeD)
    moreover have "renamed (opt_list mdef) v < next_vr st2" if "v < next_vr st" for v
      using u d that by (cases mdef) (auto simp: renamed_def opt_list_def)
    ultimately have "within (next_vr st2) K' (remap_operands (renamed mapped) (renamed (opt_list mdef)) inst)"
      using inst slots(2) by (cases inst) (auto simp: within_def)
    moreover have "list_all (within (next_vr st2) K') loads"
      using u(4) d within_mono by (auto simp: list_all_iff)
    moreover have "scratch_below st'" using e by (auto simp: 1(5) clear_if_def scratch_below_def cache_clear_def)
    ultimately show ?thesis using u d e by (simp add: 1(4,5))
  qed
  then show "next_vr st \<le> next_vr st'" "scratch_below st'" "list_all (within (next_vr st') K') chunk" by auto
qed

lemma lower_loop_within:
  assumes "lower_loop en T slot_of i instrs st = (chunks, st')"
    and "list_all (within (next_vr st) K) instrs" "scratch_below st"
    and "\<forall>u k. slot_of u = Some k \<longrightarrow> k < K'" "K \<le> K'"
  shows "next_vr st \<le> next_vr st' \<and> list_all (within (next_vr st') K') (concat chunks)"
  using assms
proof (induction instrs arbitrary: i st chunks)
  case (Cons inst instrs)
  obtain chunk st1 chunks1 where first: "lower_instruction en T slot_of i inst st = (chunk, st1)"
    and rest: "lower_loop en T slot_of (Suc i) instrs st1 = (chunks1, st')" and chunks: "chunks = chunk # chunks1"
    using Cons.prems(1) by (auto split: prod.splits)
  have "within (next_vr st) K inst" using Cons.prems(2) by simp
  note li = lower_instruction_within [OF first this Cons.prems(3-5)]
  have "list_all (within (next_vr st1) K) instrs"
    using Cons.prems(2) li(1) within_mono by (auto simp: list_all_iff)
  from Cons.IH [OF rest this li(2) Cons.prems(4,5)] li show ?case
    using within_mono by (auto simp: chunks list_all_iff)
qed simp

text \<open>The code, the secrecy table and the counters of a round fit together.\<close>

definition allocation_wf :: "(usize \<times> usize) list \<Rightarrow> allocation_state \<Rightarrow> bool" where
  "allocation_wf precolored st \<longleftrightarrow>
     length (as_secrecy st) = as_next_vr st \<and> list_all (within (as_next_vr st) (as_next_slot st)) (as_code st) \<and>
     list_all (\<lambda>(v, _). v < as_next_vr st) precolored \<and> map_of precolored 0 = Some 0 \<and>
     distinct (map fst precolored)"

lemma allocation_wf_round:
  assumes wf: "allocation_wf precolored st"
    and code: "spillable_code (as_code st) (as_next_vr st) (as_secrecy st) vs (as_next_slot st)"
  shows "allocation_wf precolored (spill_round cache vs st)"
proof -
  obtain slot_of k1 where slots: "assign_slots vs (as_next_slot st) = (slot_of, k1)"
    by (cases "assign_slots vs (as_next_slot st)")
  note spec = assign_slots_spec [OF slots]
  let ?en = "cache \<and> as_rounds st = 0"
  let ?T = "if ?en then set (map snd (as_labels st)) else {}"
  let ?st = "\<lparr>next_vr = as_next_vr st, secrecy_map = as_secrecy st, slot_cache = cache_clear\<rparr>"
  obtain chunks st' where loop: "lower_loop ?en ?T slot_of 0 (as_code st) ?st = (chunks, st')"
    by (cases "lower_loop ?en ?T slot_of 0 (as_code st) ?st")
  have low: "lower_spills_into_slots (as_code st) (as_labels st) (as_next_vr st) (as_secrecy st) vs (as_next_slot st) ?en =
      \<lparr>lw_code = concat chunks, lw_labels = map (\<lambda>(l, idx). (l, new_index chunks idx)) (as_labels st),
       lw_next_vr = next_vr st', lw_secrecy = secrecy_map st', lw_next_slot = k1\<rparr>"
    using slots loop by (simp add: lower_spills_into_slots_def)
  have "as_next_vr st \<le> next_vr st' \<and> list_all (within (next_vr st') k1) (concat chunks)"
    using lower_loop_within [OF loop, of "as_next_slot st" k1] wf spec
    by (auto simp: allocation_wf_def scratch_below_def cache_clear_def)
  moreover have "length (secrecy_map st') = next_vr st'"
  proof -
    obtain sts where sts: "sts 0 = ?st" "sts (length (as_code st)) = st'"
      "\<forall>j < length (as_code st). lower_instruction ?en ?T slot_of j (as_code st ! j) (sts j) = (chunks ! j, sts (Suc j))"
      using lower_loop_chunks [OF loop] by auto
    have "lowering_wf (as_next_vr st) (sts 0)" using wf by (simp add: sts(1) lowering_wf_def allocation_wf_def)
    from lower_loop_states [OF sts(3) this] show ?thesis by (auto simp: sts(1,2) lowering_wf_def)
  qed
  ultimately show ?thesis
    using wf by (auto simp: spill_round_def low Let_def allocation_wf_def list_all_iff)
qed

section \<open>The allocation keeps the behaviour\<close>

lemma analysis_only_occurring:
  assumes "analyze_liveness_cfg_dense instrs lbls live_in = Some ivs" "v < length ivs" "ivs ! v \<noteq> None"
  shows "v \<in> set (occurring instrs live_in)"
proof (cases "instrs = []")
  case True
  then show ?thesis using assms by (simp add: analyze_liveness_cfg_dense_def)
next
  case False
  obtain ins outs entry seed where
    "analyze_liveness_cfg_dense instrs lbls live_in =
      (let vrs = occurring instrs live_in in
       if vrs = [] then Some [] else if no_reg \<le> fold max vrs 0 then None
       else Some (map (\<lambda>v. if v \<in> set vrs
                           then Some (interval_of instrs (end_indices instrs (build_blocks instrs lbls) outs) v)
                           else None) [0..<Suc (fold max vrs 0)]))"
    using False by (auto intro: analysis_result [of instrs lbls live_in])
  then show ?thesis
    using assms by (auto simp: Let_def simp del: upt_Suc split: if_splits)
qed

lemma occurring_below:
  assumes "allocation_wf precolored st" "v \<in> set (occurring (as_code st) (map fst precolored))"
  shows "v < as_next_vr st"
proof -
  have "within (as_next_vr st) (as_next_slot st) inst" if "inst \<in> set (as_code st)" for inst
    using assms(1) that by (auto simp: allocation_wf_def list_all_iff)
  then have "v < as_next_vr st" if "inst \<in> set (as_code st)" "v \<in> set (uses inst) \<union> set_option (def_reg inst)" for inst
    using that within_uses within_def_reg by fastforce
  moreover have "v < as_next_vr st" if "v \<in> fst ` set precolored"
    using assms(1) that by (auto simp: allocation_wf_def list_all_iff)
  ultimately show ?thesis
    using assms(2) by (fastforce simp: occurring_def use_regs_uses opt_list_def split: option.splits)
qed

lemma needs_spilling_spillable:
  assumes wf: "allocation_wf precolored st"
    and ana: "analyze_liveness_cfg_dense (as_code st) (as_labels st) (map fst precolored) = Some ivs"
    and scan: "scan_round precolored ivs st = Inl (NeedsSpilling vs)"
  shows "spillable_code (as_code st) (as_next_vr st) (as_secrecy st) vs (as_next_slot st)"
    and "list_all (\<lambda>v. map_of precolored v = None) vs"
proof -
  have "distinct (map fst precolored)" using wf by (simp add: allocation_wf_def)
  from linear_scan_needs_spilling [OF scan [unfolded scan_round_def] this]
  have vs: "list_all (\<lambda>v. v < length ivs \<and> ivs ! v \<noteq> None \<and> map_of precolored v = None) vs"
    by (auto simp: list_all_iff)
  then show "list_all (\<lambda>v. map_of precolored v = None) vs" by (simp add: list_all_iff)
  have "v < as_next_vr st" if "v \<in> set vs" for v
    using occurring_below [OF wf analysis_only_occurring [OF ana]] vs that by (auto simp: list_all_iff)
  moreover have "0 \<notin> set vs"
  proof
    assume "0 \<in> set vs"
    then have "map_of precolored 0 = None" using vs by (auto simp: list_all_iff)
    then show False using wf by (simp add: allocation_wf_def)
  qed
  moreover have "(0, 0) \<in> set precolored" using wf by (auto simp: allocation_wf_def dest: map_of_SomeD)
  then have "0 < as_next_vr st" using wf by (auto simp: allocation_wf_def list_all_iff)
  ultimately show "spillable_code (as_code st) (as_next_vr st) (as_secrecy st) vs (as_next_slot st)"
    using wf by (auto simp: spillable_code_def allocation_wf_def list_all_iff)
qed

text \<open>
  The start of a function: on virtual registers, those that are not precoloured and all slots are
  blank; on physical registers, the precoloured ones hold what theirs do and the others are blank.
\<close>

definition blank_start :: "(usize \<times> usize) list \<Rightarrow> 'v \<Rightarrow> ('v, 'm) machine \<Rightarrow> bool" where
  "blank_start precolored u s \<longleftrightarrow> pc s = 0 \<and> (\<forall>k. slots s k = u) \<and> (\<forall>v. map_of precolored v = None \<longrightarrow> regs s v = u)"

definition physical_start :: "(usize \<times> usize) list \<Rightarrow> 'v \<Rightarrow> ('v, 'm) machine \<Rightarrow> ('v, 'm) machine \<Rightarrow> bool" where
  "physical_start precolored u s s' \<longleftrightarrow> pc s' = pc s \<and> slots s' = slots s \<and> world s' = world s \<and>
     (\<forall>(v, p)\<in>set precolored. regs s' p = regs s v) \<and> (\<forall>p. p \<notin> snd ` set precolored \<longrightarrow> regs s' p = u)"

definition virtual_step :: "('v, 'm) effect \<Rightarrow> allocation_state \<Rightarrow> ('v, 'm) machine \<Rightarrow> ('v, 'm) outcome" where
  "virtual_step eff st = machine_step eff (virtual_bank (as_secrecy st)) (as_code st) (as_labels st)"

lemma spill_round_stops:
  assumes code: "spillable_code (as_code st) (as_next_vr st) (as_secrecy st) vs (as_next_slot st)"
    and "list_all (\<lambda>v. map_of precolored v = None) vs" "blank_start precolored u s"
  shows "stops_with (virtual_step eff (spill_round cache vs st)) s r \<longleftrightarrow> stops_with (virtual_step eff st) s r"
proof -
  have "fresh_start vs s s" using assms(2,3) by (auto simp: fresh_start_def blank_start_def list_all_iff)
  note rel = lower_spills_rel [OF code this refl, of "as_labels st" "cache \<and> as_rounds st = 0"]
  show ?thesis
    using spill.same_stops [OF rel, of eff r] by (simp add: config_stops virtual_step_def spill_round_def Let_def)
qed

lemma lower_spills_extends:
  assumes "spillable_code instrs next secrecy vs k0"
  shows "extends secrecy (lw_secrecy (lower_spills_into_slots instrs lbls next secrecy vs k0 en))"
proof -
  obtain slot_of k1 where slots: "assign_slots vs k0 = (slot_of, k1)" by (cases "assign_slots vs k0")
  let ?T = "if en then set (map snd lbls) else {}"
  let ?st = "\<lparr>next_vr = next, secrecy_map = secrecy, slot_cache = cache_clear\<rparr>"
  obtain chunks st' where loop: "lower_loop en ?T slot_of 0 instrs ?st = (chunks, st')"
    by (cases "lower_loop en ?T slot_of 0 instrs ?st")
  obtain sts where sts: "sts 0 = ?st" "sts (length instrs) = st'"
    "\<forall>j < length instrs. lower_instruction en ?T slot_of j (instrs ! j) (sts j) = (chunks ! j, sts (Suc j))"
    using lower_loop_chunks [OF loop] by auto
  have "lowering_wf next (sts 0)" using assms by (simp add: sts(1) lowering_wf_def spillable_code_def)
  from lower_loop_states [OF sts(3) this] have "extends (secrecy_map (sts 0)) (secrecy_map (sts (length instrs)))"
    using sts(1) by auto
  then show ?thesis by (simp add: lower_spills_into_slots_def slots loop sts(1,2))
qed

lemma spill_round_banks:
  assumes "spillable_code (as_code st) (as_next_vr st) (as_secrecy st) vs (as_next_slot st)" "v < as_next_vr st"
  shows "virtual_bank (as_secrecy (spill_round cache vs st)) v = virtual_bank (as_secrecy st) v"
proof -
  have "length (as_secrecy st) = as_next_vr st" using assms(1) by (simp add: spillable_code_def)
  moreover have "extends (as_secrecy st) (as_secrecy (spill_round cache vs st))"
    using lower_spills_extends [OF assms(1)] by (simp add: spill_round_def Let_def)
  ultimately show ?thesis using assms(2) by (simp add: extends_bank)
qed

lemma allocation_loop_correct:
  assumes "allocation_loop n precolored cache name st = Inr (al, st')"
    and "allocation_wf precolored st" "precolored_ok kc (as_secrecy st) precolored"
    and "defined_before_live (as_code st) (as_labels st) precolored" "blank_start precolored u s"
  shows "(stops_with (virtual_step eff st') s r \<longleftrightarrow> stops_with (virtual_step eff st) s r) \<and>
    precolored_ok kc (as_secrecy st') precolored \<and> defined_before_live (as_code st') (as_labels st') precolored \<and>
    (\<exists>ivs. analyze_liveness_cfg_dense (as_code st') (as_labels st') (map fst precolored) = Some ivs \<and>
       scan_round precolored ivs st' = Inr al)"
  using assms
proof (induction n arbitrary: st)
  case (Suc n)
  obtain ivs where ana: "analyze_liveness_cfg_dense (as_code st) (as_labels st) (map fst precolored) = Some ivs"
    using Suc.prems(1) by (auto split: option.splits)
  show ?case
  proof (cases "scan_round precolored ivs st")
    case (Inr al')
    then show ?thesis using Suc.prems ana by auto
  next
    case (Inl err)
    then obtain vs where vs: "scan_round precolored ivs st = Inl (NeedsSpilling vs)"
      and rest: "allocation_loop n precolored cache name (spill_round cache vs st) = Inr (al, st')"
      using Suc.prems(1) ana by (cases err) auto
    note code = needs_spilling_spillable [OF Suc.prems(2) ana vs]
    let ?st = "spill_round cache vs st"
    have wf: "allocation_wf precolored ?st" by (rule allocation_wf_round [OF Suc.prems(2) code(1)])
    have "virtual_bank (as_secrecy ?st) v = virtual_bank (as_secrecy st) v" if "(v, p) \<in> set precolored" for v p
      using Suc.prems(2) that by (intro spill_round_banks [OF code(1)]) (auto simp: allocation_wf_def list_all_iff)
    then have "precolored_ok kc (as_secrecy ?st) precolored"
      using Suc.prems(3) unfolding precolored_ok_def list_all_iff by fastforce
    moreover have "defined_before_live (as_code ?st) (as_labels ?st) precolored"
      using lower_spills_defined_before_live [OF code(1) Suc.prems(4) refl] by (simp add: spill_round_def Let_def)
    ultimately show ?thesis
      using Suc.IH [OF rest wf _ _ Suc.prems(5)] spill_round_stops [OF code Suc.prems(5)] by blast
  qed
qed simp

text \<open>Step for step, the rewritten code is the code on virtual registers.\<close>

lemma rewritten_stops:
  assumes ana: "analyze_liveness_cfg_dense instrs lbls (map fst precolored) = Some ivs"
    and scan: "linear_scan_partition ivs kc ks reserve secrecy precolored us = Inr al"
    and rew: "rewrite_instructions_dense instrs al = Some instrs'"
    and pre: "precolored_ok kc secrecy precolored" and first: "defined_before_live instrs lbls precolored"
    and start: "blank_start precolored u s" "physical_start precolored u s s'"
  shows "stops_with (machine_step eff (physical_bank kc) instrs' lbls) s' r \<longleftrightarrow>
    stops_with (machine_step eff (virtual_bank secrecy) instrs lbls) s r"
proof -
  have same: "regs s' (physical al v) = regs s v" if "live_before instrs lbls (pc s) v \<or> v = 0" for v
  proof (cases "map_of precolored v")
    case (Some p)
    then show ?thesis
      using start(2) physical_precolored [OF scan pre Some] map_of_SomeD [OF Some] by (auto simp: physical_start_def)
  next
    case None
    then have live: "live_before instrs lbls 0 v"
      using that pre start(1) by (auto simp: precolored_ok_def blank_start_def)
    then have "0 < length instrs" by (cases rule: live_before.cases) auto
    then obtain iv where "v < length ivs" "ivs ! v = Some iv"
      using analysis_occurring [OF ana live_before_occurring [OF live]] by blast
    then have "physical al v \<notin> snd ` set precolored" by (rule physical_scanned(2) [OF scan pre _ _ None])
    then show ?thesis using start None by (simp add: physical_start_def blank_start_def)
  qed
  then have "agree instrs lbls (physical al) s s'" using start by (simp add: agree_def physical_start_def)
  note runs = machine_run_agree [OF linear_scan_valid [OF ana scan pre first] this, of eff]
  show ?thesis
    unfolding stops_with_def
  proof (intro iff_exI)
    fix n
    show "steps (machine_step eff (physical_bank kc) instrs' lbls) n s' = Inr r \<longleftrightarrow>
        steps (machine_step eff (virtual_bank secrecy) instrs lbls) n s = Inr r"
      using runs [of n] by (auto simp: rewritten_renaming [OF scan rew pre] machine_run_def same_outcome_def split: sum.splits)
  qed
qed

lemma eliminate_self_movs_stops:
  assumes "moves_copy eff" "pc s = 0" "eliminate_self_movs instrs lbls = (code, lbls')"
  shows "stops_with (machine_step eff cls code lbls') s r \<longleftrightarrow> stops_with (machine_step eff cls instrs lbls) s r"
proof -
  have "self_mov_sim eff (code, lbls', cls, s) (instrs, lbls, cls, s)"
    using assms by (auto simp: self_mov_sim_def eliminate_self_movs_def kept_chunks_def Let_def new_index_eq)
  from self_movs.same_stops [OF this, of r] show ?thesis by (simp add: config_stops)
qed

text \<open>
  A function body as the allocation expects it: registers within the table, the precoloured ones in
  their banks, and no register live before its first definition in the layout. The code generator does
  not ensure the last: a comment in it says that a use may stand before the definition of its register
  and be reached by a jump back. Such a body is outside this condition.
\<close>

definition body_ok ::
  "instruction list \<Rightarrow> (string \<times> usize) list \<Rightarrow> usize \<Rightarrow> bool list \<Rightarrow> (usize \<times> usize) list \<Rightarrow> bool" where
  "body_ok instrs lbls next secrecy precolored \<longleftrightarrow>
     length secrecy = next \<and> list_all (within next 0) instrs \<and> list_all (\<lambda>(v, _). v < next) precolored \<and>
     precolored_ok DEFAULT_SECRET_REGISTER_START secrecy precolored \<and> defined_before_live instrs lbls precolored"

text \<open>C1: The allocation of a function body is correct, for a body in which no register is live before
  its first definition in the layout: when it succeeds, the code on physical registers, started with the
  precoloured registers in place and everything else blank, returns, fails or runs off the end exactly
  when the code on virtual registers does, with the same result and the same rest of the state. The one
  exception are runs in which a spill instruction of the new code meets a register that awaits a share:
  these stop with an error, as the virtual machine does.\<close>

theorem assigned_registers_correct:
  assumes code: "assign_registers instrs lbls next secrecy precolored name opt = Inr (code, lbls')"
    and body: "body_ok instrs lbls next secrecy (pin_result_register precolored)"
    and start: "blank_start (pin_result_register precolored) u s"
      "physical_start (pin_result_register precolored) u s s'"
    and moves: "opt \<longrightarrow> moves_copy eff"
  shows "vm_stops_with awaiting eff (physical_bank DEFAULT_SECRET_REGISTER_START) code lbls' s' r \<longleftrightarrow>
    (if \<exists>n. spill_fails awaiting eff (physical_bank DEFAULT_SECRET_REGISTER_START) code lbls' n s' then r = Failed
     else stops_with (machine_step eff (virtual_bank secrecy) instrs lbls) s r)"
proof -
  let ?pre = "pin_result_register precolored"
  let ?st = "\<lparr>as_code = instrs, as_labels = lbls, as_next_vr = next, as_secrecy = secrecy, as_next_slot = 0,
        as_unspillable = None, as_rounds = 0\<rparr>"
  obtain al st instrs' where loop: "allocation_loop ALLOCATION_ROUNDS ?pre opt name ?st = Inr (al, st)"
    and rew: "rewrite_instructions_dense (as_code st) al = Some instrs'"
    and out: "(code, lbls') = (if opt then eliminate_self_movs instrs' (as_labels st) else (instrs', as_labels st))"
    using code by (auto simp: assign_registers_def allocate_registers_with_object_spills_def rbind_def
        split: sum.splits option.splits prod.splits)
  have "allocation_wf ?pre ?st" using body by (auto simp: allocation_wf_def body_ok_def precolored_ok_def)
  note rounds = allocation_loop_correct [OF loop this _ _ start(1), of DEFAULT_SECRET_REGISTER_START eff r]
  obtain ivs where ana: "analyze_liveness_cfg_dense (as_code st) (as_labels st) (map fst ?pre) = Some ivs"
    and scan: "scan_round ?pre ivs st = Inr al"
    and pre: "precolored_ok DEFAULT_SECRET_REGISTER_START (as_secrecy st) ?pre"
    and first: "defined_before_live (as_code st) (as_labels st) ?pre"
    and same: "stops_with (virtual_step eff st) s r \<longleftrightarrow> stops_with (virtual_step eff ?st) s r"
    using rounds body by (auto simp: body_ok_def)
  have "stops_with (machine_step eff (physical_bank DEFAULT_SECRET_REGISTER_START) instrs' (as_labels st)) s' r \<longleftrightarrow>
      stops_with (virtual_step eff st) s r"
    unfolding virtual_step_def by (rule rewritten_stops [OF ana scan [unfolded scan_round_def] rew pre first start])
  moreover have "stops_with (machine_step eff (physical_bank DEFAULT_SECRET_REGISTER_START) code lbls') s' r \<longleftrightarrow>
      stops_with (machine_step eff (physical_bank DEFAULT_SECRET_REGISTER_START) instrs' (as_labels st)) s' r"
    using out moves start eliminate_self_movs_stops [of eff s' instrs' "as_labels st" code lbls']
    by (auto simp: physical_start_def blank_start_def split: if_splits)
  ultimately show ?thesis using same by (simp add: vm_stops_cases virtual_step_def)
qed

lemma sample_moves_copy: "moves_copy sample_effect"
  by (auto simp: moves_copy_def sample_effect_def)

theorem assigned_registers_correct_witness:
  "assign_registers sample_body [(''l'', 1)] 4 [False, False, False, False] [] ''f'' True = Inr (sample_code, [(''l'', 1)]) \<and>
   stops_with (machine_step sample_effect (virtual_bank [False, False, False, False]) sample_body [(''l'', 1)])
     sample_start (Returned 5 ())"
proof -
  have code: "assign_registers sample_body [(''l'', 1)] 4 [False, False, False, False] [] ''f'' True =
      Inr (sample_code, [(''l'', 1)])" by code_simp
  have pin: "pin_result_register [] = [(0, 0)]" by (simp add: pin_result_register_def)
  have "list_all (within 4 0) sample_body" by code_simp
  then have body: "body_ok sample_body [(''l'', 1)] 4 [False, False, False, False] (pin_result_register [])"
    using sample_precolored sample_defined by (simp add: body_ok_def pin DEFAULT_SECRET_REGISTER_START_def)
  have start: "blank_start (pin_result_register []) 0 sample_start"
    "physical_start (pin_result_register []) 0 sample_start sample_start"
    by (simp_all add: blank_start_def physical_start_def sample_start_def)
  have "stops_within 6 (machine_step sample_effect (physical_bank DEFAULT_SECRET_REGISTER_START) sample_code [(''l'', 1)])
      sample_start (Returned 5 ())" by code_simp
  then have "stops_with (machine_step sample_effect (physical_bank DEFAULT_SECRET_REGISTER_START) sample_code [(''l'', 1)])
      sample_start (Returned 5 ())" by (rule stops_within_stops)
  with assigned_registers_correct [OF code body start, where eff = sample_effect and awaiting = "\<lambda>_ _. False" and r = "Returned 5 ()"] code show ?thesis
    by (simp add: sample_moves_copy vm_stops_cases never_awaiting)
qed

section \<open>Code outside the layout order\<close>

text \<open>
  The interval of a register starts at its first definition in the layout.  Where a jump back
  reaches a use that stands before it, the interval does not cover the path to the use.
\<close>

definition early_use_body :: "instruction list" where
  "early_use_body =
     [I_LDI 1 (Bool False), I_JMP ''b'', I_LDI 2 (Bool False), I_PUSHARG 2, I_RET 3, I_LDI 3 (Bool True), I_JMP ''a'']"

definition constants_effect :: "(bool, unit) effect" where
  "constants_effect inst args b m =
     Some (case inst of I_LDI _ v \<Rightarrow> v = Bool True | _ \<Rightarrow> (case args of [] \<Rightarrow> False | (_, x) # _ \<Rightarrow> x), m, False)"

definition cleared_start :: "(bool, unit) machine" where
  "cleared_start = \<lparr>pc = 0, regs = (\<lambda>_. False), slots = (\<lambda>_. False), world = ()\<rparr>"

text \<open>The layout order is needed: for a body whose register 3 is read before its first definition
  in the layout, after a jump back to the read, registers 2 and 3 get one physical register, and the
  allocated code returns the value of register 2.\<close>

theorem early_use_is_clobbered:
  "\<exists>code. assign_registers early_use_body [(''a'', 2), (''b'', 5)] 4 [False, False, False, False] [] ''f'' False =
       Inr (code, [(''a'', 2), (''b'', 5)]) \<and>
     stops_with (machine_step constants_effect (virtual_bank [False, False, False, False]) early_use_body [(''a'', 2), (''b'', 5)])
       cleared_start (Returned True ()) \<and>
     stops_with (machine_step constants_effect (physical_bank DEFAULT_SECRET_REGISTER_START) code [(''a'', 2), (''b'', 5)])
       cleared_start (Returned False ())"
proof (intro exI conjI stops_within_stops)
  let ?code = "[I_LDI 1 (Bool False), I_JMP ''b'', I_LDI 1 (Bool False), I_PUSHARG 1, I_RET 1, I_LDI 1 (Bool True), I_JMP ''a'']"
  show "assign_registers early_use_body [(''a'', 2), (''b'', 5)] 4 [False, False, False, False] [] ''f'' False =
       Inr (?code, [(''a'', 2), (''b'', 5)])" by code_simp
  show "stops_within 7 (machine_step constants_effect (virtual_bank [False, False, False, False]) early_use_body
      [(''a'', 2), (''b'', 5)]) cleared_start (Returned True ())" by code_simp
  show "stops_within 7 (machine_step constants_effect (physical_bank DEFAULT_SECRET_REGISTER_START) ?code
      [(''a'', 2), (''b'', 5)]) cleared_start (Returned False ())" by code_simp
qed

end
