(* ===== verification/Value_Codec.thy ===== *)
theory Value_Codec
  imports Table_Memory Byte_Codec
begin

text \<open>
  The persistent form of values (\<open>stoffel-vm/src/storage/value_codec.rs\<close>): a value with the
  objects and arrays it refers to becomes a byte string and is rebuilt from it in another store.
  The digest (\<open>blake3::hash\<close>) is a parameter, of which the round trip uses that it gives 32 bytes.
  The encoder stops on cycles because it tracks the tables it is inside of; the decoder stops
  because every value starts with a tag byte.
\<close>

section \<open>Contexts and errors\<close>

record persistent_share_context =
  protocol_name :: string
  curve :: string
  psc_field :: string
  node_identity :: "byte list"
  n_parties :: usize
  threshold :: usize
  key_id_digest :: "byte list"

record persistent_value_context =
  pvc_share :: "persistent_share_context option"

definition persistent_share_context_new ::
  "(byte list \<Rightarrow> byte list) \<Rightarrow> string \<Rightarrow> string \<Rightarrow> string \<Rightarrow> byte list \<Rightarrow> usize \<Rightarrow> usize \<Rightarrow> byte list \<Rightarrow> persistent_share_context" where
  "persistent_share_context_new D pn cv fd ident np th key =
     \<lparr>protocol_name = pn, curve = cv, psc_field = fd, node_identity = ident, n_parties = np, threshold = th,
      key_id_digest = D key\<rparr>"

definition with_share_context :: "persistent_share_context \<Rightarrow> persistent_value_context" where
  "with_share_context c = \<lparr>pvc_share = Some c\<rparr>"

text \<open>The messages of \<open>InvalidData\<close> and of a context mismatch as data. \<open>LengthOverflow\<close> arises
  only where \<open>usize\<close> and \<open>u64\<close> differ in width.\<close>

datatype invalid_reason =
    UnknownFormat
  | InvalidBooleanByte byte
  | UnknownTag byte
  | UnsupportedEnvelopeVersion byte
  | InvalidShareTypeBits share_type_error
  | UnknownShareType byte
  | UnknownShareData byte
  | NotUtf8
  | InvalidDigestMarker byte
  | CursorOverflow usize
  | InputEnded usize usize
  | MissingCommitment

datatype context_mismatch =
    MismatchedText string string
  | MismatchedCount usize usize
  | MismatchedIdentity "byte list" "byte list"

datatype (plugins only: code) persistent_value_error =
    UnsupportedValue string
  | MissingShareContext
  | ShareContextMismatch string context_mismatch
  | ShareDigestMismatch string
  | CyclicValue string usize
  | LimitExceeded string usize usize
  | LengthOverflow string u64
  | InvalidValueData invalid_reason
  | TableMemoryFailed string table_memory_error
  | TrailingBytes

definition VALUE_MAGIC :: "byte list" where "VALUE_MAGIC = str_bytes ''STFLVAL1''"
definition SHARE_ENVELOPE_VERSION :: byte where "SHARE_ENVELOPE_VERSION = 3"
definition MAX_PERSISTENT_VALUE_BYTES :: usize where "MAX_PERSISTENT_VALUE_BYTES = 16 * 1024 * 1024"
definition MAX_PERSISTENT_TABLE_ENTRIES :: usize where "MAX_PERSISTENT_TABLE_ENTRIES = 65536"
definition MAX_PERSISTENT_COMMITMENTS :: usize where "MAX_PERSISTENT_COMMITMENTS = 4096"

section \<open>The entries of tables\<close>

text \<open>
  The fields of an object and the extra fields of an array are hash maps in the source, iterated in an
  order of their own; here they are iterated in the order of insertion, which stands for any one order.
  Nothing that is claimed of the codec compares the bytes of two tables with the same fields.
\<close>

definition array_entries :: "arr \<Rightarrow> usize \<Rightarrow> (val \<times> val) list" where
  "array_entries a limit =
     (let entries = map (\<lambda>i. (I64 (of_nat i), or_unit (array_get a (I64 (of_nat i)))))
                      (takeWhile (\<lambda>i. i \<le> i64_max) [0..<min (length_hint a) limit])
      in if limit \<le> length entries then entries
         else entries @ take (limit - length entries)
                (filter (\<lambda>(k, _). \<not> is_length_index_key k (length_hint a)) (extra_fields a)))"

definition object_ref_entries :: "object_store \<Rightarrow> usize \<Rightarrow> usize \<Rightarrow> table_memory_error + (val \<times> val) list" where
  "object_ref_entries m r limit = map_ok (take limit) (ok_or (ObjectNotFound r) (hm_get (=) (objects m) r))"

definition array_ref_entries :: "object_store \<Rightarrow> usize \<Rightarrow> usize \<Rightarrow> table_memory_error + (val \<times> val) list" where
  "array_ref_entries m r limit =
     map_ok (\<lambda>a. array_entries a limit) (ok_or (ArrayNotFound r) (hm_get (=) (arrays m) r))"

section \<open>Writing\<close>

text \<open>Lengths are written as \<open>u64\<close>; every \<open>usize\<close> fits.\<close>

definition write_len :: "usize \<Rightarrow> byte list" where
  "write_len n = to_le (of_nat n :: u64)"

definition write_bytes :: "byte list \<Rightarrow> byte list" where
  "write_bytes bs = write_len (length bs) @ bs"

definition write_string :: "string \<Rightarrow> byte list" where
  "write_string s = write_bytes (str_bytes s)"

fun write_optional_digest :: "byte list option \<Rightarrow> byte list" where
  "write_optional_digest (Some d) = 1 # d"
| "write_optional_digest None = [0]"

fun share_commitment_digest ::
  "(byte list \<Rightarrow> byte list) \<Rightarrow> share_data \<Rightarrow> persistent_value_error + byte list option" where
  "share_commitment_digest D (Opaque _) = Inr None"
| "share_commitment_digest D (Feldman _ []) = Inl (InvalidValueData MissingCommitment)"
| "share_commitment_digest D (Feldman _ (c # _)) = Inr (Some (D c))"

fun write_share_type :: "share_type \<Rightarrow> byte list" where
  "write_share_type (SecretInt n) = 0 # write_len n"
| "write_share_type (SecretUInt n) = 2 # write_len n"
| "write_share_type (SecretFixedPoint p) = 1 # write_len (total_bits p) @ write_len (fractional_bits p)"

definition write_share_envelope ::
  "(byte list \<Rightarrow> byte list) \<Rightarrow> persistent_share_context option \<Rightarrow> share_data \<Rightarrow> persistent_value_error + byte list" where
  "write_share_envelope D ctx d =
     (case ctx of
        None \<Rightarrow> Inl MissingShareContext
      | Some c \<Rightarrow>
          map_ok (\<lambda>cd. SHARE_ENVELOPE_VERSION # write_string (protocol_name c) @ write_string (curve c) @
                    write_string (psc_field c) @ node_identity c @ write_len (n_parties c) @ write_len (threshold c) @
                    key_id_digest c @ D (as_bytes d) @ write_optional_digest cd)
            (share_commitment_digest D d))"

fun write_share_data :: "share_data \<Rightarrow> byte list" where
  "write_share_data (Opaque bs) = 0 # write_bytes bs"
| "write_share_data (Feldman d cs) = 1 # write_bytes d @ write_len (length cs) @ concat (map write_bytes cs)"

fun write_scalar ::
  "(byte list \<Rightarrow> byte list) \<Rightarrow> persistent_share_context option \<Rightarrow> val \<Rightarrow> persistent_value_error + byte list" where
  "write_scalar D ctx Unit = Inr [0]"
| "write_scalar D ctx (I64 i) = Inr (1 # to_le i)"
| "write_scalar D ctx (I32 i) = Inr (2 # to_le i)"
| "write_scalar D ctx (I16 i) = Inr (3 # to_le i)"
| "write_scalar D ctx (I8 i) = Inr [4, i]"
| "write_scalar D ctx (U8 i) = Inr [5, i]"
| "write_scalar D ctx (U16 i) = Inr (6 # to_le i)"
| "write_scalar D ctx (U32 i) = Inr (7 # to_le i)"
| "write_scalar D ctx (U64 i) = Inr (8 # to_le i)"
| "write_scalar D ctx (Float f) = Inr (9 # to_le f)"
| "write_scalar D ctx (Bool b) = Inr [10, if b then 1 else 0]"
| "write_scalar D ctx (String s) = Inr (11 # write_string s)"
| "write_scalar D ctx (Share ty d) =
     map_ok (\<lambda>env. 12 # env @ write_share_type ty @ write_share_data d) (write_share_envelope D ctx d)"
| "write_scalar D ctx v = Inl (UnsupportedValue (type_name v))"

text \<open>The tables a store has, which bound the nesting of the encoder.\<close>

definition store_tables :: "object_store \<Rightarrow> table_ref set" where
  "store_tables m = ObjectTable ` fst ` set (objects m) \<union> ArrayTable ` fst ` set (arrays m)"

lemma finite_store_tables [simp]: "finite (store_tables m)"
  by (simp add: store_tables_def)

lemma store_tables_get:
  "hm_get (=) (objects m) r = Some ob \<Longrightarrow> ObjectTable r \<in> store_tables m"
  "hm_get (=) (arrays m) r = Some a \<Longrightarrow> ArrayTable r \<in> store_tables m"
  using hm_get_Some_mem [of "(=)" "objects m" r ob] hm_get_Some_mem [of "(=)" "arrays m" r a]
  by (force simp: store_tables_def)+

lemma entries_in_store:
  "object_ref_entries m r n = Inr es \<Longrightarrow> ObjectTable r \<in> store_tables m"
  "array_ref_entries m r n = Inr es \<Longrightarrow> ArrayTable r \<in> store_tables m"
  by (auto simp: object_ref_entries_def array_ref_entries_def map_ok_Inr_iff ok_or_Inr_iff intro: store_tables_get)

lemma fewer_tables: "t \<in> store_tables m \<Longrightarrow> t \<notin> act \<Longrightarrow> card (store_tables m - insert t act) < card (store_tables m - act)"
  by (intro psubset_card_mono) auto

text \<open>
  \<open>Encoder::write_value\<close>: the bytes appended to the output; \<open>act\<close> are the tables it is inside of.
\<close>

function (sequential) write_value ::
    "(byte list \<Rightarrow> byte list) \<Rightarrow> persistent_share_context option \<Rightarrow> object_store \<Rightarrow> table_ref set \<Rightarrow> val \<Rightarrow>
     persistent_value_error + byte list"
  and write_entries ::
    "(byte list \<Rightarrow> byte list) \<Rightarrow> persistent_share_context option \<Rightarrow> object_store \<Rightarrow> table_ref set \<Rightarrow> (val \<times> val) list \<Rightarrow>
     persistent_value_error + byte list" where
  "write_value D ctx m act (Object r) =
     (if ObjectTable r \<in> act then Inl (CyclicValue ''object'' r)
      else case object_ref_entries m r usize_max of
        Inl e \<Rightarrow> Inl (TableMemoryFailed ''read object entries'' e)
      | Inr es \<Rightarrow> map_ok (\<lambda>bs. 13 # write_len (length es) @ bs) (write_entries D ctx m (insert (ObjectTable r) act) es))"
| "write_value D ctx m act (Array r) =
     (if ArrayTable r \<in> act then Inl (CyclicValue ''array'' r)
      else case array_ref_len m r of
        Inl e \<Rightarrow> Inl (TableMemoryFailed ''read array length'' e)
      | Inr len \<Rightarrow>
          (case array_ref_entries m r usize_max of
             Inl e \<Rightarrow> Inl (TableMemoryFailed ''read array entries'' e)
           | Inr es \<Rightarrow> map_ok (\<lambda>bs. 14 # write_len len @ write_len (length es) @ bs)
                        (write_entries D ctx m (insert (ArrayTable r) act) es)))"
| "write_value D ctx m act v = write_scalar D ctx v"
| "write_entries D ctx m act [] = Inr []"
| "write_entries D ctx m act ((k, v) # es) =
     (case write_value D ctx m act k of
        Inl e \<Rightarrow> Inl e
      | Inr a \<Rightarrow>
          (case write_value D ctx m act v of
             Inl e \<Rightarrow> Inl e
           | Inr b \<Rightarrow> map_ok (\<lambda>c. a @ b @ c) (write_entries D ctx m act es)))"
  by pat_completeness auto

termination
proof (relation "measures
    [\<lambda>x. case x of Inl (_, _, m, act, _) \<Rightarrow> card (store_tables m - act) | Inr (_, _, m, act, _) \<Rightarrow> card (store_tables m - act),
     \<lambda>x. case x of Inl _ \<Rightarrow> 0 | Inr (_, _, _, _, es) \<Rightarrow> Suc (length es)]", goal_cases)
  case 1
  show ?case by simp
qed (simp_all add: fewer_tables entries_in_store del: card_Diff_insert)

definition encode_value_with_context ::
  "(byte list \<Rightarrow> byte list) \<Rightarrow> val \<Rightarrow> object_store \<Rightarrow> persistent_value_context option \<Rightarrow> persistent_value_error + byte list" where
  "encode_value_with_context D v m ctx =
     map_ok (\<lambda>bs. VALUE_MAGIC @ bs) (write_value D (Option.bind ctx pvc_share) m {} v)"

definition encode_value :: "(byte list \<Rightarrow> byte list) \<Rightarrow> val \<Rightarrow> object_store \<Rightarrow> persistent_value_error + byte list" where
  "encode_value D v m = encode_value_with_context D v m None"

section \<open>Reading\<close>

record value_reader =
  unread :: "byte list"
  cursor :: usize
  memory :: object_store

type_synonym 'a vreader = "(value_reader, persistent_value_error, 'a) meth"

definition take_bytes :: "usize \<Rightarrow> byte list vreader" where
  "take_bytes len s =
     (case checked_add_usize (cursor s) len of
        None \<Rightarrow> (Inl (InvalidValueData (CursorOverflow len)), s)
      | Some end_pos \<Rightarrow>
          if len \<le> length (unread s)
          then (Inr (take len (unread s)), s\<lparr>unread := drop len (unread s), cursor := end_pos\<rparr>)
          else (Inl (InvalidValueData (InputEnded len (cursor s))), s))"

definition take_u8 :: "byte vreader" where
  "take_u8 = mbind (take_bytes 1) (\<lambda>bs. mret (bs ! 0))"

definition take_word :: "'a::len word vreader" where
  "take_word = mbind (take_bytes (LENGTH('a) div 8)) (\<lambda>bs. mret (from_le bs))"

definition read_len :: "usize vreader" where
  "read_len = mbind (take_word :: u64 vreader) (\<lambda>w. mret (unat w))"

definition read_len_bounded :: "string \<Rightarrow> usize \<Rightarrow> usize vreader" where
  "read_len_bounded label limit =
     mbind read_len (\<lambda>len. if limit < len then merr (LimitExceeded label len limit) else mret len)"

definition read_bytes :: "byte list vreader" where
  "read_bytes = mbind (read_len_bounded ''byte'' MAX_PERSISTENT_VALUE_BYTES) take_bytes"

definition read_string :: "string vreader" where
  "read_string = mbind read_bytes (\<lambda>bs.
     if utf8_valid bs then mret (bytes_str bs) else merr (InvalidValueData NotUtf8))"

definition read_digest :: "byte list vreader" where
  "read_digest = take_bytes 32"

definition read_optional_digest :: "byte list option vreader" where
  "read_optional_digest = mbind take_u8 (\<lambda>marker.
     if marker = 0 then mret None
     else if marker = 1 then mbind read_digest (\<lambda>d. mret (Some d))
     else merr (InvalidValueData (InvalidDigestMarker marker)))"

definition read_share_type :: "share_type vreader" where
  "read_share_type = mbind take_u8 (\<lambda>tag.
     if tag = 0 then mbind read_len (\<lambda>n. mread (\<lambda>_. map_err (InvalidValueData \<circ> InvalidShareTypeBits) (try_secret_int n)))
     else if tag = 2 then mbind read_len (\<lambda>n. mread (\<lambda>_. map_err (InvalidValueData \<circ> InvalidShareTypeBits) (try_secret_uint n)))
     else if tag = 1 then mbind read_len (\<lambda>t. mbind read_len (\<lambda>f.
       mread (\<lambda>_. map_err (InvalidValueData \<circ> InvalidShareTypeBits) (try_secret_fixed_point_from_bits t f))))
     else merr (InvalidValueData (UnknownShareType tag)))"

primrec repeat_read :: "nat \<Rightarrow> 'a vreader \<Rightarrow> 'a list vreader" where
  "repeat_read 0 r = mret []"
| "repeat_read (Suc n) r = mbind r (\<lambda>x. mbind (repeat_read n r) (\<lambda>xs. mret (x # xs)))"

definition read_share_data :: "share_data vreader" where
  "read_share_data = mbind take_u8 (\<lambda>tag.
     if tag = 0 then mbind read_bytes (\<lambda>bs. mret (Opaque bs))
     else if tag = 1 then mbind read_bytes (\<lambda>d.
       mbind (read_len_bounded ''Feldman commitment'' MAX_PERSISTENT_COMMITMENTS) (\<lambda>n.
       mbind (repeat_read n read_bytes) (\<lambda>cs. mret (Feldman d cs))))
     else merr (InvalidValueData (UnknownShareData tag)))"

record share_envelope =
  env_protocol :: string
  env_curve :: string
  env_field :: string
  env_identity :: "byte list"
  env_parties :: usize
  env_threshold :: usize
  env_key_digest :: "byte list"
  env_payload_digest :: "byte list"
  env_commitment_digest :: "byte list option"

definition read_share_envelope :: "share_envelope vreader" where
  "read_share_envelope = mbind take_u8 (\<lambda>version.
     if version \<noteq> SHARE_ENVELOPE_VERSION then merr (InvalidValueData (UnsupportedEnvelopeVersion version))
     else mbind read_string (\<lambda>pn. mbind read_string (\<lambda>cv. mbind read_string (\<lambda>fd.
          mbind read_digest (\<lambda>ident. mbind read_len (\<lambda>np. mbind read_len (\<lambda>th.
          mbind read_digest (\<lambda>key. mbind read_digest (\<lambda>payload. mbind read_optional_digest (\<lambda>commitment.
          mret \<lparr>env_protocol = pn, env_curve = cv, env_field = fd, env_identity = ident, env_parties = np,
                env_threshold = th, env_key_digest = key, env_payload_digest = payload,
                env_commitment_digest = commitment\<rparr>))))))))))"

definition require :: "bool \<Rightarrow> string \<Rightarrow> context_mismatch \<Rightarrow> persistent_value_error + unit" where
  "require same field why = (if same then Inr () else Inl (ShareContextMismatch field why))"

definition validate_envelope ::
  "(byte list \<Rightarrow> byte list) \<Rightarrow> persistent_share_context option \<Rightarrow> share_data \<Rightarrow> share_envelope \<Rightarrow>
   persistent_value_error + unit" where
  "validate_envelope D ctx d e =
     (case ctx of
        None \<Rightarrow> Inl MissingShareContext
      | Some c \<Rightarrow>
          rbind (require (protocol_name c = env_protocol e) ''backend'' (MismatchedText (protocol_name c) (env_protocol e))) (\<lambda>_.
          rbind (require (curve c = env_curve e) ''curve'' (MismatchedText (curve c) (env_curve e))) (\<lambda>_.
          rbind (require (psc_field c = env_field e) ''field'' (MismatchedText (psc_field c) (env_field e))) (\<lambda>_.
          rbind (require (node_identity c = env_identity e) ''node_identity'' (MismatchedIdentity (node_identity c) (env_identity e))) (\<lambda>_.
          rbind (require (n_parties c = env_parties e) ''n_parties'' (MismatchedCount (n_parties c) (env_parties e))) (\<lambda>_.
          rbind (require (threshold c = env_threshold e) ''threshold'' (MismatchedCount (threshold c) (env_threshold e))) (\<lambda>_.
          if env_key_digest e \<noteq> key_id_digest c then Inl (ShareDigestMismatch ''key_id'')
          else if env_payload_digest e \<noteq> D (as_bytes d) then Inl (ShareDigestMismatch ''share_payload'')
          else rbind (share_commitment_digest D d) (\<lambda>cd.
            if env_commitment_digest e \<noteq> cd then Inl (ShareDigestMismatch ''commitment'') else Inr ()))))))))"

text \<open>An operation of the table memory, with its error wrapped.\<close>

definition on_memory :: "string \<Rightarrow> (object_store, table_memory_error, 'a) meth \<Rightarrow> 'a vreader" where
  "on_memory oper f s = (case f (memory s) of (res, m) \<Rightarrow> (map_err (TableMemoryFailed oper) res, s\<lparr>memory := m\<rparr>))"

primrec fill_table :: "val vreader \<Rightarrow> string \<Rightarrow> table_ref \<Rightarrow> nat \<Rightarrow> unit vreader" where
  "fill_table self oper t 0 = mret ()"
| "fill_table self oper t (Suc n) =
     mbind self (\<lambda>k. mbind self (\<lambda>v. mbind (on_memory oper (set_table_field t k v)) (\<lambda>_. fill_table self oper t n)))"

definition read_object :: "val vreader \<Rightarrow> val vreader" where
  "read_object self =
     mbind (on_memory ''create object'' create_object_ref) (\<lambda>r.
     mbind (read_len_bounded ''object entry'' MAX_PERSISTENT_TABLE_ENTRIES) (\<lambda>n.
     mbind (fill_table self ''set object field'' (ObjectTable r) n) (\<lambda>_. mret (Object r))))"

definition read_array :: "val vreader \<Rightarrow> val vreader" where
  "read_array self =
     mbind (read_len_bounded ''array'' MAX_PERSISTENT_TABLE_ENTRIES) (\<lambda>capacity.
     mbind (on_memory ''create array'' (create_array_ref_with_capacity capacity)) (\<lambda>r.
     mbind (read_len_bounded ''array entry'' MAX_PERSISTENT_TABLE_ENTRIES) (\<lambda>n.
     mbind (fill_table self ''set array field'' (ArrayTable r) n) (\<lambda>_. mret (Array r)))))"

definition read_bool :: "val vreader" where
  "read_bool = mbind take_u8 (\<lambda>b.
     if b = 0 then mret (Bool False) else if b = 1 then mret (Bool True)
     else merr (InvalidValueData (InvalidBooleanByte b)))"

definition read_share :: "(byte list \<Rightarrow> byte list) \<Rightarrow> persistent_share_context option \<Rightarrow> val vreader" where
  "read_share D ctx =
     mbind read_share_envelope (\<lambda>e. mbind read_share_type (\<lambda>ty. mbind read_share_data (\<lambda>d.
     mbind (mread (\<lambda>_. validate_envelope D ctx d e)) (\<lambda>_. mret (Share ty d)))))"

text \<open>The body of \<open>read_value\<close> with its recursive calls as a parameter.\<close>

definition read_value_body ::
  "(byte list \<Rightarrow> byte list) \<Rightarrow> persistent_share_context option \<Rightarrow> val vreader \<Rightarrow> val vreader" where
  "read_value_body D ctx self = mbind take_u8 (\<lambda>tag.
     if tag = 0 then mret Unit
     else if tag = 1 then mbind take_word (\<lambda>i. mret (I64 i))
     else if tag = 2 then mbind take_word (\<lambda>i. mret (I32 i))
     else if tag = 3 then mbind take_word (\<lambda>i. mret (I16 i))
     else if tag = 4 then mbind take_u8 (\<lambda>i. mret (I8 i))
     else if tag = 5 then mbind take_u8 (\<lambda>i. mret (U8 i))
     else if tag = 6 then mbind take_word (\<lambda>i. mret (U16 i))
     else if tag = 7 then mbind take_word (\<lambda>i. mret (U32 i))
     else if tag = 8 then mbind take_word (\<lambda>i. mret (U64 i))
     else if tag = 9 then mbind take_word (\<lambda>f. mret (Float f))
     else if tag = 10 then read_bool
     else if tag = 11 then mbind read_string (\<lambda>s. mret (String s))
     else if tag = 12 then read_share D ctx
     else if tag = 13 then read_object self
     else if tag = 14 then read_array self
     else merr (InvalidValueData (UnknownTag tag)))"

text \<open>As many nested calls as there are bytes are enough, see \<open>read_value_rec\<close>.\<close>

primrec read_nested ::
  "(byte list \<Rightarrow> byte list) \<Rightarrow> persistent_share_context option \<Rightarrow> nat \<Rightarrow> val vreader" where
  "read_nested D ctx 0 = read_value_body D ctx (merr (InvalidValueData (InputEnded 1 0)))"
| "read_nested D ctx (Suc n) = read_value_body D ctx (read_nested D ctx n)"

definition read_value :: "(byte list \<Rightarrow> byte list) \<Rightarrow> persistent_share_context option \<Rightarrow> val vreader" where
  "read_value D ctx s = read_nested D ctx (length (unread s)) s"

definition decode_value_with_context ::
  "(byte list \<Rightarrow> byte list) \<Rightarrow> byte list \<Rightarrow> persistent_value_context option \<Rightarrow>
   (object_store, persistent_value_error, val) meth" where
  "decode_value_with_context D bs ctx m =
     (if MAX_PERSISTENT_VALUE_BYTES < length bs
      then (Inl (LimitExceeded ''persistent value byte'' (length bs) MAX_PERSISTENT_VALUE_BYTES), m)
      else case mbind (take_bytes (length VALUE_MAGIC)) (\<lambda>magic.
              if magic \<noteq> VALUE_MAGIC then merr (InvalidValueData UnknownFormat)
              else read_value D (Option.bind ctx pvc_share)) \<lparr>unread = bs, cursor = 0, memory = m\<rparr> of
        (Inl e, s) \<Rightarrow> (Inl e, memory s)
      | (Inr v, s) \<Rightarrow> (if unread s = [] then Inr v else Inl TrailingBytes, memory s))"

definition decode_value :: "(byte list \<Rightarrow> byte list) \<Rightarrow> byte list \<Rightarrow> (object_store, persistent_value_error, val) meth" where
  "decode_value D bs = decode_value_with_context D bs None"

section \<open>Local storage\<close>

text \<open>
  The value-oriented operations of \<open>storage/local.rs\<close> over a key-value store, whose \<open>store\<close> and
  \<open>retrieve\<close> are parameters (the source implements them with the redb database).
\<close>

datatype (plugins only: code) local_storage_error =
    OpenFailed string string
  | TransactionFailed string string
  | TableFailed string string
  | OperationFailed string string

datatype (plugins only: code) local_storage_value_error =
    Storage local_storage_error
  | Codec persistent_value_error

definition store_value_with_context ::
  "(byte list \<Rightarrow> byte list \<Rightarrow> ('st, local_storage_error, unit) meth) \<Rightarrow> (byte list \<Rightarrow> byte list) \<Rightarrow>
   byte list \<Rightarrow> val \<Rightarrow> object_store \<Rightarrow> persistent_value_context option \<Rightarrow> ('st, local_storage_value_error, unit) meth" where
  "store_value_with_context store D key v m ctx st =
     (case (case ctx of Some c \<Rightarrow> encode_value_with_context D v m (Some c) | None \<Rightarrow> encode_value D v m) of
        Inl e \<Rightarrow> (Inl (Codec e), st)
      | Inr encoded \<Rightarrow> (case store key encoded st of (res, st') \<Rightarrow> (map_err Storage res, st')))"

definition store_value ::
  "(byte list \<Rightarrow> byte list \<Rightarrow> ('st, local_storage_error, unit) meth) \<Rightarrow> (byte list \<Rightarrow> byte list) \<Rightarrow>
   byte list \<Rightarrow> val \<Rightarrow> object_store \<Rightarrow> ('st, local_storage_value_error, unit) meth" where
  "store_value store D key v m = store_value_with_context store D key v m None"

definition retrieve_value_with_context ::
  "('st \<Rightarrow> byte list \<Rightarrow> local_storage_error + byte list option) \<Rightarrow> (byte list \<Rightarrow> byte list) \<Rightarrow>
   'st \<Rightarrow> byte list \<Rightarrow> persistent_value_context option \<Rightarrow> (object_store, local_storage_value_error, val option) meth" where
  "retrieve_value_with_context retrieve D st key ctx m =
     (case retrieve st key of
        Inl e \<Rightarrow> (Inl (Storage e), m)
      | Inr None \<Rightarrow> (Inr None, m)
      | Inr (Some bs) \<Rightarrow>
          (case (case ctx of Some c \<Rightarrow> decode_value_with_context D bs (Some c) m | None \<Rightarrow> decode_value D bs m) of
             (res, m') \<Rightarrow> (map_err Codec (map_ok Some res), m')))"

definition retrieve_value ::
  "('st \<Rightarrow> byte list \<Rightarrow> local_storage_error + byte list option) \<Rightarrow> (byte list \<Rightarrow> byte list) \<Rightarrow>
   'st \<Rightarrow> byte list \<Rightarrow> (object_store, local_storage_value_error, val option) meth" where
  "retrieve_value retrieve D st key = retrieve_value_with_context retrieve D st key None"

end
