(* ===== verification/Value_Persistence.thy ===== *)
theory Value_Persistence
  imports Value_Codec
begin

text \<open>
  Persistent values, the halves of the round trip: the decoder satisfies its recursive equation, it
  reads back every scalar the encoder writes, and the encoder accepts exactly the values that spell a
  finite tree of scalars and prints that tree.
\<close>

section \<open>The recursive equation of the decoder\<close>

definition vshrinks :: "'a vreader \<Rightarrow> bool" where
  "vshrinks r = (\<forall>s. length (unread (snd (r s))) \<le> length (unread s))"

definition vagree :: "nat \<Rightarrow> 'a vreader \<Rightarrow> 'a vreader \<Rightarrow> bool" where
  "vagree k r r' = (\<forall>s. length (unread s) \<le> k \<longrightarrow> r s = r' s)"

named_theorems vshrinks_intro

lemma vshrinks_ret [vshrinks_intro]: "vshrinks (mret x)" "vshrinks (merr e)" "vshrinks (mread f)"
  by (simp_all add: vshrinks_def mret_def merr_def mread_def)

lemma vshrinks_bind [vshrinks_intro]: "vshrinks r \<Longrightarrow> (\<And>x. vshrinks (f x)) \<Longrightarrow> vshrinks (mbind r f)"
  unfolding vshrinks_def mbind_def
  by (simp split: prod.split sum.split) (metis le_trans snd_conv)

lemma vshrinks_if [vshrinks_intro]: "vshrinks r \<Longrightarrow> vshrinks u \<Longrightarrow> vshrinks (if b then r else u)"
  by simp

lemma vshrinks_take_bytes [vshrinks_intro]: "vshrinks (take_bytes n)"
  by (auto simp: vshrinks_def take_bytes_def split: option.splits)

lemma vshrinks_on_memory [vshrinks_intro]: "vshrinks (on_memory oper f)"
  by (simp add: vshrinks_def on_memory_def split: prod.splits)

lemma vshrinks_repeat [vshrinks_intro]: "vshrinks r \<Longrightarrow> vshrinks (repeat_read n r)"
  by (induction n) (auto intro!: vshrinks_intro)

lemma vshrinks_fill [vshrinks_intro]: "vshrinks self \<Longrightarrow> vshrinks (fill_table self oper t n)"
  by (induction n) (auto intro!: vshrinks_intro)

lemmas vreaders = take_u8_def take_word_def read_len_def read_len_bounded_def read_bytes_def read_string_def
  read_digest_def read_optional_digest_def read_share_type_def read_share_data_def read_share_envelope_def
  read_bool_def read_share_def read_object_def read_array_def

lemma vshrinks_body: "vshrinks self \<Longrightarrow> vshrinks (read_value_body D ctx self)"
  unfolding read_value_body_def vreaders by (intro vshrinks_intro)

lemma vshrinks_nested: "vshrinks (read_nested D ctx n)"
  by (induction n) (simp_all add: vshrinks_body vshrinks_ret)

lemma vagree_refl: "vagree k r r"
  by (simp add: vagree_def)

lemma vagree_bind:
  assumes "vshrinks r" "vagree k r r'" "\<And>x. vagree k (f x) (g x)"
  shows "vagree k (mbind r f) (mbind r' g)"
  unfolding vagree_def
proof (intro allI impI)
  fix s :: value_reader assume k: "length (unread s) \<le> k"
  obtain y u where y: "r s = (y, u)" by (cases "r s")
  have "length (unread u) \<le> k" using assms(1) y k unfolding vshrinks_def by (metis snd_conv order_trans)
  moreover have "r' s = (y, u)" using assms(2) y k by (simp add: vagree_def)
  ultimately show "mbind r f s = mbind r' g s"
    using assms(3) y by (cases y) (auto simp: mbind_def vagree_def)
qed

lemma vagree_if: "vagree k r r' \<Longrightarrow> vagree k u u' \<Longrightarrow> vagree k (if b then r else u) (if b then r' else u')"
  by simp

lemma vagree_fill:
  "vshrinks self \<Longrightarrow> vagree k self self' \<Longrightarrow> vagree k (fill_table self oper t n) (fill_table self' oper t n)"
  by (induction n) (auto intro!: vagree_bind vagree_refl vshrinks_intro)

text \<open>After the tag there is a byte less to read.\<close>

lemma vagree_tag:
  assumes "\<And>tag. vagree k (f tag) (g tag)"
  shows "vagree (Suc k) (mbind take_u8 f) (mbind take_u8 g)"
  using assms
  by (auto simp: vagree_def mbind_def take_u8_def take_bytes_def mret_def split: option.splits)

lemma vagree_body:
  assumes "vshrinks self" "vagree k self self'"
  shows "vagree (Suc k) (read_value_body D ctx self) (read_value_body D ctx self')"
  unfolding read_value_body_def read_object_def read_array_def
  by (intro vagree_tag vagree_if vagree_bind vagree_fill vagree_refl assms)
    (auto simp: vreaders intro!: vshrinks_intro assms)

lemma read_nested_fuel: "length (unread s) \<le> n \<Longrightarrow> read_nested D ctx n s = read_value D ctx s"
proof -
  have a: "vagree n (read_nested D ctx n) (read_nested D ctx (n + d))" for n d
  proof (induction n)
    case 0
    have "read_value_body D ctx r s = read_value_body D ctx r' s" if "unread s = []" for r r' s
      using that by (auto simp: read_value_body_def take_u8_def take_bytes_def mbind_def split: option.splits)
    then show ?case by (cases d) (simp_all add: vagree_def)
  next
    case (Suc n)
    then show ?case using vagree_body [OF vshrinks_nested] by simp
  qed
  show "length (unread s) \<le> n \<Longrightarrow> read_nested D ctx n s = read_value D ctx s"
    using a [of "length (unread s)" "n - length (unread s)"] by (simp add: vagree_def read_value_def)
qed

lemma read_value_rec: "read_value D ctx = read_value_body D ctx (read_value D ctx)"
proof
  fix s :: value_reader
  have a: "vagree (length (unread s)) (read_nested D ctx (length (unread s))) (read_value D ctx)"
    by (simp add: vagree_def read_nested_fuel)
  have "read_value D ctx s = read_nested D ctx (Suc (length (unread s))) s"
    by (rule read_nested_fuel [symmetric]) simp
  also have "\<dots> = read_value_body D ctx (read_value D ctx) s"
    using vagree_body [OF vshrinks_nested a] by (simp add: vagree_def)
  finally show "read_value D ctx s = read_value_body D ctx (read_value D ctx) s" .
qed

section \<open>Scalars\<close>

definition room :: "value_reader \<Rightarrow> bool" where
  "room s \<longleftrightarrow> cursor s + length (unread s) \<le> usize_max"

definition advance :: "nat \<Rightarrow> value_reader \<Rightarrow> value_reader" where
  "advance n s = s\<lparr>unread := drop n (unread s), cursor := cursor s + n\<rparr>"

lemma advance_simps [simp]:
  "unread (advance n s) = drop n (unread s)" "memory (advance n s) = memory s" "cursor (advance n s) = cursor s + n"
  "advance n (advance k s) = advance (k + n) s" "advance 0 s = s"
  by (simp_all add: advance_def add.commute add.left_commute)

lemma room_advance: "room s \<Longrightarrow> n \<le> length (unread s) \<Longrightarrow> room (advance n s)"
  by (simp add: room_def)

text \<open>\<open>reads r bs x\<close>: on input that begins with \<open>bs\<close> the reader consumes it and gives \<open>x\<close>.\<close>

definition reads :: "'a vreader \<Rightarrow> byte list \<Rightarrow> 'a \<Rightarrow> bool" where
  "reads r bs x \<longleftrightarrow> (\<forall>s rest. unread s = bs @ rest \<longrightarrow> room s \<longrightarrow> r s = (Inr x, advance (length bs) s))"

lemma readsD: "reads r bs x \<Longrightarrow> unread s = bs @ rest \<Longrightarrow> room s \<Longrightarrow> r s = (Inr x, advance (length bs) s)"
  unfolding reads_def by blast

named_theorems reads_intro

lemma reads_ret [reads_intro]: "reads (mret x) [] x"
  by (simp add: reads_def mret_def)

lemma reads_bind:
  assumes "reads r bs x" "reads (f x) cs y"
  shows "reads (mbind r f) (bs @ cs) y"
  unfolding reads_def
proof (intro allI impI)
  fix s rest assume s: "unread s = (bs @ cs) @ rest" "room s"
  have "r s = (Inr x, advance (length bs) s)" using s by (intro readsD [OF assms(1)]) simp_all
  moreover have "f x (advance (length bs) s) = (Inr y, advance (length cs) (advance (length bs) s))"
    using s by (intro readsD [OF assms(2)] room_advance) simp_all
  ultimately show "mbind r f s = (Inr y, advance (length (bs @ cs)) s)" by (simp add: mbind_def)
qed

lemma reads_map: "reads r bs x \<Longrightarrow> reads (mbind r (\<lambda>y. mret (f y))) bs (f x)"
  using reads_bind [of r bs x _ "[]" "f x"] reads_ret by fastforce

lemma reads_take: "reads (take_bytes (length bs)) bs bs"
  by (auto simp: reads_def take_bytes_def advance_def room_def checked_add_usize_def)

lemma reads_take_n: "length bs = n \<Longrightarrow> reads (take_bytes n) bs bs"
  using reads_take by blast

lemma reads_u8: "reads take_u8 [b] b"
  using reads_map [OF reads_take [of "[b]"], of "\<lambda>bs. bs ! 0"] by (simp add: take_u8_def)

lemma reads_word:
  assumes "8 dvd LENGTH('a)"
  shows "reads (take_word :: 'a::len word vreader) (to_le w) w"
proof -
  have "length (to_le w) = LENGTH('a) div 8" by (simp add: to_le_def)
  from reads_map [OF reads_take_n [OF this], of "from_le :: byte list \<Rightarrow> 'a word"] show ?thesis
    by (simp add: take_word_def from_le_to_le [OF assms])
qed

lemma reads_len: "n < 2 ^ 64 \<Longrightarrow> reads read_len (write_len n) n"
  using reads_map [OF reads_word [of "of_nat n :: u64"], of unat]
  by (simp add: read_len_def write_len_def unat_of_nat take_bit_nat_eq_self)

lemma reads_len_bounded: "n < 2 ^ 64 \<Longrightarrow> n \<le> limit \<Longrightarrow> reads (read_len_bounded label limit) (write_len n) n"
  using reads_bind [OF reads_len, of n _ "[]" n] reads_ret [of n] by (simp add: read_len_bounded_def)

lemma reads_bytes: "length bs \<le> MAX_PERSISTENT_VALUE_BYTES \<Longrightarrow> reads read_bytes (write_bytes bs) bs"
  unfolding read_bytes_def write_bytes_def
  by (intro reads_bind [where x = "length bs"] reads_len_bounded reads_take) (simp_all add: MAX_PERSISTENT_VALUE_BYTES_def)

definition text_ok :: "string \<Rightarrow> bool" where
  "text_ok s \<longleftrightarrow> utf8_valid (str_bytes s) \<and> length s \<le> MAX_PERSISTENT_VALUE_BYTES"

lemma reads_string: "text_ok s \<Longrightarrow> reads read_string (write_string s) s"
  using reads_bind [OF reads_bytes, of "str_bytes s" _ "[]" s] reads_ret [of s]
  by (simp add: read_string_def write_string_def text_ok_def)

lemma reads_digest: "length d = 32 \<Longrightarrow> reads read_digest d d"
  by (simp add: read_digest_def reads_take_n)

lemma reads_tag: "reads (f b) bs x \<Longrightarrow> reads (mbind take_u8 f) (b # bs) x"
  using reads_bind [OF reads_u8, of f b bs x] by simp

lemma reads_optional_digest:
  "(\<And>d. od = Some d \<Longrightarrow> length d = 32) \<Longrightarrow> reads read_optional_digest (write_optional_digest od) od"
  unfolding read_optional_digest_def
  by (cases od) (auto intro!: reads_tag reads_ret reads_map reads_digest)

fun share_type_bounded :: "share_type \<Rightarrow> bool" where
  "share_type_bounded (SecretInt n) = (n < 2 ^ 64)"
| "share_type_bounded (SecretUInt n) = (n < 2 ^ 64)"
| "share_type_bounded (SecretFixedPoint p) = (total_bits p < 2 ^ 64 \<and> fractional_bits p < 2 ^ 64)"

lemma reads_pure: "f = Inr x \<Longrightarrow> reads (mread (\<lambda>_. f)) [] x"
  by (simp add: reads_def mread_def)

lemma reads_bind_last: "reads r bs x \<Longrightarrow> reads (f x) [] y \<Longrightarrow> reads (mbind r f) bs y"
  using reads_bind [of r bs x f "[]" y] by simp

lemma reads_share_type:
  assumes "share_type_ok ty" "share_type_bounded ty"
  shows "reads read_share_type (write_share_type ty) ty"
proof (cases ty)
  case (SecretInt n)
  then have "try_secret_int n = Inr ty" "n < 2 ^ 64" using assms by (simp_all add: try_secret_int_def)
  then have "reads (mbind read_len (\<lambda>n. mread (\<lambda>_. map_err (InvalidValueData \<circ> InvalidShareTypeBits) (try_secret_int n)))) (write_len n) ty"
    by (intro reads_bind_last [OF reads_len] reads_pure) simp_all
  then show ?thesis by (auto simp: SecretInt read_share_type_def intro!: reads_tag)
next
  case (SecretUInt n)
  then have "try_secret_uint n = Inr ty" "n < 2 ^ 64" using assms by (simp_all add: try_secret_uint_def)
  then have "reads (mbind read_len (\<lambda>n. mread (\<lambda>_. map_err (InvalidValueData \<circ> InvalidShareTypeBits) (try_secret_uint n)))) (write_len n) ty"
    by (intro reads_bind_last [OF reads_len] reads_pure) simp_all
  then show ?thesis by (auto simp: SecretUInt read_share_type_def intro!: reads_tag)
next
  case (SecretFixedPoint p)
  have "try_secret_fixed_point_from_bits (total_bits p) (fractional_bits p) = Inr ty"
    using assms by (simp add: SecretFixedPoint try_secret_fixed_point_from_bits_def FixedPointPrecision_try_new_def)
  then have "reads (mbind read_len (\<lambda>t. mbind read_len (\<lambda>f. mread (\<lambda>_. map_err (InvalidValueData \<circ> InvalidShareTypeBits)
      (try_secret_fixed_point_from_bits t f))))) (write_len (total_bits p) @ write_len (fractional_bits p)) ty"
    using assms SecretFixedPoint by (intro reads_bind [OF reads_len] reads_bind_last [OF reads_len] reads_pure) simp_all
  then show ?thesis by (auto simp: SecretFixedPoint read_share_type_def intro!: reads_tag)
qed

lemma reads_repeat:
  "(\<And>x. x \<in> set xs \<Longrightarrow> reads r (w x) x) \<Longrightarrow> reads (repeat_read (length xs) r) (concat (map w xs)) xs"
proof (induction xs)
  case (Cons x xs)
  have "reads (mbind (repeat_read (length xs) r) (\<lambda>ys. mret (x # ys))) (concat (map w xs)) (x # xs)"
    using Cons by (intro reads_map [where f = "(#) x"]) simp
  moreover have "reads r (w x) x" using Cons.prems by simp
  ultimately show ?case by (simp add: reads_bind [of r "w x" x])
qed (simp add: reads_ret)

lemma member_length: "c \<in> set cs \<Longrightarrow> length c \<le> length (concat (map write_bytes cs))"
  by (induction cs) (auto simp: write_bytes_def)

lemma reads_share_data:
  assumes "length (write_share_data d) \<le> MAX_PERSISTENT_VALUE_BYTES"
    and "\<And>x cs. d = Feldman x cs \<Longrightarrow> length cs \<le> MAX_PERSISTENT_COMMITMENTS"
  shows "reads read_share_data (write_share_data d) d"
proof (cases d)
  case (Opaque bs)
  then have "length bs \<le> MAX_PERSISTENT_VALUE_BYTES" using assms(1) by (simp add: write_bytes_def)
  then have "reads (mbind read_bytes (\<lambda>bs. mret (Opaque bs))) (write_bytes bs) d"
    unfolding Opaque by (intro reads_map reads_bytes)
  then show ?thesis unfolding read_share_data_def by (auto simp: Opaque intro!: reads_tag)
next
  case (Feldman x cs)
  have len: "length c \<le> MAX_PERSISTENT_VALUE_BYTES" if "c \<in> set cs" for c
    using assms(1) member_length [OF that] by (simp add: Feldman)
  have "length x \<le> MAX_PERSISTENT_VALUE_BYTES" using assms(1) by (simp add: Feldman write_bytes_def)
  note x = reads_bytes [OF this]
  have n: "length cs < 2 ^ 64" "length cs \<le> MAX_PERSISTENT_COMMITMENTS"
    using assms(2) [OF Feldman] by (simp_all add: MAX_PERSISTENT_COMMITMENTS_def)
  have "reads (mbind read_bytes (\<lambda>d. mbind (read_len_bounded ''Feldman commitment'' MAX_PERSISTENT_COMMITMENTS) (\<lambda>n.
       mbind (repeat_read n read_bytes) (\<lambda>cs. mret (Feldman d cs)))))
      (write_bytes x @ write_len (length cs) @ concat (map write_bytes cs)) d"
    unfolding Feldman using len by (intro reads_bind [OF x] reads_bind [OF reads_len_bounded [OF n]] reads_map reads_repeat reads_bytes)
  then show ?thesis unfolding read_share_data_def by (auto simp: Feldman intro!: reads_tag)
qed

text \<open>What the round trip asks of the context and of scalars beyond their size.\<close>

definition context_ok :: "persistent_share_context \<Rightarrow> bool" where
  "context_ok c \<longleftrightarrow> text_ok (protocol_name c) \<and> text_ok (curve c) \<and> text_ok (psc_field c) \<and>
     length (node_identity c) = 32 \<and> n_parties c < 2 ^ 64 \<and> threshold c < 2 ^ 64 \<and> length (key_id_digest c) = 32"

fun scalar_ok :: "val \<Rightarrow> bool" where
  "scalar_ok (String s) = utf8_valid (str_bytes s)"
| "scalar_ok (Share ty d) = (share_type_ok ty \<and> share_type_bounded ty \<and>
     (case d of Opaque _ \<Rightarrow> True | Feldman _ cs \<Rightarrow> length cs \<le> MAX_PERSISTENT_COMMITMENTS))"
| "scalar_ok v = True"

definition envelope_of ::
  "(byte list \<Rightarrow> byte list) \<Rightarrow> persistent_share_context \<Rightarrow> share_data \<Rightarrow> byte list option \<Rightarrow> share_envelope" where
  "envelope_of D c d cd =
     \<lparr>env_protocol = protocol_name c, env_curve = curve c, env_field = psc_field c, env_identity = node_identity c,
      env_parties = n_parties c, env_threshold = threshold c, env_key_digest = key_id_digest c,
      env_payload_digest = D (as_bytes d), env_commitment_digest = cd\<rparr>"

lemma reads_envelope:
  assumes "write_share_envelope D (Some c) d = Inr bs" "context_ok c" "\<And>x. length (D x) = 32"
  obtains cd where "share_commitment_digest D d = Inr cd" "reads read_share_envelope bs (envelope_of D c d cd)"
proof -
  obtain cd where cd: "share_commitment_digest D d = Inr cd"
    and bs: "bs = SHARE_ENVELOPE_VERSION # write_string (protocol_name c) @ write_string (curve c) @
                    write_string (psc_field c) @ node_identity c @ write_len (n_parties c) @ write_len (threshold c) @
                    key_id_digest c @ D (as_bytes d) @ write_optional_digest cd"
    using assms(1) by (auto simp: write_share_envelope_def map_ok_Inr_iff)
  have "length x = 32" if "cd = Some x" for x
    using cd that assms(3) by (cases "(D, d)" rule: share_commitment_digest.cases) auto
  note oc = reads_optional_digest [of cd, OF this]
  have "reads read_share_envelope bs (envelope_of D c d cd)"
    unfolding read_share_envelope_def bs
    using assms(2,3) by (intro reads_tag) (auto simp: context_ok_def envelope_of_def
        intro!: reads_bind reads_string reads_digest reads_len reads_map [OF oc])
  with cd show thesis by (rule that)
qed

lemma validate_envelope_of:
  "share_commitment_digest D d = Inr cd \<Longrightarrow> validate_envelope D (Some c) d (envelope_of D c d cd) = Inr ()"
  by (simp add: validate_envelope_def envelope_of_def require_def)

lemma reads_share:
  assumes w: "write_scalar D ctx (Share ty d) = Inr bs" and ok: "scalar_ok (Share ty d)"
    and c: "\<And>c. ctx = Some c \<Longrightarrow> context_ok c" and D: "\<And>x. length (D x) = 32"
    and len: "length bs \<le> MAX_PERSISTENT_VALUE_BYTES"
  shows "\<exists>cs. bs = 12 # cs \<and> reads (read_share D ctx) cs (Share ty d)"
proof -
  obtain c' env where c': "ctx = Some c'" and env: "write_share_envelope D (Some c') d = Inr env"
    and bs: "bs = 12 # env @ write_share_type ty @ write_share_data d"
    using w by (cases ctx) (auto simp: map_ok_Inr_iff write_share_envelope_def)
  obtain cd where cd: "share_commitment_digest D d = Inr cd" "reads read_share_envelope env (envelope_of D c' d cd)"
    using reads_envelope [OF env c [OF c'] D] .
  have d: "reads read_share_data (write_share_data d) d"
    using ok len by (intro reads_share_data) (auto simp: bs)
  have ty: "reads read_share_type (write_share_type ty) ty" using ok by (intro reads_share_type) simp_all
  have "reads (read_share D ctx) (env @ write_share_type ty @ write_share_data d) (Share ty d)"
    unfolding read_share_def
    by (rule reads_bind [OF cd(2)], rule reads_bind [OF ty], rule reads_bind_last [OF d],
        rule reads_bind_last [where x = "()", OF reads_pure])
      (simp_all add: c' validate_envelope_of [OF cd(1)] reads_ret)
  then show ?thesis using bs by blast
qed

lemma reads_scalar:
  assumes w: "write_scalar D ctx v = Inr bs" and ok: "scalar_ok v"
    and c: "\<And>c. ctx = Some c \<Longrightarrow> context_ok c" and D: "\<And>x. length (D x) = 32"
    and len: "length bs \<le> MAX_PERSISTENT_VALUE_BYTES"
  shows "reads (read_value_body D ctx self) bs v"
proof (cases "\<exists>ty d. v = Share ty d")
  case True
  then obtain ty d where v: "v = Share ty d" by blast
  obtain cs where "bs = 12 # cs" "reads (read_share D ctx) cs v"
    using reads_share [OF w [unfolded v] ok [unfolded v] c D len] v by blast
  then show ?thesis unfolding read_value_body_def by (auto intro!: reads_tag)
next
  case False
  show ?thesis
  proof (cases v)
    case (String t)
    then have "length t \<le> length bs" using w by (auto simp: write_string_def write_bytes_def)
    then have "text_ok t" using ok len String by (simp add: text_ok_def)
    then have "reads (mbind read_string (\<lambda>s. mret (String s))) (write_string t) v"
      unfolding String by (intro reads_map reads_string)
    then show ?thesis using w String unfolding read_value_body_def by (auto intro!: reads_tag)
  next
    case (Bool b)
    have "reads read_bool [if b then 1 else 0] v"
      unfolding read_bool_def Bool by (cases b) (auto intro!: reads_tag reads_ret)
    then show ?thesis using w Bool unfolding read_value_body_def by (auto intro!: reads_tag)
  qed (use w False in \<open>auto simp: read_value_body_def intro!: reads_tag reads_word reads_ret reads_map reads_u8\<close>)
qed

section \<open>The tree that a value spells\<close>

datatype ptree =
    Leaf val
  | ObjectTree "(ptree \<times> ptree) list"
  | ArrayTree usize "(ptree \<times> ptree) list"

fun is_table :: "val \<Rightarrow> bool" where
  "is_table (Object _) = True"
| "is_table (Array _) = True"
| "is_table _ = False"

text \<open>A value of the store \<open>m\<close> and the tree it spells; its tables have handles from \<open>n\<close> on.\<close>

inductive spells :: "usize \<Rightarrow> object_store \<Rightarrow> val \<Rightarrow> ptree \<Rightarrow> bool" for n m where
  leaf: "\<not> is_table v \<Longrightarrow> spells n m v (Leaf v)"
| object: "n \<le> r \<Longrightarrow> object_ref_entries m r usize_max = Inr es \<Longrightarrow>
    list_all2 (rel_prod (spells n m) (spells n m)) es ts \<Longrightarrow> spells n m (Object r) (ObjectTree ts)"
| array: "n \<le> r \<Longrightarrow> array_ref_len m r = Inr len \<Longrightarrow> array_ref_entries m r usize_max = Inr es \<Longrightarrow>
    list_all2 (rel_prod (spells n m) (spells n m)) es ts \<Longrightarrow> spells n m (Array r) (ArrayTree len ts)"
monos list.rel_mono prod.rel_mono

inductive_cases spells_ObjectE: "spells n m (Object r) t"
inductive_cases spells_ArrayE: "spells n m (Array r) t"

primrec print_tree ::
  "(byte list \<Rightarrow> byte list) \<Rightarrow> persistent_share_context option \<Rightarrow> ptree \<Rightarrow> byte list" where
  "print_tree D ctx (Leaf v) = (case write_scalar D ctx v of Inl _ \<Rightarrow> [] | Inr bs \<Rightarrow> bs)"
| "print_tree D ctx (ObjectTree ts) =
     13 # write_len (length ts) @ concat (map (\<lambda>(a, b). a @ b) (map (map_prod (print_tree D ctx) (print_tree D ctx)) ts))"
| "print_tree D ctx (ArrayTree len ts) =
     14 # write_len len @ write_len (length ts) @
     concat (map (\<lambda>(a, b). a @ b) (map (map_prod (print_tree D ctx) (print_tree D ctx)) ts))"

primrec leaves :: "ptree \<Rightarrow> val set" where
  "leaves (Leaf v) = {v}"
| "leaves (ObjectTree ts) = (\<Union>(a, b)\<in>set (map (map_prod leaves leaves) ts). a \<union> b)"
| "leaves (ArrayTree len ts) = (\<Union>(a, b)\<in>set (map (map_prod leaves leaves) ts). a \<union> b)"

definition writable :: "(byte list \<Rightarrow> byte list) \<Rightarrow> persistent_share_context option \<Rightarrow> ptree \<Rightarrow> bool" where
  "writable D ctx t \<longleftrightarrow> (\<forall>v\<in>leaves t. \<exists>bs. write_scalar D ctx v = Inr bs)"

lemma print_tree_simps [simp]:
  "print_tree D ctx (ObjectTree ts) =
     13 # write_len (length ts) @ concat (map (\<lambda>(a, b). print_tree D ctx a @ print_tree D ctx b) ts)"
  "print_tree D ctx (ArrayTree len ts) =
     14 # write_len len @ write_len (length ts) @ concat (map (\<lambda>(a, b). print_tree D ctx a @ print_tree D ctx b) ts)"
  by (simp_all add: comp_def split_def)

declare print_tree.simps(2,3) [simp del]

lemma writable_simps [simp]:
  "writable D ctx (Leaf v) \<longleftrightarrow> (\<exists>bs. write_scalar D ctx v = Inr bs)"
  "writable D ctx (ObjectTree ts) \<longleftrightarrow> (\<forall>(a, b)\<in>set ts. writable D ctx a \<and> writable D ctx b)"
  "writable D ctx (ArrayTree len ts) \<longleftrightarrow> (\<forall>(a, b)\<in>set ts. writable D ctx a \<and> writable D ctx b)"
  by (fastforce simp: writable_def)+

lemma list_all2_unique:
  "list_all2 P xs ys \<Longrightarrow> list_all2 Q xs zs \<Longrightarrow> (\<And>x y z. P x y \<Longrightarrow> Q x z \<Longrightarrow> y = z) \<Longrightarrow> ys = zs"
proof (induction arbitrary: zs rule: list_all2_induct)
  case (Cons x xs y ys)
  then show ?case by (cases zs) auto
qed simp

lemma spells_unique: "spells n m v t \<Longrightarrow> spells n m v t' \<Longrightarrow> t = t'"
proof (induction arbitrary: t' rule: spells.induct)
  case (leaf v)
  from leaf(2,1) show ?case by (cases rule: spells.cases) auto
next
  case (object r es ts)
  obtain ts' where t': "t' = ObjectTree ts'" "list_all2 (rel_prod (spells n m) (spells n m)) es ts'"
    using object(2,4) by (auto elim: spells_ObjectE)
  have "ts = ts'"
    by (rule list_all2_unique [OF object(3) t'(2)]) (auto elim!: rel_prod.cases)
  with t' show ?case by simp
next
  case (array r len es ts)
  obtain ts' where t': "t' = ArrayTree len ts'" "list_all2 (rel_prod (spells n m) (spells n m)) es ts'"
    using array(2,3,5) by (auto elim: spells_ArrayE)
  have "ts = ts'"
    by (rule list_all2_unique [OF array(4) t'(2)]) (auto elim!: rel_prod.cases)
  with t' show ?case by simp
qed

lemma write_sound:
  "write_value D ctx m act v = Inr bs \<Longrightarrow> \<exists>t. spells 0 m v t \<and> writable D ctx t \<and> bs = print_tree D ctx t"
  "write_entries D ctx m act es = Inr bs \<Longrightarrow>
   \<exists>ts. list_all2 (rel_prod (spells 0 m) (spells 0 m)) es ts \<and> (\<forall>(a, b)\<in>set ts. writable D ctx a \<and> writable D ctx b) \<and>
     bs = concat (map (\<lambda>(a, b). print_tree D ctx a @ print_tree D ctx b) ts)"
proof (induction D ctx m act v and D ctx m act es arbitrary: bs and bs rule: write_value_write_entries.induct)
  case (1 D ctx m act r)
  obtain es cs where es: "ObjectTable r \<notin> act" "object_ref_entries m r usize_max = Inr es"
    "write_entries D ctx m (insert (ObjectTable r) act) es = Inr cs" "bs = 13 # write_len (length es) @ cs"
    using 1(2) by (auto simp: map_ok_Inr_iff split: if_splits sum.splits)
  obtain ts where ts: "list_all2 (rel_prod (spells 0 m) (spells 0 m)) es ts"
    "\<forall>(a, b)\<in>set ts. writable D ctx a \<and> writable D ctx b"
    "cs = concat (map (\<lambda>(a, b). print_tree D ctx a @ print_tree D ctx b) ts)"
    using 1(1) [OF es(1-3)] by blast
  have "spells 0 m (Object r) (ObjectTree ts)" by (rule spells.object [OF _ es(2) ts(1)]) simp
  then show ?case using ts es(4) list_all2_lengthD [OF ts(1)] by (intro exI [of _ "ObjectTree ts"]) simp
next
  case (2 D ctx m act r)
  obtain len es cs where es: "ArrayTable r \<notin> act" "array_ref_len m r = Inr len" "array_ref_entries m r usize_max = Inr es"
    "write_entries D ctx m (insert (ArrayTable r) act) es = Inr cs" "bs = 14 # write_len len @ write_len (length es) @ cs"
    using 2(2) by (auto simp: map_ok_Inr_iff split: if_splits sum.splits)
  obtain ts where ts: "list_all2 (rel_prod (spells 0 m) (spells 0 m)) es ts"
    "\<forall>(a, b)\<in>set ts. writable D ctx a \<and> writable D ctx b"
    "cs = concat (map (\<lambda>(a, b). print_tree D ctx a @ print_tree D ctx b) ts)"
    using 2(1) [OF es(1-4)] by blast
  have "spells 0 m (Array r) (ArrayTree len ts)" by (rule spells.array [OF _ es(2,3) ts(1)]) simp
  then show ?case using ts es(5) list_all2_lengthD [OF ts(1)] by (intro exI [of _ "ArrayTree len ts"]) simp
next
  case (4 D ctx m act)
  then show ?case by (intro exI [of _ "[]"]) simp
next
  case (5 D ctx m act k v es)
  obtain a b c where abc: "write_value D ctx m act k = Inr a" "write_value D ctx m act v = Inr b"
    "write_entries D ctx m act es = Inr c" "bs = a @ b @ c"
    using 5(4) by (auto simp: map_ok_Inr_iff split: sum.splits)
  obtain ta tb where t: "spells 0 m k ta" "writable D ctx ta" "a = print_tree D ctx ta"
    "spells 0 m v tb" "writable D ctx tb" "b = print_tree D ctx tb"
    using 5(1) [OF abc(1)] 5(2) [OF abc(1,2)] by blast
  obtain ts where ts: "list_all2 (rel_prod (spells 0 m) (spells 0 m)) es ts"
    "\<forall>(a, b)\<in>set ts. writable D ctx a \<and> writable D ctx b"
    "c = concat (map (\<lambda>(a, b). print_tree D ctx a @ print_tree D ctx b) ts)"
    using 5(3) [OF abc(1-3)] by blast
  then show ?case using t abc(4) by (intro exI [of _ "(ta, tb) # ts"]) simp
qed (auto intro!: exI spells.leaf)


section \<open>What the encoder accepts\<close>

fun table_value :: "table_ref \<Rightarrow> val" where
  "table_value (ObjectTable r) = Object r"
| "table_value (ArrayTable r) = Array r"

lemma write_entries_intro:
  "list_all2 (\<lambda>(k, v) (a, b). write_value D ctx m act k = Inr (print_tree D ctx a) \<and> write_value D ctx m act v = Inr (print_tree D ctx b)) es ts \<Longrightarrow>
   write_entries D ctx m act es = Inr (concat (map (\<lambda>(a, b). print_tree D ctx a @ print_tree D ctx b) ts))"
  by (induction rule: list_all2_induct) auto

lemma write_scalar_leaf: "\<not> is_table v \<Longrightarrow> write_value D ctx m act v = write_scalar D ctx v"
  by (cases v) simp_all

lemma subtree_size:
  "(a, b) \<in> set ts \<Longrightarrow> size a < size (ObjectTree ts) \<and> size b < size (ObjectTree ts)"
  "(a, b) \<in> set ts \<Longrightarrow> size a < size (ArrayTree len ts) \<and> size b < size (ArrayTree len ts)"
proof -
  have "size a + size b < size_list (size_prod size size) ts" if "(a, b) \<in> set ts"
    using that by (induction ts) auto
  then show "(a, b) \<in> set ts \<Longrightarrow> size a < size (ObjectTree ts) \<and> size b < size (ObjectTree ts)"
    "(a, b) \<in> set ts \<Longrightarrow> size a < size (ArrayTree len ts) \<and> size b < size (ArrayTree len ts)" by fastforce+
qed

text \<open>Every table the encoder is inside of spells a larger tree, so the value at hand is none of them.\<close>

definition inside_of :: "object_store \<Rightarrow> table_ref set \<Rightarrow> ptree \<Rightarrow> bool" where
  "inside_of m act t \<longleftrightarrow> (\<forall>x\<in>act. \<exists>u. spells 0 m (table_value x) u \<and> size t < size u)"

lemma inside_of_fresh: "inside_of m act t \<Longrightarrow> spells 0 m (table_value x) t \<Longrightarrow> x \<notin> act"
  using spells_unique unfolding inside_of_def by blast

lemma inside_of_child:
  "inside_of m act t \<Longrightarrow> spells 0 m (table_value x) t \<Longrightarrow> size a < size t \<Longrightarrow> inside_of m (insert x act) a"
  unfolding inside_of_def by (fastforce dest: bspec intro: less_trans)

lemma write_complete:
  "spells 0 m v t \<Longrightarrow> writable D ctx t \<Longrightarrow> inside_of m act t \<Longrightarrow> write_value D ctx m act v = Inr (print_tree D ctx t)"
proof (induction arbitrary: act rule: spells.induct)
  case (leaf v)
  then show ?case by (auto simp: write_scalar_leaf)
next
  case (object r es ts)
  let ?P = "\<lambda>v t. \<forall>act. writable D ctx t \<longrightarrow> inside_of m act t \<longrightarrow> write_value D ctx m act v = Inr (print_tree D ctx t)"
  have l: "list_all2 (rel_prod (\<lambda>v t. spells 0 m v t \<and> ?P v t) (\<lambda>v t. spells 0 m v t \<and> ?P v t)) es ts"
    using object(3) by (rule list.rel_mono_strong) (auto elim!: rel_prod.cases)
  then have "list_all2 (rel_prod (spells 0 m) (spells 0 m)) es ts" by (rule list.rel_mono_strong) (auto elim!: rel_prod.cases)
  then have self: "spells 0 m (table_value (ObjectTable r)) (ObjectTree ts)" using object by (simp add: spells.object)
  have "list_all2 (\<lambda>(k, v) (a, b). write_value D ctx m (insert (ObjectTable r) act) k = Inr (print_tree D ctx a) \<and>
      write_value D ctx m (insert (ObjectTable r) act) v = Inr (print_tree D ctx b)) es ts"
    using l by (rule list.rel_mono_strong)
      (use object(4) subtree_size(1) inside_of_child [OF object(5) self] in \<open>fastforce elim!: rel_prod.cases\<close>)
  from write_entries_intro [OF this] show ?case
    using inside_of_fresh [OF object(5) self] object(2) list_all2_lengthD [OF l] by simp
next
  case (array r len es ts)
  let ?P = "\<lambda>v t. \<forall>act. writable D ctx t \<longrightarrow> inside_of m act t \<longrightarrow> write_value D ctx m act v = Inr (print_tree D ctx t)"
  have l: "list_all2 (rel_prod (\<lambda>v t. spells 0 m v t \<and> ?P v t) (\<lambda>v t. spells 0 m v t \<and> ?P v t)) es ts"
    using array(4) by (rule list.rel_mono_strong) (auto elim!: rel_prod.cases)
  then have "list_all2 (rel_prod (spells 0 m) (spells 0 m)) es ts" by (rule list.rel_mono_strong) (auto elim!: rel_prod.cases)
  then have self: "spells 0 m (table_value (ArrayTable r)) (ArrayTree len ts)" using array by (simp add: spells.array)
  have "list_all2 (\<lambda>(k, v) (a, b). write_value D ctx m (insert (ArrayTable r) act) k = Inr (print_tree D ctx a) \<and>
      write_value D ctx m (insert (ArrayTable r) act) v = Inr (print_tree D ctx b)) es ts"
    using l by (rule list.rel_mono_strong)
      (use array(5) subtree_size(2) inside_of_child [OF array(6) self] in \<open>fastforce elim!: rel_prod.cases\<close>)
  from write_entries_intro [OF this] show ?case
    using inside_of_fresh [OF array(6) self] array(2,3) list_all2_lengthD [OF l] by simp
qed

lemma encode_iff:
  "encode_value_with_context D v m ctx = Inr bs \<longleftrightarrow>
   (\<exists>t. spells 0 m v t \<and> writable D (Option.bind ctx pvc_share) t \<and>
        bs = VALUE_MAGIC @ print_tree D (Option.bind ctx pvc_share) t)"
  unfolding encode_value_with_context_def map_ok_Inr_iff
  using write_sound(1) write_complete [of m v _ D _ "{}"] by (fastforce simp: inside_of_def)

text \<open>C19: The encoder succeeds on a value exactly when the value spells a finite tree whose leaves are
  scalars it can write, and that tree is the only one it spells; the bytes are then the magic and the
  printed tree. So a value that reaches itself through its tables, a table that is gone, a closure, a
  foreign object and a share without a context are all refused, and nothing else is.\<close>

theorem encode_exact:
  "encode_value_with_context D v m ctx = Inr bs \<longleftrightarrow>
   (\<exists>!t. spells 0 m v t \<and> writable D (Option.bind ctx pvc_share) t \<and>
         bs = VALUE_MAGIC @ print_tree D (Option.bind ctx pvc_share) t)"
proof
  assume "encode_value_with_context D v m ctx = Inr bs"
  then obtain t where "spells 0 m v t" "writable D (Option.bind ctx pvc_share) t"
      "bs = VALUE_MAGIC @ print_tree D (Option.bind ctx pvc_share) t"
    by (auto simp: encode_iff)
  then show "\<exists>!t. spells 0 m v t \<and> writable D (Option.bind ctx pvc_share) t \<and>
      bs = VALUE_MAGIC @ print_tree D (Option.bind ctx pvc_share) t"
    by (intro ex1I [of _ t]) (auto intro: spells_unique)
qed (auto simp: encode_iff)

end
