(* ===== verification/Value_Roundtrip.thy ===== *)
theory Value_Roundtrip
  imports Value_Persistence
begin

text \<open>
  The decoder rebuilds an encoded value: reading the printed tree of a value creates fresh tables
  that spell the same tree, and every table the receiving store had keeps its contents. The key step
  is that each pair the decoder writes extends the entries of the table it is filling.
\<close>

section \<open>Entries of a table under construction\<close>

definition table_entries :: "object_store \<Rightarrow> table_ref \<Rightarrow> table_memory_error + (val \<times> val) list" where
  "table_entries m t =
     (case t of ObjectTable r \<Rightarrow> object_ref_entries m r usize_max | ArrayTable r \<Rightarrow> array_ref_entries m r usize_max)"

definition all_entries :: "arr \<Rightarrow> (val \<times> val) list" where
  "all_entries a = map (\<lambda>i. (I64 (of_nat i), array_elem a i)) [0..<length_hint a] @
     filter (\<lambda>(k, _). \<not> is_index_key k) (extra_fields a)"

lemma array_entries_all:
  assumes "array_ok a"
  shows "array_entries a usize_max = take usize_max (all_entries a)"
proof -
  have n: "length_hint a \<le> i64_max" using assms by (simp add: array_ok_def)
  then have n': "length_hint a < usize_max" by (simp add: i64_max_def usize_max_def)
  have k: "is_length_index_key k (length_hint a) \<longleftrightarrow> is_index_key k" if "(k, v) \<in> set (extra_fields a)" for k v
    using assms that by (cases k) (auto simp: array_ok_def)
  have "filter (\<lambda>(k, _). \<not> is_length_index_key k (length_hint a)) (extra_fields a) =
      filter (\<lambda>(k, _). \<not> is_index_key k) (extra_fields a)"
    by (rule filter_cong) (auto simp: k)
  moreover have "takeWhile (\<lambda>i. i \<le> i64_max) [0..<length_hint a] = [0..<length_hint a]"
    using n by (simp only: takeWhile_eq_all_conv) simp
  moreover have "min (length_hint a) usize_max = length_hint a" using n' by simp
  ultimately show ?thesis using n'
    by (simp only: array_entries_def all_entries_def or_unit_array_get Let_def) simp
qed

lemma index_keys_of_entries:
  "array_ok a \<Longrightarrow> length (filter (is_index_key \<circ> fst) (all_entries a)) = length_hint a"
proof -
  assume "array_ok a"
  then have "is_index_key (I64 (of_nat i))" if "i < length_hint a" for i
    using that by (simp add: array_ok_def sint_of_nat_i64)
  moreover have "filter (is_index_key \<circ> fst) (filter (\<lambda>(k, _). \<not> is_index_key k) es) = []" for es :: "(val \<times> val) list"
    by (induction es) auto
  ultimately show ?thesis by (simp add: all_entries_def filter_map comp_def)
qed

text \<open>A key that may come next: new and, for an array, the next index before every other key.\<close>

fun next_key :: "table_ref \<Rightarrow> (val \<times> val) list \<Rightarrow> val \<Rightarrow> bool" where
  "next_key (ObjectTable r) es k \<longleftrightarrow> (\<forall>(k', _)\<in>set es. \<not> value_eq k' k)"
| "next_key (ArrayTable r) es k \<longleftrightarrow>
     (if is_index_key k then k = I64 (of_nat (length es)) \<and> length es < i64_max \<and> (\<forall>(k', _)\<in>set es. is_index_key k')
      else \<forall>(k', _)\<in>set es. \<not> value_eq k' k)"

lemma array_set_new_field:
  assumes "array_ok a" "\<not> is_index_key k" "\<forall>(k', _)\<in>set (all_entries a). \<not> value_eq k' k"
  shows "\<exists>b. array_try_set k v a = (Inr (), b) \<and> array_ok b \<and> all_entries b = all_entries a @ [(k, v)]"
proof -
  have "hm_get value_eq (filter (\<lambda>(k, _). \<not> is_index_key k) (extra_fields a)) k = None"
    using assms(3) by (auto simp: hm_get_None_iff all_entries_def)
  then have "hm_get value_eq (extra_fields a) k = None"
    using assms(2) hm_get_filter [where P = "\<lambda>k. \<not> is_index_key k"] is_index_key_cong by metis
  note new = hm_insert_new [OF this, of v]
  obtain b where b: "array_try_set k v a = (Inr (), b)" "array_ok b" "array_seq b = array_seq a"
    using array_set_field_spec [OF assms(1,2)] by blast
  have "b = a\<lparr>extra_fields := extra_fields a @ [(k, v)]\<rparr>"
    using b(1) assms(2) new by (cases k) (auto simp: array_try_set_def split: if_splits)
  then have "all_entries b = all_entries a @ [(k, v)]"
    using b(3) assms(2) by (simp add: all_entries_def array_seq_def)
  with b show ?thesis by blast
qed

lemma array_set_next_index:
  assumes "array_ok a" "k = I64 (of_nat (length (all_entries a)))" "length (all_entries a) < i64_max"
    and "\<forall>(k', _)\<in>set (all_entries a). is_index_key k'"
  shows "\<exists>b. array_try_set k v a = (Inr (), b) \<and> array_ok b \<and> all_entries b = all_entries a @ [(k, v)]"
proof -
  have x: "\<forall>(k', _)\<in>set (extra_fields a). is_index_key k'" using assms(4) by (auto simp: all_entries_def)
  then have none: "filter (\<lambda>(k, _). \<not> is_index_key k) (extra_fields a) = []" by (auto simp: filter_empty_conv)
  have n: "length (all_entries a) = length_hint a" by (simp add: all_entries_def none)
  let ?b = "array_store_at (length_hint a) v a"
  have i: "length_hint a < i64_max" using assms(3) n by simp
  have set: "array_try_set k v a = (Inr (), ?b)"
    using i by (simp add: assms(2) n array_try_set_def Let_def checked_add_usize_def usize_max_def
        i64_try_from_usize_def i64_max_def sint_of_nat_i64 [unfolded i64_max_def])
  have x': "\<forall>(k', _)\<in>set (extra_fields ?b). is_index_key k'"
    using x i by (auto simp: array_store_at_def Let_def sint_of_nat_i64 dest!: hm_insert_mem)
  then have none': "filter (\<lambda>(k, _). \<not> is_index_key k) (extra_fields ?b) = []" by (auto simp: filter_empty_conv)
  have "map (array_elem ?b) [0..<length_hint a] @ [array_elem ?b (length_hint a)] = map (array_elem a) [0..<length_hint a] @ [v]"
    using array_store_at_append [OF assms(1) i, of v] by (simp add: array_seq_def array_store_at_length)
  then have "all_entries ?b = all_entries a @ [(k, v)]"
    by (simp add: all_entries_def none none' array_store_at_length assms(2) n)
  then show ?thesis using set array_store_at_ok [OF assms(1) i] by blast
qed

section \<open>Stores that keep tables\<close>

fun handle :: "table_ref \<Rightarrow> usize" where
  "handle (ObjectTable r) = r"
| "handle (ArrayTable r) = r"

fun same_table :: "object_store \<Rightarrow> object_store \<Rightarrow> table_ref \<Rightarrow> bool" where
  "same_table m m' (ObjectTable r) \<longleftrightarrow> hm_get (=) (objects m') r = hm_get (=) (objects m) r"
| "same_table m m' (ArrayTable r) \<longleftrightarrow> hm_get (=) (arrays m') r = hm_get (=) (arrays m) r"

definition keeps :: "table_ref set \<Rightarrow> object_store \<Rightarrow> object_store \<Rightarrow> bool" where
  "keeps S m m' \<longleftrightarrow> (\<forall>t\<in>S. live m t \<longrightarrow> same_table m m' t)"

lemma keeps_refl: "keeps S m m"
  unfolding keeps_def using same_table.simps by (metis table_ref.exhaust)

lemma same_table_live: "same_table m m' t \<Longrightarrow> live m' t = live m t"
  by (cases t) simp_all

lemma same_table_trans: "same_table m m' t \<Longrightarrow> same_table m' m'' t \<Longrightarrow> same_table m m'' t"
  by (cases t) simp_all

lemma keeps_trans: "keeps S m m' \<Longrightarrow> keeps S m' m'' \<Longrightarrow> keeps S m m''"
  unfolding keeps_def using same_table_live same_table_trans by blast

lemma keeps_mono: "keeps S m m' \<Longrightarrow> S' \<subseteq> S \<Longrightarrow> keeps S' m m'"
  unfolding keeps_def by blast

lemma entries_same: "same_table m m' t \<Longrightarrow> table_entries m' t = table_entries m t"
  by (cases t) (simp_all add: table_entries_def object_ref_entries_def array_ref_entries_def)

lemma pairs_mono:
  "list_all2 (rel_prod P P) es us \<Longrightarrow> (\<And>x y. P x y \<Longrightarrow> Q x y) \<Longrightarrow> list_all2 (rel_prod Q Q) es us"
  by (erule list_all2_mono) (auto elim!: rel_prod.cases)

lemma spells_keeps:
  "spells n m v t \<Longrightarrow> keeps {x. n \<le> handle x} m m' \<Longrightarrow> spells n m' v t"
proof (induction rule: spells.induct)
  case (object r es ts)
  have "live m (ObjectTable r)" using object(2) by (auto simp: object_ref_entries_def map_ok_Inr_iff ok_or_Inr_iff)
  then have "same_table m m' (ObjectTable r)" using object(1,4) unfolding keeps_def by fastforce
  then have "object_ref_entries m' r usize_max = Inr es" using object(2) by (simp add: object_ref_entries_def)
  moreover have "list_all2 (rel_prod (spells n m') (spells n m')) es ts"
    using object(3) by (rule list.rel_mono_strong) (use object(4) in \<open>auto elim!: rel_prod.cases\<close>)
  ultimately show ?case using object(1) by (rule_tac spells.object)
next
  case (array r len es ts)
  have "live m (ArrayTable r)" using array(3) by (auto simp: array_ref_entries_def map_ok_Inr_iff ok_or_Inr_iff)
  then have "same_table m m' (ArrayTable r)" using array(1,5) unfolding keeps_def by fastforce
  then have "array_ref_len m' r = Inr len" "array_ref_entries m' r usize_max = Inr es"
    using array(2,3) by (simp_all add: array_ref_entries_def array_ref_len_def)
  moreover have "list_all2 (rel_prod (spells n m') (spells n m')) es ts"
    using array(4) by (rule list.rel_mono_strong) (use array(5) in \<open>auto elim!: rel_prod.cases\<close>)
  ultimately show ?case using array(1) by (rule_tac spells.array)
qed (simp add: spells.leaf)

lemma spells_mono: "spells n m v t \<Longrightarrow> k \<le> n \<Longrightarrow> spells k m v t"
proof (induction rule: spells.induct)
  case (object r es ts)
  have "list_all2 (rel_prod (spells k m) (spells k m)) es ts"
    using object(3) by (rule list.rel_mono_strong) (use object(4) in \<open>auto elim!: rel_prod.cases\<close>)
  then show ?case using object by (intro spells.object) auto
next
  case (array r len es ts)
  have "list_all2 (rel_prod (spells k m) (spells k m)) es ts"
    using array(4) by (rule list.rel_mono_strong) (use array(5) in \<open>auto elim!: rel_prod.cases\<close>)
  then show ?case using array by (intro spells.array) auto
qed (simp add: spells.leaf)

lemma live_below: "store_ok m \<Longrightarrow> live m t \<Longrightarrow> handle t < next_id m"
  by (cases t) (auto dest: store_ok_object store_ok_array)


lemma keeps_put:
  "keeps (- {ObjectTable r}) m (m\<lparr>objects := hm_insert (=) r x (objects m)\<rparr>)"
  "keeps (- {ArrayTable r}) m (m\<lparr>arrays := hm_insert (=) r y (arrays m)\<rparr>)"
  unfolding keeps_def by (auto simp: heq.get_insert split: if_splits elim!: live.elims)

lemma append_field:
  assumes "store_ok m" "table_entries m t = Inr es" "next_key t es k" "length es < usize_max"
  shows "\<exists>m'. set_table_field t k v m = (Inr (), m') \<and> store_ok m' \<and> next_id m' = next_id m \<and>
              table_entries m' t = Inr (es @ [(k, v)]) \<and> keeps (- {t}) m m'"
proof (cases t)
  case (ObjectTable r)
  then obtain ob where ob: "hm_get (=) (objects m) r = Some ob" "es = take usize_max ob"
    using assms(2) by (auto simp: table_entries_def object_ref_entries_def map_ok_Inr_iff ok_or_Inr_iff)
  then have es: "es = ob" using assms(4) by simp
  have "hm_insert value_eq k v ob = ob @ [(k, v)]"
    using assms(3) ObjectTable es by (intro hm_insert_new) (auto simp: hm_get_None_iff)
  moreover have "hm_distinct value_eq (hm_insert value_eq k v ob)" "r < next_id m"
    using store_ok_object [OF assms(1) ob(1)] veq.insert_distinct by auto
  ultimately show ?thesis
    using ob(1) ObjectTable es assms(4) store_ok_put_object [OF assms(1), of r "ob @ [(k, v)]"] keeps_put(1)
    by (auto simp: set_table_field_def table_entries_def object_ref_entries_def heq.get_insert)
next
  case (ArrayTable r)
  then obtain a where a: "hm_get (=) (arrays m) r = Some a" "es = array_entries a usize_max"
    using assms(2) by (auto simp: table_entries_def array_ref_entries_def map_ok_Inr_iff ok_or_Inr_iff)
  have ok: "array_ok a" "r < next_id m" using store_ok_array [OF assms(1) a(1)] by simp_all
  have es: "es = all_entries a" using a(2) assms(4) array_entries_all [OF ok(1)] by simp
  obtain b where b: "array_try_set k v a = (Inr (), b)" "array_ok b" "all_entries b = es @ [(k, v)]"
    using assms(3) ArrayTable array_set_new_field [OF ok(1), of k v] array_set_next_index [OF ok(1), of k v]
    by (auto simp: es split: if_splits)
  then have "array_entries b usize_max = es @ [(k, v)]" using array_entries_all [OF b(2)] assms(4) by simp
  then show ?thesis using a(1) ArrayTable b(1) store_ok_put_array [OF assms(1) ok(2) b(2)] keeps_put(2)
    by (auto simp: set_table_field_def on_array_ref_def table_entries_def array_ref_entries_def heq.get_insert)
qed

lemma create_table:
  assumes "store_ok m" "next_id m < usize_max"
  shows "\<exists>m'. create_object_ref m = (Inr (next_id m), m') \<and> store_ok m' \<and> next_id m' = Suc (next_id m) \<and>
           table_entries m' (ObjectTable (next_id m)) = Inr [] \<and> keeps UNIV m m'"
    and "\<exists>m'. create_array_ref_with_capacity c m = (Inr (next_id m), m') \<and> store_ok m' \<and> next_id m' = Suc (next_id m) \<and>
           table_entries m' (ArrayTable (next_id m)) = Inr [] \<and> keeps UNIV m m'"
proof -
  have "store_ok (m\<lparr>next_id := Suc (next_id m)\<rparr>)" using assms by (auto simp: store_ok_def)
  note put = store_ok_put_object [OF this, of "next_id m" "[]"] store_ok_put_array [OF this, of "next_id m" array_new]
  have fresh: "hm_get (=) (objects m) (next_id m) = None" "hm_get (=) (arrays m) (next_id m) = None"
    using live_below [OF assms(1), of "ObjectTable (next_id m)"] live_below [OF assms(1), of "ArrayTable (next_id m)"]
    by (simp_all, (meson not_Some_eq)+)
  have "keeps UNIV m (m\<lparr>next_id := Suc (next_id m), objects := hm_insert (=) (next_id m) [] (objects m)\<rparr>)"
    "keeps UNIV m (m\<lparr>next_id := Suc (next_id m), arrays := hm_insert (=) (next_id m) array_new (arrays m)\<rparr>)"
    unfolding keeps_def using fresh by (auto simp: heq.get_insert elim!: live.elims)
  then show "\<exists>m'. create_object_ref m = (Inr (next_id m), m') \<and> store_ok m' \<and> next_id m' = Suc (next_id m) \<and>
           table_entries m' (ObjectTable (next_id m)) = Inr [] \<and> keeps UNIV m m'"
    "\<exists>m'. create_array_ref_with_capacity c m = (Inr (next_id m), m') \<and> store_ok m' \<and> next_id m' = Suc (next_id m) \<and>
           table_entries m' (ArrayTable (next_id m)) = Inr [] \<and> keeps UNIV m m'"
    using put array_ok_new assms(2)
    by (simp_all add: create_object_ref_def create_array_ref_with_capacity_def array_with_capacity_def mbind_def
        allocate_id_def mmodify_def mret_def checked_add_usize_def table_entries_def object_ref_entries_def
        array_ref_entries_def heq.get_insert array_entries_def array_new_def)
qed

lemma keeps_new: "\<not> live m t \<Longrightarrow> keeps UNIV m m' \<Longrightarrow> keeps (- {t}) m' m'' \<Longrightarrow> keeps UNIV m m''"
  unfolding keeps_def using same_table_live same_table_trans by (metis ComplI UNIV_I singletonD)

section \<open>Trees that can be rebuilt\<close>

fun same_key :: "ptree \<Rightarrow> ptree \<Rightarrow> bool" where
  "same_key (Leaf a) (Leaf b) = value_eq a b"
| "same_key _ _ = False"

fun index_tree :: "ptree \<Rightarrow> bool" where
  "index_tree (Leaf v) = is_index_key v"
| "index_tree _ = False"

definition next_tree_key :: "bool \<Rightarrow> ptree list \<Rightarrow> ptree \<Rightarrow> bool" where
  "next_tree_key ar ks k \<longleftrightarrow>
     (if ar \<and> index_tree k then k = Leaf (I64 (of_nat (length ks))) \<and> length ks < i64_max \<and> list_all index_tree ks
      else \<forall>k'\<in>set ks. \<not> same_key k' k)"

definition tree_keys :: "bool \<Rightarrow> ptree list \<Rightarrow> bool" where
  "tree_keys ar ks \<longleftrightarrow> (\<forall>i<length ks. next_tree_key ar (take i ks) (ks ! i))"

inductive tree_ok :: "ptree \<Rightarrow> bool" where
  "\<not> is_table v \<Longrightarrow> scalar_ok v \<Longrightarrow> tree_ok (Leaf v)"
| "(\<And>a b. (a, b) \<in> set ts \<Longrightarrow> tree_ok a \<and> tree_ok b) \<Longrightarrow> tree_keys False (map fst ts) \<Longrightarrow>
   length ts \<le> MAX_PERSISTENT_TABLE_ENTRIES \<Longrightarrow> tree_ok (ObjectTree ts)"
| "(\<And>a b. (a, b) \<in> set ts \<Longrightarrow> tree_ok a \<and> tree_ok b) \<Longrightarrow> tree_keys True (map fst ts) \<Longrightarrow>
   length ts \<le> MAX_PERSISTENT_TABLE_ENTRIES \<Longrightarrow> len = length (filter index_tree (map fst ts)) \<Longrightarrow>
   tree_ok (ArrayTree len ts)"

fun is_array_table :: "table_ref \<Rightarrow> bool" where
  "is_array_table (ArrayTable _) = True"
| "is_array_table (ObjectTable _) = False"

lemma spells_index: "spells n m k a \<Longrightarrow> is_index_key k = index_tree a"
  by (cases rule: spells.cases) auto

lemma spells_table_live:
  "spells n m (Object r) a \<Longrightarrow> live m (ObjectTable r) \<and> n \<le> r"
  "spells n m (Array r) a \<Longrightarrow> live m (ArrayTable r) \<and> n \<le> r"
  by (auto elim!: spells_ObjectE spells_ArrayE simp: object_ref_entries_def array_ref_entries_def map_ok_Inr_iff ok_or_Inr_iff)

lemma fresh_key:
  assumes "store_ok m" "spells n m k' a'" "spells (next_id m) m' k a" "\<not> same_key a' a"
  shows "\<not> value_eq k' k"
proof
  assume eq: "value_eq k' k"
  show False
  proof (cases "is_table k'")
    case True
    then have "k = k'" using eq by (cases k'; cases k) (auto simp: value_eq_def)
    then show False using assms(1-3) True live_below [OF assms(1)]
      by (cases k') (fastforce dest: spells_table_live)+
  next
    case False
    then have "\<not> is_table k" using eq by (cases k'; cases k) (auto simp: value_eq_def)
    then have "a' = Leaf k'" "a = Leaf k"
      using False spells_unique [OF assms(2) spells.leaf] spells_unique [OF assms(3) spells.leaf] by blast+
    then show False using assms(4) eq by simp
  qed
qed

lemma next_key_spelled:
  assumes "store_ok m" "list_all2 (rel_prod (spells n m) (spells n m)) es us" "spells (next_id m) m' k a"
    and "next_tree_key (is_array_table t) (map fst us) a"
  shows "next_key t es k"
proof -
  have ex: "\<exists>a'\<in>set (map fst us). spells n m k' a'" if mem: "(k', v') \<in> set es" for k' v'
  proof -
    obtain i where "i < length es" "es ! i = (k', v')" using mem unfolding in_set_conv_nth by blast
    then have "rel_prod (spells n m) (spells n m) (k', v') (us ! i)" "us ! i \<in> set us"
      using list_all2_nthD [OF assms(2), of i] list_all2_lengthD [OF assms(2)] by auto
    then show ?thesis by (force elim!: rel_prod.cases)
  qed
  note idx = spells_index [OF assms(3)] and len = list_all2_lengthD [OF assms(2)]
  have new: "\<not> value_eq k' k" if "(k', v') \<in> set es" "\<forall>a'\<in>set (map fst us). \<not> same_key a' a" for k' v'
    using ex [OF that(1)] that(2) fresh_key [OF assms(1) _ assms(3)] by blast
  have all: "is_index_key k'" if "(k', v') \<in> set es" "list_all index_tree (map fst us)" for k' v'
    using ex [OF that(1)] that(2) spells_index by (auto simp: list_all_iff)
  have k: "k = v" if "a = Leaf v" for v using assms(3) that by (auto elim: spells.cases)
  show ?thesis using assms(4) new all k idx len
    by (cases t) (auto simp: next_tree_key_def split: if_splits)
qed

lemma tree_keysD: "tree_keys ar (map fst (us @ (a, b) # ts)) \<Longrightarrow> next_tree_key ar (map fst us) a"
  unfolding tree_keys_def by (drule spec [of _ "length us"]) (simp add: nth_append)


section \<open>Reading a printed tree\<close>

definition moved :: "nat \<Rightarrow> object_store \<Rightarrow> value_reader \<Rightarrow> value_reader" where
  "moved n m s = (advance n s)\<lparr>memory := m\<rparr>"

lemma moved_simps [simp]:
  "unread (moved n m s) = drop n (unread s)" "memory (moved n m s) = m"
  "moved k m' (moved n m s) = moved (n + k) m' s" "moved k m' (advance n s) = moved (n + k) m' s"
  "(moved n m s)\<lparr>memory := m'\<rparr> = moved n m' s"
  by (simp_all add: moved_def advance_def add.commute add.left_commute)

lemma room_moved: "room s \<Longrightarrow> n \<le> length (unread s) \<Longrightarrow> room (moved n m s)"
  by (simp add: room_def moved_def)

lemma advance_moved: "advance n s = moved n (memory s) s"
  by (simp add: moved_def advance_def)

definition rebuilt :: "object_store \<Rightarrow> nat \<Rightarrow> object_store \<Rightarrow> val \<Rightarrow> ptree \<Rightarrow> bool" where
  "rebuilt m n m' v t \<longleftrightarrow> store_ok m' \<and> keeps UNIV m m' \<and> next_id m \<le> next_id m' \<and> next_id m' \<le> next_id m + n \<and>
     spells (next_id m) m' v t"

text \<open>What reading needs: input that begins with the bytes, and handles left for every table in it.\<close>

definition ready :: "byte list \<Rightarrow> value_reader \<Rightarrow> bool" where
  "ready bs s \<longleftrightarrow> (\<exists>rest. unread s = bs @ rest) \<and> length (unread s) \<le> MAX_PERSISTENT_VALUE_BYTES \<and> room s \<and>
     store_ok (memory s) \<and> next_id (memory s) + length bs \<le> usize_max"

definition rebuilds ::
  "(byte list \<Rightarrow> byte list) \<Rightarrow> persistent_share_context option \<Rightarrow> ptree \<Rightarrow> bool" where
  "rebuilds D ctx t \<longleftrightarrow> (\<forall>s. ready (print_tree D ctx t) s \<longrightarrow>
     (\<exists>v m. read_value D ctx s = (Inr v, moved (length (print_tree D ctx t)) m s) \<and>
            rebuilt (memory s) (length (print_tree D ctx t)) m v t))"

lemma ready_left: "ready (bs @ cs) s \<Longrightarrow> ready bs s"
  by (auto simp: ready_def)

lemma ready_right:
  "ready (bs @ cs) s \<Longrightarrow> store_ok m \<Longrightarrow> next_id m \<le> next_id (memory s) + length bs \<Longrightarrow> ready cs (moved (length bs) m s)"
  by (auto simp: ready_def intro: room_moved)

abbreviation print_entries ::
  "(byte list \<Rightarrow> byte list) \<Rightarrow> persistent_share_context option \<Rightarrow> (ptree \<times> ptree) list \<Rightarrow> byte list" where
  "print_entries D ctx ts \<equiv> concat (map (\<lambda>(a, b). print_tree D ctx a @ print_tree D ctx b) ts)"

lemma fill_step:
  assumes "rebuilds D ctx a" "rebuilds D ctx b" "ready (print_tree D ctx a @ print_tree D ctx b @ cs) s"
    and es: "table_entries (memory s) t = Inr es"
    and us: "list_all2 (rel_prod (spells (Suc (handle t)) (memory s)) (spells (Suc (handle t)) (memory s))) es us"
    and key: "next_tree_key (is_array_table t) (map fst us) a" and len: "length us < usize_max"
  defines "n \<equiv> length (print_tree D ctx a @ print_tree D ctx b)"
  shows "\<exists>k v m. mbind (read_value D ctx) (\<lambda>k. mbind (read_value D ctx) (\<lambda>v.
              mbind (on_memory oper (set_table_field t k v)) f)) s = f () (moved n m s) \<and>
           ready cs (moved n m s) \<and> keeps (- {t}) (memory s) m \<and> next_id (memory s) \<le> next_id m \<and>
           next_id m \<le> next_id (memory s) + n \<and> table_entries m t = Inr (es @ [(k, v)]) \<and>
           list_all2 (rel_prod (spells (Suc (handle t)) m) (spells (Suc (handle t)) m)) (es @ [(k, v)]) (us @ [(a, b)])"
proof -
  let ?m = "memory s" and ?h = "Suc (handle t)"
  have ok: "store_ok ?m" using assms(3) by (simp add: ready_def)
  have live: "live ?m t"
    using es by (cases t) (auto simp: table_entries_def object_ref_entries_def array_ref_entries_def map_ok_Inr_iff ok_or_Inr_iff)
  then have h: "?h \<le> next_id ?m" using live_below [OF ok] by (simp add: Suc_leI)
  obtain k m1 where k: "read_value D ctx s = (Inr k, moved (length (print_tree D ctx a)) m1 s)"
    and r1: "rebuilt ?m (length (print_tree D ctx a)) m1 k a"
    using assms(1) ready_left [OF assms(3)] by (auto simp: rebuilds_def)
  let ?s1 = "moved (length (print_tree D ctx a)) m1 s"
  have s1: "ready (print_tree D ctx b @ cs) ?s1" using ready_right [OF assms(3)] r1 by (simp add: rebuilt_def)
  obtain v m2 where v: "read_value D ctx ?s1 = (Inr v, moved (length (print_tree D ctx b)) m2 ?s1)"
    and r2: "rebuilt m1 (length (print_tree D ctx b)) m2 v b"
    using assms(2) ready_left [OF s1] by (fastforce simp: rebuilds_def)
  have kept: "keeps UNIV ?m m2" using r1 r2 keeps_trans by (auto simp: rebuilt_def)
  then have es2: "table_entries m2 t = Inr es" using live es entries_same unfolding keeps_def by fastforce
  have "next_key t es k" using next_key_spelled [OF ok us _ key, of m1 k] r1 by (simp add: rebuilt_def)
  moreover have "length es < usize_max" using len list_all2_lengthD [OF us] by simp
  ultimately obtain m3 where m3: "set_table_field t k v m2 = (Inr (), m3)" "store_ok m3" "next_id m3 = next_id m2"
      "table_entries m3 t = Inr (es @ [(k, v)])" "keeps (- {t}) m2 m3"
    using append_field [of m2 t es k v] es2 r2 by (auto simp: rebuilt_def)
  have above: "keeps {x. ?h \<le> handle x} m2 m3" by (rule keeps_mono [OF m3(5)]) auto
  have sp: "spells ?h m3 x y" if "spells ?h m2 x y" for x y using spells_keeps [OF that above] .
  have k3: "spells ?h m3 k a"
  proof (rule sp)
    have "spells (next_id ?m) m2 k a"
      by (rule spells_keeps [of _ m1]) (use r1 r2 in \<open>auto simp: rebuilt_def intro: keeps_mono\<close>)
    then show "spells ?h m2 k a" using h by (rule spells_mono)
  qed
  have v3: "spells ?h m3 v b"
    by (rule sp, rule spells_mono [of "next_id m1"]) (use r1 r2 h in \<open>simp_all add: rebuilt_def\<close>)
  have "list_all2 (rel_prod (spells ?h m3) (spells ?h m3)) es us"
    using us by (rule pairs_mono) (rule sp [OF spells_keeps [OF _ keeps_mono [OF kept subset_UNIV]]])
  then have "list_all2 (rel_prod (spells ?h m3) (spells ?h m3)) (es @ [(k, v)]) (us @ [(a, b)])"
    using k3 v3 by (simp add: list_all2_appendI)
  moreover have "ready cs (moved n m3 s)"
    using ready_right [of "print_tree D ctx a @ print_tree D ctx b" cs s m3] assms(3) m3 r1 r2
    by (simp add: rebuilt_def n_def)
  moreover have "keeps (- {t}) ?m m3" using keeps_mono [OF kept] m3(5) keeps_trans by blast
  moreover have "mbind (read_value D ctx) (\<lambda>k. mbind (read_value D ctx) (\<lambda>v.
      mbind (on_memory oper (set_table_field t k v)) f)) s = f () (moved n m3 s)"
    by (simp add: mbind_def k v on_memory_def m3(1) n_def)
  ultimately show ?thesis using m3(3,4) r1 r2
    by (intro exI [of _ k] exI [of _ v] exI [of _ m3]) (simp add: rebuilt_def n_def)
qed

lemma fill_rebuilds:
  assumes "\<And>a b. (a, b) \<in> set ts \<Longrightarrow> rebuilds D ctx a \<and> rebuilds D ctx b" "ready (print_entries D ctx ts) s"
    and "table_entries (memory s) t = Inr es"
    and "list_all2 (rel_prod (spells (Suc (handle t)) (memory s)) (spells (Suc (handle t)) (memory s))) es us"
    and "tree_keys (is_array_table t) (map fst (us @ ts))" "length (us @ ts) < usize_max"
  shows "\<exists>m es'. fill_table (read_value D ctx) oper t (length ts) s =
             (Inr (), moved (length (print_entries D ctx ts)) m s) \<and> store_ok m \<and> keeps (- {t}) (memory s) m \<and>
           next_id (memory s) \<le> next_id m \<and> next_id m \<le> next_id (memory s) + length (print_entries D ctx ts) \<and>
           table_entries m t = Inr es' \<and>
           list_all2 (rel_prod (spells (Suc (handle t)) m) (spells (Suc (handle t)) m)) es' (us @ ts)"
  using assms
proof (induction ts arbitrary: s es us)
  case Nil
  then show ?case
    by (intro exI [of _ "memory s"] exI [of _ es]) (simp add: mret_def ready_def keeps_refl moved_def advance_def)
next
  case (Cons p ts)
  obtain a b where p: "p = (a, b)" by force
  let ?n = "length (print_tree D ctx a @ print_tree D ctx b)"
  have ab: "rebuilds D ctx a" "rebuilds D ctx b" using Cons.prems(1) by (auto simp: p)
  have key: "next_tree_key (is_array_table t) (map fst us) a" using Cons.prems(5) by (intro tree_keysD) (simp add: p)
  have us: "length us < usize_max" using Cons.prems(6) by simp
  have rd: "ready (print_tree D ctx a @ print_tree D ctx b @ print_entries D ctx ts) s" using Cons.prems(2) by (simp add: p)
  obtain k v m where step: "fill_table (read_value D ctx) oper t (length (p # ts)) s =
        fill_table (read_value D ctx) oper t (length ts) (moved ?n m s)"
    and m: "ready (print_entries D ctx ts) (moved ?n m s)" "keeps (- {t}) (memory s) m" "next_id (memory s) \<le> next_id m"
        "next_id m \<le> next_id (memory s) + ?n" "table_entries m t = Inr (es @ [(k, v)])"
        "list_all2 (rel_prod (spells (Suc (handle t)) m) (spells (Suc (handle t)) m)) (es @ [(k, v)]) (us @ [(a, b)])"
    using fill_step [OF ab rd Cons.prems(3,4) key us, of oper "\<lambda>_. fill_table (read_value D ctx) oper t (length ts)"]
    by auto
  obtain m' es' where fin: "fill_table (read_value D ctx) oper t (length ts) (moved ?n m s) =
        (Inr (), moved (length (print_entries D ctx ts)) m' (moved ?n m s))" "store_ok m'" "keeps (- {t}) m m'"
      "next_id m \<le> next_id m'" "next_id m' \<le> next_id m + length (print_entries D ctx ts)" "table_entries m' t = Inr es'"
      "list_all2 (rel_prod (spells (Suc (handle t)) m') (spells (Suc (handle t)) m')) es' ((us @ [(a, b)]) @ ts)"
    using Cons.IH [of "moved ?n m s" "es @ [(k, v)]" "us @ [(a, b)]"] Cons.prems(1,5,6) m by (auto simp: p)
  show ?case
    using step m(2-4) fin keeps_trans [OF m(2) fin(3)]
    by (intro exI [of _ m'] exI [of _ es']) (simp add: p add.assoc)
qed


lemma fill_new:
  assumes "\<And>a b. (a, b) \<in> set ts \<Longrightarrow> rebuilds D ctx a \<and> rebuilds D ctx b" "ready (print_entries D ctx ts) s"
    and "table_entries (memory s) t = Inr []" "tree_keys (is_array_table t) (map fst ts)"
    and "length ts \<le> MAX_PERSISTENT_TABLE_ENTRIES"
  shows "\<exists>m es. fill_table (read_value D ctx) oper t (length ts) s =
             (Inr (), moved (length (print_entries D ctx ts)) m s) \<and> store_ok m \<and> keeps (- {t}) (memory s) m \<and>
           next_id (memory s) \<le> next_id m \<and> next_id m \<le> next_id (memory s) + length (print_entries D ctx ts) \<and>
           table_entries m t = Inr es \<and> list_all2 (rel_prod (spells (Suc (handle t)) m) (spells (Suc (handle t)) m)) es ts"
proof -
  have "length ([] @ ts) < usize_max" using assms(5) by (simp add: MAX_PERSISTENT_TABLE_ENTRIES_def usize_max_def)
  with fill_rebuilds [of ts D ctx s t "[]" "[]" oper] assms show ?thesis by simp
qed

lemma read_bounded:
  "ready (write_len n @ bs) s \<Longrightarrow> n \<le> MAX_PERSISTENT_TABLE_ENTRIES \<Longrightarrow>
   read_len_bounded label MAX_PERSISTENT_TABLE_ENTRIES s = (Inr n, moved (length (write_len n)) (memory s) s)"
  using readsD [OF reads_len_bounded [of n MAX_PERSISTENT_TABLE_ENTRIES label], of s]
  by (fastforce simp: ready_def advance_moved MAX_PERSISTENT_TABLE_ENTRIES_def)

lemma rebuilds_object:
  assumes ts: "\<And>a b. (a, b) \<in> set ts \<Longrightarrow> rebuilds D ctx a \<and> rebuilds D ctx b"
    and keys: "tree_keys False (map fst ts)" and len: "length ts \<le> MAX_PERSISTENT_TABLE_ENTRIES"
  shows "rebuilds D ctx (ObjectTree ts)"
  unfolding rebuilds_def
proof (intro allI impI)
  fix s assume "ready (print_tree D ctx (ObjectTree ts)) s"
  then have s: "ready ([13] @ write_len (length ts) @ print_entries D ctx ts) s" by simp
  let ?m = "memory s" and ?r = "next_id (memory s)"
  have ok: "store_ok ?m" "?r < usize_max" using s by (auto simp: ready_def)
  obtain m0 where m0: "create_object_ref ?m = (Inr ?r, m0)" "store_ok m0" "next_id m0 = Suc ?r"
    "table_entries m0 (ObjectTable ?r) = Inr []" "keeps UNIV ?m m0"
    using create_table(1) [OF ok] by blast
  let ?s0 = "moved 1 m0 s"
  let ?s1 = "moved (length (write_len (length ts))) m0 ?s0"
  have s0: "ready (write_len (length ts) @ print_entries D ctx ts) ?s0" using ready_right [OF s m0(2)] m0(3) by simp
  have s1: "ready (print_entries D ctx ts) ?s1" using ready_right [OF s0 m0(2)] by simp
  obtain m es where fin: "fill_table (read_value D ctx) ''set object field'' (ObjectTable ?r) (length ts) ?s1 =
        (Inr (), moved (length (print_entries D ctx ts)) m ?s1)" "store_ok m" "keeps (- {ObjectTable ?r}) m0 m"
      "next_id m0 \<le> next_id m" "next_id m \<le> next_id m0 + length (print_entries D ctx ts)"
      "table_entries m (ObjectTable ?r) = Inr es" "list_all2 (rel_prod (spells (Suc ?r) m) (spells (Suc ?r) m)) es ts"
    using fill_new [OF ts s1, of "ObjectTable ?r" "''set object field''"] m0(4) keys len by auto
  have sub: "list_all2 (rel_prod (spells ?r m) (spells ?r m)) es ts"
    using fin(7) by (rule pairs_mono) (erule spells_mono, simp)
  have tag: "take_u8 s = (Inr 13, moved 1 ?m s)"
    using readsD [OF reads_u8, of s 13] s by (auto simp: ready_def advance_moved)
  have "on_memory ''create object'' create_object_ref (moved 1 ?m s) = (Inr ?r, ?s0)"
    by (simp add: on_memory_def m0(1) moved_def advance_def)
  then have "read_object (read_value D ctx) (moved 1 ?m s) =
      (Inr (Object ?r), moved (length (print_entries D ctx ts)) m ?s1)"
    using read_bounded [OF s0 len, of "''object entry''"] fin(1) by (simp add: read_object_def mbind_def mret_def)
  then have "read_value D ctx s = (Inr (Object ?r), moved (length (print_entries D ctx ts)) m ?s1)"
    by (subst read_value_rec) (simp add: read_value_body_def mbind_def tag)
  moreover have "spells ?r m (Object ?r) (ObjectTree ts)"
    using fin(6) sub by (intro spells.object) (simp_all add: table_entries_def)
  moreover have "keeps UNIV ?m m"
    using keeps_new [OF _ m0(5) fin(3)] live_below [OF ok(1), of "ObjectTable ?r"] by fastforce
  ultimately show "\<exists>v m. read_value D ctx s = (Inr v, moved (length (print_tree D ctx (ObjectTree ts))) m s) \<and>
        rebuilt ?m (length (print_tree D ctx (ObjectTree ts))) m v (ObjectTree ts)"
    using fin(2,4,5) m0(3) by (intro exI [of _ "Object ?r"] exI [of _ m]) (simp add: rebuilt_def add.assoc)
qed


lemma array_len_of_entries:
  assumes "store_ok m" "table_entries m (ArrayTable r) = Inr es"
    and "list_all2 (rel_prod (spells n m) (spells n m)) es ts" "length ts \<le> MAX_PERSISTENT_TABLE_ENTRIES"
  shows "array_ref_len m r = Inr (length (filter index_tree (map fst ts)))"
proof -
  obtain a where a: "hm_get (=) (arrays m) r = Some a" "es = array_entries a usize_max"
    using assms(2) by (auto simp: table_entries_def array_ref_entries_def map_ok_Inr_iff ok_or_Inr_iff)
  have ok: "array_ok a" using store_ok_array [OF assms(1) a(1)] by simp
  have "length es < usize_max"
    using list_all2_lengthD [OF assms(3)] assms(4) by (simp add: MAX_PERSISTENT_TABLE_ENTRIES_def usize_max_def)
  then have "es = all_entries a" using a(2) array_entries_all [OF ok] by simp
  then have "length_hint a = length (filter (is_index_key \<circ> fst) es)" using index_keys_of_entries [OF ok] by simp
  also have "\<dots> = length (filter index_tree (map fst ts))"
    using assms(3) by (induction rule: list_all2_induct) (auto simp: spells_index elim!: rel_prod.cases)
  finally show ?thesis using a(1) by (simp add: array_ref_len_def array_length_def)
qed

lemma rebuilds_array:
  assumes ts: "\<And>a b. (a, b) \<in> set ts \<Longrightarrow> rebuilds D ctx a \<and> rebuilds D ctx b"
    and keys: "tree_keys True (map fst ts)" and len: "length ts \<le> MAX_PERSISTENT_TABLE_ENTRIES"
    and n: "n = length (filter index_tree (map fst ts))"
  shows "rebuilds D ctx (ArrayTree n ts)"
  unfolding rebuilds_def
proof (intro allI impI)
  fix s assume "ready (print_tree D ctx (ArrayTree n ts)) s"
  then have s: "ready ([14] @ write_len n @ write_len (length ts) @ print_entries D ctx ts) s" by simp
  let ?m = "memory s" and ?r = "next_id (memory s)"
  have ok: "store_ok ?m" "?r < usize_max" using s by (auto simp: ready_def)
  have len': "n \<le> MAX_PERSISTENT_TABLE_ENTRIES" 
    using len length_filter_le [of index_tree "map fst ts"] unfolding n by (metis le_trans length_map)
  obtain m0 where m0: "create_array_ref_with_capacity n ?m = (Inr ?r, m0)" "store_ok m0" "next_id m0 = Suc ?r"
    "table_entries m0 (ArrayTable ?r) = Inr []" "keeps UNIV ?m m0"
    using create_table(2) [OF ok] by blast
  let ?s0 = "moved 1 ?m s"
  let ?s1 = "moved (length (write_len n)) m0 ?s0"
  let ?s2 = "moved (length (write_len (length ts))) m0 ?s1"
  have s0: "ready (write_len n @ write_len (length ts) @ print_entries D ctx ts) ?s0" using ready_right [OF s ok(1)] by simp
  have s1: "ready (write_len (length ts) @ print_entries D ctx ts) ?s1"
    using ready_right [OF s0 m0(2)] m0(3) by (simp add: write_len_def)
  have s2: "ready (print_entries D ctx ts) ?s2" using ready_right [OF s1 m0(2)] by simp
  obtain m es where fin: "fill_table (read_value D ctx) ''set array field'' (ArrayTable ?r) (length ts) ?s2 =
        (Inr (), moved (length (print_entries D ctx ts)) m ?s2)" "store_ok m" "keeps (- {ArrayTable ?r}) m0 m"
      "next_id m0 \<le> next_id m" "next_id m \<le> next_id m0 + length (print_entries D ctx ts)"
      "table_entries m (ArrayTable ?r) = Inr es" "list_all2 (rel_prod (spells (Suc ?r) m) (spells (Suc ?r) m)) es ts"
    using fill_new [OF ts s2, of "ArrayTable ?r" "''set array field''"] m0(4) keys len by auto
  have sub: "list_all2 (rel_prod (spells ?r m) (spells ?r m)) es ts"
    using fin(7) by (rule pairs_mono) (erule spells_mono, simp)
  have tag: "take_u8 s = (Inr 14, ?s0)" using readsD [OF reads_u8, of s 14] s by (auto simp: ready_def advance_moved)
  have "on_memory ''create array'' (create_array_ref_with_capacity n) (moved (length (write_len n)) ?m ?s0) = (Inr ?r, ?s1)"
    by (simp add: on_memory_def m0(1))
  then have "read_array (read_value D ctx) ?s0 = (Inr (Array ?r), moved (length (print_entries D ctx ts)) m ?s2)"
    using read_bounded [OF s0 len', of "''array''"] read_bounded [OF s1 len, of "''array entry''"] fin(1)
    by (simp add: read_array_def mbind_def mret_def)
  then have "read_value D ctx s = (Inr (Array ?r), moved (length (print_entries D ctx ts)) m ?s2)"
    by (subst read_value_rec) (simp add: read_value_body_def mbind_def tag)
  moreover have "spells ?r m (Array ?r) (ArrayTree n ts)"
    using fin(6) sub array_len_of_entries [OF fin(2,6) sub len] by (intro spells.array) (simp_all add: table_entries_def n)
  moreover have "keeps UNIV ?m m"
    using keeps_new [OF _ m0(5) fin(3)] live_below [OF ok(1), of "ArrayTable ?r"] by fastforce
  ultimately show "\<exists>v m. read_value D ctx s = (Inr v, moved (length (print_tree D ctx (ArrayTree n ts))) m s) \<and>
        rebuilt ?m (length (print_tree D ctx (ArrayTree n ts))) m v (ArrayTree n ts)"
    using fin(2,4,5) m0(3) by (intro exI [of _ "Array ?r"] exI [of _ m]) (simp add: rebuilt_def add.assoc)
qed

lemma rebuilds_leaf:
  assumes "\<not> is_table v" "scalar_ok v" "write_scalar D ctx v = Inr bs"
    and c: "\<And>c. ctx = Some c \<Longrightarrow> context_ok c" and D: "\<And>x. length (D x) = 32"
  shows "rebuilds D ctx (Leaf v)"
  unfolding rebuilds_def
proof (intro allI impI)
  fix s assume s: "ready (print_tree D ctx (Leaf v)) s"
  have bs: "print_tree D ctx (Leaf v) = bs" using assms(3) by simp
  have "length bs \<le> MAX_PERSISTENT_VALUE_BYTES" using s unfolding bs by (auto simp: ready_def)
  from reads_scalar [OF assms(3,2) c D this] have "reads (read_value D ctx) bs v" by (subst read_value_rec)
  then have "read_value D ctx s = (Inr v, moved (length bs) (memory s) s)"
    using s unfolding bs ready_def advance_moved [symmetric] by (auto dest: readsD)
  moreover have "rebuilt (memory s) (length bs) (memory s) v (Leaf v)"
    using s assms(1) unfolding bs by (simp add: rebuilt_def ready_def keeps_refl spells.leaf)
  ultimately show "\<exists>w m. read_value D ctx s = (Inr w, moved (length (print_tree D ctx (Leaf v))) m s) \<and>
      rebuilt (memory s) (length (print_tree D ctx (Leaf v))) m w (Leaf v)"
    unfolding bs by blast
qed

lemma rebuilds_tree:
  assumes "tree_ok t" "writable D ctx t" "\<And>c. ctx = Some c \<Longrightarrow> context_ok c" "\<And>x. length (D x) = 32"
  shows "rebuilds D ctx t"
  using assms(1,2)
proof (induction rule: tree_ok.induct)
  case (1 v)
  then show ?case using assms(3,4) by (auto intro: rebuilds_leaf)
next
  case (2 ts)
  then show ?case by (intro rebuilds_object) fastforce+
next
  case (3 ts len)
  then show ?case by (intro rebuilds_array) fastforce+
qed

section \<open>Trees of a well-formed store\<close>

lemma hm_distinct_nth: "hm_distinct eq m \<Longrightarrow> i < j \<Longrightarrow> j < length m \<Longrightarrow> \<not> eq (fst (m ! j)) (fst (m ! i))"
proof (induction m arbitrary: i j)
  case (Cons p m)
  obtain j' where j: "j = Suc j'" using Cons.prems(2) by (cases j) auto
  show ?case
  proof (cases i)
    case 0
    have "m ! j' \<in> set m" using Cons.prems(3) j by simp
    then show ?thesis using Cons.prems(1) 0 j by (cases p) (auto simp: hm_get_None_iff split_def)
  next
    case (Suc i')
    then show ?thesis using Cons.IH [of i' j'] Cons.prems j by (cases p) auto
  qed
qed simp

lemma distinct_new_key:
  assumes "hm_distinct value_eq es" "i < length es" "(k', v) \<in> set (take i es)"
  shows "\<not> value_eq k' (fst (es ! i))"
proof -
  obtain j where "j < i" "es ! j = (k', v)" using assms(2,3) by (auto simp: in_set_conv_nth)
  then show ?thesis using hm_distinct_nth [OF assms(1), of j i] assms(2) veq.sym by auto
qed

lemma array_next_keys:
  assumes "array_ok a" "i < length (all_entries a)"
  shows "next_key (ArrayTable r) (take i (all_entries a)) (fst (all_entries a ! i))"
proof -
  let ?n = "length_hint a" and ?x = "filter (\<lambda>(k, _). \<not> is_index_key k) (extra_fields a)"
  have n: "?n \<le> i64_max" using assms(1) by (simp add: array_ok_def)
  then have idx: "is_index_key (I64 (of_nat j))" if "j < ?n" for j using that by (simp add: sint_of_nat_i64)
  show ?thesis
  proof (cases "i < ?n")
    case True
    then have "\<forall>(k', _)\<in>set (take i (all_entries a)). is_index_key k'"
      using idx by (auto simp: all_entries_def take_map take_upt)
    then show ?thesis using True assms(2) n idx by (simp add: all_entries_def nth_append)
  next
    case False
    define j where "j = i - ?n"
    have j: "j < length ?x" "all_entries a ! i = ?x ! j"
      using False assms(2) by (auto simp: all_entries_def nth_append j_def)
    then have nk: "\<not> is_index_key (fst (?x ! j))" using nth_mem [OF j(1)] by (auto simp: split_def)
    have "hm_distinct value_eq ?x" using assms(1) by (simp add: array_ok_def hm_distinct_filter)
    note new = distinct_new_key [OF this j(1)]
    have "\<not> value_eq k' (fst (?x ! j))" if "(k', v) \<in> set (take i (all_entries a))" for k' v
      using that False new nk idx is_index_key_cong [of k' "fst (?x ! j)"]
      by (auto simp: all_entries_def j_def)
    then show ?thesis using nk j(2) by auto
  qed
qed

lemma next_tree_key_spelled:
  assumes "list_all2 (rel_prod (spells n m) (spells n m)) es us" "spells n m k a" "next_key t es k"
  shows "next_tree_key (is_array_table t) (map fst us) a"
proof -
  have ex: "\<exists>k' v'. (k', v') \<in> set es \<and> spells n m k' a'" if mem: "a' \<in> set (map fst us)" for a'
  proof -
    obtain i where "i < length us" "fst (us ! i) = a'" using mem by (auto simp: in_set_conv_nth)
    moreover have "rel_prod (spells n m) (spells n m) (es ! i) (us ! i)" "es ! i \<in> set es"
      using list_all2_nthD2 [OF assms(1), of i] list_all2_lengthD [OF assms(1)] calculation by auto
    ultimately show ?thesis by (cases "es ! i") (auto elim!: rel_prod.cases)
  qed
  have new: "\<not> same_key a' a" if "a' \<in> set (map fst us)" "\<forall>(k', _)\<in>set es. \<not> value_eq k' k" for a'
  proof
    assume sk: "same_key a' a"
    then obtain x y where xy: "a' = Leaf x" "a = Leaf y" "value_eq x y" by (auto elim: same_key.elims)
    then show False using ex [OF that(1)] that(2) assms(2) by (auto elim!: spells.cases)
  qed
  have all: "list_all index_tree (map fst us)" if "\<forall>(k', _)\<in>set es. is_index_key k'"
    using ex that spells_index unfolding list_all_iff by blast
  show ?thesis using assms(2,3) new all spells_index [OF assms(2)] list_all2_lengthD [OF assms(1)]
    by (cases t) (auto simp: next_tree_key_def split: if_splits elim: spells.cases)
qed

lemma tree_keys_spelled:
  assumes "list_all2 (rel_prod (spells n m) (spells n m)) es ts"
    and "\<And>i. i < length es \<Longrightarrow> next_key t (take i es) (fst (es ! i))"
  shows "tree_keys (is_array_table t) (map fst ts)"
  unfolding tree_keys_def
proof (intro allI impI)
  fix i assume "i < length (map fst ts)"
  then have i: "i < length es" "i < length ts" using list_all2_lengthD [OF assms(1)] by simp_all
  have "spells n m (fst (es ! i)) (fst (ts ! i))"
    using list_all2_nthD [OF assms(1) i(1)] by (auto elim!: rel_prod.cases)
  from next_tree_key_spelled [OF list_all2_takeI [OF assms(1)] this assms(2) [OF i(1)]]
  show "next_tree_key (is_array_table t) (take i (map fst ts)) (map fst ts ! i)" using i by (simp add: take_map)
qed


text \<open>What the decoder's own limits and the types of the code ask of a tree: tables of at most 65536
  entries, strings that are UTF-8, share types that their constructors accept.\<close>

primrec sizes :: "ptree \<Rightarrow> nat set" where
  "sizes (Leaf v) = {}"
| "sizes (ObjectTree ts) = insert (length ts) (\<Union>(a, b)\<in>set (map (map_prod sizes sizes) ts). a \<union> b)"
| "sizes (ArrayTree len ts) = insert (length ts) (\<Union>(a, b)\<in>set (map (map_prod sizes sizes) ts). a \<union> b)"

definition fits :: "ptree \<Rightarrow> bool" where
  "fits t \<longleftrightarrow> (\<forall>v\<in>leaves t. scalar_ok v) \<and> (\<forall>n\<in>sizes t. n \<le> MAX_PERSISTENT_TABLE_ENTRIES)"

lemma fits_simps [simp]:
  "fits (Leaf v) \<longleftrightarrow> scalar_ok v"
  "fits (ObjectTree ts) \<longleftrightarrow> length ts \<le> MAX_PERSISTENT_TABLE_ENTRIES \<and> (\<forall>(a, b)\<in>set ts. fits a \<and> fits b)"
  "fits (ArrayTree len ts) \<longleftrightarrow> length ts \<le> MAX_PERSISTENT_TABLE_ENTRIES \<and> (\<forall>(a, b)\<in>set ts. fits a \<and> fits b)"
  by (fastforce simp: fits_def)+

lemma pairs_elem: "list_all2 (rel_prod P P) es ts \<Longrightarrow> (a, b) \<in> set ts \<Longrightarrow> (\<exists>k. P k a) \<and> (\<exists>v. P v b)"
  by (induction rule: list_all2_induct) (auto elim!: rel_prod.cases)

lemma tree_ok_spelled: "spells n m v t \<Longrightarrow> store_ok m \<Longrightarrow> fits t \<Longrightarrow> tree_ok t"
proof (induction rule: spells.induct)
  case (leaf v)
  then show ?case by (simp add: tree_ok.intros)
next
  case (object r es ts)
  have sub: "tree_ok a \<and> tree_ok b" if "(a, b) \<in> set ts" for a b
    using pairs_elem [OF object(3) that] that object(4,5) by auto
  have sp: "list_all2 (rel_prod (spells n m) (spells n m)) es ts" using object(3) by (rule pairs_mono) simp
  have len: "length es < usize_max"
    using object(5) list_all2_lengthD [OF sp] by (simp add: MAX_PERSISTENT_TABLE_ENTRIES_def usize_max_def)
  obtain ob where ob: "hm_get (=) (objects m) r = Some ob" "es = take usize_max ob"
    using object(2) by (auto simp: object_ref_entries_def map_ok_Inr_iff ok_or_Inr_iff)
  then have "hm_distinct value_eq es" using store_ok_object [OF object(4) ob(1)] len by simp
  then have "next_key (ObjectTable r) (take i es) (fst (es ! i))" if "i < length es" for i
    using distinct_new_key [OF _ that] by auto
  from tree_keys_spelled [OF sp this] show ?case using sub object(5) by (intro tree_ok.intros) simp_all
next
  case (array r len es ts)
  have sub: "tree_ok a \<and> tree_ok b" if "(a, b) \<in> set ts" for a b
    using pairs_elem [OF array(4) that] that array(5,6) by auto
  have sp: "list_all2 (rel_prod (spells n m) (spells n m)) es ts" using array(4) by (rule pairs_mono) simp
  have n: "len = length (filter index_tree (map fst ts))"
    using array_len_of_entries [OF array(5) _ sp, of r] array(2,3,6) by (simp add: table_entries_def)
  have lt: "length es < usize_max"
    using array(6) list_all2_lengthD [OF sp] by (simp add: MAX_PERSISTENT_TABLE_ENTRIES_def usize_max_def)
  obtain a where a: "hm_get (=) (arrays m) r = Some a" "es = array_entries a usize_max"
    using array(3) by (auto simp: array_ref_entries_def map_ok_Inr_iff ok_or_Inr_iff)
  have ok: "array_ok a" using store_ok_array [OF array(5) a(1)] by simp
  have "es = all_entries a" using a(2) lt array_entries_all [OF ok] by simp
  then have "next_key (ArrayTable r) (take i es) (fst (es ! i))" if "i < length es" for i
    using array_next_keys [OF ok] that by (simp only:)
  from tree_keys_spelled [OF sp this] show ?case using sub array(6) n by (intro tree_ok.intros) simp_all
qed

section \<open>The round trip\<close>

definition within_limits :: "object_store \<Rightarrow> val \<Rightarrow> bool" where
  "within_limits m v \<longleftrightarrow> (\<forall>t. spells 0 m v t \<longrightarrow> fits t)"

lemma decode_printed:
  assumes t: "tree_ok t" "writable D (Option.bind ctx pvc_share) t"
    and c: "\<And>c. Option.bind ctx pvc_share = Some c \<Longrightarrow> context_ok c" and D: "\<And>x. length (D x) = 32"
    and bs: "bs = VALUE_MAGIC @ print_tree D (Option.bind ctx pvc_share) t"
    and len: "length bs \<le> MAX_PERSISTENT_VALUE_BYTES" and m: "store_ok m" "next_id m + length bs \<le> usize_max"
  shows "\<exists>v m'. decode_value_with_context D bs ctx m = (Inr v, m') \<and>
           store_ok m' \<and> keeps UNIV m m' \<and> spells (next_id m) m' v t"
proof -
  let ?c = "Option.bind ctx pvc_share" and ?s = "\<lparr>unread = bs, cursor = 0, memory = m\<rparr>"
  have room: "room ?s" using len by (simp add: room_def MAX_PERSISTENT_VALUE_BYTES_def usize_max_def)
  have magic: "take_bytes (length VALUE_MAGIC) ?s = (Inr VALUE_MAGIC, moved (length VALUE_MAGIC) m ?s)"
    using readsD [OF reads_take [of VALUE_MAGIC], of ?s] room by (simp add: bs advance_moved)
  have "ready (VALUE_MAGIC @ print_tree D ?c t) ?s" using len m room by (simp add: ready_def bs)
  then have "ready (print_tree D ?c t) (moved (length VALUE_MAGIC) m ?s)" using ready_right m(1) by simp
  then obtain v m' where v: "read_value D ?c (moved (length VALUE_MAGIC) m ?s) =
      (Inr v, moved (length (print_tree D ?c t)) m' (moved (length VALUE_MAGIC) m ?s))"
    "rebuilt m (length (print_tree D ?c t)) m' v t"
    using rebuilds_tree [OF t c D] unfolding rebuilds_def by fastforce
  have "decode_value_with_context D bs ctx m = (Inr v, m')"
    using len v(1) by (simp add: decode_value_with_context_def mbind_def magic) (simp add: bs)
  then show ?thesis using v(2) by (auto simp: rebuilt_def)
qed

lemma decode_encoded:
  assumes "store_ok m" "encode_value_with_context D v m ctx = Inr bs" "within_limits m v"
    and "length bs \<le> MAX_PERSISTENT_VALUE_BYTES" "store_ok m0" "next_id m0 + length bs \<le> usize_max"
    and "\<And>c. Option.bind ctx pvc_share = Some c \<Longrightarrow> context_ok c" "\<And>x. length (D x) = 32"
  shows "\<exists>t w m1. decode_value_with_context D bs ctx m0 = (Inr w, m1) \<and> spells 0 m v t \<and> spells (next_id m0) m1 w t \<and>
           store_ok m1 \<and> keeps UNIV m0 m1 \<and> encode_value_with_context D w m1 ctx = Inr bs"
proof -
  obtain t where t: "spells 0 m v t" "writable D (Option.bind ctx pvc_share) t"
    and bs: "bs = VALUE_MAGIC @ print_tree D (Option.bind ctx pvc_share) t"
    using assms(2) by (auto simp: encode_iff)
  have ok: "tree_ok t" using tree_ok_spelled [OF t(1) assms(1)] assms(3) t(1) by (simp add: within_limits_def)
  obtain w m1 where w: "decode_value_with_context D bs ctx m0 = (Inr w, m1)" "store_ok m1" "keeps UNIV m0 m1"
    "spells (next_id m0) m1 w t"
    using decode_printed [OF ok t(2) assms(7,8) bs assms(4,5,6)] by blast
  have "encode_value_with_context D w m1 ctx = Inr bs"
    using spells_mono [OF w(4), of 0] t(2) bs by (auto simp: encode_iff)
  with w t(1) show ?thesis by blast
qed

section \<open>A concrete value\<close>

definition demo_digest :: "byte list \<Rightarrow> byte list" where
  "demo_digest x = take 32 (x @ replicate 32 0)"

definition demo_context :: persistent_share_context where
  "demo_context = persistent_share_context_new demo_digest ''hb'' ''bls'' ''fr'' (replicate 32 1) 5 1 [9]"

abbreviation demo_ctx :: "persistent_value_context option" where
  "demo_ctx \<equiv> Some \<lparr>pvc_share = Some demo_context\<rparr>"

definition demo_share :: val where
  "demo_share = Share (SecretInt 64) (Opaque [1, 2])"

definition demo_array :: arr where
  "demo_array = \<lparr>elements = [demo_share, Bool True], extra_fields = [(String ''n'', I64 3)], length_hint = 2\<rparr>"

definition demo_store :: object_store where
  "demo_store = \<lparr>objects = [(1, [(String ''xs'', Array 2), (I64 7, Unit)])], arrays = [(2, demo_array)], next_id = 3\<rparr>"

definition demo_tree :: ptree where
  "demo_tree = ObjectTree
     [(Leaf (String ''xs''), ArrayTree 2 [(Leaf (I64 0), Leaf demo_share), (Leaf (I64 1), Leaf (Bool True)), (Leaf (String ''n''), Leaf (I64 3))]),
      (Leaf (I64 7), Leaf Unit)]"

lemma demo_store_ok: "store_ok demo_store"
  by (auto simp: store_ok_def demo_store_def demo_array_def array_ok_def usize_max_def i64_max_def
      ARRAY_DENSE_INDEX_LIMIT_def value_eq_def)

lemma demo_spells: "spells 0 demo_store (Object 1) demo_tree"
proof -
  have ok: "array_ok demo_array" using store_ok_array [OF demo_store_ok, of 2] by (simp add: demo_store_def)
  have "array_entries demo_array usize_max = [(I64 0, demo_share), (I64 1, Bool True), (String ''n'', I64 3)]"
    by (simp add: array_entries_all [OF ok])
      (simp add: all_entries_def demo_array_def array_elem_def array_get_def upt_rec usize_max_def)
  then have "spells 0 demo_store (Array 2) (ArrayTree 2 [(Leaf (I64 0), Leaf demo_share), (Leaf (I64 1), Leaf (Bool True)), (Leaf (String ''n''), Leaf (I64 3))])"
    by (intro spells.array [where es = "[(I64 0, demo_share), (I64 1, Bool True), (String ''n'', I64 3)]"])
      (simp_all add: array_ref_len_def array_ref_entries_def demo_store_def array_length_def demo_array_def demo_share_def spells.leaf)
  then show ?thesis unfolding demo_tree_def
    by (intro spells.object [where es = "[(String ''xs'', Array 2), (I64 7, Unit)]"])
      (simp_all add: object_ref_entries_def demo_store_def usize_max_def spells.leaf)
qed

lemma demo_digest_length [simp]: "length (demo_digest x) = 32"
  by (simp add: demo_digest_def)

lemma demo_context_ok: "context_ok demo_context"
  by (simp add: context_ok_def demo_context_def persistent_share_context_new_def text_ok_def MAX_PERSISTENT_VALUE_BYTES_def)
    code_simp

lemma demo_fits: "fits demo_tree"
  by (simp add: demo_tree_def demo_share_def MAX_PERSISTENT_TABLE_ENTRIES_def) code_simp

lemma demo_writable: "writable demo_digest (Some demo_context) demo_tree"
  by (simp add: demo_tree_def demo_share_def write_share_envelope_def)

lemma demo_short: "length (VALUE_MAGIC @ print_tree demo_digest (Some demo_context) demo_tree) < 1000"
  by (simp add: demo_tree_def demo_share_def write_share_envelope_def write_len_def to_le_def write_string_def write_bytes_def
      VALUE_MAGIC_def demo_context_def persistent_share_context_new_def)

lemma demo_within: "within_limits demo_store (Object 1)"
  unfolding within_limits_def using spells_unique [OF demo_spells] demo_fits by blast

lemma demo_encodes: "encode_value_with_context demo_digest (Object 1) demo_store demo_ctx =
    Inr (VALUE_MAGIC @ print_tree demo_digest (Some demo_context) demo_tree)"
  unfolding encode_iff using demo_spells demo_writable by auto

section \<open>Local storage\<close>

lemma codec_of_context:
  "(case ctx of Some c \<Rightarrow> encode_value_with_context D v m (Some c) | None \<Rightarrow> encode_value D v m) =
     encode_value_with_context D v m ctx"
  "(case ctx of Some c \<Rightarrow> decode_value_with_context D bs (Some c) m | None \<Rightarrow> decode_value D bs m) =
     decode_value_with_context D bs ctx m"
  by (simp_all add: encode_value_def decode_value_def split: option.split)

text \<open>C18: A value within the limits of the decoder (on the encoded size, the entries of a table and the
  commitments of a share; the encoder does not check them, so a value beyond them never loads) that was stored under a key and is loaded
  while the key still holds what was written is rebuilt in the loading store: the loaded value spells the
  tree of the stored one in fresh tables, and the tables that store had keep their contents. Of the
  database it uses that retrieving a key gives the bytes last stored under it.\<close>

theorem stored_value_loads:
  assumes "store_ok m" "store_value_with_context store D key v m ctx st = (Inr (), st')" "within_limits m v"
    and "\<And>k bs s s'. store k bs s = (Inr (), s') \<Longrightarrow> retrieve s' k = Inr (Some bs)"
    and "\<And>bs. retrieve st' key = Inr (Some bs) \<Longrightarrow> length bs \<le> MAX_PERSISTENT_VALUE_BYTES \<and> next_id m0 + length bs \<le> usize_max"
    and "store_ok m0" "\<And>c. Option.bind ctx pvc_share = Some c \<Longrightarrow> context_ok c" "\<And>x. length (D x) = 32"
  shows "\<exists>t w m1. retrieve_value_with_context retrieve D st' key ctx m0 = (Inr (Some w), m1) \<and> spells 0 m v t \<and>
           spells (next_id m0) m1 w t \<and> store_ok m1 \<and> keeps UNIV m0 m1"
proof -
  obtain bs where bs: "encode_value_with_context D v m ctx = Inr bs" "store key bs st = (Inr (), st')"
    using assms(2) by (auto simp: store_value_with_context_def codec_of_context split: sum.splits prod.splits)
  have rt: "retrieve st' key = Inr (Some bs)" using assms(4) [OF bs(2)] .
  note lim = assms(5) [OF rt]
  from decode_encoded [OF assms(1) bs(1) assms(3) _ assms(6) _ assms(7,8)] lim obtain t w m1 where
    "decode_value_with_context D bs ctx m0 = (Inr w, m1)" "spells 0 m v t" "spells (next_id m0) m1 w t"
    "store_ok m1" "keeps UNIV m0 m1"
    by blast
  then show ?thesis by (auto simp: retrieve_value_with_context_def rt codec_of_context)
qed

theorem stored_value_loads_witness:
  "\<exists>t w m1. retrieve_value_with_context (\<lambda>st k. Inr (map_of st k)) demo_digest
        [([1], VALUE_MAGIC @ print_tree demo_digest (Some demo_context) demo_tree)] [1] demo_ctx demo_store = (Inr (Some w), m1) \<and>
      spells 0 demo_store (Object 1) t \<and> spells (next_id demo_store) m1 w t \<and> store_ok m1 \<and> keeps UNIV demo_store m1"
proof (rule stored_value_loads [OF demo_store_ok _ demo_within, where store = "\<lambda>k bs st. (Inr (), (k, bs) # st)" and st = "[]"])
  show "store_value_with_context (\<lambda>k bs st. (Inr (), (k, bs) # st)) demo_digest [1] (Object 1) demo_store demo_ctx [] =
      (Inr (), [([1], VALUE_MAGIC @ print_tree demo_digest (Some demo_context) demo_tree)])"
    unfolding store_value_with_context_def codec_of_context demo_encodes by simp
  show "store_ok demo_store" by (rule demo_store_ok)
qed (use demo_short demo_context_ok in \<open>auto simp: MAX_PERSISTENT_VALUE_BYTES_def usize_max_def demo_store_def\<close>)

text \<open>The encoder has no limits of its own: a long string is stored and then never loaded.\<close>

lemma oversized_value_is_not_decoded:
  "\<exists>bs. encode_value D (String (replicate MAX_PERSISTENT_VALUE_BYTES CHR ''a'')) m = Inr bs \<and>
        decode_value D bs m0 = (Inl (LimitExceeded ''persistent value byte'' (length bs) MAX_PERSISTENT_VALUE_BYTES), m0)"
  by (simp add: encode_value_def encode_value_with_context_def decode_value_def decode_value_with_context_def
      write_string_def write_bytes_def)

lemma validate_other_context:
  assumes "c' \<noteq> c" "share_commitment_digest D d = Inr cd"
  shows "\<exists>e. validate_envelope D (Some c') d (envelope_of D c d cd) = Inl e"
proof (rule ccontr)
  assume "\<nexists>e. validate_envelope D (Some c') d (envelope_of D c d cd) = Inl e"
  then have "c' = c"
    by (auto simp: validate_envelope_def envelope_of_def require_def rbind_def intro!: persistent_share_context.equality
        split: if_splits sum.splits)
  then show False using assms(1) by simp
qed

text \<open>C20: A persisted share is bound to the context it was written in: bytes of a share encoded under
  one backend, curve, field, node, party count, threshold or key are refused under any context that
  differs from it in one of them, and the store is left as it was.\<close>

theorem share_bound_to_context:
  assumes "encode_value_with_context D (Share ty d) m (Some \<lparr>pvc_share = Some c\<rparr>) = Inr bs"
    and "length bs \<le> MAX_PERSISTENT_VALUE_BYTES" "scalar_ok (Share ty d)" "context_ok c" "\<And>x. length (D x) = 32" "c' \<noteq> c"
  shows "\<exists>e. decode_value_with_context D bs (Some \<lparr>pvc_share = Some c'\<rparr>) m0 = (Inl e, m0)"
proof -
  obtain env where env: "write_share_envelope D (Some c) d = Inr env"
    and bs: "bs = VALUE_MAGIC @ 12 # env @ write_share_type ty @ write_share_data d"
    using assms(1) by (auto simp: encode_value_with_context_def map_ok_Inr_iff)
  obtain cd where cd: "share_commitment_digest D d = Inr cd" "reads read_share_envelope env (envelope_of D c d cd)"
    using reads_envelope [OF env assms(4,5)] .
  have d: "reads read_share_data (write_share_data d) d"
    using assms(2,3) by (intro reads_share_data) (auto simp: bs)
  have t: "reads read_share_type (write_share_type ty) ty" using assms(3) by (intro reads_share_type) simp_all
  obtain e where e: "validate_envelope D (Some c') d (envelope_of D c d cd) = Inl e"
    using validate_other_context [OF assms(6) cd(1)] by blast
  let ?s = "\<lparr>unread = bs, cursor = 0, memory = m0\<rparr>" and ?k = "length VALUE_MAGIC"
  have room: "room ?s" using assms(2) by (simp add: room_def MAX_PERSISTENT_VALUE_BYTES_def usize_max_def)
  have r: "room (advance n ?s)" if "n \<le> length bs" for n using room_advance [OF room] that by simp
  have 0: "take_bytes ?k ?s = (Inr VALUE_MAGIC, advance ?k ?s)"
    using readsD [OF reads_take [of VALUE_MAGIC], of ?s] room by (simp add: bs)
  have 1: "take_u8 (advance ?k ?s) = (Inr 12, advance (Suc ?k) ?s)"
    using readsD [OF reads_u8, of "advance ?k ?s" 12] r [of ?k] by (simp add: bs)
  have 2: "read_share_envelope (advance (Suc ?k) ?s) = (Inr (envelope_of D c d cd), advance (Suc ?k + length env) ?s)"
    using readsD [OF cd(2), of "advance (Suc ?k) ?s"] r [of "Suc ?k"] by (simp add: bs)
  have 3: "read_share_type (advance (Suc ?k + length env) ?s) =
      (Inr ty, advance (Suc ?k + length env + length (write_share_type ty)) ?s)"
    using readsD [OF t, of "advance (Suc ?k + length env) ?s"] r [of "Suc ?k + length env"] by (simp add: bs)
  have 4: "read_share_data (advance (Suc ?k + length env + length (write_share_type ty)) ?s) =
      (Inr d, advance (length bs) ?s)"
    using readsD [OF d, of "advance (Suc ?k + length env + length (write_share_type ty)) ?s" "[]"]
      r [of "Suc ?k + length env + length (write_share_type ty)"] by (simp add: bs add.assoc)
  have "read_share D (Some c') (advance (Suc ?k) ?s) = (Inl e, advance (length bs) ?s)"
    by (simp only: read_share_def mbind_def 2 3 4 e mread_def prod.case sum.case)
  then have "read_value D (Some c') (advance ?k ?s) = (Inl e, advance (length bs) ?s)"
    by (subst read_value_rec) (simp add: read_value_body_def mbind_def 1)
  then show ?thesis using assms(2) by (simp add: decode_value_with_context_def mbind_def 0)
qed

theorem share_bound_to_context_witness:
  "\<exists>bs e. encode_value_with_context demo_digest demo_share object_store_new demo_ctx = Inr bs \<and>
      decode_value_with_context demo_digest bs (Some \<lparr>pvc_share = Some (demo_context\<lparr>threshold := 2\<rparr>)\<rparr>) object_store_new =
        (Inl e, object_store_new)"
proof -
  let ?bs = "VALUE_MAGIC @ print_tree demo_digest (Some demo_context) (Leaf demo_share)"
  have enc: "encode_value_with_context demo_digest demo_share object_store_new demo_ctx = Inr ?bs"
    unfolding encode_iff by (auto intro!: exI spells.leaf simp: demo_share_def write_share_envelope_def)
  have len: "length ?bs \<le> MAX_PERSISTENT_VALUE_BYTES"
    by (simp add: demo_share_def write_share_envelope_def write_len_def to_le_def write_string_def write_bytes_def
        VALUE_MAGIC_def demo_context_def persistent_share_context_new_def MAX_PERSISTENT_VALUE_BYTES_def)
  have other: "demo_context\<lparr>threshold := 2\<rparr> \<noteq> demo_context"
    by (simp add: demo_context_def persistent_share_context_new_def)
  have ok: "scalar_ok demo_share" using demo_fits by (simp add: demo_tree_def)
  from share_bound_to_context [OF enc [unfolded demo_share_def] len [unfolded demo_share_def] ok [unfolded demo_share_def]
      demo_context_ok demo_digest_length other]
  show ?thesis using enc unfolding demo_share_def by blast
qed

end
