(* ===== verification/Reservation.thy ===== *)
theory Reservation
  imports Prelude
begin

text \<open>
  The registry of masked-input reservations (\<open>stoffel-vm/src/net/reservation.rs\<close>): clients reserve
  consecutive preprocessing indices, submit a masked input at an index they hold, and the protocol
  consumes indices. Every method takes the lock of the registry for its whole body, so concurrent
  clients are an interleaving of whole method calls, which a history records.

  A \<open>u64\<close> is a natural number, with the overflow checks of the source; a \<open>BTreeMap\<close> is an
  association list whose keys are iterated in ascending order.
\<close>

section \<open>State\<close>

type_synonym identity = "byte list"

datatype slot_status = Reserved identity | Consumed identity

record reservation_grant =
  grant_start :: nat
  grant_count :: nat

definition indices :: "reservation_grant \<Rightarrow> nat list" where
  "indices g = [grant_start g..<grant_start g + grant_count g]"

record registry_state =
  rs_program_hash :: "byte list"
  rs_node_identity :: identity
  rs_capacity :: nat
  next_index :: nat
  rs_slots :: "(nat \<times> slot_status) list"
  masked_inputs :: "(nat \<times> byte list) list"

datatype invalid_registry =
    CursorBeyondCapacity nat nat
  | SlotBeyondCapacity nat nat
  | MaskedInputBeyondCapacity nat nat
  | MaskedInputWithoutSlot nat

datatype (plugins only: code) preproc_store_error =
    Lmdb string
  | Serialization string
  | Deserialization string
  | PreprocIo string
  | PreprocNotFound
  | PreprocInsufficient u32 u32
  | CursorMismatch u32 u32
  | U32Overflow string nat
  | JoinFailed string

datatype (plugins only: code) reservation_error =
    InsufficientMaterial nat nat
  | IndexOverflow nat nat
  | InvalidState invalid_registry
  | NotReservedByClient nat
  | NotReserved nat
  | AlreadyConsumed nat
  | OutOfBounds nat
  | ReservationStorage preproc_store_error

text \<open>The two loops of \<open>validate\<close> report the first offending key in ascending order.\<close>

definition first_bad :: "(nat \<Rightarrow> 'e option) \<Rightarrow> (nat \<times> 'v) list \<Rightarrow> 'e option" where
  "first_bad f m = List.find (\<lambda>_. True) (List.map_filter f (sort (map fst m)))"

definition validate :: "registry_state \<Rightarrow> reservation_error + unit" where
  "validate s =
     (if rs_capacity s < next_index s then Inl (InvalidState (CursorBeyondCapacity (next_index s) (rs_capacity s)))
      else case first_bad (\<lambda>i. if rs_capacity s \<le> i then Some (SlotBeyondCapacity i (rs_capacity s)) else None) (rs_slots s) of
        Some e \<Rightarrow> Inl (InvalidState e)
      | None \<Rightarrow>
          (case first_bad (\<lambda>i. if rs_capacity s \<le> i then Some (MaskedInputBeyondCapacity i (rs_capacity s))
                              else if hm_get (=) (rs_slots s) i = None then Some (MaskedInputWithoutSlot i) else None)
                  (masked_inputs s) of
             Some e \<Rightarrow> Inl (InvalidState e)
           | None \<Rightarrow> Inr ()))"

section \<open>Operations\<close>

definition registry_new :: "byte list \<Rightarrow> identity \<Rightarrow> nat \<Rightarrow> registry_state" where
  "registry_new h node cap =
     \<lparr>rs_program_hash = h, rs_node_identity = node, rs_capacity = cap, next_index = 0, rs_slots = [], masked_inputs = []\<rparr>"

definition try_from_state :: "registry_state \<Rightarrow> reservation_error + registry_state" where
  "try_from_state s = map_ok (\<lambda>_. s) (validate s)"

definition from_state :: "registry_state \<Rightarrow> registry_state" where
  "from_state s = s"

definition reserve :: "identity \<Rightarrow> nat \<Rightarrow> (registry_state, reservation_error, reservation_grant) meth" where
  "reserve client n s =
     (case checked_sub_usize (rs_capacity s) (next_index s) of
        None \<Rightarrow> (Inl (InvalidState (CursorBeyondCapacity (next_index s) (rs_capacity s))), s)
      | Some avail \<Rightarrow>
          if avail < n then (Inl (InsufficientMaterial n avail), s)
          else let start = next_index s
               in case checked_add_usize start n of
                    None \<Rightarrow> (Inl (IndexOverflow start n), s)
                  | Some stop \<Rightarrow>
                      (Inr \<lparr>grant_start = start, grant_count = n\<rparr>,
                       s\<lparr>rs_slots := fold (\<lambda>i m. hm_insert (=) i (Reserved client) m) [start..<stop] (rs_slots s),
                         next_index := stop\<rparr>))"

definition submit_masked_input :: "identity \<Rightarrow> nat \<Rightarrow> byte list \<Rightarrow> (registry_state, reservation_error, unit) meth" where
  "submit_masked_input client i v s =
     (if rs_capacity s \<le> i then (Inl (OutOfBounds i), s)
      else case hm_get (=) (rs_slots s) i of
        None \<Rightarrow> (Inl (NotReserved i), s)
      | Some (Consumed _) \<Rightarrow> (Inl (AlreadyConsumed i), s)
      | Some (Reserved owner) \<Rightarrow>
          if owner = client then (Inr (), s\<lparr>masked_inputs := hm_insert (=) i v (masked_inputs s)\<rparr>)
          else (Inl (NotReservedByClient i), s))"

text \<open>The first loop of \<open>consume\<close> checks every index, the second one marks them.\<close>

definition check_consume :: "registry_state \<Rightarrow> nat \<Rightarrow> reservation_error + (nat \<times> identity)" where
  "check_consume s i =
     (if rs_capacity s \<le> i then Inl (OutOfBounds i)
      else case hm_get (=) (rs_slots s) i of
        Some (Reserved owner) \<Rightarrow> Inr (i, owner)
      | Some (Consumed _) \<Rightarrow> Inl (AlreadyConsumed i)
      | None \<Rightarrow> Inl (NotReserved i))"

definition mark_consumed :: "nat \<times> identity \<Rightarrow> registry_state \<Rightarrow> registry_state" where
  "mark_consumed p s =
     s\<lparr>rs_slots := hm_insert (=) (fst p) (Consumed (snd p)) (rs_slots s),
       masked_inputs := hm_remove (=) (fst p) (masked_inputs s)\<rparr>"

definition consume :: "nat list \<Rightarrow> (registry_state, reservation_error, unit) meth" where
  "consume is s =
     (case collect (map (check_consume s) is) of
        Inl e \<Rightarrow> (Inl e, s)
      | Inr consumed \<Rightarrow> (Inr (), fold mark_consumed consumed s))"

definition available :: "registry_state \<Rightarrow> nat" where
  "available s = rs_capacity s - next_index s"

definition all_reserved_slots_consumed :: "registry_state \<Rightarrow> bool" where
  "all_reserved_slots_consumed s \<longleftrightarrow>
     rs_slots s \<noteq> [] \<and> list_all (\<lambda>(_, st). case st of Consumed _ \<Rightarrow> True | Reserved _ \<Rightarrow> False) (rs_slots s)"

definition get_masked_input :: "registry_state \<Rightarrow> nat \<Rightarrow> byte list option" where
  "get_masked_input s i = hm_get (=) (masked_inputs s) i"

section \<open>Persistence\<close>

text \<open>The serialiser (\<open>bincode\<close>) and the blob store are parameters.\<close>

definition RESERVATION_NS :: "byte list" where
  "RESERVATION_NS = map (of_nat \<circ> of_char) ''rsv:''"

definition reservation_key :: "byte list \<Rightarrow> identity \<Rightarrow> byte list" where
  "reservation_key h node = h @ node"

definition persist ::
  "(registry_state \<Rightarrow> string + byte list) \<Rightarrow> (byte list \<Rightarrow> byte list \<Rightarrow> byte list \<Rightarrow> ('st, preproc_store_error, unit) meth) \<Rightarrow>
   registry_state \<Rightarrow> ('st, reservation_error, unit) meth" where
  "persist ser store_blob s st =
     (case validate s of
        Inl e \<Rightarrow> (Inl e, st)
      | Inr _ \<Rightarrow>
          (case ser s of
             Inl e \<Rightarrow> (Inl (ReservationStorage (Serialization e)), st)
           | Inr bs \<Rightarrow> mmap_err ReservationStorage
                (store_blob RESERVATION_NS (reservation_key (rs_program_hash s) (rs_node_identity s)) bs) st))"

definition load ::
  "(byte list \<Rightarrow> string + registry_state) \<Rightarrow> ('st \<Rightarrow> byte list \<Rightarrow> byte list \<Rightarrow> preproc_store_error + byte list option) \<Rightarrow>
   'st \<Rightarrow> byte list \<Rightarrow> identity \<Rightarrow> reservation_error + registry_state option" where
  "load deser load_blob st h node =
     (case load_blob st RESERVATION_NS (reservation_key h node) of
        Inl e \<Rightarrow> Inl (ReservationStorage e)
      | Inr None \<Rightarrow> Inr None
      | Inr (Some bs) \<Rightarrow>
          (case deser bs of
             Inl e \<Rightarrow> Inl (ReservationStorage (Deserialization e))
           | Inr s \<Rightarrow> map_ok Some (try_from_state s)))"

section \<open>Histories\<close>

datatype event =
    Granted identity reservation_grant
  | Submitted identity nat "byte list"
  | ConsumedAll "nat list"
  | Rejected

text \<open>Whole method calls of concurrent clients and of the protocol, in the order in which they take
  the lock; a call that fails is recorded with the state it leaves.\<close>

inductive history :: "registry_state \<Rightarrow> event list \<Rightarrow> registry_state \<Rightarrow> bool" for s0 where
  start: "history s0 [] s0"
| reserved: "history s0 es s \<Longrightarrow> reserve c n s = (Inr g, t) \<Longrightarrow> history s0 (es @ [Granted c g]) t"
| submitted: "history s0 es s \<Longrightarrow> submit_masked_input c i v s = (Inr (), t) \<Longrightarrow> history s0 (es @ [Submitted c i v]) t"
| consumed: "history s0 es s \<Longrightarrow> consume is s = (Inr (), t) \<Longrightarrow> history s0 (es @ [ConsumedAll is]) t"
| not_reserved: "history s0 es s \<Longrightarrow> reserve c n s = (Inl e, t) \<Longrightarrow> history s0 (es @ [Rejected]) t"
| not_submitted: "history s0 es s \<Longrightarrow> submit_masked_input c i v s = (Inl e, t) \<Longrightarrow> history s0 (es @ [Rejected]) t"
| not_consumed: "history s0 es s \<Longrightarrow> consume is s = (Inl e, t) \<Longrightarrow> history s0 (es @ [Rejected]) t"

text \<open>What the events of a history say about an index: who was granted it, the last input submitted
  at it, and whether it was consumed.\<close>

definition granted :: "event list \<Rightarrow> nat \<Rightarrow> identity list" where
  "granted es i = List.map_filter (\<lambda>e. case e of Granted c g \<Rightarrow> (if i \<in> set (indices g) then Some c else None) | _ \<Rightarrow> None) es"

definition submissions :: "event list \<Rightarrow> nat \<Rightarrow> byte list list" where
  "submissions es i = List.map_filter (\<lambda>e. case e of Submitted c j v \<Rightarrow> (if j = i then Some v else None) | _ \<Rightarrow> None) es"

definition consumptions :: "event list \<Rightarrow> nat \<Rightarrow> event list" where
  "consumptions es i = filter (\<lambda>e. case e of ConsumedAll is \<Rightarrow> i \<in> set is | _ \<Rightarrow> False) es"


lemma event_simps [simp]:
  "granted [] i = []" "submissions [] i = []" "consumptions [] i = []"
  "granted (es @ [Granted c g]) i = granted es i @ (if i \<in> set (indices g) then [c] else [])"
  "granted (es @ [Submitted c k v]) i = granted es i"
  "granted (es @ [ConsumedAll is]) i = granted es i"
  "granted (es @ [Rejected]) i = granted es i"
  "submissions (es @ [Granted c g]) i = submissions es i"
  "submissions (es @ [Submitted c k v]) i = submissions es i @ (if k = i then [v] else [])"
  "submissions (es @ [ConsumedAll is]) i = submissions es i"
  "submissions (es @ [Rejected]) i = submissions es i"
  "consumptions (es @ [Granted c g]) i = consumptions es i"
  "consumptions (es @ [Submitted c k v]) i = consumptions es i"
  "consumptions (es @ [ConsumedAll is]) i = consumptions es i @ (if i \<in> set is then [ConsumedAll is] else [])"
  "consumptions (es @ [Rejected]) i = consumptions es i"
  by (simp_all add: granted_def submissions_def consumptions_def map_filter_def)

section \<open>The registry summarises its history\<close>

lemma get_fold_insert:
  "hm_get (=) (fold (\<lambda>i m. hm_insert (=) i x m) is m) j = (if j \<in> set is then Some x else hm_get (=) m j)"
  by (induction "is" arbitrary: m) (auto simp: heq.get_insert)

lemma distinct_fold_insert: "hm_distinct (=) m \<Longrightarrow> hm_distinct (=) (fold (\<lambda>i m. hm_insert (=) i x m) is m)"
  by (induction "is" arbitrary: m) (auto simp: heq.insert_distinct)

lemma fold_mark_consumed:
  assumes "hm_distinct (=) (rs_slots s)" "hm_distinct (=) (masked_inputs s)" "\<forall>(i, o')\<in>set ps. f i = o'"
  defines "t \<equiv> fold mark_consumed ps s"
  shows "rs_capacity t = rs_capacity s" "next_index t = next_index s"
    "rs_program_hash t = rs_program_hash s" "rs_node_identity t = rs_node_identity s"
    "hm_distinct (=) (rs_slots t)" "hm_distinct (=) (masked_inputs t)"
    "hm_get (=) (rs_slots t) j = (if j \<in> fst ` set ps then Some (Consumed (f j)) else hm_get (=) (rs_slots s) j)"
    "hm_get (=) (masked_inputs t) j = (if j \<in> fst ` set ps then None else hm_get (=) (masked_inputs s) j)"
  unfolding t_def using assms(1-3)
  by (induction ps arbitrary: s)
    (auto simp: mark_consumed_def heq.insert_distinct heq.remove_distinct heq.get_insert heq.get_remove)

definition slot_of :: "event list \<Rightarrow> nat \<Rightarrow> slot_status option" where
  "slot_of es i = (case granted es i of [] \<Rightarrow> None | c # _ \<Rightarrow> Some (if consumptions es i = [] then Reserved c else Consumed c))"

definition input_of :: "event list \<Rightarrow> nat \<Rightarrow> byte list option" where
  "input_of es i = (if consumptions es i = [] \<and> submissions es i \<noteq> [] then Some (last (submissions es i)) else None)"

lemma slot_of_simps [simp]:
  "slot_of (es @ [Rejected]) i = slot_of es i" "slot_of (es @ [Submitted c k v]) i = slot_of es i"
  "slot_of (es @ [ConsumedAll is]) i = (if i \<in> set is then map_option (\<lambda>_. Consumed (hd (granted es i))) (slot_of es i) else slot_of es i)"
  "input_of (es @ [Rejected]) i = input_of es i" "input_of (es @ [Granted c g]) i = input_of es i"
  "input_of (es @ [ConsumedAll is]) i = (if i \<in> set is then None else input_of es i)"
  by (cases "granted es i"; simp add: slot_of_def input_of_def)+

lemma slot_of_Reserved: "slot_of es i = Some (Reserved c) \<Longrightarrow> consumptions es i = [] \<and> (\<exists>cs. granted es i = c # cs)"
  by (auto simp: slot_of_def split: list.splits if_splits)

text \<open>An index is granted and consumed at most once, only its holder submits at it, and the state is
  what the events say.\<close>

definition index_ok :: "event list \<Rightarrow> registry_state \<Rightarrow> nat \<Rightarrow> bool" where
  "index_ok es s i \<longleftrightarrow>
     (granted es i \<noteq> [] \<longleftrightarrow> i < next_index s) \<and> length (granted es i) \<le> 1 \<and> length (consumptions es i) \<le> 1 \<and>
     (granted es i = [] \<longrightarrow> consumptions es i = [] \<and> submissions es i = []) \<and>
     hm_get (=) (rs_slots s) i = slot_of es i \<and> hm_get (=) (masked_inputs s) i = input_of es i"

definition holders_submit :: "event list \<Rightarrow> bool" where
  "holders_submit es \<longleftrightarrow> (\<forall>c i v. Submitted c i v \<in> set es \<longrightarrow> granted es i = [c])"

definition registry_ok :: "nat \<Rightarrow> event list \<Rightarrow> registry_state \<Rightarrow> bool" where
  "registry_ok cap es s \<longleftrightarrow>
     rs_capacity s = cap \<and> next_index s \<le> cap \<and> hm_distinct (=) (rs_slots s) \<and> hm_distinct (=) (masked_inputs s) \<and>
     (\<forall>i. index_ok es s i) \<and> holders_submit es"

lemma registry_ok_new: "registry_ok cap [] (registry_new h node cap)"
  by (simp add: registry_ok_def registry_new_def index_ok_def holders_submit_def slot_of_def input_of_def)

lemma holder_unique: "index_ok es s i \<Longrightarrow> slot_of es i = Some (Reserved c) \<Longrightarrow> consumptions es i = [] \<and> granted es i = [c]"
  by (auto simp: index_ok_def dest!: slot_of_Reserved)

lemma registry_ok_reserve:
  assumes ok: "registry_ok cap es s" and r: "reserve c n s = (Inr g, t)"
  shows "registry_ok cap (es @ [Granted c g]) t"
proof -
  have g: "g = \<lparr>grant_start = next_index s, grant_count = n\<rparr>" and n: "n \<le> cap - next_index s"
    and t: "t = s\<lparr>rs_slots := fold (\<lambda>i m. hm_insert (=) i (Reserved c) m) [next_index s..<next_index s + n] (rs_slots s),
                next_index := next_index s + n\<rparr>"
    using r ok by (auto simp: reserve_def checked_sub_usize_def checked_add_usize_def Let_def registry_ok_def split: if_splits)
  have idx: "index_ok es s i" for i using ok by (simp add: registry_ok_def)
  have "index_ok (es @ [Granted c g]) t i" for i
  proof (cases "next_index s \<le> i \<and> i < next_index s + n")
    case True
    then have "granted es i = []" using idx [of i] by (simp add: index_ok_def)
    then show ?thesis using idx [of i] True
      by (simp add: index_ok_def t g indices_def get_fold_insert slot_of_def)
  next
    case False
    then show ?thesis using idx [of i]
      by (cases "granted es i") (auto simp: index_ok_def t g indices_def get_fold_insert slot_of_def)
  qed
  moreover have "granted (es @ [Granted c g]) i = [c']" if "Submitted c' i v \<in> set es" for c' i v
  proof -
    have "granted es i = [c']" using ok that by (auto simp: registry_ok_def holders_submit_def)
    then show ?thesis using idx [of i] by (simp add: index_ok_def g indices_def)
  qed
  ultimately show ?thesis using ok n by (auto simp: registry_ok_def t distinct_fold_insert holders_submit_def)
qed

lemma registry_ok_submit:
  assumes ok: "registry_ok cap es s" and r: "submit_masked_input c k v s = (Inr (), t)"
  shows "registry_ok cap (es @ [Submitted c k v]) t"
proof -
  have slot: "hm_get (=) (rs_slots s) k = Some (Reserved c)" and t: "t = s\<lparr>masked_inputs := hm_insert (=) k v (masked_inputs s)\<rparr>"
    using r by (auto simp: submit_masked_input_def split: if_splits option.splits slot_status.splits)
  have idx: "index_ok es s i" for i using ok by (simp add: registry_ok_def)
  have k: "consumptions es k = [] \<and> granted es k = [c]"
    using holder_unique [OF idx, of k c] slot idx [of k] by (simp add: index_ok_def)
  have "index_ok (es @ [Submitted c k v]) t i" for i
    using idx [of i] k by (auto simp: index_ok_def t heq.get_insert input_of_def)
  then show ?thesis using ok k by (auto simp: registry_ok_def t heq.insert_distinct holders_submit_def)
qed

lemma collect_map_checks:
  assumes "collect (map (check_consume s) is) = Inr ps"
  shows "map fst ps = is \<and> (\<forall>(i, c)\<in>set ps. hm_get (=) (rs_slots s) i = Some (Reserved c))"
  using assms
proof (induction "is" arbitrary: ps)
  case (Cons i "is")
  then show ?case
    by (cases "check_consume s i") (auto simp: map_ok_Inr_iff check_consume_def split: if_splits option.splits slot_status.splits)
qed simp

lemma registry_ok_consume:
  assumes ok: "registry_ok cap es s" and r: "consume is s = (Inr (), t)"
  shows "registry_ok cap (es @ [ConsumedAll is]) t"
proof -
  obtain ps where ps: "collect (map (check_consume s) is) = Inr ps" and t: "t = fold mark_consumed ps s"
    using r by (auto simp: consume_def split: sum.splits)
  note chk = collect_map_checks [OF ps]
  have idx: "index_ok es s i" for i using ok by (simp add: registry_ok_def)
  have held: "consumptions es i = [] \<and> granted es i = [c]" if "(i, c) \<in> set ps" for i c
    using holder_unique [OF idx, of i c] chk that idx [of i] by (auto simp: index_ok_def)
  then have f: "\<forall>(i, c)\<in>set ps. hd (granted es i) = c" by auto
  have "set is = fst ` set ps" using chk by (metis set_map)
  note members = this and m = fold_mark_consumed [OF _ _ f, of s, folded t this]
  have dist: "hm_distinct (=) (rs_slots s)" "hm_distinct (=) (masked_inputs s)" using ok by (simp_all add: registry_ok_def)
  have "index_ok (es @ [ConsumedAll is]) t i" for i
  proof (cases "i \<in> set is")
    case True
    then obtain c where "(i, c) \<in> set ps" using members by auto
    from held [OF this] show ?thesis using True idx [of i]
      by (auto simp: index_ok_def m [OF dist] slot_of_def)
  next
    case False
    then show ?thesis using idx [of i] by (simp add: index_ok_def m [OF dist])
  qed
  then show ?thesis using ok by (auto simp: registry_ok_def m [OF dist] holders_submit_def)
qed

lemma rejected_unchanged:
  "reserve c n s = (Inl e, t) \<Longrightarrow> t = s"
  "submit_masked_input c i v s = (Inl e, t) \<Longrightarrow> t = s"
  "consume is s = (Inl e, t) \<Longrightarrow> t = s"
  by (auto simp: reserve_def submit_masked_input_def consume_def Let_def
      split: if_splits option.splits slot_status.splits sum.splits)

lemma registry_ok_rejected: "registry_ok cap es s \<Longrightarrow> registry_ok cap (es @ [Rejected]) s"
  by (auto simp: registry_ok_def index_ok_def holders_submit_def)

lemma history_ok: "history (registry_new h node cap) es s \<Longrightarrow> registry_ok cap es s"
  by (induction rule: history.induct)
    (auto intro: registry_ok_new registry_ok_reserve registry_ok_submit registry_ok_consume registry_ok_rejected
      dest!: rejected_unchanged)


lemma first_bad_None: "(\<And>i. hm_get (=) m i \<noteq> None \<Longrightarrow> f i = None) \<Longrightarrow> first_bad f m = None"
proof -
  assume good: "\<And>i. hm_get (=) m i \<noteq> None \<Longrightarrow> f i = None"
  have "f i = None" if "i \<in> fst ` set m" for i
    using that by (intro good) (auto simp: hm_get_None_iff)
  then have "filter (\<lambda>i. f i \<noteq> None) (sort (map fst m)) = []" by (auto simp: filter_empty_conv)
  then show ?thesis by (simp add: first_bad_def map_filter_def)
qed

lemma registry_ok_valid:
  assumes "registry_ok cap es s"
  shows "validate s = Inr ()"
proof -
  have idx: "index_ok es s i" and s: "rs_capacity s = cap" "next_index s \<le> cap" for i
    using assms by (simp_all add: registry_ok_def)
  have slot: "i < next_index s" if "hm_get (=) (rs_slots s) i \<noteq> None" for i
    using idx [of i] that by (cases "granted es i") (auto simp: index_ok_def slot_of_def)
  have input: "i < next_index s \<and> hm_get (=) (rs_slots s) i \<noteq> None" if "hm_get (=) (masked_inputs s) i \<noteq> None" for i
    using idx [of i] that by (cases "granted es i") (auto simp: index_ok_def slot_of_def input_of_def split: if_splits)
  have "first_bad (\<lambda>i. if rs_capacity s \<le> i then Some (SlotBeyondCapacity i (rs_capacity s)) else None) (rs_slots s) = None"
    by (rule first_bad_None) (use slot s in fastforce)
  moreover have "first_bad (\<lambda>i. if rs_capacity s \<le> i then Some (MaskedInputBeyondCapacity i (rs_capacity s))
      else if hm_get (=) (rs_slots s) i = None then Some (MaskedInputWithoutSlot i) else None) (masked_inputs s) = None"
    by (rule first_bad_None) (use input s in fastforce)
  ultimately show ?thesis using s by (simp add: validate_def)
qed

lemma history_keeps: "history s0 es s \<Longrightarrow> rs_program_hash s = rs_program_hash s0 \<and> rs_node_identity s = rs_node_identity s0"
proof (induction rule: history.induct)
  case (consumed es s "is" t)
  have "rs_program_hash (fold mark_consumed ps s) = rs_program_hash s \<and>
      rs_node_identity (fold mark_consumed ps s) = rs_node_identity s" for ps
    by (induction ps arbitrary: s) (simp_all add: mark_consumed_def)
  then show ?case using consumed by (auto simp: consume_def split: sum.splits)
qed (auto simp: reserve_def submit_masked_input_def Let_def dest!: rejected_unchanged
    split: if_splits option.splits slot_status.splits)

section \<open>Properties\<close>

text \<open>C9: Reservations are exclusive. In every interleaving of calls on a new registry, each index is
  granted to at most one client, in ascending order without gaps, and consumed by at most one call;
  only the client that holds an index ever submits at it; the registry holds for each index exactly its
  holder, whether it was consumed and the last input submitted before that; and a reservation fails only
  when fewer indices are left than it asks for.\<close>

theorem reservations_exclusive:
  assumes "history (registry_new h node cap) es s" "cap \<le> usize_max"
  shows "(\<forall>i. length (granted es i) \<le> 1 \<and> length (consumptions es i) \<le> 1 \<and> (granted es i \<noteq> [] \<longleftrightarrow> i < next_index s) \<and>
              hm_get (=) (rs_slots s) i = slot_of es i \<and> get_masked_input s i = input_of es i) \<and>
         (\<forall>c i v. Submitted c i v \<in> set es \<longrightarrow> granted es i = [c]) \<and>
         fst (reserve c n s) =
           (if n \<le> available s then Inr \<lparr>grant_start = next_index s, grant_count = n\<rparr>
            else Inl (InsufficientMaterial n (available s)))"
proof -
  have ok: "registry_ok cap es s" using history_ok [OF assms(1)] .
  then have "fst (reserve c n s) = (if n \<le> available s then Inr \<lparr>grant_start = next_index s, grant_count = n\<rparr>
            else Inl (InsufficientMaterial n (available s)))"
    using assms(2) by (auto simp: registry_ok_def reserve_def available_def checked_sub_usize_def checked_add_usize_def Let_def)
  then show ?thesis using ok by (auto simp: registry_ok_def index_ok_def holders_submit_def get_masked_input_def)
qed

definition demo_registry :: registry_state where
  "demo_registry = registry_new [7] [8] 4"

lemma demo_history:
  "\<exists>s. history demo_registry ([] @ [Granted [1] \<lparr>grant_start = 0, grant_count = 2\<rparr>] @ [Submitted [1] 0 [5]] @ [ConsumedAll [1, 0]]) s"
proof -
  let ?s1 = "snd (reserve [1] 2 demo_registry)"
  let ?s2 = "snd (submit_masked_input [1] 0 [5] ?s1)"
  let ?s3 = "snd (consume [1, 0] ?s2)"
  have "history demo_registry ([] @ [Granted [1] \<lparr>grant_start = 0, grant_count = 2\<rparr>]) ?s1"
    by (rule history.reserved [OF history.start, where n = 2])
      (simp add: reserve_def demo_registry_def registry_new_def checked_sub_usize_def checked_add_usize_def usize_max_def)
  then have "history demo_registry (([] @ [Granted [1] \<lparr>grant_start = 0, grant_count = 2\<rparr>]) @ [Submitted [1] 0 [5]]) ?s2"
    by (rule history.submitted)
      (simp add: submit_masked_input_def reserve_def demo_registry_def registry_new_def checked_sub_usize_def
        checked_add_usize_def usize_max_def get_fold_insert)
  then have "history demo_registry ((([] @ [Granted [1] \<lparr>grant_start = 0, grant_count = 2\<rparr>]) @ [Submitted [1] 0 [5]]) @ [ConsumedAll [1, 0]]) ?s3"
    by (rule history.consumed)
      (simp add: consume_def check_consume_def submit_masked_input_def reserve_def demo_registry_def registry_new_def
        checked_sub_usize_def checked_add_usize_def usize_max_def get_fold_insert map_ok_def)
  then show ?thesis by auto
qed

theorem reservations_exclusive_witness:
  "\<exists>es s. length es = 3 \<and> granted es 0 = [[1]] \<and> hm_get (=) (rs_slots s) 0 = Some (Consumed [1]) \<and>
     get_masked_input s 0 = None \<and> fst (reserve [2] 3 s) = Inl (InsufficientMaterial 3 (available s))"
proof -
  let ?es = "[] @ [Granted [1] \<lparr>grant_start = 0, grant_count = 2\<rparr>] @ [Submitted [1] 0 [5]] @ [ConsumedAll [1, 0]]"
  obtain s where s: "history demo_registry ?es s" using demo_history by blast
  have cap: "(4::nat) \<le> usize_max" by (simp add: usize_max_def)
  note excl = reservations_exclusive [OF s [unfolded demo_registry_def] cap, of "[2]" 3]
  have ev: "granted ?es i = (if i < 2 then [[1]] else [])" for i by (simp add: granted_def map_filter_def indices_def)
  have "slot_of ?es 0 = Some (Consumed [1])" "input_of ?es 0 = None"
    by (simp_all add: slot_of_def input_of_def granted_def consumptions_def map_filter_def indices_def)
  moreover have "available s = 2"
  proof -
    have "granted ?es i \<noteq> [] \<longleftrightarrow> i < next_index s" for i using excl by blast
    then have "i < next_index s \<longleftrightarrow> i < 2" for i unfolding ev by (metis list.distinct(1))
    then have "next_index s = 2" by (meson less_irrefl linorder_neqE_nat)
    moreover have "rs_capacity s = 4"
      using history_ok [OF s [unfolded demo_registry_def]] by (simp add: registry_ok_def)
    ultimately show ?thesis by (simp add: available_def)
  qed
  moreover have "hm_get (=) (rs_slots s) 0 = slot_of ?es 0" "get_masked_input s 0 = input_of ?es 0"
      "fst (reserve [2] 3 s) = (if 3 \<le> available s then Inr \<lparr>grant_start = next_index s, grant_count = 3\<rparr>
        else Inl (InsufficientMaterial 3 (available s)))"
    using excl by blast+
  ultimately show ?thesis by (intro exI [of _ ?es] exI [of _ s]) (simp add: ev [simplified])
qed

text \<open>C12: Reservations survive a restart: what \<open>persist\<close> writes of a registry reached by any
  interleaving of calls is accepted by \<open>load\<close>, which gives back the same registry. Of the serialiser it
  uses that it reads back what it wrote, and of the blob store that a stored blob is loaded under its key.\<close>

theorem reservations_survive_restart:
  assumes "history (registry_new h node cap) es s"
    and "persist ser store_blob s st = (Inr (), st')"
    and "\<And>x bs. ser x = Inr bs \<Longrightarrow> deser bs = Inr x"
    and "\<And>ns k bs x y. store_blob ns k bs x = (Inr (), y) \<Longrightarrow> load_blob y ns k = Inr (Some bs)"
  shows "load deser load_blob st' h node = Inr (Some s)"
proof -
  have v: "validate s = Inr ()" using registry_ok_valid [OF history_ok [OF assms(1)]] .
  have key: "rs_program_hash s = h" "rs_node_identity s = node"
    using history_keeps [OF assms(1)] by (simp_all add: registry_new_def)
  obtain bs where bs: "ser s = Inr bs" "store_blob RESERVATION_NS (reservation_key h node) bs st = (Inr (), st')"
    using assms(2) v key by (auto simp: persist_def mmap_err_Inr_iff split: sum.splits)
  show ?thesis using assms(3) [OF bs(1)] assms(4) [OF bs(2)] v by (simp add: load_def try_from_state_def)
qed

text \<open>The serialiser of the witness keeps the one registry it was given.\<close>

theorem reservations_survive_restart_witness:
  "\<exists>es s. history (registry_new [7] [8] 4) es s \<and> length es = 3 \<and>
     load (\<lambda>bs. if bs = [0] then Inr s else Inl []) (\<lambda>st ns k. Inr (map_of st (ns, k)))
       [((RESERVATION_NS, reservation_key [7] [8]), [0])] [7] [8] = Inr (Some s)"
proof -
  obtain es s where s: "history (registry_new [7] [8] 4) es s" "length es = 3"
    using demo_history unfolding demo_registry_def by fastforce
  let ?ser = "\<lambda>x. if x = s then Inr [0] else Inl ''''" and ?deser = "\<lambda>bs. if bs = [0] then Inr s else Inl ''''"
  have v: "validate s = Inr ()" using registry_ok_valid [OF history_ok [OF s(1)]] .
  have key: "rs_program_hash s = [7]" "rs_node_identity s = [8]"
    using history_keeps [OF s(1)] by (simp_all add: registry_new_def)
  have "load ?deser (\<lambda>st ns k. Inr (map_of st (ns, k))) [((RESERVATION_NS, reservation_key [7] [8]), [0])] [7] [8] = Inr (Some s)"
    by (rule reservations_survive_restart [OF s(1), where ser = ?ser and st = "[]" and
          store_blob = "\<lambda>ns k bs st. (Inr (), ((ns, k), bs) # st)"])
      (auto simp: persist_def v key mmap_err_def split: if_splits)
  then show ?thesis using s by (intro exI [of _ es] exI [of _ s]) simp
qed

end
