(* ===== verification/Open_Registry.thy ===== *)
theory Open_Registry
  imports Share_Runtime
begin

text \<open>
  The registry in which the parties of one MPC instance accumulate the shares of an opening
  (\<open>stoffel-vm/src/net/open_registry/\<close>: \<open>accumulators.rs\<close>, \<open>instance.rs\<close>). Shares arrive from the
  network and from local openers; each opener waits until enough parties have contributed to its
  sequence number, reconstructs the value outside the lock and stores it for the others.

  The source has the same code for single shares, for batches and for partial points of an opening in
  the exponent. The operations of the three accumulators are a record here, and the code over them is
  written once. A \<open>HashMap\<close> under a lock is an association list; a pass through the body of a wait loop
  while the lock is held is one method; notifications only decide when a loop makes its next pass.
\<close>

section \<open>Accumulators\<close>

datatype open_result = OpenedClear clear_share_value | OpenedBytes "byte list"

record open_accumulator =
  oa_shares :: "byte list list"
  oa_party_ids :: "usize list"
  oa_result :: "open_result option"

type_synonym single_key = "usize \<times> string"

record batch_accumulator =
  ba_shares_per_position :: "byte list list list"
  ba_party_ids :: "usize list"
  ba_results :: "clear_share_value list option"

type_synonym batch_key = "usize \<times> string \<times> usize"

definition batch_accumulator_new :: "usize \<Rightarrow> batch_accumulator" where
  "batch_accumulator_new n = \<lparr>ba_shares_per_position = replicate n [], ba_party_ids = [], ba_results = None\<rparr>"

record exp_accumulator =
  ea_partial_points :: "(usize \<times> byte list) list"
  ea_party_ids :: "usize list"
  ea_result :: "byte list option"

datatype exp_kind = G1 | G2

text \<open>The messages of the errors as data.\<close>

datatype (plugins only: code) open_error =
    NoContributionRequired string
  | SequenceOverflow string
  | ConflictingPayload string usize usize
  | MissingEntry string usize
  | ResultTypeMismatch
  | OpenTimeout string usize usize
  | ReconstructFailed string

text \<open>
  The parts in which the three accumulators differ: the empty one for a key, the parties that
  contributed, the payload at a position, adding a contribution, the number that is compared with the
  required one, what is handed to the reconstruction, and the stored result.
\<close>

record ('k, 'a, 'p, 's, 'r) acc_ops =
  acc_fresh :: "'k \<Rightarrow> 'a"
  acc_fits :: "'k \<Rightarrow> 'p \<Rightarrow> bool"
  acc_ids :: "'a \<Rightarrow> usize list"
  acc_payload :: "'a \<Rightarrow> nat \<Rightarrow> 'p option"
  acc_push :: "usize \<Rightarrow> 'p \<Rightarrow> 'a \<Rightarrow> 'a"
  acc_count :: "'a \<Rightarrow> usize"
  acc_snapshot :: "usize \<Rightarrow> 'a \<Rightarrow> 's"
  acc_result :: "'a \<Rightarrow> 'r option"
  acc_set_result :: "'r \<Rightarrow> 'a \<Rightarrow> 'a"

definition single_ops :: "(single_key, open_accumulator, byte list, byte list list, open_result) acc_ops" where
  "single_ops =
     \<lparr>acc_fresh = (\<lambda>_. \<lparr>oa_shares = [], oa_party_ids = [], oa_result = None\<rparr>), acc_fits = (\<lambda>_ _. True),
      acc_ids = oa_party_ids, acc_payload = (\<lambda>a i. vec_get (oa_shares a) i),
      acc_push = (\<lambda>p x a. a\<lparr>oa_shares := oa_shares a @ [x], oa_party_ids := oa_party_ids a @ [p]\<rparr>),
      acc_count = (\<lambda>a. length (oa_shares a)), acc_snapshot = (\<lambda>n a. take n (oa_shares a)),
      acc_result = oa_result, acc_set_result = (\<lambda>r a. a\<lparr>oa_result := Some r\<rparr>)\<rparr>"

definition exp_ops :: "(usize, exp_accumulator, usize \<times> byte list, (usize \<times> byte list) list, byte list) acc_ops" where
  "exp_ops =
     \<lparr>acc_fresh = (\<lambda>_. \<lparr>ea_partial_points = [], ea_party_ids = [], ea_result = None\<rparr>), acc_fits = (\<lambda>_ _. True),
      acc_ids = ea_party_ids, acc_payload = (\<lambda>a i. vec_get (ea_partial_points a) i),
      acc_push = (\<lambda>p x a. a\<lparr>ea_partial_points := ea_partial_points a @ [x], ea_party_ids := ea_party_ids a @ [p]\<rparr>),
      acc_count = (\<lambda>a. length (ea_partial_points a)), acc_snapshot = (\<lambda>n a. take n (ea_partial_points a)),
      acc_result = ea_result, acc_set_result = (\<lambda>r a. a\<lparr>ea_result := Some r\<rparr>)\<rparr>"

text \<open>A batch keeps its shares by position; the key holds the size of the batch, so a contribution
  has a share for each position.\<close>

definition batch_ops :: "(batch_key, batch_accumulator, byte list list, byte list list list, clear_share_value list) acc_ops" where
  "batch_ops =
     \<lparr>acc_fresh = (\<lambda>(_, _, n). batch_accumulator_new n), acc_fits = (\<lambda>(_, _, n) xs. length xs = n),
      acc_ids = ba_party_ids,
      acc_payload = (\<lambda>a i. Some (List.map_filter (\<lambda>xs. vec_get xs i) (ba_shares_per_position a))),
      acc_push = (\<lambda>p xs a. a\<lparr>ba_shares_per_position := map2 (\<lambda>ys x. ys @ [x]) (ba_shares_per_position a) xs,
                               ba_party_ids := ba_party_ids a @ [p]\<rparr>),
      acc_count = (\<lambda>a. length (ba_party_ids a)), acc_snapshot = (\<lambda>n a. map (take n) (ba_shares_per_position a)),
      acc_result = ba_results, acc_set_result = (\<lambda>r a. a\<lparr>ba_results := Some r\<rparr>)\<rparr>"

section \<open>Contributions\<close>

text \<open>\<open>entry(key).or_default()\<close>, and the entry it gives.\<close>

definition or_default :: "('k, 'a, 'p, 's, 'r) acc_ops \<Rightarrow> 'k \<Rightarrow> ('k \<times> 'a) list \<Rightarrow> ('k \<times> 'a) list" where
  "or_default ops key reg = (case hm_get (=) reg key of Some _ \<Rightarrow> reg | None \<Rightarrow> hm_insert (=) key (acc_fresh ops key) reg)"

definition entry_of :: "('k, 'a, 'p, 's, 'r) acc_ops \<Rightarrow> ('k \<times> 'a) list \<Rightarrow> 'k \<Rightarrow> 'a" where
  "entry_of ops reg key = (case hm_get (=) reg key of Some a \<Rightarrow> a | None \<Rightarrow> acc_fresh ops key)"

definition position :: "'a \<Rightarrow> 'a list \<Rightarrow> nat option" where
  "position x xs = (if x \<in> set xs then Some (length (takeWhile (\<lambda>y. y \<noteq> x) xs)) else None)"

definition contribute_at ::
  "('k, 'a, 'p, 's, 'r) acc_ops \<Rightarrow> open_error \<Rightarrow> 'k \<Rightarrow> usize \<Rightarrow> 'p \<Rightarrow> (('k \<times> 'a) list, open_error, unit) meth" where
  "contribute_at ops conflict key party x reg =
     (let a = entry_of ops reg key
      in case position party (acc_ids ops a) of
           Some i \<Rightarrow> (if acc_payload ops a i = Some x then Inr () else Inl conflict, or_default ops key reg)
         | None \<Rightarrow> (Inr (), hm_insert (=) key (acc_push ops party x a) reg))"

text \<open>The least sequence number at which the party has not contributed. A number whose entry does
  not exist ends the search, so only the entry of the result is created.\<close>

function next_sequence ::
  "('k, 'a, 'p, 's, 'r) acc_ops \<Rightarrow> string \<Rightarrow> (usize \<Rightarrow> 'k) \<Rightarrow> usize \<Rightarrow> ('k \<times> 'a) list \<Rightarrow> usize \<Rightarrow> open_error + usize" where
  "next_sequence ops oper mk party reg seq =
     (if party \<notin> set (acc_ids ops (entry_of ops reg (mk seq))) then Inr seq
      else if seq + 1 \<le> usize_max then next_sequence ops oper mk party reg (seq + 1)
      else Inl (SequenceOverflow oper))"
  by pat_completeness auto
termination by (relation "measure (\<lambda>(_, _, _, _, _, seq). usize_max - seq)") auto

declare next_sequence.simps [simp del]

definition contribute_next ::
  "('k, 'a, 'p, 's, 'r) acc_ops \<Rightarrow> string \<Rightarrow> (usize \<Rightarrow> 'k) \<Rightarrow> usize \<Rightarrow> 'p \<Rightarrow> (('k \<times> 'a) list, open_error, usize) meth" where
  "contribute_next ops oper mk party x reg =
     (case next_sequence ops oper mk party reg 0 of
        Inl e \<Rightarrow> (Inl e, reg)
      | Inr seq \<Rightarrow> (Inr seq, hm_insert (=) (mk seq) (acc_push ops party x (entry_of ops reg (mk seq))) reg))"

section \<open>A pass through a wait loop\<close>

datatype ('s, 'r) open_progress =
    Ready 'r
  | Collected usize 's
  | Pending usize usize

definition local_sequence ::
  "('k, 'a, 'p, 's, 'r) acc_ops \<Rightarrow> string \<Rightarrow> (usize \<Rightarrow> 'k) \<Rightarrow> usize \<Rightarrow> 'p \<Rightarrow> usize option \<Rightarrow> usize option \<Rightarrow>
   (('k \<times> 'a) list, open_error, usize) meth" where
  "local_sequence ops oper mk party x wanted my_sequence reg =
     (case my_sequence of
        Some seq \<Rightarrow> (Inr seq, reg)
      | None \<Rightarrow>
          (case (case wanted of Some seq \<Rightarrow> Inr seq | None \<Rightarrow> next_sequence ops oper mk party reg 0) of
             Inl e \<Rightarrow> (Inl e, reg)
           | Inr seq \<Rightarrow> mbind (contribute_at ops (ConflictingPayload oper seq party) (mk seq) party x) (\<lambda>_. mret seq) reg))"

definition open_pass ::
  "('k, 'a, 'p, 's, 'r) acc_ops \<Rightarrow> string \<Rightarrow> (usize \<Rightarrow> 'k) \<Rightarrow> usize \<Rightarrow> 'p \<Rightarrow> usize option \<Rightarrow> usize \<Rightarrow> usize option \<Rightarrow>
   (('k \<times> 'a) list, open_error, ('s, 'r) open_progress) meth" where
  "open_pass ops oper mk party x wanted required my_sequence =
     mbind (local_sequence ops oper mk party x wanted my_sequence) (\<lambda>seq reg.
       case hm_get (=) reg (mk seq) of
         None \<Rightarrow> (Inl (MissingEntry oper seq), reg)
       | Some a \<Rightarrow>
           (Inr (case acc_result ops a of
                   Some r \<Rightarrow> Ready r
                 | None \<Rightarrow> if required \<le> acc_count ops a then Collected seq (acc_snapshot ops required a)
                           else Pending seq (length (acc_ids ops a))), reg))"

definition open_complete ::
  "('k, 'a, 'p, 's, 'r) acc_ops \<Rightarrow> string \<Rightarrow> (usize \<Rightarrow> 'k) \<Rightarrow> usize \<Rightarrow> 'r \<Rightarrow> (('k \<times> 'a) list, open_error, unit) meth" where
  "open_complete ops oper mk seq r reg =
     (case hm_get (=) reg (mk seq) of
        None \<Rightarrow> (Inl (MissingEntry oper seq), reg)
      | Some a \<Rightarrow> (Inr (), hm_insert (=) (mk seq) (acc_set_result ops r a) reg))"

section \<open>The registry of an instance\<close>

record rbc_state =
  rbc_messages :: "((nat \<times> usize) \<times> byte list) list"
  rbc_delivered :: "(usize \<times> usize \<times> nat) list"

record instance_registry =
  ir_instance_id :: nat
  ir_single :: "(single_key \<times> open_accumulator) list"
  ir_batch :: "(batch_key \<times> batch_accumulator) list"
  ir_exp :: "(usize \<times> exp_accumulator) list"
  ir_exp_g2 :: "(usize \<times> exp_accumulator) list"
  ir_rbc :: rbc_state

definition instance_registry_new :: "nat \<Rightarrow> instance_registry" where
  "instance_registry_new n =
     \<lparr>ir_instance_id = n, ir_single = [], ir_batch = [], ir_exp = [], ir_exp_g2 = [],
      ir_rbc = \<lparr>rbc_messages = [], rbc_delivered = []\<rparr>\<rparr>"

definition on_single :: "((single_key \<times> open_accumulator) list, open_error, 'x) meth \<Rightarrow> (instance_registry, open_error, 'x) meth" where
  "on_single f r = (case f (ir_single r) of (res, m) \<Rightarrow> (res, r\<lparr>ir_single := m\<rparr>))"

definition on_batch :: "((batch_key \<times> batch_accumulator) list, open_error, 'x) meth \<Rightarrow> (instance_registry, open_error, 'x) meth" where
  "on_batch f r = (case f (ir_batch r) of (res, m) \<Rightarrow> (res, r\<lparr>ir_batch := m\<rparr>))"

definition exp_registry :: "exp_kind \<Rightarrow> ((usize \<times> exp_accumulator) list, open_error, 'x) meth \<Rightarrow> (instance_registry, open_error, 'x) meth" where
  "exp_registry kind f r =
     (case kind of
        G1 \<Rightarrow> (case f (ir_exp r) of (res, m) \<Rightarrow> (res, r\<lparr>ir_exp := m\<rparr>))
      | G2 \<Rightarrow> (case f (ir_exp_g2 r) of (res, m) \<Rightarrow> (res, r\<lparr>ir_exp_g2 := m\<rparr>)))"

definition insert_single :: "usize \<Rightarrow> string \<Rightarrow> usize \<Rightarrow> byte list \<Rightarrow> (instance_registry, open_error, unit) meth" where
  "insert_single seq type_key sender share =
     on_single (contribute_at single_ops (ConflictingPayload ''open_share'' seq sender) (seq, type_key) sender share)"

definition insert_single_next :: "string \<Rightarrow> usize \<Rightarrow> byte list \<Rightarrow> (instance_registry, open_error, usize) meth" where
  "insert_single_next type_key sender share =
     on_single (contribute_next single_ops ''open_share'' (\<lambda>seq. (seq, type_key)) sender share)"

definition insert_batch :: "usize \<Rightarrow> string \<Rightarrow> usize \<Rightarrow> byte list list \<Rightarrow> (instance_registry, open_error, unit) meth" where
  "insert_batch seq type_key sender shares =
     (if shares = [] then mret ()
      else on_batch (contribute_at batch_ops (ConflictingPayload ''batch_open_shares'' seq sender)
             (seq, type_key, length shares) sender shares))"

definition insert_batch_next :: "string \<Rightarrow> usize \<Rightarrow> byte list list \<Rightarrow> (instance_registry, open_error, usize) meth" where
  "insert_batch_next type_key sender shares =
     (if shares = [] then mret 0
      else on_batch (contribute_next batch_ops ''batch_open_shares'' (\<lambda>seq. (seq, type_key, length shares)) sender shares))"

definition insert_exp_for_kind :: "exp_kind \<Rightarrow> usize \<Rightarrow> usize \<Rightarrow> usize \<Rightarrow> byte list \<Rightarrow> (instance_registry, open_error, unit) meth" where
  "insert_exp_for_kind kind seq sender share_id point =
     exp_registry kind (contribute_at exp_ops (ConflictingPayload ''open-in-exponent'' seq sender) seq sender (share_id, point))"

definition insert_exp :: "usize \<Rightarrow> usize \<Rightarrow> usize \<Rightarrow> byte list \<Rightarrow> (instance_registry, open_error, unit) meth" where
  "insert_exp = insert_exp_for_kind G1"

definition insert_exp_g2 :: "usize \<Rightarrow> usize \<Rightarrow> usize \<Rightarrow> byte list \<Rightarrow> (instance_registry, open_error, unit) meth" where
  "insert_exp_g2 = insert_exp_for_kind G2"

definition insert_exp_next :: "exp_kind \<Rightarrow> usize \<Rightarrow> usize \<Rightarrow> byte list \<Rightarrow> (instance_registry, open_error, usize) meth" where
  "insert_exp_next kind sender share_id point =
     exp_registry kind (contribute_next exp_ops ''open-in-exponent'' (\<lambda>seq. seq) sender (share_id, point))"

definition contribute_exp_open ::
  "exp_kind \<Rightarrow> usize option \<Rightarrow> usize option \<Rightarrow> usize \<Rightarrow> usize \<Rightarrow> byte list \<Rightarrow> usize \<Rightarrow>
   (instance_registry, open_error, ((usize \<times> byte list) list, byte list) open_progress) meth" where
  "contribute_exp_open kind my_sequence wanted party share_id point required =
     (if required = 0 then merr (NoContributionRequired ''open-in-exponent'')
      else exp_registry kind (open_pass exp_ops ''open-in-exponent'' (\<lambda>seq. seq) party (share_id, point) wanted required my_sequence))"

definition complete_exp_open :: "exp_kind \<Rightarrow> usize \<Rightarrow> byte list \<Rightarrow> (instance_registry, open_error, unit) meth" where
  "complete_exp_open kind seq r = exp_registry kind (open_complete exp_ops ''open-in-exponent'' (\<lambda>seq. seq) seq r)"

text \<open>\<open>try_exp_open\<close>: one pass, with the reconstruction as a parameter.\<close>

definition try_exp_open ::
  "exp_kind \<Rightarrow> usize option \<Rightarrow> usize option \<Rightarrow> usize \<Rightarrow> usize \<Rightarrow> byte list \<Rightarrow> usize \<Rightarrow>
   ((usize \<times> byte list) list \<Rightarrow> string + byte list) \<Rightarrow> (instance_registry, open_error, byte list option) meth" where
  "try_exp_open kind my_sequence wanted party share_id point required reconstruct =
     mbind (contribute_exp_open kind my_sequence wanted party share_id point required) (\<lambda>p.
       case p of
         Ready r \<Rightarrow> mret (Some r)
       | Pending _ _ \<Rightarrow> mret None
       | Collected seq points \<Rightarrow>
           (case reconstruct points of
              Inl e \<Rightarrow> merr (ReconstructFailed e)
            | Inr r \<Rightarrow> mbind (complete_exp_open kind seq r) (\<lambda>_. mret (Some r))))"

text \<open>The result of a single opening is stored with its kind; an opener of the other kind rejects it.\<close>

datatype open_kind = ClearShareKind | BytesKind

fun expect_result :: "open_kind \<Rightarrow> open_result \<Rightarrow> open_error + open_result" where
  "expect_result ClearShareKind (OpenedClear c) = Inr (OpenedClear c)"
| "expect_result ClearShareKind (OpenedBytes _) = Inl ResultTypeMismatch"
| "expect_result BytesKind (OpenedBytes b) = Inr (OpenedBytes b)"
| "expect_result BytesKind (OpenedClear _) = Inl ResultTypeMismatch"

text \<open>The reconstruction of a batch, position by position, stopping at the first failure.\<close>

definition reconstruct_batch :: "(byte list list \<Rightarrow> nat \<Rightarrow> string + clear_share_value) \<Rightarrow> byte list list list \<Rightarrow>
    string + clear_share_value list" where
  "reconstruct_batch one snapshot = collect (map2 one snapshot [0..<length snapshot])"

text \<open>The same for a share and for a batch: a pass, and a pass with the reconstruction and the store of its
  result when there are enough contributions; an empty batch is open at once.\<close>

definition open_single_pass ::
  "string \<Rightarrow> usize \<Rightarrow> byte list \<Rightarrow> usize option \<Rightarrow> usize \<Rightarrow> usize option \<Rightarrow>
   (instance_registry, open_error, (byte list list, open_result) open_progress) meth" where
  "open_single_pass type_key party share wanted required my_sequence =
     (if required = 0 then merr (NoContributionRequired ''open_share'')
      else on_single (open_pass single_ops ''open_share'' (\<lambda>seq. (seq, type_key)) party share wanted required my_sequence))"

definition try_open_single ::
  "open_kind \<Rightarrow> string \<Rightarrow> usize \<Rightarrow> byte list \<Rightarrow> usize option \<Rightarrow> usize \<Rightarrow> usize option \<Rightarrow>
   (byte list list \<Rightarrow> string + open_result) \<Rightarrow> (instance_registry, open_error, open_result option) meth" where
  "try_open_single kind type_key party share wanted required my_sequence reconstruct =
     mbind (open_single_pass type_key party share wanted required my_sequence) (\<lambda>p.
       case p of
         Ready r \<Rightarrow> mread (\<lambda>_. map_ok Some (expect_result kind r))
       | Pending _ _ \<Rightarrow> mret None
       | Collected seq shares \<Rightarrow>
           (case reconstruct shares of
              Inl e \<Rightarrow> merr (ReconstructFailed e)
            | Inr r \<Rightarrow> mbind (on_single (open_complete single_ops ''open_share'' (\<lambda>seq. (seq, type_key)) seq r)) (\<lambda>_. mret (Some r))))"

definition batch_open_pass ::
  "string \<Rightarrow> usize \<Rightarrow> byte list list \<Rightarrow> usize option \<Rightarrow> usize \<Rightarrow> usize option \<Rightarrow>
   (instance_registry, open_error, (byte list list list, clear_share_value list) open_progress) meth" where
  "batch_open_pass type_key party shares wanted required my_sequence =
     (if shares = [] then mret (Ready [])
      else if required = 0 then merr (NoContributionRequired ''batch_open_shares'')
      else on_batch (open_pass batch_ops ''batch_open_shares'' (\<lambda>seq. (seq, type_key, length shares)) party shares wanted required my_sequence))"

definition try_batch_open ::
  "string \<Rightarrow> usize \<Rightarrow> byte list list \<Rightarrow> usize option \<Rightarrow> usize \<Rightarrow> usize option \<Rightarrow>
   (byte list list \<Rightarrow> nat \<Rightarrow> string + clear_share_value) \<Rightarrow> (instance_registry, open_error, clear_share_value list option) meth" where
  "try_batch_open type_key party shares wanted required my_sequence reconstruct_one =
     mbind (batch_open_pass type_key party shares wanted required my_sequence) (\<lambda>p.
       case p of
         Ready r \<Rightarrow> mret (Some r)
       | Pending _ _ \<Rightarrow> mret None
       | Collected seq snapshot \<Rightarrow>
           (case reconstruct_batch reconstruct_one snapshot of
              Inl e \<Rightarrow> merr (ReconstructFailed e)
            | Inr r \<Rightarrow> mbind (on_batch (open_complete batch_ops ''batch_open_shares'' (\<lambda>seq. (seq, type_key, length shares)) seq r))
                (\<lambda>_. mret (Some r))))"

section \<open>Concurrent openers\<close>

text \<open>
  An opener runs the wait loop of \<open>open_single_poll\<close>, \<open>batch_open_poll\<close> or \<open>exp_open_poll\<close> (or their
  asynchronous forms): passes under the lock until the result is there or enough shares are, then the
  reconstruction without the lock, then the store of the result under the lock again.
\<close>

record ('k, 'p, 'c) opener =
  op_name :: string
  op_key :: "usize \<Rightarrow> 'k"
  op_party :: usize
  op_payload :: 'p
  op_wanted :: "usize option"
  op_class :: 'c

datatype ('s, 'r) opener_state =
    Looping "usize option"
  | Rebuilding usize 's
  | Finished "usize option" "open_error + 'r"

record ('k, 'a, 'p, 's, 'r, 'c) open_system =
  os_registry :: "('k \<times> 'a) list"
  os_openers :: "nat \<Rightarrow> (('k, 'p, 'c) opener \<times> ('s, 'r) opener_state) option"

text \<open>Where an opener is after a pass; a finished one is recorded with its sequence number.\<close>

definition after_pass ::
  "('c \<Rightarrow> 'r \<Rightarrow> open_error + 'r) \<Rightarrow> 'c \<Rightarrow> usize option \<Rightarrow> open_error + ('s, 'r) open_progress \<Rightarrow> ('s, 'r) opener_state" where
  "after_pass unwrap c seq res =
     (case res of
        Inl e \<Rightarrow> Finished seq (Inl e)
      | Inr (Ready r) \<Rightarrow> Finished seq (unwrap c r)
      | Inr (Collected n s) \<Rightarrow> Rebuilding n s
      | Inr (Pending n _) \<Rightarrow> Looping (Some n))"

definition pass_sequence ::
  "('k, 'a, 'p, 's, 'r) acc_ops \<Rightarrow> ('k, 'p, 'c) opener \<Rightarrow> usize option \<Rightarrow> ('k \<times> 'a) list \<Rightarrow> usize option" where
  "pass_sequence ops o' my_sequence reg =
     (case fst (local_sequence ops (op_name o') (op_key o') (op_party o') (op_payload o') (op_wanted o') my_sequence reg) of
        Inl _ \<Rightarrow> None
      | Inr seq \<Rightarrow> Some seq)"

abbreviation put_opener :: "nat \<Rightarrow> ('k, 'p, 'c) opener \<Rightarrow> ('s, 'r) opener_state \<Rightarrow>
    ('k, 'a, 'p, 's, 'r, 'c) open_system \<Rightarrow> ('k, 'a, 'p, 's, 'r, 'c) open_system" where
  "put_opener i o' st S \<equiv> S\<lparr>os_openers := (os_openers S)(i \<mapsto> (o', st))\<rparr>"

text \<open>
  Steps of the openers of one process and of the network, in any order. The reconstruction is a function
  of the key, of the kind of opening and of the snapshot, and every opener requires the same number of
  contributions. An AVSS engine passes a closure that also looks at its own share and commitments; it
  is such a function as long as the closures of the openers of a key agree on the snapshots they get.
\<close>

inductive open_step ::
  "('k, 'a, 'p, 's, 'r) acc_ops \<Rightarrow> usize \<Rightarrow> ('k \<Rightarrow> 'c \<Rightarrow> 's \<Rightarrow> string + 'r) \<Rightarrow> ('c \<Rightarrow> 'r \<Rightarrow> open_error + 'r) \<Rightarrow>
   ('k, 'a, 'p, 's, 'r, 'c) open_system \<Rightarrow> ('k, 'a, 'p, 's, 'r, 'c) open_system \<Rightarrow> bool"
  for ops required reconstruct unwrap where
  open_start: "os_openers S i = None \<Longrightarrow> 0 < required \<Longrightarrow> (\<And>seq. acc_fits ops (op_key o' seq) (op_payload o')) \<Longrightarrow>
    open_step ops required reconstruct unwrap S (put_opener i o' (Looping None) S)"
| pass: "os_openers S i = Some (o', Looping q) \<Longrightarrow>
    open_pass ops (op_name o') (op_key o') (op_party o') (op_payload o') (op_wanted o') required q (os_registry S) = (res, reg) \<Longrightarrow>
    open_step ops required reconstruct unwrap S
      (put_opener i o' (after_pass unwrap (op_class o') (pass_sequence ops o' q (os_registry S)) res) (S\<lparr>os_registry := reg\<rparr>))"
| time_out: "os_openers S i = Some (o', Looping (Some n)) \<Longrightarrow>
    open_step ops required reconstruct unwrap S
      (put_opener i o' (Finished (Some n) (Inl (OpenTimeout (op_name o')
         (length (acc_ids ops (entry_of ops (os_registry S) (op_key o' n)))) required))) S)"
| reconstruct_fails: "os_openers S i = Some (o', Rebuilding n s) \<Longrightarrow> reconstruct (op_key o' n) (op_class o') s = Inl e \<Longrightarrow>
    open_step ops required reconstruct unwrap S (put_opener i o' (Finished (Some n) (Inl (ReconstructFailed e))) S)"
| store_result: "os_openers S i = Some (o', Rebuilding n s) \<Longrightarrow> reconstruct (op_key o' n) (op_class o') s = Inr r \<Longrightarrow>
    open_complete ops (op_name o') (op_key o') n r (os_registry S) = (res, reg) \<Longrightarrow>
    open_step ops required reconstruct unwrap S
      (put_opener i o' (Finished (Some n) (map_ok (\<lambda>_. r) res)) (S\<lparr>os_registry := reg\<rparr>))"
| message: "acc_fits ops key x \<Longrightarrow> contribute_at ops e key sender x (os_registry S) = (res, reg) \<Longrightarrow>
    open_step ops required reconstruct unwrap S (S\<lparr>os_registry := reg\<rparr>)"
| message_next: "(\<And>seq. acc_fits ops (mk seq) x) \<Longrightarrow> contribute_next ops oper mk sender x (os_registry S) = (res', reg) \<Longrightarrow>
    open_step ops required reconstruct unwrap S (S\<lparr>os_registry := reg\<rparr>)"

definition open_system_new :: "('k, 'a, 'p, 's, 'r, 'c) open_system" where
  "open_system_new = \<lparr>os_registry = [], os_openers = (\<lambda>_. None)\<rparr>"

definition open_reachable where
  "open_reachable ops required reconstruct unwrap S \<longleftrightarrow>
     (open_step ops required reconstruct unwrap)\<^sup>*\<^sup>* open_system_new S"

end
