(* ===== verification/Open_Agreement.thy ===== *)
theory Open_Agreement
  imports Open_Registry
begin

text \<open>
  Openers of one instance agree: every opener that returns a value for a key returns the value that is
  reconstructed from the first contributions made there, one from each of the required number of
  parties, whatever the order in which messages arrive and openers run. The laws of an accumulator are a
  locale, interpreted for single shares, batches and openings in the exponent.
\<close>

section \<open>Laws of accumulators\<close>

locale accumulator =
  fixes ops :: "('k, 'a, 'p, 's, 'r) acc_ops" and good :: "'k \<Rightarrow> 'a \<Rightarrow> bool"
  assumes fresh_good: "good k (acc_fresh ops k)"
    and fresh_ids: "acc_ids ops (acc_fresh ops k) = []"
    and fresh_result: "acc_result ops (acc_fresh ops k) = None"
    and push_good: "good k a \<Longrightarrow> acc_fits ops k x \<Longrightarrow> good k (acc_push ops p x a)"
    and push_ids: "acc_ids ops (acc_push ops p x a) = acc_ids ops a @ [p]"
    and push_result: "acc_result ops (acc_push ops p x a) = acc_result ops a"
    and push_payload: "good k a \<Longrightarrow> acc_fits ops k x \<Longrightarrow> i < length (acc_ids ops a) \<Longrightarrow>
      acc_payload ops (acc_push ops p x a) i = acc_payload ops a i"
    and push_new_payload: "good k a \<Longrightarrow> acc_fits ops k x \<Longrightarrow> acc_payload ops (acc_push ops p x a) (length (acc_ids ops a)) = Some x"
    and count_ids: "good k a \<Longrightarrow> acc_count ops a = length (acc_ids ops a)"
    and push_snapshot: "good k a \<Longrightarrow> acc_fits ops k x \<Longrightarrow> n \<le> length (acc_ids ops a) \<Longrightarrow>
      acc_snapshot ops n (acc_push ops p x a) = acc_snapshot ops n a"
    and stored: "good k a \<Longrightarrow> good k (acc_set_result ops r a)" "acc_ids ops (acc_set_result ops r a) = acc_ids ops a"
      "acc_payload ops (acc_set_result ops r a) i = acc_payload ops a i"
      "acc_snapshot ops n (acc_set_result ops r a) = acc_snapshot ops n a" "acc_result ops (acc_set_result ops r a) = Some r"

definition single_good :: "single_key \<Rightarrow> open_accumulator \<Rightarrow> bool" where
  "single_good k a \<longleftrightarrow> length (oa_shares a) = length (oa_party_ids a)"

interpretation single: accumulator single_ops single_good
  by unfold_locales (auto simp: single_ops_def single_good_def vec_get_def nth_append)

definition exp_good :: "usize \<Rightarrow> exp_accumulator \<Rightarrow> bool" where
  "exp_good k a \<longleftrightarrow> length (ea_partial_points a) = length (ea_party_ids a)"

interpretation exponent: accumulator exp_ops exp_good
  by unfold_locales (auto simp: exp_ops_def exp_good_def vec_get_def nth_append)

definition batch_good :: "batch_key \<Rightarrow> batch_accumulator \<Rightarrow> bool" where
  "batch_good k a \<longleftrightarrow> length (ba_shares_per_position a) = snd (snd k) \<and>
     (\<forall>xs\<in>set (ba_shares_per_position a). length xs = length (ba_party_ids a))"

text \<open>The contribution of a party is the row of the matrix whose columns are the positions.\<close>

lemma push_rows:
  assumes "length cols = length xs" "\<forall>c\<in>set cols. length c = n"
  shows "i < n \<Longrightarrow> List.map_filter (\<lambda>c. vec_get c i) (map2 (\<lambda>c x. c @ [x]) cols xs) = List.map_filter (\<lambda>c. vec_get c i) cols"
    and "List.map_filter (\<lambda>c. vec_get c n) (map2 (\<lambda>c x. c @ [x]) cols xs) = xs"
    and "k \<le> n \<Longrightarrow> map (take k) (map2 (\<lambda>c x. c @ [x]) cols xs) = map (take k) cols"
    and "\<forall>c\<in>set (map2 (\<lambda>c x. c @ [x]) cols xs). length c = Suc n"
  using assms by (induction cols xs rule: list_induct2) (auto simp: List.map_filter_simps vec_get_def nth_append)

interpretation batch: accumulator batch_ops batch_good
proof unfold_locales
  fix k :: batch_key and a xs p i n
  assume good: "batch_good k a" and fits: "acc_fits batch_ops k xs"
  then have len: "length (ba_shares_per_position a) = length xs" "\<forall>c\<in>set (ba_shares_per_position a). length c = length (ba_party_ids a)"
    by (auto simp: batch_good_def batch_ops_def)
  show "batch_good k (acc_push batch_ops p xs a)"
    using good len push_rows(4) [OF len] by (auto simp: batch_good_def batch_ops_def)
  show "acc_payload batch_ops (acc_push batch_ops p xs a) (length (acc_ids batch_ops a)) = Some xs"
    using push_rows(2) [OF len] by (simp add: batch_ops_def)
  show "acc_payload batch_ops (acc_push batch_ops p xs a) i = acc_payload batch_ops a i" if "i < length (acc_ids batch_ops a)"
    using push_rows(1) [OF len, of i] that by (simp add: batch_ops_def)
  show "acc_snapshot batch_ops n (acc_push batch_ops p xs a) = acc_snapshot batch_ops n a" if "n \<le> length (acc_ids batch_ops a)"
    using push_rows(3) [OF len, of n] that by (simp add: batch_ops_def)
qed (auto simp: batch_good_def batch_ops_def batch_accumulator_new_def)


section \<open>Invariant\<close>

definition has_contribution :: "('k, 'a, 'p, 's, 'r) acc_ops \<Rightarrow> 'a \<Rightarrow> usize \<Rightarrow> 'p \<Rightarrow> bool" where
  "has_contribution ops a p x \<longleftrightarrow> (\<exists>i<length (acc_ids ops a). acc_ids ops a ! i = p \<and> acc_payload ops a i = Some x)"

text \<open>Contributions are only ever added at the end.\<close>

definition extends :: "('k, 'a, 'p, 's, 'r) acc_ops \<Rightarrow> 'a \<Rightarrow> 'a \<Rightarrow> bool" where
  "extends ops a b \<longleftrightarrow> (\<exists>ps. acc_ids ops b = acc_ids ops a @ ps) \<and>
     (\<forall>i<length (acc_ids ops a). acc_payload ops b i = acc_payload ops a i) \<and>
     (\<forall>n\<le>length (acc_ids ops a). acc_snapshot ops n b = acc_snapshot ops n a)"

definition grows :: "('k, 'a, 'p, 's, 'r) acc_ops \<Rightarrow> ('k \<times> 'a) list \<Rightarrow> ('k \<times> 'a) list \<Rightarrow> bool" where
  "grows ops reg reg' \<longleftrightarrow> (\<forall>k a. hm_get (=) reg k = Some a \<longrightarrow> (\<exists>b. hm_get (=) reg' k = Some b \<and> extends ops a b))"

definition result_ok :: "('k, 'a, 'p, 's, 'r) acc_ops \<Rightarrow> usize \<Rightarrow> ('k \<Rightarrow> 'c \<Rightarrow> 's \<Rightarrow> string + 'r) \<Rightarrow> 'k \<Rightarrow> 'a \<Rightarrow> bool" where
  "result_ok ops required rec' k a \<longleftrightarrow> (\<forall>r. acc_result ops a = Some r \<longrightarrow>
     required \<le> length (acc_ids ops a) \<and> (\<exists>c. rec' k c (acc_snapshot ops required a) = Inr r))"

definition registry_good ::
  "('k, 'a, 'p, 's, 'r) acc_ops \<Rightarrow> ('k \<Rightarrow> 'a \<Rightarrow> bool) \<Rightarrow> usize \<Rightarrow> ('k \<Rightarrow> 'c \<Rightarrow> 's \<Rightarrow> string + 'r) \<Rightarrow> ('k \<times> 'a) list \<Rightarrow> bool" where
  "registry_good ops good required rec' reg \<longleftrightarrow>
     (\<forall>k a. hm_get (=) reg k = Some a \<longrightarrow> good k a \<and> distinct (acc_ids ops a) \<and> result_ok ops required rec' k a)"

definition contributed :: "('k, 'a, 'p, 's, 'r) acc_ops \<Rightarrow> ('k \<times> 'a) list \<Rightarrow> ('k, 'p, 'c) opener \<Rightarrow> usize \<Rightarrow> 'a \<Rightarrow> bool" where
  "contributed ops reg o' n a \<longleftrightarrow> hm_get (=) reg (op_key o' n) = Some a \<and> has_contribution ops a (op_party o') (op_payload o')"

fun opener_ok ::
  "('k, 'a, 'p, 's, 'r) acc_ops \<Rightarrow> usize \<Rightarrow> ('k \<Rightarrow> 'c \<Rightarrow> 's \<Rightarrow> string + 'r) \<Rightarrow> ('k \<times> 'a) list \<Rightarrow>
   ('k, 'p, 'c) opener \<Rightarrow> ('s, 'r) opener_state \<Rightarrow> bool" where
  "opener_ok ops required rec' reg o' (Looping None) \<longleftrightarrow> (\<forall>seq. acc_fits ops (op_key o' seq) (op_payload o'))"
| "opener_ok ops required rec' reg o' (Looping (Some n)) \<longleftrightarrow> (\<exists>a. contributed ops reg o' n a)"
| "opener_ok ops required rec' reg o' (Rebuilding n s) \<longleftrightarrow>
     (\<exists>a. contributed ops reg o' n a \<and> required \<le> length (acc_ids ops a) \<and> s = acc_snapshot ops required a)"
| "opener_ok ops required rec' reg o' (Finished q (Inl e)) \<longleftrightarrow> True"
| "opener_ok ops required rec' reg o' (Finished None (Inr r)) \<longleftrightarrow> False"
| "opener_ok ops required rec' reg o' (Finished (Some n) (Inr r)) \<longleftrightarrow>
     (\<exists>a. contributed ops reg o' n a \<and> required \<le> length (acc_ids ops a) \<and>
          rec' (op_key o' n) (op_class o') (acc_snapshot ops required a) = Inr r)"

definition system_ok ::
  "('k, 'a, 'p, 's, 'r) acc_ops \<Rightarrow> ('k \<Rightarrow> 'a \<Rightarrow> bool) \<Rightarrow> usize \<Rightarrow> ('k \<Rightarrow> 'c \<Rightarrow> 's \<Rightarrow> string + 'r) \<Rightarrow>
   ('k, 'a, 'p, 's, 'r, 'c) open_system \<Rightarrow> bool" where
  "system_ok ops good required rec' S \<longleftrightarrow> registry_good ops good required rec' (os_registry S) \<and>
     (\<forall>i o' st. os_openers S i = Some (o', st) \<longrightarrow> opener_ok ops required rec' (os_registry S) o' st)"

text \<open>A stored result that an opener accepts is the one it would have reconstructed itself.\<close>

definition unwrap_ok :: "('k \<Rightarrow> 'c \<Rightarrow> 's \<Rightarrow> string + 'r) \<Rightarrow> ('c \<Rightarrow> 'r \<Rightarrow> open_error + 'r) \<Rightarrow> bool" where
  "unwrap_ok rec' unwrap \<longleftrightarrow> (\<forall>k c c' s r r'. rec' k c s = Inr r \<longrightarrow> unwrap c' r = Inr r' \<longrightarrow> rec' k c' s = Inr r')"

lemma acc_extends_refl: "extends ops a a"
  by (simp add: extends_def)

lemma acc_extends_trans: "extends ops a b \<Longrightarrow> extends ops b c \<Longrightarrow> extends ops a c"
  unfolding extends_def by fastforce

lemma registry_grows_refl: "grows ops reg reg"
  using acc_extends_refl by (auto simp: grows_def)

lemma registry_grows_trans: "grows ops r1 r2 \<Longrightarrow> grows ops r2 r3 \<Longrightarrow> grows ops r1 r3"
  unfolding grows_def using acc_extends_trans by meson

lemma contribution_extends: "has_contribution ops a p x \<Longrightarrow> extends ops a b \<Longrightarrow> has_contribution ops b p x"
  unfolding has_contribution_def extends_def by (auto simp: nth_append)

lemma contributed_grows:
  "contributed ops reg o' n a \<Longrightarrow> grows ops reg reg' \<Longrightarrow> \<exists>b. contributed ops reg' o' n b \<and> extends ops a b"
  unfolding contributed_def grows_def using contribution_extends by meson

lemma extends_enough:
  "extends ops a b \<Longrightarrow> required \<le> length (acc_ids ops a) \<Longrightarrow>
   required \<le> length (acc_ids ops b) \<and> acc_snapshot ops required b = acc_snapshot ops required a"
  by (auto simp: extends_def)

lemma opener_ok_grows: "opener_ok ops required rec' reg o' st \<Longrightarrow> grows ops reg reg' \<Longrightarrow> opener_ok ops required rec' reg' o' st"
proof (induction ops required rec' reg o' st rule: opener_ok.induct)
  case (3 ops required rec' reg o' n s)
  then show ?case using contributed_grows extends_enough by fastforce
next
  case (6 ops required rec' reg o' n r)
  then show ?case using contributed_grows extends_enough by fastforce
qed (use contributed_grows in fastforce)+

lemma position_Some: "position x xs = Some i \<Longrightarrow> i < length xs \<and> xs ! i = x"
proof (induction xs arbitrary: i)
  case (Cons y ys)
  show ?case
  proof (cases "y = x")
    case False
    then have "x \<in> set ys" "position x ys = Some (i - 1)" "0 < i"
      using Cons.prems by (auto simp: position_def split: if_splits)
    then show ?thesis using Cons.IH by fastforce
  qed (use Cons.prems in \<open>auto simp: position_def\<close>)
qed (simp add: position_def)

lemma position_None: "position x xs = None \<longleftrightarrow> x \<notin> set xs"
  by (simp add: position_def)

lemma next_sequence_free:
  "next_sequence ops oper mk p reg seq = Inr n \<Longrightarrow> p \<notin> set (acc_ids ops (entry_of ops reg (mk n)))"
  by (induction ops oper mk p reg seq rule: next_sequence.induct)
    (metis next_sequence.simps sum.distinct(1) sum.inject(2))


context accumulator
begin

lemma entry_good:
  assumes "registry_good ops good required rec' reg"
  shows "good k (entry_of ops reg k) \<and> distinct (acc_ids ops (entry_of ops reg k)) \<and> result_ok ops required rec' k (entry_of ops reg k)"
  using assms by (cases "hm_get (=) reg k")
    (auto simp: entry_of_def registry_good_def fresh_good fresh_ids fresh_result result_ok_def)

lemma push_extends: "good k a \<Longrightarrow> acc_fits ops k x \<Longrightarrow> extends ops a (acc_push ops p x a)"
  by (auto simp: extends_def push_ids push_payload push_snapshot)

lemma push_result_ok: "good k a \<Longrightarrow> acc_fits ops k x \<Longrightarrow> result_ok ops required rec' k a \<Longrightarrow> result_ok ops required rec' k (acc_push ops p x a)"
  by (auto simp: result_ok_def push_result push_ids push_snapshot)

text \<open>The push of a contribution of a party that has none yet.\<close>

lemma push_entry:
  assumes reg: "registry_good ops good required rec' reg" and fits: "acc_fits ops key x"
    and new: "p \<notin> set (acc_ids ops (entry_of ops reg key))"
  defines "b \<equiv> acc_push ops p x (entry_of ops reg key)"
  shows "registry_good ops good required rec' (hm_insert (=) key b reg) \<and> grows ops reg (hm_insert (=) key b reg) \<and> has_contribution ops b p x"
proof -
  note e = entry_good [OF reg, of key]
  have b: "good key b" "distinct (acc_ids ops b)" "result_ok ops required rec' key b"
    using e fits new by (auto simp: b_def push_good push_ids push_result_ok)
  have "has_contribution ops b p x"
    unfolding has_contribution_def using e fits by (intro exI [of _ "length (acc_ids ops (entry_of ops reg key))"])
      (simp add: b_def push_ids push_new_payload [of key])
  moreover have "extends ops a b" if "hm_get (=) reg key = Some a" for a
    using push_extends [of key a x p] e fits that by (simp add: b_def entry_of_def)
  then have "grows ops reg (hm_insert (=) key b reg)"
    using acc_extends_refl by (auto simp: grows_def heq.get_insert)
  ultimately show ?thesis using reg b by (auto simp: registry_good_def heq.get_insert)
qed

lemma default_good:
  assumes "registry_good ops good required rec' reg"
  shows "registry_good ops good required rec' (or_default ops key reg) \<and> grows ops reg (or_default ops key reg) \<and>
    hm_get (=) (or_default ops key reg) key = Some (entry_of ops reg key)"
proof (cases "hm_get (=) reg key")
  case None
  have "result_ok ops required rec' key (acc_fresh ops key)" by (simp add: result_ok_def fresh_result)
  then show ?thesis using assms None acc_extends_refl
    by (auto simp: or_default_def entry_of_def registry_good_def grows_def heq.get_insert fresh_good fresh_ids)
qed (use assms in \<open>simp add: or_default_def entry_of_def registry_grows_refl\<close>)

lemma contribute_at_ok:
  assumes reg: "registry_good ops good required rec' reg" and fits: "acc_fits ops key x"
    and r: "contribute_at ops e key p x reg = (res, reg')"
  shows "registry_good ops good required rec' reg' \<and> grows ops reg reg' \<and>
    (res = Inr () \<longrightarrow> (\<exists>a. hm_get (=) reg' key = Some a \<and> has_contribution ops a p x))"
proof (cases "position p (acc_ids ops (entry_of ops reg key))")
  case None
  then have "p \<notin> set (acc_ids ops (entry_of ops reg key))" by (simp add: position_None)
  from push_entry [OF reg fits this] show ?thesis using r None by (auto simp: contribute_at_def heq.get_insert)
next
  case (Some i)
  note d = default_good [OF reg, of key]
  have "has_contribution ops (entry_of ops reg key) p x" if "acc_payload ops (entry_of ops reg key) i = Some x"
    using position_Some [OF Some] that by (auto simp: has_contribution_def)
  then show ?thesis using r Some d by (auto simp: contribute_at_def split: if_splits)
qed

lemma contribute_next_ok:
  assumes "registry_good ops good required rec' reg" "\<And>seq. acc_fits ops (mk seq) x"
    and "contribute_next ops oper mk p x reg = (res, reg')"
  shows "registry_good ops good required rec' reg' \<and> grows ops reg reg'"
  using assms push_entry [OF assms(1,2), of p] next_sequence_free [of ops oper mk p reg 0] registry_grows_refl
  by (auto simp: contribute_next_def split: sum.splits)

lemma local_sequence_ok:
  assumes reg: "registry_good ops good required rec' reg" and st: "opener_ok ops required rec' reg o' (Looping q)"
    and r: "local_sequence ops (op_name o') (op_key o') (op_party o') (op_payload o') (op_wanted o') q reg = (res, reg')"
  shows "registry_good ops good required rec' reg' \<and> grows ops reg reg' \<and>
    (\<forall>n. res = Inr n \<longrightarrow> (\<exists>a. contributed ops reg' o' n a))"
proof (cases q)
  case (Some n)
  then show ?thesis using r st reg by (auto simp: local_sequence_def registry_grows_refl)
next
  case None
  then have fits: "acc_fits ops (op_key o' n) (op_payload o')" for n using st by simp
  let ?pick = "case op_wanted o' of Some seq \<Rightarrow> Inr seq | None \<Rightarrow> next_sequence ops (op_name o') (op_key o') (op_party o') reg 0"
  show ?thesis
  proof (cases ?pick)
    case (Inl e)
    then show ?thesis using r None reg by (auto simp: local_sequence_def registry_grows_refl)
  next
    case (Inr n)
    obtain res1 reg1 where c: "contribute_at ops (ConflictingPayload (op_name o') n (op_party o')) (op_key o' n) (op_party o') (op_payload o') reg = (res1, reg1)"
      by force
    note ok = contribute_at_ok [OF reg fits c]
    show ?thesis using r ok unfolding local_sequence_def None option.case Inr sum.case
      by (cases res1) (auto simp: mbind_def mret_def c contributed_def)
  qed
qed

lemma pass_ok:
  assumes ok: "system_ok ops good required rec' S" and o: "os_openers S i = Some (o', Looping q)" and u: "unwrap_ok rec' unwrap"
    and r: "open_pass ops (op_name o') (op_key o') (op_party o') (op_payload o') (op_wanted o') required q (os_registry S) = (res, reg)"
  shows "registry_good ops good required rec' reg \<and> grows ops (os_registry S) reg \<and>
    opener_ok ops required rec' reg o' (after_pass unwrap (op_class o') (pass_sequence ops o' q (os_registry S)) res)"
proof -
  have reg: "registry_good ops good required rec' (os_registry S)" and st: "opener_ok ops required rec' (os_registry S) o' (Looping q)"
    using ok o by (auto simp: system_ok_def)
  obtain res1 where l: "local_sequence ops (op_name o') (op_key o') (op_party o') (op_payload o') (op_wanted o') q (os_registry S) = (res1, reg)"
    using r by (auto simp: open_pass_def mbind_def split: prod.splits sum.splits option.splits)
  note lo = local_sequence_ok [OF reg st l]
  show ?thesis
  proof (cases res1)
    case (Inl e)
    then show ?thesis using lo r l by (auto simp: open_pass_def mbind_def after_pass_def)
  next
    case (Inr n)
    then obtain a where a: "contributed ops reg o' n a" using lo by blast
    then have get: "hm_get (=) reg (op_key o' n) = Some a" by (simp add: contributed_def)
    have g: "good (op_key o' n) a" "result_ok ops required rec' (op_key o' n) a" using lo get by (auto simp: registry_good_def)
    have seq: "pass_sequence ops o' q (os_registry S) = Some n" by (simp add: pass_sequence_def l Inr)
    show ?thesis
    proof (cases "acc_result ops a")
      case (Some v)
      have res: "res = Inr (Ready v)" using r by (simp add: open_pass_def mbind_def l Inr get Some)
      obtain c where c: "required \<le> length (acc_ids ops a)" "rec' (op_key o' n) c (acc_snapshot ops required a) = Inr v"
        using g(2) Some by (auto simp: result_ok_def)
      have "opener_ok ops required rec' reg o' (Finished (Some n) (unwrap (op_class o') v))"
      proof (cases "unwrap (op_class o') v")
        case (Inr w)
        from u c(2) Inr have "rec' (op_key o' n) (op_class o') (acc_snapshot ops required a) = Inr w"
          unfolding unwrap_ok_def by blast
        then show ?thesis using a c(1) Inr by auto
      qed simp
      then show ?thesis using lo by (simp add: res after_pass_def seq)
    next
      case None
      have res: "res = Inr (if required \<le> length (acc_ids ops a) then Collected n (acc_snapshot ops required a)
          else Pending n (length (acc_ids ops a)))"
        using r by (simp add: open_pass_def mbind_def l Inr get None count_ids [OF g(1)])
      have "opener_ok ops required rec' reg o' (after_pass unwrap (op_class o') (Some n) res)"
        using a by (cases "required \<le> length (acc_ids ops a)") (auto simp: res after_pass_def)
      then show ?thesis using lo by (simp add: seq)
    qed
  qed
qed

lemma complete_ok:
  assumes reg: "registry_good ops good required rec' reg" and a: "contributed ops reg o' n a" "required \<le> length (acc_ids ops a)"
    and v: "rec' (op_key o' n) (op_class o') (acc_snapshot ops required a) = Inr v"
    and r: "open_complete ops oper (op_key o') n v reg = (res, reg')"
  shows "registry_good ops good required rec' reg' \<and> grows ops reg reg' \<and>
    opener_ok ops required rec' reg' o' (Finished (Some n) (map_ok (\<lambda>_. v) res))"
proof -
  have get: "hm_get (=) reg (op_key o' n) = Some a" using a by (simp add: contributed_def)
  let ?b = "acc_set_result ops v a"
  have r': "res = Inr ()" "reg' = hm_insert (=) (op_key o' n) ?b reg" using r get by (auto simp: open_complete_def)
  have g: "good (op_key o' n) a" "distinct (acc_ids ops a)" using reg get by (auto simp: registry_good_def)
  have e: "extends ops a ?b" by (simp add: extends_def stored)
  have "result_ok ops required rec' (op_key o' n) ?b" using v a(2) by (auto simp: result_ok_def stored)
  then have "registry_good ops good required rec' reg'"
    using reg g by (auto simp: registry_good_def r' heq.get_insert stored)
  moreover have "grows ops reg reg'" using get e acc_extends_refl by (auto simp: grows_def r' heq.get_insert)
  moreover have "contributed ops reg' o' n ?b"
    using a(1) contribution_extends [OF _ e] by (simp add: contributed_def r' heq.get_insert)
  ultimately show ?thesis using a(2) v r' by (auto simp: stored)
qed

lemma registry_step:
  assumes "system_ok ops good required rec' S" "registry_good ops good required rec' reg" "grows ops (os_registry S) reg"
  shows "system_ok ops good required rec' (S\<lparr>os_registry := reg\<rparr>)"
  using assms by (auto simp: system_ok_def intro: opener_ok_grows)

lemma step_ok:
  assumes "open_step ops required rec' unwrap S T" "system_ok ops good required rec' S" "unwrap_ok rec' unwrap"
  shows "system_ok ops good required rec' T \<and> grows ops (os_registry S) (os_registry T)"
  using assms(1)
proof (cases rule: open_step.cases)
  case (pass i o' q res reg)
  note p = pass_ok [OF assms(2) pass(2) assms(3) pass(3)]
  then show ?thesis using registry_step [OF assms(2), of reg] unfolding pass(1) by (auto simp: system_ok_def)
next
  case (store_result i o' n s r res reg)
  obtain a where a: "contributed ops (os_registry S) o' n a" "required \<le> length (acc_ids ops a)" "s = acc_snapshot ops required a"
    using store_result(2) assms(2) by (fastforce simp: system_ok_def)
  have "registry_good ops good required rec' (os_registry S)" using assms(2) by (simp add: system_ok_def)
  from complete_ok [OF this a(1,2) store_result(3) [unfolded a(3)] store_result(4)]
  show ?thesis using registry_step [OF assms(2), of reg] unfolding store_result(1) by (auto simp: system_ok_def)
next
  case (message key x e sender res reg)
  have "registry_good ops good required rec' (os_registry S)" using assms(2) by (simp add: system_ok_def)
  from contribute_at_ok [OF this message(2,3)] show ?thesis using registry_step [OF assms(2)] message(1) by simp
next
  case (message_next mk x oper sender res reg)
  have "registry_good ops good required rec' (os_registry S)" using assms(2) by (simp add: system_ok_def)
  from contribute_next_ok [OF this message_next(2,3)] show ?thesis using registry_step [OF assms(2)] message_next(1) by simp
qed (use assms(2) in \<open>auto simp: system_ok_def registry_grows_refl\<close>)

lemma open_reachable_ok:
  assumes "open_reachable ops required rec' unwrap S" "unwrap_ok rec' unwrap"
  shows "system_ok ops good required rec' S"
  using assms(1) unfolding open_reachable_def
  by (induction rule: rtranclp_induct)
    (auto simp: open_system_new_def system_ok_def registry_good_def dest: step_ok [OF _ _ assms(2)])

lemma finished_value:
  assumes "open_reachable ops required rec' unwrap S" "unwrap_ok rec' unwrap"
    and "os_openers S i = Some (o', Finished q (Inr v))"
  obtains n a where "q = Some n" "contributed ops (os_registry S) o' n a" "required \<le> length (acc_ids ops a)" "distinct (acc_ids ops a)"
    "rec' (op_key o' n) (op_class o') (acc_snapshot ops required a) = Inr v"
proof -
  have ok: "system_ok ops good required rec' S" using open_reachable_ok [OF assms(1,2)] .
  then have st: "opener_ok ops required rec' (os_registry S) o' (Finished q (Inr v))" using assms(3) by (auto simp: system_ok_def)
  obtain n where n: "q = Some n" using st by (cases q) auto
  then obtain a where a: "contributed ops (os_registry S) o' n a" "required \<le> length (acc_ids ops a)"
    "rec' (op_key o' n) (op_class o') (acc_snapshot ops required a) = Inr v" using st by auto
  moreover have "distinct (acc_ids ops a)" using ok a(1) by (auto simp: system_ok_def registry_good_def contributed_def)
  ultimately show thesis using n that by blast
qed

end


section \<open>Openers agree\<close>

text \<open>The reconstruction of a single opening with the codec of its kind.\<close>

definition reconstruct_single ::
  "(string \<Rightarrow> byte list list \<Rightarrow> string + clear_share_value) \<Rightarrow> (string \<Rightarrow> byte list list \<Rightarrow> string + byte list) \<Rightarrow>
   single_key \<Rightarrow> open_kind \<Rightarrow> byte list list \<Rightarrow> string + open_result" where
  "reconstruct_single clear bytes key kind shares =
     (case kind of
        ClearShareKind \<Rightarrow> map_ok OpenedClear (clear (snd key) shares)
      | BytesKind \<Rightarrow> map_ok OpenedBytes (bytes (snd key) shares))"

lemma unwrap_single: "unwrap_ok (reconstruct_single clear bytes) expect_result"
  unfolding unwrap_ok_def
proof (intro allI impI)
  fix k c c' s r r'
  assume "reconstruct_single clear bytes k c s = Inr r" "expect_result c' r = Inr r'"
  then show "reconstruct_single clear bytes k c' s = Inr r'"
    by (cases c; cases c') (auto simp: reconstruct_single_def map_ok_Inr_iff)
qed

lemma collect_Inr_nth: "collect rs = Inr xs \<Longrightarrow> i < length rs \<Longrightarrow> rs ! i = Inr (xs ! i)"
  by (induction rs arbitrary: xs i rule: collect.induct) (auto simp: map_ok_Inr_iff nth_Cons split: nat.split)

lemma unwrap_trivial: "unwrap_ok (\<lambda>k (_::unit). f k) (\<lambda>_. Inr)"
  by (simp add: unwrap_ok_def)

section \<open>A run of two openers\<close>

definition demo_opener :: "usize \<Rightarrow> (single_key, byte list, open_kind) opener" where
  "demo_opener p = \<lparr>op_name = ''open_share'', op_key = (\<lambda>seq. (seq, ''t'')), op_party = p, op_payload = [of_nat p],
     op_wanted = None, op_class = ClearShareKind\<rparr>"

definition demo_reconstruct :: "single_key \<Rightarrow> open_kind \<Rightarrow> byte list list \<Rightarrow> string + open_result" where
  "demo_reconstruct = reconstruct_single (\<lambda>_ shares. Inr (Integer (of_nat (length shares)))) (\<lambda>_ _. Inl ''no bytes'')"

definition demo_entry :: "usize list \<Rightarrow> open_result option \<Rightarrow> open_accumulator" where
  "demo_entry ps r = \<lparr>oa_shares = map (\<lambda>p. [of_nat p]) ps, oa_party_ids = ps, oa_result = r\<rparr>"

definition demo_system ::
  "(single_key \<times> open_accumulator) list \<Rightarrow> (byte list list, open_result) opener_state \<Rightarrow> (byte list list, open_result) opener_state \<Rightarrow>
   (single_key, open_accumulator, byte list, byte list list, open_result, open_kind) open_system" where
  "demo_system reg s0 s1 = \<lparr>os_registry = reg, os_openers = [0 \<mapsto> (demo_opener 0, s0), 1 \<mapsto> (demo_opener 1, s1)]\<rparr>"

abbreviation demo_step where
  "demo_step \<equiv> open_step single_ops 2 demo_reconstruct expect_result"

abbreviation demo_value :: open_result where
  "demo_value \<equiv> OpenedClear (Integer 2)"

definition demo_last where
  "demo_last = demo_system [((0, ''t''), demo_entry [0, 1] (Some demo_value))]
     (Finished (Some 0) (Inr demo_value)) (Finished (Some 0) (Inr demo_value))"

lemmas demo_defs = demo_system_def demo_opener_def demo_entry_def single_ops_def open_pass_def local_sequence_def
  contribute_at_def entry_of_def or_default_def position_def after_pass_def pass_sequence_def mbind_def mret_def open_complete_def

lemma demo_next_sequence: "p \<notin> set (acc_ids ops (entry_of ops reg (mk 0))) \<Longrightarrow> next_sequence ops oper mk p reg 0 = Inr 0"
  by (subst next_sequence.simps) simp

lemma demo_steps:
  "demo_step\<^sup>*\<^sup>* open_system_new (demo_system [] (Looping None) (Looping None))"
  "demo_step (demo_system [] (Looping None) (Looping None))
     (demo_system [((0, ''t''), demo_entry [0] None)] (Looping (Some 0)) (Looping None))"
  "demo_step (demo_system [((0, ''t''), demo_entry [0] None)] (Looping (Some 0)) (Looping None))
     (demo_system [((0, ''t''), demo_entry [0, 1] None)] (Looping (Some 0)) (Rebuilding 0 [[0], [1]]))"
  "demo_step (demo_system [((0, ''t''), demo_entry [0, 1] None)] (Looping (Some 0)) (Rebuilding 0 [[0], [1]]))
     (demo_system [((0, ''t''), demo_entry [0, 1] (Some demo_value))] (Looping (Some 0)) (Finished (Some 0) (Inr demo_value)))"
  "demo_step (demo_system [((0, ''t''), demo_entry [0, 1] (Some demo_value))] (Looping (Some 0)) (Finished (Some 0) (Inr demo_value)))
     demo_last"
proof -
  let ?S1 = "\<lparr>os_registry = [], os_openers = [0 \<mapsto> (demo_opener 0, Looping None)]\<rparr>"
  have "demo_step open_system_new ?S1"
    using open_step.open_start [of open_system_new 0 2 single_ops "demo_opener 0" demo_reconstruct expect_result]
    by (simp add: open_system_new_def single_ops_def)
  moreover have "demo_step ?S1 (demo_system [] (Looping None) (Looping None))"
    using open_step.open_start [of ?S1 1 2 single_ops "demo_opener 1" demo_reconstruct expect_result]
    by (simp add: single_ops_def demo_system_def)
  ultimately show "demo_step\<^sup>*\<^sup>* open_system_new (demo_system [] (Looping None) (Looping None))"
    by (meson converse_rtranclp_into_rtranclp rtranclp.rtrancl_refl)
  show "demo_step (demo_system [] (Looping None) (Looping None))
     (demo_system [((0, ''t''), demo_entry [0] None)] (Looping (Some 0)) (Looping None))"
    using open_step.pass [of "demo_system [] (Looping None) (Looping None)" 0 "demo_opener 0" None single_ops 2
        "Inr (Pending 0 1)" "[((0, ''t''), demo_entry [0] None)]" demo_reconstruct expect_result]
    by (simp add: demo_next_sequence demo_defs fun_upd_twist)
  show "demo_step (demo_system [((0, ''t''), demo_entry [0] None)] (Looping (Some 0)) (Looping None))
     (demo_system [((0, ''t''), demo_entry [0, 1] None)] (Looping (Some 0)) (Rebuilding 0 [[0], [1]]))"
    using open_step.pass [of "demo_system [((0, ''t''), demo_entry [0] None)] (Looping (Some 0)) (Looping None)" 1 "demo_opener 1" None
        single_ops 2 "Inr (Collected 0 [[0], [1]])" "[((0, ''t''), demo_entry [0, 1] None)]" demo_reconstruct expect_result]
    by (simp add: demo_next_sequence demo_defs fun_upd_twist)
  show "demo_step (demo_system [((0, ''t''), demo_entry [0, 1] None)] (Looping (Some 0)) (Rebuilding 0 [[0], [1]]))
     (demo_system [((0, ''t''), demo_entry [0, 1] (Some demo_value))] (Looping (Some 0)) (Finished (Some 0) (Inr demo_value)))"
    using open_step.store_result [of "demo_system [((0, ''t''), demo_entry [0, 1] None)] (Looping (Some 0)) (Rebuilding 0 [[0], [1]])"
        1 "demo_opener 1" 0 "[[0], [1]]" demo_reconstruct demo_value single_ops "Inr ()"
        "[((0, ''t''), demo_entry [0, 1] (Some demo_value))]" 2 expect_result]
    by (simp add: demo_reconstruct_def reconstruct_single_def demo_defs fun_upd_twist)
  show "demo_step (demo_system [((0, ''t''), demo_entry [0, 1] (Some demo_value))] (Looping (Some 0)) (Finished (Some 0) (Inr demo_value))) demo_last"
    using open_step.pass [of "demo_system [((0, ''t''), demo_entry [0, 1] (Some demo_value))] (Looping (Some 0)) (Finished (Some 0) (Inr demo_value))"
        0 "demo_opener 0" "Some 0" single_ops 2 "Inr (Ready demo_value)" "[((0, ''t''), demo_entry [0, 1] (Some demo_value))]" demo_reconstruct expect_result]
    by (simp add: demo_last_def demo_defs fun_upd_twist)
qed

lemma demo_reachable: "open_reachable single_ops 2 demo_reconstruct expect_result demo_last"
  unfolding open_reachable_def using demo_steps by (meson rtranclp.rtrancl_into_rtrancl)


definition demo_batch_opener :: "(batch_key, byte list list, unit) opener" where
  "demo_batch_opener = \<lparr>op_name = ''batch_open_shares'', op_key = (\<lambda>seq. (seq, ''t'', 2)), op_party = 3, op_payload = [[5], [6]],
     op_wanted = Some 4, op_class = ()\<rparr>"

definition demo_one :: "batch_key \<Rightarrow> byte list list \<Rightarrow> nat \<Rightarrow> string + clear_share_value" where
  "demo_one k shares p = Inr (Integer (of_nat p))"

definition demo_batch_last ::
  "(batch_key, batch_accumulator, byte list list, byte list list list, clear_share_value list, unit) open_system" where
  "demo_batch_last =
     \<lparr>os_registry = [((4, ''t'', 2), \<lparr>ba_shares_per_position = [[[5]], [[6]]], ba_party_ids = [3], ba_results = Some [Integer 0, Integer 1]\<rparr>)],
      os_openers = [0 \<mapsto> (demo_batch_opener, Finished (Some 4) (Inr [Integer 0, Integer 1]))]\<rparr>"

lemma demo_batch_reachable: "open_reachable batch_ops 1 (\<lambda>k (_::unit). reconstruct_batch (demo_one k)) (\<lambda>_. Inr) demo_batch_last"
proof -
  let ?step = "open_step batch_ops 1 (\<lambda>k (_::unit). reconstruct_batch (demo_one k)) (\<lambda>_. Inr)"
  let ?reg = "[((4, ''t'', 2), \<lparr>ba_shares_per_position = [[[5]], [[6]]], ba_party_ids = [3], ba_results = None\<rparr>)]"
  let ?S1 = "\<lparr>os_registry = [], os_openers = [0 \<mapsto> (demo_batch_opener, Looping None)]\<rparr>"
  let ?S2 = "\<lparr>os_registry = ?reg, os_openers = [0 \<mapsto> (demo_batch_opener, Rebuilding 4 [[[5]], [[6]]])]\<rparr>"
  have "?step open_system_new ?S1"
    using open_step.open_start [of open_system_new 0 1 batch_ops demo_batch_opener "\<lambda>k (_::unit). reconstruct_batch (demo_one k)" "\<lambda>_. Inr"]
    by (simp add: open_system_new_def batch_ops_def demo_batch_opener_def)
  moreover have "?step ?S1 ?S2"
    using open_step.pass [of ?S1 0 demo_batch_opener None batch_ops 1 "Inr (Collected 4 [[[5]], [[6]]])" ?reg
        "\<lambda>k (_::unit). reconstruct_batch (demo_one k)" "\<lambda>_. Inr"]
    by (simp add: batch_ops_def demo_batch_opener_def batch_accumulator_new_def demo_defs numeral_2_eq_2)
  moreover have "?step ?S2 demo_batch_last"
    using open_step.store_result [of ?S2 0 demo_batch_opener 4 "[[[5]], [[6]]]" "\<lambda>k (_::unit). reconstruct_batch (demo_one k)"
        "[Integer 0, Integer 1]" batch_ops "Inr ()" "os_registry demo_batch_last" 1 "\<lambda>_. Inr"]
    by (simp add: batch_ops_def demo_batch_opener_def demo_batch_last_def demo_defs reconstruct_batch_def demo_one_def map_ok_def upt_rec)
  ultimately show ?thesis unfolding open_reachable_def by (meson rtranclp.rtrancl_into_rtrancl rtranclp.rtrancl_refl)
qed

section \<open>Properties\<close>

text \<open>C7: Openers of a share agree, when they require the same number of contributions and reconstruct by
  the same function of the contributions. Whatever the interleaving of passes, reconstructions, time-outs and
  messages, two openers that return a value for the same sequence number, type and kind return the same
  value: the one reconstructed from the first required shares, which come from as many different
  parties. The share of each opener is among the contributions.\<close>

theorem opened_values_agree:
  assumes "open_reachable single_ops required (reconstruct_single clear bytes) expect_result S"
    and "os_openers S i = Some (o1, Finished q1 (Inr v1))" "os_openers S j = Some (o2, Finished q2 (Inr v2))"
    and "map_option (op_key o1) q1 = map_option (op_key o2) q2" "op_class o1 = op_class o2"
  shows "v1 = v2 \<and> (\<exists>key a. map_option (op_key o1) q1 = Some key \<and> hm_get (=) (os_registry S) key = Some a \<and>
     required \<le> length (oa_party_ids a) \<and> distinct (oa_party_ids a) \<and>
     reconstruct_single clear bytes key (op_class o1) (take required (oa_shares a)) = Inr v1 \<and>
     has_contribution single_ops a (op_party o1) (op_payload o1) \<and> has_contribution single_ops a (op_party o2) (op_payload o2))"
proof -
  obtain n a where n: "q1 = Some n" "contributed single_ops (os_registry S) o1 n a" "required \<le> length (acc_ids single_ops a)"
    "distinct (acc_ids single_ops a)" "reconstruct_single clear bytes (op_key o1 n) (op_class o1) (acc_snapshot single_ops required a) = Inr v1"
    using single.finished_value [OF assms(1) unwrap_single assms(2)] .
  obtain m b where m: "q2 = Some m" "contributed single_ops (os_registry S) o2 m b"
    "reconstruct_single clear bytes (op_key o2 m) (op_class o2) (acc_snapshot single_ops required b) = Inr v2"
    using single.finished_value [OF assms(1) unwrap_single assms(3)] .
  have key: "op_key o1 n = op_key o2 m" using assms(4) n(1) m(1) by simp
  then have "b = a" using n(2) m(2) by (simp add: contributed_def)
  then show ?thesis using n m key assms(5) by (auto simp: contributed_def single_ops_def)
qed

theorem opened_values_agree_witness:
  "\<exists>a. hm_get (=) (os_registry demo_last) (0, ''t'') = Some a \<and> 2 \<le> length (oa_party_ids a) \<and>
     demo_reconstruct (0, ''t'') ClearShareKind (take 2 (oa_shares a)) = Inr demo_value \<and>
     has_contribution single_ops a 0 [0] \<and> has_contribution single_ops a 1 [1]"
proof -
  have o: "os_openers demo_last 0 = Some (demo_opener 0, Finished (Some 0) (Inr demo_value))"
    "os_openers demo_last 1 = Some (demo_opener 1, Finished (Some 0) (Inr demo_value))"
    by (simp_all add: demo_last_def demo_system_def)
  from opened_values_agree [OF demo_reachable [unfolded demo_reconstruct_def] o, folded demo_reconstruct_def]
  show ?thesis by (auto simp: demo_opener_def)
qed

text \<open>Openers of a batch agree: two openers that return for the same sequence number, type and batch
  size return the same values, each reconstructed at its position from the first required shares of
  that position, which come from the same different parties at every position.\<close>

theorem opened_batches_agree:
  assumes "open_reachable batch_ops required (\<lambda>k (_::unit). reconstruct_batch (one k)) (\<lambda>_. Inr) S"
    and "os_openers S i = Some (o1, Finished q1 (Inr vs1))" "os_openers S j = Some (o2, Finished q2 (Inr vs2))"
    and "map_option (op_key o1) q1 = map_option (op_key o2) q2"
  shows "vs1 = vs2 \<and> (\<exists>key a. map_option (op_key o1) q1 = Some key \<and> hm_get (=) (os_registry S) key = Some a \<and>
     required \<le> length (ba_party_ids a) \<and> distinct (ba_party_ids a) \<and> length (ba_shares_per_position a) = snd (snd key) \<and>
     (\<forall>p < snd (snd key). length (ba_shares_per_position a ! p) = length (ba_party_ids a) \<and>
        one key (take required (ba_shares_per_position a ! p)) p = Inr (vs1 ! p)))"
proof -
  note fin = batch.finished_value [OF assms(1) unwrap_trivial]
  obtain n a where n: "q1 = Some n" "contributed batch_ops (os_registry S) o1 n a" "required \<le> length (acc_ids batch_ops a)"
    "distinct (acc_ids batch_ops a)" "reconstruct_batch (one (op_key o1 n)) (acc_snapshot batch_ops required a) = Inr vs1"
    using fin [OF assms(2)] .
  obtain m b where m: "q2 = Some m" "contributed batch_ops (os_registry S) o2 m b"
    "reconstruct_batch (one (op_key o2 m)) (acc_snapshot batch_ops required b) = Inr vs2"
    using fin [OF assms(3)] .
  let ?key = "op_key o1 n"
  have key: "?key = op_key o2 m" using assms(4) n(1) m(1) by simp
  then have ba: "b = a" using n(2) m(2) by (simp add: contributed_def)
  have get: "hm_get (=) (os_registry S) ?key = Some a" using n(2) by (simp add: contributed_def)
  have good: "batch_good ?key a"
    using batch.open_reachable_ok [OF assms(1) unwrap_trivial] get unfolding system_ok_def registry_good_def by blast
  have vs: "collect (map2 (one ?key) (map (take required) (ba_shares_per_position a)) [0..<length (ba_shares_per_position a)]) = Inr vs1"
    using n(5) by (simp add: reconstruct_batch_def batch_ops_def)
  have "one ?key (take required (ba_shares_per_position a ! p)) p = Inr (vs1 ! p)" if "p < length (ba_shares_per_position a)" for p
    using collect_Inr_nth [OF vs, of p] that by simp
  then show ?thesis using n m key ba good get by (auto simp: batch_good_def batch_ops_def)
qed

theorem opened_batches_agree_witness:
  "\<exists>a. hm_get (=) (os_registry demo_batch_last) (4, ''t'', 2) = Some a \<and> 1 \<le> length (ba_party_ids a) \<and>
     demo_one (4, ''t'', 2) (take 1 (ba_shares_per_position a ! 1)) 1 = Inr (Integer 1)"
proof -
  have o: "os_openers demo_batch_last 0 = Some (demo_batch_opener, Finished (Some 4) (Inr [Integer 0, Integer 1]))"
    by (simp add: demo_batch_last_def)
  from opened_batches_agree [OF demo_batch_reachable o o] show ?thesis
    by (auto simp: demo_batch_opener_def dest: spec [of _ 1])
qed

text \<open>Contributions are final. No step of an opener or of the network changes or removes a share, a
  batch or a partial point that a party has contributed: the contributions to each key only grow at the
  end, so a conflicting second contribution of a party never takes effect.\<close>

theorem contributions_are_final:
  "(open_reachable single_ops required (reconstruct_single clear bytes) expect_result S \<longrightarrow>
      open_step single_ops required (reconstruct_single clear bytes) expect_result S S' \<longrightarrow>
      grows single_ops (os_registry S) (os_registry S')) \<and>
   (open_reachable batch_ops required (\<lambda>k (_::unit). reconstruct_batch (one k)) (\<lambda>_. Inr) B \<longrightarrow>
      open_step batch_ops required (\<lambda>k (_::unit). reconstruct_batch (one k)) (\<lambda>_. Inr) B B' \<longrightarrow>
      grows batch_ops (os_registry B) (os_registry B')) \<and>
   (open_reachable exp_ops required (\<lambda>k (_::unit). points k) (\<lambda>_. Inr) E \<longrightarrow>
      open_step exp_ops required (\<lambda>k (_::unit). points k) (\<lambda>_. Inr) E E' \<longrightarrow>
      grows exp_ops (os_registry E) (os_registry E'))"
  using single.step_ok single.open_reachable_ok [OF _ unwrap_single] batch.step_ok batch.open_reachable_ok [OF _ unwrap_trivial]
    exponent.step_ok exponent.open_reachable_ok [OF _ unwrap_trivial] unwrap_single unwrap_trivial by metis

theorem contributions_are_final_witness:
  "grows single_ops (os_registry (demo_system [((0, ''t''), demo_entry [0] None)] (Looping (Some 0)) (Looping None)))
     (os_registry (demo_system [((0, ''t''), demo_entry [0, 1] None)] (Looping (Some 0)) (Rebuilding 0 [[0], [1]])))"
proof -
  let ?S = "demo_system [((0, ''t''), demo_entry [0] None)] (Looping (Some 0)) (Looping None)"
  have "open_reachable single_ops 2 demo_reconstruct expect_result ?S"
    unfolding open_reachable_def using demo_steps(1,2) by (meson rtranclp.rtrancl_into_rtrancl)
  then show ?thesis
    using contributions_are_final [of 2 "\<lambda>_ shares. Inr (Integer (of_nat (length shares)))" "\<lambda>_ _. Inl ''no bytes''" ?S
        "demo_system [((0, ''t''), demo_entry [0, 1] None)] (Looping (Some 0)) (Rebuilding 0 [[0], [1]])",
        folded demo_reconstruct_def] demo_steps(3) by blast
qed

end
