(* ===== verification/Reliable_Broadcast.thy ===== *)
theory Reliable_Broadcast
  imports Open_Registry
begin

text \<open>
  The message exchange of an instance (\<open>stoffel-vm/src/net/open_registry/consensus.rs\<close>): parties
  broadcast under consecutive session numbers, messages also arrive from the network under a session
  number of their own, and a receiver gets each message once, the smallest undelivered session first. A
  receive waits in a loop for a message; a pass through the loop is one method here, and a receive that
  times out made passes without a message only.
\<close>

section \<open>Operations\<close>

datatype (plugins only: code) rbc_error =
    ConflictingRbcPayload nat usize
  | RbcSessionOverflow

definition insert_rbc_broadcast :: "nat \<Rightarrow> usize \<Rightarrow> byte list \<Rightarrow> (rbc_state, rbc_error, unit) meth" where
  "insert_rbc_broadcast session party msg s =
     (case hm_get (=) (rbc_messages s) (session, party) of
        Some existing \<Rightarrow> (if existing = msg then Inr () else Inl (ConflictingRbcPayload session party), s)
      | None \<Rightarrow> (Inr (), s\<lparr>rbc_messages := hm_insert (=) (session, party) msg (rbc_messages s)\<rparr>))"

text \<open>The first session without a message of the party; session numbers have 64 bits.\<close>

function free_session :: "rbc_state \<Rightarrow> usize \<Rightarrow> nat \<Rightarrow> rbc_error + nat" where
  "free_session s party n =
     (if hm_get (=) (rbc_messages s) (n, party) = None then Inr n
      else if n + 1 \<le> usize_max then free_session s party (n + 1)
      else Inl RbcSessionOverflow)"
  by pat_completeness auto
termination by (relation "measure (\<lambda>(_, _, n). usize_max - n)") auto

declare free_session.simps [simp del]

definition rbc_broadcast :: "usize \<Rightarrow> byte list \<Rightarrow> (rbc_state, rbc_error, nat) meth" where
  "rbc_broadcast party msg s =
     (case free_session s party 0 of
        Inl e \<Rightarrow> (Inl e, s)
      | Inr session \<Rightarrow> (Inr session, s\<lparr>rbc_messages := hm_insert (=) (session, party) msg (rbc_messages s)\<rparr>))"

text \<open>The loop over the messages that keeps the best candidate.\<close>

definition better :: "(nat \<times> usize \<Rightarrow> nat \<times> usize \<Rightarrow> bool) \<Rightarrow> (nat \<times> usize \<Rightarrow> bool) \<Rightarrow> (nat \<times> usize) \<times> byte list \<Rightarrow>
    ((nat \<times> usize) \<times> byte list) option \<Rightarrow> ((nat \<times> usize) \<times> byte list) option" where
  "better no_better candidate kv best =
     (if \<not> candidate (fst kv) then best
      else case best of
        Some b \<Rightarrow> if no_better (fst kv) (fst b) then best else Some kv
      | None \<Rightarrow> Some kv)"

text \<open>A delivery also reports the session it records; the code logs it and returns the rest.\<close>

definition deliver :: "usize \<Rightarrow> ((nat \<times> usize) \<times> byte list) option \<Rightarrow> rbc_state \<Rightarrow> (usize \<times> nat \<times> byte list) option \<times> rbc_state" where
  "deliver receiver best s =
     (case best of
        None \<Rightarrow> (None, s)
      | Some ((session, party), msg) \<Rightarrow>
          (Some (party, session, msg), s\<lparr>rbc_delivered := (receiver, party, session) # rbc_delivered s\<rparr>))"

text \<open>A candidate that is not better than the best one so far, and the candidates of the two loops.\<close>

fun not_before_session :: "nat \<times> usize \<Rightarrow> nat \<times> usize \<Rightarrow> bool" where
  "not_before_session (n, _) (best, _) \<longleftrightarrow> best \<le> n"

fun not_before_key :: "nat \<times> usize \<Rightarrow> nat \<times> usize \<Rightarrow> bool" where
  "not_before_key (n, party) (best, best_party) \<longleftrightarrow> best < n \<or> best = n \<and> best_party \<le> party"

fun undelivered_from :: "usize \<Rightarrow> usize \<Rightarrow> rbc_state \<Rightarrow> nat \<times> usize \<Rightarrow> bool" where
  "undelivered_from receiver from s (n, party) \<longleftrightarrow> party = from \<and> (receiver, from, n) \<notin> set (rbc_delivered s)"

fun undelivered_any :: "usize \<Rightarrow> rbc_state \<Rightarrow> nat \<times> usize \<Rightarrow> bool" where
  "undelivered_any receiver s (n, party) \<longleftrightarrow> party \<noteq> receiver \<and> (receiver, party, n) \<notin> set (rbc_delivered s)"

definition try_deliver_rbc_from :: "usize \<Rightarrow> usize \<Rightarrow> rbc_state \<Rightarrow> (usize \<times> nat \<times> byte list) option \<times> rbc_state" where
  "try_deliver_rbc_from receiver from s =
     deliver receiver (fold (better not_before_session (undelivered_from receiver from s)) (rbc_messages s) None) s"

definition try_deliver_rbc_any :: "usize \<Rightarrow> rbc_state \<Rightarrow> (usize \<times> nat \<times> byte list) option \<times> rbc_state" where
  "try_deliver_rbc_any receiver s =
     deliver receiver (fold (better not_before_key (undelivered_any receiver s)) (rbc_messages s) None) s"

section \<open>Histories\<close>

datatype rbc_event =
    Broadcast usize nat "byte list"
  | Arrived usize nat "byte list"
  | Received usize usize nat "byte list"

inductive rbc_history :: "rbc_event list \<Rightarrow> rbc_state \<Rightarrow> bool" where
  rbc_start: "rbc_history [] \<lparr>rbc_messages = [], rbc_delivered = []\<rparr>"
| rbc_broadcasts: "rbc_history es s \<Longrightarrow> rbc_broadcast p m s = (Inr n, t) \<Longrightarrow> rbc_history (es @ [Broadcast p n m]) t"
| rbc_arrives: "rbc_history es s \<Longrightarrow> insert_rbc_broadcast n p m s = (Inr (), t) \<Longrightarrow> rbc_history (es @ [Arrived p n m]) t"
| rbc_rejects: "rbc_history es s \<Longrightarrow> insert_rbc_broadcast n p m s = (Inl e, t) \<Longrightarrow> rbc_history es t"
| rbc_receives: "rbc_history es s \<Longrightarrow> try_deliver_rbc_from r p s = (Some (p', n, m), t) \<Longrightarrow> rbc_history (es @ [Received r p' n m]) t"
| rbc_receives_any: "rbc_history es s \<Longrightarrow> try_deliver_rbc_any r s = (Some (p, n, m), t) \<Longrightarrow> rbc_history (es @ [Received r p n m]) t"

text \<open>The messages a party broadcast and those a receiver got from it, in order.\<close>

definition broadcasts :: "rbc_event list \<Rightarrow> usize \<Rightarrow> byte list list" where
  "broadcasts es p = List.map_filter (\<lambda>e. case e of Broadcast q n m \<Rightarrow> (if q = p then Some m else None) | _ \<Rightarrow> None) es"

definition receipts :: "rbc_event list \<Rightarrow> usize \<Rightarrow> usize \<Rightarrow> (nat \<times> byte list) list" where
  "receipts es r p = List.map_filter (\<lambda>e. case e of Received r' q n m \<Rightarrow> (if r' = r \<and> q = p then Some (n, m) else None) | _ \<Rightarrow> None) es"


lemma rbc_event_simps [simp]:
  "broadcasts [] p = []" "receipts [] r p = []"
  "broadcasts (es @ [Broadcast q n m]) p = broadcasts es p @ (if q = p then [m] else [])"
  "broadcasts (es @ [Arrived q n m]) p = broadcasts es p"
  "broadcasts (es @ [Received r q n m]) p = broadcasts es p"
  "receipts (es @ [Broadcast q n m]) r p = receipts es r p"
  "receipts (es @ [Arrived q n m]) r p = receipts es r p"
  "receipts (es @ [Received r' q n m]) r p = receipts es r p @ (if r' = r \<and> q = p then [(n, m)] else [])"
  by (simp_all add: broadcasts_def receipts_def map_filter_def)

section \<open>The best candidate\<close>

lemma fold_better:
  assumes total: "\<And>a b. no_better a b \<or> no_better b a" and trans: "\<And>a b c. no_better a b \<Longrightarrow> no_better b c \<Longrightarrow> no_better a c"
    and "fold (better no_better candidate) xs best = Some b"
  shows "(best = Some b \<or> b \<in> set xs \<and> candidate (fst b)) \<and> (\<forall>kv\<in>set xs. candidate (fst kv) \<longrightarrow> no_better (fst kv) (fst b)) \<and>
        (\<forall>b0. best = Some b0 \<longrightarrow> no_better (fst b0) (fst b))"
  using assms(3)
proof (induction xs arbitrary: best)
  case Nil
  then show ?case using total [of "fst b" "fst b"] by auto
next
  case (Cons kv xs)
  let ?b1 = "better no_better candidate kv best"
  have ih: "?b1 = Some b \<or> b \<in> set xs \<and> candidate (fst b)" "\<forall>kv\<in>set xs. candidate (fst kv) \<longrightarrow> no_better (fst kv) (fst b)"
    "\<And>b0. ?b1 = Some b0 \<Longrightarrow> no_better (fst b0) (fst b)"
    using Cons.IH [of ?b1] Cons.prems by simp_all
  show ?case
  proof (cases "candidate (fst kv)")
    case False
    then show ?thesis using ih by (auto simp: better_def)
  next
    case cand: True
    show ?thesis
    proof (cases best)
      case None
      then show ?thesis using ih cand by (auto simp: better_def)
    next
      case (Some b0)
      show ?thesis
      proof (cases "no_better (fst kv) (fst b0)")
        case True
        then have "?b1 = Some b0" using cand Some by (simp add: better_def)
        then show ?thesis using ih trans [OF True] Some by auto
      next
        case False
        then have b1: "?b1 = Some kv" using cand Some by (simp add: better_def)
        have "no_better (fst b0) (fst kv)" using False total by blast
        then show ?thesis using ih b1 trans Some cand by auto
      qed
    qed
  qed
qed

text \<open>What a delivery does, whether from one party or from any.\<close>

definition delivers :: "usize \<Rightarrow> usize \<Rightarrow> nat \<Rightarrow> byte list \<Rightarrow> rbc_state \<Rightarrow> rbc_state \<Rightarrow> bool" where
  "delivers r p n m s t \<longleftrightarrow> hm_get (=) (rbc_messages s) (n, p) = Some m \<and> (r, p, n) \<notin> set (rbc_delivered s) \<and>
     (\<forall>k. hm_get (=) (rbc_messages s) (k, p) \<noteq> None \<longrightarrow> (r, p, k) \<notin> set (rbc_delivered s) \<longrightarrow> n \<le> k) \<and>
     t = s\<lparr>rbc_delivered := (r, p, n) # rbc_delivered s\<rparr>"

lemma hm_get_mem: "hm_distinct (=) xs \<Longrightarrow> (k, v) \<in> set xs \<Longrightarrow> hm_get (=) xs k = Some v"
  by (induction xs) (auto simp: hm_get_None_iff)

lemma rbc_get_in_set: "hm_get (=) xs k = Some v \<Longrightarrow> (k, v) \<in> set xs"
  by (induction xs) (auto split: if_splits)

lemma not_before_total:
  "not_before_session a b \<or> not_before_session b a" "not_before_key a b \<or> not_before_key b a"
  "not_before_session a b \<Longrightarrow> not_before_session b c \<Longrightarrow> not_before_session a c"
  "not_before_key a b \<Longrightarrow> not_before_key b c \<Longrightarrow> not_before_key a c"
  by (cases a; cases b; cases c; auto)+

lemma best_candidate:
  "fold (better not_before_session c) xs None = Some b \<Longrightarrow>
     b \<in> set xs \<and> c (fst b) \<and> (\<forall>kv\<in>set xs. c (fst kv) \<longrightarrow> not_before_session (fst kv) (fst b))"
  "fold (better not_before_key c) xs None = Some b \<Longrightarrow>
     b \<in> set xs \<and> c (fst b) \<and> (\<forall>kv\<in>set xs. c (fst kv) \<longrightarrow> not_before_key (fst kv) (fst b))"
  using fold_better [of not_before_session c xs None b] fold_better [of not_before_key c xs None b] not_before_total
  by blast+

lemma delivers_from:
  assumes "hm_distinct (=) (rbc_messages s)" "try_deliver_rbc_from r p s = (Some (q, n, m), t)"
  shows "q = p \<and> delivers r p n m s t"
proof -
  have b: "fold (better not_before_session (undelivered_from r p s)) (rbc_messages s) None = Some ((n, q), m)"
    and t: "t = s\<lparr>rbc_delivered := (r, q, n) # rbc_delivered s\<rparr>"
    using assms(2) by (auto simp: try_deliver_rbc_from_def deliver_def split: option.splits)
  note best = best_candidate(1) [OF b]
  then have mem: "((n, q), m) \<in> set (rbc_messages s)" "q = p" "(r, p, n) \<notin> set (rbc_delivered s)" by auto
  have "n \<le> k" if "hm_get (=) (rbc_messages s) (k, p) = Some v" "(r, p, k) \<notin> set (rbc_delivered s)" for k v
    using best rbc_get_in_set [OF that(1)] that(2) by fastforce
  then show ?thesis using hm_get_mem [OF assms(1) mem(1)] mem(2,3) t by (auto simp: delivers_def)
qed

lemma delivers_any:
  assumes "hm_distinct (=) (rbc_messages s)" "try_deliver_rbc_any r s = (Some (p, n, m), t)"
  shows "p \<noteq> r \<and> delivers r p n m s t"
proof -
  have b: "fold (better not_before_key (undelivered_any r s)) (rbc_messages s) None = Some ((n, p), m)"
    and t: "t = s\<lparr>rbc_delivered := (r, p, n) # rbc_delivered s\<rparr>"
    using assms(2) by (auto simp: try_deliver_rbc_any_def deliver_def split: option.splits)
  note best = best_candidate(2) [OF b]
  then have mem: "((n, p), m) \<in> set (rbc_messages s)" "p \<noteq> r" "(r, p, n) \<notin> set (rbc_delivered s)" by auto
  have "n \<le> k" if "hm_get (=) (rbc_messages s) (k, p) = Some v" "(r, p, k) \<notin> set (rbc_delivered s)" for k v
    using best rbc_get_in_set [OF that(1)] that(2) mem(2) by fastforce
  then show ?thesis using hm_get_mem [OF assms(1) mem(1)] mem(2,3) t by (auto simp: delivers_def)
qed

section \<open>Invariant\<close>

definition sent :: "rbc_event list \<Rightarrow> usize \<Rightarrow> nat \<Rightarrow> byte list \<Rightarrow> bool" where
  "sent es p n m \<longleftrightarrow> Broadcast p n m \<in> set es \<or> Arrived p n m \<in> set es"

lemma sent_simps [simp]:
  "sent (es @ [Received r q k v]) p n m = sent es p n m"
  "sent (es @ [Broadcast q k v]) p n m \<longleftrightarrow> sent es p n m \<or> q = p \<and> k = n \<and> v = m"
  "sent (es @ [Arrived q k v]) p n m \<longleftrightarrow> sent es p n m \<or> q = p \<and> k = n \<and> v = m"
  by (auto simp: sent_def)

definition rbc_ok :: "rbc_event list \<Rightarrow> rbc_state \<Rightarrow> bool" where
  "rbc_ok es s \<longleftrightarrow> hm_distinct (=) (rbc_messages s) \<and>
     (\<forall>p n m. hm_get (=) (rbc_messages s) (n, p) = Some m \<longleftrightarrow> sent es p n m) \<and>
     (\<forall>r p n. (r, p, n) \<in> set (rbc_delivered s) \<longleftrightarrow> n \<in> fst ` set (receipts es r p)) \<and>
     (\<forall>r p. distinct (map fst (receipts es r p))) \<and>
     (\<forall>r p n m. (n, m) \<in> set (receipts es r p) \<longrightarrow> sent es p n m)"

lemma free_session_spec:
  "free_session s p k = Inr n \<Longrightarrow> k \<le> n \<and> hm_get (=) (rbc_messages s) (n, p) = None \<and>
   (\<forall>j. k \<le> j \<longrightarrow> j < n \<longrightarrow> hm_get (=) (rbc_messages s) (j, p) \<noteq> None)"
proof (induction s p k rule: free_session.induct)
  case (1 s p k)
  show ?case
  proof (cases "hm_get (=) (rbc_messages s) (k, p) = None")
    case True
    then show ?thesis using "1.prems" by (subst (asm) free_session.simps) auto
  next
    case False
    then have c: "k + 1 \<le> usize_max" "free_session s p (k + 1) = Inr n"
      using "1.prems" by (subst (asm) free_session.simps, simp split: if_splits)+
    have "j = k \<or> k + 1 \<le> j" if "k \<le> j" for j using that by auto
    then show ?thesis using "1.IH" [OF False c] False by fastforce
  qed
qed

lemma rbc_ok_insert:
  assumes "rbc_ok es s" "hm_get (=) (rbc_messages s) (n, p) = None" "e = Broadcast p n m \<or> e = Arrived p n m"
  shows "rbc_ok (es @ [e]) (s\<lparr>rbc_messages := hm_insert (=) (n, p) m (rbc_messages s)\<rparr>)"
proof -
  have "receipts (es @ [e]) r q = receipts es r q" "sent (es @ [e]) q k v \<longleftrightarrow> sent es q k v \<or> p = q \<and> n = k \<and> m = v" for r q k v
    using assms(3) by auto
  moreover have "\<not> sent es p n v" for v using assms(1,2) unfolding rbc_ok_def by (metis option.distinct(1))
  ultimately show ?thesis using assms(1) unfolding rbc_ok_def by (auto simp: heq.get_insert heq.insert_distinct)
qed

lemma rbc_ok_deliver:
  assumes "rbc_ok es s" "delivers r p n m s t"
  shows "rbc_ok (es @ [Received r p n m]) t"
proof -
  have new: "n \<notin> fst ` set (receipts es r p)" and m: "sent es p n m" using assms by (simp_all add: rbc_ok_def delivers_def)
  then show ?thesis using assms unfolding rbc_ok_def delivers_def by (auto simp del: split_paired_All)
qed

lemma rbc_history_ok: "rbc_history es s \<Longrightarrow> rbc_ok es s"
proof (induction rule: rbc_history.induct)
  case rbc_start
  then show ?case by (simp add: rbc_ok_def sent_def)
next
  case (rbc_broadcasts es s p m n t)
  have f: "free_session s p 0 = Inr n" and t: "t = s\<lparr>rbc_messages := hm_insert (=) (n, p) m (rbc_messages s)\<rparr>"
    using rbc_broadcasts(2) by (auto simp: rbc_broadcast_def split: sum.splits)
  show ?case using rbc_ok_insert [OF rbc_broadcasts(3), of n p "Broadcast p n m" m] free_session_spec [OF f] t by simp
next
  case (rbc_arrives es s n p m t)
  show ?case
  proof (cases "hm_get (=) (rbc_messages s) (n, p)")
    case None
    then show ?thesis using rbc_ok_insert [OF rbc_arrives(3) None, of "Arrived p n m" m] rbc_arrives(2)
      by (simp add: insert_rbc_broadcast_def)
  next
    case (Some v)
    then have "v = m" "t = s" using rbc_arrives(2) by (auto simp: insert_rbc_broadcast_def split: if_splits)
    then have "sent es p n m" using rbc_arrives(3) Some by (simp add: rbc_ok_def)
    then have "sent (es @ [Arrived p n m]) q k w = sent es q k w" for q k w by auto
    then show ?thesis using rbc_arrives(3) \<open>t = s\<close> by (simp add: rbc_ok_def)
  qed
next
  case (rbc_rejects es s n p m e t)
  then show ?case by (auto simp: insert_rbc_broadcast_def split: option.splits if_splits)
next
  case (rbc_receives es s r p p' n m t)
  have "hm_distinct (=) (rbc_messages s)" using rbc_receives(3) by (simp add: rbc_ok_def)
  then show ?case using delivers_from [OF _ rbc_receives(2)] rbc_ok_deliver [OF rbc_receives(3)] by simp
next
  case (rbc_receives_any es s r p n m t)
  have "hm_distinct (=) (rbc_messages s)" using rbc_receives_any(3) by (simp add: rbc_ok_def)
  then show ?case using delivers_any [OF _ rbc_receives_any(2)] rbc_ok_deliver [OF rbc_receives_any(3)] by simp
qed

lemma vec_get_snoc: "vec_get (xs @ [x]) k = (if k = length xs then Some x else vec_get xs k)"
  by (auto simp: vec_get_def nth_append)

text \<open>Without messages from the network the sessions of a party are those of its broadcasts.\<close>

definition fifo_ok :: "rbc_event list \<Rightarrow> rbc_state \<Rightarrow> usize \<Rightarrow> bool" where
  "fifo_ok es s p \<longleftrightarrow> (\<forall>n. hm_get (=) (rbc_messages s) (n, p) = vec_get (broadcasts es p) n) \<and>
     (\<forall>r. \<forall>n. (r, p, n) \<in> set (rbc_delivered s) \<longleftrightarrow> n < length (receipts es r p)) \<and>
     (\<forall>r. length (receipts es r p) \<le> length (broadcasts es p) \<and>
        map snd (receipts es r p) = take (length (receipts es r p)) (broadcasts es p))"

lemma fifo_ok_broadcast:
  assumes "fifo_ok es s p" "free_session s q 0 = Inr n"
  shows "fifo_ok (es @ [Broadcast q n m]) (s\<lparr>rbc_messages := hm_insert (=) (n, q) m (rbc_messages s)\<rparr>) p"
proof (cases "q = p")
  case True
  have None: "vec_get (broadcasts es p) n = None" and before: "\<forall>j < n. vec_get (broadcasts es p) j \<noteq> None"
    using free_session_spec [OF assms(2)] assms(1) True by (auto simp: fifo_ok_def)
  have "\<not> length (broadcasts es p) < n"
    using before by (auto simp: vec_get_def)
  then have "n = length (broadcasts es p)" using None by (simp add: vec_get_def split: if_splits)
  then show ?thesis using assms(1) True by (auto simp: fifo_ok_def heq.get_insert vec_get_snoc le_SucI)
next
  case False
  then show ?thesis using assms(1) by (auto simp: fifo_ok_def heq.get_insert)
qed

lemma fifo_ok_deliver:
  assumes "fifo_ok es s p" "delivers r q n m s t"
  shows "fifo_ok (es @ [Received r q n m]) t p"
proof (cases "q = p")
  case True
  let ?d = "length (receipts es r p)"
  have at: "vec_get (broadcasts es p) n = Some m" and new: "\<not> n < ?d"
    and least: "\<And>k. vec_get (broadcasts es p) k \<noteq> None \<Longrightarrow> \<not> k < ?d \<Longrightarrow> n \<le> k"
    and t: "t = s\<lparr>rbc_delivered := (r, p, n) # rbc_delivered s\<rparr>"
    using assms True by (auto simp: fifo_ok_def delivers_def)
  have len: "n < length (broadcasts es p)" "broadcasts es p ! n = m" using at by (auto simp: vec_get_def split: if_splits)
  then have "n = ?d" using least [of ?d] new by (auto simp: vec_get_def)
  then show ?thesis using assms(1) True len t by (auto simp: fifo_ok_def take_Suc_conv_app_nth)
next
  case False
  then show ?thesis using assms by (auto simp: fifo_ok_def delivers_def)
qed

lemma rbc_history_fifo: "rbc_history es s \<Longrightarrow> (\<And>n m. Arrived p n m \<notin> set es) \<Longrightarrow> fifo_ok es s p"
proof (induction rule: rbc_history.induct)
  case rbc_start
  then show ?case by (simp add: fifo_ok_def vec_get_def)
next
  case (rbc_broadcasts es s q m n t)
  then have "free_session s q 0 = Inr n" "t = s\<lparr>rbc_messages := hm_insert (=) (n, q) m (rbc_messages s)\<rparr>"
    by (auto simp: rbc_broadcast_def split: sum.splits)
  then show ?case using fifo_ok_broadcast rbc_broadcasts by auto
next
  case (rbc_arrives es s n q m t)
  then have "q \<noteq> p" "fifo_ok es s p" by auto
  then show ?case using rbc_arrives(2)
    by (auto simp: insert_rbc_broadcast_def fifo_ok_def heq.get_insert split: option.splits if_splits)
next
  case (rbc_rejects es s n q m e t)
  then show ?case by (auto simp: insert_rbc_broadcast_def split: option.splits if_splits)
next
  case (rbc_receives es s r q q' n m t)
  then show ?case using delivers_from [OF _ rbc_receives(2)] rbc_history_ok [OF rbc_receives(1)] fifo_ok_deliver
    by (auto simp: rbc_ok_def)
next
  case (rbc_receives_any es s r q n m t)
  then show ?case using delivers_any [OF _ rbc_receives_any(2)] rbc_history_ok [OF rbc_receives_any(1)] fifo_ok_deliver
    by (auto simp: rbc_ok_def)
qed

section \<open>Properties\<close>

text \<open>C10: Delivery of broadcasts. In every history of broadcasts, arrivals (conflicting ones are refused)
  and deliveries, a receiver gets no session of a party twice, everything it gets was sent by that party
  under that session, and two receivers never get different bytes for the same session: a party cannot
  equivocate.
\<close>

theorem rbc_delivery:
  assumes "rbc_history es s"
  shows "distinct (map fst (receipts es r p)) \<and>
    ((n, m) \<in> set (receipts es r p) \<longrightarrow> Broadcast p n m \<in> set es \<or> Arrived p n m \<in> set es) \<and>
    ((n, m) \<in> set (receipts es r p) \<longrightarrow> (n, m') \<in> set (receipts es r' p) \<longrightarrow> m = m')"
proof -
  have ok: "rbc_ok es s" by (rule rbc_history_ok [OF assms])
  have "m = m'" if "sent es p n m" "sent es p n m'" using ok that unfolding rbc_ok_def by (metis option.inject)
  then show ?thesis using ok unfolding rbc_ok_def sent_def [symmetric] by blast
qed

text \<open>Party 1 broadcasts twice, 0 and 2 receive, and a conflicting arrival is refused.\<close>

definition rbc_sample_state :: rbc_state where
  "rbc_sample_state = \<lparr>rbc_messages = [((0, 1), [5]), ((1, 1), [6])], rbc_delivered = [(0, 1, 1), (2, 1, 0), (0, 1, 0)]\<rparr>"

definition rbc_sample_events :: "rbc_event list" where
  "rbc_sample_events = [Broadcast 1 0 [5], Broadcast 1 1 [6], Received 0 1 0 [5], Received 2 1 0 [5], Received 0 1 1 [6]]"

lemmas rbc_operations = insert_rbc_broadcast_def rbc_broadcast_def free_session.simps try_deliver_rbc_from_def try_deliver_rbc_any_def
  better_def deliver_def usize_max_def

lemma rbc_sample_history: "rbc_history rbc_sample_events rbc_sample_state"
proof -
  let ?m0 = "[((0::nat, 1::usize), [5::byte])]" and ?m1 = "[((0::nat, 1::usize), [5::byte]), ((1, 1), [6])]"
  have "rbc_history [Broadcast 1 0 [5]] \<lparr>rbc_messages = ?m0, rbc_delivered = []\<rparr>"
    using rbc_history.rbc_broadcasts [OF rbc_start, of 1 "[5]" 0] by (simp add: rbc_operations)
  from rbc_history.rbc_broadcasts [OF this, of 1 "[6]" 1]
  have "rbc_history [Broadcast 1 0 [5], Broadcast 1 1 [6]] \<lparr>rbc_messages = ?m1, rbc_delivered = []\<rparr>"
    by (simp add: rbc_operations)
  from rbc_history.rbc_rejects [OF this, of 1 1 "[7]" "ConflictingRbcPayload 1 1"]
  have "rbc_history [Broadcast 1 0 [5], Broadcast 1 1 [6]] \<lparr>rbc_messages = ?m1, rbc_delivered = []\<rparr>"
    by (simp add: rbc_operations)
  from rbc_history.rbc_receives [OF this, of 0 1 1 0 "[5]"]
  have "rbc_history [Broadcast 1 0 [5], Broadcast 1 1 [6], Received 0 1 0 [5]] \<lparr>rbc_messages = ?m1, rbc_delivered = [(0, 1, 0)]\<rparr>"
    by (simp add: rbc_operations)
  from rbc_history.rbc_receives_any [OF this, of 2 1 0 "[5]"]
  have "rbc_history [Broadcast 1 0 [5], Broadcast 1 1 [6], Received 0 1 0 [5], Received 2 1 0 [5]]
     \<lparr>rbc_messages = ?m1, rbc_delivered = [(2, 1, 0), (0, 1, 0)]\<rparr>"
    by (simp add: rbc_operations)
  from rbc_history.rbc_receives [OF this, of 0 1 1 1 "[6]"]
  show ?thesis by (simp add: rbc_operations rbc_sample_events_def rbc_sample_state_def)
qed

theorem rbc_delivery_witness:
  "rbc_history rbc_sample_events rbc_sample_state \<and> distinct (map fst (receipts rbc_sample_events 0 1)) \<and>
   length (receipts rbc_sample_events 0 1) = 2 \<and> Broadcast 1 1 [6] \<in> set rbc_sample_events"
  using rbc_delivery [OF rbc_sample_history, of 0 1 1 "[6]" "[6]" 0] rbc_sample_history
  by (simp add: rbc_sample_events_def receipts_def map_filter_def)

text \<open>C11: First in, first out. While nothing of a party arrives from the network (the exchange within one
  process), what each receiver got from the party is at every moment a prefix of what the party
  broadcast, in the order it broadcast it, and the sessions are the positions.
\<close>

theorem rbc_fifo:
  assumes "rbc_history es s" "\<And>n m. Arrived p n m \<notin> set es"
  shows "map snd (receipts es r p) = take (length (receipts es r p)) (broadcasts es p)"
  using rbc_history_fifo [OF assms] by (simp add: fifo_ok_def)

theorem rbc_fifo_witness:
  "rbc_history rbc_sample_events rbc_sample_state \<and> broadcasts rbc_sample_events 1 = [[5], [6]] \<and>
   length (receipts rbc_sample_events 2 1) = 1 \<and> map snd (receipts rbc_sample_events 2 1) = take 1 (broadcasts rbc_sample_events 1)"
  using rbc_fifo [OF rbc_sample_history, of 1 2] rbc_sample_history
  by (simp add: rbc_sample_events_def receipts_def broadcasts_def map_filter_def)

end
