(* ===== verification/Open_Router.thy ===== *)
theory Open_Router
  imports Open_Agreement Reliable_Broadcast
begin

text \<open>
  The router between the network and the registries of the instances
  (\<open>stoffel-vm/src/net/open_registry/\<close>: \<open>router.rs\<close>, \<open>wire.rs\<close>) and the way the receive loops of the
  HoneyBadger and AVSS servers use it. Payloads come with the identity of the authenticated peer; a
  payload is claimed by its prefix, bounded, decoded, checked against that identity and added to the
  registry of its instance. The byte format of a message is the one of \<open>bincode\<close>, a parameter here.
\<close>

section \<open>Wire messages\<close>

definition MAX_WIRE_MESSAGE_LEN :: nat where
  "MAX_WIRE_MESSAGE_LEN = 1048576"

definition OPEN_REGISTRY_WIRE_PREFIX :: "byte list" where
  "OPEN_REGISTRY_WIRE_PREFIX = [79, 80, 78, 49]"

definition UNKNOWN_SENDER_ID :: usize where
  "UNKNOWN_SENDER_ID = usize_max"

definition HB_EXP_OPEN_WIRE_PREFIX :: "byte list" where
  "HB_EXP_OPEN_WIRE_PREFIX = [88, 79, 80, 49]"

definition AVSS_EXP_WIRE_PREFIX :: "byte list" where
  "AVSS_EXP_WIRE_PREFIX = [65, 88, 79, 80]"

definition AVSS_G2_EXP_WIRE_PREFIX :: "byte list" where
  "AVSS_G2_EXP_WIRE_PREFIX = [65, 88, 71, 50]"

record exp_open_wire_message =
  xw_instance_id :: nat
  xw_seq :: nat
  xw_sender_party_id :: usize
  xw_share_id :: usize
  xw_partial_point :: "byte list"

datatype open_registry_wire_message =
    WireSingle nat nat string usize "byte list"
  | WireBatch nat nat string usize "byte list list"
  | WireRbc nat nat usize "byte list"

text \<open>Encoding: the prefix, then the serialized message; \<open>seq as u64\<close> keeps the number.\<close>

definition framed :: "byte list \<Rightarrow> string + byte list \<Rightarrow> string + byte list" where
  "framed prefix encoded = map_ok (\<lambda>bs. prefix @ bs) encoded"

definition encode_single_share_wire_message ::
  "(open_registry_wire_message \<Rightarrow> string + byte list) \<Rightarrow> nat \<Rightarrow> usize \<Rightarrow> string \<Rightarrow> usize \<Rightarrow> byte list \<Rightarrow> string + byte list" where
  "encode_single_share_wire_message ser i seq type_key sender share =
     framed OPEN_REGISTRY_WIRE_PREFIX (ser (WireSingle i seq type_key sender share))"

definition encode_batch_share_wire_message ::
  "(open_registry_wire_message \<Rightarrow> string + byte list) \<Rightarrow> nat \<Rightarrow> usize \<Rightarrow> string \<Rightarrow> usize \<Rightarrow> byte list list \<Rightarrow> string + byte list" where
  "encode_batch_share_wire_message ser i seq type_key sender shares =
     framed OPEN_REGISTRY_WIRE_PREFIX (ser (WireBatch i seq type_key sender shares))"

definition encode_rbc_wire_message ::
  "(open_registry_wire_message \<Rightarrow> string + byte list) \<Rightarrow> nat \<Rightarrow> nat \<Rightarrow> usize \<Rightarrow> byte list \<Rightarrow> string + byte list" where
  "encode_rbc_wire_message ser i session sender message =
     framed OPEN_REGISTRY_WIRE_PREFIX (ser (WireRbc i session sender message))"

definition encode_exp_open_wire_message ::
  "(exp_open_wire_message \<Rightarrow> string + byte list) \<Rightarrow> byte list \<Rightarrow> nat \<Rightarrow> usize \<Rightarrow> usize \<Rightarrow> usize \<Rightarrow> byte list \<Rightarrow> string + byte list" where
  "encode_exp_open_wire_message ser prefix i seq sender share_id point =
     framed prefix (ser \<lparr>xw_instance_id = i, xw_seq = seq, xw_sender_party_id = sender, xw_share_id = share_id, xw_partial_point = point\<rparr>)"

definition encode_hb_open_exp_wire_message where
  "encode_hb_open_exp_wire_message ser = encode_exp_open_wire_message ser HB_EXP_OPEN_WIRE_PREFIX"

definition encode_avss_open_exp_wire_message where
  "encode_avss_open_exp_wire_message ser = encode_exp_open_wire_message ser AVSS_EXP_WIRE_PREFIX"

definition encode_avss_g2_open_exp_wire_message where
  "encode_avss_g2_open_exp_wire_message ser = encode_exp_open_wire_message ser AVSS_G2_EXP_WIRE_PREFIX"

section \<open>Router\<close>

text \<open>
  The router holds weak references: an engine owns its registry, and once it drops it the reference can
  no longer be upgraded. \<open>or_store\<close> has the registries that are alive, by address.
\<close>

record open_router =
  or_registries :: "(nat \<times> nat) list"
  or_store :: "nat \<Rightarrow> instance_registry option"
  or_fresh :: nat

definition open_router_new :: open_router where
  "open_router_new = \<lparr>or_registries = [], or_store = (\<lambda>_. None), or_fresh = 0\<rparr>"

definition get_instance_registry :: "open_router \<Rightarrow> nat \<Rightarrow> (nat \<times> instance_registry) option" where
  "get_instance_registry w i =
     (case hm_get (=) (or_registries w) i of
        None \<Rightarrow> None
      | Some ref \<Rightarrow> map_option (\<lambda>r. (ref, r)) (or_store w ref))"

text \<open>The second half of \<open>register_instance\<close> runs under the lock of the entry, perhaps after another
  thread has registered the instance.\<close>

definition register_entry :: "nat \<Rightarrow> open_router \<Rightarrow> nat \<times> open_router" where
  "register_entry i w =
     (case get_instance_registry w i of
        Some (ref, _) \<Rightarrow> (ref, w)
      | None \<Rightarrow> (or_fresh w, \<lparr>or_registries = hm_insert (=) i (or_fresh w) (or_registries w),
                              or_store = (or_store w)(or_fresh w \<mapsto> instance_registry_new i),
                              or_fresh = or_fresh w + 1\<rparr>))"

definition register_instance :: "nat \<Rightarrow> open_router \<Rightarrow> nat \<times> open_router" where
  "register_instance i w =
     (case get_instance_registry w i of
        Some (ref, _) \<Rightarrow> (ref, w)
      | None \<Rightarrow> register_entry i w)"

definition router_clear :: "open_router \<Rightarrow> open_router" where
  "router_clear w = w\<lparr>or_registries := []\<rparr>"

definition drop_registry :: "nat \<Rightarrow> open_router \<Rightarrow> open_router" where
  "drop_registry ref w = w\<lparr>or_store := (or_store w)(ref := None)\<rparr>"

datatype wire_error =
    WireTooLarge nat
  | WireUndecodable string
  | NotAuthenticated
  | SenderMismatch usize usize
  | ShareIdMismatch usize usize
  | ShareIdOverflow
  | SequenceExceedsUsize nat
  | RegistryRefused open_error
  | RbcRefused rbc_error

definition usize_try_from :: "nat \<Rightarrow> wire_error + usize" where
  "usize_try_from n = (if n \<le> usize_max then Inr n else Inl (SequenceExceedsUsize n))"

definition wire_body :: "byte list \<Rightarrow> byte list \<Rightarrow> byte list option" where
  "wire_body prefix payload =
     (if length payload < length prefix \<or> take (length prefix) payload \<noteq> prefix then None
      else Some (drop (length prefix) payload))"

definition decode_body :: "(byte list \<Rightarrow> string + 'm) \<Rightarrow> byte list \<Rightarrow> wire_error + 'm" where
  "decode_body de body =
     (if length body > MAX_WIRE_MESSAGE_LEN then Inl (WireTooLarge (length body))
      else map_err WireUndecodable (de body))"

definition authenticate :: "usize \<Rightarrow> usize \<Rightarrow> wire_error + unit" where
  "authenticate authenticated sender =
     (if authenticated = UNKNOWN_SENDER_ID then Inl NotAuthenticated
      else if sender \<noteq> authenticated then Inl (SenderMismatch authenticated sender)
      else Inr ())"

text \<open>The update of the registry of an instance; without one the message is not handled.\<close>

definition with_registry :: "nat \<Rightarrow> (instance_registry, wire_error, unit) meth \<Rightarrow> (open_router, wire_error, bool) meth" where
  "with_registry i f w =
     (case get_instance_registry w i of
        None \<Rightarrow> (Inr False, w)
      | Some (ref, r) \<Rightarrow> (case f r of (res, r') \<Rightarrow> (map_ok (\<lambda>_. True) res, w\<lparr>or_store := (or_store w)(ref \<mapsto> r')\<rparr>)))"

definition on_rbc :: "(rbc_state, rbc_error, 'x) meth \<Rightarrow> (instance_registry, rbc_error, 'x) meth" where
  "on_rbc f r = (case f (ir_rbc r) of (res, s) \<Rightarrow> (res, r\<lparr>ir_rbc := s\<rparr>))"

fun message_ids :: "open_registry_wire_message \<Rightarrow> nat \<times> usize" where
  "message_ids (WireSingle i _ _ sender _) = (i, sender)"
| "message_ids (WireBatch i _ _ sender _) = (i, sender)"
| "message_ids (WireRbc i _ sender _) = (i, sender)"

fun insert_message :: "open_registry_wire_message \<Rightarrow> (instance_registry, wire_error, unit) meth" where
  "insert_message (WireSingle _ seq type_key sender share) =
     mbind (mread (\<lambda>_. usize_try_from seq)) (\<lambda>n. mmap_err RegistryRefused (insert_single n type_key sender share))"
| "insert_message (WireBatch _ seq type_key sender shares) =
     mbind (mread (\<lambda>_. usize_try_from seq)) (\<lambda>n. mmap_err RegistryRefused (insert_batch n type_key sender shares))"
| "insert_message (WireRbc _ session sender msg) = mmap_err RbcRefused (on_rbc (insert_rbc_broadcast session sender msg))"

definition try_handle_wire_message ::
  "(byte list \<Rightarrow> string + open_registry_wire_message) \<Rightarrow> usize \<Rightarrow> byte list \<Rightarrow> (open_router, wire_error, bool) meth" where
  "try_handle_wire_message de authenticated payload w =
     (case wire_body OPEN_REGISTRY_WIRE_PREFIX payload of
        None \<Rightarrow> (Inr False, w)
      | Some body \<Rightarrow>
          (case decode_body de body of
             Inl e \<Rightarrow> (Inl e, w)
           | Inr m \<Rightarrow>
               (case authenticate authenticated (snd (message_ids m)) of
                  Inl e \<Rightarrow> (Inl e, w)
                | Inr _ \<Rightarrow> with_registry (fst (message_ids m)) (insert_message m) w)))"

text \<open>The handlers of partial points differ in the prefix, in the share identifier a party must use and
  in the group. An addition that leaves \<open>usize\<close> is an error of its own here.\<close>

definition insert_point :: "exp_kind \<Rightarrow> exp_open_wire_message \<Rightarrow> (instance_registry, wire_error, unit) meth" where
  "insert_point kind m =
     mbind (mread (\<lambda>_. usize_try_from (xw_seq m))) (\<lambda>n. mmap_err RegistryRefused
       ((case kind of G1 \<Rightarrow> insert_exp | G2 \<Rightarrow> insert_exp_g2) n (xw_sender_party_id m) (xw_share_id m) (xw_partial_point m)))"

definition handle_exp_wire_message ::
  "byte list \<Rightarrow> (usize \<Rightarrow> usize option) \<Rightarrow> exp_kind \<Rightarrow> (byte list \<Rightarrow> string + exp_open_wire_message) \<Rightarrow> usize \<Rightarrow> byte list \<Rightarrow>
   (open_router, wire_error, bool) meth" where
  "handle_exp_wire_message prefix share_id_of kind de authenticated payload w =
     (case wire_body prefix payload of
        None \<Rightarrow> (Inr False, w)
      | Some body \<Rightarrow>
          (case decode_body de body of
             Inl e \<Rightarrow> (Inl e, w)
           | Inr m \<Rightarrow>
               (case authenticate authenticated (xw_sender_party_id m) of
                  Inl e \<Rightarrow> (Inl e, w)
                | Inr _ \<Rightarrow>
                    (case share_id_of (xw_sender_party_id m) of
                       None \<Rightarrow> (Inl ShareIdOverflow, w)
                     | Some k \<Rightarrow>
                         if xw_share_id m \<noteq> k then (Inl (ShareIdMismatch (xw_sender_party_id m) (xw_share_id m)), w)
                         else with_registry (xw_instance_id m) (insert_point kind m) w))))"

definition try_handle_hb_open_exp_wire_message where
  "try_handle_hb_open_exp_wire_message = handle_exp_wire_message HB_EXP_OPEN_WIRE_PREFIX Some G1"

definition try_handle_avss_exp_wire_message where
  "try_handle_avss_exp_wire_message de authenticated payload prefix use_g2_registry =
     handle_exp_wire_message prefix (\<lambda>sender. checked_add_usize sender 1) (if use_g2_registry then G2 else G1) de authenticated payload"

definition try_handle_avss_open_exp_wire_message where
  "try_handle_avss_open_exp_wire_message de authenticated payload =
     try_handle_avss_exp_wire_message de authenticated payload AVSS_EXP_WIRE_PREFIX False"

definition try_handle_avss_g2_exp_wire_message where
  "try_handle_avss_g2_exp_wire_message de authenticated payload =
     try_handle_avss_exp_wire_message de authenticated payload AVSS_G2_EXP_WIRE_PREFIX True"

text \<open>
  What a receive loop does with a payload: the handlers in order until one takes it or fails; a payload
  that none takes goes on to the protocol (\<open>Inr False\<close>).
\<close>

fun dispatch :: "(byte list \<Rightarrow> (open_router, wire_error, bool) meth) list \<Rightarrow> byte list \<Rightarrow> (open_router, wire_error, bool) meth" where
  "dispatch [] payload w = (Inr False, w)"
| "dispatch (h # hs) payload w =
     (case h payload w of
        (Inr False, w') \<Rightarrow> dispatch hs payload w'
      | (res, w') \<Rightarrow> (res, w'))"

definition sender_of :: "usize option \<Rightarrow> usize" where
  "sender_of remote_party_id = (case remote_party_id of Some p \<Rightarrow> p | None \<Rightarrow> UNKNOWN_SENDER_ID)"

definition hb_receive where
  "hb_receive de dex remote_party_id =
     (let sender = sender_of remote_party_id
      in dispatch [try_handle_wire_message de sender, try_handle_hb_open_exp_wire_message dex sender])"

definition avss_receive where
  "avss_receive de dex sender =
     dispatch [try_handle_wire_message de sender, try_handle_avss_open_exp_wire_message dex sender,
               try_handle_avss_g2_exp_wire_message dex sender]"

section \<open>Contributions of a party\<close>

definition contribution_of :: "('k, 'a, 'p, 's, 'r) acc_ops \<Rightarrow> ('k \<times> 'a) list \<Rightarrow> usize \<Rightarrow> 'k \<Rightarrow> 'p option" where
  "contribution_of ops reg p k =
     (case position p (acc_ids ops (entry_of ops reg k)) of None \<Rightarrow> None | Some i \<Rightarrow> acc_payload ops (entry_of ops reg k) i)"

text \<open>What a party has contributed to a registry: shares, batches, points of both groups, messages.\<close>

definition party_view ::
  "instance_registry \<Rightarrow> usize \<Rightarrow> (single_key \<Rightarrow> byte list option) \<times> (batch_key \<Rightarrow> byte list list option) \<times>
     (usize \<Rightarrow> (usize \<times> byte list) option) \<times> (usize \<Rightarrow> (usize \<times> byte list) option) \<times> (nat \<Rightarrow> byte list option)" where
  "party_view r p = (contribution_of single_ops (ir_single r) p, contribution_of batch_ops (ir_batch r) p,
     contribution_of exp_ops (ir_exp r) p, contribution_of exp_ops (ir_exp_g2 r) p,
     (\<lambda>n. hm_get (=) (rbc_messages (ir_rbc r)) (n, p)))"

definition contributions :: "open_router \<Rightarrow> nat \<Rightarrow> usize \<Rightarrow> _" where
  "contributions w ref p = map_option (\<lambda>r. party_view r p) (or_store w ref)"

text \<open>
  The only change a message may make: one contribution of its sender where the sender had none, or one
  broadcast of the sender under a session that had none. Results, deliveries, the identity of the
  instance and every other entry stay as they are.
\<close>

definition adds_entry :: "('k, 'a, 'p, 's, 'r) acc_ops \<Rightarrow> usize \<Rightarrow> ('k \<times> 'a) list \<Rightarrow> ('k \<times> 'a) list \<Rightarrow> bool" where
  "adds_entry ops s reg reg' \<longleftrightarrow> (\<exists>k x. s \<notin> set (acc_ids ops (entry_of ops reg k)) \<and>
     reg' = hm_insert (=) k (acc_push ops s x (entry_of ops reg k)) reg)"

definition adds_contribution :: "usize \<Rightarrow> instance_registry \<Rightarrow> instance_registry \<Rightarrow> bool" where
  "adds_contribution s r r' \<longleftrightarrow>
     (\<exists>reg. adds_entry single_ops s (ir_single r) reg \<and> r' = r\<lparr>ir_single := reg\<rparr>) \<or>
     (\<exists>reg. adds_entry batch_ops s (ir_batch r) reg \<and> r' = r\<lparr>ir_batch := reg\<rparr>) \<or>
     (\<exists>reg. adds_entry exp_ops s (ir_exp r) reg \<and> r' = r\<lparr>ir_exp := reg\<rparr>) \<or>
     (\<exists>reg. adds_entry exp_ops s (ir_exp_g2 r) reg \<and> r' = r\<lparr>ir_exp_g2 := reg\<rparr>) \<or>
     (\<exists>n m. hm_get (=) (rbc_messages (ir_rbc r)) (n, s) = None \<and>
        r' = r\<lparr>ir_rbc := (ir_rbc r)\<lparr>rbc_messages := hm_insert (=) (n, s) m (rbc_messages (ir_rbc r))\<rparr>\<rparr>)"

definition only_adds :: "usize \<Rightarrow> open_router \<Rightarrow> open_router \<Rightarrow> bool" where
  "only_adds s w w' \<longleftrightarrow> w' = w \<or>
     (\<exists>ref r r'. or_store w ref = Some r \<and> adds_contribution s r r' \<and> w' = w\<lparr>or_store := (or_store w)(ref \<mapsto> r')\<rparr>)"

text \<open>Entries are well formed and no party is in one twice.\<close>

definition entries_good :: "('k, 'a, 'p, 's, 'r) acc_ops \<Rightarrow> ('k \<Rightarrow> 'a \<Rightarrow> bool) \<Rightarrow> ('k \<times> 'a) list \<Rightarrow> bool" where
  "entries_good ops good reg = registry_good ops good 0 (\<lambda>_ r _. Inr r) reg"

definition instance_good :: "instance_registry \<Rightarrow> bool" where
  "instance_good r \<longleftrightarrow> entries_good single_ops single_good (ir_single r) \<and> entries_good batch_ops batch_good (ir_batch r) \<and>
     entries_good exp_ops exp_good (ir_exp r) \<and> entries_good exp_ops exp_good (ir_exp_g2 r)"

definition router_good :: "open_router \<Rightarrow> bool" where
  "router_good w \<longleftrightarrow> (\<forall>ref r. or_store w ref = Some r \<longrightarrow> instance_good r)"

lemma position_append: "x \<noteq> y \<Longrightarrow> position x (xs @ [y]) = position x xs"
  by (auto simp: position_def takeWhile_append)

lemma position_append_new: "x \<notin> set xs \<Longrightarrow> position x (xs @ [x]) = Some (length xs)"
  by (auto simp: position_def takeWhile_append takeWhile_eq_all_conv [THEN iffD2])

text \<open>A contribution of one party changes the view of no other and is seen as its own, and a refused one
  changes nothing.\<close>

context accumulator
begin

lemma contribute_at_view:
  assumes reg: "entries_good ops good reg" and fits: "acc_fits ops key x" and r: "contribute_at ops e key s x reg = (res, reg')"
  shows "entries_good ops good reg' \<and> (p \<noteq> s \<longrightarrow> contribution_of ops reg' p = contribution_of ops reg p) \<and>
    (res \<noteq> Inr () \<longrightarrow> reg' = reg) \<and> (res = Inr () \<longrightarrow> contribution_of ops reg' s key = Some x) \<and>
    (reg' = reg \<or> adds_entry ops s reg reg')"
proof -
  let ?a = "entry_of ops reg key"
  have good: "entries_good ops good reg'"
    using contribute_at_ok [OF reg [unfolded entries_good_def] fits r] by (simp add: entries_good_def)
  show ?thesis
  proof (cases "position s (acc_ids ops ?a)")
    case None
    then have s: "s \<notin> set (acc_ids ops ?a)" by (simp add: position_None)
    have a: "good key ?a" using entry_good [OF reg [unfolded entries_good_def], of key] by simp
    have r': "res = Inr ()" "reg' = hm_insert (=) key (acc_push ops s x ?a) reg" using r None by (auto simp: contribute_at_def)
    have e: "entry_of ops reg' k = (if k = key then acc_push ops s x ?a else entry_of ops reg k)" for k
      using r'(2) by (simp add: entry_of_def heq.get_insert)
    have "contribution_of ops reg' p k = contribution_of ops reg p k" if "p \<noteq> s" for k
      using position_append [OF that]
      by (auto simp: contribution_of_def e push_ids split: option.splits dest!: position_Some intro!: push_payload [OF a fits])
    moreover have "contribution_of ops reg' s key = Some x"
      using position_append_new [OF s] push_new_payload [OF a fits] by (simp add: contribution_of_def e push_ids)
    moreover have "adds_entry ops s reg reg'" unfolding adds_entry_def using s r'(2) by blast
    ultimately show ?thesis using good r'(1) by auto
  next
    case (Some i)
    then have "hm_get (=) reg key \<noteq> None" using fresh_ids [of key] by (cases "hm_get (=) reg key") (auto simp: entry_of_def position_def)
    then have "reg' = reg" using r Some by (auto simp: contribute_at_def or_default_def)
    then show ?thesis using good r Some by (auto simp: contribute_at_def contribution_of_def split: if_splits)
  qed
qed

end

lemmas contribute_views = single.contribute_at_view batch.contribute_at_view exponent.contribute_at_view

lemma acc_fits_simps [simp]: "acc_fits single_ops k x" "acc_fits exp_ops n y" "acc_fits batch_ops (seq, t, length xs) xs"
  by (simp_all add: single_ops_def exp_ops_def batch_ops_def)

text \<open>The effect of an update on behalf of a party.\<close>

definition on_behalf_of :: "usize \<Rightarrow> instance_registry \<Rightarrow> ('e + unit) \<times> instance_registry \<Rightarrow> bool" where
  "on_behalf_of s r out \<longleftrightarrow> instance_good (snd out) \<and> (\<forall>p. p \<noteq> s \<longrightarrow> party_view (snd out) p = party_view r p) \<and>
     (fst out \<noteq> Inr () \<longrightarrow> snd out = r) \<and> (snd out = r \<or> adds_contribution s r (snd out))"

lemma adds_contributionI:
  "reg1 = ir_single r \<or> adds_entry single_ops s (ir_single r) reg1 \<Longrightarrow> r\<lparr>ir_single := reg1\<rparr> \<noteq> r \<Longrightarrow> adds_contribution s r (r\<lparr>ir_single := reg1\<rparr>)"
  "reg2 = ir_batch r \<or> adds_entry batch_ops s (ir_batch r) reg2 \<Longrightarrow> r\<lparr>ir_batch := reg2\<rparr> \<noteq> r \<Longrightarrow> adds_contribution s r (r\<lparr>ir_batch := reg2\<rparr>)"
  "reg3 = ir_exp r \<or> adds_entry exp_ops s (ir_exp r) reg3 \<Longrightarrow> r\<lparr>ir_exp := reg3\<rparr> \<noteq> r \<Longrightarrow> adds_contribution s r (r\<lparr>ir_exp := reg3\<rparr>)"
  "reg3 = ir_exp_g2 r \<or> adds_entry exp_ops s (ir_exp_g2 r) reg3 \<Longrightarrow> r\<lparr>ir_exp_g2 := reg3\<rparr> \<noteq> r \<Longrightarrow> adds_contribution s r (r\<lparr>ir_exp_g2 := reg3\<rparr>)"
  "hm_get (=) (rbc_messages (ir_rbc r)) (n, s) = None \<Longrightarrow>
     adds_contribution s r (r\<lparr>ir_rbc := (ir_rbc r)\<lparr>rbc_messages := hm_insert (=) (n, s) m (rbc_messages (ir_rbc r))\<rparr>\<rparr>)"
  unfolding adds_contribution_def by auto

lemma insert_single_view: "instance_good r \<Longrightarrow> on_behalf_of s r (insert_single n t s x r)"
  using single.contribute_at_view [of "ir_single r" "(n, t)" x "ConflictingPayload ''open_share'' n s" s]
  by (auto simp: on_behalf_of_def insert_single_def on_single_def instance_good_def party_view_def intro: adds_contributionI split: prod.splits)

lemma insert_batch_view: "instance_good r \<Longrightarrow> on_behalf_of s r (insert_batch n t s xs r)"
  using batch.contribute_at_view [of "ir_batch r" "(n, t, length xs)" xs "ConflictingPayload ''batch_open_shares'' n s" s]
  by (auto simp: on_behalf_of_def insert_batch_def on_batch_def instance_good_def party_view_def mret_def intro: adds_contributionI split: prod.splits)

lemma insert_exp_view: "instance_good r \<Longrightarrow> on_behalf_of s r (insert_exp_for_kind kind n s k x r)"
proof (cases kind)
  case G1
  then show "instance_good r \<Longrightarrow> ?thesis"
    using exponent.contribute_at_view [of "ir_exp r" n "(k, x)" "ConflictingPayload ''open-in-exponent'' n s" s]
    by (auto simp: on_behalf_of_def insert_exp_for_kind_def exp_registry_def instance_good_def party_view_def intro: adds_contributionI split: prod.splits)
next
  case G2
  then show "instance_good r \<Longrightarrow> ?thesis"
    using exponent.contribute_at_view [of "ir_exp_g2 r" n "(k, x)" "ConflictingPayload ''open-in-exponent'' n s" s]
    by (auto simp: on_behalf_of_def insert_exp_for_kind_def exp_registry_def instance_good_def party_view_def intro: adds_contributionI split: prod.splits)
qed

lemma insert_rbc_view: "instance_good r \<Longrightarrow> on_behalf_of s r (on_rbc (insert_rbc_broadcast n s m) r)"
  by (auto simp: on_behalf_of_def on_rbc_def insert_rbc_broadcast_def instance_good_def party_view_def heq.get_insert intro: adds_contributionI split: option.splits)

lemma on_behalf_map_err: "on_behalf_of s r (f r) \<Longrightarrow> on_behalf_of s r (mmap_err g f r)"
  by (auto simp: on_behalf_of_def mmap_err_def map_err_def split: prod.splits sum.splits)

lemma on_behalf_read: "instance_good r \<Longrightarrow> (\<And>n. on_behalf_of s r (f n r)) \<Longrightarrow> on_behalf_of s r (mbind (mread (\<lambda>_. x)) f r)"
  by (cases x) (auto simp: mbind_def mread_def on_behalf_of_def)

lemma insert_message_view: "instance_good r \<Longrightarrow> on_behalf_of (snd (message_ids m)) r (insert_message m r)"
  by (cases m) (auto intro!: on_behalf_map_err on_behalf_read insert_single_view insert_batch_view insert_rbc_view)

lemma insert_point_view: "instance_good r \<Longrightarrow> on_behalf_of (xw_sender_party_id m) r (insert_point kind m r)"
  by (auto simp: insert_point_def insert_exp_def insert_exp_g2_def split: exp_kind.split
      intro!: on_behalf_map_err on_behalf_read insert_exp_view)

text \<open>The same of a handler on the router; one without an authenticated sender changes nothing.\<close>

definition authentic_outcome :: "usize \<Rightarrow> open_router \<Rightarrow> wire_error + bool \<Rightarrow> open_router \<Rightarrow> bool" where
  "authentic_outcome s w res w' \<longleftrightarrow>
     router_good w' \<and> only_adds s w w' \<and> (\<forall>ref p. p \<noteq> s \<longrightarrow> contributions w' ref p = contributions w ref p) \<and>
     (res \<noteq> Inr True \<or> s = UNKNOWN_SENDER_ID \<longrightarrow> w' = w) \<and> (res = Inr True \<longrightarrow> s \<noteq> UNKNOWN_SENDER_ID) \<and>
     (s \<le> usize_max \<longrightarrow> res \<noteq> Inl ShareIdOverflow)"

definition authentic :: "usize \<Rightarrow> (byte list \<Rightarrow> (open_router, wire_error, bool) meth) \<Rightarrow> bool" where
  "authentic s h \<longleftrightarrow> (\<forall>payload w res w'. router_good w \<longrightarrow> h payload w = (res, w') \<longrightarrow> authentic_outcome s w res w')"

definition no_overflow :: "('e + 'a) \<times> 's \<Rightarrow> 'e \<Rightarrow> bool" where
  "no_overflow out e \<longleftrightarrow> fst out \<noteq> Inl e"

lemma insert_no_overflow: "no_overflow (insert_message m r) ShareIdOverflow" "no_overflow (insert_point kind x r) ShareIdOverflow"
  by (cases m; auto simp: no_overflow_def mbind_def mread_def mmap_err_def map_err_def usize_try_from_def insert_point_def split: prod.splits sum.splits)+

lemma with_registry_authentic:
  assumes w: "router_good w" and f: "\<And>r. instance_good r \<Longrightarrow> on_behalf_of s r (f r)" "\<And>r. no_overflow (f r) ShareIdOverflow"
    and out: "with_registry i f w = (res, w')"
  shows "router_good w' \<and> only_adds s w w' \<and> (\<forall>ref p. p \<noteq> s \<longrightarrow> contributions w' ref p = contributions w ref p) \<and>
    (res \<noteq> Inr True \<longrightarrow> w' = w) \<and> res \<noteq> Inl ShareIdOverflow"
proof (cases "get_instance_registry w i")
  case None
  then show ?thesis using w out by (auto simp: with_registry_def only_adds_def)
next
  case (Some p)
  then obtain ref r where p: "p = (ref, r)" "or_store w ref = Some r"
    by (auto simp: get_instance_registry_def split: option.splits)
  obtain x r' where fr: "f r = (x, r')" by fastforce
  have o: "on_behalf_of s r (x, r')" using f(1) [of r] w p(2) fr by (auto simp: router_good_def)
  have w': "res = map_ok (\<lambda>_. True) x" "w' = w\<lparr>or_store := (or_store w)(ref \<mapsto> r')\<rparr>" using out Some p(1) fr by (auto simp: with_registry_def)
  have "w' = w" if "r' = r" using w'(2) that p(2) by (simp add: fun_upd_idem)
  moreover have "x \<noteq> Inl ShareIdOverflow" using f(2) [of r] fr by (simp add: no_overflow_def)
  moreover have "only_adds s w w'"
    using o w'(2) p(2) \<open>r' = r \<Longrightarrow> w' = w\<close> unfolding only_adds_def on_behalf_of_def snd_conv by blast
  ultimately show ?thesis using o w w' p(2)
    by (cases x) (auto simp: on_behalf_of_def router_good_def contributions_def)
qed

lemma authenticate_Inr: "authenticate a s = Inr u \<longleftrightarrow> s = a \<and> a \<noteq> UNKNOWN_SENDER_ID"
  by (auto simp: authenticate_def)

lemma authenticate_Inl: "authenticate a s = Inl e \<Longrightarrow> e \<noteq> ShareIdOverflow"
  by (auto simp: authenticate_def split: if_splits)

lemma decode_body_Inl: "decode_body de body = Inl e \<Longrightarrow> e \<noteq> ShareIdOverflow"
  by (auto simp: decode_body_def map_err_def split: if_splits sum.splits)

lemma wire_message_authentic: "authentic s (try_handle_wire_message de s)"
  unfolding authentic_def
proof (intro allI impI)
  fix payload w res w'
  assume w: "router_good w" and h: "try_handle_wire_message de s payload w = (res, w')"
  let ?done = "(res = Inr False \<or> (\<exists>e. res = Inl e \<and> e \<noteq> ShareIdOverflow)) \<and> w' = w"
  have "?done \<or> (\<exists>m. s \<noteq> UNKNOWN_SENDER_ID \<and> snd (message_ids m) = s \<and> with_registry (fst (message_ids m)) (insert_message m) w = (res, w'))"
    using h by (auto simp: try_handle_wire_message_def authenticate_Inr split: option.splits sum.splits
        dest: decode_body_Inl authenticate_Inl)
  then show "authentic_outcome s w res w'"
    using with_registry_authentic [OF w insert_message_view insert_no_overflow(1)] w unfolding authentic_outcome_def only_adds_def by auto
qed

lemma exp_message_authentic:
  assumes "\<And>s. s \<noteq> UNKNOWN_SENDER_ID \<Longrightarrow> s \<le> usize_max \<Longrightarrow> share_id_of s \<noteq> None"
  shows "authentic s (handle_exp_wire_message prefix share_id_of kind de s)"
  unfolding authentic_def
proof (intro allI impI)
  fix payload w res w'
  assume w: "router_good w" and h: "handle_exp_wire_message prefix share_id_of kind de s payload w = (res, w')"
  let ?done = "(res = Inr False \<or> (\<exists>e. res = Inl e \<and> (s \<le> usize_max \<longrightarrow> e \<noteq> ShareIdOverflow))) \<and> w' = w"
  have "?done \<or> (\<exists>m. s \<noteq> UNKNOWN_SENDER_ID \<and> xw_sender_party_id m = s \<and> with_registry (xw_instance_id m) (insert_point kind m) w = (res, w'))"
    using h assms [of s] by (auto simp: handle_exp_wire_message_def authenticate_Inr split: option.splits sum.splits if_splits
        dest: decode_body_Inl authenticate_Inl)
  then show "authentic_outcome s w res w'"
    using with_registry_authentic [OF w insert_point_view [where kind = kind] insert_no_overflow(2) [where kind = kind]] w unfolding authentic_outcome_def only_adds_def by auto
qed

lemma dispatch_authentic: "(\<And>h. h \<in> set hs \<Longrightarrow> authentic s h) \<Longrightarrow> authentic s (dispatch hs)"
proof (induction hs)
  case Nil
  then show ?case by (auto simp: authentic_def authentic_outcome_def only_adds_def)
next
  case (Cons h hs)
  then have h: "authentic s h" and hs: "authentic s (dispatch hs)" by simp_all
  show ?case
    unfolding authentic_def
  proof (intro allI impI)
    fix payload w res w'
    assume w: "router_good w" and d: "dispatch (h # hs) payload w = (res, w')"
    obtain x v where x: "h payload w = (x, v)" by fastforce
    show "authentic_outcome s w res w'"
    proof (cases "x = Inr False")
      case True
      then have "v = w" "dispatch hs payload w = (res, w')" using h w d x unfolding authentic_def authentic_outcome_def by fastforce+
      then show ?thesis using hs w unfolding authentic_def by blast
    next
      case False
      then have "x = res" "v = w'" using d x by (auto split: sum.splits bool.splits)
      then show ?thesis using h w x unfolding authentic_def by blast
    qed
  qed
qed

lemma receive_authentic:
  "authentic (sender_of remote) (hb_receive de dex remote)" "authentic s (avss_receive de dex s)"
proof -
  show "authentic (sender_of remote) (hb_receive de dex remote)"
    unfolding hb_receive_def Let_def try_handle_hb_open_exp_wire_message_def
    by (rule dispatch_authentic) (auto intro: wire_message_authentic exp_message_authentic)
  show "authentic s (avss_receive de dex s)"
    unfolding avss_receive_def
      try_handle_avss_open_exp_wire_message_def [abs_def] try_handle_avss_g2_exp_wire_message_def [abs_def] try_handle_avss_exp_wire_message_def [abs_def]
    by (rule dispatch_authentic) (auto intro!: wire_message_authentic exp_message_authentic
        simp: checked_add_usize_def UNKNOWN_SENDER_ID_def)
qed

section \<open>Delivery of encoded messages\<close>

lemma wire_body_append: "wire_body prefix (prefix @ bs) = Some bs"
  by (simp add: wire_body_def)

lemma wire_body_other: "length p = length q \<Longrightarrow> p \<noteq> q \<Longrightarrow> wire_body p (q @ bs) = None"
  by (simp add: wire_body_def)

lemmas wire_prefixes = OPEN_REGISTRY_WIRE_PREFIX_def HB_EXP_OPEN_WIRE_PREFIX_def AVSS_EXP_WIRE_PREFIX_def AVSS_G2_EXP_WIRE_PREFIX_def

lemma framed_Inr: "framed prefix enc = Inr payload \<longleftrightarrow> (\<exists>bs. enc = Inr bs \<and> payload = prefix @ bs)"
  by (auto simp: framed_def map_ok_Inr_iff)

lemma prefix_simps [simp]:
  "length OPEN_REGISTRY_WIRE_PREFIX = 4" "length HB_EXP_OPEN_WIRE_PREFIX = 4" "length AVSS_EXP_WIRE_PREFIX = 4" "length AVSS_G2_EXP_WIRE_PREFIX = 4"
  "OPEN_REGISTRY_WIRE_PREFIX \<noteq> HB_EXP_OPEN_WIRE_PREFIX" "OPEN_REGISTRY_WIRE_PREFIX \<noteq> AVSS_EXP_WIRE_PREFIX"
  "OPEN_REGISTRY_WIRE_PREFIX \<noteq> AVSS_G2_EXP_WIRE_PREFIX" "AVSS_EXP_WIRE_PREFIX \<noteq> AVSS_G2_EXP_WIRE_PREFIX"
  "HB_EXP_OPEN_WIRE_PREFIX \<noteq> OPEN_REGISTRY_WIRE_PREFIX" "AVSS_EXP_WIRE_PREFIX \<noteq> OPEN_REGISTRY_WIRE_PREFIX"
  "AVSS_G2_EXP_WIRE_PREFIX \<noteq> OPEN_REGISTRY_WIRE_PREFIX" "AVSS_G2_EXP_WIRE_PREFIX \<noteq> AVSS_EXP_WIRE_PREFIX"
  by (simp_all add: wire_prefixes)

lemma dispatch_take:
  "h payload w = with_registry i f w \<Longrightarrow> dispatch hs payload w = (Inr False, w) \<Longrightarrow> dispatch (h # hs) payload w = with_registry i f w"
  by (auto simp: with_registry_def map_ok_def split: option.splits prod.splits sum.splits)

lemma dispatch_skip: "h payload w = (Inr False, w) \<Longrightarrow> dispatch (h # hs) payload w = dispatch hs payload w"
  by simp

text \<open>Each handler on its own format, and on the formats of the others.\<close>

lemma handles_message:
  assumes "de bs = Inr m" "length bs \<le> MAX_WIRE_MESSAGE_LEN" "snd (message_ids m) \<noteq> UNKNOWN_SENDER_ID"
  shows "try_handle_wire_message de (snd (message_ids m)) (OPEN_REGISTRY_WIRE_PREFIX @ bs) w = with_registry (fst (message_ids m)) (insert_message m) w"
  using assms by (simp add: try_handle_wire_message_def wire_body_append decode_body_def authenticate_def)

lemma handles_point:
  assumes "dex bs = Inr m" "length bs \<le> MAX_WIRE_MESSAGE_LEN" "xw_sender_party_id m \<noteq> UNKNOWN_SENDER_ID"
    "share_id_of (xw_sender_party_id m) = Some (xw_share_id m)"
  shows "handle_exp_wire_message prefix share_id_of kind dex (xw_sender_party_id m) (prefix @ bs) w =
    with_registry (xw_instance_id m) (insert_point kind m) w"
  using assms by (simp add: handle_exp_wire_message_def wire_body_append decode_body_def authenticate_def)

lemma leaves_others:
  "length prefix = 4 \<Longrightarrow> prefix \<noteq> OPEN_REGISTRY_WIRE_PREFIX \<Longrightarrow> try_handle_wire_message de s (prefix @ bs) w = (Inr False, w)"
  "length prefix = length prefix' \<Longrightarrow> prefix \<noteq> prefix' \<Longrightarrow> handle_exp_wire_message prefix' f kind dex s (prefix @ bs) w = (Inr False, w)"
  by (auto simp: try_handle_wire_message_def handle_exp_wire_message_def wire_body_other [OF _ not_sym] OPEN_REGISTRY_WIRE_PREFIX_def wire_body_def)

lemma usize_seq: "seq \<le> usize_max \<Longrightarrow> mbind (mread (\<lambda>_. usize_try_from seq)) f = f seq"
  by (rule ext) (simp add: mbind_def mread_def usize_try_from_def)

lemmas exp_handlers = try_handle_hb_open_exp_wire_message_def try_handle_avss_open_exp_wire_message_def
  try_handle_avss_g2_exp_wire_message_def try_handle_avss_exp_wire_message_def

lemma receives_message:
  assumes "de bs = Inr m" "length bs \<le> MAX_WIRE_MESSAGE_LEN" "snd (message_ids m) \<noteq> UNKNOWN_SENDER_ID"
  shows "hb_receive de dex (Some (snd (message_ids m))) (OPEN_REGISTRY_WIRE_PREFIX @ bs) w = with_registry (fst (message_ids m)) (insert_message m) w"
    "avss_receive de dex (snd (message_ids m)) (OPEN_REGISTRY_WIRE_PREFIX @ bs) w = with_registry (fst (message_ids m)) (insert_message m) w"
proof -
  note h = handles_message [of de bs m, OF assms]
  show "hb_receive de dex (Some (snd (message_ids m))) (OPEN_REGISTRY_WIRE_PREFIX @ bs) w = with_registry (fst (message_ids m)) (insert_message m) w"
    unfolding hb_receive_def sender_of_def Let_def option.case
    by (rule dispatch_take) (simp_all add: h exp_handlers leaves_others)
  show "avss_receive de dex (snd (message_ids m)) (OPEN_REGISTRY_WIRE_PREFIX @ bs) w = with_registry (fst (message_ids m)) (insert_message m) w"
    unfolding avss_receive_def
    by (rule dispatch_take) (simp_all add: h exp_handlers leaves_others)
qed

lemma receives_point:
  assumes "dex bs = Inr m" "length bs \<le> MAX_WIRE_MESSAGE_LEN" "xw_sender_party_id m < UNKNOWN_SENDER_ID"
  shows "xw_share_id m = xw_sender_party_id m \<Longrightarrow>
      hb_receive de dex (Some (xw_sender_party_id m)) (HB_EXP_OPEN_WIRE_PREFIX @ bs) w = with_registry (xw_instance_id m) (insert_point G1 m) w"
    "xw_share_id m = xw_sender_party_id m + 1 \<Longrightarrow>
      avss_receive de dex (xw_sender_party_id m) (AVSS_EXP_WIRE_PREFIX @ bs) w = with_registry (xw_instance_id m) (insert_point G1 m) w"
    "xw_share_id m = xw_sender_party_id m + 1 \<Longrightarrow>
      avss_receive de dex (xw_sender_party_id m) (AVSS_G2_EXP_WIRE_PREFIX @ bs) w = with_registry (xw_instance_id m) (insert_point G2 m) w"
proof -
  have s: "xw_sender_party_id m \<noteq> UNKNOWN_SENDER_ID" "checked_add_usize (xw_sender_party_id m) 1 = Some (xw_sender_party_id m + 1)"
    using assms(3) by (auto simp: UNKNOWN_SENDER_ID_def checked_add_usize_def)
  note h = handles_point [of dex bs m, OF assms(1,2) s(1)]
  show "hb_receive de dex (Some (xw_sender_party_id m)) (HB_EXP_OPEN_WIRE_PREFIX @ bs) w = with_registry (xw_instance_id m) (insert_point G1 m) w"
    if "xw_share_id m = xw_sender_party_id m"
    unfolding hb_receive_def sender_of_def Let_def option.case
    by (simp del: dispatch.simps(2) add: exp_handlers leaves_others dispatch_skip dispatch_take h that s(2) [simplified])
  show "avss_receive de dex (xw_sender_party_id m) (AVSS_EXP_WIRE_PREFIX @ bs) w = with_registry (xw_instance_id m) (insert_point G1 m) w"
    if "xw_share_id m = xw_sender_party_id m + 1"
    unfolding avss_receive_def
    by (simp del: dispatch.simps(2) add: exp_handlers leaves_others dispatch_skip dispatch_take h that s(2) [simplified])
  show "avss_receive de dex (xw_sender_party_id m) (AVSS_G2_EXP_WIRE_PREFIX @ bs) w = with_registry (xw_instance_id m) (insert_point G2 m) w"
    if "xw_share_id m = xw_sender_party_id m + 1"
    unfolding avss_receive_def
    by (simp del: dispatch.simps(2) add: exp_handlers leaves_others dispatch_skip dispatch_take h that s(2) [simplified])
qed

section \<open>Properties\<close>

lemma new_registry_good: "instance_good (instance_registry_new i)"
  by (simp add: instance_good_def instance_registry_new_def entries_good_def registry_good_def)

lemma router_operations_good:
  "router_good open_router_new" "router_good w \<Longrightarrow> router_good (snd (register_instance i w))"
  "router_good w \<Longrightarrow> router_good (router_clear w)" "router_good w \<Longrightarrow> router_good (drop_registry ref w)"
  by (auto simp: router_good_def open_router_new_def register_instance_def register_entry_def router_clear_def drop_registry_def
      new_registry_good split: option.splits)

text \<open>An instance keeps its registry as long as an engine owns it; then a new one is made.\<close>

lemma register_instance_idempotent:
  "register_instance i w = (ref, w') \<Longrightarrow> register_instance i w' = (ref, w') \<and>
   (get_instance_registry w i = None \<longrightarrow> get_instance_registry w' i = Some (ref, instance_registry_new i))"
  by (auto simp: register_instance_def register_entry_def get_instance_registry_def heq.get_insert split: option.splits)

text \<open>C8: Authenticity of what the network adds. Whatever bytes a peer sends to a HoneyBadger or AVSS
  receive loop, and whatever the decoder makes of them, the router is left as it was or one registry
  gets one contribution or broadcast of the authenticated sender where the sender had none, and nothing
  else of the router or of any registry changes: not the routes, the stored results, the deliveries or
  the identities, and no contribution or broadcast of another party. The registries stay well formed.
  A payload that is not accepted changes nothing, a connection without an authenticated party adds
  nothing, and computing the share identifier of an AVSS point never overflows.
\<close>

theorem wire_messages_authenticated:
  assumes "router_good w"
    and "hb_receive de dex remote payload w = (res, w') \<and> s = sender_of remote \<or> avss_receive de dex s payload w = (res, w')"
  shows "router_good w' \<and> only_adds s w w' \<and> (\<forall>ref p. p \<noteq> s \<longrightarrow> contributions w' ref p = contributions w ref p) \<and>
    (res \<noteq> Inr True \<longrightarrow> w' = w) \<and> (s = UNKNOWN_SENDER_ID \<longrightarrow> w' = w \<and> res \<noteq> Inr True) \<and>
    (s \<le> usize_max \<longrightarrow> res \<noteq> Inl ShareIdOverflow)"
proof -
  have "authentic_outcome s w res w'"
    using assms receive_authentic(1) [of remote de dex] receive_authentic(2) [of s de dex] unfolding authentic_def by blast
  then show ?thesis unfolding authentic_outcome_def by blast
qed

text \<open>A decoder that reads every body as a share of party 1 for instance 7.\<close>

definition sample_decoder :: "byte list \<Rightarrow> string + open_registry_wire_message" where
  "sample_decoder bs = Inr (WireSingle 7 0 ''t'' 1 bs)"

definition sample_router :: open_router where
  "sample_router = snd (register_instance 7 open_router_new)"

lemma sample_receive:
  "hb_receive sample_decoder dex (Some 1) [79, 80, 78, 49, 5] sample_router =
     (Inr True, sample_router\<lparr>or_store := [0 \<mapsto> (instance_registry_new 7)
        \<lparr>ir_single := [((0, ''t''), \<lparr>oa_shares = [[5]], oa_party_ids = [1], oa_result = None\<rparr>)]\<rparr>]\<rparr>)"
  by (simp add: hb_receive_def sender_of_def try_handle_wire_message_def wire_body_def decode_body_def sample_decoder_def
      OPEN_REGISTRY_WIRE_PREFIX_def MAX_WIRE_MESSAGE_LEN_def authenticate_def UNKNOWN_SENDER_ID_def usize_max_def with_registry_def
      sample_router_def register_instance_def register_entry_def open_router_new_def get_instance_registry_def
      instance_registry_new_def mbind_def mread_def usize_try_from_def mmap_err_def insert_single_def on_single_def contribute_at_def
      entry_of_def single_ops_def position_def Let_def)

theorem wire_messages_authenticated_witness:
  "router_good sample_router \<and> fst (hb_receive sample_decoder (\<lambda>_. Inl ''none'') (Some 1) [79, 80, 78, 49, 5] sample_router) = Inr True \<and>
   contributions (snd (hb_receive sample_decoder (\<lambda>_. Inl ''none'') (Some 1) [79, 80, 78, 49, 5] sample_router)) 0 2 =
     contributions sample_router 0 2 \<and>
   snd (hb_receive sample_decoder (\<lambda>_. Inl ''none'') None [79, 80, 78, 49, 5] sample_router) = sample_router"
proof -
  let ?h = "\<lambda>remote. hb_receive sample_decoder (\<lambda>_. Inl ''none'') remote [79, 80, 78, 49, 5] sample_router"
  have good: "router_good sample_router" unfolding sample_router_def by (intro router_operations_good)
  have "contributions (snd (?h (Some 1))) 0 2 = contributions sample_router 0 2"
    using wire_messages_authenticated [OF good, of sample_decoder "\<lambda>_. Inl ''none''" "Some 1" "[79, 80, 78, 49, 5]" "fst (?h (Some 1))" "snd (?h (Some 1))" 1]
    by (simp add: sender_of_def)
  moreover have "snd (?h None) = sample_router"
    using wire_messages_authenticated [OF good, of sample_decoder "\<lambda>_. Inl ''none''" None "[79, 80, 78, 49, 5]" "fst (?h None)" "snd (?h None)" UNKNOWN_SENDER_ID]
    by (simp add: sender_of_def)
  ultimately show ?thesis using good sample_receive [of "\<lambda>_. Inl ''none''"] by simp
qed

text \<open>C13: Delivery of encoded messages. A message encoded for the wire and received from its sender goes
  through exactly one handler of each receive loop and has the effect of the insertion it stands for on
  the registry of its instance: shares, batches and broadcasts in both loops, points of HoneyBadger
  with the party as share identifier, points of AVSS in either group with its successor. The serializer
  is assumed to be inverted by the deserializer, and the body to be within the limit.
\<close>

theorem wire_round_trip:
  assumes ser: "\<And>m bs. ser m = Inr bs \<Longrightarrow> de bs = Inr m" "\<And>m bs. serx m = Inr bs \<Longrightarrow> dex bs = Inr m"
    and s: "s < UNKNOWN_SENDER_ID" and seq: "seq \<le> usize_max" and len: "length payload \<le> 4 + MAX_WIRE_MESSAGE_LEN"
  shows "(encode_single_share_wire_message ser i seq t s share = Inr payload \<longrightarrow>
      hb_receive de dex (Some s) payload w = with_registry i (mmap_err RegistryRefused (insert_single seq t s share)) w \<and>
      avss_receive de dex s payload w = with_registry i (mmap_err RegistryRefused (insert_single seq t s share)) w) \<and>
    (encode_batch_share_wire_message ser i seq t s shares = Inr payload \<longrightarrow>
      hb_receive de dex (Some s) payload w = with_registry i (mmap_err RegistryRefused (insert_batch seq t s shares)) w \<and>
      avss_receive de dex s payload w = with_registry i (mmap_err RegistryRefused (insert_batch seq t s shares)) w) \<and>
    (encode_rbc_wire_message ser i seq s share = Inr payload \<longrightarrow>
      hb_receive de dex (Some s) payload w = with_registry i (mmap_err RbcRefused (on_rbc (insert_rbc_broadcast seq s share))) w \<and>
      avss_receive de dex s payload w = with_registry i (mmap_err RbcRefused (on_rbc (insert_rbc_broadcast seq s share))) w) \<and>
    (encode_hb_open_exp_wire_message serx i seq s s share = Inr payload \<longrightarrow>
      hb_receive de dex (Some s) payload w = with_registry i (mmap_err RegistryRefused (insert_exp seq s s share)) w) \<and>
    (encode_avss_open_exp_wire_message serx i seq s (s + 1) share = Inr payload \<longrightarrow>
      avss_receive de dex s payload w = with_registry i (mmap_err RegistryRefused (insert_exp seq s (s + 1) share)) w) \<and>
    (encode_avss_g2_open_exp_wire_message serx i seq s (s + 1) share = Inr payload \<longrightarrow>
      avss_receive de dex s payload w = with_registry i (mmap_err RegistryRefused (insert_exp_g2 seq s (s + 1) share)) w)"
proof -
  have m: "hb_receive de dex (Some s) payload w = with_registry i (insert_message m) w \<and> avss_receive de dex s payload w = with_registry i (insert_message m) w"
    if "framed OPEN_REGISTRY_WIRE_PREFIX (ser m) = Inr payload" "message_ids m = (i, s)" for m
    using that receives_message [of de _ m, OF ser(1)] s len by (auto simp: framed_Inr)
  let ?x = "\<lambda>k. \<lparr>xw_instance_id = i, xw_seq = seq, xw_sender_party_id = s, xw_share_id = k, xw_partial_point = share\<rparr>"
  have p: "framed HB_EXP_OPEN_WIRE_PREFIX (serx (?x s)) = Inr payload \<Longrightarrow> hb_receive de dex (Some s) payload w = with_registry i (insert_point G1 (?x s)) w"
    "framed AVSS_EXP_WIRE_PREFIX (serx (?x (s + 1))) = Inr payload \<Longrightarrow> avss_receive de dex s payload w = with_registry i (insert_point G1 (?x (s + 1))) w"
    "framed AVSS_G2_EXP_WIRE_PREFIX (serx (?x (s + 1))) = Inr payload \<Longrightarrow> avss_receive de dex s payload w = with_registry i (insert_point G2 (?x (s + 1))) w"
    using receives_point [of dex _ "?x s" de w, OF ser(2)] receives_point [of dex _ "?x (s + 1)" de w, OF ser(2)] s len
    by (auto simp: framed_Inr)
  show ?thesis
    using m [of "WireSingle i seq t s share"] m [of "WireBatch i seq t s shares"] m [of "WireRbc i seq s share"] p
    by (simp add: encode_single_share_wire_message_def encode_batch_share_wire_message_def encode_rbc_wire_message_def
        encode_hb_open_exp_wire_message_def encode_avss_open_exp_wire_message_def encode_avss_g2_open_exp_wire_message_def
        encode_exp_open_wire_message_def insert_point_def usize_seq [OF seq])
qed

text \<open>A codec of one share message and one point.\<close>

definition sample_message :: open_registry_wire_message where
  "sample_message = WireSingle 7 0 ''t'' 1 [9]"

definition sample_point :: exp_open_wire_message where
  "sample_point = \<lparr>xw_instance_id = 7, xw_seq = 0, xw_sender_party_id = 1, xw_share_id = 1, xw_partial_point = [8]\<rparr>"

definition sample_ser :: "open_registry_wire_message \<Rightarrow> string + byte list" where
  "sample_ser m = (if m = sample_message then Inr [1] else Inl ''unsupported'')"

definition sample_de :: "byte list \<Rightarrow> string + open_registry_wire_message" where
  "sample_de bs = (if bs = [1] then Inr sample_message else Inl ''malformed'')"

definition sample_serx :: "exp_open_wire_message \<Rightarrow> string + byte list" where
  "sample_serx x = (if x = sample_point then Inr [2] else Inl ''unsupported'')"

definition sample_dex :: "byte list \<Rightarrow> string + exp_open_wire_message" where
  "sample_dex bs = (if bs = [2] then Inr sample_point else Inl ''malformed'')"

lemmas sample_codec = sample_ser_def sample_de_def sample_serx_def sample_dex_def sample_message_def sample_point_def

theorem wire_round_trip_witness:
  "encode_single_share_wire_message sample_ser 7 0 ''t'' 1 [9] = Inr [79, 80, 78, 49, 1] \<and>
    hb_receive sample_de sample_dex (Some 1) [79, 80, 78, 49, 1] sample_router =
      with_registry 7 (mmap_err RegistryRefused (insert_single 0 ''t'' 1 [9])) sample_router \<and>
    encode_hb_open_exp_wire_message sample_serx 7 0 1 1 [8] = Inr [88, 79, 80, 49, 2] \<and>
    hb_receive sample_de sample_dex (Some 1) [88, 79, 80, 49, 2] sample_router =
      with_registry 7 (mmap_err RegistryRefused (insert_exp 0 1 1 [8])) sample_router"
proof -
  have enc: "encode_single_share_wire_message sample_ser 7 0 ''t'' 1 [9] = Inr [79, 80, 78, 49, 1]"
    "encode_hb_open_exp_wire_message sample_serx 7 0 1 1 [8] = Inr [88, 79, 80, 49, 2]"
    by (simp_all add: encode_single_share_wire_message_def encode_hb_open_exp_wire_message_def encode_exp_open_wire_message_def
        framed_def sample_codec wire_prefixes)
  have codec: "\<And>m' bs. sample_ser m' = Inr bs \<Longrightarrow> sample_de bs = Inr m'" "\<And>x' bs. sample_serx x' = Inr bs \<Longrightarrow> sample_dex bs = Inr x'"
    by (auto simp: sample_codec split: if_splits)
  have "hb_receive sample_de sample_dex (Some 1) [79, 80, 78, 49, 1] sample_router =
      with_registry 7 (mmap_err RegistryRefused (insert_single 0 ''t'' 1 [9])) sample_router"
    using wire_round_trip [of sample_ser sample_de sample_serx sample_dex 1 0 "[79, 80, 78, 49, 1]" 7 "''t''" "[9]" sample_router, OF codec] enc(1)
    by (simp add: UNKNOWN_SENDER_ID_def usize_max_def MAX_WIRE_MESSAGE_LEN_def)
  moreover have "hb_receive sample_de sample_dex (Some 1) [88, 79, 80, 49, 2] sample_router =
      with_registry 7 (mmap_err RegistryRefused (insert_exp 0 1 1 [8])) sample_router"
    using wire_round_trip [of sample_ser sample_de sample_serx sample_dex 1 0 "[88, 79, 80, 49, 2]" 7 "''t''" "[8]" sample_router, OF codec] enc(2)
    by (simp add: UNKNOWN_SENDER_ID_def usize_max_def MAX_WIRE_MESSAGE_LEN_def)
  ultimately show ?thesis using enc by simp
qed

end
