(* ===== verification/Spec2Isabelle.thy ===== *)
theory Spec2Isabelle
  imports Registers Table_Memory Value_Ops Runtime_Instruction Reveal_Batcher Transparency
    Straight_Line Machine_Invariant Register_Typing Program_Storage Register_Assignment Value_Roundtrip
    Reservation Open_Router
begin

text \<open>
  \<^bold>\<open>A verification of the Stoffel virtual machine and of the back end of its compiler.\<close>

  Stoffel compiles a small language to bytecode that a register machine runs. The registers of a
  frame fall into a clear bank and a secret bank; the secret bank holds secret shares, and moving a
  share to the clear bank reveals it through a multi-party computation (MPC) engine. Reveals are
  queued and opened in batches. Paths below are relative to \<open>src/crates/\<close>.

  \<^bold>\<open>The parts and how they interact.\<close> The compiler's back end (\<open>stoffel-lang\<close>) turns code on virtual
  registers into code on the banks of the machine: liveness analysis, linear scan, spill code,
  rewriting. Functions are written to a compiled binary (\<open>stoffel-vm-types\<close>), which the runner reads
  back whole or as a stream. Registration resolves labels, packs the instructions and keeps what a
  call needs. The machine (\<open>stoffel-vm\<close>) executes packed instructions in a loop over a stack of
  activation records; values live in registers, in the object store and in a persistent local
  store; operations on shares go to the engine, a record of its operations here.

  \<^bold>\<open>Conventions.\<close> A Rust \<open>Result\<close> is a sum with the error on the left; a method on \<open>&mut self\<close> is a
  function from the state to its result and the state it leaves, also when it fails (\<open>meth\<close>, with
  \<open>mbind\<close>). A \<open>HashMap\<close> is an association list with the key equality of the source, and one order of
  its entries stands for the order of iteration. Machine integers are words, \<open>usize\<close> is \<open>nat\<close> with
  the checks of the source against 64 bits. Floats are their 64 bits.

  \<^bold>\<open>The theories.\<close>

  \<^item> \<open>Prelude\<close>: results, methods, hash maps (locale \<open>key_eq\<close>), checked arithmetic, bytes. \<open>Float64\<close>:
    IEEE 754 doubles as integers of units, with the normalised equality of \<open>F64\<close>. \<open>Values\<close>: values,
    share types, share data and the error enumerations of \<open>core_types.rs\<close>.
  \<^item> \<open>Registers\<close> (\<open>registers.rs\<close>): the two banks refine one vector of slots
    (\<open>register_file_refines_slots\<close>). \<open>Table_Memory\<close> (\<open>core_types.rs\<close>): arrays and the object store;
    array operations refine list operations, a written field reads back and others keep their value
    (locale \<open>table_memory\<close>, interpreted for objects and arrays).
  \<^item> \<open>Value_Ops\<close> (\<open>runtime_value_ops/\<close>, \<open>value_conversions.rs\<close>): clear arithmetic is exact or an
    error, comparison is the order of the numbers up to a proved exception, secret booleans follow the
    truth tables. \<open>Share_Runtime\<close>, \<open>Share_Objects\<close> (\<open>net/share_runtime/\<close>, \<open>mpc_values/\<close>): the engine
    interface and share objects with their round trip.
  \<^item> \<open>Bytecode\<close> (\<open>instructions.rs\<close>, \<open>functions.rs\<close>): resolution of labels, constants and call targets.
    \<open>Runtime_Instruction\<close> (\<open>runtime_instruction.rs\<close>): packing and decoding; lowered code decodes to its
    source, and lowering from a stream agrees with it.
  \<^item> \<open>Byte_Codec\<close>, \<open>Binary_Format\<close>, \<open>Binary_Roundtrip\<close> (\<open>compiled_binary.rs\<close>): the file format at every
    version; \<open>serialize\<close> accepts exactly the binaries that fit, and \<open>deserialize\<close> reads them back
    (locale \<open>codec\<close>). \<open>Binary_Loading\<close>, \<open>Load_Equivalence\<close>, \<open>Program_Storage\<close>: conversion to and from
    functions and the two loaders of \<open>stoffel-run.rs\<close>; streaming agrees with loading whole, and a saved
    program loads.
  \<^item> \<open>Program\<close> (\<open>program.rs\<close>), \<open>Activation\<close> (\<open>activations.rs\<close>), \<open>Frames\<close> (\<open>vm_state.rs\<close>,
    \<open>vm_state/frame.rs\<close>, \<open>register_access.rs\<close>), \<open>Interpreter\<close> (\<open>vm_state/instructions.rs\<close>), \<open>Calls\<close>
    (\<open>vm_state/calls.rs\<close>, \<open>upvalues.rs\<close>, \<open>execution.rs\<close>): the machine, one definition per method.
    \<open>Reveal_Batcher\<close> (\<open>net/reveal_batcher.rs\<close>): the indexed queue refines an ordered map, and a flush
    opens each share.
  \<^item> Properties of the machine: \<open>Fast_Paths\<close> (fast and general paths agree), \<open>Caches\<close> (both caches are
    transparent), \<open>Machine_Invariant\<close> (reachable states are well formed, a queued reveal is delivered),
    \<open>Register_Typing\<close> (secret registers hold shares, as long as only such values are reloaded into
    them), \<open>Locality\<close> and \<open>Straight_Line\<close> (an instruction changes only its frame; code without calls and
    backward jumps terminates), \<open>Simulation\<close> and \<open>Transparency\<close> (a run that opens every share at once and
    spills no register that awaits one is matched by the batching machine).
  \<^item> The back end of the compiler: \<open>Liveness\<close>, \<open>Linear_Scan\<close>, \<open>Allocation\<close> (\<open>register_allocator.rs\<close>),
    \<open>Spilling\<close>, \<open>Spill_Liveness\<close>, \<open>Register_Assignment\<close> (\<open>codegen.rs\<close>), over the small theory
    \<open>Forward_Simulation\<close> of deterministic systems. Each pass keeps the behaviour of the code, and so
    does their composition: the assigned code returns, fails, falls off the end or diverges as the code
    on virtual registers does (\<open>assigned_registers_correct\<close>), under two conditions. No register is live
    before its first definition in the layout; the generator does not ensure it, and
    \<open>early_use_is_clobbered\<close> shows that it is needed. And no spill instruction meets a register that
    awaits a share: on such a run the code fails, as the virtual machine does
    (\<open>spill_of_awaiting_register_fails\<close>). The machine of these theories (\<open>machine_step\<close>, \<open>vm_run\<close>) is a
    specification, for any meaning of the instructions and any moments at which registers await shares.
  \<^item> \<open>Value_Codec\<close>, \<open>Value_Persistence\<close>, \<open>Value_Roundtrip\<close> (\<open>storage/value_codec.rs\<close>,
    \<open>storage/local.rs\<close>): persistent values. The encoder accepts exactly the values that spell a finite
    tree of writable scalars; a stored value within the limits of the decoder is rebuilt by a load as
    the same tree in fresh tables; a share is refused under another context.
  \<^item> The state the parties share through the network (\<open>stoffel-vm/src/net/\<close>): \<open>Reservation\<close>
    (\<open>reservation.rs\<close>): in every interleaving of calls an index is granted once, filled by its holder
    only and consumed at most once, also across a restart. \<open>Open_Registry\<close> and \<open>Open_Agreement\<close>
    (\<open>open_registry/instance.rs\<close>, \<open>accumulators.rs\<close>): openers as a step relation over the accumulated
    shares; those that return for a key return the same value (locale \<open>accumulator\<close>, interpreted for
    shares, batches and points). \<open>Reliable_Broadcast\<close> (\<open>consensus.rs\<close>): each message is delivered once
    and the same to all, in order within a process. \<open>Open_Router\<close> (\<open>router.rs\<close>, \<open>wire.rs\<close>, the receive
    loops of \<open>hb_server.rs\<close> and \<open>avss_server.rs\<close>): a message adds at most one contribution of its
    authenticated sender and changes nothing else, and encoded messages arrive.

  \<^bold>\<open>Loops, fuel and bounds.\<close> The execution loop has no bound in the source; \<open>run_loop\<close> takes fuel and
  gives \<open>None\<close> when it is spent, the theorems about results hold for every fuel that suffices, and
  \<open>forward_code_terminates\<close> gives a fuel that does. The dataflow of \<open>Liveness\<close> is a \<open>while_option\<close>
  shown to stop; the rounds of spilling are bounded by the 64 of the source. The decoders of function
  types and of persistent values recurse with as much fuel as there are bytes left: each level reads
  its tag, and both satisfy the recursive equation of the source without fuel. The encoder of values is
  total because the tables it is inside of grow within a finite store.

  \<^bold>\<open>Parameters.\<close> The MPC engine, the host functions a program calls, the hash of the streaming
  loader, the digest of persistent shares, the serializer of wire messages and of reservations, and the
  key-value database are code outside the repository
  or host code; they are arguments of the definitions, and what a theorem uses of them is a
  hypothesis of it.

  \<^bold>\<open>Not modelled.\<close> The front end of the compiler and its optimiser (lexer, parser, semantic analysis,
  instruction selection, the pinning of hot constants) and the graph-colouring allocator that the code
  generator does not call; asynchronous effects (futures of an executor); hooks, which only observe
  execution; the MPC backends and connections, which are protocol crates and sockets behind the engine
  (clocks and notifications of the open registry only decide when a wait loop makes its next pass);
  the builtin functions and the C interface, which are host closures and raw pointers; the redb
  transactions; the identity of shared closures; the command line, the SDK, the bindings generator and
  the process glue of the runner.
\<close>

end
